(* ===== verification/Prelude.thy ===== *)
theory Prelude
  imports Complex_Main "HOL-Library.Word" "HOL-Library.Multiset"
begin

text \<open>
  Shared vocabulary of the development: names for the machine types of the C++ sources,
  the few operations of the C++ library the sources use (vector resize, truncating integer
  division, unsigned wrap-around), the error values, and generic lemmas on lists and folds
  that the component theories use.
\<close>

unbundle bit_operations_syntax

section \<open>Collections of facts\<close>

named_theorems cell_simps \<open>how the operations on KV cells act on a single cell\<close>
named_theorems cell_wf \<open>preservation of the well-formedness of KV cells\<close>

section \<open>Machine types\<close>

text \<open>
  \<open>llama_pos\<close> and \<open>llama_token\<close> are \<open>int32_t\<close>. Signed overflow is undefined behaviour in
  C++, so the model computes on \<open>int\<close> and is faithful for all executions without it.
  Unsigned counters are \<open>nat\<close>; where the code relies on (or suffers from) unsigned
  wrap-around the reduction modulo \<open>2 ^ 32\<close> is written out with \<open>u32\<close> and \<open>u32_sub\<close>.
  A finite IEEE single precision value is a rational number and comparisons between such
  values are exact, so \<open>float32\<close> is \<open>rat\<close>; wherever the code computes with floats the
  rounding function is an argument of the model.
\<close>

type_synonym llama_pos = int
type_synonym llama_token = int
type_synonym llama_seq_id = int
type_synonym float32 = rat
type_synonym byte = "8 word"

abbreviation LLAMA_MAX_SEQ :: nat where
  "LLAMA_MAX_SEQ \<equiv> 256"

definition LLAMA_TOKEN_NULL :: int where [simp]:
  "LLAMA_TOKEN_NULL = -1"

abbreviation INT32_MAX :: int where
  "INT32_MAX \<equiv> 2147483647"

abbreviation INT32_MIN :: int where
  "INT32_MIN \<equiv> - 2147483648"

definition u32 :: "nat \<Rightarrow> nat" where
  "u32 n = n mod 2 ^ 32"

definition u64 :: "nat \<Rightarrow> nat" where
  "u64 n = n mod 2 ^ 64"

definition u32_sub :: "nat \<Rightarrow> nat \<Rightarrow> nat" where
  "u32_sub a b = nat ((int a - int b) mod 2 ^ 32)"

text \<open>The conversion of an unsigned 32-bit value to \<open>int32_t\<close>.\<close>

definition to_i32 :: "nat \<Rightarrow> int" where
  "to_i32 n = (let m = int (u32 n) in if 2 ^ 31 \<le> m then m - 2 ^ 32 else m)"

text \<open>C++ integer division truncates towards zero.\<close>

definition trunc_div :: "int \<Rightarrow> int \<Rightarrow> int" where
  "trunc_div a b = sgn a * sgn b * (\<bar>a\<bar> div \<bar>b\<bar>)"

text \<open>\<open>std::vector::resize\<close>: truncate, or extend with the default value.\<close>

definition vec_resize :: "nat \<Rightarrow> 'a \<Rightarrow> 'a list \<Rightarrow> 'a list" where
  "vec_resize n d xs = take n xs @ replicate (n - length xs) d"

section \<open>Errors\<close>

text \<open>
  \<open>Assert_failed\<close> is a failed \<open>GGML_ASSERT\<close> or \<open>GGML_ABORT\<close> (the process aborts, in every
  build type); \<open>Exn\<close> is a C++ exception; \<open>Out_of_range\<close> is an access outside a vector, which C++ leaves undefined. The plain \<open>assert\<close> of the C library is compiled out
  of the release build and is a precondition of the lemmas instead.
\<close>

datatype err = Assert_failed | Exn string | Out_of_range

section \<open>Arithmetic\<close>

lemma u32_less [simp]: "n < 2 ^ 32 \<Longrightarrow> u32 n = n"
  by (simp add: u32_def)

lemma u64_less [simp]: "n < 2 ^ 64 \<Longrightarrow> u64 n = n"
  by (simp add: u64_def)

lemma u32_sub_exact: "b \<le> a \<Longrightarrow> a < 2 ^ 32 \<Longrightarrow> u32_sub a b = a - b"
  by (simp add: u32_sub_def of_nat_diff flip: of_nat_diff)

lemma u32_sub_wrap:
  assumes "a < b" "b < 2 ^ 32"
  shows "u32_sub a b = 2 ^ 32 - (b - a)"
proof -
  have "(int a - int b) mod 2 ^ 32 = (int a - int b + 2 ^ 32) mod 2 ^ 32"
    by simp
  also have "\<dots> = int a - int b + 2 ^ 32"
    using assms by (intro mod_pos_pos_trivial) auto
  finally show ?thesis
    using assms by (simp add: u32_sub_def nat_eq_iff of_nat_diff)
qed

lemma to_i32_exact: "n < 2 ^ 31 \<Longrightarrow> to_i32 n = int n"
  by (simp add: to_i32_def)

lemma flat_index: "(s :: nat) < n \<Longrightarrow> i < k \<Longrightarrow> s * k + i < n * k"
  using mult_le_mono1[of "Suc s" n k] by simp

lemma trunc_div_nonneg: "0 \<le> a \<Longrightarrow> 0 < b \<Longrightarrow> trunc_div a b = a div b"
  by (cases "a = 0") (auto simp: trunc_div_def)

lemma trunc_div_pos: "0 \<le> a \<Longrightarrow> 0 < b \<Longrightarrow> 0 \<le> trunc_div a b"
  by (simp add: trunc_div_nonneg pos_imp_zdiv_nonneg_iff)

text \<open>Clearing the low \<open>k\<close> bits rounds down to a multiple of \<open>2 ^ k\<close>.\<close>

lemma unat_clear_low:
  "unat ((w :: 'a::len word) AND NOT (mask k)) = unat w div 2 ^ k * 2 ^ k"
proof -
  have "w AND NOT (mask k) = push_bit k (drop_bit k w)"
    by (rule bit_word_eqI) (auto simp: bit_simps)
  then have "unat (w AND NOT (mask k)) = unat (push_bit k (drop_bit k w))" by simp
  also have "\<dots> = take_bit LENGTH('a) (push_bit k (drop_bit k (unat w)))"
    by (simp add: unsigned_push_bit_eq unsigned_drop_bit_eq)
       (simp add: take_bit_eq_mod unsigned_less)
  also have "\<dots> = unat w div 2 ^ k * 2 ^ k"
  proof -
    have "unat w div 2 ^ k * 2 ^ k \<le> unat w" by simp
    also have "unat w < 2 ^ LENGTH('a)" by (rule unsigned_less)
    finally show ?thesis by (simp add: push_bit_eq_mult drop_bit_eq_div take_bit_eq_mod)
  qed
  finally show ?thesis .
qed

lemma round_up_ge:
  fixes x n :: nat
  assumes "0 < n"
  shows "x \<le> (x + n - 1) div n * n"
proof -
  have "(x + n - 1) div n * n + (x + n - 1) mod n = x + n - 1" by (rule div_mult_mod_eq)
  moreover have "(x + n - 1) mod n < n" using assms by simp
  ultimately show ?thesis by linarith
qed

section \<open>Lists\<close>

lemma length_vec_resize [simp]: "length (vec_resize n d xs) = n"
  by (simp add: vec_resize_def)

lemma sum_list_map_le:
  "(\<And>x. x \<in> set xs \<Longrightarrow> f x \<le> (g x :: nat)) \<Longrightarrow> sum_list (map f xs) \<le> sum_list (map g xs)"
  by (induction xs) (auto intro: add_mono)

lemma filter_upt_card: "length (filter P [0..<n]) = card {i. i < n \<and> P i}"
proof -
  have "set (filter P [0..<n]) = {i. i < n \<and> P i}" by auto
  then show ?thesis
    by (metis distinct_card distinct_filter distinct_upt)
qed

section \<open>Searching an interval\<close>

lemma find_upt_Some: "find P [0..<n] = Some s \<longleftrightarrow> s < n \<and> P s \<and> (\<forall>j < s. \<not> P j)"
  by (auto simp: find_Some_iff)

lemma find_upt_None: "find P [0..<n] = None \<longleftrightarrow> (\<forall>j < n. \<not> P j)"
  by (auto simp: find_None_iff)

definition first_such :: "(nat \<Rightarrow> bool) \<Rightarrow> nat \<Rightarrow> nat" where
  "first_such P n = (case find P [0..<n] of None \<Rightarrow> n | Some i \<Rightarrow> i)"

lemma first_such_0 [simp]: "first_such P 0 = 0"
  by (simp add: first_such_def)

lemma first_such_le: "first_such P n \<le> n"
  by (auto simp: first_such_def find_upt_Some split: option.splits)

lemma first_such_iff: "k < n \<Longrightarrow> first_such P n = k \<longleftrightarrow> P k \<and> (\<forall>j < k. \<not> P j)"
  by (auto simp: first_such_def find_upt_Some find_upt_None split: option.splits)
     (metis linorder_neqE_nat)+

lemma first_such_none: "first_such P n = n \<longleftrightarrow> (\<forall>j < n. \<not> P j)"
  by (auto simp: first_such_def find_upt_Some find_upt_None split: option.splits)

lemma first_such_Suc:
  "first_such P (Suc m) = (if \<exists>j < m. P j then first_such P m else if P m then m else Suc m)"
proof (cases "\<exists>j < m. P j")
  case True
  then have "first_such P m < m" using first_such_le[of P m] first_such_none[of P m] by (metis le_neq_implies_less)
  then show ?thesis using True first_such_iff[of "first_such P m" m P] first_such_iff[of "first_such P m" "Suc m" P] by simp
next
  case False
  then show ?thesis using first_such_iff[of m "Suc m" P] first_such_none[of P "Suc m"] by (auto simp: less_Suc_eq)
qed

end
