(* ===== verification/KvCells.thy ===== *)
theory KvCells
  imports Prelude
begin

text \<open>
  The metadata of the KV cells, \<open>engine/src/llama-kv-cells.h\<close>: one record for the class
  \<open>llama_kv_cells\<close>, one definition per member function, the class invariant
  \<open>cells_wf\<close> (the redundant index structures \<open>used\<close> and \<open>seq_pos\<close> agree with the per-cell
  vectors) and its preservation, and the contract of a loop that visits every cell once
  (locale \<open>cell_sweep\<close>), which the cache operations of the next theory instantiate.
\<close>

section \<open>Data\<close>

record llama_kv_cell_ext =
  ext_x :: llama_pos
  ext_y :: llama_pos
  ext_tok :: llama_token

definition ext_default :: llama_kv_cell_ext where
  "ext_default = \<lparr>ext_x = 0, ext_y = 0, ext_tok = LLAMA_TOKEN_NULL\<rparr>"

definition is_2d_gt :: "llama_kv_cell_ext \<Rightarrow> llama_pos \<Rightarrow> llama_pos \<Rightarrow> bool" where
  "is_2d_gt e ox oy \<longleftrightarrow> ext_y e > oy \<or> (ext_y e = oy \<and> ext_x e > ox)"

text \<open>
  The bitset \<open>seq[i]\<close> is the set of its members; \<open>seq_pos\<close> is an array of
  \<open>LLAMA_MAX_SEQ\<close> ordered sets, here a function whose values at and above
  \<open>LLAMA_MAX_SEQ\<close> stay empty.
\<close>

record llama_kv_cells =
  c_has_shift :: bool
  c_used :: "nat set"
  c_pos :: "llama_pos list"
  c_ext :: "llama_kv_cell_ext list"
  c_score :: "float32 list"
  c_shift :: "llama_pos list"
  c_seq :: "nat set list"
  c_seq_pos :: "nat \<Rightarrow> (llama_pos \<times> nat) set"

section \<open>Operations\<close>

definition cells_new :: llama_kv_cells where
  "cells_new = \<lparr>c_has_shift = False, c_used = {}, c_pos = [], c_ext = [], c_score = [],
     c_shift = [], c_seq = [], c_seq_pos = (\<lambda>_. {})\<rparr>"

definition cells_size :: "llama_kv_cells \<Rightarrow> nat" where
  "cells_size c = length (c_pos c)"

definition cells_reset :: "llama_kv_cells \<Rightarrow> llama_kv_cells" where
  "cells_reset c =
     c\<lparr>c_pos := replicate (cells_size c) (-1),
       c_ext := replicate (cells_size c) ext_default,
       c_shift := replicate (cells_size c) 0,
       c_seq := replicate (cells_size c) {},
       c_score := replicate (cells_size c) 0,
       c_has_shift := False,
       c_used := {},
       c_seq_pos := (\<lambda>s. if s < LLAMA_MAX_SEQ then {} else c_seq_pos c s)\<rparr>"

definition cells_reset_shift :: "llama_kv_cells \<Rightarrow> llama_kv_cells" where
  "cells_reset_shift c = c\<lparr>c_has_shift := False, c_shift := replicate (length (c_shift c)) 0\<rparr>"

definition cells_resize :: "nat \<Rightarrow> llama_kv_cells \<Rightarrow> llama_kv_cells" where
  "cells_resize n c = cells_reset
     (c\<lparr>c_pos := vec_resize n 0 (c_pos c),
        c_ext := vec_resize n ext_default (c_ext c),
        c_shift := vec_resize n 0 (c_shift c),
        c_seq := vec_resize n {} (c_seq c),
        c_score := vec_resize n 0 (c_score c)\<rparr>)"

definition cells_is_empty :: "nat \<Rightarrow> llama_kv_cells \<Rightarrow> bool" where
  "cells_is_empty i c \<longleftrightarrow> c_pos c ! i = -1"

definition cells_get_used :: "llama_kv_cells \<Rightarrow> nat" where
  "cells_get_used c = card (c_used c)"

definition cells_used_min :: "llama_kv_cells \<Rightarrow> nat" where
  "cells_used_min c = (if c_used c = {} then 0 else Min (c_used c))"

definition cells_used_max_p1 :: "llama_kv_cells \<Rightarrow> nat" where
  "cells_used_max_p1 c = (if c_used c = {} then 0 else Max (c_used c) + 1)"

subsection \<open>The helpers that maintain \<open>seq_pos\<close>\<close>

definition seq_pos_dec :: "nat \<Rightarrow> nat \<Rightarrow> llama_kv_cells \<Rightarrow> llama_kv_cells" where
  "seq_pos_dec s i c =
     c\<lparr>c_seq_pos := (c_seq_pos c)(s := c_seq_pos c s - {(c_pos c ! i, i)})\<rparr>"

definition seq_pos_inc :: "nat \<Rightarrow> nat \<Rightarrow> llama_kv_cells \<Rightarrow> llama_kv_cells" where
  "seq_pos_inc s i c =
     c\<lparr>c_seq_pos := (c_seq_pos c)(s := insert (c_pos c ! i, i) (c_seq_pos c s))\<rparr>"

definition seq_pos_rm :: "nat \<Rightarrow> llama_kv_cells \<Rightarrow> llama_kv_cells" where
  "seq_pos_rm i c =
     fold (\<lambda>s c. if s \<in> c_seq c ! i then seq_pos_dec s i c else c) [0..<LLAMA_MAX_SEQ] c"

definition seq_pos_add :: "nat \<Rightarrow> llama_kv_cells \<Rightarrow> llama_kv_cells" where
  "seq_pos_add i c =
     fold (\<lambda>s c. if s \<in> c_seq c ! i then seq_pos_inc s i c else c) [0..<LLAMA_MAX_SEQ] c"

subsection \<open>Operations on one cell\<close>

definition cells_rm :: "nat \<Rightarrow> llama_kv_cells \<Rightarrow> llama_kv_cells" where
  "cells_rm i c0 =
     (let c = seq_pos_rm i c0 in
      c\<lparr>c_seq := (c_seq c)[i := {}], c_pos := (c_pos c)[i := -1],
        c_ext := (c_ext c)[i := ext_default], c_shift := (c_shift c)[i := 0],
        c_used := c_used c - {i}\<rparr>)"

definition cells_seq_rm :: "nat \<Rightarrow> nat \<Rightarrow> llama_kv_cells \<Rightarrow> bool \<times> llama_kv_cells" where
  "cells_seq_rm i seq_id c0 =
     (let c = seq_pos_dec seq_id i (c0\<lparr>c_seq := (c_seq c0)[i := c_seq c0 ! i - {seq_id}]\<rparr>) in
      if c_seq c ! i = {} then
        (True, c\<lparr>c_pos := (c_pos c)[i := -1], c_ext := (c_ext c)[i := ext_default],
                 c_shift := (c_shift c)[i := 0], c_used := c_used c - {i}\<rparr>)
      else (False, c))"

definition cells_seq_keep :: "nat \<Rightarrow> nat \<Rightarrow> llama_kv_cells \<Rightarrow> bool \<times> llama_kv_cells" where
  "cells_seq_keep i seq_id c0 =
     (if seq_id \<in> c_seq c0 ! i then
        (let c1 = seq_pos_rm i c0;
             c2 = c1\<lparr>c_seq := (c_seq c1)[i := {}]\<rparr>;
             c3 = c2\<lparr>c_seq := (c_seq c2)[i := insert seq_id (c_seq c2 ! i)]\<rparr>
         in (False, seq_pos_inc seq_id i c3))
      else if c_seq c0 ! i \<noteq> {} then
        (let c = seq_pos_rm i c0
         in (True, c\<lparr>c_seq := (c_seq c)[i := {}], c_pos := (c_pos c)[i := -1],
                     c_ext := (c_ext c)[i := ext_default], c_shift := (c_shift c)[i := 0],
                     c_used := c_used c - {i}\<rparr>))
      else (False, c0))"

definition cells_seq_count :: "nat \<Rightarrow> llama_kv_cells \<Rightarrow> nat" where
  "cells_seq_count i c = card (c_seq c ! i)"

definition cells_seq_has :: "nat \<Rightarrow> nat \<Rightarrow> llama_kv_cells \<Rightarrow> bool" where
  "cells_seq_has i seq_id c \<longleftrightarrow> seq_id \<in> c_seq c ! i"

definition cells_seq_add :: "nat \<Rightarrow> nat \<Rightarrow> llama_kv_cells \<Rightarrow> llama_kv_cells" where
  "cells_seq_add i seq_id c =
     seq_pos_inc seq_id i (c\<lparr>c_seq := (c_seq c)[i := insert seq_id (c_seq c ! i)]\<rparr>)"

definition cells_seq_get :: "nat \<Rightarrow> llama_kv_cells \<Rightarrow> int" where
  "cells_seq_get i c =
     (case find (\<lambda>s. s \<in> c_seq c ! i) [0..<LLAMA_MAX_SEQ] of None \<Rightarrow> -1 | Some s \<Rightarrow> int s)"

definition cells_seq_pos_min :: "nat \<Rightarrow> llama_kv_cells \<Rightarrow> llama_pos" where
  "cells_seq_pos_min s c = (if c_seq_pos c s = {} then -1 else Min (fst ` c_seq_pos c s))"

definition cells_seq_pos_max :: "nat \<Rightarrow> llama_kv_cells \<Rightarrow> llama_pos" where
  "cells_seq_pos_max s c = (if c_seq_pos c s = {} then -1 else Max (fst ` c_seq_pos c s))"

text \<open>
  \<open>upper_bound({p, UINT32_MAX})\<close> followed by a decrement is the lexicographically greatest
  pair \<open>(q, j)\<close> with \<open>q \<le> p\<close>: the greatest such position, and among its cells the greatest
  index.
\<close>

definition cells_seq_pos_tok_le :: "nat \<Rightarrow> llama_pos \<Rightarrow> llama_kv_cells \<Rightarrow> llama_token" where
  "cells_seq_pos_tok_le s p c =
     (let le = {x \<in> c_seq_pos c s. fst x \<le> p} in
      if le = {} then LLAMA_TOKEN_NULL
      else (let q = Max (fst ` le) in ext_tok (c_ext c ! Max (snd ` {x \<in> le. fst x = q}))))"

definition cells_pos_get :: "nat \<Rightarrow> llama_kv_cells \<Rightarrow> llama_pos" where
  "cells_pos_get i c = c_pos c ! i"

definition cells_ext_get :: "nat \<Rightarrow> llama_kv_cells \<Rightarrow> llama_kv_cell_ext" where
  "cells_ext_get i c = c_ext c ! i"

definition cells_score_get :: "nat \<Rightarrow> llama_kv_cells \<Rightarrow> float32" where
  "cells_score_get i c = c_score c ! i"

definition cells_score_set :: "nat \<Rightarrow> float32 \<Rightarrow> llama_kv_cells \<Rightarrow> llama_kv_cells" where
  "cells_score_set i v c = c\<lparr>c_score := (c_score c)[i := v]\<rparr>"

definition cells_get_shift :: "nat \<Rightarrow> llama_kv_cells \<Rightarrow> llama_pos" where
  "cells_get_shift i c = c_shift c ! i"

definition cells_pos_in :: "nat \<Rightarrow> llama_pos \<Rightarrow> llama_pos \<Rightarrow> llama_kv_cells \<Rightarrow> bool" where
  "cells_pos_in i p0 p1 c \<longleftrightarrow> p0 \<le> c_pos c ! i \<and> c_pos c ! i < p1"

definition cells_pos_set :: "nat \<Rightarrow> llama_pos \<Rightarrow> llama_kv_cells \<Rightarrow> llama_kv_cells" where
  "cells_pos_set i p c = c\<lparr>c_pos := (c_pos c)[i := p], c_used := insert i (c_used c)\<rparr>"

definition cells_ext_set :: "nat \<Rightarrow> llama_kv_cell_ext \<Rightarrow> llama_kv_cells \<Rightarrow> llama_kv_cells" where
  "cells_ext_set i e c = c\<lparr>c_ext := (c_ext c)[i := e]\<rparr>"

definition cells_pos_add :: "nat \<Rightarrow> llama_pos \<Rightarrow> llama_kv_cells \<Rightarrow> bool \<times> llama_kv_cells" where
  "cells_pos_add i d c0 =
     (let c1 = seq_pos_rm i c0;
          c = c1\<lparr>c_pos := (c_pos c1)[i := c_pos c1 ! i + d],
                 c_shift := (c_shift c1)[i := c_shift c1 ! i + d], c_has_shift := True\<rparr>
      in if c_pos c ! i < 0 then
           (True, c\<lparr>c_seq := (c_seq c)[i := {}], c_pos := (c_pos c)[i := -1],
                    c_shift := (c_shift c)[i := 0], c_used := c_used c - {i}\<rparr>)
         else (False, seq_pos_add i c))"

definition cells_pos_div :: "nat \<Rightarrow> int \<Rightarrow> llama_kv_cells \<Rightarrow> llama_kv_cells" where
  "cells_pos_div i d c0 =
     (let p_old = c_pos c0 ! i;
          c1 = seq_pos_rm i c0;
          c2 = c1\<lparr>c_pos := (c_pos c1)[i := trunc_div (c_pos c1 ! i) d]\<rparr>;
          c3 = c2\<lparr>c_shift := (c_shift c2)[i := c_shift c2 ! i + (p_old - c_pos c2 ! i)]\<rparr>
      in (seq_pos_add i c3)\<lparr>c_has_shift := True\<rparr>)"

subsection \<open>Saving and restoring cells\<close>

definition cells_cp_range :: "nat \<Rightarrow> nat \<Rightarrow> llama_kv_cells \<Rightarrow> llama_kv_cells" where
  "cells_cp_range i n c =
     (cells_resize n cells_new)
       \<lparr>c_pos := map (\<lambda>j. c_pos c ! (i + j)) [0..<n],
        c_ext := map (\<lambda>j. c_ext c ! (i + j)) [0..<n],
        c_seq := map (\<lambda>j. c_seq c ! (i + j)) [0..<n]\<rparr>"

definition cells_cp :: "nat list \<Rightarrow> llama_kv_cells \<Rightarrow> llama_kv_cells" where
  "cells_cp idxs c =
     (cells_resize (length idxs) cells_new)
       \<lparr>c_pos := map (\<lambda>idx. c_pos c ! idx) idxs,
        c_ext := map (\<lambda>idx. c_ext c ! idx) idxs,
        c_seq := map (\<lambda>idx. c_seq c ! idx) idxs\<rparr>"

definition cells_set_one :: "llama_kv_cells \<Rightarrow> nat \<Rightarrow> nat \<Rightarrow> llama_kv_cells \<Rightarrow> llama_kv_cells" where
  "cells_set_one other j idx c0 =
     (let was = c_pos c0 ! idx; now = c_pos other ! j;
          c1 = (if was = -1 \<and> now \<noteq> -1 then c0\<lparr>c_used := insert idx (c_used c0)\<rparr> else c0);
          c2 = (if was \<noteq> -1 \<and> now = -1 then c1\<lparr>c_used := c_used c1 - {idx}\<rparr> else c1);
          c3 = (if was \<noteq> -1 then seq_pos_rm idx c2 else c2);
          c4 = c3\<lparr>c_pos := (c_pos c3)[idx := c_pos other ! j],
                  c_ext := (c_ext c3)[idx := c_ext other ! j],
                  c_seq := (c_seq c3)[idx := c_seq other ! j]\<rparr>
      in if c_pos c4 ! idx \<noteq> -1 then seq_pos_add idx c4 else c4)"

definition cells_set_range :: "nat \<Rightarrow> llama_kv_cells \<Rightarrow> llama_kv_cells \<Rightarrow> llama_kv_cells" where
  "cells_set_range i other c =
     fold (\<lambda>j. cells_set_one other j (i + j)) [0..<cells_size other] c"

definition cells_set :: "nat list \<Rightarrow> llama_kv_cells \<Rightarrow> llama_kv_cells \<Rightarrow> llama_kv_cells" where
  "cells_set idxs other c =
     fold (\<lambda>j. cells_set_one other j (idxs ! j)) [0..<cells_size other] c"


section \<open>The class invariant\<close>

text \<open>
  The parallel vectors have one length; a cell is empty exactly when its position is
  \<open>-1\<close>, and an empty cell carries no sequence and no pending shift; \<open>used\<close> is the set of
  the non-empty cells; \<open>seq_pos[s]\<close> holds one pair per cell that carries \<open>s\<close>.
\<close>

definition cells_wf :: "llama_kv_cells \<Rightarrow> bool" where
  "cells_wf c \<longleftrightarrow>
     length (c_ext c) = cells_size c \<and> length (c_score c) = cells_size c \<and>
     length (c_shift c) = cells_size c \<and> length (c_seq c) = cells_size c \<and>
     (\<forall>i < cells_size c. -1 \<le> c_pos c ! i) \<and>
     (\<forall>i < cells_size c. c_pos c ! i = -1 \<longrightarrow> c_seq c ! i = {} \<and> c_shift c ! i = 0) \<and>
     (\<forall>i < cells_size c. c_seq c ! i \<subseteq> {..<LLAMA_MAX_SEQ}) \<and>
     c_used c = {i. i < cells_size c \<and> c_pos c ! i \<noteq> -1} \<and>
     (\<forall>s. c_seq_pos c s = {(c_pos c ! i, i) |i. i < cells_size c \<and> s \<in> c_seq c ! i})"

text \<open>One cell, as the per-cell vectors describe it.\<close>

record kv_cell =
  k_pos :: llama_pos
  k_ext :: llama_kv_cell_ext
  k_shift :: llama_pos
  k_seq :: "nat set"
  k_score :: float32

definition cell_at :: "llama_kv_cells \<Rightarrow> nat \<Rightarrow> kv_cell" where
  "cell_at c i = \<lparr>k_pos = c_pos c ! i, k_ext = c_ext c ! i, k_shift = c_shift c ! i,
     k_seq = c_seq c ! i, k_score = c_score c ! i\<rparr>"

lemma cell_at_sel [simp]:
  "k_pos (cell_at c i) = c_pos c ! i" "k_ext (cell_at c i) = c_ext c ! i"
  "k_shift (cell_at c i) = c_shift c ! i" "k_seq (cell_at c i) = c_seq c ! i"
  "k_score (cell_at c i) = c_score c ! i"
  by (simp_all add: cell_at_def)

definition cell_cleared :: "kv_cell \<Rightarrow> kv_cell" where
  "cell_cleared k = k\<lparr>k_pos := -1, k_ext := ext_default, k_shift := 0, k_seq := {}\<rparr>"

text \<open>
  What the rest of the system can observe of the cells: which sequence holds which position
  in which cell.
\<close>

definition cells_view :: "llama_kv_cells \<Rightarrow> (nat \<times> llama_pos \<times> nat) set" where
  "cells_view c = {(s, c_pos c ! i, i) |s i. i < cells_size c \<and> s \<in> c_seq c ! i}"

text \<open>
  The invariant is a statement about every cell on its own plus two derived indices; this
  is the form in which it is established.
\<close>

definition cell_ok :: "kv_cell \<Rightarrow> bool" where
  "cell_ok k \<longleftrightarrow> -1 \<le> k_pos k \<and> (k_pos k = -1 \<longrightarrow> k_seq k = {} \<and> k_shift k = 0) \<and>
     k_seq k \<subseteq> {..<LLAMA_MAX_SEQ}"

definition cells_len :: "llama_kv_cells \<Rightarrow> nat \<Rightarrow> bool" where
  "cells_len c n \<longleftrightarrow> length (c_pos c) = n \<and> length (c_ext c) = n \<and> length (c_score c) = n \<and>
     length (c_shift c) = n \<and> length (c_seq c) = n"

lemma cells_wf_alt:
  "cells_wf c \<longleftrightarrow> cells_len c (cells_size c) \<and> (\<forall>i < cells_size c. cell_ok (cell_at c i)) \<and>
     c_used c = {i. i < cells_size c \<and> c_pos c ! i \<noteq> -1} \<and>
     (\<forall>s. c_seq_pos c s = {(c_pos c ! i, i) |i. i < cells_size c \<and> s \<in> c_seq c ! i})"
  by (auto simp: cells_wf_def cells_len_def cell_ok_def cell_at_def cells_size_def)

lemma cells_wf_len: "cells_wf c \<Longrightarrow> cells_len c (cells_size c)"
  by (simp add: cells_wf_alt)

lemma cells_wf_ok: "cells_wf c \<Longrightarrow> i < cells_size c \<Longrightarrow> cell_ok (cell_at c i)"
  by (simp add: cells_wf_alt)

lemma cells_wf_used: "cells_wf c \<Longrightarrow> c_used c = {i. i < cells_size c \<and> c_pos c ! i \<noteq> -1}"
  by (simp add: cells_wf_alt)

lemma cells_wf_seq_pos:
  "cells_wf c \<Longrightarrow> c_seq_pos c s = {(c_pos c ! i, i) |i. i < cells_size c \<and> s \<in> c_seq c ! i}"
  by (simp add: cells_wf_alt)

lemma cells_wf_seq_lt:
  "cells_wf c \<Longrightarrow> i < cells_size c \<Longrightarrow> s \<in> c_seq c ! i \<Longrightarrow> s < LLAMA_MAX_SEQ"
  by (auto simp: cells_wf_def)

lemma cells_wf_pos_ge: "cells_wf c \<Longrightarrow> i < cells_size c \<Longrightarrow> -1 \<le> c_pos c ! i"
  by (auto simp: cells_wf_def)

lemma cells_wf_seq_nonempty:
  "cells_wf c \<Longrightarrow> i < cells_size c \<Longrightarrow> s \<in> c_seq c ! i \<Longrightarrow> 0 \<le> c_pos c ! i"
  by (fastforce simp: cells_wf_def)

lemma finite_seq_pos [simp]: "cells_wf c \<Longrightarrow> finite (c_seq_pos c s)"
  by (simp add: cells_wf_seq_pos)

lemma finite_used [simp]: "cells_wf c \<Longrightarrow> finite (c_used c)"
  by (simp add: cells_wf_used)

lemma finite_seq [simp]: "cells_wf c \<Longrightarrow> i < cells_size c \<Longrightarrow> finite (c_seq c ! i)"
  by (meson cells_wf_seq_lt finite_nat_set_iff_bounded)

lemma view_iff:
  "(s, p, i) \<in> cells_view c \<longleftrightarrow> i < cells_size c \<and> s \<in> c_seq c ! i \<and> p = c_pos c ! i"
  by (auto simp: cells_view_def)

text \<open>Well-formed cells are determined by their single cells and the shift flag.\<close>

lemma cells_eqI:
  assumes "cells_wf a" "cells_wf b" "cells_size a = cells_size b" "c_has_shift a = c_has_shift b"
    and "\<And>i. i < cells_size a \<Longrightarrow> cell_at a i = cell_at b i"
  shows "a = b"
proof -
  have la: "cells_len a (cells_size a)" and lb: "cells_len b (cells_size a)"
    using assms(1-3) by (auto dest: cells_wf_len)
  have vecs: "c_pos a = c_pos b" "c_ext a = c_ext b" "c_shift a = c_shift b" "c_seq a = c_seq b"
      "c_score a = c_score b"
    using la lb assms(5) by (auto simp: cells_len_def cell_at_def intro!: nth_equalityI)
  then have "cells_size a = cells_size b" by (simp add: cells_size_def)
  moreover have "c_used a = c_used b"
    using assms(1,2) vecs by (simp add: cells_wf_used cells_size_def)
  moreover have "c_seq_pos a = c_seq_pos b"
    using assms(1,2) vecs by (auto simp: cells_wf_seq_pos cells_size_def fun_eq_iff)
  ultimately show ?thesis using vecs assms(4) by simp
qed

section \<open>The loops over sequence ids\<close>

lemma fold_seq_pos_dec:
  "fold (\<lambda>s c. if s \<in> c_seq c ! i then seq_pos_dec s i c else c) [0..<n] c =
   c\<lparr>c_seq_pos := (\<lambda>s. if s < n \<and> s \<in> c_seq c ! i then c_seq_pos c s - {(c_pos c ! i, i)}
                       else c_seq_pos c s)\<rparr>"
  by (induction n) (auto simp: seq_pos_dec_def fun_eq_iff less_Suc_eq)

lemma fold_seq_pos_inc:
  "fold (\<lambda>s c. if s \<in> c_seq c ! i then seq_pos_inc s i c else c) [0..<n] c =
   c\<lparr>c_seq_pos := (\<lambda>s. if s < n \<and> s \<in> c_seq c ! i then insert (c_pos c ! i, i) (c_seq_pos c s)
                       else c_seq_pos c s)\<rparr>"
  by (induction n) (auto simp: seq_pos_inc_def fun_eq_iff less_Suc_eq)

lemma seq_pos_rm_eq:
  "seq_pos_rm i c =
   c\<lparr>c_seq_pos := (\<lambda>s. if s < LLAMA_MAX_SEQ \<and> s \<in> c_seq c ! i
       then c_seq_pos c s - {(c_pos c ! i, i)} else c_seq_pos c s)\<rparr>"
  unfolding seq_pos_rm_def by (rule fold_seq_pos_dec)

lemma seq_pos_add_eq:
  "seq_pos_add i c =
   c\<lparr>c_seq_pos := (\<lambda>s. if s < LLAMA_MAX_SEQ \<and> s \<in> c_seq c ! i
       then insert (c_pos c ! i, i) (c_seq_pos c s) else c_seq_pos c s)\<rparr>"
  unfolding seq_pos_add_def by (rule fold_seq_pos_inc)

section \<open>Every operation keeps the invariant\<close>

text \<open>
  All operations replace one cell and adjust the two indices for that cell; this lemma
  is the whole argument why the invariant survives.
\<close>

lemma cells_wf_replace:
  assumes wf: "cells_wf c" and i: "i < cells_size c" and len: "cells_len c' (cells_size c)"
    and others: "\<And>j. j \<noteq> i \<Longrightarrow> c_pos c' ! j = c_pos c ! j \<and> c_seq c' ! j = c_seq c ! j
                   \<and> c_shift c' ! j = c_shift c ! j"
    and ok: "cell_ok (cell_at c' i)"
    and used: "c_used c' = (if c_pos c' ! i = -1 then c_used c - {i} else insert i (c_used c))"
    and idx: "\<And>s. c_seq_pos c' s = (c_seq_pos c s - {(c_pos c ! i, i)}) \<union>
                   (if s \<in> c_seq c' ! i then {(c_pos c' ! i, i)} else {})"
  shows "cells_wf c'"
proof -
  have n: "cells_size c' = cells_size c" using len by (simp add: cells_len_def cells_size_def)
  have "cell_ok (cell_at c' j)" if "j < cells_size c" for j
    using that ok others[of j] cells_wf_ok[OF wf that] by (cases "j = i") (auto simp: cell_ok_def cell_at_def)
  moreover have "c_used c' = {j. j < cells_size c \<and> c_pos c' ! j \<noteq> -1}"
    using used others i unfolding cells_wf_used[OF wf] by (auto split: if_splits) metis+
  moreover have "c_seq_pos c' s = {(c_pos c' ! j, j) |j. j < cells_size c \<and> s \<in> c_seq c' ! j}" for s
  proof -
    have "(p, j) \<in> c_seq_pos c' s \<longleftrightarrow> p = c_pos c' ! j \<and> j < cells_size c \<and> s \<in> c_seq c' ! j" for p j
      using others[of j] i unfolding idx cells_wf_seq_pos[OF wf] by (cases "j = i") auto
    then show ?thesis by auto
  qed
  ultimately show ?thesis using len n by (simp add: cells_wf_alt)
qed

lemma cells_len_upd [simp]:
  "cells_len (c\<lparr>c_used := u\<rparr>) n = cells_len c n"
  "cells_len (c\<lparr>c_seq_pos := sp\<rparr>) n = cells_len c n"
  "cells_len (c\<lparr>c_has_shift := h\<rparr>) n = cells_len c n"
  by (simp_all add: cells_len_def)

lemma cells_size_upd [simp]:
  "cells_size (c\<lparr>c_used := u\<rparr>) = cells_size c"
  "cells_size (c\<lparr>c_seq_pos := sp\<rparr>) = cells_size c"
  "cells_size (c\<lparr>c_has_shift := h\<rparr>) = cells_size c"
  "cells_size (c\<lparr>c_ext := e\<rparr>) = cells_size c"
  "cells_size (c\<lparr>c_seq := q\<rparr>) = cells_size c"
  "cells_size (c\<lparr>c_shift := sh\<rparr>) = cells_size c"
  "cells_size (c\<lparr>c_score := sc\<rparr>) = cells_size c"
  "cells_size (c\<lparr>c_pos := (c_pos c)[i := p]\<rparr>) = cells_size c"
  by (simp_all add: cells_size_def)

lemma reset_wf [cell_wf]: "\<forall>s \<ge> LLAMA_MAX_SEQ. c_seq_pos c s = {} \<Longrightarrow> cells_wf (cells_reset c)"
  by (auto simp: cells_wf_def cells_reset_def cells_size_def)

lemma resize_wf [cell_wf]: "\<forall>s \<ge> LLAMA_MAX_SEQ. c_seq_pos c s = {} \<Longrightarrow> cells_wf (cells_resize n c)"
  by (auto simp: cells_wf_def cells_resize_def cells_reset_def cells_size_def)

lemma wf_seq_pos_beyond: "cells_wf c \<Longrightarrow> \<forall>s \<ge> LLAMA_MAX_SEQ. c_seq_pos c s = {}"
  by (fastforce simp: cells_wf_def)

lemma reset_shift_wf [cell_wf]: "cells_wf c \<Longrightarrow> cells_wf (cells_reset_shift c)"
  by (auto simp: cells_wf_def cells_reset_shift_def cells_size_def)

lemma rm_cell [cell_simps]:
  "cells_wf c \<Longrightarrow> i < cells_size c \<Longrightarrow>
   cell_at (cells_rm i c) j = (if j = i then cell_cleared (cell_at c i) else cell_at c j)"
  by (auto simp: cells_rm_def seq_pos_rm_eq cell_at_def cell_cleared_def cells_wf_def cells_size_def)

lemma rm_size [simp]: "cells_size (cells_rm i c) = cells_size c"
  by (simp add: cells_rm_def seq_pos_rm_eq cells_size_def)

lemma rm_has_shift [simp]: "c_has_shift (cells_rm i c) = c_has_shift c"
  by (simp add: cells_rm_def seq_pos_rm_eq)

lemma rm_wf [cell_wf]: "cells_wf c \<Longrightarrow> i < cells_size c \<Longrightarrow> cells_wf (cells_rm i c)"
proof (rule cells_wf_replace[of c i])
  assume a: "cells_wf c" "i < cells_size c"
  show "c_seq_pos (cells_rm i c) s = (c_seq_pos c s - {(c_pos c ! i, i)}) \<union>
      (if s \<in> c_seq (cells_rm i c) ! i then {(c_pos (cells_rm i c) ! i, i)} else {})" for s
    using a by (auto simp: cells_rm_def seq_pos_rm_eq cells_wf_def cells_size_def)
qed (auto simp: cells_rm_def seq_pos_rm_eq cells_len_def cells_wf_def cells_size_def cell_ok_def cell_at_def)

text \<open>\<open>seq_rm\<close> is called for a sequence the cell carries.\<close>

lemma seq_rm_cell [cell_simps]:
  "cells_wf c \<Longrightarrow> i < cells_size c \<Longrightarrow> s \<in> c_seq c ! i \<Longrightarrow>
   cell_at (snd (cells_seq_rm i s c)) j =
     (if j = i then (if c_seq c ! i = {s} then cell_cleared (cell_at c i)
                     else (cell_at c i)\<lparr>k_seq := c_seq c ! i - {s}\<rparr>)
      else cell_at c j)"
  by (auto simp: cells_seq_rm_def seq_pos_dec_def cell_at_def cell_cleared_def cells_wf_def cells_size_def Let_def)

lemma seq_rm_freed: "cells_wf c \<Longrightarrow> i < cells_size c \<Longrightarrow> s \<in> c_seq c ! i \<Longrightarrow>
   fst (cells_seq_rm i s c) \<longleftrightarrow> c_seq c ! i = {s}"
  by (auto simp: cells_seq_rm_def seq_pos_dec_def cells_wf_def cells_size_def Let_def)

lemma seq_rm_size [simp]: "cells_size (snd (cells_seq_rm i s c)) = cells_size c"
  by (simp add: cells_seq_rm_def seq_pos_dec_def cells_size_def Let_def)

lemma seq_rm_has_shift [simp]: "c_has_shift (snd (cells_seq_rm i s c)) = c_has_shift c"
  by (simp add: cells_seq_rm_def seq_pos_dec_def Let_def)

lemma seq_rm_wf [cell_wf]:
  assumes "cells_wf c" "i < cells_size c" "s \<in> c_seq c ! i"
  shows "cells_wf (snd (cells_seq_rm i s c))"
proof (rule cells_wf_replace[OF assms(1,2)])
  have p: "c_pos c ! i \<noteq> -1" using assms by (auto simp: cells_wf_def)
  show "c_seq_pos (snd (cells_seq_rm i s c)) t = (c_seq_pos c t - {(c_pos c ! i, i)}) \<union>
      (if t \<in> c_seq (snd (cells_seq_rm i s c)) ! i
       then {(c_pos (snd (cells_seq_rm i s c)) ! i, i)} else {})" for t
    using assms
    by (auto simp: cells_seq_rm_def seq_pos_dec_def Let_def cells_wf_def cells_size_def)
  show "c_used (snd (cells_seq_rm i s c)) =
      (if c_pos (snd (cells_seq_rm i s c)) ! i = -1 then c_used c - {i} else insert i (c_used c))"
    using assms p by (auto simp: cells_seq_rm_def seq_pos_dec_def Let_def cells_wf_def cells_size_def)
  show "cell_ok (cell_at (snd (cells_seq_rm i s c)) i)"
    using assms p unfolding seq_rm_cell[OF assms]
    by (auto simp: cell_ok_def cell_cleared_def cell_at_def cells_wf_def)
qed (use assms in \<open>auto simp: cells_seq_rm_def seq_pos_dec_def Let_def cells_len_def cells_wf_def cells_size_def\<close>)

lemma seq_pos_rm_wf_eq:
  assumes "cells_wf c" "i < cells_size c"
  shows "seq_pos_rm i c = c\<lparr>c_seq_pos := (\<lambda>t. c_seq_pos c t - {(c_pos c ! i, i)})\<rparr>"
proof -
  have "c_seq_pos c t - {(c_pos c ! i, i)} = c_seq_pos c t" if "\<not> (t < LLAMA_MAX_SEQ \<and> t \<in> c_seq c ! i)" for t
    using that assms cells_wf_seq_lt[OF assms] by (auto simp: cells_wf_seq_pos)
  then show ?thesis by (auto simp: seq_pos_rm_eq fun_eq_iff intro!: arg_cong[where f = "\<lambda>x. c_seq_pos_update x c"])
qed

lemma seq_pos_add_seq_eq:
  assumes "c_seq c' ! i \<subseteq> {..<LLAMA_MAX_SEQ}"
  shows "seq_pos_add i c' = c'\<lparr>c_seq_pos := (\<lambda>t. c_seq_pos c' t \<union>
     (if t \<in> c_seq c' ! i then {(c_pos c' ! i, i)} else {}))\<rparr>"
  using assms by (auto simp: seq_pos_add_eq fun_eq_iff intro!: arg_cong[where f = "\<lambda>x. c_seq_pos_update x c'"])

lemma used_iff: "cells_wf c \<Longrightarrow> i < cells_size c \<Longrightarrow> i \<in> c_used c \<longleftrightarrow> c_pos c ! i \<noteq> -1"
  by (simp add: cells_wf_used)

lemma seq_pos_notin:
  "cells_wf c \<Longrightarrow> t \<notin> c_seq c ! i \<Longrightarrow> (p, i) \<notin> c_seq_pos c t"
  by (simp add: cells_wf_seq_pos)

lemma seq_pos_in:
  "cells_wf c \<Longrightarrow> i < cells_size c \<Longrightarrow> t \<in> c_seq c ! i \<Longrightarrow> (c_pos c ! i, i) \<in> c_seq_pos c t"
  by (simp add: cells_wf_seq_pos)

lemma seq_keep_cell [cell_simps]:
  "cells_wf c \<Longrightarrow> i < cells_size c \<Longrightarrow>
   cell_at (snd (cells_seq_keep i s c)) j =
     (if j \<noteq> i then cell_at c j
      else if s \<in> c_seq c ! i then (cell_at c i)\<lparr>k_seq := {s}\<rparr>
      else if c_seq c ! i \<noteq> {} then cell_cleared (cell_at c i) else cell_at c i)"
  by (auto simp: cells_seq_keep_def seq_pos_rm_eq seq_pos_inc_def cell_at_def cell_cleared_def
      cells_wf_def cells_size_def Let_def)

lemma seq_keep_freed: "fst (cells_seq_keep i s c) \<longleftrightarrow> s \<notin> c_seq c ! i \<and> c_seq c ! i \<noteq> {}"
  by (simp add: cells_seq_keep_def Let_def)

lemma seq_keep_size [simp]: "cells_size (snd (cells_seq_keep i s c)) = cells_size c"
  by (simp add: cells_seq_keep_def seq_pos_rm_eq seq_pos_inc_def cells_size_def Let_def)

lemma seq_keep_has_shift [simp]: "c_has_shift (snd (cells_seq_keep i s c)) = c_has_shift c"
  by (simp add: cells_seq_keep_def seq_pos_rm_eq seq_pos_inc_def Let_def)

lemma seq_keep_wf [cell_wf]:
  assumes "cells_wf c" "i < cells_size c"
  shows "cells_wf (snd (cells_seq_keep i s c))"
proof (rule cells_wf_replace[OF assms])
  let ?c = "snd (cells_seq_keep i s c)"
  have q: "c_seq c ! i \<noteq> {} \<Longrightarrow> c_pos c ! i \<noteq> -1" using assms by (auto simp: cells_wf_def)
  show "c_seq_pos ?c t = (c_seq_pos c t - {(c_pos c ! i, i)}) \<union>
      (if t \<in> c_seq ?c ! i then {(c_pos ?c ! i, i)} else {})" for t
    using assms seq_pos_notin[OF assms(1), of t i "c_pos c ! i"] cells_wf_len[OF assms(1)]
    by (cases "t = s") (simp_all add: cells_seq_keep_def seq_pos_rm_wf_eq seq_pos_inc_def Let_def cells_len_def)
  show "c_used ?c = (if c_pos ?c ! i = -1 then c_used c - {i} else insert i (c_used c))"
    using assms q used_iff[OF assms] cells_wf_len[OF assms(1)]
    by (simp add: cells_seq_keep_def seq_pos_rm_eq seq_pos_inc_def Let_def cells_len_def insert_absorb)
  show "cell_ok (cell_at ?c i)"
    using q cells_wf_ok[OF assms] unfolding seq_keep_cell[OF assms]
    by (auto simp: cell_ok_def cell_cleared_def cell_at_def)
qed (use assms cells_wf_len[OF assms(1)] used_iff[OF assms(1,2)] in \<open>auto simp: cells_seq_keep_def seq_pos_rm_eq seq_pos_inc_def Let_def cells_len_def\<close>)

text \<open>\<open>seq_add\<close> is called on a non-empty cell.\<close>

lemma seq_add_cell [cell_simps]:
  "cells_wf c \<Longrightarrow> i < cells_size c \<Longrightarrow>
   cell_at (cells_seq_add i s c) j =
     (if j = i then (cell_at c i)\<lparr>k_seq := insert s (c_seq c ! i)\<rparr> else cell_at c j)"
  by (auto simp: cells_seq_add_def seq_pos_inc_def cell_at_def cells_wf_def cells_size_def)

lemma seq_add_size [simp]: "cells_size (cells_seq_add i s c) = cells_size c"
  by (simp add: cells_seq_add_def seq_pos_inc_def cells_size_def)

lemma seq_add_has_shift [simp]: "c_has_shift (cells_seq_add i s c) = c_has_shift c"
  by (simp add: cells_seq_add_def seq_pos_inc_def)

lemma seq_add_wf [cell_wf]:
  assumes "cells_wf c" "i < cells_size c" "c_pos c ! i \<noteq> -1" "s < LLAMA_MAX_SEQ"
  shows "cells_wf (cells_seq_add i s c)"
proof (rule cells_wf_replace[OF assms(1,2)])
  show "cell_ok (cell_at (cells_seq_add i s c) i)"
    using assms cells_wf_ok[OF assms(1,2)] unfolding seq_add_cell[OF assms(1,2)]
    by (auto simp: cell_ok_def cell_at_def)
  show "c_seq_pos (cells_seq_add i s c) t = (c_seq_pos c t - {(c_pos c ! i, i)}) \<union>
      (if t \<in> c_seq (cells_seq_add i s c) ! i then {(c_pos (cells_seq_add i s c) ! i, i)} else {})" for t
    using assms seq_pos_notin[OF assms(1), of t i "c_pos c ! i"] cells_wf_len[OF assms(1)]
      seq_pos_in[OF assms(1,2), of t]
    by (cases "t = s"; cases "t \<in> c_seq c ! i")
       (simp_all add: cells_seq_add_def seq_pos_inc_def cells_len_def insert_absorb)
qed (use assms cells_wf_len[OF assms(1)] used_iff[OF assms(1,2)] in \<open>auto simp: cells_seq_add_def seq_pos_inc_def cells_len_def\<close>)

lemma pos_set_cell [cell_simps]:
  "cells_wf c \<Longrightarrow> i < cells_size c \<Longrightarrow>
   cell_at (cells_pos_set i p c) j =
     (if j = i then (cell_at c i)\<lparr>k_pos := p\<rparr> else cell_at c j)"
  by (auto simp: cells_pos_set_def cell_at_def cells_wf_def cells_size_def)

lemma pos_set_size [simp]: "cells_size (cells_pos_set i p c) = cells_size c"
  by (simp add: cells_pos_set_def cells_size_def)

lemma pos_set_has_shift [simp]: "c_has_shift (cells_pos_set i p c) = c_has_shift c"
  by (simp add: cells_pos_set_def)

lemma pos_set_wf [cell_wf]:
  assumes "cells_wf c" "i < cells_size c" "c_pos c ! i = -1" "0 \<le> p"
  shows "cells_wf (cells_pos_set i p c)"
proof (rule cells_wf_replace[OF assms(1,2)])
  show "cell_ok (cell_at (cells_pos_set i p c) i)"
    using assms cells_wf_ok[OF assms(1,2)] unfolding pos_set_cell[OF assms(1,2)]
    by (auto simp: cell_ok_def cell_at_def)
  have "c_seq c ! i = {}" using assms by (simp add: cells_wf_def)
  then show "c_seq_pos (cells_pos_set i p c) t = (c_seq_pos c t - {(c_pos c ! i, i)}) \<union>
      (if t \<in> c_seq (cells_pos_set i p c) ! i then {(c_pos (cells_pos_set i p c) ! i, i)} else {})" for t
    using seq_pos_notin[OF assms(1), of t i "c_pos c ! i"] by (simp add: cells_pos_set_def)
qed (use assms cells_wf_len[OF assms(1)] used_iff[OF assms(1,2)] in \<open>auto simp: cells_pos_set_def cells_len_def\<close>)

lemma ext_set_cell [cell_simps]:
  "cells_wf c \<Longrightarrow> i < cells_size c \<Longrightarrow>
   cell_at (cells_ext_set i e c) j = (if j = i then (cell_at c i)\<lparr>k_ext := e\<rparr> else cell_at c j)"
  by (auto simp: cells_ext_set_def cell_at_def cells_wf_def cells_size_def)

lemma ext_set_size [simp]: "cells_size (cells_ext_set i e c) = cells_size c"
  by (simp add: cells_ext_set_def)

lemma ext_set_has_shift [simp]: "c_has_shift (cells_ext_set i e c) = c_has_shift c"
  by (simp add: cells_ext_set_def)

lemma ext_set_wf [cell_wf]: "cells_wf c \<Longrightarrow> cells_wf (cells_ext_set i e c)"
  by (simp add: cells_wf_def cells_ext_set_def)

lemma score_set_cell [cell_simps]:
  "cells_wf c \<Longrightarrow> i < cells_size c \<Longrightarrow>
   cell_at (cells_score_set i v c) j = (if j = i then (cell_at c i)\<lparr>k_score := v\<rparr> else cell_at c j)"
  by (auto simp: cells_score_set_def cell_at_def cells_wf_def cells_size_def)

lemma score_set_size [simp]: "cells_size (cells_score_set i v c) = cells_size c"
  by (simp add: cells_score_set_def)

lemma score_set_has_shift [simp]: "c_has_shift (cells_score_set i v c) = c_has_shift c"
  by (simp add: cells_score_set_def)

lemma score_set_wf [cell_wf]: "cells_wf c \<Longrightarrow> cells_wf (cells_score_set i v c)"
  by (simp add: cells_wf_def cells_score_set_def)

lemma pos_add_cell [cell_simps]:
  "cells_wf c \<Longrightarrow> i < cells_size c \<Longrightarrow>
   cell_at (snd (cells_pos_add i d c)) j =
     (if j \<noteq> i then cell_at c j
      else if c_pos c ! i + d < 0 then (cell_at c i)\<lparr>k_pos := -1, k_shift := 0, k_seq := {}\<rparr>
      else (cell_at c i)\<lparr>k_pos := c_pos c ! i + d, k_shift := c_shift c ! i + d\<rparr>)"
  by (auto simp: cells_pos_add_def seq_pos_rm_eq seq_pos_add_eq cell_at_def cells_wf_def cells_size_def Let_def)

lemma pos_add_freed: "cells_wf c \<Longrightarrow> i < cells_size c \<Longrightarrow>
   fst (cells_pos_add i d c) \<longleftrightarrow> c_pos c ! i + d < 0"
  by (simp add: cells_pos_add_def seq_pos_rm_eq Let_def cells_size_def)

lemma pos_add_size [simp]: "cells_size (snd (cells_pos_add i d c)) = cells_size c"
  by (simp add: cells_pos_add_def seq_pos_rm_eq seq_pos_add_eq cells_size_def Let_def)

lemma pos_add_has_shift [simp]: "c_has_shift (snd (cells_pos_add i d c))"
  by (simp add: cells_pos_add_def seq_pos_rm_eq seq_pos_add_eq Let_def)

lemma pos_add_wf [cell_wf]:
  assumes "cells_wf c" "i < cells_size c" "c_pos c ! i \<noteq> -1"
  shows "cells_wf (snd (cells_pos_add i d c))"
proof (rule cells_wf_replace[OF assms(1,2)])
  let ?c = "snd (cells_pos_add i d c)"
  have sub: "c_seq c ! i \<subseteq> {..<LLAMA_MAX_SEQ}" using assms by (auto simp: cells_wf_def)
  show "cell_ok (cell_at ?c i)"
    using assms cells_wf_ok[OF assms(1,2)]
    unfolding pos_add_cell[OF assms(1,2)] by (auto simp: cell_ok_def cell_at_def)
  show "c_seq_pos ?c t = (c_seq_pos c t - {(c_pos c ! i, i)}) \<union>
      (if t \<in> c_seq ?c ! i then {(c_pos ?c ! i, i)} else {})" for t
    using assms sub cells_wf_len[OF assms(1)]
    by (simp add: cells_pos_add_def seq_pos_rm_wf_eq seq_pos_add_seq_eq Let_def cells_len_def)
  show "c_used ?c = (if c_pos ?c ! i = -1 then c_used c - {i} else insert i (c_used c))"
    using assms used_iff[OF assms(1,2)] cells_wf_len[OF assms(1)]
    by (simp add: cells_pos_add_def seq_pos_rm_eq seq_pos_add_eq Let_def cells_len_def insert_absorb)
qed (use assms cells_wf_len[OF assms(1)] used_iff[OF assms(1,2)] in \<open>auto simp: cells_pos_add_def seq_pos_rm_eq seq_pos_add_eq Let_def cells_len_def\<close>)

lemma pos_div_cell [cell_simps]:
  "cells_wf c \<Longrightarrow> i < cells_size c \<Longrightarrow>
   cell_at (cells_pos_div i d c) j =
     (if j \<noteq> i then cell_at c j
      else (cell_at c i)\<lparr>k_pos := trunc_div (c_pos c ! i) d,
             k_shift := c_shift c ! i + (c_pos c ! i - trunc_div (c_pos c ! i) d)\<rparr>)"
  by (auto simp: cells_pos_div_def seq_pos_rm_eq seq_pos_add_eq cell_at_def cells_wf_def cells_size_def Let_def)

lemma pos_div_size [simp]: "cells_size (cells_pos_div i d c) = cells_size c"
  by (simp add: cells_pos_div_def seq_pos_rm_eq seq_pos_add_eq cells_size_def Let_def)

lemma pos_div_has_shift [simp]: "c_has_shift (cells_pos_div i d c)"
  by (simp add: cells_pos_div_def Let_def)

lemma pos_div_wf [cell_wf]:
  assumes "cells_wf c" "i < cells_size c" "c_pos c ! i \<noteq> -1" "0 < d"
  shows "cells_wf (cells_pos_div i d c)"
proof (rule cells_wf_replace[OF assms(1,2)])
  let ?c = "cells_pos_div i d c"
  have sub: "c_seq c ! i \<subseteq> {..<LLAMA_MAX_SEQ}" using assms by (auto simp: cells_wf_def)
  have p: "0 \<le> c_pos c ! i" using assms cells_wf_pos_ge[OF assms(1,2)] by auto
  show "cell_ok (cell_at ?c i)"
    using assms trunc_div_pos[OF p assms(4)] cells_wf_ok[OF assms(1,2)] unfolding pos_div_cell[OF assms(1,2)]
    by (auto simp: cell_ok_def cell_at_def)
  show "c_seq_pos ?c t = (c_seq_pos c t - {(c_pos c ! i, i)}) \<union>
      (if t \<in> c_seq ?c ! i then {(c_pos ?c ! i, i)} else {})" for t
    using assms sub cells_wf_len[OF assms(1)]
    by (simp add: cells_pos_div_def seq_pos_rm_wf_eq seq_pos_add_seq_eq Let_def cells_len_def)
  show "c_used ?c = (if c_pos ?c ! i = -1 then c_used c - {i} else insert i (c_used c))"
    using assms trunc_div_pos[OF p assms(4)] used_iff[OF assms(1,2)] cells_wf_len[OF assms(1)]
    by (simp add: cells_pos_div_def seq_pos_rm_eq seq_pos_add_eq Let_def cells_len_def insert_absorb)
qed (use assms cells_wf_len[OF assms(1)] used_iff[OF assms(1,2)] in \<open>auto simp: cells_pos_div_def seq_pos_rm_eq seq_pos_add_eq Let_def cells_len_def\<close>)

section \<open>Queries\<close>

lemma seq_pos_min_spec:
  "cells_wf c \<Longrightarrow> cells_seq_pos_min s c =
     (if (\<exists>p i. (s, p, i) \<in> cells_view c) then Min {p. \<exists>i. (s, p, i) \<in> cells_view c} else -1)"
proof -
  assume wf: "cells_wf c"
  have "fst ` c_seq_pos c s = {p. \<exists>i. (s, p, i) \<in> cells_view c}"
    using cells_wf_seq_pos[OF wf, of s] by (force simp: view_iff)
  then show ?thesis
    using cells_wf_seq_pos[OF wf, of s] by (auto simp: cells_seq_pos_min_def view_iff)
qed

lemma seq_pos_max_spec:
  "cells_wf c \<Longrightarrow> cells_seq_pos_max s c =
     (if (\<exists>p i. (s, p, i) \<in> cells_view c) then Max {p. \<exists>i. (s, p, i) \<in> cells_view c} else -1)"
proof -
  assume wf: "cells_wf c"
  have "fst ` c_seq_pos c s = {p. \<exists>i. (s, p, i) \<in> cells_view c}"
    using cells_wf_seq_pos[OF wf, of s] by (force simp: view_iff)
  then show ?thesis
    using cells_wf_seq_pos[OF wf, of s] by (auto simp: cells_seq_pos_max_def view_iff)
qed

lemma seq_get_singleton:
  assumes "c_seq c ! i = {s}" "s < LLAMA_MAX_SEQ"
  shows "cells_seq_get i c = int s"
proof -
  have "find (\<lambda>t. t \<in> c_seq c ! i) [0..<LLAMA_MAX_SEQ] = Some s"
    unfolding find_upt_Some using assms by auto
  then show ?thesis by (simp add: cells_seq_get_def)
qed

lemma seq_count_1: "cells_seq_count i c = 1 \<longleftrightarrow> (\<exists>s. c_seq c ! i = {s})"
  by (auto simp: cells_seq_count_def card_1_singleton_iff)

section \<open>A loop over all cells\<close>

text \<open>
  The cache operations share one loop: visit the cells in order, let a body act on the
  current cell, and remember the first cell the body freed (\<open>new_head\<close>, which starts as
  \<open>cells.size()\<close>).
\<close>

definition sweep_cells ::
  "(nat \<Rightarrow> llama_kv_cells \<Rightarrow> bool \<times> llama_kv_cells) \<Rightarrow> llama_kv_cells \<Rightarrow> llama_kv_cells \<times> nat" where
  "sweep_cells body c0 =
     fold (\<lambda>i (c, new_head).
             let (freed, c') = body i c
             in (c', if freed \<and> new_head = cells_size c' then i else new_head))
          [0..<cells_size c0] (c0, cells_size c0)"

text \<open>
  The contract of a loop body: it keeps the invariant, turns the current cell into
  \<open>post i\<close> of it, leaves the other cells alone, reports \<open>freed i\<close> and requests a shift
  exactly for the cells with \<open>shifts i\<close>.
\<close>

locale cell_sweep =
  fixes body :: "nat \<Rightarrow> llama_kv_cells \<Rightarrow> bool \<times> llama_kv_cells"
    and post :: "nat \<Rightarrow> kv_cell \<Rightarrow> kv_cell"
    and freed :: "nat \<Rightarrow> kv_cell \<Rightarrow> bool"
    and shifts :: "nat \<Rightarrow> kv_cell \<Rightarrow> bool"
  assumes body_wf: "cells_wf c \<Longrightarrow> i < cells_size c \<Longrightarrow> cells_wf (snd (body i c))"
    and body_size: "cells_size (snd (body i c)) = cells_size c"
    and body_cell: "cells_wf c \<Longrightarrow> i < cells_size c \<Longrightarrow>
      cell_at (snd (body i c)) j = (if j = i then post i (cell_at c i) else cell_at c j)"
    and body_freed: "cells_wf c \<Longrightarrow> i < cells_size c \<Longrightarrow> fst (body i c) = freed i (cell_at c i)"
    and body_shift: "cells_wf c \<Longrightarrow> i < cells_size c \<Longrightarrow>
      c_has_shift (snd (body i c)) = (c_has_shift c \<or> shifts i (cell_at c i))"
begin

definition step :: "nat \<Rightarrow> llama_kv_cells \<times> nat \<Rightarrow> llama_kv_cells \<times> nat" where
  "step i st = (let (fr, c') = body i (fst st)
                in (c', if fr \<and> snd st = cells_size c' then i else snd st))"

lemma sweep_step: "sweep_cells body c = fold step [0..<cells_size c] (c, cells_size c)"
  by (simp add: sweep_cells_def step_def[abs_def] case_prod_beta' Let_def)

lemma fold_step_invariant:
  assumes "cells_wf c" "m \<le> cells_size c" "n = cells_size c"
  defines "r \<equiv> fold step [0..<m] (c, n)"
  shows "cells_wf (fst r) \<and> cells_size (fst r) = n \<and>
     (\<forall>j. cell_at (fst r) j = (if j < m then post j (cell_at c j) else cell_at c j)) \<and>
     snd r = (if \<exists>j < m. freed j (cell_at c j) then first_such (\<lambda>j. freed j (cell_at c j)) m else n) \<and>
     (c_has_shift (fst r) \<longleftrightarrow> c_has_shift c \<or> (\<exists>j < m. shifts j (cell_at c j)))"
  using assms(1-3) unfolding r_def
proof (induction m)
  case 0
  then show ?case by simp
next
  case (Suc m)
  define q where "q = fold step [0..<m] (c, n)"
  have q: "cells_wf (fst q)" "cells_size (fst q) = n"
      "\<And>j. cell_at (fst q) j = (if j < m then post j (cell_at c j) else cell_at c j)"
      "snd q = (if \<exists>j < m. freed j (cell_at c j) then first_such (\<lambda>j. freed j (cell_at c j)) m else n)"
      "c_has_shift (fst q) \<longleftrightarrow> c_has_shift c \<or> (\<exists>j < m. shifts j (cell_at c j))"
    using Suc unfolding q_def by simp_all
  have m: "m < cells_size (fst q)" "m < n" using Suc.prems q(2) by simp_all
  note b = body_wf[OF q(1) m(1)] body_cell[OF q(1) m(1)] body_freed[OF q(1) m(1)]
    body_shift[OF q(1) m(1)] body_size[of m "fst q"]
  have lt: "(\<exists>j < m. freed j (cell_at c j)) \<Longrightarrow> first_such (\<lambda>j. freed j (cell_at c j)) m < n"
    using first_such_le[of "\<lambda>j. freed j (cell_at c j)" m] first_such_none[of "\<lambda>j. freed j (cell_at c j)" m] m(2)
    by (metis le_neq_implies_less less_le_trans less_imp_le)
  have st: "fold step [0..<Suc m] (c, n) = step m q" by (simp add: q_def)
  have fresh: "snd q = n \<longleftrightarrow> (\<forall>j < m. \<not> freed j (cell_at c j))"
    using q(4) lt by auto
  have hd: "snd (step m q) = (if freed m (cell_at c m) \<and> snd q = n then m else snd q)"
    using b(3,5) q(2,3) by (simp add: step_def split_beta)
  have "snd (step m q) = (if \<exists>j < Suc m. freed j (cell_at c j)
      then first_such (\<lambda>j. freed j (cell_at c j)) (Suc m) else n)"
  proof (cases "\<exists>j < m. freed j (cell_at c j)")
    case True
    then have "\<exists>j < Suc m. freed j (cell_at c j)" by (auto simp: less_Suc_eq)
    with True show ?thesis using hd fresh q(4) by (auto simp: first_such_Suc)
  next
    case False
    then have "(\<exists>j < Suc m. freed j (cell_at c j)) \<longleftrightarrow> freed m (cell_at c m)" by (auto simp: less_Suc_eq)
    with False show ?thesis using hd fresh by (auto simp: first_such_Suc)
  qed
  moreover have "\<forall>j. cell_at (fst (step m q)) j = (if j < Suc m then post j (cell_at c j) else cell_at c j)"
    using b(2) q(3) by (simp add: step_def split_beta less_Suc_eq)
  moreover have "c_has_shift (fst (step m q)) \<longleftrightarrow> c_has_shift c \<or> (\<exists>j < Suc m. shifts j (cell_at c j))"
    using b(4) q(3,5) by (auto simp: step_def split_beta less_Suc_eq)
  ultimately show ?case unfolding st
    using b(1,5) q(2) by (simp add: step_def split_beta)
qed

lemma sweep_wf: "cells_wf c \<Longrightarrow> cells_wf (fst (sweep_cells body c))"
  using fold_step_invariant[of c "cells_size c"] by (simp add: sweep_step)

lemma sweep_size: "cells_wf c \<Longrightarrow> cells_size (fst (sweep_cells body c)) = cells_size c"
  using fold_step_invariant[of c "cells_size c"] by (simp add: sweep_step)

lemma sweep_cell: "cells_wf c \<Longrightarrow> j < cells_size c \<Longrightarrow>
    cell_at (fst (sweep_cells body c)) j = post j (cell_at c j)"
  using fold_step_invariant[of c "cells_size c"] by (simp add: sweep_step)

lemma sweep_head: "cells_wf c \<Longrightarrow>
    snd (sweep_cells body c) = first_such (\<lambda>j. freed j (cell_at c j)) (cells_size c)"
  using fold_step_invariant[of c "cells_size c"]
    first_such_none[of "\<lambda>j. freed j (cell_at c j)" "cells_size c"]
  by (auto simp: sweep_step)

lemma sweep_shift: "cells_wf c \<Longrightarrow> c_has_shift (fst (sweep_cells body c)) \<longleftrightarrow>
    c_has_shift c \<or> (\<exists>j < cells_size c. shifts j (cell_at c j))"
  using fold_step_invariant[of c "cells_size c"] by (simp add: sweep_step)

lemma sweep_view:
  assumes "cells_wf c"
  shows "(s, p, i) \<in> cells_view (fst (sweep_cells body c)) \<longleftrightarrow>
     i < cells_size c \<and> s \<in> k_seq (post i (cell_at c i)) \<and> p = k_pos (post i (cell_at c i))"
  using sweep_cell[OF assms, of i] sweep_size[OF assms]
  by (auto simp: view_iff simp flip: cell_at_sel)

end

section \<open>Saving and restoring cells\<close>

lemma set_one_cell [cell_simps]:
  "cells_wf c \<Longrightarrow> idx < cells_size c \<Longrightarrow>
   cell_at (cells_set_one other j idx c) m =
     (if m = idx then (cell_at c idx)\<lparr>k_pos := c_pos other ! j, k_ext := c_ext other ! j,
                         k_seq := c_seq other ! j\<rparr>
      else cell_at c m)"
  using cells_wf_len[of c]
  by (simp add: cells_set_one_def seq_pos_rm_eq seq_pos_add_eq cell_at_def Let_def cells_len_def)

lemma set_one_size [simp]: "cells_size (cells_set_one other j idx c) = cells_size c"
  by (simp add: cells_set_one_def seq_pos_rm_eq seq_pos_add_eq Let_def cells_size_def)

lemma set_one_has_shift [simp]: "c_has_shift (cells_set_one other j idx c) = c_has_shift c"
  by (simp add: cells_set_one_def seq_pos_rm_eq seq_pos_add_eq Let_def)

lemma set_one_wf [cell_wf]:
  assumes "cells_wf c" "idx < cells_size c" "c_shift c ! idx = 0"
    and "-1 \<le> c_pos other ! j" "c_pos other ! j = -1 \<Longrightarrow> c_seq other ! j = {}"
    and "c_seq other ! j \<subseteq> {..<LLAMA_MAX_SEQ}"
  shows "cells_wf (cells_set_one other j idx c)"
proof (rule cells_wf_replace[OF assms(1,2)])
  let ?c = "cells_set_one other j idx c"
  have len: "cells_len c (cells_size c)" using assms(1) by (rule cells_wf_len)
  have e: "c_pos c ! idx = -1 \<Longrightarrow> c_seq c ! idx = {}" using assms(1,2) by (simp add: cells_wf_def)
  show "cell_ok (cell_at ?c idx)"
    unfolding set_one_cell[OF assms(1,2)] using assms(3-6) by (auto simp: cell_ok_def cell_at_def)
  show "c_used ?c = (if c_pos ?c ! idx = -1 then c_used c - {idx} else insert idx (c_used c))"
    using assms used_iff[OF assms(1,2)] len
    by (simp add: cells_set_one_def seq_pos_rm_eq seq_pos_add_eq Let_def cells_len_def insert_absorb)
  show "c_seq_pos ?c t = (c_seq_pos c t - {(c_pos c ! idx, idx)}) \<union>
      (if t \<in> c_seq ?c ! idx then {(c_pos ?c ! idx, idx)} else {})" for t
  proof -
    have "c_seq_pos (seq_pos_rm idx c) t = c_seq_pos c t - {(c_pos c ! idx, idx)}"
      using assms(1,2) by (simp add: seq_pos_rm_wf_eq)
    moreover have "c_pos c ! idx = -1 \<Longrightarrow> (c_pos c ! idx, idx) \<notin> c_seq_pos c t"
      using seq_pos_notin[OF assms(1)] e by simp
    ultimately show ?thesis
      using assms(2,5,6) len
      by (auto simp: cells_set_one_def seq_pos_rm_eq seq_pos_add_eq Let_def cells_len_def split: if_splits)
  qed
qed (use assms(2) cells_wf_len[OF assms(1)] in
  \<open>auto simp: cells_set_one_def seq_pos_rm_eq seq_pos_add_eq Let_def cells_len_def\<close>)

lemma cp_simps [simp]:
  "c_pos (cells_cp idxs c) = map (\<lambda>i. c_pos c ! i) idxs"
  "c_ext (cells_cp idxs c) = map (\<lambda>i. c_ext c ! i) idxs"
  "c_seq (cells_cp idxs c) = map (\<lambda>i. c_seq c ! i) idxs"
  "cells_size (cells_cp idxs c) = length idxs"
  by (simp_all add: cells_cp_def cells_size_def)

definition cell_restored :: "kv_cell \<Rightarrow> kv_cell \<Rightarrow> kv_cell" where
  "cell_restored old k = k\<lparr>k_pos := k_pos old, k_ext := k_ext old, k_seq := k_seq old\<rparr>"

text \<open>Restoring a saved copy gives the saved cells their old position, extras and sequences.\<close>

lemma set_cp:
  assumes "cells_wf c" "cells_wf c0" "cells_size c = cells_size c0"
    and "\<forall>i \<in> set idxs. i < cells_size c \<and> c_shift c ! i = 0"
  defines "r \<equiv> cells_set idxs (cells_cp idxs c0) c"
  shows "cells_wf r \<and> cells_size r = cells_size c \<and> c_has_shift r = c_has_shift c \<and>
     (\<forall>m. cell_at r m = (if m \<in> set idxs then cell_restored (cell_at c0 m) (cell_at c m) else cell_at c m))"
proof -
  have "let q = fold (\<lambda>j. cells_set_one (cells_cp idxs c0) j (idxs ! j)) [0..<n] c in
      cells_wf q \<and> cells_size q = cells_size c \<and> c_has_shift q = c_has_shift c \<and>
      (\<forall>m. cell_at q m = (if m \<in> set (take n idxs) then cell_restored (cell_at c0 m) (cell_at c m) else cell_at c m))"
    if "n \<le> length idxs" for n
    using that
  proof (induction n)
    case 0
    then show ?case using assms(1) by simp
  next
    case (Suc n)
    define q where "q = fold (\<lambda>j. cells_set_one (cells_cp idxs c0) j (idxs ! j)) [0..<n] c"
    have q: "cells_wf q" "cells_size q = cells_size c" "c_has_shift q = c_has_shift c"
      "\<And>m. cell_at q m = (if m \<in> set (take n idxs) then cell_restored (cell_at c0 m) (cell_at c m) else cell_at c m)"
      using Suc by (simp_all add: q_def Let_def)
    let ?i = "idxs ! n"
    have i: "?i < cells_size c" "c_shift c ! ?i = 0" using assms(4) Suc.prems by simp_all
    have sh: "c_shift q ! ?i = 0"
      using q(4)[of ?i] i(2) by (simp add: cell_at_def cell_restored_def split: if_splits)
    have ok: "cell_ok (cell_at c0 ?i)" using cells_wf_ok[OF assms(2)] i assms(3) by simp
    have "cells_wf (cells_set_one (cells_cp idxs c0) n ?i q)"
      using set_one_wf[OF q(1) _ sh, of "cells_cp idxs c0" n] i q(2) ok Suc.prems
      by (simp add: cell_ok_def cell_at_def)
    moreover have "cell_at (cells_set_one (cells_cp idxs c0) n ?i q) m =
        (if m \<in> set (take (Suc n) idxs) then cell_restored (cell_at c0 m) (cell_at c m) else cell_at c m)" for m
      using q(1,2,4) i Suc.prems
      by (auto simp: set_one_cell take_Suc_conv_app_nth cell_restored_def)
    ultimately show ?case using q by (simp add: q_def[symmetric] Let_def)
  qed
  from this[of "length idxs"] show ?thesis
    by (simp add: r_def cells_set_def Let_def)
qed

text \<open>A saved copy restored over changes of those cells only is the identity.\<close>

lemma set_cp_undo:
  assumes "cells_wf c" "cells_wf c0" "cells_size c = cells_size c0" "c_has_shift c = c_has_shift c0"
    and "\<forall>i \<in> set idxs. i < cells_size c \<and> c_shift c ! i = 0"
    and "\<And>m. m < cells_size c \<Longrightarrow> m \<notin> set idxs \<Longrightarrow> cell_at c m = cell_at c0 m"
    and "\<And>m. m \<in> set idxs \<Longrightarrow> k_shift (cell_at c m) = k_shift (cell_at c0 m) \<and>
                                      k_score (cell_at c m) = k_score (cell_at c0 m)"
  shows "cells_set idxs (cells_cp idxs c0) c = c0"
proof -
  note r = set_cp[OF assms(1-3,5)]
  show ?thesis
  proof (rule cells_eqI)
    fix i assume "i < cells_size (cells_set idxs (cells_cp idxs c0) c)"
    then show "cell_at (cells_set idxs (cells_cp idxs c0) c) i = cell_at c0 i"
      using r assms(6,7)[of i] by (auto simp: cell_restored_def)
  qed (use r assms(2-4) in auto)
qed

end
