(* ===== verification/KvSeq.thy ===== *)
theory KvSeq
  imports KvCells
begin

text \<open>
  The KV cache as a memory of sequences, \<open>engine/src/llama-kv-cache.cpp\<close>: its state and the
  operations that remove, copy, keep, shift and divide the positions of a sequence
  (\<open>clear\<close>, \<open>seq_rm\<close>, \<open>seq_cp\<close>, \<open>seq_keep\<close>, \<open>seq_add\<close>, \<open>seq_div\<close>, \<open>seq_pos_min\<close>,
  \<open>seq_pos_max\<close>, \<open>get_n_kv\<close>). Each loop over the cells is an instance of the contract
  \<open>cell_sweep\<close>; the lemmas say what each operation does to the set of
  (sequence, position, cell) triples the cache holds.
\<close>

section \<open>State\<close>

datatype llama_swa_type = SWA_NONE | SWA_STANDARD | SWA_CHUNKED | SWA_SYMMETRIC

text \<open>
  The fields of \<open>llama_kv_cache\<close> and of the \<open>hparams\<close> it refers to that the modelled
  operations use. A cache built over another one (\<open>other\<close>) shares the other's cells, so of
  the other cache only its \<open>seq_to_stream\<close> table is kept. The contents of the probe tensor
  \<open>v_probe_out\<close>, computed by the graph, stand for the tensor itself.
\<close>

record llama_kv_cache =
  kv_n_stream :: nat
  kv_n_pad :: nat
  kv_n_swa :: nat
  kv_swa_type :: llama_swa_type
  kv_n_pos_per_embd :: nat
  kv_ple_n_heads :: nat
  kv_ple_image_token_id :: nat
  kv_ple_eos_token_id :: nat
  kv_v_heads :: "nat list"
  kv_other :: "nat list option"
  kv_v_cells :: "llama_kv_cells list"
  kv_seq_to_stream :: "nat list"
  kv_sc_ssrc :: "nat list"
  kv_sc_sdst :: "nat list"
  kv_probe_out :: "float32 list option"
  kv_probe_pending :: bool
  kv_probe_layers :: nat
  kv_probe_strm :: nat
  kv_evicted_total :: nat
  kv_floor_sc :: float32
  kv_protect :: int

abbreviation kv_cells :: "llama_kv_cache \<Rightarrow> nat \<Rightarrow> llama_kv_cells" where
  "kv_cells kv st \<equiv> kv_v_cells kv ! st"

abbreviation kv_head :: "llama_kv_cache \<Rightarrow> nat \<Rightarrow> nat" where
  "kv_head kv st \<equiv> kv_v_heads kv ! st"

definition kv_set_cells :: "nat \<Rightarrow> llama_kv_cells \<Rightarrow> llama_kv_cache \<Rightarrow> llama_kv_cache" where
  "kv_set_cells st c kv = kv\<lparr>kv_v_cells := (kv_v_cells kv)[st := c]\<rparr>"

definition kv_set_head :: "nat \<Rightarrow> nat \<Rightarrow> llama_kv_cache \<Rightarrow> llama_kv_cache" where
  "kv_set_head st h kv = kv\<lparr>kv_v_heads := (kv_v_heads kv)[st := h]\<rparr>"

definition kv_get_size :: "llama_kv_cache \<Rightarrow> nat" where
  "kv_get_size kv = cells_size (kv_cells kv (kv_seq_to_stream kv ! 0))"

text \<open>What the cache reads of the \<open>hparams\<close>, and the table through which a cache over another one finds the stream of a sequence.\<close>

record kv_hparams =
  hp_n_pos_per_embd :: nat
  hp_ple_n_heads :: nat
  hp_ple_image_token_id :: nat
  hp_ple_eos_token_id :: nat

definition source_table :: "llama_kv_cache \<Rightarrow> nat list" where
  "source_table src = (case kv_other src of Some t \<Rightarrow> t | None \<Rightarrow> kv_seq_to_stream src)"

text \<open>
  The part of the constructor that sets up this state: the streams, their cells and heads,
  and the map from sequence ids to streams. A cache over another one takes its size, and resizes its cells.
\<close>

definition kv_init :: "kv_hparams \<Rightarrow> llama_kv_cache option \<Rightarrow> bool \<Rightarrow> nat \<Rightarrow> nat \<Rightarrow> nat \<Rightarrow> nat \<Rightarrow> llama_swa_type \<Rightarrow>
    float32 \<Rightarrow> int \<Rightarrow> err + llama_kv_cache" where
  "kv_init hparams other unified kv_size n_seq_max n_pad n_swa swa_type floor_sc protect =
     (let n_stream = (if unified then 1 else n_seq_max);
          kv_size = (case other of None \<Rightarrow> kv_size | Some src \<Rightarrow> kv_get_size src);
          v_cells = (case other of None \<Rightarrow> [] | Some src \<Rightarrow> kv_v_cells src) in
      if kv_size mod n_pad \<noteq> 0 then Inl Assert_failed
      else if \<not> (n_stream = 1 \<or> n_stream = n_seq_max) then Inl Assert_failed
      else Inr \<lparr>kv_n_stream = n_stream, kv_n_pad = n_pad, kv_n_swa = n_swa, kv_swa_type = swa_type,
        kv_n_pos_per_embd = hp_n_pos_per_embd hparams, kv_ple_n_heads = hp_ple_n_heads hparams,
        kv_ple_image_token_id = hp_ple_image_token_id hparams, kv_ple_eos_token_id = hp_ple_eos_token_id hparams,
        kv_v_heads = replicate n_stream 0, kv_other = map_option source_table other,
        kv_v_cells = map (cells_resize kv_size) (vec_resize n_stream cells_new v_cells),
        kv_seq_to_stream = (if n_stream > 1 then [0..<n_stream] else replicate LLAMA_MAX_SEQ 0),
        kv_sc_ssrc = [], kv_sc_sdst = [], kv_probe_out = None, kv_probe_pending = False,
        kv_probe_layers = 0, kv_probe_strm = 0, kv_evicted_total = 0,
        kv_floor_sc = floor_sc, kv_protect = protect\<rparr>)"

text \<open>The parameters of a text model.\<close>

definition hp_text :: kv_hparams where
  "hp_text = \<lparr>hp_n_pos_per_embd = 1, hp_ple_n_heads = 0, hp_ple_image_token_id = 0, hp_ple_eos_token_id = 0\<rparr>"

lemma hp_text_simps [simp]:
  "hp_n_pos_per_embd hp_text = 1" "hp_ple_n_heads hp_text = 0" "hp_ple_image_token_id hp_text = 0" "hp_ple_eos_token_id hp_text = 0"
  by (simp_all add: hp_text_def)

lemma vec_resize_fresh [simp]: "map f (vec_resize n d []) = replicate n (f d)"
  by (simp add: vec_resize_def)

section \<open>Operations\<close>

definition kv_get_has_shift :: "llama_kv_cache \<Rightarrow> bool" where
  "kv_get_has_shift kv = fold (\<lambda>st r. r \<or> c_has_shift (kv_cells kv st)) [0..<kv_n_stream kv] False"

text \<open>The device buffers that \<open>data = true\<close> also clears are not part of the state.\<close>

definition kv_clear :: "llama_kv_cache \<Rightarrow> llama_kv_cache" where
  "kv_clear kv =
     fold (\<lambda>st kv. kv_set_head st 0 (kv_set_cells st (cells_reset (kv_cells kv st)) kv))
          [0..<kv_n_stream kv] kv"

definition clamp_p0 :: "llama_pos \<Rightarrow> llama_pos" where
  "clamp_p0 p0 = (if p0 < 0 then 0 else p0)"

definition clamp_p1 :: "llama_pos \<Rightarrow> llama_pos" where
  "clamp_p1 p1 = (if p1 < 0 then INT32_MAX else p1)"

definition seq_id_ok :: "llama_seq_id \<Rightarrow> llama_kv_cache \<Rightarrow> bool" where
  "seq_id_ok s kv \<longleftrightarrow> 0 \<le> s \<and> nat s < length (kv_seq_to_stream kv)"

text \<open>``If we freed up a slot, set head to it so searching can start there.''\<close>

definition lower_head :: "nat \<Rightarrow> nat \<Rightarrow> nat \<Rightarrow> nat" where
  "lower_head n new_head head = (if new_head \<noteq> n \<and> new_head < head then new_head else head)"

subsection \<open>\<open>seq_rm\<close>\<close>

definition seq_rm_body ::
  "nat \<Rightarrow> llama_pos \<Rightarrow> llama_pos \<Rightarrow> nat \<Rightarrow> llama_kv_cells \<Rightarrow> bool \<times> llama_kv_cells" where
  "seq_rm_body s p0 p1 i c =
     (if \<not> cells_pos_in i p0 p1 c then (False, c)
      else if cells_seq_has i s c then cells_seq_rm i s c else (False, c))"

definition rm_any_body ::
  "llama_pos \<Rightarrow> llama_pos \<Rightarrow> nat \<Rightarrow> llama_kv_cells \<Rightarrow> bool \<times> llama_kv_cells" where
  "rm_any_body p0 p1 i c =
     (if \<not> cells_pos_in i p0 p1 c then (False, c) else (True, cells_rm i c))"

definition rm_stream ::
  "(nat \<Rightarrow> llama_kv_cells \<Rightarrow> bool \<times> llama_kv_cells) \<Rightarrow> nat \<Rightarrow> llama_kv_cache \<Rightarrow> llama_kv_cache" where
  "rm_stream body st kv =
     (let (c, new_head) = sweep_cells body (kv_cells kv st)
      in kv_set_head st (lower_head (cells_size c) new_head (kv_head kv st)) (kv_set_cells st c kv))"

definition kv_seq_rm ::
  "llama_seq_id \<Rightarrow> llama_pos \<Rightarrow> llama_pos \<Rightarrow> llama_kv_cache \<Rightarrow> err + bool \<times> llama_kv_cache" where
  "kv_seq_rm seq_id p0 p1 kv =
     (if kv_other kv \<noteq> None then Inr (True, kv)
      else if \<not> (seq_id = -1 \<or> seq_id_ok seq_id kv) then Inl Assert_failed
      else
        let p0 = clamp_p0 p0; p1 = clamp_p1 p1 in
        if 0 \<le> seq_id then
          Inr (True, rm_stream (seq_rm_body (nat seq_id) p0 p1) (kv_seq_to_stream kv ! nat seq_id) kv)
        else
          Inr (True, fold (rm_stream (rm_any_body p0 p1)) [0..<kv_n_stream kv] kv))"

subsection \<open>\<open>seq_cp\<close>\<close>

definition seq_cp_body ::
  "nat \<Rightarrow> nat \<Rightarrow> llama_pos \<Rightarrow> llama_pos \<Rightarrow> nat \<Rightarrow> llama_kv_cells \<Rightarrow> bool \<times> llama_kv_cells" where
  "seq_cp_body src dst p0 p1 i c =
     (if \<not> cells_pos_in i p0 p1 c then (False, c)
      else if cells_seq_has i src c then (False, cells_seq_add i dst c) else (False, c))"

text \<open>Copying one cell of another stream: the position before its pending shift is set first.\<close>

definition cp_cell :: "llama_kv_cells \<Rightarrow> nat \<Rightarrow> nat \<Rightarrow> nat \<Rightarrow> llama_kv_cells \<Rightarrow> llama_kv_cells" where
  "cp_cell src_cells src dst i c =
     (if cells_seq_has i src src_cells then
        let pos = cells_pos_get i src_cells;
            shift = cells_get_shift i src_cells;
            ext = cells_ext_get i src_cells;
            pos = (if shift \<noteq> 0 then pos - shift else pos);
            c = cells_pos_set i pos c;
            c = cells_seq_add i dst c;
            c = (if shift \<noteq> 0 then snd (cells_pos_add i shift c) else c)
        in cells_ext_set i ext c
      else c)"

definition kv_seq_cp ::
  "llama_seq_id \<Rightarrow> llama_seq_id \<Rightarrow> llama_pos \<Rightarrow> llama_pos \<Rightarrow> llama_kv_cache \<Rightarrow> err + llama_kv_cache" where
  "kv_seq_cp src dst p0 p1 kv =
     (if kv_other kv \<noteq> None then Inr kv
      else if \<not> seq_id_ok src kv \<or> \<not> seq_id_ok dst kv then Inl Assert_failed
      else
        let s0 = kv_seq_to_stream kv ! nat src; s1 = kv_seq_to_stream kv ! nat dst in
        if s0 = s1 then
          (if src = dst then Inr kv
           else
             let p0 = clamp_p0 p0; p1 = clamp_p1 p1 in
             Inr (kv_set_cells s0
                   (fst (sweep_cells (seq_cp_body (nat src) (nat dst) p0 p1) (kv_cells kv s0))) kv))
        else
          let is_full = \<not> (p0 > 0 \<and> p0 + 1 < int (kv_get_size kv)) \<and>
                        \<not> (p1 > 0 \<and> p1 + 1 < int (kv_get_size kv))
          in if \<not> is_full then Inl Assert_failed
             else
               let kv = kv\<lparr>kv_sc_ssrc := kv_sc_ssrc kv @ [s0], kv_sc_sdst := kv_sc_sdst kv @ [s1]\<rparr>;
                   c1 = fold (cp_cell (kv_cells kv s0) (nat src) (nat dst))
                          [0..<cells_size (kv_cells kv s0)] (cells_reset (kv_cells kv s1));
                   kv = kv_set_cells s1 c1 kv
               in Inr (kv_set_head s1 (kv_head kv s0) kv))"

subsection \<open>\<open>seq_keep\<close>, \<open>seq_add\<close>, \<open>seq_div\<close>\<close>

definition seq_keep_body :: "nat \<Rightarrow> nat \<Rightarrow> llama_kv_cells \<Rightarrow> bool \<times> llama_kv_cells" where
  "seq_keep_body s i c = cells_seq_keep i s c"

definition kv_seq_keep :: "llama_seq_id \<Rightarrow> llama_kv_cache \<Rightarrow> err + llama_kv_cache" where
  "kv_seq_keep seq_id kv =
     (if kv_other kv \<noteq> None then Inr kv
      else if \<not> seq_id_ok seq_id kv then Inl Assert_failed
      else Inr (rm_stream (seq_keep_body (nat seq_id)) (kv_seq_to_stream kv ! nat seq_id) kv))"

definition seq_add_body ::
  "nat \<Rightarrow> llama_pos \<Rightarrow> llama_pos \<Rightarrow> llama_pos \<Rightarrow> nat \<Rightarrow> llama_kv_cells \<Rightarrow> bool \<times> llama_kv_cells" where
  "seq_add_body s p0 p1 shift i c =
     (if \<not> cells_pos_in i p0 p1 c then (False, c)
      else if cells_seq_has i s c then cells_pos_add i shift c else (False, c))"

definition kv_seq_add ::
  "llama_seq_id \<Rightarrow> llama_pos \<Rightarrow> llama_pos \<Rightarrow> llama_pos \<Rightarrow> llama_kv_cache \<Rightarrow> err + llama_kv_cache" where
  "kv_seq_add seq_id p0 p1 shift kv =
     (if kv_other kv \<noteq> None then Inr kv
      else if \<not> seq_id_ok seq_id kv then Inl Assert_failed
      else if kv_n_pos_per_embd kv \<noteq> 1 then Inl Assert_failed
      else if shift = 0 then Inr kv
      else
        let p0 = clamp_p0 p0; p1 = clamp_p1 p1 in
        if p0 = p1 then Inr kv
        else
          let st = kv_seq_to_stream kv ! nat seq_id;
              (c, new_head) = sweep_cells (seq_add_body (nat seq_id) p0 p1 shift) (kv_cells kv st)
          in Inr (kv_set_head st (if new_head \<noteq> cells_size c then new_head else 0)
                    (kv_set_cells st c kv)))"

definition seq_div_body ::
  "nat \<Rightarrow> llama_pos \<Rightarrow> llama_pos \<Rightarrow> int \<Rightarrow> nat \<Rightarrow> llama_kv_cells \<Rightarrow> bool \<times> llama_kv_cells" where
  "seq_div_body s p0 p1 d i c =
     (if \<not> cells_pos_in i p0 p1 c then (False, c)
      else if cells_seq_has i s c then (False, cells_pos_div i d c) else (False, c))"

definition kv_seq_div ::
  "llama_seq_id \<Rightarrow> llama_pos \<Rightarrow> llama_pos \<Rightarrow> int \<Rightarrow> llama_kv_cache \<Rightarrow> err + llama_kv_cache" where
  "kv_seq_div seq_id p0 p1 d kv =
     (if kv_other kv \<noteq> None then Inr kv
      else if \<not> seq_id_ok seq_id kv then Inl Assert_failed
      else if kv_n_pos_per_embd kv \<noteq> 1 then Inl Assert_failed
      else if d = 1 then Inr kv
      else
        let p0 = clamp_p0 p0; p1 = clamp_p1 p1 in
        if p0 = p1 then Inr kv
        else
          let st = kv_seq_to_stream kv ! nat seq_id
          in Inr (kv_set_cells st (fst (sweep_cells (seq_div_body (nat seq_id) p0 p1 d) (kv_cells kv st))) kv))"

subsection \<open>Queries\<close>

definition kv_seq_pos_min :: "llama_seq_id \<Rightarrow> llama_kv_cache \<Rightarrow> err + llama_pos" where
  "kv_seq_pos_min seq_id kv =
     (let table = (case kv_other kv of Some t \<Rightarrow> t | None \<Rightarrow> kv_seq_to_stream kv) in
      if \<not> (0 \<le> seq_id \<and> nat seq_id < length table) then Inl Assert_failed
      else Inr (cells_seq_pos_min (nat seq_id) (kv_cells kv (table ! nat seq_id))))"

definition kv_seq_pos_max :: "llama_seq_id \<Rightarrow> llama_kv_cache \<Rightarrow> err + llama_pos" where
  "kv_seq_pos_max seq_id kv =
     (let table = (case kv_other kv of Some t \<Rightarrow> t | None \<Rightarrow> kv_seq_to_stream kv) in
      if \<not> (0 \<le> seq_id \<and> nat seq_id < length table) then Inl Assert_failed
      else Inr (cells_seq_pos_max (nat seq_id) (kv_cells kv (table ! nat seq_id))))"

section \<open>The loop bodies meet the contract\<close>

definition in_range :: "llama_pos \<Rightarrow> llama_pos \<Rightarrow> kv_cell \<Rightarrow> bool" where
  "in_range p0 p1 k \<longleftrightarrow> p0 \<le> k_pos k \<and> k_pos k < p1"

definition drop_seq :: "nat \<Rightarrow> kv_cell \<Rightarrow> kv_cell" where
  "drop_seq s k = (if k_seq k = {s} then cell_cleared k else k\<lparr>k_seq := k_seq k - {s}\<rparr>)"

definition shift_cell :: "llama_pos \<Rightarrow> kv_cell \<Rightarrow> kv_cell" where
  "shift_cell d k =
     (if k_pos k + d < 0 then k\<lparr>k_pos := -1, k_shift := 0, k_seq := {}\<rparr>
      else k\<lparr>k_pos := k_pos k + d, k_shift := k_shift k + d\<rparr>)"

definition div_cell :: "int \<Rightarrow> kv_cell \<Rightarrow> kv_cell" where
  "div_cell d k = k\<lparr>k_pos := trunc_div (k_pos k) d,
                    k_shift := k_shift k + (k_pos k - trunc_div (k_pos k) d)\<rparr>"

lemma pos_in_range: "cells_pos_in i p0 p1 c \<longleftrightarrow> in_range p0 p1 (cell_at c i)"
  by (simp add: cells_pos_in_def in_range_def)

interpretation rm1: cell_sweep "seq_rm_body s p0 p1"
  "\<lambda>_ k. if in_range p0 p1 k \<and> s \<in> k_seq k then drop_seq s k else k"
  "\<lambda>_ k. in_range p0 p1 k \<and> k_seq k = {s}" "\<lambda>_ _. False" for s p0 p1
  by unfold_locales
     (auto simp: seq_rm_body_def pos_in_range cells_seq_has_def seq_rm_wf seq_rm_cell seq_rm_freed drop_seq_def)

interpretation rm_all: cell_sweep "rm_any_body p0 p1"
  "\<lambda>_ k. if in_range p0 p1 k then cell_cleared k else k"
  "\<lambda>_ k. in_range p0 p1 k" "\<lambda>_ _. False" for p0 p1
  by unfold_locales (auto simp: rm_any_body_def pos_in_range rm_wf rm_cell)

interpretation keep: cell_sweep "seq_keep_body s"
  "\<lambda>_ k. if s \<in> k_seq k then k\<lparr>k_seq := {s}\<rparr> else if k_seq k \<noteq> {} then cell_cleared k else k"
  "\<lambda>_ k. s \<notin> k_seq k \<and> k_seq k \<noteq> {}" "\<lambda>_ _. False" for s
  by unfold_locales (auto simp: seq_keep_body_def seq_keep_wf seq_keep_cell seq_keep_freed)

interpretation shift: cell_sweep "seq_add_body s p0 p1 d"
  "\<lambda>_ k. if in_range p0 p1 k \<and> s \<in> k_seq k then shift_cell d k else k"
  "\<lambda>_ k. in_range p0 p1 k \<and> s \<in> k_seq k \<and> k_pos k + d < 0"
  "\<lambda>_ k. in_range p0 p1 k \<and> s \<in> k_seq k" for s p0 p1 d
  by unfold_locales
     (auto simp: seq_add_body_def pos_in_range cells_seq_has_def pos_add_cell pos_add_freed shift_cell_def
        intro!: pos_add_wf dest: cells_wf_seq_nonempty)

text \<open>Copying needs a valid destination and dividing a positive divisor.\<close>

lemma seq_cp_sweep:
  assumes "dst < LLAMA_MAX_SEQ"
  shows "cell_sweep (seq_cp_body src dst p0 p1)
     (\<lambda>_ k. if in_range p0 p1 k \<and> src \<in> k_seq k then k\<lparr>k_seq := insert dst (k_seq k)\<rparr> else k)
     (\<lambda>_ _. False) (\<lambda>_ _. False)"
  using assms
  by unfold_locales
     (auto simp: seq_cp_body_def pos_in_range cells_seq_has_def seq_add_cell
        intro!: seq_add_wf dest: cells_wf_seq_nonempty)

lemma seq_div_sweep:
  assumes "0 < d"
  shows "cell_sweep (seq_div_body s p0 p1 d)
     (\<lambda>_ k. if in_range p0 p1 k \<and> s \<in> k_seq k then div_cell d k else k)
     (\<lambda>_ _. False) (\<lambda>_ k. in_range p0 p1 k \<and> s \<in> k_seq k)"
  using assms
  by unfold_locales
     (auto simp: seq_div_body_def pos_in_range cells_seq_has_def pos_div_cell div_cell_def
        intro!: pos_div_wf dest: cells_wf_seq_nonempty)

section \<open>The cache invariant\<close>

definition kv_wf :: "llama_kv_cache \<Rightarrow> bool" where
  "kv_wf kv \<longleftrightarrow>
     length (kv_v_cells kv) = kv_n_stream kv \<and> length (kv_v_heads kv) = kv_n_stream kv \<and>
     kv_seq_to_stream kv \<noteq> [] \<and> length (kv_seq_to_stream kv) \<le> LLAMA_MAX_SEQ \<and>
     (\<forall>st \<in> set (kv_seq_to_stream kv). st < kv_n_stream kv) \<and>
     (\<forall>st < kv_n_stream kv. cells_wf (kv_cells kv st) \<and>
        cells_size (kv_cells kv st) = kv_get_size kv \<and> kv_head kv st \<le> kv_get_size kv)"

definition kv_view :: "llama_kv_cache \<Rightarrow> nat \<Rightarrow> (nat \<times> llama_pos \<times> nat) set" where
  "kv_view kv st = cells_view (kv_cells kv st)"

text \<open>Everything but the cells, the heads and the pending stream copies.\<close>

definition kv_same_config :: "llama_kv_cache \<Rightarrow> llama_kv_cache \<Rightarrow> bool" where
  "kv_same_config kv kv' \<longleftrightarrow>
     kv' = kv\<lparr>kv_v_cells := kv_v_cells kv', kv_v_heads := kv_v_heads kv',
              kv_sc_ssrc := kv_sc_ssrc kv', kv_sc_sdst := kv_sc_sdst kv'\<rparr>"

lemma kv_wf_lens:
  "kv_wf kv \<Longrightarrow> length (kv_v_cells kv) = kv_n_stream kv"
  "kv_wf kv \<Longrightarrow> length (kv_v_heads kv) = kv_n_stream kv"
  by (simp_all add: kv_wf_def)

lemma kv_wf_cells: "kv_wf kv \<Longrightarrow> st < kv_n_stream kv \<Longrightarrow> cells_wf (kv_cells kv st)"
  by (simp add: kv_wf_def)

lemma kv_wf_size: "kv_wf kv \<Longrightarrow> st < kv_n_stream kv \<Longrightarrow> cells_size (kv_cells kv st) = kv_get_size kv"
  by (simp add: kv_wf_def)

lemma kv_wf_head: "kv_wf kv \<Longrightarrow> st < kv_n_stream kv \<Longrightarrow> kv_head kv st \<le> kv_get_size kv"
  by (simp add: kv_wf_def)

lemma kv_wf_stream: "kv_wf kv \<Longrightarrow> s < length (kv_seq_to_stream kv) \<Longrightarrow> kv_seq_to_stream kv ! s < kv_n_stream kv"
  by (simp add: kv_wf_def)

lemma kv_wf_seq_id: "kv_wf kv \<Longrightarrow> seq_id_ok s kv \<Longrightarrow> nat s < LLAMA_MAX_SEQ"
  unfolding kv_wf_def seq_id_ok_def by linarith

lemma kv_set_simps [simp]:
  "kv_v_cells (kv_set_cells st c kv) = (kv_v_cells kv)[st := c]"
  "kv_v_heads (kv_set_cells st c kv) = kv_v_heads kv"
  "kv_v_cells (kv_set_head st h kv) = kv_v_cells kv"
  "kv_v_heads (kv_set_head st h kv) = (kv_v_heads kv)[st := h]"
  "kv_seq_to_stream (kv_set_cells st c kv) = kv_seq_to_stream kv"
  "kv_seq_to_stream (kv_set_head st h kv) = kv_seq_to_stream kv"
  "kv_n_stream (kv_set_cells st c kv) = kv_n_stream kv"
  "kv_n_stream (kv_set_head st h kv) = kv_n_stream kv"
  "kv_other (kv_set_cells st c kv) = kv_other kv"
  "kv_other (kv_set_head st h kv) = kv_other kv"
  by (simp_all add: kv_set_cells_def kv_set_head_def)

text \<open>Replacing the cells and the head of one stream keeps the cache well-formed.\<close>

lemma kv_wf_set_stream:
  assumes "kv_wf kv" "st < kv_n_stream kv" "cells_wf c" "cells_size c = kv_get_size kv" "h \<le> kv_get_size kv"
  shows "kv_wf (kv_set_head st h (kv_set_cells st c kv))"
proof -
  have len: "st < length (kv_v_cells kv)" using assms(1,2) by (simp add: kv_wf_def)
  have n: "kv_get_size (kv_set_head st h (kv_set_cells st c kv)) = kv_get_size kv"
    using assms(4) len unfolding kv_get_size_def by (simp add: nth_list_update)
  show ?thesis
    unfolding kv_wf_def n using assms unfolding kv_wf_def by (simp add: nth_list_update)
qed

lemma kv_wf_set_cells:
  assumes "kv_wf kv" "st < kv_n_stream kv" "cells_wf c" "cells_size c = kv_get_size kv"
  shows "kv_wf (kv_set_cells st c kv)"
proof -
  have "kv_set_head st (kv_head kv st) (kv_set_cells st c kv) = kv_set_cells st c kv"
    by (simp add: kv_set_head_def kv_set_cells_def)
  then show ?thesis using kv_wf_set_stream[OF assms kv_wf_head[OF assms(1,2)]] by simp
qed

lemma lower_head_le: "h \<le> n \<Longrightarrow> lower_head n nh h \<le> n"
  by (simp add: lower_head_def)

context cell_sweep
begin

text \<open>One stream swept by a body that meets the contract.\<close>

lemma rm_stream_wf:
  assumes "kv_wf kv" "st < kv_n_stream kv"
  shows "kv_wf (rm_stream body st kv)"
proof -
  have c: "cells_wf (kv_cells kv st)" "cells_size (kv_cells kv st) = kv_get_size kv"
    using assms by (simp_all add: kv_wf_cells kv_wf_size)
  show ?thesis
    unfolding rm_stream_def using kv_wf_head[OF assms] sweep_size[OF c(1)] sweep_wf[OF c(1)] c(2)
    by (auto simp: split_beta intro!: kv_wf_set_stream[OF assms] lower_head_le)
qed

lemma rm_stream_cells:
  "kv_v_cells (rm_stream body st kv) = (kv_v_cells kv)[st := fst (sweep_cells body (kv_cells kv st))]"
  by (simp add: rm_stream_def split_beta)

lemma rm_stream_config: "kv_same_config kv (rm_stream body st kv)"
  by (simp add: rm_stream_def kv_same_config_def kv_set_head_def kv_set_cells_def split_beta)

end

section \<open>What the operations do\<close>

definition only_stream :: "nat \<Rightarrow> llama_kv_cache \<Rightarrow> llama_kv_cache \<Rightarrow> bool" where
  "only_stream st kv kv' \<longleftrightarrow> kv_same_config kv kv' \<and> kv_wf kv' \<and>
     (\<forall>t. t \<noteq> st \<longrightarrow> kv_cells kv' t = kv_cells kv t \<and> kv_head kv' t = kv_head kv t)"

lemma kv_view_set [simp]:
  "st < length (kv_v_cells kv) \<Longrightarrow> kv_view (kv_set_cells st c kv) t = (if t = st then cells_view c else kv_view kv t)"
  "kv_view (kv_set_head st h kv) t = kv_view kv t"
  by (simp_all add: kv_view_def nth_list_update)

context cell_sweep
begin

lemma rm_stream_only:
  assumes "kv_wf kv" "st < kv_n_stream kv"
  shows "only_stream st kv (rm_stream body st kv)"
  using rm_stream_wf[OF assms] rm_stream_config
  by (simp add: only_stream_def rm_stream_cells) (simp add: rm_stream_def split_beta)

lemma rm_stream_view:
  assumes "kv_wf kv" "st < kv_n_stream kv"
  shows "(s, p, i) \<in> kv_view (rm_stream body st kv) st \<longleftrightarrow>
    i < kv_get_size kv \<and> s \<in> k_seq (post i (cell_at (kv_cells kv st) i)) \<and>
    p = k_pos (post i (cell_at (kv_cells kv st) i))"
proof -
  have l: "st < length (kv_v_cells kv)" using assms by (simp add: kv_wf_def)
  have "kv_view (rm_stream body st kv) st = cells_view (fst (sweep_cells body (kv_cells kv st)))"
    using l by (simp add: kv_view_def rm_stream_cells)
  then show ?thesis
    using sweep_view[OF kv_wf_cells[OF assms]] kv_wf_size[OF assms] by simp
qed

end

lemma kv_view_iff:
  "kv_wf kv \<Longrightarrow> st < kv_n_stream kv \<Longrightarrow> (s, p, i) \<in> kv_view kv st \<longleftrightarrow>
   i < kv_get_size kv \<and> s \<in> c_seq (kv_cells kv st) ! i \<and> p = c_pos (kv_cells kv st) ! i"
  by (simp add: kv_view_def view_iff kv_wf_size)

lemma rm_one_view:
  assumes "kv_wf kv" "st < kv_n_stream kv"
  shows "kv_view (rm_stream (seq_rm_body s a b) st kv) st = kv_view kv st - {(s, p, i) |p i. a \<le> p \<and> p < b}"
  by (auto simp: rm1.rm_stream_view[OF assms] kv_view_iff[OF assms] drop_seq_def in_range_def cell_cleared_def split: if_splits)

text \<open>\<open>seq_rm\<close> of one sequence removes that sequence, and nothing else, from exactly the cells
  whose position lies in the range (a negative bound is open), and keeps the cache well-formed.\<close>

theorem seq_rm_one_sequence:
  assumes "kv_wf kv" "kv_other kv = None" "seq_id_ok s kv"
  defines "st \<equiv> kv_seq_to_stream kv ! nat s"
  shows "\<exists>kv'. kv_seq_rm s p0 p1 kv = Inr (True, kv') \<and> only_stream st kv kv' \<and>
    kv_view kv' st = kv_view kv st - {(nat s, p, i) |p i. clamp_p0 p0 \<le> p \<and> p < clamp_p1 p1}"
proof -
  have st: "st < kv_n_stream kv" using assms by (auto simp: seq_id_ok_def intro: kv_wf_stream)
  let ?b = "seq_rm_body (nat s) (clamp_p0 p0) (clamp_p1 p1)"
  have "kv_seq_rm s p0 p1 kv = Inr (True, rm_stream ?b st kv)"
    using assms by (simp add: kv_seq_rm_def seq_id_ok_def Let_def)
  then show ?thesis using rm1.rm_stream_only[OF assms(1) st] rm_one_view[OF assms(1) st] by blast
qed

text \<open>\<open>seq_keep\<close> leaves exactly the entries of the kept sequence in its stream.\<close>

theorem seq_keep_one_sequence:
  assumes "kv_wf kv" "kv_other kv = None" "seq_id_ok s kv"
  defines "st \<equiv> kv_seq_to_stream kv ! nat s"
  shows "\<exists>kv'. kv_seq_keep s kv = Inr kv' \<and> only_stream st kv kv' \<and>
    kv_view kv' st = {(t, p, i) \<in> kv_view kv st. t = nat s}"
proof -
  have st: "st < kv_n_stream kv" using assms by (auto simp: seq_id_ok_def intro: kv_wf_stream)
  have "kv_seq_keep s kv = Inr (rm_stream (seq_keep_body (nat s)) st kv)"
    using assms by (simp add: kv_seq_keep_def)
  moreover have "kv_view (rm_stream (seq_keep_body (nat s)) st kv) st = {(t, p, i) \<in> kv_view kv st. t = nat s}"
    by (auto simp: keep.rm_stream_view[OF assms(1) st] kv_view_iff[OF assms(1) st]
        cell_cleared_def split: if_splits)
  ultimately show ?thesis using keep.rm_stream_only[OF assms(1) st] by blast
qed

text \<open>Copying a sequence within its stream adds the destination to exactly the cells of the
  source in the range and changes nothing else.\<close>

theorem seq_cp_same_stream:
  assumes "kv_wf kv" "kv_other kv = None" "seq_id_ok src kv" "seq_id_ok dst kv"
    and "kv_seq_to_stream kv ! nat src = kv_seq_to_stream kv ! nat dst" "src \<noteq> dst"
  defines "st \<equiv> kv_seq_to_stream kv ! nat src"
  shows "\<exists>kv'. kv_seq_cp src dst p0 p1 kv = Inr kv' \<and> only_stream st kv kv' \<and>
    kv_view kv' st = kv_view kv st \<union>
      {(nat dst, p, i) |p i. (nat src, p, i) \<in> kv_view kv st \<and> clamp_p0 p0 \<le> p \<and> p < clamp_p1 p1}"
proof -
  have st: "st < kv_n_stream kv" using assms by (auto simp: seq_id_ok_def intro: kv_wf_stream)
  have l: "st < length (kv_v_cells kv)" using assms(1) st by (simp add: kv_wf_lens)
  have wf: "cells_wf (kv_cells kv st)" and n: "cells_size (kv_cells kv st) = kv_get_size kv"
    using assms(1) st by (simp_all add: kv_wf_cells kv_wf_size)
  note cp = seq_cp_sweep[OF kv_wf_seq_id[OF assms(1,4)], of "nat src" "clamp_p0 p0" "clamp_p1 p1"]
  let ?c = "fst (sweep_cells (seq_cp_body (nat src) (nat dst) (clamp_p0 p0) (clamp_p1 p1)) (kv_cells kv st))"
  have eq: "kv_seq_cp src dst p0 p1 kv = Inr (kv_set_cells st ?c kv)"
    using assms(2-6) by (simp add: kv_seq_cp_def st_def Let_def)
  have "only_stream st kv (kv_set_cells st ?c kv)"
    using kv_wf_set_cells[OF assms(1) st cell_sweep.sweep_wf[OF cp wf]] cell_sweep.sweep_size[OF cp wf] n
    by (simp add: only_stream_def kv_same_config_def kv_set_cells_def)
  moreover have "kv_view (kv_set_cells st ?c kv) st = kv_view kv st \<union>
      {(nat dst, p, i) |p i. (nat src, p, i) \<in> kv_view kv st \<and> clamp_p0 p0 \<le> p \<and> p < clamp_p1 p1}"
    using l
    by (auto simp: cell_sweep.sweep_view[OF cp wf] kv_view_iff[OF assms(1) st] n in_range_def split: if_splits)
  ultimately show ?thesis using eq by blast
qed

lemma kv_view_nonneg: "kv_wf kv \<Longrightarrow> st < kv_n_stream kv \<Longrightarrow> (t, p, i) \<in> kv_view kv st \<Longrightarrow> 0 \<le> p"
  using cells_wf_seq_nonempty[of "kv_cells kv st" i t] by (auto simp: kv_view_iff kv_wf_cells kv_wf_size)

lemma only_stream_refl: "kv_wf kv \<Longrightarrow> only_stream st kv kv"
  by (simp add: only_stream_def kv_same_config_def)

text \<open>The entries of a stream after the cells of \<open>s\<close> in the range moved by \<open>f\<close>; a cell that moves
  below position 0 is freed.\<close>

definition moved :: "(llama_pos \<Rightarrow> llama_pos) \<Rightarrow> nat \<Rightarrow> llama_pos \<Rightarrow> llama_pos \<Rightarrow>
    (nat \<times> llama_pos \<times> nat) set \<Rightarrow> (nat \<times> llama_pos \<times> nat) set" where
  "moved f s p0 p1 V =
     {(t, p, i) \<in> V. \<not> (p0 \<le> p \<and> p < p1 \<and> (s, p, i) \<in> V)} \<union>
     {(t, f p, i) |t p i. (t, p, i) \<in> V \<and> p0 \<le> p \<and> p < p1 \<and> (s, p, i) \<in> V \<and> 0 \<le> f p}"

lemma moved_iff:
  assumes "\<And>t p i. (t, p, i) \<in> V \<longleftrightarrow> i < n \<and> t \<in> S i \<and> p = P i"
  shows "(t, p, i) \<in> moved f s p0 p1 V \<longleftrightarrow> i < n \<and> t \<in> S i \<and>
    (if p0 \<le> P i \<and> P i < p1 \<and> s \<in> S i then 0 \<le> f (P i) \<and> p = f (P i) else p = P i)"
  by (auto simp: moved_def assms)

lemma moved_empty_range: "p0 = p1 \<Longrightarrow> moved f s p0 p1 V = V"
  by (auto simp: moved_def)

lemma moved_id:
  assumes "\<And>p. f p = p" and nn: "\<And>t p i. (t, p, i) \<in> V \<Longrightarrow> 0 \<le> p"
  shows "moved f s p0 p1 V = V"
  using assms by (auto simp: moved_def)

text \<open>\<open>seq_add\<close> shifts every cell of the sequence in the range, with all the sequences that
  share the cell, and frees exactly the cells whose position would become negative.\<close>

theorem seq_add_shifts:
  assumes "kv_wf kv" "kv_other kv = None" "seq_id_ok s kv" "kv_n_pos_per_embd kv = 1"
  defines "st \<equiv> kv_seq_to_stream kv ! nat s"
  shows "\<exists>kv'. kv_seq_add s p0 p1 d kv = Inr kv' \<and> only_stream st kv kv' \<and>
    kv_view kv' st = moved (\<lambda>p. p + d) (nat s) (clamp_p0 p0) (clamp_p1 p1) (kv_view kv st)"
proof (cases "d = 0 \<or> clamp_p0 p0 = clamp_p1 p1")
  have st: "st < kv_n_stream kv" using assms by (auto simp: seq_id_ok_def intro: kv_wf_stream)
  case True
  then have "kv_seq_add s p0 p1 d kv = Inr kv" using assms by (auto simp: kv_seq_add_def Let_def)
  moreover have "moved (\<lambda>p. p + d) (nat s) (clamp_p0 p0) (clamp_p1 p1) (kv_view kv st) = kv_view kv st"
    using True kv_view_nonneg[OF assms(1) st] by (auto simp: moved_empty_range moved_id)
  ultimately show ?thesis using only_stream_refl[OF assms(1)] by simp
next
  have st: "st < kv_n_stream kv" using assms by (auto simp: seq_id_ok_def intro: kv_wf_stream)
  case False
  define b where "b = seq_add_body (nat s) (clamp_p0 p0) (clamp_p1 p1) d"
  have wf: "cells_wf (kv_cells kv st)" and n: "cells_size (kv_cells kv st) = kv_get_size kv"
    using assms(1) st by (simp_all add: kv_wf_cells kv_wf_size)
  let ?c = "fst (sweep_cells b (kv_cells kv st))" and ?nh = "snd (sweep_cells b (kv_cells kv st))"
  have c: "cells_wf ?c" "cells_size ?c = kv_get_size kv"
    using shift.sweep_wf[OF wf] shift.sweep_size[OF wf] n by (simp_all add: b_def)
  have nh: "?nh \<le> kv_get_size kv" using shift.sweep_head[OF wf] n by (simp add: b_def first_such_le)
  let ?kv = "kv_set_head st (if ?nh \<noteq> cells_size ?c then ?nh else 0) (kv_set_cells st ?c kv)"
  have "kv_seq_add s p0 p1 d kv = Inr ?kv"
    using False assms by (simp add: kv_seq_add_def Let_def split_beta b_def st_def)
  moreover have "only_stream st kv ?kv"
    using kv_wf_set_stream[OF assms(1) st c, of "if ?nh \<noteq> cells_size ?c then ?nh else 0"] nh
    by (simp add: only_stream_def kv_same_config_def kv_set_cells_def kv_set_head_def)
  moreover have "kv_view ?kv st = moved (\<lambda>p. p + d) (nat s) (clamp_p0 p0) (clamp_p1 p1) (kv_view kv st)"
  proof -
    have l: "st < length (kv_v_cells kv)" using assms(1) st by (simp add: kv_wf_lens)
    have "x \<in> kv_view ?kv st \<longleftrightarrow> x \<in> moved (\<lambda>p. p + d) (nat s) (clamp_p0 p0) (clamp_p1 p1) (kv_view kv st)" for x
      using l unfolding b_def
      by (cases x) (auto simp: moved_iff[OF kv_view_iff[OF assms(1) st]] shift.sweep_view[OF wf] n
          in_range_def shift_cell_def)
    then show ?thesis by blast
  qed
  ultimately show ?thesis by blast
qed

lemma occupied_eq: "(\<lambda>(t, p, i). (t, i)) ` V = {(t, i). \<exists>p. (t, p, i) \<in> V}"
  by force

text \<open>\<open>seq_div\<close> divides the position of every cell of the sequence in the range by a positive
  divisor, rounding down, and frees no cell.\<close>

theorem seq_div_divides:
  assumes "kv_wf kv" "kv_other kv = None" "seq_id_ok s kv" "kv_n_pos_per_embd kv = 1" "0 < d"
  defines "st \<equiv> kv_seq_to_stream kv ! nat s"
  shows "\<exists>kv'. kv_seq_div s p0 p1 d kv = Inr kv' \<and> only_stream st kv kv' \<and>
    kv_view kv' st = moved (\<lambda>p. p div d) (nat s) (clamp_p0 p0) (clamp_p1 p1) (kv_view kv st) \<and>
    (\<lambda>(t, p, i). (t, i)) ` kv_view kv' st = (\<lambda>(t, p, i). (t, i)) ` kv_view kv st"
proof (cases "d = 1 \<or> clamp_p0 p0 = clamp_p1 p1")
  have st: "st < kv_n_stream kv" using assms by (auto simp: seq_id_ok_def intro: kv_wf_stream)
  case True
  then have "kv_seq_div s p0 p1 d kv = Inr kv" using assms by (auto simp: kv_seq_div_def Let_def)
  moreover have "moved (\<lambda>p. p div d) (nat s) (clamp_p0 p0) (clamp_p1 p1) (kv_view kv st) = kv_view kv st"
    using True kv_view_nonneg[OF assms(1) st] by (auto simp: moved_empty_range moved_id)
  ultimately show ?thesis using only_stream_refl[OF assms(1)] by simp
next
  have st: "st < kv_n_stream kv" using assms by (auto simp: seq_id_ok_def intro: kv_wf_stream)
  case False
  let ?b = "seq_div_body (nat s) (clamp_p0 p0) (clamp_p1 p1) d"
  have wf: "cells_wf (kv_cells kv st)" and n: "cells_size (kv_cells kv st) = kv_get_size kv"
    and l: "st < length (kv_v_cells kv)"
    using assms(1) st by (simp_all add: kv_wf_cells kv_wf_size kv_wf_lens)
  note dv = seq_div_sweep[OF assms(5), of "nat s" "clamp_p0 p0" "clamp_p1 p1"]
  let ?kv = "kv_set_cells st (fst (sweep_cells ?b (kv_cells kv st))) kv"
  have "kv_seq_div s p0 p1 d kv = Inr ?kv"
    using False assms by (simp add: kv_seq_div_def Let_def st_def)
  moreover have "only_stream st kv ?kv"
    using kv_wf_set_cells[OF assms(1) st cell_sweep.sweep_wf[OF dv wf]] cell_sweep.sweep_size[OF dv wf] n
    by (simp add: only_stream_def kv_same_config_def kv_set_cells_def)
  moreover have v: "(t, p, i) \<in> kv_view ?kv st \<longleftrightarrow> i < kv_get_size kv \<and> t \<in> c_seq (kv_cells kv st) ! i \<and>
      p = (if clamp_p0 p0 \<le> c_pos (kv_cells kv st) ! i \<and> c_pos (kv_cells kv st) ! i < clamp_p1 p1 \<and>
              nat s \<in> c_seq (kv_cells kv st) ! i
           then c_pos (kv_cells kv st) ! i div d else c_pos (kv_cells kv st) ! i)" for t p i
    using l cells_wf_seq_nonempty[OF wf, of i t] assms(5)
    by (auto simp: cell_sweep.sweep_view[OF dv wf] n in_range_def div_cell_def trunc_div_nonneg)
  moreover have "kv_view ?kv st = moved (\<lambda>p. p div d) (nat s) (clamp_p0 p0) (clamp_p1 p1) (kv_view kv st)"
  proof -
    have "x \<in> kv_view ?kv st \<longleftrightarrow> x \<in> moved (\<lambda>p. p div d) (nat s) (clamp_p0 p0) (clamp_p1 p1) (kv_view kv st)" for x
      using cells_wf_seq_nonempty[OF wf, of "snd (snd x)" "fst x"] assms(5) n
      by (cases x) (auto simp: moved_iff[OF kv_view_iff[OF assms(1) st]] v pos_imp_zdiv_nonneg_iff)
    then show ?thesis by blast
  qed
  moreover have "(\<lambda>(t, p, i). (t, i)) ` kv_view ?kv st = (\<lambda>(t, p, i). (t, i)) ` kv_view kv st"
    unfolding occupied_eq by (simp add: v kv_view_iff[OF assms(1) st])
  ultimately show ?thesis by blast
qed

section \<open>All streams, and copies between streams\<close>

lemma kv_same_config_trans: "kv_same_config a b \<Longrightarrow> kv_same_config b c \<Longrightarrow> kv_same_config a c"
  unfolding kv_same_config_def by (cases a; cases b; cases c) simp

lemma kv_same_config_simps:
  assumes "kv_same_config a b"
  shows "kv_n_stream b = kv_n_stream a" "kv_seq_to_stream b = kv_seq_to_stream a"
    "kv_other b = kv_other a" "kv_n_swa b = kv_n_swa a" "kv_swa_type b = kv_swa_type a"
    "kv_n_pos_per_embd b = kv_n_pos_per_embd a"
  using assms unfolding kv_same_config_def by (cases a; cases b; simp)+

context cell_sweep
begin

lemma fold_rm_stream:
  assumes "kv_wf kv" "m \<le> kv_n_stream kv"
  defines "r \<equiv> fold (rm_stream body) [0..<m] kv"
  shows "kv_wf r \<and> kv_same_config kv r \<and>
    (\<forall>t. kv_cells r t = (if t < m then fst (sweep_cells body (kv_cells kv t)) else kv_cells kv t))"
  using assms(2) unfolding r_def
proof (induction m)
  case 0
  then show ?case using assms(1) by (simp add: kv_same_config_def)
next
  case (Suc m)
  define q where "q = fold (rm_stream body) [0..<m] kv"
  have q: "kv_wf q" "kv_same_config kv q"
      "\<And>t. kv_cells q t = (if t < m then fst (sweep_cells body (kv_cells kv t)) else kv_cells kv t)"
    using Suc unfolding q_def by simp_all
  have m: "m < kv_n_stream q" using Suc.prems kv_same_config_simps(1)[OF q(2)] by simp
  have "kv_cells (rm_stream body m q) t =
      (if t < Suc m then fst (sweep_cells body (kv_cells kv t)) else kv_cells kv t)" for t
    using q(3) m kv_wf_lens(1)[OF q(1)] by (cases "t = m") (auto simp: rm_stream_cells)
  then show ?case
    using rm_stream_wf[OF q(1) m] kv_same_config_trans[OF q(2) rm_stream_config[of q m]]
    by (simp add: q_def[symmetric])
qed

end

text \<open>\<open>seq_rm\<close> with sequence id \<open>-1\<close> frees, in every stream, exactly the cells whose position lies
  in the range.\<close>

theorem seq_rm_any_sequence:
  assumes "kv_wf kv" "kv_other kv = None"
  shows "\<exists>kv'. kv_seq_rm (-1) p0 p1 kv = Inr (True, kv') \<and> kv_wf kv' \<and> kv_same_config kv kv' \<and>
    (\<forall>st < kv_n_stream kv. kv_view kv' st =
       {(s, p, i) \<in> kv_view kv st. \<not> (clamp_p0 p0 \<le> p \<and> p < clamp_p1 p1)})"
proof -
  let ?b = "rm_any_body (clamp_p0 p0) (clamp_p1 p1)"
  let ?kv = "fold (rm_stream ?b) [0..<kv_n_stream kv] kv"
  note f = rm_all.fold_rm_stream[OF assms(1) order_refl, of "clamp_p0 p0" "clamp_p1 p1"]
  have "kv_view ?kv st = {(s, p, i) \<in> kv_view kv st. \<not> (clamp_p0 p0 \<le> p \<and> p < clamp_p1 p1)}"
    if st: "st < kv_n_stream kv" for st
  proof -
    have c: "cells_wf (kv_cells kv st)" "cells_size (kv_cells kv st) = kv_get_size kv"
      using assms(1) st by (simp_all add: kv_wf_cells kv_wf_size)
    have "kv_view ?kv st = cells_view (fst (sweep_cells ?b (kv_cells kv st)))"
      using f st by (simp add: kv_view_def)
    then have "x \<in> kv_view ?kv st \<longleftrightarrow>
        x \<in> {(s, p, i) \<in> kv_view kv st. \<not> (clamp_p0 p0 \<le> p \<and> p < clamp_p1 p1)}" for x
      by (cases x) (auto simp: rm_all.sweep_view[OF c(1)] c(2) kv_view_iff[OF assms(1) st] in_range_def cell_cleared_def)
    then show ?thesis by blast
  qed
  moreover have "kv_seq_rm (-1) p0 p1 kv = Inr (True, ?kv)"
    using assms(2) by (simp add: kv_seq_rm_def Let_def)
  ultimately show ?thesis using f by blast
qed

lemma reset_cell: "i < cells_size c \<Longrightarrow> cell_at (cells_reset c) i =
    \<lparr>k_pos = -1, k_ext = ext_default, k_shift = 0, k_seq = {}, k_score = 0\<rparr>"
  by (simp add: cells_reset_def cell_at_def)

lemma reset_size [simp]: "cells_size (cells_reset c) = cells_size c"
  by (simp add: cells_reset_def cells_size_def)

lemma reset_wf' [cell_wf]: "cells_wf c \<Longrightarrow> cells_wf (cells_reset c)"
  by (rule reset_wf) (rule wf_seq_pos_beyond)

definition copied_cell :: "nat \<Rightarrow> kv_cell \<Rightarrow> kv_cell" where
  "copied_cell dst k = k\<lparr>k_seq := {dst}, k_score := 0\<rparr>"

lemma copied_cell_eq: "copied_cell dst (cell_at c i) =
    \<lparr>k_pos = c_pos c ! i, k_ext = c_ext c ! i, k_shift = c_shift c ! i, k_seq = {dst}, k_score = 0\<rparr>"
  by (simp add: copied_cell_def cell_at_def)

lemma kv_wf_sc_info [simp]: "kv_wf (kv\<lparr>kv_sc_ssrc := a, kv_sc_sdst := b\<rparr>) = kv_wf kv"
  by (simp add: kv_wf_def kv_get_size_def)

text \<open>Copying one cell into an empty one. The position before the pending shift, which \<open>pos_set\<close>
  writes first, may be negative; the shift added afterwards restores it.\<close>

lemma cp_cell_fields:
  assumes "cells_wf c" "i < cells_size c" "dst < LLAMA_MAX_SEQ" "src \<in> c_seq sc ! i" "0 \<le> c_pos sc ! i"
    and "c_shift c ! i = 0" "c_seq c ! i = {}"
  defines "r \<equiv> cp_cell sc src dst i c"
  shows "cells_len r (cells_size c)" "c_used r = insert i (c_used c)"
    "c_pos r = (c_pos c)[i := c_pos sc ! i]" "c_ext r = (c_ext c)[i := c_ext sc ! i]"
    "c_shift r = (c_shift c)[i := c_shift sc ! i]" "c_seq r = (c_seq c)[i := {dst}]" "c_score r = c_score c"
    "c_seq_pos r t = c_seq_pos c t \<union> (if t = dst then {(c_pos sc ! i, i)} else {})"
proof -
  have l: "length (c_pos c) = cells_size c" "length (c_ext c) = cells_size c" "length (c_score c) = cells_size c"
    "length (c_shift c) = cells_size c" "length (c_seq c) = cells_size c"
    using cells_wf_len[OF assms(1)] by (simp_all add: cells_len_def)
  have np: "(p, i) \<notin> c_seq_pos c t" for p t using seq_pos_notin[OF assms(1)] assms(7) by simp
  note defs = r_def cp_cell_def cells_seq_has_def cells_pos_get_def cells_get_shift_def cells_ext_get_def
    cells_pos_set_def cells_seq_add_def seq_pos_inc_def cells_pos_add_def seq_pos_rm_eq seq_pos_add_eq
    cells_ext_set_def Let_def
  show "cells_len r (cells_size c)" "c_used r = insert i (c_used c)"
    "c_pos r = (c_pos c)[i := c_pos sc ! i]" "c_ext r = (c_ext c)[i := c_ext sc ! i]"
    "c_shift r = (c_shift c)[i := c_shift sc ! i]" "c_seq r = (c_seq c)[i := {dst}]" "c_score r = c_score c"
    using assms(2-7) l list_update_id[of "c_shift c" i] by (simp_all add: defs cells_len_def)
  show "c_seq_pos r t = c_seq_pos c t \<union> (if t = dst then {(c_pos sc ! i, i)} else {})"
    using assms(2-7) l np by (simp add: defs)
qed

lemma cp_cell_step:
  assumes "cells_wf c" "i < cells_size c" "dst < LLAMA_MAX_SEQ"
    and "cell_at c i = \<lparr>k_pos = -1, k_ext = ext_default, k_shift = 0, k_seq = {}, k_score = 0\<rparr>"
    and "src \<in> c_seq sc ! i \<Longrightarrow> 0 \<le> c_pos sc ! i"
  defines "r \<equiv> cp_cell sc src dst i c"
  shows "cells_wf r \<and> cells_size r = cells_size c \<and>
    (\<forall>j. cell_at r j = (if j = i \<and> src \<in> c_seq sc ! i then copied_cell dst (cell_at sc i) else cell_at c j))"
proof (cases "src \<in> c_seq sc ! i")
  case False
  then show ?thesis using assms(1) by (simp add: r_def cp_cell_def cells_seq_has_def)
next
  case True
  have e: "c_pos c ! i = -1" "c_shift c ! i = 0" "c_seq c ! i = {}" "c_score c ! i = 0"
    using assms(4) by (simp_all flip: cell_at_sel)
  note f = cp_cell_fields[OF assms(1-3) True assms(5)[OF True] e(2,3), folded r_def]
  have l: "length (c_pos c) = cells_size c" "length (c_ext c) = cells_size c"
    "length (c_shift c) = cells_size c" "length (c_seq c) = cells_size c"
    using cells_wf_len[OF assms(1)] by (simp_all add: cells_len_def)
  have k: "cell_at r j = (if j = i then copied_cell dst (cell_at sc i) else cell_at c j)" for j
    using assms(2) l e(4) unfolding copied_cell_eq by (cases "j = i") (simp_all add: cell_at_def f)
  have "cells_wf r"
  proof (rule cells_wf_replace[OF assms(1,2) f(1)])
    show "cell_ok (cell_at r i)" using k[of i] assms(3) assms(5)[OF True] by (simp add: cell_ok_def copied_cell_def)
    show "c_seq_pos r t = (c_seq_pos c t - {(c_pos c ! i, i)}) \<union>
        (if t \<in> c_seq r ! i then {(c_pos r ! i, i)} else {})" for t
      using seq_pos_notin[OF assms(1), of t i] e(3) assms(2) l by (simp add: f)
  qed (use assms(2) assms(5)[OF True] l in \<open>simp_all add: f\<close>)
  then show ?thesis using k True f(1) by (simp add: cells_len_def cells_size_def)
qed

lemma cp_cells_fold:
  fixes src :: nat
  assumes "cells_wf c0" "cells_wf sc" "cells_size sc = cells_size c0" "dst < LLAMA_MAX_SEQ" "m \<le> cells_size c0"
  defines "r \<equiv> fold (cp_cell sc src dst) [0..<m] (cells_reset c0)"
  shows "cells_wf r \<and> cells_size r = cells_size c0 \<and>
    (\<forall>j. cell_at r j = (if j < m \<and> src \<in> c_seq sc ! j then copied_cell dst (cell_at sc j)
                        else cell_at (cells_reset c0) j))"
  using assms(5) unfolding r_def
proof (induction m)
  case 0
  then show ?case using assms(1) by (simp add: reset_wf')
next
  case (Suc m)
  define q where "q = fold (cp_cell sc src dst) [0..<m] (cells_reset c0)"
  have q: "cells_wf q" "cells_size q = cells_size c0"
    "\<And>j. cell_at q j = (if j < m \<and> src \<in> c_seq sc ! j then copied_cell dst (cell_at sc j) else cell_at (cells_reset c0) j)"
    using Suc unfolding q_def by simp_all
  have m: "m < cells_size q" "m < cells_size sc" "m < cells_size c0" using Suc.prems q(2) assms(3) by simp_all
  have "cells_wf (cp_cell sc src dst m q) \<and> cells_size (cp_cell sc src dst m q) = cells_size q \<and>
    (\<forall>j. cell_at (cp_cell sc src dst m q) j =
       (if j = m \<and> src \<in> c_seq sc ! m then copied_cell dst (cell_at sc m) else cell_at q j))"
    by (rule cp_cell_step[OF q(1) m(1) assms(4)])
       (use cells_wf_seq_nonempty[OF assms(2) m(2)] m in \<open>auto simp: q(3) reset_cell\<close>)
  then show ?case using q by (auto simp: q_def[symmetric] less_Suc_eq)
qed

lemma cp_cells_view:
  assumes "cells_wf c0" "cells_wf sc" "cells_size sc = cells_size c0" "dst < LLAMA_MAX_SEQ"
  shows "cells_view (fold (cp_cell sc src dst) [0..<cells_size sc] (cells_reset c0)) = {(dst, p, i) |p i. (src, p, i) \<in> cells_view sc}"
proof -
  let ?c = "fold (cp_cell sc src dst) [0..<cells_size sc] (cells_reset c0)"
  have f: "cells_size ?c = cells_size sc" "\<And>j. j < cells_size sc \<Longrightarrow> cell_at ?c j = (if src \<in> c_seq sc ! j then copied_cell dst (cell_at sc j) else cell_at (cells_reset c0) j)"
    using cp_cells_fold[OF assms, of "cells_size sc" src] assms(3) by auto
  have "c_seq ?c ! i = (if src \<in> c_seq sc ! i then {dst} else {}) \<and> (src \<in> c_seq sc ! i \<longrightarrow> c_pos ?c ! i = c_pos sc ! i)" if "i < cells_size sc" for i
    using f(2)[OF that] that assms(3) by (auto simp: copied_cell_def reset_cell simp flip: cell_at_sel)
  then show ?thesis by (auto simp: view_iff f(1) cells_view_def split: if_splits)
qed

text \<open>Copying a sequence into another stream replaces that stream by exactly the entries of the
  source, under the destination id, and enqueues one buffer copy.\<close>

theorem seq_cp_cross_stream:
  assumes "kv_wf kv" "kv_other kv = None" "seq_id_ok src kv" "seq_id_ok dst kv"
    and "kv_seq_to_stream kv ! nat src \<noteq> kv_seq_to_stream kv ! nat dst"
    and "p0 \<le> 0" "p1 \<le> 0"
  defines "s0 \<equiv> kv_seq_to_stream kv ! nat src" and "s1 \<equiv> kv_seq_to_stream kv ! nat dst"
  shows "\<exists>kv'. kv_seq_cp src dst p0 p1 kv = Inr kv' \<and> only_stream s1 kv kv' \<and>
    kv_view kv' s1 = {(nat dst, p, i) |p i. (nat src, p, i) \<in> kv_view kv s0} \<and>
    kv_sc_ssrc kv' = kv_sc_ssrc kv @ [s0] \<and> kv_sc_sdst kv' = kv_sc_sdst kv @ [s1]"
proof -
  have st: "s0 < kv_n_stream kv" "s1 < kv_n_stream kv"
    using assms(1,3,4) by (auto simp: s0_def s1_def seq_id_ok_def intro: kv_wf_stream)
  let ?n = "kv_get_size kv" and ?sc = "kv_cells kv s0"
  have c: "cells_wf ?sc" "cells_size ?sc = ?n" "cells_wf (kv_cells kv s1)" "cells_size (kv_cells kv s1) = ?n"
    using assms(1) st by (simp_all add: kv_wf_cells kv_wf_size)
  define c1 where "c1 = fold (cp_cell ?sc (nat src) (nat dst)) [0..<?n] (cells_reset (kv_cells kv s1))"
  have f: "cells_wf c1" "cells_size c1 = ?n"
    using cp_cells_fold[OF c(3,1) _ kv_wf_seq_id[OF assms(1,4)], of ?n "nat src"] c by (auto simp: c1_def)
  let ?kv = "kv_set_head s1 (kv_head kv s0) (kv_set_cells s1 c1
      (kv\<lparr>kv_sc_ssrc := kv_sc_ssrc kv @ [s0], kv_sc_sdst := kv_sc_sdst kv @ [s1]\<rparr>))"
  have eq: "kv_seq_cp src dst p0 p1 kv = Inr ?kv"
    using assms(2-7) c(2) by (simp add: kv_seq_cp_def Let_def s0_def s1_def c1_def kv_set_cells_def kv_get_size_def)
  have w: "kv_wf (kv_set_head s1 (kv_head kv s0) (kv_set_cells s1 c1 kv))"
    using kv_wf_set_stream[OF assms(1) st(2) f(1,2) kv_wf_head[OF assms(1) st(1)]] .
  have "?kv = (kv_set_head s1 (kv_head kv s0) (kv_set_cells s1 c1 kv))
      \<lparr>kv_sc_ssrc := kv_sc_ssrc kv @ [s0], kv_sc_sdst := kv_sc_sdst kv @ [s1]\<rparr>"
    by (simp add: kv_set_head_def kv_set_cells_def)
  then have "kv_wf ?kv" using w by (simp only: kv_wf_sc_info)
  then have "only_stream s1 kv ?kv"
    by (simp add: only_stream_def kv_same_config_def kv_set_cells_def kv_set_head_def)
  moreover have "kv_view ?kv s1 = {(nat dst, p, i) |p i. (nat src, p, i) \<in> kv_view kv s0}"
  proof -
    have v: "kv_view ?kv s1 = cells_view c1" using st assms(1) by (simp add: kv_view_def kv_wf_lens)
    have "cells_size ?sc = cells_size (kv_cells kv s1)" using c(2,4) by simp
    from cp_cells_view[OF c(3,1) this kv_wf_seq_id[OF assms(1,4)], of "nat src", unfolded c(2)]
    show ?thesis unfolding v unfolding c1_def kv_view_def .
  qed
  moreover have "kv_sc_ssrc ?kv = kv_sc_ssrc kv @ [s0]" "kv_sc_sdst ?kv = kv_sc_sdst kv @ [s1]"
    by (simp_all add: kv_set_cells_def kv_set_head_def)
  ultimately show ?thesis using eq by blast
qed

section \<open>Construction, clearing and queries\<close>

lemma new_wf: "cells_wf (cells_resize n cells_new)" and new_size: "cells_size (cells_resize n cells_new) = n"
  by (rule resize_wf) (simp_all add: cells_new_def cells_resize_def cells_reset_def cells_size_def)

lemma kv_init_wf:
  assumes "kv_init hparams None unified n n_seq n_pad n_swa swa fl pr = Inr kv" "0 < n_seq" "n_seq \<le> LLAMA_MAX_SEQ"
  shows "kv_wf kv"
proof -
  have "kv_v_cells kv = replicate (kv_n_stream kv) (cells_resize n cells_new)"
    "kv_v_heads kv = replicate (kv_n_stream kv) 0" "0 < kv_n_stream kv" "kv_n_stream kv \<le> LLAMA_MAX_SEQ"
    "kv_seq_to_stream kv = (if kv_n_stream kv > 1 then [0..<kv_n_stream kv] else replicate LLAMA_MAX_SEQ 0)"
    using assms by (auto simp: kv_init_def Let_def split: if_splits)
  moreover from this have "kv_get_size kv = n"
    by (auto simp: kv_get_size_def new_size)
  ultimately show ?thesis by (auto simp: kv_wf_def new_wf new_size)
qed

lemma kv_clear_fold:
  assumes "kv_wf kv" "m \<le> kv_n_stream kv"
  defines "r \<equiv> fold (\<lambda>st kv. kv_set_head st 0 (kv_set_cells st (cells_reset (kv_cells kv st)) kv)) [0..<m] kv"
  shows "kv_wf r \<and> kv_same_config kv r \<and>
    (\<forall>t. kv_cells r t = (if t < m then cells_reset (kv_cells kv t) else kv_cells kv t)) \<and>
    (\<forall>t. kv_head r t = (if t < m then 0 else kv_head kv t))"
  using assms(2) unfolding r_def
proof (induction m)
  case 0
  then show ?case using assms(1) by (simp add: kv_same_config_def)
next
  case (Suc m)
  define q where "q = fold (\<lambda>st kv. kv_set_head st 0 (kv_set_cells st (cells_reset (kv_cells kv st)) kv)) [0..<m] kv"
  have q: "kv_wf q" "kv_same_config kv q"
      "\<And>t. kv_cells q t = (if t < m then cells_reset (kv_cells kv t) else kv_cells kv t)"
      "\<And>t. kv_head q t = (if t < m then 0 else kv_head kv t)"
    using Suc unfolding q_def by simp_all
  have m: "m < kv_n_stream q" using Suc.prems kv_same_config_simps(1)[OF q(2)] by simp
  let ?s = "kv_set_head m 0 (kv_set_cells m (cells_reset (kv_cells q m)) q)"
  have "kv_wf ?s"
    by (rule kv_wf_set_stream[OF q(1) m]) (simp_all add: reset_wf' kv_wf_cells[OF q(1) m] kv_wf_size[OF q(1) m])
  moreover have "kv_same_config q ?s" by (simp add: kv_same_config_def kv_set_head_def kv_set_cells_def)
  moreover have "kv_cells ?s t = (if t < Suc m then cells_reset (kv_cells kv t) else kv_cells kv t)"
    "kv_head ?s t = (if t < Suc m then 0 else kv_head kv t)" for t
    using q(3,4) m kv_wf_lens[OF q(1)] by (cases "t = m"; auto)+
  ultimately show ?case using kv_same_config_trans[OF q(2)] by (simp add: q_def[symmetric])
qed

lemma kv_clear_wf: "kv_wf kv \<Longrightarrow> kv_wf (kv_clear kv)"
  using kv_clear_fold[of kv "kv_n_stream kv"] by (simp add: kv_clear_def)

lemma kv_clear_view: "kv_wf kv \<Longrightarrow> st < kv_n_stream kv \<Longrightarrow> kv_view (kv_clear kv) st = {}"
  using kv_clear_fold[of kv "kv_n_stream kv"]
  by (simp add: kv_clear_def kv_view_def cells_view_def cells_reset_def cells_size_def)

text \<open>\<open>seq_pos_min\<close> and \<open>seq_pos_max\<close> return the least and the greatest position the sequence
  holds in its stream, and \<open>-1\<close> exactly when it holds none.\<close>

theorem seq_pos_bounds:
  assumes "kv_wf kv" "kv_other kv = None" "seq_id_ok s kv"
  defines "P \<equiv> {p. \<exists>i. (nat s, p, i) \<in> kv_view kv (kv_seq_to_stream kv ! nat s)}"
  shows "kv_seq_pos_min s kv = Inr (if P = {} then -1 else Min P) \<and>
         kv_seq_pos_max s kv = Inr (if P = {} then -1 else Max P) \<and> finite P \<and> (\<forall>p \<in> P. 0 \<le> p)"
proof -
  let ?st = "kv_seq_to_stream kv ! nat s"
  have st: "?st < kv_n_stream kv" using assms by (auto simp: seq_id_ok_def intro: kv_wf_stream)
  have wf: "cells_wf (kv_cells kv ?st)" using assms(1) st by (rule kv_wf_cells)
  have ok: "0 \<le> s" "nat s < length (kv_seq_to_stream kv)" using assms(3) by (simp_all add: seq_id_ok_def)
  have P: "P = fst ` c_seq_pos (kv_cells kv ?st) (nat s)"
    using cells_wf_seq_pos[OF wf, of "nat s"] by (force simp: P_def kv_view_def view_iff)
  have "finite P" using wf by (simp add: P)
  moreover have "\<forall>p \<in> P. 0 \<le> p" using kv_view_nonneg[OF assms(1) st] by (auto simp: P_def)
  ultimately show ?thesis
    using ok assms(2)
    by (simp add: kv_seq_pos_min_def kv_seq_pos_max_def P cells_seq_pos_min_def cells_seq_pos_max_def)
qed

section \<open>Pending shifts\<close>

text \<open>
  \<open>shift[i]\<close> accumulates what was added to \<open>pos[i]\<close> since the last \<open>reset_shift\<close>, so the position a
  cell's data was computed for is \<open>pos[i] - shift[i]\<close>. \<open>pos_add\<close> keeps it; \<open>pos_div\<close> records the
  negated difference and does not.
\<close>

definition data_pos :: "kv_cell \<Rightarrow> llama_pos" where
  "data_pos k = k_pos k - k_shift k"

text \<open>C27: a surviving cell keeps its data position under \<open>seq_add\<close>, while \<open>pos_div\<close> moves it by twice the
  distance the cell moved, so the recorded shift has the wrong sign.\<close>

theorem data_pos_add_div:
  assumes "cells_wf c" "i < cells_size c" "c_pos c ! i \<noteq> -1"
  shows "(fst (cells_pos_add i d c) \<or>
      data_pos (cell_at (snd (cells_pos_add i d c)) i) = data_pos (cell_at c i)) \<and>
    data_pos (cell_at (cells_pos_div i d c) i) =
      data_pos (cell_at c i) - 2 * (c_pos c ! i - trunc_div (c_pos c ! i) d)"
  using assms by (simp add: pos_add_cell pos_div_cell pos_add_freed data_pos_def)

section \<open>Concrete caches\<close>

text \<open>
  Two small caches on which the properties are exercised: one with a single stream that holds
  positions 0 and 1 of sequence 0, and one with two streams whose second stream has a moved head.
\<close>

definition cells_two :: llama_kv_cells where
  "cells_two = cells_seq_add 1 0 (cells_pos_set 1 1 (cells_seq_add 0 0 (cells_pos_set 0 0 (cells_resize 4 cells_new))))"

definition kv_one_stream :: llama_kv_cache where
  "kv_one_stream = (case kv_init hp_text None True 4 1 1 0 SWA_NONE 1 0 of Inr kv \<Rightarrow> kv_set_cells 0 cells_two kv)"

definition kv_two_streams :: llama_kv_cache where
  "kv_two_streams = (case kv_init hp_text None False 4 2 1 0 SWA_NONE 1 0 of
     Inr kv \<Rightarrow> kv_set_head 0 2 (kv_set_cells 0 cells_two kv))"

lemma cells_four_pos: "c_pos (cells_resize 4 cells_new) ! i = -1" if "i < 4"
  using that by (simp add: cells_resize_def cells_reset_def cells_size_def)

lemma cells_two_wf: "cells_wf cells_two" "cells_size cells_two = 4"
proof -
  let ?c0 = "cells_resize 4 cells_new"
  let ?c1 = "cells_pos_set 0 0 ?c0" and ?c2 = "cells_seq_add 0 0 (cells_pos_set 0 0 ?c0)"
  let ?c3 = "cells_pos_set 1 1 ?c2"
  have n: "cells_size ?c0 = 4" by (rule new_size)
  have w1: "cells_wf ?c1" using pos_set_wf[OF new_wf, of 0 4 0] n cells_four_pos[of 0] by simp
  have "c_pos ?c1 ! 0 = 0" "c_pos ?c1 ! 1 = -1" using n cells_four_pos[of 1] by (simp_all add: cells_pos_set_def cells_size_def)
  then have w2: "cells_wf ?c2" "c_pos ?c2 ! 1 = -1"
    using seq_add_wf[OF w1, of 0 0] n by (simp_all add: cells_seq_add_def seq_pos_inc_def)
  have w3: "cells_wf ?c3" using pos_set_wf[OF w2(1) _ w2(2), of 1] n by simp
  have p3: "c_pos ?c3 ! 1 = 1"
    using cells_wf_len[OF w2(1)] n by (simp add: cells_pos_set_def cells_seq_add_def seq_pos_inc_def cells_size_def)
  have "1 < cells_size ?c3" using n by simp
  then show "cells_wf cells_two" "cells_size cells_two = 4"
    using seq_add_wf[OF w3, of 1 0] p3 n by (simp_all add: cells_two_def)
qed

lemma cells_two_fields: "c_pos cells_two = [0, 1, -1, -1]" "c_seq cells_two = [{0}, {0}, {}, {}]"
  "c_shift cells_two = [0, 0, 0, 0]" "c_score cells_two = [0, 0, 0, 0]" "c_used cells_two = {0, 1}"
  by (simp_all add: cells_two_def cells_seq_add_def seq_pos_inc_def cells_pos_set_def cells_resize_def
      cells_reset_def cells_size_def cells_new_def insert_commute eval_nat_numeral)

lemma kv_one_stream_init: "\<exists>kv. kv_init hp_text None True 4 1 1 0 SWA_NONE 1 0 = Inr kv \<and> kv_n_stream kv = 1 \<and>
    kv_seq_to_stream kv = replicate LLAMA_MAX_SEQ 0 \<and> kv_get_size kv = 4 \<and> kv_other kv = None \<and>
    kv_n_pos_per_embd kv = 1 \<and> kv_v_heads kv = [0] \<and> kv_swa_type kv = SWA_NONE \<and> kv_n_swa kv = 0 \<and> kv_floor_sc kv = 1 \<and>
    kv_protect kv = 0"
  using new_size[of 4] by (simp add: kv_init_def kv_get_size_def)

lemma kv_one_stream_simps [simp]:
  "kv_n_stream kv_one_stream = 1" "kv_other kv_one_stream = None" "kv_n_pos_per_embd kv_one_stream = 1"
  "kv_swa_type kv_one_stream = SWA_NONE" "kv_n_swa kv_one_stream = 0" "kv_floor_sc kv_one_stream = 1"
  "kv_protect kv_one_stream = 0" "kv_v_cells kv_one_stream = [cells_two]" "kv_v_heads kv_one_stream = [0]"
  "kv_seq_to_stream kv_one_stream = replicate LLAMA_MAX_SEQ 0" "kv_n_pad kv_one_stream = 1"
  "kv_evicted_total kv_one_stream = 0"
  by (simp_all add: kv_one_stream_def kv_init_def kv_set_cells_def)

lemma kv_one_stream_size [simp]: "kv_get_size kv_one_stream = 4"
  by (simp add: kv_get_size_def cells_two_wf)

lemma kv_one_stream_wf [simp]: "kv_wf kv_one_stream"
proof -
  obtain kv where kv: "kv_init hp_text None True 4 1 1 0 SWA_NONE 1 0 = Inr kv" "kv_n_stream kv = 1" "kv_get_size kv = 4"
    using kv_one_stream_init by blast
  then have "kv_wf kv" by (intro kv_init_wf[OF kv(1)]) simp_all
  then show ?thesis
    using kv cells_two_wf by (simp add: kv_one_stream_def kv_wf_set_cells)
qed

lemma kv_one_stream_ids [simp]: "seq_id_ok 0 kv_one_stream" "seq_id_ok 1 kv_one_stream"
  by (simp_all add: seq_id_ok_def)

lemma kv_one_stream_table [simp]: "kv_seq_to_stream kv_one_stream ! 0 = 0" "kv_seq_to_stream kv_one_stream ! 1 = 0"
  by (simp_all add: nth_replicate)

lemma kv_one_stream_view: "kv_view kv_one_stream 0 = {(0, 0, 0), (0, 1, 1)}"
  by (auto simp: kv_view_def view_iff cells_two_wf cells_two_fields less_Suc_eq eval_nat_numeral)

lemma kv_two_streams_simps [simp]:
  "kv_n_stream kv_two_streams = 2" "kv_other kv_two_streams = None" "kv_n_pos_per_embd kv_two_streams = 1"
  "kv_swa_type kv_two_streams = SWA_NONE" "kv_n_swa kv_two_streams = 0"
  "kv_v_cells kv_two_streams = [cells_two, cells_resize 4 cells_new]" "kv_v_heads kv_two_streams = [2, 0]"
  "kv_seq_to_stream kv_two_streams = [0, 1]"
  by (simp_all add: kv_two_streams_def kv_init_def kv_set_cells_def kv_set_head_def eval_nat_numeral)

lemma kv_two_streams_size [simp]: "kv_get_size kv_two_streams = 4"
  by (simp add: kv_get_size_def cells_two_wf)

lemma kv_two_streams_wf [simp]: "kv_wf kv_two_streams"
  unfolding kv_wf_def kv_two_streams_size
  by (simp add: cells_two_wf new_wf new_size less_Suc_eq eval_nat_numeral)

lemma kv_two_streams_ids [simp]: "seq_id_ok 0 kv_two_streams" "seq_id_ok 1 kv_two_streams"
  by (simp_all add: seq_id_ok_def)

text \<open>A full cache: position \<open>i\<close> of sequence 0 in cell \<open>i\<close>.\<close>

definition cells_filled :: "nat \<Rightarrow> nat \<Rightarrow> llama_kv_cells" where
  "cells_filled n m = fold (\<lambda>i c. cells_seq_add i 0 (cells_pos_set i (int i) c)) [0..<m] (cells_resize n cells_new)"

definition kv_full :: llama_kv_cache where
  "kv_full = (case kv_init hp_text None True 8 1 1 0 SWA_NONE 1 0 of Inr kv \<Rightarrow> kv_set_cells 0 (cells_filled 8 8) kv)"

lemma cells_filled:
  assumes "m \<le> n"
  shows "cells_wf (cells_filled n m) \<and> cells_size (cells_filled n m) = n \<and>
    (\<forall>j < n. cell_at (cells_filled n m) j =
       \<lparr>k_pos = (if j < m then int j else -1), k_ext = ext_default, k_shift = 0,
        k_seq = (if j < m then {0} else {}), k_score = 0\<rparr>)"
  using assms
proof (induction m)
  case 0
  have "cells_filled n 0 = cells_resize n cells_new" by (simp add: cells_filled_def)
  then show ?case using new_wf new_size
    by (simp add: cell_at_def cells_resize_def cells_reset_def cells_size_def)
next
  case (Suc m)
  let ?q = "cells_filled n m" and ?p = "cells_pos_set m (int m) (cells_filled n m)"
  have q: "cells_wf ?q" "cells_size ?q = n" and m: "m < cells_size ?q" using Suc by simp_all
  have k: "cell_at ?q m = \<lparr>k_pos = -1, k_ext = ext_default, k_shift = 0, k_seq = {}, k_score = 0\<rparr>" using Suc by simp
  have e: "c_pos ?q ! m = -1" "c_seq ?q ! m = {}" using arg_cong[OF k, of k_pos] arg_cong[OF k, of k_seq] by simp_all
  have w: "cells_wf ?p" using pos_set_wf[OF q(1) m e(1)] by simp
  have kp: "cell_at ?p j = (if j = m then (cell_at ?q m)\<lparr>k_pos := int m\<rparr> else cell_at ?q j)" for j
    using pos_set_cell[OF q(1) m] .
  have p: "c_pos ?p ! m = int m" "c_seq ?p ! m = {}" using arg_cong[OF kp[of m], of k_pos] arg_cong[OF kp[of m], of k_seq] e by simp_all
  have st: "cells_filled n (Suc m) = cells_seq_add m 0 ?p" by (simp add: cells_filled_def)
  have ms: "m < cells_size ?p" using m by simp
  show ?case
    unfolding st using seq_add_wf[OF w ms, of 0] seq_add_cell[OF w ms, of 0] p kp k q(2) Suc
    by (auto simp: less_Suc_eq)
qed

lemma cells_full: "cells_wf (cells_filled 8 8)" "cells_size (cells_filled 8 8) = 8"
  "j < 8 \<Longrightarrow> c_pos (cells_filled 8 8) ! j = int j" "j < 8 \<Longrightarrow> c_score (cells_filled 8 8) ! j = 0"
  "c_used (cells_filled 8 8) = {..<8}"
proof -
  let ?c = "cells_filled 8 8"
  have f: "cells_wf ?c" "cells_size ?c = 8" "\<And>j. j < 8 \<Longrightarrow> cell_at ?c j =
      \<lparr>k_pos = int j, k_ext = ext_default, k_shift = 0, k_seq = {0}, k_score = 0\<rparr>"
    using cells_filled[of 8 8] by simp_all
  have p: "c_pos ?c ! j = int j" if "j < 8" for j using arg_cong[OF f(3)[OF that], of k_pos] by simp
  show "cells_wf ?c" "cells_size ?c = 8" by (fact f)+
  show "j < 8 \<Longrightarrow> c_pos ?c ! j = int j" by (rule p)
  show "j < 8 \<Longrightarrow> c_score ?c ! j = 0" using arg_cong[OF f(3)[of j], of k_score] by simp
  show "c_used ?c = {..<8}" using cells_wf_used[OF f(1)] f(2) p by auto
qed

lemma kv_full_simps [simp]:
  "kv_n_stream kv_full = 1" "kv_other kv_full = None" "kv_swa_type kv_full = SWA_NONE" "kv_n_swa kv_full = 0"
  "kv_floor_sc kv_full = 1" "kv_protect kv_full = 0" "kv_v_cells kv_full = [cells_filled 8 8]"
  "kv_v_heads kv_full = [0]" "kv_seq_to_stream kv_full = replicate LLAMA_MAX_SEQ 0" "kv_n_pad kv_full = 1"
  "kv_probe_strm kv_full = 0"
  by (simp_all add: kv_full_def kv_init_def kv_set_cells_def)

lemma kv_full_size [simp]: "kv_get_size kv_full = 8"
  by (simp add: kv_get_size_def cells_full)

lemma kv_full_wf [simp]: "kv_wf kv_full"
  unfolding kv_wf_def kv_full_size by (simp add: cells_full)

section \<open>The properties on concrete caches\<close>

theorem seq_rm_one_sequence_witness:
  "\<exists>kv'. kv_seq_rm 0 1 (-1) kv_one_stream = Inr (True, kv') \<and> only_stream 0 kv_one_stream kv' \<and>
     kv_view kv' 0 = {(0, 0, 0)}"
proof -
  have "kv_view kv_one_stream 0 - {(nat 0, p, i) |p i. clamp_p0 1 \<le> p \<and> p < clamp_p1 (-1)} = {(0, 0, 0)}"
    by (auto simp: kv_one_stream_view clamp_p0_def clamp_p1_def)
  then show ?thesis using seq_rm_one_sequence[of kv_one_stream 0 1 "-1"] by auto
qed

theorem seq_keep_one_sequence_witness:
  "\<exists>kv'. kv_seq_keep 1 kv_one_stream = Inr kv' \<and> only_stream 0 kv_one_stream kv' \<and> kv_view kv' 0 = {}"
proof -
  have "{(t, p, i) \<in> kv_view kv_one_stream 0. t = nat 1} = {}" by (auto simp: kv_one_stream_view)
  then show ?thesis using seq_keep_one_sequence[of kv_one_stream 1] by auto
qed

theorem seq_cp_same_stream_witness:
  "\<exists>kv'. kv_seq_cp 0 1 0 1 kv_one_stream = Inr kv' \<and> only_stream 0 kv_one_stream kv' \<and>
     kv_view kv' 0 = {(0, 0, 0), (0, 1, 1), (1, 0, 0)}"
proof -
  have "kv_view kv_one_stream 0 \<union> {(nat 1, p, i) |p i. (nat 0, p, i) \<in> kv_view kv_one_stream 0 \<and>
      clamp_p0 0 \<le> p \<and> p < clamp_p1 1} = {(0, 0, 0), (0, 1, 1), (1, 0, 0)}"
    by (auto simp: kv_one_stream_view clamp_p0_def clamp_p1_def)
  then show ?thesis using seq_cp_same_stream[of kv_one_stream 0 1 0 1] by auto
qed

theorem seq_add_shifts_witness:
  "\<exists>kv'. kv_seq_add 0 0 (-1) (-1) kv_one_stream = Inr kv' \<and> only_stream 0 kv_one_stream kv' \<and>
     kv_view kv' 0 = {(0, 0, 1)}"
proof -
  have "moved (\<lambda>p. p + -1) (nat 0) (clamp_p0 0) (clamp_p1 (-1)) (kv_view kv_one_stream 0) = {(0, 0, 1)}"
    by (auto simp: moved_def kv_one_stream_view clamp_p0_def clamp_p1_def)
  then show ?thesis using seq_add_shifts[of kv_one_stream 0 0 "-1" "-1"] by auto
qed

theorem seq_div_divides_witness:
  "\<exists>kv'. kv_seq_div 0 0 (-1) 2 kv_one_stream = Inr kv' \<and> only_stream 0 kv_one_stream kv' \<and>
     kv_view kv' 0 = {(0, 0, 0), (0, 0, 1)}"
proof -
  have "moved (\<lambda>p. p div 2) (nat 0) (clamp_p0 0) (clamp_p1 (-1)) (kv_view kv_one_stream 0) = {(0, 0, 0), (0, 0, 1)}"
    by (auto simp: moved_def kv_one_stream_view clamp_p0_def clamp_p1_def)
  then show ?thesis using seq_div_divides[of kv_one_stream 0 2 0 "-1"] by auto
qed

theorem seq_rm_any_sequence_witness:
  "\<exists>kv'. kv_seq_rm (-1) (-1) (-1) kv_two_streams = Inr (True, kv') \<and> kv_wf kv' \<and> kv_same_config kv_two_streams kv' \<and>
     (\<forall>st < kv_n_stream kv_two_streams. kv_view kv' st =
       {(s, p, i) \<in> kv_view kv_two_streams st. \<not> (clamp_p0 (-1) \<le> p \<and> p < clamp_p1 (-1))})"
  by (rule seq_rm_any_sequence) simp_all

theorem seq_cp_cross_stream_witness:
  "\<exists>kv'. kv_seq_cp 0 1 (-1) (-1) kv_two_streams = Inr kv' \<and> only_stream 1 kv_two_streams kv' \<and>
     kv_view kv' 1 = {(1, p, i) |p i. (0, p, i) \<in> kv_view kv_two_streams 0} \<and>
     kv_sc_ssrc kv' = kv_sc_ssrc kv_two_streams @ [0] \<and> kv_sc_sdst kv' = kv_sc_sdst kv_two_streams @ [1]"
  using seq_cp_cross_stream[of kv_two_streams 0 1 "-1" "-1"] by simp

theorem seq_pos_bounds_witness:
  "kv_seq_pos_min 0 kv_one_stream = Inr 0 \<and> kv_seq_pos_max 0 kv_one_stream = Inr 1"
proof -
  have "{p. \<exists>i. (nat 0, p, i) \<in> kv_view kv_one_stream (kv_seq_to_stream kv_one_stream ! nat 0)} = {0, 1}"
    by (auto simp: kv_one_stream_view)
  then show ?thesis using seq_pos_bounds[of kv_one_stream 0] by simp
qed

theorem data_pos_add_div_witness:
  "data_pos (cell_at (cells_pos_div 1 2 cells_two) 1) = -1 \<and> data_pos (cell_at cells_two 1) = 1"
  using data_pos_add_div[of cells_two 1 2] cells_two_wf
  by (simp add: cells_two_fields data_pos_def trunc_div_def)

end
