(* ===== verification/KvEvict.thy ===== *)
theory KvEvict
  imports KvSeq
begin

text \<open>
  Importance scores and eviction, the part of \<open>engine/src/llama-kv-cache.cpp\<close> that VITRIOL adds
  to the KV cache: the attention-probe hand-over (\<open>vitriol_probe_*\<close>), the eager sweep of cells
  below a score floor (\<open>vitriol_sweep_stream\<close>, \<open>vitriol_policy_*\<close>) and the demand-driven
  eviction of the lowest scores (\<open>evict_sparse\<close>). The lemmas characterise exactly which cells
  are freed; \<open>std::sort\<close>, whose order of equal scores is unspecified, is an argument under the
  contract \<open>score_sort\<close>.
\<close>

section \<open>Operations\<close>

text \<open>The newest position still alive in a stream; \<open>INT32_MIN\<close> when there is none.\<close>

definition stream_pos_max :: "llama_kv_cells \<Rightarrow> llama_pos" where
  "stream_pos_max c =
     fold (\<lambda>j m. if cells_is_empty j c then m else max m (cells_pos_get j c)) [0..<cells_size c] INT32_MIN"

definition sweep_cell :: "float32 \<Rightarrow> llama_pos \<Rightarrow> nat \<Rightarrow> nat \<times> llama_kv_cells \<Rightarrow> nat \<times> llama_kv_cells" where
  "sweep_cell floor_sc recent_floor j = (\<lambda>(swept, c).
     if cells_is_empty j c \<or> cells_pos_get j c > recent_floor then (swept, c)
     else if cells_score_get j c < floor_sc then (swept + 1, cells_rm j c)
     else (swept, c))"

definition vitriol_sweep_stream :: "nat \<Rightarrow> float32 \<Rightarrow> int \<Rightarrow> llama_kv_cache \<Rightarrow> nat \<times> llama_kv_cache" where
  "vitriol_sweep_stream s floor_sc protect kv =
     (let c = kv_cells kv s; pos_max = stream_pos_max c in
      if pos_max = INT32_MIN then (0, kv)
      else
        let recent_floor = pos_max - protect;
            (swept, c) = fold (sweep_cell floor_sc recent_floor) [4..<cells_size c] (0, c);
            kv = kv_set_cells s c kv
        in (swept, if swept > 0 then kv\<lparr>kv_evicted_total := kv_evicted_total kv + swept\<rparr> else kv))"

definition vitriol_policy_set :: "float32 \<Rightarrow> int \<Rightarrow> llama_kv_cache \<Rightarrow> llama_kv_cache" where
  "vitriol_policy_set floor_score protect_pos kv = kv\<lparr>kv_floor_sc := floor_score, kv_protect := protect_pos\<rparr>"

definition vitriol_policy_get :: "llama_kv_cache \<Rightarrow> float32 \<times> int" where
  "vitriol_policy_get kv = (kv_floor_sc kv, kv_protect kv)"

definition policy_sweep_step :: "float32 \<Rightarrow> nat \<Rightarrow> nat \<times> llama_kv_cache \<Rightarrow> nat \<times> llama_kv_cache" where
  "policy_sweep_step floor_sc s = (\<lambda>(total, kv).
     let (n, kv) = vitriol_sweep_stream s floor_sc (kv_protect kv) kv in (total + n, kv))"

definition vitriol_policy_sweep :: "llama_kv_cache \<Rightarrow> nat \<times> llama_kv_cache" where
  "vitriol_policy_sweep kv =
     (let floor_sc = kv_floor_sc kv in
      if floor_sc \<le> 0 then (0, kv)
      else fold (policy_sweep_step floor_sc) [0..<kv_n_stream kv] (0, kv))"

definition vitriol_resident_cells :: "llama_kv_cache \<Rightarrow> nat" where
  "vitriol_resident_cells kv = fold (\<lambda>s n. n + cells_get_used (kv_cells kv s)) [0..<kv_n_stream kv] 0"

subsection \<open>The attention probe\<close>

definition vitriol_probe_reset :: "llama_kv_cache \<Rightarrow> llama_kv_cache" where
  "vitriol_probe_reset kv = kv\<lparr>kv_probe_out := None, kv_probe_layers := 0, kv_probe_pending := False\<rparr>"

definition vitriol_probe_mark_output :: "float32 list \<Rightarrow> nat \<Rightarrow> llama_kv_cache \<Rightarrow> llama_kv_cache" where
  "vitriol_probe_mark_output out n_layers kv =
     kv\<lparr>kv_probe_out := Some out, kv_probe_layers := n_layers, kv_probe_pending := True\<rparr>"

text \<open>
  \<open>fmadd d a b\<close> is the single precision value of \<open>d * a + b\<close>, as the target computes it.
\<close>

definition apply_score :: "(float32 \<Rightarrow> float32 \<Rightarrow> float32 \<Rightarrow> float32) \<Rightarrow> float32 \<Rightarrow> float32 list \<Rightarrow>
    nat \<Rightarrow> llama_kv_cells \<Rightarrow> llama_kv_cells" where
  "apply_score fmadd dec scores j c =
     (if cells_is_empty j c then c
      else cells_score_set j (fmadd dec (cells_score_get j c) (scores ! j)) c)"

definition vitriol_probe_finish :: "(float32 \<Rightarrow> float32 \<Rightarrow> float32 \<Rightarrow> float32) \<Rightarrow> float32 \<Rightarrow>
    llama_kv_cache \<Rightarrow> llama_kv_cache" where
  "vitriol_probe_finish fmadd dec kv =
     (case kv_probe_out kv of
        None \<Rightarrow> kv
      | Some scores \<Rightarrow>
          if \<not> kv_probe_pending kv then kv
          else
            let s = kv_probe_strm kv; c = kv_cells kv s;
                c = fold (apply_score fmadd dec scores) [0..<min (length scores) (cells_size c)] c;
                kv = (kv_set_cells s c kv)\<lparr>kv_probe_pending := False, kv_probe_out := None\<rparr>
            in if kv_floor_sc kv > 0
               then snd (vitriol_sweep_stream s (kv_floor_sc kv) (kv_protect kv) kv)
               else kv)"

subsection \<open>Demand-driven eviction\<close>

definition evict_candidates :: "nat \<Rightarrow> llama_pos \<Rightarrow> llama_kv_cells \<Rightarrow> (float32 \<times> nat) list" where
  "evict_candidates n_sinks recent_floor c =
     map (\<lambda>i. (cells_score_get i c, i))
       (filter (\<lambda>i. \<not> cells_is_empty i c \<and> \<not> cells_pos_get i c > recent_floor) [n_sinks..<cells_size c])"

fun evict_loop :: "nat \<Rightarrow> (float32 \<times> nat) list \<Rightarrow> nat \<Rightarrow> llama_kv_cells \<Rightarrow> nat \<times> llama_kv_cells" where
  "evict_loop n_evict [] evicted c = (evicted, c)"
| "evict_loop n_evict ((sc, idx) # xs) evicted c =
     (if evicted \<ge> n_evict then (evicted, c) else evict_loop n_evict xs (evicted + 1) (cells_rm idx c))"

definition evict_stream :: "((float32 \<times> nat) list \<Rightarrow> (float32 \<times> nat) list) \<Rightarrow> nat \<Rightarrow> nat \<Rightarrow> nat \<Rightarrow>
    nat \<times> llama_kv_cache \<Rightarrow> nat \<times> llama_kv_cache" where
  "evict_stream srt n_needed n_sinks s = (\<lambda>(total, kv).
     let c = kv_cells kv s in
     if cells_get_used c = 0 then (total, kv)
     else
       let n_evict = u32_sub (cells_get_used c + n_needed) (cells_size c);
           pos_max = stream_pos_max c
       in if pos_max = INT32_MIN then (total, kv)
          else
            let recent_floor = pos_max - to_i32 (n_needed * 2);
                candidates = evict_candidates n_sinks recent_floor c
            in if length candidates < n_evict then (total, kv)
               else
                 let (evicted, c) = evict_loop n_evict (srt candidates) 0 c;
                     kv = kv_set_cells s c kv
                 in (total + evicted, kv\<lparr>kv_evicted_total := kv_evicted_total kv + evicted\<rparr>))"

definition evict_sparse :: "((float32 \<times> nat) list \<Rightarrow> (float32 \<times> nat) list) \<Rightarrow> nat \<Rightarrow> nat \<Rightarrow>
    llama_kv_cache \<Rightarrow> nat \<times> llama_kv_cache" where
  "evict_sparse srt n_needed n_sinks kv =
     fold (evict_stream srt n_needed n_sinks) [0..<kv_n_stream kv] (0, kv)"

section \<open>Clearing a set of cells\<close>

lemma rm_cells:
  assumes "cells_wf c" "\<forall>i \<in> set is. i < cells_size c"
  defines "r \<equiv> fold cells_rm is c"
  shows "cells_wf r \<and> cells_size r = cells_size c \<and> c_has_shift r = c_has_shift c \<and>
    (\<forall>j. cell_at r j = (if j \<in> set is then cell_cleared (cell_at c j) else cell_at c j))"
  using assms(1,2) unfolding r_def
proof (induction "is" arbitrary: c)
  case (Cons i xs)
  then have "cells_wf (cells_rm i c)" "\<forall>i \<in> set xs. i < cells_size (cells_rm i c)"
    by (simp_all add: rm_wf)
  from Cons.IH[OF this(1)] show ?case
    using Cons.prems by (auto simp: rm_cell cell_cleared_def)
qed simp

lemma rm_cells_used:
  assumes "cells_wf c" "distinct is" "\<forall>i \<in> set is. i < cells_size c \<and> c_pos c ! i \<noteq> -1"
  shows "c_used (fold cells_rm is c) = c_used c - set is"
    and "cells_get_used (fold cells_rm is c) + length is = cells_get_used c"
proof -
  let ?r = "fold cells_rm is c"
  have r: "cells_wf ?r" "cells_size ?r = cells_size c"
    "\<And>j. cell_at ?r j = (if j \<in> set is then cell_cleared (cell_at c j) else cell_at c j)"
    using rm_cells[OF assms(1), of "is"] assms(3) by simp_all
  have p: "c_pos ?r ! j = (if j \<in> set is then -1 else c_pos c ! j)" for j
    using r(3)[of j] by (simp add: cell_cleared_def flip: cell_at_sel(1))
  show u: "c_used ?r = c_used c - set is"
    using cells_wf_used[OF r(1)] cells_wf_used[OF assms(1)] r(2) by (auto simp: p)
  have "set is \<subseteq> c_used c" using assms(3) cells_wf_used[OF assms(1)] by auto
  then show "cells_get_used ?r + length is = cells_get_used c"
    using assms(1,2) unfolding cells_get_used_def u
    by (simp add: card_Diff_subset distinct_card card_mono flip: distinct_card)
qed

text \<open>Freeing a set of cells; the order does not matter.\<close>

definition clear_cells :: "nat set \<Rightarrow> llama_kv_cells \<Rightarrow> llama_kv_cells" where
  "clear_cells V c = fold cells_rm (sorted_list_of_set V) c"

lemma clear_cells:
  assumes "cells_wf c" "V \<subseteq> {..<cells_size c}"
  shows clear_cells_wf: "cells_wf (clear_cells V c)"
    and clear_cells_size: "cells_size (clear_cells V c) = cells_size c"
    and clear_cells_shift: "c_has_shift (clear_cells V c) = c_has_shift c"
    and clear_cells_cell: "cell_at (clear_cells V c) j = (if j \<in> V then cell_cleared (cell_at c j) else cell_at c j)"
proof -
  have v: "set (sorted_list_of_set V) = V"
    using assms(2) finite_subset by (intro set_sorted_list_of_set) auto
  then have "\<forall>i \<in> set (sorted_list_of_set V). i < cells_size c" using assms(2) by auto
  from rm_cells[OF assms(1) this] v show "cells_wf (clear_cells V c)" "cells_size (clear_cells V c) = cells_size c"
    "c_has_shift (clear_cells V c) = c_has_shift c"
    "cell_at (clear_cells V c) j = (if j \<in> V then cell_cleared (cell_at c j) else cell_at c j)"
    by (simp_all add: clear_cells_def)
qed

lemma rm_cells_clear:
  assumes "cells_wf c" "set is \<subseteq> {..<cells_size c}"
  shows "fold cells_rm is c = clear_cells (set is) c"
proof -
  have "\<forall>i \<in> set is. i < cells_size c" using assms(2) by auto
  from rm_cells[OF assms(1) this] show ?thesis
    using clear_cells[OF assms] by (intro cells_eqI) simp_all
qed

lemma clear_cells_used:
  assumes "cells_wf c" "V \<subseteq> c_used c"
  shows "c_used (clear_cells V c) = c_used c - V" "cells_get_used (clear_cells V c) + card V = cells_get_used c"
proof -
  have f: "finite V" using assms finite_used finite_subset by blast
  have "\<forall>i \<in> V. i < cells_size c \<and> c_pos c ! i \<noteq> -1" using assms cells_wf_used by auto
  then show "c_used (clear_cells V c) = c_used c - V" "cells_get_used (clear_cells V c) + card V = cells_get_used c"
    using rm_cells_used[OF assms(1), of "sorted_list_of_set V"] f by (simp_all add: clear_cells_def)
qed

lemma clear_cells_view:
  assumes "cells_wf c" "V \<subseteq> {..<cells_size c}"
  shows "(s, p, i) \<in> cells_view (clear_cells V c) \<longleftrightarrow> (s, p, i) \<in> cells_view c \<and> i \<notin> V"
  using clear_cells_cell[OF assms, of i] clear_cells_size[OF assms]
  by (auto simp: view_iff cell_cleared_def simp flip: cell_at_sel)

lemma clear_cells_empty [simp]: "clear_cells {} c = c"
  by (simp add: clear_cells_def)

section \<open>The newest position\<close>

lemma fold_max_upt:
  "fold (\<lambda>j m. if E j then m else max m (f j)) [0..<n] z = Max (insert z {f j |j. j < n \<and> \<not> E j})"
  for z :: int
proof (induction n)
  case (Suc n)
  let ?S = "\<lambda>n. {f j |j. j < n \<and> \<not> E j}"
  have "insert z (?S (Suc n)) = (if E n then insert z (?S n) else insert (f n) (insert z (?S n)))"
    by (auto simp: less_Suc_eq)
  moreover have "Max (insert (f n) (insert z (?S n))) = max (f n) (Max (insert z (?S n)))"
    by (rule Max_insert) simp_all
  ultimately show ?case using Suc by (simp add: max.commute)
qed simp

definition alive_pos :: "llama_kv_cells \<Rightarrow> llama_pos set" where
  "alive_pos c = {c_pos c ! j |j. j < cells_size c \<and> c_pos c ! j \<noteq> -1}"

lemma finite_alive_pos [simp]: "finite (alive_pos c)"
  by (simp add: alive_pos_def)

lemma stream_pos_max_eq:
  assumes "cells_wf c"
  shows "stream_pos_max c = (if c_used c = {} then INT32_MIN else Max (alive_pos c))"
proof -
  have *: "stream_pos_max c = Max (insert INT32_MIN (alive_pos c))"
    unfolding stream_pos_max_def fold_max_upt by (simp add: cells_is_empty_def cells_pos_get_def alive_pos_def)
  have nn: "0 \<le> p" if "p \<in> alive_pos c" for p
    using that cells_wf_pos_ge[OF assms] by (fastforce simp: alive_pos_def)
  have e: "alive_pos c = {} \<longleftrightarrow> c_used c = {}"
    using cells_wf_used[OF assms] by (auto simp: alive_pos_def)
  show ?thesis
  proof (cases "c_used c = {}")
    case True
    then show ?thesis using * e by simp
  next
    case False
    then have "Max (insert INT32_MIN (alive_pos c)) = max INT32_MIN (Max (alive_pos c))"
      using e by simp
    moreover have "0 \<le> Max (alive_pos c)" using nn e False by (meson Max_in finite_alive_pos)
    ultimately show ?thesis using * False by simp
  qed
qed

lemma stream_pos_max_none:
  assumes "cells_wf c"
  shows "stream_pos_max c = INT32_MIN \<longleftrightarrow> c_used c = {}"
proof (cases "c_used c = {}")
  case False
  then have "alive_pos c \<noteq> {}" using cells_wf_used[OF assms] by (auto simp: alive_pos_def)
  then have "Max (alive_pos c) \<in> alive_pos c" by simp
  then have "-1 \<le> Max (alive_pos c)" using cells_wf_pos_ge[OF assms] by (auto simp: alive_pos_def)
  then show ?thesis using False stream_pos_max_eq[OF assms] by auto
qed (use stream_pos_max_eq[OF assms] in simp)

section \<open>The eager sweep\<close>

text \<open>The cells a sweep frees: not a sink, outside the recent window, below the floor.\<close>

definition swept_cells :: "float32 \<Rightarrow> int \<Rightarrow> llama_kv_cells \<Rightarrow> nat set" where
  "swept_cells floor_sc protect c =
     {j. 4 \<le> j \<and> j < cells_size c \<and> c_pos c ! j \<noteq> -1 \<and>
         c_pos c ! j \<le> stream_pos_max c - protect \<and> c_score c ! j < floor_sc}"

lemma sweep_fold:
  assumes "cells_wf c" "n \<le> cells_size c"
  shows "fold (sweep_cell fl rf) [4..<n] (k, c) =
    (let vs = filter (\<lambda>j. c_pos c ! j \<noteq> -1 \<and> c_pos c ! j \<le> rf \<and> c_score c ! j < fl) [4..<n]
     in (k + length vs, fold cells_rm vs c))"
  using assms(2)
proof (induction n)
  case (Suc n)
  let ?P = "\<lambda>j. c_pos c ! j \<noteq> -1 \<and> c_pos c ! j \<le> rf \<and> c_score c ! j < fl"
  let ?vs = "filter ?P [4..<n]"
  let ?d = "fold cells_rm ?vs c"
  have k: "cell_at ?d n = cell_at c n"
    using rm_cells[OF assms(1), of ?vs] Suc.prems by simp
  have "c_pos ?d ! n = c_pos c ! n" "c_score ?d ! n = c_score c ! n"
    using arg_cong[OF k, of k_pos] arg_cong[OF k, of k_score] by simp_all
  then have "sweep_cell fl rf n (k + length ?vs, ?d) =
      (if ?P n then (k + length ?vs + 1, cells_rm n ?d) else (k + length ?vs, ?d))"
    by (simp add: sweep_cell_def cells_is_empty_def cells_pos_get_def cells_score_get_def)
  with Suc show ?case by (simp add: Let_def)
qed simp

lemma swept_cells_sub: "cells_wf c \<Longrightarrow> swept_cells fl pr c \<subseteq> c_used c"
  by (auto simp: swept_cells_def cells_wf_used)

lemma used_sub: "cells_wf c \<Longrightarrow> c_used c \<subseteq> {..<cells_size c}"
  by (auto simp: cells_wf_used)

definition cells_swept :: "float32 \<Rightarrow> int \<Rightarrow> llama_kv_cells \<Rightarrow> llama_kv_cells" where
  "cells_swept fl pr c = clear_cells (swept_cells fl pr c) c"

lemma cells_swept:
  assumes "cells_wf c"
  shows cells_swept_wf: "cells_wf (cells_swept fl pr c)"
    and cells_swept_size: "cells_size (cells_swept fl pr c) = cells_size c"
    and cells_swept_view: "(s, p, i) \<in> cells_view (cells_swept fl pr c) \<longleftrightarrow>
      (s, p, i) \<in> cells_view c \<and> i \<notin> swept_cells fl pr c"
    and cells_swept_used: "cells_get_used (cells_swept fl pr c) + card (swept_cells fl pr c) = cells_get_used c"
proof -
  note sub = swept_cells_sub[OF assms, of fl pr] subset_trans[OF swept_cells_sub[OF assms, of fl pr] used_sub[OF assms]]
  show "cells_wf (cells_swept fl pr c)" "cells_size (cells_swept fl pr c) = cells_size c"
    "(s, p, i) \<in> cells_view (cells_swept fl pr c) \<longleftrightarrow> (s, p, i) \<in> cells_view c \<and> i \<notin> swept_cells fl pr c"
    "cells_get_used (cells_swept fl pr c) + card (swept_cells fl pr c) = cells_get_used c"
    unfolding cells_swept_def
    by (simp_all add: clear_cells_wf[OF assms sub(2)] clear_cells_size[OF assms sub(2)]
        clear_cells_view[OF assms sub(2)] clear_cells_used(2)[OF assms sub(1)])
qed

lemma sweep_stream_eq:
  assumes "kv_wf kv" "s < kv_n_stream kv"
  defines "c \<equiv> kv_cells kv s"
  shows "vitriol_sweep_stream s fl pr kv =
      (card (swept_cells fl pr c),
       (kv_set_cells s (cells_swept fl pr c) kv)
         \<lparr>kv_evicted_total := kv_evicted_total kv + card (swept_cells fl pr c)\<rparr>)"
proof (cases "c_used c = {}")
  have wf: "cells_wf c" using assms by (simp add: kv_wf_cells)
  case True
  then have "swept_cells fl pr c = {}" using swept_cells_sub[OF wf, of fl pr] by simp
  moreover have "vitriol_sweep_stream s fl pr kv = (0, kv)"
    using stream_pos_max_none[OF wf] True by (simp add: vitriol_sweep_stream_def c_def Let_def)
  ultimately show ?thesis by (simp add: kv_set_cells_def c_def cells_swept_def)
next
  have wf: "cells_wf c" using assms by (simp add: kv_wf_cells)
  case False
  let ?vs = "filter (\<lambda>j. c_pos c ! j \<noteq> -1 \<and> c_pos c ! j \<le> stream_pos_max c - pr \<and> c_score c ! j < fl) [4..<cells_size c]"
  have v: "set ?vs = swept_cells fl pr c" by (auto simp: swept_cells_def)
  have n: "length ?vs = card (swept_cells fl pr c)" unfolding v[symmetric] by (intro distinct_card[symmetric] distinct_filter distinct_upt)
  have f: "fold cells_rm ?vs c = cells_swept fl pr c"
    unfolding cells_swept_def v[symmetric] by (rule rm_cells_clear[OF wf]) auto
  show ?thesis
    using stream_pos_max_none[OF wf] False
      sweep_fold[OF wf order_refl, of fl "stream_pos_max c - pr" 0]
    unfolding Let_def f n
    by (auto simp: vitriol_sweep_stream_def c_def[symmetric] Let_def kv_set_cells_def)
qed

lemma kv_wf_evicted [simp]: "kv_wf (kv\<lparr>kv_evicted_total := n\<rparr>) = kv_wf kv"
  by (simp add: kv_wf_def kv_get_size_def)

lemma kv_wf_probe [simp]:
  "kv_wf (kv\<lparr>kv_probe_pending := a, kv_probe_out := b\<rparr>) = kv_wf kv"
  "kv_wf (kv\<lparr>kv_probe_out := b, kv_probe_layers := n, kv_probe_pending := a\<rparr>) = kv_wf kv"
  by (simp_all add: kv_wf_def kv_get_size_def)

lemma kv_set_cells_evicted [simp]:
  "kv_set_cells s c (kv\<lparr>kv_evicted_total := n\<rparr>) = (kv_set_cells s c kv)\<lparr>kv_evicted_total := n\<rparr>"
  by (simp add: kv_set_cells_def)

text \<open>Only the cells and the eviction counter differ.\<close>

definition only_evicts :: "nat \<Rightarrow> llama_kv_cache \<Rightarrow> llama_kv_cache \<Rightarrow> bool" where
  "only_evicts n kv kv' \<longleftrightarrow> kv_wf kv' \<and>
     kv' = kv\<lparr>kv_v_cells := kv_v_cells kv', kv_evicted_total := kv_evicted_total kv + n\<rparr>"

lemma only_evicts_refl: "kv_wf kv \<Longrightarrow> only_evicts 0 kv kv"
  by (simp add: only_evicts_def)

lemma only_evicts_trans: "only_evicts m a b \<Longrightarrow> only_evicts n b c \<Longrightarrow> only_evicts (m + n) a c"
  unfolding only_evicts_def by (cases a; cases b; cases c) simp

lemma only_evicts_simps:
  assumes "only_evicts n a b"
  shows "kv_wf b" "kv_n_stream b = kv_n_stream a" "kv_seq_to_stream b = kv_seq_to_stream a"
    "kv_v_heads b = kv_v_heads a" "kv_floor_sc b = kv_floor_sc a" "kv_protect b = kv_protect a"
    "kv_evicted_total b = kv_evicted_total a + n" "kv_other b = kv_other a" "kv_n_pad b = kv_n_pad a"
    "kv_n_swa b = kv_n_swa a" "kv_swa_type b = kv_swa_type a"
    "kv_n_pos_per_embd b = kv_n_pos_per_embd a"
  using assms unfolding only_evicts_def by (cases a; cases b; simp)+

lemma only_evicts_set:
  assumes "kv_wf kv" "s < kv_n_stream kv" "cells_wf c" "cells_size c = cells_size (kv_cells kv s)"
  shows "only_evicts n kv ((kv_set_cells s c kv)\<lparr>kv_evicted_total := kv_evicted_total kv + n\<rparr>)"
  using kv_wf_set_cells[OF assms(1-3)] assms(4) kv_wf_size[OF assms(1,2)]
  by (simp add: only_evicts_def kv_set_cells_def)

lemma policy_sweep_fold:
  fixes fl :: float32
  assumes "kv_wf kv" "m \<le> kv_n_stream kv"
  defines "r \<equiv> fold (policy_sweep_step fl) [0..<m] (0, kv)"
  shows "only_evicts (fst r) kv (snd r) \<and>
    fst r = (\<Sum>t < m. card (swept_cells fl (kv_protect kv) (kv_cells kv t))) \<and>
    (\<forall>t. kv_cells (snd r) t = (if t < m then cells_swept fl (kv_protect kv) (kv_cells kv t) else kv_cells kv t))"
  using assms(2) unfolding r_def
proof (induction m)
  case 0
  then show ?case using assms(1) by (simp add: only_evicts_refl)
next
  case (Suc m)
  define q where "q = fold (policy_sweep_step fl) [0..<m] (0, kv)"
  have q: "only_evicts (fst q) kv (snd q)"
      "fst q = (\<Sum>t < m. card (swept_cells fl (kv_protect kv) (kv_cells kv t)))"
      "\<And>t. kv_cells (snd q) t = (if t < m then cells_swept fl (kv_protect kv) (kv_cells kv t) else kv_cells kv t)"
    using Suc.IH Suc.prems unfolding q_def by auto
  note qs = only_evicts_simps[OF q(1)]
  have m: "m < kv_n_stream (snd q)" using Suc.prems qs(2) by simp
  let ?c = "kv_cells kv m" and ?V = "swept_cells fl (kv_protect kv) (kv_cells kv m)"
  let ?kv = "(kv_set_cells m (cells_swept fl (kv_protect kv) ?c) (snd q))
      \<lparr>kv_evicted_total := kv_evicted_total (snd q) + card ?V\<rparr>"
  have st: "policy_sweep_step fl m q = (fst q + card ?V, ?kv)"
    using sweep_stream_eq[OF qs(1) m, of fl "kv_protect kv"] qs(6) q(3)[of m]
    by (simp add: policy_sweep_step_def split_beta)
  have "only_evicts (card ?V) (snd q) ?kv"
    by (rule only_evicts_set[OF qs(1) m])
       (use kv_wf_cells[OF qs(1) m] q(3)[of m] in \<open>simp_all add: cells_swept_wf cells_swept_size\<close>)
  moreover have "kv_cells ?kv t = (if t < Suc m then cells_swept fl (kv_protect kv) (kv_cells kv t) else kv_cells kv t)" for t
    using q(3)[of t] m kv_wf_lens(1)[OF qs(1)] by (cases "t = m") auto
  ultimately show ?case
    using only_evicts_trans[OF q(1)] q(2) st by (simp add: q_def[symmetric])
qed

lemma policy_sweep_eq:
  assumes "kv_wf kv" "kv_floor_sc kv > 0"
  obtains n kv' where "vitriol_policy_sweep kv = (n, kv')" "only_evicts n kv kv'"
    "n = (\<Sum>t < kv_n_stream kv. card (swept_cells (kv_floor_sc kv) (kv_protect kv) (kv_cells kv t)))"
    "\<And>t. t < kv_n_stream kv \<Longrightarrow> kv_cells kv' t = cells_swept (kv_floor_sc kv) (kv_protect kv) (kv_cells kv t)"
proof -
  have e: "vitriol_policy_sweep kv = fold (policy_sweep_step (kv_floor_sc kv)) [0..<kv_n_stream kv] (0, kv)"
    using assms(2) by (simp add: vitriol_policy_sweep_def)
  show ?thesis
    using policy_sweep_fold[OF assms(1) order_refl, of "kv_floor_sc kv", folded e]
    by (intro that[OF surjective_pairing]) auto
qed

lemma resident_eq: "vitriol_resident_cells kv = (\<Sum>t < kv_n_stream kv. cells_get_used (kv_cells kv t))"
proof -
  have "fold (\<lambda>s n. n + f s) [0..<m] 0 = (\<Sum>t < m. f t)" for f :: "nat \<Rightarrow> nat" and m
    by (induction m) auto
  then show ?thesis by (simp add: vitriol_resident_cells_def)
qed

text \<open>A policy sweep frees, in every stream, exactly the cells that are neither one of the four
  sinks nor in the recent window and whose score is below the floor; the number it returns is the
  drop of the resident cells and the growth of the eviction counter.\<close>

theorem policy_sweep_exact:
  assumes "kv_wf kv" "kv_floor_sc kv > 0"
  shows "\<exists>n kv'. vitriol_policy_sweep kv = (n, kv') \<and> only_evicts n kv kv' \<and>
    vitriol_resident_cells kv' + n = vitriol_resident_cells kv \<and>
    (\<forall>st < kv_n_stream kv. \<forall>s p i. (s, p, i) \<in> kv_view kv' st \<longleftrightarrow>
       (s, p, i) \<in> kv_view kv st \<and>
       \<not> (4 \<le> i \<and> p \<le> stream_pos_max (kv_cells kv st) - kv_protect kv \<and>
          c_score (kv_cells kv st) ! i < kv_floor_sc kv))"
proof -
  let ?fl = "kv_floor_sc kv" and ?pr = "kv_protect kv"
  obtain n kv' where r: "vitriol_policy_sweep kv = (n, kv')" "only_evicts n kv kv'"
    "n = (\<Sum>t < kv_n_stream kv. card (swept_cells ?fl ?pr (kv_cells kv t)))"
    "\<And>t. t < kv_n_stream kv \<Longrightarrow> kv_cells kv' t = cells_swept ?fl ?pr (kv_cells kv t)"
    using policy_sweep_eq[OF assms] by blast
  have "vitriol_resident_cells kv' + n =
      (\<Sum>t < kv_n_stream kv. cells_get_used (cells_swept ?fl ?pr (kv_cells kv t)) + card (swept_cells ?fl ?pr (kv_cells kv t)))"
    using only_evicts_simps(2)[OF r(2)] r(3,4) by (simp add: resident_eq sum.distrib)
  also have "\<dots> = vitriol_resident_cells kv"
    unfolding resident_eq by (intro sum.cong) (simp_all add: cells_swept_used kv_wf_cells[OF assms(1)])
  finally have res: "vitriol_resident_cells kv' + n = vitriol_resident_cells kv" .
  have "(s, p, i) \<in> kv_view kv' st \<longleftrightarrow> (s, p, i) \<in> kv_view kv st \<and>
       \<not> (4 \<le> i \<and> p \<le> stream_pos_max (kv_cells kv st) - ?pr \<and> c_score (kv_cells kv st) ! i < ?fl)"
    if "st < kv_n_stream kv" for st s p i
    using cells_swept_view[OF kv_wf_cells[OF assms(1) that]] r(4)[OF that]
      cells_wf_seq_nonempty[OF kv_wf_cells[OF assms(1) that], of i s]
    by (auto simp: kv_view_def swept_cells_def view_iff)
  then show ?thesis using r(1,2) res by blast
qed

text \<open>Sweeping twice in a row frees nothing the second time.\<close>

lemma swept_again:
  assumes "cells_wf c"
  shows "swept_cells fl pr (cells_swept fl pr c) = {}"
proof -
  let ?V = "swept_cells fl pr c" and ?d = "cells_swept fl pr c"
  note sub = swept_cells_sub[OF assms, of fl pr] subset_trans[OF swept_cells_sub[OF assms, of fl pr] used_sub[OF assms]]
  have k: "cell_at ?d j = (if j \<in> ?V then cell_cleared (cell_at c j) else cell_at c j)" for j
    unfolding cells_swept_def by (rule clear_cells_cell[OF assms sub(2)])
  have p: "c_pos ?d ! j = (if j \<in> ?V then -1 else c_pos c ! j)" "c_score ?d ! j = c_score c ! j" for j
    using arg_cong[OF k[of j], of k_pos] arg_cong[OF k[of j], of k_score] by (simp_all add: cell_cleared_def)
  have u: "c_used ?d = c_used c - ?V" unfolding cells_swept_def using clear_cells_used(1)[OF assms sub(1)] .
  have le: "stream_pos_max ?d \<le> stream_pos_max c" if "c_used ?d \<noteq> {}"
  proof -
    have "alive_pos ?d \<subseteq> alive_pos c" by (auto simp: alive_pos_def p cells_swept_size[OF assms])
    moreover have "alive_pos ?d \<noteq> {}" using that cells_wf_used[OF cells_swept_wf[OF assms, of fl pr]] by (auto simp: alive_pos_def)
    ultimately have "Max (alive_pos ?d) \<le> Max (alive_pos c)" by (intro Max_mono) simp_all
    then show ?thesis
      using that u stream_pos_max_eq[OF assms] stream_pos_max_eq[OF cells_swept_wf[OF assms, of fl pr]] by auto
  qed
  show ?thesis
  proof (rule ccontr)
    assume "swept_cells fl pr ?d \<noteq> {}"
    then obtain j where j: "j \<in> swept_cells fl pr ?d" by blast
    then have "c_used ?d \<noteq> {}" using swept_cells_sub[OF cells_swept_wf[OF assms]] by blast
    from le[OF this] j show False
      by (simp add: swept_cells_def p cells_swept_size[OF assms] split: if_splits)
  qed
qed

text \<open>the sweep is idempotent: a second sweep under the same policy frees nothing and leaves
  the cache as it is.\<close>

theorem policy_sweep_idempotent:
  assumes "kv_wf kv" "vitriol_policy_sweep kv = (n, kv')"
  shows "vitriol_policy_sweep kv' = (0, kv')"
proof (cases "kv_floor_sc kv > 0")
  case False
  then show ?thesis using assms(2) by (auto simp: vitriol_policy_sweep_def)
next
  case True
  let ?fl = "kv_floor_sc kv" and ?pr = "kv_protect kv"
  have r: "only_evicts n kv kv'"
    "\<And>t. t < kv_n_stream kv \<Longrightarrow> kv_cells kv' t = cells_swept ?fl ?pr (kv_cells kv t)"
    using policy_sweep_eq[OF assms(1) True] assms(2) by (metis prod.inject)+
  note rs = only_evicts_simps[OF r(1)]
  obtain m kv'' where r': "vitriol_policy_sweep kv' = (m, kv'')" "only_evicts m kv' kv''"
    "m = (\<Sum>t < kv_n_stream kv. card (swept_cells ?fl ?pr (kv_cells kv' t)))"
    "\<And>t. t < kv_n_stream kv \<Longrightarrow> kv_cells kv'' t = cells_swept ?fl ?pr (kv_cells kv' t)"
    using policy_sweep_eq[OF rs(1)] True rs by metis
  have e: "swept_cells ?fl ?pr (kv_cells kv' t) = {}" if "t < kv_n_stream kv" for t
    using swept_again[OF kv_wf_cells[OF assms(1) that]] r(2)[OF that] by simp
  have "m = 0" using r'(3) e by simp
  moreover have "kv_v_cells kv'' = kv_v_cells kv'"
    using r'(4) e kv_wf_lens(1)[OF rs(1)] kv_wf_lens(1)[OF only_evicts_simps(1)[OF r'(2)]]
      only_evicts_simps(2)[OF r'(2)] rs(2)
    by (intro nth_equalityI) (auto simp: cells_swept_def)
  ultimately have "kv'' = kv'" using r'(2) unfolding only_evicts_def by simp
  with r'(1) \<open>m = 0\<close> show ?thesis by simp
qed

section \<open>Demand-driven eviction\<close>

text \<open>
  What \<open>std::sort\<close> with the comparison of \<open>evict_sparse\<close> promises: a permutation, ascending in
  the score. Equal scores may come in any order.
\<close>

locale score_sort =
  fixes srt :: "(float32 \<times> nat) list \<Rightarrow> (float32 \<times> nat) list"
  assumes srt_mset: "mset (srt xs) = mset xs"
    and srt_sorted: "sorted (map fst (srt xs))"
begin

lemma srt_length [simp]: "length (srt xs) = length xs"
  using srt_mset by (metis mset_eq_length)

lemma srt_set [simp]: "set (srt xs) = set xs"
  using srt_mset by (metis set_mset_mset)

text \<open>The first \<open>n\<close> of the sorted candidates are a set of lowest scores.\<close>

lemma srt_prefix:
  assumes "distinct (map snd xs)" "n \<le> length xs"
  defines "V \<equiv> set (map snd (take n (srt xs)))"
  shows "card V = n" "V \<subseteq> snd ` set xs" "distinct (map snd (take n (srt xs)))"
    and "\<And>a i b j. (a, i) \<in> set xs \<Longrightarrow> (b, j) \<in> set xs \<Longrightarrow> i \<in> V \<Longrightarrow> j \<notin> V \<Longrightarrow> a \<le> b"
proof -
  have "mset (map snd (srt xs)) = mset (map snd xs)" by (simp add: srt_mset mset_map)
  then have d: "distinct (map snd (srt xs))" using assms(1) by (metis mset_eq_imp_distinct_iff)
  then show d': "distinct (map snd (take n (srt xs)))" by (metis distinct_take take_map)
  show "card V = n" using distinct_card[OF d'] assms(2) by (simp add: V_def)
  show "V \<subseteq> snd ` set xs" using set_take_subset[of n "srt xs"] by (auto simp: V_def)
  fix a i b j assume ab: "(a, i) \<in> set xs" "(b, j) \<in> set xs" "i \<in> V" "j \<notin> V"
  have inj: "inj_on snd (set (srt xs))" using d by (simp add: distinct_map)
  have "(a, i) \<in> set (take n (srt xs))"
    using ab(1,3) inj set_take_subset[of n "srt xs"] unfolding V_def
    by (auto simp: inj_on_def) (metis snd_conv srt_set subsetD prod.inject)
  moreover have "(b, j) \<in> set (drop n (srt xs))"
    using ab(2,4) append_take_drop_id[of n "srt xs"]
    by (metis (no_types, lifting) Un_iff V_def image_eqI list.set_map set_append snd_conv srt_set)
  moreover have "sorted (map fst (take n (srt xs)) @ map fst (drop n (srt xs)))"
    using srt_sorted by (metis append_take_drop_id map_append)
  ultimately show "a \<le> b" by (force simp: sorted_append)
qed

end

interpretation stable: score_sort "sort_key fst"
  by unfold_locales simp_all

lemma evict_loop_eq:
  "evict_loop n xs e c = (e + min (n - e) (length xs), fold cells_rm (map snd (take (n - e) xs)) c)"
  by (induction n xs e c rule: evict_loop.induct) (auto simp: take_Cons' Suc_diff_Suc)

text \<open>The cells eviction may free, and how many it wants.\<close>

definition evictable :: "nat \<Rightarrow> nat \<Rightarrow> llama_kv_cells \<Rightarrow> nat set" where
  "evictable n_needed n_sinks c =
     {i. n_sinks \<le> i \<and> i < cells_size c \<and> c_pos c ! i \<noteq> -1 \<and>
         c_pos c ! i \<le> stream_pos_max c - to_i32 (n_needed * 2)}"

definition n_evict :: "nat \<Rightarrow> llama_kv_cells \<Rightarrow> nat" where
  "n_evict n_needed c = u32_sub (cells_get_used c + n_needed) (cells_size c)"

text \<open>
  The specification of one stream's eviction: nothing when the stream is empty or has too few
  evictable cells; otherwise a set of \<open>n_evict\<close> evictable cells of lowest score is freed.
\<close>

definition evict_spec :: "nat \<Rightarrow> nat \<Rightarrow> llama_kv_cells \<Rightarrow> llama_kv_cells \<Rightarrow> nat \<Rightarrow> bool" where
  "evict_spec n_needed n_sinks c c' n \<longleftrightarrow>
     (if cells_get_used c = 0 \<or> card (evictable n_needed n_sinks c) < n_evict n_needed c
      then c' = c \<and> n = 0
      else n = n_evict n_needed c \<and>
        (\<exists>V. V \<subseteq> evictable n_needed n_sinks c \<and> card V = n \<and> c' = clear_cells V c \<and>
           (\<forall>i \<in> V. \<forall>j \<in> evictable n_needed n_sinks c - V. c_score c ! i \<le> c_score c ! j)))"

lemma candidates_eq:
  fixes n_sinks n_needed :: nat and c :: llama_kv_cells
  defines "xs \<equiv> evict_candidates n_sinks (stream_pos_max c - to_i32 (n_needed * 2)) c"
  shows "snd ` set xs = evictable n_needed n_sinks c" "distinct (map snd xs)"
    "(a, i) \<in> set xs \<longleftrightarrow> i \<in> evictable n_needed n_sinks c \<and> a = c_score c ! i"
    "length xs = card (evictable n_needed n_sinks c)"
proof -
  have m: "map snd xs = filter (\<lambda>i. \<not> cells_is_empty i c \<and>
      \<not> cells_pos_get i c > stream_pos_max c - to_i32 (n_needed * 2)) [n_sinks..<cells_size c]"
    by (simp add: xs_def evict_candidates_def comp_def)
  then show s: "snd ` set xs = evictable n_needed n_sinks c"
    unfolding list.set_map[symmetric] m
    by (auto simp: evictable_def cells_is_empty_def cells_pos_get_def)
  show d: "distinct (map snd xs)" unfolding m by simp
  show "(a, i) \<in> set xs \<longleftrightarrow> i \<in> evictable n_needed n_sinks c \<and> a = c_score c ! i"
    by (auto simp: xs_def evict_candidates_def evictable_def cells_is_empty_def cells_pos_get_def cells_score_get_def)
  show "length xs = card (evictable n_needed n_sinks c)"
    using distinct_card[OF d] s by simp
qed

lemma evictable_sub: "cells_wf c \<Longrightarrow> evictable n k c \<subseteq> c_used c"
  by (auto simp: evictable_def cells_wf_used)

lemma evict_spec_wf:
  assumes "cells_wf c" "evict_spec n_needed n_sinks c c' n"
  shows "cells_wf c'" "cells_size c' = cells_size c" "cells_get_used c' + n = cells_get_used c"
proof -
  have "c' = c \<and> n = 0 \<or> (\<exists>V. V \<subseteq> c_used c \<and> card V = n \<and> c' = clear_cells V c)"
    using assms(2) evictable_sub[OF assms(1), of n_needed n_sinks] unfolding evict_spec_def
    by (meson subset_trans)
  then show "cells_wf c'" "cells_size c' = cells_size c" "cells_get_used c' + n = cells_get_used c"
    using assms(1) used_sub[OF assms(1)] clear_cells_used(2)[OF assms(1)]
    by (auto simp: clear_cells_wf clear_cells_size)
qed

context score_sort
begin

lemma evict_stream_spec:
  assumes "kv_wf kv" "s < kv_n_stream kv" "evict_stream srt n_needed n_sinks s (tot, kv) = (tot', kv')"
  shows "\<exists>n c'. evict_spec n_needed n_sinks (kv_cells kv s) c' n \<and> tot' = tot + n \<and>
    kv' = (kv_set_cells s c' kv)\<lparr>kv_evicted_total := kv_evicted_total kv + n\<rparr>"
proof -
  let ?c = "kv_cells kv s" and ?E = "evictable n_needed n_sinks (kv_cells kv s)"
  have wf: "cells_wf ?c" using assms by (simp add: kv_wf_cells)
  have none: "stream_pos_max ?c = INT32_MIN \<longleftrightarrow> cells_get_used ?c = 0"
    using stream_pos_max_none[OF wf] wf by (simp add: cells_get_used_def)
  define xs where "xs = evict_candidates n_sinks (stream_pos_max ?c - to_i32 (n_needed * 2)) ?c"
  note cs = candidates_eq[where n_sinks = n_sinks and c = ?c and n_needed = n_needed, folded xs_def]
  show ?thesis
  proof (cases "cells_get_used ?c = 0 \<or> card ?E < n_evict n_needed ?c")
    case True
    then have "(tot', kv') = (tot, kv)"
      using assms(3) none cs(4) by (auto simp: evict_stream_def Let_def n_evict_def xs_def)
    then show ?thesis
      using True by (intro exI[of _ 0] exI[of _ ?c]) (simp add: evict_spec_def kv_set_cells_def)
  next
    case False
    let ?n = "n_evict n_needed ?c" and ?vs = "map snd (take (n_evict n_needed ?c) (srt xs))"
    have le: "?n \<le> length xs" using False cs(4) by simp
    note pre = srt_prefix[OF cs(2) le]
    have "\<forall>i \<in> set ?vs. i < cells_size ?c" using pre(2) cs(1) by (auto simp: evictable_def)
    then have "fold cells_rm ?vs ?c = clear_cells (set ?vs) ?c" by (intro rm_cells_clear[OF wf]) auto
    then have eq: "(tot', kv') = (tot + ?n, (kv_set_cells s (clear_cells (set ?vs) ?c) kv)
        \<lparr>kv_evicted_total := kv_evicted_total kv + ?n\<rparr>)"
      using assms(3) False none le cs(4)
      by (simp add: evict_stream_def Let_def evict_loop_eq xs_def[symmetric] n_evict_def[symmetric] kv_set_cells_def)
    have "c_score ?c ! i \<le> c_score ?c ! j" if "i \<in> set ?vs" "j \<in> ?E - set ?vs" for i j
      using pre(4)[of "c_score ?c ! i" i "c_score ?c ! j" j] cs(3) that pre(2) cs(1) by auto
    then have "evict_spec n_needed n_sinks ?c (clear_cells (set ?vs) ?c) ?n"
      unfolding evict_spec_def using False pre(1,2) cs(1) by (auto intro!: exI[of _ "set ?vs"])
    then show ?thesis using eq by (auto intro!: exI[of _ ?n])
  qed
qed

lemma evict_fold:
  fixes n_needed n_sinks :: nat
  assumes "kv_wf kv" "m \<le> kv_n_stream kv"
  defines "r \<equiv> fold (evict_stream srt n_needed n_sinks) [0..<m] (0, kv)"
  shows "only_evicts (fst r) kv (snd r) \<and> (\<forall>t \<ge> m. kv_cells (snd r) t = kv_cells kv t) \<and>
    (\<exists>ns. fst r = (\<Sum>t < m. ns t) \<and>
       (\<forall>t < m. evict_spec n_needed n_sinks (kv_cells kv t) (kv_cells (snd r) t) (ns t)))"
  using assms(2) unfolding r_def
proof (induction m)
  case 0
  then show ?case using assms(1) by (simp add: only_evicts_refl)
next
  case (Suc m)
  define q where "q = fold (evict_stream srt n_needed n_sinks) [0..<m] (0, kv)"
  obtain ns where q: "only_evicts (fst q) kv (snd q)" "\<And>t. m \<le> t \<Longrightarrow> kv_cells (snd q) t = kv_cells kv t"
      "fst q = (\<Sum>t < m. ns t)"
      "\<And>t. t < m \<Longrightarrow> evict_spec n_needed n_sinks (kv_cells kv t) (kv_cells (snd q) t) (ns t)"
    using Suc.IH Suc.prems unfolding q_def by auto
  note qs = only_evicts_simps[OF q(1)]
  have m: "m < kv_n_stream (snd q)" using Suc.prems qs(2) by simp
  obtain n c' where n: "evict_spec n_needed n_sinks (kv_cells kv m) c' n"
      "fst (evict_stream srt n_needed n_sinks m q) = fst q + n"
      "snd (evict_stream srt n_needed n_sinks m q) =
         (kv_set_cells m c' (snd q))\<lparr>kv_evicted_total := kv_evicted_total (snd q) + n\<rparr>"
    using evict_stream_spec[OF qs(1) m, of n_needed n_sinks "fst q"] q(2)[of m]
    by (metis fst_conv order_refl prod.collapse snd_conv)
  let ?kv = "(kv_set_cells m c' (snd q))\<lparr>kv_evicted_total := kv_evicted_total (snd q) + n\<rparr>"
  have wf: "cells_wf (kv_cells kv m)" using kv_wf_cells[OF qs(1) m] q(2)[of m] by simp
  have ev: "only_evicts n (snd q) ?kv"
    by (rule only_evicts_set[OF qs(1) m]) (use evict_spec_wf[OF wf n(1)] q(2)[of m] in simp_all)
  have k: "kv_cells ?kv t = (if t = m then c' else kv_cells (snd q) t)" for t
    using m kv_wf_lens(1)[OF qs(1)] by simp
  have st: "fold (evict_stream srt n_needed n_sinks) [0..<Suc m] (0, kv) = (fst q + n, ?kv)"
    using n(2,3) by (simp add: q_def[symmetric] prod_eq_iff)
  show ?case
    unfolding st fst_conv snd_conv
    using only_evicts_trans[OF q(1) ev] q(2-4) n(1) k
    by (auto simp: less_Suc_eq intro!: exI[of _ "ns(m := n)"])
qed

lemma evict_sparse_spec:
  assumes "kv_wf kv"
  obtains n kv' ns where "evict_sparse srt n_needed n_sinks kv = (n, kv')" "only_evicts n kv kv'"
    "n = (\<Sum>t < kv_n_stream kv. ns t)"
    "\<And>t. t < kv_n_stream kv \<Longrightarrow> evict_spec n_needed n_sinks (kv_cells kv t) (kv_cells kv' t) (ns t)"
  using evict_fold[OF assms order_refl, of n_needed n_sinks, folded evict_sparse_def]
  by (metis prod.collapse that)

end

text \<open>C5: \<open>evict_sparse\<close> meets its specification in every stream, for every sorting function that
  orders by score: it frees exactly the cells needed, all of them evictable (no sink, not in the
  recent window), none with a higher score than an evictable cell it keeps, or nothing at all.\<close>

theorem evict_sparse_lowest_scores:
  assumes "score_sort srt" "kv_wf kv"
  shows "\<exists>n kv' ns. evict_sparse srt n_needed n_sinks kv = (n, kv') \<and> only_evicts n kv kv' \<and>
    n = (\<Sum>t < kv_n_stream kv. ns t) \<and>
    (\<forall>t < kv_n_stream kv. evict_spec n_needed n_sinks (kv_cells kv t) (kv_cells kv' t) (ns t))"
  using score_sort.evict_sparse_spec[OF assms] by metis

text \<open>When the stream is too full for \<open>n_needed\<close> tokens and has enough evictable cells,
  eviction leaves exactly \<open>n_needed\<close> cells free.\<close>

theorem evict_sparse_makes_room:
  assumes "score_sort srt" "kv_wf kv" "st < kv_n_stream kv"
  defines "c \<equiv> kv_cells kv st"
  assumes "0 < cells_get_used c" "cells_size c \<le> cells_get_used c + n_needed" "cells_get_used c + n_needed < 2 ^ 32"
    and "cells_get_used c + n_needed - cells_size c \<le> card (evictable n_needed n_sinks c)"
  shows "cells_get_used (kv_cells (snd (evict_sparse srt n_needed n_sinks kv)) st) + n_needed = cells_size c"
proof -
  obtain n kv' ns where r: "evict_sparse srt n_needed n_sinks kv = (n, kv')"
    "evict_spec n_needed n_sinks c (kv_cells kv' st) (ns st)"
    using score_sort.evict_sparse_spec[OF assms(1,2), of n_needed n_sinks] assms(3)
    by (metis assms(4))
  have wf: "cells_wf c" using assms(2,3) by (simp add: c_def kv_wf_cells)
  have "n_evict n_needed c = cells_get_used c + n_needed - cells_size c"
    using assms(6,7) by (simp add: n_evict_def u32_sub_exact)
  then have "ns st = cells_get_used c + n_needed - cells_size c"
    using r(2) assms(5,8) by (simp add: evict_spec_def)
  then show ?thesis using evict_spec_wf(3)[OF wf r(2)] assms(5,6) r(1) by simp
qed

text \<open>When the stream already has room, the unsigned difference \<open>used + n_needed - size\<close> wraps
  around to more cells than a stream can hold, and eviction refuses: the stream is unchanged.\<close>

theorem evict_sparse_wraps_to_refusal:
  assumes "score_sort srt" "kv_wf kv" "st < kv_n_stream kv"
  defines "c \<equiv> kv_cells kv st"
  assumes "cells_get_used c + n_needed < cells_size c" "cells_size c < 2 ^ 31"
  shows "kv_cells (snd (evict_sparse srt n_needed n_sinks kv)) st = c"
proof -
  obtain n kv' ns where r: "evict_sparse srt n_needed n_sinks kv = (n, kv')"
    "evict_spec n_needed n_sinks c (kv_cells kv' st) (ns st)"
    using score_sort.evict_sparse_spec[OF assms(1,2), of n_needed n_sinks] assms(3)
    by (metis assms(4))
  have "card (evictable n_needed n_sinks c) \<le> card {..<cells_size c}"
    by (intro card_mono) (auto simp: evictable_def)
  moreover have "n_evict n_needed c = 2 ^ 32 - (cells_size c - (cells_get_used c + n_needed))"
    unfolding n_evict_def using assms(5,6) by (intro u32_sub_wrap) auto
  ultimately have "card (evictable n_needed n_sinks c) < n_evict n_needed c" using assms(6) by simp
  then show ?thesis using r by (simp add: evict_spec_def)
qed

section \<open>Probe scores\<close>

lemma apply_scores_fold:
  fixes fmadd :: "float32 \<Rightarrow> float32 \<Rightarrow> float32 \<Rightarrow> float32" and dec :: float32 and scores :: "float32 list"
  assumes "cells_wf c" "m \<le> cells_size c"
  defines "r \<equiv> fold (apply_score fmadd dec scores) [0..<m] c"
  shows "cells_wf r \<and> cells_size r = cells_size c \<and> c_has_shift r = c_has_shift c \<and>
    (\<forall>j. cell_at r j = (if j < m \<and> c_pos c ! j \<noteq> -1
       then (cell_at c j)\<lparr>k_score := fmadd dec (c_score c ! j) (scores ! j)\<rparr> else cell_at c j))"
  using assms(2) unfolding r_def
proof (induction m)
  case (Suc m)
  define q where "q = fold (apply_score fmadd dec scores) [0..<m] c"
  have q: "cells_wf q" "cells_size q = cells_size c" "c_has_shift q = c_has_shift c"
    "\<And>j. cell_at q j = (if j < m \<and> c_pos c ! j \<noteq> -1
       then (cell_at c j)\<lparr>k_score := fmadd dec (c_score c ! j) (scores ! j)\<rparr> else cell_at c j)"
    using Suc unfolding q_def by simp_all
  have k: "c_pos q ! m = c_pos c ! m" "c_score q ! m = c_score c ! m"
    using arg_cong[OF q(4)[of m], of k_pos] arg_cong[OF q(4)[of m], of k_score] by simp_all
  have st: "fold (apply_score fmadd dec scores) [0..<Suc m] c =
      (if c_pos c ! m = -1 then q else cells_score_set m (fmadd dec (c_score c ! m) (scores ! m)) q)"
    using k by (simp add: q_def[symmetric]) (simp add: apply_score_def cells_is_empty_def cells_score_get_def)
  show ?case
    unfolding st using Suc.prems q by (auto simp: score_set_wf score_set_cell less_Suc_eq)
qed (use assms(1) in simp)

definition cells_scored :: "(float32 \<Rightarrow> float32 \<Rightarrow> float32 \<Rightarrow> float32) \<Rightarrow> float32 \<Rightarrow> float32 list \<Rightarrow>
    llama_kv_cells \<Rightarrow> llama_kv_cells" where
  "cells_scored fmadd dec scores c =
     c\<lparr>c_score := map (\<lambda>j. if j < length scores \<and> c_pos c ! j \<noteq> -1
                           then fmadd dec (c_score c ! j) (scores ! j) else c_score c ! j) [0..<cells_size c]\<rparr>"

lemma cells_scored:
  assumes "cells_wf c"
  shows cells_scored_wf: "cells_wf (cells_scored fmadd dec scores c)"
    and cells_scored_size: "cells_size (cells_scored fmadd dec scores c) = cells_size c"
    and cells_scored_eq: "fold (apply_score fmadd dec scores) [0..<min (length scores) (cells_size c)] c =
          cells_scored fmadd dec scores c"
proof -
  show wf: "cells_wf (cells_scored fmadd dec scores c)"
    using assms by (simp add: cells_wf_alt cells_len_def cells_scored_def cell_ok_def)
  show n: "cells_size (cells_scored fmadd dec scores c) = cells_size c"
    by (simp add: cells_scored_def)
  show "fold (apply_score fmadd dec scores) [0..<min (length scores) (cells_size c)] c =
          cells_scored fmadd dec scores c"
    by (rule cells_eqI)
       (use apply_scores_fold[OF assms, of "min (length scores) (cells_size c)" fmadd dec scores] wf
        in \<open>auto simp: cells_scored_def cell_at_def\<close>)
qed

text \<open>Finishing a pending probe decays and adds the scores of the resident cells of its
  stream, consumes the probe, and, when a floor is set, frees exactly the cells that the eager
  sweep finds below it under the new scores.\<close>

theorem probe_finish_scores:
  fixes fmadd :: "float32 \<Rightarrow> float32 \<Rightarrow> float32 \<Rightarrow> float32" and dec :: float32 and scores :: "float32 list"
  assumes "kv_wf kv" "kv_probe_pending kv" "kv_probe_out kv = Some scores" "kv_probe_strm kv < kv_n_stream kv"
  defines "st \<equiv> kv_probe_strm kv"
  defines "c \<equiv> cells_scored fmadd dec scores (kv_cells kv st)"
  shows "let kv' = vitriol_probe_finish fmadd dec kv in
    kv_wf kv' \<and> \<not> kv_probe_pending kv' \<and> kv_probe_out kv' = None \<and>
    (\<forall>t. t \<noteq> st \<longrightarrow> kv_cells kv' t = kv_cells kv t) \<and>
    kv_cells kv' st = (if 0 < kv_floor_sc kv then cells_swept (kv_floor_sc kv) (kv_protect kv) c else c) \<and>
    kv_evicted_total kv' = kv_evicted_total kv +
      (if 0 < kv_floor_sc kv then card (swept_cells (kv_floor_sc kv) (kv_protect kv) c) else 0)"
proof -
  have wf: "cells_wf (kv_cells kv st)" and l: "st < length (kv_v_cells kv)"
    using assms(1,4) by (simp_all add: st_def kv_wf_cells kv_wf_lens)
  define kv1 where "kv1 = (kv_set_cells st c kv)\<lparr>kv_probe_pending := False, kv_probe_out := None\<rparr>"
  have "kv_wf (kv_set_cells st c kv)"
    using assms(1,4) kv_wf_size[OF assms(1,4)]
    by (intro kv_wf_set_cells) (simp_all add: st_def c_def cells_scored_wf[OF wf[unfolded st_def]] cells_scored_size[OF wf[unfolded st_def]])
  then have w1: "kv_wf kv1" by (simp add: kv1_def)
  have s1: "st < kv_n_stream kv1" "kv_cells kv1 st = c"
    using assms(4) l by (simp_all add: kv1_def st_def)
  have e: "vitriol_probe_finish fmadd dec kv = (if 0 < kv_floor_sc kv
      then snd (vitriol_sweep_stream st (kv_floor_sc kv) (kv_protect kv) kv1) else kv1)"
    using assms(2,3) cells_scored_eq[OF wf, of fmadd dec scores]
    by (simp add: vitriol_probe_finish_def Let_def kv1_def st_def[symmetric] c_def[symmetric] kv_set_cells_def)
  have c: "cells_wf c" using kv_wf_cells[OF w1 s1(1)] s1(2) by simp
  have "kv_wf (snd (vitriol_sweep_stream st (kv_floor_sc kv) (kv_protect kv) kv1))"
    unfolding sweep_stream_eq[OF w1 s1(1)] s1(2) snd_conv kv_wf_evicted
    by (rule kv_wf_set_cells[OF w1 s1(1) cells_swept_wf[OF c]])
       (use cells_swept_size[OF c] kv_wf_size[OF w1 s1(1)] s1(2) in simp)
  then show ?thesis
    using w1 l unfolding e Let_def sweep_stream_eq[OF w1 s1(1)] s1(2)
    by (simp add: kv1_def kv_set_cells_def)
qed

section \<open>The properties on concrete caches\<close>

lemma kv_full_pos_max: "stream_pos_max (cells_filled 8 8) = 7"
proof -
  have ne: "{..<8::nat} \<noteq> {}" by (metis empty_iff lessThan_iff zero_less_numeral)
  have "alive_pos (cells_filled 8 8) = int ` {..<8}"
    using cells_full by (force simp: alive_pos_def)
  also have "Max \<dots> = int (Max {..<8::nat})" by (rule mono_Max_commute[symmetric]) (use ne in \<open>auto simp: mono_def\<close>)
  also have "Max {..<8::nat} = 7" by (intro Max_eqI) auto
  finally have "Max (alive_pos (cells_filled 8 8)) = 7" by simp
  then show ?thesis using stream_pos_max_eq[OF cells_full(1)] cells_full(5) ne by simp
qed

lemma kv_full_evictable: "evictable 1 4 (cells_filled 8 8) = {4, 5}"
proof -
  have "i \<in> evictable 1 4 (cells_filled 8 8) \<longleftrightarrow> 4 \<le> i \<and> i \<le> 5" for i
    using cells_full(3)[of i] by (auto simp: evictable_def kv_full_pos_max cells_full(2) to_i32_def)
  moreover have "{i. 4 \<le> i \<and> i \<le> 5} = {4, 5 :: nat}" by auto
  ultimately show ?thesis by blast
qed

lemma kv_full_used: "cells_get_used (cells_filled 8 8) = 8"
  by (simp add: cells_get_used_def cells_full(5))

theorem policy_sweep_exact_witness:
  "\<exists>n kv'. vitriol_policy_sweep kv_full = (n, kv') \<and> (0, 7, 7) \<notin> kv_view kv' 0 \<and>
     ((0, 3, 3) \<in> kv_view kv' 0 \<longleftrightarrow> (0, 3, 3) \<in> kv_view kv_full 0)"
proof -
  obtain n kv' where r: "vitriol_policy_sweep kv_full = (n, kv')" and
    v: "\<forall>st < kv_n_stream kv_full. \<forall>s p i. (s, p, i) \<in> kv_view kv' st \<longleftrightarrow> (s, p, i) \<in> kv_view kv_full st \<and>
       \<not> (4 \<le> i \<and> p \<le> stream_pos_max (kv_cells kv_full st) - kv_protect kv_full \<and>
          c_score (kv_cells kv_full st) ! i < kv_floor_sc kv_full)"
    using policy_sweep_exact[of kv_full] by auto
  show ?thesis using r v by (auto simp: kv_full_pos_max cells_full)
qed

theorem policy_sweep_idempotent_witness:
  "vitriol_policy_sweep (snd (vitriol_policy_sweep kv_full)) = (0, snd (vitriol_policy_sweep kv_full))"
  by (rule policy_sweep_idempotent[of kv_full "fst (vitriol_policy_sweep kv_full)"]) simp_all

theorem evict_sparse_lowest_scores_witness:
  "\<exists>n kv' ns. evict_sparse (sort_key fst) 1 4 kv_full = (n, kv') \<and> only_evicts n kv_full kv' \<and>
     n = (\<Sum>t < kv_n_stream kv_full. ns t) \<and>
     (\<forall>t < kv_n_stream kv_full. evict_spec 1 4 (kv_cells kv_full t) (kv_cells kv' t) (ns t))"
  by (rule evict_sparse_lowest_scores) (simp_all add: stable.score_sort_axioms)

theorem evict_sparse_makes_room_witness:
  "cells_get_used (kv_cells (snd (evict_sparse (sort_key fst) 1 4 kv_full)) 0) + 1 = 8"
  using evict_sparse_makes_room[of "sort_key fst" kv_full 0 1 4] stable.score_sort_axioms
  by (simp add: kv_full_used cells_full(2) kv_full_evictable[unfolded One_nat_def])

theorem evict_sparse_wraps_to_refusal_witness:
  "kv_cells (snd (evict_sparse (sort_key fst) 1 0 kv_one_stream)) 0 = cells_two"
  using evict_sparse_wraps_to_refusal[of "sort_key fst" kv_one_stream 0 1 0] stable.score_sort_axioms
  by (simp add: cells_get_used_def cells_two_fields cells_two_wf)

theorem probe_finish_scores_witness:
  "let kv = vitriol_probe_mark_output [2, 0] 1 kv_full;
       kv' = vitriol_probe_finish (\<lambda>d a b. d * a + b) 1 kv in
    \<not> kv_probe_pending kv' \<and>
    kv_cells kv' 0 = cells_swept 1 0 (cells_scored (\<lambda>d a b. d * a + b) 1 [2, 0] (cells_filled 8 8))"
  using probe_finish_scores[of "vitriol_probe_mark_output [2, 0] 1 kv_full" "[2, 0]" "\<lambda>d a b. d * a + b" 1]
  by (simp add: Let_def vitriol_probe_mark_output_def)

end
