(* ===== verification/KvSlot.thy ===== *)
theory KvSlot
  imports KvEvict
begin

text \<open>
  Placing tokens, \<open>engine/src/llama-kv-cache.cpp\<close>: the search for free cells (\<open>find_slot\<close>, with
  the sliding-window test \<open>is_masked_swa\<close> of \<open>llama-hparams.h\<close>), writing a ubatch into the cells it
  found (\<open>apply_ubatch\<close>), the dry run over all ubatches of a batch (\<open>prepare\<close>) and \<open>get_n_kv\<close>.
  The search loop is a partial function; the lemmas show that it always returns and that its
  result is the first \<open>n_tokens\<close> usable cells in the order the scan visits them.
\<close>

section \<open>Data\<close>

text \<open>The fields of \<open>llama_ubatch\<close> the cache reads; \<open>ub_token\<close> is \<open>None\<close> for the null pointer.\<close>

record llama_ubatch =
  ub_n_tokens :: nat
  ub_n_seqs_unq :: nat
  ub_n_pos :: nat
  ub_token :: "llama_token list option"
  ub_pos :: "llama_pos list"
  ub_n_seq_id :: "nat list"
  ub_seq_id :: "llama_seq_id list list"
  ub_seq_id_unq :: "llama_seq_id list"

definition is_pos_2d :: "llama_ubatch \<Rightarrow> bool" where
  "is_pos_2d ub \<longleftrightarrow> ub_n_pos ub \<ge> 3"

record slot_info =
  si_s0 :: nat
  si_s1 :: nat
  si_strm :: "nat list"
  si_idxs :: "nat list list"

definition si_none :: slot_info where
  "si_none = \<lparr>si_s0 = 0, si_s1 = 0, si_strm = [], si_idxs = []\<rparr>"

definition si_head :: "slot_info \<Rightarrow> err + nat" where
  "si_head si = (if length (si_idxs si) \<noteq> 1 \<or> si_idxs si ! 0 = [] then Inl Assert_failed
                 else Inr (si_idxs si ! 0 ! 0))"

definition si_size :: "slot_info \<Rightarrow> err + nat" where
  "si_size si = (if length (si_idxs si) \<noteq> length (si_strm si) \<or> si_idxs si = [] then Inl Assert_failed
                 else Inr (length (si_idxs si ! 0)))"

definition si_n_stream :: "slot_info \<Rightarrow> nat" where
  "si_n_stream si = length (si_strm si)"

definition si_empty :: "slot_info \<Rightarrow> bool" where
  "si_empty si \<longleftrightarrow> si_idxs si = []"

definition si_is_contiguous :: "slot_info \<Rightarrow> bool" where
  "si_is_contiguous si =
     (if si_idxs si = [] \<or> si_idxs si ! 0 = [] then True
      else if length (si_idxs si) > 1 then False
      else (let h = si_idxs si ! 0 ! 0
            in list_all (\<lambda>i. si_idxs si ! 0 ! i = h + i) [0..<length (si_idxs si ! 0)]))"

section \<open>The sliding-window test\<close>

text \<open>Positions are non-negative here, where C++ division rounds down.\<close>

fun is_masked_swa :: "nat \<Rightarrow> llama_swa_type \<Rightarrow> llama_pos \<Rightarrow> llama_pos \<Rightarrow> bool" where
  "is_masked_swa n_swa SWA_NONE p0 p1 = False"
| "is_masked_swa n_swa SWA_STANDARD p0 p1 = (p1 - p0 \<ge> int n_swa)"
| "is_masked_swa n_swa SWA_CHUNKED p0 p1 =
     (let pos_chunk_start = (p1 div int n_swa) * int n_swa in p0 < pos_chunk_start)"
| "is_masked_swa n_swa SWA_SYMMETRIC p0 p1 =
     (let half_n_swa = int n_swa div 2; pos_diff = p1 - p0
      in pos_diff < - half_n_swa \<or> pos_diff > half_n_swa)"

section \<open>Searching for free cells\<close>

definition cell_can_use :: "nat \<Rightarrow> llama_swa_type \<Rightarrow> llama_kv_cells \<Rightarrow> nat \<Rightarrow> bool" where
  "cell_can_use n_swa swa_type c idx \<longleftrightarrow>
     cells_is_empty idx c \<or>
     cells_seq_count idx c = 1 \<and>
       is_masked_swa n_swa swa_type (cells_pos_get idx c)
         (cells_seq_pos_max (nat (cells_seq_get idx c)) c + 1)"

text \<open>The inner loop: test up to \<open>n_test\<close> cells from the head, stopping at the first unusable one
  when the slot has to be contiguous.\<close>

fun test_cells :: "(nat \<Rightarrow> bool) \<Rightarrow> bool \<Rightarrow> nat \<Rightarrow> nat \<Rightarrow> nat \<Rightarrow> nat list \<Rightarrow> nat \<times> nat \<times> nat list" where
  "test_cells can_use cont 0 head_cur n_tested idxs = (head_cur, n_tested, idxs)"
| "test_cells can_use cont (Suc n) head_cur n_tested idxs =
     (if can_use head_cur then test_cells can_use cont n (head_cur + 1) (n_tested + 1) (idxs @ [head_cur])
      else if cont then (head_cur + 1, n_tested + 1, idxs)
      else test_cells can_use cont n (head_cur + 1) (n_tested + 1) idxs)"

text \<open>The outer loop. Not returning is \<open>None\<close>; \<open>Some None\<close> is the failed search.\<close>

partial_function (option) search_slot ::
  "(nat \<Rightarrow> bool) \<Rightarrow> bool \<Rightarrow> nat \<Rightarrow> nat \<Rightarrow> nat \<Rightarrow> nat \<Rightarrow> nat \<Rightarrow> nat list \<Rightarrow> nat list option option" where
  "search_slot can_use cont n_cells n_tokens n_test head_cur n_tested idxs =
     (if head_cur + n_test > n_cells then
        search_slot can_use cont n_cells n_tokens n_test 0 (n_tested + u32_sub n_cells head_cur) idxs
      else
        let (head_cur, n_tested, idxs) = test_cells can_use cont n_test head_cur n_tested idxs in
        if length idxs = n_tokens then Some (Some idxs)
        else
          let idxs = (if cont then [] else idxs) in
          if n_tested \<ge> n_cells then Some None
          else search_slot can_use cont n_cells n_tokens n_test head_cur n_tested idxs)"

declare search_slot.simps [code]

definition start_head :: "llama_kv_cells \<Rightarrow> nat \<Rightarrow> nat \<Rightarrow> nat" where
  "start_head c n_tokens head_cur = (if head_cur > cells_get_used c + 2 * n_tokens then 0 else head_cur)"

definition find_slot_stream :: "bool \<Rightarrow> nat \<Rightarrow> nat \<Rightarrow> llama_kv_cache \<Rightarrow> nat list option option" where
  "find_slot_stream cont n_tokens st kv =
     (let c = kv_cells kv st; head_cur = start_head c n_tokens (kv_head kv st) in
      if n_tokens > cells_size c then Some None
      else search_slot (cell_can_use (kv_n_swa kv) (kv_swa_type kv) c) cont (cells_size c) n_tokens
             (if cont then n_tokens else 1) head_cur 0 [])"

text \<open>The loop over the sequences of the ubatch; any failed search gives the empty slot.\<close>

fun find_slot_seqs :: "bool \<Rightarrow> nat \<Rightarrow> llama_ubatch \<Rightarrow> llama_kv_cache \<Rightarrow> nat list \<Rightarrow> slot_info \<Rightarrow>
    (err + slot_info) option" where
  "find_slot_seqs cont n_tokens ub kv [] res = Some (Inr res)"
| "find_slot_seqs cont n_tokens ub kv (s # ss) res =
     (let seq_id = ub_seq_id_unq ub ! s; st = kv_seq_to_stream kv ! nat seq_id in
      if kv_n_stream kv > 1 \<and>
           \<not> (ub_n_seq_id ub ! (s * n_tokens) = 1 \<and> ub_seq_id ub ! (s * n_tokens) ! 0 = seq_id)
      then Some (Inl Assert_failed)
      else
        case find_slot_stream cont n_tokens st kv of
          None \<Rightarrow> None
        | Some None \<Rightarrow> Some (Inr si_none)
        | Some (Some idxs) \<Rightarrow>
            if length idxs < n_tokens then Some (Inr si_none)
            else find_slot_seqs cont n_tokens ub kv ss
                   (res\<lparr>si_s0 := min (si_s0 res) st, si_s1 := max (si_s1 res) st,
                        si_strm := (si_strm res)[s := st], si_idxs := (si_idxs res)[s := idxs]\<rparr>))"

definition find_slot :: "bool \<Rightarrow> llama_ubatch \<Rightarrow> llama_kv_cache \<Rightarrow> (err + slot_info) option" where
  "find_slot cont ub kv =
     (if kv_n_stream kv > 1 \<and> ub_n_tokens ub mod ub_n_seqs_unq ub \<noteq> 0 then Some (Inl Assert_failed)
      else
        let n_seqs = (if kv_n_stream kv > 1 then ub_n_seqs_unq ub else 1);
            n_tokens = (if kv_n_stream kv > 1 then ub_n_tokens ub div n_seqs else ub_n_tokens ub)
        in find_slot_seqs cont n_tokens ub kv [0..<n_seqs]
             \<lparr>si_s0 = LLAMA_MAX_SEQ, si_s1 = 0, si_strm = replicate n_seqs 0, si_idxs = replicate n_seqs []\<rparr>)"

section \<open>Writing a ubatch into its cells\<close>

definition token_ext :: "llama_kv_cache \<Rightarrow> llama_ubatch \<Rightarrow> nat \<Rightarrow> llama_kv_cell_ext" where
  "token_ext kv ub i =
     (let ext = ext_default;
          ext = (if is_pos_2d ub
                 then ext\<lparr>ext_x := ub_pos ub ! (i + ub_n_tokens ub * 2), ext_y := ub_pos ub ! (i + ub_n_tokens ub)\<rparr>
                 else ext)
      in case ub_token ub of
           Some tok \<Rightarrow> ext\<lparr>ext_tok := tok ! i\<rparr>
         | None \<Rightarrow>
             if kv_ple_n_heads kv > 0 then
               ext\<lparr>ext_tok := (if kv_ple_image_token_id kv \<noteq> 0 then to_i32 (kv_ple_image_token_id kv)
                              else to_i32 (kv_ple_eos_token_id kv))\<rparr>
             else ext)"

definition place_token :: "llama_kv_cache \<Rightarrow> llama_ubatch \<Rightarrow> nat \<Rightarrow> nat \<Rightarrow> llama_kv_cells \<Rightarrow> llama_kv_cells" where
  "place_token kv ub i idx c =
     (let c = cells_pos_set idx (ub_pos ub ! i) c;
          c = (if is_pos_2d ub \<or> ub_token ub \<noteq> None \<or> kv_ple_n_heads kv > 0
               then cells_ext_set idx (token_ext kv ub i) c else c)
      in fold (\<lambda>j. cells_seq_add idx (nat (ub_seq_id ub ! i ! j))) [0..<ub_n_seq_id ub ! i] c)"

text \<open>One token: an occupied cell is freed first, and the position it held is remembered.\<close>

definition apply_token :: "slot_info \<Rightarrow> llama_ubatch \<Rightarrow> nat \<Rightarrow> nat \<Rightarrow> nat \<Rightarrow>
    (nat \<Rightarrow> int) \<times> llama_kv_cache \<Rightarrow> (nat \<Rightarrow> int) \<times> llama_kv_cache" where
  "apply_token sinfo ub n s ii = (\<lambda>(seq_pos_max_rm, kv).
     let i = s * n + ii; st = si_strm sinfo ! s; c = kv_cells kv st; idx = si_idxs sinfo ! s ! ii;
         (seq_pos_max_rm, c) =
           (if \<not> cells_is_empty idx c then
              let seq_id = nat (cells_seq_get idx c); pos = cells_pos_get idx c
              in (seq_pos_max_rm(seq_id := max (seq_pos_max_rm seq_id) pos), cells_rm idx c)
            else (seq_pos_max_rm, c))
     in (seq_pos_max_rm, kv_set_cells st (place_token kv ub i idx c) kv))"

definition apply_tokens :: "slot_info \<Rightarrow> llama_ubatch \<Rightarrow> nat \<Rightarrow>
    (nat \<Rightarrow> int) \<times> llama_kv_cache \<Rightarrow> (nat \<Rightarrow> int) \<times> llama_kv_cache" where
  "apply_tokens sinfo ub n =
     fold (\<lambda>s. fold (apply_token sinfo ub n s) [0..<n]) [0..<si_n_stream sinfo]"

text \<open>The loop that purges the positions below an overwritten one.\<close>

fun purge_seqs :: "(nat \<Rightarrow> int) \<Rightarrow> nat list \<Rightarrow> llama_kv_cache \<Rightarrow> err + llama_kv_cache" where
  "purge_seqs rm [] kv = Inr kv"
| "purge_seqs rm (s # ss) kv =
     (if rm s = -1 then purge_seqs rm ss kv
      else if \<not> s < length (kv_seq_to_stream kv) then Inl Assert_failed
      else
        let c = kv_cells kv (kv_seq_to_stream kv ! s) in
        if cells_seq_pos_min s c \<le> rm s then
          (case kv_seq_rm (int s) (cells_seq_pos_min s c) (rm s + 1) kv of
             Inl e \<Rightarrow> Inl e
           | Inr (_, kv) \<Rightarrow> purge_seqs rm ss kv)
        else purge_seqs rm ss kv)"

definition move_heads :: "slot_info \<Rightarrow> llama_kv_cache \<Rightarrow> llama_kv_cache" where
  "move_heads sinfo kv =
     fold (\<lambda>s kv. kv_set_head (si_strm sinfo ! s) (last (si_idxs sinfo ! s) + 1) kv)
       [0..<si_n_stream sinfo] kv"

definition apply_ubatch :: "slot_info \<Rightarrow> llama_ubatch \<Rightarrow> llama_kv_cache \<Rightarrow> err + llama_kv_cache" where
  "apply_ubatch sinfo ub kv =
     (if kv_other kv \<noteq> None then Inr kv
      else if si_n_stream sinfo = 0 then Inr kv
      else case si_size sinfo of
        Inl e \<Rightarrow> Inl e
      | Inr n \<Rightarrow>
          let (seq_pos_max_rm, kv) = apply_tokens sinfo ub n (\<lambda>_. -1, kv) in
          (case purge_seqs seq_pos_max_rm [0..<LLAMA_MAX_SEQ] kv of
             Inl e \<Rightarrow> Inl e
           | Inr kv \<Rightarrow> Inr (move_heads sinfo kv)))"

section \<open>The dry run over a batch\<close>

record prep_state =
  ps_sinfo :: slot_info
  ps_v_heads_old :: "nat list"
  ps_v_cells :: "llama_kv_cells list"

text \<open>Finding a slot, with one attempt at sparse eviction when \<open>VITRIOL_KV_MODE\<close> is \<open>sparse\<close>.\<close>

definition find_slot_evict :: "((float32 \<times> nat) list \<Rightarrow> (float32 \<times> nat) list) \<Rightarrow> bool \<Rightarrow> llama_ubatch \<Rightarrow>
    llama_kv_cache \<Rightarrow> (err + slot_info \<times> llama_kv_cache) option" where
  "find_slot_evict srt sparse ub kv =
     (case find_slot False ub kv of
        None \<Rightarrow> None
      | Some (Inl e) \<Rightarrow> Some (Inl e)
      | Some (Inr sinfo) \<Rightarrow>
          if si_empty sinfo \<and> sparse then
            let (n_evicted, kv') = evict_sparse srt (ub_n_tokens ub) 4 kv in
            if n_evicted > 0 then
              (case find_slot False ub kv' of
                 None \<Rightarrow> None
               | Some (Inl e) \<Rightarrow> Some (Inl e)
               | Some (Inr sinfo) \<Rightarrow> Some (Inr (sinfo, kv')))
            else Some (Inr (sinfo, kv'))
          else Some (Inr (sinfo, kv)))"

text \<open>The forward loop of \<open>prepare\<close>: the slots in order, the recovery stack (last placed first)
  and whether every ubatch fitted.\<close>

fun prepare_place :: "((float32 \<times> nat) list \<Rightarrow> (float32 \<times> nat) list) \<Rightarrow> bool \<Rightarrow> llama_ubatch list \<Rightarrow>
    slot_info list \<Rightarrow> prep_state list \<Rightarrow> llama_kv_cache \<Rightarrow>
    (err + bool \<times> slot_info list \<times> prep_state list \<times> llama_kv_cache) option" where
  "prepare_place srt sparse [] res states kv = Some (Inr (True, res, states, kv))"
| "prepare_place srt sparse (ub # ubs) res states kv =
     (case find_slot_evict srt sparse ub kv of
        None \<Rightarrow> None
      | Some (Inl e) \<Rightarrow> Some (Inl e)
      | Some (Inr (sinfo, kv)) \<Rightarrow>
          if si_empty sinfo then Some (Inr (False, res, states, kv))
          else
            let state = \<lparr>ps_sinfo = sinfo, ps_v_heads_old = kv_v_heads kv,
                  ps_v_cells = map (\<lambda>s. cells_cp (si_idxs sinfo ! s) (kv_cells kv (si_strm sinfo ! s)))
                                 [0..<si_n_stream sinfo]\<rparr>
            in case apply_ubatch sinfo ub kv of
                 Inl e \<Rightarrow> Some (Inl e)
               | Inr kv \<Rightarrow> prepare_place srt sparse ubs (res @ [sinfo]) (state # states) kv)"

definition restore_stream :: "prep_state \<Rightarrow> nat \<Rightarrow> llama_kv_cache \<Rightarrow> llama_kv_cache" where
  "restore_stream state s kv =
     (let sinfo = ps_sinfo state; st = si_strm sinfo ! s
      in kv_set_head st (ps_v_heads_old state ! s)
           (kv_set_cells st (cells_set (si_idxs sinfo ! s) (ps_v_cells state ! s) (kv_cells kv st)) kv))"

definition restore_state :: "prep_state \<Rightarrow> llama_kv_cache \<Rightarrow> llama_kv_cache" where
  "restore_state state kv = fold (restore_stream state) [0..<si_n_stream (ps_sinfo state)] kv"

definition prepare :: "((float32 \<times> nat) list \<Rightarrow> (float32 \<times> nat) list) \<Rightarrow> bool \<Rightarrow> llama_ubatch list \<Rightarrow>
    llama_kv_cache \<Rightarrow> (err + slot_info list \<times> llama_kv_cache) option" where
  "prepare srt sparse ubatches kv =
     (case prepare_place srt sparse ubatches [] [] kv of
        None \<Rightarrow> None
      | Some (Inl e) \<Rightarrow> Some (Inl e)
      | Some (Inr (success, res, states, kv)) \<Rightarrow>
          if states = [] \<and> success then Some (Inl Assert_failed)
          else
            let kv = fold restore_state states kv
            in Some (Inr (if success then res else [], kv)))"

section \<open>The width of the attention window\<close>

definition ggml_pad :: "nat \<Rightarrow> nat \<Rightarrow> nat" where
  "ggml_pad x n = unat ((of_nat x + of_nat n - 1 :: 32 word) AND NOT (of_nat n - 1))"

definition get_n_kv :: "slot_info \<Rightarrow> llama_kv_cache \<Rightarrow> nat" where
  "get_n_kv sinfo kv =
     (let n_pad_cur = max (kv_n_pad kv) 256
      in fold (\<lambda>s result.
            let c = kv_cells kv (si_strm sinfo ! s)
            in max (min (cells_size c) (max n_pad_cur (ggml_pad (cells_used_max_p1 c) n_pad_cur))) result)
          [0..<si_n_stream sinfo] 0)"

section \<open>The scan\<close>

text \<open>The order in which a search that starts at \<open>h\<close> visits \<open>n\<close> cells.\<close>

definition scan_order :: "nat \<Rightarrow> nat \<Rightarrow> nat list" where
  "scan_order h n = [h..<n] @ [0..<h]"

lemma scan_order_length: "h \<le> n \<Longrightarrow> length (scan_order h n) = n"
  by (simp add: scan_order_def)

lemma scan_order_set: "h \<le> n \<Longrightarrow> set (scan_order h n) = {..<n}"
  by (auto simp: scan_order_def)

lemma scan_order_distinct: "distinct (scan_order h n)"
  by (auto simp: scan_order_def)

lemma scan_order_nth: "h \<le> n \<Longrightarrow> t < n \<Longrightarrow> scan_order h n ! t = (if h + t < n then h + t else h + t - n)"
  by (auto simp: scan_order_def nth_append)

subsection \<open>Token by token\<close>

lemma search_wrap: "0 < n \<Longrightarrow> search_slot can False n k 1 n t xs = search_slot can False n k 1 0 t xs"
  by (subst search_slot.simps) (simp add: u32_sub_def)

lemma search_test:
  assumes "h < n"
  shows "search_slot can False n k 1 h t xs =
    (let ys = (if can h then xs @ [h] else xs) in
     if length ys = k then Some (Some ys) else if t + 1 \<ge> n then Some None
     else search_slot can False n k 1 (h + 1) (t + 1) ys)"
  using assms by (subst search_slot.simps) (simp add: Let_def)

lemma search_scan:
  assumes "h \<le> n" "t < n" "xs = filter can (take t (scan_order h n))" "length xs < k"
    and "hc = (if h + t \<le> n then h + t else h + t - n)"
  shows "search_slot can False n k 1 hc t xs =
    Some (let us = filter can (scan_order h n) in if k \<le> length us then Some (take k us) else None)"
  using assms(2-)
proof (induction "n - t" arbitrary: t xs hc rule: less_induct)
  case less
  let ?us = "filter can (scan_order h n)"
  define g where "g = scan_order h n ! t"
  have g: "g < n" "g = (if h + t < n then h + t else h + t - n)"
    using less.prems(1) assms(1) by (auto simp: g_def scan_order_nth)
  have split: "scan_order h n = take t (scan_order h n) @ g # drop (Suc t) (scan_order h n)"
    using less.prems(1) assms(1) by (simp add: g_def scan_order_length id_take_nth_drop)
  define ys where "ys = (if can g then xs @ [g] else xs)"
  have ys: "ys = filter can (take (Suc t) (scan_order h n))"
    using less.prems(1,2) assms(1) by (simp add: ys_def take_Suc_conv_app_nth scan_order_length g_def)
  have us: "?us = ys @ filter can (drop (Suc t) (scan_order h n))"
    unfolding ys by (metis append_take_drop_id filter_append)
  have eq: "search_slot can False n k 1 hc t xs = search_slot can False n k 1 g t xs"
    using less.prems(1,4) g search_wrap[of n can k t xs] by (cases "h + t = n") auto
  have step: "search_slot can False n k 1 hc t xs =
    (if length ys = k then Some (Some ys) else if t + 1 \<ge> n then Some None
     else search_slot can False n k 1 (g + 1) (t + 1) ys)"
    unfolding eq search_test[OF g(1)] by (simp add: ys_def Let_def)
  show ?case
  proof (cases "length ys = k \<or> t + 1 \<ge> n")
    case True
    then show ?thesis
      using step us less.prems(1,3) assms(1) by (auto simp: ys_def scan_order_length Let_def split: if_splits)
  next
    case False
    have "length ys < k" using False less.prems(3) by (auto simp: ys_def split: if_splits)
    moreover have "g + 1 = (if h + (t + 1) \<le> n then h + (t + 1) else h + (t + 1) - n)"
      using g by auto
    ultimately show ?thesis
      using step False less.hyps[of "t + 1" ys "g + 1"] ys by simp
  qed
qed

lemma search_noncont:
  assumes "h \<le> n" "0 < n" "0 < k"
  shows "search_slot can False n k 1 h 0 [] =
    Some (let us = filter can (scan_order h n) in if k \<le> length us then Some (take k us) else None)"
  using assms by (intro search_scan) auto

subsection \<open>Contiguous slots\<close>

definition is_run :: "(nat \<Rightarrow> bool) \<Rightarrow> nat \<Rightarrow> nat \<Rightarrow> nat \<Rightarrow> bool" where
  "is_run can n k p \<longleftrightarrow> p + k \<le> n \<and> (\<forall>j < k. can (p + j))"

lemma test_run_ok:
  "\<forall>j < m. can (h + j) \<Longrightarrow> test_cells can True m h t xs = (h + m, t + m, xs @ [h..<h + m])"
proof (induction m arbitrary: h t xs)
  case (Suc m)
  have "can h" "\<forall>j < m. can (h + 1 + j)" using Suc.prems[rule_format, of 0] Suc.prems[rule_format, of "Suc j" for j] by auto
  then show ?case using Suc.IH[of "h + 1"] by (simp add: upt_rec)
qed simp

lemma test_run_bad:
  "q < m \<Longrightarrow> \<not> can (h + q) \<Longrightarrow> \<forall>j < q. can (h + j) \<Longrightarrow>
   test_cells can True m h t xs = (h + q + 1, t + q + 1, xs @ [h..<h + q])"
proof (induction m arbitrary: q h t xs)
  case (Suc m)
  show ?case
  proof (cases q)
    case 0
    then show ?thesis using Suc.prems by simp
  next
    case (Suc r)
    have "can h" "\<forall>j < r. can (h + 1 + j)"
      using Suc.prems(3)[rule_format, of 0] Suc.prems(3)[rule_format, of "Suc j" for j] Suc by auto
    then show ?thesis using Suc.IH[of r "h + 1"] Suc.prems Suc by (simp add: upt_rec)
  qed
qed simp

lemma cont_step:
  assumes "h + k \<le> n" "0 < k"
  shows "is_run can n k h \<and> search_slot can True n k k h t [] = Some (Some [h..<h + k]) \<or>
    (\<exists>q < k. (\<forall>p \<ge> h. p \<le> h + q \<longrightarrow> \<not> is_run can n k p) \<and>
       search_slot can True n k k h t [] =
         (if t + q + 1 \<ge> n then Some None else search_slot can True n k k (h + q + 1) (t + q + 1) []))"
proof (cases "\<forall>j < k. can (h + j)")
  case True
  then show ?thesis
    using assms test_run_ok[OF True, of t "[]"] by (subst (1 3) search_slot.simps) (simp add: is_run_def)
next
  case False
  define q where "q = (LEAST j. \<not> can (h + j))"
  have q: "\<not> can (h + q)" "\<forall>j < q. can (h + j)" "q < k"
    using False LeastI_ex[of "\<lambda>j. \<not> can (h + j)"] not_less_Least[of _ "\<lambda>j. \<not> can (h + j)"]
      Least_le[of "\<lambda>j. \<not> can (h + j)"] by (auto simp: q_def) (meson le_less_trans)
  have "\<not> is_run can n k p" if "h \<le> p" "p \<le> h + q" for p
  proof
    assume "is_run can n k p"
    then have "can (p + (h + q - p))" using that q(3) unfolding is_run_def by (auto dest!: spec[of _ "h + q - p"])
    then show False using q(1) that by simp
  qed
  moreover have "search_slot can True n k k h t [] =
      (if t + q + 1 \<ge> n then Some None else search_slot can True n k k (h + q + 1) (t + q + 1) [])"
    using assms test_run_bad[OF q(3,1,2), of t "[]"] q(3) by (subst search_slot.simps) (simp add: Let_def)
  ultimately show ?thesis using q(3) by blast
qed

lemma cont_wrap:
  "n < h + k \<Longrightarrow> h \<le> n \<Longrightarrow> n < 2 ^ 32 \<Longrightarrow> search_slot can True n k k h t [] = search_slot can True n k k 0 (t + (n - h)) []"
  by (subst search_slot.simps) (simp add: u32_sub_exact)

lemma cont_found:
  assumes "is_run can n k p" "0 < k"
    and "h \<le> p" "\<forall>r \<ge> h. r < p \<longrightarrow> \<not> is_run can n k r" "t + (p - h) < n"
  shows "search_slot can True n k k h t [] = Some (Some [p..<p + k])"
  using assms(3-)
proof (induction "p - h" arbitrary: h t rule: less_induct)
  case less
  have hk: "h + k \<le> n" using assms(1) less.prems(1) by (simp add: is_run_def)
  show ?case
  proof (cases "h = p")
    case True
    then show ?thesis using cont_step[OF hk assms(2), of can t] assms(1) by auto
  next
    case False
    then have "\<not> is_run can n k h" using less.prems by auto
    then obtain q where q: "q < k" "\<forall>r \<ge> h. r \<le> h + q \<longrightarrow> \<not> is_run can n k r"
        "search_slot can True n k k h t [] =
           (if t + q + 1 \<ge> n then Some None else search_slot can True n k k (h + q + 1) (t + q + 1) [])"
      using cont_step[OF hk assms(2), of can t] by blast
    have "h + q < p" using q(2) assms(1) less.prems(1) by (meson not_le)
    then show ?thesis
      using q(3) less.hyps[of "h + q + 1" "t + q + 1"] less.prems by auto
  qed
qed

lemma cont_pass:
  assumes "k \<le> n" "0 < k" "n < 2 ^ 32"
    and "h \<le> n" "\<forall>r \<ge> h. \<not> is_run can n k r" "t < h"
  shows "search_slot can True n k k h t [] = search_slot can True n k k 0 (t + (n - h)) []"
  using assms(4-)
proof (induction "n - h" arbitrary: h t rule: less_induct)
  case less
  show ?case
  proof (cases "h + k \<le> n")
    case False
    then show ?thesis using cont_wrap[of n h k can t] less.prems(1) assms(3) by simp
  next
    case True
    then obtain q where q: "q < k" "search_slot can True n k k h t [] =
           (if t + q + 1 \<ge> n then Some None else search_slot can True n k k (h + q + 1) (t + q + 1) [])"
      using cont_step[OF True assms(2), of can t] less.prems(2) by auto
    have le: "h + q + 1 \<le> n" and e: "t + q + 1 + (n - (h + q + 1)) = t + (n - h)"
      using True q(1) by simp_all
    show ?thesis
      using q(2) less.hyps[of "h + q + 1" "t + q + 1", unfolded e] less.prems le by simp
  qed
qed

lemma cont_none:
  assumes "k \<le> n" "0 < k" "n < 2 ^ 32" "h \<le> n" and none: "\<forall>r. \<not> is_run can n k r"
  shows "search_slot can True n k k h t [] = Some None"
proof -
  have test: "search_slot can True n k k h t [] = Some None" if "h + k \<le> n" "\<And>h' t'. h' \<le> n \<Longrightarrow> t < t' \<Longrightarrow> t' < n \<Longrightarrow>
      search_slot can True n k k h' t' [] = Some None" for h t
    using cont_step[OF that(1) assms(2), of can t] none that by auto
  show ?thesis using assms(4)
  proof (induction "n - t" arbitrary: h t rule: less_induct)
    case less
    show ?case
    proof (cases "h + k \<le> n")
      case True
      then show ?thesis by (rule test) (rule less.hyps; simp)
    next
      case False
      have "0 + k \<le> n" using assms(1) by simp
      then have "search_slot can True n k k 0 (t + (n - h)) [] = Some None"
        by (rule test) (rule less.hyps; simp)
      then show ?thesis using cont_wrap[of n h k can t] False less.prems assms(3) by simp
    qed
  qed
qed

lemma find_scan_Some:
  assumes "h \<le> n" "find P (scan_order h n) = Some p"
  shows "P p" "p < n" "h \<le> p \<Longrightarrow> \<forall>r \<ge> h. r < p \<longrightarrow> \<not> P r"
    and "p < h \<Longrightarrow> (\<forall>r \<ge> h. r < n \<longrightarrow> \<not> P r) \<and> (\<forall>r < p. \<not> P r)"
proof -
  obtain t where t: "t < n" "P p" "p = scan_order h n ! t" "\<And>j. j < t \<Longrightarrow> \<not> P (scan_order h n ! j)"
    using assms(2) by (auto simp: find_Some_iff scan_order_length[OF assms(1)])
  have p: "p = (if h + t < n then h + t else h + t - n)" using t(1,3) assms(1) by (simp add: scan_order_nth)
  show "P p" "p < n" using t(1,2) p assms(1) by auto
  have nth: "scan_order h n ! j = (if h + j < n then h + j else h + j - n)" if "j < t" for j
    using that t(1) assms(1) by (simp add: scan_order_nth)
  show "\<forall>r \<ge> h. r < p \<longrightarrow> \<not> P r" if "h \<le> p"
  proof (intro allI impI)
    fix r assume "h \<le> r" "r < p"
    then have "r - h < t" "h + (r - h) < n" using p \<open>p < n\<close> that by (auto split: if_splits)
    then show "\<not> P r" using t(4)[of "r - h"] nth[of "r - h"] \<open>h \<le> r\<close> by auto
  qed
  show "(\<forall>r \<ge> h. r < n \<longrightarrow> \<not> P r) \<and> (\<forall>r < p. \<not> P r)" if "p < h"
  proof (intro conjI allI impI)
    fix r assume "h \<le> r" "r < n"
    then have "r - h < t" using p that assms(1) by (auto split: if_splits)
    then show "\<not> P r" using t(4)[of "r - h"] nth[of "r - h"] \<open>h \<le> r\<close> \<open>r < n\<close> by auto
  next
    fix r assume "r < p"
    then have "r + n - h < t" "\<not> h + (r + n - h) < n" "h + (r + n - h) - n = r" using p that assms(1) by (auto split: if_splits)
    then show "\<not> P r" using t(4)[of "r + n - h"] nth[of "r + n - h"] by auto
  qed
qed

lemma search_cont:
  assumes "h \<le> n" "k \<le> n" "0 < k" "n < 2 ^ 32"
  shows "search_slot can True n k k h 0 [] =
    Some (map_option (\<lambda>p. [p..<p + k]) (find (is_run can n k) (scan_order h n)))"
proof (cases "find (is_run can n k) (scan_order h n)")
  case None
  have "\<not> is_run can n k r" for r
  proof (cases "r < n")
    case True
    then show ?thesis using None scan_order_set[OF assms(1)] by (auto simp: find_None_iff)
  qed (use assms(3) in \<open>simp add: is_run_def\<close>)
  then show ?thesis using cont_none[OF assms(2-4,1)] None by simp
next
  case (Some p)
  note f = find_scan_Some[OF assms(1) Some]
  show ?thesis
  proof (cases "h \<le> p")
    case True
    then show ?thesis using cont_found[OF f(1) assms(3) True f(3)[OF True], of 0] f(2) Some by simp
  next
    case False
    then have "\<forall>r \<ge> h. \<not> is_run can n k r"
      using f(4) assms(3) by (metis add_leD1 is_run_def le_neq_implies_less less_add_same_cancel1 not_less)
    then have "search_slot can True n k k h 0 [] = search_slot can True n k k 0 (n - h) []"
      using cont_pass[OF assms(2,3,4,1), of can 0] False by simp
    also have "\<dots> = Some (Some [p..<p + k])"
      by (rule cont_found[OF f(1) assms(3)]) (use f(4) False assms(1) in auto)
    finally show ?thesis using Some by simp
  qed
qed

section \<open>\<open>find_slot\<close>\<close>

abbreviation usable :: "llama_kv_cache \<Rightarrow> nat \<Rightarrow> nat \<Rightarrow> bool" where
  "usable kv st \<equiv> cell_can_use (kv_n_swa kv) (kv_swa_type kv) (kv_cells kv st)"

definition scan_from :: "nat \<Rightarrow> nat \<Rightarrow> llama_kv_cache \<Rightarrow> nat list" where
  "scan_from n_tokens st kv =
     scan_order (start_head (kv_cells kv st) n_tokens (kv_head kv st)) (kv_get_size kv)"

text \<open>The usable cells of a stream in the order the search visits them.\<close>

definition free_cells :: "nat \<Rightarrow> nat \<Rightarrow> llama_kv_cache \<Rightarrow> nat list" where
  "free_cells n_tokens st kv = filter (usable kv st) (scan_from n_tokens st kv)"

lemma start_head_le: "h \<le> n \<Longrightarrow> start_head c k h \<le> n"
  by (simp add: start_head_def)

lemma free_cells_set:
  assumes "kv_wf kv" "st < kv_n_stream kv"
  shows "set (free_cells k st kv) = {i. i < kv_get_size kv \<and> usable kv st i}"
    "distinct (free_cells k st kv)"
  using start_head_le[OF kv_wf_head[OF assms], of "kv_cells kv st" k]
  by (auto simp: free_cells_def scan_from_def scan_order_set scan_order_distinct)

lemma free_cells_length_le:
  assumes "kv_wf kv" "st < kv_n_stream kv"
  shows "length (free_cells k st kv) \<le> kv_get_size kv"
proof -
  have "card (set (free_cells k st kv)) \<le> card {..<kv_get_size kv}"
    using free_cells_set(1)[OF assms] by (intro card_mono) auto
  then show ?thesis using distinct_card[OF free_cells_set(2)[OF assms, of k]] by simp
qed

lemma find_slot_stream_noncont:
  assumes "kv_wf kv" "st < kv_n_stream kv" "0 < k"
  shows "find_slot_stream False k st kv =
    Some (if k \<le> length (free_cells k st kv) then Some (take k (free_cells k st kv)) else None)"
proof -
  have n: "cells_size (kv_cells kv st) = kv_get_size kv" using kv_wf_size[OF assms(1,2)] .
  note h = start_head_le[OF kv_wf_head[OF assms(1,2)], of "kv_cells kv st" k]
  show ?thesis
    using free_cells_length_le[OF assms(1,2), of k] assms(3)
      search_noncont[OF h, of k "usable kv st"]
    by (auto simp: find_slot_stream_def n Let_def free_cells_def scan_from_def)
qed

lemma find_slot_stream_cont:
  assumes "kv_wf kv" "st < kv_n_stream kv" "0 < k" "kv_get_size kv < 2 ^ 32"
  shows "find_slot_stream True k st kv =
    Some (map_option (\<lambda>p. [p..<p + k]) (find (is_run (usable kv st) (kv_get_size kv) k) (scan_from k st kv)))"
proof (cases "k \<le> kv_get_size kv")
  have n: "cells_size (kv_cells kv st) = kv_get_size kv" using kv_wf_size[OF assms(1,2)] .
  note h = start_head_le[OF kv_wf_head[OF assms(1,2)], of "kv_cells kv st" k]
  case True
  then show ?thesis
    using search_cont[OF h True assms(3,4)]
    by (simp add: find_slot_stream_def n Let_def scan_from_def)
next
  have n: "cells_size (kv_cells kv st) = kv_get_size kv" using kv_wf_size[OF assms(1,2)] .
  case False
  then have "find (is_run (usable kv st) (kv_get_size kv) k) (scan_from k st kv) = None"
    by (auto simp: find_None_iff is_run_def)
  then show ?thesis using False by (simp add: find_slot_stream_def n Let_def)
qed

text \<open>
  What the caller guarantees of a ubatch (\<open>llama_batch_allocr\<close> produces such ubatches): \<open>k\<close> tokens
  for each of \<open>n\<close> sequences in distinct streams, or \<open>k\<close> tokens of any sequences when there is one
  stream; valid sequence ids and non-negative positions.
\<close>

abbreviation ub_stream :: "llama_kv_cache \<Rightarrow> llama_ubatch \<Rightarrow> nat \<Rightarrow> nat" where
  "ub_stream kv ub s \<equiv> kv_seq_to_stream kv ! nat (ub_seq_id_unq ub ! s)"

definition ubatch_ok :: "llama_kv_cache \<Rightarrow> llama_ubatch \<Rightarrow> nat \<Rightarrow> nat \<Rightarrow> bool" where
  "ubatch_ok kv ub n k \<longleftrightarrow>
     0 < n \<and> 0 < k \<and> ub_n_tokens ub = n * k \<and>
     (if kv_n_stream kv > 1
      then ub_n_seqs_unq ub = n \<and>
           list_all (\<lambda>s. ub_n_seq_id ub ! (s * k) = 1 \<and> ub_seq_id ub ! (s * k) ! 0 = ub_seq_id_unq ub ! s) [0..<n]
      else n = 1) \<and>
     list_all (\<lambda>s. seq_id_ok (ub_seq_id_unq ub ! s) kv) [0..<n] \<and>
     distinct (map (ub_stream kv ub) [0..<n]) \<and>
     list_all (\<lambda>i. 0 \<le> ub_pos ub ! i \<and>
       list_all (\<lambda>j. seq_id_ok (ub_seq_id ub ! i ! j) kv) [0..<ub_n_seq_id ub ! i]) [0..<n * k]"

lemma ubatch_ok_stream:
  "kv_wf kv \<Longrightarrow> ubatch_ok kv ub n k \<Longrightarrow> s < n \<Longrightarrow> ub_stream kv ub s < kv_n_stream kv"
  by (auto simp: ubatch_ok_def seq_id_ok_def list_all_iff intro!: kv_wf_stream)

lemma list_update_prefix:
  "m < length xs \<Longrightarrow> take m xs = ys \<Longrightarrow> take (Suc m) (xs[m := y]) = ys @ [y]"
  by (simp add: take_Suc_conv_app_nth)

text \<open>The slots found for the sequences \<open>m, \<dots>, n - 1\<close>, those before being known.\<close>

lemma find_slot_seqs_eq:
  assumes "kv_wf kv" "ubatch_ok kv ub n k" "m \<le> n"
    and slot: "\<And>s. s < n \<Longrightarrow> find_slot_stream cont k (ub_stream kv ub s) kv = Some (f s)"
    and len: "\<And>s xs. s < n \<Longrightarrow> f s = Some xs \<Longrightarrow> length xs = k"
    and "length (si_strm res) = n" "length (si_idxs res) = n"
    and "take m (si_strm res) = map (ub_stream kv ub) [0..<m]"
    and "take m (si_idxs res) = map (\<lambda>s. the (f s)) [0..<m]"
  shows "\<exists>si. find_slot_seqs cont k ub kv [m..<n] res = Some (Inr si) \<and>
    (if \<exists>s. m \<le> s \<and> s < n \<and> f s = None then si = si_none
     else si_strm si = map (ub_stream kv ub) [0..<n] \<and> si_idxs si = map (\<lambda>s. the (f s)) [0..<n])"
  using assms(3,6-)
proof (induction "n - m" arbitrary: m res)
  case 0
  then show ?case by auto
next
  case (Suc d)
  have m: "m < n" "[m..<n] = m # [Suc m..<n]" using Suc.hyps(2) by (simp_all add: upt_rec)
  have guard: "\<not> (kv_n_stream kv > 1 \<and>
      \<not> (ub_n_seq_id ub ! (m * k) = 1 \<and> ub_seq_id ub ! (m * k) ! 0 = ub_seq_id_unq ub ! m))"
    using assms(2) m(1) by (auto simp: ubatch_ok_def list_all_iff split: if_splits)
  show ?case
  proof (cases "f m")
    case None
    then have "find_slot_seqs cont k ub kv [m..<n] res = Some (Inr si_none)"
      unfolding m(2) using guard slot[OF m(1)] by (simp add: Let_def)
    then show ?thesis using None m(1) by auto
  next
    case (Some xs)
    let ?st = "ub_stream kv ub m"
    let ?res = "res\<lparr>si_s0 := min (si_s0 res) ?st, si_s1 := max (si_s1 res) ?st,
        si_strm := (si_strm res)[m := ?st], si_idxs := (si_idxs res)[m := xs]\<rparr>"
    have st: "find_slot_seqs cont k ub kv [m..<n] res = find_slot_seqs cont k ub kv [Suc m..<n] ?res"
      unfolding m(2) using guard slot[OF m(1)] Some len[OF m(1) Some] by (auto simp: Let_def)
    have "d = n - Suc m" using Suc.hyps(2) by simp
    from Suc.hyps(1)[OF this, of ?res] Suc.prems Some m(1)
    have "\<exists>si. find_slot_seqs cont k ub kv [Suc m..<n] ?res = Some (Inr si) \<and>
      (if \<exists>s. Suc m \<le> s \<and> s < n \<and> f s = None then si = si_none
       else si_strm si = map (ub_stream kv ub) [0..<n] \<and> si_idxs si = map (\<lambda>s. the (f s)) [0..<n])"
      by (simp add: list_update_prefix)
    moreover have "(\<exists>s. Suc m \<le> s \<and> s < n \<and> f s = None) = (\<exists>s. m \<le> s \<and> s < n \<and> f s = None)"
      using Some by (metis Suc_leI le_SucI Suc_leD le_neq_implies_less option.distinct(1))
    ultimately show ?thesis unfolding st by simp
  qed
qed

lemma find_slot_eq:
  assumes "kv_wf kv" "ubatch_ok kv ub n k"
    and slot: "\<forall>s < n. find_slot_stream cont k (ub_stream kv ub s) kv = Some (f s)"
    and len: "\<forall>s < n. \<forall>xs. f s = Some xs \<longrightarrow> length xs = k"
  shows "\<exists>si. find_slot cont ub kv = Some (Inr si) \<and>
    (if \<exists>s < n. f s = None then si = si_none
     else si_strm si = map (ub_stream kv ub) [0..<n] \<and> si_idxs si = map (\<lambda>s. the (f s)) [0..<n])"
proof -
  let ?res = "\<lparr>si_s0 = LLAMA_MAX_SEQ, si_s1 = 0, si_strm = replicate n 0, si_idxs = replicate n []\<rparr>"
  have "find_slot cont ub kv = find_slot_seqs cont k ub kv [0..<n] ?res"
    using assms(2) by (auto simp: find_slot_def Let_def ubatch_ok_def split: if_splits)
  with find_slot_seqs_eq[OF assms(1,2) _ slot[rule_format] len[rule_format], where m = 0 and res = ?res] show ?thesis by simp
qed

lemma find_slot_noncont_eq:
  assumes "kv_wf kv" "ubatch_ok kv ub n k"
  shows "\<exists>si. find_slot False ub kv = Some (Inr si) \<and>
    (if \<exists>s < n. length (free_cells k (ub_stream kv ub s) kv) < k then si = si_none
     else si_strm si = map (ub_stream kv ub) [0..<n] \<and>
          si_idxs si = map (\<lambda>s. take k (free_cells k (ub_stream kv ub s) kv)) [0..<n])"
proof -
  let ?fc = "\<lambda>s. free_cells k (ub_stream kv ub s) kv"
  define f where "f s = (if k \<le> length (?fc s) then Some (take k (?fc s)) else None)" for s
  have k: "0 < k" using assms(2) by (simp add: ubatch_ok_def)
  have f: "\<forall>s < n. find_slot_stream False k (ub_stream kv ub s) kv = Some (f s)"
    unfolding f_def using find_slot_stream_noncont[OF assms(1) ubatch_ok_stream[OF assms] k] by blast
  have l: "\<forall>s < n. \<forall>xs. f s = Some xs \<longrightarrow> length xs = k"
    by (auto simp: f_def split: if_splits)
  have "f s = None \<longleftrightarrow> length (?fc s) < k" for s by (simp add: f_def not_le)
  then have n: "(\<exists>s < n. f s = None) \<longleftrightarrow> (\<exists>s < n. length (?fc s) < k)" by simp
  obtain si where si: "find_slot False ub kv = Some (Inr si)"
    "if \<exists>s < n. length (?fc s) < k then si = si_none
     else si_strm si = map (ub_stream kv ub) [0..<n] \<and> si_idxs si = map (\<lambda>s. the (f s)) [0..<n]"
    using find_slot_eq[OF assms f l] unfolding n by blast
  have "map (\<lambda>s. the (f s)) [0..<n] = map (\<lambda>s. take k (?fc s)) [0..<n]" if "\<not> (\<exists>s < n. length (?fc s) < k)"
    using that by (auto simp: f_def)
  then show ?thesis using si by (intro exI[of _ si]) (simp split: if_splits)
qed

text \<open>C6: \<open>find_slot\<close> for a non-contiguous slot always returns. It fails exactly when some stream has
  fewer usable cells than tokens; otherwise each stream gets the first usable cells in the order of
  the scan from its head, around the end of the cache.\<close>

theorem find_slot_first_free_cells:
  assumes "kv_wf kv" "ubatch_ok kv ub n k"
  shows "\<exists>si. find_slot False ub kv = Some (Inr si) \<and>
    (if \<exists>s < n. card {i. i < kv_get_size kv \<and> usable kv (ub_stream kv ub s) i} < k then si = si_none
     else si_strm si = map (ub_stream kv ub) [0..<n] \<and>
          si_idxs si = map (\<lambda>s. take k (free_cells k (ub_stream kv ub s) kv)) [0..<n])"
proof -
  have "length (free_cells k (ub_stream kv ub s) kv) =
      card {i. i < kv_get_size kv \<and> usable kv (ub_stream kv ub s) i}" if "s < n" for s
    using free_cells_set[OF assms(1) ubatch_ok_stream[OF assms that], of k] distinct_card by metis
  then have "(\<exists>s < n. length (free_cells k (ub_stream kv ub s) kv) < k) \<longleftrightarrow>
      (\<exists>s < n. card {i. i < kv_get_size kv \<and> usable kv (ub_stream kv ub s) i} < k)" by auto
  with find_slot_noncont_eq[OF assms] show ?thesis by simp
qed

lemma find_slot_cont_eq:
  assumes "kv_wf kv" "ubatch_ok kv ub n k" "kv_get_size kv < 2 ^ 32"
  shows "\<exists>si. find_slot True ub kv = Some (Inr si) \<and>
    (if \<exists>s < n. \<forall>p. \<not> is_run (usable kv (ub_stream kv ub s)) (kv_get_size kv) k p then si = si_none
     else si_strm si = map (ub_stream kv ub) [0..<n] \<and> length (si_idxs si) = n \<and>
          (\<forall>s < n. \<exists>p. si_idxs si ! s = [p..<p + k] \<and> is_run (usable kv (ub_stream kv ub s)) (kv_get_size kv) k p))"
proof -
  let ?R = "\<lambda>s. is_run (usable kv (ub_stream kv ub s)) (kv_get_size kv) k"
  let ?o = "\<lambda>s. scan_from k (ub_stream kv ub s) kv"
  define f where "f s = map_option (\<lambda>p. [p..<p + k]) (find (?R s) (?o s))" for s
  have k: "0 < k" using assms(2) by (simp add: ubatch_ok_def)
  have f: "\<forall>s < n. find_slot_stream True k (ub_stream kv ub s) kv = Some (f s)"
    unfolding f_def using find_slot_stream_cont[OF assms(1) ubatch_ok_stream[OF assms(1,2)] k assms(3)] by blast
  have l: "\<forall>s < n. \<forall>xs. f s = Some xs \<longrightarrow> length xs = k" by (auto simp: f_def)
  have o: "set (?o s) = {..<kv_get_size kv}" if "s < n" for s
    unfolding scan_from_def
    by (rule scan_order_set[OF start_head_le[OF kv_wf_head[OF assms(1) ubatch_ok_stream[OF assms(1,2) that]]]])
  have "f s = None \<longleftrightarrow> (\<forall>p. \<not> ?R s p)" if "s < n" for s
    using o[OF that] k by (auto simp: f_def find_None_iff is_run_def)
  then have n: "(\<exists>s < n. f s = None) \<longleftrightarrow> (\<exists>s < n. \<forall>p. \<not> ?R s p)" by auto
  have run: "\<exists>p. the (f s) = [p..<p + k] \<and> ?R s p" if some: "f s \<noteq> None" for s
  proof -
    obtain p where "find (?R s) (?o s) = Some p"
      using some by (cases "find (?R s) (?o s)") (auto simp: f_def)
    moreover from this have "?R s p" by (metis find_Some_iff)
    ultimately show ?thesis by (intro exI[of _ p]) (simp add: f_def)
  qed
  obtain si where si: "find_slot True ub kv = Some (Inr si)"
    "if \<exists>s < n. \<forall>p. \<not> ?R s p then si = si_none
     else si_strm si = map (ub_stream kv ub) [0..<n] \<and> si_idxs si = map (\<lambda>s. the (f s)) [0..<n]"
    using find_slot_eq[OF assms(1,2) f l] unfolding n by blast
  show ?thesis
  proof (cases "\<exists>s < n. \<forall>p. \<not> ?R s p")
    case True
    then show ?thesis using si by (intro exI[of _ si]) simp
  next
    case False
    from False have "\<forall>s < n. f s \<noteq> None" unfolding n[symmetric] by simp
    then show ?thesis using si run unfolding if_not_P[OF False] by (intro exI[of _ si]) simp
  qed
qed

text \<open>C24: \<open>find_slot\<close> for a contiguous slot always returns, fails exactly when some stream has no
  run of \<open>k\<close> usable cells, and otherwise returns such a run for every stream.\<close>

theorem find_slot_contiguous:
  assumes "kv_wf kv" "ubatch_ok kv ub n k" "kv_get_size kv < 2 ^ 32"
  shows "\<exists>si. find_slot True ub kv = Some (Inr si) \<and>
    (if \<exists>s < n. \<forall>p. \<not> is_run (usable kv (ub_stream kv ub s)) (kv_get_size kv) k p then si = si_none
     else si_strm si = map (ub_stream kv ub) [0..<n] \<and> length (si_idxs si) = n \<and>
          (\<forall>s < n. \<exists>p. si_idxs si ! s = [p..<p + k] \<and> is_run (usable kv (ub_stream kv ub s)) (kv_get_size kv) k p))"
  by (rule find_slot_cont_eq[OF assms])

section \<open>The properties on concrete caches\<close>

text \<open>A ubatch of one token of sequence \<open>s\<close> at position \<open>p\<close>.\<close>

definition ub_one :: "llama_seq_id \<Rightarrow> llama_pos \<Rightarrow> llama_ubatch" where
  "ub_one s p = \<lparr>ub_n_tokens = 1, ub_n_seqs_unq = 1, ub_n_pos = 1, ub_token = Some [5], ub_pos = [p],
     ub_n_seq_id = [1], ub_seq_id = [[s]], ub_seq_id_unq = [s]\<rparr>"

lemma ub_one_seq [simp]: "ub_seq_id_unq (ub_one s p) = [s]"
  by (simp add: ub_one_def)

lemma ub_one_ok:
  "ubatch_ok kv_one_stream (ub_one 0 8) 1 1" "ubatch_ok kv_full (ub_one 0 8) 1 1"
  "ubatch_ok kv_two_streams (ub_one 1 8) 1 1"
  by (simp_all add: ubatch_ok_def ub_one_def) (simp add: seq_id_ok_def)

lemma usable_one_stream: "i < 4 \<Longrightarrow> usable kv_one_stream 0 i \<longleftrightarrow> 2 \<le> i"
  by (auto simp: cell_can_use_def cells_is_empty_def cells_two_fields less_Suc_eq eval_nat_numeral)

lemma ub_one_stream: "ub_stream kv_one_stream (ub_one 0 8) 0 = 0" "ub_stream kv_two_streams (ub_one 1 8) 0 = 1"
  "ub_stream kv_full (ub_one 0 8) 0 = 0"
  by (simp_all add: ub_one_def)

theorem find_slot_first_free_cells_witness:
  "\<exists>si. find_slot False (ub_one 0 8) kv_one_stream = Some (Inr si) \<and> si_strm si = [0] \<and> si_idxs si = [[2]]"
proof -
  have "{i. i < kv_get_size kv_one_stream \<and> usable kv_one_stream 0 i} = {2, 3}"
    using usable_one_stream by (auto simp: less_Suc_eq eval_nat_numeral)
  then have "\<not> card {i. i < kv_get_size kv_one_stream \<and> usable kv_one_stream 0 i} < 1" by simp
  then have c: "\<not> (\<exists>s < 1. card {i. i < kv_get_size kv_one_stream \<and>
      usable kv_one_stream (ub_stream kv_one_stream (ub_one 0 8) s) i} < 1)"
    unfolding less_one ex_simps(1) by (simp only: ub_one_stream simp_thms)
  have "scan_order 0 4 = [0, 1, 2, 3]" by (simp add: scan_order_def eval_nat_numeral)
  then have "free_cells 1 0 kv_one_stream = filter (usable kv_one_stream 0) [0, 1, 2, 3]"
    by (simp add: free_cells_def scan_from_def start_head_def)
  also have "\<dots> = filter (\<lambda>i. 2 \<le> i) [0, 1, 2, 3]" by (rule filter_cong) (use usable_one_stream in auto)
  finally have f: "free_cells 1 0 kv_one_stream = [2, 3]" by simp
  show ?thesis
    using find_slot_first_free_cells[OF kv_one_stream_wf ub_one_ok(1)] unfolding if_not_P[OF c]
    by (simp add: ub_one_stream f[simplified])
qed

theorem find_slot_contiguous_witness:
  "\<exists>si. find_slot True (ub_one 0 8) kv_one_stream = Some (Inr si) \<and>
    (if \<exists>s < 1. \<forall>p. \<not> is_run (usable kv_one_stream (ub_stream kv_one_stream (ub_one 0 8) s)) 4 1 p then si = si_none
     else si_strm si = map (ub_stream kv_one_stream (ub_one 0 8)) [0..<1] \<and> length (si_idxs si) = 1 \<and>
          (\<forall>s < 1. \<exists>p. si_idxs si ! s = [p..<p + 1] \<and>
             is_run (usable kv_one_stream (ub_stream kv_one_stream (ub_one 0 8) s)) 4 1 p))"
  using find_slot_contiguous[OF kv_one_stream_wf ub_one_ok(1)] unfolding kv_one_stream_size by simp

end
