(* ===== verification/KvApply.thy ===== *)
theory KvApply
  imports KvSlot
begin

text \<open>
  What writing a ubatch does: every token lands in its cell with its position and sequences, the
  other cells stay as they are, and the dry run of \<open>prepare\<close> puts everything back.
\<close>

section \<open>One token\<close>

definition placed_cell :: "llama_kv_cache \<Rightarrow> llama_ubatch \<Rightarrow> nat \<Rightarrow> kv_cell \<Rightarrow> kv_cell" where
  "placed_cell kv ub i k =
     k\<lparr>k_pos := ub_pos ub ! i,
       k_ext := (if is_pos_2d ub \<or> ub_token ub \<noteq> None \<or> kv_ple_n_heads kv > 0 then token_ext kv ub i else k_ext k),
       k_seq := (\<lambda>j. nat (ub_seq_id ub ! i ! j)) ` {..<ub_n_seq_id ub ! i}\<rparr>"

definition token_ok :: "llama_ubatch \<Rightarrow> nat \<Rightarrow> bool" where
  "token_ok ub i \<longleftrightarrow> 0 \<le> ub_pos ub ! i \<and> (\<forall>j < ub_n_seq_id ub ! i. nat (ub_seq_id ub ! i ! j) < LLAMA_MAX_SEQ)"

lemma seq_add_fold:
  assumes "cells_wf c" "idx < cells_size c" "c_pos c ! idx \<noteq> -1" "\<forall>j < m. f j < LLAMA_MAX_SEQ"
  defines "r \<equiv> fold (\<lambda>j. cells_seq_add idx (f j)) [0..<m] c"
  shows "cells_wf r \<and> cells_size r = cells_size c \<and> c_has_shift r = c_has_shift c \<and>
    (\<forall>j. cell_at r j = (if j = idx then (cell_at c idx)\<lparr>k_seq := c_seq c ! idx \<union> f ` {..<m}\<rparr> else cell_at c j))"
  using assms(4) unfolding r_def
proof (induction m)
  case 0
  then show ?case using assms(1) by (simp add: cell_at_def)
next
  case (Suc m)
  define q where "q = fold (\<lambda>j. cells_seq_add idx (f j)) [0..<m] c"
  have q: "cells_wf q" "cells_size q = cells_size c" "c_has_shift q = c_has_shift c"
    "\<And>j. cell_at q j = (if j = idx then (cell_at c idx)\<lparr>k_seq := c_seq c ! idx \<union> f ` {..<m}\<rparr> else cell_at c j)"
    using Suc unfolding q_def by simp_all
  have p: "c_pos q ! idx = c_pos c ! idx" "c_seq q ! idx = c_seq c ! idx \<union> f ` {..<m}"
    using arg_cong[OF q(4)[of idx], of k_pos] arg_cong[OF q(4)[of idx], of k_seq] by simp_all
  have i: "idx < cells_size q" "f m < LLAMA_MAX_SEQ" using assms(2) q(2) Suc.prems by simp_all
  have "cells_wf (cells_seq_add idx (f m) q)" using seq_add_wf[OF q(1) i(1) _ i(2)] p(1) assms(3) by simp
  moreover have "cell_at (cells_seq_add idx (f m) q) j =
      (if j = idx then (cell_at c idx)\<lparr>k_seq := c_seq c ! idx \<union> f ` {..<Suc m}\<rparr> else cell_at c j)" for j
    using seq_add_cell[OF q(1) i(1), of "f m" j] q(4) p(2) by (simp add: lessThan_Suc)
  ultimately show ?case using q(2,3) by (simp add: q_def[symmetric])
qed

lemma place_token:
  fixes kv :: llama_kv_cache
  assumes "cells_wf c" "idx < cells_size c" "c_pos c ! idx = -1" "token_ok ub i"
  defines "r \<equiv> place_token kv ub i idx c"
  shows "cells_wf r \<and> cells_size r = cells_size c \<and> c_has_shift r = c_has_shift c \<and>
    (\<forall>j. cell_at r j = (if j = idx then placed_cell kv ub i (cell_at c idx) else cell_at c j))"
proof -
  have e: "c_seq c ! idx = {}" using cells_wf_ok[OF assms(1,2)] assms(3) by (simp add: cell_ok_def)
  define c1 where "c1 = cells_pos_set idx (ub_pos ub ! i) c"
  have w1: "cells_wf c1" "cells_size c1 = cells_size c" "c_has_shift c1 = c_has_shift c"
    "\<And>j. cell_at c1 j = (if j = idx then (cell_at c idx)\<lparr>k_pos := ub_pos ub ! i\<rparr> else cell_at c j)"
    using pos_set_wf[OF assms(1-3)] pos_set_cell[OF assms(1,2)] assms(4) by (simp_all add: c1_def token_ok_def)
  define b where "b \<longleftrightarrow> is_pos_2d ub \<or> ub_token ub \<noteq> None \<or> kv_ple_n_heads kv > 0"
  define c2 where "c2 = (if b then cells_ext_set idx (token_ext kv ub i) c1 else c1)"
  have w2: "cells_wf c2" "cells_size c2 = cells_size c" "c_has_shift c2 = c_has_shift c"
    "\<And>j. cell_at c2 j = (if j = idx then (cell_at c idx)\<lparr>k_pos := ub_pos ub ! i,
        k_ext := (if b then token_ext kv ub i else c_ext c ! idx)\<rparr> else cell_at c j)"
    using w1 assms(2) by (simp_all add: c2_def ext_set_wf ext_set_cell)
  have p: "c_pos c2 ! idx = ub_pos ub ! i" "c_seq c2 ! idx = {}"
    using arg_cong[OF w2(4)[of idx], of k_pos] arg_cong[OF w2(4)[of idx], of k_seq] e by simp_all
  have r: "r = fold (\<lambda>j. cells_seq_add idx (nat (ub_seq_id ub ! i ! j))) [0..<ub_n_seq_id ub ! i] c2"
    by (simp add: r_def place_token_def Let_def c2_def c1_def b_def)
  show ?thesis
    using seq_add_fold[OF w2(1), of idx "ub_n_seq_id ub ! i" "\<lambda>j. nat (ub_seq_id ub ! i ! j)"] w2 p assms(2,4)
    by (auto simp: r token_ok_def placed_cell_def b_def)
qed

text \<open>Freeing the target cell first when it is occupied.\<close>

definition freed_cell :: "nat \<Rightarrow> llama_kv_cells \<Rightarrow> llama_kv_cells" where
  "freed_cell idx c = (if cells_is_empty idx c then c else cells_rm idx c)"

lemma freed_cell:
  assumes "cells_wf c" "idx < cells_size c"
  shows "cells_wf (freed_cell idx c) \<and> cells_size (freed_cell idx c) = cells_size c \<and>
    c_has_shift (freed_cell idx c) = c_has_shift c \<and> c_pos (freed_cell idx c) ! idx = -1 \<and>
    (\<forall>j. j \<noteq> idx \<longrightarrow> cell_at (freed_cell idx c) j = cell_at c j)"
proof (cases "cells_is_empty idx c")
  case True
  then show ?thesis using assms by (simp add: freed_cell_def cells_is_empty_def)
next
  case False
  have "c_pos (cells_rm idx c) ! idx = -1"
    using arg_cong[OF rm_cell[OF assms, of idx], of k_pos] by (simp add: cell_cleared_def)
  then show ?thesis using False assms by (simp add: freed_cell_def rm_wf rm_cell)
qed

definition place_cells :: "llama_kv_cache \<Rightarrow> llama_ubatch \<Rightarrow> nat \<Rightarrow> nat list \<Rightarrow> llama_kv_cells \<Rightarrow> llama_kv_cells" where
  "place_cells kv ub base idxs c =
     fold (\<lambda>ii c. place_token kv ub (base + ii) (idxs ! ii) (freed_cell (idxs ! ii) c)) [0..<length idxs] c"

lemma place_cells_take:
  "m \<le> length idxs \<Longrightarrow> place_cells kv ub base (take m idxs) c =
     fold (\<lambda>ii c. place_token kv ub (base + ii) (idxs ! ii) (freed_cell (idxs ! ii) c)) [0..<m] c"
  by (auto simp: place_cells_def intro!: fold_cong)

lemma place_cells_wf:
  assumes "cells_wf c" "\<forall>i \<in> set idxs. i < cells_size c" "\<forall>ii < length idxs. token_ok ub (base + ii)"
  shows "cells_wf (place_cells kv ub base idxs c) \<and> cells_size (place_cells kv ub base idxs c) = cells_size c"
proof -
  have "cells_wf (place_cells kv ub base (take m idxs) c) \<and>
      cells_size (place_cells kv ub base (take m idxs) c) = cells_size c" if "m \<le> length idxs" for m
    using that
  proof (induction m)
    case 0
    then show ?case using assms(1) by (simp add: place_cells_def)
  next
    case (Suc m)
    define q where "q = place_cells kv ub base (take m idxs) c"
    have q: "cells_wf q" "idxs ! m < cells_size q" "cells_size q = cells_size c"
      using Suc assms(2) by (simp_all add: q_def)
    have st: "place_cells kv ub base (take (Suc m) idxs) c =
        place_token kv ub (base + m) (idxs ! m) (freed_cell (idxs ! m) q)"
      using Suc.prems by (simp add: place_cells_take q_def)
    show ?case
      using freed_cell[OF q(1,2)] place_token[of "freed_cell (idxs ! m) q" "idxs ! m" ub "base + m" kv]
        assms(3) Suc.prems q by (simp add: st)
  qed
  from this[of "length idxs"] show ?thesis by simp
qed

lemma place_cells_empty:
  fixes kv :: llama_kv_cache
  assumes "cells_wf c" "\<forall>i \<in> set idxs. i < cells_size c \<and> c_pos c ! i = -1" "distinct idxs"
    and "\<forall>ii < length idxs. token_ok ub (base + ii)"
  defines "r \<equiv> place_cells kv ub base idxs c"
  shows "c_has_shift r = c_has_shift c" "j \<notin> set idxs \<Longrightarrow> cell_at r j = cell_at c j"
    "ii < length idxs \<Longrightarrow> cell_at r (idxs ! ii) = placed_cell kv ub (base + ii) (cell_at c (idxs ! ii))"
proof -
  have main: "let q = place_cells kv ub base (take m idxs) c in c_has_shift q = c_has_shift c \<and>
      (\<forall>j. j \<notin> set (take m idxs) \<longrightarrow> cell_at q j = cell_at c j) \<and>
      (\<forall>ii < m. cell_at q (idxs ! ii) = placed_cell kv ub (base + ii) (cell_at c (idxs ! ii)))"
    if "m \<le> length idxs" for m
    using that
  proof (induction m)
    case 0
    then show ?case by (simp add: place_cells_def)
  next
    case (Suc m)
    define q where "q = place_cells kv ub base (take m idxs) c"
    have w: "cells_wf q" "cells_size q = cells_size c"
      using place_cells_wf[OF assms(1), of "take m idxs" ub base kv] assms(2,4) Suc.prems
      by (auto simp: q_def dest: in_set_takeD)
    have q: "c_has_shift q = c_has_shift c"
      "\<And>j. j \<notin> set (take m idxs) \<Longrightarrow> cell_at q j = cell_at c j"
      "\<And>ii. ii < m \<Longrightarrow> cell_at q (idxs ! ii) = placed_cell kv ub (base + ii) (cell_at c (idxs ! ii))"
      using Suc by (simp_all add: q_def Let_def)
    have new: "idxs ! m \<notin> set (take m idxs)"
      using assms(3) Suc.prems by (simp add: in_set_conv_nth nth_eq_iff_index_eq)
    have i: "idxs ! m < cells_size q" "c_pos q ! (idxs ! m) = -1"
      using arg_cong[OF q(2)[OF new], of k_pos] assms(2) Suc.prems w(2) by simp_all
    have "place_cells kv ub base (take (Suc m) idxs) c = place_token kv ub (base + m) (idxs ! m) q"
      using Suc.prems i(2) by (simp add: place_cells_take q_def freed_cell_def cells_is_empty_def)
    then show ?case
      using place_token[OF w(1) i, of ub "base + m" kv] assms(4) Suc.prems q new
      by (auto simp: Let_def take_Suc_conv_app_nth less_Suc_eq nth_eq_iff_index_eq[OF assms(3)])
  qed
  show "c_has_shift r = c_has_shift c" "j \<notin> set idxs \<Longrightarrow> cell_at r j = cell_at c j"
    "ii < length idxs \<Longrightarrow> cell_at r (idxs ! ii) = placed_cell kv ub (base + ii) (cell_at c (idxs ! ii))"
    using main[OF order_refl] by (simp_all add: r_def Let_def)
qed

section \<open>All tokens of a ubatch\<close>

lemma token_ext_cells [simp]: "token_ext (kv\<lparr>kv_v_cells := cs\<rparr>) ub i = token_ext kv ub i"
  by (cases "ub_token ub") (simp_all add: token_ext_def Let_def)

lemma place_token_cells [simp]: "place_token (kv\<lparr>kv_v_cells := cs\<rparr>) = place_token kv"
  by (intro ext) (simp add: place_token_def Let_def)

lemma place_token_set_cells [simp]: "place_token (kv_set_cells st c kv) = place_token kv"
  by (simp add: kv_set_cells_def)

lemma kv_set_cells_twice [simp]: "kv_set_cells st c (kv_set_cells st d kv) = kv_set_cells st c kv"
  by (simp add: kv_set_cells_def)

lemma apply_token_eq:
  fixes s ii :: nat and si :: slot_info
  defines "st \<equiv> si_strm si ! s" and "idx \<equiv> si_idxs si ! s ! ii"
  shows "snd (apply_token si ub n s ii (rm, kv)) =
      kv_set_cells st (place_token kv ub (s * n + ii) idx (freed_cell idx (kv_cells kv st))) kv"
    and "cells_is_empty idx (kv_cells kv st) \<Longrightarrow> fst (apply_token si ub n s ii (rm, kv)) = rm"
  by (auto simp: apply_token_def Let_def freed_cell_def st_def idx_def)

lemma apply_stream_eq:
  assumes "st < length (kv_v_cells kv)" "st = si_strm si ! s"
  shows "snd (fold (apply_token si ub n s) [0..<m] (rm, kv)) =
    kv_set_cells st (fold (\<lambda>ii c. place_token kv ub (s * n + ii) (si_idxs si ! s ! ii) (freed_cell (si_idxs si ! s ! ii) c))
      [0..<m] (kv_cells kv st)) kv"
proof (induction m)
  case 0
  then show ?case by (simp add: kv_set_cells_def)
next
  case (Suc m)
  let ?r = "fold (apply_token si ub n s) [0..<m] (rm, kv)"
  have "snd (fold (apply_token si ub n s) [0..<Suc m] (rm, kv)) = snd (apply_token si ub n s m (fst ?r, snd ?r))"
    by simp
  then show ?case
    using Suc assms by (simp only: apply_token_eq(1)) simp
qed

definition slot_ok :: "llama_kv_cache \<Rightarrow> slot_info \<Rightarrow> nat \<Rightarrow> nat \<Rightarrow> bool" where
  "slot_ok kv si n k \<longleftrightarrow> 0 < n \<and> 0 < k \<and> length (si_strm si) = n \<and> length (si_idxs si) = n \<and>
     distinct (si_strm si) \<and>
     (\<forall>s < n. si_strm si ! s < kv_n_stream kv \<and> length (si_idxs si ! s) = k \<and>
        (\<forall>i \<in> set (si_idxs si ! s). i < kv_get_size kv))"

text \<open>The cells of the slot are empty and pairwise different.\<close>

definition slot_free :: "llama_kv_cache \<Rightarrow> slot_info \<Rightarrow> bool" where
  "slot_free kv si \<longleftrightarrow> (\<forall>s < length (si_strm si). distinct (si_idxs si ! s) \<and>
     (\<forall>i \<in> set (si_idxs si ! s). c_pos (kv_cells kv (si_strm si ! s)) ! i = -1))"

text \<open>Only the cells differ.\<close>

definition only_cells :: "llama_kv_cache \<Rightarrow> llama_kv_cache \<Rightarrow> bool" where
  "only_cells kv kv' \<longleftrightarrow> kv_wf kv' \<and> kv' = kv\<lparr>kv_v_cells := kv_v_cells kv'\<rparr>"

lemma only_cells_simps:
  assumes "only_cells a b"
  shows "kv_wf b" "kv_n_stream b = kv_n_stream a" "kv_seq_to_stream b = kv_seq_to_stream a"
    "kv_v_heads b = kv_v_heads a" "kv_other b = kv_other a" "kv_n_swa b = kv_n_swa a" "kv_swa_type b = kv_swa_type a"
    "place_token b = place_token a"
proof -
  have e: "b = a\<lparr>kv_v_cells := kv_v_cells b\<rparr>" "kv_wf b" using assms unfolding only_cells_def by auto
  show "kv_wf b" by (rule e(2))
  show "kv_n_stream b = kv_n_stream a" "kv_seq_to_stream b = kv_seq_to_stream a"
    "kv_v_heads b = kv_v_heads a" "kv_other b = kv_other a" "kv_n_swa b = kv_n_swa a" "kv_swa_type b = kv_swa_type a"
    by (subst e(1), simp)+
  show "place_token b = place_token a"
    by (subst e(1)) simp
qed

lemma only_cells_trans: "only_cells a b \<Longrightarrow> only_cells b c \<Longrightarrow> only_cells a c"
  unfolding only_cells_def by (cases a; cases b; cases c) simp

lemma place_cells_cong: "place_token a = place_token b \<Longrightarrow> place_cells a = place_cells b"
  by (intro ext) (simp add: place_cells_def)

lemma kv_get_size_set_cells:
  "st < length (kv_v_cells kv) \<Longrightarrow> cells_size c = kv_get_size kv \<Longrightarrow> kv_get_size (kv_set_cells st c kv) = kv_get_size kv"
  by (cases "kv_seq_to_stream kv ! 0 = st") (simp_all add: kv_get_size_def)

lemma slot_tokens_ok: "\<forall>i < n * k. token_ok ub i \<Longrightarrow> s < n \<Longrightarrow> \<forall>ii < k. token_ok ub (s * k + ii)"
  by (simp add: flat_index)

lemma apply_tokens_cells:
  fixes rm :: "nat \<Rightarrow> int"
  assumes "kv_wf kv" "slot_ok kv si n k" "\<forall>i < n * k. token_ok ub i" "m \<le> n"
  defines "r \<equiv> fold (\<lambda>s. fold (apply_token si ub k s) [0..<k]) [0..<m] (rm, kv)"
  shows "only_cells kv (snd r) \<and> kv_get_size (snd r) = kv_get_size kv \<and>
    (\<forall>s < m. kv_cells (snd r) (si_strm si ! s) =
       place_cells kv ub (s * k) (si_idxs si ! s) (kv_cells kv (si_strm si ! s))) \<and>
    (\<forall>t. t \<notin> set (take m (si_strm si)) \<longrightarrow> kv_cells (snd r) t = kv_cells kv t)"
  using assms(4) unfolding r_def
proof (induction m)
  case 0
  then show ?case using assms(1) by (simp add: only_cells_def)
next
  case (Suc m)
  define q where "q = fold (\<lambda>s. fold (apply_token si ub k s) [0..<k]) [0..<m] (rm, kv)"
  have q: "only_cells kv (snd q)" "kv_get_size (snd q) = kv_get_size kv"
    "\<And>s. s < m \<Longrightarrow> kv_cells (snd q) (si_strm si ! s) =
       place_cells kv ub (s * k) (si_idxs si ! s) (kv_cells kv (si_strm si ! s))"
    "\<And>t. t \<notin> set (take m (si_strm si)) \<Longrightarrow> kv_cells (snd q) t = kv_cells kv t"
    using Suc unfolding q_def by simp_all
  note qs = only_cells_simps[OF q(1)]
  let ?st = "si_strm si ! m" and ?ix = "si_idxs si ! m"
  have so: "?st < kv_n_stream kv" "length ?ix = k" "\<forall>i \<in> set ?ix. i < kv_get_size kv"
      "distinct (si_strm si)" "m < length (si_strm si)"
    using assms(2) Suc.prems by (simp_all add: slot_ok_def Suc_le_eq)
  have new: "?st \<notin> set (take m (si_strm si))"
    using so(4,5) by (simp add: in_set_conv_nth nth_eq_iff_index_eq)
  have l: "?st < length (kv_v_cells (snd q))" using so(1) kv_wf_lens(1)[OF qs(1)] qs(2) by simp
  let ?c = "place_cells kv ub (m * k) ?ix (kv_cells kv ?st)"
  have st: "snd (fold (apply_token si ub k m) [0..<k] q) = kv_set_cells ?st ?c (snd q)"
    using apply_stream_eq[OF l refl, of ub k k "fst q"] q(4)[OF new] so(2)
    by (simp add: place_cells_def qs(8))
  have c: "cells_wf (kv_cells kv ?st)" "cells_size (kv_cells kv ?st) = kv_get_size kv"
    using kv_wf_cells[OF assms(1) so(1)] kv_wf_size[OF assms(1) so(1)] by simp_all
  have "\<forall>ii < k. token_ok ub (m * k + ii)" by (rule slot_tokens_ok[OF assms(3)]) (use Suc.prems in simp)
  then have pc: "cells_wf ?c" "cells_size ?c = kv_get_size kv"
    using place_cells_wf[OF c(1), of ?ix ub "m * k" kv] so(2,3) c(2) by simp_all
  have wf: "kv_wf (kv_set_cells ?st ?c (snd q))"
    using kv_wf_set_cells[OF qs(1) _ pc(1)] so(1) qs(2) pc(2) q(2) by simp
  have "only_cells (snd q) (kv_set_cells ?st ?c (snd q))"
    using wf by (simp add: only_cells_def kv_set_cells_def)
  then have oc: "only_cells kv (kv_set_cells ?st ?c (snd q))" by (rule only_cells_trans[OF q(1)])
  have "kv_get_size (kv_set_cells ?st ?c (snd q)) = kv_get_size kv"
    using kv_get_size_set_cells[OF l] pc(2) q(2) by simp
  moreover have "kv_cells (kv_set_cells ?st ?c (snd q)) (si_strm si ! s) =
      place_cells kv ub (s * k) (si_idxs si ! s) (kv_cells kv (si_strm si ! s))" if "s < Suc m" for s
  proof (cases "s = m")
    case False
    then have "si_strm si ! s \<noteq> ?st" using that so(4,5) by (simp add: nth_eq_iff_index_eq)
    then show ?thesis using q(3)[of s] that False by simp
  qed (use l in simp)
  moreover have "kv_cells (kv_set_cells ?st ?c (snd q)) t = kv_cells kv t"
    if "t \<notin> set (take (Suc m) (si_strm si))" for t
    using that q(4)[of t] so(5) by (simp add: take_Suc_conv_app_nth)
  ultimately show ?case using oc st by (simp add: q_def[symmetric])
qed

text \<open>With an empty slot nothing is overwritten, so nothing is purged.\<close>

lemma apply_stream_rm:
  assumes "st < length (kv_v_cells kv)" "st = si_strm si ! s" "cells_wf (kv_cells kv st)"
    and "\<forall>i \<in> set (si_idxs si ! s). i < cells_size (kv_cells kv st) \<and> c_pos (kv_cells kv st) ! i = -1"
    and "distinct (si_idxs si ! s)" "\<forall>ii < length (si_idxs si ! s). token_ok ub (s * n + ii)"
    and "m \<le> length (si_idxs si ! s)"
  shows "fst (fold (apply_token si ub n s) [0..<m] (rm, kv)) = rm"
  using assms(7)
proof (induction m)
  case (Suc m)
  let ?r = "fold (apply_token si ub n s) [0..<m] (rm, kv)" and ?ix = "si_idxs si ! s"
  have r: "snd ?r = kv_set_cells st (place_cells kv ub (s * n) (take m ?ix) (kv_cells kv st)) kv"
    using apply_stream_eq[OF assms(1,2), of ub n m rm] Suc.prems by (simp add: place_cells_take)
  have new: "?ix ! m \<notin> set (take m ?ix)"
    using assms(5) Suc.prems by (simp add: in_set_conv_nth nth_eq_iff_index_eq)
  have "cell_at (place_cells kv ub (s * n) (take m ?ix) (kv_cells kv st)) (?ix ! m) = cell_at (kv_cells kv st) (?ix ! m)"
    by (rule place_cells_empty(2)[OF assms(3) _ _ _ new])
       (use assms(4-6) in \<open>auto dest: in_set_takeD\<close>)
  from arg_cong[OF this, of k_pos]
  have "cells_is_empty (?ix ! m) (kv_cells (snd ?r) st)"
    using assms(1,4) Suc.prems by (simp add: r cells_is_empty_def)
  then have "fst (apply_token si ub n s m (fst ?r, snd ?r)) = fst ?r"
    unfolding assms(2) by (rule apply_token_eq(2))
  then have "fst (apply_token si ub n s m ?r) = fst ?r" by (simp only: prod.collapse)
  then show ?case using Suc by simp
qed simp

lemma apply_tokens_rm:
  assumes "kv_wf kv" "slot_ok kv si n k" "slot_free kv si" "\<forall>i < n * k. token_ok ub i" "m \<le> n"
  shows "fst (fold (\<lambda>s. fold (apply_token si ub k s) [0..<k]) [0..<m] (rm, kv)) = rm"
  using assms(5)
proof (induction m)
  case (Suc m)
  let ?r = "fold (\<lambda>s. fold (apply_token si ub k s) [0..<k]) [0..<m] (rm, kv)"
  have q: "only_cells kv (snd ?r)" "\<And>t. t \<notin> set (take m (si_strm si)) \<Longrightarrow> kv_cells (snd ?r) t = kv_cells kv t"
    using apply_tokens_cells[OF assms(1,2,4), of m rm] Suc.prems by simp_all
  let ?st = "si_strm si ! m" and ?ix = "si_idxs si ! m"
  have so: "?st < kv_n_stream kv" "length ?ix = k" "\<forall>i \<in> set ?ix. i < kv_get_size kv"
      "distinct (si_strm si)" "m < length (si_strm si)"
    using assms(2) Suc.prems by (simp_all add: slot_ok_def Suc_le_eq)
  have fr: "distinct ?ix" "\<forall>i \<in> set ?ix. c_pos (kv_cells kv ?st) ! i = -1"
    using assms(3) so(5) by (simp_all add: slot_free_def)
  have "?st \<notin> set (take m (si_strm si))" using so(4,5) by (simp add: in_set_conv_nth nth_eq_iff_index_eq)
  then have eq: "kv_cells (snd ?r) ?st = kv_cells kv ?st" by (rule q(2))
  have tok: "\<forall>ii < k. token_ok ub (m * k + ii)" by (rule slot_tokens_ok[OF assms(4)]) (use Suc.prems in simp)
  have l: "?st < length (kv_v_cells (snd ?r))"
    using so(1) only_cells_simps(1,2)[OF q(1)] kv_wf_lens(1) by simp
  have "fst (fold (apply_token si ub k m) [0..<k] (fst ?r, snd ?r)) = fst ?r"
    by (rule apply_stream_rm[OF l refl])
       (use so fr eq tok kv_wf_cells[OF assms(1) so(1)] kv_wf_size[OF assms(1) so(1)] in simp_all)
  then have "fst (fold (apply_token si ub k m) [0..<k] ?r) = fst ?r" by (simp only: prod.collapse)
  then show ?case using Suc by simp
qed simp

lemma purge_none: "(\<And>s. s \<in> set ss \<Longrightarrow> rm s = -1) \<Longrightarrow> purge_seqs rm ss kv = Inr kv"
  by (induction ss) auto

lemma move_heads_eq:
  assumes "length (si_strm si) = n" "distinct (si_strm si)" "\<forall>s < n. si_strm si ! s < length (kv_v_heads kv)"
  shows "(\<forall>s < n. kv_head (move_heads si kv) (si_strm si ! s) = last (si_idxs si ! s) + 1) \<and>
    (\<forall>t. t \<notin> set (si_strm si) \<longrightarrow> kv_head (move_heads si kv) t = kv_head kv t) \<and>
    move_heads si kv = kv\<lparr>kv_v_heads := kv_v_heads (move_heads si kv)\<rparr> \<and>
    length (kv_v_heads (move_heads si kv)) = length (kv_v_heads kv)"
proof -
  let ?f = "\<lambda>s kv. kv_set_head (si_strm si ! s) (last (si_idxs si ! s) + 1) kv"
  have "(\<forall>s < m. kv_head (fold ?f [0..<m] kv) (si_strm si ! s) = last (si_idxs si ! s) + 1) \<and>
    (\<forall>t. t \<notin> set (take m (si_strm si)) \<longrightarrow> kv_head (fold ?f [0..<m] kv) t = kv_head kv t) \<and>
    fold ?f [0..<m] kv = kv\<lparr>kv_v_heads := kv_v_heads (fold ?f [0..<m] kv)\<rparr> \<and>
    length (kv_v_heads (fold ?f [0..<m] kv)) = length (kv_v_heads kv)" if "m \<le> n" for m
    using that
  proof (induction m)
    case (Suc m)
    let ?q = "fold ?f [0..<m] kv"
    have q: "?q = kv\<lparr>kv_v_heads := kv_v_heads ?q\<rparr>" using Suc by simp
    have "kv_set_head a b ?q = kv\<lparr>kv_v_heads := kv_v_heads (kv_set_head a b ?q)\<rparr>" for a b
      by (subst (1 2) q) (simp add: kv_set_head_def)
    then show ?case
      using Suc assms
      by (auto simp: take_Suc_conv_app_nth less_Suc_eq nth_list_update nth_eq_iff_index_eq)
  qed simp
  from this[of n] assms(1) show ?thesis by (simp add: move_heads_def si_n_stream_def)
qed

lemma kv_wf_heads:
  assumes "kv_wf kv" "length hs = kv_n_stream kv" "\<And>t. t < kv_n_stream kv \<Longrightarrow> hs ! t \<le> kv_get_size kv"
  shows "kv_wf (kv\<lparr>kv_v_heads := hs\<rparr>)"
proof -
  have "kv_get_size (kv\<lparr>kv_v_heads := hs\<rparr>) = kv_get_size kv" by (simp add: kv_get_size_def)
  then show ?thesis
    using assms(2,3) kv_wf_lens(1)[OF assms(1)] kv_wf_cells[OF assms(1)] kv_wf_size[OF assms(1)]
      kv_wf_stream[OF assms(1)] assms(1)
    unfolding kv_wf_def by simp
qed

lemma move_heads_wf:
  assumes "kv_wf kv" "slot_ok kv si n k"
  shows "kv_wf (move_heads si kv)" "kv_get_size (move_heads si kv) = kv_get_size kv"
proof -
  have so: "length (si_strm si) = n" "distinct (si_strm si)" "\<forall>s < n. si_strm si ! s < length (kv_v_heads kv)"
    using assms(2) kv_wf_lens(2)[OF assms(1)] by (simp_all add: slot_ok_def)
  note mh = move_heads_eq[OF so]
  have le: "kv_head (move_heads si kv) t \<le> kv_get_size kv" if t: "t < kv_n_stream kv" for t
  proof (cases "t \<in> set (si_strm si)")
    case True
    then obtain s where s: "s < n" "t = si_strm si ! s" using so(1) by (auto simp: in_set_conv_nth)
    have "length (si_idxs si ! s) = k" "0 < k" "\<forall>i \<in> set (si_idxs si ! s). i < kv_get_size kv"
      using assms(2) s(1) by (simp_all add: slot_ok_def)
    then have "last (si_idxs si ! s) < kv_get_size kv" by (metis last_in_set length_greater_0_conv)
    then show ?thesis using mh s by simp
  next
    case False
    then show ?thesis using mh kv_wf_head[OF assms(1) t] by simp
  qed
  have "kv_wf (kv\<lparr>kv_v_heads := kv_v_heads (move_heads si kv)\<rparr>)"
    using mh kv_wf_lens(2)[OF assms(1)] le by (intro kv_wf_heads[OF assms(1)]) simp_all
  moreover have e: "move_heads si kv = kv\<lparr>kv_v_heads := kv_v_heads (move_heads si kv)\<rparr>" using mh by blast
  ultimately show "kv_wf (move_heads si kv)" by simp
  have "kv_v_cells (move_heads si kv) = kv_v_cells kv" "kv_seq_to_stream (move_heads si kv) = kv_seq_to_stream kv"
    by (subst e, simp)+
  then show "kv_get_size (move_heads si kv) = kv_get_size kv" by (simp add: kv_get_size_def)
qed

lemma slot_ok_only_cells:
  "only_cells kv kv' \<Longrightarrow> kv_get_size kv' = kv_get_size kv \<Longrightarrow> slot_ok kv si n k \<Longrightarrow> slot_ok kv' si n k"
  by (simp add: slot_ok_def only_cells_simps)

lemma slot_ok_size: "slot_ok kv si n k \<Longrightarrow> si_size si = Inr k" "slot_ok kv si n k \<Longrightarrow> si_n_stream si = n"
  by (auto simp: slot_ok_def si_size_def si_n_stream_def)

lemma apply_ubatch_free:
  assumes "kv_wf kv" "kv_other kv = None" "slot_ok kv si n k" "slot_free kv si" "\<forall>i < n * k. token_ok ub i"
  obtains kv' where "apply_ubatch si ub kv = Inr kv'" "kv_wf kv'" "kv_get_size kv' = kv_get_size kv"
    "kv' = kv\<lparr>kv_v_cells := kv_v_cells kv', kv_v_heads := kv_v_heads kv'\<rparr>"
    "\<And>s. s < n \<Longrightarrow> kv_cells kv' (si_strm si ! s) =
       place_cells kv ub (s * k) (si_idxs si ! s) (kv_cells kv (si_strm si ! s))"
    "\<And>s. s < n \<Longrightarrow> kv_head kv' (si_strm si ! s) = last (si_idxs si ! s) + 1"
    "\<And>t. t \<notin> set (si_strm si) \<Longrightarrow> kv_cells kv' t = kv_cells kv t \<and> kv_head kv' t = kv_head kv t"
proof -
  have n: "0 < n" "length (si_strm si) = n" using assms(3) by (simp_all add: slot_ok_def)
  define kv1 where "kv1 = snd (apply_tokens si ub k (\<lambda>_. -1, kv))"
  have a: "apply_tokens si ub k (\<lambda>_. -1, kv) = (\<lambda>_. -1, kv1)"
    using apply_tokens_rm[OF assms(1,3,4,5) order_refl, of "\<lambda>_. -1"] slot_ok_size(2)[OF assms(3)]
    by (simp add: kv1_def apply_tokens_def prod_eq_iff)
  have k1: "only_cells kv kv1" "kv_get_size kv1 = kv_get_size kv"
    "\<And>s. s < n \<Longrightarrow> kv_cells kv1 (si_strm si ! s) = place_cells kv ub (s * k) (si_idxs si ! s) (kv_cells kv (si_strm si ! s))"
    "\<And>t. t \<notin> set (si_strm si) \<Longrightarrow> kv_cells kv1 t = kv_cells kv t"
    using apply_tokens_cells[OF assms(1,3,5) order_refl, of "\<lambda>_. -1"] slot_ok_size(2)[OF assms(3)] n(2)
    by (simp_all add: kv1_def apply_tokens_def)
  note s1 = only_cells_simps[OF k1(1)]
  have so: "slot_ok kv1 si n k" by (rule slot_ok_only_cells[OF k1(1,2) assms(3)])
  have hd: "distinct (si_strm si)" "\<forall>s < n. si_strm si ! s < length (kv_v_heads kv1)"
    using so kv_wf_lens(2)[OF s1(1)] by (simp_all add: slot_ok_def)
  note mh = move_heads_eq[OF n(2) hd]
  let ?kv = "move_heads si kv1"
  have e: "?kv = kv1\<lparr>kv_v_heads := kv_v_heads ?kv\<rparr>" using mh by blast
  have cells: "kv_v_cells ?kv = kv_v_cells kv1" by (subst e) simp
  have e1: "kv1 = kv\<lparr>kv_v_cells := kv_v_cells kv1\<rparr>" using k1(1) by (simp add: only_cells_def)
  have "?kv = kv\<lparr>kv_v_cells := kv_v_cells ?kv, kv_v_heads := kv_v_heads ?kv\<rparr>"
    unfolding cells by (subst e, subst e1) simp
  moreover have "apply_ubatch si ub kv = Inr ?kv"
    using assms(2) n(1) slot_ok_size[OF assms(3)] a by (simp add: apply_ubatch_def purge_none)
  ultimately show ?thesis
    using that[of ?kv] move_heads_wf[OF s1(1) so] k1 mh s1(4) unfolding cells by simp
qed

section \<open>Finding a slot and filling it\<close>

lemma usable_no_swa: "kv_swa_type kv = SWA_NONE \<Longrightarrow> usable kv st i \<longleftrightarrow> c_pos (kv_cells kv st) ! i = -1"
  by (simp add: cell_can_use_def cells_is_empty_def)

lemma free_cells_count:
  assumes "kv_wf kv" "kv_swa_type kv = SWA_NONE" "st < kv_n_stream kv"
  shows "length (free_cells k st kv) = kv_get_size kv - cells_get_used (kv_cells kv st)"
proof -
  note wf = kv_wf_cells[OF assms(1,3)]
  have "set (free_cells k st kv) = {..<kv_get_size kv} - c_used (kv_cells kv st)"
    using free_cells_set(1)[OF assms(1,3)] cells_wf_used[OF wf] kv_wf_size[OF assms(1,3)]
      usable_no_swa[OF assms(2)] by auto
  then show ?thesis
    using distinct_card[OF free_cells_set(2)[OF assms(1,3), of k]] used_sub[OF wf] wf kv_wf_size[OF assms(1,3)]
    by (simp add: card_Diff_subset cells_get_used_def)
qed

lemma ubatch_tokens_ok:
  assumes "kv_wf kv" "ubatch_ok kv ub n k"
  shows "\<forall>i < n * k. token_ok ub i"
  using assms(2) kv_wf_seq_id[OF assms(1)] by (auto simp: ubatch_ok_def token_ok_def list_all_iff)

lemma free_slot_ok:
  assumes "kv_wf kv" "ubatch_ok kv ub n k"
    and "si_strm si = map (ub_stream kv ub) [0..<n]"
    and "si_idxs si = map (\<lambda>s. take k (free_cells k (ub_stream kv ub s) kv)) [0..<n]"
    and "\<forall>s < n. k \<le> length (free_cells k (ub_stream kv ub s) kv)"
  shows "slot_ok kv si n k" "kv_swa_type kv = SWA_NONE \<Longrightarrow> slot_free kv si"
proof -
  have f: "i < kv_get_size kv \<and> usable kv (ub_stream kv ub s) i"
    if "s < n" "i \<in> set (take k (free_cells k (ub_stream kv ub s) kv))" for s i
    using free_cells_set(1)[OF assms(1) ubatch_ok_stream[OF assms(1,2) that(1)], of k] in_set_takeD[OF that(2)] by blast
  show "slot_ok kv si n k"
    using assms(2-5) ubatch_ok_stream[OF assms(1,2)] f
    by (auto simp: slot_ok_def ubatch_ok_def)
  show "slot_free kv si" if "kv_swa_type kv = SWA_NONE"
    using assms(3,4) f usable_no_swa[OF that] free_cells_set(2)[OF assms(1) ubatch_ok_stream[OF assms(1,2)], of _ k]
    by (auto simp: slot_free_def)
qed

lemma find_slot_free:
  assumes "kv_wf kv" "ubatch_ok kv ub n k"
  obtains si where "find_slot False ub kv = Some (Inr si)" "si_empty si \<Longrightarrow> si = si_none"
    "\<not> si_empty si \<Longrightarrow> slot_ok kv si n k"
    "\<not> si_empty si \<Longrightarrow> kv_swa_type kv = SWA_NONE \<Longrightarrow> slot_free kv si"
    "\<not> si_empty si \<Longrightarrow> si_strm si = map (ub_stream kv ub) [0..<n]"
    "si_empty si \<longleftrightarrow> (\<exists>s < n. length (free_cells k (ub_stream kv ub s) kv) < k)"
proof -
  let ?few = "\<exists>s < n. length (free_cells k (ub_stream kv ub s) kv) < k"
  have n: "0 < n" using assms(2) by (simp add: ubatch_ok_def)
  obtain si where si: "find_slot False ub kv = Some (Inr si)"
    "if ?few then si = si_none
     else si_strm si = map (ub_stream kv ub) [0..<n] \<and>
          si_idxs si = map (\<lambda>s. take k (free_cells k (ub_stream kv ub s) kv)) [0..<n]"
    using find_slot_noncont_eq[OF assms] by blast
  show ?thesis
  proof (cases ?few)
    case True
    then have "si = si_none" using si(2) by (simp only: if_True)
    then show ?thesis using that[of si] si(1) True by (simp add: si_empty_def si_none_def)
  next
    case False
    then have s: "si_strm si = map (ub_stream kv ub) [0..<n]"
      "si_idxs si = map (\<lambda>s. take k (free_cells k (ub_stream kv ub s) kv)) [0..<n]"
      using si(2) by (simp_all only: if_False)
    have "\<forall>s < n. k \<le> length (free_cells k (ub_stream kv ub s) kv)" using False by (meson not_le)
    note fs = free_slot_ok[OF assms s this]
    have "\<not> si_empty si" using s(2) n by (simp add: si_empty_def)
    then show ?thesis using that[of si] si(1) False fs s(1) by blast
  qed
qed

lemma placed_view:
  assumes "cells_wf c" "\<forall>i \<in> set idxs. i < cells_size c \<and> c_pos c ! i = -1" "distinct idxs"
    and "\<forall>ii < length idxs. token_ok ub (base + ii)"
  shows "(t, p, i) \<in> cells_view (place_cells kv ub base idxs c) \<longleftrightarrow> (t, p, i) \<in> cells_view c \<or>
    (\<exists>ii < length idxs. i = idxs ! ii \<and> p = ub_pos ub ! (base + ii) \<and>
       (\<exists>j < ub_n_seq_id ub ! (base + ii). t = nat (ub_seq_id ub ! (base + ii) ! j)))"
proof -
  let ?r = "place_cells kv ub base idxs c"
  have n: "cells_size ?r = cells_size c" using place_cells_wf[OF assms(1), of idxs ub base kv] assms(2,4) by simp
  have e: "c_seq c ! i = {}" if "i \<in> set idxs"
    using that assms(2) cells_wf_ok[OF assms(1), of i] by (simp add: cell_ok_def)
  note pc = place_cells_empty[OF assms, where kv = kv]
  show ?thesis
  proof (cases "i \<in> set idxs")
    case False
    have "c_seq ?r ! i = c_seq c ! i" "c_pos ?r ! i = c_pos c ! i"
      using arg_cong[OF pc(2)[OF False], of k_seq] arg_cong[OF pc(2)[OF False], of k_pos] by simp_all
    moreover have "i \<noteq> idxs ! ii" if "ii < length idxs" for ii using False that nth_mem by blast
    ultimately show ?thesis using n by (simp add: view_iff cong: conj_cong)
  next
    case True
    then obtain ii where ii: "ii < length idxs" "i = idxs ! ii" by (auto simp: in_set_conv_nth)
    have k: "cell_at ?r i = placed_cell kv ub (base + ii) (cell_at c i)" using pc(3)[OF ii(1)] ii(2) by simp
    have "c_seq ?r ! i = (\<lambda>j. nat (ub_seq_id ub ! (base + ii) ! j)) ` {..<ub_n_seq_id ub ! (base + ii)}"
      "c_pos ?r ! i = ub_pos ub ! (base + ii)"
      using arg_cong[OF k, of k_seq] arg_cong[OF k, of k_pos] by (simp_all add: placed_cell_def)
    then show ?thesis
      using True e[OF True] n assms(2) ii nth_eq_iff_index_eq[OF assms(3)] by (auto simp: view_iff)
  qed
qed

text \<open>The entries a ubatch adds to the stream of its sequence \<open>s\<close>.\<close>

definition ubatch_entries :: "llama_ubatch \<Rightarrow> slot_info \<Rightarrow> nat \<Rightarrow> nat \<Rightarrow> (nat \<times> llama_pos \<times> nat) set" where
  "ubatch_entries ub si k s =
     {(nat (ub_seq_id ub ! (s * k + ii) ! j), ub_pos ub ! (s * k + ii), si_idxs si ! s ! ii) |ii j.
        ii < k \<and> j < ub_n_seq_id ub ! (s * k + ii)}"

text \<open>C2: for a cache with cells of its own and without a sliding window, a ubatch that fits is stored completely: \<open>find_slot\<close> succeeds,
  \<open>apply_ubatch\<close> adds exactly the entries of its tokens to the streams of its sequences, keeps every
  other entry, and leaves the cache well-formed with the head behind the slot.\<close>

theorem place_ubatch:
  assumes "kv_wf kv" "kv_other kv = None" "kv_swa_type kv = SWA_NONE" "ubatch_ok kv ub n k"
    and "\<forall>s < n. cells_get_used (kv_cells kv (ub_stream kv ub s)) + k \<le> kv_get_size kv"
  shows "\<exists>si kv'. find_slot False ub kv = Some (Inr si) \<and> apply_ubatch si ub kv = Inr kv' \<and> kv_wf kv' \<and>
    (\<forall>s < n. kv_view kv' (ub_stream kv ub s) = kv_view kv (ub_stream kv ub s) \<union> ubatch_entries ub si k s \<and>
             kv_head kv' (ub_stream kv ub s) = last (si_idxs si ! s) + 1) \<and>
    (\<forall>t. (\<forall>s < n. t \<noteq> ub_stream kv ub s) \<longrightarrow> kv_view kv' t = kv_view kv t \<and> kv_head kv' t = kv_head kv t)"
proof -
  obtain si where si: "find_slot False ub kv = Some (Inr si)" "\<not> si_empty si \<Longrightarrow> slot_ok kv si n k"
    "\<not> si_empty si \<Longrightarrow> kv_swa_type kv = SWA_NONE \<Longrightarrow> slot_free kv si"
    "\<not> si_empty si \<Longrightarrow> si_strm si = map (ub_stream kv ub) [0..<n]"
    "si_empty si \<longleftrightarrow> (\<exists>s < n. length (free_cells k (ub_stream kv ub s) kv) < k)"
    by (rule find_slot_free[OF assms(1,4)]) (rule that)
  have "k \<le> length (free_cells k (ub_stream kv ub s) kv)" if s: "s < n" for s
    using free_cells_count[OF assms(1,3) ubatch_ok_stream[OF assms(1,4) s], of k] assms(5)[rule_format, OF s] by simp
  then have ne: "\<not> si_empty si" using si(5) by (meson not_le)
  note so = si(2)[OF ne] and sf = si(3)[OF ne assms(3)] and strm = si(4)[OF ne]
  obtain kv' where r: "apply_ubatch si ub kv = Inr kv'" "kv_wf kv'"
    "\<And>s. s < n \<Longrightarrow> kv_cells kv' (si_strm si ! s) = place_cells kv ub (s * k) (si_idxs si ! s) (kv_cells kv (si_strm si ! s))"
    "\<And>s. s < n \<Longrightarrow> kv_head kv' (si_strm si ! s) = last (si_idxs si ! s) + 1"
    "\<And>t. t \<notin> set (si_strm si) \<Longrightarrow> kv_cells kv' t = kv_cells kv t \<and> kv_head kv' t = kv_head kv t"
    by (rule apply_ubatch_free[OF assms(1,2) so sf ubatch_tokens_ok[OF assms(1,4)]]) (rule that)
  have "kv_view kv' (ub_stream kv ub s) = kv_view kv (ub_stream kv ub s) \<union> ubatch_entries ub si k s" if s: "s < n" for s
  proof -
    let ?st = "ub_stream kv ub s" and ?ix = "si_idxs si ! s"
    have st: "?st = si_strm si ! s" "?st < kv_n_stream kv" using strm s ubatch_ok_stream[OF assms(1,4) s] by simp_all
    have ix: "length ?ix = k" "distinct ?ix" "\<forall>i \<in> set ?ix. i < cells_size (kv_cells kv ?st) \<and> c_pos (kv_cells kv ?st) ! i = -1"
      using so sf s st kv_wf_size[OF assms(1) st(2)] by (simp_all add: slot_ok_def slot_free_def)
    have tok: "\<forall>ii < length ?ix. token_ok ub (s * k + ii)"
      unfolding ix(1) by (rule slot_tokens_ok[OF ubatch_tokens_ok[OF assms(1,4)] s])
    have "x \<in> kv_view kv' ?st \<longleftrightarrow> x \<in> kv_view kv ?st \<union> ubatch_entries ub si k s" for x
      using placed_view[OF kv_wf_cells[OF assms(1) st(2)] ix(3,2) tok, of "fst x" "fst (snd x)" "snd (snd x)" kv]
        r(3)[OF s] st(1) ix(1)
      by (cases x) (auto simp: kv_view_def ubatch_entries_def)
    then show ?thesis by blast
  qed
  moreover have "kv_view kv' t = kv_view kv t \<and> kv_head kv' t = kv_head kv t" if "\<forall>s < n. t \<noteq> ub_stream kv ub s" for t
  proof -
    have "t \<notin> set (si_strm si)" using that strm by auto
    from r(5)[OF this] show ?thesis by (simp add: kv_view_def)
  qed
  moreover have "kv_head kv' (ub_stream kv ub s) = last (si_idxs si ! s) + 1" if "s < n" for s
    using r(4)[OF that] strm that by simp
  ultimately show ?thesis using si(1) r(1,2) by blast
qed

section \<open>The dry run puts everything back\<close>

lemma place_cells_undo:
  assumes "cells_wf c" "\<forall>i \<in> set idxs. i < cells_size c \<and> c_pos c ! i = -1" "distinct idxs"
    and "\<forall>ii < length idxs. token_ok ub (base + ii)"
  shows "cells_set idxs (cells_cp idxs c) (place_cells kv ub base idxs c) = c"
proof -
  let ?r = "place_cells kv ub base idxs c"
  have w: "cells_wf ?r" "cells_size ?r = cells_size c"
    using place_cells_wf[OF assms(1), of idxs ub base kv] assms(2,4) by simp_all
  note pc = place_cells_empty[OF assms, where kv = kv]
  have k: "k_shift (cell_at ?r m) = k_shift (cell_at c m) \<and> k_score (cell_at ?r m) = k_score (cell_at c m)"
    if m: "m \<in> set idxs" for m
  proof -
    obtain ii where "ii < length idxs" "m = idxs ! ii" using m by (auto simp: in_set_conv_nth)
    then show ?thesis using pc(3)[of ii] by (simp add: placed_cell_def del: cell_at_sel)
  qed
  have z: "c_shift ?r ! m = 0" if "m \<in> set idxs" for m
    using k[OF that] assms(2) that cells_wf_ok[OF assms(1), of m] by (simp add: cell_ok_def)
  show ?thesis
    by (rule set_cp_undo[OF w(1) assms(1) w(2) pc(1)])
       (use assms(2) w(2) z k pc(2) in \<open>simp_all del: cell_at_sel\<close>)
qed

definition saved_state :: "slot_info \<Rightarrow> llama_kv_cache \<Rightarrow> prep_state" where
  "saved_state sinfo kv = \<lparr>ps_sinfo = sinfo, ps_v_heads_old = kv_v_heads kv,
     ps_v_cells = map (\<lambda>s. cells_cp (si_idxs sinfo ! s) (kv_cells kv (si_strm sinfo ! s))) [0..<si_n_stream sinfo]\<rparr>"

text \<open>The heads \<open>prepare\<close> restores: the saved head of stream \<open>s\<close> goes to the \<open>s\<close>-th stream of the slot.\<close>

definition restored_heads :: "slot_info \<Rightarrow> nat list \<Rightarrow> nat list \<Rightarrow> nat list" where
  "restored_heads sinfo old hs = fold (\<lambda>s h. h[si_strm sinfo ! s := old ! s]) [0..<si_n_stream sinfo] hs"

lemma restored_heads_length [simp]: "length (restored_heads si old hs) = length hs"
proof -
  have "length (fold (\<lambda>s h. h[si_strm si ! s := old ! s]) ss hs) = length hs" for ss
    by (induction ss arbitrary: hs) auto
  then show ?thesis by (simp add: restored_heads_def)
qed

lemma restore_fold:
  assumes undo: "\<And>s. s < n \<Longrightarrow> cells_set (si_idxs si ! s) (cells_cp (si_idxs si ! s) (kv_cells kv (si_strm si ! s)))
      (kv_cells kv' (si_strm si ! s)) = kv_cells kv (si_strm si ! s)"
    and "length (si_strm si) = n" "distinct (si_strm si)" "\<forall>s < n. si_strm si ! s < length (kv_v_cells kv')" "m \<le> n"
  defines "r \<equiv> fold (restore_stream (saved_state si kv)) [0..<m] kv'"
  shows "r = kv'\<lparr>kv_v_cells := kv_v_cells r,
      kv_v_heads := fold (\<lambda>s h. h[si_strm si ! s := kv_head kv s]) [0..<m] (kv_v_heads kv')\<rparr> \<and>
    length (kv_v_cells r) = length (kv_v_cells kv') \<and>
    (\<forall>s < m. kv_cells r (si_strm si ! s) = kv_cells kv (si_strm si ! s)) \<and>
    (\<forall>t. t \<notin> set (take m (si_strm si)) \<longrightarrow> kv_cells r t = kv_cells kv' t)"
  using assms(5) unfolding r_def
proof (induction m)
  case (Suc m)
  define q where "q = fold (restore_stream (saved_state si kv)) [0..<m] kv'"
  define hs where "hs = fold (\<lambda>s h. h[si_strm si ! s := kv_head kv s]) [0..<m] (kv_v_heads kv')"
  have q: "q = kv'\<lparr>kv_v_cells := kv_v_cells q, kv_v_heads := hs\<rparr>"
    "length (kv_v_cells q) = length (kv_v_cells kv')"
    "\<And>s. s < m \<Longrightarrow> kv_cells q (si_strm si ! s) = kv_cells kv (si_strm si ! s)"
    "\<And>t. t \<notin> set (take m (si_strm si)) \<Longrightarrow> kv_cells q t = kv_cells kv' t"
    using Suc unfolding q_def hs_def by simp_all
  let ?st = "si_strm si ! m"
  have m: "m < n" "m < length (si_strm si)" "?st < length (kv_v_cells q)" using Suc.prems assms(2,4) q(2) by simp_all
  have new: "?st \<notin> set (take m (si_strm si))"
    using assms(3) m(2) by (simp add: in_set_conv_nth nth_eq_iff_index_eq)
  have st: "restore_stream (saved_state si kv) m q =
      kv_set_head ?st (kv_head kv m) (kv_set_cells ?st (kv_cells kv ?st) q)"
    using undo[OF m(1)] q(4)[OF new] m(1) assms(2)
    by (simp add: restore_stream_def saved_state_def Let_def si_n_stream_def)
  have hq: "kv_v_heads q = hs" by (subst q(1)) simp
  have e: "kv_set_head ?st h (kv_set_cells ?st c q) =
      kv'\<lparr>kv_v_cells := (kv_v_cells q)[?st := c], kv_v_heads := hs[?st := h]\<rparr>" for h c
    unfolding kv_set_head_def kv_set_cells_def hq[symmetric] by (subst (1) q(1)) (simp add: hq)
  have c1: "((kv_v_cells q)[?st := kv_cells kv ?st]) ! (si_strm si ! s) = kv_cells kv (si_strm si ! s)" if "s < Suc m" for s
    using q(3)[of s] that m nth_eq_iff_index_eq[OF assms(3), of s m] by (cases "s = m") (simp_all add: less_Suc_eq)
  have c2: "((kv_v_cells q)[?st := kv_cells kv ?st]) ! t = kv_cells kv' t" if "t \<notin> set (take (Suc m) (si_strm si))" for t
    using that q(4)[of t] m(2) by (simp add: take_Suc_conv_app_nth)
  have "fold (restore_stream (saved_state si kv)) [0..<Suc m] kv' =
      kv'\<lparr>kv_v_cells := (kv_v_cells q)[?st := kv_cells kv ?st], kv_v_heads := hs[?st := kv_head kv m]\<rparr>"
    using st e by (simp add: q_def[symmetric])
  then show ?case using c1 c2 q(2) by (simp add: hs_def[symmetric])
qed simp

lemma cells_undone:
  assumes "kv_wf kv" "slot_ok kv si n k" "slot_free kv si" "\<forall>i < n * k. token_ok ub i" "s < n"
  defines "st \<equiv> si_strm si ! s"
  shows "cells_set (si_idxs si ! s) (cells_cp (si_idxs si ! s) (kv_cells kv st))
    (place_cells kv ub (s * k) (si_idxs si ! s) (kv_cells kv st)) = kv_cells kv st"
proof -
  have st: "st < kv_n_stream kv" using assms(2,5) by (simp add: slot_ok_def st_def)
  have ix: "length (si_idxs si ! s) = k" "distinct (si_idxs si ! s)"
      "\<forall>i \<in> set (si_idxs si ! s). i < cells_size (kv_cells kv st) \<and> c_pos (kv_cells kv st) ! i = -1"
    using assms(2,3,5) kv_wf_size[OF assms(1) st] by (simp_all add: slot_ok_def slot_free_def st_def)
  show ?thesis
    using place_cells_undo[OF kv_wf_cells[OF assms(1) st] ix(3,2), of ub "s * k" kv] slot_tokens_ok[OF assms(4,5)] ix(1) by simp
qed

lemma restore_step:
  assumes "kv_wf kv" "kv_other kv = None" "slot_ok kv si n k" "slot_free kv si" "\<forall>i < n * k. token_ok ub i"
    and "apply_ubatch si ub kv = Inr kv'"
  shows "restore_state (saved_state si kv) (kv'\<lparr>kv_v_heads := hs\<rparr>) =
    kv\<lparr>kv_v_heads := restored_heads si (kv_v_heads kv) hs\<rparr>"
proof -
  obtain kv'' where r: "apply_ubatch si ub kv = Inr kv''" "kv_wf kv''"
    "kv'' = kv\<lparr>kv_v_cells := kv_v_cells kv'', kv_v_heads := kv_v_heads kv''\<rparr>"
    "\<And>s. s < n \<Longrightarrow> kv_cells kv'' (si_strm si ! s) = place_cells kv ub (s * k) (si_idxs si ! s) (kv_cells kv (si_strm si ! s))"
    "\<And>t. t \<notin> set (si_strm si) \<Longrightarrow> kv_cells kv'' t = kv_cells kv t \<and> kv_head kv'' t = kv_head kv t"
    by (rule apply_ubatch_free[OF assms(1-5)]) (rule that)
  have same: "kv'' = kv'" using r(1) assms(6) by simp
  have so: "length (si_strm si) = n" "distinct (si_strm si)" "\<forall>s < n. si_strm si ! s < kv_n_stream kv"
    using assms(3) by (simp_all add: slot_ok_def)
  have ns: "kv_n_stream kv' = kv_n_stream kv" by (subst r(3)[unfolded same]) simp
  have l: "length (kv_v_cells kv') = kv_n_stream kv" using kv_wf_lens(1)[OF r(2)] ns same by simp
  let ?kv = "kv'\<lparr>kv_v_heads := hs\<rparr>"
  have undo: "cells_set (si_idxs si ! s) (cells_cp (si_idxs si ! s) (kv_cells kv (si_strm si ! s)))
      (kv_cells ?kv (si_strm si ! s)) = kv_cells kv (si_strm si ! s)" if s: "s < n" for s
    using cells_undone[OF assms(1,3,4,5) s] r(4)[OF s] same by simp
  define q where "q = fold (restore_stream (saved_state si kv)) [0..<n] ?kv"
  have rf: "q = ?kv\<lparr>kv_v_cells := kv_v_cells q,
        kv_v_heads := fold (\<lambda>s h. h[si_strm si ! s := kv_head kv s]) [0..<n] (kv_v_heads ?kv)\<rparr>"
      "length (kv_v_cells q) = length (kv_v_cells ?kv)"
      "\<And>s. s < n \<Longrightarrow> kv_cells q (si_strm si ! s) = kv_cells kv (si_strm si ! s)"
      "\<And>t. t \<notin> set (si_strm si) \<Longrightarrow> kv_cells q t = kv_cells ?kv t"
    using restore_fold[OF undo so(1,2) _ order_refl] so(1,3) l unfolding q_def by simp_all
  have "kv_v_cells q = kv_v_cells kv"
  proof (rule nth_equalityI)
    show "length (kv_v_cells q) = length (kv_v_cells kv)" using rf(2) l kv_wf_lens(1)[OF assms(1)] by simp
    fix t
    show "kv_cells q t = kv_cells kv t"
    proof (cases "t \<in> set (si_strm si)")
      case True
      then obtain s where "s < n" "t = si_strm si ! s" using so(1) by (auto simp: in_set_conv_nth)
      then show ?thesis using rf(3) by simp
    qed (use rf(4) r(5) same in simp)
  qed
  moreover have "?kv\<lparr>kv_v_cells := c, kv_v_heads := h\<rparr> = kv\<lparr>kv_v_cells := c, kv_v_heads := h\<rparr>" for c h
    by (subst r(3)[unfolded same]) simp
  ultimately have "q = kv\<lparr>kv_v_cells := kv_v_cells kv,
      kv_v_heads := fold (\<lambda>s h. h[si_strm si ! s := kv_head kv s]) [0..<n] hs\<rparr>"
    using rf(1) by simp
  then show ?thesis
    using so(1) by (simp add: q_def restore_state_def saved_state_def restored_heads_def si_n_stream_def)
qed

text \<open>
  The context that \<open>init_batch\<close> returns walks through its ubatches: \<open>apply\<close> writes the current one,
  \<open>next\<close> moves on. Applying all of them in turn:
\<close>

fun apply_slots :: "slot_info list \<Rightarrow> llama_ubatch list \<Rightarrow> llama_kv_cache \<Rightarrow> err + llama_kv_cache" where
  "apply_slots (si # sis) (ub # ubs) kv =
     (case apply_ubatch si ub kv of Inl e \<Rightarrow> Inl e | Inr kv' \<Rightarrow> apply_slots sis ubs kv')"
| "apply_slots _ _ kv = Inr kv"

lemma ubatch_ok_same:
  "kv_n_stream a = kv_n_stream b \<Longrightarrow> kv_seq_to_stream a = kv_seq_to_stream b \<Longrightarrow> ubatch_ok a = ubatch_ok b"
  by (intro ext) (simp add: ubatch_ok_def seq_id_ok_def)

definition kv_ready :: "llama_kv_cache \<Rightarrow> bool" where
  "kv_ready kv \<longleftrightarrow> kv_wf kv \<and> kv_other kv = None \<and> kv_swa_type kv = SWA_NONE"

definition ubatches_ok :: "llama_kv_cache \<Rightarrow> llama_ubatch list \<Rightarrow> bool" where
  "ubatches_ok kv ubs \<longleftrightarrow> (\<forall>ub \<in> set ubs. \<exists>n k. ubatch_ok kv ub n k)"

lemma restored_heads_single:
  assumes "slot_ok kv si n k" "kv_n_stream kv = 1" "length hs = 1" "length old = 1"
  shows "restored_heads si old hs = old"
proof -
  have "n = 1"
  proof (rule ccontr)
    assume "n \<noteq> 1"
    then have "1 < n" using assms(1) by (simp add: slot_ok_def)
    then have "si_strm si ! 0 = 0" "si_strm si ! 1 = 0" "distinct (si_strm si)" "1 < length (si_strm si)"
      using assms(1,2) by (auto simp: slot_ok_def)
    then show False by (metis nth_eq_iff_index_eq less_trans zero_less_one zero_neq_one)
  qed
  moreover from this have "si_strm si ! 0 = 0" using assms(1,2) by (simp add: slot_ok_def)
  ultimately have "restored_heads si old hs = hs[0 := old ! 0]"
    using slot_ok_size(2)[OF assms(1)] by (simp add: restored_heads_def)
  then show ?thesis using assms(3,4) by (cases hs; cases old) auto
qed

lemma prepare_place_restores:
  assumes "kv_ready kv" "ubatches_ok kv ubs"
  shows "\<exists>ok sis new kv'. prepare_place srt False ubs res states kv = Some (Inr (ok, res @ sis, new @ states, kv')) \<and>
    kv_n_stream kv' = kv_n_stream kv \<and> length (kv_v_heads kv') = kv_n_stream kv \<and>
    (new = [] \<longrightarrow> kv' = kv \<and> (ok \<longrightarrow> ubs = [])) \<and>
    (ok \<longrightarrow> length sis = length ubs \<and> apply_slots sis ubs kv = Inr kv') \<and>
    (\<forall>hs. length hs = kv_n_stream kv \<longrightarrow> (\<exists>hs'. length hs' = kv_n_stream kv \<and>
       fold restore_state new (kv'\<lparr>kv_v_heads := hs\<rparr>) = kv\<lparr>kv_v_heads := hs'\<rparr> \<and>
       (new \<noteq> [] \<longrightarrow> kv_n_stream kv = 1 \<longrightarrow> hs' = kv_v_heads kv)))"
  using assms
proof (induction ubs arbitrary: res states kv)
  case Nil
  then show ?case
    by (intro exI[of _ True] exI[of _ "[]"] exI[of _ kv]) (auto simp: kv_ready_def kv_wf_lens)
next
  case (Cons ub ubs)
  have rd: "kv_wf kv" "kv_other kv = None" "kv_swa_type kv = SWA_NONE" using Cons.prems(1) by (simp_all add: kv_ready_def)
  obtain n k where ub: "ubatch_ok kv ub n k" using Cons.prems(2) by (auto simp: ubatches_ok_def)
  obtain si where si: "find_slot False ub kv = Some (Inr si)" "\<not> si_empty si \<Longrightarrow> slot_ok kv si n k"
    "\<not> si_empty si \<Longrightarrow> kv_swa_type kv = SWA_NONE \<Longrightarrow> slot_free kv si"
    by (rule find_slot_free[OF rd(1) ub]) (rule that)
  have fe: "find_slot_evict srt False ub kv = Some (Inr (si, kv))" using si(1) by (simp add: find_slot_evict_def)
  show ?case
  proof (cases "si_empty si")
    case True
    then show ?thesis
      using fe rd by (intro exI[of _ False] exI[of _ "[]"] exI[of _ kv]) (auto simp: kv_wf_lens)
  next
    case False
    note so = si(2)[OF False] and sf = si(3)[OF False rd(3)] and tk = ubatch_tokens_ok[OF rd(1) ub]
    obtain kv1 where r: "apply_ubatch si ub kv = Inr kv1" "kv_wf kv1"
      "kv1 = kv\<lparr>kv_v_cells := kv_v_cells kv1, kv_v_heads := kv_v_heads kv1\<rparr>"
      by (rule apply_ubatch_free[OF rd(1,2) so sf tk]) (rule that)
    have k1: "kv_n_stream kv1 = kv_n_stream kv" "kv_seq_to_stream kv1 = kv_seq_to_stream kv"
      "kv_other kv1 = None" "kv_swa_type kv1 = SWA_NONE"
      by (subst r(3), simp add: rd)+
    have "kv_ready kv1" "ubatches_ok kv1 ubs"
      using r(2) k1 Cons.prems(2) ubatch_ok_same[of kv1 kv] by (simp_all add: kv_ready_def ubatches_ok_def)
    from Cons.IH[OF this, of "res @ [si]" "saved_state si kv # states"]
    obtain ok sis new kv' where ih: "prepare_place srt False ubs (res @ [si]) (saved_state si kv # states) kv1 =
        Some (Inr (ok, (res @ [si]) @ sis, new @ saved_state si kv # states, kv'))"
      "kv_n_stream kv' = kv_n_stream kv" "length (kv_v_heads kv') = kv_n_stream kv"
      "ok \<longrightarrow> length sis = length ubs \<and> apply_slots sis ubs kv1 = Inr kv'"
      "\<And>hs. length hs = kv_n_stream kv \<Longrightarrow> \<exists>hs'. length hs' = kv_n_stream kv \<and>
         fold restore_state new (kv'\<lparr>kv_v_heads := hs\<rparr>) = kv1\<lparr>kv_v_heads := hs'\<rparr>"
      unfolding k1(1) by blast
    have "prepare_place srt False (ub # ubs) res states kv =
        Some (Inr (ok, res @ si # sis, (new @ [saved_state si kv]) @ states, kv'))"
      using fe False r(1) ih(1) by (simp add: saved_state_def)
    moreover have "\<exists>hs'. length hs' = kv_n_stream kv \<and>
        fold restore_state (new @ [saved_state si kv]) (kv'\<lparr>kv_v_heads := hs\<rparr>) = kv\<lparr>kv_v_heads := hs'\<rparr> \<and>
        (kv_n_stream kv = 1 \<longrightarrow> hs' = kv_v_heads kv)" if hs: "length hs = kv_n_stream kv" for hs
    proof -
      obtain h1 where h1: "length h1 = kv_n_stream kv"
          "fold restore_state new (kv'\<lparr>kv_v_heads := hs\<rparr>) = kv1\<lparr>kv_v_heads := h1\<rparr>"
        using ih(5)[OF hs] by blast
      let ?h = "restored_heads si (kv_v_heads kv) h1"
      have "kv_n_stream kv = 1 \<longrightarrow> ?h = kv_v_heads kv"
        using restored_heads_single[OF so] h1(1) kv_wf_lens(2)[OF rd(1)] by simp
      then show ?thesis
        using restore_step[OF rd(1,2) so sf tk r(1)] h1 by (intro exI[of _ ?h]) simp
    qed
    ultimately show ?thesis
      using ih(2-4) r(1)
      by (intro exI[of _ ok] exI[of _ "si # sis"] exI[of _ "new @ [saved_state si kv]"] exI[of _ kv']) simp
  qed
qed

lemma prepare_result:
  assumes "kv_wf kv" "kv_other kv = None" "kv_swa_type kv = SWA_NONE" "ubs \<noteq> []"
    and "\<forall>ub \<in> set ubs. \<exists>n k. ubatch_ok kv ub n k"
  shows "\<exists>sis kv'. prepare srt False ubs kv = Some (Inr (sis, kv')) \<and>
    kv_v_cells kv' = kv_v_cells kv \<and> (kv_n_stream kv = 1 \<longrightarrow> kv' = kv) \<and>
    (sis \<noteq> [] \<longrightarrow> length sis = length ubs \<and> (\<exists>kv''. apply_slots sis ubs kv = Inr kv''))"
proof -
  obtain ok sis new kv1 where p: "prepare_place srt False ubs [] [] kv = Some (Inr (ok, sis, new, kv1))"
    "length (kv_v_heads kv1) = kv_n_stream kv" "new = [] \<longrightarrow> kv1 = kv \<and> (ok \<longrightarrow> ubs = [])"
    "ok \<longrightarrow> length sis = length ubs \<and> apply_slots sis ubs kv = Inr kv1"
    "\<And>hs. length hs = kv_n_stream kv \<Longrightarrow> \<exists>hs'. length hs' = kv_n_stream kv \<and>
       fold restore_state new (kv1\<lparr>kv_v_heads := hs\<rparr>) = kv\<lparr>kv_v_heads := hs'\<rparr> \<and>
       (new \<noteq> [] \<longrightarrow> kv_n_stream kv = 1 \<longrightarrow> hs' = kv_v_heads kv)"
    using prepare_place_restores[of kv ubs srt "[]" "[]"] assms by (auto simp: kv_ready_def ubatches_ok_def)
  obtain hs where hs: "fold restore_state new kv1 = kv\<lparr>kv_v_heads := hs\<rparr>"
      "new \<noteq> [] \<longrightarrow> kv_n_stream kv = 1 \<longrightarrow> hs = kv_v_heads kv"
    using p(5)[OF p(2)] by auto
  have "prepare srt False ubs kv = Some (Inr (if ok then sis else [], kv\<lparr>kv_v_heads := hs\<rparr>))"
    using p(1,3) assms(4) hs(1) by (auto simp: prepare_def)
  moreover have "kv_n_stream kv = 1 \<longrightarrow> kv\<lparr>kv_v_heads := hs\<rparr> = kv"
    using hs p(3) by (cases "new = []") auto
  ultimately show ?thesis using p(4) by (cases ok) auto
qed

text \<open>C23: for a cache with cells of its own, without a sliding window and without sparse eviction, and at least one ubatch, all
  well-formed for the cache, \<open>prepare\<close> always returns and restores the cells of every stream exactly, and with one stream the whole cache; when it succeeds it
  returns one slot per ubatch, and writing the ubatches to these slots in turn succeeds.\<close>

theorem prepare_restores:
  assumes "kv_wf kv" "kv_other kv = None" "kv_swa_type kv = SWA_NONE" "ubs \<noteq> []"
    and "\<forall>ub \<in> set ubs. \<exists>n k. ubatch_ok kv ub n k"
  shows "\<exists>sis kv'. prepare srt False ubs kv = Some (Inr (sis, kv')) \<and>
    kv_v_cells kv' = kv_v_cells kv \<and> (kv_n_stream kv = 1 \<longrightarrow> kv' = kv) \<and>
    (sis \<noteq> [] \<longrightarrow> length sis = length ubs \<and> (\<exists>kv''. apply_slots sis ubs kv = Inr kv''))"
  by (rule prepare_result[OF assms])

text \<open>C26: with several streams the heads are not restored: the loop reads \<open>v_heads_old[s]\<close> with the
  index of the stream within the slot instead of the stream itself, so after a successful dry run
  for one sequence the head of its stream is the old head of stream 0.\<close>

theorem prepare_misplaces_head:
  assumes "kv_wf kv" "kv_other kv = None" "kv_swa_type kv = SWA_NONE" "ubatch_ok kv ub 1 k"
    and "find_slot False ub kv = Some (Inr si)" "\<not> si_empty si"
  shows "\<exists>kv'. prepare srt False [ub] kv = Some (Inr ([si], kv')) \<and>
    kv_head kv' (ub_stream kv ub 0) = kv_head kv 0"
proof -
  obtain si' where si': "find_slot False ub kv = Some (Inr si')" "\<not> si_empty si' \<Longrightarrow> slot_ok kv si' 1 k"
    "\<not> si_empty si' \<Longrightarrow> kv_swa_type kv = SWA_NONE \<Longrightarrow> slot_free kv si'"
    "\<not> si_empty si' \<Longrightarrow> si_strm si' = map (ub_stream kv ub) [0..<1]"
    by (rule find_slot_free[OF assms(1,4)]) (rule that)
  have eq: "si' = si" using si'(1) assms(5) by simp
  note so = si'(2)[unfolded eq, OF assms(6)] and sf = si'(3)[unfolded eq, OF assms(6,3)]
    and tk = ubatch_tokens_ok[OF assms(1,4)]
  have strm: "si_strm si = [ub_stream kv ub 0]" using si'(4)[unfolded eq, OF assms(6)] by simp
  obtain kv1 where r: "apply_ubatch si ub kv = Inr kv1" "kv_wf kv1"
      "kv1 = kv\<lparr>kv_v_cells := kv_v_cells kv1, kv_v_heads := kv_v_heads kv1\<rparr>"
    by (rule apply_ubatch_free[OF assms(1,2) so sf tk]) (rule that)
  let ?h = "restored_heads si (kv_v_heads kv) (kv_v_heads kv1)"
  have rs: "restore_state (saved_state si kv) kv1 = kv\<lparr>kv_v_heads := ?h\<rparr>"
    using restore_step[OF assms(1,2) so sf tk r(1), of "kv_v_heads kv1"] by simp
  have "prepare srt False [ub] kv = Some (Inr ([si], kv\<lparr>kv_v_heads := ?h\<rparr>))"
    using assms(5,6) r(1) rs by (simp add: prepare_def find_slot_evict_def saved_state_def)
  moreover have "kv_n_stream kv1 = kv_n_stream kv" by (subst r(3)) simp
  then have "ub_stream kv ub 0 < length (kv_v_heads kv1)"
    using kv_wf_lens(2)[OF r(2)] ubatch_ok_stream[OF assms(1,4), of 0] by simp
  then have "?h ! ub_stream kv ub 0 = kv_head kv 0"
    by (simp add: restored_heads_def si_n_stream_def strm)
  ultimately show ?thesis by simp
qed

text \<open>C25: on a full single-stream cache without a sliding window the sparse eviction that \<open>prepare\<close> attempts makes the second
  search succeed whenever enough cells are evictable.\<close>

theorem evict_then_find_slot:
  assumes "score_sort srt" "kv_wf kv" "kv_swa_type kv = SWA_NONE" "kv_n_stream kv = 1" "ubatch_ok kv ub 1 k"
  defines "c \<equiv> kv_cells kv (ub_stream kv ub 0)"
  assumes "k \<le> cells_size c" "cells_size c < cells_get_used c + k" "cells_get_used c + k < 2 ^ 32"
    and "cells_get_used c + k - cells_size c \<le> card (evictable k 4 c)"
  shows "\<exists>si kv'. find_slot_evict srt True ub kv = Some (Inr (si, kv')) \<and> \<not> si_empty si \<and>
    slot_ok kv' si 1 k \<and> slot_free kv' si"
proof -
  let ?st = "ub_stream kv ub 0"
  have st: "?st = 0" "?st < kv_n_stream kv" using ubatch_ok_stream[OF assms(2,5), of 0] assms(4) by auto
  have wf: "cells_wf c" and sz: "cells_size c = kv_get_size kv"
    using kv_wf_cells[OF assms(2) st(2)] kv_wf_size[OF assms(2) st(2)] by (simp_all add: c_def)
  have nt: "ub_n_tokens ub = k" using assms(5) by (simp add: ubatch_ok_def)
  obtain m kv' ns where e: "evict_sparse srt k 4 kv = (m, kv')" "only_evicts m kv kv'"
      "m = (\<Sum>t < kv_n_stream kv. ns t)" "\<And>t. t < kv_n_stream kv \<Longrightarrow> evict_spec k 4 (kv_cells kv t) (kv_cells kv' t) (ns t)"
    using score_sort.evict_sparse_spec[OF assms(1,2), of k 4] by blast
  note es = only_evicts_simps[OF e(2)]
  let ?c' = "kv_cells kv' ?st"
  have sp: "evict_spec k 4 c ?c' m" using e(3,4) assms(4) st(1) by (simp add: c_def)
  have ne: "n_evict k c = cells_get_used c + k - cells_size c"
    using assms(8,9) by (simp add: n_evict_def u32_sub_exact)
  have u: "0 < cells_get_used c" using assms(7,8) by simp
  have m: "m = cells_get_used c + k - cells_size c" using sp ne assms(10) u by (simp add: evict_spec_def)
  have room: "cells_get_used ?c' + k = cells_size c"
    using evict_spec_wf(3)[OF wf sp] m assms(8) by simp
  have ub': "ubatch_ok kv' ub 1 k" using assms(5) ubatch_ok_same[OF es(2,3)] by simp
  have st': "ub_stream kv' ub 0 = ?st" by (simp add: es(3))
  have w': "cells_wf ?c'" "cells_size ?c' = cells_size c" using evict_spec_wf[OF wf sp] by simp_all
  obtain s1 where s1: "find_slot False ub kv = Some (Inr s1)"
      "si_empty s1 \<longleftrightarrow> (\<exists>s < 1. length (free_cells k (ub_stream kv ub s) kv) < k)"
    by (rule find_slot_free[OF assms(2,5)]) (rule that)
  have "length (free_cells k ?st kv) < k"
    using free_cells_count[OF assms(2,3) st(2), of k] assms(5,7,8) sz
    by (simp add: c_def ubatch_ok_def) linarith
  then have e1: "si_empty s1" using s1(2) by simp
  obtain s2 where s2: "find_slot False ub kv' = Some (Inr s2)" "\<not> si_empty s2 \<Longrightarrow> slot_ok kv' s2 1 k"
      "\<not> si_empty s2 \<Longrightarrow> kv_swa_type kv' = SWA_NONE \<Longrightarrow> slot_free kv' s2"
      "si_empty s2 \<longleftrightarrow> (\<exists>s < 1. length (free_cells k (ub_stream kv' ub s) kv') < k)"
    by (rule find_slot_free[OF es(1) ub']) (rule that)
  have e2: "\<not> si_empty s2"
    using s2(4) free_cells_count[OF es(1), of ?st k] es(2,11) assms(3) st(2) w'(2) room
      kv_wf_size[OF es(1), of ?st] by (simp add: es(3))
  have "find_slot_evict srt True ub kv = Some (Inr (s2, kv'))"
    using s1(1) e1 e(1) s2(1) m assms(8) nt by (simp add: find_slot_evict_def)
  then show ?thesis using e2 s2(2,3) es(11) assms(3) by simp
qed

section \<open>The properties on concrete caches\<close>

theorem place_ubatch_witness:
  "\<exists>si kv'. find_slot False (ub_one 0 8) kv_one_stream = Some (Inr si) \<and>
     apply_ubatch si (ub_one 0 8) kv_one_stream = Inr kv' \<and> kv_wf kv' \<and>
     kv_view kv' 0 = kv_view kv_one_stream 0 \<union> ubatch_entries (ub_one 0 8) si 1 0"
proof -
  have "\<forall>s < 1. cells_get_used (kv_cells kv_one_stream (ub_stream kv_one_stream (ub_one 0 8) s)) + 1 \<le> kv_get_size kv_one_stream"
    by (simp add: cells_get_used_def cells_two_fields)
  from place_ubatch[OF kv_one_stream_wf _ _ ub_one_ok(1) this] show ?thesis
    by (simp add: ub_one_stream del: kv_one_stream_simps(10)) metis
qed

theorem prepare_restores_witness:
  "\<exists>sis kv'. prepare (sort_key fst) False [ub_one 0 8] kv_one_stream = Some (Inr (sis, kv')) \<and> kv' = kv_one_stream"
  using prepare_restores[of kv_one_stream "[ub_one 0 8]" "sort_key fst"] ub_one_ok(1) by auto

theorem prepare_misplaces_head_witness:
  "\<exists>si kv'. prepare (sort_key fst) False [ub_one 1 8] kv_two_streams = Some (Inr ([si], kv')) \<and>
     kv_head kv' 1 = 2 \<and> kv_head kv_two_streams 1 = 0"
proof -
  obtain si where si: "find_slot False (ub_one 1 8) kv_two_streams = Some (Inr si)"
    "si_empty si \<longleftrightarrow> (\<exists>s < 1. length (free_cells 1 (ub_stream kv_two_streams (ub_one 1 8) s) kv_two_streams) < 1)"
    by (rule find_slot_free[OF kv_two_streams_wf ub_one_ok(3)]) (rule that)
  have "cells_get_used (cells_resize 4 cells_new) = 0"
    by (simp add: cells_get_used_def cells_resize_def cells_reset_def)
  then have "\<not> si_empty si"
    using si(2) free_cells_count[of kv_two_streams 1 1] by (auto simp: ub_one_stream)
  from prepare_misplaces_head[OF kv_two_streams_wf _ _ ub_one_ok(3) si(1) this] show ?thesis
    by (simp add: ub_one_stream) blast
qed

theorem evict_then_find_slot_witness:
  "\<exists>si kv'. find_slot_evict (sort_key fst) True (ub_one 0 8) kv_full = Some (Inr (si, kv')) \<and> \<not> si_empty si"
  using evict_then_find_slot[OF stable.score_sort_axioms kv_full_wf _ _ ub_one_ok(2)]
    kv_full_evictable cells_full(2) kv_full_used
  by (simp add: ub_one_stream) blast

end
