(* ===== verification/KvCache.thy ===== *)
theory KvCache
  imports KvApply
begin

text \<open>
  The cache as a whole: applying pending shifts (\<open>init_update\<close>, \<open>update\<close>), the window \<open>get_n_kv\<close>, and that every
  public operation of \<open>llama_kv_cache\<close> keeps the invariant \<open>kv_wf\<close>.
\<close>

section \<open>Pending shifts\<close>

text \<open>The context of an update takes over the pending stream copies.\<close>

definition init_update :: "llama_kv_cache \<Rightarrow> (bool \<times> nat list \<times> nat list) \<times> llama_kv_cache" where
  "init_update kv =
     ((kv_get_has_shift kv, kv_sc_ssrc kv, kv_sc_sdst kv), kv\<lparr>kv_sc_ssrc := [], kv_sc_sdst := []\<rparr>)"

text \<open>
  \<open>can_shift\<close> is \<open>get_can_shift\<close>, \<open>rope\<close> says that the model has a RoPE type and \<open>graph_ok\<close> that the shift
  graph was allocated and computed. The tensor copies between streams are not part of the state.
\<close>

definition kv_update :: "bool \<Rightarrow> bool \<Rightarrow> bool \<Rightarrow> bool \<Rightarrow> llama_kv_cache \<Rightarrow> err + bool \<times> llama_kv_cache" where
  "kv_update can_shift rope graph_ok do_shift kv =
     (if kv_other kv \<noteq> None then Inr (True, kv)
      else if do_shift then
        if \<not> can_shift then Inl Assert_failed
        else if rope \<and> \<not> graph_ok then Inr (False, kv)
        else Inr (rope, fold (\<lambda>s kv. kv_set_cells s (cells_reset_shift (kv_cells kv s)) kv) [0..<kv_n_stream kv] kv)
      else Inr (False, kv))"

lemma reset_shift_cell: "cells_wf c \<Longrightarrow> i < cells_size c \<Longrightarrow> cell_at (cells_reset_shift c) i = (cell_at c i)\<lparr>k_shift := 0\<rparr>"
  using cells_wf_len[of c] by (simp add: cells_reset_shift_def cell_at_def cells_len_def)

lemma reset_shift_size [simp]: "cells_size (cells_reset_shift c) = cells_size c"
  by (simp add: cells_reset_shift_def)

lemma reset_shift_view [simp]: "cells_view (cells_reset_shift c) = cells_view c"
  by (simp add: cells_reset_shift_def cells_view_def)

lemma reset_shift_fold:
  assumes "kv_wf kv" "m \<le> kv_n_stream kv"
  defines "r \<equiv> fold (\<lambda>s kv. kv_set_cells s (cells_reset_shift (kv_cells kv s)) kv) [0..<m] kv"
  shows "only_cells kv r \<and> (\<forall>t. kv_cells r t = (if t < m then cells_reset_shift (kv_cells kv t) else kv_cells kv t))"
  using assms(2) unfolding r_def
proof (induction m)
  case 0
  then show ?case using assms(1) by (simp add: only_cells_def)
next
  case (Suc m)
  define q where "q = fold (\<lambda>s kv. kv_set_cells s (cells_reset_shift (kv_cells kv s)) kv) [0..<m] kv"
  have q: "only_cells kv q" "\<And>t. kv_cells q t = (if t < m then cells_reset_shift (kv_cells kv t) else kv_cells kv t)"
    using Suc unfolding q_def by simp_all
  note qs = only_cells_simps[OF q(1)]
  have m: "m < kv_n_stream q" using Suc.prems qs(2) by simp
  let ?s = "kv_set_cells m (cells_reset_shift (kv_cells q m)) q"
  have "kv_wf ?s"
    by (rule kv_wf_set_cells[OF qs(1) m]) (use kv_wf_cells[OF qs(1) m] kv_wf_size[OF qs(1) m] in \<open>simp_all add: reset_shift_wf\<close>)
  then have "only_cells q ?s" by (simp add: only_cells_def kv_set_cells_def)
  from only_cells_trans[OF q(1) this]
  have "only_cells kv ?s" .
  moreover have "kv_cells ?s t = (if t < Suc m then cells_reset_shift (kv_cells kv t) else kv_cells kv t)" for t
    using q(2)[of t] q(2)[of m] m kv_wf_lens(1)[OF qs(1)] by (cases "t = m") auto
  ultimately show ?case by (simp add: q_def[symmetric])
qed

lemma has_shift_iff: "kv_get_has_shift kv \<longleftrightarrow> (\<exists>s < kv_n_stream kv. c_has_shift (kv_cells kv s))"
proof -
  have "fold (\<lambda>s r. r \<or> f s) [0..<m] False \<longleftrightarrow> (\<exists>s < m. f s)" for f :: "nat \<Rightarrow> bool" and m
    by (induction m) (auto simp: less_Suc_eq)
  then show ?thesis by (simp add: kv_get_has_shift_def)
qed

text \<open>An update whose graph succeeds clears every pending shift and the shift flag and changes
  neither positions nor sequences.\<close>

theorem update_clears_shifts:
  assumes "kv_wf kv" "kv_other kv = None" "graph_ok \<or> \<not> rope"
  shows "\<exists>b kv'. kv_update True rope graph_ok True kv = Inr (b, kv') \<and> only_cells kv kv' \<and> \<not> kv_get_has_shift kv' \<and>
    (\<forall>st < kv_n_stream kv. kv_view kv' st = kv_view kv st \<and>
       (\<forall>i < kv_get_size kv. cell_at (kv_cells kv' st) i = (cell_at (kv_cells kv st) i)\<lparr>k_shift := 0\<rparr>))"
proof -
  define kv' where "kv' = fold (\<lambda>s kv. kv_set_cells s (cells_reset_shift (kv_cells kv s)) kv) [0..<kv_n_stream kv] kv"
  have r: "only_cells kv kv'" "\<And>t. t < kv_n_stream kv \<Longrightarrow> kv_cells kv' t = cells_reset_shift (kv_cells kv t)"
    using reset_shift_fold[OF assms(1) order_refl] by (simp_all add: kv'_def)
  have "\<not> kv_get_has_shift kv'"
    using r(2) only_cells_simps(2)[OF r(1)] by (simp add: has_shift_iff cells_reset_shift_def)
  moreover have "kv_view kv' st = kv_view kv st \<and>
      (\<forall>i < kv_get_size kv. cell_at (kv_cells kv' st) i = (cell_at (kv_cells kv st) i)\<lparr>k_shift := 0\<rparr>)"
    if "st < kv_n_stream kv" for st
    using r(2)[OF that] kv_wf_cells[OF assms(1) that] kv_wf_size[OF assms(1) that]
    by (simp add: kv_view_def reset_shift_cell)
  moreover have "kv_update True rope graph_ok True kv = Inr (rope, kv')"
    using assms(2,3) by (auto simp: kv_update_def kv'_def)
  ultimately show ?thesis using r(1) by blast
qed

section \<open>The attention window covers the used cells\<close>

lemma ggml_pad_ge:
  assumes "x + 2 ^ e < 2 ^ 32"
  shows "x \<le> ggml_pad x (2 ^ e)"
proof -
  have m: "(of_nat (2 ^ e) - 1 :: 32 word) = mask e" by (simp add: mask_eq_exp_minus_1)
  have "1 \<le> x + 2 ^ e" by (simp add: add_increasing)
  then have "of_nat (x + 2 ^ e - 1) = (of_nat (x + 2 ^ e) - of_nat 1 :: 32 word)" by (rule of_nat_diff)
  then have "ggml_pad x (2 ^ e) = unat ((of_nat (x + 2 ^ e - 1) :: 32 word) AND NOT (mask e))"
    unfolding ggml_pad_def m by simp
  also have "\<dots> = (x + 2 ^ e - 1) div 2 ^ e * 2 ^ e"
    using assms by (simp add: unat_clear_low unat_of_nat)
  finally show ?thesis using round_up_ge[of "2 ^ e" x] by simp
qed

lemma used_max_le: "cells_wf c \<Longrightarrow> cells_used_max_p1 c \<le> cells_size c"
  using Max_in[of "c_used c"] used_sub[of c] by (auto simp: cells_used_max_p1_def Suc_le_eq)

lemma fold_max_le_iff: "fold (\<lambda>s r. max (f s) r) ss z \<le> b \<longleftrightarrow> z \<le> b \<and> (\<forall>s \<in> set ss. f s \<le> b)" for z :: nat
  by (induction ss arbitrary: z) auto

text \<open>For a power-of-two padding the window \<open>get_n_kv\<close> covers every used cell of every stream of
  the slot, and never exceeds the cache.\<close>

theorem get_n_kv_covers:
  assumes "kv_wf kv" "max (kv_n_pad kv) 256 = 2 ^ e" "kv_get_size kv + 2 ^ e < 2 ^ 32"
    and "\<forall>st \<in> set (si_strm si). st < kv_n_stream kv"
  shows "get_n_kv si kv \<le> kv_get_size kv \<and>
    (\<forall>st \<in> set (si_strm si). \<forall>i < kv_get_size kv. c_pos (kv_cells kv st) ! i \<noteq> -1 \<longrightarrow> i < get_n_kv si kv)"
proof -
  define f where "f s = min (cells_size (kv_cells kv (si_strm si ! s)))
    (max (2 ^ e) (ggml_pad (cells_used_max_p1 (kv_cells kv (si_strm si ! s))) (2 ^ e)))" for s
  have g: "get_n_kv si kv = fold (\<lambda>s r. max (f s) r) [0..<length (si_strm si)] 0"
    unfolding get_n_kv_def assms(2) f_def Let_def si_n_stream_def by simp
  have st: "si_strm si ! s < kv_n_stream kv" if "s < length (si_strm si)" for s using assms(4) that by simp
  have "f s \<le> kv_get_size kv" if "s < length (si_strm si)" for s
    using kv_wf_size[OF assms(1) st[OF that]] by (simp add: f_def)
  then have le: "get_n_kv si kv \<le> kv_get_size kv" unfolding g fold_max_le_iff by simp
  have "i < get_n_kv si kv" if a: "t \<in> set (si_strm si)" "i < kv_get_size kv" "c_pos (kv_cells kv t) ! i \<noteq> -1" for t i
  proof -
    obtain s where s: "s < length (si_strm si)" "t = si_strm si ! s" using a(1) by (metis in_set_conv_nth)
    let ?c = "kv_cells kv t"
    have t: "t < kv_n_stream kv" using st s by simp
    have wf: "cells_wf ?c" and n: "cells_size ?c = kv_get_size kv"
      using kv_wf_cells[OF assms(1) t] kv_wf_size[OF assms(1) t] by simp_all
    have u: "i \<in> c_used ?c" using a n used_iff[OF wf, of i] by simp
    have "i < cells_used_max_p1 ?c" using Max_ge[OF finite_used[OF wf] u] u by (auto simp: cells_used_max_p1_def)
    moreover have "cells_used_max_p1 ?c \<le> ggml_pad (cells_used_max_p1 ?c) (2 ^ e)"
      using used_max_le[OF wf] n assms(3) by (intro ggml_pad_ge) simp
    ultimately have "i < f s" using a(2) n s(2) by (simp add: f_def)
    also have "f s \<le> get_n_kv si kv" 
      using order_refl[of "get_n_kv si kv"] s(1) unfolding g fold_max_le_iff by simp
    finally show ?thesis .
  qed
  with le show ?thesis by blast
qed

section \<open>Every operation keeps the cache well-formed\<close>

context cell_sweep
begin

lemma rm_stream_size:
  assumes "kv_wf kv" "st < kv_n_stream kv"
  shows "kv_get_size (rm_stream body st kv) = kv_get_size kv"
proof -
  let ?c = "fst (sweep_cells body (kv_cells kv st))"
  have "kv_get_size (rm_stream body st kv) = kv_get_size (kv_set_cells st ?c kv)"
    by (simp add: rm_stream_def kv_get_size_def split_beta)
  also have "\<dots> = kv_get_size kv"
    using assms sweep_size[OF kv_wf_cells[OF assms]] kv_wf_size[OF assms] kv_wf_lens(1)[OF assms(1)]
    by (intro kv_get_size_set_cells) simp_all
  finally show ?thesis .
qed

end

lemma kv_seq_rm_wf:
  assumes "kv_wf kv" "kv_seq_rm s p0 p1 kv = Inr (b, kv')"
  shows "kv_wf kv'" "kv_same_config kv kv'"
proof -
  have "kv' = kv \<or> (\<exists>t < length (kv_seq_to_stream kv). \<exists>a c d. kv' = rm_stream (seq_rm_body a c d) (kv_seq_to_stream kv ! t) kv) \<or>
      (\<exists>a c. kv' = fold (rm_stream (rm_any_body a c)) [0..<kv_n_stream kv] kv)"
    using assms(2) by (auto simp: kv_seq_rm_def Let_def seq_id_ok_def split: if_splits)
  then show "kv_wf kv'" "kv_same_config kv kv'"
    using assms(1) rm1.rm_stream_wf[OF assms(1) kv_wf_stream[OF assms(1)]] rm1.rm_stream_config
      rm_all.fold_rm_stream[OF assms(1) order_refl]
    by (auto simp: kv_same_config_def)
qed

lemma kv_seq_rm_size:
  assumes "kv_wf kv" "kv_seq_rm (int s) p0 p1 kv = Inr (b, kv')"
  shows "kv_get_size kv' = kv_get_size kv"
proof -
  have "kv' = kv \<or> (\<exists>a c d. s < length (kv_seq_to_stream kv) \<and> kv' = rm_stream (seq_rm_body a c d) (kv_seq_to_stream kv ! s) kv)"
    using assms(2) by (auto simp: kv_seq_rm_def Let_def seq_id_ok_def split: if_splits)
  then show ?thesis using rm1.rm_stream_size[OF assms(1) kv_wf_stream[OF assms(1)]] by auto
qed

lemma kv_seq_keep_wf: "kv_wf kv \<Longrightarrow> kv_seq_keep s kv = Inr kv' \<Longrightarrow> kv_wf kv'"
  by (auto simp: kv_seq_keep_def seq_id_ok_def split: if_splits intro!: keep.rm_stream_wf kv_wf_stream)

lemma kv_seq_add_wf:
  assumes "kv_wf kv" "kv_seq_add s p0 p1 d kv = Inr kv'"
  shows "kv_wf kv'"
proof (cases "kv' = kv")
  case False
  let ?st = "kv_seq_to_stream kv ! nat s" and ?b = "seq_add_body (nat s) (clamp_p0 p0) (clamp_p1 p1) d"
  let ?r = "sweep_cells ?b (kv_cells kv ?st)"
  have r: "kv' = kv_set_head ?st (if snd ?r \<noteq> cells_size (fst ?r) then snd ?r else 0) (kv_set_cells ?st (fst ?r) kv)"
    and s: "nat s < length (kv_seq_to_stream kv)"
    using assms(2) False by (auto simp: kv_seq_add_def Let_def seq_id_ok_def split_beta split: if_splits)
  note st = kv_wf_stream[OF assms(1) s] and c = kv_wf_cells[OF assms(1) kv_wf_stream[OF assms(1) s]]
  have "snd ?r \<le> kv_get_size kv"
    using shift.sweep_head[OF c] kv_wf_size[OF assms(1) st] by (simp add: first_such_le)
  then show ?thesis
    unfolding r using shift.sweep_wf[OF c] shift.sweep_size[OF c] kv_wf_size[OF assms(1) st]
    by (intro kv_wf_set_stream[OF assms(1) st]) simp_all
qed (use assms(1) in simp)

lemma kv_seq_div_wf:
  assumes "kv_wf kv" "kv_seq_div s p0 p1 d kv = Inr kv'" "0 < d"
  shows "kv_wf kv'"
proof (cases "kv' = kv")
  case False
  let ?st = "kv_seq_to_stream kv ! nat s" and ?b = "seq_div_body (nat s) (clamp_p0 p0) (clamp_p1 p1) d"
  have r: "kv' = kv_set_cells ?st (fst (sweep_cells ?b (kv_cells kv ?st))) kv"
    and s: "nat s < length (kv_seq_to_stream kv)"
    using assms(2) False by (auto simp: kv_seq_div_def Let_def seq_id_ok_def split: if_splits)
  note st = kv_wf_stream[OF assms(1) s] and c = kv_wf_cells[OF assms(1) kv_wf_stream[OF assms(1) s]]
  note dv = seq_div_sweep[OF assms(3)]
  show ?thesis
    unfolding r using cell_sweep.sweep_wf[OF dv c] cell_sweep.sweep_size[OF dv c] kv_wf_size[OF assms(1) st]
    by (intro kv_wf_set_cells[OF assms(1) st]) simp_all
qed (use assms(1) in simp)

lemma kv_seq_cp_wf:
  assumes "kv_wf kv" "kv_seq_cp src dst p0 p1 kv = Inr kv'"
  shows "kv_wf kv'"
proof (cases "kv' = kv")
  case False
  let ?s0 = "kv_seq_to_stream kv ! nat src" and ?s1 = "kv_seq_to_stream kv ! nat dst"
  have ok: "seq_id_ok src kv" "seq_id_ok dst kv"
    using assms(2) False by (auto simp: kv_seq_cp_def split: if_splits)
  have st: "?s0 < kv_n_stream kv" "?s1 < kv_n_stream kv"
    using ok by (auto simp: seq_id_ok_def intro!: kv_wf_stream[OF assms(1)])
  note c0 = kv_wf_cells[OF assms(1) st(1)] kv_wf_size[OF assms(1) st(1)]
    and c1 = kv_wf_cells[OF assms(1) st(2)] kv_wf_size[OF assms(1) st(2)]
    and dst = kv_wf_seq_id[OF assms(1) ok(2)]
  note cp = seq_cp_sweep[OF dst]
  show ?thesis
  proof (cases "?s0 = ?s1")
    case True
    then have "kv' = kv_set_cells ?s0 (fst (sweep_cells (seq_cp_body (nat src) (nat dst) (clamp_p0 p0) (clamp_p1 p1)) (kv_cells kv ?s0))) kv"
      using assms(2) False by (auto simp: kv_seq_cp_def Let_def split: if_splits)
    then show ?thesis
      using cell_sweep.sweep_wf[OF cp c0(1)] cell_sweep.sweep_size[OF cp c0(1)] c0(2)
      by (simp add: kv_wf_set_cells[OF assms(1) st(1)])
  next
    case False
    let ?c = "fold (cp_cell (kv_cells kv ?s0) (nat src) (nat dst)) [0..<cells_size (kv_cells kv ?s0)] (cells_reset (kv_cells kv ?s1))"
    let ?kv = "kv\<lparr>kv_sc_ssrc := kv_sc_ssrc kv @ [?s0], kv_sc_sdst := kv_sc_sdst kv @ [?s1]\<rparr>"
    have r: "kv' = kv_set_head ?s1 (kv_head kv ?s0) (kv_set_cells ?s1 ?c ?kv)"
      using assms(2) ok False \<open>kv' \<noteq> kv\<close> by (auto simp: kv_seq_cp_def Let_def kv_set_cells_def split: if_splits)
    have f: "cells_wf ?c" "cells_size ?c = kv_get_size kv"
      using cp_cells_fold[OF c1(1) c0(1) _ dst, of "cells_size (kv_cells kv ?s0)" "nat src"] c0(2) c1(2) by simp_all
    have g: "kv_get_size ?kv = kv_get_size kv" by (simp add: kv_get_size_def)
    show ?thesis
      unfolding r by (rule kv_wf_set_stream) (use assms(1) st f g kv_wf_head[OF assms(1) st(1)] in simp_all)
  qed
qed (use assms(1) in simp)

lemma slot_ok_found:
  assumes "kv_wf kv" "ubatch_ok kv ub n k" "find_slot cont ub kv = Some (Inr si)" "\<not> si_empty si"
    and "kv_get_size kv < 2 ^ 32"
  shows "slot_ok kv si n k"
proof (cases cont)
  case False
  obtain si' where "find_slot False ub kv = Some (Inr si')" "\<not> si_empty si' \<Longrightarrow> slot_ok kv si' n k"
    by (rule find_slot_free[OF assms(1,2)]) (rule that)
  then show ?thesis using assms(3,4) False by simp
next
  case True
  let ?R = "\<lambda>s. is_run (usable kv (ub_stream kv ub s)) (kv_get_size kv) k"
  have run: "si_strm si = map (ub_stream kv ub) [0..<n]" "length (si_idxs si) = n"
    "\<forall>s < n. \<exists>p. si_idxs si ! s = [p..<p + k] \<and> ?R s p"
    using find_slot_cont_eq[OF assms(1,2,5)] assms(3,4) True
    by (simp_all add: si_empty_def si_none_def split: if_split_asm)
  have "length (si_idxs si ! s) = k \<and> (\<forall>i \<in> set (si_idxs si ! s). i < kv_get_size kv)" if "s < n" for s
    using run(3) that by (force simp: is_run_def)
  then show ?thesis
    using assms(2) ubatch_ok_stream[OF assms(1,2)] run(1,2) by (simp add: slot_ok_def ubatch_ok_def)
qed

lemma purge_seqs_wf:
  assumes "kv_wf kv" "purge_seqs rm ss kv = Inr kv'"
  shows "kv_wf kv' \<and> kv_n_stream kv' = kv_n_stream kv \<and> kv_get_size kv' = kv_get_size kv"
  using assms
proof (induction ss arbitrary: kv)
  case (Cons s ss)
  show ?case
  proof (cases "purge_seqs rm (s # ss) kv = purge_seqs rm ss kv")
    case True
    then show ?thesis using Cons by simp
  next
    case False
    then obtain p q b kv1 where r: "kv_seq_rm (int s) p q kv = Inr (b, kv1)" "purge_seqs rm ss kv1 = Inr kv'"
      using Cons.prems(2) by (auto simp: Let_def split: if_splits sum.splits)
    have "kv_wf kv1" "kv_n_stream kv1 = kv_n_stream kv" "kv_get_size kv1 = kv_get_size kv"
      using kv_seq_rm_wf[OF Cons.prems(1) r(1)] kv_seq_rm_size[OF Cons.prems(1) r(1)] kv_same_config_simps(1) by auto
    then show ?thesis using Cons.IH[OF _ r(2)] by simp
  qed
qed simp

lemma apply_ubatch_wf:
  assumes "kv_wf kv" "slot_ok kv si n k" "\<forall>i < n * k. token_ok ub i" "apply_ubatch si ub kv = Inr kv'"
  shows "kv_wf kv'"
proof (cases "kv_other kv = None")
  case True
  define r where "r = apply_tokens si ub k (\<lambda>_. -1, kv)"
  have n: "0 < n" "si_size si = Inr k" "si_n_stream si = n" 
    using assms(2) slot_ok_size[OF assms(2)] by (simp_all add: slot_ok_def)
  have a: "only_cells kv (snd r)" "kv_get_size (snd r) = kv_get_size kv"
    using apply_tokens_cells[OF assms(1-3) order_refl, of "\<lambda>_. -1"] n(3) by (simp_all add: r_def apply_tokens_def)
  have "apply_ubatch si ub kv = (case purge_seqs (fst r) [0..<LLAMA_MAX_SEQ] (snd r) of
      Inl e \<Rightarrow> Inl e | Inr kv \<Rightarrow> Inr (move_heads si kv))"
    using True n by (simp only: apply_ubatch_def r_def split_beta Let_def) simp
  then obtain kv2 where p: "purge_seqs (fst r) [0..<LLAMA_MAX_SEQ] (snd r) = Inr kv2" "kv' = move_heads si kv2"
    using assms(4) by (auto split: sum.splits)
  have w: "kv_wf kv2" "kv_n_stream kv2 = kv_n_stream kv" "kv_get_size kv2 = kv_get_size kv"
    using purge_seqs_wf[OF only_cells_simps(1)[OF a(1)] p(1)] only_cells_simps(2)[OF a(1)] a(2) by simp_all
  have "slot_ok kv2 si n k" using assms(2) w(2,3) by (simp add: slot_ok_def)
  then show ?thesis using move_heads_wf[OF w(1)] p(2) by blast
qed (use assms in \<open>simp add: apply_ubatch_def\<close>)

lemma kv_wf_policy [simp]:
  "kv_wf (kv\<lparr>kv_floor_sc := fl, kv_protect := pr\<rparr>) = kv_wf kv"
  "kv_wf (kv\<lparr>kv_probe_strm := st\<rparr>) = kv_wf kv"
  by (simp_all add: kv_wf_def kv_get_size_def)

lemma policy_sweep_wf: "kv_wf kv \<Longrightarrow> kv_wf (snd (vitriol_policy_sweep kv))"
  using policy_sweep_fold[of kv "kv_n_stream kv" "kv_floor_sc kv"] only_evicts_simps(1)
  by (auto simp: vitriol_policy_sweep_def Let_def)

lemma probe_finish_wf:
  assumes "kv_wf kv" "kv_probe_strm kv < kv_n_stream kv"
  shows "kv_wf (vitriol_probe_finish fmadd dec kv)"
proof (cases "kv_probe_pending kv \<and> kv_probe_out kv \<noteq> None")
  case True
  then obtain scores where sc: "kv_probe_pending kv" "kv_probe_out kv = Some scores" by blast
  let ?st = "kv_probe_strm kv"
  let ?c = "cells_scored fmadd dec scores (kv_cells kv ?st)"
  let ?kv = "(kv_set_cells ?st ?c kv)\<lparr>kv_probe_pending := False, kv_probe_out := None\<rparr>"
  note c = kv_wf_cells[OF assms] kv_wf_size[OF assms]
  have w: "kv_wf ?kv"
    using kv_wf_set_cells[OF assms cells_scored_wf[OF c(1)]] cells_scored_size[OF c(1)] c(2) by simp
  have s: "?st < kv_n_stream ?kv" using assms(2) by simp
  have "kv_wf (snd (vitriol_sweep_stream ?st fl pr ?kv))" for fl pr
    unfolding sweep_stream_eq[OF w s] snd_conv kv_wf_evicted
    using kv_wf_set_cells[OF w s cells_swept_wf[OF kv_wf_cells[OF w s]]]
      cells_swept_size[OF kv_wf_cells[OF w s]] kv_wf_size[OF w s] by simp
  then show ?thesis
    using sc w cells_scored_eq[OF c(1), of fmadd dec scores]
    by (simp add: vitriol_probe_finish_def Let_def)
qed (use assms(1) in \<open>auto simp: vitriol_probe_finish_def split: option.splits\<close>)

lemma kv_update_wf: "kv_wf kv \<Longrightarrow> kv_update cs rp gr ds kv = Inr (b, kv') \<Longrightarrow> kv_wf kv'"
  using reset_shift_fold[of kv "kv_n_stream kv"] only_cells_simps(1)
  by (auto simp: kv_update_def split: if_splits)

section \<open>The properties on concrete caches\<close>

theorem update_clears_shifts_witness:
  "\<exists>b kv'. kv_update True True True True kv_one_stream = Inr (b, kv') \<and> only_cells kv_one_stream kv' \<and>
     \<not> kv_get_has_shift kv' \<and> kv_view kv' 0 = kv_view kv_one_stream 0"
  using update_clears_shifts[of kv_one_stream True True] by auto

theorem get_n_kv_covers_witness:
  "get_n_kv \<lparr>si_s0 = 0, si_s1 = 0, si_strm = [0], si_idxs = [[2]]\<rparr> kv_one_stream \<le> 4 \<and>
   1 < get_n_kv \<lparr>si_s0 = 0, si_s1 = 0, si_strm = [0], si_idxs = [[2]]\<rparr> kv_one_stream"
proof -
  let ?si = "\<lparr>si_s0 = 0, si_s1 = 0, si_strm = [0], si_idxs = [[2]]\<rparr>"
  have "max (kv_n_pad kv_one_stream) 256 = 2 ^ 8" by simp
  from get_n_kv_covers[OF kv_one_stream_wf this, of ?si] show ?thesis
    by (auto simp: cells_two_fields dest!: spec[of _ 1])
qed

end
