(* ===== verification/KvDryRun.thy ===== *)
theory KvDryRun
  imports KvCache
begin

text \<open>
  The dry run of \<open>prepare\<close> on any cache, with a sliding window and with sparse eviction too. Cells that are overwritten get their old
  content back, but positions that were purged and cells that were evicted on the way are lost: the cache may only shrink. The order
  \<open>kv_below\<close> on caches says this cell by cell.
\<close>

section \<open>Caches with less in them\<close>

definition cell_le :: "kv_cell \<Rightarrow> kv_cell \<Rightarrow> bool" where
  "cell_le a b \<longleftrightarrow> k_seq a \<subseteq> k_seq b \<and> (k_seq a \<noteq> {} \<longrightarrow> k_pos a = k_pos b) \<and> (k_shift b = 0 \<longrightarrow> k_shift a = 0)"

lemma cell_le_refl [simp]: "cell_le k k" and cell_le_trans: "cell_le a b \<Longrightarrow> cell_le b c \<Longrightarrow> cell_le a c"
  by (auto simp: cell_le_def)

lemma cell_le_cleared [simp]: "cell_le (cell_cleared k) k" and cell_le_drop [simp]: "cell_le (drop_seq s k) k"
  by (auto simp: cell_le_def cell_cleared_def drop_seq_def)

definition kv_conf :: "llama_kv_cache \<Rightarrow> nat \<times> nat list \<times> nat list option \<times> nat \<times> llama_swa_type \<times> nat" where
  "kv_conf kv = (kv_n_stream kv, kv_seq_to_stream kv, kv_other kv, kv_n_swa kv, kv_swa_type kv, kv_get_size kv)"

definition kv_below :: "(nat \<times> nat) set \<Rightarrow> llama_kv_cache \<Rightarrow> llama_kv_cache \<Rightarrow> bool" where
  "kv_below I a b \<longleftrightarrow> kv_wf a \<and> kv_conf a = kv_conf b \<and>
     (\<forall>st < kv_n_stream b. \<forall>i < kv_get_size b. (st, i) \<notin> I \<longrightarrow> cell_le (cell_at (kv_cells a st) i) (cell_at (kv_cells b st) i))"

lemma kv_conf_simps:
  assumes "kv_conf a = kv_conf b"
  shows "kv_n_stream a = kv_n_stream b" "kv_seq_to_stream a = kv_seq_to_stream b" "kv_other a = kv_other b"
    "kv_swa_type a = kv_swa_type b" "kv_get_size a = kv_get_size b"
  using assms by (auto simp: kv_conf_def)

lemma kv_below_refl: "kv_wf kv \<Longrightarrow> kv_below I kv kv"
  by (simp add: kv_below_def)

lemma kv_below_trans: "kv_below I a b \<Longrightarrow> kv_below J b c \<Longrightarrow> kv_below (I \<union> J) a c"
  unfolding kv_below_def by (simp add: kv_conf_simps[of b c]) (meson cell_le_trans)

lemma kv_below_view:
  assumes "kv_below {} a b" "kv_wf b" "st < kv_n_stream b"
  shows "kv_view a st \<subseteq> kv_view b st"
proof -
  have a: "kv_wf a" "kv_n_stream a = kv_n_stream b" "kv_get_size a = kv_get_size b"
    using assms(1) kv_conf_simps[of a b] by (auto simp: kv_below_def)
  show ?thesis
  proof (rule subrelI)
    fix s pi assume "(s, pi) \<in> kv_view a st"
    moreover obtain p i where pi: "pi = (p, i)" by (cases pi)
    ultimately have v: "i < kv_get_size b" "s \<in> c_seq (kv_cells a st) ! i" "p = c_pos (kv_cells a st) ! i"
      using kv_view_iff[OF a(1), of st s p i] a(2,3) assms(3) by auto
    have "cell_le (cell_at (kv_cells a st) i) (cell_at (kv_cells b st) i)" using assms(1,3) v(1) by (simp add: kv_below_def)
    then show "(s, pi) \<in> kv_view b st" using v kv_view_iff[OF assms(2,3)] by (auto simp: cell_le_def pi)
  qed
qed

section \<open>Overwriting cells\<close>

text \<open>What \<open>place_cells\<close> does to cells that may be occupied.\<close>

lemma place_cells_round:
  assumes "cells_wf c" "\<forall>i \<in> set idxs. i < cells_size c" "\<forall>ii < length idxs. token_ok ub (base + ii)" "m < length idxs"
  shows "\<exists>k. k_shift k = 0 \<and> (\<forall>j. cell_at (place_cells kv ub base (take (Suc m) idxs) c) j =
    (if j = idxs ! m then placed_cell kv ub (base + m) k else cell_at (place_cells kv ub base (take m idxs) c) j))"
proof -
  define q where "q = place_cells kv ub base (take m idxs) c"
  have w: "cells_wf q" "cells_size q = cells_size c"
    using place_cells_wf[OF assms(1), of "take m idxs" ub base kv] assms(2,3) by (auto simp: q_def dest: in_set_takeD)
  let ?i = "idxs ! m"
  have i: "?i < cells_size q" using assms(2,4) w(2) by simp
  note f = freed_cell[OF w(1) i]
  have fi: "cells_wf (freed_cell ?i q)" "?i < cells_size (freed_cell ?i q)" "c_pos (freed_cell ?i q) ! ?i = -1" using f i by simp_all
  have "token_ok ub (base + m)" using assms(3,4) by simp
  note p = place_token[OF fi this, of kv]
  have "k_shift (cell_at (freed_cell ?i q) ?i) = 0" using cells_wf_ok[OF fi(1,2)] fi(3) by (simp add: cell_ok_def)
  moreover have "place_cells kv ub base (take (Suc m) idxs) c = place_token kv ub (base + m) ?i (freed_cell ?i q)"
    using assms(4) by (simp add: place_cells_take q_def)
  ultimately show ?thesis unfolding q_def[symmetric] using p f by (intro exI[of _ "cell_at (freed_cell ?i q) ?i"]) simp
qed

lemma place_cells_rounds:
  assumes "cells_wf c" "\<forall>i \<in> set idxs. i < cells_size c" "\<forall>ii < length idxs. token_ok ub (base + ii)" "m \<le> length idxs"
  shows "(\<forall>j. j \<notin> set (take m idxs) \<longrightarrow> cell_at (place_cells kv ub base (take m idxs) c) j = cell_at c j) \<and>
    (\<forall>j \<in> set (take m idxs). \<exists>ii < m. idxs ! ii = j \<and> (\<exists>k. k_shift k = 0 \<and>
      cell_at (place_cells kv ub base (take m idxs) c) j = placed_cell kv ub (base + ii) k))"
  using assms(4)
proof (induction m)
  case 0
  then show ?case by (simp add: place_cells_def)
next
  case (Suc m)
  let ?q = "place_cells kv ub base (take m idxs) c" and ?r = "place_cells kv ub base (take (Suc m) idxs) c"
  have q: "\<And>j. j \<notin> set (take m idxs) \<Longrightarrow> cell_at ?q j = cell_at c j"
    "\<And>j. j \<in> set (take m idxs) \<Longrightarrow> \<exists>ii < m. idxs ! ii = j \<and> (\<exists>k. k_shift k = 0 \<and> cell_at ?q j = placed_cell kv ub (base + ii) k)"
    using Suc by simp_all
  have m: "m < length idxs" using Suc.prems by simp
  obtain k where k: "k_shift k = 0" "\<And>j. cell_at ?r j = (if j = idxs ! m then placed_cell kv ub (base + m) k else cell_at ?q j)"
    using place_cells_round[OF assms(1-3) m, of kv] by blast
  have s: "set (take (Suc m) idxs) = insert (idxs ! m) (set (take m idxs))" using m by (simp add: take_Suc_conv_app_nth)
  show ?case
  proof (intro conjI allI impI ballI)
    fix j assume "j \<notin> set (take (Suc m) idxs)"
    then show "cell_at ?r j = cell_at c j" using k(2) q(1) s by simp
  next
    fix j assume j: "j \<in> set (take (Suc m) idxs)"
    show "\<exists>ii < Suc m. idxs ! ii = j \<and> (\<exists>k. k_shift k = 0 \<and> cell_at ?r j = placed_cell kv ub (base + ii) k)"
    proof (cases "j = idxs ! m")
      case True
      then show ?thesis using k by (intro exI[of _ m] conjI exI[of _ k]) auto
    next
      case False
      then have "j \<in> set (take m idxs)" using j s by simp
      then show ?thesis using q(2)[of j] k(2)[of j] False by (metis less_SucI)
    qed
  qed
qed

lemma place_cells_any:
  fixes kv :: llama_kv_cache
  assumes "cells_wf c" "\<forall>i \<in> set idxs. i < cells_size c" "\<forall>ii < length idxs. token_ok ub (base + ii)"
  defines "r \<equiv> place_cells kv ub base idxs c"
  shows "j \<notin> set idxs \<Longrightarrow> cell_at r j = cell_at c j"
    and "j \<in> set idxs \<Longrightarrow> c_shift r ! j = 0 \<and> (\<exists>ii < length idxs. idxs ! ii = j \<and> c_pos r ! j = ub_pos ub ! (base + ii) \<and>
       c_seq r ! j = (\<lambda>j. nat (ub_seq_id ub ! (base + ii) ! j)) ` {..<ub_n_seq_id ub ! (base + ii)})"
proof -
  from place_cells_rounds[OF assms(1-3) order_refl, of kv] have m: "\<And>j. j \<notin> set idxs \<Longrightarrow> cell_at r j = cell_at c j"
    "\<And>j. j \<in> set idxs \<Longrightarrow> \<exists>ii < length idxs. idxs ! ii = j \<and> (\<exists>k. k_shift k = 0 \<and> cell_at r j = placed_cell kv ub (base + ii) k)"
    by (simp_all add: r_def)
  show "j \<notin> set idxs \<Longrightarrow> cell_at r j = cell_at c j" by (rule m(1))
  assume "j \<in> set idxs"
  then obtain ii k where ii: "ii < length idxs" "idxs ! ii = j" "k_shift k = 0" "cell_at r j = placed_cell kv ub (base + ii) k" using m(2) by blast
  from arg_cong[OF ii(4), of k_shift] arg_cong[OF ii(4), of k_pos] arg_cong[OF ii(4), of k_seq] ii(1-3)
  show "c_shift r ! j = 0 \<and> (\<exists>ii < length idxs. idxs ! ii = j \<and> c_pos r ! j = ub_pos ub ! (base + ii) \<and>
       c_seq r ! j = (\<lambda>j. nat (ub_seq_id ub ! (base + ii) ! j)) ` {..<ub_n_seq_id ub ! (base + ii)})"
    by (auto simp: placed_cell_def)
qed

definition slot_cells :: "slot_info \<Rightarrow> (nat \<times> nat) set" where
  "slot_cells si = {(si_strm si ! s, i) |s i. s < length (si_strm si) \<and> i \<in> set (si_idxs si ! s)}"

text \<open>The pairs of sequence and position of the tokens a ubatch has for stream number \<open>s\<close> of its slot.\<close>

definition ub_pairs :: "llama_ubatch \<Rightarrow> nat \<Rightarrow> nat \<Rightarrow> (nat \<times> llama_pos) set" where
  "ub_pairs ub k s = {(nat (ub_seq_id ub ! (s * k + ii) ! j), ub_pos ub ! (s * k + ii)) |ii j. ii < k \<and> j < ub_n_seq_id ub ! (s * k + ii)}"

lemma ub_pairsI: "ii < k \<Longrightarrow> j < ub_n_seq_id ub ! (s * k + ii) \<Longrightarrow> (nat (ub_seq_id ub ! (s * k + ii) ! j), ub_pos ub ! (s * k + ii)) \<in> ub_pairs ub k s"
  unfolding ub_pairs_def by blast

lemma apply_tokens_below:
  fixes rm :: "nat \<Rightarrow> int"
  assumes "kv_wf kv" "slot_ok kv si n k" "\<forall>i < n * k. token_ok ub i"
  defines "kv' \<equiv> snd (apply_tokens si ub k (rm, kv))"
  shows "kv_below (slot_cells si) kv' kv"
    "\<And>s i. s < n \<Longrightarrow> i \<in> set (si_idxs si ! s) \<Longrightarrow> c_shift (kv_cells kv' (si_strm si ! s)) ! i = 0 \<and>
       (\<forall>t \<in> c_seq (kv_cells kv' (si_strm si ! s)) ! i. (t, c_pos (kv_cells kv' (si_strm si ! s)) ! i) \<in> ub_pairs ub k s)"
proof -
  have n: "length (si_strm si) = n" "si_n_stream si = n" using assms(2) slot_ok_size(2)[OF assms(2)] by (simp_all add: slot_ok_def)
  have a: "only_cells kv kv'" "kv_get_size kv' = kv_get_size kv"
    "\<And>s. s < n \<Longrightarrow> kv_cells kv' (si_strm si ! s) = place_cells kv ub (s * k) (si_idxs si ! s) (kv_cells kv (si_strm si ! s))"
    "\<And>t. t \<notin> set (si_strm si) \<Longrightarrow> kv_cells kv' t = kv_cells kv t"
    using apply_tokens_cells[OF assms(1-3) order_refl, of rm] n by (simp_all add: kv'_def apply_tokens_def)
  have ix: "cells_wf (kv_cells kv (si_strm si ! s))" "\<forall>i \<in> set (si_idxs si ! s). i < cells_size (kv_cells kv (si_strm si ! s))"
      "\<forall>ii < length (si_idxs si ! s). token_ok ub (s * k + ii)" "length (si_idxs si ! s) = k" if "s < n" for s
    using assms(2) that slot_tokens_ok[OF assms(3) that] kv_wf_cells[OF assms(1)] kv_wf_size[OF assms(1)] by (auto simp: slot_ok_def)
  show "c_shift (kv_cells kv' (si_strm si ! s)) ! i = 0 \<and>
      (\<forall>t \<in> c_seq (kv_cells kv' (si_strm si ! s)) ! i. (t, c_pos (kv_cells kv' (si_strm si ! s)) ! i) \<in> ub_pairs ub k s)"
    if s: "s < n" "i \<in> set (si_idxs si ! s)" for s i
    using place_cells_any(2)[OF ix(1-3)[OF s(1)] s(2), of kv] unfolding a(3)[OF s(1)] ix(4)[OF s(1)] by (auto intro!: ub_pairsI)
  have "cell_at (kv_cells kv' st) i = cell_at (kv_cells kv st) i" if "(st, i) \<notin> slot_cells si" for st i
  proof (cases "st \<in> set (si_strm si)")
    case True
    then obtain s where s: "s < n" "st = si_strm si ! s" using n(1) by (auto simp: in_set_conv_nth)
    then have "i \<notin> set (si_idxs si ! s)" using that n(1) by (auto simp: slot_cells_def)
    then show ?thesis using place_cells_any(1)[OF ix(1-3)[OF s(1)], of i kv] a(3)[OF s(1)] s(2) by simp
  qed (use a(4) in simp)
  moreover have "kv_conf kv' = kv_conf kv" using only_cells_simps[OF a(1)] a(2) by (simp add: kv_conf_def)
  ultimately show "kv_below (slot_cells si) kv' kv" using only_cells_simps(1)[OF a(1)] by (simp add: kv_below_def)
qed

section \<open>Purging positions\<close>

lemma same_config_conf: "kv_same_config a b \<Longrightarrow> kv_get_size b = kv_get_size a \<Longrightarrow> kv_conf b = kv_conf a"
  using kv_same_config_simps[of a b] by (simp add: kv_conf_def)

lemma seq_rm_below:
  assumes "kv_wf kv" "kv_seq_rm (int s) p0 p1 kv = Inr (b, kv')"
  shows "kv_below {} kv' kv"
proof (cases "kv' = kv")
  case False
  then obtain a c d where r: "s < length (kv_seq_to_stream kv)" "kv' = rm_stream (seq_rm_body a c d) (kv_seq_to_stream kv ! s) kv"
    using assms(2) by (auto simp: kv_seq_rm_def Let_def seq_id_ok_def split: if_splits)
  note st = kv_wf_stream[OF assms(1) r(1)]
  have "cell_le (cell_at (kv_cells kv' t) i) (cell_at (kv_cells kv t) i)" if t: "t < kv_n_stream kv" "i < kv_get_size kv" for t i
    using rm1.sweep_cell[OF kv_wf_cells[OF assms(1) st], of i a c d] kv_wf_size[OF assms(1) st] t kv_wf_lens(1)[OF assms(1)] st
    by (cases "t = kv_seq_to_stream kv ! s") (simp_all add: r(2) rm1.rm_stream_cells)
  moreover have "kv_conf kv' = kv_conf kv" using same_config_conf kv_seq_rm_wf(2)[OF assms] kv_seq_rm_size[OF assms] by blast
  ultimately show ?thesis using kv_seq_rm_wf(1)[OF assms] by (simp add: kv_below_def)
qed (use assms(1) kv_below_refl in simp)

lemma purge_below: "kv_wf kv \<Longrightarrow> purge_seqs rm ss kv = Inr kv' \<Longrightarrow> kv_below {} kv' kv"
proof (induction ss arbitrary: kv)
  case (Cons s ss)
  show ?case
  proof (cases "purge_seqs rm (s # ss) kv = purge_seqs rm ss kv")
    case True
    then show ?thesis using Cons by simp
  next
    case False
    then obtain p q b kv1 where r: "kv_seq_rm (int s) p q kv = Inr (b, kv1)" "purge_seqs rm ss kv1 = Inr kv'"
      using Cons.prems(2) by (auto simp: Let_def split: if_splits sum.splits)
    note b = seq_rm_below[OF Cons.prems(1) r(1)]
    then have "kv_below {} kv' kv1" using Cons.IH[OF _ r(2)] by (simp add: kv_below_def)
    then show ?thesis using kv_below_trans[OF _ b] by fastforce
  qed
qed (simp add: kv_below_refl)

text \<open>A ubatch written to any slot: outside the slot nothing is added, in the slot there are only its tokens.\<close>

lemma apply_below:
  assumes "kv_wf kv" "kv_other kv = None" "slot_ok kv si n k" "\<forall>i < n * k. token_ok ub i" "apply_ubatch si ub kv = Inr kv'"
  shows "kv_below (slot_cells si) kv' kv"
    "\<And>s i. s < n \<Longrightarrow> i \<in> set (si_idxs si ! s) \<Longrightarrow> c_shift (kv_cells kv' (si_strm si ! s)) ! i = 0 \<and>
       (\<forall>t \<in> c_seq (kv_cells kv' (si_strm si ! s)) ! i. (t, c_pos (kv_cells kv' (si_strm si ! s)) ! i) \<in> ub_pairs ub k s)"
proof -
  define r where "r = apply_tokens si ub k (\<lambda>_. -1, kv)"
  have n: "0 < n" "si_size si = Inr k" "si_n_stream si = n" "length (si_strm si) = n" using assms(3) slot_ok_size[OF assms(3)] by (simp_all add: slot_ok_def)
  note t = apply_tokens_below[OF assms(1,3,4), where rm = "\<lambda>_. -1", folded r_def]
  have w: "kv_wf (snd r)" "kv_conf (snd r) = kv_conf kv" using t(1) by (simp_all add: kv_below_def)
  note cf = kv_conf_simps[OF w(2)]
  have "apply_ubatch si ub kv = (case purge_seqs (fst r) [0..<LLAMA_MAX_SEQ] (snd r) of Inl e \<Rightarrow> Inl e | Inr kv \<Rightarrow> Inr (move_heads si kv))"
    using assms(2) n by (simp only: apply_ubatch_def r_def split_beta Let_def) simp
  then obtain kv2 where p: "purge_seqs (fst r) [0..<LLAMA_MAX_SEQ] (snd r) = Inr kv2" "kv' = move_heads si kv2"
    using assms(5) by (auto split: sum.splits)
  note b = purge_below[OF w(1) p(1)]
  have c2: "kv_wf kv2" "kv_conf kv2 = kv_conf kv" using b w(2) by (simp_all add: kv_below_def)
  have so: "slot_ok kv2 si n k" using assms(3) kv_conf_simps[OF c2(2)] by (simp add: slot_ok_def)
  note mh = move_heads_wf[OF c2(1) so, folded p(2)]
  have e: "kv' = kv2\<lparr>kv_v_heads := kv_v_heads kv'\<rparr>"
    using move_heads_eq[of si n kv2] so kv_wf_lens(2)[OF c2(1)] by (simp add: p(2) slot_ok_def)
  have cells: "kv_v_cells kv' = kv_v_cells kv2" by (subst e) simp
  have "kv_conf kv' = kv_conf kv2" by (subst e) (simp add: kv_conf_def kv_get_size_def)
  then have "kv_below {} kv' (snd r)" using b mh(1) by (simp add: kv_below_def cells)
  then show "kv_below (slot_cells si) kv' kv" using kv_below_trans[OF _ t(1)] by fastforce
  fix s i assume s: "s < n" "i \<in> set (si_idxs si ! s)"
  have "si_strm si ! s < kv_n_stream (snd r)" "i < kv_get_size (snd r)" using assms(3) s cf by (auto simp: slot_ok_def)
  then have "cell_le (cell_at (kv_cells kv' (si_strm si ! s)) i) (cell_at (kv_cells (snd r) (si_strm si ! s)) i)"
    using \<open>kv_below {} kv' (snd r)\<close> by (simp add: kv_below_def)
  then show "c_shift (kv_cells kv' (si_strm si ! s)) ! i = 0 \<and>
       (\<forall>t \<in> c_seq (kv_cells kv' (si_strm si ! s)) ! i. (t, c_pos (kv_cells kv' (si_strm si ! s)) ! i) \<in> ub_pairs ub k s)"
    using t(2)[OF s] by (auto simp: cell_le_def)
qed

section \<open>Restoring cells\<close>

lemma cell_le_restored: "k_shift k = 0 \<Longrightarrow> cell_le (cell_restored old k) old"
  by (auto simp: cell_le_def cell_restored_def)

lemma restore_step_conf:
  assumes "kv_wf q" "st < kv_n_stream q" "cells_wf c" "cells_size c = kv_get_size q" "h \<le> kv_get_size q"
  defines "r \<equiv> kv_set_head st h (kv_set_cells st c q)"
  shows "kv_wf r" "kv_conf r = kv_conf q" "kv_cells r t = (if t = st then c else kv_cells q t)"
proof -
  have l: "st < length (kv_v_cells q)" using assms(2) kv_wf_lens(1)[OF assms(1)] by simp
  show "kv_wf r" unfolding r_def using assms by (intro kv_wf_set_stream) simp_all
  show "kv_cells r t = (if t = st then c else kv_cells q t)" using l by (simp add: r_def nth_list_update)
  have "kv_get_size r = kv_get_size (kv_set_cells st c q)" by (simp add: r_def kv_get_size_def)
  also have "\<dots> = kv_get_size q" by (rule kv_get_size_set_cells[OF l assms(4)])
  finally show "kv_conf r = kv_conf q" by (simp add: kv_conf_def r_def kv_set_head_def kv_set_cells_def)
qed

text \<open>The cells of the slot's stream number \<open>s\<close> after its saved cells have been put back.\<close>

definition merged :: "llama_kv_cache \<Rightarrow> llama_kv_cache \<Rightarrow> slot_info \<Rightarrow> nat \<Rightarrow> llama_kv_cells" where
  "merged kv z si s = cells_set (si_idxs si ! s) (cells_cp (si_idxs si ! s) (kv_cells kv (si_strm si ! s))) (kv_cells z (si_strm si ! s))"

definition unshifted :: "llama_kv_cache \<Rightarrow> slot_info \<Rightarrow> nat \<Rightarrow> bool" where
  "unshifted z si n \<longleftrightarrow> (\<forall>s < n. \<forall>i \<in> set (si_idxs si ! s). c_shift (kv_cells z (si_strm si ! s)) ! i = 0)"

lemma slot_streams:
  assumes "slot_ok kv si n k"
  shows "length (si_strm si) = n" "si_n_stream si = n" "distinct (si_strm si)" "n \<le> kv_n_stream kv"
    "s < n \<Longrightarrow> si_strm si ! s < kv_n_stream kv" "s < n \<Longrightarrow> \<forall>i \<in> set (si_idxs si ! s). i < kv_get_size kv"
proof -
  show n: "length (si_strm si) = n" "si_n_stream si = n" "distinct (si_strm si)" using assms slot_ok_size(2)[OF assms] by (simp_all add: slot_ok_def)
  show st: "si_strm si ! s < kv_n_stream kv" "\<forall>i \<in> set (si_idxs si ! s). i < kv_get_size kv" if "s < n" for s using assms that by (simp_all add: slot_ok_def)
  have "set (si_strm si) \<subseteq> {..<kv_n_stream kv}" using st(1) n(1) by (auto simp: in_set_conv_nth)
  then show "n \<le> kv_n_stream kv" using card_mono[of "{..<kv_n_stream kv}" "set (si_strm si)"] distinct_card[OF n(3)] n(1) by simp
qed

lemma merged_cells:
  assumes "kv_wf kv" "slot_ok kv si n k" "kv_wf z" "kv_conf z = kv_conf kv" "unshifted z si n" "s < n"
  shows "cells_wf (merged kv z si s)" "cells_size (merged kv z si s) = kv_get_size kv"
    "cell_at (merged kv z si s) m = (if m \<in> set (si_idxs si ! s)
       then cell_restored (cell_at (kv_cells kv (si_strm si ! s)) m) (cell_at (kv_cells z (si_strm si ! s)) m)
       else cell_at (kv_cells z (si_strm si ! s)) m)"
proof -
  note st = slot_streams(5,6)[OF assms(2,6)]
  have zs: "si_strm si ! s < kv_n_stream z" using st(1) kv_conf_simps[OF assms(4)] by simp
  have "cells_size (kv_cells z (si_strm si ! s)) = kv_get_size kv" "cells_size (kv_cells kv (si_strm si ! s)) = kv_get_size kv"
    using kv_wf_size[OF assms(3) zs] kv_wf_size[OF assms(1) st(1)] kv_conf_simps[OF assms(4)] by simp_all
  then show "cells_wf (merged kv z si s)" "cells_size (merged kv z si s) = kv_get_size kv"
    "cell_at (merged kv z si s) m = (if m \<in> set (si_idxs si ! s)
       then cell_restored (cell_at (kv_cells kv (si_strm si ! s)) m) (cell_at (kv_cells z (si_strm si ! s)) m)
       else cell_at (kv_cells z (si_strm si ! s)) m)"
    using set_cp[OF kv_wf_cells[OF assms(3) zs] kv_wf_cells[OF assms(1) st(1)], of "si_idxs si ! s"] assms(5,6) st(2)
    unfolding merged_def unshifted_def by simp_all
qed

lemma restored_streams:
  assumes kv: "kv_wf kv" "slot_ok kv si n k" and z: "kv_wf z" "kv_conf z = kv_conf kv" "unshifted z si n" and "m \<le> n"
  defines "q \<equiv> fold (restore_stream (saved_state si kv)) [0..<m] z"
  shows "kv_wf q \<and> kv_conf q = kv_conf kv \<and> (\<forall>s < m. kv_cells q (si_strm si ! s) = merged kv z si s) \<and>
    (\<forall>t. t \<notin> set (take m (si_strm si)) \<longrightarrow> kv_cells q t = kv_cells z t)"
  using assms(6) unfolding q_def
proof (induction m)
  case 0
  then show ?case using z by simp
next
  case (Suc m)
  note n = slot_streams[OF kv(2)]
  define p where "p = fold (restore_stream (saved_state si kv)) [0..<m] z"
  define q where "q = fold (restore_stream (saved_state si kv)) [0..<Suc m] z"
  have p: "kv_wf p" "kv_conf p = kv_conf kv" "\<And>s. s < m \<Longrightarrow> kv_cells p (si_strm si ! s) = merged kv z si s"
    "\<And>t. t \<notin> set (take m (si_strm si)) \<Longrightarrow> kv_cells p t = kv_cells z t"
    using Suc.IH Suc.prems(1) by (simp_all add: p_def)
  note pc = kv_conf_simps[OF p(2)]
  let ?st = "si_strm si ! m"
  have m: "m < n" using Suc.prems(1) by simp
  have fresh: "?st \<notin> set (take m (si_strm si))" using n(1,3) m by (simp add: in_set_conv_nth nth_eq_iff_index_eq)
  have "q = restore_stream (saved_state si kv) m p" by (simp add: p_def q_def)
  then have q: "q = kv_set_head ?st (kv_head kv m) (kv_set_cells ?st (merged kv z si m) p)"
    using p(4)[OF fresh] m n(2) by (simp add: restore_stream_def saved_state_def Let_def merged_def)
  have "kv_head kv m \<le> kv_get_size p" using kv_wf_head[OF kv(1), of m] m n(4) pc by simp
  then have r: "kv_wf q" "kv_conf q = kv_conf p" "\<And>t. kv_cells q t = (if t = ?st then merged kv z si m else kv_cells p t)"
    unfolding q using restore_step_conf[OF p(1), of ?st "merged kv z si m" "kv_head kv m"] n(5)[OF m] merged_cells(1,2)[OF kv z m] pc by simp_all
  have "kv_cells q (si_strm si ! s) = merged kv z si s" if "s < Suc m" for s
    using r(3) p(3)[of s] that n(1,3) m nth_eq_iff_index_eq[OF n(3), of s m] by (cases "s = m") auto
  moreover have "kv_cells q t = kv_cells z t" if "t \<notin> set (take (Suc m) (si_strm si))" for t
    using r(3) p(4)[of t] that n(1) m by (simp add: take_Suc_conv_app_nth)
  ultimately show ?case using r(1,2) p(2) unfolding q_def by simp
qed

lemma restore_below:
  assumes kv: "kv_wf kv" "slot_ok kv si n k" and z: "kv_below (slot_cells si) z kv"
    and sh: "\<And>s i. s < n \<Longrightarrow> i \<in> set (si_idxs si ! s) \<Longrightarrow> c_shift (kv_cells z (si_strm si ! s)) ! i = 0"
  shows "kv_below {} (restore_state (saved_state si kv) z) kv"
proof -
  have zc: "kv_wf z" "kv_conf z = kv_conf kv" using z by (simp_all add: kv_below_def)
  have un: "unshifted z si n" using sh by (simp add: unshifted_def)
  note n = slot_streams[OF kv(2)] and cp = merged_cells(3)[OF kv zc un]
  define q where "q = restore_state (saved_state si kv) z"
  have q: "kv_wf q" "kv_conf q = kv_conf kv" "\<And>s. s < n \<Longrightarrow> kv_cells q (si_strm si ! s) = merged kv z si s"
    "\<And>t. t \<notin> set (si_strm si) \<Longrightarrow> kv_cells q t = kv_cells z t"
    using restored_streams[OF kv zc un order_refl] n(1,2) by (simp_all add: q_def restore_state_def saved_state_def)
  have "cell_le (cell_at (kv_cells q t) i) (cell_at (kv_cells kv t) i)" if t: "t < kv_n_stream kv" "i < kv_get_size kv" for t i
  proof (cases "(t, i) \<in> slot_cells si")
    case True
    then obtain s where s: "s < n" "t = si_strm si ! s" "i \<in> set (si_idxs si ! s)" using n(1) by (auto simp: slot_cells_def)
    then show ?thesis using q(3) cp[OF s(1), of i] sh[OF s(1,3)] by (simp add: cell_le_restored)
  next
    case False
    then have le: "cell_le (cell_at (kv_cells z t) i) (cell_at (kv_cells kv t) i)" using z t by (simp add: kv_below_def)
    show ?thesis
    proof (cases "t \<in> set (si_strm si)")
      case True
      then obtain s where s: "s < n" "t = si_strm si ! s" using n(1) by (auto simp: in_set_conv_nth)
      then have "i \<notin> set (si_idxs si ! s)" using False n(1) by (auto simp: slot_cells_def)
      then show ?thesis using q(3) cp[OF s(1), of i] s le by simp
    qed (use q(4) le in simp)
  qed
  then show ?thesis using q(1,2) by (simp add: kv_below_def q_def)
qed

section \<open>The dry run\<close>

lemma evict_below:
  assumes "score_sort srt" "kv_wf kv" "evict_sparse srt n_needed n_sinks kv = (m, kv')"
  shows "kv_below {} kv' kv"
proof -
  obtain ns where e: "only_evicts m kv kv'" "\<And>t. t < kv_n_stream kv \<Longrightarrow> evict_spec n_needed n_sinks (kv_cells kv t) (kv_cells kv' t) (ns t)"
    using score_sort.evict_sparse_spec[OF assms(1,2), of n_needed n_sinks] assms(3) by (metis Pair_inject)
  note s = only_evicts_simps[OF e(1)]
  have le: "cell_le (cell_at (kv_cells kv' t) i) (cell_at (kv_cells kv t) i)" "cells_size (kv_cells kv' t) = cells_size (kv_cells kv t)"
    if t: "t < kv_n_stream kv" for t i
  proof -
    have w: "cells_wf (kv_cells kv t)" using kv_wf_cells[OF assms(2) t] .
    have "kv_cells kv' t = kv_cells kv t \<or> (\<exists>V. V \<subseteq> c_used (kv_cells kv t) \<and> kv_cells kv' t = clear_cells V (kv_cells kv t))"
      using e(2)[OF t] evictable_sub[OF w, of n_needed n_sinks] unfolding evict_spec_def by (meson subset_trans)
    then show "cell_le (cell_at (kv_cells kv' t) i) (cell_at (kv_cells kv t) i)"
      using clear_cells_cell[OF w] used_sub[OF w] by auto
    show "cells_size (kv_cells kv' t) = cells_size (kv_cells kv t)" by (rule evict_spec_wf(2)[OF w e(2)[OF t]])
  qed
  have "kv_seq_to_stream kv ! 0 < kv_n_stream kv" using kv_wf_stream[OF assms(2), of 0] assms(2) by (simp add: kv_wf_def)
  then have "kv_get_size kv' = kv_get_size kv" using le(2) s(3) by (simp add: kv_get_size_def)
  then have "kv_conf kv' = kv_conf kv" using s by (simp add: kv_conf_def)
  then show ?thesis using s(1) le(1) by (simp add: kv_below_def)
qed

lemma conf_fits:
  assumes "kv_conf a = kv_conf b"
  shows "ubatch_ok a = ubatch_ok b" "slot_ok a = slot_ok b" "kv_seq_to_stream a = kv_seq_to_stream b" "ubatches_ok a = ubatches_ok b"
proof -
  note c = kv_conf_simps[OF assms]
  show u: "ubatch_ok a = ubatch_ok b" by (rule ubatch_ok_same[OF c(1,2)])
  show "slot_ok a = slot_ok b" by (intro ext) (simp add: slot_ok_def c)
  show "kv_seq_to_stream a = kv_seq_to_stream b" by (rule c(2))
  show "ubatches_ok a = ubatches_ok b" by (intro ext) (simp add: ubatches_ok_def u)
qed

lemma find_slot_evict_below:
  assumes "score_sort srt" "kv_wf kv" "ubatch_ok kv ub n k" "find_slot_evict srt sparse ub kv = Some (Inr (si, kv'))"
  shows "kv_below {} kv' kv" "\<not> si_empty si \<Longrightarrow> slot_ok kv si n k \<and> si_strm si = map (ub_stream kv ub) [0..<n]"
proof -
  have slot: "\<not> si_empty si \<Longrightarrow> slot_ok kv si n k \<and> si_strm si = map (ub_stream kv ub) [0..<n]"
    if f: "find_slot False ub x = Some (Inr si)" "kv_below {} x kv" for x
  proof -
    have x: "kv_wf x" "kv_conf x = kv_conf kv" using f(2) by (simp_all add: kv_below_def)
    have "ubatch_ok x ub n k" using assms(3) conf_fits(1)[OF x(2)] by simp
    then obtain si' where "find_slot False ub x = Some (Inr si')" "\<not> si_empty si' \<Longrightarrow> slot_ok x si' n k"
        "\<not> si_empty si' \<Longrightarrow> si_strm si' = map (ub_stream x ub) [0..<n]"
      by (rule find_slot_free[OF x(1)]) (rule that)
    then show "\<not> si_empty si \<Longrightarrow> slot_ok kv si n k \<and> si_strm si = map (ub_stream kv ub) [0..<n]"
      using f(1) conf_fits(2,3)[OF x(2)] by simp
  qed
  obtain m kve where ev: "evict_sparse srt (ub_n_tokens ub) 4 kv = (m, kve)" by (cases "evict_sparse srt (ub_n_tokens ub) 4 kv")
  note b = evict_below[OF assms(1,2) ev]
  have "find_slot False ub kv = Some (Inr si) \<and> kv' = kv \<or> find_slot False ub kve = Some (Inr si) \<and> kv' = kve \<or> si_empty si \<and> kv' = kve"
    using assms(4) ev by (auto simp: find_slot_evict_def split: option.splits sum.splits if_splits)
  then show "kv_below {} kv' kv" "\<not> si_empty si \<Longrightarrow> slot_ok kv si n k \<and> si_strm si = map (ub_stream kv ub) [0..<n]"
    using slot[OF _ kv_below_refl[OF assms(2)]] slot[OF _ b] b kv_below_refl[OF assms(2)] by auto
qed

text \<open>A list of slots, one for each ubatch, in the streams of the ubatch.\<close>

definition slots_fit :: "llama_kv_cache \<Rightarrow> slot_info list \<Rightarrow> llama_ubatch list \<Rightarrow> bool" where
  "slots_fit kv = list_all2 (\<lambda>si ub. \<exists>n k. ubatch_ok kv ub n k \<and> slot_ok kv si n k \<and> si_strm si = map (ub_stream kv ub) [0..<n])"

lemma slots_fit_conf: "kv_conf a = kv_conf b \<Longrightarrow> slots_fit a = slots_fit b"
  unfolding slots_fit_def conf_fits(1-3)[of a b] ..

lemma prepare_place_below:
  assumes srt: "score_sort srt"
  shows "kv_wf kv \<Longrightarrow> kv_other kv = None \<Longrightarrow> ubatches_ok kv ubs \<Longrightarrow>
    prepare_place srt sparse ubs res states kv = Some (Inr (ok, res', states', kv')) \<Longrightarrow>
    \<exists>sis new. res' = res @ sis \<and> states' = new @ states \<and> kv_wf kv' \<and> (ok \<longrightarrow> slots_fit kv sis ubs) \<and>
      (\<forall>x. kv_below {} x kv' \<longrightarrow> kv_below {} (fold restore_state new x) kv)"
proof (induction ubs arbitrary: res states kv)
  case Nil
  then show ?case by (auto simp: slots_fit_def)
next
  case (Cons ub ubs)
  obtain n k where ub: "ubatch_ok kv ub n k" using Cons.prems(3) by (auto simp: ubatches_ok_def)
  obtain si kv0 where f: "find_slot_evict srt sparse ub kv = Some (Inr (si, kv0))"
    using Cons.prems(4) by (auto split: option.splits sum.splits)
  note fb = find_slot_evict_below[OF srt Cons.prems(1) ub f]
  have k0: "kv_wf kv0" "kv_conf kv0 = kv_conf kv" using fb(1) by (simp_all add: kv_below_def)
  show ?case
  proof (cases "si_empty si")
    case True
    then show ?thesis using Cons.prems(4) f k0(1) kv_below_trans[OF _ fb(1), of "{}"] by auto
  next
    case False
    note slot = fb(2)[OF False]
    have so: "slot_ok kv0 si n k" "kv_other kv0 = None" using slot conf_fits(2)[OF k0(2)] kv_conf_simps(3)[OF k0(2)] Cons.prems(2) by simp_all
    have tk: "\<forall>i < n * k. token_ok ub i" by (rule ubatch_tokens_ok[OF Cons.prems(1) ub])
    obtain kv1 where a: "apply_ubatch si ub kv0 = Inr kv1"
      "prepare_place srt sparse ubs (res @ [si]) (saved_state si kv0 # states) kv1 = Some (Inr (ok, res', states', kv'))"
      using Cons.prems(4) f False by (auto simp: saved_state_def split: sum.splits)
    note ab = apply_below[OF k0(1) so(2,1) tk a(1)]
    have k1: "kv_wf kv1" "kv_conf kv1 = kv_conf kv" using ab(1) k0(2) by (simp_all add: kv_below_def)
    have "ubatches_ok kv1 ubs" "kv_other kv1 = None"
      using Cons.prems(2,3) conf_fits(4)[OF k1(2)] kv_conf_simps(3)[OF k1(2)] by (simp_all add: ubatches_ok_def)
    from Cons.IH[OF k1(1) this(2,1) a(2)] obtain sis new where ih: "res' = (res @ [si]) @ sis" "states' = new @ saved_state si kv0 # states"
        "kv_wf kv'" "ok \<longrightarrow> slots_fit kv1 sis ubs" "\<And>x. kv_below {} x kv' \<Longrightarrow> kv_below {} (fold restore_state new x) kv1" by blast
    have "kv_below {} (fold restore_state (new @ [saved_state si kv0]) x) kv" if x: "kv_below {} x kv'" for x
    proof -
      define y where "y = fold restore_state new x"
      have y: "kv_below {} y kv1" using ih(5)[OF x] by (simp add: y_def)
      have "kv_below (slot_cells si) y kv0" using kv_below_trans[OF y ab(1)] by simp
      moreover have "c_shift (kv_cells y (si_strm si ! s)) ! i = 0" if s: "s < n" "i \<in> set (si_idxs si ! s)" for s i
      proof -
        have "si_strm si ! s < kv_n_stream kv1" "i < kv_get_size kv1" using conjunct1[OF slot] s kv_conf_simps[OF k1(2)] by (auto simp: slot_ok_def)
        then have "cell_le (cell_at (kv_cells y (si_strm si ! s)) i) (cell_at (kv_cells kv1 (si_strm si ! s)) i)" using y by (simp add: kv_below_def)
        then show ?thesis using ab(2)[OF s] by (simp add: cell_le_def)
      qed
      ultimately have "kv_below {} (restore_state (saved_state si kv0) y) kv0" by (rule restore_below[OF k0(1) so(1)])
      then show ?thesis using kv_below_trans[OF _ fb(1), of "{}"] by (simp add: y_def)
    qed
    moreover have "ok \<longrightarrow> slots_fit kv (si # sis) (ub # ubs)" using ih(4) slots_fit_conf[OF k1(2)] slot ub by (auto simp: slots_fit_def)
    ultimately show ?thesis using ih(1-3) by (intro exI[of _ "si # sis"] exI[of _ "new @ [saved_state si kv0]"]) simp
  qed
qed

lemma prepare_below:
  assumes "score_sort srt" "kv_wf kv" "kv_other kv = None" "ubatches_ok kv ubs" "prepare srt sparse ubs kv = Some (Inr (sis, kv'))"
  shows "kv_below {} kv' kv" "sis \<noteq> [] \<Longrightarrow> slots_fit kv sis ubs"
proof -
  obtain ok res states kv1 where p: "prepare_place srt sparse ubs [] [] kv = Some (Inr (ok, res, states, kv1))"
      "kv' = fold restore_state states kv1" "sis = (if ok then res else [])"
    using assms(5) by (auto simp: prepare_def Let_def split: option.splits sum.splits prod.splits if_splits)
  from prepare_place_below[OF assms(1-4) p(1)] have b: "kv_wf kv1" "ok \<longrightarrow> slots_fit kv res ubs"
      "\<And>x. kv_below {} x kv1 \<Longrightarrow> kv_below {} (fold restore_state states x) kv" by auto
  show "kv_below {} kv' kv" unfolding p(2) by (rule b(3)[OF kv_below_refl[OF b(1)]])
  show "sis \<noteq> [] \<Longrightarrow> slots_fit kv sis ubs" using b(2) p(3) by (simp split: if_splits)
qed

end
