(* ===== verification/Batch.thy ===== *)
theory Batch
  imports KvSlot
begin

text \<open>
  Input batches, \<open>engine/src/llama-batch.cpp\<close> (\<open>llama_batch_allocr\<close>): validating a batch, filling in
  what the caller left out, and splitting it into ubatches with \<open>split_simple\<close>, \<open>split_equal\<close> and
  \<open>split_seq\<close>. A null pointer of the batch is \<open>None\<close>. The memory is a parameter: the first and the last
  position of a sequence, \<open>-1\<close> if it has none. A set of sequences (\<open>std::bitset\<close>) is a set of numbers. Positions are
  integers without bound. The arrays of a batch have the lengths the interface documents; what is read beyond
  them is not specified here. Debug output is left out.
\<close>

section \<open>Data\<close>

record llama_batch =
  b_n_tokens :: nat
  b_token :: "llama_token list option"
  b_embd :: "float32 list option"
  b_pos :: "llama_pos list option"
  b_n_seq_id :: "nat list option"
  b_seq_id :: "llama_seq_id list list option"
  b_logits :: "int list option"

text \<open>The fields of \<open>llama_ubatch\<close> that the cache does not read.\<close>

record llama_ubatch_full = llama_ubatch +
  ub_equal_seqs :: bool
  ub_n_seq_tokens :: nat
  ub_n_seqs :: nat
  ub_embd :: "float32 list option"
  ub_seq_idx :: "int list"
  ub_output :: "int list"

text \<open>The batch of a plain list of tokens.\<close>

definition llama_batch_get_one :: "llama_token list \<Rightarrow> nat \<Rightarrow> llama_batch" where
  "llama_batch_get_one tokens n_tokens =
     \<lparr>b_n_tokens = n_tokens, b_token = Some tokens, b_embd = None, b_pos = None, b_n_seq_id = None, b_seq_id = None, b_logits = None\<rparr>"

text \<open>
  The allocator: the batch with every field filled in, what \<open>init\<close> derives from it, and the state of the
  splitting. \<open>al_seq_set_map\<close> and \<open>al_seq_pos\<close> are functions of the sequence set and the sequence.
\<close>

record llama_batch_allocr =
  al_n_pos_per_embd :: nat
  al_n_tokens :: nat
  al_token :: "llama_token list option"
  al_embd :: "float32 list option"
  al_pos :: "llama_pos list"
  al_n_seq_id :: "nat list"
  al_seq_id :: "llama_seq_id list list"
  al_logits :: "int list"
  al_n_embd :: nat
  al_n_seq_max :: nat
  al_n_outputs :: nat
  al_has_cpl :: bool
  al_seq_pos :: "nat \<Rightarrow> llama_pos set"
  al_seq_cpl :: "(nat \<times> nat) set"
  al_seq_set :: "nat set list"
  al_seq_set_map :: "nat set \<Rightarrow> nat list"
  al_seq_id_unq :: "nat list"
  al_seq_idx :: "int list"
  al_out_ids :: "nat list"
  al_n_used :: nat
  al_used :: "bool list"

text \<open>The memory of a context: first and last position of a sequence.\<close>

record memory_i =
  mem_pos_min :: "nat \<Rightarrow> llama_pos"
  mem_pos_max :: "nat \<Rightarrow> llama_pos"

text \<open>Why \<open>init\<close> returns false; \<open>Batch_abort\<close> is a failed assertion, \<open>Null_read\<close> a read through a null pointer.\<close>

datatype batch_error = Batch_abort | Null_read | Bad_n_seq_max | Bad_token | Bad_seq_id | Bad_pos | Diverged | Bad_sets

section \<open>Validation and missing fields\<close>

definition valid_tokens :: "nat \<Rightarrow> llama_batch \<Rightarrow> bool" where
  "valid_tokens n_vocab b =
     (case b_token b of None \<Rightarrow> True
      | Some token \<Rightarrow> list_all (\<lambda>i. \<not> (token ! i < 0 \<or> token ! i \<ge> int n_vocab)) [0..<b_n_tokens b])"

definition valid_seq_ids :: "nat \<Rightarrow> nat list \<Rightarrow> llama_seq_id list list \<Rightarrow> nat \<Rightarrow> bool" where
  "valid_seq_ids n_seq_max n_seq_id seq_id n_tokens =
     list_all (\<lambda>i. list_all (\<lambda>s. \<not> (seq_id ! i ! s < 0 \<or> seq_id ! i ! s \<ge> int n_seq_max)) [0..<n_seq_id ! i]) [0..<n_tokens]"

text \<open>The sequences of a token.\<close>

definition token_seqs :: "nat list \<Rightarrow> llama_seq_id list list \<Rightarrow> nat \<Rightarrow> nat list" where
  "token_seqs n_seq_id seq_id i = map (\<lambda>s. nat (seq_id ! i ! s)) [0..<n_seq_id ! i]"

definition memory_next :: "memory_i option \<Rightarrow> nat \<Rightarrow> llama_pos" where
  "memory_next memory s = (case memory of None \<Rightarrow> 0 | Some m \<Rightarrow> mem_pos_max m s + 1)"

text \<open>One step of the generation of positions: the next position of each sequence and the positions so far.\<close>

definition pos_step :: "nat list \<Rightarrow> llama_seq_id list list \<Rightarrow> nat \<Rightarrow> (nat \<Rightarrow> llama_pos) \<times> llama_pos list \<Rightarrow>
    (nat \<Rightarrow> llama_pos) \<times> llama_pos list" where
  "pos_step n_seq_id seq_id i = (\<lambda>(p0, pos).
     let p = p0 (nat (seq_id ! i ! 0))
     in (fold (\<lambda>s p0. p0(s := p + 1)) (token_seqs n_seq_id seq_id i) p0, pos @ [p]))"

definition auto_pos :: "memory_i option \<Rightarrow> nat list \<Rightarrow> llama_seq_id list list \<Rightarrow> nat \<Rightarrow> llama_pos list" where
  "auto_pos memory n_seq_id seq_id n_tokens = snd (fold (pos_step n_seq_id seq_id) [0..<n_tokens] (memory_next memory, []))"

definition auto_logits :: "bool \<Rightarrow> llama_batch \<Rightarrow> int list" where
  "auto_logits output_all b =
     (case b_logits b of
        None \<Rightarrow> if output_all then replicate (b_n_tokens b) 1 else (replicate (b_n_tokens b) 0)[b_n_tokens b - 1 := 1]
      | Some logits \<Rightarrow>
          if output_all \<and> list_ex (\<lambda>i. logits ! i = 0) [0..<b_n_tokens b] then replicate (b_n_tokens b) 1 else logits)"

section \<open>Derived data\<close>

text \<open>\<open>seq_pos\<close>, \<open>seq_cpl\<close> and the sequence sets, token by token.\<close>

definition seq_pos_of :: "(nat \<Rightarrow> nat list) \<Rightarrow> llama_pos list \<Rightarrow> nat \<Rightarrow> nat \<Rightarrow> llama_pos set" where
  "seq_pos_of seqs pos n_tokens s = set (map (\<lambda>i. pos ! i) (filter (\<lambda>i. s \<in> set (seqs i)) [0..<n_tokens]))"

definition seq_cpl_of :: "(nat \<Rightarrow> nat list) \<Rightarrow> nat \<Rightarrow> (nat \<times> nat) set" where
  "seq_cpl_of seqs n_tokens = set (concat (map (\<lambda>i. map (\<lambda>s1. (s1, hd (seqs i))) (tl (seqs i))) [0..<n_tokens]))"

definition index_of :: "nat list \<Rightarrow> nat \<Rightarrow> int" where
  "index_of ids s = (if s \<in> set ids then int (length (takeWhile (\<lambda>t. t \<noteq> s) ids)) else -1)"

definition split_reset :: "llama_batch_allocr \<Rightarrow> llama_batch_allocr" where
  "split_reset al = al\<lparr>al_out_ids := [], al_n_used := 0, al_used := replicate (al_n_tokens al) False\<rparr>"

definition make_allocr :: "nat \<Rightarrow> llama_batch \<Rightarrow> nat list \<Rightarrow> llama_seq_id list list \<Rightarrow> llama_pos list \<Rightarrow> int list \<Rightarrow> nat \<Rightarrow> nat \<Rightarrow>
    llama_batch_allocr" where
  "make_allocr n_pos_per_embd b n_seq_id seq_id pos logits n_embd n_seq_max =
     (let n = b_n_tokens b; seqs = token_seqs n_seq_id seq_id; sets = map (\<lambda>i. set (seqs i)) [0..<n];
          unq = filter (\<lambda>s. s \<in> \<Union> (set sets)) [0..<n_seq_max]
      in \<lparr>al_n_pos_per_embd = n_pos_per_embd, al_n_tokens = n, al_token = b_token b, al_embd = b_embd b, al_pos = pos,
          al_n_seq_id = n_seq_id, al_seq_id = seq_id, al_logits = logits, al_n_embd = n_embd, al_n_seq_max = n_seq_max,
          al_n_outputs = length (filter (\<lambda>i. logits ! i \<noteq> 0) [0..<n]),
          al_has_cpl = list_ex (\<lambda>i. length (seqs i) > 1) [0..<n],
          al_seq_pos = seq_pos_of seqs pos n, al_seq_cpl = seq_cpl_of seqs n, al_seq_set = sets,
          al_seq_set_map = (\<lambda>S. filter (\<lambda>i. sets ! i = S) [0..<n]),
          al_seq_id_unq = unq, al_seq_idx = map (index_of unq) [0..<LLAMA_MAX_SEQ],
          al_out_ids = [], al_n_used = 0, al_used = []\<rparr>)"

section \<open>Consistency checks\<close>

definition al_pos_min :: "llama_batch_allocr \<Rightarrow> nat \<Rightarrow> llama_pos" where
  "al_pos_min al s = (if al_seq_pos al s = {} then -1 else Min (al_seq_pos al s))"

definition al_pos_max :: "llama_batch_allocr \<Rightarrow> nat \<Rightarrow> llama_pos" where
  "al_pos_max al s = (if al_seq_pos al s = {} then -1 else Max (al_seq_pos al s))"

definition memory_last :: "memory_i option \<Rightarrow> nat \<Rightarrow> llama_pos" where
  "memory_last memory s = (case memory of None \<Rightarrow> -1 | Some m \<Rightarrow> mem_pos_max m s)"

definition seq_pos_ok :: "memory_i option \<Rightarrow> llama_batch_allocr \<Rightarrow> nat \<Rightarrow> bool" where
  "seq_pos_ok memory al s =
     (let p0 = memory_last memory s in
      if al_seq_pos al s = {} then True
      else if al_n_pos_per_embd al > 1 then
        if al_token al \<noteq> None then \<not> (p0 \<ge> 0 \<and> p0 \<ge> al_pos_min al s) else \<not> (p0 \<ge> 0 \<and> p0 > al_pos_min al s)
      else
        \<not> (p0 \<ge> 0 \<and> al_pos_min al s \<noteq> p0 + 1) \<and>
        \<not> (al_pos_max al s - al_pos_min al s + 1 > int (card (al_seq_pos al s))))"

definition coupled_ok :: "memory_i option \<Rightarrow> llama_batch_allocr \<Rightarrow> bool" where
  "coupled_ok memory al =
     (case memory of None \<Rightarrow> True
      | Some m \<Rightarrow> list_all (\<lambda>s0. list_all (\<lambda>s1. (s0, s1) \<in> al_seq_cpl al \<longrightarrow>
          \<not> (mem_pos_min m s0 \<noteq> mem_pos_min m s1 \<or> mem_pos_max m s0 \<noteq> mem_pos_max m s1)) [0..<al_n_seq_max al]) [0..<al_n_seq_max al])"

text \<open>
  The last check keeps, for each sequence, the intersection of the sequence sets it was seen in and its last
  position; \<open>None\<close> is a failure.
\<close>

definition set_step :: "llama_pos \<Rightarrow> nat set \<Rightarrow> nat \<Rightarrow> ((nat \<Rightarrow> nat set) \<times> (nat \<Rightarrow> llama_pos)) option \<Rightarrow>
    ((nat \<Rightarrow> nat set) \<times> (nat \<Rightarrow> llama_pos)) option" where
  "set_step pos S s st =
     (case st of None \<Rightarrow> None
      | Some (sets, last_pos) \<Rightarrow>
          if sets s \<inter> S = {} then None
          else if pos < last_pos s then None
          else Some (sets(s := sets s \<inter> S), last_pos(s := pos)))"

definition sets_ok :: "llama_batch_allocr \<Rightarrow> bool" where
  "sets_ok al =
     (fold (\<lambda>i. fold (set_step (al_pos al ! i) (al_seq_set al ! i)) (token_seqs (al_n_seq_id al) (al_seq_id al) i)) [0..<al_n_tokens al]
        (Some (\<lambda>_. {..<LLAMA_MAX_SEQ}, \<lambda>_. -1)) \<noteq> None)"

text \<open>The whole of \<open>init\<close>, on an allocator made for \<open>n_pos_per_embd\<close> positions per token.\<close>

definition init_check :: "memory_i option \<Rightarrow> llama_batch_allocr \<Rightarrow> batch_error + llama_batch_allocr" where
  "init_check memory al =
     (if \<not> list_all (seq_pos_ok memory al) [0..<al_n_seq_max al] then Inl Bad_pos
      else if \<not> coupled_ok memory al then Inl Diverged
      else if \<not> sets_ok al then Inl Bad_sets
      else Inr (split_reset al))"

definition batch_init :: "nat \<Rightarrow> llama_batch \<Rightarrow> nat \<Rightarrow> memory_i option \<Rightarrow> nat \<Rightarrow> nat \<Rightarrow> bool \<Rightarrow> batch_error + llama_batch_allocr" where
  "batch_init n_pos_per_embd b n_vocab memory n_embd n_seq_max output_all =
     (if \<not> b_n_tokens b > 0 then Inl Batch_abort
      else if n_seq_max > LLAMA_MAX_SEQ then Inl Bad_n_seq_max
      else if \<not> valid_tokens n_vocab b then Inl Bad_token
      else if b_seq_id b \<noteq> None \<and> b_n_seq_id b = None then Inl Null_read
      else if b_seq_id b \<noteq> None \<and> \<not> valid_seq_ids n_seq_max (the (b_n_seq_id b)) (the (b_seq_id b)) (b_n_tokens b) then Inl Bad_seq_id
      else
        let n = b_n_tokens b;
            n_seq_id = (case b_n_seq_id b of Some xs \<Rightarrow> xs | None \<Rightarrow> replicate n 1);
            seq_id = (case b_seq_id b of Some xs \<Rightarrow> xs | None \<Rightarrow> replicate n [0]);
            pos = (case b_pos b of Some xs \<Rightarrow> xs | None \<Rightarrow> auto_pos memory n_seq_id seq_id n);
            al = make_allocr n_pos_per_embd b n_seq_id seq_id pos (auto_logits output_all b) n_embd n_seq_max
        in init_check memory al)"

section \<open>Splitting\<close>

definition mark_used :: "nat list \<Rightarrow> llama_batch_allocr \<Rightarrow> llama_batch_allocr" where
  "mark_used idxs al = al\<lparr>al_used := fold (\<lambda>i u. u[i := True]) idxs (al_used al), al_n_used := al_n_used al + length idxs\<rparr>"

definition unmark_used :: "nat list \<Rightarrow> llama_batch_allocr \<Rightarrow> llama_batch_allocr" where
  "unmark_used idxs al = al\<lparr>al_used := fold (\<lambda>i u. u[i := False]) idxs (al_used al), al_n_used := al_n_used al - length idxs\<rparr>"

definition first_unused :: "llama_batch_allocr \<Rightarrow> nat" where
  "first_unused al = length (takeWhile (\<lambda>u. u) (al_used al))"

text \<open>The loop of \<open>split_simple\<close> from a token on; it runs at least once.\<close>

function simple_loop :: "nat \<Rightarrow> nat \<Rightarrow> nat \<Rightarrow> nat list \<Rightarrow> nat list" where
  "simple_loop n_ubatch n cur_idx idxs =
     (let idxs = idxs @ [cur_idx]; cur_idx = cur_idx + 1 in
      if cur_idx \<ge> n then idxs
      else if length idxs \<ge> n_ubatch then idxs
      else simple_loop n_ubatch n cur_idx idxs)"
  by pat_completeness auto
termination
  by (relation "measure (\<lambda>(_, n, cur_idx, _). n - cur_idx)") auto

declare simple_loop.simps [simp del]

text \<open>What a split selects: the tokens, the number of sequence sets, and whether they have equal lengths.\<close>

type_synonym selection = "nat list \<times> nat \<times> bool"

definition select_simple :: "nat \<Rightarrow> llama_batch_allocr \<Rightarrow> selection option \<times> llama_batch_allocr" where
  "select_simple n_ubatch al =
     (let cur_idx = first_unused al in
      if cur_idx \<ge> length (al_used al) then (None, al)
      else
        let idxs = simple_loop n_ubatch (length (al_used al)) cur_idx []
        in (Some (idxs, length idxs, False), mark_used idxs al))"

text \<open>\<open>split_seq\<close>: the next unused token whose sequences are among those of the current one.\<close>

definition next_subset :: "llama_batch_allocr \<Rightarrow> nat set \<Rightarrow> nat \<Rightarrow> nat option" where
  "next_subset al S cur_idx =
     find (\<lambda>j. \<not> (al_used al ! j \<or> S \<inter> al_seq_set al ! j \<noteq> al_seq_set al ! j)) [cur_idx + 1..<al_n_tokens al]"

lemma next_subset_less: "next_subset al S cur_idx = Some j \<Longrightarrow> cur_idx < j \<and> j < al_n_tokens al"
  by (auto simp: next_subset_def find_Some_iff)

function seq_loop :: "nat \<Rightarrow> nat set \<Rightarrow> nat \<Rightarrow> nat list \<Rightarrow> llama_batch_allocr \<Rightarrow> nat list" where
  "seq_loop n_ubatch S cur_idx idxs al =
     (let idxs = idxs @ [cur_idx] in
      if length idxs \<ge> n_ubatch then idxs
      else case next_subset al S cur_idx of
        None \<Rightarrow> idxs
      | Some j \<Rightarrow> seq_loop n_ubatch (al_seq_set al ! j) j idxs al)"
  by pat_completeness auto
termination
  by (relation "measure (\<lambda>(_, _, cur_idx, _, al). al_n_tokens al - cur_idx)") (auto dest: next_subset_less)

declare seq_loop.simps [simp del]

definition select_seq :: "nat \<Rightarrow> llama_batch_allocr \<Rightarrow> selection option \<times> llama_batch_allocr" where
  "select_seq n_ubatch al =
     (let cur_idx = first_unused al in
      if cur_idx \<ge> length (al_used al) then (None, al)
      else
        let idxs = seq_loop n_ubatch (al_seq_set al ! cur_idx) cur_idx [] al
        in (Some (idxs, 1, True), mark_used idxs al))"

text \<open>\<open>split_equal\<close>: first the disjoint sequence sets that take part.\<close>

fun choose_sets :: "nat \<Rightarrow> bool \<Rightarrow> llama_batch_allocr \<Rightarrow> nat list \<Rightarrow> nat set list \<Rightarrow> llama_seq_id \<Rightarrow> nat set list" where
  "choose_sets n_ubatch sequential al [] cur_seq_set last_seq_id = cur_seq_set"
| "choose_sets n_ubatch sequential al (i # is) cur_seq_set last_seq_id =
     (if al_used al ! i then choose_sets n_ubatch sequential al is cur_seq_set last_seq_id
      else
        let S = al_seq_set al ! i;
            s0 = al_seq_id al ! i ! 0;
            add = list_all (\<lambda>T. T \<inter> S = {}) cur_seq_set \<and> (sequential \<longrightarrow> cur_seq_set = [] \<or> s0 = last_seq_id + 1)
        in if add then
             let cur_seq_set = cur_seq_set @ [S] in
             if length cur_seq_set > n_ubatch then cur_seq_set
             else choose_sets n_ubatch sequential al is cur_seq_set s0
           else choose_sets n_ubatch sequential al is cur_seq_set last_seq_id)"

text \<open>Then one token of every set at a time; \<open>toks\<close> are the tokens of each set.\<close>

function equal_loop :: "nat \<Rightarrow> nat list list \<Rightarrow> nat list \<Rightarrow> nat list list \<Rightarrow> nat list \<times> nat list list" where
  "equal_loop n_ubatch toks cur_idx idxs =
     (if toks = [] \<or> list_ex (\<lambda>s. cur_idx ! s \<ge> length (toks ! s)) [0..<length toks] then (cur_idx, idxs)
      else
        let idxs = map (\<lambda>s. idxs ! s @ [toks ! s ! (cur_idx ! s)]) [0..<length toks];
            cur_idx = map (\<lambda>s. cur_idx ! s + 1) [0..<length toks]
        in if (length (idxs ! 0) + 1) * length toks > n_ubatch then (cur_idx, idxs)
           else equal_loop n_ubatch toks cur_idx idxs)"
  by pat_completeness auto
termination
  by (relation "measure (\<lambda>(_, toks, cur_idx, _). length (toks ! 0) - cur_idx ! 0)")
    (auto simp: list_ex_iff not_le dest!: bspec[where x = 0])

declare equal_loop.simps [simp del]

text \<open>
  Finally the sets that would leave a tail shorter than \<open>n_keep_tail\<close> are put back. If that is the case for the
  first set, it is completed or cut, and taken alone. The result: the number of sets kept, the tokens of
  the first set, the tokens marked and the tokens unmarked in addition.
\<close>

definition keep_first :: "nat \<Rightarrow> nat \<Rightarrow> nat list \<Rightarrow> nat \<Rightarrow> nat list \<Rightarrow> nat list \<times> nat list \<times> nat list" where
  "keep_first n_ubatch n_keep_tail toks cur idxs =
     (let remaining = length toks - cur in
      if length idxs + remaining \<le> n_ubatch then (idxs @ drop cur toks, drop cur toks, [])
      else
        let k = length idxs - (n_keep_tail - remaining)
        in (take k idxs, [], drop k idxs))"

definition tail_ok :: "nat \<Rightarrow> nat list list \<Rightarrow> nat list \<Rightarrow> nat \<Rightarrow> bool" where
  "tail_ok n_keep_tail toks cur_idx s =
     (let remaining = length (toks ! s) - cur_idx ! s in \<not> (remaining \<noteq> 0 \<and> remaining < n_keep_tail))"

definition keep_tail :: "nat \<Rightarrow> nat \<Rightarrow> nat list list \<Rightarrow> nat list \<Rightarrow> nat list list \<Rightarrow> llama_batch_allocr \<Rightarrow> nat list list \<times> llama_batch_allocr" where
  "keep_tail n_ubatch n_keep_tail toks cur_idx idxs al =
     (let n_keep = length (takeWhile (tail_ok n_keep_tail toks cur_idx) [0..<length toks]) in
      if n_keep = 0 then
        let (idxs0, added, removed) = keep_first n_ubatch n_keep_tail (toks ! 0) (cur_idx ! 0) (idxs ! 0)
        in ([idxs0], unmark_used (concat (drop 1 idxs)) (unmark_used removed (mark_used added al)))
      else (take n_keep idxs, unmark_used (concat (drop n_keep idxs)) al))"

definition select_equal :: "nat \<Rightarrow> bool \<Rightarrow> nat \<Rightarrow> llama_batch_allocr \<Rightarrow> batch_error + selection option \<times> llama_batch_allocr" where
  "select_equal n_ubatch sequential n_keep_tail al =
     (if sequential \<and> al_has_cpl al then Inr (None, al)
      else
        let sets = choose_sets n_ubatch sequential al [0..<al_n_tokens al] [] (-1) in
        if sets = [] then Inr (None, al)
        else
          let toks = map (al_seq_set_map al) sets;
              cur_idx = map (\<lambda>t. length (takeWhile (\<lambda>i. al_used al ! i) t)) toks;
              (cur_idx, idxs) = equal_loop n_ubatch toks cur_idx (replicate (length sets) []);
              al = mark_used (concat idxs) al
          in if n_keep_tail > 0 then
               if \<not> n_ubatch > n_keep_tail then Inl Batch_abort
               else
                 let (idxs, al) = keep_tail n_ubatch n_keep_tail toks cur_idx idxs al
                 in Inr (Some (concat idxs, length idxs, True), al)
             else Inr (Some (concat idxs, length idxs, True), al))"

section \<open>Ubatches\<close>

definition ubatch_add :: "selection \<Rightarrow> llama_batch_allocr \<Rightarrow> llama_ubatch_full \<times> llama_batch_allocr" where
  "ubatch_add sel al =
     (let (idxs, n_seqs, equal_seqs) = sel;
          seq_id = map (\<lambda>i. map (\<lambda>s. al_seq_id al ! i ! s) [0..<al_n_seq_id al ! i]) idxs;
          unq = filter (\<lambda>s. int s \<in> set (concat seq_id)) [0..<al_n_seq_max al]
      in (\<lparr>ub_n_tokens = length idxs, ub_n_seqs_unq = length unq, ub_n_pos = al_n_pos_per_embd al,
           ub_token = map_option (\<lambda>token. map (\<lambda>i. token ! i) idxs) (al_token al),
           ub_pos = concat (map (\<lambda>j. map (\<lambda>i. al_pos al ! ((if al_token al \<noteq> None then 0 else j * al_n_tokens al) + i)) idxs)
             [0..<al_n_pos_per_embd al]),
           ub_n_seq_id = map (\<lambda>i. al_n_seq_id al ! i) idxs, ub_seq_id = seq_id, ub_seq_id_unq = map int unq,
           ub_equal_seqs = equal_seqs, ub_n_seq_tokens = length idxs div n_seqs, ub_n_seqs = n_seqs,
           ub_embd = map_option (\<lambda>embd. concat (map (\<lambda>i. take (al_n_embd al) (drop (i * al_n_embd al) embd)) idxs)) (al_embd al),
           ub_seq_idx = map (index_of unq) [0..<LLAMA_MAX_SEQ],
           ub_output = map (\<lambda>i. al_logits al ! i) idxs\<rparr>,
          al\<lparr>al_out_ids := al_out_ids al @ filter (\<lambda>i. al_logits al ! i \<noteq> 0) idxs\<rparr>))"

text \<open>The three splits; \<open>None\<close> is the empty ubatch that ends the splitting.\<close>

definition add_selection :: "selection option \<times> llama_batch_allocr \<Rightarrow> llama_ubatch_full option \<times> llama_batch_allocr" where
  "add_selection r =
     (case r of (None, al) \<Rightarrow> (None, al)
      | (Some sel, al) \<Rightarrow> let (ub, al) = ubatch_add sel al in (Some ub, al))"

definition split_simple :: "nat \<Rightarrow> llama_batch_allocr \<Rightarrow> llama_ubatch_full option \<times> llama_batch_allocr" where
  "split_simple n_ubatch al = add_selection (select_simple n_ubatch al)"

definition split_seq :: "nat \<Rightarrow> llama_batch_allocr \<Rightarrow> llama_ubatch_full option \<times> llama_batch_allocr" where
  "split_seq n_ubatch al = add_selection (select_seq n_ubatch al)"

definition split_equal :: "nat \<Rightarrow> bool \<Rightarrow> nat \<Rightarrow> llama_batch_allocr \<Rightarrow>
    batch_error + llama_ubatch_full option \<times> llama_batch_allocr" where
  "split_equal n_ubatch sequential n_keep_tail al =
     (case select_equal n_ubatch sequential n_keep_tail al of Inl e \<Rightarrow> Inl e | Inr r \<Rightarrow> Inr (add_selection r))"

text \<open>
  The loop of \<open>init_batch\<close> around a split, until the empty ubatch; the outer \<open>None\<close> is fuel used up. An empty
  ubatch is one without tokens.
\<close>

fun split_loop :: "nat \<Rightarrow> (llama_batch_allocr \<Rightarrow> batch_error + llama_ubatch_full option \<times> llama_batch_allocr) \<Rightarrow>
    llama_batch_allocr \<Rightarrow> (batch_error + llama_ubatch_full list \<times> llama_batch_allocr) option" where
  "split_loop 0 split al = None"
| "split_loop (Suc n) split al =
     (case split al of
        Inl e \<Rightarrow> Some (Inl e)
      | Inr (None, al) \<Rightarrow> Some (Inr ([], al))
      | Inr (Some ub, al) \<Rightarrow>
          if ub_n_tokens ub = 0 then Some (Inr ([], al))
          else case split_loop n split al of
            Some (Inr (ubs, al)) \<Rightarrow> Some (Inr (ub # ubs, al))
          | r \<Rightarrow> r)"

text \<open>\<open>clear\<close>, and the ubatch for reserving a graph of \<open>n_seqs \<le> LLAMA_MAX_SEQ\<close> sequences.\<close>

definition allocr_clear :: "llama_batch_allocr \<Rightarrow> llama_batch_allocr" where
  "allocr_clear al = al\<lparr>al_n_outputs := 0, al_n_tokens := 0, al_token := None, al_embd := None, al_pos := [], al_n_seq_id := [],
     al_seq_id := [], al_logits := [], al_seq_id_unq := [], al_seq_pos := (\<lambda>_. {}), al_seq_cpl := {}, al_seq_set := [],
     al_seq_set_map := (\<lambda>_. []), al_seq_idx := replicate LLAMA_MAX_SEQ (-1)\<rparr>"

definition ubatch_reserve :: "nat \<Rightarrow> nat \<Rightarrow> llama_batch_allocr \<Rightarrow> llama_ubatch_full \<times> llama_batch_allocr" where
  "ubatch_reserve n_seq_tokens n_seqs al =
     (let n_tokens = u32 (n_seq_tokens * n_seqs)
      in (\<lparr>ub_n_tokens = n_tokens, ub_n_seqs_unq = n_seqs, ub_n_pos = al_n_pos_per_embd al, ub_token = Some (replicate n_tokens 0),
           ub_pos = replicate (n_tokens * al_n_pos_per_embd al) 0, ub_n_seq_id = replicate n_tokens 0, ub_seq_id = replicate n_tokens [],
           ub_seq_id_unq = map int [0..<n_seqs], ub_equal_seqs = True, ub_n_seq_tokens = n_seq_tokens, ub_n_seqs = n_seqs,
           ub_embd = None, ub_seq_idx = map (\<lambda>s. if s < n_seqs then int s else -1) [0..<LLAMA_MAX_SEQ],
           ub_output = replicate n_tokens 0\<rparr>,
          split_reset (allocr_clear al)))"

end
