(* ===== verification/BatchSplit.thy ===== *)
theory BatchSplit
  imports Batch
begin

text \<open>
  What splitting a batch does: each split takes unused tokens and marks exactly those, and as long as a
  token is unused it takes at least one, so that repeated splitting ends and deals every token to exactly one
  ubatch. The contract of a split is the locale \<open>splitter\<close>, which the three ways to split interpret. Then
  the shape of the ubatches of \<open>split_equal\<close>.
\<close>

section \<open>Marking tokens\<close>

lemma fold_set_length [simp]: "length (fold (\<lambda>i u. u[i := b]) idxs u) = length u"
  by (induction idxs arbitrary: u) auto

lemma fold_set_nth: "j < length u \<Longrightarrow> fold (\<lambda>i u. u[i := b]) idxs u ! j = (if j \<in> set idxs then b else u ! j)"
  by (induction idxs arbitrary: u) (auto simp: nth_list_update)

definition unused :: "llama_batch_allocr \<Rightarrow> nat set" where
  "unused al = {i. i < al_n_tokens al \<and> \<not> al_used al ! i}"

text \<open>The allocator during splitting; \<open>seq_set_map\<close> lists the tokens of a sequence set in order.\<close>

definition al_ok :: "llama_batch_allocr \<Rightarrow> bool" where
  "al_ok al \<longleftrightarrow> length (al_used al) = al_n_tokens al \<and> length (al_seq_set al) = al_n_tokens al \<and>
     (\<forall>S. al_seq_set_map al S = filter (\<lambda>i. al_seq_set al ! i = S) [0..<al_n_tokens al]) \<and>
     {} \<notin> set (al_seq_set al) \<and> al_n_used al + card (unused al) = al_n_tokens al"

lemma finite_unused [simp]: "finite (unused al)"
  by (simp add: unused_def)

definition taken :: "llama_batch_allocr \<Rightarrow> nat list \<Rightarrow> bool" where
  "taken al idxs \<longleftrightarrow> idxs \<noteq> [] \<and> distinct idxs \<and> set idxs \<subseteq> unused al"

lemma mark_used_config [simp]:
  "al_n_tokens (mark_used idxs al) = al_n_tokens al" "al_seq_set (mark_used idxs al) = al_seq_set al"
  "al_seq_set_map (mark_used idxs al) = al_seq_set_map al" "al_seq_id (mark_used idxs al) = al_seq_id al"
  "length (al_used (mark_used idxs al)) = length (al_used al)" "al_has_cpl (mark_used idxs al) = al_has_cpl al"
  "al_n_used (mark_used idxs al) = al_n_used al + length idxs"
  by (simp_all add: mark_used_def)

lemma mark_used_nth: "i < length (al_used al) \<Longrightarrow> al_used (mark_used idxs al) ! i \<longleftrightarrow> i \<in> set idxs \<or> al_used al ! i"
  by (simp add: mark_used_def fold_set_nth)

lemma unused_mark: "al_ok al \<Longrightarrow> unused (mark_used idxs al) = unused al - set idxs"
  by (auto simp: unused_def al_ok_def mark_used_nth)

lemma mark_used_ok:
  assumes "al_ok al" "taken al idxs"
  shows "al_ok (mark_used idxs al)"
proof -
  have "card (unused al - set idxs) = card (unused al) - length idxs" "length idxs \<le> card (unused al)"
    using assms(2) card_mono[OF finite_unused, of "set idxs" al] by (auto simp: taken_def card_Diff_subset distinct_card)
  then show ?thesis using assms(1) unused_mark[OF assms(1)] by (simp add: al_ok_def)
qed

lemma taken_psubset: "taken al idxs \<Longrightarrow> unused al - set idxs \<subset> unused al"
  by (cases idxs) (auto simp: taken_def)

section \<open>The contract of a split\<close>

text \<open>The allocator after ubatches with the tokens \<open>idxs\<close> were split off.\<close>

definition split_state :: "llama_batch_allocr \<Rightarrow> nat list \<Rightarrow> llama_batch_allocr" where
  "split_state al idxs = (mark_used idxs al)\<lparr>al_out_ids := al_out_ids al @ filter (\<lambda>i. al_logits al ! i \<noteq> 0) idxs\<rparr>"

lemma split_state_simps [simp]:
  "split_state al [] = al" "split_state (split_state al a) b = split_state al (a @ b)"
  "al_n_tokens (split_state al a) = al_n_tokens al" "al_seq_set (split_state al a) = al_seq_set al"
  "al_seq_id (split_state al a) = al_seq_id al" "al_used (split_state al a) = al_used (mark_used a al)"
  "al_n_used (split_state al a) = al_n_used al + length a" "al_has_cpl (split_state al a) = al_has_cpl al"
  "unused (split_state al a) = unused (mark_used a al)"
  by (simp_all add: split_state_def mark_used_def unused_def)

lemma ubatch_add_state:
  "fst (ubatch_add sel (split_state al a)) = fst (ubatch_add sel al)" "fst (ubatch_add sel (mark_used a al)) = fst (ubatch_add sel al)"
  "snd (ubatch_add sel (mark_used (fst sel) al)) = split_state al (fst sel)" "ub_n_tokens (fst (ubatch_add sel al)) = length (fst sel)"
  by (simp_all add: ubatch_add_def split_state_def mark_used_def Let_def split_beta cong: if_cong)

lemma add_selection_some: "add_selection (Some sel, mark_used (fst sel) al) = (Some (fst (ubatch_add sel al)), split_state al (fst sel))"
  by (simp add: add_selection_def split_beta ubatch_add_state)

locale splitter =
  fixes split :: "llama_batch_allocr \<Rightarrow> batch_error + llama_ubatch_full option \<times> llama_batch_allocr"
    and select :: "llama_batch_allocr \<Rightarrow> selection option \<times> llama_batch_allocr"
    and ok :: "llama_batch_allocr \<Rightarrow> bool"
  assumes ok_al: "ok al \<Longrightarrow> al_ok al"
    and split: "ok al \<Longrightarrow> split al = Inr (add_selection (select al))"
    and none: "ok al \<Longrightarrow> select al = (None, al') \<Longrightarrow> al' = al \<and> unused al = {}"
    and some: "ok al \<Longrightarrow> select al = (Some sel, al') \<Longrightarrow> taken al (fst sel) \<and> al' = mark_used (fst sel) al \<and> ok al'"
    and outputs: "ok al \<Longrightarrow> ok (al\<lparr>al_out_ids := out\<rparr>)"
begin

lemma split_none: "ok al \<Longrightarrow> select al = (None, al') \<Longrightarrow> split al = Inr (None, al)"
  using split none by (simp add: add_selection_def)

lemma split_some:
  assumes "ok al" "select al = (Some sel, al')"
  shows "split al = Inr (Some (fst (ubatch_add sel al)), split_state al (fst sel))" "ok (split_state al (fst sel))" "taken al (fst sel)"
proof -
  note s = some[OF assms]
  show "split al = Inr (Some (fst (ubatch_add sel al)), split_state al (fst sel))"
    using split[OF assms(1)] assms(2) s add_selection_some by simp
  show "ok (split_state al (fst sel))" unfolding split_state_def using s outputs by blast
  show "taken al (fst sel)" using s by blast
qed

text \<open>The loop ends; each ubatch is selected from the state its predecessors left, and they partition the unused tokens.\<close>

lemma partition:
  "ok al \<Longrightarrow> card (unused al) < fuel \<Longrightarrow> \<exists>sels.
     split_loop fuel split al = Some (Inr (map (\<lambda>sel. fst (ubatch_add sel al)) sels, split_state al (concat (map fst sels)))) \<and>
     distinct (concat (map fst sels)) \<and> set (concat (map fst sels)) = unused al \<and>
     (\<forall>k < length sels. ok (split_state al (concat (map fst (take k sels)))) \<and>
        fst (select (split_state al (concat (map fst (take k sels))))) = Some (sels ! k))"
proof (induction fuel arbitrary: al)
  case (Suc fuel)
  note al = ok_al[OF Suc.prems(1)]
  obtain r al1 where s: "select al = (r, al1)" by force
  show ?case
  proof (cases r)
    case None
    then show ?thesis using none[OF Suc.prems(1)] split_none[OF Suc.prems(1)] s by (intro exI[of _ "[]"]) auto
  next
    case (Some sel)
    let ?al = "split_state al (fst sel)"
    have t: "split al = Inr (Some (fst (ubatch_add sel al)), ?al)" "ok ?al" "taken al (fst sel)"
      using split_some[OF Suc.prems(1)] s Some by auto
    have u: "unused ?al = unused al - set (fst sel)" using unused_mark[OF al] by simp
    then have "card (unused ?al) < card (unused al)" using t(3) taken_psubset by (intro psubset_card_mono finite_unused) simp
    then obtain sels where sels: "split_loop fuel split ?al = Some (Inr (map (\<lambda>x. fst (ubatch_add x ?al)) sels, split_state ?al (concat (map fst sels))))"
        "distinct (concat (map fst sels))" "set (concat (map fst sels)) = unused ?al"
        "\<forall>k < length sels. ok (split_state ?al (concat (map fst (take k sels)))) \<and>
           fst (select (split_state ?al (concat (map fst (take k sels))))) = Some (sels ! k)"
      using Suc.IH[OF t(2)] Suc.prems(2) by auto
    have "ub_n_tokens (fst (ubatch_add sel al)) \<noteq> 0" using t(3) by (simp add: ubatch_add_state taken_def)
    then have "split_loop (Suc fuel) split al =
        Some (Inr (map (\<lambda>x. fst (ubatch_add x al)) (sel # sels), split_state al (concat (map fst (sel # sels)))))"
      using t(1) sels(1) by (simp add: ubatch_add_state)
    moreover have "\<forall>k < length (sel # sels). ok (split_state al (concat (map fst (take k (sel # sels))))) \<and>
        fst (select (split_state al (concat (map fst (take k (sel # sels)))))) = Some ((sel # sels) ! k)"
    proof (intro allI impI)
      fix k assume "k < length (sel # sels)"
      then show "ok (split_state al (concat (map fst (take k (sel # sels))))) \<and>
          fst (select (split_state al (concat (map fst (take k (sel # sels)))))) = Some ((sel # sels) ! k)"
        using sels(4) s Some Suc.prems(1) by (cases k) auto
    qed
    ultimately show ?thesis using sels(2,3) u t(3) by (intro exI[of _ "sel # sels"]) (auto simp: taken_def)
  qed
qed simp

end

section \<open>The simple split\<close>

lemma simple_loop_eq:
  "cur < n \<Longrightarrow> length idxs < n_ubatch \<or> idxs = [] \<Longrightarrow>
    simple_loop n_ubatch n cur idxs = idxs @ [cur..<min n (cur + max 1 (n_ubatch - length idxs))]"
proof (induction n_ubatch n cur idxs rule: simple_loop.induct)
  case (1 n_ubatch n cur idxs)
  show ?case
  proof (cases "cur + 1 \<ge> n \<or> length (idxs @ [cur]) \<ge> n_ubatch")
    case True
    moreover from this have "min n (cur + max 1 (n_ubatch - length idxs)) = Suc cur" using "1.prems" by auto
    ultimately show ?thesis by (subst simple_loop.simps) (auto simp: Let_def)
  next
    case False
    then have "simple_loop n_ubatch n cur idxs = simple_loop n_ubatch n (cur + 1) (idxs @ [cur])"
      by (subst simple_loop.simps) (auto simp: Let_def)
    also have "\<dots> = (idxs @ [cur]) @ [cur + 1..<min n (cur + 1 + max 1 (n_ubatch - length (idxs @ [cur])))]"
      using False by (intro "1.IH") auto
    also have "\<dots> = idxs @ [cur..<min n (cur + max 1 (n_ubatch - length idxs))]"
    proof -
      have "cur + 1 + max 1 (n_ubatch - length (idxs @ [cur])) = cur + max 1 (n_ubatch - length idxs)" using False by auto
      moreover have "cur < min n (cur + max 1 (n_ubatch - length idxs))" using False by auto
      ultimately show ?thesis by (simp only: upt_conv_Cons[of cur] append_assoc append_Cons append_Nil Suc_eq_plus1)
    qed
    finally show ?thesis .
  qed
qed

text \<open>The used tokens come first.\<close>

definition simple_ok :: "llama_batch_allocr \<Rightarrow> bool" where
  "simple_ok al \<longleftrightarrow> al_ok al \<and> (\<exists>k \<le> al_n_tokens al. al_used al = replicate k True @ replicate (al_n_tokens al - k) False)"

lemma simple_ok_first:
  assumes "simple_ok al"
  shows "al_ok al" "length (al_used al) = al_n_tokens al" "first_unused al \<le> al_n_tokens al" "unused al = {first_unused al..<al_n_tokens al}"
    "al_used al = replicate (first_unused al) True @ replicate (al_n_tokens al - first_unused al) False"
proof -
  obtain k where k: "k \<le> al_n_tokens al" "al_used al = replicate k True @ replicate (al_n_tokens al - k) False" "al_ok al"
    using assms by (auto simp: simple_ok_def)
  have "takeWhile (\<lambda>u. u) (replicate k True @ replicate m False) = replicate k True" for m
    by (subst takeWhile_append2) auto
  then have f: "first_unused al = k" using k(2) by (simp add: first_unused_def)
  show "al_ok al" "length (al_used al) = al_n_tokens al" "first_unused al \<le> al_n_tokens al" using k f by auto
  show "al_used al = replicate (first_unused al) True @ replicate (al_n_tokens al - first_unused al) False" using k f by simp
  show "unused al = {first_unused al..<al_n_tokens al}" using k f by (auto simp: unused_def nth_append)
qed

lemma mark_prefix:
  assumes "simple_ok al" "e = min (al_n_tokens al) m" "first_unused al \<le> m"
  shows "al_used (mark_used [first_unused al..<e] al) = replicate e True @ replicate (al_n_tokens al - e) False"
proof (rule nth_equalityI)
  note f = simple_ok_first[OF assms(1)]
  show "length (al_used (mark_used [first_unused al..<e] al)) = length (replicate e True @ replicate (al_n_tokens al - e) False)"
    using assms f by simp
  fix i assume "i < length (al_used (mark_used [first_unused al..<e] al))"
  then have i: "i < al_n_tokens al" using f(2) by simp
  have "al_used al ! i \<longleftrightarrow> i < first_unused al" unfolding f(5) using i f(3) by (auto simp: nth_append)
  then show "al_used (mark_used [first_unused al..<e] al) ! i = (replicate e True @ replicate (al_n_tokens al - e) False) ! i"
    using i f(2) assms(2,3) by (auto simp: mark_used_nth nth_append)
qed

lemma select_simple_eq:
  fixes n_ubatch al
  assumes "simple_ok al" "first_unused al < al_n_tokens al"
  defines "idxs \<equiv> [first_unused al..<min (al_n_tokens al) (first_unused al + max 1 n_ubatch)]"
  shows "select_simple n_ubatch al = (Some (idxs, length idxs, False), mark_used idxs al)"
  using assms simple_ok_first(2)[OF assms(1)] simple_loop_eq[of "first_unused al" "al_n_tokens al" "[]" n_ubatch]
  by (simp add: select_simple_def Let_def)

interpretation simple: splitter "\<lambda>al. Inr (split_simple n_ubatch al)" "select_simple n_ubatch" simple_ok
proof unfold_locales
  fix al al' sel out
  assume ok: "simple_ok al"
  note f = simple_ok_first[OF ok]
  show "Inr (split_simple n_ubatch al) = Inr (add_selection (select_simple n_ubatch al))" by (simp add: split_simple_def)
  show "al_ok al" by (rule f(1))
  show "al' = al \<and> unused al = {}" if "select_simple n_ubatch al = (None, al')"
    using that f(2,4) by (auto simp: select_simple_def Let_def split: if_splits)
  show "simple_ok (al\<lparr>al_out_ids := out\<rparr>)" using ok by (simp add: simple_ok_def al_ok_def unused_def)
  show "taken al (fst sel) \<and> al' = mark_used (fst sel) al \<and> simple_ok al'" if sel: "select_simple n_ubatch al = (Some sel, al')"
  proof -
    define idxs where "idxs = fst sel"
    have lt: "first_unused al < al_n_tokens al" using sel f(2) by (auto simp: select_simple_def Let_def split: if_splits)
    let ?e = "min (al_n_tokens al) (first_unused al + max 1 n_ubatch)"
    have i: "idxs = [first_unused al..<?e]" "al' = mark_used idxs al" using sel select_simple_eq[OF ok lt, of n_ubatch] by (auto simp: idxs_def)
    have t: "taken al idxs" using i(1) lt f(4) by (auto simp: taken_def)
    have "simple_ok al'" unfolding simple_ok_def i(2)
    proof
      show "al_ok (mark_used idxs al)" by (rule mark_used_ok[OF f(1) t])
      have "al_used (mark_used idxs al) = replicate ?e True @ replicate (al_n_tokens al - ?e) False"
        unfolding i(1) by (rule mark_prefix[OF ok refl]) simp
      then show "\<exists>k \<le> al_n_tokens (mark_used idxs al). al_used (mark_used idxs al) = replicate k True @ replicate (al_n_tokens (mark_used idxs al) - k) False"
        by (intro exI[of _ ?e]) simp
    qed
    then show ?thesis using t i(2) unfolding idxs_def by blast
  qed
qed

section \<open>The split by sequence set\<close>

lemma first_unused_in:
  assumes "al_ok al"
  shows "first_unused al < length (al_used al) \<Longrightarrow> first_unused al \<in> unused al" "first_unused al \<ge> length (al_used al) \<Longrightarrow> unused al = {}"
proof -
  assume lt: "first_unused al < length (al_used al)"
  then have "\<not> al_used al ! first_unused al" unfolding first_unused_def by (metis nth_length_takeWhile)
  then show "first_unused al \<in> unused al" using lt assms by (simp add: unused_def al_ok_def)
next
  assume "first_unused al \<ge> length (al_used al)"
  then have "takeWhile (\<lambda>u. u) (al_used al) = al_used al"
    unfolding first_unused_def by (metis length_takeWhile_le order_antisym take_all takeWhile_eq_take)
  then have "\<forall>u \<in> set (al_used al). u" by (simp add: takeWhile_eq_all_conv)
  then show "unused al = {}" using assms by (auto simp: unused_def al_ok_def)
qed

lemma seq_loop_taken:
  "cur_idx \<in> unused al \<Longrightarrow> \<exists>rest. seq_loop n_ubatch S cur_idx idxs al = idxs @ cur_idx # rest \<and>
    sorted_wrt (<) (cur_idx # rest) \<and> set rest \<subseteq> unused al"
proof (induction n_ubatch S cur_idx idxs al rule: seq_loop.induct)
  case (1 n_ubatch S cur_idx idxs al)
  show ?case
  proof (cases "length (idxs @ [cur_idx]) \<ge> n_ubatch \<or> next_subset al S cur_idx = None")
    case True
    then show ?thesis by (intro exI[of _ "[]"]) (subst seq_loop.simps; auto simp: Let_def)
  next
    case False
    then obtain j where j: "next_subset al S cur_idx = Some j" by auto
    have jn: "cur_idx < j" "j \<in> unused al"
      using next_subset_less[OF j] j by (auto simp: next_subset_def find_Some_iff unused_def)
    have "seq_loop n_ubatch S cur_idx idxs al = seq_loop n_ubatch (al_seq_set al ! j) j (idxs @ [cur_idx]) al"
      using False j by (subst seq_loop.simps) (simp add: Let_def)
    moreover obtain rest where "seq_loop n_ubatch (al_seq_set al ! j) j (idxs @ [cur_idx]) al = (idxs @ [cur_idx]) @ j # rest"
        "sorted_wrt (<) (j # rest)" "set rest \<subseteq> unused al"
      using "1.IH"[OF refl _ j jn(2)] False by auto
    ultimately show ?thesis using jn by (intro exI[of _ "j # rest"]) auto
  qed
qed

interpretation seq: splitter "\<lambda>al. Inr (split_seq n_ubatch al)" "select_seq n_ubatch" al_ok
proof unfold_locales
  fix al al' sel out
  assume ok: "al_ok al"
  show "Inr (split_seq n_ubatch al) = Inr (add_selection (select_seq n_ubatch al))" by (simp add: split_seq_def)
  show "al_ok al" by (rule ok)
  show "al' = al \<and> unused al = {}" if "select_seq n_ubatch al = (None, al')"
    using that first_unused_in(2)[OF ok] by (auto simp: select_seq_def Let_def split: if_splits)
  show "al_ok (al\<lparr>al_out_ids := out\<rparr>)" using ok by (simp add: al_ok_def unused_def)
  show "taken al (fst sel) \<and> al' = mark_used (fst sel) al \<and> al_ok al'" if "select_seq n_ubatch al = (Some sel, al')"
  proof -
    let ?c = "first_unused al"
    define idxs where "idxs = fst sel"
    have sel: "?c < length (al_used al)" "idxs = seq_loop n_ubatch (al_seq_set al ! ?c) ?c [] al" "al' = mark_used idxs al"
      using that by (auto simp: select_seq_def Let_def idxs_def split: if_splits)
    have c: "?c \<in> unused al" by (rule first_unused_in(1)[OF ok sel(1)])
    obtain rest where "idxs = ?c # rest" "sorted_wrt (<) (?c # rest)" "set rest \<subseteq> unused al"
      using seq_loop_taken[OF c, of n_ubatch "al_seq_set al ! ?c" "[]"] sel(2) by auto
    then have "taken al idxs" using c strict_sorted_iff[of idxs] by (auto simp: taken_def)
    then show ?thesis using sel(3) mark_used_ok[OF ok] unfolding idxs_def by blast
  qed
qed

section \<open>The sequence sets of an equal split\<close>

definition disjoint_sets_list :: "nat set list \<Rightarrow> bool" where
  "disjoint_sets_list Ss \<longleftrightarrow> (\<forall>a < length Ss. \<forall>b < length Ss. a \<noteq> b \<longrightarrow> Ss ! a \<inter> Ss ! b = {})"

definition sets_of_unused :: "llama_batch_allocr \<Rightarrow> nat set list \<Rightarrow> bool" where
  "sets_of_unused al Ss \<longleftrightarrow> (\<forall>S \<in> set Ss. \<exists>i \<in> unused al. al_seq_set al ! i = S) \<and> disjoint_sets_list Ss"

lemma sets_of_unused_snoc:
  assumes "sets_of_unused al Ss" "list_all (\<lambda>T. T \<inter> al_seq_set al ! i = {}) Ss" "i \<in> unused al"
  shows "sets_of_unused al (Ss @ [al_seq_set al ! i])"
proof -
  have "Ss ! a \<inter> al_seq_set al ! i = {}" if "a < length Ss" for a using assms(2) that by (simp add: list_all_length)
  then show ?thesis
    using assms(1,3) by (auto simp: sets_of_unused_def disjoint_sets_list_def nth_append less_Suc_eq)
qed

lemma choose_sets_ok:
  "sets_of_unused al Ss \<Longrightarrow> length Ss \<le> n_ubatch \<Longrightarrow> \<forall>i \<in> set is. i < al_n_tokens al \<Longrightarrow>
    sets_of_unused al (choose_sets n_ubatch sequential al is Ss last_id) \<and>
    length (choose_sets n_ubatch sequential al is Ss last_id) \<le> Suc n_ubatch \<and>
    (Ss \<noteq> [] \<or> set is \<inter> unused al \<noteq> {} \<longrightarrow> choose_sets n_ubatch sequential al is Ss last_id \<noteq> [])"
proof (induction "is" arbitrary: Ss last_id)
  case (Cons i "is")
  show ?case
  proof (cases "al_used al ! i")
    case True
    then show ?thesis using Cons by (simp add: unused_def)
  next
    case False
    then have i: "i \<in> unused al" using Cons.prems(3) by (simp add: unused_def)
    let ?S = "al_seq_set al ! i"
    let ?add = "list_all (\<lambda>T. T \<inter> ?S = {}) Ss \<and> (sequential \<longrightarrow> Ss = [] \<or> al_seq_id al ! i ! 0 = last_id + 1)"
    show ?thesis
    proof (cases ?add)
      case True
      then have "sets_of_unused al (Ss @ [?S])" using sets_of_unused_snoc[OF Cons.prems(1) _ i] by blast
      then show ?thesis using Cons.IH[of "Ss @ [?S]" "al_seq_id al ! i ! 0"] Cons.prems(2,3) False True by (auto simp: Let_def)
    next
      case no: False
      then have "Ss \<noteq> []" by auto
      then show ?thesis using Cons.IH[of Ss last_id] Cons.prems False no by (auto simp: Let_def)
    qed
  qed
qed simp

section \<open>The tokens of an equal split\<close>

text \<open>The tokens of a set that are left, in order; used tokens of a set come before unused ones.\<close>

definition left :: "llama_batch_allocr \<Rightarrow> nat set \<Rightarrow> nat list" where
  "left al S = filter (\<lambda>i. al_seq_set al ! i = S \<and> i \<in> unused al) [0..<al_n_tokens al]"

definition in_order :: "llama_batch_allocr \<Rightarrow> bool" where
  "in_order al \<longleftrightarrow> al_ok al \<and> (\<forall>i j. i < j \<and> j < al_n_tokens al \<and> al_seq_set al ! i = al_seq_set al ! j \<and> al_used al ! j \<longrightarrow> al_used al ! i)"

lemma takeWhile_filter_prefix:
  "sorted_wrt (<) xs \<Longrightarrow> \<forall>i \<in> set xs. \<forall>j \<in> set xs. i < j \<and> P j \<longrightarrow> P i \<Longrightarrow> drop (length (takeWhile P xs)) xs = filter (\<lambda>i. \<not> P i) xs"
proof (induction xs)
  case (Cons x xs)
  then show ?case
  proof (cases "P x")
    case False
    then have "filter (\<lambda>i. \<not> P i) xs = xs" using Cons.prems by (auto intro!: filter_True)
    then show ?thesis using False by simp
  next
    case True
    have s: "sorted_wrt (<) xs" using Cons.prems(1) by simp
    have "\<forall>i \<in> set xs. \<forall>j \<in> set xs. i < j \<and> P j \<longrightarrow> P i" using Cons.prems(2) by (meson list.set_intros(2))
    from Cons.IH[OF s this] show ?thesis using True by simp
  qed
qed simp

lemma left_eq:
  assumes "in_order al"
  shows "drop (length (takeWhile (\<lambda>i. al_used al ! i) (al_seq_set_map al S))) (al_seq_set_map al S) = left al S"
proof -
  have m: "al_seq_set_map al S = filter (\<lambda>i. al_seq_set al ! i = S) [0..<al_n_tokens al]"
    using assms by (simp add: in_order_def al_ok_def)
  have "sorted_wrt (<) (al_seq_set_map al S)" unfolding m by (simp add: sorted_wrt_filter)
  moreover have "\<forall>i \<in> set (al_seq_set_map al S). \<forall>j \<in> set (al_seq_set_map al S). i < j \<and> al_used al ! j \<longrightarrow> al_used al ! i"
    using assms unfolding m in_order_def by auto
  ultimately have "drop (length (takeWhile (\<lambda>i. al_used al ! i) (al_seq_set_map al S))) (al_seq_set_map al S) =
      filter (\<lambda>i. \<not> al_used al ! i) (al_seq_set_map al S)"
    by (rule takeWhile_filter_prefix)
  also have "\<dots> = left al S" unfolding m left_def filter_filter by (rule filter_cong) (auto simp: unused_def)
  finally show ?thesis .
qed

lemma left_props: "sorted_wrt (<) (left al S)" "distinct (left al S)" "set (left al S) = {i \<in> unused al. al_seq_set al ! i = S}"
  by (auto simp: left_def sorted_wrt_filter unused_def)

text \<open>The rounds of the loop: after \<open>r\<close> rounds each set has given its next \<open>r\<close> tokens.\<close>

definition round_idxs :: "nat list list \<Rightarrow> nat list \<Rightarrow> nat \<Rightarrow> nat list list" where
  "round_idxs toks start r = map (\<lambda>s. take r (drop (start ! s) (toks ! s))) [0..<length toks]"

definition round_cur :: "nat list list \<Rightarrow> nat list \<Rightarrow> nat \<Rightarrow> nat list" where
  "round_cur toks start r = map (\<lambda>s. start ! s + r) [0..<length toks]"

lemma equal_loop_rounds:
  fixes toks :: "nat list list"
  assumes "toks \<noteq> []"
  shows "\<forall>s < length toks. start ! s + r \<le> length (toks ! s) \<Longrightarrow>
    \<exists>r' \<ge> r. equal_loop n_ubatch toks (round_cur toks start r) (round_idxs toks start r) = (round_cur toks start r', round_idxs toks start r') \<and>
      (\<forall>s < length toks. start ! s + r' \<le> length (toks ! s)) \<and> (r' = r \<longrightarrow> (\<exists>s < length toks. start ! s + r = length (toks ! s))) \<and>
      (r' \<le> Suc r \<or> r' * length toks \<le> n_ubatch)"
proof (induction "length (toks ! 0) - (start ! 0 + r)" arbitrary: r rule: less_induct)
  case less
  let ?cur = "round_cur toks start r" and ?idxs = "round_idxs toks start r"
  have cur: "?cur ! s = start ! s + r" if "s < length toks" for s using that by (simp add: round_cur_def)
  show ?case
  proof (cases "\<exists>s < length toks. start ! s + r = length (toks ! s)")
    case True
    then obtain s where "s < length toks" "?cur ! s \<ge> length (toks ! s)" using cur by auto
    then have "list_ex (\<lambda>s. ?cur ! s \<ge> length (toks ! s)) [0..<length toks]" by (auto simp: list_ex_iff intro!: bexI[of _ s])
    then have "equal_loop n_ubatch toks ?cur ?idxs = (?cur, ?idxs)" by (subst equal_loop.simps) simp
    then show ?thesis using True less.prems by (intro exI[of _ r]) auto
  next
    case False
    then have lt: "\<forall>s < length toks. start ! s + r < length (toks ! s)" using less.prems by (meson le_neq_implies_less)
    then have guard: "\<not> (toks = [] \<or> list_ex (\<lambda>s. ?cur ! s \<ge> length (toks ! s)) [0..<length toks])"
      using assms cur by (auto simp: list_ex_iff)
    have i1: "map (\<lambda>s. ?idxs ! s @ [toks ! s ! (?cur ! s)]) [0..<length toks] = round_idxs toks start (Suc r)"
      using lt by (auto simp: round_idxs_def round_cur_def take_Suc_conv_app_nth intro!: map_cong)
    have c1: "map (\<lambda>s. ?cur ! s + 1) [0..<length toks] = round_cur toks start (Suc r)"
      by (auto simp: round_cur_def intro!: map_cong)
    have len: "length (round_idxs toks start (Suc r) ! 0) = Suc r" using lt assms by (auto simp: round_idxs_def)
    have step: "equal_loop n_ubatch toks ?cur ?idxs =
        (if (Suc r + 1) * length toks > n_ubatch then (round_cur toks start (Suc r), round_idxs toks start (Suc r))
         else equal_loop n_ubatch toks (round_cur toks start (Suc r)) (round_idxs toks start (Suc r)))"
      unfolding equal_loop.simps[of n_ubatch toks ?cur] if_not_P[OF guard] Let_def i1 c1 len ..
    have ge: "\<forall>s < length toks. start ! s + Suc r \<le> length (toks ! s)" using lt by (auto simp: Suc_le_eq)
    show ?thesis
    proof (cases "(Suc r + 1) * length toks > n_ubatch")
      case True
      then show ?thesis using step ge by (intro exI[of _ "Suc r"]) auto
    next
      case go: False
      have "length (toks ! 0) - (start ! 0 + Suc r) < length (toks ! 0) - (start ! 0 + r)" using lt assms by auto
      from less.hyps[OF this ge] obtain r' where r': "r' \<ge> Suc r"
          "equal_loop n_ubatch toks (round_cur toks start (Suc r)) (round_idxs toks start (Suc r)) = (round_cur toks start r', round_idxs toks start r')"
          "\<forall>s < length toks. start ! s + r' \<le> length (toks ! s)" "r' \<le> Suc (Suc r) \<or> r' * length toks \<le> n_ubatch" by blast
      have "r' * length toks \<le> n_ubatch \<or> r' \<le> Suc r"
      proof (cases "r' = Suc (Suc r)")
        case True
        then show ?thesis using go by simp
      qed (use r' in auto)
      then show ?thesis using step go r' by (intro exI[of _ r']) auto
    qed
  qed
qed

section \<open>Prefixes of what is left\<close>

text \<open>A selection takes, of each of some disjoint sets, the first tokens that are left.\<close>

definition prefixes :: "llama_batch_allocr \<Rightarrow> nat set list \<Rightarrow> (nat \<Rightarrow> nat) \<Rightarrow> nat list list" where
  "prefixes al Ss r = map (\<lambda>s. take (r s) (left al (Ss ! s))) [0..<length Ss]"

lemma prefixes_nth [simp]: "length (prefixes al Ss r) = length Ss" "s < length Ss \<Longrightarrow> prefixes al Ss r ! s = take (r s) (left al (Ss ! s))"
  by (simp_all add: prefixes_def)

lemma prefixes_mem: "x \<in> set (concat (prefixes al Ss r)) \<longleftrightarrow> (\<exists>s < length Ss. x \<in> set (take (r s) (left al (Ss ! s))))"
  by (auto simp: prefixes_def)

lemma sets_distinct:
  assumes "sets_of_unused al Ss" "al_ok al" "a < length Ss" "b < length Ss" "Ss ! a = Ss ! b"
  shows "a = b"
proof (rule ccontr)
  assume "a \<noteq> b"
  then have "Ss ! a \<inter> Ss ! b = {}" using assms(1,3,4) unfolding sets_of_unused_def disjoint_sets_list_def by blast
  then have "Ss ! a = {}" using assms(5) by simp
  moreover obtain i where "i \<in> unused al" "al_seq_set al ! i = Ss ! a"
    using assms(1) nth_mem[OF assms(3)] unfolding sets_of_unused_def by blast
  ultimately show False using assms(2) by (metis al_ok_def mem_Collect_eq nth_mem unused_def)
qed

lemma filter_nth_map: "filter P xs = map ((!) xs) (filter (\<lambda>s. P (xs ! s)) [0..<length xs])"
  using filter_map[of P "(!) xs" "[0..<length xs]"] unfolding map_nth o_def .

lemma prefixes_taken:
  assumes "sets_of_unused al Ss" "al_ok al" "Ss \<noteq> []" "\<forall>s < length Ss. r s \<noteq> 0"
  shows "taken al (concat (prefixes al Ss r))"
  unfolding taken_def
proof (intro conjI)
  have sub: "set (prefixes al Ss r ! s) \<subseteq> {i \<in> unused al. al_seq_set al ! i = Ss ! s}" if "s < length Ss" for s
    using that set_take_subset left_props(3) by (metis prefixes_nth(2))
  show "set (concat (prefixes al Ss r)) \<subseteq> unused al"
  proof
    fix x assume "x \<in> set (concat (prefixes al Ss r))"
    then obtain s where "s < length Ss" "x \<in> set (prefixes al Ss r ! s)" unfolding prefixes_mem by auto
    then show "x \<in> unused al" using sub by blast
  qed
  obtain i where "i \<in> unused al" "al_seq_set al ! i = Ss ! 0"
    using assms(1,3) nth_mem[of 0 Ss] unfolding sets_of_unused_def by blast
  then have "i \<in> set (left al (Ss ! 0))" using left_props(3) by blast
  then have "left al (Ss ! 0) \<noteq> []" by auto
  then have "prefixes al Ss r ! 0 \<noteq> []" using assms(3,4) by auto
  then show "concat (prefixes al Ss r) \<noteq> []" using assms(3) by (metis concat_eq_Nil_conv length_greater_0_conv nth_mem prefixes_nth(1))
  show "distinct (concat (prefixes al Ss r))"
    unfolding distinct_concat_iff
  proof (intro conjI ballI allI impI)
    show "distinct xs" if "xs \<in> set (prefixes al Ss r)" for xs
      using that left_props(2) by (auto simp: prefixes_def)
    show "set xs \<inter> set ys = {}" if xy: "xs \<in> set (prefixes al Ss r) \<and> ys \<in> set (prefixes al Ss r) \<and> xs \<noteq> ys" for xs ys
    proof -
      obtain a b where ab: "a < length Ss" "b < length Ss" "xs = prefixes al Ss r ! a" "ys = prefixes al Ss r ! b"
        using xy by (metis in_set_conv_nth prefixes_nth(1))
      then have "Ss ! a \<noteq> Ss ! b" using sets_distinct[OF assms(1,2) ab(1,2)] xy by auto
      then show ?thesis using sub[OF ab(1)] sub[OF ab(2)] ab(3,4) by fastforce
    qed
    show "distinct (removeAll [] (prefixes al Ss r))"
    proof -
      have "inj_on (\<lambda>s. prefixes al Ss r ! s) {s. s < length Ss \<and> prefixes al Ss r ! s \<noteq> []}"
      proof (rule inj_onI, clarify)
        fix a b assume ab: "a < length Ss" "b < length Ss" "prefixes al Ss r ! a = prefixes al Ss r ! b" "prefixes al Ss r ! a \<noteq> []"
        then obtain i where "i \<in> set (prefixes al Ss r ! a)" by (metis last_in_set)
        then have "Ss ! a = Ss ! b" using sub[OF ab(1)] sub[OF ab(2)] ab(3) by auto
        then show "a = b" using sets_distinct[OF assms(1,2) ab(1,2)] by simp
      qed
      moreover have "removeAll [] (prefixes al Ss r) = map (\<lambda>s. prefixes al Ss r ! s) (filter (\<lambda>s. [] \<noteq> prefixes al Ss r ! s) [0..<length Ss])"
        using filter_nth_map[of "\<lambda>xs. [] \<noteq> xs" "prefixes al Ss r"] unfolding removeAll_filter_not_eq prefixes_nth(1) .
      ultimately show ?thesis by (auto simp: distinct_map inj_on_def)
    qed
  qed
qed

lemma take_down_closed: "sorted_wrt (<) xs \<Longrightarrow> i \<in> set xs \<Longrightarrow> i < j \<Longrightarrow> j \<in> set (take r xs) \<Longrightarrow> i \<in> set (take r (xs :: nat list))"
proof -
  assume s: "sorted_wrt (<) xs" "i \<in> set xs" "i < j" "j \<in> set (take r xs)"
  obtain b where b: "b < length xs" "b < r" "xs ! b = j" using s(4) by (auto simp: in_set_conv_nth)
  obtain a where a: "a < length xs" "xs ! a = i" using s(2) by (auto simp: in_set_conv_nth)
  have "a < b" using sorted_wrt_nth_less[OF s(1), of b a] a b s(3) by (cases a b rule: linorder_cases) auto
  then show ?thesis using a b by (auto simp: in_set_conv_nth intro!: exI[of _ a])
qed

lemma prefixes_in_order:
  assumes "in_order al" "sets_of_unused al Ss" "taken al (concat (prefixes al Ss r))"
  shows "in_order (mark_used (concat (prefixes al Ss r)) al)"
  unfolding in_order_def
proof (intro conjI allI impI)
  have al: "al_ok al" using assms(1) by (simp add: in_order_def)
  then show "al_ok (mark_used (concat (prefixes al Ss r)) al)" by (rule mark_used_ok[OF _ assms(3)])
  fix i j
  assume ij: "i < j \<and> j < al_n_tokens (mark_used (concat (prefixes al Ss r)) al) \<and>
    al_seq_set (mark_used (concat (prefixes al Ss r)) al) ! i = al_seq_set (mark_used (concat (prefixes al Ss r)) al) ! j \<and>
    al_used (mark_used (concat (prefixes al Ss r)) al) ! j"
  have len: "length (al_used al) = al_n_tokens al" using al by (simp add: al_ok_def)
  have "i \<in> set (concat (prefixes al Ss r)) \<or> al_used al ! i"
  proof (cases "al_used al ! j")
    case True
    then show ?thesis using assms(1) ij by (auto simp: in_order_def)
  next
    case False
    then obtain s where s: "s < length Ss" "j \<in> set (take (r s) (left al (Ss ! s)))"
      using ij len prefixes_mem[of j al Ss r] by (auto simp: mark_used_nth simp del: set_concat)
    have "al_seq_set al ! j = Ss ! s" using s(2) set_take_subset left_props(3) by (metis (mono_tags, lifting) in_mono mem_Collect_eq)
    then have i: "i < al_n_tokens al" "al_seq_set al ! i = Ss ! s" using ij by auto
    have "i \<in> set (take (r s) (left al (Ss ! s)))" if "\<not> al_used al ! i"
    proof (rule take_down_closed[OF left_props(1) _ _ s(2)])
      show "i \<in> set (left al (Ss ! s))" using that i unfolding left_props(3) unused_def by blast
      show "i < j" using ij by blast
    qed
    then show ?thesis using s(1) unfolding prefixes_mem by blast
  qed
  then show "al_used (mark_used (concat (prefixes al Ss r)) al) ! i" using ij len by (simp add: mark_used_nth)
qed

section \<open>Marking and unmarking\<close>

lemma unmark_eq:
  assumes "al_ok al" "distinct A" "mset A = mset B + mset C" "set B \<subseteq> unused al"
  shows "unmark_used B (mark_used A al) = mark_used C al"
proof -
  have "mset A = mset (B @ C)" using assms(3) by simp
  then have s: "set A = set B \<union> set C" "length A = length B + length C" "set B \<inter> set C = {}"
    using assms(2) mset_eq_setD[of A "B @ C"] mset_eq_length[of A "B @ C"] mset_eq_imp_distinct_iff[of A "B @ C"] by auto
  have u: "\<not> al_used al ! i" if "i \<in> set B" for i using that assms(4) by (auto simp: unused_def)
  have "fold (\<lambda>i u. u[i := False]) B (fold (\<lambda>i u. u[i := True]) A (al_used al)) = fold (\<lambda>i u. u[i := True]) C (al_used al)"
    by (rule nth_equalityI) (use s u in \<open>auto simp: fold_set_nth\<close>)
  then show ?thesis using s(2) by (simp add: unmark_used_def mark_used_def)
qed

lemma mark_used_append: "mark_used B (mark_used A al) = mark_used (A @ B) al"
  by (simp add: mark_used_def)

lemma mark_used_nil [simp]: "mark_used [] al = al" "unmark_used [] al = al"
  by (simp_all add: mark_used_def unmark_used_def)

text \<open>Selections of the same number of tokens from every set; \<open>takes\<close> says that \<open>r\<close> tokens of each set are there to take.\<close>

definition takes :: "llama_batch_allocr \<Rightarrow> nat set list \<Rightarrow> nat \<Rightarrow> bool" where
  "takes al Ss r \<longleftrightarrow> sets_of_unused al Ss \<and> Ss \<noteq> [] \<and> 0 < r \<and> (\<forall>s < length Ss. r \<le> length (left al (Ss ! s)))"

lemma takes_taken: "al_ok al \<Longrightarrow> takes al Ss r \<Longrightarrow> taken al (concat (prefixes al Ss (\<lambda>_. r)))"
  by (rule prefixes_taken) (auto simp: takes_def)

lemma sets_of_unused_take: "sets_of_unused al Ss \<Longrightarrow> sets_of_unused al (take k Ss)"
  by (auto simp: sets_of_unused_def disjoint_sets_list_def dest: in_set_takeD)

lemma takes_take: "takes al Ss r \<Longrightarrow> 0 < k \<Longrightarrow> takes al (take k Ss) r"
  by (auto simp: takes_def sets_of_unused_take)

lemma prefixes_take: "prefixes al (take k Ss) r = take k (prefixes al Ss r)"
  by (rule nth_equalityI) auto

text \<open>Putting back the tokens of all but the first sets.\<close>

lemma unmark_tail:
  assumes "al_ok al" "takes al Ss r"
  shows "unmark_used (concat (drop k (prefixes al Ss (\<lambda>_. r)))) (mark_used (concat (prefixes al Ss (\<lambda>_. r))) al) =
    mark_used (concat (prefixes al (take k Ss) (\<lambda>_. r))) al"
proof (rule unmark_eq[OF assms(1)])
  let ?P = "prefixes al Ss (\<lambda>_. r)"
  have t: "taken al (concat ?P)" by (rule takes_taken[OF assms])
  have c: "concat ?P = concat (take k ?P) @ concat (drop k ?P)" by (metis append_take_drop_id concat_append)
  show "distinct (concat ?P)" using t by (simp add: taken_def)
  show "mset (concat ?P) = mset (concat (drop k ?P)) + mset (concat (prefixes al (take k Ss) (\<lambda>_. r)))"
    unfolding prefixes_take by (subst c) simp
  show "set (concat (drop k ?P)) \<subseteq> unused al" using t c unfolding taken_def by (metis Un_subset_iff set_append)
qed

text \<open>Completing the first set (\<open>r0\<close> tokens of it), and putting back the tokens of the other sets.\<close>

lemma replace_first:
  assumes "al_ok al" "takes al Ss r" "0 < r0" "r0 \<le> length (left al (Ss ! 0))"
  defines "P \<equiv> prefixes al Ss (\<lambda>_. r)" and "L \<equiv> left al (Ss ! 0)"
  shows "unmark_used (concat (drop 1 P)) (unmark_used (drop r0 (take r L)) (mark_used (drop r (take r0 L)) (mark_used (concat P) al))) =
    mark_used (take r0 L) al"
proof -
  have ne: "Ss \<noteq> []" and r: "r \<le> length L" using assms(2) by (auto simp: takes_def L_def)
  define R where "R = concat (drop 1 P)"
  have P: "concat P = take r L @ R"
  proof -
    have "P = take r L # drop 1 P" using ne by (cases "prefixes al Ss (\<lambda>_. r)") (auto simp: P_def L_def prefixes_def upt_conv_Cons)
    then show ?thesis unfolding R_def by (metis concat.simps(2))
  qed
  have ss: "sets_of_unused al Ss" using assms(2) by (simp add: takes_def)
  have big: "taken al (concat (prefixes al Ss (\<lambda>s. if s = 0 then max r r0 else r)))"
    by (rule prefixes_taken[OF ss assms(1) ne]) (use assms(2,3) in \<open>auto simp: takes_def\<close>)
  have "concat (prefixes al Ss (\<lambda>s. if s = 0 then max r r0 else r)) = take (max r r0) L @ R"
    unfolding R_def P_def L_def using ne by (cases Ss) (auto simp: prefixes_def o_def upt_conv_Cons simp flip: map_Suc_upt simp del: upt_Suc)
  then have d: "distinct (take (max r r0) L @ R)" "set (take (max r r0) L @ R) \<subseteq> unused al" using big by (auto simp: taken_def)
  show ?thesis
  proof (cases "r0 \<le> r")
    case True
    obtain D where t: "take r L = take r0 L @ D" "drop r0 (take r L) = D" using True by (metis append_take_drop_id min.absorb1 take_take)
    have "unmark_used (drop r0 (take r L)) (mark_used (concat P) al) = mark_used (take r0 L @ R) al"
      by (rule unmark_eq[OF assms(1)]) (use d P t True in \<open>auto simp: max_absorb1 union_ac dest: in_set_dropD\<close>)
    moreover have "unmark_used R (mark_used (take r0 L @ R) al) = mark_used (take r0 L) al"
      by (rule unmark_eq[OF assms(1)]) (use d t True in \<open>auto simp: max_absorb1 union_ac\<close>)
    moreover have "drop r (take r0 L) = []" using True by simp
    ultimately show ?thesis by (simp add: R_def)
  next
    case False
    then obtain D where t: "take r0 L = take r L @ D" "drop r (take r0 L) = D" by (metis append_take_drop_id min.absorb1 nat_le_linear take_take)
    have "drop r0 (take r L) = []" using False by simp
    moreover have "unmark_used R (mark_used (concat P @ drop r (take r0 L)) al) = mark_used (take r0 L) al"
      by (rule unmark_eq[OF assms(1)]) (use d P t False in \<open>auto simp: max_absorb2 union_ac\<close>)
    ultimately show ?thesis by (simp add: R_def mark_used_append)
  qed
qed

section \<open>What an equal split selects\<close>

text \<open>The tokens of the sets, and where each of them starts.\<close>

lemma equal_loop_takes:
  assumes "in_order al" "sets_of_unused al Ss" "Ss \<noteq> []"
  defines "toks \<equiv> map (al_seq_set_map al) Ss"
  defines "start \<equiv> map (\<lambda>t. length (takeWhile (\<lambda>i. al_used al ! i) t)) toks"
  shows "\<exists>r. takes al Ss r \<and> (r * length Ss \<le> n_ubatch \<or> r = 1) \<and>
    equal_loop n_ubatch toks start (replicate (length Ss) []) = (round_cur toks start r, prefixes al Ss (\<lambda>_. r)) \<and>
    (\<forall>s < length Ss. start ! s + r \<le> length (toks ! s) \<and> drop (start ! s) (toks ! s) = left al (Ss ! s))"
proof -
  have l: "drop (start ! s) (toks ! s) = left al (Ss ! s)" if "s < length Ss" for s
    using left_eq[OF assms(1), of "Ss ! s"] that by (simp add: toks_def start_def)
  have ne: "left al (Ss ! s) \<noteq> []" if s: "s < length Ss" for s
  proof -
    obtain i where "i \<in> unused al" "al_seq_set al ! i = Ss ! s"
      using assms(2) nth_mem[OF s] unfolding sets_of_unused_def by blast
    then have "i \<in> set (left al (Ss ! s))" using left_props(3) by blast
    then show ?thesis by auto
  qed
  have len [simp]: "length toks = length Ss" "length start = length Ss" by (simp_all add: toks_def start_def)
  have p: "round_idxs toks start r = prefixes al Ss (\<lambda>_. r)" for r
    unfolding round_idxs_def prefixes_def len using l by (auto intro!: map_cong)
  have z: "round_cur toks start 0 = start" "round_idxs toks start 0 = replicate (length Ss) []"
    using map_nth[of start] by (auto simp: round_cur_def round_idxs_def map_replicate_const)
  have st: "start ! s < length (toks ! s)" if "s < length Ss" for s using l[OF that] ne[OF that] by (metis drop_all not_le)
  then have "\<forall>s < length toks. start ! s + 0 \<le> length (toks ! s)" by (simp add: less_imp_le)
  moreover have "toks \<noteq> []" using assms(3) by (simp add: toks_def)
  ultimately obtain r where r: "equal_loop n_ubatch toks start (replicate (length Ss) []) = (round_cur toks start r, round_idxs toks start r)"
      "\<forall>s < length Ss. start ! s + r \<le> length (toks ! s)" "r = 0 \<longrightarrow> (\<exists>s < length Ss. start ! s = length (toks ! s))"
      "r \<le> Suc 0 \<or> r * length Ss \<le> n_ubatch"
    using equal_loop_rounds[of toks start 0 n_ubatch] unfolding z len by auto
  have pos: "0 < r" using r(3) st by (metis less_irrefl neq0_conv)
  have "r \<le> length (left al (Ss ! s))" if "s < length Ss" for s
    unfolding l[OF that, symmetric] using r(2) that by auto
  then have "takes al Ss r" using assms(2,3) pos by (simp add: takes_def)
  moreover have "r * length Ss \<le> n_ubatch \<or> r = 1" using r(4) pos by auto
  ultimately show ?thesis using r(1,2) l unfolding p by blast
qed

text \<open>The last step: what is kept is again a selection of equally many tokens, and no set keeps a short tail.\<close>

definition no_short_tail :: "nat \<Rightarrow> llama_batch_allocr \<Rightarrow> nat set list \<Rightarrow> nat \<Rightarrow> bool" where
  "no_short_tail n_keep_tail al Ss r \<longleftrightarrow> (\<forall>s < length Ss. length (left al (Ss ! s)) = r \<or> n_keep_tail \<le> length (left al (Ss ! s)) - r)"

lemma keep_first_eq:
  fixes L :: "nat list"
  assumes "drop start toks = L" "start + r \<le> length toks" "length L \<noteq> r" "length L - r < n_keep_tail" "n_keep_tail < n_ubatch"
  defines "q \<equiv> if length L \<le> n_ubatch then length L else length L - n_keep_tail"
  shows "keep_first n_ubatch n_keep_tail toks (start + r) (take r L) = (take q L, drop r (take q L), drop q (take r L))"
    and "r < length L" "0 < q" "q \<le> length L" "q \<le> n_ubatch \<or> q < r" "length L = q \<or> n_keep_tail \<le> length L - q"
proof -
  have len: "length L = length toks - start" "drop (start + r) toks = drop r L" using assms(1) by (auto simp: add.commute)
  then show r: "r < length L" using assms(2,3) by linarith
  show "0 < q" "q \<le> length L" "q \<le> n_ubatch \<or> q < r" "length L = q \<or> n_keep_tail \<le> length L - q"
    using r assms(4,5) by (auto simp: q_def)
  have "length toks - (start + r) = length L - r" "length (take r L) = r" using len r by auto
  moreover have "r - (n_keep_tail - (length L - r)) = length L - n_keep_tail" using r assms(4) by linarith
  ultimately show "keep_first n_ubatch n_keep_tail toks (start + r) (take r L) = (take q L, drop r (take q L), drop q (take r L))"
    using len r assms(4,5) by (auto simp: keep_first_def q_def Let_def min_def)
qed

lemma keep_tail_takes:
  assumes al: "al_ok al" and t: "takes al Ss r" and b: "r * length Ss \<le> n_ubatch \<or> r = 1" and n: "0 < n_keep_tail" "n_keep_tail < n_ubatch"
    and toks: "length toks = length Ss" "length start = length Ss"
      "\<forall>s < length Ss. start ! s + r \<le> length (toks ! s) \<and> drop (start ! s) (toks ! s) = left al (Ss ! s)"
  defines "P \<equiv> prefixes al Ss (\<lambda>_. r)"
  shows "\<exists>k q. 0 < k \<and> takes al (take k Ss) q \<and> (q * length (take k Ss) \<le> n_ubatch \<or> q = 1) \<and> no_short_tail n_keep_tail al (take k Ss) q \<and>
    keep_tail n_ubatch n_keep_tail toks (round_cur toks start r) P (mark_used (concat P) al) =
      (prefixes al (take k Ss) (\<lambda>_. q), mark_used (concat (prefixes al (take k Ss) (\<lambda>_. q))) al)"
proof -
  have l: "length (left al (Ss ! s)) = length (toks ! s) - start ! s" "start ! s + r \<le> length (toks ! s)" if "s < length Ss" for s
    using toks(3) that by (metis length_drop)+
  have tl: "tail_ok n_keep_tail toks (round_cur toks start r) s \<longleftrightarrow> length (left al (Ss ! s)) = r \<or> n_keep_tail \<le> length (left al (Ss ! s)) - r"
    if "s < length Ss" for s
    using that l[OF that] toks(1) by (auto simp: tail_ok_def round_cur_def Let_def)
  define k where "k = length (takeWhile (tail_ok n_keep_tail toks (round_cur toks start r)) [0..<length toks])"
  have k: "k \<le> length Ss" unfolding k_def using length_takeWhile_le[of _ "[0..<length toks]"] toks(1) by (metis diff_zero length_upt)
  have kept: "tail_ok n_keep_tail toks (round_cur toks start r) s" if "s < k" for s
  proof -
    have "takeWhile (tail_ok n_keep_tail toks (round_cur toks start r)) [0..<length toks] ! s = s"
      using that k toks(1) unfolding k_def by (simp add: takeWhile_nth)
    then show ?thesis using that unfolding k_def by (metis nth_mem set_takeWhileD)
  qed
  show ?thesis
  proof (cases "k = 0")
    case False
    have "keep_tail n_ubatch n_keep_tail toks (round_cur toks start r) P (mark_used (concat P) al) =
        (prefixes al (take k Ss) (\<lambda>_. r), mark_used (concat (prefixes al (take k Ss) (\<lambda>_. r))) al)"
      using False unmark_tail[OF al t] unfolding keep_tail_def Let_def k_def[symmetric] P_def prefixes_take by simp
    moreover have "no_short_tail n_keep_tail al (take k Ss) r" using kept tl k by (auto simp: no_short_tail_def)
    moreover have "r * length (take k Ss) \<le> n_ubatch \<or> r = 1" using b k by (auto intro: order_trans[OF mult_le_mono2])
    ultimately show ?thesis using takes_take[OF t, of k] False by (intro exI[of _ k] exI[of _ r]) simp
  next
    case True
    have ne: "0 < length Ss" using t by (simp add: takes_def)
    let ?L = "left al (Ss ! 0)"
    have c0: "round_cur toks start r ! 0 = start ! 0 + r" "P ! 0 = take r ?L" using ne toks(1) by (simp_all add: round_cur_def P_def)
    have "\<not> tail_ok n_keep_tail toks (round_cur toks start r) 0"
      using True ne toks(1) unfolding k_def by (auto simp: upt_conv_Cons split: if_splits)
    then have short: "length ?L \<noteq> r" "length ?L - r < n_keep_tail" using tl[OF ne] by auto
    have d0: "drop (start ! 0) (toks ! 0) = ?L" "start ! 0 + r \<le> length (toks ! 0)" using toks(3) ne by auto
    define q where "q = (if length ?L \<le> n_ubatch then length ?L else length ?L - n_keep_tail)"
    note q = keep_first_eq[OF d0 short n(2), folded q_def]
    have one: "take 1 Ss = [Ss ! 0]" using ne by (cases Ss) auto
    have p1: "prefixes al (take 1 Ss) (\<lambda>_. q) = [take q ?L]" unfolding one by (simp add: prefixes_def)
    have "keep_tail n_ubatch n_keep_tail toks (round_cur toks start r) P (mark_used (concat P) al) = ([take q ?L], mark_used (take q ?L) al)"
      using replace_first[OF al t q(3,4)] unfolding keep_tail_def Let_def k_def[symmetric] if_P[OF True] c0 q(1) prod.case P_def[symmetric] by simp
    moreover have "takes al (take 1 Ss) q" using takes_take[OF t, of 1] q(3,4) unfolding one by (simp add: takes_def)
    moreover have "q \<le> n_ubatch"
    proof (rule ccontr)
      assume "\<not> q \<le> n_ubatch"
      moreover from this have "q < r" using q(5) by blast
      moreover have "r \<le> r * length Ss" using ne by (simp add: Suc_le_eq)
      ultimately show False using b q(3) by linarith
    qed
    moreover have "no_short_tail n_keep_tail al (take 1 Ss) q" using q(6) unfolding one by (simp add: no_short_tail_def)
    ultimately show ?thesis using p1 one by (intro exI[of _ 1] exI[of _ q]) simp
  qed
qed

definition equal_ok :: "nat \<Rightarrow> bool \<Rightarrow> nat \<Rightarrow> llama_batch_allocr \<Rightarrow> bool" where
  "equal_ok n_ubatch sequential n_keep_tail al \<longleftrightarrow>
     in_order al \<and> \<not> (sequential \<and> al_has_cpl al) \<and> (n_keep_tail = 0 \<or> n_keep_tail < n_ubatch)"

text \<open>The sets an equal split chooses from, before tails are kept.\<close>

abbreviation chosen :: "nat \<Rightarrow> bool \<Rightarrow> llama_batch_allocr \<Rightarrow> nat set list" where
  "chosen n_ubatch sequential al \<equiv> choose_sets n_ubatch sequential al [0..<al_n_tokens al] [] (-1)"

lemma chosen_ok:
  "sets_of_unused al (chosen n_ubatch sequential al)" "length (chosen n_ubatch sequential al) \<le> Suc n_ubatch"
  "unused al \<noteq> {} \<Longrightarrow> chosen n_ubatch sequential al \<noteq> []"
proof -
  have "sets_of_unused al []" by (simp add: sets_of_unused_def disjoint_sets_list_def)
  note c = choose_sets_ok[OF this, of n_ubatch "[0..<al_n_tokens al]" sequential "-1"]
  show "sets_of_unused al (chosen n_ubatch sequential al)" "length (chosen n_ubatch sequential al) \<le> Suc n_ubatch" using c by auto
  show "chosen n_ubatch sequential al \<noteq> []" if "unused al \<noteq> {}"
  proof -
    have "set [0..<al_n_tokens al] \<inter> unused al \<noteq> {}" using that by (auto simp: unused_def)
    then show ?thesis using c by auto
  qed
qed

definition equal_selection :: "nat \<Rightarrow> bool \<Rightarrow> nat \<Rightarrow> llama_batch_allocr \<Rightarrow> nat set list \<Rightarrow> nat \<Rightarrow> bool" where
  "equal_selection n_ubatch sequential n_keep_tail al Ss r \<longleftrightarrow>
     takes al Ss r \<and> (r * length Ss \<le> n_ubatch \<or> r = 1) \<and> length Ss \<le> Suc n_ubatch \<and> no_short_tail n_keep_tail al Ss r \<and>
     (\<exists>k. Ss = take k (chosen n_ubatch sequential al)) \<and> (n_keep_tail = 0 \<longrightarrow> Ss = chosen n_ubatch sequential al) \<and>
     select_equal n_ubatch sequential n_keep_tail al =
       Inr (Some (concat (prefixes al Ss (\<lambda>_. r)), length Ss, True), mark_used (concat (prefixes al Ss (\<lambda>_. r))) al)"

lemma select_equal_none: "equal_ok n_ubatch sequential n_keep_tail al \<Longrightarrow> unused al = {} \<Longrightarrow> select_equal n_ubatch sequential n_keep_tail al = Inr (None, al)"
  using chosen_ok(1)[of al n_ubatch sequential] by (auto simp: select_equal_def sets_of_unused_def Let_def neq_Nil_conv)

lemma select_equal_some:
  assumes ok: "equal_ok n_ubatch sequential n_keep_tail al" and u: "unused al \<noteq> {}"
  shows "\<exists>Ss r. equal_selection n_ubatch sequential n_keep_tail al Ss r"
proof -
  let ?C = "chosen n_ubatch sequential al"
  have io: "in_order al" and al: "al_ok al" using ok by (auto simp: equal_ok_def in_order_def)
  define toks where "toks = map (al_seq_set_map al) ?C"
  define start where "start = map (\<lambda>t. length (takeWhile (\<lambda>i. al_used al ! i) t)) toks"
  have len: "length toks = length ?C" "length start = length ?C" by (simp_all add: toks_def start_def)
  obtain r where r: "takes al ?C r" "r * length ?C \<le> n_ubatch \<or> r = 1"
      "equal_loop n_ubatch toks start (replicate (length ?C) []) = (round_cur toks start r, prefixes al ?C (\<lambda>_. r))"
      "\<forall>s < length ?C. start ! s + r \<le> length (toks ! s) \<and> drop (start ! s) (toks ! s) = left al (?C ! s)"
    using equal_loop_takes[OF io chosen_ok(1) chosen_ok(3)[OF u], of n_ubatch] unfolding toks_def start_def by blast
  have g: "\<not> (sequential \<and> al_has_cpl al)" "?C \<noteq> []" using ok chosen_ok(3)[OF u] by (auto simp: equal_ok_def)
  note sel = select_equal_def[of n_ubatch sequential n_keep_tail al, unfolded Let_def if_not_P[OF g(1)] if_not_P[OF g(2)], folded toks_def, folded start_def,
      unfolded r(3) prod.case]
  show ?thesis
  proof (cases "n_keep_tail = 0")
    case True
    have "\<exists>k. ?C = take k ?C" by (intro exI[of _ "length ?C"]) simp
    moreover have "select_equal n_ubatch sequential n_keep_tail al =
        Inr (Some (concat (prefixes al ?C (\<lambda>_. r)), length ?C, True), mark_used (concat (prefixes al ?C (\<lambda>_. r))) al)"
      using True unfolding sel by simp
    ultimately have "equal_selection n_ubatch sequential n_keep_tail al ?C r"
      unfolding equal_selection_def using r(1,2) chosen_ok(2)[of n_ubatch sequential al] True by (simp add: no_short_tail_def)
    then show ?thesis by blast
  next
    case False
    then have n: "0 < n_keep_tail" "n_keep_tail < n_ubatch" using ok by (auto simp: equal_ok_def)
    obtain k q where k: "takes al (take k ?C) q" "q * length (take k ?C) \<le> n_ubatch \<or> q = 1" "no_short_tail n_keep_tail al (take k ?C) q"
        "keep_tail n_ubatch n_keep_tail toks (round_cur toks start r) (prefixes al ?C (\<lambda>_. r)) (mark_used (concat (prefixes al ?C (\<lambda>_. r))) al) =
           (prefixes al (take k ?C) (\<lambda>_. q), mark_used (concat (prefixes al (take k ?C) (\<lambda>_. q))) al)"
      using keep_tail_takes[OF al r(1,2) n len r(4)] by blast
    have "length (take k ?C) \<le> Suc n_ubatch" using chosen_ok(2)[of n_ubatch sequential al] by simp
    moreover have "select_equal n_ubatch sequential n_keep_tail al =
        Inr (Some (concat (prefixes al (take k ?C) (\<lambda>_. q)), length (take k ?C), True), mark_used (concat (prefixes al (take k ?C) (\<lambda>_. q))) al)"
      using n unfolding sel k(4) by simp
    ultimately have "equal_selection n_ubatch sequential n_keep_tail al (take k ?C) q"
      unfolding equal_selection_def using k(1,2,3) n(1) by blast
    then show ?thesis by blast
  qed
qed

interpretation equal: splitter "split_equal n_ubatch sequential n_keep_tail"
  "\<lambda>al. projr (select_equal n_ubatch sequential n_keep_tail al)" "equal_ok n_ubatch sequential n_keep_tail"
proof unfold_locales
  fix al al' sel out
  assume ok: "equal_ok n_ubatch sequential n_keep_tail al"
  let ?sel = "select_equal n_ubatch sequential n_keep_tail al"
  have io: "in_order al" using ok by (simp add: equal_ok_def)
  show al: "al_ok al" using io by (simp add: in_order_def)
  have inr: "\<exists>r. ?sel = Inr r"
    using select_equal_none[OF ok] select_equal_some[OF ok] unfolding equal_selection_def by (cases "unused al = {}") blast+
  then show "split_equal n_ubatch sequential n_keep_tail al = Inr (add_selection (projr ?sel))" by (auto simp: split_equal_def)
  show "al' = al \<and> unused al = {}" if "projr ?sel = (None, al')"
    using that select_equal_none[OF ok] select_equal_some[OF ok] by (cases "unused al = {}") (auto simp: equal_selection_def)
  show "equal_ok n_ubatch sequential n_keep_tail (al\<lparr>al_out_ids := out\<rparr>)"
    using ok by (simp add: equal_ok_def in_order_def al_ok_def unused_def)
  show "taken al (fst sel) \<and> al' = mark_used (fst sel) al \<and> equal_ok n_ubatch sequential n_keep_tail al'" if s: "projr ?sel = (Some sel, al')"
  proof -
    have "unused al \<noteq> {}" using s select_equal_none[OF ok] by auto
    then obtain Ss r where e: "equal_selection n_ubatch sequential n_keep_tail al Ss r" using select_equal_some[OF ok] by blast
    then have t: "takes al Ss r" "fst sel = concat (prefixes al Ss (\<lambda>_. r))" "al' = mark_used (fst sel) al"
      using s by (auto simp: equal_selection_def)
    have tk: "taken al (fst sel)" unfolding t(2) by (rule takes_taken[OF al t(1)])
    moreover have "in_order al'" unfolding t(3,2)
      by (rule prefixes_in_order[OF io]) (use t(1,2) tk in \<open>simp_all add: takes_def\<close>)
    ultimately show ?thesis using t(3) ok by (simp add: equal_ok_def)
  qed
qed

end
