(* ===== verification/BatchInit.thy ===== *)
theory BatchInit
  imports BatchSplit
begin

text \<open>
  Which batches \<open>llama_batch_allocr::init\<close> (\<open>engine/src/llama-batch.cpp\<close>) accepts, the positions it gives to tokens
  without one, and that an accepted batch is ready to be split.
\<close>

section \<open>Accepted batches\<close>

text \<open>
  What the caller has to provide: arrays of the batch's length, and either no sequence ids at all or at least one
  for every token.
\<close>

definition batch_wf :: "llama_batch \<Rightarrow> bool" where
  "batch_wf b \<longleftrightarrow>
     (case b_pos b of None \<Rightarrow> True | Some pos \<Rightarrow> length pos = b_n_tokens b) \<and>
     (case (b_n_seq_id b, b_seq_id b) of
        (None, None) \<Rightarrow> True
      | (Some ns, Some ss) \<Rightarrow> length ns = b_n_tokens b \<and> length ss = b_n_tokens b \<and>
          list_all (\<lambda>i. 1 \<le> ns ! i \<and> ns ! i \<le> length (ss ! i)) [0..<b_n_tokens b]
      | _ \<Rightarrow> False)"

definition in_n_seq_id :: "llama_batch \<Rightarrow> nat list" where
  "in_n_seq_id b = (case b_n_seq_id b of Some xs \<Rightarrow> xs | None \<Rightarrow> replicate (b_n_tokens b) 1)"

definition in_seq_id :: "llama_batch \<Rightarrow> llama_seq_id list list" where
  "in_seq_id b = (case b_seq_id b of Some xs \<Rightarrow> xs | None \<Rightarrow> replicate (b_n_tokens b) [0])"

definition in_pos :: "llama_batch \<Rightarrow> memory_i option \<Rightarrow> llama_pos list" where
  "in_pos b memory = (case b_pos b of Some xs \<Rightarrow> xs | None \<Rightarrow> auto_pos memory (in_n_seq_id b) (in_seq_id b) (b_n_tokens b))"

text \<open>The sequences of a token of the batch.\<close>

definition seqs :: "llama_batch \<Rightarrow> nat \<Rightarrow> nat list" where
  "seqs b i = token_seqs (in_n_seq_id b) (in_seq_id b) i"

definition filled :: "nat \<Rightarrow> llama_batch \<Rightarrow> memory_i option \<Rightarrow> nat \<Rightarrow> nat \<Rightarrow> bool \<Rightarrow> llama_batch_allocr" where
  "filled npe b memory n_embd n_seq_max output_all =
     make_allocr npe b (in_n_seq_id b) (in_seq_id b) (in_pos b memory) (auto_logits output_all b) n_embd n_seq_max"

lemma filled_simps [simp]:
  "al_n_tokens (filled npe b memory n_embd n_seq_max oa) = b_n_tokens b" "al_n_seq_max (filled npe b memory n_embd n_seq_max oa) = n_seq_max"
  "al_pos (filled npe b memory n_embd n_seq_max oa) = in_pos b memory" "al_n_seq_id (filled npe b memory n_embd n_seq_max oa) = in_n_seq_id b"
  "al_seq_id (filled npe b memory n_embd n_seq_max oa) = in_seq_id b" "al_n_pos_per_embd (filled npe b memory n_embd n_seq_max oa) = npe"
  "al_seq_pos (filled npe b memory n_embd n_seq_max oa) s = {in_pos b memory ! i | i. i < b_n_tokens b \<and> s \<in> set (seqs b i)}"
  "al_seq_cpl (filled npe b memory n_embd n_seq_max oa) = (\<Union>i < b_n_tokens b. {(s, hd (seqs b i)) | s. s \<in> set (tl (seqs b i))})"
  "al_seq_set (filled npe b memory n_embd n_seq_max oa) = map (\<lambda>i. set (seqs b i)) [0..<b_n_tokens b]"
  "al_has_cpl (filled npe b memory n_embd n_seq_max oa) \<longleftrightarrow> (\<exists>i < b_n_tokens b. 1 < length (seqs b i))"
  by (auto simp: filled_def make_allocr_def seqs_def Let_def seq_pos_of_def seq_cpl_of_def list_ex_iff)

text \<open>The ids of the sequences are in range.\<close>

definition ids_ok :: "llama_batch \<Rightarrow> nat \<Rightarrow> bool" where
  "ids_ok b n_seq_max \<longleftrightarrow> (b_seq_id b \<noteq> None \<longrightarrow> valid_seq_ids n_seq_max (in_n_seq_id b) (in_seq_id b) (b_n_tokens b))"

lemma batch_init_eq:
  assumes "batch_wf b"
  shows "batch_init npe b n_vocab memory n_embd n_seq_max oa =
    (if b_n_tokens b = 0 then Inl Batch_abort
     else if n_seq_max > LLAMA_MAX_SEQ then Inl Bad_n_seq_max
     else if \<not> valid_tokens n_vocab b then Inl Bad_token
     else if \<not> ids_ok b n_seq_max then Inl Bad_seq_id
     else init_check memory (filled npe b memory n_embd n_seq_max oa))"
  using assms unfolding batch_init_def batch_wf_def ids_ok_def filled_def in_pos_def in_n_seq_id_def in_seq_id_def Let_def
  by (auto split: option.splits)

lemma batch_init_inr:
  assumes "batch_wf b"
  shows "batch_init npe b n_vocab memory n_embd n_seq_max oa = Inr al \<longleftrightarrow>
    0 < b_n_tokens b \<and> n_seq_max \<le> LLAMA_MAX_SEQ \<and> valid_tokens n_vocab b \<and> ids_ok b n_seq_max \<and>
    (\<forall>s < n_seq_max. seq_pos_ok memory (filled npe b memory n_embd n_seq_max oa) s) \<and>
    coupled_ok memory (filled npe b memory n_embd n_seq_max oa) \<and> sets_ok (filled npe b memory n_embd n_seq_max oa) \<and>
    al = split_reset (filled npe b memory n_embd n_seq_max oa)"
  unfolding batch_init_eq[OF assms] init_check_def by (auto simp: list_all_iff)

lemma seqs_ok:
  assumes "batch_wf b" "i < b_n_tokens b"
  shows "seqs b i \<noteq> []" "length (seqs b i) = in_n_seq_id b ! i" "hd (seqs b i) = nat (in_seq_id b ! i ! 0)"
    "ids_ok b n_seq_max \<Longrightarrow> 0 < n_seq_max \<Longrightarrow> s \<in> set (seqs b i) \<Longrightarrow> s < n_seq_max"
    "ids_ok b n_seq_max \<Longrightarrow> j < in_n_seq_id b ! i \<Longrightarrow> 0 \<le> in_seq_id b ! i ! j"
proof -
  show l: "length (seqs b i) = in_n_seq_id b ! i" by (simp add: seqs_def token_seqs_def)
  have n: "1 \<le> in_n_seq_id b ! i"
    using assms by (auto simp: batch_wf_def in_n_seq_id_def list_all_iff split: option.splits)
  then show ne: "seqs b i \<noteq> []" using l by auto
  show "hd (seqs b i) = nat (in_seq_id b ! i ! 0)" using n by (simp add: seqs_def token_seqs_def upt_conv_Cons)
  show "s < n_seq_max" if "ids_ok b n_seq_max" "0 < n_seq_max" "s \<in> set (seqs b i)"
  proof (cases "b_seq_id b")
    case None
    then have "in_seq_id b ! i ! j = 0" if "j < in_n_seq_id b ! i" for j
      using assms that by (auto simp: in_seq_id_def in_n_seq_id_def batch_wf_def split: option.splits)
    then show ?thesis using that by (auto simp: seqs_def token_seqs_def)
  next
    case (Some ss)
    then have "\<forall>j < in_n_seq_id b ! i. in_seq_id b ! i ! j < int n_seq_max"
      using that assms(2) by (auto simp: ids_ok_def valid_seq_ids_def list_all_iff not_le)
    then show ?thesis using that by (auto simp: seqs_def token_seqs_def)
  qed
  show "0 \<le> in_seq_id b ! i ! j" if "ids_ok b n_seq_max" "j < in_n_seq_id b ! i"
  proof (cases "b_seq_id b")
    case None
    then show ?thesis using assms that by (auto simp: in_seq_id_def in_n_seq_id_def batch_wf_def split: option.splits)
  next
    case (Some ss)
    then show ?thesis using that assms(2) by (auto simp: ids_ok_def valid_seq_ids_def list_all_iff not_less)
  qed
qed

text \<open>An accepted batch is ready to be split.\<close>

lemma split_reset_simps [simp]:
  "al_n_tokens (split_reset al) = al_n_tokens al" "al_seq_set (split_reset al) = al_seq_set al" "al_has_cpl (split_reset al) = al_has_cpl al"
  "al_used (split_reset al) = replicate (al_n_tokens al) False" "al_n_used (split_reset al) = 0" "al_seq_set_map (split_reset al) = al_seq_set_map al"
  "al_seq_id (split_reset al) = al_seq_id al" "al_n_seq_id (split_reset al) = al_n_seq_id al" "al_pos (split_reset al) = al_pos al"
  "al_n_seq_max (split_reset al) = al_n_seq_max al" "al_n_pos_per_embd (split_reset al) = al_n_pos_per_embd al" "split_reset (split_reset al) = split_reset al"
  "unused (split_reset al) = {..<al_n_tokens al}" "al_seq_pos (split_reset al) = al_seq_pos al" "al_out_ids (split_reset al) = []"
  by (auto simp: split_reset_def unused_def)

lemma filled_ready:
  fixes npe memory n_embd n_seq_max oa
  assumes "batch_wf b"
  defines "al \<equiv> split_reset (filled npe b memory n_embd n_seq_max oa)"
  shows "al_ok al" "simple_ok al" "in_order al"
proof -
  have "al_seq_set_map al S = filter (\<lambda>i. al_seq_set al ! i = S) [0..<al_n_tokens al]" for S
    unfolding al_def split_reset_simps filled_simps
    by (auto simp: filled_def make_allocr_def Let_def seqs_def intro!: filter_cong)
  moreover have "{} \<notin> set (al_seq_set al)" using seqs_ok(1)[OF assms(1)] by (auto simp: al_def)
  ultimately show ok: "al_ok al" by (simp add: al_ok_def al_def)
  then show "in_order al" by (auto simp: in_order_def al_def)
  show "simple_ok al" using ok unfolding simple_ok_def by (auto simp: al_def intro!: exI[of _ 0])
qed

section \<open>The checks of \<open>init\<close>\<close>

lemma fold_set_step_none: "fold (set_step p S) ss None = None"
  by (induction ss) (auto simp: set_step_def)

lemma fold_set_step:
  "set ss \<subseteq> S \<Longrightarrow> \<forall>s \<in> set ss. s \<in> sets s \<Longrightarrow> \<exists>sets'. (\<forall>s. s \<in> sets s \<longrightarrow> s \<in> sets' s) \<and>
    fold (set_step p S) ss (Some (sets, last_pos)) =
      (if \<forall>s \<in> set ss. last_pos s \<le> p then Some (sets', \<lambda>s. if s \<in> set ss then p else last_pos s) else None)"
proof (induction ss arbitrary: sets last_pos)
  case (Cons s ss)
  have ne: "sets s \<inter> S \<noteq> {}" using Cons.prems by auto
  show ?case
  proof (cases "p < last_pos s")
    case True
    then have "set_step p S s (Some (sets, last_pos)) = None" using ne by (simp add: set_step_def)
    then show ?thesis using True by (auto simp: fold_set_step_none)
  next
    case False
    let ?sets = "sets(s := sets s \<inter> S)" and ?last = "last_pos(s := p)"
    have keep: "t \<in> sets t \<longrightarrow> t \<in> ?sets t" for t using Cons.prems(1) by auto
    then have pre: "\<forall>t \<in> set ss. t \<in> ?sets t" using Cons.prems(2) by (meson list.set_intros(2))
    have "set ss \<subseteq> S" using Cons.prems(1) by simp
    then obtain sets' where s': "\<forall>t. t \<in> ?sets t \<longrightarrow> t \<in> sets' t"
        "fold (set_step p S) ss (Some (?sets, ?last)) =
           (if \<forall>t \<in> set ss. ?last t \<le> p then Some (sets', \<lambda>t. if t \<in> set ss then p else ?last t) else None)"
      using Cons.IH[OF _ pre, of ?last] by blast
    have step: "fold (set_step p S) (s # ss) (Some (sets, last_pos)) = fold (set_step p S) ss (Some (?sets, ?last))"
      using ne False by (simp add: set_step_def)
    have c: "(\<forall>t \<in> set (s # ss). last_pos t \<le> p) \<longleftrightarrow> (\<forall>t \<in> set ss. ?last t \<le> p)" using False by auto
    have f: "(\<lambda>t. if t \<in> set ss then p else ?last t) = (\<lambda>t. if t \<in> set (s # ss) then p else last_pos t)" by auto
    show ?thesis using s'(1) keep unfolding step s'(2) c f by (intro exI[of _ sets']) auto
  qed
qed auto

text \<open>The positions of every sequence do not decrease, and are at least \<open>-1\<close>.\<close>

definition nondecreasing :: "llama_batch \<Rightarrow> llama_pos list \<Rightarrow> nat \<Rightarrow> bool" where
  "nondecreasing b pos n \<longleftrightarrow>
     (\<forall>i < n. \<forall>s \<in> set (seqs b i). -1 \<le> pos ! i \<and> (\<forall>j < i. s \<in> set (seqs b j) \<longrightarrow> pos ! j \<le> pos ! i))"

definition last_of :: "llama_batch \<Rightarrow> llama_pos list \<Rightarrow> nat \<Rightarrow> nat \<Rightarrow> llama_pos \<Rightarrow> bool" where
  "last_of b pos n s p \<longleftrightarrow> (\<forall>i < n. s \<in> set (seqs b i) \<longrightarrow> pos ! i \<le> p) \<and> (p = -1 \<or> (\<exists>j < n. s \<in> set (seqs b j) \<and> p = pos ! j))"

lemma last_of_le:
  "nondecreasing b pos n \<Longrightarrow> last_of b pos n s p \<Longrightarrow> p \<le> q \<longleftrightarrow> -1 \<le> q \<and> (\<forall>j < n. s \<in> set (seqs b j) \<longrightarrow> pos ! j \<le> q)"
  unfolding nondecreasing_def last_of_def by (metis order_trans)

lemma nondecreasing_Suc:
  "nondecreasing b pos (Suc k) \<longleftrightarrow>
     nondecreasing b pos k \<and> (\<forall>s \<in> set (seqs b k). -1 \<le> pos ! k \<and> (\<forall>j < k. s \<in> set (seqs b j) \<longrightarrow> pos ! j \<le> pos ! k))"
  unfolding nondecreasing_def All_less_Suc by blast

lemma sets_fold:
  fixes pos :: "llama_pos list"
  assumes "\<forall>i < n. \<forall>s \<in> set (seqs b i). s < LLAMA_MAX_SEQ" "\<forall>i < n. S ! i = set (seqs b i)"
  defines "f \<equiv> \<lambda>i. fold (set_step (pos ! i) (S ! i)) (seqs b i)"
  shows "k \<le> n \<Longrightarrow> if nondecreasing b pos k
    then \<exists>sets lp. fold f [0..<k] (Some (\<lambda>_. {..<LLAMA_MAX_SEQ}, \<lambda>_. -1)) = Some (sets, lp) \<and> (\<forall>s < LLAMA_MAX_SEQ. s \<in> sets s) \<and>
      (\<forall>s. last_of b pos k s (lp s))
    else fold f [0..<k] (Some (\<lambda>_. {..<LLAMA_MAX_SEQ}, \<lambda>_. -1)) = None"
proof (induction k)
  case 0
  then show ?case by (simp add: nondecreasing_def last_of_def)
next
  case (Suc k)
  show ?case
  proof (cases "nondecreasing b pos k")
    case False
    then have "\<not> nondecreasing b pos (Suc k)" by (meson less_SucI nondecreasing_def)
    then show ?thesis using False Suc by (simp add: f_def fold_set_step_none)
  next
    case True
    then obtain sets lp where st: "fold f [0..<k] (Some (\<lambda>_. {..<LLAMA_MAX_SEQ}, \<lambda>_. -1)) = Some (sets, lp)"
        "\<forall>s < LLAMA_MAX_SEQ. s \<in> sets s" "\<forall>s. last_of b pos k s (lp s)" using Suc by auto
    have S: "S ! k = set (seqs b k)" using assms(2) Suc.prems by simp
    have "\<forall>s \<in> set (seqs b k). s \<in> sets s" using assms(1) st(2) Suc.prems by (meson Suc_le_eq)
    then obtain sets' where s': "\<forall>s. s \<in> sets s \<longrightarrow> s \<in> sets' s"
        "f k (Some (sets, lp)) = (if \<forall>s \<in> set (seqs b k). lp s \<le> pos ! k then Some (sets', \<lambda>s. if s \<in> set (seqs b k) then pos ! k else lp s) else None)"
      using fold_set_step[of "seqs b k" "S ! k" sets "pos ! k" lp] unfolding S f_def by blast
    have c: "(\<forall>s \<in> set (seqs b k). lp s \<le> pos ! k) \<longleftrightarrow> nondecreasing b pos (Suc k)"
      using True last_of_le[OF True st(3)[rule_format], of _ "pos ! k"] unfolding nondecreasing_Suc by simp
    have l: "last_of b pos (Suc k) s (if s \<in> set (seqs b k) then pos ! k else lp s)" if "nondecreasing b pos (Suc k)" for s
      using that st(3) unfolding last_of_def nondecreasing_def less_Suc_eq by auto
    have "fold f [0..<Suc k] (Some (\<lambda>_. {..<LLAMA_MAX_SEQ}, \<lambda>_. -1)) = f k (Some (sets, lp))" using st(1) by simp
    then show ?thesis using s' st(2) l unfolding c by auto
  qed
qed

lemma sets_ok_iff:
  assumes "batch_wf b" "ids_ok b n_seq_max" "0 < n_seq_max" "n_seq_max \<le> LLAMA_MAX_SEQ"
  shows "sets_ok (filled npe b memory n_embd n_seq_max oa) \<longleftrightarrow> nondecreasing b (in_pos b memory) (b_n_tokens b)"
proof -
  have "\<forall>i < b_n_tokens b. \<forall>s \<in> set (seqs b i). s < LLAMA_MAX_SEQ"
    using seqs_ok(4)[OF assms(1) _ assms(2,3)] assms(4) by (meson less_le_trans)
  from sets_fold[OF this, of "map (\<lambda>i. set (seqs b i)) [0..<b_n_tokens b]" "b_n_tokens b" "in_pos b memory"]
  show ?thesis unfolding sets_ok_def filled_simps seqs_def[symmetric] by (auto split: if_splits)
qed

lemma interval_iff:
  fixes P :: "int set"
  assumes "finite P" "P \<noteq> {}"
  shows "\<not> Max P - Min P + 1 > int (card P) \<longleftrightarrow> P = {Min P..Max P}"
proof
  assume "\<not> Max P - Min P + 1 > int (card P)"
  moreover have "P \<subseteq> {Min P..Max P}" using assms by auto
  moreover have "card {Min P..Max P} = nat (Max P - Min P + 1)" by simp
  ultimately show "P = {Min P..Max P}" by (intro card_seteq) auto
next
  assume "P = {Min P..Max P}"
  then have "card P = nat (Max P - Min P + 1)" by (metis card_atLeastAtMost_int add_diff_eq diff_add_eq)
  then show "\<not> Max P - Min P + 1 > int (card P)" using assms by simp
qed

text \<open>The positions of a sequence continue those of the memory without a gap.\<close>

definition positions :: "llama_batch \<Rightarrow> memory_i option \<Rightarrow> nat \<Rightarrow> llama_pos set" where
  "positions b memory s = {in_pos b memory ! i | i. i < b_n_tokens b \<and> s \<in> set (seqs b i)}"

definition continues :: "llama_batch \<Rightarrow> memory_i option \<Rightarrow> nat \<Rightarrow> bool" where
  "continues b memory s \<longleftrightarrow> positions b memory s = {} \<or>
     (\<exists>lo hi. lo \<le> hi \<and> positions b memory s = {lo..hi} \<and> (0 \<le> memory_last memory s \<longrightarrow> lo = memory_last memory s + 1))"

text \<open>Sequences that share a token have the same first and last position in the memory.\<close>

definition together :: "llama_batch \<Rightarrow> memory_i option \<Rightarrow> bool" where
  "together b memory \<longleftrightarrow> (\<forall>m. memory = Some m \<longrightarrow> (\<forall>i < b_n_tokens b. \<forall>s \<in> set (seqs b i).
     mem_pos_min m s = mem_pos_min m (hd (seqs b i)) \<and> mem_pos_max m s = mem_pos_max m (hd (seqs b i))))"

lemma seq_pos_ok_iff: "seq_pos_ok memory (filled 1 b memory n_embd n_seq_max oa) s \<longleftrightarrow> continues b memory s"
proof (cases "positions b memory s = {}")
  case True
  then show ?thesis by (simp add: seq_pos_ok_def continues_def positions_def Let_def)
next
  case False
  let ?P = "positions b memory s"
  have fin: "finite ?P" by (simp add: positions_def)
  have "seq_pos_ok memory (filled 1 b memory n_embd n_seq_max oa) s \<longleftrightarrow>
      (0 \<le> memory_last memory s \<longrightarrow> Min ?P = memory_last memory s + 1) \<and> ?P = {Min ?P..Max ?P}"
    unfolding seq_pos_ok_def Let_def filled_simps al_pos_min_def al_pos_max_def positions_def[symmetric]
    using False interval_iff[OF fin False] by auto
  also have "\<dots> \<longleftrightarrow> continues b memory s"
  proof
    assume "(0 \<le> memory_last memory s \<longrightarrow> Min ?P = memory_last memory s + 1) \<and> ?P = {Min ?P..Max ?P}"
    moreover have "Min ?P \<le> Max ?P" using fin False by simp
    ultimately show "continues b memory s" unfolding continues_def by blast
  next
    assume "continues b memory s"
    then obtain lo hi where l: "lo \<le> hi" "?P = {lo..hi}" "0 \<le> memory_last memory s \<longrightarrow> lo = memory_last memory s + 1"
      using False by (auto simp: continues_def)
    have m: "Min ?P = lo" "Max ?P = hi" unfolding l(2) using l(1) by (auto intro: Min_eqI Max_eqI)
    show "(0 \<le> memory_last memory s \<longrightarrow> Min ?P = memory_last memory s + 1) \<and> ?P = {Min ?P..Max ?P}" unfolding m using l(2,3) by blast
  qed
  finally show ?thesis .
qed

lemma coupled_ok_iff:
  assumes "batch_wf b" "ids_ok b n_seq_max" "0 < n_seq_max"
  shows "coupled_ok memory (filled npe b memory n_embd n_seq_max oa) \<longleftrightarrow> together b memory"
proof (cases memory)
  case None
  then show ?thesis by (simp add: coupled_ok_def together_def)
next
  case (Some m)
  have lt: "s < n_seq_max" if "i < b_n_tokens b" "s \<in> set (seqs b i)" for i s using seqs_ok(4)[OF assms(1) that(1) assms(2,3) that(2)] .
  have "coupled_ok memory (filled npe b memory n_embd n_seq_max oa) \<longleftrightarrow>
      (\<forall>i < b_n_tokens b. \<forall>s \<in> set (tl (seqs b i)). s < n_seq_max \<longrightarrow> hd (seqs b i) < n_seq_max \<longrightarrow>
         mem_pos_min m s = mem_pos_min m (hd (seqs b i)) \<and> mem_pos_max m s = mem_pos_max m (hd (seqs b i)))"
    proof -
    have cpl: "(s0, s1) \<in> (\<Union>i < b_n_tokens b. {(s, hd (seqs b i)) | s. s \<in> set (tl (seqs b i))}) \<longleftrightarrow>
        (\<exists>i < b_n_tokens b. s1 = hd (seqs b i) \<and> s0 \<in> set (tl (seqs b i)))" for s0 s1 by auto
    show ?thesis unfolding coupled_ok_def Some filled_simps list_all_iff cpl option.case set_upt atLeastLessThan_iff Ball_def by simp blast
  qed
  also have "\<dots> \<longleftrightarrow> (\<forall>i < b_n_tokens b. \<forall>s \<in> set (seqs b i).
      mem_pos_min m s = mem_pos_min m (hd (seqs b i)) \<and> mem_pos_max m s = mem_pos_max m (hd (seqs b i)))"
  proof (intro all_cong1 imp_cong refl)
    fix i assume i: "i < b_n_tokens b"
    obtain x xs where x: "seqs b i = x # xs" using seqs_ok(1)[OF assms(1) i] by (cases "seqs b i") auto
    then have "x < n_seq_max" "\<forall>s \<in> set xs. s < n_seq_max" using lt[OF i] by auto
    then show "(\<forall>s \<in> set (tl (seqs b i)). s < n_seq_max \<longrightarrow> hd (seqs b i) < n_seq_max \<longrightarrow>
          mem_pos_min m s = mem_pos_min m (hd (seqs b i)) \<and> mem_pos_max m s = mem_pos_max m (hd (seqs b i))) =
        (\<forall>s \<in> set (seqs b i). mem_pos_min m s = mem_pos_min m (hd (seqs b i)) \<and> mem_pos_max m s = mem_pos_max m (hd (seqs b i)))"
      unfolding x by simp
  qed
  also have "\<dots> \<longleftrightarrow> together b memory" unfolding together_def Some by simp
  finally show ?thesis .
qed

text \<open>C16: which batches with one position per token (\<open>n_pos_per_embd = 1\<close>; with M-RoPE, where \<open>n_pos_per_embd\<close> is larger, positions may
  jump) are accepted: there are tokens, token and sequence ids are in range, the positions of each sequence are an interval that
  continues the memory and do not decrease (from \<open>-1\<close> on), and sequences that share a token have the same range in the memory. The
  sets of sequences that tokens share are not restricted further: partially overlapping sets are accepted too, although the comment in the
  code calls them invalid.\<close>

theorem accepted_batches:
  assumes "batch_wf b" "0 < n_seq_max"
  shows "(\<exists>al. batch_init 1 b n_vocab memory n_embd n_seq_max output_all = Inr al) \<longleftrightarrow>
    0 < b_n_tokens b \<and> n_seq_max \<le> LLAMA_MAX_SEQ \<and> valid_tokens n_vocab b \<and> ids_ok b n_seq_max \<and>
    (\<forall>s < n_seq_max. continues b memory s) \<and> together b memory \<and> nondecreasing b (in_pos b memory) (b_n_tokens b)"
  unfolding batch_init_inr[OF assms(1)] seq_pos_ok_iff
  using coupled_ok_iff[OF assms(1) _ assms(2)] sets_ok_iff[OF assms(1) _ assms(2)] by auto

section \<open>Generated positions\<close>

text \<open>The number of tokens of a sequence among the first \<open>k\<close>.\<close>

definition tokens_before :: "llama_batch \<Rightarrow> nat \<Rightarrow> nat \<Rightarrow> nat" where
  "tokens_before b k s = length (filter (\<lambda>j. s \<in> set (seqs b j)) [0..<k])"

lemma tokens_before_simps [simp]: "tokens_before b 0 s = 0" "tokens_before b (Suc k) s = tokens_before b k s + (if s \<in> set (seqs b k) then 1 else 0)"
  by (simp_all add: tokens_before_def)

lemma tokens_before_image: "{tokens_before b i s | i. i < n \<and> s \<in> set (seqs b i)} = {0..<tokens_before b n s}"
proof (induction n)
  case (Suc n)
  have "{tokens_before b i s | i. i < Suc n \<and> s \<in> set (seqs b i)} =
      {tokens_before b i s | i. i < n \<and> s \<in> set (seqs b i)} \<union> (if s \<in> set (seqs b n) then {tokens_before b n s} else {})"
    by (auto simp: less_Suc_eq)
  then show ?case using Suc by auto
qed simp

lemma tokens_before_mono: "i \<le> j \<Longrightarrow> tokens_before b i s \<le> tokens_before b j s"
  by (induction j) (auto simp: le_Suc_eq)

lemma image_int_interval: "(\<lambda>c. a + int c) ` {0..<Suc n} = {a..a + int n}"
proof -
  have "x \<in> (\<lambda>c. a + int c) ` {0..<Suc n}" if "a \<le> x" "x \<le> a + int n" for x
    using that by (intro image_eqI[of _ _ "nat (x - a)"]) auto
  then show ?thesis by auto
qed

lemma auto_pos_fold:
  assumes "\<forall>i < n. length (seqs b i) = 1" "batch_wf b" "n \<le> b_n_tokens b"
  shows "fold (pos_step (in_n_seq_id b) (in_seq_id b)) [0..<n] (next_pos, []) =
    (\<lambda>s. next_pos s + int (tokens_before b n s), map (\<lambda>i. next_pos (hd (seqs b i)) + int (tokens_before b i (hd (seqs b i)))) [0..<n])"
  using assms(1,3)
proof (induction n)
  case (Suc n)
  obtain q where q: "seqs b n = [q]" using Suc.prems(1) by (metis One_nat_def length_0_conv length_Suc_conv lessI)
  have "nat (in_seq_id b ! n ! 0) = q" using seqs_ok(3)[OF assms(2), of n] Suc.prems(2) q by simp
  moreover have "token_seqs (in_n_seq_id b) (in_seq_id b) n = [q]" using q by (simp add: seqs_def)
  ultimately have step: "pos_step (in_n_seq_id b) (in_seq_id b) n (p0, pos) = (p0(q := p0 q + 1), pos @ [p0 q])" for p0 pos
    unfolding pos_step_def by (simp add: Let_def)
  show ?case using Suc q by (auto simp: step)
qed simp

text \<open>A batch without positions whose tokens have one sequence each, with ids in range, is accepted; the tokens of a
  sequence are numbered from the first free position of the memory on, in the order of the batch.\<close>

theorem missing_positions:
  assumes "batch_wf b" "b_pos b = None" "0 < b_n_tokens b" "0 < n_seq_max" "n_seq_max \<le> LLAMA_MAX_SEQ"
    and "valid_tokens n_vocab b" "ids_ok b n_seq_max" "\<forall>i < b_n_tokens b. length (seqs b i) = 1" "\<forall>s. -1 \<le> memory_last memory s"
  shows "\<exists>al. batch_init 1 b n_vocab memory n_embd n_seq_max output_all = Inr al \<and>
    (\<forall>i < b_n_tokens b. \<forall>s \<in> set (seqs b i). al_pos al ! i = memory_last memory s + 1 + int (tokens_before b i s))"
proof -
  have nxt: "memory_next memory s = memory_last memory s + 1" for s by (simp add: memory_next_def memory_last_def split: option.splits)
  have one: "s \<in> set (seqs b i) \<longleftrightarrow> s = hd (seqs b i)" if "i < b_n_tokens b" for i s
    using assms(8) that by (cases "seqs b i") fastforce+
  have pos: "in_pos b memory ! i = memory_last memory s + 1 + int (tokens_before b i s)" if "i < b_n_tokens b" "s \<in> set (seqs b i)" for i s
    using that one[OF that(1)] assms(2) auto_pos_fold[OF assms(8,1) order_refl, of "memory_next memory"]
    by (simp add: in_pos_def auto_pos_def nxt)
  have img: "positions b memory s = (\<lambda>c. memory_last memory s + 1 + int c) ` {0..<tokens_before b (b_n_tokens b) s}" for s
    unfolding positions_def tokens_before_image[symmetric] using pos by (auto simp: image_iff) metis+
  have "continues b memory s" for s
  proof (cases "tokens_before b (b_n_tokens b) s")
    case 0
    then show ?thesis using img by (simp add: continues_def)
  next
    case (Suc c)
    have "positions b memory s = {memory_last memory s + 1..memory_last memory s + 1 + int c}"
      unfolding img Suc by (rule image_int_interval)
    then show ?thesis unfolding continues_def by (intro disjI2 exI conjI) auto
  qed
  moreover have "together b memory" unfolding together_def by (intro allI impI ballI) (simp add: one)
  moreover have "nondecreasing b (in_pos b memory) (b_n_tokens b)"
    unfolding nondecreasing_def
  proof (intro allI impI ballI conjI)
    fix i s assume i: "i < b_n_tokens b" "s \<in> set (seqs b i)"
    show "-1 \<le> in_pos b memory ! i" using pos[OF i] assms(9)[rule_format, of s] by simp
    show "in_pos b memory ! j \<le> in_pos b memory ! i" if "j < i" "s \<in> set (seqs b j)" for j
      using pos[OF i] pos[of j s] that i(1) tokens_before_mono[of j i b s] by simp
  qed
  ultimately obtain al where al: "batch_init 1 b n_vocab memory n_embd n_seq_max output_all = Inr al"
    using assms by (metis batch_init_inr[OF assms(1)] coupled_ok_iff[OF assms(1)] seq_pos_ok_iff sets_ok_iff[OF assms(1)])
  then have "al_pos al = in_pos b memory" unfolding batch_init_inr[OF assms(1)] by simp
  then show ?thesis using al pos by auto
qed

section \<open>Concrete batches\<close>

lemma batch_init_accepts:
  assumes "batch_wf b" "0 < n_seq_max" "0 < b_n_tokens b" "n_seq_max \<le> LLAMA_MAX_SEQ" "valid_tokens n_vocab b" "ids_ok b n_seq_max"
    and "\<forall>s < n_seq_max. continues b memory s" "together b memory" "nondecreasing b (in_pos b memory) (b_n_tokens b)"
  shows "batch_init 1 b n_vocab memory n_embd n_seq_max oa = Inr (split_reset (filled 1 b memory n_embd n_seq_max oa))"
  unfolding batch_init_inr[OF assms(1)] seq_pos_ok_iff
  using assms coupled_ok_iff[OF assms(1,6,2)] sets_ok_iff[OF assms(1,6,2,4)] by simp

lemma positions_set: "positions b memory s = set (map (\<lambda>i. in_pos b memory ! i) (filter (\<lambda>i. s \<in> set (seqs b i)) [0..<b_n_tokens b]))"
  by (auto simp: positions_def)

lemma continuesI: "positions b memory s = {lo..hi} \<Longrightarrow> lo \<le> hi \<Longrightarrow> memory_last memory s < 0 \<Longrightarrow> continues b memory s"
  unfolding continues_def by (intro disjI2 exI conjI) auto

text \<open>Two tokens in two sequences; three tokens without positions or sequences; the batch the comment in \<open>init\<close> calls invalid.\<close>

definition b_two :: llama_batch where
  "b_two = \<lparr>b_n_tokens = 2, b_token = Some [5, 6], b_embd = None, b_pos = Some [0, 0], b_n_seq_id = Some [1, 1],
     b_seq_id = Some [[0], [1]], b_logits = None\<rparr>"

definition b_free :: llama_batch where
  "b_free = llama_batch_get_one [1, 2, 3] 3"

definition b_partial :: llama_batch where
  "b_partial = \<lparr>b_n_tokens = 3, b_token = Some [1, 2, 3], b_embd = None, b_pos = Some [0, 1, 1], b_n_seq_id = Some [3, 2, 2],
     b_seq_id = Some [[0, 1, 2], [0, 1], [1, 2]], b_logits = None\<rparr>"

definition b_minus :: llama_batch where
  "b_minus = \<lparr>b_n_tokens = 1, b_token = Some [1], b_embd = None, b_pos = Some [-1], b_n_seq_id = None, b_seq_id = None, b_logits = None\<rparr>"

lemma b_two_facts:
  "batch_wf b_two" "b_n_tokens b_two = 2" "valid_tokens 10 b_two" "ids_ok b_two 2" "\<forall>i < 2. seqs b_two i = [i]" "in_pos b_two None = [0, 0]"
  "\<forall>s < 2. continues b_two None s" "together b_two None" "nondecreasing b_two [0, 0] 2"
proof -
  show s: "\<forall>i < 2. seqs b_two i = [i]" by (simp add: less_2_cases_iff seqs_def token_seqs_def in_n_seq_id_def in_seq_id_def b_two_def)
  show p: "in_pos b_two None = [0, 0]" by (simp add: in_pos_def b_two_def)
  show n: "b_n_tokens b_two = 2" by (simp add: b_two_def)
  show "batch_wf b_two" "valid_tokens 10 b_two" "ids_ok b_two 2" "together b_two None" by (simp_all add: batch_wf_def valid_tokens_def ids_ok_def valid_seq_ids_def
    in_n_seq_id_def in_seq_id_def together_def b_two_def list_all_iff numeral_2_eq_2 less_Suc_eq)
  have "positions b_two None s = {0..0}" if "s < 2" for s using that s n p by (auto simp: positions_set less_2_cases_iff upt_rec)
  then show "\<forall>s < 2. continues b_two None s" by (auto intro: continuesI simp: memory_last_def)
  show "nondecreasing b_two [0, 0] 2" by (auto simp: nondecreasing_def less_2_cases_iff)
qed

lemma b_two_ok: "batch_init 1 b_two 10 None 1 2 False = Inr (split_reset (filled 1 b_two None 1 2 False))"
  by (rule batch_init_accepts) (use b_two_facts in simp_all)

text \<open>The check of sequence sets never fails, so the batch that the comment calls invalid is accepted.\<close>

lemma partial_sets_accepted: "\<exists>al. batch_init 1 b_partial 10 None 1 3 False = Inr al"
proof -
  have n: "b_n_tokens b_partial = 3" "in_pos b_partial None = [0, 1, 1]" by (simp_all add: b_partial_def in_pos_def)
  have s: "seqs b_partial 0 = [0, 1, 2]" "seqs b_partial 1 = [0, 1]" "seqs b_partial 2 = [1, 2]"
    by (simp_all add: seqs_def token_seqs_def in_n_seq_id_def in_seq_id_def b_partial_def upt_rec numeral_2_eq_2)
  have l3: "i < 3 \<longleftrightarrow> i = 0 \<or> i = 1 \<or> i = 2" for i :: nat by auto
  have "{0..1} = {0, 1 :: int}" by auto
  then have "positions b_partial None s = {0..1}" if "s < 3" for s
    using that s n unfolding l3 by (auto simp: positions_set upt_rec numeral_2_eq_2)
  then have "\<forall>s < 3. continues b_partial None s" by (auto intro: continuesI simp: memory_last_def)
  moreover have "nondecreasing b_partial [0, 1, 1] 3" using s by (auto simp: nondecreasing_def l3 less_2_cases_iff)
  moreover have "batch_wf b_partial" "valid_tokens 10 b_partial" "ids_ok b_partial 3" "together b_partial None" by (simp_all add: batch_wf_def valid_tokens_def ids_ok_def valid_seq_ids_def
    in_n_seq_id_def in_seq_id_def together_def b_partial_def upt_rec numeral_2_eq_2 numeral_3_eq_3)
  ultimately have "batch_init 1 b_partial 10 None 1 3 False = Inr (split_reset (filled 1 b_partial None 1 3 False))"
    using n by (intro batch_init_accepts) simp_all
  then show ?thesis by blast
qed

text \<open>A token at position \<open>-1\<close>, which marks an empty cell, is accepted.\<close>

lemma minus_one_accepted: "\<exists>al. batch_init 1 b_minus 10 None 1 1 False = Inr al \<and> al_pos al = [-1]"
proof -
  have n: "b_n_tokens b_minus = 1" "in_pos b_minus None = [-1]" by (simp_all add: b_minus_def in_pos_def)
  have s: "seqs b_minus 0 = [0]" by (simp add: seqs_def token_seqs_def in_n_seq_id_def in_seq_id_def b_minus_def)
  have "positions b_minus None 0 = {-1..-1}" using s n by (auto simp: positions_def)
  then have "continues b_minus None 0" by (auto intro: continuesI simp: memory_last_def)
  moreover have "nondecreasing b_minus [-1] 1" by (simp add: nondecreasing_def)
  moreover have "batch_wf b_minus" "valid_tokens 10 b_minus" "ids_ok b_minus 1" "together b_minus None"
    by (simp_all add: batch_wf_def valid_tokens_def ids_ok_def together_def b_minus_def)
  ultimately have "batch_init 1 b_minus 10 None 1 1 False = Inr (split_reset (filled 1 b_minus None 1 1 False))"
    using n by (intro batch_init_accepts) simp_all
  then show ?thesis using n by simp
qed

theorem accepted_batches_witness: "\<exists>al. batch_init 1 b_two 10 None 1 2 False = Inr al"
  using accepted_batches[of b_two 2 10 None 1 False] b_two_facts by simp

theorem missing_positions_witness: "\<exists>al. batch_init 1 b_free 10 None 1 1 False = Inr al \<and> al_pos al ! 2 = 2"
proof -
  have n: "b_n_tokens b_free = 3" by (simp add: b_free_def llama_batch_get_one_def)
  have s: "seqs b_free i = [0]" if "i < 3" for i using that by (simp add: seqs_def token_seqs_def in_n_seq_id_def in_seq_id_def b_free_def llama_batch_get_one_def)
  have "batch_wf b_free" "b_pos b_free = None" "valid_tokens 10 b_free" "ids_ok b_free 1"
    by (simp_all add: batch_wf_def valid_tokens_def ids_ok_def b_free_def llama_batch_get_one_def upt_rec)
  then obtain al where "batch_init 1 b_free 10 None 1 1 False = Inr al"
      "\<forall>i < 3. \<forall>s \<in> set (seqs b_free i). al_pos al ! i = memory_last None s + 1 + int (tokens_before b_free i s)"
    using missing_positions[of b_free 1 10 None 1 False] s n by (auto simp: memory_last_def)
  moreover have "tokens_before b_free 2 0 = 2" using s by (simp add: numeral_2_eq_2)
  ultimately show ?thesis using s[of 2] by (auto simp: memory_last_def)
qed

end
