(* ===== verification/KvInitBatch.thy ===== *)
theory KvInitBatch
  imports BatchInit KvApply
begin

text \<open>
  \<open>llama_kv_cache::init_batch\<close> (\<open>engine/src/llama-kv-cache.cpp\<close>), which splits an accepted batch into ubatches and
  finds slots for them: the split for one stream cuts the batch into consecutive pieces, the sequential
  equal split for several streams gives ubatches that meet what \<open>find_slot\<close> asserts, and the batch is either placed
  completely or the cells stay as they were.
\<close>

section \<open>Splitting for the cache\<close>

definition kv_split :: "nat \<Rightarrow> nat \<Rightarrow> llama_batch_allocr \<Rightarrow> batch_error + llama_ubatch_full option \<times> llama_batch_allocr" where
  "kv_split n_stream n_ubatch al = (if n_stream = 1 then Inr (split_simple n_ubatch al) else split_equal n_ubatch True 0 al)"

text \<open>
  \<open>init_batch\<close>: the slots and the ubatches, or the failure status; with the allocator and the cache left. Each split
  takes at least one token, so one more round than there are tokens is enough.
\<close>

definition kv_init_batch :: "((float32 \<times> nat) list \<Rightarrow> (float32 \<times> nat) list) \<Rightarrow> bool \<Rightarrow> nat \<Rightarrow> llama_batch_allocr \<Rightarrow> llama_kv_cache \<Rightarrow>
    (err + (slot_info list \<times> llama_ubatch_full list) option \<times> llama_batch_allocr \<times> llama_kv_cache) option" where
  "kv_init_batch srt sparse n_ubatch al kv =
     (let al = split_reset al in
      case split_loop (Suc (al_n_tokens al)) (kv_split (kv_n_stream kv) n_ubatch) al of
        None \<Rightarrow> None
      | Some (Inl e) \<Rightarrow> Some (Inl Assert_failed)
      | Some (Inr (ubatches, al)) \<Rightarrow>
          if al_n_used al < al_n_tokens al then Some (Inr (None, al, kv))
          else case prepare srt sparse (map llama_ubatch.truncate ubatches) kv of
            None \<Rightarrow> None
          | Some (Inl e) \<Rightarrow> Some (Inl e)
          | Some (Inr (sinfos, kv)) \<Rightarrow>
              Some (Inr (if sinfos = [] then None else Some (sinfos, ubatches), al, kv)))"

section \<open>Consecutive ubatches\<close>

lemma fresh_first:
  assumes "simple_ok al" "first_unused al = 0" "e \<le> al_n_tokens al"
  shows "first_unused (split_state al [0..<e]) = e"
proof -
  have "al_used (split_state al [0..<e]) = replicate e True @ replicate (al_n_tokens al - e) False"
    using mark_prefix[OF assms(1), of e e] assms(2,3) by simp
  moreover have "takeWhile (\<lambda>u. u) (replicate e True @ replicate (al_n_tokens al - e) False) = replicate e True" by (subst takeWhile_append2) auto
  ultimately show ?thesis by (simp add: first_unused_def)
qed

lemma take_Suc_concat: "k < length sels \<Longrightarrow> concat (map fst (take (Suc k) sels)) = concat (map fst (take k sels)) @ fst (sels ! k)"
  by (simp add: take_Suc_conv_app_nth)

lemma simple_chunks:
  fixes n_ubatch
  assumes ok: "simple_ok al" and fr: "first_unused al = 0"
    and chain: "\<forall>k < length sels. simple_ok (split_state al (concat (map fst (take k sels)))) \<and>
      fst (select_simple n_ubatch (split_state al (concat (map fst (take k sels))))) = Some (sels ! k)"
  defines "m \<equiv> max 1 n_ubatch" and "n \<equiv> al_n_tokens al"
  shows "k \<le> length sels \<Longrightarrow> concat (map fst (take k sels)) = [0..<min n (k * m)] \<and>
    (\<forall>j < k. j * m < n \<and> sels ! j = ([j * m..<min n (Suc j * m)], min n (Suc j * m) - j * m, False))"
proof (induction k)
  case (Suc k)
  let ?s = "split_state al (concat (map fst (take k sels)))"
  have ih: "concat (map fst (take k sels)) = [0..<min n (k * m)]" using Suc by simp
  have k: "simple_ok ?s" "fst (select_simple n_ubatch ?s) = Some (sels ! k)" using chain Suc.prems by auto
  have f: "first_unused ?s = min n (k * m)" unfolding ih by (rule fresh_first[OF ok fr]) (simp add: n_def)
  have lt: "first_unused ?s < al_n_tokens ?s"
    using k simple_ok_first(2)[OF k(1)] by (auto simp: select_simple_def Let_def split: if_splits)
  then have km: "k * m < n" using f by (simp add: n_def)
  have "sels ! k = ([k * m..<min n (k * m + m)], min n (k * m + m) - k * m, False)"
    using k(2) select_simple_eq[OF k(1) lt, of n_ubatch] f km by (simp add: m_def n_def)
  then have sk: "sels ! k = ([k * m..<min n (Suc k * m)], min n (Suc k * m) - k * m, False)" by (simp add: add.commute)
  have "concat (map fst (take (Suc k) sels)) = [0..<k * m] @ [k * m..<min n (Suc k * m)]"
    using take_Suc_concat[of k sels] Suc.prems ih sk km by simp
  also have "\<dots> = [0..<min n (Suc k * m)]" using upt_add_eq_append[of 0 "k * m" "min n (Suc k * m) - k * m"] km by simp
  finally show ?case using Suc sk km by (auto simp: less_Suc_eq)
qed simp

definition chunks :: "nat \<Rightarrow> nat \<Rightarrow> nat list list" where
  "chunks m n = map (\<lambda>j. [j * m..<min n (Suc j * m)]) [0..<(n + m - 1) div m]"

lemma kv_split_one: "kv_split (Suc 0) n_ubatch = (\<lambda>al. Inr (split_simple n_ubatch al))"
  by (rule ext) (simp add: kv_split_def)

lemma simple_split_loop:
  fixes n_ubatch
  assumes "simple_ok al" "first_unused al = 0" "unused al = {..<al_n_tokens al}"
  defines "cs \<equiv> chunks (max 1 n_ubatch) (al_n_tokens al)"
  shows "split_loop (Suc (al_n_tokens al)) (kv_split (Suc 0) n_ubatch) al =
      Some (Inr (map (\<lambda>idxs. fst (ubatch_add (idxs, length idxs, False) al)) cs, split_state al [0..<al_n_tokens al]))"
    and "concat cs = [0..<al_n_tokens al]"
proof -
  let ?m = "max 1 n_ubatch" and ?n = "al_n_tokens al"
  have "card (unused al) < Suc ?n" using assms(3) by simp
  from simple.partition[OF assms(1) this, of n_ubatch] obtain sels where sels:
      "split_loop (Suc ?n) (kv_split (Suc 0) n_ubatch) al =
         Some (Inr (map (\<lambda>sel. fst (ubatch_add sel al)) sels, split_state al (concat (map fst sels))))"
      "set (concat (map fst sels)) = unused al"
      "\<forall>k < length sels. simple_ok (split_state al (concat (map fst (take k sels)))) \<and>
        fst (select_simple n_ubatch (split_state al (concat (map fst (take k sels))))) = Some (sels ! k)"
    unfolding kv_split_one by blast
  note c = simple_chunks[OF assms(1,2) sels(3), of "length sels", simplified take_all_iff, OF order_refl]
  have all: "concat (map fst sels) = [0..<min ?n (length sels * ?m)]" "\<forall>j < length sels. j * ?m < ?n"
    and nth: "\<forall>j < length sels. sels ! j = ([j * ?m..<min ?n (Suc j * ?m)], min ?n (Suc j * ?m) - j * ?m, False)" using c by simp_all
  have "card (set (concat (map fst sels))) = ?n" unfolding sels(2) assms(3) by simp
  then have ge: "?n \<le> length sels * ?m" unfolding all(1) by (simp only: set_upt card_atLeastLessThan diff_zero min.absorb_iff1)
  have len: "length sels = (?n + ?m - 1) div ?m"
  proof (rule div_nat_eqI[symmetric])
    show "?m * length sels \<le> ?n + ?m - 1"
    proof (cases "length sels")
      case (Suc l)
      then have "l * ?m < ?n" using all(2) by simp
      then show ?thesis using Suc by (simp add: mult.commute)
    qed simp
    show "?n + ?m - 1 < ?m * Suc (length sels)" using ge by (simp add: mult.commute)
  qed
  have s: "sels = map (\<lambda>idxs. (idxs, length idxs, False)) cs"
  proof (rule nth_equalityI)
    show "length sels = length (map (\<lambda>idxs. (idxs, length idxs, False)) cs)" unfolding cs_def chunks_def len by simp
    fix j assume j: "j < length sels"
    then have "cs ! j = [j * ?m..<min ?n (Suc j * ?m)]" "j < length cs" unfolding cs_def chunks_def len by simp_all
    then show "sels ! j = map (\<lambda>idxs. (idxs, length idxs, False)) cs ! j" using nth j by simp
  qed
  have "concat (map fst sels) = [0..<?n]" using all(1) ge by simp
  then show "concat cs = [0..<?n]" unfolding s by (simp add: o_def)
  show "split_loop (Suc ?n) (kv_split (Suc 0) n_ubatch) al =
      Some (Inr (map (\<lambda>idxs. fst (ubatch_add (idxs, length idxs, False) al)) cs, split_state al [0..<?n]))"
    using sels(1) \<open>concat (map fst sels) = [0..<?n]\<close> unfolding s by (simp add: o_def)
qed

section \<open>Ubatches the cache accepts\<close>

lemma concat_equal:
  assumes "\<forall>xs \<in> set xss. length xs = r"
  shows "length (concat xss) = length xss * r" "s < length xss \<Longrightarrow> 0 < r \<Longrightarrow> concat xss ! (s * r) = xss ! s ! 0"
  using assms
proof (induction xss arbitrary: s)
  case (Cons xs xss)
  case 1
  then show ?case using Cons.IH(1) by simp
  case 2
  then show ?case using Cons.IH(2) by (cases s) (auto simp: nth_append)
qed auto

text \<open>What \<open>ubatch_add\<close> copies, for tokens of the batch.\<close>

lemma ubatch_add_fields:
  fixes b memory n_embd n_seq_max oa idxs k e
  assumes "batch_wf b" "ids_ok b n_seq_max" "set idxs \<subseteq> {..<b_n_tokens b}" "0 < npe"
  defines "U \<equiv> llama_ubatch.truncate (fst (ubatch_add (idxs, k, e) (split_reset (filled npe b memory n_embd n_seq_max oa))))"
  shows "ub_n_tokens U = length idxs"
    and "i < length idxs \<Longrightarrow> ub_pos U ! i = in_pos b memory ! (idxs ! i)"
    and "i < length idxs \<Longrightarrow> ub_n_seq_id U ! i = length (seqs b (idxs ! i))"
    and "i < length idxs \<Longrightarrow> ub_seq_id U ! i = map int (seqs b (idxs ! i))"
    and "ub_seq_id_unq U = map int (filter (\<lambda>s. \<exists>i \<in> set idxs. s \<in> set (seqs b i)) [0..<n_seq_max])"
    and "ub_n_seqs_unq U = length (ub_seq_id_unq U)"
proof -
  have q: "map (\<lambda>s. in_seq_id b ! i ! s) [0..<in_n_seq_id b ! i] = map int (seqs b i)" if "i < b_n_tokens b" for i
    unfolding seqs_def token_seqs_def map_map o_def using seqs_ok(5)[OF assms(1) that assms(2)] by (intro map_cong) auto
  have sid: "map (\<lambda>i. map (\<lambda>s. in_seq_id b ! i ! s) [0..<in_n_seq_id b ! i]) idxs = map (\<lambda>i. map int (seqs b i)) idxs"
    by (rule map_cong[OF refl], rule q) (use assms(3) in auto)
  note U = U_def[unfolded ubatch_add_def Let_def split_beta fst_conv snd_conv split_reset_simps filled_simps sid llama_ubatch.truncate_def]
  show "ub_n_tokens U = length idxs" "ub_n_seqs_unq U = length (ub_seq_id_unq U)" by (simp_all add: U)
  show "ub_n_seq_id U ! i = length (seqs b (idxs ! i))" "ub_seq_id U ! i = map int (seqs b (idxs ! i))" if "i < length idxs"
    using that seqs_ok(2)[OF assms(1)] by (simp_all add: U seqs_def token_seqs_def)
  show "ub_seq_id_unq U = map int (filter (\<lambda>s. \<exists>i \<in> set idxs. s \<in> set (seqs b i)) [0..<n_seq_max])"
    by (auto simp: U intro!: filter_cong)
  show "ub_pos U ! i = in_pos b memory ! (idxs ! i)" if "i < length idxs"
  proof -
    have "ub_pos U = map (\<lambda>i. in_pos b memory ! ((if al_token (split_reset (filled npe b memory n_embd n_seq_max oa)) \<noteq> None then 0 else 0 * b_n_tokens b) + i)) idxs @
        concat (map (\<lambda>j. map (\<lambda>i. in_pos b memory ! ((if al_token (split_reset (filled npe b memory n_embd n_seq_max oa)) \<noteq> None then 0 else j * b_n_tokens b) + i)) idxs) [Suc 0..<npe])"
      unfolding U upt_conv_Cons[OF assms(4)] by simp
    then show ?thesis using that by (simp add: nth_append del: split_reset_simps)
  qed
qed

text \<open>A cache that can hold the sequences of the batch.\<close>

definition kv_fits :: "llama_kv_cache \<Rightarrow> nat \<Rightarrow> bool" where
  "kv_fits kv n_seq_max \<longleftrightarrow> kv_wf kv \<and> n_seq_max \<le> length (kv_seq_to_stream kv) \<and> 0 < kv_n_stream kv \<and>
     (1 < kv_n_stream kv \<longrightarrow> kv_seq_to_stream kv = [0..<kv_n_stream kv])"

lemma ubatch_ids_ok:
  fixes b memory n_embd n_seq_max oa idxs k e
  assumes "batch_wf b" "ids_ok b n_seq_max" "0 < n_seq_max" "set idxs \<subseteq> {..<b_n_tokens b}" "0 < npe"
    and "n_seq_max \<le> length (kv_seq_to_stream kv)" "\<forall>i < b_n_tokens b. 0 \<le> in_pos b memory ! i"
  defines "U \<equiv> llama_ubatch.truncate (fst (ubatch_add (idxs, k, e) (split_reset (filled npe b memory n_embd n_seq_max oa))))"
  shows "list_all (\<lambda>i. 0 \<le> ub_pos U ! i \<and> list_all (\<lambda>j. seq_id_ok (ub_seq_id U ! i ! j) kv) [0..<ub_n_seq_id U ! i]) [0..<length idxs]"
    and "s \<in> set (ub_seq_id_unq U) \<Longrightarrow> seq_id_ok s kv"
proof -
  note f = ubatch_add_fields[OF assms(1,2,4,5), where k = k and e = e and memory = memory and n_embd = n_embd and oa = oa, folded U_def]
  have "0 \<le> ub_pos U ! i \<and> list_all (\<lambda>j. seq_id_ok (ub_seq_id U ! i ! j) kv) [0..<ub_n_seq_id U ! i]" if i: "i < length idxs" for i
  proof
    have x: "idxs ! i < b_n_tokens b" using i assms(4) nth_mem by blast
    then show "0 \<le> ub_pos U ! i" using f(2)[OF i] assms(7) by simp
    have "s < n_seq_max" if "s \<in> set (seqs b (idxs ! i))" for s by (rule seqs_ok(4)[OF assms(1) x assms(2,3) that])
    then have "seqs b (idxs ! i) ! j < length (kv_seq_to_stream kv)" if "j < length (seqs b (idxs ! i))" for j
      using that assms(6) by (meson less_le_trans nth_mem)
    then show "list_all (\<lambda>j. seq_id_ok (ub_seq_id U ! i ! j) kv) [0..<ub_n_seq_id U ! i]"
      using f(3,4)[OF i] by (simp add: list_all_iff seq_id_ok_def)
  qed
  then show "list_all (\<lambda>i. 0 \<le> ub_pos U ! i \<and> list_all (\<lambda>j. seq_id_ok (ub_seq_id U ! i ! j) kv) [0..<ub_n_seq_id U ! i]) [0..<length idxs]"
    by (simp add: list_all_iff)
  show "seq_id_ok s kv" if "s \<in> set (ub_seq_id_unq U)" using that assms(6) unfolding f(5) by (auto simp: seq_id_ok_def)
qed

lemma simple_ubatch_ok:
  fixes b memory n_embd n_seq_max oa idxs k e
  assumes "batch_wf b" "ids_ok b n_seq_max" "0 < n_seq_max" "set idxs \<subseteq> {..<b_n_tokens b}" "0 < npe"
    and "kv_fits kv n_seq_max" "kv_n_stream kv = 1" "\<forall>i < b_n_tokens b. 0 \<le> in_pos b memory ! i" "idxs \<noteq> []"
  shows "ubatch_ok kv (llama_ubatch.truncate (fst (ubatch_add (idxs, k, e) (split_reset (filled npe b memory n_embd n_seq_max oa))))) 1 (length idxs)"
proof -
  let ?U = "llama_ubatch.truncate (fst (ubatch_add (idxs, k, e) (split_reset (filled npe b memory n_embd n_seq_max oa))))"
  have l: "n_seq_max \<le> length (kv_seq_to_stream kv)" using assms(6) by (simp add: kv_fits_def)
  note f = ubatch_add_fields[OF assms(1,2,4,5), where k = k and e = e and memory = memory and n_embd = n_embd and oa = oa]
  note t = ubatch_ids_ok[OF assms(1-5) l assms(8), where k = k and e = e and n_embd = n_embd and oa = oa]
  have h: "hd idxs \<in> set idxs" "hd idxs < b_n_tokens b" using assms(4) hd_in_set[OF assms(9)] by auto
  have "hd (seqs b (hd idxs)) \<in> set (seqs b (hd idxs))" using seqs_ok(1)[OF assms(1) h(2)] by simp
  moreover from this have "hd (seqs b (hd idxs)) < n_seq_max" by (rule seqs_ok(4)[OF assms(1) h(2) assms(2,3)])
  ultimately have "int (hd (seqs b (hd idxs))) \<in> set (ub_seq_id_unq ?U)" unfolding f(5) using h(1) by auto
  then have "ub_seq_id_unq ?U \<noteq> []" by auto
  then have "seq_id_ok (ub_seq_id_unq ?U ! 0) kv" by (intro t(2) nth_mem) simp
  then show ?thesis unfolding ubatch_ok_def using t(1) f(1) assms(7,9) by simp
qed

text \<open>The sets of a sequential split are consecutive single sequences.\<close>

lemma choose_sets_consecutive:
  assumes "\<forall>i \<in> set is. al_seq_set al ! i = {q i} \<and> al_seq_id al ! i ! 0 = int (q i)"
    and "Ss = map (\<lambda>j. {a + j}) [0..<m]" "0 < m \<longrightarrow> last_id = int (a + m - 1)"
  shows "\<exists>a m. choose_sets n_ubatch True al is Ss last_id = map (\<lambda>j. {a + j}) [0..<m]"
  using assms
proof (induction "is" arbitrary: Ss a m last_id)
  case (Cons i "is")
  have i: "al_seq_set al ! i = {q i}" "al_seq_id al ! i ! 0 = int (q i)" using Cons.prems(1) by auto
  have rest: "\<forall>i \<in> set is. al_seq_set al ! i = {q i} \<and> al_seq_id al ! i ! 0 = int (q i)" using Cons.prems(1) by simp
  let ?add = "\<not> al_used al ! i \<and> list_all (\<lambda>T. T \<inter> {q i} = {}) Ss \<and> (Ss = [] \<or> int (q i) = last_id + 1)"
  show ?case
  proof (cases ?add)
    case True
    define a' where "a' = (if Ss = [] then q i else a)"
    have ex: "Ss @ [{q i}] = map (\<lambda>j. {a' + j}) [0..<Suc m]" "int (q i) = int (a' + Suc m - 1)"
      using True Cons.prems(2,3) by (auto simp: a'_def of_nat_diff)
    have "choose_sets n_ubatch True al (i # is) Ss last_id =
        (if length (Ss @ [{q i}]) > n_ubatch then Ss @ [{q i}] else choose_sets n_ubatch True al is (Ss @ [{q i}]) (int (q i)))"
      using True i by (simp add: Let_def)
    moreover have "\<exists>a m. choose_sets n_ubatch True al is (Ss @ [{q i}]) (int (q i)) = map (\<lambda>j. {a + j}) [0..<m]"
      using Cons.IH[OF rest ex(1)] ex(2) by blast
    moreover have "\<exists>a m. Ss @ [{q i}] = map (\<lambda>j. {a + j}) [0..<m]" using ex(1) by blast
    ultimately show ?thesis by (cases "length (Ss @ [{q i}]) > n_ubatch") (simp_all only: if_True if_False)
  next
    case False
    then have "choose_sets n_ubatch True al (i # is) Ss last_id = choose_sets n_ubatch True al is Ss last_id"
      using i by (auto simp: Let_def)
    then show ?thesis using Cons.IH[OF rest Cons.prems(2,3)] by simp
  qed
qed auto

lemma filter_upt_interval: "a + n \<le> N \<Longrightarrow> filter (\<lambda>s. a \<le> s \<and> s < a + n) [0..<N] = [a..<a + n]"
proof -
  assume "a + n \<le> N"
  then have "[0..<N] = [0..<a] @ [a..<a + n] @ [a + n..<N]"
    by (metis append_assoc le_add1 le_add_diff_inverse plus_nat.add_0 upt_add_eq_append zero_le)
  then show ?thesis by (simp add: filter_empty_conv)
qed

text \<open>A ubatch of the sequential equal split meets what \<open>find_slot\<close> asserts with several streams.\<close>

lemma equal_ubatch_ok:
  fixes b memory n_embd n_seq_max oa e
  assumes wf: "batch_wf b" "ids_ok b n_seq_max" "0 < n_seq_max" "0 < npe"
    and kv: "kv_fits kv n_seq_max" "1 < kv_n_stream kv" and pos: "\<forall>i < b_n_tokens b. 0 \<le> in_pos b memory ! i"
    and t: "takes al Ss r" "al_ok al" "unused al \<subseteq> {..<b_n_tokens b}" "\<forall>i < b_n_tokens b. seqs b i = [q i] \<and> al_seq_set al ! i = {q i}"
    and c: "Ss = map (\<lambda>j. {a + j}) [0..<m]"
  shows "ubatch_ok kv (llama_ubatch.truncate (fst (ubatch_add (concat (prefixes al Ss (\<lambda>_. r)), m, e)
    (split_reset (filled npe b memory n_embd n_seq_max oa))))) m r"
proof -
  let ?P = "prefixes al Ss (\<lambda>_. r)" and ?idxs = "concat (prefixes al Ss (\<lambda>_. r))"
  let ?U = "llama_ubatch.truncate (fst (ubatch_add (?idxs, m, e) (split_reset (filled npe b memory n_embd n_seq_max oa))))"
  have m: "0 < m" "0 < r" "length Ss = m" using t(1) c by (auto simp: takes_def)
  have len: "\<forall>xs \<in> set ?P. length xs = r" using t(1) by (auto simp: prefixes_def takes_def min_def)
  have idxs: "length ?idxs = m * r" "\<And>s. s < m \<Longrightarrow> ?idxs ! (s * r) = ?P ! s ! 0" using concat_equal[OF len] m by auto
  have mem: "x < b_n_tokens b \<and> q x = a + s" if "s < m" "x \<in> set (?P ! s)" for s x
  proof -
    have "x \<in> set (left al (Ss ! s))" using that m(3) set_take_subset by fastforce
    then have "x \<in> unused al" "al_seq_set al ! x = Ss ! s" by (simp_all add: left_props(3))
    then show ?thesis using t(3,4) that(1) c by (auto dest: subsetD)
  qed
  have first: "?P ! s ! 0 \<in> set (?P ! s)" if "s < m" for s proof -
    have "?P ! s \<in> set ?P" using that m(3) by (intro nth_mem) simp
    then show ?thesis using len m(2) by (intro nth_mem) simp
  qed
  have sub: "set ?idxs \<subseteq> {..<b_n_tokens b}" using mem m(3) by (auto simp: in_set_conv_nth[of _ ?P])
  have l: "n_seq_max \<le> length (kv_seq_to_stream kv)" using kv(1) by (simp add: kv_fits_def)
  note f = ubatch_add_fields[OF wf(1,2) sub wf(4), where k = m and e = e and memory = memory and n_embd = n_embd and oa = oa]
  note tk = ubatch_ids_ok[OF wf(1-3) sub wf(4) l pos, where k = m and e = e and n_embd = n_embd and oa = oa]
  have has: "(\<exists>i \<in> set ?idxs. s \<in> set (seqs b i)) \<longleftrightarrow> a \<le> s \<and> s < a + m" for s
  proof
    assume "\<exists>i \<in> set ?idxs. s \<in> set (seqs b i)"
    then obtain i j where "i \<in> set (?P ! j)" "j < m" "s \<in> set (seqs b i)" using m(3) by (auto simp: in_set_conv_nth[of _ ?P])
    then show "a \<le> s \<and> s < a + m" using mem[of j i] t(4) by auto
  next
    assume s: "a \<le> s \<and> s < a + m"
    then have j: "s - a < m" by auto
    have "?P ! (s - a) \<in> set ?P" using j m(3) by (intro nth_mem) simp
    then have "?P ! (s - a) ! 0 \<in> set ?idxs" using first[OF j] by (metis UN_I set_concat)
    moreover have "s \<in> set (seqs b (?P ! (s - a) ! 0))" using mem[OF j first[OF j]] t(4) s by auto
    ultimately show "\<exists>i \<in> set ?idxs. s \<in> set (seqs b i)" by blast
  qed
  have "a + (m - 1) < n_seq_max"
    using seqs_ok(4)[OF wf(1) _ wf(2,3)] mem[OF _ first, of "m - 1"] m(1) t(4) by (metis diff_less list.set_intros(1) zero_less_one)
  then have am: "a + m \<le> n_seq_max" using m(1) by linarith
  have unq: "ub_seq_id_unq ?U = map int [a..<a + m]" unfolding f(5) has filter_upt_interval[OF am] ..
  have heads: "ub_n_seq_id ?U ! (s * r) = 1 \<and> ub_seq_id ?U ! (s * r) ! 0 = ub_seq_id_unq ?U ! s" if "s < m" for s
  proof -
    have "s * r < m * r" using that m(2) by simp
    moreover have "seqs b (?idxs ! (s * r)) = [a + s]" using mem[OF that first[OF that]] t(4) idxs(2)[OF that] by simp
    ultimately show ?thesis using f(3,4)[of "s * r"] idxs(1) unq that by simp
  qed
  have st: "map (ub_stream kv ?U) [0..<m] = [a..<a + m]"
    using kv l am unq by (auto simp: kv_fits_def intro!: nth_equalityI)
  have ids: "seq_id_ok (ub_seq_id_unq ?U ! s) kv" if "s < m" for s by (rule tk(2), rule nth_mem) (simp add: unq that)
  have n: "ub_n_tokens ?U = m * r" "ub_n_seqs_unq ?U = m" using f(1,6) idxs(1) unq by simp_all
  show ?thesis unfolding ubatch_ok_def st n using m heads ids tk(1)[unfolded idxs(1)] kv(2) by (simp add: list_all_iff)
qed

section \<open>Splitting an accepted batch\<close>

lemma split_reset_first: "first_unused (split_reset al) = 0"
  by (cases "al_n_tokens al") (simp_all add: first_unused_def)

lemma accepted_ready:
  assumes "batch_wf b" "batch_init npe b n_vocab memory n_embd n_seq_max oa = Inr al"
  shows "al = split_reset (filled npe b memory n_embd n_seq_max oa)" "split_reset al = al" "al_n_tokens al = b_n_tokens b" "0 < b_n_tokens b"
    "simple_ok al" "in_order al" "first_unused al = 0" "unused al = {..<b_n_tokens b}" "ids_ok b n_seq_max" "al_n_used al = 0"
    "al_has_cpl al \<longleftrightarrow> (\<exists>i < b_n_tokens b. 1 < length (seqs b i))"
proof -
  note i = assms(2)[unfolded batch_init_inr[OF assms(1)]]
  show e: "al = split_reset (filled npe b memory n_embd n_seq_max oa)" "0 < b_n_tokens b" "ids_ok b n_seq_max" using i by auto
  show "split_reset al = al" "al_n_tokens al = b_n_tokens b" "first_unused al = 0" "unused al = {..<b_n_tokens b}" "al_n_used al = 0"
    "al_has_cpl al \<longleftrightarrow> (\<exists>i < b_n_tokens b. 1 < length (seqs b i))"
    unfolding e(1) by (simp_all add: split_reset_first)
  show "simple_ok al" "in_order al" unfolding e(1) by (rule filled_ready[OF assms(1)])+
qed

text \<open>With one stream the loop of \<open>init_batch\<close> ends and cuts an accepted batch into consecutive ubatches of \<open>n_ubatch\<close> tokens
  (at least one), the last one shorter if need be; every token is used exactly once.\<close>

theorem consecutive_ubatches:
  assumes "batch_wf b" "batch_init npe b n_vocab memory n_embd n_seq_max output_all = Inr al"
  shows "concat (chunks (max 1 n_ubatch) (b_n_tokens b)) = [0..<b_n_tokens b] \<and>
    split_loop (Suc (b_n_tokens b)) (kv_split 1 n_ubatch) al =
      Some (Inr (map (\<lambda>idxs. fst (ubatch_add (idxs, length idxs, False) al)) (chunks (max 1 n_ubatch) (b_n_tokens b)), split_state al [0..<b_n_tokens b]))"
proof -
  note r = accepted_ready[OF assms(1,2)]
  have "unused al = {..<al_n_tokens al}" using r(3,8) by simp
  from simple_split_loop[OF r(5,7) this, of n_ubatch] show ?thesis unfolding r(3) One_nat_def by blast
qed

lemma prefixes_map: "prefixes al Ss (\<lambda>_. r) = map (\<lambda>S. take r (left al S)) Ss"
  by (rule nth_equalityI) simp_all

lemma equal_selected:
  assumes "equal_ok n_ubatch sequential n_keep_tail al" "fst (projr (select_equal n_ubatch sequential n_keep_tail al)) = Some sel"
  shows "\<exists>Ss r. equal_selection n_ubatch sequential n_keep_tail al Ss r \<and> sel = (concat (prefixes al Ss (\<lambda>_. r)), length Ss, True)"
proof -
  have "unused al \<noteq> {}" using assms select_equal_none by fastforce
  from select_equal_some[OF assms(1) this] obtain Ss r where e: "equal_selection n_ubatch sequential n_keep_tail al Ss r" by blast
  then have "sel = (concat (prefixes al Ss (\<lambda>_. r)), length Ss, True)" using assms(2) by (simp add: equal_selection_def)
  then show ?thesis using e by blast
qed

lemma equal_loop_sels:
  assumes "batch_wf b" "batch_init npe b n_vocab memory n_embd n_seq_max oa = Inr al"
    and "\<not> (sequential \<and> al_has_cpl al)" "n_keep_tail = 0 \<or> n_keep_tail < n_ubatch"
  shows "\<exists>sels. split_loop (Suc (b_n_tokens b)) (split_equal n_ubatch sequential n_keep_tail) al =
      Some (Inr (map (\<lambda>sel. fst (ubatch_add sel al)) sels, split_state al (concat (map fst sels)))) \<and>
    distinct (concat (map fst sels)) \<and> set (concat (map fst sels)) = {..<b_n_tokens b} \<and>
    (\<forall>k < length sels. \<exists>Ss r. equal_ok n_ubatch sequential n_keep_tail (split_state al (concat (map fst (take k sels)))) \<and>
       equal_selection n_ubatch sequential n_keep_tail (split_state al (concat (map fst (take k sels)))) Ss r \<and>
       sels ! k = (concat (prefixes (split_state al (concat (map fst (take k sels)))) Ss (\<lambda>_. r)), length Ss, True))"
proof -
  note r = accepted_ready[OF assms(1,2)]
  have ok: "equal_ok n_ubatch sequential n_keep_tail al" using r(6) assms(3,4) by (simp add: equal_ok_def)
  have "card (unused al) < Suc (b_n_tokens b)" using r(8) by simp
  from equal.partition[OF ok this] obtain sels where
    "split_loop (Suc (b_n_tokens b)) (split_equal n_ubatch sequential n_keep_tail) al =
      Some (Inr (map (\<lambda>sel. fst (ubatch_add sel al)) sels, split_state al (concat (map fst sels))))"
    "distinct (concat (map fst sels))" "set (concat (map fst sels)) = unused al"
    "\<forall>k < length sels. equal_ok n_ubatch sequential n_keep_tail (split_state al (concat (map fst (take k sels)))) \<and>
        fst (projr (select_equal n_ubatch sequential n_keep_tail (split_state al (concat (map fst (take k sels)))))) = Some (sels ! k)" by blast
  then show ?thesis using equal_selected unfolding r(8) by (intro exI[of _ sels]) blast
qed

lemma equal_shape:
  assumes "equal_selection n_ubatch sequential n_keep_tail al Ss r"
  shows "disjoint_sets_list Ss \<and> 0 < r \<and> (r * length Ss \<le> n_ubatch \<or> r = 1 \<and> length Ss = Suc n_ubatch) \<and>
    (\<forall>S \<in> set Ss. r \<le> length (left al S) \<and> (length (left al S) = r \<or> n_keep_tail \<le> length (left al S) - r))"
proof -
  have t: "disjoint_sets_list Ss" "0 < r" "\<forall>s < length Ss. r \<le> length (left al (Ss ! s))" "r * length Ss \<le> n_ubatch \<or> r = 1"
      "length Ss \<le> Suc n_ubatch" "\<forall>s < length Ss. length (left al (Ss ! s)) = r \<or> n_keep_tail \<le> length (left al (Ss ! s)) - r"
    using assms unfolding equal_selection_def takes_def sets_of_unused_def no_short_tail_def by blast+
  have "r * length Ss \<le> n_ubatch \<or> r = 1 \<and> length Ss = Suc n_ubatch" using t(4,5) by (cases "r = 1") auto
  moreover have "r \<le> length (left al S) \<and> (length (left al S) = r \<or> n_keep_tail \<le> length (left al S) - r)" if S: "S \<in> set Ss" for S
    using t(3,6) S unfolding in_set_conv_nth by blast
  ultimately show ?thesis using t(1,2) by blast
qed

text \<open>C15: repeated equal splits of an accepted batch end and deal every token to exactly one ubatch, unless sequential sets are asked for
  and the batch has coupled sequences, and if \<open>n_keep_tail\<close> is 0 or less than \<open>n_ubatch\<close>. Each ubatch takes the
  same number \<open>r\<close> of tokens from each of some disjoint sequence sets \<open>Ss\<close>, the next ones of the set in order; no set is left
  with a tail shorter than \<open>n_keep_tail\<close>. There are at most \<open>n_ubatch\<close> tokens, or \<open>n_ubatch + 1\<close> sets with one token each.\<close>

theorem equal_ubatches:
  assumes "batch_wf b" "batch_init npe b n_vocab memory n_embd n_seq_max output_all = Inr al"
    and "\<not> (sequential \<and> al_has_cpl al)" "n_keep_tail = 0 \<or> n_keep_tail < n_ubatch"
  shows "\<exists>sels. split_loop (Suc (b_n_tokens b)) (split_equal n_ubatch sequential n_keep_tail) al =
      Some (Inr (map (\<lambda>sel. fst (ubatch_add sel al)) sels, split_state al (concat (map fst sels)))) \<and>
    distinct (concat (map fst sels)) \<and> set (concat (map fst sels)) = {..<b_n_tokens b} \<and>
    (\<forall>k < length sels. \<exists>Ss r al'. al' = split_state al (concat (map fst (take k sels))) \<and>
       sels ! k = (concat (map (\<lambda>S. take r (left al' S)) Ss), length Ss, True) \<and>
       disjoint_sets_list Ss \<and> 0 < r \<and> (r * length Ss \<le> n_ubatch \<or> r = 1 \<and> length Ss = Suc n_ubatch) \<and>
       (\<forall>S \<in> set Ss. r \<le> length (left al' S) \<and> (length (left al' S) = r \<or> n_keep_tail \<le> length (left al' S) - r)))"
proof -
  obtain sels where sels: "split_loop (Suc (b_n_tokens b)) (split_equal n_ubatch sequential n_keep_tail) al =
      Some (Inr (map (\<lambda>sel. fst (ubatch_add sel al)) sels, split_state al (concat (map fst sels))))"
      "distinct (concat (map fst sels))" "set (concat (map fst sels)) = {..<b_n_tokens b}"
      "\<forall>k < length sels. \<exists>Ss r. equal_ok n_ubatch sequential n_keep_tail (split_state al (concat (map fst (take k sels)))) \<and>
         equal_selection n_ubatch sequential n_keep_tail (split_state al (concat (map fst (take k sels)))) Ss r \<and>
         sels ! k = (concat (prefixes (split_state al (concat (map fst (take k sels)))) Ss (\<lambda>_. r)), length Ss, True)"
    using equal_loop_sels[OF assms] by (elim exE conjE)
  show ?thesis
  proof (intro exI[of _ sels] conjI allI impI)
    fix k assume "k < length sels"
    then obtain Ss r where e: "equal_selection n_ubatch sequential n_keep_tail (split_state al (concat (map fst (take k sels)))) Ss r"
        "sels ! k = (concat (prefixes (split_state al (concat (map fst (take k sels)))) Ss (\<lambda>_. r)), length Ss, True)" using sels(4) by blast
    show "\<exists>Ss r al'. al' = split_state al (concat (map fst (take k sels))) \<and>
       sels ! k = (concat (map (\<lambda>S. take r (left al' S)) Ss), length Ss, True) \<and>
       disjoint_sets_list Ss \<and> 0 < r \<and> (r * length Ss \<le> n_ubatch \<or> r = 1 \<and> length Ss = Suc n_ubatch) \<and>
       (\<forall>S \<in> set Ss. r \<le> length (left al' S) \<and> (length (left al' S) = r \<or> n_keep_tail \<le> length (left al' S) - r))"
      by (rule exI[of _ Ss], rule exI[of _ r], rule exI, rule conjI[OF refl], rule conjI[OF e(2)[unfolded prefixes_map]], rule equal_shape[OF e(1)])
  qed (fact sels(1) sels(2) sels(3))+
qed

lemma chunk_nonempty:
  assumes "0 < m" "idxs \<in> set (chunks m n)"
  shows "idxs \<noteq> []"
proof -
  obtain j where j: "idxs = [j * m..<min n (Suc j * m)]" "j < (n + m - 1) div m" using assms(2) by (auto simp: chunks_def)
  have "Suc j * m \<le> (n + m - 1) div m * m" using j(2) by (intro mult_le_mono1) simp
  also have "\<dots> \<le> n + m - 1" by simp
  finally have "j * m < n" using assms(1) by simp
  then show ?thesis using j(1) assms(1) by simp
qed

section \<open>The whole of \<open>init_batch\<close>\<close>

lemma chosen_consecutive:
  assumes "batch_wf b" "ids_ok b n_seq_max" "\<forall>i < b_n_tokens b. seqs b i = [q i]"
    and "al_n_tokens al = b_n_tokens b" "al_seq_set al = map (\<lambda>i. set (seqs b i)) [0..<b_n_tokens b]" "al_seq_id al = in_seq_id b"
  shows "\<exists>a m. take k (chosen n_ubatch True al) = map (\<lambda>j. {a + j}) [0..<m]"
proof -
  have "al_seq_set al ! i = {q i} \<and> al_seq_id al ! i ! 0 = int (q i)" if i: "i < b_n_tokens b" for i
  proof -
    have "0 \<le> in_seq_id b ! i ! 0" using seqs_ok(5)[OF assms(1) i assms(2), of 0] seqs_ok(2)[OF assms(1) i] assms(3) i by simp
    then show ?thesis using seqs_ok(3)[OF assms(1) i] assms(3,5,6) i by simp
  qed
  then have "\<forall>i \<in> set [0..<al_n_tokens al]. al_seq_set al ! i = {q i} \<and> al_seq_id al ! i ! 0 = int (q i)" using assms(4) by simp
  from choose_sets_consecutive[OF this, of "[]" 0 0 "-1" n_ubatch] obtain a m where "chosen n_ubatch True al = map (\<lambda>j. {a + j}) [0..<m]" by auto
  then have "take k (chosen n_ubatch True al) = map (\<lambda>j. {a + j}) [0..<min k m]"
    by (cases "k \<le> m") (simp_all add: take_map min_def)
  then show ?thesis by blast
qed

lemma equal_ubatches_ok:
  assumes wf: "batch_wf b" "batch_init npe b n_vocab memory n_embd n_seq_max oa = Inr al" "0 < n_seq_max" "0 < npe"
    and kv: "kv_fits kv n_seq_max" "1 < kv_n_stream kv" and pos: "\<forall>i < b_n_tokens b. 0 \<le> al_pos al ! i" and cpl: "\<not> al_has_cpl al"
  shows "\<exists>ubs al'. split_loop (Suc (b_n_tokens b)) (kv_split (kv_n_stream kv) n_ubatch) al = Some (Inr (ubs, al')) \<and>
    al_n_used al' = b_n_tokens b \<and> al_n_tokens al' = b_n_tokens b \<and> sum_list (map ub_n_tokens ubs) = b_n_tokens b \<and>
    (\<forall>ub \<in> set (map llama_ubatch.truncate ubs). \<exists>n k. ubatch_ok kv ub n k)"
proof -
  note r = accepted_ready[OF wf(1,2)]
  have k: "kv_split (kv_n_stream kv) n_ubatch = split_equal n_ubatch True 0" using kv(2) by (auto simp: kv_split_def)
  obtain sels where sels: "split_loop (Suc (b_n_tokens b)) (split_equal n_ubatch True 0) al =
      Some (Inr (map (\<lambda>sel. fst (ubatch_add sel al)) sels, split_state al (concat (map fst sels))))"
      "distinct (concat (map fst sels))" "set (concat (map fst sels)) = {..<b_n_tokens b}"
      "\<forall>k < length sels. \<exists>Ss r. equal_ok n_ubatch True 0 (split_state al (concat (map fst (take k sels)))) \<and>
         equal_selection n_ubatch True 0 (split_state al (concat (map fst (take k sels)))) Ss r \<and>
         sels ! k = (concat (prefixes (split_state al (concat (map fst (take k sels)))) Ss (\<lambda>_. r)), length Ss, True)"
    using equal_loop_sels[OF wf(1,2), of True 0 n_ubatch] cpl by auto
  define q where "q i = hd (seqs b i)" for i
  have q: "\<forall>i < b_n_tokens b. seqs b i = [q i]"
  proof (intro allI impI)
    fix i assume i: "i < b_n_tokens b"
    have "seqs b i \<noteq> []" "\<not> 1 < length (seqs b i)" using seqs_ok(1)[OF wf(1) i] cpl i unfolding r(11) by blast+
    then show "seqs b i = [q i]" by (cases "seqs b i") (auto simp: q_def)
  qed
  have pos': "\<forall>i < b_n_tokens b. 0 \<le> in_pos b memory ! i" using pos unfolding r(1) by simp
  have ok: "\<exists>n k. ubatch_ok kv (llama_ubatch.truncate (fst (ubatch_add sel al))) n k" if sel: "sel \<in> set sels" for sel
  proof -
    obtain j where "j < length sels" "sels ! j = sel" using sel unfolding in_set_conv_nth by blast
    define A where "A = split_state al (concat (map fst (take j sels)))"
    obtain Ss rr where e: "equal_ok n_ubatch True 0 A" "equal_selection n_ubatch True 0 A Ss rr"
        "sel = (concat (prefixes A Ss (\<lambda>_. rr)), length Ss, True)"
      using sels(4) \<open>j < length sels\<close> \<open>sels ! j = sel\<close> unfolding A_def by blast
    have A: "al_ok A" "al_n_tokens A = b_n_tokens b" "al_seq_set A = map (\<lambda>i. set (seqs b i)) [0..<b_n_tokens b]" "al_seq_id A = in_seq_id b"
      using e(1) unfolding A_def r(1) by (simp_all add: equal_ok_def in_order_def)
    have u: "unused A \<subseteq> {..<b_n_tokens b}" using A(2) by (auto simp: unused_def)
    obtain a m where c: "Ss = map (\<lambda>j. {a + j}) [0..<m]"
      using e(2) chosen_consecutive[OF wf(1) r(9) q A(2-4)] unfolding equal_selection_def by metis
    have t: "takes A Ss rr" using e(2) unfolding equal_selection_def by blast
    have s: "\<forall>i < b_n_tokens b. seqs b i = [q i] \<and> al_seq_set A ! i = {q i}" using q A(3) by simp
    have "ubatch_ok kv (llama_ubatch.truncate (fst (ubatch_add (concat (prefixes A Ss (\<lambda>_. rr)), m, True) al))) m rr"
      unfolding r(1) by (rule equal_ubatch_ok[OF wf(1) r(9) wf(3,4) kv pos' t A(1) u s c])
    then show ?thesis unfolding e(3) using c by auto
  qed
  have n: "length (concat (map fst sels)) = b_n_tokens b" using distinct_card[OF sels(2)] unfolding sels(3) by simp
  have "sum_list (map ub_n_tokens (map (\<lambda>sel. fst (ubatch_add sel al)) sels)) = b_n_tokens b"
    using n by (simp add: o_def ubatch_add_state length_concat)
  then show ?thesis unfolding k sels(1) using n r(3,10) ok by (intro exI conjI) (rule refl | auto)+
qed

lemma simple_ubatches_ok:
  assumes wf: "batch_wf b" "batch_init npe b n_vocab memory n_embd n_seq_max oa = Inr al" "0 < n_seq_max" "0 < npe"
    and kv: "kv_fits kv n_seq_max" "kv_n_stream kv = 1" and pos: "\<forall>i < b_n_tokens b. 0 \<le> al_pos al ! i"
  shows "\<exists>ubs al'. split_loop (Suc (b_n_tokens b)) (kv_split (kv_n_stream kv) n_ubatch) al = Some (Inr (ubs, al')) \<and>
    al_n_used al' = b_n_tokens b \<and> al_n_tokens al' = b_n_tokens b \<and> sum_list (map ub_n_tokens ubs) = b_n_tokens b \<and>
    (\<forall>ub \<in> set (map llama_ubatch.truncate ubs). \<exists>n k. ubatch_ok kv ub n k)"
proof -
  note r = accepted_ready[OF wf(1,2)]
  have "unused al = {..<al_n_tokens al}" using r(3,8) by simp
  note l = simple_split_loop[OF r(5,7) this, of n_ubatch, unfolded r(3)]
  let ?cs = "chunks (max 1 n_ubatch) (b_n_tokens b)"
  have pos': "\<forall>i < b_n_tokens b. 0 \<le> in_pos b memory ! i" using pos unfolding r(1) by simp
  have ok: "\<exists>n k. ubatch_ok kv (llama_ubatch.truncate (fst (ubatch_add (idxs, length idxs, False) al))) n k" if "idxs \<in> set ?cs" for idxs
  proof -
    have "set idxs \<subseteq> {..<b_n_tokens b}" using that l(2) by (metis UN_upper lessThan_atLeast0 set_concat set_upt)
    moreover have "idxs \<noteq> []" using that by (rule chunk_nonempty[rotated]) simp
    ultimately show ?thesis unfolding r(1) using simple_ubatch_ok[OF wf(1) r(9) wf(3) _ wf(4) kv pos'] by blast
  qed
  have "sum_list (map ub_n_tokens (map (\<lambda>idxs. fst (ubatch_add (idxs, length idxs, False) al)) ?cs)) = length (concat ?cs)"
    by (simp add: o_def ubatch_add_state length_concat)
  then have n: "sum_list (map ub_n_tokens (map (\<lambda>idxs. fst (ubatch_add (idxs, length idxs, False) al)) ?cs)) = b_n_tokens b"
    unfolding l(2) by simp
  have k: "kv_n_stream kv = Suc 0" using kv(2) by simp
  show ?thesis unfolding k l(1) using n r(3,10) ok by (intro exI conjI) (rule refl | auto)+
qed

text \<open>The ubatches of selections that deal every token of the batch to exactly one of them.\<close>

definition deals :: "llama_batch \<Rightarrow> llama_batch_allocr \<Rightarrow> llama_ubatch_full list \<Rightarrow> bool" where
  "deals b al ubs \<longleftrightarrow> (\<exists>sels. ubs = map (\<lambda>sel. fst (ubatch_add sel al)) sels \<and> distinct (concat (map fst sels)) \<and>
     set (concat (map fst sels)) = {..<b_n_tokens b})"

lemma kv_split_deals:
  assumes "batch_wf b" "batch_init npe b n_vocab memory n_embd n_seq_max output_all = Inr al"
    and "0 < n_stream" "\<not> (1 < n_stream \<and> al_has_cpl al)" "split_loop (Suc (b_n_tokens b)) (kv_split n_stream n_ubatch) al = Some (Inr (ubs, al'))"
  shows "deals b al ubs"
proof (cases "n_stream = 1")
  case True
  note c = consecutive_ubatches[OF assms(1,2), of n_ubatch]
  let ?sels = "map (\<lambda>idxs. (idxs, length idxs, False)) (chunks (max 1 n_ubatch) (b_n_tokens b))"
  have "ubs = map (\<lambda>sel. fst (ubatch_add sel al)) ?sels" using conjunct2[OF c] assms(5) True by (simp add: o_def)
  moreover have "concat (map fst ?sels) = [0..<b_n_tokens b]" using conjunct1[OF c] by (simp add: o_def)
  ultimately show ?thesis unfolding deals_def by (intro exI[of _ ?sels]) auto
next
  case False
  then have k: "kv_split n_stream n_ubatch = split_equal n_ubatch True 0" "\<not> (True \<and> al_has_cpl al)" using assms(3,4) by (auto simp: kv_split_def)
  obtain sels where sels: "split_loop (Suc (b_n_tokens b)) (split_equal n_ubatch True 0) al =
      Some (Inr (map (\<lambda>sel. fst (ubatch_add sel al)) sels, split_state al (concat (map fst sels))))"
      "distinct (concat (map fst sels))" "set (concat (map fst sels)) = {..<b_n_tokens b}"
    using equal_loop_sels[OF assms(1,2) k(2), of 0 n_ubatch] by blast
  have "ubs = map (\<lambda>sel. fst (ubatch_add sel al)) sels" using sels(1) assms(5) unfolding k(1) by simp
  then show ?thesis using sels(2,3) unfolding deals_def by blast
qed

text \<open>C13: \<open>init_batch\<close> on an accepted batch with no negative positions whose sequences the cache knows, for a cache with cells of its own,
  without a sliding window and without sparse eviction: with several streams and coupled sequences it fails at once. Otherwise
  it returns without a failed assertion and leaves the cells as they were, with all tokens used; when it succeeds its ubatches are
  made of selections that deal every token of the batch to exactly one of them, there is one slot per ubatch, and writing the ubatches
  to their slots in turn succeeds.\<close>

theorem init_batch_places:
  assumes "batch_wf b" "batch_init npe b n_vocab memory n_embd n_seq_max output_all = Inr al" "0 < n_seq_max" "0 < npe"
    and "kv_fits kv n_seq_max" "kv_other kv = None" "kv_swa_type kv = SWA_NONE" "\<forall>i < b_n_tokens b. 0 \<le> al_pos al ! i"
  shows "if 1 < kv_n_stream kv \<and> al_has_cpl al then kv_init_batch srt False n_ubatch al kv = Some (Inr (None, al, kv))
    else \<exists>res al' kv'. kv_init_batch srt False n_ubatch al kv = Some (Inr (res, al', kv')) \<and>
      al_n_used al' = b_n_tokens b \<and> kv_v_cells kv' = kv_v_cells kv \<and>
      (\<forall>sis ubs. res = Some (sis, ubs) \<longrightarrow> length sis = length ubs \<and> sum_list (map ub_n_tokens ubs) = b_n_tokens b \<and> deals b al ubs \<and>
         (\<exists>kv''. apply_slots sis (map llama_ubatch.truncate ubs) kv = Inr kv''))"
proof (cases "1 < kv_n_stream kv \<and> al_has_cpl al")
  case True
  note r = accepted_ready[OF assms(1,2)]
  have "split_equal n_ubatch True 0 al = Inr (None, al)" using True by (simp add: split_equal_def select_equal_def add_selection_def)
  then have l: "split_loop (Suc (b_n_tokens b)) (kv_split (kv_n_stream kv) n_ubatch) al = Some (Inr ([], al))" using True by (simp add: kv_split_def)
  have "kv_init_batch srt False n_ubatch al kv = Some (Inr (None, al, kv))"
    unfolding kv_init_batch_def Let_def r(2,3) l using r(3,4,10) by simp
  then show ?thesis using True by simp
next
  case False
  note r = accepted_ready[OF assms(1,2)]
  have wf: "kv_wf kv" "0 < kv_n_stream kv" using assms(5) by (auto simp: kv_fits_def)
  obtain ubs al' where l: "split_loop (Suc (b_n_tokens b)) (kv_split (kv_n_stream kv) n_ubatch) al = Some (Inr (ubs, al'))"
      "al_n_used al' = b_n_tokens b" "al_n_tokens al' = b_n_tokens b" "sum_list (map ub_n_tokens ubs) = b_n_tokens b"
      "\<forall>ub \<in> set (map llama_ubatch.truncate ubs). \<exists>n k. ubatch_ok kv ub n k"
    using equal_ubatches_ok[OF assms(1-5) _ assms(8)] simple_ubatches_ok[OF assms(1-5) _ assms(8)] False wf(2)
    by (cases "kv_n_stream kv = 1") force+
  have "map llama_ubatch.truncate ubs \<noteq> []" using l(4) r(4) by auto
  from prepare_result[OF wf(1) assms(6,7) this l(5), of srt] obtain sis kv' where
    p: "prepare srt False (map llama_ubatch.truncate ubs) kv = Some (Inr (sis, kv'))" "kv_v_cells kv' = kv_v_cells kv"
      "sis \<noteq> [] \<longrightarrow> length sis = length ubs \<and> (\<exists>kv''. apply_slots sis (map llama_ubatch.truncate ubs) kv = Inr kv'')" by auto
  have "kv_init_batch srt False n_ubatch al kv = Some (Inr (if sis = [] then None else Some (sis, ubs), al', kv'))"
    unfolding kv_init_batch_def Let_def r(2,3) l(1) using l(2,3) p(1) by simp
  then show ?thesis unfolding if_not_P[OF False] using l(2,4) p(2,3) kv_split_deals[OF assms(1,2) wf(2) False l(1)] by simp
qed

section \<open>Ubatches larger than the limit\<close>

lemma choose_singletons:
  assumes "\<forall>i < n. al_seq_set al ! i = {i} \<and> al_seq_id al ! i ! 0 = int i \<and> \<not> al_used al ! i"
  shows "m \<le> n \<Longrightarrow> m \<le> n_ubatch \<Longrightarrow>
    choose_sets n_ubatch True al [m..<n] (map (\<lambda>j. {j}) [0..<m]) (int m - 1) = map (\<lambda>j. {j}) [0..<min n (Suc n_ubatch)]"
proof (induction "n - m" arbitrary: m)
  case 0
  then show ?case by (simp add: min_def)
next
  case (Suc d)
  then have m: "m < n" by simp
  have i: "al_seq_set al ! m = {m}" "al_seq_id al ! m ! 0 = int m" "\<not> al_used al ! m" using assms m by auto
  have e: "map (\<lambda>j. {j}) [0..<m] @ [{m}] = map (\<lambda>j. {j}) [0..<Suc m]" by simp
  have step: "choose_sets n_ubatch True al (m # [Suc m..<n]) (map (\<lambda>j. {j}) [0..<m]) (int m - 1) =
      (if Suc m > n_ubatch then map (\<lambda>j. {j}) [0..<Suc m] else choose_sets n_ubatch True al [Suc m..<n] (map (\<lambda>j. {j}) [0..<Suc m]) (int m))"
    using i by (auto simp: Let_def list_all_iff)
  show ?case
  proof (cases "Suc m > n_ubatch")
    case True
    then have "min n (Suc n_ubatch) = Suc m" using m Suc.prems(2) by auto
    then show ?thesis unfolding upt_conv_Cons[OF m] step if_P[OF True] by simp
  next
    case False
    then show ?thesis using Suc.hyps(1)[of "Suc m"] Suc.hyps(2) m unfolding upt_conv_Cons[OF m] step by simp
  qed
qed

text \<open>C39: the limit \<open>n_ubatch\<close> on the tokens of a ubatch is exceeded by one: of an accepted batch with more than \<open>n_ubatch\<close> tokens, each in
  its own sequence, the equal split of the cache takes \<open>n_ubatch + 1\<close> tokens at once.\<close>

theorem equal_split_exceeds:
  assumes "batch_wf b" "batch_init npe b n_vocab memory n_embd n_seq_max output_all = Inr al"
    and "\<forall>i < b_n_tokens b. seqs b i = [i]" "n_ubatch < b_n_tokens b"
  shows "\<exists>ub al'. split_equal n_ubatch True 0 al = Inr (Some ub, al') \<and> ub_n_tokens ub = n_ubatch + 1"
proof -
  note r = accepted_ready[OF assms(1,2)]
  have cpl: "\<not> al_has_cpl al" unfolding r(11) using assms(3) by simp
  have ok: "equal_ok n_ubatch True 0 al" using cpl r(6) by (simp add: equal_ok_def)
  have ne: "unused al \<noteq> {}" using r(4,8) by auto
  from select_equal_some[OF ok ne] obtain Ss q where e: "equal_selection n_ubatch True 0 al Ss q" by blast
  have "al_seq_set al ! i = {i} \<and> al_seq_id al ! i ! 0 = int i \<and> \<not> al_used al ! i" if i: "i < b_n_tokens b" for i
  proof -
    have "0 \<le> in_seq_id b ! i ! 0" using seqs_ok(5)[OF assms(1) i r(9), of 0] seqs_ok(2)[OF assms(1) i] assms(3) i by simp
    then show ?thesis using seqs_ok(3)[OF assms(1) i] assms(3) i unfolding r(1) by simp
  qed
  then have "chosen n_ubatch True al = map (\<lambda>j. {j}) [0..<Suc n_ubatch]"
    using choose_singletons[of "b_n_tokens b" al 0 n_ubatch] r(3) unfolding min.absorb2[OF Suc_leI[OF assms(4)]] by simp
  then have Ss: "Ss = map (\<lambda>j. {j}) [0..<Suc n_ubatch]" using e unfolding equal_selection_def by metis
  have t: "takes al Ss q" "select_equal n_ubatch True 0 al =
      Inr (Some (concat (prefixes al Ss (\<lambda>_. q)), length Ss, True), mark_used (concat (prefixes al Ss (\<lambda>_. q))) al)"
    using e unfolding equal_selection_def by blast+
  have "set (left al (Ss ! 0)) \<subseteq> {0}"
    unfolding left_props(3) r(8) Ss using assms(3) unfolding r(1) by (auto simp: nth_append)
  then have "length (left al (Ss ! 0)) \<le> 1" using left_props(2)[of al "Ss ! 0"] card_mono[of "{0}" "set (left al (Ss ! 0))"] by (simp add: distinct_card)
  moreover have "q \<le> length (left al (Ss ! 0))" "0 < q" using t(1) Ss unfolding takes_def by auto
  ultimately have q: "q = 1" by linarith
  have "\<forall>xs \<in> set (prefixes al Ss (\<lambda>_. q)). length xs = q" using t(1) by (auto simp: prefixes_def takes_def min_def)
  then have "length (concat (prefixes al Ss (\<lambda>_. q))) = n_ubatch + 1" using concat_equal(1) Ss q by fastforce
  then show ?thesis unfolding split_equal_def t(2) sum.case
    using add_selection_some[of "(concat (prefixes al Ss (\<lambda>_. q)), length Ss, True)" al] by (simp add: ubatch_add_state)
qed

section \<open>Concrete runs\<close>

text \<open>The batch of two sequences, its allocator, and caches with one and two streams.\<close>

definition al_two :: llama_batch_allocr where
  "al_two = split_reset (filled 1 b_two None 1 2 False)"

lemma al_two_ok: "batch_init 1 b_two 10 None 1 2 False = Inr al_two" "\<not> al_has_cpl al_two" "\<forall>i < b_n_tokens b_two. 0 \<le> al_pos al_two ! i"
proof -
  show "batch_init 1 b_two 10 None 1 2 False = Inr al_two" unfolding al_two_def by (rule b_two_ok)
  show "\<not> al_has_cpl al_two" unfolding al_two_def split_reset_simps filled_simps b_two_facts(2) using b_two_facts(5) by simp
  show "\<forall>i < b_n_tokens b_two. 0 \<le> al_pos al_two ! i"
    unfolding al_two_def split_reset_simps filled_simps b_two_facts(2,6) by (simp add: less_2_cases_iff)
qed

theorem consecutive_ubatches_witness:
  "split_loop 3 (kv_split 1 1) al_two = Some (Inr (map (\<lambda>idxs. fst (ubatch_add (idxs, length idxs, False) al_two)) [[0], [1]], split_state al_two [0, 1]))"
proof -
  have "Suc (b_n_tokens b_two) = 3" "chunks (max 1 1) (b_n_tokens b_two) = [[0], [1]]" "[0..<b_n_tokens b_two] = [0, 1]"
    by (simp_all add: b_two_facts(2) chunks_def upt_rec)
  with consecutive_ubatches[OF b_two_facts(1) al_two_ok(1), of 1] show ?thesis by (simp only:)
qed

theorem equal_ubatches_witness:
  "\<exists>sels. split_loop 3 (split_equal 4 True 2) al_two = Some (Inr (map (\<lambda>sel. fst (ubatch_add sel al_two)) sels, split_state al_two (concat (map fst sels)))) \<and>
    distinct (concat (map fst sels)) \<and> set (concat (map fst sels)) = {..<2}"
proof -
  have "\<not> (True \<and> al_has_cpl al_two)" "2 = (0 :: nat) \<or> 2 < (4 :: nat)" using al_two_ok(2) by auto
  from equal_ubatches[OF b_two_facts(1) al_two_ok(1) this] show ?thesis
    unfolding b_two_facts(2) by (elim exE conjE) (intro exI conjI, simp_all only: eval_nat_numeral)
qed

theorem equal_split_exceeds_witness: "\<exists>ub al'. split_equal 1 True 0 al_two = Inr (Some ub, al') \<and> ub_n_tokens ub = 2"
  using equal_split_exceeds[OF b_two_facts(1) al_two_ok(1), of 1] b_two_facts(2,5) by (simp add: numeral_2_eq_2)

theorem init_batch_places_witness:
  "\<exists>res al' kv'. kv_init_batch (sort_key fst) False 1 al_two kv_two_streams = Some (Inr (res, al', kv')) \<and> al_n_used al' = 2"
proof -
  have "kv_fits kv_two_streams 2" by (simp add: kv_fits_def upt_rec)
  then show ?thesis
    using init_batch_places[OF b_two_facts(1) al_two_ok(1) _ _ _ _ _ al_two_ok(3), of kv_two_streams "sort_key fst" 1] al_two_ok(2)
    unfolding b_two_facts(2) by (simp only: kv_two_streams_simps if_False simp_thms) force
qed

end
