(* ===== verification/KvContext.thy ===== *)
theory KvContext
  imports KvDryRun KvInitBatch
begin

text \<open>
  The contexts that a cache hands out, which apply an update or a batch ubatch by ubatch (\<open>llama_kv_cache_context\<close> of
  \<open>engine/src/llama-kv-cache.cpp\<close>), and the statuses they have (\<open>engine/src/llama-memory.cpp\<close>); with the lemmas that a slot
  still fits the cache when it is written later.
\<close>

section \<open>Statuses and contexts\<close>

datatype llama_memory_status = STATUS_SUCCESS | STATUS_NO_UPDATE | STATUS_FAILED_PREPARE | STATUS_FAILED_COMPUTE

fun llama_memory_status_is_fail :: "llama_memory_status \<Rightarrow> bool" where
  "llama_memory_status_is_fail STATUS_SUCCESS = False"
| "llama_memory_status_is_fail STATUS_NO_UPDATE = False"
| "llama_memory_status_is_fail STATUS_FAILED_PREPARE = True"
| "llama_memory_status_is_fail STATUS_FAILED_COMPUTE = True"

definition llama_memory_status_combine :: "llama_memory_status \<Rightarrow> llama_memory_status \<Rightarrow> llama_memory_status" where
  "llama_memory_status_combine s0 s1 =
     (if s0 = STATUS_FAILED_PREPARE \<or> s0 = STATUS_FAILED_COMPUTE then s0
      else if s1 = STATUS_FAILED_PREPARE \<or> s1 = STATUS_FAILED_COMPUTE then s1
      else if s0 = STATUS_SUCCESS \<or> s1 = STATUS_SUCCESS then STATUS_SUCCESS else STATUS_NO_UPDATE)"

text \<open>A context of a single cache, without the cache it points to. The stream copies of an update only move tensors.\<close>

record kv_context =
  kc_status :: llama_memory_status
  kc_do_shift :: bool
  kc_sc_info :: "nat list \<times> nat list"
  kc_sinfos :: "slot_info list"
  kc_ubatches :: "llama_ubatch_full list"
  kc_i_cur :: nat
  kc_n_kv :: nat

definition context_status :: "llama_memory_status \<Rightarrow> kv_context" where
  "context_status status = \<lparr>kc_status = status, kc_do_shift = False, kc_sc_info = ([], []), kc_sinfos = [], kc_ubatches = [], kc_i_cur = 0, kc_n_kv = 0\<rparr>"

definition context_full :: "llama_kv_cache \<Rightarrow> kv_context" where
  "context_full kv =
     (context_status STATUS_SUCCESS)\<lparr>kc_n_kv := kv_get_size kv,
       kc_sinfos := [\<lparr>si_s0 = 0, si_s1 = kv_n_stream kv - 1, si_strm = [0..<kv_n_stream kv], si_idxs = replicate (kv_n_stream kv) [0]\<rparr>]\<rparr>"

definition context_update :: "bool \<Rightarrow> nat list \<times> nat list \<Rightarrow> kv_context" where
  "context_update do_shift sc_info =
     (context_status (if \<not> do_shift \<and> fst sc_info = [] then STATUS_NO_UPDATE else STATUS_SUCCESS))\<lparr>kc_do_shift := do_shift, kc_sc_info := sc_info\<rparr>"

definition context_batch :: "slot_info list \<Rightarrow> llama_ubatch_full list \<Rightarrow> kv_context" where
  "context_batch sinfos ubatches = (context_status STATUS_SUCCESS)\<lparr>kc_sinfos := sinfos, kc_ubatches := ubatches\<rparr>"

definition context_next :: "kv_context \<Rightarrow> err + bool \<times> kv_context" where
  "context_next ctx =
     (if kc_status ctx \<noteq> STATUS_SUCCESS then Inl Assert_failed
      else let ctx = ctx\<lparr>kc_i_cur := kc_i_cur ctx + 1\<rparr> in Inr (kc_i_cur ctx < length (kc_ubatches ctx), ctx))"

text \<open>\<open>apply\<close>, with what \<open>update\<close> needs of the model and the graph. An index out of range is an error.\<close>

record update_env =
  up_can_shift :: bool
  up_rope :: bool
  up_graph_ok :: bool

definition context_apply :: "update_env \<Rightarrow> kv_context \<Rightarrow> llama_kv_cache \<Rightarrow> err + kv_context \<times> llama_kv_cache" where
  "context_apply up ctx kv =
     (if llama_memory_status_is_fail (kc_status ctx) then Inl Assert_failed
      else if kc_ubatches ctx = [] then
        (case kv_update (up_can_shift up) (up_rope up) (up_graph_ok up) (kc_do_shift ctx) kv of Inl e \<Rightarrow> Inl e | Inr (_, kv) \<Rightarrow> Inr (ctx, kv))
      else if kc_i_cur ctx < length (kc_ubatches ctx) \<and> kc_i_cur ctx < length (kc_sinfos ctx) then
        let sinfo = kc_sinfos ctx ! kc_i_cur ctx in
        (case apply_ubatch sinfo (llama_ubatch.truncate (kc_ubatches ctx ! kc_i_cur ctx)) kv of
           Inl e \<Rightarrow> Inl e
         | Inr kv \<Rightarrow> Inr (ctx\<lparr>kc_n_kv := get_n_kv sinfo kv\<rparr>, kv))
      else Inl Out_of_range)"

section \<open>What no operation changes\<close>

text \<open>The configuration \<open>kv_conf\<close>, which says whether a slot fits: the streams, the table of the sequences and the size.\<close>

lemma set_stream_conf:
  assumes "kv_wf kv" "st < kv_n_stream kv" "cells_size c = kv_get_size kv"
  shows "kv_conf (kv_set_head st h (kv_set_cells st c kv)) = kv_conf kv" "kv_conf (kv_set_cells st c kv) = kv_conf kv"
proof -
  have "kv_get_size (kv_set_cells st c kv) = kv_get_size kv" by (rule kv_get_size_set_cells) (use assms kv_wf_lens in simp_all)
  moreover have "kv_get_size (kv_set_head st h x) = kv_get_size x" for x by (simp add: kv_get_size_def)
  ultimately show "kv_conf (kv_set_head st h (kv_set_cells st c kv)) = kv_conf kv" "kv_conf (kv_set_cells st c kv) = kv_conf kv"
    by (simp_all add: kv_conf_def) (simp_all add: kv_set_head_def kv_set_cells_def)
qed

lemma kv_conf_streams:
  assumes "kv_wf kv" "kv_same_config kv kv'" "\<And>t. t < kv_n_stream kv \<Longrightarrow> cells_size (kv_cells kv' t) = kv_get_size kv"
  shows "kv_conf kv' = kv_conf kv"
proof -
  have "kv_seq_to_stream kv ! 0 < kv_n_stream kv" using kv_wf_stream[OF assms(1), of 0] assms(1) by (simp add: kv_wf_def)
  then have "kv_get_size kv' = kv_get_size kv" using assms(3) kv_same_config_simps(2)[OF assms(2)] by (simp add: kv_get_size_def)
  then show ?thesis by (rule same_config_conf[OF assms(2)])
qed

lemma clear_conf: "kv_wf kv \<Longrightarrow> kv_conf (kv_clear kv) = kv_conf kv"
  using kv_clear_fold[of kv "kv_n_stream kv"] kv_wf_size[of kv] by (intro kv_conf_streams) (simp_all add: kv_clear_def cells_reset_def cells_size_def)

lemma rm_conf:
  assumes "kv_wf kv" "kv_seq_rm s p0 p1 kv = Inr (b, kv')"
  shows "kv_conf kv' = kv_conf kv"
proof (cases "0 \<le> s")
  case True
  then show ?thesis using seq_rm_below[of kv "nat s" p0 p1 b kv'] assms by (simp add: kv_below_def)
next
  case False
  then have "kv' = kv \<or> (\<exists>a c. kv' = fold (rm_stream (rm_any_body a c)) [0..<kv_n_stream kv] kv)"
    using assms(2) by (auto simp: kv_seq_rm_def Let_def seq_id_ok_def split: if_splits)
  moreover have "kv_conf (fold (rm_stream (rm_any_body a c)) [0..<kv_n_stream kv] kv) = kv_conf kv" for a c
    using rm_all.fold_rm_stream[OF assms(1) order_refl, of a c] rm_all.sweep_size[OF kv_wf_cells[OF assms(1)], of _ a c] kv_wf_size[OF assms(1)]
    by (intro kv_conf_streams[OF assms(1)]) simp_all
  ultimately show ?thesis by auto
qed

lemma keep_conf:
  assumes "kv_wf kv" "kv_seq_keep s kv = Inr kv'"
  shows "kv_conf kv' = kv_conf kv"
proof (cases "kv' = kv")
  case False
  then obtain st where "st < kv_n_stream kv" "kv' = rm_stream (seq_keep_body (nat s)) st kv"
    using assms(2) kv_wf_stream[OF assms(1)] by (auto simp: kv_seq_keep_def seq_id_ok_def split: if_splits)
  then show ?thesis using same_config_conf[OF keep.rm_stream_config] keep.rm_stream_size[OF assms(1)] by simp
qed simp

lemma add_conf:
  assumes "kv_wf kv" "kv_seq_add s p0 p1 d kv = Inr kv'"
  shows "kv_conf kv' = kv_conf kv"
proof (cases "kv' = kv")
  case False
  let ?st = "kv_seq_to_stream kv ! nat s" and ?b = "seq_add_body (nat s) (clamp_p0 p0) (clamp_p1 p1) d"
  have r: "\<exists>h. kv' = kv_set_head ?st h (kv_set_cells ?st (fst (sweep_cells ?b (kv_cells kv ?st))) kv)" "nat s < length (kv_seq_to_stream kv)"
    using assms(2) False by (auto simp: kv_seq_add_def Let_def seq_id_ok_def split_beta split: if_splits)
  note st = kv_wf_stream[OF assms(1) r(2)]
  show ?thesis using r(1) set_stream_conf(1)[OF assms(1) st] shift.sweep_size[OF kv_wf_cells[OF assms(1) st]] kv_wf_size[OF assms(1) st] by auto
qed simp

lemma div_conf:
  assumes "kv_wf kv" "kv_seq_div s p0 p1 d kv = Inr kv'" "0 < d"
  shows "kv_conf kv' = kv_conf kv"
proof (cases "kv' = kv")
  case False
  let ?st = "kv_seq_to_stream kv ! nat s" and ?b = "seq_div_body (nat s) (clamp_p0 p0) (clamp_p1 p1) d"
  have r: "kv' = kv_set_cells ?st (fst (sweep_cells ?b (kv_cells kv ?st))) kv" "nat s < length (kv_seq_to_stream kv)"
    using assms(2) False by (auto simp: kv_seq_div_def Let_def seq_id_ok_def split: if_splits)
  note st = kv_wf_stream[OF assms(1) r(2)]
  show ?thesis unfolding r(1)
    using set_stream_conf(2)[OF assms(1) st] cell_sweep.sweep_size[OF seq_div_sweep[OF assms(3)] kv_wf_cells[OF assms(1) st]] kv_wf_size[OF assms(1) st] by simp
qed simp

lemma cp_conf:
  assumes "kv_wf kv" "kv_seq_cp src dst p0 p1 kv = Inr kv'"
  shows "kv_conf kv' = kv_conf kv"
proof (cases "kv' = kv")
  case False
  let ?s0 = "kv_seq_to_stream kv ! nat src" and ?s1 = "kv_seq_to_stream kv ! nat dst"
  have ok: "seq_id_ok src kv" "seq_id_ok dst kv" using assms(2) False by (auto simp: kv_seq_cp_def split: if_splits)
  have st: "?s0 < kv_n_stream kv" "?s1 < kv_n_stream kv" using ok by (auto simp: seq_id_ok_def intro!: kv_wf_stream[OF assms(1)])
  note c0 = kv_wf_cells[OF assms(1) st(1)] kv_wf_size[OF assms(1) st(1)]
    and c1 = kv_wf_cells[OF assms(1) st(2)] kv_wf_size[OF assms(1) st(2)] and dst = kv_wf_seq_id[OF assms(1) ok(2)]
  show ?thesis
  proof (cases "?s0 = ?s1")
    case True
    then have "kv' = kv_set_cells ?s0 (fst (sweep_cells (seq_cp_body (nat src) (nat dst) (clamp_p0 p0) (clamp_p1 p1)) (kv_cells kv ?s0))) kv"
      using assms(2) False by (auto simp: kv_seq_cp_def Let_def split: if_splits)
    then show ?thesis using set_stream_conf(2)[OF assms(1) st(1)] cell_sweep.sweep_size[OF seq_cp_sweep[OF dst] c0(1)] c0(2) by simp
  next
    case False
    let ?c = "fold (cp_cell (kv_cells kv ?s0) (nat src) (nat dst)) [0..<cells_size (kv_cells kv ?s0)] (cells_reset (kv_cells kv ?s1))"
    have r: "kv' = (kv_set_head ?s1 (kv_head kv ?s0) (kv_set_cells ?s1 ?c kv))
        \<lparr>kv_sc_ssrc := kv_sc_ssrc kv @ [?s0], kv_sc_sdst := kv_sc_sdst kv @ [?s1]\<rparr>"
      using assms(2) ok False \<open>kv' \<noteq> kv\<close> by (auto simp: kv_seq_cp_def Let_def kv_set_cells_def kv_set_head_def split: if_splits)
    have "cells_size ?c = kv_get_size kv"
      using cp_cells_fold[OF c1(1) c0(1) _ dst, of "cells_size (kv_cells kv ?s0)" "nat src"] c0(2) c1(2) by simp
    then have "kv_conf (kv_set_head ?s1 (kv_head kv ?s0) (kv_set_cells ?s1 ?c kv)) = kv_conf kv" by (rule set_stream_conf(1)[OF assms(1) st(2)])
    then show ?thesis unfolding r by (simp add: kv_conf_def kv_get_size_def)
  qed
qed simp

lemma only_cells_conf:
  assumes "kv_wf kv" "only_cells kv kv'" "\<And>t. t < kv_n_stream kv \<Longrightarrow> cells_size (kv_cells kv' t) = kv_get_size kv"
  shows "kv_conf kv' = kv_conf kv"
proof (rule kv_conf_streams[OF assms(1) _ assms(3)])
  show "kv_same_config kv kv'" using assms(2) unfolding only_cells_def kv_same_config_def by (cases kv; cases kv') simp
qed

lemma update_conf: "kv_wf kv \<Longrightarrow> kv_update cs rp gr ds kv = Inr (b, kv') \<Longrightarrow> kv_conf kv' = kv_conf kv"
  using reset_shift_fold[of kv "kv_n_stream kv"] only_cells_conf[of kv kv'] kv_wf_size[of kv]
  by (auto simp: kv_update_def split: if_splits)

lemma only_evicts_conf:
  assumes "kv_wf kv" "only_evicts n kv kv'" "\<And>t. t < kv_n_stream kv \<Longrightarrow> cells_size (kv_cells kv' t) = kv_get_size kv"
  shows "kv_conf kv' = kv_conf kv"
proof -
  note s = only_evicts_simps[OF assms(2)]
  have "kv_seq_to_stream kv ! 0 < kv_n_stream kv" using kv_wf_stream[OF assms(1), of 0] assms(1) by (simp add: kv_wf_def)
  then show ?thesis using s assms(3) by (simp add: kv_conf_def kv_get_size_def)
qed

lemma policy_sweep_conf:
  assumes "kv_wf kv"
  shows "kv_conf (snd (vitriol_policy_sweep kv)) = kv_conf kv"
proof -
  note f = policy_sweep_fold[OF assms order_refl, of "kv_floor_sc kv"]
  have "kv_conf (snd (fold (policy_sweep_step (kv_floor_sc kv)) [0..<kv_n_stream kv] (0, kv))) = kv_conf kv"
    by (rule only_evicts_conf[OF assms conjunct1[OF f]]) (use f cells_swept_size[OF kv_wf_cells[OF assms]] kv_wf_size[OF assms] in simp)
  then show ?thesis by (auto simp: vitriol_policy_sweep_def Let_def)
qed

lemma probe_finish_conf:
  assumes "kv_wf kv" "kv_probe_strm kv < kv_n_stream kv"
  shows "kv_conf (vitriol_probe_finish fmadd dec kv) = kv_conf kv"
proof (cases "kv_probe_pending kv \<and> kv_probe_out kv \<noteq> None")
  case True
  then obtain scores where sc: "kv_probe_pending kv" "kv_probe_out kv = Some scores" by blast
  let ?st = "kv_probe_strm kv"
  let ?c = "cells_scored fmadd dec scores (kv_cells kv ?st)"
  let ?kv = "(kv_set_cells ?st ?c kv)\<lparr>kv_probe_pending := False, kv_probe_out := None\<rparr>"
  note c = kv_wf_cells[OF assms] kv_wf_size[OF assms]
  have w: "kv_wf ?kv" using kv_wf_set_cells[OF assms cells_scored_wf[OF c(1)]] cells_scored_size[OF c(1)] c(2) by simp
  have s: "?st < kv_n_stream ?kv" using assms(2) by simp
  have "kv_conf (kv_set_cells ?st ?c kv) = kv_conf kv" using set_stream_conf(2)[OF assms] cells_scored_size[OF c(1)] c(2) by simp
  then have e: "kv_conf ?kv = kv_conf kv" by (simp add: kv_conf_def kv_get_size_def)
  have "kv_conf (snd (vitriol_sweep_stream ?st fl pr ?kv)) = kv_conf ?kv" for fl pr
  proof -
    have "kv_conf (kv_set_cells ?st (cells_swept fl pr (kv_cells ?kv ?st)) ?kv) = kv_conf ?kv"
      using set_stream_conf(2)[OF w s] cells_swept_size[OF kv_wf_cells[OF w s]] kv_wf_size[OF w s] by simp
    then show ?thesis unfolding sweep_stream_eq[OF w s] snd_conv by (simp add: kv_conf_def kv_get_size_def)
  qed
  then show ?thesis using sc e cells_scored_eq[OF c(1), of fmadd dec scores] by (simp add: vitriol_probe_finish_def Let_def)
qed (auto simp: vitriol_probe_finish_def split: option.splits)

text \<open>A context that was handed out can be applied: each of its slots fits the ubatch it is for.\<close>

definition context_fits :: "llama_kv_cache \<Rightarrow> kv_context \<Rightarrow> bool" where
  "context_fits kv ctx \<longleftrightarrow> kc_ubatches ctx = [] \<or> slots_fit kv (kc_sinfos ctx) (map llama_ubatch.truncate (kc_ubatches ctx))"

lemma context_fits_conf: "kv_conf a = kv_conf b \<Longrightarrow> context_fits a = context_fits b"
  by (intro ext) (simp only: context_fits_def slots_fit_conf[of a b])

lemma context_next_fits: "context_fits kv ctx \<Longrightarrow> context_next ctx = Inr (b, ctx') \<Longrightarrow> context_fits kv ctx'"
  by (auto simp: context_next_def context_fits_def Let_def split: if_splits)

lemma context_apply_keeps:
  assumes "kv_wf kv" "kv_other kv = None" "context_fits kv ctx" "context_apply up ctx kv = Inr (ctx', kv')"
  shows "kv_wf kv'" "kv_conf kv' = kv_conf kv" "context_fits kv ctx'"
proof -
  have "kv_wf kv' \<and> kv_conf kv' = kv_conf kv \<and> context_fits kv ctx'"
  proof (cases "kc_ubatches ctx = []")
    case True
    then obtain b where "kv_update (up_can_shift up) (up_rope up) (up_graph_ok up) (kc_do_shift ctx) kv = Inr (b, kv')" "ctx' = ctx"
      using assms(4) by (auto simp: context_apply_def split: if_splits sum.splits)
    then show ?thesis using kv_update_wf[OF assms(1)] update_conf[OF assms(1)] assms(3) by simp
  next
    case False
    let ?i = "kc_i_cur ctx"
    have l: "?i < length (kc_ubatches ctx)" "?i < length (kc_sinfos ctx)"
      and a: "apply_ubatch (kc_sinfos ctx ! ?i) (llama_ubatch.truncate (kc_ubatches ctx ! ?i)) kv = Inr kv'"
      and c: "ctx' = ctx\<lparr>kc_n_kv := get_n_kv (kc_sinfos ctx ! ?i) kv'\<rparr>"
      using assms(4) False by (auto simp: context_apply_def Let_def split: if_splits sum.splits)
    have "slots_fit kv (kc_sinfos ctx) (map llama_ubatch.truncate (kc_ubatches ctx))" using assms(3) False by (simp add: context_fits_def)
    from list_all2_nthD[OF this[unfolded slots_fit_def] l(2)]
    obtain n k where f: "ubatch_ok kv (llama_ubatch.truncate (kc_ubatches ctx ! ?i)) n k" "slot_ok kv (kc_sinfos ctx ! ?i) n k" using l by auto
    from apply_below(1)[OF assms(1,2) f(2) ubatch_tokens_ok[OF assms(1) f(1)] a] show ?thesis
      using assms(3) by (simp add: kv_below_def c context_fits_def)
  qed
  then show "kv_wf kv'" "kv_conf kv' = kv_conf kv" "context_fits kv ctx'" by simp_all
qed

end
