(* ===== verification/KvReach.thy ===== *)
theory KvReach
  imports KvContext
begin

text \<open>
  The state machine of all public operations of \<open>llama_kv_cache\<close>, with the invariant \<open>kv_wf\<close> for every state it reaches.
\<close>

section \<open>Splitting a batch and the dry run\<close>

text \<open>What a split does with an accepted batch, for a cache: it ends, uses every token, and its ubatches suit the cache.\<close>

definition splits_for :: "(llama_batch_allocr \<Rightarrow> batch_error + llama_ubatch_full option \<times> llama_batch_allocr) \<Rightarrow> llama_batch \<Rightarrow>
    llama_batch_allocr \<Rightarrow> llama_kv_cache \<Rightarrow> bool" where
  "splits_for split b al kv \<longleftrightarrow> (\<exists>ubs al'. split_loop (Suc (b_n_tokens b)) split al = Some (Inr (ubs, al')) \<and>
     al_n_used al' = b_n_tokens b \<and> al_n_tokens al' = b_n_tokens b \<and> ubatches_ok kv (map llama_ubatch.truncate ubs))"

lemma kv_splits_for:
  assumes "batch_wf b" "batch_init npe b n_vocab memory n_embd n_seq_max oa = Inr al" "0 < n_seq_max" "0 < npe"
    and "kv_fits kv n_seq_max" "\<forall>i < b_n_tokens b. 0 \<le> al_pos al ! i" "\<not> (1 < kv_n_stream kv \<and> al_has_cpl al)"
  shows "splits_for (kv_split (kv_n_stream kv) n_ubatch) b al kv"
proof (cases "kv_n_stream kv = 1")
  case True
  from simple_ubatches_ok[OF assms(1-5) True assms(6), of n_ubatch] show ?thesis unfolding splits_for_def ubatches_ok_def by blast
next
  case False
  then have "1 < kv_n_stream kv" "\<not> al_has_cpl al" using assms(5,7) by (auto simp: kv_fits_def)
  from equal_ubatches_ok[OF assms(1-5) this(1) assms(6) this(2), of n_ubatch] show ?thesis unfolding splits_for_def ubatches_ok_def by blast
qed

text \<open>With several streams and coupled sequences the equal split takes nothing.\<close>

lemma coupled_split: "split_equal n_ubatch True 0 al = Inr (None, al)" if "al_has_cpl al"
  using that by (simp add: split_equal_def select_equal_def add_selection_def)

text \<open>What \<open>init_batch\<close> leaves: fewer entries at most, and slots that fit its ubatches.\<close>

lemma init_batch_below:
  assumes "score_sort srt" "batch_wf b" "batch_init npe b n_vocab memory n_embd n_seq_max oa = Inr al" "0 < n_seq_max" "0 < npe"
    and "kv_fits kv n_seq_max" "kv_other kv = None" "\<forall>i < b_n_tokens b. 0 \<le> al_pos al ! i"
    and "kv_init_batch srt sparse n_ubatch al kv = Some (Inr (res, al', kv'))"
  shows "kv_below {} kv' kv" "res = Some (sis, us) \<Longrightarrow> slots_fit kv sis (map llama_ubatch.truncate us)"
proof -
  have wf: "kv_wf kv" using assms(6) by (simp add: kv_fits_def)
  note r = accepted_ready[OF assms(2,3)]
  have "kv_below {} kv' kv \<and> (res = Some (sis, us) \<longrightarrow> slots_fit kv sis (map llama_ubatch.truncate us))"
  proof (cases "1 < kv_n_stream kv \<and> al_has_cpl al")
    case True
    have "split_loop (Suc (b_n_tokens b)) (kv_split (kv_n_stream kv) n_ubatch) al = Some (Inr ([], al))"
      using True coupled_split by (simp add: kv_split_def)
    then have "kv_init_batch srt sparse n_ubatch al kv = Some (Inr (None, al, kv))"
      unfolding kv_init_batch_def Let_def r(2,3) using r(3,4,10) by simp
    then show ?thesis using wf assms(9) kv_below_refl by simp
  next
    case False
    obtain ubs al1 where l: "split_loop (Suc (b_n_tokens b)) (kv_split (kv_n_stream kv) n_ubatch) al = Some (Inr (ubs, al1))"
        "al_n_used al1 = b_n_tokens b" "al_n_tokens al1 = b_n_tokens b" "ubatches_ok kv (map llama_ubatch.truncate ubs)"
      using kv_splits_for[OF assms(2-6,8) False, of n_ubatch] unfolding splits_for_def by blast
    obtain sinfos where p: "prepare srt sparse (map llama_ubatch.truncate ubs) kv = Some (Inr (sinfos, kv'))"
        "res = (if sinfos = [] then None else Some (sinfos, ubs))"
      using assms(9) unfolding kv_init_batch_def Let_def r(2,3) l(1) using l(2,3) by (auto split: option.splits sum.splits)
    show ?thesis using prepare_below[OF assms(1) wf assms(7) l(4) p(1)] p(2) by (auto split: if_splits)
  qed
  then show "kv_below {} kv' kv" "res = Some (sis, us) \<Longrightarrow> slots_fit kv sis (map llama_ubatch.truncate us)" by simp_all
qed

section \<open>The cache as a state machine\<close>

text \<open>
  The public operations that change a cache and hand out no context. \<open>srt\<close> and \<open>fmadd\<close> are the sorting function and the float
  arithmetic of the target. \<open>apply_ubatch\<close> is given a slot that \<open>find_slot\<close> has just returned.
\<close>

inductive kv_op :: "((float32 \<times> nat) list \<Rightarrow> (float32 \<times> nat) list) \<Rightarrow>
    (float32 \<Rightarrow> float32 \<Rightarrow> float32 \<Rightarrow> float32) \<Rightarrow> llama_kv_cache \<Rightarrow> llama_kv_cache \<Rightarrow> bool"
  for srt fmadd where
  op_clear: "kv_op srt fmadd kv (kv_clear kv)"
| op_rm: "kv_seq_rm s p0 p1 kv = Inr (b, kv') \<Longrightarrow> kv_op srt fmadd kv kv'"
| op_cp: "kv_seq_cp src dst p0 p1 kv = Inr kv' \<Longrightarrow> kv_op srt fmadd kv kv'"
| op_keep: "kv_seq_keep s kv = Inr kv' \<Longrightarrow> kv_op srt fmadd kv kv'"
| op_add: "kv_seq_add s p0 p1 d kv = Inr kv' \<Longrightarrow> kv_op srt fmadd kv kv'"
| op_div: "kv_seq_div s p0 p1 d kv = Inr kv' \<Longrightarrow> 0 < d \<Longrightarrow> kv_op srt fmadd kv kv'"
| op_update: "kv_update can_shift rope graph_ok do_shift kv = Inr (b, kv') \<Longrightarrow> kv_op srt fmadd kv kv'"
| op_apply: "ubatch_ok kv ub n k \<Longrightarrow> find_slot cont ub kv = Some (Inr si) \<Longrightarrow> \<not> si_empty si \<Longrightarrow>
    kv_get_size kv < 2 ^ 32 \<Longrightarrow> apply_ubatch si ub kv = Inr kv' \<Longrightarrow> kv_op srt fmadd kv kv'"
| op_evict: "kv_op srt fmadd kv (snd (evict_sparse srt n_needed n_sinks kv))"
| op_policy_set: "kv_op srt fmadd kv (vitriol_policy_set fl pr kv)"
| op_sweep: "kv_op srt fmadd kv (snd (vitriol_policy_sweep kv))"
| op_probe_reset: "kv_op srt fmadd kv (vitriol_probe_reset kv)"
| op_probe_stream: "st < kv_n_stream kv \<Longrightarrow> kv_op srt fmadd kv (kv\<lparr>kv_probe_strm := st\<rparr>)"
| op_probe_mark: "kv_op srt fmadd kv (vitriol_probe_mark_output out n_layers kv)"
| op_probe_finish: "kv_probe_strm kv < kv_n_stream kv \<Longrightarrow> kv_op srt fmadd kv (vitriol_probe_finish fmadd dec kv)"

text \<open>
  A step of the cache with the contexts it has handed out: an operation; \<open>init_full\<close>, \<open>init_update\<close>, \<open>init_batch\<close> with an accepted batch, or
  \<open>prepare\<close> with the context its caller builds, with or without sparse eviction; and \<open>next\<close> and \<open>apply\<close> of a context, whatever has
  happened to the cache since it was handed out.
\<close>

inductive kv_step :: "((float32 \<times> nat) list \<Rightarrow> (float32 \<times> nat) list) \<Rightarrow> (float32 \<Rightarrow> float32 \<Rightarrow> float32 \<Rightarrow> float32) \<Rightarrow>
    llama_kv_cache \<Rightarrow> kv_context set \<Rightarrow> llama_kv_cache \<Rightarrow> kv_context set \<Rightarrow> bool"
  for srt fmadd where
  step_op: "kv_op srt fmadd kv kv' \<Longrightarrow> kv_step srt fmadd kv C kv' C"
| step_init_full: "kv_step srt fmadd kv C kv (insert (context_full kv) C)"
| step_init_update: "init_update kv = ((shift, sc), kv') \<Longrightarrow> kv_step srt fmadd kv C kv' (insert (context_update shift sc) C)"
| step_init_batch: "batch_wf b \<Longrightarrow> batch_init npe b n_vocab memory n_embd n_seq_max oa = Inr al \<Longrightarrow> 0 < n_seq_max \<Longrightarrow> 0 < npe \<Longrightarrow>
    n_seq_max \<le> length (kv_seq_to_stream kv) \<Longrightarrow> \<forall>i < b_n_tokens b. 0 \<le> al_pos al ! i \<Longrightarrow>
    kv_init_batch srt sparse n_ubatch al kv = Some (Inr (res, al', kv')) \<Longrightarrow>
    kv_step srt fmadd kv C kv'
      (insert (case res of None \<Rightarrow> context_status STATUS_FAILED_PREPARE | Some (sinfos, ubatches) \<Rightarrow> context_batch sinfos ubatches) C)"
| step_prepare: "ubatches_ok kv (map llama_ubatch.truncate ubatches) \<Longrightarrow>
    prepare srt sparse (map llama_ubatch.truncate ubatches) kv = Some (Inr (sinfos, kv')) \<Longrightarrow>
    kv_step srt fmadd kv C kv' (if sinfos = [] then C else insert (context_batch sinfos ubatches) C)"
| step_next: "ctx \<in> C \<Longrightarrow> context_next ctx = Inr (b, ctx') \<Longrightarrow> kv_step srt fmadd kv C kv (insert ctx' C)"
| step_apply: "ctx \<in> C \<Longrightarrow> context_apply up ctx kv = Inr (ctx', kv') \<Longrightarrow> kv_step srt fmadd kv C kv' (insert ctx' C)"

text \<open>Reachable from a cache that the constructor built over no other cache.\<close>

inductive kv_reachable :: "((float32 \<times> nat) list \<Rightarrow> (float32 \<times> nat) list) \<Rightarrow> (float32 \<Rightarrow> float32 \<Rightarrow> float32 \<Rightarrow> float32) \<Rightarrow>
    llama_kv_cache \<Rightarrow> kv_context set \<Rightarrow> bool"
  for srt fmadd where
  reach_init: "kv_init hparams None unified n n_seq n_pad n_swa swa fl pr = Inr kv \<Longrightarrow> 0 < n_seq \<Longrightarrow> n_seq \<le> LLAMA_MAX_SEQ \<Longrightarrow>
    kv_reachable srt fmadd kv {}"
| reach_step: "kv_reachable srt fmadd kv C \<Longrightarrow> kv_step srt fmadd kv C kv' C' \<Longrightarrow> kv_reachable srt fmadd kv' C'"

lemma kv_op_keeps:
  assumes "score_sort srt" "kv_op srt fmadd kv kv'" "kv_wf kv" "kv_other kv = None"
  shows "kv_wf kv' \<and> kv_conf kv' = kv_conf kv"
  using assms(2)
proof cases
  case (op_apply ub n k cont si)
  then show ?thesis
    using apply_below(1)[OF assms(3,4) slot_ok_found[OF assms(3)] ubatch_tokens_ok[OF assms(3)]] by (simp add: kv_below_def)
next
  case (op_evict n_needed n_sinks)
  then show ?thesis using evict_below[OF assms(1,3), of n_needed n_sinks] by (simp add: kv_below_def prod_eq_iff)
next
  case (op_policy_set fl pr)
  then show ?thesis using assms(3) by (simp add: vitriol_policy_set_def kv_conf_def kv_get_size_def)
next
  case op_probe_reset
  then show ?thesis using assms(3) by (simp add: vitriol_probe_reset_def kv_conf_def kv_get_size_def)
next
  case (op_probe_stream st)
  then show ?thesis using assms(3) by (simp add: kv_conf_def kv_get_size_def)
next
  case (op_probe_mark out n_layers)
  then show ?thesis using assms(3) by (simp add: vitriol_probe_mark_output_def kv_conf_def kv_get_size_def)
qed (use assms(3) in \<open>auto intro: kv_clear_wf kv_seq_rm_wf kv_seq_cp_wf kv_seq_keep_wf kv_seq_add_wf kv_seq_div_wf
        kv_update_wf policy_sweep_wf probe_finish_wf clear_conf rm_conf cp_conf keep_conf add_conf div_conf update_conf
        policy_sweep_conf probe_finish_conf\<close>)

definition kv_inv :: "llama_kv_cache \<Rightarrow> kv_context set \<Rightarrow> bool" where
  "kv_inv kv C \<longleftrightarrow> kv_wf kv \<and> kv_other kv = None \<and> 0 < kv_n_stream kv \<and>
     (1 < kv_n_stream kv \<longrightarrow> kv_seq_to_stream kv = [0..<kv_n_stream kv]) \<and> (\<forall>ctx \<in> C. context_fits kv ctx)"

lemma kv_inv_step:
  assumes "kv_inv kv C" "kv_wf kv' \<and> kv_conf kv' = kv_conf kv" "\<And>ctx. ctx \<in> C' \<Longrightarrow> ctx \<in> C \<or> context_fits kv ctx"
  shows "kv_inv kv' C'"
proof -
  note c = kv_conf_simps[OF conjunct2[OF assms(2)]]
  have "context_fits kv' ctx" if "ctx \<in> C'" for ctx
    using assms(1,3) that unfolding context_fits_conf[OF conjunct2[OF assms(2)]] kv_inv_def by blast
  then show ?thesis using assms(1,2) c(1-3) by (simp add: kv_inv_def)
qed

lemma fits_trivial [simp]: "context_fits kv (context_full kv')" "context_fits kv (context_update b sc)" "context_fits kv (context_status status)"
  by (simp_all add: context_fits_def context_full_def context_update_def context_status_def)

lemma fits_batch: "context_fits kv (context_batch sis ubs) \<longleftrightarrow> ubs = [] \<or> slots_fit kv sis (map llama_ubatch.truncate ubs)"
  by (simp add: context_fits_def context_batch_def)

lemma kv_step_inv:
  assumes "score_sort srt" "kv_step srt fmadd kv C kv' C'" "kv_inv kv C"
  shows "kv_inv kv' C'"
proof -
  have i: "kv_wf kv" "kv_other kv = None" "\<And>ctx. ctx \<in> C \<Longrightarrow> context_fits kv ctx" using assms(3) by (simp_all add: kv_inv_def)
  show ?thesis using assms(2)
  proof cases
    case step_op
    then show ?thesis using kv_inv_step[OF assms(3) kv_op_keeps[OF assms(1) _ i(1,2)]] by blast
  next
    case step_init_full
    then show ?thesis using i(1) by (intro kv_inv_step[OF assms(3)]) auto
  next
    case (step_init_update shift sc)
    then have "kv' = kv\<lparr>kv_sc_ssrc := [], kv_sc_sdst := []\<rparr>" by (simp add: init_update_def)
    then have "kv_wf kv' \<and> kv_conf kv' = kv_conf kv" using i(1) by (simp add: kv_conf_def kv_get_size_def)
    then show ?thesis using step_init_update(1) by (intro kv_inv_step[OF assms(3)]) auto
  next
    case (step_init_batch b npe n_vocab memory n_embd n_seq_max oa al sparse n_ubatch res al')
    have "kv_fits kv n_seq_max" using assms(3) step_init_batch(6) by (simp add: kv_fits_def kv_inv_def)
    note b = init_batch_below[OF assms(1) step_init_batch(2-5) this i(2) step_init_batch(7,8)]
    show ?thesis using b(1) b(2) step_init_batch(1)
      by (intro kv_inv_step[OF assms(3)]) (auto simp: kv_below_def fits_batch split: option.splits)
  next
    case (step_prepare ubatches sparse sinfos)
    note b = prepare_below[OF assms(1) i(1,2) step_prepare(2,3)]
    show ?thesis using b step_prepare(1) by (intro kv_inv_step[OF assms(3)]) (auto simp: kv_below_def fits_batch split: if_splits)
  next
    case (step_next ctx b ctx')
    then show ?thesis using i(1) context_next_fits[OF i(3)] by (intro kv_inv_step[OF assms(3)]) auto
  next
    case (step_apply ctx up ctx')
    note k = context_apply_keeps[OF i(1,2) i(3)[OF step_apply(2)] step_apply(3)]
    show ?thesis using k step_apply(1) by (intro kv_inv_step[OF assms(3)]) auto
  qed
qed

text \<open>C1: every state that a cache with cells of its own, for 1 to \<open>LLAMA_MAX_SEQ\<close> sequences, can reach through its public operations is
  well-formed: the index structures of every stream agree with its cells, all streams have one size, and every head stays within the cache.
  Among the operations are the dry run with sparse eviction, and \<open>apply\<close> of any context handed out before, at any later time and in any
  order: the slots it has saved still fit their ubatches, so it writes only cells of the cache. Of the callers it is asked that batches
  were accepted by the allocator for sequences the cache knows and have no negative positions, that the ubatches given to \<open>find_slot\<close> and
  \<open>prepare\<close> are well-formed for the cache, that divisors are positive, that the probed stream exists and that the sorting function sorts.\<close>

theorem kv_reachable_wf:
  assumes "score_sort srt" "kv_reachable srt fmadd kv C"
  shows "kv_wf kv \<and> (\<forall>ctx \<in> C. kc_ubatches ctx = [] \<or> slots_fit kv (kc_sinfos ctx) (map llama_ubatch.truncate (kc_ubatches ctx)))"
proof -
  have "kv_inv kv C" using assms(2)
  proof (induction rule: kv_reachable.induct)
    case (reach_init hparams unified n n_seq n_pad n_swa swa fl pr kv)
    have "kv_n_stream kv = (if unified then 1 else n_seq)" "kv_other kv = None"
      "kv_seq_to_stream kv = (if kv_n_stream kv > 1 then [0..<kv_n_stream kv] else replicate LLAMA_MAX_SEQ 0)"
      using reach_init(1) by (auto simp: kv_init_def Let_def split: if_splits)
    then show ?case using kv_init_wf[OF reach_init] reach_init(2) by (simp add: kv_inv_def)
  next
    case (reach_step kv C kv' C')
    then show ?case using kv_step_inv[OF assms(1)] by blast
  qed
  then show ?thesis by (simp add: kv_inv_def context_fits_def)
qed

theorem kv_reachable_wf_witness:
  "\<exists>kv. kv_init hp_text None True 4 1 1 0 SWA_NONE 1 0 = Inr kv \<and> context_apply \<lparr>up_can_shift = True, up_rope = True, up_graph_ok = True\<rparr> (context_full kv) (kv_clear kv) = Inr (context_full kv, kv_clear kv) \<and>
     kv_wf (vitriol_policy_set 2 5 (kv_clear kv))"
proof -
  obtain kv where kv: "kv_init hp_text None True 4 1 1 0 SWA_NONE 1 0 = Inr kv" using kv_one_stream_init by blast
  let ?r = "kv_reachable (sort_key fst) (\<lambda>d a b. d * a + b)"
  have a: "context_apply \<lparr>up_can_shift = True, up_rope = True, up_graph_ok = True\<rparr> (context_full kv) (kv_clear kv) = Inr (context_full kv, kv_clear kv)"
    by (simp add: context_apply_def context_full_def context_status_def kv_update_def)
  have "?r kv {}" by (rule reach_init[OF kv]) simp_all
  then have "?r kv {context_full kv}" by (rule reach_step) (rule step_init_full)
  then have "?r (kv_clear kv) {context_full kv}" by (rule reach_step) (rule step_op[OF op_clear])
  then have "?r (kv_clear kv) (insert (context_full kv) {context_full kv})" by (rule reach_step) (rule step_apply[OF singletonI a])
  then have "?r (vitriol_policy_set 2 5 (kv_clear kv)) (insert (context_full kv) {context_full kv})" by (rule reach_step) (rule step_op[OF op_policy_set])
  from kv_reachable_wf[OF stable.score_sort_axioms this] kv a show ?thesis by blast
qed

end
