(* ===== verification/KvIswa.thy ===== *)
theory KvIswa
  imports KvReach
begin

text \<open>
  The cache for models with sliding-window layers (\<open>engine/src/llama-kv-cache-iswa.cpp\<close>): two KV caches, one for the layers with full
  attention and one for those with a window, driven by the same operations and the same ubatches; with the context over both that applies a
  batch ubatch by ubatch (\<open>llama_kv_cache_iswa_context\<close>).
\<close>

section \<open>The two caches\<close>

record llama_kv_cache_iswa =
  iswa_unified :: bool
  iswa_base :: llama_kv_cache
  iswa_swa :: llama_kv_cache

text \<open>The size of the cache with the window, in 32-bit arithmetic.\<close>

definition iswa_size :: "bool \<Rightarrow> bool \<Rightarrow> nat \<Rightarrow> nat \<Rightarrow> nat \<Rightarrow> nat \<Rightarrow> nat" where
  "iswa_size swa_full unified kv_size n_seq_max n_ubatch n_swa =
     (if swa_full then kv_size
      else ggml_pad (min kv_size (u32 (n_swa * (if unified then n_seq_max else 1) + n_ubatch))) 256)"

definition iswa_init :: "kv_hparams \<Rightarrow> llama_kv_cache_iswa option \<Rightarrow> bool \<Rightarrow> bool \<Rightarrow> nat \<Rightarrow> nat \<Rightarrow> nat \<Rightarrow> nat \<Rightarrow> nat \<Rightarrow> llama_swa_type \<Rightarrow>
    float32 \<Rightarrow> int \<Rightarrow> err + llama_kv_cache_iswa" where
  "iswa_init hparams other swa_full unified kv_size n_seq_max n_ubatch n_pad n_swa swa_type floor_sc protect =
     (case kv_init hparams (map_option iswa_base other) unified kv_size n_seq_max n_pad 0 SWA_NONE floor_sc protect of
        Inl e \<Rightarrow> Inl e
      | Inr base \<Rightarrow>
          (case kv_init hparams (map_option iswa_swa other) unified (iswa_size swa_full unified kv_size n_seq_max n_ubatch n_swa)
                  n_seq_max n_pad n_swa swa_type floor_sc protect of
             Inl e \<Rightarrow> Inl e
           | Inr swa \<Rightarrow> Inr \<lparr>iswa_unified = unified, iswa_base = base, iswa_swa = swa\<rparr>))"

text \<open>An operation on both caches, the one without a window first.\<close>

definition iswa_both :: "(llama_kv_cache \<Rightarrow> err + llama_kv_cache) \<Rightarrow> llama_kv_cache_iswa \<Rightarrow> err + llama_kv_cache_iswa" where
  "iswa_both f m =
     (case f (iswa_base m) of
        Inl e \<Rightarrow> Inl e
      | Inr base \<Rightarrow> (case f (iswa_swa m) of Inl e \<Rightarrow> Inl e | Inr swa \<Rightarrow> Inr (m\<lparr>iswa_base := base, iswa_swa := swa\<rparr>)))"

definition iswa_clear :: "llama_kv_cache_iswa \<Rightarrow> llama_kv_cache_iswa" where
  "iswa_clear m = m\<lparr>iswa_base := kv_clear (iswa_base m), iswa_swa := kv_clear (iswa_swa m)\<rparr>"

definition iswa_seq_rm :: "llama_seq_id \<Rightarrow> llama_pos \<Rightarrow> llama_pos \<Rightarrow> llama_kv_cache_iswa \<Rightarrow> err + bool \<times> llama_kv_cache_iswa" where
  "iswa_seq_rm seq_id p0 p1 m =
     (case kv_seq_rm seq_id p0 p1 (iswa_base m) of
        Inl e \<Rightarrow> Inl e
      | Inr (res, base) \<Rightarrow>
          (case kv_seq_rm seq_id p0 p1 (iswa_swa m) of
             Inl e \<Rightarrow> Inl e
           | Inr (res', swa) \<Rightarrow> Inr (res \<and> res', m\<lparr>iswa_base := base, iswa_swa := swa\<rparr>)))"

definition iswa_seq_cp :: "llama_seq_id \<Rightarrow> llama_seq_id \<Rightarrow> llama_pos \<Rightarrow> llama_pos \<Rightarrow> llama_kv_cache_iswa \<Rightarrow> err + llama_kv_cache_iswa" where
  "iswa_seq_cp src dst p0 p1 = iswa_both (kv_seq_cp src dst p0 p1)"

definition iswa_seq_keep :: "llama_seq_id \<Rightarrow> llama_kv_cache_iswa \<Rightarrow> err + llama_kv_cache_iswa" where
  "iswa_seq_keep seq_id = iswa_both (kv_seq_keep seq_id)"

definition iswa_seq_add :: "llama_seq_id \<Rightarrow> llama_pos \<Rightarrow> llama_pos \<Rightarrow> llama_pos \<Rightarrow> llama_kv_cache_iswa \<Rightarrow> err + llama_kv_cache_iswa" where
  "iswa_seq_add seq_id p0 p1 shift = iswa_both (kv_seq_add seq_id p0 p1 shift)"

definition iswa_seq_div :: "llama_seq_id \<Rightarrow> llama_pos \<Rightarrow> llama_pos \<Rightarrow> int \<Rightarrow> llama_kv_cache_iswa \<Rightarrow> err + llama_kv_cache_iswa" where
  "iswa_seq_div seq_id p0 p1 d = iswa_both (kv_seq_div seq_id p0 p1 d)"

definition iswa_seq_pos_min :: "llama_seq_id \<Rightarrow> llama_kv_cache_iswa \<Rightarrow> err + llama_pos" where
  "iswa_seq_pos_min seq_id m = kv_seq_pos_min seq_id (iswa_swa m)"

definition iswa_seq_pos_max :: "llama_seq_id \<Rightarrow> llama_kv_cache_iswa \<Rightarrow> err + llama_pos" where
  "iswa_seq_pos_max seq_id m = kv_seq_pos_max seq_id (iswa_swa m)"

text \<open>\<open>can_shift\<close> stands for what the tensors of the two caches allow.\<close>

definition iswa_get_can_shift :: "bool \<Rightarrow> bool \<Rightarrow> llama_kv_cache_iswa \<Rightarrow> bool" where
  "iswa_get_can_shift can_base can_swa m \<longleftrightarrow> can_base \<and> can_swa \<and> kv_get_size (iswa_base m) = kv_get_size (iswa_swa m)"

section \<open>Batches\<close>

text \<open>The context of a batch over both caches.\<close>

record iswa_context =
  ic_status :: llama_memory_status
  ic_ubatches :: "llama_ubatch_full list"
  ic_i_next :: nat
  ic_base :: kv_context
  ic_swa :: kv_context

definition iswa_context_of :: "llama_ubatch_full list \<Rightarrow> kv_context \<Rightarrow> kv_context \<Rightarrow> iswa_context" where
  "iswa_context_of ubatches base swa =
     \<lparr>ic_status = llama_memory_status_combine (kc_status base) (kc_status swa), ic_ubatches = ubatches, ic_i_next = 0, ic_base = base, ic_swa = swa\<rparr>"

text \<open>A failed context has no contexts of the caches; they are given the failed status, with which nothing can be applied.\<close>

definition iswa_context_failed :: "llama_memory_status \<Rightarrow> iswa_context" where
  "iswa_context_failed status =
     \<lparr>ic_status = status, ic_ubatches = [], ic_i_next = 0, ic_base = context_status status, ic_swa = context_status status\<rparr>"

definition iswa_init_full :: "llama_kv_cache_iswa \<Rightarrow> iswa_context" where
  "iswa_init_full m = iswa_context_of [] (context_full (iswa_base m)) (context_full (iswa_swa m))"

definition iswa_init_update :: "llama_kv_cache_iswa \<Rightarrow> iswa_context \<times> llama_kv_cache_iswa" where
  "iswa_init_update m =
     (let ((shift, ssrc, sdst), base) = init_update (iswa_base m); ((shift', ssrc', sdst'), swa) = init_update (iswa_swa m)
      in (iswa_context_of [] (context_update shift (ssrc, sdst)) (context_update shift' (ssrc', sdst')), m\<lparr>iswa_base := base, iswa_swa := swa\<rparr>))"

text \<open>One attempt: split the batch, then find slots in both caches.\<close>

definition iswa_try :: "((float32 \<times> nat) list \<Rightarrow> (float32 \<times> nat) list) \<Rightarrow> bool \<Rightarrow>
    (llama_batch_allocr \<Rightarrow> batch_error + llama_ubatch_full option \<times> llama_batch_allocr) \<Rightarrow> llama_batch_allocr \<Rightarrow> llama_kv_cache_iswa \<Rightarrow>
    (err + iswa_context option \<times> llama_batch_allocr \<times> llama_kv_cache_iswa) option" where
  "iswa_try srt sparse split al m =
     (let al = split_reset al in
      case split_loop (Suc (al_n_tokens al)) split al of
        None \<Rightarrow> None
      | Some (Inl e) \<Rightarrow> Some (Inl Assert_failed)
      | Some (Inr (ubatches, al)) \<Rightarrow>
          if al_n_used al < al_n_tokens al then Some (Inr (None, al, m))
          else case prepare srt sparse (map llama_ubatch.truncate ubatches) (iswa_base m) of
            None \<Rightarrow> None
          | Some (Inl e) \<Rightarrow> Some (Inl e)
          | Some (Inr (sinfos_base, base)) \<Rightarrow>
              let m = m\<lparr>iswa_base := base\<rparr> in
              if sinfos_base = [] then Some (Inr (None, al, m))
              else case prepare srt sparse (map llama_ubatch.truncate ubatches) (iswa_swa m) of
                None \<Rightarrow> None
              | Some (Inl e) \<Rightarrow> Some (Inl e)
              | Some (Inr (sinfos_swa, swa)) \<Rightarrow>
                  let m = m\<lparr>iswa_swa := swa\<rparr> in
                  if sinfos_swa = [] then Some (Inr (None, al, m))
                  else if length sinfos_base \<noteq> length sinfos_swa then Some (Inl Assert_failed)
                  else Some (Inr (Some (iswa_context_of ubatches (context_batch sinfos_base ubatches) (context_batch sinfos_swa ubatches)), al, m)))"

definition iswa_init_batch :: "((float32 \<times> nat) list \<Rightarrow> (float32 \<times> nat) list) \<Rightarrow> bool \<Rightarrow> nat \<Rightarrow> llama_batch_allocr \<Rightarrow> llama_kv_cache_iswa \<Rightarrow>
    (err + iswa_context \<times> llama_batch_allocr \<times> llama_kv_cache_iswa) option" where
  "iswa_init_batch srt sparse n_ubatch al m =
     (case (if iswa_unified m then iswa_try srt sparse (\<lambda>al. Inr (split_simple n_ubatch al)) al m else Some (Inr (None, al, m))) of
        None \<Rightarrow> None
      | Some (Inl e) \<Rightarrow> Some (Inl e)
      | Some (Inr (Some ctx, al, m)) \<Rightarrow> Some (Inr (ctx, al, m))
      | Some (Inr (None, al, m)) \<Rightarrow>
          (case iswa_try srt sparse (split_equal n_ubatch (\<not> iswa_unified m) 0) al m of
             None \<Rightarrow> None
           | Some (Inl e) \<Rightarrow> Some (Inl e)
           | Some (Inr (Some ctx, al, m)) \<Rightarrow> Some (Inr (ctx, al, m))
           | Some (Inr (None, al, m)) \<Rightarrow> Some (Inr (iswa_context_failed STATUS_FAILED_PREPARE, al, m))))"

definition iswa_context_next :: "iswa_context \<Rightarrow> err + bool \<times> iswa_context" where
  "iswa_context_next ctx =
     (if ic_status ctx \<noteq> STATUS_SUCCESS then Inl Assert_failed
      else case context_next (ic_base ctx) of
        Inl e \<Rightarrow> Inl e
      | Inr (_, cb) \<Rightarrow>
          (case context_next (ic_swa ctx) of
             Inl e \<Rightarrow> Inl e
           | Inr (_, cs) \<Rightarrow>
               let ctx = ctx\<lparr>ic_base := cb, ic_swa := cs, ic_i_next := ic_i_next ctx + 1\<rparr>
               in Inr (ic_i_next ctx < length (ic_ubatches ctx), ctx)))"

definition iswa_context_apply :: "update_env \<Rightarrow> update_env \<Rightarrow> iswa_context \<Rightarrow> llama_kv_cache_iswa \<Rightarrow> err + iswa_context \<times> llama_kv_cache_iswa" where
  "iswa_context_apply up_base up_swa ctx m =
     (if llama_memory_status_is_fail (ic_status ctx) then Inl Assert_failed
      else case context_apply up_base (ic_base ctx) (iswa_base m) of
        Inl e \<Rightarrow> Inl e
      | Inr (cb, base) \<Rightarrow>
          (case context_apply up_swa (ic_swa ctx) (iswa_swa m) of
             Inl e \<Rightarrow> Inl e
           | Inr (cs, swa) \<Rightarrow> Inr (ctx\<lparr>ic_base := cb, ic_swa := cs\<rparr>, m\<lparr>iswa_base := base, iswa_swa := swa\<rparr>)))"

end
