(* ===== verification/KvIswaOk.thy ===== *)
theory KvIswaOk
  imports KvIswa
begin

text \<open>
  The comment of \<open>llama_kv_cache_iswa::seq_pos_min\<close> says that the cache without a window is a superset of the one with it. This is shown
  as an invariant: the sequences and positions of the second are among those of the first, as long as the operations only add and
  remove entries and no cells are evicted. The locale \<open>pair_op\<close> is the contract of an operation that does the same to the pairs of
  sequence and position of every cache. With sparse eviction the invariant does not hold.
\<close>

section \<open>Pairs of sequence and position\<close>

definition pairs :: "llama_kv_cache \<Rightarrow> nat \<Rightarrow> (nat \<times> llama_pos) set" where
  "pairs kv st = (if st < kv_n_stream kv then {(s, p). \<exists>i. (s, p, i) \<in> kv_view kv st} else {})"

definition static :: "llama_kv_cache \<Rightarrow> nat \<times> nat list \<times> nat list option \<times> llama_swa_type" where
  "static kv = (kv_n_stream kv, kv_seq_to_stream kv, kv_other kv, kv_swa_type kv)"

lemma static_simps:
  assumes "static a = static b"
  shows "kv_n_stream a = kv_n_stream b" "kv_seq_to_stream a = kv_seq_to_stream b" "kv_other a = kv_other b" "kv_swa_type a = kv_swa_type b"
  using assms by (auto simp: static_def)

lemma static_config: "kv_same_config a b \<Longrightarrow> static b = static a"
  using kv_same_config_simps[of a b] by (simp add: static_def)

lemma static_conf: "kv_conf a = kv_conf b \<Longrightarrow> static a = static b"
  using kv_conf_simps[of a b] by (simp add: static_def)

lemma pairs_below: "kv_below {} a b \<Longrightarrow> kv_wf b \<Longrightarrow> pairs a st \<subseteq> pairs b st"
  using kv_below_view[of a b st] kv_conf_simps(1)[of a b] by (auto simp: pairs_def kv_below_def split: if_splits)

lemma pairs_only_stream:
  assumes "only_stream st kv kv'" "t \<noteq> st"
  shows "pairs kv' t = pairs kv t"
  using assms kv_same_config_simps(1)[of kv kv'] by (simp add: only_stream_def pairs_def kv_view_def)

text \<open>An operation that treats the pairs of every cache alike.\<close>

locale pair_op =
  fixes f :: "llama_kv_cache \<Rightarrow> err + llama_kv_cache"
    and act :: "nat list \<Rightarrow> (nat \<Rightarrow> (nat \<times> llama_pos) set) \<Rightarrow> nat \<Rightarrow> (nat \<times> llama_pos) set"
  assumes act_mono: "(\<And>st. P st \<subseteq> Q st) \<Longrightarrow> act table P st \<subseteq> act table Q st"
    and f_wf: "kv_wf kv \<Longrightarrow> kv_other kv = None \<Longrightarrow> f kv = Inr kv' \<Longrightarrow> kv_wf kv'"
    and f_static: "kv_wf kv \<Longrightarrow> kv_other kv = None \<Longrightarrow> f kv = Inr kv' \<Longrightarrow> static kv' = static kv"
    and f_pairs: "kv_wf kv \<Longrightarrow> kv_other kv = None \<Longrightarrow> f kv = Inr kv' \<Longrightarrow> st < kv_n_stream kv \<Longrightarrow>
      pairs kv' st = act (kv_seq_to_stream kv) (pairs kv) st"
begin

lemma keeps_superset:
  assumes "kv_wf a" "kv_wf b" "static (a\<lparr>kv_swa_type := SWA_NONE\<rparr>) = static (b\<lparr>kv_swa_type := SWA_NONE\<rparr>)" "kv_other b = None"
    and "f a = Inr a'" "f b = Inr b'" "\<And>st. pairs a st \<subseteq> pairs b st"
  shows "pairs a' st \<subseteq> pairs b' st"
proof -
  have ab: "kv_n_stream a = kv_n_stream b" "kv_seq_to_stream a = kv_seq_to_stream b" "kv_other a = None" using assms(3,4) by (auto simp: static_def)
  have n: "kv_n_stream a' = kv_n_stream a" "kv_n_stream b' = kv_n_stream b"
    using f_static[OF assms(1) ab(3) assms(5)] f_static[OF assms(2,4,6)] by (auto simp: static_def)
  show ?thesis
  proof (cases "st < kv_n_stream b")
    case True
    then have "pairs a' st = act (kv_seq_to_stream b) (pairs a) st" "pairs b' st = act (kv_seq_to_stream b) (pairs b) st"
      using f_pairs[OF assms(1) ab(3) assms(5)] f_pairs[OF assms(2,4,6)] ab by auto
    then show ?thesis using act_mono[OF assms(7)] by simp
  qed (use n ab in \<open>simp add: pairs_def\<close>)
qed

end

section \<open>The operations on sequences\<close>

definition act_rm :: "llama_seq_id \<Rightarrow> llama_pos \<Rightarrow> llama_pos \<Rightarrow> nat list \<Rightarrow> (nat \<Rightarrow> (nat \<times> llama_pos) set) \<Rightarrow> nat \<Rightarrow> (nat \<times> llama_pos) set" where
  "act_rm s p0 p1 table P st =
     (if 0 \<le> s then (if st = table ! nat s then {(t, p) \<in> P st. \<not> (t = nat s \<and> clamp_p0 p0 \<le> p \<and> p < clamp_p1 p1)} else P st)
      else {(t, p) \<in> P st. \<not> (clamp_p0 p0 \<le> p \<and> p < clamp_p1 p1)})"

definition act_cp :: "llama_seq_id \<Rightarrow> llama_seq_id \<Rightarrow> llama_pos \<Rightarrow> llama_pos \<Rightarrow> nat list \<Rightarrow> (nat \<Rightarrow> (nat \<times> llama_pos) set) \<Rightarrow> nat \<Rightarrow> (nat \<times> llama_pos) set" where
  "act_cp src dst p0 p1 table P st =
     (if st \<noteq> table ! nat dst then P st
      else if table ! nat src = table ! nat dst then P st \<union> {(nat dst, p) |p. (nat src, p) \<in> P st \<and> clamp_p0 p0 \<le> p \<and> p < clamp_p1 p1}
      else {(nat dst, p) |p. (nat src, p) \<in> P (table ! nat src)})"

definition act_keep :: "llama_seq_id \<Rightarrow> nat list \<Rightarrow> (nat \<Rightarrow> (nat \<times> llama_pos) set) \<Rightarrow> nat \<Rightarrow> (nat \<times> llama_pos) set" where
  "act_keep s table P st = (if st = table ! nat s then {(t, p) \<in> P st. t = nat s} else P st)"

definition seq_rm_only :: "llama_seq_id \<Rightarrow> llama_pos \<Rightarrow> llama_pos \<Rightarrow> llama_kv_cache \<Rightarrow> err + llama_kv_cache" where
  "seq_rm_only s p0 p1 kv = (case kv_seq_rm s p0 p1 kv of Inl e \<Rightarrow> Inl e | Inr (_, kv) \<Rightarrow> Inr kv)"

interpretation rm_op: pair_op "seq_rm_only s p0 p1" "act_rm s p0 p1" for s p0 p1
proof
  fix kv kv' assume kv: "kv_wf kv" "kv_other kv = None" "seq_rm_only s p0 p1 kv = Inr kv'"
  then obtain b where r: "kv_seq_rm s p0 p1 kv = Inr (b, kv')" by (auto simp: seq_rm_only_def split: sum.splits)
  show "kv_wf kv'" "static kv' = static kv" using kv_seq_rm_wf[OF kv(1) r] static_config by auto
  fix st assume st: "st < kv_n_stream kv"
  show "pairs kv' st = act_rm s p0 p1 (kv_seq_to_stream kv) (pairs kv) st"
  proof (cases "0 \<le> s")
    case True
    then have s: "nat s < length (kv_seq_to_stream kv)" "kv' = rm_stream (seq_rm_body (nat s) (clamp_p0 p0) (clamp_p1 p1)) (kv_seq_to_stream kv ! nat s) kv"
      using r kv(2) by (auto simp: kv_seq_rm_def Let_def seq_id_ok_def split: if_splits)
    note t = kv_wf_stream[OF kv(1) s(1)]
    have o: "only_stream (kv_seq_to_stream kv ! nat s) kv kv'" unfolding s(2) by (rule rm1.rm_stream_only[OF kv(1) t])
    show ?thesis
    proof (cases "st = kv_seq_to_stream kv ! nat s")
      case eq: True
      have "kv_view kv' st = kv_view kv st - {(nat s, p, i) |p i. clamp_p0 p0 \<le> p \<and> p < clamp_p1 p1}" unfolding s(2) eq by (rule rm_one_view[OF kv(1) t])
      moreover have "kv_n_stream kv' = kv_n_stream kv" using o kv_same_config_simps(1) by (auto simp: only_stream_def)
      ultimately show ?thesis using True eq st by (auto simp: pairs_def act_rm_def)
    next
      case False
      then show ?thesis using pairs_only_stream[OF o False] True by (simp add: act_rm_def)
    qed
  next
    case False
    then have "s = -1" using r kv(2) by (auto simp: kv_seq_rm_def Let_def seq_id_ok_def split: if_splits)
    then obtain v: "kv_view kv' st = {(s, p, i) \<in> kv_view kv st. \<not> (clamp_p0 p0 \<le> p \<and> p < clamp_p1 p1)}" "kv_same_config kv kv'"
      using seq_rm_any_sequence[OF kv(1,2), of p0 p1] r st by auto
    then show ?thesis using False st kv_same_config_simps(1)[OF v(2)] by (auto simp: pairs_def act_rm_def)
  qed
qed (fastforce simp: act_rm_def)

interpretation keep_op: pair_op "kv_seq_keep s" "act_keep s" for s
proof
  fix kv kv' assume kv: "kv_wf kv" "kv_other kv = None" "kv_seq_keep s kv = Inr kv'"
  then have ok: "seq_id_ok s kv" by (auto simp: kv_seq_keep_def split: if_splits)
  have v: "only_stream (kv_seq_to_stream kv ! nat s) kv kv'"
      "kv_view kv' (kv_seq_to_stream kv ! nat s) = {(t, p, i) \<in> kv_view kv (kv_seq_to_stream kv ! nat s). t = nat s}"
    using seq_keep_one_sequence[OF kv(1,2) ok] kv(3) by auto
  show "kv_wf kv'" "static kv' = static kv" using v(1) static_config by (auto simp: only_stream_def)
  fix st assume st: "st < kv_n_stream kv"
  show "pairs kv' st = act_keep s (kv_seq_to_stream kv) (pairs kv) st"
  proof (cases "st = kv_seq_to_stream kv ! nat s")
    case True
    then show ?thesis using v(2) st static_simps(1)[OF \<open>static kv' = static kv\<close>] by (auto simp: pairs_def act_keep_def)
  next
    case False
    then show ?thesis using pairs_only_stream[OF v(1) False] by (simp add: act_keep_def)
  qed
qed (auto simp: act_keep_def)

lemma cross_copy:
  assumes kv: "kv_wf kv" "kv_other kv = None" "seq_id_ok src kv" "seq_id_ok dst kv"
    and st: "kv_seq_to_stream kv ! nat src \<noteq> kv_seq_to_stream kv ! nat dst" and r: "kv_seq_cp src dst p0 p1 kv = Inr kv'"
  shows "only_stream (kv_seq_to_stream kv ! nat dst) kv kv'"
    "kv_view kv' (kv_seq_to_stream kv ! nat dst) = {(nat dst, p, i) |p i. (nat src, p, i) \<in> kv_view kv (kv_seq_to_stream kv ! nat src)}"
proof -
  let ?s0 = "kv_seq_to_stream kv ! nat src" and ?s1 = "kv_seq_to_stream kv ! nat dst"
  have lt: "?s0 < kv_n_stream kv" "?s1 < kv_n_stream kv" using kv(3,4) kv_wf_stream[OF kv(1)] by (auto simp: seq_id_ok_def)
  let ?c = "fold (cp_cell (kv_cells kv ?s0) (nat src) (nat dst)) [0..<cells_size (kv_cells kv ?s0)] (cells_reset (kv_cells kv ?s1))"
  let ?kv = "kv\<lparr>kv_sc_ssrc := kv_sc_ssrc kv @ [?s0], kv_sc_sdst := kv_sc_sdst kv @ [?s1]\<rparr>"
  have e: "kv' = kv_set_head ?s1 (kv_head kv ?s0) (kv_set_cells ?s1 ?c ?kv)"
    using r kv(2-4) st by (auto simp: kv_seq_cp_def Let_def kv_set_cells_def split: if_splits)
  have "kv_same_config kv kv'" unfolding e by (simp add: kv_same_config_def kv_set_head_def kv_set_cells_def)
  then show "only_stream ?s1 kv kv'" using kv_seq_cp_wf[OF kv(1) r] unfolding e by (simp add: only_stream_def kv_set_head_def kv_set_cells_def)
  have "cells_size (kv_cells kv ?s0) = cells_size (kv_cells kv ?s1)" using kv_wf_size[OF kv(1)] lt by simp
  from cp_cells_view[OF kv_wf_cells[OF kv(1) lt(2)] kv_wf_cells[OF kv(1) lt(1)] this kv_wf_seq_id[OF kv(1,4)], of "nat src"]
  show "kv_view kv' ?s1 = {(nat dst, p, i) |p i. (nat src, p, i) \<in> kv_view kv ?s0}"
    using lt kv_wf_lens(1)[OF kv(1)] unfolding e by (simp add: kv_view_def)
qed

interpretation cp_op: pair_op "kv_seq_cp src dst p0 p1" "act_cp src dst p0 p1" for src dst p0 p1
proof
  fix kv kv' assume kv: "kv_wf kv" "kv_other kv = None" "kv_seq_cp src dst p0 p1 kv = Inr kv'"
  let ?s0 = "kv_seq_to_stream kv ! nat src" and ?s1 = "kv_seq_to_stream kv ! nat dst"
  have ids: "seq_id_ok src kv" "seq_id_ok dst kv" using kv(2,3) by (auto simp: kv_seq_cp_def split: if_splits)
  have lt: "?s0 < kv_n_stream kv" "?s1 < kv_n_stream kv" using ids kv_wf_stream[OF kv(1)] by (auto simp: seq_id_ok_def)
  show "kv_wf kv'" by (rule kv_seq_cp_wf[OF kv(1,3)])
  have "kv' = kv \<and> src = dst \<or> only_stream ?s1 kv kv' \<and> kv_view kv' ?s1 = (if ?s0 = ?s1
      then kv_view kv ?s1 \<union> {(nat dst, p, i) |p i. (nat src, p, i) \<in> kv_view kv ?s1 \<and> clamp_p0 p0 \<le> p \<and> p < clamp_p1 p1}
      else {(nat dst, p, i) |p i. (nat src, p, i) \<in> kv_view kv ?s0})"
  proof (cases "?s0 = ?s1")
    case True
    show ?thesis
    proof (cases "src = dst")
      case False
      from seq_cp_same_stream[OF kv(1,2) ids True False, of p0 p1] show ?thesis using kv(3) True by (elim exE conjE) simp
    qed (use kv True ids in \<open>simp add: kv_seq_cp_def\<close>)
  next
    case False
    then show ?thesis using cross_copy[OF kv(1,2) ids False kv(3)] by simp
  qed
  then consider "kv' = kv" "src = dst" | "only_stream ?s1 kv kv'" "kv_view kv' ?s1 = (if ?s0 = ?s1
      then kv_view kv ?s1 \<union> {(nat dst, p, i) |p i. (nat src, p, i) \<in> kv_view kv ?s1 \<and> clamp_p0 p0 \<le> p \<and> p < clamp_p1 p1}
      else {(nat dst, p, i) |p i. (nat src, p, i) \<in> kv_view kv ?s0})" by blast
  note v = this
  show same: "static kv' = static kv" using v static_config by cases (auto simp: only_stream_def)
  fix st assume st: "st < kv_n_stream kv"
  from v show "pairs kv' st = act_cp src dst p0 p1 (kv_seq_to_stream kv) (pairs kv) st"
  proof cases
    case 1
    then show ?thesis by (auto simp: act_cp_def)
  next
    case 2
    show ?thesis
    proof (cases "st = ?s1")
      case True
      then show ?thesis using 2(2) st lt static_simps(1)[OF same] by (auto simp: pairs_def act_cp_def)
    next
      case False
      then show ?thesis using pairs_only_stream[OF 2(1) False] by (simp add: act_cp_def)
    qed
  qed
qed (fastforce simp: act_cp_def)

interpretation clear_op: pair_op "\<lambda>kv. Inr (kv_clear kv)" "\<lambda>_ _ _. {}"
proof
  fix kv kv' :: llama_kv_cache assume kv: "kv_wf kv" "Inr (kv_clear kv) = (Inr kv' :: err + llama_kv_cache)"
  show "kv_wf kv'" using kv_clear_wf[OF kv(1)] kv(2) by simp
  have "kv_same_config kv (kv_clear kv)" using kv_clear_fold[OF kv(1) order_refl] by (simp add: kv_clear_def)
  then show "static kv' = static kv" using kv(2) static_config by simp
  then show "pairs kv' st = {}" if "st < kv_n_stream kv" for st using kv_clear_view[OF kv(1) that] kv(2) by (simp add: pairs_def)
qed simp

section \<open>Writing a batch to both caches\<close>

lemma ubatch_ok_unique: "ubatch_ok kv ub n k \<Longrightarrow> ubatch_ok kv ub n' k' \<Longrightarrow> n = n' \<and> k = k'"
  by (auto simp: ubatch_ok_def split: if_splits)

definition slot_pairs :: "slot_info \<Rightarrow> llama_ubatch \<Rightarrow> nat \<Rightarrow> nat \<Rightarrow> (nat \<times> llama_pos) set" where
  "slot_pairs si ub k st = {x. \<exists>s < length (si_strm si). si_strm si ! s = st \<and> x \<in> ub_pairs ub k s}"

lemma apply_adds_at_most:
  assumes "kv_wf kv" "kv_other kv = None" "slot_ok kv si n k" "\<forall>i < n * k. token_ok ub i" "apply_ubatch si ub kv = Inr kv'"
  shows "kv_wf kv'" "kv_conf kv' = kv_conf kv" "pairs kv' st \<subseteq> pairs kv st \<union> slot_pairs si ub k st"
proof -
  note a = apply_below[OF assms]
  show w: "kv_wf kv'" "kv_conf kv' = kv_conf kv" using a(1) by (simp_all add: kv_below_def)
  note c = kv_conf_simps[OF w(2)]
  have n: "length (si_strm si) = n" using assms(3) by (simp add: slot_ok_def)
  show "pairs kv' st \<subseteq> pairs kv st \<union> slot_pairs si ub k st"
  proof (rule subrelI)
    fix t p assume "(t, p) \<in> pairs kv' st"
    then obtain i where st: "st < kv_n_stream kv" and v: "(t, p, i) \<in> kv_view kv' st" using c(1) by (auto simp: pairs_def split: if_splits)
    then have i: "i < kv_get_size kv" "t \<in> c_seq (kv_cells kv' st) ! i" "p = c_pos (kv_cells kv' st) ! i"
      using kv_view_iff[OF w(1), of st t p i] c by auto
    show "(t, p) \<in> pairs kv st \<union> slot_pairs si ub k st"
    proof (cases "(st, i) \<in> slot_cells si")
      case True
      then obtain s where s: "s < n" "st = si_strm si ! s" "i \<in> set (si_idxs si ! s)" using n by (auto simp: slot_cells_def)
      then have "(t, p) \<in> ub_pairs ub k s" using a(2)[OF s(1,3)] i by simp
      then show ?thesis using s n by (auto simp: slot_pairs_def)
    next
      case False
      then have "cell_le (cell_at (kv_cells kv' st) i) (cell_at (kv_cells kv st) i)" using a(1) st i(1) by (simp add: kv_below_def)
      then have "(t, p, i) \<in> kv_view kv st" using i kv_view_iff[OF assms(1) st, of t p i] by (auto simp: cell_le_def)
      then show ?thesis using st by (auto simp: pairs_def)
    qed
  qed
qed

lemma apply_adds_all:
  assumes "kv_wf kv" "kv_other kv = None" "slot_ok kv si n k" "slot_free kv si" "\<forall>i < n * k. token_ok ub i" "apply_ubatch si ub kv = Inr kv'"
  shows "pairs kv st \<union> slot_pairs si ub k st \<subseteq> pairs kv' st"
proof -
  obtain r: "kv_wf kv'" "kv' = kv\<lparr>kv_v_cells := kv_v_cells kv', kv_v_heads := kv_v_heads kv'\<rparr>"
    "\<And>s. s < n \<Longrightarrow> kv_cells kv' (si_strm si ! s) = place_cells kv ub (s * k) (si_idxs si ! s) (kv_cells kv (si_strm si ! s))"
    "\<And>t. t \<notin> set (si_strm si) \<Longrightarrow> kv_cells kv' t = kv_cells kv t"
    by (rule apply_ubatch_free[OF assms(1-5)]) (use assms(6) in auto)
  have ns: "kv_n_stream kv' = kv_n_stream kv" by (subst r(2)) simp
  have n: "length (si_strm si) = n" using assms(3) by (simp add: slot_ok_def)
  show ?thesis
  proof (cases "st \<in> set (si_strm si)")
    case True
    then obtain s where s: "s < n" "st = si_strm si ! s" using n by (auto simp: in_set_conv_nth)
    have st: "st < kv_n_stream kv" using assms(3) s by (simp add: slot_ok_def)
    have ix: "length (si_idxs si ! s) = k" "distinct (si_idxs si ! s)"
        "\<forall>i \<in> set (si_idxs si ! s). i < cells_size (kv_cells kv st) \<and> c_pos (kv_cells kv st) ! i = -1"
      using assms(3,4) s n kv_wf_size[OF assms(1) st] by (simp_all add: slot_ok_def slot_free_def)
    have tok: "\<forall>ii < length (si_idxs si ! s). token_ok ub (s * k + ii)" using slot_tokens_ok[OF assms(5) s(1)] ix(1) by simp
    note pv = placed_view[OF kv_wf_cells[OF assms(1) st] ix(3,2) tok, where kv = kv]
    have view: "kv_view kv' st = cells_view (place_cells kv ub (s * k) (si_idxs si ! s) (kv_cells kv st))" using r(3)[OF s(1)] s(2) by (simp add: kv_view_def)
    have "slot_pairs si ub k st \<subseteq> pairs kv' st"
    proof (rule subrelI)
      fix t p assume "(t, p) \<in> slot_pairs si ub k st"
      then obtain s' where "s' < n" "si_strm si ! s' = st" "(t, p) \<in> ub_pairs ub k s'" using n by (auto simp: slot_pairs_def)
      moreover from this have "s' = s" using s assms(3) n by (auto simp: slot_ok_def nth_eq_iff_index_eq)
      ultimately obtain ii j where "ii < k" "j < ub_n_seq_id ub ! (s * k + ii)" "t = nat (ub_seq_id ub ! (s * k + ii) ! j)" "p = ub_pos ub ! (s * k + ii)"
        by (auto simp: ub_pairs_def)
      then have "(t, p, si_idxs si ! s ! ii) \<in> kv_view kv' st" unfolding view pv using ix(1) by blast
      then show "(t, p) \<in> pairs kv' st" using st ns by (auto simp: pairs_def)
    qed
    moreover have "pairs kv st \<subseteq> pairs kv' st" using pv view st ns by (auto simp: pairs_def kv_view_def)
    ultimately show ?thesis by blast
  next
    case False
    then have "slot_pairs si ub k st = {}" by (auto simp: slot_pairs_def in_set_conv_nth)
    then show ?thesis using r(4)[OF False] ns by (simp add: pairs_def kv_view_def)
  qed
qed

text \<open>Slots that are empty when their turn comes.\<close>

fun free_slots :: "llama_kv_cache \<Rightarrow> slot_info list \<Rightarrow> llama_ubatch list \<Rightarrow> bool" where
  "free_slots kv [] [] \<longleftrightarrow> True"
| "free_slots kv (si # sis) (ub # ubs) \<longleftrightarrow>
     (\<exists>n k. ubatch_ok kv ub n k \<and> slot_ok kv si n k \<and> slot_free kv si \<and> si_strm si = map (ub_stream kv ub) [0..<n]) \<and>
     (\<forall>kv'. apply_ubatch si ub kv = Inr kv' \<longrightarrow> free_slots kv' sis ubs)"
| "free_slots kv _ _ \<longleftrightarrow> False"

definition iswa_ok :: "llama_kv_cache \<Rightarrow> llama_kv_cache \<Rightarrow> bool" where
  "iswa_ok base swa \<longleftrightarrow> kv_wf base \<and> kv_wf swa \<and> kv_other base = None \<and> kv_other swa = None \<and> kv_swa_type base = SWA_NONE \<and>
     kv_n_stream base = kv_n_stream swa \<and> kv_seq_to_stream base = kv_seq_to_stream swa"

lemma apply_chain:
  assumes "iswa_ok base swa" "\<And>st. pairs swa st \<subseteq> pairs base st" "free_slots base sb ubs" "slots_fit swa ss ubs"
    and "apply_slots (take j sb) (take j ubs) base = Inr base'" "apply_slots (take j ss) (take j ubs) swa = Inr swa'"
  shows "iswa_ok base' swa' \<and> (\<forall>st. pairs swa' st \<subseteq> pairs base' st) \<and> static base' = static base \<and> static swa' = static swa"
  using assms
proof (induction ubs arbitrary: base swa sb ss j)
  case Nil
  then show ?case by (cases sb) (simp_all add: slots_fit_def)
next
  case (Cons ub ubs)
  obtain si sb' where sb: "sb = si # sb'" using Cons.prems(3) by (cases sb) auto
  obtain si' ss' where ss: "ss = si' # ss'" using Cons.prems(4) by (cases ss) (auto simp: slots_fit_def)
  show ?case
  proof (cases j)
    case 0
    then show ?thesis using Cons.prems by simp
  next
    case (Suc i)
    obtain n k where b: "ubatch_ok base ub n k" "slot_ok base si n k" "slot_free base si" "si_strm si = map (ub_stream base ub) [0..<n]"
      using Cons.prems(3) sb by auto
    obtain n' k' where w: "ubatch_ok swa ub n' k'" "slot_ok swa si' n' k'" "si_strm si' = map (ub_stream swa ub) [0..<n']" and rest: "slots_fit swa ss' ubs"
      using Cons.prems(4) ss by (auto simp: slots_fit_def)
    have ok: "kv_wf base" "kv_wf swa" "kv_other base = None" "kv_other swa = None" "kv_n_stream base = kv_n_stream swa" "kv_seq_to_stream base = kv_seq_to_stream swa"
      using Cons.prems(1) by (simp_all add: iswa_ok_def)
    have "ubatch_ok base ub n' k'" using w(1) ubatch_ok_same[OF ok(5,6)] by simp
    then have eq: "n' = n" "k' = k" using ubatch_ok_unique[OF b(1)] by auto
    have strm: "si_strm si' = si_strm si" using b(4) w(3) eq ok(6) by simp
    obtain b1 where b1: "apply_ubatch si ub base = Inr b1" "apply_slots (take i sb') (take i ubs) b1 = Inr base'"
      using Cons.prems(5) sb Suc by (auto split: sum.splits)
    obtain w1 where w1: "apply_ubatch si' ub swa = Inr w1" "apply_slots (take i ss') (take i ubs) w1 = Inr swa'"
      using Cons.prems(6) ss Suc by (auto split: sum.splits)
    note tb = ubatch_tokens_ok[OF ok(1) b(1)] and tw = ubatch_tokens_ok[OF ok(2) w(1)]
    note ab = apply_adds_at_most[OF ok(1,3) b(2) tb b1(1)] apply_adds_all[OF ok(1,3) b(2,3) tb b1(1)]
    note aw = apply_adds_at_most[OF ok(2,4) w(2) tw w1(1)]
    have sub: "pairs w1 st \<subseteq> pairs b1 st" for st
    proof -
      have "slot_pairs si' ub k' st = slot_pairs si ub k st" by (simp add: slot_pairs_def strm eq)
      then show ?thesis using aw(3)[of st] ab(4)[of st] Cons.prems(2)[of st] by blast
    qed
    have ok1: "iswa_ok b1 w1" using Cons.prems(1) ab(1) aw(1) kv_conf_simps[OF ab(2)] kv_conf_simps[OF aw(2)] by (simp add: iswa_ok_def)
    have "free_slots b1 sb' ubs" using Cons.prems(3) sb b1(1) by simp
    moreover have "slots_fit w1 ss' ubs" using rest slots_fit_conf[OF aw(2)] by simp
    ultimately show ?thesis using Cons.IH[OF ok1 sub _ _ b1(2) w1(2)] static_conf[OF ab(2)] static_conf[OF aw(2)] by simp
  qed
qed

section \<open>The dry run on both caches\<close>

lemma place_token_heads [simp]: "place_token (kv\<lparr>kv_v_heads := hs\<rparr>) = place_token kv"
proof (intro ext)
  fix ub i idx c
  have "token_ext (kv\<lparr>kv_v_heads := hs\<rparr>) ub i = token_ext kv ub i" by (cases "ub_token ub") (simp_all add: token_ext_def Let_def)
  then show "place_token (kv\<lparr>kv_v_heads := hs\<rparr>) ub i idx c = place_token kv ub i idx c" by (simp add: place_token_def Let_def)
qed

text \<open>Where the search for slots starts does not matter for slots already found.\<close>

lemma free_slots_heads:
  "kv_wf kv \<Longrightarrow> kv_wf (kv\<lparr>kv_v_heads := hs\<rparr>) \<Longrightarrow> kv_other kv = None \<Longrightarrow> free_slots kv sis ubs \<Longrightarrow> free_slots (kv\<lparr>kv_v_heads := hs\<rparr>) sis ubs"
proof (induction kv sis ubs arbitrary: hs rule: free_slots.induct)
  case (2 kv si sis ub ubs)
  let ?h = "kv\<lparr>kv_v_heads := hs\<rparr>"
  obtain n k where s: "ubatch_ok kv ub n k" "slot_ok kv si n k" "slot_free kv si" "si_strm si = map (ub_stream kv ub) [0..<n]" using "2.prems"(4) by auto
  have u: "ubatch_ok ?h = ubatch_ok kv" by (rule ubatch_ok_same) simp_all
  have h: "ubatch_ok ?h ub n k" "slot_ok ?h si n k" "slot_free ?h si" "si_strm si = map (ub_stream ?h ub) [0..<n]" "kv_other ?h = None"
    using s "2.prems"(3) u by (simp_all add: slot_ok_def slot_free_def kv_get_size_def)
  note t = ubatch_tokens_ok[OF "2.prems"(1) s(1)]
  obtain y where y: "apply_ubatch si ub kv = Inr y" "kv_wf y" "y = kv\<lparr>kv_v_cells := kv_v_cells y, kv_v_heads := kv_v_heads y\<rparr>"
      "\<And>s. s < n \<Longrightarrow> kv_cells y (si_strm si ! s) = place_cells kv ub (s * k) (si_idxs si ! s) (kv_cells kv (si_strm si ! s))"
      "\<And>t. t \<notin> set (si_strm si) \<Longrightarrow> kv_cells y t = kv_cells kv t"
    by (rule apply_ubatch_free[OF "2.prems"(1,3) s(2,3) t]) blast
  have "free_slots x sis ubs" if x: "apply_ubatch si ub ?h = Inr x" for x
  proof -
    obtain x': "kv_wf x" "x = ?h\<lparr>kv_v_cells := kv_v_cells x, kv_v_heads := kv_v_heads x\<rparr>"
      "\<And>s. s < n \<Longrightarrow> kv_cells x (si_strm si ! s) = place_cells ?h ub (s * k) (si_idxs si ! s) (kv_cells ?h (si_strm si ! s))"
      "\<And>t. t \<notin> set (si_strm si) \<Longrightarrow> kv_cells x t = kv_cells ?h t"
      by (rule apply_ubatch_free[OF "2.prems"(2) h(5,2,3) t]) (use x in auto)
    have pc: "place_cells ?h = place_cells kv" by (rule place_cells_cong) simp
    have n: "kv_n_stream x = kv_n_stream kv" by (subst x'(2)) simp
    have n': "kv_n_stream y = kv_n_stream kv" "kv_other y = kv_other kv" by (subst y(3), simp)+
    have cells: "kv_v_cells x = kv_v_cells y"
    proof (rule nth_equalityI)
      show "length (kv_v_cells x) = length (kv_v_cells y)" using kv_wf_lens(1)[OF x'(1)] kv_wf_lens(1)[OF y(2)] n n' by simp
      fix t
      show "kv_cells x t = kv_cells y t"
      proof (cases "t \<in> set (si_strm si)")
        case True
        then obtain s where "s < n" "t = si_strm si ! s" using s(2) by (auto simp: slot_ok_def in_set_conv_nth)
        then show ?thesis using x'(3) y(4) pc by simp
      qed (use x'(4) y(5) in simp)
    qed
    have "y\<lparr>kv_v_heads := kv_v_heads x\<rparr> = ?h\<lparr>kv_v_cells := kv_v_cells x, kv_v_heads := kv_v_heads x\<rparr>" unfolding cells by (subst y(3)) simp
    then have e: "y\<lparr>kv_v_heads := kv_v_heads x\<rparr> = x" unfolding x'(2)[symmetric] .
    have "free_slots y sis ubs" using "2.prems"(4) y(1) by simp
    from "2.IH"[OF y(1,2) _ _ this, of "kv_v_heads x"] show ?thesis unfolding e using x'(1) n'(2) "2.prems"(3) by simp
  qed
  then show ?case using h by auto
qed simp_all

lemma prepare_place_free:
  "kv_ready kv \<Longrightarrow> ubatches_ok kv ubs \<Longrightarrow> prepare_place srt False ubs res states kv = Some (Inr (True, res', states', kv')) \<Longrightarrow>
    \<exists>sis. res' = res @ sis \<and> free_slots kv sis ubs"
proof (induction ubs arbitrary: res states kv)
  case (Cons ub ubs)
  have rd: "kv_wf kv" "kv_other kv = None" "kv_swa_type kv = SWA_NONE" using Cons.prems(1) by (simp_all add: kv_ready_def)
  obtain n k where ub: "ubatch_ok kv ub n k" using Cons.prems(2) by (auto simp: ubatches_ok_def)
  obtain si where si: "find_slot False ub kv = Some (Inr si)" "\<not> si_empty si \<Longrightarrow> slot_ok kv si n k"
    "\<not> si_empty si \<Longrightarrow> kv_swa_type kv = SWA_NONE \<Longrightarrow> slot_free kv si" "\<not> si_empty si \<Longrightarrow> si_strm si = map (ub_stream kv ub) [0..<n]"
    by (rule find_slot_free[OF rd(1) ub]) (rule that)
  have fe: "find_slot_evict srt False ub kv = Some (Inr (si, kv))" using si(1) by (simp add: find_slot_evict_def)
  then have ne: "\<not> si_empty si" using Cons.prems(3) by (auto split: if_splits)
  obtain st kv1 where a: "apply_ubatch si ub kv = Inr kv1" "prepare_place srt False ubs (res @ [si]) st kv1 = Some (Inr (True, res', states', kv'))"
    using Cons.prems(3) fe ne by (auto split: sum.splits)
  note c = apply_adds_at_most(1,2)[OF rd(1,2) si(2)[OF ne] ubatch_tokens_ok[OF rd(1) ub] a(1)]
  have "kv_ready kv1" "ubatches_ok kv1 ubs"
    using c(1) kv_conf_simps[OF c(2)] rd Cons.prems(2) conf_fits(4)[OF c(2)] by (simp_all add: kv_ready_def ubatches_ok_def)
  from Cons.IH[OF this a(2)] obtain sis where "res' = (res @ [si]) @ sis" "free_slots kv1 sis ubs" by blast
  then show ?case using a(1) ub si(2,4)[OF ne] si(3)[OF ne rd(3)] by (intro exI[of _ "si # sis"]) auto
qed simp

lemma prepare_base:
  assumes "score_sort srt" "kv_ready kv" "ubatches_ok kv ubs" "prepare srt False ubs kv = Some (Inr (sis, kv'))"
  shows "\<exists>hs. kv' = kv\<lparr>kv_v_heads := hs\<rparr>" "kv_wf kv'" "sis \<noteq> [] \<Longrightarrow> free_slots kv' sis ubs"
proof -
  have rd: "kv_wf kv" "kv_other kv = None" "kv_swa_type kv = SWA_NONE" using assms(2) by (simp_all add: kv_ready_def)
  show w: "kv_wf kv'" using prepare_below(1)[OF assms(1) rd(1,2) assms(3,4)] by (simp add: kv_below_def)
  obtain ok res new kv1 where p: "prepare_place srt False ubs [] [] kv = Some (Inr (ok, res, new, kv1))"
      "kv' = fold restore_state new kv1" "sis = (if ok then res else [])"
    using assms(4) by (auto simp: prepare_def Let_def split: option.splits sum.splits prod.splits if_splits)
  have "length (kv_v_heads kv1) = kv_n_stream kv" "\<And>hs. length hs = kv_n_stream kv \<Longrightarrow> \<exists>hs'. fold restore_state new (kv1\<lparr>kv_v_heads := hs\<rparr>) = kv\<lparr>kv_v_heads := hs'\<rparr>"
    using prepare_place_restores[OF assms(2,3), of srt "[]" "[]"] p(1) by auto
  from this(2)[OF this(1)] show hs: "\<exists>hs. kv' = kv\<lparr>kv_v_heads := hs\<rparr>" unfolding p(2) by simp
  assume "sis \<noteq> []"
  then have "prepare_place srt False ubs [] [] kv = Some (Inr (True, sis, new, kv1))" using p by (simp split: if_splits)
  from prepare_place_free[OF assms(2,3) this] have "free_slots kv sis ubs" by simp
  then show "free_slots kv' sis ubs" using free_slots_heads[OF rd(1) _ rd(2)] hs w by auto
qed

section \<open>Splitting for both caches\<close>

lemma splits_for_same: "kv_n_stream a = kv_n_stream b \<Longrightarrow> kv_seq_to_stream a = kv_seq_to_stream b \<Longrightarrow> splits_for split ba al a = splits_for split ba al b"
  unfolding splits_for_def ubatches_ok_def using ubatch_ok_same[of a b] by simp

lemma one_stream_equal:
  assumes wf: "batch_wf b" "batch_init npe b n_vocab memory n_embd n_seq_max oa = Inr al" "0 < n_seq_max" "0 < npe"
    and kv: "kv_fits kv n_seq_max" "kv_n_stream kv = 1" and pos: "\<forall>i < b_n_tokens b. 0 \<le> al_pos al ! i" and cpl: "\<not> (sequential \<and> al_has_cpl al)"
  shows "splits_for (split_equal n_ubatch sequential 0) b al kv"
proof -
  note r = accepted_ready[OF wf(1,2)]
  obtain sels where sels: "split_loop (Suc (b_n_tokens b)) (split_equal n_ubatch sequential 0) al =
      Some (Inr (map (\<lambda>sel. fst (ubatch_add sel al)) sels, split_state al (concat (map fst sels))))"
      "distinct (concat (map fst sels))" "set (concat (map fst sels)) = {..<b_n_tokens b}"
      "\<forall>k < length sels. \<exists>Ss r. equal_ok n_ubatch sequential 0 (split_state al (concat (map fst (take k sels)))) \<and>
         equal_selection n_ubatch sequential 0 (split_state al (concat (map fst (take k sels)))) Ss r \<and>
         sels ! k = (concat (prefixes (split_state al (concat (map fst (take k sels)))) Ss (\<lambda>_. r)), length Ss, True)"
    using equal_loop_sels[OF wf(1,2) cpl disjI1[OF refl], of n_ubatch] by (elim exE conjE) (rule that)
  have pos': "\<forall>i < b_n_tokens b. 0 \<le> in_pos b memory ! i" using pos unfolding r(1) by simp
  have "\<exists>n k. ubatch_ok kv (llama_ubatch.truncate (fst (ubatch_add sel al))) n k" if sel: "sel \<in> set sels" for sel
  proof -
    obtain j where "j < length sels" "sels ! j = sel" using sel unfolding in_set_conv_nth by blast
    then obtain A Ss rr where e: "equal_selection n_ubatch sequential 0 A Ss rr" "sel = (concat (prefixes A Ss (\<lambda>_. rr)), length Ss, True)"
      using sels(4) by blast
    have t: "takes A Ss rr" using e(1) unfolding equal_selection_def by blast
    then have "\<forall>xs \<in> set (prefixes A Ss (\<lambda>_. rr)). length xs = rr" "0 < rr" "Ss \<noteq> []" by (auto simp: prefixes_def takes_def min_def)
    then have ne: "concat (prefixes A Ss (\<lambda>_. rr)) \<noteq> []" by (cases Ss) (fastforce simp: prefixes_map)+
    have "set (fst sel) \<subseteq> {..<b_n_tokens b}" using sel sels(3) by auto
    then have sub: "set (concat (prefixes A Ss (\<lambda>_. rr))) \<subseteq> {..<b_n_tokens b}" unfolding e(2) by simp
    show ?thesis unfolding e(2) r(1) by (intro exI) (rule simple_ubatch_ok[OF wf(1) r(9) wf(3) sub wf(4) kv pos' ne])
  qed
  moreover have "length (concat (map fst sels)) = b_n_tokens b" using distinct_card[OF sels(2)] unfolding sels(3) by simp
  ultimately show ?thesis unfolding splits_for_def ubatches_ok_def sels(1) using r(3,10) by (intro exI conjI) (rule refl | auto)+
qed

lemma try_result:
  assumes srt: "score_sort srt" and ok: "iswa_ok (iswa_base m) (iswa_swa m)"
    and al: "split_reset al = al" "al_n_tokens al = b_n_tokens b" "splits_for split b al (iswa_base m)"
    and r: "iswa_try srt False split al m = Some (Inr (res, al', m'))"
  shows "(\<exists>hs. iswa_base m' = (iswa_base m)\<lparr>kv_v_heads := hs\<rparr>) \<and> kv_wf (iswa_base m') \<and> kv_below {} (iswa_swa m') (iswa_swa m) \<and> iswa_unified m' = iswa_unified m \<and>
    (\<forall>ctx. res = Some ctx \<longrightarrow> (\<exists>sb ss ubs. ctx = iswa_context_of ubs (context_batch sb ubs) (context_batch ss ubs) \<and>
       free_slots (iswa_base m') sb (map llama_ubatch.truncate ubs) \<and> slots_fit (iswa_swa m') ss (map llama_ubatch.truncate ubs)))"
proof -
  have k: "kv_ready (iswa_base m)" "kv_wf (iswa_swa m)" "kv_other (iswa_swa m) = None" using ok by (simp_all add: iswa_ok_def kv_ready_def)
  obtain ubs al1 where l: "split_loop (Suc (b_n_tokens b)) split al = Some (Inr (ubs, al1))" "al_n_used al1 = b_n_tokens b" "al_n_tokens al1 = b_n_tokens b"
      "ubatches_ok (iswa_base m) (map llama_ubatch.truncate ubs)" using al(3) unfolding splits_for_def by blast
  have us: "ubatches_ok (iswa_swa m) (map llama_ubatch.truncate ubs)"
    using l(4) ok ubatch_ok_same[of "iswa_base m" "iswa_swa m"] by (simp add: ubatches_ok_def iswa_ok_def)
  obtain sb base where pb: "prepare srt False (map llama_ubatch.truncate ubs) (iswa_base m) = Some (Inr (sb, base))"
    using r unfolding iswa_try_def Let_def al(1,2) l(1) using l(2,3) by (auto split: option.splits sum.splits)
  note b = prepare_base[OF srt k(1) l(4) pb]
  show ?thesis
  proof (cases "sb = []")
    case True
    then have "res = None" "m' = m\<lparr>iswa_base := base\<rparr>" using r unfolding iswa_try_def Let_def al(1,2) l(1) using l(2,3) pb by auto
    then show ?thesis using b(1,2) kv_below_refl[OF k(2)] by simp
  next
    case False
    then obtain ss swa where ps: "prepare srt False (map llama_ubatch.truncate ubs) (iswa_swa m) = Some (Inr (ss, swa))"
      using r unfolding iswa_try_def Let_def al(1,2) l(1) using l(2,3) pb by (auto split: option.splits sum.splits)
    note s = prepare_below[OF srt k(2,3) us ps]
    have m': "m' = m\<lparr>iswa_base := base, iswa_swa := swa\<rparr>"
        "res = None \<or> ss \<noteq> [] \<and> res = Some (iswa_context_of ubs (context_batch sb ubs) (context_batch ss ubs))"
      using r unfolding iswa_try_def Let_def al(1,2) l(1) using l(2,3) pb ps False by (auto split: if_splits)
    have conf: "kv_conf swa = kv_conf (iswa_swa m)" using s(1) by (simp add: kv_below_def)
    have "ss \<noteq> [] \<Longrightarrow> slots_fit swa ss (map llama_ubatch.truncate ubs)" using s(2) slots_fit_conf[OF conf] by simp
    then show ?thesis using m' b(1,2) b(3)[OF False] s(1) by auto
  qed
qed

end
