(* ===== verification/KvIswaReach.thy ===== *)
theory KvIswaReach
  imports KvIswaOk
begin

text \<open>
  The cache for sliding-window models as a state machine: what \<open>init_batch\<close> leaves, applying a context ubatch by ubatch, and the
  invariant that the cache without a window covers the cache with it.
\<close>

section \<open>The two attempts of \<open>init_batch\<close>\<close>





definition iswa_inv :: "llama_kv_cache_iswa \<Rightarrow> bool" where
  "iswa_inv m \<longleftrightarrow> iswa_ok (iswa_base m) (iswa_swa m) \<and> (iswa_unified m \<longrightarrow> kv_n_stream (iswa_base m) = 1) \<and> 0 < kv_n_stream (iswa_base m) \<and>
     (1 < kv_n_stream (iswa_base m) \<longrightarrow> kv_seq_to_stream (iswa_base m) = [0..<kv_n_stream (iswa_base m)]) \<and>
     (\<forall>st. pairs (iswa_swa m) st \<subseteq> pairs (iswa_base m) st)"








section \<open>Applying a context\<close>








section \<open>The state machine\<close>

lemma iswa_inv_update:
  assumes "iswa_inv m" "kv_wf base" "kv_wf swa" "static base = static (iswa_base m)" "static swa = static (iswa_swa m)"
    and "\<And>st. pairs swa st \<subseteq> pairs base st"
  shows "iswa_inv (m\<lparr>iswa_base := base, iswa_swa := swa\<rparr>)"
proof -
  have m: "iswa_unified m \<longrightarrow> kv_n_stream (iswa_base m) = 1" "0 < kv_n_stream (iswa_base m)"
    "1 < kv_n_stream (iswa_base m) \<longrightarrow> kv_seq_to_stream (iswa_base m) = [0..<kv_n_stream (iswa_base m)]"
    using assms(1) unfolding iswa_inv_def by blast+
  moreover have "iswa_ok base swa"
    using assms(1-3) static_simps[OF assms(4)] static_simps[OF assms(5)] by (simp add: iswa_inv_def iswa_ok_def)
  ultimately show ?thesis using static_simps(1,2)[OF assms(4)] assms(6) unfolding iswa_inv_def by simp
qed

context pair_op
begin

lemma both_keeps_inv:
  assumes "iswa_inv m" "iswa_both f m = Inr m'"
  shows "iswa_inv m'"
proof -
  obtain base swa where r: "f (iswa_base m) = Inr base" "f (iswa_swa m) = Inr swa" "m' = m\<lparr>iswa_base := base, iswa_swa := swa\<rparr>"
    using assms(2) by (auto simp: iswa_both_def split: sum.splits)
  have k: "kv_wf (iswa_base m)" "kv_wf (iswa_swa m)" "kv_other (iswa_base m) = None" "kv_other (iswa_swa m) = None"
      "kv_n_stream (iswa_base m) = kv_n_stream (iswa_swa m)" "kv_seq_to_stream (iswa_base m) = kv_seq_to_stream (iswa_swa m)"
    using assms(1) by (simp_all add: iswa_inv_def iswa_ok_def)
  have same: "static ((iswa_swa m)\<lparr>kv_swa_type := SWA_NONE\<rparr>) = static ((iswa_base m)\<lparr>kv_swa_type := SWA_NONE\<rparr>)"
    using k by (simp add: static_def)
  have "pairs swa st \<subseteq> pairs base st" for st
    using keeps_superset[OF k(2,1) same k(3) r(2,1)] assms(1) by (simp add: iswa_inv_def)
  then show ?thesis unfolding r(3)
    by (rule iswa_inv_update[OF assms(1) f_wf[OF k(1,3) r(1)] f_wf[OF k(2,4) r(2)] f_static[OF k(1,3) r(1)] f_static[OF k(2,4) r(2)]])
qed

end



















section \<open>The cache without a window covers the cache with it\<close>



section \<open>The eager sweep of the two caches\<close>

text \<open>The sweep judges each cache by the scores its own layers gave: with a floor it can take from the cache without a window what the other
  keeps. Here both hold the same cells, with scores below the floor in one and not in the other.\<close>

definition kv_scored :: llama_kv_cache where
  "kv_scored = kv_set_cells 0 (cells_scored (\<lambda>_ _ b. b) 1 (replicate 8 1) (cells_filled 8 8)) kv_full"

lemma sweep_breaks_superset:
  "iswa_inv \<lparr>iswa_unified = True, iswa_base = kv_full, iswa_swa = kv_scored\<rparr> \<and> pairs kv_scored 0 = pairs kv_full 0 \<and>
    (0, 7) \<in> pairs (snd (vitriol_policy_sweep kv_scored)) 0 \<and> (0, 7) \<notin> pairs (snd (vitriol_policy_sweep kv_full)) 0"
proof -
  let ?c = "cells_scored (\<lambda>_ _ b. b) 1 (replicate 8 1) (cells_filled 8 8)"
  have c: "cells_wf ?c" "cells_size ?c = 8" "cells_view ?c = cells_view (cells_filled 8 8)" "\<And>j. j < 8 \<Longrightarrow> c_score ?c ! j = 1"
  proof -
    show "cells_wf ?c" by (rule cells_scored_wf[OF cells_full(1)])
    show "cells_size ?c = 8" using cells_scored_size[OF cells_full(1)] cells_full(2) by simp
    show "cells_view ?c = cells_view (cells_filled 8 8)" by (simp add: cells_scored_def cells_view_def)
    show "c_score ?c ! j = 1" if "j < 8" for j using that cells_full(2,3) by (simp add: cells_scored_def)
  qed
  have cells: "kv_v_cells kv_scored = [?c]" "kv_n_stream kv_scored = 1" "kv_seq_to_stream kv_scored = replicate LLAMA_MAX_SEQ 0"
    "kv_other kv_scored = None" "kv_floor_sc kv_scored = 1" by (simp_all add: kv_scored_def kv_set_cells_def)
  have w: "kv_wf kv_scored" unfolding kv_scored_def by (rule kv_wf_set_cells) (simp_all add: c)
  have v: "kv_view kv_scored st = kv_view kv_full st" if "st < 1" for st using that c(3) by (simp add: kv_view_def cells)
  have p: "pairs kv_scored st = pairs kv_full st" for st using v[of st] by (simp add: pairs_def cells)
  have old: "(0, 7, 7) \<in> kv_view kv_full 0"
    using kv_view_iff[OF kv_full_wf, of 0 0 7 7] cells_filled[of 8 8] by (auto simp: cell_at_def)
  obtain n1 k1 where k1: "vitriol_policy_sweep kv_full = (n1, k1)" "only_evicts n1 kv_full k1"
      "\<And>s p i. (s, p, i) \<in> kv_view k1 0 \<longleftrightarrow> (s, p, i) \<in> kv_view kv_full 0 \<and> \<not> (4 \<le> i \<and> p \<le> 7 \<and> c_score (cells_filled 8 8) ! i < 1)"
    using policy_sweep_exact[of kv_full] by (auto simp: kv_full_pos_max)
  obtain n2 k2 where k2: "vitriol_policy_sweep kv_scored = (n2, k2)" "only_evicts n2 kv_scored k2"
      "\<And>s p i. (s, p, i) \<in> kv_view k2 0 \<Longrightarrow> (s, p, i) \<in> kv_view kv_scored 0" 
      "\<And>s p i. (s, p, i) \<in> kv_view kv_scored 0 \<Longrightarrow> \<not> (c_score ?c ! i < 1) \<Longrightarrow> (s, p, i) \<in> kv_view k2 0"
    using policy_sweep_exact[OF w] by (auto simp: cells)
  have "(0, 7, 7) \<in> kv_view k2 0" using k2(4)[of 0 7 7] old v[of 0] c(4)[of 7] by simp
  then have in2: "(0, 7) \<in> pairs k2 0" using only_evicts_simps(2)[OF k2(2)] by (auto simp: pairs_def cells)
  have "(0, 7, i) \<notin> kv_view k1 0" for i
    using k1(3)[of 0 7 i] kv_view_iff[OF kv_full_wf, of 0 0 7 i] cells_full(3,4)[of i] by auto
  then have "(0, 7) \<notin> pairs k1 0" by (auto simp: pairs_def)
  moreover have "iswa_inv \<lparr>iswa_unified = True, iswa_base = kv_full, iswa_swa = kv_scored\<rparr>"
    using w p by (simp add: iswa_inv_def iswa_ok_def cells)
  ultimately show ?thesis using in2 p k1(1) k2(1) by simp
qed
end
