(* ===== verification/Recurrent.thy ===== *)
theory Recurrent
  imports KvIswa
begin

text \<open>
  The memory of recurrent models (\<open>engine/src/llama-memory-recurrent.cpp\<close>): every cell holds the state of one or several sequences,
  and entry \<open>s\<close> of the cells also records, as \<open>tail\<close>, which cell holds sequence \<open>s\<close>. Tensors and the saving of states are left out;
  what is kept of them is which cell a state is copied from (\<open>src0\<close>).
\<close>

section \<open>State\<close>

record mem_cell =
  mc_pos :: llama_pos
  mc_src :: int
  mc_src0 :: int
  mc_tail :: int
  mc_seq_id :: "llama_seq_id set"

record llama_memory_recurrent =
  rm_head :: nat
  rm_size :: nat
  rm_used :: nat
  rm_n_rs_seq :: nat
  rm_rs_idx :: "nat list"
  rm_n :: nat
  rm_rs_z :: int
  rm_n_seq_max :: nat
  rm_cells :: "mem_cell list"

definition mem_cell_new :: mem_cell where
  "mem_cell_new = \<lparr>mc_pos = -1, mc_src = -1, mc_src0 = -1, mc_tail = -1, mc_seq_id = {}\<rparr>"

definition rec_init :: "nat \<Rightarrow> nat \<Rightarrow> nat \<Rightarrow> llama_memory_recurrent" where
  "rec_init mem_size n_seq_max n_rs_seq =
     \<lparr>rm_head = 0, rm_size = mem_size, rm_used = 0, rm_n_rs_seq = n_rs_seq, rm_rs_idx = replicate n_seq_max 0, rm_n = 0, rm_rs_z = -1,
      rm_n_seq_max = n_seq_max, rm_cells = replicate mem_size mem_cell_new\<rparr>"

text \<open>An update of one cell; the conversion of a sequence to an unsigned number.\<close>

definition upd_cell :: "nat \<Rightarrow> (mem_cell \<Rightarrow> mem_cell) \<Rightarrow> mem_cell list \<Rightarrow> mem_cell list" where
  "upd_cell i f cells = cells[i := f (cells ! i)]"

definition seq_u32 :: "llama_seq_id \<Rightarrow> nat" where
  "seq_u32 s = nat (s mod 2 ^ 32)"

section \<open>Operations on sequences\<close>

definition rec_clear :: "llama_memory_recurrent \<Rightarrow> llama_memory_recurrent" where
  "rec_clear m =
     m\<lparr>rm_cells := map (\<lambda>c. c\<lparr>mc_pos := -1, mc_seq_id := {}, mc_src := -1, mc_tail := -1\<rparr>) (rm_cells m), rm_head := 0, rm_used := 0,
       rm_rs_idx := replicate (length (rm_rs_idx m)) 0\<rparr>"

definition set_rs_idx :: "llama_seq_id \<Rightarrow> nat \<Rightarrow> llama_memory_recurrent \<Rightarrow> err + llama_memory_recurrent" where
  "set_rs_idx seq_id idx m =
     (if seq_id < 0 then Inr (m\<lparr>rm_rs_idx := replicate (length (rm_rs_idx m)) 0\<rparr>)
      else if \<not> seq_u32 seq_id < rm_n_seq_max m then Inl Assert_failed
      else if \<not> idx \<le> rm_n_rs_seq m then Inl Assert_failed
      else Inr (m\<lparr>rm_rs_idx := (rm_rs_idx m)[nat seq_id := idx]\<rparr>))"

text \<open>The loop of \<open>seq_rm\<close> over the cells: cells, used cells and the first cell freed.\<close>

definition rm_cell :: "nat \<Rightarrow> llama_seq_id \<Rightarrow> llama_pos \<Rightarrow> llama_pos \<Rightarrow> nat \<Rightarrow> mem_cell list \<times> nat \<times> nat \<Rightarrow> mem_cell list \<times> nat \<times> nat" where
  "rm_cell sz seq_id p0 p1 i = (\<lambda>(cells, used, new_head).
     let c = cells ! i in
     if mc_pos c \<ge> p0 \<and> mc_pos c < p1 \<and> (seq_id < 0 \<or> seq_id \<in> mc_seq_id c) then
       let ids = (if seq_id < 0 then {} else mc_seq_id c - {seq_id}) in
       if ids = {} then (cells[i := c\<lparr>mc_seq_id := {}, mc_pos := -1, mc_src := -1\<rparr>],
                         if mc_pos c \<ge> 0 then u32_sub used 1 else used, if new_head = sz then i else new_head)
       else (cells[i := c\<lparr>mc_seq_id := ids\<rparr>], used, new_head)
     else (cells, used, new_head))"

definition set_new_head :: "nat \<Rightarrow> llama_memory_recurrent \<Rightarrow> llama_memory_recurrent" where
  "set_new_head new_head m = (if new_head \<noteq> rm_size m \<and> new_head < rm_head m then m\<lparr>rm_head := new_head\<rparr> else m)"

definition rm_cells_loop :: "llama_seq_id \<Rightarrow> llama_pos \<Rightarrow> llama_pos \<Rightarrow> llama_memory_recurrent \<Rightarrow> llama_memory_recurrent" where
  "rm_cells_loop seq_id p0 p1 m =
     (let (cells, used, new_head) = fold (rm_cell (rm_size m) seq_id p0 p1) [0..<rm_size m] (rm_cells m, rm_used m, rm_size m)
      in set_new_head new_head (m\<lparr>rm_cells := cells, rm_used := used\<rparr>))"

definition rec_seq_rm :: "llama_seq_id \<Rightarrow> llama_pos \<Rightarrow> llama_pos \<Rightarrow> llama_memory_recurrent \<Rightarrow> err + bool \<times> llama_memory_recurrent" where
  "rec_seq_rm seq_id p0 p1 m =
     (let p0 = clamp_p0 p0; p1 = clamp_p1 p1 in
      if seq_u32 seq_id \<ge> rm_n_seq_max m then Inr (False, m)
      else
        case (if p0 = 0 \<and> p1 = INT32_MAX then set_rs_idx seq_id 0 m else Inr m) of
          Inl e \<Rightarrow> Inl e
        | Inr m \<Rightarrow>
            if seq_id \<ge> int (rm_size m) then Inr (False, m)
            else if 0 \<le> seq_id then
              let tail_id = mc_tail (rm_cells m ! nat seq_id) in
              if tail_id \<ge> 0 then
                let pos = mc_pos (rm_cells m ! nat tail_id) in
                if 0 < p0 \<and> p0 \<le> pos \<and> p1 > pos then
                  let rollback = pos - (p0 - 1) in
                  if rm_rs_idx m ! nat seq_id = 0 \<and> rollback \<ge> 1 \<and> rollback \<le> int (rm_n_rs_seq m) then
                    (case set_rs_idx seq_id (nat rollback) m of
                       Inl e \<Rightarrow> Inl e
                     | Inr m \<Rightarrow> Inr (True, m\<lparr>rm_cells := upd_cell (nat tail_id) (\<lambda>c. c\<lparr>mc_pos := p0 - 1\<rparr>) (rm_cells m)\<rparr>))
                  else Inr (False, m)
                else if p0 \<le> pos \<and> pos < p1 then
                  Inr (True, rm_cells_loop seq_id p0 p1 (m\<lparr>rm_cells := upd_cell (nat seq_id) (\<lambda>c. c\<lparr>mc_tail := -1\<rparr>) (rm_cells m)\<rparr>))
                else Inr (True, rm_cells_loop seq_id p0 p1 m)
              else Inr (True, rm_cells_loop seq_id p0 p1 m)
            else if p0 \<noteq> p1 \<and> (p0 \<noteq> 0 \<or> p1 \<noteq> INT32_MAX) then Inr (False, m)
            else Inr (True, rm_cells_loop seq_id p0 p1 m))"

text \<open>A sequence leaves its cell, which is emptied when it was the last one (in \<open>seq_cp\<close> and in \<open>find_slot\<close>).\<close>

definition drop_tail :: "nat \<Rightarrow> mem_cell list \<times> nat \<Rightarrow> mem_cell list \<times> nat" where
  "drop_tail s = (\<lambda>(cells, used).
     if mc_tail (cells ! s) \<ge> 0 then
       let t = nat (mc_tail (cells ! s));
           cells = upd_cell t (\<lambda>c. c\<lparr>mc_seq_id := mc_seq_id c - {int s}\<rparr>) cells;
           cells = upd_cell s (\<lambda>c. c\<lparr>mc_tail := -1\<rparr>) cells
       in if mc_seq_id (cells ! t) = {} then (upd_cell t (\<lambda>c. c\<lparr>mc_pos := -1, mc_src := -1\<rparr>) cells, u32_sub used 1)
          else (cells, used)
     else (cells, used))"

definition rec_seq_cp :: "llama_seq_id \<Rightarrow> llama_seq_id \<Rightarrow> llama_pos \<Rightarrow> llama_pos \<Rightarrow> llama_memory_recurrent \<Rightarrow> llama_memory_recurrent" where
  "rec_seq_cp src dst p0 p1 m =
     (if src = dst then m
      else if seq_u32 dst < rm_size m \<and> seq_u32 src < rm_size m then
        let (cells, used) = drop_tail (nat dst) (rm_cells m, rm_used m);
            tail = mc_tail (cells ! nat src);
            cells = (if tail \<ge> 0 then upd_cell (nat dst) (\<lambda>c. c\<lparr>mc_tail := tail\<rparr>)
                                       (upd_cell (nat tail) (\<lambda>c. c\<lparr>mc_seq_id := insert dst (mc_seq_id c)\<rparr>) cells)
                     else cells)
        in m\<lparr>rm_cells := cells, rm_used := used\<rparr>
      else m)"

definition keep_cell :: "nat \<Rightarrow> llama_seq_id \<Rightarrow> nat \<Rightarrow> mem_cell list \<times> nat \<times> nat \<Rightarrow> mem_cell list \<times> nat \<times> nat" where
  "keep_cell sz seq_id i = (\<lambda>(cells, used, new_head).
     let c = (if int i \<noteq> seq_id then (cells ! i)\<lparr>mc_tail := -1\<rparr> else cells ! i) in
     if seq_id \<notin> mc_seq_id c then
       (cells[i := c\<lparr>mc_pos := -1, mc_src := -1, mc_seq_id := {}\<rparr>], if mc_pos c \<ge> 0 then u32_sub used 1 else used,
        if new_head = sz then i else new_head)
     else (cells[i := c\<lparr>mc_seq_id := {seq_id}\<rparr>], used, new_head))"

definition rec_seq_keep :: "llama_seq_id \<Rightarrow> llama_memory_recurrent \<Rightarrow> llama_memory_recurrent" where
  "rec_seq_keep seq_id m =
     (let (cells, used, new_head) = fold (keep_cell (rm_size m) seq_id) [0..<rm_size m] (rm_cells m, rm_used m, rm_size m)
      in set_new_head new_head (m\<lparr>rm_cells := cells, rm_used := used\<rparr>))"

text \<open>The position of a sequence, moved or divided if it lies in the range.\<close>

definition map_tail_pos :: "llama_seq_id \<Rightarrow> llama_pos \<Rightarrow> llama_pos \<Rightarrow> (llama_pos \<Rightarrow> llama_pos) \<Rightarrow> llama_memory_recurrent \<Rightarrow> llama_memory_recurrent" where
  "map_tail_pos seq_id p0 p1 f m =
     (if 0 \<le> seq_id \<and> seq_id < int (rm_size m) then
        let tail_id = mc_tail (rm_cells m ! nat seq_id) in
        if tail_id \<ge> 0 then
          let c = rm_cells m ! nat tail_id in
          if seq_id \<in> mc_seq_id c \<and> p0 \<le> mc_pos c \<and> mc_pos c < p1
          then m\<lparr>rm_cells := upd_cell (nat tail_id) (\<lambda>c. c\<lparr>mc_pos := f (mc_pos c)\<rparr>) (rm_cells m)\<rparr> else m
        else m
      else m)"

definition rec_seq_add :: "llama_seq_id \<Rightarrow> llama_pos \<Rightarrow> llama_pos \<Rightarrow> llama_pos \<Rightarrow> llama_memory_recurrent \<Rightarrow> llama_memory_recurrent" where
  "rec_seq_add seq_id p0 p1 shift m =
     (let p0 = clamp_p0 p0; p1 = clamp_p1 p1 in
      if shift = 0 \<or> p0 = p1 then m else map_tail_pos seq_id p0 p1 (\<lambda>p. p + shift) m)"

definition rec_seq_div :: "llama_seq_id \<Rightarrow> llama_pos \<Rightarrow> llama_pos \<Rightarrow> int \<Rightarrow> llama_memory_recurrent \<Rightarrow> llama_memory_recurrent" where
  "rec_seq_div seq_id p0 p1 d m =
     (let p0 = clamp_p0 p0; p1 = clamp_p1 p1 in
      if d = 1 \<or> p0 = p1 then m else map_tail_pos seq_id p0 p1 (\<lambda>p. trunc_div p d) m)"

definition rec_seq_pos_min :: "llama_seq_id \<Rightarrow> llama_memory_recurrent \<Rightarrow> llama_pos" where
  "rec_seq_pos_min seq_id m =
     (let result = fold (\<lambda>c result. if seq_id \<in> mc_seq_id c then min result (mc_pos c) else result) (rm_cells m) INT32_MAX
      in if result = INT32_MAX then -1 else result)"

definition rec_seq_pos_max :: "llama_seq_id \<Rightarrow> llama_memory_recurrent \<Rightarrow> llama_pos" where
  "rec_seq_pos_max seq_id m = fold (\<lambda>c result. if seq_id \<in> mc_seq_id c then max result (mc_pos c) else result) (rm_cells m) (-1)"

section \<open>Finding a slot\<close>

text \<open>The sequences of the first token of the \<open>s\<close>-th sequence set of a ubatch; the first one stands for the set.\<close>

definition set_ids :: "llama_ubatch_full \<Rightarrow> nat \<Rightarrow> llama_seq_id list" where
  "set_ids ub s = (let i = s * ub_n_seq_tokens ub in map (\<lambda>j. ub_seq_id ub ! i ! j) [0..<ub_n_seq_id ub ! i])"

definition first_id :: "llama_ubatch_full \<Rightarrow> nat \<Rightarrow> nat" where
  "first_id ub s = nat (ub_seq_id ub ! (s * ub_n_seq_tokens ub) ! 0)"

text \<open>The check of the sequences: whether all are in range, and the cells without those that become shared.\<close>

fun check_set :: "nat \<Rightarrow> bool \<Rightarrow> llama_seq_id list \<Rightarrow> mem_cell list \<times> nat \<Rightarrow> bool \<times> mem_cell list \<times> nat" where
  "check_set sz first [] st = (True, st)"
| "check_set sz first (seq_id # ids) st =
     (if seq_id < 0 \<or> seq_u32 seq_id \<ge> sz then (False, st)
      else check_set sz False ids (if first then st else drop_tail (nat seq_id) st))"

fun check_sets :: "nat \<Rightarrow> llama_seq_id list list \<Rightarrow> mem_cell list \<times> nat \<Rightarrow> bool \<times> mem_cell list \<times> nat" where
  "check_sets sz [] st = (True, st)"
| "check_sets sz (ids # rest) st =
     (case check_set sz True ids st of (True, st) \<Rightarrow> check_sets sz rest st | (False, st) \<Rightarrow> (False, st))"

text \<open>The search for an empty cell from the head on, and the search for the next one.\<close>

fun first_empty :: "mem_cell list \<Rightarrow> nat \<Rightarrow> nat \<Rightarrow> nat" where
  "first_empty cells 0 next_cell = next_cell"
| "first_empty cells (Suc k) next_cell =
     (let next_cell = (if next_cell \<ge> length cells then next_cell - length cells else next_cell)
      in if mc_seq_id (cells ! next_cell) = {} then next_cell else first_empty cells k (next_cell + 1))"

fun next_empty :: "mem_cell list \<Rightarrow> nat \<Rightarrow> nat \<Rightarrow> nat" where
  "next_empty cells 0 next_cell = next_cell"
| "next_empty cells (Suc k) next_cell =
     (let next_cell = next_cell + 1; next_cell = (if next_cell \<ge> length cells then next_cell - length cells else next_cell)
      in if mc_seq_id (cells ! next_cell) = {} then next_cell else next_empty cells k next_cell)"

text \<open>One round of the loop that gives every set a cell of its own.\<close>

definition own_cell :: "llama_ubatch_full \<Rightarrow> nat \<Rightarrow> mem_cell list \<times> nat \<times> int \<times> int \<Rightarrow> err + mem_cell list \<times> nat \<times> int \<times> int" where
  "own_cell ub s = (\<lambda>(cells, next_cell, lo, hi).
     let seq_id = first_id ub s; tail = mc_tail (cells ! seq_id) in
     if tail \<ge> 0 \<and> int seq_id \<notin> mc_seq_id (cells ! nat tail) then Inl Assert_failed
     else if tail \<ge> 0 \<and> card (mc_seq_id (cells ! nat tail)) = 1 then Inr (cells, next_cell, min lo tail, max hi tail)
     else if \<not> next_cell < length cells then Inl Out_of_range
     else if mc_seq_id (cells ! next_cell) \<noteq> {} then Inl Assert_failed
     else
       let orig = cells ! nat tail;
           cells = (if tail \<ge> 0 then upd_cell (nat tail) (\<lambda>c. c\<lparr>mc_seq_id := mc_seq_id c - {int seq_id}\<rparr>)
                      (upd_cell next_cell (\<lambda>c. c\<lparr>mc_pos := mc_pos orig, mc_src := mc_src orig, mc_seq_id := insert (int seq_id) (mc_seq_id c)\<rparr>) cells)
                    else cells)
       in if tail \<ge> 0 \<and> mc_seq_id (cells ! nat tail) = {} then Inl Assert_failed
          else
            let cells = upd_cell seq_id (\<lambda>c. c\<lparr>mc_tail := int next_cell\<rparr>) cells
            in Inr (cells, if s + 1 < ub_n_seqs ub then next_empty cells (length cells) next_cell else next_cell,
                    min lo (int next_cell), max hi (int next_cell)))"

fun own_cells :: "llama_ubatch_full \<Rightarrow> nat list \<Rightarrow> mem_cell list \<times> nat \<times> int \<times> int \<Rightarrow> err + mem_cell list \<times> nat \<times> int \<times> int" where
  "own_cells ub [] st = Inr st"
| "own_cells ub (s # ss) st = (case own_cell ub s st of Inl e \<Rightarrow> Inl e | Inr st \<Rightarrow> own_cells ub ss st)"

text \<open>The cells of the sets become adjacent: two cells trade places, and the tails follow them.\<close>

definition swap_cells :: "nat \<Rightarrow> nat \<Rightarrow> mem_cell list \<Rightarrow> mem_cell list" where
  "swap_cells a b cells =
     (let x = cells ! a; y = cells ! b;
          cells = cells[a := x\<lparr>mc_pos := mc_pos y, mc_src := mc_src y, mc_seq_id := mc_seq_id y\<rparr>,
                        b := y\<lparr>mc_pos := mc_pos x, mc_src := mc_src x, mc_seq_id := mc_seq_id x\<rparr>]
      in map (\<lambda>c. if mc_tail c = int b then c\<lparr>mc_tail := int a\<rparr> else if mc_tail c = int a then c\<lparr>mc_tail := int b\<rparr> else c) cells)"

definition gather_cell :: "llama_ubatch_full \<Rightarrow> nat \<Rightarrow> nat \<Rightarrow> mem_cell list \<Rightarrow> mem_cell list" where
  "gather_cell ub lo s cells =
     (let dst_id = s + lo; src_id = nat (mc_tail (cells ! first_id ub s)) in if dst_id \<noteq> src_id then swap_cells dst_id src_id cells else cells)"

definition place_set :: "llama_ubatch_full \<Rightarrow> nat \<Rightarrow> nat \<Rightarrow> mem_cell list \<Rightarrow> mem_cell list" where
  "place_set ub lo s cells =
     (let last_pos = ub_pos ub ! (s * ub_n_seq_tokens ub + ub_n_seq_tokens ub - 1);
          cells = upd_cell (s + lo) (\<lambda>c. c\<lparr>mc_pos := last_pos, mc_seq_id := set (set_ids ub s)\<rparr>) cells
      in fold (\<lambda>seq_id. upd_cell (nat seq_id) (\<lambda>c. c\<lparr>mc_tail := int (s + lo)\<rparr>)) (set_ids ub s) cells)"

text \<open>The first cell of the slot that no cell takes its state from, and the cells to take the states from.\<close>

definition zero_cell :: "mem_cell list \<Rightarrow> nat \<Rightarrow> nat \<Rightarrow> int" where
  "zero_cell cells lo hi =
     (case filter (\<lambda>i. \<forall>c \<in> set cells. mc_src c \<noteq> int i) [lo..<Suc hi] of [] \<Rightarrow> -1 | i # _ \<Rightarrow> int i)"

definition stage_sources :: "int \<Rightarrow> nat \<Rightarrow> nat \<Rightarrow> mem_cell list \<Rightarrow> mem_cell list" where
  "stage_sources rs_z lo hi = fold (\<lambda>i. upd_cell i (\<lambda>c. c\<lparr>mc_src0 := (if mc_src c < 0 then rs_z else mc_src c), mc_src := int i\<rparr>)) [lo..<Suc hi]"

definition rec_find_slot :: "llama_ubatch_full \<Rightarrow> llama_memory_recurrent \<Rightarrow> err + bool \<times> llama_memory_recurrent" where
  "rec_find_slot ub m =
     (let n_seqs = ub_n_seqs ub;
          m = (if rm_head m > u32 (rm_used m + 2 * n_seqs) then m\<lparr>rm_head := 0\<rparr> else m)
      in if \<not> ub_equal_seqs ub then Inl Assert_failed
         else case check_sets (rm_size m) (map (set_ids ub) [0..<n_seqs]) (rm_cells m, rm_used m) of
           (False, cells, used) \<Rightarrow> Inr (False, m\<lparr>rm_cells := cells, rm_used := used\<rparr>)
         | (True, cells, used) \<Rightarrow>
             (case own_cells ub [0..<n_seqs] (cells, first_empty cells (rm_size m) (rm_head m), int (rm_size m) - 1, 0) of
                Inl e \<Rightarrow> Inl e
              | Inr (cells, _, lo, hi) \<Rightarrow>
                  let cells = fold (gather_cell ub (nat lo)) [0..<n_seqs] cells;
                      cells = fold (place_set ub (nat lo)) [0..<n_seqs] cells;
                      rs_z = zero_cell cells (nat lo) (nat hi)
                  in if rs_z < 0 \<and> list_ex (\<lambda>i. mc_src (cells ! i) < 0) [nat lo..<Suc (nat hi)] then Inl Assert_failed
                     else
                       let cells = stage_sources rs_z (nat lo) (nat hi) cells; n = nat (hi - lo + 1)
                       in Inr (n \<ge> n_seqs, m\<lparr>rm_cells := cells, rm_rs_z := rs_z, rm_head := nat lo, rm_n := n,
                            rm_used := length (filter (\<lambda>c. mc_seq_id c \<noteq> {}) cells)\<rparr>)))"

section \<open>Batches\<close>

fun find_slots :: "llama_ubatch_full list \<Rightarrow> llama_memory_recurrent \<Rightarrow> err + bool \<times> llama_memory_recurrent" where
  "find_slots [] m = Inr (True, m)"
| "find_slots (ub # ubs) m =
     (case rec_find_slot ub m of Inl e \<Rightarrow> Inl e | Inr (False, m) \<Rightarrow> Inr (False, m) | Inr (True, m) \<Rightarrow> find_slots ubs m)"

definition rec_prepare :: "llama_ubatch_full list \<Rightarrow> llama_memory_recurrent \<Rightarrow> err + bool \<times> llama_memory_recurrent" where
  "rec_prepare ubatches m =
     (case find_slots ubatches m of
        Inl e \<Rightarrow> Inl e
      | Inr (success, m') \<Rightarrow> Inr (success, m'\<lparr>rm_cells := rm_cells m, rm_used := rm_used m, rm_head := rm_head m\<rparr>))"

definition rec_split :: "nat \<Rightarrow> bool \<Rightarrow> bool \<Rightarrow> nat \<Rightarrow> llama_batch_allocr \<Rightarrow> batch_error + llama_ubatch_full option \<times> llama_batch_allocr" where
  "rec_split n_ubatch embd_all sequential n_rs_seq al =
     (if embd_all then Inr (split_seq n_ubatch al) else split_equal n_ubatch sequential (if n_rs_seq > 0 then n_rs_seq + 1 else 0) al)"

text \<open>\<open>init_batch\<close>: the ubatches of the context, or its failure.\<close>

definition rec_init_batch :: "nat \<Rightarrow> bool \<Rightarrow> llama_batch_allocr \<Rightarrow> llama_memory_recurrent \<Rightarrow>
    (err + llama_ubatch_full list option \<times> llama_batch_allocr \<times> llama_memory_recurrent) option" where
  "rec_init_batch n_ubatch embd_all al m =
     (let al = split_reset al in
      case split_loop (Suc (al_n_tokens al)) (rec_split n_ubatch embd_all True (rm_n_rs_seq m)) al of
        None \<Rightarrow> None
      | Some (Inl e) \<Rightarrow> Some (Inl Assert_failed)
      | Some (Inr (ubatches, al)) \<Rightarrow>
          if al_n_used al < al_n_tokens al then Some (Inr (None, al, m))
          else case rec_prepare ubatches m of
            Inl e \<Rightarrow> Some (Inl e)
          | Inr (success, m) \<Rightarrow> Some (Inr (if success then Some ubatches else None, al, m)))"

section \<open>Contexts\<close>

record rec_context =
  rc_status :: llama_memory_status
  rc_is_full :: bool
  rc_ubatches :: "llama_ubatch_full list"
  rc_i_next :: nat

definition rec_context_status :: "llama_memory_status \<Rightarrow> rec_context" where
  "rec_context_status status = \<lparr>rc_status = status, rc_is_full = False, rc_ubatches = [], rc_i_next = 0\<rparr>"

definition rec_context_full :: rec_context where
  "rec_context_full = (rec_context_status STATUS_SUCCESS)\<lparr>rc_is_full := True\<rparr>"

definition rec_context_batch :: "llama_ubatch_full list \<Rightarrow> rec_context" where
  "rec_context_batch ubatches = (rec_context_status STATUS_SUCCESS)\<lparr>rc_ubatches := ubatches\<rparr>"

definition rec_context_next :: "rec_context \<Rightarrow> err + bool \<times> rec_context" where
  "rec_context_next ctx =
     (if rc_status ctx \<noteq> STATUS_SUCCESS then Inl Assert_failed
      else let ctx = ctx\<lparr>rc_i_next := rc_i_next ctx + 1\<rparr> in Inr (rc_i_next ctx < length (rc_ubatches ctx), ctx))"

text \<open>\<open>apply\<close> does not look at the result of \<open>find_slot\<close>.\<close>

definition rec_context_apply :: "rec_context \<Rightarrow> llama_memory_recurrent \<Rightarrow> err + llama_memory_recurrent" where
  "rec_context_apply ctx m =
     (if llama_memory_status_is_fail (rc_status ctx) then Inl Assert_failed
      else if rc_ubatches ctx = [] then if rc_status ctx = STATUS_NO_UPDATE then Inr m else Inl Assert_failed
      else if \<not> rc_i_next ctx < length (rc_ubatches ctx) then Inl Out_of_range
      else (case rec_find_slot (rc_ubatches ctx ! rc_i_next ctx) m of Inl e \<Rightarrow> Inl e | Inr (_, m) \<Rightarrow> Inr m))"

definition get_n_rs :: "rec_context \<Rightarrow> llama_memory_recurrent \<Rightarrow> nat" where
  "get_n_rs ctx m = (if rc_is_full ctx then rm_size m else rm_n m)"

definition get_head :: "rec_context \<Rightarrow> llama_memory_recurrent \<Rightarrow> nat" where
  "get_head ctx m = (if rc_is_full ctx then 0 else rm_head m)"

definition get_rs_z :: "rec_context \<Rightarrow> llama_memory_recurrent \<Rightarrow> int" where
  "get_rs_z ctx m = (if rc_is_full ctx then 0 else rm_rs_z m)"

text \<open>The row of the state tensors a cell of the slot is loaded from; a pending rollback of its first sequence is used up.\<close>

definition s_copy :: "nat \<Rightarrow> llama_memory_recurrent \<Rightarrow> int \<times> llama_memory_recurrent" where
  "s_copy i m =
     (let c = rm_cells m ! (i + rm_head m); src0 = mc_src0 c in
      if rm_n_rs_seq m = 0 then (src0, m)
      else if mc_seq_id c \<noteq> {} then
        let seq = Min (mc_seq_id c) in
        if seq \<ge> 0 \<and> nat seq < length (rm_rs_idx m)
        then (signed_take_bit 31 (int (rm_rs_idx m ! nat seq * rm_size m)) + src0, m\<lparr>rm_rs_idx := (rm_rs_idx m)[nat seq := 0]\<rparr>)
        else (src0, m)
      else (src0, m))"

end
