(* ===== verification/RecurrentOk.thy ===== *)
theory RecurrentOk
  imports Recurrent
begin

text \<open>
  The memory of recurrent models: the tails agree with the sequences of the cells after every operation (the debug code of \<open>find_slot\<close>
  checks this), \<open>find_slot\<close> fails no assertion, and the states follow their sequences.
\<close>

section \<open>Cells and tails\<close>

lemma upd_cell_len [simp]: "length (upd_cell i f cs) = length cs"
  by (simp add: upd_cell_def)

lemma upd_cell_nth [simp]: "j < length cs \<Longrightarrow> upd_cell i f cs ! j = (if i = j then f (cs ! j) else cs ! j)"
  by (simp add: upd_cell_def nth_list_update)

text \<open>Tails and cells agree, but for sequences that have a cell that does not list them yet.\<close>

definition tails_but :: "nat set \<Rightarrow> mem_cell list \<Rightarrow> bool" where
  "tails_but D cs \<longleftrightarrow> (\<forall>i < length cs. mc_seq_id (cs ! i) \<subseteq> int ` {..<length cs}) \<and>
     (\<forall>s < length cs. -1 \<le> mc_tail (cs ! s) \<and> mc_tail (cs ! s) < int (length cs)) \<and>
     (\<forall>s < length cs. \<forall>i < length cs. int s \<in> mc_seq_id (cs ! i) \<longleftrightarrow> mc_tail (cs ! s) = int i \<and> s \<notin> D)"

abbreviation tails_ok :: "mem_cell list \<Rightarrow> bool" where
  "tails_ok \<equiv> tails_but {}"

lemma tails_butD:
  assumes "tails_but D cs"
  shows "i < length cs \<Longrightarrow> x \<in> mc_seq_id (cs ! i) \<Longrightarrow> \<exists>s < length cs. x = int s"
    "s < length cs \<Longrightarrow> -1 \<le> mc_tail (cs ! s)" "s < length cs \<Longrightarrow> mc_tail (cs ! s) < int (length cs)"
    "s < length cs \<Longrightarrow> i < length cs \<Longrightarrow> int s \<in> mc_seq_id (cs ! i) \<longleftrightarrow> mc_tail (cs ! s) = int i \<and> s \<notin> D"
proof -
  note d = assms[unfolded tails_but_def]
  show "i < length cs \<Longrightarrow> x \<in> mc_seq_id (cs ! i) \<Longrightarrow> \<exists>s < length cs. x = int s" using d by fastforce
  show "s < length cs \<Longrightarrow> -1 \<le> mc_tail (cs ! s)" "s < length cs \<Longrightarrow> mc_tail (cs ! s) < int (length cs)"
    "s < length cs \<Longrightarrow> i < length cs \<Longrightarrow> int s \<in> mc_seq_id (cs ! i) \<longleftrightarrow> mc_tail (cs ! s) = int i \<and> s \<notin> D" using d by blast+
qed

lemma tails_butI:
  assumes "\<And>i x. i < length cs \<Longrightarrow> x \<in> mc_seq_id (cs ! i) \<Longrightarrow> \<exists>s < length cs. x = int s"
    and "\<And>s. s < length cs \<Longrightarrow> -1 \<le> mc_tail (cs ! s) \<and> mc_tail (cs ! s) < int (length cs)"
    and "\<And>s i. s < length cs \<Longrightarrow> i < length cs \<Longrightarrow> int s \<in> mc_seq_id (cs ! i) \<longleftrightarrow> mc_tail (cs ! s) = int i \<and> s \<notin> D"
  shows "tails_but D cs"
proof -
  have "\<forall>i < length cs. mc_seq_id (cs ! i) \<subseteq> int ` {..<length cs}" using assms(1) by blast
  then show ?thesis unfolding tails_but_def using assms(2,3) by blast
qed

lemma tail_index:
  assumes "tails_but D cs" "s < length cs" "0 \<le> mc_tail (cs ! s)"
  shows "nat (mc_tail (cs ! s)) < length cs" "int (nat (mc_tail (cs ! s))) = mc_tail (cs ! s)"
  using tails_butD(3)[OF assms(1,2)] assms(3) by linarith+

lemma ids_of_tails:
  assumes "tails_but D cs" "i < length cs"
  shows "mc_seq_id (cs ! i) = int ` {s. s < length cs \<and> mc_tail (cs ! s) = int i \<and> s \<notin> D}"
proof (intro equalityI subsetI)
  fix x assume "x \<in> mc_seq_id (cs ! i)"
  then show "x \<in> int ` {s. s < length cs \<and> mc_tail (cs ! s) = int i \<and> s \<notin> D}"
    using tails_butD(1,4)[OF assms(1)] assms(2) by blast
qed (use tails_butD(4)[OF assms(1)] assms(2) in auto)

lemma ids_finite: "tails_but D cs \<Longrightarrow> i < length cs \<Longrightarrow> finite (mc_seq_id (cs ! i))"
  by (simp add: ids_of_tails)

text \<open>A sequence that does not share its cell, and a cell no sequence has.\<close>

definition sole :: "mem_cell list \<Rightarrow> nat \<Rightarrow> bool" where
  "sole cs s \<longleftrightarrow> 0 \<le> mc_tail (cs ! s) \<and> (\<forall>t < length cs. mc_tail (cs ! t) = mc_tail (cs ! s) \<longrightarrow> t = s)"

definition free :: "mem_cell list \<Rightarrow> nat \<Rightarrow> bool" where
  "free cs i \<longleftrightarrow> (\<forall>t < length cs. mc_tail (cs ! t) \<noteq> int i)"

text \<open>There are as many cells as sequences, so a sequence without a cell of its own finds a free one.\<close>

lemma free_exists:
  assumes "tails_but D cs" "s < length cs" "\<not> sole cs s"
  shows "\<exists>i < length cs. free cs i"
proof (rule ccontr)
  assume "\<not> ?thesis"
  then have all: "\<forall>i < length cs. \<exists>t < length cs. mc_tail (cs ! t) = int i" by (auto simp: free_def)
  let ?A = "{..<length cs}" and ?g = "\<lambda>t. mc_tail (cs ! t)"
  have sub: "int ` ?A \<subseteq> ?g ` ?A"
  proof
    fix x assume "x \<in> int ` ?A"
    then obtain t where "t < length cs" "mc_tail (cs ! t) = x" using all by blast
    then show "x \<in> ?g ` ?A" by blast
  qed
  have "card (?g ` ?A) \<le> card (int ` ?A)" using card_image_le[of ?A ?g] by (simp add: card_image)
  then have eq: "?g ` ?A = int ` ?A" using card_seteq[OF _ sub] by simp
  then have "inj_on ?g ?A" by (intro eq_card_imp_inj_on) (simp_all add: card_image)
  moreover have "0 \<le> ?g s" using eq assms(2) by (metis imageE imageI lessThan_iff of_nat_0_le_iff)
  ultimately show False using assms(2,3) by (auto simp: sole_def inj_on_def)
qed

section \<open>Sequences that leave their cells\<close>

definition fewer :: "nat set \<Rightarrow> mem_cell list \<Rightarrow> mem_cell list \<Rightarrow> bool" where
  "fewer X a b \<longleftrightarrow> length b = length a \<and> (\<forall>t < length a. mc_tail (b ! t) = (if t \<in> X then -1 else mc_tail (a ! t))) \<and>
     (\<forall>i < length a. mc_seq_id (b ! i) = mc_seq_id (a ! i) - int ` X \<and> (mc_src (b ! i) = mc_src (a ! i) \<or> mc_src (b ! i) = -1) \<and>
        (mc_seq_id (b ! i) \<noteq> {} \<longrightarrow> mc_pos (b ! i) = mc_pos (a ! i) \<and> mc_src (b ! i) = mc_src (a ! i)) \<and>
        (mc_seq_id (b ! i) = {} \<longrightarrow> mc_seq_id (a ! i) \<noteq> {} \<longrightarrow> mc_src (b ! i) = -1))"

lemma fewerD:
  assumes "fewer X a b"
  shows "length b = length a" "t < length a \<Longrightarrow> mc_tail (b ! t) = (if t \<in> X then -1 else mc_tail (a ! t))"
    "t < length a \<Longrightarrow> mc_seq_id (b ! t) = mc_seq_id (a ! t) - int ` X" "t < length a \<Longrightarrow> mc_src (b ! t) = mc_src (a ! t) \<or> mc_src (b ! t) = -1"
    "t < length a \<Longrightarrow> mc_seq_id (b ! t) \<noteq> {} \<longrightarrow> mc_pos (b ! t) = mc_pos (a ! t) \<and> mc_src (b ! t) = mc_src (a ! t)"
    "t < length a \<Longrightarrow> mc_seq_id (b ! t) = {} \<longrightarrow> mc_seq_id (a ! t) \<noteq> {} \<longrightarrow> mc_src (b ! t) = -1"
  using assms unfolding fewer_def by blast+

lemma fewer_refl: "fewer {} a a"
  by (simp add: fewer_def)

lemma fewer_trans:
  assumes "fewer X a b" "fewer Y b c"
  shows "fewer (X \<union> Y) a c"
proof -
  have l: "length b = length a" "length c = length a" using assms by (simp_all add: fewer_def)
  have "mc_seq_id (c ! i) = mc_seq_id (a ! i) - int ` (X \<union> Y) \<and> (mc_src (c ! i) = mc_src (a ! i) \<or> mc_src (c ! i) = -1) \<and>
        (mc_seq_id (c ! i) \<noteq> {} \<longrightarrow> mc_pos (c ! i) = mc_pos (a ! i) \<and> mc_src (c ! i) = mc_src (a ! i)) \<and>
        (mc_seq_id (c ! i) = {} \<longrightarrow> mc_seq_id (a ! i) \<noteq> {} \<longrightarrow> mc_src (c ! i) = -1)" if i: "i < length a" for i
  proof -
    have "mc_seq_id (b ! i) = mc_seq_id (a ! i) - int ` X" "mc_seq_id (c ! i) = mc_seq_id (b ! i) - int ` Y"
      "mc_src (b ! i) = mc_src (a ! i) \<or> mc_src (b ! i) = -1" "mc_src (c ! i) = mc_src (b ! i) \<or> mc_src (c ! i) = -1"
      "mc_seq_id (b ! i) \<noteq> {} \<longrightarrow> mc_pos (b ! i) = mc_pos (a ! i) \<and> mc_src (b ! i) = mc_src (a ! i)"
      "mc_seq_id (c ! i) \<noteq> {} \<longrightarrow> mc_pos (c ! i) = mc_pos (b ! i) \<and> mc_src (c ! i) = mc_src (b ! i)"
      "mc_seq_id (b ! i) = {} \<longrightarrow> mc_seq_id (a ! i) \<noteq> {} \<longrightarrow> mc_src (b ! i) = -1" "mc_seq_id (c ! i) = {} \<longrightarrow> mc_seq_id (b ! i) \<noteq> {} \<longrightarrow> mc_src (c ! i) = -1"
      using fewerD(3-6)[OF assms(1) i] fewerD(3-6)[OF assms(2), of i] i l by simp_all
    then show ?thesis by (cases "mc_seq_id (b ! i) = {}") (auto simp: image_Un)
  qed
  moreover have "mc_tail (c ! t) = (if t \<in> X \<union> Y then -1 else mc_tail (a ! t))" if "t < length a" for t
    using assms that l by (auto simp: fewer_def)
  ultimately show ?thesis using l unfolding fewer_def by blast
qed

lemma fewer_tails:
  assumes "fewer X a b" "tails_ok a"
  shows "tails_ok b"
proof (rule tails_butI)
  have l: "length b = length a" using assms(1) by (simp add: fewer_def)
  note f = assms(1)[unfolded fewer_def]
  show "\<exists>s < length b. x = int s" if "i < length b" "x \<in> mc_seq_id (b ! i)" for i x
    using f tails_butD(1)[OF assms(2), of i x] that l by auto
  show "-1 \<le> mc_tail (b ! s) \<and> mc_tail (b ! s) < int (length b)" if "s < length b" for s
    using f tails_butD(2,3)[OF assms(2), of s] that l by auto
  show "(int s \<in> mc_seq_id (b ! i)) = (mc_tail (b ! s) = int i \<and> s \<notin> {})" if "s < length b" "i < length b" for s i
    using f tails_butD(4)[OF assms(2), of s i] that l by auto
qed

lemma drop_tail_fewer:
  assumes "tails_ok cs" "s < length cs"
  shows "\<exists>cs' u'. drop_tail s (cs, u) = (cs', u') \<and> fewer {s} cs cs'"
proof (cases "0 \<le> mc_tail (cs ! s)")
  case True
  define t where "t = nat (mc_tail (cs ! s))"
  have t: "t < length cs" "mc_tail (cs ! s) = int t" using tail_index[OF assms True] by (simp_all add: t_def)
  have other: "int s \<notin> mc_seq_id (cs ! i)" if "i < length cs" "i \<noteq> t" for i using tails_butD(4)[OF assms(1,2) that(1)] t(2) that(2) by simp
  let ?a = "upd_cell s (\<lambda>c. c\<lparr>mc_tail := -1\<rparr>) (upd_cell t (\<lambda>c. c\<lparr>mc_seq_id := mc_seq_id c - {int s}\<rparr>) cs)"
  have e: "drop_tail s (cs, u) = (if mc_seq_id (?a ! t) = {} then (upd_cell t (\<lambda>c. c\<lparr>mc_pos := -1, mc_src := -1\<rparr>) ?a, u32_sub u 1) else (?a, u))"
    using t(2) by (simp add: drop_tail_def Let_def)
  show ?thesis unfolding e using other t by (auto simp: fewer_def)
next
  case False
  then have "mc_tail (cs ! s) = -1" using tails_butD(2)[OF assms] by linarith
  then have "fewer {s} cs cs" using tails_butD(4)[OF assms] by (auto simp: fewer_def)
  then show ?thesis using False by (simp add: drop_tail_def)
qed

text \<open>The check of the sequences of a ubatch.\<close>

definition seq_in :: "nat \<Rightarrow> llama_seq_id \<Rightarrow> bool" where
  "seq_in n x \<longleftrightarrow> 0 \<le> x \<and> x < int n"

lemma seq_u32_small: "0 \<le> x \<Longrightarrow> x < 2 ^ 32 \<Longrightarrow> seq_u32 x = nat x"
  by (simp add: seq_u32_def)

lemma range_check: "x < 2 ^ 32 \<Longrightarrow> (x < 0 \<or> seq_u32 x \<ge> n) = (\<not> seq_in n x)"
  using seq_u32_small[of x] by (auto simp: seq_in_def)

lemma check_set_fewer:
  assumes "tails_ok cs" "\<forall>x \<in> set ids. x < 2 ^ 32"
  shows "\<exists>b cs' u' X. check_set (length cs) first ids (cs, u) = (b, cs', u') \<and> fewer X cs cs' \<and> (b \<longleftrightarrow> (\<forall>x \<in> set ids. seq_in (length cs) x)) \<and>
    (b \<longrightarrow> X = nat ` set (if first then tl ids else ids))"
  using assms
proof (induction ids arbitrary: first cs u)
  case Nil
  then show ?case using fewer_refl by (cases first) fastforce+
next
  case (Cons x ids)
  show ?case
  proof (cases "seq_in (length cs) x")
    case False
    then show ?thesis using Cons.prems(2) range_check[of x "length cs"] fewer_refl[of cs] by auto
  next
    case True
    then have x: "nat x < length cs" "\<not> (x < 0 \<or> seq_u32 x \<ge> length cs)" using Cons.prems(2) range_check[of x "length cs"] by (auto simp: seq_in_def)
    obtain c1 u1 where d: "drop_tail (nat x) (cs, u) = (c1, u1)" "fewer {nat x} cs c1" using drop_tail_fewer[OF Cons.prems(1) x(1)] by blast
    define st where "st = (if first then (cs, u) else (c1, u1))"
    define Y where "Y = (if first then {} else {nat x})"
    have f: "fewer Y cs (fst st)" using d(2) fewer_refl by (simp add: st_def Y_def)
    have l: "length (fst st) = length cs" by (rule fewerD(1)[OF f])
    have tl: "\<forall>x \<in> set ids. x < 2 ^ 32" using Cons.prems(2) by simp
    obtain b cs' u' X where r: "check_set (length cs) False ids st = (b, cs', u')" "fewer X (fst st) cs'"
        "b \<longleftrightarrow> (\<forall>x \<in> set ids. seq_in (length cs) x)" "b \<longrightarrow> X = nat ` set ids"
      using Cons.IH[OF fewer_tails[OF f Cons.prems(1)] tl, of False "snd st", unfolded l prod.collapse if_False] by (elim exE conjE) (rule that)
    have "check_set (length cs) first (x # ids) (cs, u) = (b, cs', u')" using x(2) r(1) d(1) by (cases first) (simp_all add: st_def)
    moreover have "fewer (Y \<union> X) cs cs'" by (rule fewer_trans[OF f r(2)])
    moreover have "b \<longrightarrow> Y \<union> X = nat ` set (if first then tl (x # ids) else x # ids)" using r(4) by (simp add: Y_def)
    ultimately show ?thesis using r(3) True by auto
  qed
qed

lemma check_sets_fewer:
  assumes "tails_ok cs" "\<forall>ids \<in> set sets. \<forall>x \<in> set ids. x < 2 ^ 32"
  shows "\<exists>b cs' u' X. check_sets (length cs) sets (cs, u) = (b, cs', u') \<and> fewer X cs cs' \<and>
    (b \<longleftrightarrow> (\<forall>ids \<in> set sets. \<forall>x \<in> set ids. seq_in (length cs) x)) \<and> (b \<longrightarrow> X = nat ` (\<Union>ids \<in> set sets. set (tl ids)))"
  using assms
proof (induction sets arbitrary: cs u)
  case Nil
  then show ?case using fewer_refl by fastforce
next
  case (Cons ids sets)
  have ok: "\<forall>x \<in> set ids. x < 2 ^ 32" "\<forall>ids \<in> set sets. \<forall>x \<in> set ids. x < 2 ^ 32" using Cons.prems(2) by simp_all
  obtain b c1 u1 X where r: "check_set (length cs) True ids (cs, u) = (b, c1, u1)" "fewer X cs c1"
      "b \<longleftrightarrow> (\<forall>x \<in> set ids. seq_in (length cs) x)" "b \<longrightarrow> X = nat ` set (tl ids)"
    using check_set_fewer[OF Cons.prems(1) ok(1), of True u, unfolded if_True] by (elim exE conjE) (rule that)
  show ?case
  proof (cases b)
    case False
    then have "check_sets (length cs) (ids # sets) (cs, u) = (False, c1, u1)" using r(1) by simp
    moreover have "\<not> (\<forall>ids \<in> set (ids # sets). \<forall>x \<in> set ids. seq_in (length cs) x)" using False r(3) by simp
    ultimately show ?thesis using r(2) by blast
  next
    case True
    obtain b' cs' u' Y where q: "check_sets (length cs) sets (c1, u1) = (b', cs', u')" "fewer Y c1 cs'"
        "b' \<longleftrightarrow> (\<forall>ids \<in> set sets. \<forall>x \<in> set ids. seq_in (length cs) x)" "b' \<longrightarrow> Y = nat ` (\<Union>ids \<in> set sets. set (tl ids))"
      using Cons.IH[OF fewer_tails[OF r(2) Cons.prems(1)] ok(2), of u1, unfolded fewerD(1)[OF r(2)]] by (elim exE conjE) (rule that)
    have "b' \<longrightarrow> X \<union> Y = nat ` (\<Union>ids \<in> set (ids # sets). set (tl ids))" using q(4) r(4) True by (simp add: image_Un)
    then show ?thesis using q(1,3) r(1,3) True fewer_trans[OF r(2) q(2)] by auto
  qed
qed

section \<open>The search for empty cells\<close>

lemma first_empty_finds:
  assumes "next_cell \<le> length cs" "0 < length cs" "d < k" "mc_seq_id (cs ! ((next_cell + d) mod length cs)) = {}"
    and "\<And>e. e < d \<Longrightarrow> mc_seq_id (cs ! ((next_cell + e) mod length cs)) \<noteq> {}"
  shows "first_empty cs k next_cell = (next_cell + d) mod length cs"
  using assms
proof (induction k arbitrary: next_cell d)
  case (Suc k)
  let ?n = "length cs"
  have w: "(if next_cell \<ge> ?n then next_cell - ?n else next_cell) = next_cell mod ?n" using Suc.prems(1,2) by (auto simp: le_Suc_eq)
  show ?case
  proof (cases d)
    case 0
    then show ?thesis using Suc.prems(4) by (simp add: w Let_def)
  next
    case (Suc d')
    have e: "(Suc (next_cell mod ?n) + j) mod ?n = (next_cell + Suc j) mod ?n" for j by (metis add_Suc add_Suc_right mod_add_left_eq)
    have "mc_seq_id (cs ! (next_cell mod ?n)) \<noteq> {}" using Suc.prems(5)[of 0] Suc by simp
    moreover have "first_empty cs k (Suc (next_cell mod ?n)) = (Suc (next_cell mod ?n) + d') mod ?n"
    proof (rule Suc.IH)
      show "Suc (next_cell mod ?n) \<le> ?n" "0 < ?n" using Suc.prems(2) mod_less_divisor[OF Suc.prems(2), of next_cell] Suc_leI by blast+
      show "d' < k" using Suc Suc.prems(3) by simp
      show "mc_seq_id (cs ! ((Suc (next_cell mod ?n) + d') mod ?n)) = {}" unfolding e using Suc.prems(4) Suc by simp
      show "mc_seq_id (cs ! ((Suc (next_cell mod ?n) + j) mod ?n)) \<noteq> {}" if "j < d'" for j unfolding e using Suc.prems(5)[of "Suc j"] that Suc by simp
    qed
    ultimately show ?thesis using Suc e[of d'] by (simp add: w Let_def)
  qed
qed simp

lemma next_empty_finds:
  assumes "next_cell < length cs" "0 < d" "d \<le> k" "mc_seq_id (cs ! ((next_cell + d) mod length cs)) = {}"
    and "\<And>e. 0 < e \<Longrightarrow> e < d \<Longrightarrow> mc_seq_id (cs ! ((next_cell + e) mod length cs)) \<noteq> {}"
  shows "next_empty cs k next_cell = (next_cell + d) mod length cs"
  using assms
proof (induction k arbitrary: next_cell d)
  case (Suc k)
  let ?n = "length cs"
  have w: "(if Suc next_cell \<ge> ?n then Suc next_cell - ?n else Suc next_cell) = Suc next_cell mod ?n" using Suc.prems(1) by (auto simp: le_Suc_eq)
  show ?case
  proof (cases "d = 1")
    case True
    then show ?thesis using Suc.prems(4) by (simp add: w Let_def)
  next
    case False
    then obtain d' where d: "d = Suc d'" "0 < d'" using Suc.prems(2) by (cases d) auto
    have e: "(Suc next_cell mod ?n + j) mod ?n = (next_cell + Suc j) mod ?n" for j by (metis add_Suc add_Suc_right mod_add_left_eq)
    have "mc_seq_id (cs ! (Suc next_cell mod ?n)) \<noteq> {}" using Suc.prems(5)[of 1] d by simp
    moreover have "next_empty cs k (Suc next_cell mod ?n) = (Suc next_cell mod ?n + d') mod ?n"
    proof (rule Suc.IH)
      show "Suc next_cell mod ?n < ?n" using Suc.prems(1) by (intro mod_less_divisor) linarith
      show "0 < d'" "d' \<le> k" using d Suc.prems(3) by simp_all
      show "mc_seq_id (cs ! ((Suc next_cell mod ?n + d') mod ?n)) = {}" unfolding e using Suc.prems(4) d(1) by simp
      show "mc_seq_id (cs ! ((Suc next_cell mod ?n + j) mod ?n)) \<noteq> {}" if "0 < j" "j < d'" for j unfolding e using Suc.prems(5)[of "Suc j"] that d(1) by simp
    qed
    ultimately show ?thesis using e[of d'] d(1) by (simp add: w Let_def)
  qed
qed simp

text \<open>Offsets from the head, around the ring of cells.\<close>

lemma ring_inj:
  fixes h :: nat
  assumes "(h + a) mod n = (h + b) mod n" "a < n" "b < n"
  shows "a = b"
proof -
  have "int (h + a) mod int n = int (h + b) mod int n" using arg_cong[OF assms(1), of int] by (simp only: of_nat_mod)
  then have "int n dvd int a - int b" by (simp add: mod_eq_dvd_iff)
  then show ?thesis using dvd_imp_le_int[of "int a - int b" "int n"] assms(2,3) by linarith
qed

lemma ring_index:
  fixes h :: nat
  assumes "i < n"
  shows "\<exists>j < n. (h + j) mod n = i"
proof -
  have "inj_on (\<lambda>j. (h + j) mod n) {..<n}" using ring_inj by (auto intro!: inj_onI)
  moreover have "(\<lambda>j. (h + j) mod n) ` {..<n} \<subseteq> {..<n}" using assms by auto
  ultimately have "(\<lambda>j. (h + j) mod n) ` {..<n} = {..<n}" by (intro endo_inj_surj) simp_all
  then have "i \<in> (\<lambda>j. (h + j) mod n) ` {..<n}" using assms by simp
  then show ?thesis by auto
qed

text \<open>The next cell to hand out is the first free one, and the cells handed out but not marked yet lie before it.\<close>

definition scanned :: "nat set \<Rightarrow> nat \<Rightarrow> mem_cell list \<Rightarrow> nat \<Rightarrow> bool" where
  "scanned D h cs next_cell \<longleftrightarrow> (\<forall>i < length cs. \<not> free cs i) \<or>
     (\<exists>j < length cs. next_cell = (h + j) mod length cs \<and> free cs next_cell \<and> (\<forall>e < j. \<not> free cs ((h + e) mod length cs)) \<and>
        (\<forall>t \<in> D. \<exists>e < j. mc_tail (cs ! t) = int ((h + e) mod length cs)))"

lemma free_empty: "tails_but D cs \<Longrightarrow> i < length cs \<Longrightarrow> free cs i \<Longrightarrow> mc_seq_id (cs ! i) = {}"
  by (auto simp: ids_of_tails free_def)

lemma empty_free:
  assumes "tails_but D cs" "i < length cs" "mc_seq_id (cs ! i) = {}" "\<And>t. t \<in> D \<Longrightarrow> mc_tail (cs ! t) \<noteq> int i"
  shows "free cs i"
  unfolding free_def
proof (intro allI impI)
  fix t assume t: "t < length cs"
  have "int t \<notin> mc_seq_id (cs ! i)" using assms(3) by simp
  then show "mc_tail (cs ! t) \<noteq> int i" using tails_butD(4)[OF assms(1) t assms(2)] assms(4) by auto
qed

lemma least_free:
  assumes "i < length cs" "free cs i"
  obtains j where "j < length cs" "free cs ((h + j) mod length cs)" "\<And>e. e < j \<Longrightarrow> \<not> free cs ((h + e) mod length cs)"
proof -
  obtain j0 where j0: "j0 < length cs" "free cs ((h + j0) mod length cs)" using ring_index[OF assms(1), of h] assms(2) by auto
  let ?P = "\<lambda>j. free cs ((h + j) mod length cs)"
  have "(LEAST j. ?P j) \<le> j0" by (rule Least_le[of ?P, OF j0(2)])
  then have "(LEAST j. ?P j) < length cs" using j0(1) by (rule le_less_trans)
  from that[OF this LeastI[of ?P, OF j0(2)] not_less_Least[of _ ?P]] show ?thesis .
qed

lemma scan_first:
  assumes "tails_ok cs" "h < length cs"
  shows "scanned {} h cs (first_empty cs (length cs) h)"
proof (cases "\<exists>i < length cs. free cs i")
  case True
  then obtain i where "i < length cs" "free cs i" by blast
  then obtain j where j: "j < length cs" "free cs ((h + j) mod length cs)" "\<And>e. e < j \<Longrightarrow> \<not> free cs ((h + e) mod length cs)"
    by (rule least_free) blast
  have m: "(h + e) mod length cs < length cs" for e using assms(2) by (intro mod_less_divisor) linarith
  have "first_empty cs (length cs) h = (h + j) mod length cs"
    using assms(2) j free_empty[OF assms(1) m j(2)] empty_free[OF assms(1) m] by (intro first_empty_finds) auto
  then show ?thesis unfolding scanned_def using j by auto
qed (auto simp: scanned_def)

lemma scan_next:
  assumes "tails_but D cs" "j < length cs" "\<And>e. e \<le> j \<Longrightarrow> \<not> free cs ((h + e) mod length cs)"
    and "\<And>t. t \<in> D \<Longrightarrow> \<exists>e \<le> j. mc_tail (cs ! t) = int ((h + e) mod length cs)"
  shows "scanned D h cs (next_empty cs (length cs) ((h + j) mod length cs))"
proof (cases "\<exists>i < length cs. free cs i")
  case True
  then obtain i where "i < length cs" "free cs i" by blast
  then obtain k where k: "k < length cs" "free cs ((h + k) mod length cs)" "\<And>e. e < k \<Longrightarrow> \<not> free cs ((h + e) mod length cs)"
    by (rule least_free) blast
  let ?n = "length cs"
  have jk: "j < k" using k(2) assms(3)[of k] by (meson not_le)
  have m: "(h + e) mod ?n < ?n" for e using assms(2) by (intro mod_less_divisor) linarith
  have shift: "((h + j) mod ?n + e) mod ?n = (h + (j + e)) mod ?n" for e by (metis add.assoc mod_add_left_eq)
  have "next_empty cs ?n ((h + j) mod ?n) = ((h + j) mod ?n + (k - j)) mod ?n"
  proof (rule next_empty_finds)
    show "mc_seq_id (cs ! (((h + j) mod ?n + (k - j)) mod ?n)) = {}" unfolding shift using jk free_empty[OF assms(1) m k(2)] by simp
    show "mc_seq_id (cs ! (((h + j) mod ?n + e) mod ?n)) \<noteq> {}" if e: "0 < e" "e < k - j" for e
    proof
      assume "mc_seq_id (cs ! (((h + j) mod ?n + e) mod ?n)) = {}"
      then have empty: "mc_seq_id (cs ! ((h + (j + e)) mod ?n)) = {}" unfolding shift .
      have "mc_tail (cs ! t) \<noteq> int ((h + (j + e)) mod ?n)" if t: "t \<in> D" for t
      proof
        assume "mc_tail (cs ! t) = int ((h + (j + e)) mod ?n)"
        then obtain e' where "e' \<le> j" "(h + e') mod ?n = (h + (j + e)) mod ?n" using assms(4)[OF t] by auto
        then show False using ring_inj[of h e' ?n "j + e"] e k(1) assms(2) by linarith
      qed
      from empty_free[OF assms(1) m empty this] show False using k(3)[of "j + e"] e by simp
    qed
  qed (use jk k(1) m in auto)
  then have "next_empty cs ?n ((h + j) mod ?n) = (h + k) mod ?n" unfolding shift using jk by simp
  moreover have "\<forall>t \<in> D. \<exists>e < k. mc_tail (cs ! t) = int ((h + e) mod ?n)" using assms(4) jk le_less_trans by blast
  ultimately show ?thesis unfolding scanned_def using k by (intro disjI2 exI[of _ k]) simp
qed (auto simp: scanned_def)

section \<open>A cell of its own for every set\<close>

text \<open>
  The state after \<open>k\<close> rounds: the sequences \<open>F\<close> that stand for the first sets have cells of their own, between \<open>lo\<close> and \<open>hi\<close>; those in
  \<open>D\<close> had none before. Nothing else has changed, and a cell says where its state is.
\<close>

abbreviation firsts :: "llama_ubatch_full \<Rightarrow> nat \<Rightarrow> nat set" where
  "firsts ub k \<equiv> first_id ub ` {..<k}"

abbreviation fresh :: "mem_cell list \<Rightarrow> nat set \<Rightarrow> nat set" where
  "fresh cs0 F \<equiv> {t \<in> F. mc_tail (cs0 ! t) < 0}"

abbreviation tail_cell :: "mem_cell list \<Rightarrow> nat \<Rightarrow> mem_cell" where
  "tail_cell cs t \<equiv> cs ! nat (mc_tail (cs ! t))"

definition owned :: "mem_cell list \<Rightarrow> nat set \<Rightarrow> mem_cell list \<Rightarrow> int \<Rightarrow> int \<Rightarrow> bool" where
  "owned cs0 F cs lo hi \<longleftrightarrow> length cs = length cs0 \<and> tails_but (fresh cs0 F) cs \<and>
     (\<forall>t < length cs0. t \<notin> F \<longrightarrow> mc_tail (cs ! t) = mc_tail (cs0 ! t)) \<and>
     (\<forall>t \<in> F. t < length cs0 \<and> sole cs t \<and> lo \<le> mc_tail (cs ! t) \<and> mc_tail (cs ! t) \<le> hi \<and>
        mc_src (tail_cell cs t) = (if mc_tail (cs0 ! t) < 0 then mc_src (cs0 ! nat (mc_tail (cs ! t))) else mc_src (tail_cell cs0 t))) \<and>
     (\<forall>i < length cs0. (\<forall>t \<in> F. mc_tail (cs ! t) \<noteq> int i) \<longrightarrow> mc_src (cs ! i) = mc_src (cs0 ! i) \<and> mc_pos (cs ! i) = mc_pos (cs0 ! i)) \<and>
     (\<forall>i < length cs0. mc_seq_id (cs ! i) = {} \<longrightarrow> mc_seq_id (cs0 ! i) = {}) \<and>
     0 \<le> lo \<and> 0 \<le> hi \<and> hi < int (length cs0)"

lemma ownedD:
  assumes "owned cs0 F cs lo hi"
  shows "length cs = length cs0" "tails_but (fresh cs0 F) cs" "t < length cs0 \<Longrightarrow> t \<notin> F \<Longrightarrow> mc_tail (cs ! t) = mc_tail (cs0 ! t)"
    "t \<in> F \<Longrightarrow> t < length cs0" "t \<in> F \<Longrightarrow> sole cs t" "t \<in> F \<Longrightarrow> lo \<le> mc_tail (cs ! t) \<and> mc_tail (cs ! t) \<le> hi"
    "t \<in> F \<Longrightarrow> mc_src (tail_cell cs t) = (if mc_tail (cs0 ! t) < 0 then mc_src (cs0 ! nat (mc_tail (cs ! t))) else mc_src (tail_cell cs0 t))"
    "i < length cs0 \<Longrightarrow> (\<And>t. t \<in> F \<Longrightarrow> mc_tail (cs ! t) \<noteq> int i) \<Longrightarrow> mc_src (cs ! i) = mc_src (cs0 ! i) \<and> mc_pos (cs ! i) = mc_pos (cs0 ! i)"
    "i < length cs0 \<Longrightarrow> mc_seq_id (cs ! i) = {} \<Longrightarrow> mc_seq_id (cs0 ! i) = {}" "0 \<le> lo" "0 \<le> hi" "hi < int (length cs0)"
  using assms unfolding owned_def by blast+

lemma sole_ids:
  assumes "owned cs0 F cs lo hi" "s < length cs0" "s \<notin> F" "0 \<le> mc_tail (cs ! s)"
  shows "int s \<in> mc_seq_id (tail_cell cs s)" "card (mc_seq_id (tail_cell cs s)) = 1 \<longleftrightarrow> sole cs s"
proof -
  note o = ownedD[OF assms(1)]
  have s: "s < length cs" using assms(2) o(1) by simp
  note t = tail_index[OF o(2) s assms(4)]
  show m: "int s \<in> mc_seq_id (tail_cell cs s)" using tails_butD(4)[OF o(2) s t(1)] t(2) assms(3) by simp
  show "card (mc_seq_id (tail_cell cs s)) = 1 \<longleftrightarrow> sole cs s"
  proof
    assume "card (mc_seq_id (tail_cell cs s)) = 1"
    then have e: "mc_seq_id (tail_cell cs s) = {int s}" using m by (metis card_1_singletonE singletonD)
    have "u = s" if u: "u < length cs" "mc_tail (cs ! u) = mc_tail (cs ! s)" for u
    proof (cases "u \<in> F")
      case True
      then show ?thesis using o(5)[OF True] u(2) s by (auto simp: sole_def)
    next
      case False
      then have "int u \<in> mc_seq_id (tail_cell cs s)" using tails_butD(4)[OF o(2) u(1) t(1)] t(2) u(2) by simp
      then show ?thesis using e by simp
    qed
    then show "sole cs s" using assms(4) by (simp add: sole_def)
  next
    assume so: "sole cs s"
    have "mc_seq_id (tail_cell cs s) = {int s}"
      using so t m unfolding ids_of_tails[OF o(2) t(1)] by (auto simp: sole_def)
    then show "card (mc_seq_id (tail_cell cs s)) = 1" by simp
  qed
qed

lemma other_tail:
  assumes "owned cs0 F cs lo hi" "s < length cs0" "s \<notin> F" "t \<in> F"
  shows "mc_tail (cs ! t) \<noteq> mc_tail (cs ! s)"
  using ownedD(5)[OF assms(1,4)] ownedD(1)[OF assms(1)] assms(2,3,4) by (auto simp: sole_def)

lemma own_keep:
  assumes "owned cs0 F cs lo hi" "s < length cs0" "s \<notin> F" "sole cs s"
  shows "owned cs0 (insert s F) cs (min lo (mc_tail (cs ! s))) (max hi (mc_tail (cs ! s)))"
proof -
  note o = ownedD[OF assms(1)]
  have s: "s < length cs" using assms(2) o(1) by simp
  have p: "0 \<le> mc_tail (cs ! s)" using assms(4) by (simp add: sole_def)
  have same: "mc_tail (cs ! s) = mc_tail (cs0 ! s)" by (rule o(3)[OF assms(2,3)])
  note t = tail_index[OF o(2) s p]
  have f: "fresh cs0 (insert s F) = fresh cs0 F" using p same by auto
  have src: "mc_src (tail_cell cs s) = mc_src (cs0 ! nat (mc_tail (cs ! s)))"
    using o(8)[of "nat (mc_tail (cs ! s))"] t o(1) other_tail[OF assms(1-3)] by simp
  show ?thesis unfolding owned_def f
  proof (intro conjI ballI)
    fix u assume u: "u \<in> insert s F"
    show "u < length cs0" "sole cs u" "min lo (mc_tail (cs ! s)) \<le> mc_tail (cs ! u)" "mc_tail (cs ! u) \<le> max hi (mc_tail (cs ! s))"
      "mc_src (tail_cell cs u) = (if mc_tail (cs0 ! u) < 0 then mc_src (cs0 ! nat (mc_tail (cs ! u))) else mc_src (tail_cell cs0 u))"
      using u o(4-7)[of u] assms(2,4) src p same by (auto simp: min_def max_def)
  qed (use o(1-3,8-12) p tails_butD(3)[OF o(2) s] in auto)
qed

text \<open>
  A sequence \<open>s\<close> whose cell others share, or that has none, takes the free cell \<open>c\<close>: the cells before and after its tail is set.
\<close>

definition copied :: "mem_cell list \<Rightarrow> nat \<Rightarrow> nat \<Rightarrow> mem_cell list" where
  "copied cs s c = (if 0 \<le> mc_tail (cs ! s) then upd_cell (nat (mc_tail (cs ! s))) (\<lambda>x. x\<lparr>mc_seq_id := mc_seq_id x - {int s}\<rparr>)
      (upd_cell c (\<lambda>x. x\<lparr>mc_pos := mc_pos (tail_cell cs s), mc_src := mc_src (tail_cell cs s), mc_seq_id := insert (int s) (mc_seq_id x)\<rparr>) cs)
    else cs)"

definition moved_in :: "mem_cell list \<Rightarrow> nat \<Rightarrow> nat \<Rightarrow> mem_cell list" where
  "moved_in cs s c = upd_cell s (\<lambda>x. x\<lparr>mc_tail := int c\<rparr>) (copied cs s c)"

definition can_take :: "mem_cell list \<Rightarrow> nat set \<Rightarrow> mem_cell list \<Rightarrow> int \<Rightarrow> int \<Rightarrow> nat \<Rightarrow> nat \<Rightarrow> bool" where
  "can_take cs0 F cs lo hi s c \<longleftrightarrow> owned cs0 F cs lo hi \<and> s < length cs0 \<and> s \<notin> F \<and> \<not> sole cs s \<and> c < length cs0 \<and> free cs c"

lemma can_takeD:
  assumes "can_take cs0 F cs lo hi s c"
  shows "owned cs0 F cs lo hi" "s < length cs" "s \<notin> F" "c < length cs" "mc_tail (cs ! s) = mc_tail (cs0 ! s)" "mc_seq_id (cs ! c) = {}"
    "t < length cs \<Longrightarrow> mc_tail (cs ! t) \<noteq> int c" "0 \<le> mc_tail (cs ! s) \<Longrightarrow> c \<noteq> nat (mc_tail (cs ! s))"
    "0 \<le> mc_tail (cs ! s) \<Longrightarrow> \<exists>u < length cs. u \<noteq> s \<and> mc_tail (cs ! u) = mc_tail (cs ! s)"
proof -
  show o: "owned cs0 F cs lo hi" and s: "s \<notin> F" using assms by (simp_all add: can_take_def)
  note o' = ownedD[OF o]
  show sl: "s < length cs" and cl: "c < length cs" using assms o'(1) by (simp_all add: can_take_def)
  have fc: "free cs c" using assms by (simp add: can_take_def)
  show "mc_tail (cs ! s) = mc_tail (cs0 ! s)" using o'(1,3) s sl by simp
  show "mc_seq_id (cs ! c) = {}" by (rule free_empty[OF o'(2) cl fc])
  show nt: "mc_tail (cs ! t) \<noteq> int c" if "t < length cs" for t using fc that by (simp add: free_def)
  show "c \<noteq> nat (mc_tail (cs ! s))" if "0 \<le> mc_tail (cs ! s)" using nt[OF sl] that by auto
  show "\<exists>u < length cs. u \<noteq> s \<and> mc_tail (cs ! u) = mc_tail (cs ! s)" if "0 \<le> mc_tail (cs ! s)"
    using assms that by (auto simp: can_take_def sole_def)
qed

lemma moved_in_length [simp]: "length (copied cs s c) = length cs" "length (moved_in cs s c) = length cs"
  by (simp_all add: copied_def moved_in_def)

lemma moved_in_tail: "t < length cs \<Longrightarrow> mc_tail (moved_in cs s c ! t) = (if t = s then int c else mc_tail (cs ! t))"
  by (simp add: copied_def moved_in_def)

lemma moved_in_ids:
  assumes "can_take cs0 F cs lo hi s c" "i < length cs"
  shows "mc_seq_id (moved_in cs s c ! i) = (if 0 \<le> mc_tail (cs ! s) \<and> i = c then {int s} else mc_seq_id (cs ! i) - {int s})"
proof -
  note d = can_takeD[OF assms(1)]
  note b = ownedD(2)[OF d(1)]
  show ?thesis
  proof (cases "0 \<le> mc_tail (cs ! s)")
    case True
    note t = tail_index[OF b d(2) True]
    have "int s \<notin> mc_seq_id (cs ! i)" if "i \<noteq> nat (mc_tail (cs ! s))" using tails_butD(4)[OF b d(2) assms(2)] that t(2) by auto
    then show ?thesis using True assms(2) t(1) d(6,8) by (auto simp: moved_in_def copied_def)
  next
    case False
    then have "int s \<notin> mc_seq_id (cs ! i)" using tails_butD(4)[OF b d(2) assms(2)] by auto
    then show ?thesis using False assms(2) by (simp add: moved_in_def copied_def)
  qed
qed

lemma copied_shared:
  assumes "can_take cs0 F cs lo hi s c" "0 \<le> mc_tail (cs ! s)"
  shows "mc_seq_id (copied cs s c ! nat (mc_tail (cs ! s))) \<noteq> {}"
proof -
  note d = can_takeD[OF assms(1)]
  note b = ownedD(2)[OF d(1)]
  note t = tail_index[OF b d(2) assms(2)]
  obtain u where u: "u < length cs" "u \<noteq> s" "mc_tail (cs ! u) = mc_tail (cs ! s)" using d(9)[OF assms(2)] by blast
  have "u \<notin> F" using other_tail[OF d(1), of s u] d(2,3) u(3) ownedD(1)[OF d(1)] by auto
  then have "int u \<in> mc_seq_id (tail_cell cs s)" using tails_butD(4)[OF b u(1) t(1)] u t(2) by simp
  then show ?thesis using assms(2) t(1) u(2) d(8) by (auto simp: copied_def)
qed

lemma moved_in_state:
  assumes "can_take cs0 F cs lo hi s c" "i < length cs"
  shows "mc_src (moved_in cs s c ! i) = (if 0 \<le> mc_tail (cs ! s) \<and> i = c then mc_src (tail_cell cs s) else mc_src (cs ! i))"
    "mc_pos (moved_in cs s c ! i) = (if 0 \<le> mc_tail (cs ! s) \<and> i = c then mc_pos (tail_cell cs s) else mc_pos (cs ! i))"
  using assms(2) can_takeD(2,8)[OF assms(1)] tail_index(1)[OF ownedD(2)[OF can_takeD(1)[OF assms(1)]], of s] by (auto simp: moved_in_def copied_def)

lemma moved_in_free:
  assumes "can_take cs0 F cs lo hi s c" "i < length cs"
  shows "free (moved_in cs s c) i \<longleftrightarrow> free cs i \<and> i \<noteq> c"
proof -
  note d = can_takeD[OF assms(1)]
  have "free cs i" if f: "free (moved_in cs s c) i"
  proof (cases "mc_tail (cs ! s) = int i")
    case True
    then obtain u where "u < length cs" "u \<noteq> s" "mc_tail (cs ! u) = int i" using d(9) by auto
    then show ?thesis using f by (auto simp: free_def moved_in_tail)
  next
    case False
    then show ?thesis using f by (auto simp: free_def moved_in_tail) metis
  qed
  moreover have "free (moved_in cs s c) i \<Longrightarrow> i \<noteq> c" using moved_in_tail[of s cs s c] d(2) by (auto simp: free_def)
  moreover have "free cs i \<Longrightarrow> i \<noteq> c \<Longrightarrow> free (moved_in cs s c) i" by (auto simp: free_def moved_in_tail)
  ultimately show ?thesis by blast
qed

lemma moved_in_tails_but:
  assumes "can_take cs0 F cs lo hi s c"
  shows "tails_but (fresh cs0 (insert s F)) (moved_in cs s c)"
proof -
  note d = can_takeD[OF assms]
  note b = ownedD(2)[OF d(1)] and tail = moved_in_tail[of _ cs s c] and ids = moved_in_ids[OF assms]
  have fs: "fresh cs0 (insert s F) = (if 0 \<le> mc_tail (cs ! s) then fresh cs0 F else insert s (fresh cs0 F))" using d(5) by auto
  show ?thesis
  proof (rule tails_butI)
    show "\<exists>t < length (moved_in cs s c). x = int t" if "i < length (moved_in cs s c)" "x \<in> mc_seq_id (moved_in cs s c ! i)" for i x
      using that ids[of i] tails_butD(1)[OF b, of i x] d(2) by (auto split: if_splits)
    show "-1 \<le> mc_tail (moved_in cs s c ! t) \<and> mc_tail (moved_in cs s c ! t) < int (length (moved_in cs s c))" if "t < length (moved_in cs s c)" for t
      using that tail[of t] tails_butD(2,3)[OF b, of t] d(4) by auto
    show "(int t \<in> mc_seq_id (moved_in cs s c ! i)) = (mc_tail (moved_in cs s c ! t) = int i \<and> t \<notin> fresh cs0 (insert s F))"
      if "t < length (moved_in cs s c)" "i < length (moved_in cs s c)" for t i
      unfolding fs using that tail[of t] ids[of i] tails_butD(4)[OF b, of t i] d(7)[of t] d(6) d(3) by (cases "t = s") (auto split: if_splits)
  qed
qed

lemma moved_in_sole:
  assumes "can_take cs0 F cs lo hi s c" "u \<in> insert s F"
  shows "sole (moved_in cs s c) u"
proof -
  note d = can_takeD[OF assms(1)]
  show ?thesis
  proof (cases "u = s")
    case True
    then show ?thesis unfolding sole_def using d(2,7) by (auto simp: moved_in_tail)
  next
    case False
    then have "sole cs u" "u < length cs" using ownedD(1,4,5)[OF d(1)] assms(2) by auto
    moreover from this have "mc_tail (cs ! u) \<noteq> int c" by (intro d(7))
    ultimately show ?thesis unfolding sole_def using d(2) False by (auto simp: moved_in_tail)
  qed
qed

lemma moved_in_source:
  assumes "can_take cs0 F cs lo hi s c" "u \<in> insert s F"
  shows "mc_src (tail_cell (moved_in cs s c) u) =
    (if mc_tail (cs0 ! u) < 0 then mc_src (cs0 ! nat (mc_tail (moved_in cs s c ! u))) else mc_src (tail_cell cs0 u))"
proof -
  note d = can_takeD[OF assms(1)]
  note o = ownedD[OF d(1)] and src = moved_in_state(1)[OF assms(1)]
  show ?thesis
  proof (cases "u = s")
    case True
    have e: "mc_tail (moved_in cs s c ! u) = int c" using moved_in_tail[OF d(2)] True by simp
    have co: "mc_src (cs ! c) = mc_src (cs0 ! c)" using o(8)[of c] d(4,7) o(1,4) by auto
    have "mc_src (tail_cell cs s) = mc_src (tail_cell cs0 s)" if p: "0 \<le> mc_tail (cs ! s)"
      using o(8)[of "nat (mc_tail (cs ! s))"] tail_index[OF o(2) d(2) p] o(1) other_tail[OF d(1), of s] d(2,3,5) by simp
    then show ?thesis using e src[OF d(4)] co d(5) True by auto
  next
    case False
    then have uF: "u \<in> F" using assms(2) by simp
    have ul: "u < length cs" using o(1) o(4)[OF uF] by simp
    have "0 \<le> mc_tail (cs ! u)" using o(5)[OF uF] by (simp add: sole_def)
    then have "nat (mc_tail (cs ! u)) < length cs" "nat (mc_tail (cs ! u)) \<noteq> c" using tail_index[OF o(2) ul] d(7)[OF ul] by auto
    then show ?thesis using o(7)[OF uF] moved_in_tail[OF ul] src False by simp
  qed
qed

lemma moved_in_unowned:
  assumes "can_take cs0 F cs lo hi s c" "i < length cs0" "\<forall>t \<in> insert s F. mc_tail (moved_in cs s c ! t) \<noteq> int i"
  shows "mc_src (moved_in cs s c ! i) = mc_src (cs0 ! i) \<and> mc_pos (moved_in cs s c ! i) = mc_pos (cs0 ! i)"
proof -
  note d = can_takeD[OF assms(1)]
  note o = ownedD[OF d(1)]
  have "mc_tail (cs ! t) \<noteq> int i" if "t \<in> F" for t using assms(3) that moved_in_tail[of t cs s c] o(1) o(4)[OF that] d(3) by (cases "t = s") auto
  moreover have "i \<noteq> c" using assms(3) moved_in_tail[OF d(2)] by auto
  ultimately show ?thesis using moved_in_state[OF assms(1), of i] o(1) o(8)[OF assms(2)] assms(2) by auto
qed

lemma moved_in_empty:
  assumes "can_take cs0 F cs lo hi s c" "i < length cs0" "mc_seq_id (moved_in cs s c ! i) = {}"
  shows "mc_seq_id (cs0 ! i) = {}"
proof (rule ccontr)
  note d = can_takeD[OF assms(1)]
  note o = ownedD[OF d(1)]
  assume "mc_seq_id (cs0 ! i) \<noteq> {}"
  then have nc: "mc_seq_id (cs ! i) \<noteq> {}" using o(9)[OF assms(2)] by blast
  have i: "i < length cs" using assms(2) o(1) by simp
  then have e: "mc_seq_id (cs ! i) = {int s}" using nc moved_in_ids[OF assms(1) i] assms(3) by (auto split: if_splits)
  then have t: "mc_tail (cs ! s) = int i" using tails_butD(4)[OF o(2) d(2) i] by simp
  then obtain u where u: "u < length cs" "u \<noteq> s" "mc_tail (cs ! u) = int i" using d(9) by auto
  have "u \<notin> F" using other_tail[OF d(1), of s u] d(2,3) u(3) t o(1) by auto
  then have "int u \<in> mc_seq_id (cs ! i)" using tails_butD(4)[OF o(2) u(1) i] u(3) by simp
  then show False using e u(2) by simp
qed

lemma moved_in_owned:
  assumes "can_take cs0 F cs lo hi s c"
  shows "owned cs0 (insert s F) (moved_in cs s c) (min lo (int c)) (max hi (int c))"
  unfolding owned_def
proof (intro conjI ballI allI impI)
  note d = can_takeD[OF assms]
  note o = ownedD[OF d(1)]
  show "length (moved_in cs s c) = length cs0" using o(1) by simp
  show "tails_but (fresh cs0 (insert s F)) (moved_in cs s c)" by (rule moved_in_tails_but[OF assms])
  show "mc_tail (moved_in cs s c ! t) = mc_tail (cs0 ! t)" if "t < length cs0" "t \<notin> insert s F" for t
    using that moved_in_tail[of t cs s c] o(1) o(3)[of t] by simp
  show "u < length cs0" "sole (moved_in cs s c) u" if "u \<in> insert s F" for u using that moved_in_sole[OF assms] o(1,4) d(2) by auto
  show "min lo (int c) \<le> mc_tail (moved_in cs s c ! u)" "mc_tail (moved_in cs s c ! u) \<le> max hi (int c)" if "u \<in> insert s F" for u
    using that moved_in_tail[of u cs s c] o(1) o(4,6)[of u] d(2) by auto
  show "0 \<le> min lo (int c)" "0 \<le> max hi (int c)" "max hi (int c) < int (length cs0)" using o(1,10-12) d(4) by auto
qed (use moved_in_source[OF assms] moved_in_unowned[OF assms] moved_in_empty[OF assms] in blast)+

lemma own_take:
  assumes "owned cs0 F cs lo hi" "s < length cs0" "s \<notin> F" "\<not> sole cs s" "c < length cs0" "free cs c"
  defines "orig \<equiv> tail_cell cs s"
  defines "c1 \<equiv> (if 0 \<le> mc_tail (cs ! s) then upd_cell (nat (mc_tail (cs ! s))) (\<lambda>x. x\<lparr>mc_seq_id := mc_seq_id x - {int s}\<rparr>)
      (upd_cell c (\<lambda>x. x\<lparr>mc_pos := mc_pos orig, mc_src := mc_src orig, mc_seq_id := insert (int s) (mc_seq_id x)\<rparr>) cs) else cs)"
  defines "c2 \<equiv> upd_cell s (\<lambda>x. x\<lparr>mc_tail := int c\<rparr>) c1"
  shows "0 \<le> mc_tail (cs ! s) \<Longrightarrow> mc_seq_id (c1 ! nat (mc_tail (cs ! s))) \<noteq> {}"
    and "owned cs0 (insert s F) c2 (min lo (int c)) (max hi (int c))"
    and "\<And>i. i < length cs0 \<Longrightarrow> free c2 i \<longleftrightarrow> free cs i \<and> i \<noteq> c"
    and "\<And>t. t < length cs0 \<Longrightarrow> mc_tail (c2 ! t) = (if t = s then int c else mc_tail (cs ! t))"
proof -
  have t: "can_take cs0 F cs lo hi s c" using assms(1-6) by (simp add: can_take_def)
  have e: "c1 = copied cs s c" "c2 = moved_in cs s c" by (simp_all add: c1_def c2_def orig_def copied_def moved_in_def)
  have l: "length cs0 = length cs" using ownedD(1)[OF assms(1)] by simp
  show "0 \<le> mc_tail (cs ! s) \<Longrightarrow> mc_seq_id (c1 ! nat (mc_tail (cs ! s))) \<noteq> {}" unfolding e by (rule copied_shared[OF t])
  show "owned cs0 (insert s F) c2 (min lo (int c)) (max hi (int c))" unfolding e by (rule moved_in_owned[OF t])
  show "\<And>i. i < length cs0 \<Longrightarrow> free c2 i \<longleftrightarrow> free cs i \<and> i \<noteq> c" unfolding e l by (rule moved_in_free[OF t])
  show "\<And>t. t < length cs0 \<Longrightarrow> mc_tail (c2 ! t) = (if t = s then int c else mc_tail (cs ! t))" unfolding e l by (rule moved_in_tail)
qed

text \<open>One round, and the whole loop: no assertion fails, as a free cell is found whenever one is needed.\<close>

lemma own_cell_step:
  assumes "owned cs0 (firsts ub k) cs lo hi" "scanned (fresh cs0 (firsts ub k)) h cs next_cell"
    and "first_id ub k < length cs0" "first_id ub k \<notin> firsts ub k"
  shows "\<exists>cs' next' lo' hi'. own_cell ub k (cs, next_cell, lo, hi) = Inr (cs', next', lo', hi') \<and> owned cs0 (firsts ub (Suc k)) cs' lo' hi' \<and>
    (Suc k < ub_n_seqs ub \<longrightarrow> scanned (fresh cs0 (firsts ub (Suc k))) h cs' next') \<and> lo' \<le> lo"
proof -
  let ?s = "first_id ub k" and ?F = "firsts ub k"
  note o = ownedD[OF assms(1)]
  have F: "firsts ub (Suc k) = insert ?s ?F" by (simp add: lessThan_Suc)
  have s: "?s < length cs" using assms(3) o(1) by simp
  show ?thesis
  proof (cases "sole cs ?s")
    case True
    then have p: "0 \<le> mc_tail (cs ! ?s)" by (simp add: sole_def)
    note i = sole_ids[OF assms(1,3,4) p]
    have "own_cell ub k (cs, next_cell, lo, hi) = Inr (cs, next_cell, min lo (mc_tail (cs ! ?s)), max hi (mc_tail (cs ! ?s)))"
      using i True p by (simp add: own_cell_def Let_def)
    moreover have "fresh cs0 (insert ?s ?F) = fresh cs0 ?F" using o(3)[OF assms(3,4)] p by auto
    ultimately show ?thesis unfolding F using own_keep[OF assms(1,3,4) True] assms(2) by auto
  next
    case False
    obtain i where "i < length cs" "free cs i" using free_exists[OF o(2) s False] by blast
    then obtain j where j: "j < length cs" "next_cell = (h + j) mod length cs" "free cs next_cell" "\<And>e. e < j \<Longrightarrow> \<not> free cs ((h + e) mod length cs)"
        "\<And>t. t \<in> fresh cs0 ?F \<Longrightarrow> \<exists>e < j. mc_tail (cs ! t) = int ((h + e) mod length cs)"
      using assms(2) unfolding scanned_def by blast
    have "next_cell < length cs" unfolding j(2) using s by (intro mod_less_divisor) linarith
    then have c: "next_cell < length cs0" "next_cell < length cs" using o(1) by simp_all
    define orig where "orig = tail_cell cs ?s"
    define c1 where "c1 = (if 0 \<le> mc_tail (cs ! ?s) then upd_cell (nat (mc_tail (cs ! ?s))) (\<lambda>x. x\<lparr>mc_seq_id := mc_seq_id x - {int ?s}\<rparr>)
      (upd_cell next_cell (\<lambda>x. x\<lparr>mc_pos := mc_pos orig, mc_src := mc_src orig, mc_seq_id := insert (int ?s) (mc_seq_id x)\<rparr>) cs) else cs)"
    define c2 where "c2 = upd_cell ?s (\<lambda>x. x\<lparr>mc_tail := int next_cell\<rparr>) c1"
    note t = own_take[OF assms(1,3,4) False c(1) j(3), folded orig_def, folded c1_def, folded c2_def]
    note oc = ownedD[OF t(2)]
    have e: "mc_seq_id (cs ! next_cell) = {}" by (rule free_empty[OF o(2) c(2) j(3)])
    have g: "\<not> (0 \<le> mc_tail (cs ! ?s) \<and> int ?s \<notin> mc_seq_id (tail_cell cs ?s))"
        "\<not> (0 \<le> mc_tail (cs ! ?s) \<and> card (mc_seq_id (tail_cell cs ?s)) = 1)"
      using sole_ids[OF assms(1,3,4)] False by auto
    have g1: "\<not> (0 \<le> mc_tail (cs ! ?s) \<and> mc_seq_id (c1 ! nat (mc_tail (cs ! ?s))) = {})" using t(1) by blast
    have "own_cell ub k (cs, next_cell, lo, hi) =
        Inr (c2, if Suc k < ub_n_seqs ub then next_empty c2 (length c2) next_cell else next_cell, min lo (int next_cell), max hi (int next_cell))"
      unfolding own_cell_def Let_def prod.case orig_def [symmetric] unfolding c1_def [symmetric] unfolding c2_def [symmetric]
      using g [folded orig_def] g1 c(2) e by (simp only: if_False if_True not_True_eq_False not_False_eq_True simp_thms Suc_eq_plus1)
    moreover have "scanned (fresh cs0 (insert ?s ?F)) h c2 (next_empty c2 (length c2) next_cell)"
    proof -
      have l: "length c2 = length cs" "length cs = length cs0" using oc(1) o(1) by simp_all
      have m: "(h + e) mod length c2 < length cs0" for e using l s by (metis mod_less_divisor not_less_zero neq0_conv)
      have "\<not> free c2 ((h + e) mod length c2)" if "e \<le> j" for e
        using that t(3)[OF m] j(2,4) l(1) by (cases "e = j") auto
      moreover have "\<exists>e \<le> j. mc_tail (c2 ! u) = int ((h + e) mod length c2)" if u: "u \<in> fresh cs0 (insert ?s ?F)" for u
      proof (cases "u = ?s")
        case True
        then show ?thesis using t(4)[OF assms(3)] j(2) l(1) by auto
      next
        case False
        then have "u \<in> fresh cs0 ?F" using u by simp
        then show ?thesis using j(5)[of u] t(4)[of u] o(4) False l(1) by (auto intro: less_imp_le)
      qed
      ultimately show ?thesis using scan_next[OF oc(2), of j h] j(1,2) l(1) by simp
    qed
    ultimately show ?thesis unfolding F using t(2) by auto
  qed
qed

lemma own_cells_loop:
  assumes "owned cs0 (firsts ub k) cs lo hi" "k < ub_n_seqs ub \<longrightarrow> scanned (fresh cs0 (firsts ub k)) h cs next_cell" "k \<le> ub_n_seqs ub"
    and "\<forall>s < ub_n_seqs ub. first_id ub s < length cs0" "inj_on (first_id ub) {..<ub_n_seqs ub}"
  shows "\<exists>cs' next' lo' hi'. own_cells ub [k..<ub_n_seqs ub] (cs, next_cell, lo, hi) = Inr (cs', next', lo', hi') \<and>
    owned cs0 (firsts ub (ub_n_seqs ub)) cs' lo' hi'"
  using assms(1-3)
proof (induction "ub_n_seqs ub - k" arbitrary: k cs lo hi next_cell)
  case 0
  then show ?case by simp
next
  case (Suc d)
  then have k: "k < ub_n_seqs ub" by simp
  have "first_id ub k \<notin> firsts ub k" using assms(5) k by (auto dest: inj_onD)
  then obtain cs' next' lo' hi' where r: "own_cell ub k (cs, next_cell, lo, hi) = Inr (cs', next', lo', hi')" "owned cs0 (firsts ub (Suc k)) cs' lo' hi'"
      "Suc k < ub_n_seqs ub \<longrightarrow> scanned (fresh cs0 (firsts ub (Suc k))) h cs' next'"
    using own_cell_step[OF Suc.prems(1)] Suc.prems(2) assms(4) k by blast
  from Suc.hyps(1)[OF _ r(2,3)] Suc.hyps(2) k show ?case unfolding upt_conv_Cons[OF k] by (simp add: r(1))
qed

end
