(* ===== verification/RecurrentSlot.thy ===== *)
theory RecurrentSlot
  imports RecurrentOk
begin

text \<open>
  The second half of \<open>find_slot\<close> for recurrent models: the cells of the sets become adjacent, get the sequences and positions of the
  ubatch, and are told where to load their states from. Then what \<open>find_slot\<close> does as a whole.
\<close>

section \<open>Adjacent cells\<close>

definition swap_fun :: "nat \<Rightarrow> nat \<Rightarrow> nat \<Rightarrow> nat" where
  "swap_fun a b i = (if i = a then b else if i = b then a else i)"

lemma swap_fun_invol [simp]: "swap_fun a b (swap_fun a b i) = i"
  by (simp add: swap_fun_def)

lemma swap_cells_len [simp]: "length (swap_cells a b cs) = length cs"
  by (simp add: swap_cells_def Let_def)

lemma swap_cells_nth:
  assumes "a < length cs" "b < length cs" "a \<noteq> b" "i < length cs"
  shows "mc_seq_id (swap_cells a b cs ! i) = mc_seq_id (cs ! swap_fun a b i)" "mc_src (swap_cells a b cs ! i) = mc_src (cs ! swap_fun a b i)"
    "mc_pos (swap_cells a b cs ! i) = mc_pos (cs ! swap_fun a b i)"
    "mc_tail (swap_cells a b cs ! i) = (if mc_tail (cs ! i) < 0 then mc_tail (cs ! i) else int (swap_fun a b (nat (mc_tail (cs ! i)))))"
proof -
  show "mc_seq_id (swap_cells a b cs ! i) = mc_seq_id (cs ! swap_fun a b i)" "mc_src (swap_cells a b cs ! i) = mc_src (cs ! swap_fun a b i)"
    "mc_pos (swap_cells a b cs ! i) = mc_pos (cs ! swap_fun a b i)"
    using assms by (auto simp: swap_cells_def swap_fun_def Let_def nth_list_update)
  have t: "mc_tail (swap_cells a b cs ! i) = (if mc_tail (cs ! i) = int b then int a else if mc_tail (cs ! i) = int a then int b else mc_tail (cs ! i))"
    using assms by (auto simp: swap_cells_def Let_def nth_list_update)
  show "mc_tail (swap_cells a b cs ! i) = (if mc_tail (cs ! i) < 0 then mc_tail (cs ! i) else int (swap_fun a b (nat (mc_tail (cs ! i)))))"
  proof (cases "mc_tail (cs ! i) < 0")
    case False
    then obtain k where "mc_tail (cs ! i) = int k" by (metis nonneg_int_cases not_le)
    then show ?thesis unfolding t by (simp add: swap_fun_def)
  qed (simp add: t)
qed

text \<open>\<open>b\<close> is \<open>a\<close> with the contents of the cells between \<open>lo\<close> and \<open>hi\<close> moved by \<open>f\<close>.\<close>

definition moved :: "nat \<Rightarrow> nat \<Rightarrow> (nat \<Rightarrow> nat) \<Rightarrow> mem_cell list \<Rightarrow> mem_cell list \<Rightarrow> bool" where
  "moved lo hi f a b \<longleftrightarrow> length b = length a \<and> inj f \<and> (\<forall>i. lo \<le> i \<and> i \<le> hi \<longleftrightarrow> lo \<le> f i \<and> f i \<le> hi) \<and> (\<forall>i. \<not> (lo \<le> i \<and> i \<le> hi) \<longrightarrow> f i = i) \<and>
     (\<forall>t < length a. mc_tail (b ! t) = (if mc_tail (a ! t) < 0 then mc_tail (a ! t) else int (f (nat (mc_tail (a ! t)))))) \<and>
     (\<forall>i < length a. mc_seq_id (b ! f i) = mc_seq_id (a ! i) \<and> mc_src (b ! f i) = mc_src (a ! i) \<and> mc_pos (b ! f i) = mc_pos (a ! i))"

lemma movedD:
  assumes "moved lo hi f a b"
  shows "length b = length a" "inj f" "lo \<le> i \<and> i \<le> hi \<longleftrightarrow> lo \<le> f i \<and> f i \<le> hi" "\<not> (lo \<le> i \<and> i \<le> hi) \<Longrightarrow> f i = i"
    "t < length a \<Longrightarrow> mc_tail (b ! t) = (if mc_tail (a ! t) < 0 then mc_tail (a ! t) else int (f (nat (mc_tail (a ! t)))))"
    "i < length a \<Longrightarrow> mc_seq_id (b ! f i) = mc_seq_id (a ! i)" "i < length a \<Longrightarrow> mc_src (b ! f i) = mc_src (a ! i)"
    "i < length a \<Longrightarrow> mc_pos (b ! f i) = mc_pos (a ! i)"
  using assms unfolding moved_def by blast+

lemma moved_refl: "moved lo hi (\<lambda>i. i) a a"
  by (simp add: moved_def)

lemma moved_index: "moved lo hi f a b \<Longrightarrow> hi < length a \<Longrightarrow> i < length a \<Longrightarrow> f i < length a"
  using movedD(3,4)[of lo hi f a b i] by (cases "lo \<le> i \<and> i \<le> hi") auto

lemma moved_swap:
  assumes "moved lo hi f a b" "x < length a" "y < length a" "x \<noteq> y" "lo \<le> x" "x \<le> hi" "lo \<le> y" "y \<le> hi" "hi < length a"
  shows "moved lo hi (swap_fun x y \<circ> f) a (swap_cells x y b)"
proof -
  note m = movedD[OF assms(1)]
  have l: "x < length b" "y < length b" using assms(2,3) m(1) by simp_all
  note s = swap_cells_nth[OF l assms(4)]
  have r: "lo \<le> swap_fun x y i \<and> swap_fun x y i \<le> hi \<longleftrightarrow> lo \<le> i \<and> i \<le> hi" for i using assms(5-8) by (simp add: swap_fun_def)
  have o: "swap_fun x y i = i" if "\<not> (lo \<le> i \<and> i \<le> hi)" for i using that assms(5-8) by (auto simp: swap_fun_def)
  have i: "inj (swap_fun x y)" by (metis injI swap_fun_invol)
  show ?thesis unfolding moved_def comp_def
  proof (intro conjI allI impI)
    show "length (swap_cells x y b) = length a" using m(1) by simp
    show "inj (\<lambda>j. swap_fun x y (f j))" using inj_compose[OF i m(2)] by (simp add: comp_def)
    show "(lo \<le> j \<and> j \<le> hi) = (lo \<le> swap_fun x y (f j) \<and> swap_fun x y (f j) \<le> hi)" for j using r m(3) by simp
    show "swap_fun x y (f j) = j" if "\<not> (lo \<le> j \<and> j \<le> hi)" for j using that o m(4) by simp
    show "mc_tail (swap_cells x y b ! t) = (if mc_tail (a ! t) < 0 then mc_tail (a ! t) else int (swap_fun x y (f (nat (mc_tail (a ! t))))))"
      if "t < length a" for t using that s(4)[of t] m(1) m(5)[of t] by simp
    fix j assume j: "j < length a"
    have "swap_fun x y (f j) < length b" using moved_index[OF assms(1,9) j] l m(1) by (simp add: swap_fun_def)
    then show "mc_seq_id (swap_cells x y b ! swap_fun x y (f j)) = mc_seq_id (a ! j)" "mc_src (swap_cells x y b ! swap_fun x y (f j)) = mc_src (a ! j)"
      "mc_pos (swap_cells x y b ! swap_fun x y (f j)) = mc_pos (a ! j)"
      using s(1-3) m(6-8)[OF j] by simp_all
  qed
qed

text \<open>Sequences with cells of their own end up in adjacent cells, in the order of their sets.\<close>

lemma slot_fits:
  assumes "owned cs0 (firsts ub n) cs lo hi" "inj_on (first_id ub) {..<n}" "0 < n"
  shows "int n \<le> hi - lo + 1"
proof -
  note o = ownedD[OF assms(1)]
  have "inj_on (\<lambda>t. mc_tail (cs ! t)) (firsts ub n)" using o(1,4,5) by (auto simp: inj_on_def sole_def)
  then have "card ((\<lambda>t. mc_tail (cs ! t)) ` firsts ub n) = n" using assms(2) by (simp add: card_image)
  moreover have "(\<lambda>t. mc_tail (cs ! t)) ` firsts ub n \<subseteq> {lo..hi}" using o(6) by auto
  ultimately have "n \<le> card {lo..hi}" using card_mono[of "{lo..hi}"] by (metis finite_atLeastAtMost_int)
  then show ?thesis using assms(3) by simp
qed

lemma gather_loop:
  assumes "owned cs0 (firsts ub n) cs (int lo) (int hi)" "inj_on (first_id ub) {..<n}" "k \<le> n"
  shows "\<exists>f. moved lo hi f cs (fold (gather_cell ub lo) [0..<k] cs) \<and>
    (\<forall>j < k. mc_tail (fold (gather_cell ub lo) [0..<k] cs ! first_id ub j) = int (lo + j))"
  using assms(3)
proof (induction k)
  case 0
  then show ?case using moved_refl by auto
next
  case (Suc k)
  note o = ownedD[OF assms(1)]
  define b where "b = fold (gather_cell ub lo) [0..<k] cs"
  obtain f where f: "moved lo hi f cs b" "\<forall>j < k. mc_tail (b ! first_id ub j) = int (lo + j)" using Suc unfolding b_def by auto
  note m = movedD[OF f(1)]
  have hi: "hi < length cs" using o(1,12) by simp
  have fit: "lo + k \<le> hi" using slot_fits[OF assms(1,2)] Suc.prems by linarith
  have fid: "first_id ub j < length cs" "first_id ub j \<in> firsts ub n" if "j \<le> k" for j using that o(1,4) Suc.prems by auto
  have tl: "0 \<le> mc_tail (cs ! first_id ub j)" if "j \<le> k" for j using o(5)[OF fid(2)[OF that]] by (simp add: sole_def)
  define s where "s = nat (mc_tail (b ! first_id ub k))"
  have tb: "mc_tail (b ! first_id ub j) = int (f (nat (mc_tail (cs ! first_id ub j))))" if "j \<le> k" for j using m(5)[OF fid(1)[OF that]] tl[OF that] by simp
  have s: "mc_tail (b ! first_id ub k) = int s" "s = f (nat (mc_tail (cs ! first_id ub k)))" using tb[of k] by (simp_all add: s_def)
  have "lo \<le> nat (mc_tail (cs ! first_id ub k)) \<and> nat (mc_tail (cs ! first_id ub k)) \<le> hi" using o(6)[OF fid(2)[of k]] by auto
  then have sr: "lo \<le> s" "s \<le> hi" unfolding s(2) using m(3) by blast+
  have dist: "lo + j \<noteq> s" if "j < k" for j
  proof
    assume "lo + j = s"
    then have "f (nat (mc_tail (cs ! first_id ub j))) = f (nat (mc_tail (cs ! first_id ub k)))" using f(2) tb[of j] s(2) that by auto
    then have "mc_tail (cs ! first_id ub j) = mc_tail (cs ! first_id ub k)" using injD[OF m(2)] tl[of j] tl[of k] that by (metis eq_nat_nat_iff less_or_eq_imp_le order_refl)
    then have "first_id ub j = first_id ub k" using o(5)[OF fid(2)[of k]] fid(1)[of j] that by (auto simp: sole_def)
    then show False using inj_onD[OF assms(2)] that Suc.prems by fastforce
  qed
  have g: "fold (gather_cell ub lo) [0..<Suc k] cs = (if k + lo \<noteq> s then swap_cells (k + lo) s b else b)"
    by (simp add: b_def [symmetric] gather_cell_def s_def [symmetric])
  show ?case
  proof (cases "k + lo = s")
    case True
    have "mc_tail (b ! first_id ub j) = int (lo + j)" if "j < Suc k" for j
      using f(2) s(1) True that by (cases "j = k") auto
    then show ?thesis unfolding g using f(1) True by auto
  next
    case False
    have x: "k + lo < length cs" "s < length cs" "lo \<le> k + lo" "k + lo \<le> hi" using fit hi sr by simp_all
    have mv: "moved lo hi (swap_fun (k + lo) s \<circ> f) cs (swap_cells (k + lo) s b)" by (rule moved_swap[OF f(1) x(1,2) False x(3,4) sr hi])
    have "mc_tail (swap_cells (k + lo) s b ! first_id ub j) = int (lo + j)" if "j < Suc k" for j
    proof -
      have "first_id ub j < length b" using fid(1)[of j] that m(1) by simp
      then have e: "mc_tail (swap_cells (k + lo) s b ! first_id ub j) = int (swap_fun (k + lo) s (nat (mc_tail (b ! first_id ub j))))"
        using swap_cells_nth(4)[of "k + lo" b s "first_id ub j"] x m(1) False tb[of j] that by simp
      show ?thesis
      proof (cases "j = k")
        case True
        then show ?thesis using e s(1) False by (simp add: swap_fun_def)
      next
        case j: False
        then show ?thesis using e f(2) dist[of j] that by (auto simp: swap_fun_def)
      qed
    qed
    then show ?thesis unfolding g using mv False by auto
  qed
qed

section \<open>The sets of a ubatch and their cells\<close>

text \<open>
  A ubatch of an equal split for a memory of \<open>n\<close> cells: disjoint sets of sequences below \<open>n\<close>, each named at the first token of its set.
\<close>

definition rec_ubatch_ok :: "nat \<Rightarrow> llama_ubatch_full \<Rightarrow> bool" where
  "rec_ubatch_ok n ub \<longleftrightarrow> ub_equal_seqs ub \<and> 0 < ub_n_seqs ub \<and> distinct (concat (map (set_ids ub) [0..<ub_n_seqs ub])) \<and>
     (\<forall>k < ub_n_seqs ub. set_ids ub k \<noteq> [] \<and> (\<forall>x \<in> set (set_ids ub k). seq_in n x))"

definition last_pos :: "llama_ubatch_full \<Rightarrow> nat \<Rightarrow> llama_pos" where
  "last_pos ub k = ub_pos ub ! (k * ub_n_seq_tokens ub + ub_n_seq_tokens ub - 1)"

lemma concat_disjoint:
  assumes "distinct (concat (map f [0..<n]))" "j < n" "k < n" "x \<in> set (f j)" "x \<in> set (f k)"
  shows "j = k"
  using assms
proof (induction n)
  case (Suc n)
  have u: "distinct (concat (map f [0..<n]))" "(\<Union>a \<in> {0..<n}. set (f a)) \<inter> set (f n) = {}" using Suc.prems(1) by simp_all
  have d: "distinct (concat (map f [0..<n]))" "\<And>i. i < n \<Longrightarrow> set (f i) \<inter> set (f n) = {}" using u by (simp, fastforce)
  consider "j = n" "k = n" | "j < n" "k < n" | "j = n" "k < n" | "j < n" "k = n" using Suc.prems(2,3) by linarith
  then show ?case
  proof cases
    case 2
    then show ?thesis by (rule Suc.IH[OF d(1) _ _ Suc.prems(4,5)])
  next
    case 3
    then show ?thesis using d(2)[of k] Suc.prems(4,5) by auto
  next
    case 4
    then show ?thesis using d(2)[of j] Suc.prems(4,5) by auto
  qed simp
qed simp

lemma ubatch_sets:
  assumes "rec_ubatch_ok n ub"
  shows "k < ub_n_seqs ub \<Longrightarrow> set_ids ub k = int (first_id ub k) # tl (set_ids ub k)" "k < ub_n_seqs ub \<Longrightarrow> first_id ub k < n"
    "j < ub_n_seqs ub \<Longrightarrow> k < ub_n_seqs ub \<Longrightarrow> x \<in> set (set_ids ub j) \<Longrightarrow> x \<in> set (set_ids ub k) \<Longrightarrow> j = k"
    "inj_on (first_id ub) {..<ub_n_seqs ub}" "k < ub_n_seqs ub \<Longrightarrow> x \<in> set (set_ids ub k) \<Longrightarrow> seq_in n x"
    "j < ub_n_seqs ub \<Longrightarrow> k < ub_n_seqs ub \<Longrightarrow> x \<in> set (tl (set_ids ub j)) \<Longrightarrow> x \<noteq> int (first_id ub k)"
proof -
  note o = assms[unfolded rec_ubatch_ok_def]
  show r: "k < ub_n_seqs ub \<Longrightarrow> x \<in> set (set_ids ub k) \<Longrightarrow> seq_in n x" for k x using o by blast
  show dj: "j < ub_n_seqs ub \<Longrightarrow> k < ub_n_seqs ub \<Longrightarrow> x \<in> set (set_ids ub j) \<Longrightarrow> x \<in> set (set_ids ub k) \<Longrightarrow> j = k" for j k x
    by (rule concat_disjoint[of "set_ids ub" "ub_n_seqs ub" j k x]) (use o in auto)
  show f: "set_ids ub k = int (first_id ub k) # tl (set_ids ub k)" if k: "k < ub_n_seqs ub" for k
  proof -
    obtain x xs where e: "set_ids ub k = x # xs" using o k by (cases "set_ids ub k") auto
    then have "seq_in n x" using r[OF k, of x] by simp
    moreover have "x = ub_seq_id ub ! (k * ub_n_seq_tokens ub) ! 0" using arg_cong[OF e, of hd] e
      by (cases "ub_n_seq_id ub ! (k * ub_n_seq_tokens ub)") (auto simp: set_ids_def Let_def upt_conv_Cons simp del: upt_Suc)
    ultimately show ?thesis using e by (simp add: first_id_def seq_in_def)
  qed
  have m: "int (first_id ub k) \<in> set (set_ids ub k)" if "k < ub_n_seqs ub" for k using f[OF that] by (metis list.set_intros(1))
  show "k < ub_n_seqs ub \<Longrightarrow> first_id ub k < n" using r[OF _ m] by (simp add: seq_in_def)
  show "inj_on (first_id ub) {..<ub_n_seqs ub}"
  proof (rule inj_onI)
    fix i j assume "i \<in> {..<ub_n_seqs ub}" "j \<in> {..<ub_n_seqs ub}" "first_id ub i = first_id ub j"
    then show "i = j" using dj[of i j "int (first_id ub i)"] m[of i] m[of j] by simp
  qed
  show "x \<noteq> int (first_id ub k)" if "j < ub_n_seqs ub" "k < ub_n_seqs ub" "x \<in> set (tl (set_ids ub j))" for j k x
  proof
    assume "x = int (first_id ub k)"
    moreover have "x \<in> set (set_ids ub j)" using that(3) by (rule list.set_sel(2)[rotated]) (use f[OF that(1)] in auto)
    ultimately have "j = k" using dj[OF that(1,2)] m[OF that(2)] by simp
    have "distinct (set_ids ub j)" using o that(1) distinct_concat_iff[of "map (set_ids ub) [0..<ub_n_seqs ub]"] by auto
    then show False using f[OF that(1)] that(3) \<open>x = int (first_id ub k)\<close> \<open>j = k\<close> by (metis distinct.simps(2))
  qed
qed

lemma upd_tails:
  assumes "\<forall>x \<in> set ids. 0 \<le> x" "t < length cs"
  shows "fold (\<lambda>x. upd_cell (nat x) (\<lambda>c. c\<lparr>mc_tail := v\<rparr>)) ids cs ! t = (if int t \<in> set ids then (cs ! t)\<lparr>mc_tail := v\<rparr> else cs ! t)"
  using assms
proof (induction ids arbitrary: cs)
  case (Cons x ids)
  then have "nat x = t \<longleftrightarrow> x = int t" by auto
  then show ?case using Cons by auto
qed simp

lemma upd_tails_len [simp]: "length (fold (\<lambda>x. upd_cell (nat x) (\<lambda>c. c\<lparr>mc_tail := v\<rparr>)) ids cs) = length cs"
  by (induction ids arbitrary: cs) simp_all

lemma place_set_nth:
  assumes "\<forall>x \<in> set (set_ids ub s). 0 \<le> x" "s + lo < length cs"
  shows "length (place_set ub lo s cs) = length cs"
    "t < length cs \<Longrightarrow> place_set ub lo s cs ! t =
      (let c = (if t = s + lo then (cs ! t)\<lparr>mc_pos := last_pos ub s, mc_seq_id := set (set_ids ub s)\<rparr> else cs ! t)
       in if int t \<in> set (set_ids ub s) then c\<lparr>mc_tail := int (s + lo)\<rparr> else c)"
  using assms by (simp_all add: place_set_def Let_def upd_tails last_pos_def)

lemma place_loop:
  assumes "rec_ubatch_ok (length cs) ub" "lo + ub_n_seqs ub \<le> length cs" "k \<le> ub_n_seqs ub"
  defines "b \<equiv> fold (place_set ub lo) [0..<k] cs"
  shows "length b = length cs \<and> (\<forall>j < k. \<forall>t < length cs. int t \<in> set (set_ids ub j) \<longrightarrow> mc_tail (b ! t) = int (lo + j)) \<and>
    (\<forall>t < length cs. (\<forall>j < k. int t \<notin> set (set_ids ub j)) \<longrightarrow> mc_tail (b ! t) = mc_tail (cs ! t)) \<and>
    (\<forall>i < length cs. mc_seq_id (b ! i) = (if lo \<le> i \<and> i < lo + k then set (set_ids ub (i - lo)) else mc_seq_id (cs ! i)) \<and>
       mc_pos (b ! i) = (if lo \<le> i \<and> i < lo + k then last_pos ub (i - lo) else mc_pos (cs ! i)) \<and> mc_src (b ! i) = mc_src (cs ! i))"
  using assms(3) unfolding b_def
proof (induction k)
  case 0
  have "\<not> (lo \<le> i \<and> i < lo)" for i by linarith
  then show ?case by (auto simp: less_imp_not_less)
next
  case (Suc k)
  define a where "a = fold (place_set ub lo) [0..<k] cs"
  have k: "k < ub_n_seqs ub" using Suc.prems by simp
  have ih: "length a = length cs" "\<And>j t. j < k \<Longrightarrow> t < length cs \<Longrightarrow> int t \<in> set (set_ids ub j) \<Longrightarrow> mc_tail (a ! t) = int (lo + j)"
    "\<And>t. t < length cs \<Longrightarrow> \<forall>j < k. int t \<notin> set (set_ids ub j) \<Longrightarrow> mc_tail (a ! t) = mc_tail (cs ! t)"
    "\<And>i. i < length cs \<Longrightarrow> mc_seq_id (a ! i) = (if lo \<le> i \<and> i < lo + k then set (set_ids ub (i - lo)) else mc_seq_id (cs ! i))"
    "\<And>i. i < length cs \<Longrightarrow> mc_pos (a ! i) = (if lo \<le> i \<and> i < lo + k then last_pos ub (i - lo) else mc_pos (cs ! i))"
    "\<And>i. i < length cs \<Longrightarrow> mc_src (a ! i) = mc_src (cs ! i)"
    using Suc.IH k unfolding a_def by simp_all
  have e: "fold (place_set ub lo) [0..<Suc k] cs = place_set ub lo k a" by (simp add: a_def)
  have p: "\<forall>x \<in> set (set_ids ub k). 0 \<le> x" "k + lo < length a"
    using ubatch_sets(5)[OF assms(1) k] assms(2) k ih(1) by (auto simp: seq_in_def)
  note n = place_set_nth[OF p, unfolded Let_def ih(1)]
  have sep: "int t \<notin> set (set_ids ub j)" if "j < k" "int t \<in> set (set_ids ub k)" for j t
    using ubatch_sets(3)[OF assms(1) _ k _ that(2), of j] that(1) k by auto
  show ?case unfolding e
  proof (intro conjI allI impI)
    show "length (place_set ub lo k a) = length cs" using n(1) .
    show "mc_tail (place_set ub lo k a ! t) = int (lo + j)" if "j < Suc k" "t < length cs" "int t \<in> set (set_ids ub j)" for j t
      using that ih(2)[of j t] n(2)[of t] sep[of j t] by (cases "j = k") auto
    show "mc_tail (place_set ub lo k a ! t) = mc_tail (cs ! t)" if "t < length cs" "\<forall>j < Suc k. int t \<notin> set (set_ids ub j)" for t
      using that ih(3)[of t] n(2)[of t] by auto
    fix i assume i: "i < length cs"
    show "mc_seq_id (place_set ub lo k a ! i) = (if lo \<le> i \<and> i < lo + Suc k then set (set_ids ub (i - lo)) else mc_seq_id (cs ! i))"
      "mc_pos (place_set ub lo k a ! i) = (if lo \<le> i \<and> i < lo + Suc k then last_pos ub (i - lo) else mc_pos (cs ! i))"
      "mc_src (place_set ub lo k a ! i) = mc_src (cs ! i)"
      using n(2)[OF i] ih(4-6)[OF i] by auto
  qed
qed

section \<open>Where the states come from\<close>

lemma stage_nth:
  assumes "i < length cs" "m \<le> length cs"
  shows "fold (\<lambda>i. upd_cell i (\<lambda>c. c\<lparr>mc_src0 := (if mc_src c < 0 then z else mc_src c), mc_src := int i\<rparr>)) [lo..<m] cs ! i =
      (if lo \<le> i \<and> i < m then (cs ! i)\<lparr>mc_src0 := (if mc_src (cs ! i) < 0 then z else mc_src (cs ! i)), mc_src := int i\<rparr> else cs ! i) \<and>
    length (fold (\<lambda>i. upd_cell i (\<lambda>c. c\<lparr>mc_src0 := (if mc_src c < 0 then z else mc_src c), mc_src := int i\<rparr>)) [lo..<m] cs) = length cs"
  using assms
proof (induction m)
  case (Suc m)
  then show ?case by (cases "lo \<le> m") auto
qed simp

text \<open>If a cell of the slot has no state, some cell of the slot is nobody's source: there are fewer sources than cells.\<close>

lemma zero_cell_exists:
  assumes "hi < length cs" "lo \<le> i" "i \<le> hi" "mc_src (cs ! i) < 0"
    and "\<And>j. j < length cs \<Longrightarrow> \<not> (lo \<le> j \<and> j \<le> hi) \<Longrightarrow> \<forall>k. lo \<le> k \<and> k \<le> hi \<longrightarrow> mc_src (cs ! j) \<noteq> int k"
  shows "0 \<le> zero_cell cs lo hi"
proof -
  have "\<exists>k \<in> {lo..hi}. \<forall>c \<in> set cs. mc_src c \<noteq> int k"
  proof (rule ccontr)
    assume "\<not> ?thesis"
    then have hit: "\<forall>k \<in> {lo..hi}. \<exists>j < length cs. mc_src (cs ! j) = int k" by (metis in_set_conv_nth)
    let ?A = "{lo..hi} - {i}"
    have "{lo..hi} \<subseteq> (\<lambda>j. nat (mc_src (cs ! j))) ` ?A"
    proof
      fix k assume k: "k \<in> {lo..hi}"
      then obtain j where j: "j < length cs" "mc_src (cs ! j) = int k" using hit by blast
      then have "j \<in> {lo..hi}" using assms(5)[OF j(1)] k by auto
      moreover have "j \<noteq> i" using j(2) assms(4) by auto
      ultimately show "k \<in> (\<lambda>j. nat (mc_src (cs ! j))) ` ?A" using j(2) by force
    qed
    then have "card {lo..hi} \<le> card ?A" by (meson card_image_le card_mono finite_Diff finite_atLeastAtMost finite_imageI le_trans)
    then show False using assms(2,3) by (simp add: card_Diff_singleton_if)
  qed
  then have "filter (\<lambda>k. \<forall>c \<in> set cs. mc_src c \<noteq> int k) [lo..<Suc hi] \<noteq> []" by (auto simp: filter_empty_conv simp del: upt_Suc)
  then show ?thesis by (auto simp: zero_cell_def split: list.splits simp del: upt_Suc)
qed

lemma zero_cell_unused:
  assumes "0 \<le> zero_cell cs lo hi"
  shows "int lo \<le> zero_cell cs lo hi" "zero_cell cs lo hi \<le> int hi" "i < length cs \<Longrightarrow> mc_src (cs ! i) \<noteq> zero_cell cs lo hi"
proof -
  obtain k ks where f: "filter (\<lambda>i. \<forall>c \<in> set cs. mc_src c \<noteq> int i) [lo..<Suc hi] = k # ks" "zero_cell cs lo hi = int k"
    using assms by (auto simp: zero_cell_def split: list.splits simp del: upt_Suc)
  have "k \<in> set (filter (\<lambda>i. \<forall>c \<in> set cs. mc_src c \<noteq> int i) [lo..<Suc hi])" unfolding f(1) by simp
  then show "int lo \<le> zero_cell cs lo hi" "zero_cell cs lo hi \<le> int hi" "i < length cs \<Longrightarrow> mc_src (cs ! i) \<noteq> zero_cell cs lo hi"
    unfolding f(2) by (auto simp del: upt_Suc)
qed

section \<open>The cells after \<open>find_slot\<close>\<close>

text \<open>A cell that holds no sequence and whose state is its own: nobody wrote to it since it was zeroed.\<close>

definition spare :: "mem_cell list \<Rightarrow> int \<Rightarrow> bool" where
  "spare cs s \<longleftrightarrow> s = -1 \<or> (\<exists>j < length cs. s = int j \<and> mc_seq_id (cs ! j) = {} \<and> mc_src (cs ! j) = int j)"

definition sources_ok :: "mem_cell list \<Rightarrow> bool" where
  "sources_ok cs \<longleftrightarrow> (\<forall>i < length cs. mc_src (cs ! i) = -1 \<or> mc_src (cs ! i) = int i) \<and> (\<forall>i < length cs. mc_seq_id (cs ! i) \<noteq> {} \<longrightarrow> mc_src (cs ! i) = int i)"

lemma source_spare: "sources_ok cs \<Longrightarrow> j < length cs \<Longrightarrow> mc_seq_id (cs ! j) = {} \<Longrightarrow> spare cs (mc_src (cs ! j))"
  by (auto simp: sources_ok_def spare_def)

lemma tail_source: "sources_ok cs \<Longrightarrow> tails_ok cs \<Longrightarrow> t < length cs \<Longrightarrow> 0 \<le> mc_tail (cs ! t) \<Longrightarrow> mc_src (tail_cell cs t) = mc_tail (cs ! t)"
  using tail_index[of "{}" cs t] tails_butD(4)[of "{}" cs t "nat (mc_tail (cs ! t))"] by (auto simp: sources_ok_def)

text \<open>The cells during the search: \<open>cs0\<close> after the check, \<open>cs1\<close> when every set has a cell, \<open>cs2\<close> gathered (by \<open>f\<close>), \<open>cs3\<close> with the sets placed.\<close>

definition placed :: "llama_ubatch_full \<Rightarrow> nat \<Rightarrow> mem_cell list \<Rightarrow> mem_cell list \<Rightarrow> bool" where
  "placed ub L a b \<longleftrightarrow> length b = length a \<and>
     (\<forall>k < ub_n_seqs ub. \<forall>t < length a. int t \<in> set (set_ids ub k) \<longrightarrow> mc_tail (b ! t) = int (L + k)) \<and>
     (\<forall>t < length a. (\<forall>k < ub_n_seqs ub. int t \<notin> set (set_ids ub k)) \<longrightarrow> mc_tail (b ! t) = mc_tail (a ! t)) \<and>
     (\<forall>i < length a. mc_seq_id (b ! i) = (if L \<le> i \<and> i < L + ub_n_seqs ub then set (set_ids ub (i - L)) else mc_seq_id (a ! i)) \<and>
        mc_pos (b ! i) = (if L \<le> i \<and> i < L + ub_n_seqs ub then last_pos ub (i - L) else mc_pos (a ! i)) \<and> mc_src (b ! i) = mc_src (a ! i))"

definition slot_run :: "llama_ubatch_full \<Rightarrow> nat \<Rightarrow> nat \<Rightarrow> (nat \<Rightarrow> nat) \<Rightarrow> mem_cell list \<Rightarrow> mem_cell list \<Rightarrow> mem_cell list \<Rightarrow> mem_cell list \<Rightarrow> bool" where
  "slot_run ub L H f cs0 cs1 cs2 cs3 \<longleftrightarrow> tails_ok cs0 \<and> sources_ok cs0 \<and> rec_ubatch_ok (length cs0) ub \<and>
     (\<forall>k < ub_n_seqs ub. \<forall>x \<in> set (tl (set_ids ub k)). mc_tail (cs0 ! nat x) = -1) \<and> owned cs0 (firsts ub (ub_n_seqs ub)) cs1 (int L) (int H) \<and>
     moved L H f cs1 cs2 \<and> (\<forall>k < ub_n_seqs ub. mc_tail (cs2 ! first_id ub k) = int (L + k)) \<and> placed ub L cs2 cs3"

lemma slot_runD:
  assumes "slot_run ub L H f cs0 cs1 cs2 cs3"
  shows "tails_ok cs0" "sources_ok cs0" "rec_ubatch_ok (length cs0) ub" "owned cs0 (firsts ub (ub_n_seqs ub)) cs1 (int L) (int H)"
    "moved L H f cs1 cs2" "k < ub_n_seqs ub \<Longrightarrow> mc_tail (cs2 ! first_id ub k) = int (L + k)"
    "k < ub_n_seqs ub \<Longrightarrow> x \<in> set (tl (set_ids ub k)) \<Longrightarrow> mc_tail (cs0 ! nat x) = -1" "placed ub L cs2 cs3"
  using assms unfolding slot_run_def by blast+

lemma slot_bounds:
  assumes "slot_run ub L H f cs0 cs1 cs2 cs3"
  shows "length cs1 = length cs0" "length cs2 = length cs0" "length cs3 = length cs0" "H < length cs0" "L + ub_n_seqs ub \<le> Suc H"
proof -
  note d = slot_runD[OF assms]
  note o = ownedD[OF d(4)] and m = movedD[OF d(5)] and u = ubatch_sets[OF d(3)]
  show l: "length cs1 = length cs0" "length cs2 = length cs0" using o(1) m(1) by simp_all
  show "length cs3 = length cs0" using d(8) l by (simp add: placed_def)
  show "H < length cs0" using o(12) by simp
  have "0 < ub_n_seqs ub" using d(3) by (simp add: rec_ubatch_ok_def)
  then show "L + ub_n_seqs ub \<le> Suc H" using slot_fits[OF d(4) u(4)] by linarith
qed

lemma placedD:
  assumes "slot_run ub L H f cs0 cs1 cs2 cs3"
  shows "k < ub_n_seqs ub \<Longrightarrow> t < length cs0 \<Longrightarrow> int t \<in> set (set_ids ub k) \<Longrightarrow> mc_tail (cs3 ! t) = int (L + k)"
    "t < length cs0 \<Longrightarrow> \<forall>k < ub_n_seqs ub. int t \<notin> set (set_ids ub k) \<Longrightarrow> mc_tail (cs3 ! t) = mc_tail (cs2 ! t)"
    "i < length cs0 \<Longrightarrow> mc_seq_id (cs3 ! i) = (if L \<le> i \<and> i < L + ub_n_seqs ub then set (set_ids ub (i - L)) else mc_seq_id (cs2 ! i))"
    "i < length cs0 \<Longrightarrow> mc_pos (cs3 ! i) = (if L \<le> i \<and> i < L + ub_n_seqs ub then last_pos ub (i - L) else mc_pos (cs2 ! i))"
    "i < length cs0 \<Longrightarrow> mc_src (cs3 ! i) = mc_src (cs2 ! i)"
  using slot_runD(8)[OF assms] unfolding placed_def slot_bounds(2)[OF assms] by blast+

text \<open>The sequences of the ubatch, and where their cells are.\<close>

lemma slot_ids:
  assumes "slot_run ub L H f cs0 cs1 cs2 cs3" "k < ub_n_seqs ub"
  shows "first_id ub k \<in> firsts ub (ub_n_seqs ub)" "int (first_id ub k) \<in> set (set_ids ub k)" "first_id ub k < length cs0"
    "x \<in> set (set_ids ub k) \<Longrightarrow> nat x < length cs0 \<and> int (nat x) = x"
proof -
  note u = ubatch_sets[OF slot_runD(3)[OF assms(1)]]
  show "first_id ub k \<in> firsts ub (ub_n_seqs ub)" using assms(2) by simp
  show "int (first_id ub k) \<in> set (set_ids ub k)" by (metis list.set_intros(1) u(1)[OF assms(2)])
  show "first_id ub k < length cs0" by (rule u(2)[OF assms(2)])
  show "nat x < length cs0 \<and> int (nat x) = x" if "x \<in> set (set_ids ub k)" using u(5)[OF assms(2) that] by (auto simp: seq_in_def)
qed

lemma moved_tail:
  assumes "slot_run ub L H f cs0 cs1 cs2 cs3" "t < length cs0"
  shows "mc_tail (cs2 ! t) = (if mc_tail (cs1 ! t) < 0 then mc_tail (cs1 ! t) else int (f (nat (mc_tail (cs1 ! t)))))"
  using movedD(5)[OF slot_runD(5)[OF assms(1)], of t] assms(2) slot_bounds(1)[OF assms(1)] by simp

lemma first_tail:
  assumes "slot_run ub L H f cs0 cs1 cs2 cs3"
  shows "t \<in> firsts ub (ub_n_seqs ub) \<Longrightarrow> 0 \<le> mc_tail (cs1 ! t)" "k < ub_n_seqs ub \<Longrightarrow> f (nat (mc_tail (cs1 ! first_id ub k))) = L + k"
proof -
  note d = slot_runD[OF assms]
  show p: "0 \<le> mc_tail (cs1 ! t)" if "t \<in> firsts ub (ub_n_seqs ub)" for t using ownedD(5)[OF d(4) that] by (simp add: sole_def)
  show "f (nat (mc_tail (cs1 ! first_id ub k))) = L + k" if k: "k < ub_n_seqs ub"
    using d(6)[OF k] moved_tail[OF assms slot_ids(3)[OF assms k]] p[OF slot_ids(1)[OF assms k]] by simp
qed

lemma second_tail:
  assumes "slot_run ub L H f cs0 cs1 cs2 cs3" "k < ub_n_seqs ub" "x \<in> set (tl (set_ids ub k))"
  shows "mc_tail (cs2 ! nat x) = -1"
proof -
  note d = slot_runD[OF assms(1)]
  note u = ubatch_sets[OF d(3)]
  have x: "x \<in> set (set_ids ub k)" using assms(3) by (metis list.set_intros(2) u(1)[OF assms(2)])
  note i = slot_ids(4)[OF assms(1,2) x]
  have "nat x \<notin> firsts ub (ub_n_seqs ub)" using u(6)[OF assms(2) _ assms(3)] i by (metis imageE lessThan_iff)
  then show ?thesis using ownedD(3)[OF d(4)] i d(7)[OF assms(2,3)] moved_tail[OF assms(1)] by simp
qed

lemma tail_unplaced:
  assumes "slot_run ub L H f cs0 cs1 cs2 cs3" "t < length cs0" "\<And>k. k < ub_n_seqs ub \<Longrightarrow> int t \<notin> set (tl (set_ids ub k))"
  shows "mc_tail (cs3 ! t) = mc_tail (cs2 ! t)"
proof (cases "\<exists>k < ub_n_seqs ub. int t \<in> set (set_ids ub k)")
  case True
  then obtain k where k: "k < ub_n_seqs ub" "int t \<in> set (set_ids ub k)" by blast
  then have "t = first_id ub k" using assms(3)[OF k(1)] ubatch_sets(1)[OF slot_runD(3)[OF assms(1)] k(1)] by (metis of_nat_eq_iff set_ConsD)
  then show ?thesis using placedD(1)[OF assms(1) k(1) assms(2) k(2)] slot_runD(6)[OF assms(1) k(1)] by simp
next
  case False
  then show ?thesis using placedD(2)[OF assms(1,2)] by blast
qed

text \<open>Every sequence but the shared ones keeps its cell, moved by \<open>f\<close>.\<close>

lemma kept_tail:
  assumes "slot_run ub L H f cs0 cs1 cs2 cs3" "t < length cs0" "0 \<le> mc_tail (cs0 ! t) \<or> t \<in> firsts ub (ub_n_seqs ub)"
  shows "0 \<le> mc_tail (cs1 ! t)" "nat (mc_tail (cs1 ! t)) < length cs0" "mc_tail (cs3 ! t) = int (f (nat (mc_tail (cs1 ! t))))"
proof -
  note d = slot_runD[OF assms(1)]
  note o = ownedD[OF d(4)] and u = ubatch_sets[OF d(3)]
  show z: "0 \<le> mc_tail (cs1 ! t)" using assms(2,3) first_tail(1)[OF assms(1)] o(3)[of t] by (cases "t \<in> firsts ub (ub_n_seqs ub)") auto
  have "int t \<notin> set (tl (set_ids ub k))" if k: "k < ub_n_seqs ub" for k
    using d(7)[OF k, of "int t"] u(6)[OF k, of _ "int t"] assms(3) by auto
  then show "mc_tail (cs3 ! t) = int (f (nat (mc_tail (cs1 ! t))))" using tail_unplaced[OF assms(1,2)] moved_tail[OF assms(1,2)] z by simp
  show "nat (mc_tail (cs1 ! t)) < length cs0" using tail_index(1)[OF o(2) _ z] assms(2) slot_bounds(1)[OF assms(1)] by simp
qed

lemma unmoved_cell:
  assumes "slot_run ub L H f cs0 cs1 cs2 cs3" "t < length cs0" "t \<notin> firsts ub (ub_n_seqs ub)" "0 \<le> mc_tail (cs0 ! t)"
  shows "mc_src (tail_cell cs1 t) = mc_src (tail_cell cs0 t)" "mc_pos (tail_cell cs1 t) = mc_pos (tail_cell cs0 t)" "mc_tail (cs1 ! t) = mc_tail (cs0 ! t)"
proof -
  note d = slot_runD[OF assms(1)]
  show e: "mc_tail (cs1 ! t) = mc_tail (cs0 ! t)" by (rule ownedD(3)[OF d(4) assms(2,3)])
  then show "mc_src (tail_cell cs1 t) = mc_src (tail_cell cs0 t)" "mc_pos (tail_cell cs1 t) = mc_pos (tail_cell cs0 t)"
    using ownedD(8)[OF d(4) kept_tail(2)[OF assms(1,2)]] other_tail[OF d(4) assms(2,3)] assms(4) by auto
qed

text \<open>The sources of the cells.\<close>

lemma moved_source:
  assumes "slot_run ub L H f cs0 cs1 cs2 cs3" "i < length cs0"
  shows "mc_src (cs3 ! f i) = mc_src (cs1 ! i)"
proof -
  note d = slot_runD[OF assms(1)] and b = slot_bounds[OF assms(1)]
  show ?thesis using placedD(5)[OF assms(1), of "f i"] movedD(7)[OF d(5), of i] moved_index[OF d(5), of i] assms(2) b(1,4) by simp
qed

lemma kept_source:
  assumes "slot_run ub L H f cs0 cs1 cs2 cs3" "t < length cs0" "0 \<le> mc_tail (cs0 ! t)"
  shows "mc_src (tail_cell cs3 t) = mc_tail (cs0 ! t)"
proof -
  note d = slot_runD[OF assms(1)] and k = kept_tail[OF assms(1,2) disjI1[OF assms(3)]]
  have "mc_src (tail_cell cs1 t) = mc_src (tail_cell cs0 t)"
    using ownedD(7)[OF d(4), of t] unmoved_cell(1)[OF assms(1,2) _ assms(3)] assms(3) by (cases "t \<in> firsts ub (ub_n_seqs ub)") auto
  then show ?thesis using k moved_source[OF assms(1) k(2)] tail_source[OF d(2,1) assms(2,3)] by simp
qed

lemma new_source:
  assumes "slot_run ub L H f cs0 cs1 cs2 cs3" "k < ub_n_seqs ub" "mc_tail (cs0 ! first_id ub k) < 0"
  shows "spare cs0 (mc_src (tail_cell cs3 (first_id ub k)))"
proof -
  note d = slot_runD[OF assms(1)] and i = slot_ids[OF assms(1,2)]
  note o = ownedD[OF d(4)] and kp = kept_tail[OF assms(1) i(3) disjI2[OF i(1)]]
  have l: "nat (mc_tail (cs1 ! first_id ub k)) < length cs1" using kp(2) slot_bounds(1)[OF assms(1)] by simp
  have "mc_seq_id (tail_cell cs1 (first_id ub k)) = {}"
    unfolding ids_of_tails[OF o(2) l] using o(5)[OF i(1)] i(1) assms(3) kp(1) by (auto simp: sole_def)
  then have "mc_seq_id (cs0 ! nat (mc_tail (cs1 ! first_id ub k))) = {}" using o(9)[OF kp(2)] by simp
  from source_spare[OF d(2) kp(2) this] show ?thesis using kp moved_source[OF assms(1) kp(2)] o(7)[OF i(1)] assms(3) by simp
qed

lemma moved_onto:
  assumes "slot_run ub L H f cs0 cs1 cs2 cs3" "i < length cs0"
  shows "\<exists>j < length cs0. f j = i \<and> (\<not> (L \<le> i \<and> i \<le> H) \<longrightarrow> j = i)"
proof (cases "L \<le> i \<and> i \<le> H")
  case True
  note m = movedD[OF slot_runD(5)[OF assms(1)]]
  have "f ` {L..H} = {L..H}" using m(2,3) by (intro endo_inj_surj) (auto intro: inj_on_subset)
  then obtain j where "j \<in> {L..H}" "f j = i" using True by (metis atLeastAtMost_iff imageE)
  then show ?thesis using slot_bounds(4)[OF assms(1)] True by (intro exI[of _ j]) simp
qed (use movedD(4)[OF slot_runD(5)[OF assms(1)]] assms(2) in blast)

text \<open>A cell that none of the sets got.\<close>

lemma other_cell:
  assumes "slot_run ub L H f cs0 cs1 cs2 cs3" "j < length cs0" "\<And>k. k < ub_n_seqs ub \<Longrightarrow> f j \<noteq> L + k"
  shows "mc_src (cs1 ! j) = mc_src (cs0 ! j)" "\<not> (L \<le> f j \<and> f j < L + ub_n_seqs ub)" "mc_seq_id (cs1 ! j) = {} \<Longrightarrow> mc_seq_id (cs0 ! j) = {}"
proof -
  note o = ownedD[OF slot_runD(4)[OF assms(1)]]
  have "mc_tail (cs1 ! t) \<noteq> int j" if t: "t \<in> firsts ub (ub_n_seqs ub)" for t
    using first_tail(2)[OF assms(1)] \<open>\<And>k. k < ub_n_seqs ub \<Longrightarrow> f j \<noteq> L + k\<close> t by force
  then show "mc_src (cs1 ! j) = mc_src (cs0 ! j)" "mc_seq_id (cs1 ! j) = {} \<Longrightarrow> mc_seq_id (cs0 ! j) = {}" using o(8,9)[OF assms(2)] by blast+
  show "\<not> (L \<le> f j \<and> f j < L + ub_n_seqs ub)" using assms(3) by (metis le_Suc_ex nat_add_left_cancel_less)
qed

lemma empty_source:
  assumes "slot_run ub L H f cs0 cs1 cs2 cs3" "i < length cs0" "mc_seq_id (cs3 ! i) = {}"
  shows "spare cs0 (mc_src (cs3 ! i))"
proof -
  note d = slot_runD[OF assms(1)] and p = placedD[OF assms(1)]
  obtain j where j: "j < length cs0" "f j = i" using moved_onto[OF assms(1,2)] by blast
  have nk: "f j \<noteq> L + k" if "k < ub_n_seqs ub" for k using p(3)[OF assms(2)] assms(3) ubatch_sets(1)[OF d(3) that] that j(2) by auto
  note ot = other_cell[OF assms(1) j(1) nk]
  have ns: "\<not> (L \<le> i \<and> i < L + ub_n_seqs ub)" using ot(2) unfolding j(2) .
  have "mc_seq_id (cs3 ! i) = mc_seq_id (cs2 ! i)" using p(3)[OF assms(2)] unfolding if_not_P[OF ns] .
  then have "mc_seq_id (cs1 ! j) = {}" using assms(3) movedD(6)[OF d(5), of j] j slot_bounds(1)[OF assms(1)] by simp
  then show ?thesis using source_spare[OF d(2) j(1)] ot(1,3) moved_source[OF assms(1) j(1)] j(2) by simp
qed

lemma outside_source:
  assumes "slot_run ub L H f cs0 cs1 cs2 cs3" "i < length cs0" "\<not> (L \<le> i \<and> i \<le> H)"
  shows "mc_src (cs3 ! i) = mc_src (cs0 ! i)" "mc_seq_id (cs3 ! i) \<noteq> {} \<Longrightarrow> mc_src (cs3 ! i) = int i"
proof -
  note d = slot_runD[OF assms(1)] and b = slot_bounds[OF assms(1)]
  note o = ownedD[OF d(4)] and m = movedD[OF d(5)]
  have out: "f i = i" by (rule m(4)[OF assms(3)])
  have nk: "f i \<noteq> L + k" if "k < ub_n_seqs ub" for k using out assms(3) that b(5) by auto
  show e: "mc_src (cs3 ! i) = mc_src (cs0 ! i)" using other_cell(1)[OF assms(1,2) nk] out moved_source[OF assms(1,2)] by simp
  show "mc_src (cs3 ! i) = int i" if ne: "mc_seq_id (cs3 ! i) \<noteq> {}"
  proof -
    have "mc_seq_id (cs1 ! i) \<noteq> {}" using placedD(3)[OF assms(1,2)] assms(2,3) ne m(6)[of i] out b(1,5) by (auto split: if_splits)
    then obtain t where t: "t < length cs0" "mc_tail (cs1 ! t) = int i" using ids_of_tails[OF o(2), of i] assms(2) b(1) by auto
    have "t \<notin> firsts ub (ub_n_seqs ub)" using o(6)[of t] t(2) assms(3) by auto
    then have "mc_tail (cs0 ! t) = int i" using o(3)[OF t(1)] t(2) by simp
    then have "int t \<in> mc_seq_id (cs0 ! i)" using tails_butD(4)[OF d(1) t(1) assms(2)] by simp
    then show ?thesis using e d(2) assms(2) by (auto simp: sources_ok_def)
  qed
qed

lemma moved_apart:
  assumes "slot_run ub L H f cs0 cs1 cs2 cs3" "t < length cs0" "t \<notin> firsts ub (ub_n_seqs ub)" "0 \<le> mc_tail (cs1 ! t)" "k < ub_n_seqs ub"
  shows "f (nat (mc_tail (cs1 ! t))) \<noteq> L + k"
proof
  assume "f (nat (mc_tail (cs1 ! t))) = L + k"
  then have "nat (mc_tail (cs1 ! t)) = nat (mc_tail (cs1 ! first_id ub k))"
    using first_tail(2)[OF assms(1,5)] injD[OF movedD(2)[OF slot_runD(5)[OF assms(1)]]] by simp
  then have "mc_tail (cs1 ! t) = mc_tail (cs1 ! first_id ub k)" using assms(4) first_tail(1)[OF assms(1) slot_ids(1)[OF assms(1,5)]] by linarith
  then show False using other_tail[OF slot_runD(4)[OF assms(1)] assms(2,3) slot_ids(1)[OF assms(1,5)]] by simp
qed

lemma kept_position:
  assumes "slot_run ub L H f cs0 cs1 cs2 cs3" "t < length cs0" "\<forall>k < ub_n_seqs ub. int t \<notin> set (set_ids ub k)"
  shows "if mc_tail (cs0 ! t) < 0 then mc_tail (cs3 ! t) < 0 else 0 \<le> mc_tail (cs3 ! t) \<and> mc_pos (tail_cell cs3 t) = mc_pos (tail_cell cs0 t)"
proof -
  note d = slot_runD[OF assms(1)] and b = slot_bounds[OF assms(1)]
  have nF: "t \<notin> firsts ub (ub_n_seqs ub)" using assms(3) slot_ids(2)[OF assms(1)] by auto
  show ?thesis
  proof (cases "mc_tail (cs0 ! t) < 0")
    case True
    then show ?thesis using placedD(2)[OF assms] moved_tail[OF assms(1,2)] ownedD(3)[OF d(4) assms(2) nF] by simp
  next
    case False
    then have z: "0 \<le> mc_tail (cs0 ! t)" by simp
    let ?c = "nat (mc_tail (cs1 ! t))"
    note kp = kept_tail[OF assms(1,2) disjI1[OF z]]
    have ns: "\<not> (L \<le> f ?c \<and> f ?c < L + ub_n_seqs ub)" using moved_apart[OF assms(1,2) nF kp(1)] by (metis le_Suc_ex nat_add_left_cancel_less)
    have fi: "f ?c < length cs0" using moved_index[OF d(5), of ?c] kp(2) b(1,4) by simp
    have "mc_pos (tail_cell cs3 t) = mc_pos (cs2 ! f ?c)" using placedD(4)[OF assms(1) fi] unfolding if_not_P[OF ns] kp(3) by simp
    then have "mc_pos (tail_cell cs3 t) = mc_pos (cs1 ! ?c)" using movedD(8)[OF d(5), of ?c] kp(2) b(1) by simp
    then show ?thesis using unmoved_cell(2)[OF assms(1,2) nF z] kp(3) False by simp
  qed
qed

text \<open>Tails and cells agree again.\<close>

lemma placed_member:
  assumes "slot_run ub L H f cs0 cs1 cs2 cs3" "s < length cs0" "k < ub_n_seqs ub"
  shows "int s \<in> set (set_ids ub k) \<longleftrightarrow> mc_tail (cs3 ! s) = int (L + k)"
proof -
  note d = slot_runD[OF assms(1)] and p = placedD[OF assms(1)]
  show ?thesis
  proof (cases "\<exists>j < ub_n_seqs ub. int s \<in> set (set_ids ub j)")
    case True
    then obtain j where j: "j < ub_n_seqs ub" "int s \<in> set (set_ids ub j)" by blast
    then have "mc_tail (cs3 ! s) = int (L + j)" using p(1) assms(2) by blast
    then show ?thesis using ubatch_sets(3)[OF d(3) j(1) assms(3) j(2)] j(2) by auto
  next
    case False
    then have e: "mc_tail (cs3 ! s) = mc_tail (cs2 ! s)" "s \<notin> firsts ub (ub_n_seqs ub)" using p(2)[OF assms(2)] slot_ids(2)[OF assms(1)] by auto
    have "mc_tail (cs2 ! s) \<noteq> int (L + k)"
      using moved_tail[OF assms(1,2)] moved_apart[OF assms(1,2) e(2) _ assms(3)] by (auto split: if_splits)
    then show ?thesis using e(1) False assms(3) by auto
  qed
qed

lemma unplaced_member:
  assumes "slot_run ub L H f cs0 cs1 cs2 cs3" "s < length cs0" "i < length cs0" "\<not> (L \<le> i \<and> i < L + ub_n_seqs ub)"
  shows "int s \<in> mc_seq_id (cs3 ! i) \<longleftrightarrow> mc_tail (cs3 ! s) = int i"
proof -
  note d = slot_runD[OF assms(1)] and p = placedD[OF assms(1)] and b = slot_bounds[OF assms(1)]
  note o = ownedD[OF d(4)] and m = movedD[OF d(5)]
  let ?F = "firsts ub (ub_n_seqs ub)"
  obtain j where j: "j < length cs0" "f j = i" using moved_onto[OF assms(1,3)] by blast
  have ids: "int s \<in> mc_seq_id (cs3 ! i) \<longleftrightarrow> mc_tail (cs1 ! s) = int j \<and> s \<notin> fresh cs0 ?F"
    using p(3)[OF assms(3)] assms(4) m(6)[of j] j b(1) tails_butD(4)[OF o(2), of s j] assms(2) by simp
  show ?thesis
  proof (cases "\<exists>k < ub_n_seqs ub. int s \<in> set (set_ids ub k)")
    case True
    then obtain k where k: "k < ub_n_seqs ub" "int s \<in> set (set_ids ub k)" by blast
    have "mc_tail (cs3 ! s) \<noteq> int i" using p(1)[OF k(1) assms(2) k(2)] assms(4) k(1) by auto
    moreover have "mc_tail (cs1 ! s) \<noteq> int j"
    proof (cases "s = first_id ub k")
      case True
      then show ?thesis using first_tail(2)[OF assms(1) k(1)] j(2) assms(4) k(1) by auto
    next
      case False
      then have "int s \<in> set (tl (set_ids ub k))" using k ubatch_sets(1)[OF d(3) k(1)] by (metis of_nat_eq_iff set_ConsD)
      then have "mc_tail (cs2 ! s) = -1" using second_tail[OF assms(1) k(1), of "int s"] by simp
      then show ?thesis using moved_tail[OF assms(1,2)] by (auto split: if_splits)
    qed
    ultimately show ?thesis using ids by simp
  next
    case False
    then have nF: "s \<notin> ?F" and e: "mc_tail (cs3 ! s) = mc_tail (cs2 ! s)" using p(2)[OF assms(2)] slot_ids(2)[OF assms(1)] by auto
    have "mc_tail (cs2 ! s) = int i \<longleftrightarrow> mc_tail (cs1 ! s) = int j"
      using moved_tail[OF assms(1,2)] j(2) injD[OF m(2)] by (auto split: if_splits) (metis int_nat_eq not_le)
    then show ?thesis using ids nF e by simp
  qed
qed

lemma placed_tails_ok:
  assumes "slot_run ub L H f cs0 cs1 cs2 cs3"
  shows "tails_ok cs3"
proof (rule tails_butI)
  note d = slot_runD[OF assms] and p = placedD[OF assms] and b = slot_bounds[OF assms]
  note o = ownedD[OF d(4)] and m = movedD[OF d(5)]
  show "\<exists>s < length cs3. x = int s" if i: "i < length cs3" "x \<in> mc_seq_id (cs3 ! i)" for i x
  proof (cases "L \<le> i \<and> i < L + ub_n_seqs ub")
    case True
    then have "i - L < ub_n_seqs ub" "x \<in> set (set_ids ub (i - L))" using i b(3) p(3) by auto
    then show ?thesis using slot_ids(4)[OF assms] b(3) by metis
  next
    case False
    obtain j where j: "j < length cs0" "f j = i" using moved_onto[OF assms] i(1) b(3) by auto
    then have "x \<in> mc_seq_id (cs1 ! j)" using False i b(1,3) p(3) m(6)[of j] by auto
    then show ?thesis using tails_butD(1)[OF o(2), of j x] j(1) b(1,3) by simp
  qed
  show "-1 \<le> mc_tail (cs3 ! s) \<and> mc_tail (cs3 ! s) < int (length cs3)" if s: "s < length cs3" for s
  proof (cases "\<exists>k < ub_n_seqs ub. int s \<in> set (set_ids ub k)")
    case True
    then obtain k where "k < ub_n_seqs ub" "mc_tail (cs3 ! s) = int (L + k)" using p(1) s b(3) by metis
    then show ?thesis using b(3-5) by linarith
  next
    case False
    then have "mc_tail (cs3 ! s) = mc_tail (cs2 ! s)" using b(3) p(2) s by auto
    moreover have "f (nat (mc_tail (cs1 ! s))) < length cs0" if "0 \<le> mc_tail (cs1 ! s)"
      using moved_index[OF d(5)] tail_index(1)[OF o(2) _ that] s b by simp
    ultimately show ?thesis using moved_tail[OF assms, of s] s tails_butD(2)[OF o(2), of s] b(1,3) by auto
  qed
  show "int s \<in> mc_seq_id (cs3 ! i) \<longleftrightarrow> mc_tail (cs3 ! s) = int i \<and> s \<notin> {}" if si: "s < length cs3" "i < length cs3" for s i
  proof (cases "L \<le> i \<and> i < L + ub_n_seqs ub")
    case True
    then obtain k where k: "i = L + k" "k < ub_n_seqs ub" by (metis le_Suc_ex nat_add_left_cancel_less)
    then show ?thesis using p(3)[of i] True si b(3) placed_member[OF assms, of s k] by simp
  next
    case False
    then show ?thesis using unplaced_member[OF assms, of s i] si b(3) by simp
  qed
qed

lemma slot_cells:
  assumes "tails_ok cs0" "sources_ok cs0" "rec_ubatch_ok (length cs0) ub"
    and "\<forall>k < ub_n_seqs ub. \<forall>x \<in> set (tl (set_ids ub k)). mc_tail (cs0 ! nat x) = -1"
    and own: "owned cs0 (firsts ub (ub_n_seqs ub)) cs1 (int L) (int H)"
  obtains f cs2 where "slot_run ub L H f cs0 cs1 cs2 (fold (place_set ub L) [0..<ub_n_seqs ub] (fold (gather_cell ub L) [0..<ub_n_seqs ub] cs1))"
proof -
  let ?N = "ub_n_seqs ub" and ?cs2 = "fold (gather_cell ub L) [0..<ub_n_seqs ub] cs1"
  note o = ownedD[OF own] and u = ubatch_sets[OF assms(3)]
  have N: "0 < ?N" using assms(3) by (simp add: rec_ubatch_ok_def)
  have fit: "L + ?N \<le> Suc H" using slot_fits[OF own u(4) N] by linarith
  obtain f where f: "moved L H f cs1 ?cs2" "\<forall>k < ?N. mc_tail (?cs2 ! first_id ub k) = int (L + k)"
    using gather_loop[OF own u(4) order_refl] by blast
  have l: "length ?cs2 = length cs0" using o(1) movedD(1)[OF f(1)] by simp
  have "rec_ubatch_ok (length ?cs2) ub" "L + ?N \<le> length ?cs2" using assms(3) fit o(12) unfolding l by simp_all
  then have "placed ub L ?cs2 (fold (place_set ub L) [0..<?N] ?cs2)" using place_loop[of ?cs2 ub L ?N] unfolding placed_def by blast
  then show ?thesis using that[of f ?cs2] assms f unfolding slot_run_def by blast
qed

section \<open>What \<open>find_slot\<close> does\<close>

definition rec_wf :: "llama_memory_recurrent \<Rightarrow> bool" where
  "rec_wf m \<longleftrightarrow> rm_size m = length (rm_cells m) \<and> rm_size m < 2 ^ 31 \<and> (0 < rm_size m \<longrightarrow> rm_head m < rm_size m) \<and>
     length (rm_rs_idx m) = rm_n_seq_max m \<and> tails_ok (rm_cells m) \<and> sources_ok (rm_cells m)"

lemma rec_wfD:
  assumes "rec_wf m"
  shows "rm_size m = length (rm_cells m)" "rm_size m < 2 ^ 31" "0 < rm_size m \<Longrightarrow> rm_head m < rm_size m" "length (rm_rs_idx m) = rm_n_seq_max m"
    "tails_ok (rm_cells m)" "sources_ok (rm_cells m)"
  using assms by (simp_all add: rec_wf_def)

text \<open>The sequences that come to share a cell with the first one of their set.\<close>

definition shared_ids :: "llama_ubatch_full \<Rightarrow> nat set" where
  "shared_ids ub = nat ` (\<Union>k < ub_n_seqs ub. set (tl (set_ids ub k)))"

lemma fewer_sources:
  assumes "fewer X a b" "tails_ok a" "sources_ok a"
  shows "sources_ok b" "spare b s \<Longrightarrow> spare a s"
proof -
  note f = fewerD[OF assms(1)]
  show "sources_ok b" unfolding sources_ok_def f(1)
  proof (intro conjI allI impI)
    fix i assume i: "i < length a"
    show "mc_src (b ! i) = -1 \<or> mc_src (b ! i) = int i" using f(4)[OF i] assms(3) i by (auto simp: sources_ok_def)
    assume "mc_seq_id (b ! i) \<noteq> {}"
    moreover from this have "mc_seq_id (a ! i) \<noteq> {}" using f(3)[OF i] by auto
    ultimately show "mc_src (b ! i) = int i" using f(5)[OF i] assms(3) i by (simp add: sources_ok_def)
  qed
  show "spare a s" if sp: "spare b s"
  proof (cases "s = -1")
    case False
    then obtain j where j: "j < length a" "s = int j" "mc_seq_id (b ! j) = {}" "mc_src (b ! j) = int j" using sp f(1) by (auto simp: spare_def)
    then show ?thesis using f(4)[OF j(1)] f(6)[OF j(1)] by (auto simp: spare_def)
  qed (simp add: spare_def)
qed

lemma find_slot_cells:
  assumes wf: "rec_wf m" and ub: "rec_ubatch_ok (rm_size m) ub"
  obtains cs0 cs1 L H where "fewer (shared_ids ub) (rm_cells m) cs0" "owned cs0 (firsts ub (ub_n_seqs ub)) cs1 (int L) (int H)"
    "rec_find_slot ub m = (let cs3 = fold (place_set ub L) [0..<ub_n_seqs ub] (fold (gather_cell ub L) [0..<ub_n_seqs ub] cs1); z = zero_cell cs3 L H in
       if z < 0 \<and> list_ex (\<lambda>i. mc_src (cs3 ! i) < 0) [L..<Suc H] then Inl Assert_failed
       else Inr (Suc H - L \<ge> ub_n_seqs ub, m\<lparr>rm_cells := stage_sources z L H cs3, rm_rs_z := z, rm_head := L, rm_n := Suc H - L,
              rm_used := length (filter (\<lambda>c. mc_seq_id c \<noteq> {}) (stage_sources z L H cs3))\<rparr>))"
proof -
  note w = rec_wfD[OF wf] and u = ubatch_sets[OF ub]
  let ?N = "ub_n_seqs ub" and ?sets = "map (set_ids ub) [0..<ub_n_seqs ub]" and ?cs = "rm_cells m"
  have N: "0 < ?N" "ub_equal_seqs ub" using ub by (simp_all add: rec_ubatch_ok_def)
  have inr: "\<forall>ids \<in> set ?sets. \<forall>x \<in> set ids. seq_in (length ?cs) x" using u(5) w(1) by auto
  then have sm: "\<forall>ids \<in> set ?sets. \<forall>x \<in> set ids. x < 2 ^ 32" using w(1,2) by (fastforce simp: seq_in_def)
  obtain b cs0 u0 X where c: "check_sets (length ?cs) ?sets (?cs, rm_used m) = (b, cs0, u0)" "fewer X ?cs cs0"
      "b \<longleftrightarrow> (\<forall>ids \<in> set ?sets. \<forall>x \<in> set ids. seq_in (length ?cs) x)" "b \<longrightarrow> X = nat ` (\<Union>ids \<in> set ?sets. set (tl ids))"
    using check_sets_fewer[OF w(5) sm, of "rm_used m"] by (elim exE conjE) (rule that)
  have "(\<Union>ids \<in> set ?sets. set (tl ids)) = (\<Union>k < ?N. set (tl (set_ids ub k)))" by (simp add: lessThan_atLeast0)
  then have b: b "X = shared_ids ub" using c(3,4) inr by (auto simp: shared_ids_def)
  have l: "length cs0 = length ?cs" by (rule fewerD(1)[OF c(2)])
  note t0 = fewer_tails[OF c(2) w(5)]
  define h where "h = (if rm_head m > u32 (rm_used m + 2 * ?N) then 0 else rm_head m)"
  have n: "0 < length cs0" using u(2)[OF N(1)] w(1) l by linarith
  have h: "h < length cs0" using w(1,3) n l by (simp add: h_def)
  have o1: "owned cs0 (firsts ub 0) cs0 (int (rm_size m) - 1) 0" unfolding owned_def using t0 n w(1) l by simp
  have o2: "0 < ?N \<longrightarrow> scanned (fresh cs0 (firsts ub 0)) h cs0 (first_empty cs0 (length cs0) h)" using scan_first[OF t0 h] by simp
  have o3: "\<forall>s < ?N. first_id ub s < length cs0" using u(2) w(1) l by simp
  obtain cs1 next' lo' hi' where r: "own_cells ub [0..<?N] (cs0, first_empty cs0 (length cs0) h, int (rm_size m) - 1, 0) = Inr (cs1, next', lo', hi')"
      "owned cs0 (firsts ub ?N) cs1 lo' hi'"
    using own_cells_loop[OF o1 o2 le0 o3 u(4)] by (elim exE conjE) (rule that)
  obtain L H where lh: "lo' = int L" "hi' = int H" using ownedD(10,11)[OF r(2)] by (metis nonneg_int_cases)
  define m1 where "m1 = (if rm_head m > u32 (rm_used m + 2 * ?N) then m\<lparr>rm_head := 0\<rparr> else m)"
  have m1: "rm_size m1 = rm_size m" "rm_cells m1 = ?cs" "rm_used m1 = rm_used m" "rm_head m1 = h" by (simp_all add: m1_def h_def)
  have sub: "nat (int H - int L + 1) = Suc H - L" by linarith
  have upd: "m1\<lparr>rm_cells := a, rm_rs_z := z, rm_head := L, rm_n := k, rm_used := j\<rparr> = m\<lparr>rm_cells := a, rm_rs_z := z, rm_head := L, rm_n := k, rm_used := j\<rparr>" for a z k j
    by (simp add: m1_def)
  have "rec_find_slot ub m = (let cs3 = fold (place_set ub L) [0..<?N] (fold (gather_cell ub L) [0..<?N] cs1); z = zero_cell cs3 L H in
       if z < 0 \<and> list_ex (\<lambda>i. mc_src (cs3 ! i) < 0) [L..<Suc H] then Inl Assert_failed
       else Inr (Suc H - L \<ge> ?N, m\<lparr>rm_cells := stage_sources z L H cs3, rm_rs_z := z, rm_head := L, rm_n := Suc H - L,
              rm_used := length (filter (\<lambda>c. mc_seq_id c \<noteq> {}) (stage_sources z L H cs3))\<rparr>))"
  proof -
    have c': "check_sets (rm_size m) ?sets (?cs, rm_used m) = (True, cs0, u0)" using c(1) b(1) w(1) by simp
    have r': "own_cells ub [0..<?N] (cs0, first_empty cs0 (rm_size m) h, int (rm_size m) - 1, 0) = Inr (cs1, next', int L, int H)"
      using r(1) w(1) l lh by simp
    show ?thesis unfolding rec_find_slot_def Let_def m1_def [symmetric] unfolding m1 c' prod.case bool.case r' sum.case
      using N(2) by (simp only: upd sub nat_int simp_thms if_False not_True_eq_False)
  qed
  then show ?thesis using that c(2) b(2) r(2) lh by simp
qed

end
