(* ===== verification/RecurrentReach.thy ===== *)
theory RecurrentReach
  imports RecurrentSlot
begin

text \<open>
  \<open>find_slot\<close> of the recurrent memory as a whole, the invariant of all its operations, and batches.
\<close>

section \<open>The slot found and the states loaded\<close>

text \<open>The cell whose state a cell has in the next graph: \<open>None\<close> is the zeroed state.\<close>

definition state_from :: "llama_memory_recurrent \<Rightarrow> nat \<Rightarrow> nat option" where
  "state_from m i =
     (if rm_head m \<le> i \<and> i < rm_head m + rm_n m then if mc_src0 (rm_cells m ! i) = rm_rs_z m then None else Some (nat (mc_src0 (rm_cells m ! i)))
      else Some i)"

abbreviation rec_tail :: "llama_memory_recurrent \<Rightarrow> nat \<Rightarrow> int" where
  "rec_tail m t \<equiv> mc_tail (rm_cells m ! t)"

abbreviation rec_pos :: "llama_memory_recurrent \<Rightarrow> nat \<Rightarrow> llama_pos" where
  "rec_pos m t \<equiv> mc_pos (tail_cell (rm_cells m) t)"

abbreviation unnamed :: "llama_ubatch_full \<Rightarrow> nat \<Rightarrow> bool" where
  "unnamed ub t \<equiv> \<forall>k < ub_n_seqs ub. int t \<notin> set (set_ids ub k)"

definition spare_from :: "mem_cell list \<Rightarrow> nat option \<Rightarrow> bool" where
  "spare_from cs r \<longleftrightarrow> (case r of None \<Rightarrow> True | Some j \<Rightarrow> j < length cs \<and> mc_seq_id (cs ! j) = {} \<and> mc_src (cs ! j) = int j)"

lemma shared_unnamed:
  assumes "rec_ubatch_ok n ub" "t \<in> shared_ids ub"
  shows "\<exists>k < ub_n_seqs ub. int t \<in> set (tl (set_ids ub k))"
proof -
  obtain k x where k: "k < ub_n_seqs ub" "x \<in> set (tl (set_ids ub k))" "t = nat x" using assms(2) by (auto simp: shared_ids_def)
  have "x \<in> set (set_ids ub k)" using k(2) by (metis list.set_intros(2) ubatch_sets(1)[OF assms(1) k(1)])
  then have "0 \<le> x" using ubatch_sets(5)[OF assms(1) k(1)] by (simp add: seq_in_def)
  then show ?thesis using k by auto
qed

text \<open>The memory after the search, with the cells of its stages.\<close>

definition slot_found :: "llama_ubatch_full \<Rightarrow> llama_memory_recurrent \<Rightarrow> nat \<Rightarrow> nat \<Rightarrow> (nat \<Rightarrow> nat) \<Rightarrow>
    mem_cell list \<Rightarrow> mem_cell list \<Rightarrow> mem_cell list \<Rightarrow> mem_cell list \<Rightarrow> llama_memory_recurrent \<Rightarrow> bool" where
  "slot_found ub m L H f cs0 cs1 cs2 cs3 m' \<longleftrightarrow> rec_wf m \<and> rec_ubatch_ok (rm_size m) ub \<and> fewer (shared_ids ub) (rm_cells m) cs0 \<and>
     slot_run ub L H f cs0 cs1 cs2 cs3 \<and>
     m' = m\<lparr>rm_cells := stage_sources (zero_cell cs3 L H) L H cs3, rm_rs_z := zero_cell cs3 L H, rm_head := L, rm_n := Suc H - L,
            rm_used := length (filter (\<lambda>c. mc_seq_id c \<noteq> {}) (stage_sources (zero_cell cs3 L H) L H cs3))\<rparr>"

lemma slot_foundD:
  assumes "slot_found ub m L H f cs0 cs1 cs2 cs3 m'"
  shows "rec_wf m" "rec_ubatch_ok (rm_size m) ub" "fewer (shared_ids ub) (rm_cells m) cs0" "slot_run ub L H f cs0 cs1 cs2 cs3"
    "rm_cells m' = stage_sources (zero_cell cs3 L H) L H cs3" "rm_rs_z m' = zero_cell cs3 L H" "rm_head m' = L" "rm_n m' = Suc H - L"
    "rm_size m' = rm_size m" "rm_n_seq_max m' = rm_n_seq_max m" "rm_rs_idx m' = rm_rs_idx m" "rm_n_rs_seq m' = rm_n_rs_seq m"
    "length cs0 = rm_size m"
  using assms fewerD(1)[of "shared_ids ub" "rm_cells m" cs0] rec_wfD(1)[of m] unfolding slot_found_def by simp_all

lemma found_cell:
  assumes "slot_found ub m L H f cs0 cs1 cs2 cs3 m'" "i < rm_size m"
  shows "rm_cells m' ! i = (if L \<le> i \<and> i \<le> H
      then (cs3 ! i)\<lparr>mc_src0 := (if mc_src (cs3 ! i) < 0 then rm_rs_z m' else mc_src (cs3 ! i)), mc_src := int i\<rparr> else cs3 ! i)"
    "length (rm_cells m') = rm_size m" "rec_tail m' i = mc_tail (cs3 ! i)" "mc_seq_id (rm_cells m' ! i) = mc_seq_id (cs3 ! i)"
    "mc_pos (rm_cells m' ! i) = mc_pos (cs3 ! i)"
proof -
  note d = slot_foundD[OF assms(1)]
  note b = slot_bounds[OF d(4)]
  have "i < length cs3" "Suc H \<le> length cs3" using assms(2) b(3,4) d(13) by simp_all
  note n = stage_nth[OF this, where z = "zero_cell cs3 L H" and lo = L, folded stage_sources_def, folded d(5), folded d(6)]
  show e: "rm_cells m' ! i = (if L \<le> i \<and> i \<le> H
      then (cs3 ! i)\<lparr>mc_src0 := (if mc_src (cs3 ! i) < 0 then rm_rs_z m' else mc_src (cs3 ! i)), mc_src := int i\<rparr> else cs3 ! i)"
    using conjunct1[OF n] by (simp add: less_Suc_eq_le)
  show "length (rm_cells m') = rm_size m" using conjunct2[OF n] b(3) d(13) by simp
  show "rec_tail m' i = mc_tail (cs3 ! i)" "mc_seq_id (rm_cells m' ! i) = mc_seq_id (cs3 ! i)" "mc_pos (rm_cells m' ! i) = mc_pos (cs3 ! i)" using e by auto
qed

lemma found_tail_index:
  assumes "slot_found ub m L H f cs0 cs1 cs2 cs3 m'" "t < rm_size m" "0 \<le> mc_tail (cs3 ! t)"
  shows "nat (mc_tail (cs3 ! t)) < rm_size m"
proof -
  note d = slot_foundD[OF assms(1)]
  show ?thesis using tail_index(1)[OF placed_tails_ok[OF d(4)] _ assms(3)] assms(2) slot_bounds(3)[OF d(4)] d(13) by simp
qed

text \<open>Before the sequences that become shared leave their cells, and after.\<close>

lemma found_before:
  assumes "slot_found ub m L H f cs0 cs1 cs2 cs3 m'" "t < rm_size m" "t \<notin> shared_ids ub"
  shows "mc_tail (cs0 ! t) = rec_tail m t" "0 \<le> rec_tail m t \<Longrightarrow> mc_pos (tail_cell cs0 t) = rec_pos m t"
proof -
  note d = slot_foundD[OF assms(1)]
  note w = rec_wfD[OF d(1)]
  have t: "t < length (rm_cells m)" using assms(2) w(1) by simp
  show e: "mc_tail (cs0 ! t) = rec_tail m t" using fewerD(2)[OF d(3) t] assms(3) by simp
  show "mc_pos (tail_cell cs0 t) = rec_pos m t" if z: "0 \<le> rec_tail m t"
  proof -
    note ti = tail_index[OF w(5) t z]
    have "int t \<in> mc_seq_id (cs0 ! nat (rec_tail m t))"
      using tails_butD(4)[OF slot_runD(1)[OF d(4)], of t "nat (rec_tail m t)"] e ti t d(13) w(1) by simp
    then show ?thesis using fewerD(5)[OF d(3) ti(1)] e by auto
  qed
qed

lemma found_wf:
  assumes "slot_found ub m L H f cs0 cs1 cs2 cs3 m'"
  shows "rec_wf m'"
proof -
  note d = slot_foundD[OF assms]
  note w = rec_wfD[OF d(1)] and b = slot_bounds[OF d(4)] and c = found_cell[OF assms]
  have l: "length (rm_cells m') = length cs3" using c(2)[of H] b(3,4) d(13) by simp
  have t: "tails_ok cs3" by (rule placed_tails_ok[OF d(4)])
  have n: "rm_size m' = length (rm_cells m')" using l b(3) d(9,13) by simp
  have "tails_ok (rm_cells m')" using t c(3,4) l b(3) d(13) by (simp add: tails_but_def)
  moreover have "sources_ok (rm_cells m')" unfolding sources_ok_def
  proof (intro conjI allI impI)
    fix i assume "i < length (rm_cells m')"
    then have i: "i < rm_size m" "i < length cs0" using l b(3) d(13) by simp_all
    show "mc_src (rm_cells m' ! i) = -1 \<or> mc_src (rm_cells m' ! i) = int i"
      using c(1)[OF i(1)] outside_source(1)[OF d(4) i(2)] slot_runD(2)[OF d(4)] i(2) by (auto simp: sources_ok_def)
    show "mc_src (rm_cells m' ! i) = int i" if "mc_seq_id (rm_cells m' ! i) \<noteq> {}"
      using c(1)[OF i(1)] outside_source(2)[OF d(4) i(2)] that by (auto split: if_splits)
  qed
  moreover have "0 < ub_n_seqs ub" using d(2) by (simp add: rec_ubatch_ok_def)
  then have "L < length (rm_cells m')" using b(3,4,5) l by linarith
  ultimately show ?thesis using n w(2,4) d(7,9,10,11,13) unfolding rec_wf_def by simp
qed

text \<open>Where the states come from.\<close>

lemma found_from:
  assumes "slot_found ub m L H f cs0 cs1 cs2 cs3 m'" "i < rm_size m"
  shows "L \<le> i \<and> i \<le> H \<Longrightarrow> state_from m' i = (if mc_src (cs3 ! i) < 0 then None else Some (nat (mc_src (cs3 ! i))))"
    "\<not> (L \<le> i \<and> i \<le> H) \<Longrightarrow> state_from m' i = Some i"
proof -
  note d = slot_foundD[OF assms(1)]
  note b = slot_bounds[OF d(4)]
  have in_slot: "rm_head m' \<le> i \<and> i < rm_head m' + rm_n m' \<longleftrightarrow> L \<le> i \<and> i \<le> H" using d(7,8) b(5) by auto
  have "mc_src (cs3 ! i) \<noteq> zero_cell cs3 L H" if "0 \<le> mc_src (cs3 ! i)"
    using zero_cell_unused(3)[of cs3 L H i] that assms(2) b(3) d(13) by (cases "0 \<le> zero_cell cs3 L H") auto
  then show "L \<le> i \<and> i \<le> H \<Longrightarrow> state_from m' i = (if mc_src (cs3 ! i) < 0 then None else Some (nat (mc_src (cs3 ! i))))"
    using found_cell(1)[OF assms] unfolding state_from_def in_slot by (auto simp: d(6))
  show "state_from m' i = Some i" if n: "\<not> (L \<le> i \<and> i \<le> H)" unfolding state_from_def in_slot if_not_P[OF n] ..
qed

lemma found_spare:
  assumes "slot_found ub m L H f cs0 cs1 cs2 cs3 m'" "i < rm_size m" "L \<le> i" "i \<le> H" "spare cs0 (mc_src (cs3 ! i))"
  shows "spare_from (rm_cells m) (state_from m' i)"
proof -
  note d = slot_foundD[OF assms(1)]
  note w = rec_wfD[OF d(1)]
  show ?thesis using found_from(1)[OF assms(1,2)] assms(3,4) fewer_sources(2)[OF d(3) w(5,6) assms(5)] by (auto simp: spare_from_def spare_def)
qed

text \<open>The sets, the other sequences, and the three kinds of states.\<close>

lemma found_sets:
  assumes "slot_found ub m L H f cs0 cs1 cs2 cs3 m'" "k < ub_n_seqs ub"
  shows "x \<in> set (set_ids ub k) \<Longrightarrow> rec_tail m' (nat x) = int (L + k)" "mc_pos (rm_cells m' ! (L + k)) = last_pos ub k" "L + k < rm_size m"
proof -
  note d = slot_foundD[OF assms(1)]
  note b = slot_bounds[OF d(4)]
  show lk: "L + k < rm_size m" using b(4,5) assms(2) d(13) by simp
  show "rec_tail m' (nat x) = int (L + k)" if x: "x \<in> set (set_ids ub k)"
    using placedD(1)[OF d(4) assms(2), of "nat x"] slot_ids(4)[OF d(4) assms(2) x] x found_cell(3)[OF assms(1), of "nat x"] d(13) by simp
  show "mc_pos (rm_cells m' ! (L + k)) = last_pos ub k" using found_cell(5)[OF assms(1) lk] placedD(4)[OF d(4), of "L + k"] lk assms(2) d(13) by simp
qed

lemma found_rest:
  assumes "slot_found ub m L H f cs0 cs1 cs2 cs3 m'" "t < rm_size m" "unnamed ub t"
  shows "if rec_tail m t < 0 then rec_tail m' t < 0 else 0 \<le> rec_tail m' t \<and> rec_pos m' t = rec_pos m t"
proof -
  note d = slot_foundD[OF assms(1)]
  have ns: "t \<notin> shared_ids ub"
  proof
    assume "t \<in> shared_ids ub"
    then obtain k where "k < ub_n_seqs ub" "int t \<in> set (tl (set_ids ub k))" using shared_unnamed[OF d(2)] by blast
    then show False using assms(3) by (metis list.set_intros(2) ubatch_sets(1)[OF d(2)])
  qed
  note e = found_before[OF assms(1,2) ns] and c = found_cell(3)[OF assms(1,2)]
  have tl: "t < length cs0" using assms(2) d(13) by simp
  note k = kept_position[OF d(4) tl assms(3)]
  show ?thesis
  proof (cases "rec_tail m t < 0")
    case False
    then have z: "0 \<le> mc_tail (cs3 ! t)" "mc_pos (tail_cell cs3 t) = rec_pos m t" using k e by auto
    then show ?thesis using False c found_cell(5)[OF assms(1) found_tail_index[OF assms(1,2) z(1)]] by simp
  qed (use k e c in simp)
qed

lemma found_state:
  assumes "slot_found ub m L H f cs0 cs1 cs2 cs3 m'" "t < rm_size m" "t \<notin> shared_ids ub" "0 \<le> rec_tail m t"
  shows "state_from m' (nat (rec_tail m' t)) = Some (nat (rec_tail m t))"
proof -
  note d = slot_foundD[OF assms(1)]
  note b = slot_bounds[OF d(4)]
  have tl: "t < length cs0" "t < length cs3" using assms(2) b(3) d(13) by simp_all
  have z: "0 \<le> mc_tail (cs0 ! t)" using found_before(1)[OF assms(1-3)] assms(4) by simp
  have src: "mc_src (tail_cell cs3 t) = rec_tail m t" using kept_source[OF d(4) tl(1) z] found_before(1)[OF assms(1-3)] by simp
  have pos: "0 \<le> mc_tail (cs3 ! t)" using kept_tail(3)[OF d(4) tl(1) disjI1[OF z]] by simp
  note i = found_tail_index[OF assms(1,2) pos] and c = found_cell(3)[OF assms(1,2)]
  show ?thesis
  proof (cases "L \<le> nat (mc_tail (cs3 ! t)) \<and> nat (mc_tail (cs3 ! t)) \<le> H")
    case True
    then show ?thesis using found_from(1)[OF assms(1) i True] src assms(4) c by simp
  next
    case False
    have il: "nat (mc_tail (cs3 ! t)) < length cs0" "nat (mc_tail (cs3 ! t)) < length cs3" using i b(3) d(13) by simp_all
    have "int t \<in> mc_seq_id (tail_cell cs3 t)" using tails_butD(4)[OF placed_tails_ok[OF d(4)] tl(2) il(2)] pos by simp
    then have "mc_src (tail_cell cs3 t) = mc_tail (cs3 ! t)" using outside_source(2)[OF d(4) il(1) False] pos by auto
    then show ?thesis using found_from(2)[OF assms(1) i False] src c by simp
  qed
qed

lemma found_new:
  assumes "slot_found ub m L H f cs0 cs1 cs2 cs3 m'" "k < ub_n_seqs ub" "rec_tail m (first_id ub k) < 0"
  shows "spare_from (rm_cells m) (state_from m' (nat (rec_tail m' (first_id ub k))))"
proof -
  note d = slot_foundD[OF assms(1)]
  note b = slot_bounds[OF d(4)] and s = slot_ids[OF d(4) assms(2)] and fs = found_sets[OF assms(1,2)]
  have fl: "first_id ub k < rm_size m" using s(3) d(13) by simp
  have "first_id ub k \<notin> shared_ids ub" using ubatch_sets(6)[OF d(2) _ assms(2)] shared_unnamed[OF d(2), of "first_id ub k"] by blast
  then have "mc_tail (cs0 ! first_id ub k) < 0" using found_before(1)[OF assms(1) fl] assms(3) by simp
  note n = new_source[OF d(4) assms(2) this]
  have t: "rec_tail m' (first_id ub k) = int (L + k)" using fs(1)[OF s(2)] by simp
  then have i: "nat (mc_tail (cs3 ! first_id ub k)) = L + k" "nat (rec_tail m' (first_id ub k)) = L + k" using found_cell(3)[OF assms(1) fl] by simp_all
  have "L + k \<le> H" using b(5) assms(2) by simp
  then show ?thesis using found_spare[OF assms(1) fs(3) _ _ n[unfolded i(1)]] unfolding i(2) by simp
qed

lemma found_empty:
  assumes "slot_found ub m L H f cs0 cs1 cs2 cs3 m'" "i < rm_size m" "mc_seq_id (rm_cells m' ! i) = {}" "0 \<le> mc_src (rm_cells m' ! i)"
  shows "spare_from (rm_cells m) (state_from m' i)"
proof -
  note d = slot_foundD[OF assms(1)]
  note w = rec_wfD[OF d(1)] and c = found_cell[OF assms(1,2)]
  have il: "i < length cs0" using assms(2) d(13) by simp
  have s: "spare cs0 (mc_src (cs3 ! i))" by (rule empty_source[OF d(4) il]) (use c(4) assms(3) in simp)
  show ?thesis
  proof (cases "L \<le> i \<and> i \<le> H")
    case True
    then show ?thesis using found_spare[OF assms(1,2) _ _ s] by simp
  next
    case False
    have "mc_src (cs3 ! i) = mc_src (rm_cells m' ! i)" unfolding c(1) if_not_P[OF False] ..
    then have "mc_src (cs3 ! i) = int i" using outside_source(1)[OF d(4) il False] slot_runD(2)[OF d(4)] il assms(4) by (auto simp: sources_ok_def)
    then show ?thesis using found_from(2)[OF assms(1,2) False] fewer_sources(2)[OF d(3) w(5,6) s] by (auto simp: spare_from_def spare_def)
  qed
qed

text \<open>No assertion fails, as some cell of the slot is the source of none whenever one is to be cleared.\<close>

lemma slot_no_assert:
  assumes "slot_run ub L H f cs0 cs1 cs2 cs3"
  shows "\<not> (zero_cell cs3 L H < 0 \<and> list_ex (\<lambda>i. mc_src (cs3 ! i) < 0) [L..<Suc H])"
proof
  assume a: "zero_cell cs3 L H < 0 \<and> list_ex (\<lambda>i. mc_src (cs3 ! i) < 0) [L..<Suc H]"
  then obtain i where i: "L \<le> i" "i \<le> H" "mc_src (cs3 ! i) < 0" by (auto simp: list_ex_iff simp del: upt_Suc)
  note b = slot_bounds[OF assms]
  have "0 \<le> zero_cell cs3 L H"
  proof (rule zero_cell_exists[OF _ i])
    show "H < length cs3" using b(3,4) by simp
    show "\<forall>k. L \<le> k \<and> k \<le> H \<longrightarrow> mc_src (cs3 ! j) \<noteq> int k" if "j < length cs3" "\<not> (L \<le> j \<and> j \<le> H)" for j
      using outside_source(1)[OF assms, of j] that slot_runD(2)[OF assms] b(3) by (auto simp: sources_ok_def)
  qed
  then show False using a by simp
qed

lemma find_slot_found:
  assumes wf: "rec_wf m" and ub: "rec_ubatch_ok (rm_size m) ub"
  obtains L H f cs0 cs1 cs2 cs3 m' where "rec_find_slot ub m = Inr (True, m')" "slot_found ub m L H f cs0 cs1 cs2 cs3 m'"
proof -
  let ?N = "ub_n_seqs ub"
  note w = rec_wfD[OF wf] and u = ubatch_sets[OF ub]
  obtain cs0 cs1 L H where r: "fewer (shared_ids ub) (rm_cells m) cs0" "owned cs0 (firsts ub ?N) cs1 (int L) (int H)"
    "rec_find_slot ub m = (let cs3 = fold (place_set ub L) [0..<?N] (fold (gather_cell ub L) [0..<?N] cs1); z = zero_cell cs3 L H in
       if z < 0 \<and> list_ex (\<lambda>i. mc_src (cs3 ! i) < 0) [L..<Suc H] then Inl Assert_failed
       else Inr (Suc H - L \<ge> ?N, m\<lparr>rm_cells := stage_sources z L H cs3, rm_rs_z := z, rm_head := L, rm_n := Suc H - L,
              rm_used := length (filter (\<lambda>c. mc_seq_id c \<noteq> {}) (stage_sources z L H cs3))\<rparr>))"
    by (rule find_slot_cells[OF assms])
  have l0: "length cs0 = rm_size m" using fewerD(1)[OF r(1)] w(1) by simp
  have secs: "\<forall>k < ?N. \<forall>x \<in> set (tl (set_ids ub k)). mc_tail (cs0 ! nat x) = -1"
  proof (intro allI ballI impI)
    fix k x assume k: "k < ?N" "x \<in> set (tl (set_ids ub k))"
    then have "x \<in> set (set_ids ub k)" by (metis list.set_intros(2) u(1)[OF k(1)])
    then have "0 \<le> x \<and> x < int (rm_size m)" using u(5)[OF k(1)] by (simp add: seq_in_def)
    then have "nat x < length (rm_cells m)" using w(1) by linarith
    moreover have "nat x \<in> shared_ids ub" using k unfolding shared_ids_def by blast
    ultimately show "mc_tail (cs0 ! nat x) = -1" using fewerD(2)[OF r(1)] by simp
  qed
  obtain f cs2 where run: "slot_run ub L H f cs0 cs1 cs2 (fold (place_set ub L) [0..<?N] (fold (gather_cell ub L) [0..<?N] cs1))"
    using slot_cells[OF fewer_tails[OF r(1) w(5)] fewer_sources(1)[OF r(1) w(5,6)] ub[folded l0] secs r(2)] by blast
  define cs3 where "cs3 = fold (place_set ub L) [0..<?N] (fold (gather_cell ub L) [0..<?N] cs1)"
  note run3 = run[folded cs3_def]
  define m' where "m' = m\<lparr>rm_cells := stage_sources (zero_cell cs3 L H) L H cs3, rm_rs_z := zero_cell cs3 L H, rm_head := L, rm_n := Suc H - L,
      rm_used := length (filter (\<lambda>c. mc_seq_id c \<noteq> {}) (stage_sources (zero_cell cs3 L H) L H cs3))\<rparr>"
  have "?N \<le> Suc H - L" using slot_bounds(5)[OF run3] by simp
  then have "rec_find_slot ub m = Inr (True, m')"
    using r(3) unfolding cs3_def [symmetric] Let_def if_not_P[OF slot_no_assert[OF run3]] by (simp add: m'_def)
  moreover have "slot_found ub m L H f cs0 cs1 cs2 cs3 m'" using wf ub r(1) run3 unfolding slot_found_def m'_def by blast
  ultimately show ?thesis by (rule that)
qed

lemma find_slot_spec:
  assumes wf: "rec_wf m" and ub: "rec_ubatch_ok (rm_size m) ub"
  obtains m' where "rec_find_slot ub m = Inr (True, m')" "rec_wf m'" "rm_size m' = rm_size m" "rm_n_seq_max m' = rm_n_seq_max m" "rm_rs_idx m' = rm_rs_idx m"
    "rm_n_rs_seq m' = rm_n_rs_seq m" "rm_head m' + ub_n_seqs ub \<le> rm_head m' + rm_n m'" "rm_head m' + rm_n m' \<le> rm_size m"
    and "\<And>k x. k < ub_n_seqs ub \<Longrightarrow> x \<in> set (set_ids ub k) \<Longrightarrow> rec_tail m' (nat x) = int (rm_head m' + k)"
    and "\<And>k. k < ub_n_seqs ub \<Longrightarrow> mc_pos (rm_cells m' ! (rm_head m' + k)) = last_pos ub k"
    and "\<And>t. t < rm_size m \<Longrightarrow> unnamed ub t \<Longrightarrow> (if rec_tail m t < 0 then rec_tail m' t < 0 else 0 \<le> rec_tail m' t \<and> rec_pos m' t = rec_pos m t)"
    and "\<And>t. t < rm_size m \<Longrightarrow> t \<notin> shared_ids ub \<Longrightarrow> 0 \<le> rec_tail m t \<Longrightarrow> state_from m' (nat (rec_tail m' t)) = Some (nat (rec_tail m t))"
    and "\<And>k. k < ub_n_seqs ub \<Longrightarrow> rec_tail m (first_id ub k) < 0 \<Longrightarrow> spare_from (rm_cells m) (state_from m' (nat (rec_tail m' (first_id ub k))))"
    and "\<And>i. i < rm_size m \<Longrightarrow> mc_seq_id (rm_cells m' ! i) = {} \<Longrightarrow> 0 \<le> mc_src (rm_cells m' ! i) \<Longrightarrow> spare_from (rm_cells m) (state_from m' i)"
proof (rule find_slot_found[OF assms])
  fix L H f cs0 cs1 cs2 cs3 m'
  assume run: "rec_find_slot ub m = Inr (True, m')" and found: "slot_found ub m L H f cs0 cs1 cs2 cs3 m'"
  note d = slot_foundD[OF found]
  note b = slot_bounds[OF d(4)]
  show thesis
  proof (rule that[OF run found_wf[OF found] d(9-12)])
    show "rm_head m' + ub_n_seqs ub \<le> rm_head m' + rm_n m'" "rm_head m' + rm_n m' \<le> rm_size m" using b(4,5) d(7,8,13) by simp_all
    show "rec_tail m' (nat x) = int (rm_head m' + k)" if "k < ub_n_seqs ub" "x \<in> set (set_ids ub k)" for k x
      using found_sets(1)[OF found that] d(7) by simp
    show "mc_pos (rm_cells m' ! (rm_head m' + k)) = last_pos ub k" if "k < ub_n_seqs ub" for k using found_sets(2)[OF found that] d(7) by simp
  qed (fact found_rest[OF found] found_state[OF found] found_new[OF found] found_empty[OF found])+
qed

lemma rec_init_wf:
  assumes "n < 2 ^ 31"
  shows "rec_wf (rec_init n n_seq_max n_rs_seq)"
  using assms by (auto simp: rec_wf_def rec_init_def mem_cell_new_def sources_ok_def intro!: tails_butI)

text \<open>C18: \<open>find_slot\<close> places every ubatch whose sequences the recurrent memory knows: no assertion of it fails, the cells of
  the sequence sets become adjacent from the head on, in the order of the ubatch and at their last positions, and every
  other sequence keeps a cell with its position, or stays without one. The invariant is kept.\<close>

theorem rec_find_slot_places:
  assumes "rec_wf m" "rec_ubatch_ok (rm_size m) ub"
  shows "\<exists>m'. rec_find_slot ub m = Inr (True, m') \<and> rec_wf m' \<and> rm_size m' = rm_size m \<and>
    ub_n_seqs ub \<le> rm_n m' \<and> rm_head m' + rm_n m' \<le> rm_size m \<and>
    (\<forall>k < ub_n_seqs ub. mc_pos (rm_cells m' ! (rm_head m' + k)) = last_pos ub k \<and>
       (\<forall>x \<in> set (set_ids ub k). rec_tail m' (nat x) = int (rm_head m' + k))) \<and>
    (\<forall>t < rm_size m. unnamed ub t \<longrightarrow> (if rec_tail m t < 0 then rec_tail m' t < 0 else 0 \<le> rec_tail m' t \<and> rec_pos m' t = rec_pos m t))"
proof (rule find_slot_spec[OF assms])
  fix m'
  assume run: "rec_find_slot ub m = Inr (True, m')" "rec_wf m'" "rm_size m' = rm_size m"
    and n: "rm_head m' + ub_n_seqs ub \<le> rm_head m' + rm_n m'" "rm_head m' + rm_n m' \<le> rm_size m"
    and tail: "\<And>k x. k < ub_n_seqs ub \<Longrightarrow> x \<in> set (set_ids ub k) \<Longrightarrow> rec_tail m' (nat x) = int (rm_head m' + k)"
    and pos: "\<And>k. k < ub_n_seqs ub \<Longrightarrow> mc_pos (rm_cells m' ! (rm_head m' + k)) = last_pos ub k"
    and rest: "\<And>t. t < rm_size m \<Longrightarrow> unnamed ub t \<Longrightarrow> (if rec_tail m t < 0 then rec_tail m' t < 0 else 0 \<le> rec_tail m' t \<and> rec_pos m' t = rec_pos m t)"
  show ?thesis
  proof (intro exI[of _ m'] conjI allI impI ballI)
    fix t assume "t < rm_size m" "unnamed ub t"
    then show "if rec_tail m t < 0 then rec_tail m' t < 0 else 0 \<le> rec_tail m' t \<and> rec_pos m' t = rec_pos m t" by (rule rest)
  qed (use run n tail pos in auto)
qed

end
