(* ===== verification/RecurrentLoad.thy ===== *)
theory RecurrentLoad
  imports RecurrentReach
begin

text \<open>
  How the graph loads the states of a ubatch (\<open>llm_graph_input_rs::set_input\<close> and \<open>build_rs\<close> of \<open>engine/src/llama-graph.cpp\<close>): the rows
  that \<open>s_copy\<close> names, rollbacks included, and the proof that after \<open>find_slot\<close> every sequence is continued from its own state.
  A state tensor is a function from its rows to states; its first \<open>size\<close> rows are the states of the cells, the further groups of
  \<open>size\<close> rows are the snapshots a rollback goes back to.
\<close>

section \<open>The graph\<close>

text \<open>The rows of the cells of the slot.\<close>

definition set_input :: "rec_context \<Rightarrow> llama_memory_recurrent \<Rightarrow> int list \<times> llama_memory_recurrent" where
  "set_input ctx m = fold (\<lambda>i (data, m). let (row, m) = s_copy i m in (data @ [row], m)) [0..<get_n_rs ctx m] ([], m)"

text \<open>A state is cleared, the states of the sets are read, and those of the other cells of the slot are copied to their cells.\<close>

definition build_rs :: "'a \<Rightarrow> int list \<Rightarrow> int list \<Rightarrow> nat \<Rightarrow> nat \<Rightarrow> nat \<Rightarrow> int \<Rightarrow> (nat \<Rightarrow> 'a) \<Rightarrow> 'a list \<times> (nat \<Rightarrow> 'a)" where
  "build_rs zero state_copy_main state_copy_extra n_seqs n_rs rs_head rs_zero s =
     (let states = (if rs_zero \<ge> 0 then s(nat rs_zero := zero) else s);
          output_states = map (\<lambda>r. states (nat r)) state_copy_main;
          states_extra = map (\<lambda>r. states (nat r)) state_copy_extra
      in (output_states, \<lambda>i. if rs_head + n_seqs \<le> i \<and> i < rs_head + n_rs then states_extra ! (i - (rs_head + n_seqs)) else states i))"

definition load_states :: "'a \<Rightarrow> rec_context \<Rightarrow> nat \<Rightarrow> llama_memory_recurrent \<Rightarrow> (nat \<Rightarrow> 'a) \<Rightarrow> 'a list \<times> (nat \<Rightarrow> 'a) \<times> llama_memory_recurrent" where
  "load_states zero ctx n_seqs m s =
     (let (s_copy, m') = set_input ctx m;
          (output_states, s') = build_rs zero (take n_seqs s_copy) (drop n_seqs s_copy) n_seqs (get_n_rs ctx m) (get_head ctx m) (get_rs_z ctx m) s
      in (output_states, s', m'))"

section \<open>Rows\<close>

text \<open>The rollback pending for a sequence, and the row of its current state.\<close>

definition rollback :: "llama_memory_recurrent \<Rightarrow> nat \<Rightarrow> nat" where
  "rollback m t = (if t < length (rm_rs_idx m) then rm_rs_idx m ! t else 0)"

definition state_row :: "llama_memory_recurrent \<Rightarrow> nat \<Rightarrow> nat" where
  "state_row m t = rollback m t * rm_size m + nat (rec_tail m t)"

text \<open>The snapshots a rollback goes back to are rows of the tensors, which can be addressed.\<close>

definition rows_ok :: "llama_memory_recurrent \<Rightarrow> bool" where
  "rows_ok m \<longleftrightarrow> rm_size m * (1 + rm_n_rs_seq m) < 2 ^ 31 \<and> (\<forall>r \<in> set (rm_rs_idx m). r \<le> rm_n_rs_seq m)"

lemma rollback_le: "rows_ok m \<Longrightarrow> rollback m t \<le> rm_n_rs_seq m"
  by (simp add: rollback_def rows_ok_def)

lemma rollback_row: "rows_ok m \<Longrightarrow> rollback m t * rm_size m < 2 ^ 31"
proof -
  assume r: "rows_ok m"
  have "rollback m t * rm_size m \<le> (1 + rm_n_rs_seq m) * rm_size m" by (rule mult_le_mono1) (use rollback_le[OF r, of t] in simp)
  then show ?thesis using r by (simp add: rows_ok_def mult.commute)
qed

text \<open>The memory after the rollback of the first sequence of a cell is used up.\<close>

definition used_up :: "llama_seq_id set \<Rightarrow> llama_memory_recurrent \<Rightarrow> llama_memory_recurrent" where
  "used_up ids m = (if ids = {} then m else m\<lparr>rm_rs_idx := (rm_rs_idx m)[nat (Min ids) := 0]\<rparr>)"

definition cell_rollback :: "llama_memory_recurrent \<Rightarrow> llama_seq_id set \<Rightarrow> nat" where
  "cell_rollback m ids = (if ids = {} then 0 else rollback m (nat (Min ids)))"

lemma s_copy_eq:
  assumes "rows_ok m" "finite (mc_seq_id (rm_cells m ! (i + rm_head m)))" "\<forall>x \<in> mc_seq_id (rm_cells m ! (i + rm_head m)). 0 \<le> x"
  defines "c \<equiv> rm_cells m ! (i + rm_head m)"
  shows "s_copy i m = (int (cell_rollback m (mc_seq_id c) * rm_size m) + mc_src0 c, used_up (mc_seq_id c) m)"
proof (cases "rm_n_rs_seq m = 0")
  case True
  have z: "rollback m t = 0" for t using rollback_le[OF assms(1), of t] True by simp
  then have "(rm_rs_idx m)[t := 0] = rm_rs_idx m" for t by (metis list_update_beyond list_update_id not_le rollback_def)
  then have "used_up (mc_seq_id c) m = m" by (simp add: used_up_def)
  then show ?thesis using True z by (simp add: s_copy_def Let_def c_def cell_rollback_def)
next
  case False
  show ?thesis
  proof (cases "mc_seq_id c = {}")
    case True
    then show ?thesis using False by (simp add: s_copy_def Let_def c_def cell_rollback_def used_up_def)
  next
    case ne: False
    have "0 \<le> Min (mc_seq_id c)" using assms(2,3) ne Min_in unfolding c_def by blast
    moreover have "signed_take_bit 31 (int (rm_rs_idx m ! t * rm_size m)) = int (rm_rs_idx m ! t * rm_size m)" if "t < length (rm_rs_idx m)" for t
    proof -
      have "rm_rs_idx m ! t * rm_size m < 2 ^ 31" using rollback_row[OF assms(1), of t] that by (simp add: rollback_def)
      then have "int (rm_rs_idx m ! t * rm_size m) < int (2 ^ 31)" unfolding of_nat_less_iff .
      moreover have "- (2 ^ 31) \<le> int (rm_rs_idx m ! t * rm_size m)" by (rule order_trans[OF _ of_nat_0_le_iff]) simp
      ultimately show ?thesis by (intro signed_take_bit_int_eq_self) (simp_all del: of_nat_mult)
    qed
    ultimately show ?thesis using False ne
      by (simp add: s_copy_def Let_def c_def[symmetric] cell_rollback_def rollback_def used_up_def not_less list_update_beyond)
  qed
qed

text \<open>The memory after the rows of the first \<open>n\<close> cells of the slot were asked for.\<close>

definition slot_ids_at :: "llama_memory_recurrent \<Rightarrow> nat \<Rightarrow> llama_seq_id set" where
  "slot_ids_at m i = mc_seq_id (rm_cells m ! (i + rm_head m))"

definition asked :: "nat \<Rightarrow> llama_memory_recurrent \<Rightarrow> llama_memory_recurrent" where
  "asked n m = fold (\<lambda>i. used_up (slot_ids_at m i)) [0..<n] m"

lemma used_up_simps [simp]:
  "rm_cells (used_up ids m) = rm_cells m" "rm_head (used_up ids m) = rm_head m" "rm_size (used_up ids m) = rm_size m" "rm_n (used_up ids m) = rm_n m"
  "rm_n_rs_seq (used_up ids m) = rm_n_rs_seq m" "length (rm_rs_idx (used_up ids m)) = length (rm_rs_idx m)" "rm_rs_z (used_up ids m) = rm_rs_z m"
  "rm_n_seq_max (used_up ids m) = rm_n_seq_max m"
  by (simp_all add: used_up_def)

lemma rollback_used_up: "rollback (used_up ids m) t = (if ids \<noteq> {} \<and> t = nat (Min ids) then 0 else rollback m t)"
  by (auto simp: rollback_def used_up_def)

lemma asked_simps [simp]:
  "rm_cells (asked n m) = rm_cells m" "rm_head (asked n m) = rm_head m" "rm_size (asked n m) = rm_size m" "rm_n (asked n m) = rm_n m"
  "rm_n_rs_seq (asked n m) = rm_n_rs_seq m" "length (rm_rs_idx (asked n m)) = length (rm_rs_idx m)" "rm_rs_z (asked n m) = rm_rs_z m"
  "rm_n_seq_max (asked n m) = rm_n_seq_max m"
  by (induction n) (simp_all add: asked_def)

lemma rollback_asked: "rollback (asked n m) t = (if \<exists>i < n. slot_ids_at m i \<noteq> {} \<and> t = nat (Min (slot_ids_at m i)) then 0 else rollback m t)"
  by (induction n) (auto simp: asked_def rollback_used_up less_Suc_eq)

lemma rows_ok_asked: "rows_ok m \<Longrightarrow> rows_ok (asked n m)"
proof (induction n)
  case (Suc n)
  have "set (rm_rs_idx (used_up ids k)) \<subseteq> insert 0 (set (rm_rs_idx k))" for ids k
    using set_update_subset_insert[of "rm_rs_idx k" "nat (Min ids)" 0] by (simp add: used_up_def subset_insertI)
  then show ?case using Suc by (fastforce simp: asked_def rows_ok_def)
qed (simp add: asked_def)

text \<open>The sequences of a cell are known, and those of different cells are different.\<close>

lemma ids_known:
  assumes "rec_wf m" "i < rm_size m"
  shows "finite (mc_seq_id (rm_cells m ! i))" "x \<in> mc_seq_id (rm_cells m ! i) \<Longrightarrow> 0 \<le> x \<and> nat x < rm_size m \<and> rec_tail m (nat x) = int i"
    "t < rm_size m \<Longrightarrow> int t \<in> mc_seq_id (rm_cells m ! i) \<longleftrightarrow> rec_tail m t = int i"
proof -
  note w = rec_wfD[OF assms(1)]
  have i: "i < length (rm_cells m)" using assms(2) w(1) by simp
  show iff: "int t \<in> mc_seq_id (rm_cells m ! i) \<longleftrightarrow> rec_tail m t = int i" if "t < rm_size m" for t
    using tails_butD(4)[OF w(5) _ i, of t] that w(1) by simp
  show k: "0 \<le> x \<and> nat x < rm_size m \<and> rec_tail m (nat x) = int i" if x: "x \<in> mc_seq_id (rm_cells m ! i)" for x
  proof -
    obtain t where t: "t < length (rm_cells m)" "x = int t" using tails_butD(1)[OF w(5) i x] by blast
    then show ?thesis using iff[of t] x w(1) by simp
  qed
  have "mc_seq_id (rm_cells m ! i) \<subseteq> int ` {..<rm_size m}"
  proof
    fix x assume "x \<in> mc_seq_id (rm_cells m ! i)"
    from k[OF this] show "x \<in> int ` {..<rm_size m}" by (intro image_eqI[of _ _ "nat x"]) simp_all
  qed
  then show "finite (mc_seq_id (rm_cells m ! i))" by (rule finite_subset) simp
qed

lemma ids_min:
  assumes "rec_wf m" "i < rm_size m" "mc_seq_id (rm_cells m ! i) \<noteq> {}"
  defines "s \<equiv> nat (Min (mc_seq_id (rm_cells m ! i)))"
  shows "int s \<in> mc_seq_id (rm_cells m ! i)" "s < rm_size m" "rec_tail m s = int i"
proof -
  note k = ids_known[OF assms(1,2)]
  have "Min (mc_seq_id (rm_cells m ! i)) \<in> mc_seq_id (rm_cells m ! i)" using k(1) assms(3) by simp
  from this k(2)[OF this] show "int s \<in> mc_seq_id (rm_cells m ! i)" "s < rm_size m" "rec_tail m s = int i" by (simp_all add: s_def)
qed

lemma set_input_rows:
  assumes "rec_wf m" "rows_ok m" "rm_head m + n \<le> rm_size m"
  shows "fold (\<lambda>i (data, m). let (row, m) = s_copy i m in (data @ [row], m)) [0..<n] ([], m) =
    (map (\<lambda>i. int (cell_rollback m (slot_ids_at m i) * rm_size m) + mc_src0 (rm_cells m ! (i + rm_head m))) [0..<n], asked n m)"
  using assms(3)
proof (induction n)
  case 0
  then show ?case by (simp add: asked_def)
next
  case (Suc n)
  let ?m = "asked n m"
  have n: "n + rm_head m < rm_size m" using Suc.prems by simp
  note k = ids_known[OF assms(1) n]
  have "s_copy n ?m = (int (cell_rollback ?m (slot_ids_at m n) * rm_size m) + mc_src0 (rm_cells m ! (n + rm_head m)), used_up (slot_ids_at m n) ?m)"
    using s_copy_eq[OF rows_ok_asked[OF assms(2), of n], of n] k(1,2) by (simp add: slot_ids_at_def)
  moreover have "cell_rollback ?m (slot_ids_at m n) = cell_rollback m (slot_ids_at m n)"
  proof (cases "slot_ids_at m n = {}")
    case False
    have "nat (Min (slot_ids_at m n)) \<noteq> nat (Min (slot_ids_at m i))" if "i < n" "slot_ids_at m i \<noteq> {}" for i
      using ids_min(3)[OF assms(1) n] ids_min(3)[OF assms(1), of "i + rm_head m"] False that n by (auto simp: slot_ids_at_def)
    then show ?thesis using False by (auto simp: cell_rollback_def rollback_asked)
  qed (simp add: cell_rollback_def)
  moreover have "asked (Suc n) m = used_up (slot_ids_at m n) ?m" by (simp add: asked_def)
  ultimately show ?case using Suc by simp
qed

section \<open>Loading after \<open>find_slot\<close>\<close>

text \<open>Cells that no sequence has and that are not marked for clearing hold the zeroed state. A rollback is pending only for a
  sequence alone in its cell, and for none of a set of several sequences.\<close>

definition spare_zero :: "'a \<Rightarrow> (nat \<Rightarrow> 'a) \<Rightarrow> mem_cell list \<Rightarrow> bool" where
  "spare_zero zero st cs \<longleftrightarrow> (\<forall>i < length cs. mc_seq_id (cs ! i) = {} \<longrightarrow> 0 \<le> mc_src (cs ! i) \<longrightarrow> st i = zero)"

definition rollbacks_own :: "llama_memory_recurrent \<Rightarrow> bool" where
  "rollbacks_own m \<longleftrightarrow> (\<forall>t. rollback m t \<noteq> 0 \<longrightarrow> t < rm_size m \<and> sole (rm_cells m) t)"

definition sets_unrolled :: "llama_ubatch_full \<Rightarrow> llama_memory_recurrent \<Rightarrow> bool" where
  "sets_unrolled ub m \<longleftrightarrow> (\<forall>k < ub_n_seqs ub. \<forall>x \<in> set (set_ids ub k). set_ids ub k \<noteq> [x] \<longrightarrow> rollback m (nat x) = 0)"

definition cleared :: "'a \<Rightarrow> llama_memory_recurrent \<Rightarrow> (nat \<Rightarrow> 'a) \<Rightarrow> nat \<Rightarrow> 'a" where
  "cleared zero m st = (if rm_rs_z m \<ge> 0 then st(nat (rm_rs_z m) := zero) else st)"

definition load_row :: "llama_memory_recurrent \<Rightarrow> nat \<Rightarrow> nat" where
  "load_row m k = nat (int (cell_rollback m (slot_ids_at m k) * rm_size m) + mc_src0 (rm_cells m ! (k + rm_head m)))"

lemma load_states_eq:
  assumes "rec_wf m" "rows_ok m" "rm_head m + rm_n m \<le> rm_size m" "n \<le> rm_n m" "\<not> rc_is_full ctx"
  shows "load_states zero ctx n m st = (map (\<lambda>k. cleared zero m st (load_row m k)) [0..<n],
    \<lambda>i. if rm_head m + n \<le> i \<and> i < rm_head m + rm_n m then cleared zero m st (load_row m (i - rm_head m)) else cleared zero m st i,
    asked (rm_n m) m)"
proof -
  define data where "data = map (\<lambda>i. int (cell_rollback m (slot_ids_at m i) * rm_size m) + mc_src0 (rm_cells m ! (i + rm_head m))) [0..<rm_n m]"
  have g: "get_n_rs ctx m = rm_n m" "get_head ctx m = rm_head m" "get_rs_z ctx m = rm_rs_z m"
    using assms(5) by (simp_all add: get_n_rs_def get_head_def get_rs_z_def)
  have "set_input ctx m = (data, asked (rm_n m) m)"
    using set_input_rows[OF assms(1-3)] assms(5) by (simp add: set_input_def get_n_rs_def data_def)
  then have e: "load_states zero ctx n m st = (map (\<lambda>r. cleared zero m st (nat r)) (take n data),
      \<lambda>i. if rm_head m + n \<le> i \<and> i < rm_head m + rm_n m then map (\<lambda>r. cleared zero m st (nat r)) (drop n data) ! (i - (rm_head m + n))
          else cleared zero m st i, asked (rm_n m) m)"
    unfolding load_states_def g build_rs_def cleared_def by (simp add: Let_def)
  have row: "nat (data ! k) = load_row m k" if "k < rm_n m" for k using that by (simp add: data_def load_row_def)
  have "map (\<lambda>r. cleared zero m st (nat r)) (take n data) = map (\<lambda>k. cleared zero m st (load_row m k)) [0..<n]"
    using assms(4) row by (intro nth_equalityI) (simp_all add: data_def)
  moreover have "map (\<lambda>r. cleared zero m st (nat r)) (drop n data) ! (i - (rm_head m + n)) = cleared zero m st (load_row m (i - rm_head m))"
    if i: "rm_head m + n \<le> i" "i < rm_head m + rm_n m" for i
  proof -
    have "i - (rm_head m + n) < length (drop n data)" "n + (i - (rm_head m + n)) = i - rm_head m" using i by (simp_all add: data_def)
    then show ?thesis using row[of "i - rm_head m"] i by (simp add: data_def)
  qed
  ultimately show ?thesis unfolding e by (auto simp: fun_eq_iff)
qed

lemma found_src0:
  assumes "slot_found ub m L H f cs0 cs1 cs2 cs3 m'" "L \<le> i" "i \<le> H"
  shows "0 \<le> mc_src0 (rm_cells m' ! i)" "0 \<le> rm_rs_z m' \<Longrightarrow> int L \<le> rm_rs_z m' \<and> rm_rs_z m' \<le> int H" "i < rm_size m"
proof -
  note d = slot_foundD[OF assms(1)]
  note b = slot_bounds[OF d(4)]
  show i: "i < rm_size m" using assms(3) b(4) d(13) by simp
  show "int L \<le> rm_rs_z m' \<and> rm_rs_z m' \<le> int H" if "0 \<le> rm_rs_z m'" using zero_cell_unused(1,2)[of cs3 L H] that d(6) by simp
  show "0 \<le> mc_src0 (rm_cells m' ! i)"
  proof (cases "mc_src (cs3 ! i) < 0")
    case True
    then have "list_ex (\<lambda>i. mc_src (cs3 ! i) < 0) [L..<Suc H]" using assms(2,3) by (auto simp: list_ex_iff simp del: upt_Suc)
    then have "0 \<le> zero_cell cs3 L H" using slot_no_assert[OF d(4)] by linarith
    then show ?thesis using found_cell(1)[OF assms(1) i] True assms(2,3) d(6) by simp
  qed (use found_cell(1)[OF assms(1) i] assms(2,3) in simp)
qed

text \<open>What a row of the slot holds once the one state is cleared.\<close>

lemma found_loaded:
  assumes "slot_found ub m L H f cs0 cs1 cs2 cs3 m'" "L \<le> i" "i \<le> H" "spare_zero zero st (rm_cells m)"
  defines "row p \<equiv> nat (int (p * rm_size m) + mc_src0 (rm_cells m' ! i))"
  shows "state_from m' i = Some j \<Longrightarrow> cleared zero m' st (row p) = st (p * rm_size m + j)"
    "spare_from (rm_cells m) (state_from m' i) \<Longrightarrow> cleared zero m' st (row 0) = zero"
proof -
  note d = slot_foundD[OF assms(1)]
  note s = found_src0[OF assms(1-3)]
  have l: "rm_size m = length (rm_cells m)" by (rule rec_wfD(1)[OF d(1)])
  have H: "H < rm_size m" using slot_bounds(4)[OF d(4)] d(13) by simp
  have in_slot: "rm_head m' \<le> i \<and> i < rm_head m' + rm_n m'" using assms(2,3) d(7,8) by simp
  show some: "cleared zero m' st (row p) = st (p * rm_size m + j)" if "state_from m' i = Some j" for p j
  proof -
    have e: "mc_src0 (rm_cells m' ! i) = int j" "int j \<noteq> rm_rs_z m'" using that in_slot s(1) by (auto simp: state_from_def split: if_splits)
    then have "row p = p * rm_size m + j" by (simp add: row_def nat_add_distrib nat_mult_distrib)
    moreover have "p * rm_size m + j \<noteq> nat (rm_rs_z m')" if "0 \<le> rm_rs_z m'"
    proof (cases p)
      case (Suc q)
      have "nat (rm_rs_z m') < rm_size m" using s(2)[OF that] H by linarith
      then show ?thesis using Suc by simp
    qed (use e(2) that in auto)
    ultimately show ?thesis by (simp add: cleared_def)
  qed
  show "cleared zero m' st (row 0) = zero" if "spare_from (rm_cells m) (state_from m' i)"
  proof (cases "state_from m' i")
    case None
    then have "mc_src0 (rm_cells m' ! i) = rm_rs_z m'" using in_slot by (auto simp: state_from_def split: if_splits)
    then show ?thesis using s(1) by (simp add: cleared_def row_def)
  next
    case (Some j)
    then have "j < length (rm_cells m)" "mc_seq_id (rm_cells m ! j) = {}" "mc_src (rm_cells m ! j) = int j" using that by (simp_all add: spare_from_def)
    then show ?thesis using some[OF Some, of 0] assms(4) by (simp add: spare_zero_def)
  qed
qed

text \<open>The sequences of the ubatch and the others.\<close>

lemma found_named:
  assumes "slot_found ub m L H f cs0 cs1 cs2 cs3 m'" "k < ub_n_seqs ub"
  shows "slot_ids_at m' k = set (set_ids ub k)" "k + rm_head m' = L + k" "L + k \<le> H"
proof -
  note d = slot_foundD[OF assms(1)] and s = found_sets[OF assms]
  show h: "k + rm_head m' = L + k" "L + k \<le> H" using d(7) slot_bounds(5)[OF d(4)] assms(2) by simp_all
  show "slot_ids_at m' k = set (set_ids ub k)"
    using placedD(3)[OF d(4), of "L + k"] found_cell(4)[OF assms(1) s(3)] s(3) d(13) assms(2) by (simp add: slot_ids_at_def h(1))
qed

lemma found_unnamed:
  assumes "slot_found ub m L H f cs0 cs1 cs2 cs3 m'" "t < rm_size m" "unnamed ub t" "0 \<le> rec_tail m t"
  defines "i \<equiv> nat (rec_tail m' t)"
  shows "i < rm_size m" "rec_tail m' t = int i" "int t \<in> mc_seq_id (rm_cells m' ! i)" "\<not> (L \<le> i \<and> i < L + ub_n_seqs ub)"
    "state_from m' i = Some (nat (rec_tail m t))" "x \<in> mc_seq_id (rm_cells m' ! i) \<Longrightarrow> rec_tail m (nat x) = rec_tail m t"
proof -
  note d = slot_foundD[OF assms(1)]
  note wf = found_wf[OF assms(1)]
  note w = rec_wfD[OF wf]
  have not_shared: "u \<notin> shared_ids ub" if "unnamed ub u" for u
    using shared_unnamed[OF d(2), of u] ubatch_sets(1)[OF d(2)] that by (metis list.set_intros(2))
  have p: "0 \<le> rec_tail m' t" using found_rest[OF assms(1-3)] assms(4) by simp
  have tl: "t < length (rm_cells m')" using assms(2) w(1) d(9) by simp
  show i: "i < rm_size m" "rec_tail m' t = int i" using tail_index[OF w(5) tl p] w(1) d(9) by (simp_all add: i_def)
  have i': "i < rm_size m'" using i(1) d(9) by simp
  show m: "int t \<in> mc_seq_id (rm_cells m' ! i)" using ids_known(3)[OF wf i', of t] assms(2) d(9) i(2) by simp
  have cell: "mc_seq_id (rm_cells m' ! i) = set (set_ids ub (i - L))" if "L \<le> i" "i < L + ub_n_seqs ub"
  proof -
    have "i - L < ub_n_seqs ub" "i = (i - L) + rm_head m'" using that d(7) by linarith+
    then show ?thesis using found_named(1)[OF assms(1), of "i - L"] unfolding slot_ids_at_def by metis
  qed
  show out: "\<not> (L \<le> i \<and> i < L + ub_n_seqs ub)"
  proof
    assume a: "L \<le> i \<and> i < L + ub_n_seqs ub"
    then have "i - L < ub_n_seqs ub" by linarith
    then show False using cell m assms(3) a by blast
  qed
  show sf: "state_from m' i = Some (nat (rec_tail m t))" using found_state[OF assms(1,2) not_shared[OF assms(3)] assms(4)] by (simp add: i_def)
  show "rec_tail m (nat x) = rec_tail m t" if x: "x \<in> mc_seq_id (rm_cells m' ! i)"
  proof -
    note k = ids_known(2)[OF wf i' x]
    let ?u = "nat x"
    have u: "?u < rm_size m" "rec_tail m' ?u = int i" using k d(9) by simp_all
    have un: "unnamed ub ?u"
    proof (intro allI impI notI)
      fix j assume j: "j < ub_n_seqs ub" "int ?u \<in> set (set_ids ub j)"
      have "int i = int (L + j)" by (rule trans[OF u(2)[symmetric] found_sets(1)[OF assms(1) j, unfolded nat_int]])
      then show False using out j(1) by simp
    qed
    then have "0 \<le> rec_tail m ?u" using found_rest[OF assms(1) u(1)] u(2) by (auto split: if_splits)
    moreover from this have "state_from m' i = Some (nat (rec_tail m ?u))" using found_state[OF assms(1) u(1) not_shared[OF un]] u(2) by simp
    ultimately show ?thesis using sf assms(4) by simp
  qed
qed

text \<open>The rollback with which a cell is loaded is that of the sequence.\<close>

lemma unnamed_rollback:
  assumes "slot_found ub m L H f cs0 cs1 cs2 cs3 m'" "t < rm_size m" "unnamed ub t" "0 \<le> rec_tail m t" "rollbacks_own m"
  shows "cell_rollback m' (mc_seq_id (rm_cells m' ! nat (rec_tail m' t))) = rollback m t"
    "rollback m t \<noteq> 0 \<Longrightarrow> mc_seq_id (rm_cells m' ! nat (rec_tail m' t)) = {int t}"
proof -
  note d = slot_foundD[OF assms(1)] and u = found_unnamed[OF assms(1-4)]
  let ?i = "nat (rec_tail m' t)"
  have rb: "rollback m' = rollback m" by (intro ext) (simp add: rollback_def d(11))
  have alone: "rollback m (nat x) = 0" if "x \<in> mc_seq_id (rm_cells m' ! ?i)" "nat x \<noteq> t" for x
  proof (rule ccontr)
    assume "rollback m (nat x) \<noteq> 0"
    then have "sole (rm_cells m) (nat x)" using assms(5) by (simp add: rollbacks_own_def)
    then show False using u(6)[OF that(1)] that(2) assms(2) rec_wfD(1)[OF d(1)] by (simp add: sole_def)
  qed
  show ids: "mc_seq_id (rm_cells m' ! ?i) = {int t}" if "rollback m t \<noteq> 0"
  proof -
    have "x = int t" if x: "x \<in> mc_seq_id (rm_cells m' ! ?i)" for x
    proof -
      have "sole (rm_cells m) t" using \<open>rollback m t \<noteq> 0\<close> assms(5) by (simp add: rollbacks_own_def)
      moreover have k: "0 \<le> x" "nat x < rm_size m" using ids_known(2)[OF found_wf[OF assms(1)] _ x] u(1) d(9) by simp_all
      ultimately have "nat x = t" using u(6)[OF x] rec_wfD(1)[OF d(1)] by (simp add: sole_def)
      then show ?thesis using k(1) by simp
    qed
    then show ?thesis using u(3) by blast
  qed
  show "cell_rollback m' (mc_seq_id (rm_cells m' ! ?i)) = rollback m t"
  proof (cases "rollback m t = 0")
    case True
    have i: "?i < rm_size m'" using u(1) d(9) by simp
    have "int (nat (Min (mc_seq_id (rm_cells m' ! ?i)))) \<in> mc_seq_id (rm_cells m' ! ?i)" using ids_min(1)[OF found_wf[OF assms(1)] i] u(3) by blast
    from alone[OF this, unfolded nat_int] have "rollback m (nat (Min (mc_seq_id (rm_cells m' ! ?i)))) = 0"
      using True by (cases "nat (Min (mc_seq_id (rm_cells m' ! ?i))) = t") simp_all
    then show ?thesis using True rb by (simp add: cell_rollback_def)
  qed (simp add: ids cell_rollback_def rb)
qed

lemma named_rollback:
  assumes "slot_found ub m L H f cs0 cs1 cs2 cs3 m'" "k < ub_n_seqs ub" "sets_unrolled ub m"
  shows "cell_rollback m' (slot_ids_at m' k) = rollback m (first_id ub k)"
    "x \<in> set (set_ids ub k) \<Longrightarrow> rollback m (nat x) \<noteq> 0 \<Longrightarrow> slot_ids_at m' k = {x}"
proof -
  note d = slot_foundD[OF assms(1)] and n = found_named[OF assms(1,2)]
  have rb: "rollback m' = rollback m" by (intro ext) (simp add: rollback_def d(11))
  have z: "x \<in> set (set_ids ub k) \<Longrightarrow> set_ids ub k \<noteq> [x] \<Longrightarrow> rollback m (nat x) = 0" for x using assms(2,3) by (simp add: sets_unrolled_def)
  show "slot_ids_at m' k = {x}" if "x \<in> set (set_ids ub k)" "rollback m (nat x) \<noteq> 0" using z[OF that(1)] that(2) unfolding n(1) by (metis empty_set list.simps(15))
  have f: "set_ids ub k = int (first_id ub k) # tl (set_ids ub k)" by (rule ubatch_sets(1)[OF d(2) assms(2)])
  then have ne: "set (set_ids ub k) \<noteq> {}" "int (first_id ub k) \<in> set (set_ids ub k)" by (metis list.distinct(1) set_empty, metis list.set_intros(1))
  have c: "cell_rollback m' (slot_ids_at m' k) = rollback m (nat (Min (set (set_ids ub k))))" unfolding n(1) using ne(1) by (simp add: cell_rollback_def rb)
  show "cell_rollback m' (slot_ids_at m' k) = rollback m (first_id ub k)"
  proof (cases "set_ids ub k = [int (first_id ub k)]")
    case True
    then show ?thesis unfolding c by simp
  next
    case False
    have "rollback m (nat x) = 0" if x: "x \<in> set (set_ids ub k)" for x
    proof (rule z[OF x], rule notI)
      assume "set_ids ub k = [x]"
      then show False using False ne(2) by auto
    qed
    moreover have "Min (set (set_ids ub k)) \<in> set (set_ids ub k)" using ne(1) by simp
    ultimately have "rollback m (nat (Min (set (set_ids ub k)))) = 0" "rollback m (nat (int (first_id ub k))) = 0" using ne(2) by blast+
    then show ?thesis unfolding c by simp
  qed
qed

lemma named_loaded:
  assumes "slot_found ub m L H f cs0 cs1 cs2 cs3 m'" "rollbacks_own m" "sets_unrolled ub m" "spare_zero zero st (rm_cells m)" "k < ub_n_seqs ub"
    and new: "rec_tail m (first_id ub k) < 0 \<Longrightarrow> spare_from (rm_cells m) (state_from m' (nat (rec_tail m' (first_id ub k))))"
  shows "cleared zero m' st (load_row m' k) = (if 0 \<le> rec_tail m (first_id ub k) then st (state_row m (first_id ub k)) else zero)"
proof -
  note d = slot_foundD[OF assms(1)] and n = found_named[OF assms(1,5)]
  let ?f = "first_id ub k" let ?p = "rollback m ?f"
  have mem: "int ?f \<in> set (set_ids ub k)" using ubatch_sets(1)[OF d(2) assms(5)] by (metis list.set_intros(1))
  have tail: "nat (rec_tail m' ?f) = L + k" using found_sets(1)[OF assms(1,5) mem] by simp
  have row: "load_row m' k = nat (int (?p * rm_size m) + mc_src0 (rm_cells m' ! (L + k)))"
    unfolding load_row_def named_rollback(1)[OF assms(1,5,3)] n(2) d(9) by (rule refl)
  show ?thesis
  proof (cases "0 \<le> rec_tail m ?f")
    case True
    have f: "?f < rm_size m" "?f \<notin> shared_ids ub"
      using ubatch_sets(2,6)[OF d(2) _] assms(5) shared_unnamed[OF d(2), of ?f] by blast+
    have "state_from m' (L + k) = Some (nat (rec_tail m ?f))" using found_state[OF assms(1) f True] unfolding tail .
    from found_loaded(1)[OF assms(1) le_add1 n(3) assms(4) this, of ?p] show ?thesis using True unfolding row state_row_def by simp
  next
    case False
    have p: "?p = 0" using assms(2) False by (auto simp: rollbacks_own_def sole_def)
    have "spare_from (rm_cells m) (state_from m' (L + k))" using new False unfolding tail by simp
    from found_loaded(2)[OF assms(1) le_add1 n(3) assms(4) this] show ?thesis using False unfolding row p by simp
  qed
qed

lemma unnamed_loaded:
  assumes "slot_found ub m L H f cs0 cs1 cs2 cs3 m'" "t < rm_size m" "unnamed ub t" "0 \<le> rec_tail m t" "rollbacks_own m" "spare_zero zero st (rm_cells m)"
  defines "m'' \<equiv> asked (rm_n m') m'"
  shows "0 \<le> rec_tail m'' t \<and>
    (if rm_head m' + ub_n_seqs ub \<le> state_row m'' t \<and> state_row m'' t < rm_head m' + rm_n m'
     then cleared zero m' st (load_row m' (state_row m'' t - rm_head m')) else cleared zero m' st (state_row m'' t)) = st (state_row m t)"
proof -
  note d = slot_foundD[OF assms(1)] and u = found_unnamed[OF assms(1-4)] and rb = unnamed_rollback[OF assms(1-5)]
  note b = slot_bounds[OF d(4)]
  let ?i = "nat (rec_tail m' t)"
  have H: "H < rm_size m" using b(4) d(13) by simp
  have r: "rollback m' t = rollback m t" by (simp add: rollback_def d(11))
  have row: "state_row m'' t = rollback m'' t * rm_size m + ?i" by (simp add: state_row_def m''_def d(9))
  have tail: "0 \<le> rec_tail m'' t" unfolding m''_def asked_simps by (subst u(2)) (rule of_nat_0_le_iff)
  show ?thesis
  proof (cases "L \<le> ?i \<and> ?i \<le> H")
    case True
    then have i: "rm_head m' + ub_n_seqs ub \<le> ?i" "?i < rm_head m' + rm_n m'" "?i - rm_head m' < rm_n m'" "?i - rm_head m' + rm_head m' = ?i"
      using u(4) d(7,8) by linarith+
    have ids: "slot_ids_at m' (?i - rm_head m') = mc_seq_id (rm_cells m' ! ?i)" by (simp only: slot_ids_at_def i(4))
    have "rollback m'' t = 0"
    proof (cases "rollback m t = 0")
      case False
      then have "slot_ids_at m' (?i - rm_head m') = {int t}" using rb(2) ids by simp
      then have "slot_ids_at m' (?i - rm_head m') \<noteq> {} \<and> t = nat (Min (slot_ids_at m' (?i - rm_head m')))" by simp
      then show ?thesis unfolding m''_def rollback_asked using i(3) by auto
    qed (simp add: m''_def rollback_asked r)
    then have "state_row m'' t = ?i" by (simp add: row)
    moreover have "load_row m' (?i - rm_head m') = nat (int (rollback m t * rm_size m) + mc_src0 (rm_cells m' ! ?i))"
      unfolding load_row_def ids rb(1) i(4) d(9) by (rule refl)
    then have "cleared zero m' st (load_row m' (?i - rm_head m')) = st (state_row m t)"
      using found_loaded(1)[OF assms(1) _ _ assms(6) u(5), of "rollback m t"] True by (simp add: state_row_def)
    ultimately show ?thesis using i(1,2) tail by simp
  next
    case False
    then have out: "\<not> (rm_head m' \<le> ?i \<and> ?i < rm_head m' + rm_n m')" using d(7,8) by linarith
    then have origin: "nat (rec_tail m t) = ?i" using u(5) by (auto simp: state_from_def split: if_splits)
    have "\<not> (slot_ids_at m' j \<noteq> {} \<and> t = nat (Min (slot_ids_at m' j)))" if j: "j < rm_n m'" for j
    proof
      assume a: "slot_ids_at m' j \<noteq> {} \<and> t = nat (Min (slot_ids_at m' j))"
      have "j + rm_head m' < rm_size m'" using j d(7,8,9) H by linarith
      then have "rec_tail m' t = int (j + rm_head m')"
        using ids_min(3)[OF found_wf[OF assms(1)], of "j + rm_head m'"] a by (simp add: slot_ids_at_def)
      then have "?i = j + rm_head m'" by (simp only: nat_int)
      then show False using out j by linarith
    qed
    then have "rollback m'' t = rollback m t" unfolding m''_def rollback_asked r by auto
    then have e: "state_row m'' t = state_row m t" unfolding row state_row_def[of m] origin by simp
    have no: "\<not> (rm_head m' + ub_n_seqs ub \<le> state_row m t \<and> state_row m t < rm_head m' + rm_n m')"
      and z: "0 \<le> rm_rs_z m' \<Longrightarrow> state_row m t \<noteq> nat (rm_rs_z m')"
    proof -
      have big: "state_row m t = ?i \<or> rm_size m \<le> state_row m t" by (cases "rollback m t") (simp_all add: state_row_def origin)
      then show "\<not> (rm_head m' + ub_n_seqs ub \<le> state_row m t \<and> state_row m t < rm_head m' + rm_n m')" using out H d(7,8) by linarith
      assume z: "0 \<le> rm_rs_z m'"
      have "int L \<le> rm_rs_z m' \<and> rm_rs_z m' \<le> int H" using zero_cell_unused(1,2)[of cs3 L H] z d(6) by simp
      then show "state_row m t \<noteq> nat (rm_rs_z m')" using big False H by linarith
    qed
    have "cleared zero m' st (state_row m t) = st (state_row m t)" using z by (simp add: cleared_def)
    then show ?thesis using tail unfolding e if_not_P[OF no] by simp
  qed
qed

lemma found_rollbacks:
  assumes "slot_found ub m L H f cs0 cs1 cs2 cs3 m'" "rollbacks_own m" "sets_unrolled ub m"
  shows "rollbacks_own (asked (rm_n m') m')"
  unfolding rollbacks_own_def asked_simps
proof (intro allI impI)
  note d = slot_foundD[OF assms(1)]
  fix t assume left: "rollback (asked (rm_n m') m') t \<noteq> 0"
  then have r: "rollback m' t \<noteq> 0" and kept: "\<And>i. i < rm_n m' \<Longrightarrow> slot_ids_at m' i \<noteq> {} \<Longrightarrow> t \<noteq> nat (Min (slot_ids_at m' i))"
    by (auto simp: rollback_asked split: if_splits)
  have "rollback m' t = rollback m t" by (simp add: rollback_def d(11))
  then have rm: "rollback m t \<noteq> 0" using r by simp
  then have t: "t < rm_size m" "0 \<le> rec_tail m t" using assms(2) by (simp_all add: rollbacks_own_def sole_def)
  have un: "unnamed ub t"
  proof (intro allI impI notI)
    fix k assume k: "k < ub_n_seqs ub" "int t \<in> set (set_ids ub k)"
    have "slot_ids_at m' k = {int t}" using named_rollback(2)[OF assms(1) k(1) assms(3) k(2)] rm by simp
    moreover have "k < rm_n m'" using found_named(3)[OF assms(1) k(1)] d(8) by linarith
    ultimately show False using kept[of k] by simp
  qed
  note u = found_unnamed[OF assms(1) t(1) un t(2)] and i = unnamed_rollback(2)[OF assms(1) t(1) un t(2) assms(2) rm]
  have "sole (rm_cells m') t" unfolding sole_def
  proof (intro conjI allI impI)
    show "0 \<le> rec_tail m' t" by (subst u(2)) (rule of_nat_0_le_iff)
    fix x assume x: "x < length (rm_cells m')" "rec_tail m' x = rec_tail m' t"
    have "int x \<in> mc_seq_id (rm_cells m' ! nat (rec_tail m' t))"
      using ids_known(3)[OF found_wf[OF assms(1)], of "nat (rec_tail m' t)" x] x u(1,2) d(9) rec_wfD(1)[OF found_wf[OF assms(1)]] by simp
    then show "x = t" unfolding i by simp
  qed
  then show "t < rm_size m' \<and> sole (rm_cells m') t" using t(1) d(9) by simp
qed

lemma found_spare_zero:
  assumes "slot_found ub m L H f cs0 cs1 cs2 cs3 m'" "spare_zero zero st (rm_cells m)"
    and "spare_from (rm_cells m) (state_from m' i)" "mc_seq_id (rm_cells m' ! i) = {}" "i < rm_size m"
  shows "(if rm_head m' + ub_n_seqs ub \<le> i \<and> i < rm_head m' + rm_n m' then cleared zero m' st (load_row m' (i - rm_head m')) else cleared zero m' st i) = zero"
proof -
  note d = slot_foundD[OF assms(1)]
  show ?thesis
  proof (cases "L \<le> i \<and> i \<le> H")
    case True
    have "L + ub_n_seqs ub \<le> i"
    proof (rule ccontr)
      assume "\<not> L + ub_n_seqs ub \<le> i"
      then have k: "i - L < ub_n_seqs ub" "i - L + rm_head m' = i" using True d(7) by linarith+
      have "set (set_ids ub (i - L)) = {}" using found_named(1)[OF assms(1) k(1)] assms(4) k(2) by (simp add: slot_ids_at_def)
      then show False using ubatch_sets(1)[OF d(2) k(1)] by (metis list.distinct(1) set_empty)
    qed
    then have e: "rm_head m' + ub_n_seqs ub \<le> i" "i < rm_head m' + rm_n m'" "i - rm_head m' + rm_head m' = i" using True d(7,8) by linarith+
    have "load_row m' (i - rm_head m') = nat (int (0 * rm_size m) + mc_src0 (rm_cells m' ! i))"
      using assms(4) e(3) by (simp add: load_row_def slot_ids_at_def cell_rollback_def)
    then show ?thesis using found_loaded(2)[OF assms(1) _ _ assms(2,3)] True e by simp
  next
    case False
    then have out: "state_from m' i = Some i" "\<not> (rm_head m' + ub_n_seqs ub \<le> i \<and> i < rm_head m' + rm_n m')"
      using d(7,8) by (auto simp: state_from_def)
    have z: "mc_src (rm_cells m ! i) = int i" "mc_seq_id (rm_cells m ! i) = {}" "i < length (rm_cells m)" using assms(3) out(1) by (simp_all add: spare_from_def)
    then have "st i = zero" using assms(2) by (simp add: spare_zero_def)
    then show ?thesis unfolding if_not_P[OF out(2)] by (simp add: cleared_def)
  qed
qed

text \<open>C4: the states follow their sequences. For a ubatch the memory can place, the graph that runs after \<open>find_slot\<close> reads, for the
  set of sequences at each place of the ubatch, the current state of the first of them - that of its old cell or, if a rollback is
  pending for it, the snapshot the rollback goes back to - and the zeroed state when the first is new; the sequences that join its set
  so continue from its state. Every sequence that the ubatch does not name keeps its current state, wherever its cell was moved and
  whether its rollback was used up or is still pending, and cells that no sequence has and that are not marked for clearing hold
  the zeroed state again. A rollback may be pending only for sequences that are alone in their cell and in their set of the ubatch;
  and it is pending only for such sequences after the graph has run.\<close>

theorem rec_states_follow:
  assumes "rec_wf m" "rec_ubatch_ok (rm_size m) ub" "rows_ok m" "rollbacks_own m" "sets_unrolled ub m"
    and "spare_zero zero st (rm_cells m)" "\<not> rc_is_full ctx"
  shows "\<exists>m' out st' m''. rec_find_slot ub m = Inr (True, m') \<and> load_states zero ctx (ub_n_seqs ub) m' st = (out, st', m'') \<and>
    length out = ub_n_seqs ub \<and>
    (\<forall>k < ub_n_seqs ub. out ! k = (if 0 \<le> rec_tail m (first_id ub k) then st (state_row m (first_id ub k)) else zero)) \<and>
    (\<forall>t < rm_size m. unnamed ub t \<longrightarrow> 0 \<le> rec_tail m t \<longrightarrow> 0 \<le> rec_tail m'' t \<and> st' (state_row m'' t) = st (state_row m t)) \<and>
    spare_zero zero st' (rm_cells m'') \<and> rollbacks_own m'' \<and> rows_ok m''"
proof (rule find_slot_spec[OF assms(1,2)])
  fix m1
  assume run: "rec_find_slot ub m = Inr (True, m1)"
    and new: "\<And>k. k < ub_n_seqs ub \<Longrightarrow> rec_tail m (first_id ub k) < 0 \<Longrightarrow> spare_from (rm_cells m) (state_from m1 (nat (rec_tail m1 (first_id ub k))))"
    and spare: "\<And>i. i < rm_size m \<Longrightarrow> mc_seq_id (rm_cells m1 ! i) = {} \<Longrightarrow> 0 \<le> mc_src (rm_cells m1 ! i) \<Longrightarrow> spare_from (rm_cells m) (state_from m1 i)"
  obtain L H f cs0 cs1 cs2 cs3 m' where r: "rec_find_slot ub m = Inr (True, m')" "slot_found ub m L H f cs0 cs1 cs2 cs3 m'"
    by (rule find_slot_found[OF assms(1,2)])
  have m1: "m1 = m'" using run r(1) by simp
  note d = slot_foundD[OF r(2)]
  note b = slot_bounds[OF d(4)]
  have ok: "rows_ok m'" using assms(3) d(9,11,12) by (simp add: rows_ok_def)
  have n: "rm_head m' + rm_n m' \<le> rm_size m'" "ub_n_seqs ub \<le> rm_n m'" using b(4,5) d(7,8,9,13) by linarith+
  show ?thesis
  proof (intro exI conjI)
    show "rec_find_slot ub m = Inr (True, m')" by (rule r(1))
    show "load_states zero ctx (ub_n_seqs ub) m' st = (map (\<lambda>k. cleared zero m' st (load_row m' k)) [0..<ub_n_seqs ub],
      \<lambda>i. if rm_head m' + ub_n_seqs ub \<le> i \<and> i < rm_head m' + rm_n m' then cleared zero m' st (load_row m' (i - rm_head m')) else cleared zero m' st i,
      asked (rm_n m') m')"
      by (rule load_states_eq[OF found_wf[OF r(2)] ok n assms(7)])
    show "rows_ok (asked (rm_n m') m')" by (rule rows_ok_asked[OF ok])
    show "rollbacks_own (asked (rm_n m') m')" by (rule found_rollbacks[OF r(2) assms(4,5)])
    show "spare_zero zero (\<lambda>i. if rm_head m' + ub_n_seqs ub \<le> i \<and> i < rm_head m' + rm_n m' then cleared zero m' st (load_row m' (i - rm_head m'))
        else cleared zero m' st i) (rm_cells (asked (rm_n m') m'))"
      unfolding spare_zero_def asked_simps found_cell(2)[OF r(2) b(4)[unfolded d(13)]]
      using found_spare_zero[OF r(2) assms(6) spare[unfolded m1]] by blast
    show "\<forall>k < ub_n_seqs ub. map (\<lambda>k. cleared zero m' st (load_row m' k)) [0..<ub_n_seqs ub] ! k =
        (if 0 \<le> rec_tail m (first_id ub k) then st (state_row m (first_id ub k)) else zero)"
      using named_loaded[OF r(2) assms(4,5,6)] new[unfolded m1] by simp
    show "\<forall>t < rm_size m. unnamed ub t \<longrightarrow> 0 \<le> rec_tail m t \<longrightarrow> 0 \<le> rec_tail (asked (rm_n m') m') t \<and>
        (if rm_head m' + ub_n_seqs ub \<le> state_row (asked (rm_n m') m') t \<and> state_row (asked (rm_n m') m') t < rm_head m' + rm_n m'
         then cleared zero m' st (load_row m' (state_row (asked (rm_n m') m') t - rm_head m'))
         else cleared zero m' st (state_row (asked (rm_n m') m') t)) = st (state_row m t)"
      using unnamed_loaded[OF r(2) _ _ _ assms(4,6)] by blast
  qed simp
qed

end
