(* ===== verification/RecurrentSeq.thy ===== *)
theory RecurrentSeq
  imports RecurrentSlot
begin

text \<open>
  The operations on sequences of the recurrent memory: what they change, in terms of the sequences that leave their cells
  (\<open>fewer\<close>), and that they keep the invariant \<open>rec_wf\<close>.
\<close>

section \<open>Loops over the cells\<close>

text \<open>A loop whose round \<open>i\<close> changes cell \<open>i\<close> only.\<close>

lemma cell_fold:
  assumes "\<And>i st. fst (g i st) = (fst st)[i := F i (fst st ! i)]" "n \<le> length (fst st)"
  shows "length (fst (fold g [0..<n] st)) = length (fst st) \<and>
    (\<forall>i < length (fst st). fst (fold g [0..<n] st) ! i = (if i < n then F i (fst st ! i) else fst st ! i))"
  using assms(2)
proof (induction n)
  case (Suc n)
  then have IH: "length (fst (fold g [0..<n] st)) = length (fst st)"
    "\<And>i. i < length (fst st) \<Longrightarrow> fst (fold g [0..<n] st) ! i = (if i < n then F i (fst st ! i) else fst st ! i)" by simp_all
  show ?case using IH Suc.prems by (auto simp: assms(1) nth_list_update less_Suc_eq)
qed simp

definition rm_of :: "llama_seq_id \<Rightarrow> llama_pos \<Rightarrow> llama_pos \<Rightarrow> mem_cell \<Rightarrow> mem_cell" where
  "rm_of s p0 p1 c = (if p0 \<le> mc_pos c \<and> mc_pos c < p1 \<and> s \<in> mc_seq_id c
     then if mc_seq_id c - {s} = {} then c\<lparr>mc_seq_id := {}, mc_pos := -1, mc_src := -1\<rparr> else c\<lparr>mc_seq_id := mc_seq_id c - {s}\<rparr> else c)"

lemma rm_cell_at: "0 \<le> s \<Longrightarrow> fst (rm_cell sz s p0 p1 i st) = (fst st)[i := rm_of s p0 p1 (fst st ! i)]"
  by (cases st) (simp add: rm_cell_def rm_of_def Let_def)

definition keep_of :: "llama_seq_id \<Rightarrow> nat \<Rightarrow> mem_cell \<Rightarrow> mem_cell" where
  "keep_of s i c = (let c = (if int i \<noteq> s then c\<lparr>mc_tail := -1\<rparr> else c) in
     if s \<notin> mc_seq_id c then c\<lparr>mc_pos := -1, mc_src := -1, mc_seq_id := {}\<rparr> else c\<lparr>mc_seq_id := {s}\<rparr>)"

lemma keep_cell_at: "fst (keep_cell sz s i st) = (fst st)[i := keep_of s i (fst st ! i)]"
  by (cases st) (simp add: keep_cell_def keep_of_def Let_def)

lemma set_new_head_simps [simp]:
  "rm_cells (set_new_head h m) = rm_cells m" "rm_size (set_new_head h m) = rm_size m" "rm_rs_idx (set_new_head h m) = rm_rs_idx m"
  "rm_n_seq_max (set_new_head h m) = rm_n_seq_max m" "rm_n_rs_seq (set_new_head h m) = rm_n_rs_seq m" "rm_head (set_new_head h m) \<le> rm_head m"
  by (simp_all add: set_new_head_def)

text \<open>A memory whose cells are those of \<open>m\<close> but for sequences that left theirs.\<close>

definition leaves :: "nat set \<Rightarrow> llama_memory_recurrent \<Rightarrow> llama_memory_recurrent \<Rightarrow> bool" where
  "leaves X m m' \<longleftrightarrow> fewer X (rm_cells m) (rm_cells m') \<and> rm_size m' = rm_size m \<and> rm_head m' \<le> rm_head m \<and>
     length (rm_rs_idx m') = length (rm_rs_idx m) \<and> rm_n_seq_max m' = rm_n_seq_max m \<and> rm_n_rs_seq m' = rm_n_rs_seq m"

lemma leaves_wf:
  assumes "leaves X m m'" "rec_wf m"
  shows "rec_wf m'"
proof -
  note w = rec_wfD[OF assms(2)] and l = assms(1)[unfolded leaves_def]
  have f: "fewer X (rm_cells m) (rm_cells m')" using l by blast
  show ?thesis unfolding rec_wf_def
    using fewerD(1)[OF f] fewer_tails[OF f w(5)] fewer_sources(1)[OF f w(5,6)] w(1-4) l by auto
qed

text \<open>Cells that differ in their positions and pending sources only.\<close>

lemma same_shape_wf:
  assumes "rec_wf m" "length (rm_cells m') = length (rm_cells m)" "rm_size m' = rm_size m" "rm_head m' = rm_head m"
    "length (rm_rs_idx m') = length (rm_rs_idx m)" "rm_n_seq_max m' = rm_n_seq_max m"
    "\<And>i. i < length (rm_cells m) \<Longrightarrow> mc_tail (rm_cells m' ! i) = mc_tail (rm_cells m ! i) \<and>
       mc_seq_id (rm_cells m' ! i) = mc_seq_id (rm_cells m ! i) \<and> mc_src (rm_cells m' ! i) = mc_src (rm_cells m ! i)"
  shows "rec_wf m'"
proof -
  note w = rec_wfD[OF assms(1)] and l = assms(2)
  have e: "mc_tail (rm_cells m' ! i) = mc_tail (rm_cells m ! i)" "mc_seq_id (rm_cells m' ! i) = mc_seq_id (rm_cells m ! i)"
    "mc_src (rm_cells m' ! i) = mc_src (rm_cells m ! i)" if "i < length (rm_cells m)" for i using assms(7)[OF that] by blast+
  have "tails_ok (rm_cells m')"
  proof (rule tails_butI)
    show "\<exists>s < length (rm_cells m'). x = int s" if "i < length (rm_cells m')" "x \<in> mc_seq_id (rm_cells m' ! i)" for i x
      using tails_butD(1)[OF w(5), of i x] that e(2) l by simp
    show "-1 \<le> mc_tail (rm_cells m' ! s) \<and> mc_tail (rm_cells m' ! s) < int (length (rm_cells m'))" if "s < length (rm_cells m')" for s
      using tails_butD(2,3)[OF w(5), of s] that e(1) l by simp
    show "int s \<in> mc_seq_id (rm_cells m' ! i) \<longleftrightarrow> mc_tail (rm_cells m' ! s) = int i \<and> s \<notin> {}"
      if "s < length (rm_cells m')" "i < length (rm_cells m')" for s i
      using tails_butD(4)[OF w(5), of s i] that e(1,2) l by simp
  qed
  moreover have "sources_ok (rm_cells m')" using w(6) e l by (simp add: sources_ok_def)
  ultimately show ?thesis using w(1-4) assms(3-6) l by (simp add: rec_wf_def)
qed

section \<open>The operations\<close>

lemma rec_clear_wf: "rec_wf m \<Longrightarrow> rec_wf (rec_clear m)"
  by (auto simp: rec_wf_def rec_clear_def sources_ok_def intro!: tails_butI)

lemma set_rs_idx_leaves:
  assumes "set_rs_idx s idx m = Inr m'"
  shows "leaves {} m m'" "rm_cells m' = rm_cells m"
  using assms fewer_refl by (auto simp: set_rs_idx_def leaves_def split: if_splits)

lemma leaves_refl: "leaves {} m m"
  using fewer_refl by (simp add: leaves_def)

lemma leaves_trans: "leaves X a b \<Longrightarrow> leaves Y b c \<Longrightarrow> leaves (X \<union> Y) a c"
  using fewer_trans by (auto simp: leaves_def)

text \<open>The tail of a sequence is the only cell that lists it.\<close>

lemma listed_tail:
  assumes "tails_ok cs" "s < length cs" "i < length cs" "int s \<in> mc_seq_id (cs ! i)"
  shows "mc_tail (cs ! s) = int i" "nat (mc_tail (cs ! s)) = i"
  using tails_butD(4)[OF assms(1-3)] assms(4) by simp_all

text \<open>The loop of \<open>seq_rm\<close> after the tail is gone, and when the sequence has nothing in the range.\<close>

lemma rm_loop_cells:
  assumes "rm_size m = length (rm_cells m)" "0 \<le> s"
  shows "length (rm_cells (rm_cells_loop s p0 p1 m)) = rm_size m \<and> rm_head (rm_cells_loop s p0 p1 m) \<le> rm_head m \<and>
    rm_size (rm_cells_loop s p0 p1 m) = rm_size m \<and> rm_rs_idx (rm_cells_loop s p0 p1 m) = rm_rs_idx m \<and>
    rm_n_seq_max (rm_cells_loop s p0 p1 m) = rm_n_seq_max m \<and> rm_n_rs_seq (rm_cells_loop s p0 p1 m) = rm_n_rs_seq m"
    "i < rm_size m \<Longrightarrow> rm_cells (rm_cells_loop s p0 p1 m) ! i = rm_of s p0 p1 (rm_cells m ! i)"
proof -
  let ?st = "(rm_cells m, rm_used m, rm_size m)"
  have "rm_size m \<le> length (fst ?st)" using assms(1) by simp
  note c = cell_fold[of "rm_cell (rm_size m) s p0 p1", OF rm_cell_at[OF assms(2)] this]
  obtain cs u h where r: "fold (rm_cell (rm_size m) s p0 p1) [0..<rm_size m] ?st = (cs, u, h)" by (metis surj_pair)
  show "length (rm_cells (rm_cells_loop s p0 p1 m)) = rm_size m \<and> rm_head (rm_cells_loop s p0 p1 m) \<le> rm_head m \<and>
    rm_size (rm_cells_loop s p0 p1 m) = rm_size m \<and> rm_rs_idx (rm_cells_loop s p0 p1 m) = rm_rs_idx m \<and>
    rm_n_seq_max (rm_cells_loop s p0 p1 m) = rm_n_seq_max m \<and> rm_n_rs_seq (rm_cells_loop s p0 p1 m) = rm_n_rs_seq m"
    using c r assms(1) set_new_head_simps(6)[of h "m\<lparr>rm_cells := cs, rm_used := u\<rparr>"] by (simp add: rm_cells_loop_def)
  show "rm_cells (rm_cells_loop s p0 p1 m) ! i = rm_of s p0 p1 (rm_cells m ! i)" if "i < rm_size m"
    using c r that assms(1) by (simp add: rm_cells_loop_def)
qed

lemma rm_loop_nothing:
  assumes wf: "rec_wf m" and s: "s < rm_size m"
    and no: "mc_tail (rm_cells m ! s) < 0 \<or> \<not> (p0 \<le> mc_pos (tail_cell (rm_cells m) s) \<and> mc_pos (tail_cell (rm_cells m) s) < p1)"
  shows "leaves {} m (rm_cells_loop (int s) p0 p1 m)" "rm_cells (rm_cells_loop (int s) p0 p1 m) = rm_cells m"
proof -
  note w = rec_wfD[OF wf] and l = rm_loop_cells(1)[OF rec_wfD(1)[OF wf], of "int s" p0 p1]
  show e: "rm_cells (rm_cells_loop (int s) p0 p1 m) = rm_cells m"
  proof (rule nth_equalityI)
    show "length (rm_cells (rm_cells_loop (int s) p0 p1 m)) = length (rm_cells m)" using l w(1) by simp
    fix i assume "i < length (rm_cells (rm_cells_loop (int s) p0 p1 m))"
    then have i: "i < length (rm_cells m)" using l w(1) by simp
    have "\<not> (p0 \<le> mc_pos (rm_cells m ! i) \<and> mc_pos (rm_cells m ! i) < p1 \<and> int s \<in> mc_seq_id (rm_cells m ! i))"
    proof
      assume a: "p0 \<le> mc_pos (rm_cells m ! i) \<and> mc_pos (rm_cells m ! i) < p1 \<and> int s \<in> mc_seq_id (rm_cells m ! i)"
      have "mc_tail (rm_cells m ! s) = int i" using listed_tail(1)[OF w(5) _ i, of s] a s w(1) by simp
      then show False using no a by simp
    qed
    then show "rm_cells (rm_cells_loop (int s) p0 p1 m) ! i = rm_cells m ! i"
      using rm_loop_cells(2)[OF w(1), of "int s" i p0 p1] i w(1) by (auto simp: rm_of_def)
  qed
  show "leaves {} m (rm_cells_loop (int s) p0 p1 m)" unfolding leaves_def e using fewer_refl l by simp
qed

text \<open>The memory after a sequence has left its cell: the cell loses it and, if it was the last one, is emptied and can be searched first.\<close>

definition rm_left :: "nat \<Rightarrow> llama_memory_recurrent \<Rightarrow> llama_memory_recurrent" where
  "rm_left s m =
     (let t = nat (mc_tail (rm_cells m ! s)); ids = mc_seq_id (rm_cells m ! t) - {int s};
          cells = upd_cell s (\<lambda>c. c\<lparr>mc_tail := -1\<rparr>) (rm_cells m)
      in if ids = {} then m\<lparr>rm_cells := upd_cell t (\<lambda>c. c\<lparr>mc_seq_id := {}, mc_pos := -1, mc_src := -1\<rparr>) cells,
                            rm_used := u32_sub (rm_used m) 1, rm_head := min t (rm_head m)\<rparr>
         else m\<lparr>rm_cells := upd_cell t (\<lambda>c. c\<lparr>mc_seq_id := ids\<rparr>) cells\<rparr>)"

definition rm_hits :: "llama_seq_id \<Rightarrow> llama_pos \<Rightarrow> llama_pos \<Rightarrow> mem_cell \<Rightarrow> bool" where
  "rm_hits s p0 p1 c \<longleftrightarrow> p0 \<le> mc_pos c \<and> mc_pos c < p1 \<and> s \<in> mc_seq_id c"

lemma rm_fold_none: "0 \<le> s \<Longrightarrow> \<forall>i \<in> set is. \<not> rm_hits s p0 p1 (cs ! i) \<Longrightarrow> fold (rm_cell sz s p0 p1) is (cs, u, h) = (cs, u, h)"
  by (induction "is") (auto simp: rm_cell_def rm_hits_def)

lemma rm_fold_one:
  assumes "0 \<le> s" "t < n" "\<forall>i < n. i \<noteq> t \<longrightarrow> \<not> rm_hits s p0 p1 (cs ! i)"
  shows "fold (rm_cell sz s p0 p1) [0..<n] (cs, u, h) = rm_cell sz s p0 p1 t (cs, u, h)"
proof -
  have e: "[0..<n] = [0..<t] @ t # [Suc t..<n]" using assms(2) by (metis less_imp_le_nat upt_add_eq_append upt_conv_Cons le0 le_add_diff_inverse)
  obtain cs1 u1 h1 where r: "rm_cell sz s p0 p1 t (cs, u, h) = (cs1, u1, h1)" by (metis surj_pair)
  then have "cs1 ! i = cs ! i" if "i \<noteq> t" for i using that by (auto simp: rm_cell_def Let_def split: if_splits)
  then have "fold (rm_cell sz s p0 p1) [Suc t..<n] (cs1, u1, h1) = (cs1, u1, h1)" using assms(1,3) by (intro rm_fold_none) auto
  moreover have "fold (rm_cell sz s p0 p1) [0..<t] (cs, u, h) = (cs, u, h)" using assms by (intro rm_fold_none) auto
  ultimately show ?thesis unfolding e fold_append fold.simps o_apply by (simp add: r)
qed

lemma tail_hits:
  assumes "tails_ok cs" "s < length cs" "i < length cs" "rm_hits (int s) p0 p1 (cs ! i)"
  shows "i = nat (mc_tail (cs ! s))" "0 \<le> mc_tail (cs ! s)"
  using listed_tail[OF assms(1-3)] assms(4) by (simp_all add: rm_hits_def)

lemma rm_loop_same:
  assumes wf: "rec_wf m" and s: "s < rm_size m"
    and no: "mc_tail (rm_cells m ! s) < 0 \<or> \<not> (p0 \<le> mc_pos (tail_cell (rm_cells m) s) \<and> mc_pos (tail_cell (rm_cells m) s) < p1)"
  shows "rm_cells_loop (int s) p0 p1 m = m"
proof -
  note w = rec_wfD[OF wf]
  have "\<not> rm_hits (int s) p0 p1 (rm_cells m ! i)" if i: "i < length (rm_cells m)" for i
    using tail_hits[OF w(5) s[unfolded w(1)] i, of p0 p1] no by (auto simp: rm_hits_def)
  then have "fold (rm_cell (rm_size m) (int s) p0 p1) [0..<rm_size m] (rm_cells m, rm_used m, rm_size m) = (rm_cells m, rm_used m, rm_size m)"
    using w(1) by (intro rm_fold_none) auto
  then show ?thesis by (simp add: rm_cells_loop_def set_new_head_def)
qed

lemma rm_loop_left:
  assumes wf: "rec_wf m" and s: "s < rm_size m" and t: "0 \<le> mc_tail (rm_cells m ! s)"
    and pos: "p0 \<le> mc_pos (tail_cell (rm_cells m) s)" "mc_pos (tail_cell (rm_cells m) s) < p1" "0 \<le> p0"
  shows "rm_cells_loop (int s) p0 p1 (m\<lparr>rm_cells := upd_cell s (\<lambda>c. c\<lparr>mc_tail := -1\<rparr>) (rm_cells m)\<rparr>) = rm_left s m"
proof -
  note w = rec_wfD[OF wf]
  have sl: "s < length (rm_cells m)" using s w(1) by simp
  note ti = tail_index[OF w(5) sl t]
  let ?t = "nat (mc_tail (rm_cells m ! s))" and ?cs = "upd_cell s (\<lambda>c. c\<lparr>mc_tail := -1\<rparr>) (rm_cells m)"
  let ?ids = "mc_seq_id (rm_cells m ! ?t) - {int s}"
  have c: "?cs ! i = (if i = s then (rm_cells m ! i)\<lparr>mc_tail := -1\<rparr> else rm_cells m ! i)" if "i < length (rm_cells m)" for i using that by simp
  have "\<not> rm_hits (int s) p0 p1 (?cs ! i)" if "i < rm_size m" "i \<noteq> ?t" for i
    using tail_hits(1)[OF w(5) sl, of i p0 p1] that w(1) c[of i] by (auto simp: rm_hits_def split: if_splits)
  then have f: "fold (rm_cell (rm_size m) (int s) p0 p1) [0..<rm_size m] (?cs, rm_used m, rm_size m) =
      rm_cell (rm_size m) (int s) p0 p1 ?t (?cs, rm_used m, rm_size m)"
    using ti(1) w(1) by (intro rm_fold_one) auto
  have h: "mc_pos (?cs ! ?t) = mc_pos (rm_cells m ! ?t)" "mc_seq_id (?cs ! ?t) = mc_seq_id (rm_cells m ! ?t)" using c[OF ti(1)] by simp_all
  have "int s \<in> mc_seq_id (rm_cells m ! ?t)" using tails_butD(4)[OF w(5) sl ti(1)] t by simp
  then have e: "rm_cell (rm_size m) (int s) p0 p1 ?t (?cs, rm_used m, rm_size m) =
      (if ?ids = {} then (upd_cell ?t (\<lambda>c. c\<lparr>mc_seq_id := {}, mc_pos := -1, mc_src := -1\<rparr>) ?cs, u32_sub (rm_used m) 1, ?t)
       else (upd_cell ?t (\<lambda>c. c\<lparr>mc_seq_id := ?ids\<rparr>) ?cs, rm_used m, rm_size m))"
    using pos unfolding rm_cell_def prod.case Let_def h upd_cell_def[of ?t] by simp
  show ?thesis unfolding rm_cells_loop_def rm_left_def using ti(1)[folded w(1)] by (simp add: f e Let_def set_new_head_def min_def)
qed

lemma rm_loop_leaves:
  assumes wf: "rec_wf m" and s: "s < rm_size m" and t: "0 \<le> mc_tail (rm_cells m ! s)"
    and pos: "p0 \<le> mc_pos (tail_cell (rm_cells m) s)" "mc_pos (tail_cell (rm_cells m) s) < p1"
  shows "leaves {s} m (rm_cells_loop (int s) p0 p1 (m\<lparr>rm_cells := upd_cell s (\<lambda>c. c\<lparr>mc_tail := -1\<rparr>) (rm_cells m)\<rparr>))"
proof -
  note w = rec_wfD[OF wf]
  let ?m = "m\<lparr>rm_cells := upd_cell s (\<lambda>c. c\<lparr>mc_tail := -1\<rparr>) (rm_cells m)\<rparr>"
  have sz: "rm_size ?m = length (rm_cells ?m)" using w(1) by simp
  note l = rm_loop_cells(1)[OF sz, of "int s" p0 p1]
  let ?b = "rm_cells (rm_cells_loop (int s) p0 p1 ?m)"
  have at: "?b ! i = rm_of (int s) p0 p1 (if i = s then (rm_cells m ! i)\<lparr>mc_tail := -1\<rparr> else rm_cells m ! i)" if "i < length (rm_cells m)" for i
    using rm_loop_cells(2)[OF sz, of "int s" i p0 p1] that w(1) by simp
  have rng: "p0 \<le> mc_pos (rm_cells m ! i) \<and> mc_pos (rm_cells m ! i) < p1" if "i < length (rm_cells m)" "int s \<in> mc_seq_id (rm_cells m ! i)" for i
    using listed_tail(2)[OF w(5) _ that(1), of s] that(2) s w(1) pos by simp
  have "fewer {s} (rm_cells m) ?b" unfolding fewer_def
  proof (intro conjI allI impI)
    show "length ?b = length (rm_cells m)" using l w(1) by simp
    show "mc_tail (?b ! i) = (if i \<in> {s} then -1 else mc_tail (rm_cells m ! i))" if "i < length (rm_cells m)" for i
      using at[OF that] by (simp add: rm_of_def)
    fix i assume i: "i < length (rm_cells m)"
    show "mc_seq_id (?b ! i) = mc_seq_id (rm_cells m ! i) - int ` {s}" using at[OF i] rng[OF i] by (auto simp: rm_of_def)
    show "mc_src (?b ! i) = mc_src (rm_cells m ! i) \<or> mc_src (?b ! i) = -1" using at[OF i] by (simp add: rm_of_def)
    show "mc_pos (?b ! i) = mc_pos (rm_cells m ! i)" "mc_src (?b ! i) = mc_src (rm_cells m ! i)" if "mc_seq_id (?b ! i) \<noteq> {}"
      using at[OF i] that by (auto simp: rm_of_def split: if_splits)
    show "mc_src (?b ! i) = -1" if "mc_seq_id (?b ! i) = {}" "mc_seq_id (rm_cells m ! i) \<noteq> {}"
      using at[OF i] that rng[OF i] by (auto simp: rm_of_def split: if_splits)
  qed
  then show ?thesis unfolding leaves_def using l by simp
qed

lemma seq_u32_nat: "s < 2 ^ 32 \<Longrightarrow> seq_u32 (int s) = s"
  using seq_u32_small[of "int s"] by simp

text \<open>What \<open>seq_rm\<close> answers and the memory it leaves, for a sequence that can have a cell, with the range as it is after clamping.\<close>

definition rm_outcome :: "nat \<Rightarrow> llama_pos \<Rightarrow> llama_pos \<Rightarrow> llama_memory_recurrent \<Rightarrow> bool \<Rightarrow> llama_memory_recurrent \<Rightarrow> bool" where
  "rm_outcome s p0 p1 m ok m' \<longleftrightarrow>
     (let tail = mc_tail (rm_cells m ! s); pos = mc_pos (tail_cell (rm_cells m) s);
          m0 = (if p0 = 0 \<and> p1 = INT32_MAX then m\<lparr>rm_rs_idx := (rm_rs_idx m)[s := 0]\<rparr> else m)
      in if tail < 0 \<or> \<not> (p0 \<le> pos \<and> pos < p1) then ok \<and> m' = m0
         else if p0 = 0 then ok \<and> m' = rm_left s m0
         else if rm_rs_idx m ! s = 0 \<and> pos - (p0 - 1) \<le> int (rm_n_rs_seq m)
           then ok \<and> m' = m\<lparr>rm_rs_idx := (rm_rs_idx m)[s := nat (pos - (p0 - 1))], rm_cells := upd_cell (nat tail) (\<lambda>c. c\<lparr>mc_pos := p0 - 1\<rparr>) (rm_cells m)\<rparr>
         else \<not> ok \<and> m' = m)"

lemma seq_rm_all:
  assumes wf: "rec_wf m" and s: "s < rm_n_seq_max m" "rm_n_seq_max m \<le> rm_size m" and p: "clamp_p0 p0 = 0" "clamp_p1 p1 = INT32_MAX"
  shows "\<exists>m'. rec_seq_rm (int s) p0 p1 m = Inr (True, m') \<and> rm_outcome s 0 INT32_MAX m True m'"
proof -
  note w = rec_wfD[OF wf]
  have u: "seq_u32 (int s) = s" using seq_u32_nat[of s] s w(2) by simp
  define m1 where "m1 = m\<lparr>rm_rs_idx := (rm_rs_idx m)[s := 0]\<rparr>"
  have r: "set_rs_idx (int s) 0 m = Inr m1" using s u by (simp add: set_rs_idx_def m1_def)
  have wf1: "rec_wf m1" by (rule leaves_wf[OF set_rs_idx_leaves(1)[OF r] wf])
  have c1: "rm_size m1 = rm_size m" "rm_cells m1 = rm_cells m" by (simp_all add: m1_def)
  have s1: "s < rm_size m1" "\<not> rm_n_seq_max m \<le> s" "\<not> int (rm_size m1) \<le> int s" using s c1(1) by simp_all
  note go = rec_seq_rm_def[of "int s" p0 p1 m, unfolded p Let_def, simplified u r, simplified]
  show ?thesis
  proof (cases "mc_tail (rm_cells m ! s) < 0 \<or> \<not> (0 \<le> mc_pos (tail_cell (rm_cells m) s) \<and> mc_pos (tail_cell (rm_cells m) s) < INT32_MAX)")
    case True
    have "rec_seq_rm (int s) p0 p1 m = Inr (True, rm_cells_loop (int s) 0 INT32_MAX m1)" using go s1 c1 True by auto
    moreover have "rm_cells_loop (int s) 0 INT32_MAX m1 = m1" using rm_loop_same[OF wf1 s1(1)] True unfolding c1 by blast
    ultimately show ?thesis using True by (simp add: rm_outcome_def Let_def m1_def)
  next
    case False
    let ?m = "m1\<lparr>rm_cells := upd_cell s (\<lambda>c. c\<lparr>mc_tail := -1\<rparr>) (rm_cells m1)\<rparr>"
    have "rec_seq_rm (int s) p0 p1 m = Inr (True, rm_cells_loop (int s) 0 INT32_MAX ?m)" using go s1 c1 False by auto
    moreover have "rm_cells_loop (int s) 0 INT32_MAX ?m = rm_left s m1" using rm_loop_left[OF wf1 s1(1), of 0] False unfolding c1 by simp
    ultimately show ?thesis using False by (simp add: rm_outcome_def Let_def m1_def)
  qed
qed

lemma seq_rm_part:
  assumes wf: "rec_wf m" and s: "s < rm_n_seq_max m" "rm_n_seq_max m \<le> rm_size m" and p: "\<not> (clamp_p0 p0 = 0 \<and> clamp_p1 p1 = INT32_MAX)"
  shows "\<exists>ok m'. rec_seq_rm (int s) p0 p1 m = Inr (ok, m') \<and> rm_outcome s (clamp_p0 p0) (clamp_p1 p1) m ok m'"
proof -
  note w = rec_wfD[OF wf]
  define a b where "a = clamp_p0 p0" and "b = clamp_p1 p1"
  have a0: "0 \<le> a" by (simp add: a_def clamp_p0_def)
  have u: "seq_u32 (int s) = s" using seq_u32_nat[of s] s w(2) by simp
  have s1: "s < rm_size m" "\<not> rm_n_seq_max m \<le> s" "\<not> int (rm_size m) \<le> int s" using s by simp_all
  have p': "\<not> (a = 0 \<and> b = INT32_MAX)" using p by (simp add: a_def b_def)
  note go = rec_seq_rm_def[of "int s" p0 p1 m, folded a_def b_def, unfolded Let_def if_not_P[OF p'], simplified u, simplified]
  let ?pos = "mc_pos (tail_cell (rm_cells m) s)"
  consider "mc_tail (rm_cells m ! s) < 0 \<or> \<not> (a \<le> ?pos \<and> ?pos < b)" | "0 \<le> mc_tail (rm_cells m ! s)" "a \<le> ?pos" "?pos < b" "a = 0"
    | "0 \<le> mc_tail (rm_cells m ! s)" "a \<le> ?pos" "?pos < b" "0 < a" using a0 by linarith
  then have "\<exists>ok m'. rec_seq_rm (int s) p0 p1 m = Inr (ok, m') \<and> rm_outcome s a b m ok m'"
  proof cases
    case 1
    have "rec_seq_rm (int s) p0 p1 m = Inr (True, rm_cells_loop (int s) a b m)" using go s1 1 by auto
    moreover have "rm_outcome s a b m True (rm_cells_loop (int s) a b m)" using rm_loop_same[OF wf s1(1) 1] 1 p' by (auto simp: rm_outcome_def Let_def)
    ultimately show ?thesis by blast
  next
    case 2
    have "rec_seq_rm (int s) p0 p1 m = Inr (True, rm_cells_loop (int s) a b (m\<lparr>rm_cells := upd_cell s (\<lambda>c. c\<lparr>mc_tail := -1\<rparr>) (rm_cells m)\<rparr>))"
      using go s1 2 by auto
    moreover have "rm_outcome s a b m True (rm_cells_loop (int s) a b (m\<lparr>rm_cells := upd_cell s (\<lambda>c. c\<lparr>mc_tail := -1\<rparr>) (rm_cells m)\<rparr>))"
      using rm_loop_left[OF wf s1(1) 2(1-3) a0] 2 p' by (auto simp: rm_outcome_def Let_def)
    ultimately show ?thesis by blast
  next
    case 3
    have "set_rs_idx (int s) (nat (?pos - (a - 1))) m = Inr (m\<lparr>rm_rs_idx := (rm_rs_idx m)[s := nat (?pos - (a - 1))]\<rparr>)"
      if "?pos - (a - 1) \<le> int (rm_n_rs_seq m)"
      using s u that by (auto simp: set_rs_idx_def)
    then show ?thesis using go s1 3 by (auto simp: rm_outcome_def Let_def)
  qed
  then show ?thesis unfolding a_def b_def .
qed

lemma seq_rm_cases:
  assumes "rec_wf m" "s < rm_n_seq_max m" "rm_n_seq_max m \<le> rm_size m"
  shows "\<exists>ok m'. rec_seq_rm (int s) p0 p1 m = Inr (ok, m') \<and> rm_outcome s (clamp_p0 p0) (clamp_p1 p1) m ok m'"
proof (cases "clamp_p0 p0 = 0 \<and> clamp_p1 p1 = INT32_MAX")
  case True
  then show ?thesis using seq_rm_all[OF assms, of p0 p1] by auto
next
  case False
  then show ?thesis by (rule seq_rm_part[OF assms])
qed

text \<open>What this says of the sequences and their cells.\<close>

lemma rm_left_leaves:
  assumes "rec_wf m" "s < rm_size m" "0 \<le> mc_tail (rm_cells m ! s)" "0 \<le> mc_pos (tail_cell (rm_cells m) s)"
  shows "leaves {s} m (rm_left s m)"
  using rm_loop_leaves[OF assms(1-3), of 0 "mc_pos (tail_cell (rm_cells m) s) + 1"] rm_loop_left[OF assms(1-3), of 0 "mc_pos (tail_cell (rm_cells m) s) + 1"] assms(4)
  by simp

lemma rm_outcome_cells:
  assumes "rec_wf m" "s < rm_size m" "rm_outcome s p0 p1 m ok m'"
  defines "tail \<equiv> mc_tail (rm_cells m ! s)" and "pos \<equiv> mc_pos (tail_cell (rm_cells m) s)"
  shows "if tail < 0 \<or> \<not> (p0 \<le> pos \<and> pos < p1) then ok \<and> leaves {} m m' \<and> rm_cells m' = rm_cells m
    else if p0 = 0 then ok \<and> leaves {s} m m'
    else if rm_rs_idx m ! s = 0 \<and> pos - (p0 - 1) \<le> int (rm_n_rs_seq m)
      then ok \<and> m' = m\<lparr>rm_rs_idx := (rm_rs_idx m)[s := nat (pos - (p0 - 1))], rm_cells := upd_cell (nat tail) (\<lambda>c. c\<lparr>mc_pos := p0 - 1\<rparr>) (rm_cells m)\<rparr>
    else \<not> ok \<and> m' = m"
proof -
  define m0 where "m0 = (if p0 = 0 \<and> p1 = INT32_MAX then m\<lparr>rm_rs_idx := (rm_rs_idx m)[s := 0]\<rparr> else m)"
  have l0: "leaves {} m m0" "rm_cells m0 = rm_cells m" "rm_size m0 = rm_size m" using fewer_refl by (simp_all add: m0_def leaves_def)
  have "leaves {s} m (rm_left s m0)" if "\<not> (tail < 0 \<or> \<not> (p0 \<le> pos \<and> pos < p1))" "p0 = 0"
    using leaves_trans[OF l0(1) rm_left_leaves[OF leaves_wf[OF l0(1) assms(1)]]] that assms(2) l0(2,3) by (simp add: tail_def pos_def)
  then show ?thesis using assms(3)[unfolded rm_outcome_def Let_def, folded m0_def, folded tail_def pos_def] l0(1,2) by (auto split: if_splits)
qed

lemma rm_outcome_wf:
  assumes "rec_wf m" "s < rm_size m" "rm_outcome s p0 p1 m ok m'"
  shows "rec_wf m' \<and> rm_size m' = rm_size m \<and> rm_n_seq_max m' = rm_n_seq_max m \<and> rm_n_rs_seq m' = rm_n_rs_seq m"
proof -
  let ?tail = "mc_tail (rm_cells m ! s)" and ?pos = "mc_pos (tail_cell (rm_cells m) s)"
  let ?m = "m\<lparr>rm_rs_idx := (rm_rs_idx m)[s := nat (?pos - (p0 - 1))], rm_cells := upd_cell (nat ?tail) (\<lambda>c. c\<lparr>mc_pos := p0 - 1\<rparr>) (rm_cells m)\<rparr>"
  have "(\<exists>X. leaves X m m') \<or> m' = ?m \<or> m' = m" using rm_outcome_cells[OF assms] by (auto split: if_splits)
  then consider (leaves) X where "leaves X m m'" | (rolled) "m' = ?m" | (same) "m' = m" by blast
  then show ?thesis
  proof cases
    case leaves
    then show ?thesis using leaves_wf[OF leaves assms(1)] by (simp add: leaves_def)
  next
    case rolled
    have "rec_wf ?m" by (rule same_shape_wf[OF assms(1)]) auto
    then show ?thesis using rolled by simp
  qed (use assms(1) in simp)
qed

text \<open>C22: removing a range of positions of one sequence from the recurrent memory answers and leaves exactly the following. The
  whole range resets the rollback index of the sequence, and a shorter one leaves it. Without a cell, or with its last position outside of the
  range, the answer is true and nothing else changes. A range from 0 takes the sequence out of its cell, which is emptied,
  counted as free and searched first when no other sequence is left in it. A later range rolls the cell back to before it and notes how
  far, when no rollback is pending and not more than \<open>n_rs_seq\<close> positions go; otherwise the answer is false and the memory is as it was.\<close>

theorem rec_seq_rm_outcome:
  assumes "rec_wf m" "s < rm_n_seq_max m" "rm_n_seq_max m \<le> rm_size m"
  shows "\<exists>ok m'. rec_seq_rm (int s) p0 p1 m = Inr (ok, m') \<and> rec_wf m' \<and> rm_outcome s (clamp_p0 p0) (clamp_p1 p1) m ok m'"
proof -
  obtain ok m' where r: "rec_seq_rm (int s) p0 p1 m = Inr (ok, m')" "rm_outcome s (clamp_p0 p0) (clamp_p1 p1) m ok m'"
    using seq_rm_cases[OF assms] by blast
  then show ?thesis using rm_outcome_wf[OF assms(1) _ r(2)] assms(2,3) by simp
qed

text \<open>A request to remove positions of all sequences (a negative sequence) is always refused and does nothing, although the
  code goes on to treat it: the bound on the sequence is checked on its unsigned value.\<close>

lemma rec_seq_rm_any:
  assumes "rm_n_seq_max m \<le> 2 ^ 31" "- (2 ^ 31) \<le> s" "s < 0"
  shows "rec_seq_rm s p0 p1 m = Inr (False, m)"
proof -
  have "s mod 2 ^ 32 = s + 2 ^ 32" using assms(2,3) by (subst mod_add_self2 [symmetric], subst mod_pos_pos_trivial) simp_all
  then have "rm_n_seq_max m \<le> seq_u32 s" using assms by (simp add: seq_u32_def)
  then show ?thesis by (simp add: rec_seq_rm_def)
qed

lemma upd_ids_ok:
  assumes "tails_ok cs" "d < length cs" "mc_tail (cs ! d) = -1" "t < length cs"
  defines "b \<equiv> upd_cell d (\<lambda>c. c\<lparr>mc_tail := int t\<rparr>) (upd_cell t (\<lambda>c. c\<lparr>mc_seq_id := insert (int d) (mc_seq_id c)\<rparr>) cs)"
  shows "tails_ok b"
proof (rule tails_butI)
  have l: "length b = length cs" by (simp add: b_def)
  have tail: "mc_tail (b ! i) = (if i = d then int t else mc_tail (cs ! i))" and ids: "mc_seq_id (b ! i) = (if i = t then insert (int d) (mc_seq_id (cs ! i)) else mc_seq_id (cs ! i))"
    if "i < length cs" for i using that by (simp_all add: b_def)
  show "\<exists>s < length b. x = int s" if "i < length b" "x \<in> mc_seq_id (b ! i)" for i x
    using tails_butD(1)[OF assms(1), of i x] that ids[of i] l assms(2) by (auto split: if_splits)
  show "-1 \<le> mc_tail (b ! s) \<and> mc_tail (b ! s) < int (length b)" if "s < length b" for s
    using tails_butD(2,3)[OF assms(1), of s] that tail[of s] l assms(4) by simp
  show "int s \<in> mc_seq_id (b ! i) \<longleftrightarrow> mc_tail (b ! s) = int i \<and> s \<notin> {}" if "s < length b" "i < length b" for s i
    using tails_butD(4)[OF assms(1), of s i] tails_butD(4)[OF assms(1,2), of i] that tail[of s] ids[of i] l assms(3) by auto
qed

lemma rec_seq_cp_wf:
  assumes wf: "rec_wf m" and r: "- (2 ^ 31) \<le> src" "src < 2 ^ 31" "- (2 ^ 31) \<le> dst" "dst < 2 ^ 31"
  shows "rec_wf (rec_seq_cp src dst p0 p1 m)"
proof (cases "src \<noteq> dst \<and> seq_u32 dst < rm_size m \<and> seq_u32 src < rm_size m")
  case True
  note w = rec_wfD[OF wf]
  have u: "0 \<le> x \<and> nat x < length (rm_cells m)" if "seq_u32 x < rm_size m" "- (2 ^ 31) \<le> x" "x < 2 ^ 31" for x
  proof (cases "x < 0")
    case True
    have "x mod 2 ^ 32 = x + 2 ^ 32" using that(2) True by (subst mod_add_self2 [symmetric], subst mod_pos_pos_trivial) simp_all
    then show ?thesis using that w(2) by (simp add: seq_u32_def)
  next
    case False
    then show ?thesis using that w(1) seq_u32_small[of x] by simp
  qed
  have d: "0 \<le> dst" "nat dst < length (rm_cells m)" "0 \<le> src" "nat src < length (rm_cells m)" using u True r by blast+
  obtain cs u where f: "drop_tail (nat dst) (rm_cells m, rm_used m) = (cs, u)" "fewer {nat dst} (rm_cells m) cs"
    using drop_tail_fewer[OF w(5) d(2)] by blast
  note l = fewerD(1)[OF f(2)] and t = fewer_tails[OF f(2) w(5)] and s = fewer_sources(1)[OF f(2) w(5,6)]
  let ?tail = "mc_tail (cs ! nat src)"
  have e: "rec_seq_cp src dst p0 p1 m = m\<lparr>rm_cells := (if ?tail \<ge> 0 then upd_cell (nat dst) (\<lambda>c. c\<lparr>mc_tail := ?tail\<rparr>)
      (upd_cell (nat ?tail) (\<lambda>c. c\<lparr>mc_seq_id := insert dst (mc_seq_id c)\<rparr>) cs) else cs), rm_used := u\<rparr>"
    using True by (simp add: rec_seq_cp_def f(1) Let_def)
  show ?thesis
  proof (cases "0 \<le> ?tail")
    case True
    have sl: "nat src < length cs" "nat dst < length cs" using d l by simp_all
    note ti = tail_index[OF t sl(1) True]
    have dt: "mc_tail (cs ! nat dst) = -1" using fewerD(2)[OF f(2), of "nat dst"] d by simp
    have tl: "tails_ok (upd_cell (nat dst) (\<lambda>c. c\<lparr>mc_tail := ?tail\<rparr>) (upd_cell (nat ?tail) (\<lambda>c. c\<lparr>mc_seq_id := insert dst (mc_seq_id c)\<rparr>) cs))"
      using upd_ids_ok[OF t sl(2) dt ti(1)] ti(2) d(1) by simp
    have "int (nat src) \<in> mc_seq_id (cs ! nat ?tail)" using tails_butD(4)[OF t sl(1) ti(1)] ti(2) by simp
    then have "mc_src (cs ! nat ?tail) = int (nat ?tail)" using s ti(1) by (auto simp: sources_ok_def)
    then have "sources_ok (upd_cell (nat dst) (\<lambda>c. c\<lparr>mc_tail := ?tail\<rparr>) (upd_cell (nat ?tail) (\<lambda>c. c\<lparr>mc_seq_id := insert dst (mc_seq_id c)\<rparr>) cs))"
      using s by (auto simp: sources_ok_def)
    then show ?thesis using True tl w l unfolding e by (simp add: rec_wf_def)
  next
    case False
    then show ?thesis using t s w l unfolding e by (simp add: rec_wf_def)
  qed
next
  case False
  then have "rec_seq_cp src dst p0 p1 m = m" by (auto simp: rec_seq_cp_def)
  then show ?thesis using wf by simp
qed

lemma rec_seq_keep_leaves:
  assumes wf: "rec_wf m"
  shows "leaves {t. t < rm_size m \<and> int t \<noteq> s} m (rec_seq_keep s m)"
proof -
  note w = rec_wfD[OF wf]
  let ?X = "{t. t < rm_size m \<and> int t \<noteq> s}" and ?st = "(rm_cells m, rm_used m, rm_size m)"
  have n: "rm_size m \<le> length (fst ?st)" using w(1) by simp
  obtain cs u h where r: "fold (keep_cell (rm_size m) s) [0..<rm_size m] ?st = (cs, u, h)" by (metis surj_pair)
  have c: "length cs = length (rm_cells m)" "\<And>i. i < length (rm_cells m) \<Longrightarrow> cs ! i = keep_of s i (rm_cells m ! i)"
    using cell_fold[of "keep_cell (rm_size m) s" "keep_of s" "rm_size m" ?st, OF keep_cell_at n] r w(1) by simp_all
  have k: "rec_seq_keep s m = set_new_head h (m\<lparr>rm_cells := cs, rm_used := u\<rparr>)" by (simp add: rec_seq_keep_def r)
  have "fewer ?X (rm_cells m) cs" unfolding fewer_def
  proof (intro conjI allI impI)
    show "mc_tail (cs ! i) = (if i \<in> ?X then -1 else mc_tail (rm_cells m ! i))" if "i < length (rm_cells m)" for i
      using c(2)[OF that] that w(1) by (simp add: keep_of_def Let_def)
    fix i assume i: "i < length (rm_cells m)"
    have "mc_seq_id (rm_cells m ! i) - int ` ?X = (if s \<in> mc_seq_id (rm_cells m ! i) then {s} else {})"
    proof -
      have "x \<in> int ` ?X" if x: "x \<in> mc_seq_id (rm_cells m ! i)" "x \<noteq> s" for x
      proof -
        obtain t where "t < length (rm_cells m)" "x = int t" using tails_butD(1)[OF w(5) i x(1)] by blast
        then show ?thesis using x(2) w(1) by simp
      qed
      then show ?thesis by auto
    qed
    then show "mc_seq_id (cs ! i) = mc_seq_id (rm_cells m ! i) - int ` ?X" using c(2)[OF i] by (simp add: keep_of_def Let_def)
    show "mc_src (cs ! i) = mc_src (rm_cells m ! i) \<or> mc_src (cs ! i) = -1" using c(2)[OF i] by (simp add: keep_of_def Let_def)
    show "mc_pos (cs ! i) = mc_pos (rm_cells m ! i)" "mc_src (cs ! i) = mc_src (rm_cells m ! i)" if "mc_seq_id (cs ! i) \<noteq> {}"
      using c(2)[OF i] that by (simp_all add: keep_of_def Let_def split: if_splits)
    show "mc_src (cs ! i) = -1" if "mc_seq_id (cs ! i) = {}"
      using c(2)[OF i] that by (simp add: keep_of_def Let_def split: if_splits)
  qed (rule c(1))
  then show ?thesis unfolding leaves_def k using set_new_head_simps(6)[of h "m\<lparr>rm_cells := cs, rm_used := u\<rparr>"] by simp
qed

lemma map_tail_pos_wf:
  assumes "rec_wf m"
  shows "rec_wf (map_tail_pos s p0 p1 f m)"
  by (rule same_shape_wf[OF assms]) (auto simp: map_tail_pos_def Let_def)

lemma rec_seq_add_wf: "rec_wf m \<Longrightarrow> rec_wf (rec_seq_add s p0 p1 d m)"
  by (simp add: rec_seq_add_def Let_def map_tail_pos_wf)

lemma rec_seq_div_wf: "rec_wf m \<Longrightarrow> rec_wf (rec_seq_div s p0 p1 d m)"
  by (simp add: rec_seq_div_def Let_def map_tail_pos_wf)

lemma s_copy_wf: "rec_wf m \<Longrightarrow> rec_wf (snd (s_copy i m))"
  by (erule same_shape_wf) (auto simp: s_copy_def Let_def)

lemma rec_seq_rm_wf:
  assumes "rec_wf m" "rm_n_seq_max m \<le> rm_size m" "- (2 ^ 31) \<le> s" "s < 2 ^ 31" "rec_seq_rm s p0 p1 m = Inr (b, m')"
  shows "rec_wf m' \<and> rm_size m' = rm_size m \<and> rm_n_seq_max m' = rm_n_seq_max m"
proof (cases "seq_u32 s < rm_n_seq_max m")
  case True
  have small: "rm_n_seq_max m \<le> 2 ^ 31" using rec_wfD(2)[OF assms(1)] assms(2) by simp
  have "0 \<le> s"
  proof (rule ccontr)
    assume "\<not> 0 \<le> s"
    then have "s mod 2 ^ 32 = s + 2 ^ 32" using assms(3) by (subst mod_add_self2 [symmetric], subst mod_pos_pos_trivial) simp_all
    then show False using True small assms(3) by (simp add: seq_u32_def)
  qed
  then have s: "nat s < rm_n_seq_max m" "int (nat s) = s" using True seq_u32_small[of s] assms(4) by simp_all
  obtain ok m1 where "rec_seq_rm s p0 p1 m = Inr (ok, m1)" "rm_outcome (nat s) (clamp_p0 p0) (clamp_p1 p1) m ok m1"
    using seq_rm_cases[OF assms(1) s(1) assms(2), of p0 p1] unfolding s(2) by blast
  then show ?thesis using rm_outcome_wf[OF assms(1), of "nat s"] s(1) assms(2,5) by auto
next
  case False
  then show ?thesis using assms(1,5) by (simp add: rec_seq_rm_def Let_def)
qed

section \<open>Positions\<close>

lemma fold_pos_none: "\<forall>c \<in> set cs. s \<notin> mc_seq_id c \<Longrightarrow> fold (\<lambda>c r. if s \<in> mc_seq_id c then f r (mc_pos c) else r) cs r = r"
  by (induction cs) auto

lemma fold_pos_one:
  assumes "i < length cs" "\<forall>j < length cs. s \<in> mc_seq_id (cs ! j) \<longleftrightarrow> j = i"
  shows "fold (\<lambda>c r. if s \<in> mc_seq_id c then f r (mc_pos c) else r) cs r = f r (mc_pos (cs ! i))"
proof -
  let ?g = "\<lambda>c r. if s \<in> mc_seq_id c then f r (mc_pos c) else r"
  have e: "cs = take i cs @ cs ! i # drop (Suc i) cs" using assms(1) by (simp add: id_take_nth_drop)
  have "\<forall>c \<in> set (take i cs). s \<notin> mc_seq_id c" using assms by (auto simp: in_set_conv_nth)
  moreover have "\<forall>c \<in> set (drop (Suc i) cs). s \<notin> mc_seq_id c" using assms by (auto simp: in_set_conv_nth)
  moreover have "s \<in> mc_seq_id (cs ! i)" using assms by blast
  ultimately have "fold ?g (take i cs @ cs ! i # drop (Suc i) cs) r = f r (mc_pos (cs ! i))"
    unfolding fold_append fold.simps o_apply by (simp add: fold_pos_none)
  then show ?thesis unfolding e[symmetric] .
qed

text \<open>The positions the recurrent memory reports for a sequence are those of the one cell it has: the smallest and the largest
  agree, and they are \<open>-1\<close> for a sequence without a cell.\<close>

theorem rec_seq_pos:
  assumes "rec_wf m" "s < rm_size m" "0 \<le> mc_tail (rm_cells m ! s) \<Longrightarrow> 0 \<le> mc_pos (tail_cell (rm_cells m) s) \<and> mc_pos (tail_cell (rm_cells m) s) < INT32_MAX"
  shows "rec_seq_pos_max (int s) m = (if 0 \<le> mc_tail (rm_cells m ! s) then mc_pos (tail_cell (rm_cells m) s) else -1) \<and>
    rec_seq_pos_min (int s) m = rec_seq_pos_max (int s) m"
proof -
  note w = rec_wfD[OF assms(1)]
  have s: "s < length (rm_cells m)" using assms(2) w(1) by simp
  have "rec_seq_pos_max (int s) m = (if 0 \<le> mc_tail (rm_cells m ! s) then mc_pos (tail_cell (rm_cells m) s) else -1) \<and>
    rec_seq_pos_min (int s) m = (if 0 \<le> mc_tail (rm_cells m ! s) then mc_pos (tail_cell (rm_cells m) s) else -1)"
  proof (cases "0 \<le> mc_tail (rm_cells m ! s)")
    case True
    note ti = tail_index[OF w(5) s True]
    have "\<forall>j < length (rm_cells m). int s \<in> mc_seq_id (rm_cells m ! j) \<longleftrightarrow> j = nat (mc_tail (rm_cells m ! s))"
      using tails_butD(4)[OF w(5) s] ti(2) by (metis empty_iff nat_int)
    note one = fold_pos_one[OF ti(1) this, where f = max] fold_pos_one[OF ti(1) this, where f = min]
    show ?thesis using True assms(3)[OF True] unfolding rec_seq_pos_max_def rec_seq_pos_min_def one by simp
  next
    case False
    have "\<forall>c \<in> set (rm_cells m). int s \<notin> mc_seq_id c"
      using tails_butD(4)[OF w(5) s] False by (force simp: in_set_conv_nth)
    note none = fold_pos_none[OF this, where f = max] fold_pos_none[OF this, where f = min]
    show ?thesis using False unfolding rec_seq_pos_max_def rec_seq_pos_min_def none by simp
  qed
  then show ?thesis by simp
qed

section \<open>Concrete runs\<close>

text \<open>A memory of two cells in which sequence 0 has cell 0 at position 4, and two positions can be rolled back.\<close>

definition rec_one :: llama_memory_recurrent where
  "rec_one = (rec_init 2 2 2)\<lparr>rm_used := 1, rm_cells := [\<lparr>mc_pos = 4, mc_src = 0, mc_src0 = 0, mc_tail = 0, mc_seq_id = {0}\<rparr>, mem_cell_new]\<rparr>"

lemma rec_one_simps [simp]:
  "rm_size rec_one = 2" "rm_used rec_one = 1" "rm_n_seq_max rec_one = 2" "rm_n_rs_seq rec_one = 2" "rm_rs_idx rec_one = [0, 0]" "rm_head rec_one = 0"
  "rm_cells rec_one = [\<lparr>mc_pos = 4, mc_src = 0, mc_src0 = 0, mc_tail = 0, mc_seq_id = {0}\<rparr>, mem_cell_new]"
  by (simp_all add: rec_one_def rec_init_def numeral_2_eq_2)

lemma rec_one_wf: "rec_wf rec_one"
  unfolding rec_wf_def rec_one_simps
  by (auto simp: sources_ok_def mem_cell_new_def less_Suc_eq nth_Cons' intro!: tails_butI split: if_splits)

theorem rec_seq_rm_outcome_witness:
  "(\<exists>m'. rec_seq_rm 0 3 (-1) rec_one = Inr (True, m') \<and> rec_wf m' \<and> mc_pos (rm_cells m' ! 0) = 2 \<and> rm_rs_idx m' ! 0 = 2) \<and>
   (\<exists>m'. rec_seq_rm 0 0 (-1) (rec_one\<lparr>rm_rs_idx := [1, 0]\<rparr>) = Inr (True, m') \<and> mc_seq_id (rm_cells m' ! 0) = {} \<and> rm_used m' = 0 \<and> rm_rs_idx m' = [0, 0])"
proof -
  have "rec_wf (rec_one\<lparr>rm_rs_idx := [1, 0]\<rparr>)" by (rule same_shape_wf[OF rec_one_wf]) simp_all
  from rec_seq_rm_outcome[OF this, of 0 0 "-1"] rec_seq_rm_outcome[OF rec_one_wf, of 0 3 "-1"] show ?thesis
    by (auto simp: rm_outcome_def rm_left_def Let_def clamp_p0_def clamp_p1_def u32_sub_def split: if_splits)
qed

theorem rec_seq_pos_witness: "rec_seq_pos_max 0 rec_one = 4 \<and> rec_seq_pos_min 0 rec_one = 4"
  using rec_seq_pos[OF rec_one_wf, of 0] by simp

end
