(* ===== verification/RecurrentBatch.thy ===== *)
theory RecurrentBatch
  imports RecurrentLoad RecurrentSeq KvInitBatch
begin

text \<open>
  The recurrent memory as a state machine with its invariant, and whole batches: splitting, the dry run of \<open>prepare\<close> and the
  ubatches in turn.
\<close>

section \<open>The dry run\<close>

abbreviation same_frame :: "llama_memory_recurrent \<Rightarrow> llama_memory_recurrent \<Rightarrow> bool" where
  "same_frame m m' \<equiv> rm_size m' = rm_size m \<and> rm_n_seq_max m' = rm_n_seq_max m \<and> rm_n_rs_seq m' = rm_n_rs_seq m \<and> rm_rs_idx m' = rm_rs_idx m"

lemma find_slot_frame:
  assumes "rec_find_slot ub m = Inr (b, m')"
  shows "same_frame m m'"
proof -
  define m0 where "m0 = (if rm_head m > u32 (rm_used m + 2 * ub_n_seqs ub) then m\<lparr>rm_head := 0\<rparr> else m)"
  have f: "same_frame m m0" by (simp add: m0_def)
  obtain ok cs u where c: "check_sets (rm_size m0) (map (set_ids ub) [0..<ub_n_seqs ub]) (rm_cells m0, rm_used m0) = (ok, cs, u)" by (metis surj_pair)
  note go = assms[unfolded rec_find_slot_def Let_def [of "ub_n_seqs ub"], folded m0_def, unfolded Let_def [of m0] c]
  show ?thesis
  proof (cases "ub_equal_seqs ub \<and> ok")
    case False
    then have "m' = m0\<lparr>rm_cells := cs, rm_used := u\<rparr>" using go by (simp split: if_splits)
    then show ?thesis using f by simp
  next
    case True
    then have t: "ub_equal_seqs ub" "ok = True" by simp_all
    show ?thesis
    proof (cases "own_cells ub [0..<ub_n_seqs ub] (cs, first_empty cs (rm_size m0) (rm_head m0), int (rm_size m0) - 1, 0)")
      case (Inl e)
      then show ?thesis using go t by simp
    next
      case (Inr q)
      obtain cs1 n1 lo hi where q: "q = (cs1, n1, lo, hi)" by (metis surj_pair)
      have "\<exists>cs' z h n u. m' = m0\<lparr>rm_cells := cs', rm_rs_z := z, rm_head := h, rm_n := n, rm_used := u\<rparr>"
        using go unfolding t(2) Let_def by (simp only: t(1) Inr q not_True_eq_False if_False prod.case bool.case sum.case)
          (intro exI, auto split: if_splits)
      then show ?thesis using f by auto
    qed
  qed
qed

lemma find_slots_frame: "find_slots ubs m = Inr (b, m') \<Longrightarrow> same_frame m m'"
proof (induction ubs arbitrary: m)
  case (Cons ub ubs)
  show ?case
  proof (cases "rec_find_slot ub m")
    case (Inr p)
    obtain ok m1 where p: "rec_find_slot ub m = Inr (ok, m1)" using Inr by (metis surj_pair)
    note f = find_slot_frame[OF p]
    have "ok \<and> find_slots ubs m1 = Inr (b, m') \<or> m1 = m'" using Cons.prems p by (cases ok) simp_all
    then show ?thesis using f Cons.IH[of m1] by auto
  qed (use Cons.prems in simp)
qed simp

text \<open>The dry run restores the cells, the number of used cells and the head.\<close>

lemma rec_prepare_restores:
  assumes "rec_prepare ubs m = Inr (b, m')"
  shows "same_frame m m' \<and> rm_cells m' = rm_cells m \<and> rm_used m' = rm_used m \<and> rm_head m' = rm_head m"
proof -
  obtain m1 where m1: "find_slots ubs m = Inr (b, m1)" "m' = m1\<lparr>rm_cells := rm_cells m, rm_used := rm_used m, rm_head := rm_head m\<rparr>"
    using assms by (auto simp: rec_prepare_def split: sum.splits)
  show ?thesis using find_slots_frame[OF m1(1)] unfolding m1(2) by simp
qed

lemma rec_prepare_wf:
  assumes "rec_wf m" "rec_prepare ubs m = Inr (b, m')"
  shows "rec_wf m'"
  by (rule same_shape_wf[OF assms(1)]) (use rec_prepare_restores[OF assms(2)] in auto)

lemma rec_init_batch_restores:
  assumes "rec_init_batch n_ubatch embd_all al m = Some (Inr (res, al', m'))"
  shows "same_frame m m' \<and> rm_cells m' = rm_cells m \<and> rm_used m' = rm_used m \<and> rm_head m' = rm_head m"
proof (cases "m' = m")
  case False
  obtain ubs b where "rec_prepare ubs m = Inr (b, m')"
    using assms False unfolding rec_init_batch_def Let_def by (auto split: option.splits sum.splits if_splits)
  then show ?thesis by (rule rec_prepare_restores)
qed simp

lemma rec_init_batch_wf:
  assumes "rec_wf m" "rec_init_batch n_ubatch embd_all al m = Some (Inr (res, al', m'))"
  shows "rec_wf m'"
  by (rule same_shape_wf[OF assms(1)]) (use rec_init_batch_restores[OF assms(2)] in auto)

section \<open>The memory as a state machine\<close>

text \<open>
  One transition per operation that changes the memory. Sequences are 32-bit numbers; \<open>apply\<close> is called on ubatches whose
  sequences the memory knows.
\<close>

abbreviation seq32 :: "llama_seq_id \<Rightarrow> bool" where
  "seq32 s \<equiv> - (2 ^ 31) \<le> s \<and> s < 2 ^ 31"

inductive rec_step :: "llama_memory_recurrent \<Rightarrow> llama_memory_recurrent \<Rightarrow> bool" where
  rec_step_clear: "rec_step m (rec_clear m)"
| rec_step_rm: "seq32 s \<Longrightarrow> rec_seq_rm s p0 p1 m = Inr (b, m') \<Longrightarrow> rec_step m m'"
| rec_step_cp: "seq32 src \<Longrightarrow> seq32 dst \<Longrightarrow> rec_step m (rec_seq_cp src dst p0 p1 m)"
| rec_step_keep: "rec_step m (rec_seq_keep s m)"
| rec_step_add: "rec_step m (rec_seq_add s p0 p1 d m)"
| rec_step_div: "rec_step m (rec_seq_div s p0 p1 d m)"
| rec_step_init_batch: "rec_init_batch n_ubatch embd_all al m = Some (Inr (res, al', m')) \<Longrightarrow> rec_step m m'"
| rec_step_apply: "rc_i_next ctx < length (rc_ubatches ctx) \<Longrightarrow> rec_ubatch_ok (rm_size m) (rc_ubatches ctx ! rc_i_next ctx) \<Longrightarrow>
    rec_context_apply ctx m = Inr m' \<Longrightarrow> rec_step m m'"
| rec_step_copy: "rec_step m (snd (s_copy i m))"

text \<open>Reachable from a memory the constructor built, with a cell for every sequence.\<close>

inductive rec_reachable :: "llama_memory_recurrent \<Rightarrow> bool" where
  rec_reach_init: "n < 2 ^ 31 \<Longrightarrow> n_seq_max \<le> n \<Longrightarrow> rec_reachable (rec_init n n_seq_max n_rs_seq)"
| rec_reach_step: "rec_reachable m \<Longrightarrow> rec_step m m' \<Longrightarrow> rec_reachable m'"

definition rec_inv :: "llama_memory_recurrent \<Rightarrow> bool" where
  "rec_inv m \<longleftrightarrow> rec_wf m \<and> rm_n_seq_max m \<le> rm_size m"

lemma rec_inv_leaves: "rec_inv m \<Longrightarrow> leaves X m m' \<Longrightarrow> rec_inv m'"
  using leaves_wf by (auto simp: rec_inv_def leaves_def)

lemma rec_apply_inv:
  assumes "rec_inv m" "rc_i_next ctx < length (rc_ubatches ctx)" "rec_ubatch_ok (rm_size m) (rc_ubatches ctx ! rc_i_next ctx)" "rec_context_apply ctx m = Inr m'"
  shows "rec_inv m'"
proof -
  have wf: "rec_wf m" using assms(1) by (simp add: rec_inv_def)
  show ?thesis
  proof (rule find_slot_spec[OF wf assms(3)])
    fix m1 assume a: "rec_find_slot (rc_ubatches ctx ! rc_i_next ctx) m = Inr (True, m1)" "rec_wf m1" "rm_size m1 = rm_size m" "rm_n_seq_max m1 = rm_n_seq_max m"
    have "m' = m1" using assms(2,4) a(1) by (auto simp: rec_context_apply_def split: if_splits)
    then show ?thesis using a assms(1) by (simp add: rec_inv_def)
  qed
qed

lemma seq_cp_frame: "same_frame m (rec_seq_cp src dst p0 p1 m)"
proof -
  obtain cs u where d: "drop_tail (nat dst) (rm_cells m, rm_used m) = (cs, u)" by (metis surj_pair)
  show ?thesis unfolding rec_seq_cp_def d Let_def prod.case by simp
qed

lemma rec_step_inv:
  assumes "rec_step m m'" "rec_inv m"
  shows "rec_inv m'"
  using assms(1)
proof cases
  case rec_step_clear
  then show ?thesis using assms(2) rec_clear_wf by (simp add: rec_inv_def) (simp add: rec_clear_def)
next
  case (rec_step_rm s p0 p1 b)
  have "rec_wf m" "rm_n_seq_max m \<le> rm_size m" using assms(2) by (simp_all add: rec_inv_def)
  from rec_seq_rm_wf[OF this _ _ rec_step_rm(2)] show ?thesis using rec_step_rm(1) assms(2) by (simp add: rec_inv_def)
next
  case (rec_step_cp src dst p0 p1)
  have "rec_wf m" using assms(2) by (simp add: rec_inv_def)
  from rec_seq_cp_wf[OF this, of src dst p0 p1] have "rec_wf m'" using rec_step_cp by blast
  moreover have "same_frame m m'" unfolding rec_step_cp(1) by (rule seq_cp_frame)
  ultimately show ?thesis using assms(2) by (simp add: rec_inv_def)
next
  case (rec_step_keep s)
  then show ?thesis using rec_inv_leaves[OF assms(2)] rec_seq_keep_leaves assms(2) by (auto simp: rec_inv_def)
next
  case (rec_step_add s p0 p1 d)
  then show ?thesis using assms(2) rec_seq_add_wf by (simp add: rec_inv_def) (simp add: rec_seq_add_def map_tail_pos_def Let_def)
next
  case (rec_step_div s p0 p1 d)
  then show ?thesis using assms(2) rec_seq_div_wf by (simp add: rec_inv_def) (simp add: rec_seq_div_def map_tail_pos_def Let_def)
next
  case (rec_step_init_batch n_ubatch embd_all al res al')
  then show ?thesis using rec_init_batch_wf rec_init_batch_restores assms(2) by (auto simp: rec_inv_def)
next
  case (rec_step_apply ctx)
  then show ?thesis using rec_apply_inv[OF assms(2)] by blast
next
  case (rec_step_copy i)
  then show ?thesis using assms(2) s_copy_wf by (simp add: rec_inv_def) (simp add: s_copy_def Let_def)
qed

text \<open>C19: in every state the recurrent memory can reach, the tails and the cells agree (a sequence is listed by exactly the cell its
  tail names), a cell of a sequence takes its state from itself, and the head and all tails are in range.\<close>

theorem rec_reachable_wf:
  assumes "rec_reachable m"
  shows "rec_wf m \<and> rm_n_seq_max m \<le> rm_size m"
  using assms
proof induction
  case (rec_reach_init n n_seq_max n_rs_seq)
  then show ?case using rec_init_wf by (simp add: rec_init_def)
next
  case (rec_reach_step m m')
  then show ?case using rec_step_inv by (simp add: rec_inv_def)
qed

section \<open>The ubatches of an accepted batch\<close>

lemma concat_equal_at:
  assumes "\<forall>xs \<in> set xss. length xs = r" "s < length xss" "j < r"
  shows "concat xss ! (s * r + j) = xss ! s ! j"
  using assms
proof (induction xss arbitrary: s)
  case (Cons xs xss)
  then show ?case by (cases s) (auto simp: nth_append)
qed simp

lemma concat_map_distinct:
  assumes "\<And>j. j < n \<Longrightarrow> distinct (f j)" "\<And>i j. i < j \<Longrightarrow> j < n \<Longrightarrow> set (f i) \<inter> set (f j) = {}"
  shows "distinct (concat (map f [0..<n]))"
  using assms
proof (induction n)
  case (Suc n)
  have "set (f i) \<inter> set (f n) = {}" if "i < n" for i using Suc.prems(2)[OF that] by simp
  then have "(\<Union>i \<in> {0..<n}. set (f i)) \<inter> set (f n) = {}" unfolding disjoint_iff by fastforce
  then show ?case using Suc.IH Suc.prems by simp
qed simp

text \<open>A ubatch of an equal split, for the recurrent memory: set \<open>k\<close> has the sequences of the \<open>k\<close>-th chosen set, and its last
  position is that of the last token taken from it.\<close>

lemma equal_rec_ubatch:
  fixes b memory n_embd n_seq_max oa
  assumes wf: "batch_wf b" "ids_ok b n_seq_max" "0 < n_seq_max" "0 < npe" "n_seq_max \<le> n" and d: "\<forall>i < b_n_tokens b. distinct (seqs b i)"
    and t: "takes al Ss r" "unused al \<subseteq> {..<b_n_tokens b}" "\<forall>i < b_n_tokens b. al_seq_set al ! i = set (seqs b i)"
  defines "U \<equiv> fst (ubatch_add (concat (prefixes al Ss (\<lambda>_. r)), length Ss, True) (split_reset (filled npe b memory n_embd n_seq_max oa)))"
  shows "rec_ubatch_ok n U" "ub_n_seqs U = length Ss" "k < length Ss \<Longrightarrow> set_ids U k = map int (seqs b (left al (Ss ! k) ! 0))"
    "k < length Ss \<Longrightarrow> last_pos U k = in_pos b memory ! (left al (Ss ! k) ! (r - 1))"
    "k < length Ss \<Longrightarrow> x \<in> set (take r (left al (Ss ! k))) \<Longrightarrow> x < b_n_tokens b \<and> set (seqs b x) = Ss ! k"
proof -
  let ?P = "prefixes al Ss (\<lambda>_. r)" and ?idxs = "concat (prefixes al Ss (\<lambda>_. r))" and ?N = "length Ss"
  have N: "0 < ?N" "0 < r" "\<And>k. k < ?N \<Longrightarrow> r \<le> length (left al (Ss ! k))" "disjoint_sets_list Ss" using t(1) by (auto simp: takes_def sets_of_unused_def)
  have len: "\<forall>xs \<in> set ?P. length xs = r" using N(3) by (auto simp: prefixes_def min_absorb2)
  have idxs: "length ?idxs = ?N * r" using concat_equal(1)[OF len] by simp
  have at: "?idxs ! (k * r + j) = left al (Ss ! k) ! j" if "k < ?N" "j < r" for k j
    using concat_equal_at[OF len, of k j] that by simp
  show mem: "x < b_n_tokens b \<and> set (seqs b x) = Ss ! k" if "k < ?N" "x \<in> set (take r (left al (Ss ! k)))" for k x
  proof -
    have "x \<in> set (left al (Ss ! k))" using that(2) set_take_subset by fastforce
    then have "x \<in> unused al" "al_seq_set al ! x = Ss ! k" by (simp_all add: left_props(3))
    then show ?thesis using t(2,3) by auto
  qed
  have sub: "set ?idxs \<subseteq> {..<b_n_tokens b}" using mem by (auto simp: in_set_conv_nth[of _ ?P])
  note f = ubatch_add_fields[OF wf(1,2) sub wf(4), where k = ?N and e = True and memory = memory and n_embd = n_embd and oa = oa, folded U_def]
  have tr: "ub_pos (llama_ubatch.truncate U) = ub_pos U" "ub_n_seq_id (llama_ubatch.truncate U) = ub_n_seq_id U"
    "ub_seq_id (llama_ubatch.truncate U) = ub_seq_id U" by (simp_all add: llama_ubatch.truncate_def)
  have g: "ub_equal_seqs U" "ub_n_seqs U = ?N" "ub_n_seq_tokens U = r" using N(1) idxs by (simp_all add: U_def ubatch_add_def Let_def)
  show "ub_n_seqs U = ?N" by (rule g(2))
  have inside: "k * r + j < length ?idxs" if "k < ?N" "j < r" for k j
    using flat_index[OF that] idxs by simp
  have fst_in: "left al (Ss ! k) ! 0 \<in> set (take r (left al (Ss ! k)))" if "k < ?N" for k
  proof -
    have "take r (left al (Ss ! k)) ! 0 \<in> set (take r (left al (Ss ! k)))" using N(2) N(3)[OF that] by (intro nth_mem) simp
    then show ?thesis using N(2) by simp
  qed
  show ids: "set_ids U k = map int (seqs b (left al (Ss ! k) ! 0))" if k: "k < ?N" for k
  proof -
    have i: "k * r < length ?idxs" using inside[OF k N(2)] by simp
    have e: "?idxs ! (k * r) = left al (Ss ! k) ! 0" using at[OF k N(2)] by simp
    show ?thesis using f(3,4)[OF i] unfolding tr e set_ids_def g(3) Let_def by (metis length_map map_nth)
  qed
  show "last_pos U k = in_pos b memory ! (left al (Ss ! k) ! (r - 1))" if k: "k < ?N" for k
  proof -
    have r1: "r - 1 < r" "k * r + r - 1 = k * r + (r - 1)" using N(2) by simp_all
    show ?thesis using f(2)[OF inside[OF k r1(1)]] at[OF k r1(1)] unfolding tr last_pos_def g(3) r1(2) by simp
  qed
  have set_k: "set (seqs b (left al (Ss ! k) ! 0)) = Ss ! k" "left al (Ss ! k) ! 0 < b_n_tokens b" if "k < ?N" for k using mem[OF that fst_in[OF that]] by blast+
  show "rec_ubatch_ok n U" unfolding rec_ubatch_ok_def g
  proof (intro conjI allI impI ballI)
    show "distinct (concat (map (set_ids U) [0..<?N]))"
    proof (rule concat_map_distinct)
      show "distinct (set_ids U j)" if "j < ?N" for j using d set_k(2)[OF that] unfolding ids[OF that] by (simp add: distinct_map)
      show "set (set_ids U i) \<inter> set (set_ids U j) = {}" if ij: "i < j" "j < ?N" for i j
      proof -
        have i: "i < ?N" using ij by simp
        have "Ss ! i \<inter> Ss ! j = {}" using N(4) ij i by (auto simp: disjoint_sets_list_def)
        then show ?thesis unfolding ids[OF i] ids[OF ij(2)] set_map set_k(1)[OF i] set_k(1)[OF ij(2)] by auto
      qed
    qed
    show "set_ids U k \<noteq> []" if "k < ?N" for k using seqs_ok(1)[OF wf(1) set_k(2)[OF that]] unfolding ids[OF that] by simp
    show "seq_in n x" if k: "k < ?N" and x: "x \<in> set (set_ids U k)" for k x
    proof -
      obtain s where "s \<in> set (seqs b (left al (Ss ! k) ! 0))" "x = int s" using x unfolding ids[OF k] by auto
      then show ?thesis using seqs_ok(4)[OF wf(1) set_k(2)[OF k] wf(2,3)] wf(5) by (fastforce simp: seq_in_def)
    qed
  qed (use N(1) g(1) in auto)
qed

section \<open>A whole batch\<close>

text \<open>The tokens \<open>T\<close> are done: every sequence that has one of them stands at the last of them.\<close>

definition stands_at :: "llama_batch \<Rightarrow> llama_pos list \<Rightarrow> nat set \<Rightarrow> llama_memory_recurrent \<Rightarrow> bool" where
  "stands_at b pos T m \<longleftrightarrow> (\<forall>s < rm_size m. let ts = {i \<in> T. s \<in> set (seqs b i)} in
     ts \<noteq> {} \<longrightarrow> 0 \<le> mc_tail (rm_cells m ! s) \<and> mc_pos (tail_cell (rm_cells m) s) = pos ! Max ts)"

text \<open>Each set of a round gives its first tokens, in order; the last of them is the last token of its sequence that is done.\<close>

lemma take_at:
  assumes "takes al Ss r" "k < length Ss" "i < r"
  shows "left al (Ss ! k) ! i \<in> set (take r (left al (Ss ! k)))"
proof -
  have "r \<le> length (left al (Ss ! k))" using assms by (auto simp: takes_def)
  then have "take r (left al (Ss ! k)) ! i \<in> set (take r (left al (Ss ! k)))" using assms(3) by (intro nth_mem) simp
  then show ?thesis using assms(3) by simp
qed

lemma take_last:
  assumes "takes al Ss r" "k < length Ss" "y \<in> set (take r (left al (Ss ! k)))"
  shows "y \<le> left al (Ss ! k) ! (r - 1)"
proof -
  have r: "r \<le> length (left al (Ss ! k))" using assms(1,2) by (auto simp: takes_def)
  obtain i where i: "i < r" "y = left al (Ss ! k) ! i" using assms(3) by (auto simp: in_set_conv_nth)
  show ?thesis
  proof (cases "i = r - 1")
    case False
    then have "left al (Ss ! k) ! i < left al (Ss ! k) ! (r - 1)"
      using i r by (intro sorted_wrt_nth_less[OF left_props(1)]) auto
    then show ?thesis using i by simp
  qed (use i in simp)
qed

lemma used_before:
  assumes "in_order al" "al_n_tokens al = n" "x \<in> set (left al S)" "y < n" "al_used al ! y" "al_seq_set al ! y = S"
  shows "y \<le> x"
proof (rule ccontr)
  assume "\<not> y \<le> x"
  then have "x < y" by simp
  moreover have "al_seq_set al ! x = al_seq_set al ! y" using assms(3,6) by (simp add: left_props(3))
  moreover have "\<And>i j. i < j \<and> j < al_n_tokens al \<and> al_seq_set al ! i = al_seq_set al ! j \<and> al_used al ! j \<Longrightarrow> al_used al ! i"
    using assms(1) unfolding in_order_def by blast
  ultimately have "al_used al ! x" using assms(2,4,5) by metis
  then show False using assms(3) by (simp add: left_props(3) unused_def)
qed

lemma last_done:
  assumes q: "\<forall>i < b_n_tokens b. seqs b i = [q i]" and t: "takes al Ss r" "unused al \<subseteq> {..<b_n_tokens b}"
      "\<forall>i < b_n_tokens b. al_seq_set al ! i = set (seqs b i)" "in_order al" "al_n_tokens al = b_n_tokens b"
    and mem: "\<forall>k < length Ss. \<forall>x \<in> set (take r (left al (Ss ! k))). x < b_n_tokens b \<and> set (seqs b x) = Ss ! k"
    and k: "k < length Ss" "Ss ! k = {s}"
  shows "Max {i \<in> {..<b_n_tokens b} - unused al \<union> set (concat (prefixes al Ss (\<lambda>_. r))). s \<in> set (seqs b i)} = left al (Ss ! k) ! (r - 1)"
    (is "Max ?ts = ?x")
proof (rule Max_eqI)
  show "finite ?ts" by simp
  have "0 < r" using t(1) by (simp add: takes_def)
  then have x: "?x \<in> set (take r (left al (Ss ! k)))" by (intro take_at[OF t(1) k(1)]) simp
  then have xl: "?x \<in> set (left al (Ss ! k))" using set_take_subset by fastforce
  have "?x \<in> set (concat (prefixes al Ss (\<lambda>_. r)))" unfolding prefixes_mem using x k(1) by blast
  moreover have "s \<in> set (seqs b ?x)" using mem x k by blast
  ultimately show "?x \<in> ?ts" by blast
  fix y assume y: "y \<in> ?ts"
  show "y \<le> ?x"
  proof (cases "y \<in> set (concat (prefixes al Ss (\<lambda>_. r)))")
    case True
    then obtain j where j: "j < length Ss" "y \<in> set (take r (left al (Ss ! j)))" unfolding prefixes_mem by blast
    have "y < b_n_tokens b \<and> set (seqs b y) = Ss ! j" using mem j by blast
    then have "Ss ! j = Ss ! k" using y q k(2) by auto
    then show ?thesis using take_last[OF t(1) j] by simp
  next
    case False
    then have y': "y < b_n_tokens b" "y \<notin> unused al" "s \<in> set (seqs b y)" using y by blast+
    have "al_seq_set al ! y = Ss ! k" using t(3) q y' k(2) by simp
    moreover have "al_used al ! y" using y' t(5) by (simp add: unused_def)
    ultimately show ?thesis using used_before[OF t(4,5) xl y'(1)] by blast
  qed
qed

text \<open>One round moves every sequence it names to its last token and leaves the others where they stand.\<close>

lemma stands_step:
  fixes b memory n_embd n_seq_max oa
  assumes wf: "batch_wf b" "ids_ok b n_seq_max" "0 < n_seq_max" "0 < npe" "n_seq_max \<le> rm_size m" "rec_wf m"
    and q: "\<forall>i < b_n_tokens b. seqs b i = [q i]"
    and t: "takes al Ss r" "unused al \<subseteq> {..<b_n_tokens b}" "\<forall>i < b_n_tokens b. al_seq_set al ! i = set (seqs b i)" "in_order al" "al_n_tokens al = b_n_tokens b"
    and T: "T = {..<b_n_tokens b} - unused al" "stands_at b (in_pos b memory) T m"
  defines "U \<equiv> fst (ubatch_add (concat (prefixes al Ss (\<lambda>_. r)), length Ss, True) (split_reset (filled npe b memory n_embd n_seq_max oa)))"
  shows "\<exists>m'. rec_find_slot U m = Inr (True, m') \<and> rec_wf m' \<and> rm_size m' = rm_size m \<and>
    stands_at b (in_pos b memory) (T \<union> set (concat (prefixes al Ss (\<lambda>_. r)))) m'"
proof -
  have d: "\<forall>i < b_n_tokens b. distinct (seqs b i)" using q by simp
  note u = equal_rec_ubatch(1-4)[OF wf(1-5) d t(1-3), where memory = memory and n_embd = n_embd and oa = oa, folded U_def]
    equal_rec_ubatch(5)[OF wf(1-5) d t(1-3)]
  have r: "0 < r" using t(1) by (simp add: takes_def)
  have named: "set_ids U k = [int (q (left al (Ss ! k) ! 0))] \<and> Ss ! k = {q (left al (Ss ! k) ! 0)}" if k: "k < length Ss" for k
  proof -
    note e = u(5)[OF k take_at[OF t(1) k r]]
    have "seqs b (left al (Ss ! k) ! 0) = [q (left al (Ss ! k) ! 0)]" using q e by blast
    then show ?thesis using u(3)[OF k] e by simp
  qed
  have mem: "\<forall>k < length Ss. \<forall>x \<in> set (take r (left al (Ss ! k))). x < b_n_tokens b \<and> set (seqs b x) = Ss ! k" using u(5) by blast
  show ?thesis
  proof (rule find_slot_spec[OF wf(6) u(1)])
    fix m'
    assume run: "rec_find_slot U m = Inr (True, m')" "rec_wf m'" "rm_size m' = rm_size m"
      and tail: "\<And>k x. k < ub_n_seqs U \<Longrightarrow> x \<in> set (set_ids U k) \<Longrightarrow> rec_tail m' (nat x) = int (rm_head m' + k)"
      and pos: "\<And>k. k < ub_n_seqs U \<Longrightarrow> mc_pos (rm_cells m' ! (rm_head m' + k)) = last_pos U k"
      and rest: "\<And>t. t < rm_size m \<Longrightarrow> unnamed U t \<Longrightarrow> (if rec_tail m t < 0 then rec_tail m' t < 0 else 0 \<le> rec_tail m' t \<and> rec_pos m' t = rec_pos m t)"
    have "0 \<le> rec_tail m' s \<and> rec_pos m' s = in_pos b memory ! Max ts"
      if s: "s < rm_size m" and ts: "ts = {i \<in> T \<union> set (concat (prefixes al Ss (\<lambda>_. r))). s \<in> set (seqs b i)}" "ts \<noteq> {}" for s ts
    proof (cases "\<exists>k < length Ss. Ss ! k = {s}")
      case True
      then obtain k where k: "k < length Ss" "Ss ! k = {s}" by blast
      have "int s \<in> set (set_ids U k)" using named[OF k(1)] k(2) by simp
      then have tl: "rec_tail m' s = int (rm_head m' + k)" using tail[of k "int s"] u(2) k(1) by simp
      then have "nat (rec_tail m' s) = rm_head m' + k" by simp
      then show ?thesis using tl pos[of k] u(2,4) k last_done[OF q t mem k] unfolding ts(1) T(1) by simp
    next
      case False
      have un: "unnamed U s" using named False u(2) by auto
      have "s \<notin> set (seqs b y)" if yy: "y \<in> set (concat (prefixes al Ss (\<lambda>_. r)))" for y
      proof -
        obtain j where j: "j < length Ss" "y \<in> set (take r (left al (Ss ! j)))" using yy unfolding prefixes_mem by blast
        show ?thesis using u(5)[OF j] q False j(1) by auto
      qed
      then have "ts = {i \<in> T. s \<in> set (seqs b i)}" unfolding ts(1) by blast
      then have "0 \<le> rec_tail m s \<and> rec_pos m s = in_pos b memory ! Max ts" using T(2) s ts(2) unfolding stands_at_def Let_def by blast
      then show ?thesis using rest[OF s un] by simp
    qed
    then have "stands_at b (in_pos b memory) (T \<union> set (concat (prefixes al Ss (\<lambda>_. r)))) m'" unfolding stands_at_def run(3) Let_def by blast
    then show ?thesis using run by blast
  qed
qed

lemma stands_loop:
  fixes b npe memory n_embd n_seq_max oa
  defines "base \<equiv> split_reset (filled npe b memory n_embd n_seq_max oa)"
  assumes wf: "batch_wf b" "ids_ok b n_seq_max" "0 < n_seq_max" "0 < npe" and q: "\<forall>i < b_n_tokens b. seqs b i = [q i]"
    and sels: "\<forall>k < length sels. \<exists>Ss r. equal_ok n_ubatch seqn n_keep_tail (split_state base (concat (map fst (take k sels)))) \<and>
       equal_selection n_ubatch seqn n_keep_tail (split_state base (concat (map fst (take k sels)))) Ss r \<and>
       sels ! k = (concat (prefixes (split_state base (concat (map fst (take k sels)))) Ss (\<lambda>_. r)), length Ss, True)"
    and j: "j \<le> length sels" and m: "n_seq_max \<le> rm_size m" "rec_wf m" "stands_at b (in_pos b memory) (set (concat (map fst (take j sels)))) m"
    and sub: "set (concat (map fst (take j sels))) \<subseteq> {..<b_n_tokens b}"
  shows "\<exists>m'. find_slots (map (\<lambda>sel. fst (ubatch_add sel base)) (drop j sels)) m = Inr (True, m') \<and> rec_wf m' \<and> rm_size m' = rm_size m \<and>
    stands_at b (in_pos b memory) (set (concat (map fst sels))) m'"
  using j m sub
proof (induction "length sels - j" arbitrary: j m)
  case 0
  then show ?case by simp
next
  case (Suc n)
  then have j: "j < length sels" by simp
  have ok: "al_ok base" unfolding base_def by (rule filled_ready(1)[OF wf(1)])
  define A where "A = split_state base (concat (map fst (take j sels)))"
  obtain Ss r where e: "equal_ok n_ubatch seqn n_keep_tail A" "equal_selection n_ubatch seqn n_keep_tail A Ss r"
      "sels ! j = (concat (prefixes A Ss (\<lambda>_. r)), length Ss, True)"
    using sels j unfolding A_def by blast
  have A: "in_order A" "al_n_tokens A = b_n_tokens b" "\<forall>i < b_n_tokens b. al_seq_set A ! i = set (seqs b i)"
    using e(1) unfolding A_def base_def by (simp_all add: equal_ok_def)
  have t: "takes A Ss r" using e(2) unfolding equal_selection_def by blast
  have u: "unused A \<subseteq> {..<b_n_tokens b}" using A(2) by (auto simp: unused_def)
  have T: "set (concat (map fst (take j sels))) = {..<b_n_tokens b} - unused A"
    using Suc.prems(5) unused_mark[OF ok] unfolding A_def by (auto simp: base_def)
  have U: "fst (ubatch_add (sels ! j) base) = fst (ubatch_add (concat (prefixes A Ss (\<lambda>_. r)), length Ss, True) base)" unfolding e(3) ..
  obtain m1 where m1: "rec_find_slot (fst (ubatch_add (sels ! j) base)) m = Inr (True, m1)" "rec_wf m1" "rm_size m1 = rm_size m"
      "stands_at b (in_pos b memory) (set (concat (map fst (take j sels))) \<union> set (concat (prefixes A Ss (\<lambda>_. r)))) m1"
    using stands_step[OF wf Suc.prems(2,3) q t u A(3,1,2) T Suc.prems(4)] unfolding U unfolding base_def by blast
  have c: "set (concat (map fst (take (Suc j) sels))) = set (concat (map fst (take j sels))) \<union> set (concat (prefixes A Ss (\<lambda>_. r)))"
    unfolding take_Suc_concat[OF j] e(3) fst_conv set_append ..
  have "set (concat (prefixes A Ss (\<lambda>_. r))) \<subseteq> {..<b_n_tokens b}"
  proof
    fix x assume "x \<in> set (concat (prefixes A Ss (\<lambda>_. r)))"
    then obtain s where "s < length Ss" "x \<in> set (take r (left A (Ss ! s)))" unfolding prefixes_mem by blast
    then have "x \<in> unused A" using set_take_subset by (fastforce simp: left_props(3))
    then show "x \<in> {..<b_n_tokens b}" using u by blast
  qed
  then have s: "set (concat (map fst (take (Suc j) sels))) \<subseteq> {..<b_n_tokens b}" unfolding c using Suc.prems(5) by blast
  have "\<exists>m'. find_slots (map (\<lambda>sel. fst (ubatch_add sel base)) (drop (Suc j) sels)) m1 = Inr (True, m') \<and> rec_wf m' \<and> rm_size m' = rm_size m1 \<and>
    stands_at b (in_pos b memory) (set (concat (map fst sels))) m'"
  proof (rule Suc.hyps(1))
    show "n = length sels - Suc j" "Suc j \<le> length sels" "n_seq_max \<le> rm_size m1" using Suc.hyps(2) Suc.prems(2) j m1(3) by simp_all
    show "stands_at b (in_pos b memory) (set (concat (map fst (take (Suc j) sels)))) m1" unfolding c by (rule m1(4))
  qed (rule m1(2) s)+
  moreover have "map (\<lambda>sel. fst (ubatch_add sel base)) (drop j sels) =
      fst (ubatch_add (sels ! j) base) # map (\<lambda>sel. fst (ubatch_add sel base)) (drop (Suc j) sels)"
    unfolding Cons_nth_drop_Suc[OF j, symmetric] by simp
  ultimately show ?case using m1(1,3) by auto
qed

text \<open>The loop of \<open>decode\<close> over the ubatches of a context: apply, compute (left out), next. The first argument bounds the rounds.\<close>

fun rec_decode :: "nat \<Rightarrow> rec_context \<Rightarrow> llama_memory_recurrent \<Rightarrow> (err + llama_memory_recurrent) option" where
  "rec_decode 0 ctx m = None"
| "rec_decode (Suc k) ctx m =
     (case rec_context_apply ctx m of
        Inl e \<Rightarrow> Some (Inl e)
      | Inr m \<Rightarrow> (case rec_context_next ctx of
            Inl e \<Rightarrow> Some (Inl e)
          | Inr (again, ctx) \<Rightarrow> if again then rec_decode k ctx m else Some (Inr m)))"

lemma decode_finds:
  assumes "i < length ubs" "find_slots (drop i ubs) m = Inr (True, m')"
  shows "rec_decode (length ubs - i) ((rec_context_batch ubs)\<lparr>rc_i_next := i\<rparr>) m = Some (Inr m')"
  using assms
proof (induction "length ubs - i" arbitrary: i m)
  case (Suc n)
  have d: "drop i ubs = ubs ! i # drop (Suc i) ubs" using Suc.prems(1) by (simp add: Cons_nth_drop_Suc)
  obtain m1 where m1: "rec_find_slot (ubs ! i) m = Inr (True, m1)" "find_slots (drop (Suc i) ubs) m1 = Inr (True, m')"
    using Suc.prems(2) unfolding d by (auto split: sum.splits prod.splits bool.splits)
  have a: "rec_context_apply ((rec_context_batch ubs)\<lparr>rc_i_next := i\<rparr>) m = Inr m1"
    using Suc.prems(1) m1(1) by (auto simp: rec_context_apply_def rec_context_batch_def rec_context_status_def)
  have nx: "rec_context_next ((rec_context_batch ubs)\<lparr>rc_i_next := i\<rparr>) = Inr (Suc i < length ubs, (rec_context_batch ubs)\<lparr>rc_i_next := Suc i\<rparr>)"
    by (simp add: rec_context_next_def rec_context_batch_def rec_context_status_def)
  show ?case
  proof (cases "Suc i < length ubs")
    case True
    then have "rec_decode (length ubs - Suc i) ((rec_context_batch ubs)\<lparr>rc_i_next := Suc i\<rparr>) m1 = Some (Inr m')"
      using Suc.hyps(2) m1(2) by (intro Suc.hyps(1)) auto
    moreover have "length ubs - i = Suc (length ubs - Suc i)" using Suc.prems(1) by simp
    ultimately show ?thesis using a nx True by simp
  next
    case False
    then have "m' = m1" using m1(2) by simp
    moreover have "length ubs - i = Suc 0" using Suc.prems(1) False by simp
    ultimately show ?thesis using a nx False by simp
  qed
qed simp

lemma same_shape_cells:
  assumes "rec_wf m" "same_frame m m'" "rm_cells m' = rm_cells m" "rm_head m' = rm_head m"
  shows "rec_wf m'"
  by (rule same_shape_wf[OF assms(1)]) (use assms(2-4) in auto)

lemma coupled_refused:
  assumes "al_has_cpl al"
  shows "split_loop (Suc n) (split_equal n_ubatch True keep) al = Some (Inr ([], al))"
proof -
  have "split_equal n_ubatch True keep al = Inr (None, al)" using assms by (simp add: split_equal_def select_equal_def add_selection_def)
  then show ?thesis by simp
qed

lemma uncoupled_single:
  assumes "batch_wf b" "\<not> (\<exists>i < b_n_tokens b. 1 < length (seqs b i))"
  shows "\<forall>i < b_n_tokens b. seqs b i = [hd (seqs b i)]"
proof (intro allI impI)
  fix i assume i: "i < b_n_tokens b"
  then have "seqs b i \<noteq> []" "\<not> 1 < length (seqs b i)" using seqs_ok(1)[OF assms(1) i] assms(2) by blast+
  then show "seqs b i = [hd (seqs b i)]" by (cases "seqs b i") auto
qed

text \<open>Where the slots can be found from every well-formed state, the dry run succeeds and the ubatches can be applied.\<close>

lemma prepare_decodes:
  assumes "rec_wf m" "ubs \<noteq> []" and run: "\<forall>m1. rec_wf m1 \<and> rm_size m1 = rm_size m \<longrightarrow> (\<exists>m2. find_slots ubs m1 = Inr (True, m2) \<and> P m2)"
  obtains m' m'' where "rec_prepare ubs m = Inr (True, m')" "rm_cells m' = rm_cells m"
    "rec_decode (length ubs) (rec_context_batch ubs) m' = Some (Inr m'')" "P m''"
proof -
  obtain m1 where m1: "find_slots ubs m = Inr (True, m1)" using run assms(1) by blast
  define m' where "m' = m1\<lparr>rm_cells := rm_cells m, rm_used := rm_used m, rm_head := rm_head m\<rparr>"
  have p: "rec_prepare ubs m = Inr (True, m')" by (simp add: rec_prepare_def m1 m'_def)
  note re = rec_prepare_restores[OF p]
  obtain m'' where m'': "find_slots ubs m' = Inr (True, m'')" "P m''" using run rec_prepare_wf[OF assms(1) p] re by blast
  have "(rec_context_batch ubs)\<lparr>rc_i_next := 0\<rparr> = rec_context_batch ubs" by (simp add: rec_context_batch_def rec_context_status_def)
  then have "rec_decode (length ubs) (rec_context_batch ubs) m' = Some (Inr m'')"
    using decode_finds[of 0 ubs m' m''] m''(1) assms(2) by simp
  then show ?thesis using that[OF p _ _ m''(2)] re by blast
qed

text \<open>C3: the recurrent memory processes every accepted batch whose sequences it knows, when not all tokens are outputs (\<open>embd_all\<close> is
  false, so batches are split evenly) and the rollback window is off or its tail shorter than a ubatch (\<open>n_rs_seq = 0\<close> or
  \<open>n_rs_seq + 1 < n_ubatch\<close>). A batch with coupled sequences is refused at once. Otherwise \<open>init_batch\<close> succeeds: its ubatches
  are made of selections that deal every token to exactly one of them, and the cells are left as they were; and when the ubatches have been applied in turn,
  every sequence of the batch has a cell, at the position of its last token in the batch.\<close>

theorem rec_batch_positions:
  assumes "batch_wf b" "batch_init npe b n_vocab memory n_embd n_seq_max output_all = Inr al" "0 < n_seq_max" "0 < npe"
    and "rec_wf m" "n_seq_max \<le> rm_size m" "rm_n_rs_seq m = 0 \<or> rm_n_rs_seq m + 1 < n_ubatch"
  shows "if al_has_cpl al then rec_init_batch n_ubatch False al m = Some (Inr (None, al, m))
    else \<exists>ubs al' m' m''. rec_init_batch n_ubatch False al m = Some (Inr (Some ubs, al', m')) \<and> al_n_used al' = b_n_tokens b \<and>
      sum_list (map ub_n_tokens ubs) = b_n_tokens b \<and> deals b al ubs \<and> rm_cells m' = rm_cells m \<and>
      rec_decode (length ubs) (rec_context_batch ubs) m' = Some (Inr m'') \<and> rec_wf m'' \<and>
      (\<forall>i < b_n_tokens b. \<forall>s \<in> set (seqs b i). 0 \<le> rec_tail m'' s \<and>
         rec_pos m'' s = al_pos al ! Max {j. j < b_n_tokens b \<and> s \<in> set (seqs b j)})"
proof -
  note r = accepted_ready[OF assms(1,2)]
  let ?keep = "if 0 < rm_n_rs_seq m then rm_n_rs_seq m + 1 else 0"
  have sp: "rec_split n_ubatch False True (rm_n_rs_seq m) = split_equal n_ubatch True ?keep" by (rule ext) (simp add: rec_split_def)
  show ?thesis
  proof (cases "al_has_cpl al")
    case True
    have "rec_init_batch n_ubatch False al m = Some (Inr (None, al, m))"
      unfolding rec_init_batch_def Let_def r(2,3) sp coupled_refused[OF True] using r(3,4,10) by simp
    then show ?thesis using True by simp
  next
    case False
    have k: "\<not> (True \<and> al_has_cpl al)" "?keep = 0 \<or> ?keep < n_ubatch" using False assms(7) by auto
    obtain sels where sels: "split_loop (Suc (b_n_tokens b)) (split_equal n_ubatch True ?keep) al =
        Some (Inr (map (\<lambda>sel. fst (ubatch_add sel al)) sels, split_state al (concat (map fst sels))))"
        "distinct (concat (map fst sels))" "set (concat (map fst sels)) = {..<b_n_tokens b}"
        "\<forall>k < length sels. \<exists>Ss r. equal_ok n_ubatch True ?keep (split_state al (concat (map fst (take k sels)))) \<and>
           equal_selection n_ubatch True ?keep (split_state al (concat (map fst (take k sels)))) Ss r \<and>
           sels ! k = (concat (prefixes (split_state al (concat (map fst (take k sels)))) Ss (\<lambda>_. r)), length Ss, True)"
      using equal_loop_sels[OF assms(1,2) k] by (elim exE conjE)
    define ubs where "ubs = map (\<lambda>sel. fst (ubatch_add sel al)) sels"
    note q = uncoupled_single[OF assms(1) False[unfolded r(11)]]
    have ne: "ubs \<noteq> []" using sels(3) r(4) by (auto simp: ubs_def)
    let ?placed = "\<lambda>m2. rec_wf m2 \<and> rm_size m2 = rm_size m \<and> stands_at b (in_pos b memory) {..<b_n_tokens b} m2"
    have run: "\<forall>m1. rec_wf m1 \<and> rm_size m1 = rm_size m \<longrightarrow> (\<exists>m2. find_slots ubs m1 = Inr (True, m2) \<and> ?placed m2)"
    proof (intro allI impI)
      fix m1 assume w: "rec_wf m1 \<and> rm_size m1 = rm_size m"
      then have w': "n_seq_max \<le> rm_size m1" "rec_wf m1" using assms(6) by simp_all
      have "stands_at b (in_pos b memory) (set (concat (map fst (take 0 sels)))) m1" by (simp add: stands_at_def)
      from stands_loop[OF assms(1) r(9) assms(3,4) q sels(4)[unfolded r(1)] _ w' this] show "\<exists>m2. find_slots ubs m1 = Inr (True, m2) \<and> ?placed m2"
        using w unfolding ubs_def sels(3) r(1) by simp
    qed
    obtain m' m'' where m': "rec_prepare ubs m = Inr (True, m')" "rm_cells m' = rm_cells m"
        "rec_decode (length ubs) (rec_context_batch ubs) m' = Some (Inr m'')" "?placed m''"
      by (rule prepare_decodes[OF assms(5) ne run])
    have n: "length (concat (map fst sels)) = b_n_tokens b" using distinct_card[OF sels(2)] unfolding sels(3) by simp
    have used: "al_n_used (split_state al (concat (map fst sels))) = b_n_tokens b" "al_n_tokens (split_state al (concat (map fst sels))) = b_n_tokens b"
      using n r(3,10) by simp_all
    have init: "rec_init_batch n_ubatch False al m = Some (Inr (Some ubs, split_state al (concat (map fst sels)), m'))"
      unfolding rec_init_batch_def Let_def r(2,3) sp sels(1) using used m'(1) by (simp add: ubs_def)
    have tok: "sum_list (map ub_n_tokens ubs) = b_n_tokens b" using n by (simp add: ubs_def o_def ubatch_add_state length_concat)
    have at: "0 \<le> rec_tail m'' s \<and> rec_pos m'' s = al_pos al ! Max {j. j < b_n_tokens b \<and> s \<in> set (seqs b j)}"
      if i: "i < b_n_tokens b" "s \<in> set (seqs b i)" for i s
    proof -
      have "s < rm_size m''" using seqs_ok(4)[OF assms(1) i(1) r(9) assms(3) i(2)] assms(6) m'(4) by simp
      moreover have "{j \<in> {..<b_n_tokens b}. s \<in> set (seqs b j)} = {j. j < b_n_tokens b \<and> s \<in> set (seqs b j)}" by blast
      moreover have "al_pos al = in_pos b memory" unfolding r(1) by simp
      ultimately show ?thesis using m'(4) i unfolding stands_at_def Let_def by force
    qed
    have part: "deals b al ubs" unfolding deals_def using sels(2,3) ubs_def by blast
    show ?thesis unfolding if_not_P[OF False] using init used(1) tok part m' at by blast
  qed
qed

section \<open>Concrete runs\<close>

text \<open>A ubatch with one token for each of two sequences, the new sequence 1 before sequence 0, for \<open>rec_one\<close>.\<close>

definition ub_swapped :: llama_ubatch_full where
  "ub_swapped = \<lparr>ub_n_tokens = 2, ub_n_seqs_unq = 2, ub_n_pos = 1, ub_token = Some [3, 4], ub_pos = [0, 5], ub_n_seq_id = [1, 1],
     ub_seq_id = [[1], [0]], ub_seq_id_unq = [0, 1], ub_equal_seqs = True, ub_n_seq_tokens = 1, ub_n_seqs = 2, ub_embd = None,
     ub_seq_idx = [1, 0], ub_output = [0, 1]\<rparr>"

lemma ub_swapped_simps [simp]:
  "ub_n_seqs ub_swapped = 2" "set_ids ub_swapped 0 = [1]" "set_ids ub_swapped (Suc 0) = [0]" "first_id ub_swapped 0 = 1" "first_id ub_swapped (Suc 0) = 0"
  "last_pos ub_swapped 0 = 0" "last_pos ub_swapped (Suc 0) = 5" "ub_equal_seqs ub_swapped"
  by (simp_all add: ub_swapped_def set_ids_def first_id_def last_pos_def)

lemma below_two: "(\<forall>k < 2 :: nat. P k) \<longleftrightarrow> P 0 \<and> P (Suc 0)"
  by (auto simp: less_2_cases_iff)

lemma ub_swapped_ok: "rec_ubatch_ok 2 ub_swapped" "shared_ids ub_swapped = {}"
proof -
  have "concat (map (set_ids ub_swapped) [0..<ub_n_seqs ub_swapped]) = [1, 0]" by (simp add: upt_rec)
  then show "rec_ubatch_ok 2 ub_swapped" unfolding rec_ubatch_ok_def ub_swapped_simps(1) below_two by (simp add: seq_in_def)
  have "{..<ub_n_seqs ub_swapped} = {0, Suc 0}" by auto
  then show "shared_ids ub_swapped = {}" by (simp add: shared_ids_def)
qed

theorem rec_find_slot_places_witness:
  "\<exists>m'. rec_find_slot ub_swapped rec_one = Inr (True, m') \<and> mc_pos (rm_cells m' ! Suc (rm_head m')) = 5 \<and> rec_tail m' 0 = int (Suc (rm_head m'))"
proof -
  have "rec_ubatch_ok (rm_size rec_one) ub_swapped" using ub_swapped_ok by simp
  from rec_find_slot_places[OF rec_one_wf this] show ?thesis unfolding ub_swapped_simps(1) below_two by auto
qed

theorem rec_states_follow_witness:
  "\<exists>m' out st' m''. rec_find_slot ub_swapped (rec_one\<lparr>rm_rs_idx := [1, 0]\<rparr>) = Inr (True, m') \<and>
     load_states 0 (rec_context_batch []) 2 m' (\<lambda>r. int r + 10) = (out, st', m'') \<and> out ! 0 = 0 \<and> out ! 1 = 12"
proof -
  let ?m = "rec_one\<lparr>rm_rs_idx := [1, 0]\<rparr>"
  have "rec_wf ?m" using rec_one_wf by (simp add: rec_wf_def)
  moreover have "rec_ubatch_ok (rm_size ?m) ub_swapped" using ub_swapped_ok by simp
  moreover have "rows_ok ?m" by (simp add: rows_ok_def)
  moreover have "rollbacks_own ?m" by (auto simp: rollbacks_own_def rollback_def sole_def mem_cell_new_def less_Suc_eq nth_Cons' split: if_splits)
  moreover have "sets_unrolled ub_swapped ?m" unfolding sets_unrolled_def ub_swapped_simps(1) below_two by simp
  moreover have "spare_zero (0 :: int) (\<lambda>r. int r + 10) (rm_cells ?m)" by (auto simp: spare_zero_def mem_cell_new_def less_Suc_eq nth_Cons')
  moreover have "\<not> rc_is_full (rec_context_batch [])" by (simp add: rec_context_batch_def rec_context_status_def)
  moreover have "rec_tail ?m 0 = 0" "rec_tail ?m 1 = -1" "state_row ?m 0 = 2" by (simp_all add: mem_cell_new_def state_row_def rollback_def)
  ultimately show ?thesis
    using rec_states_follow[of ?m ub_swapped 0 "\<lambda>r. int r + 10" "rec_context_batch []"] unfolding ub_swapped_simps(1) below_two by auto
qed

theorem rec_reachable_wf_witness: "rec_wf (rec_seq_cp 0 1 0 (-1) (rec_clear (rec_init 2 2 0)))"
proof -
  have "rec_reachable (rec_init 2 2 0)" by (rule rec_reach_init) simp_all
  then have "rec_reachable (rec_clear (rec_init 2 2 0))" by (rule rec_reach_step) (rule rec_step_clear)
  then have "rec_reachable (rec_seq_cp 0 1 0 (-1) (rec_clear (rec_init 2 2 0)))" by (rule rec_reach_step) (rule rec_step_cp, simp_all)
  from rec_reachable_wf[OF this] show ?thesis by blast
qed

theorem rec_batch_positions_witness:
  "\<exists>ubs al' m' m''. rec_init_batch 4 False al_two (rec_init 2 2 0) = Some (Inr (Some ubs, al', m')) \<and>
     rec_decode (length ubs) (rec_context_batch ubs) m' = Some (Inr m'') \<and> 0 \<le> rec_tail m'' 1"
proof -
  have wf: "rec_wf (rec_init 2 2 0)" by (rule rec_init_wf) simp
  have s: "1 < b_n_tokens b_two" "1 \<in> set (seqs b_two 1)" using b_two_facts by simp_all
  have "rm_n_rs_seq (rec_init 2 2 0) = 0" "2 \<le> rm_size (rec_init 2 2 0)" by (simp_all add: rec_init_def)
  then obtain ubs al' m' m'' where r: "rec_init_batch 4 False al_two (rec_init 2 2 0) = Some (Inr (Some ubs, al', m'))"
      "rec_decode (length ubs) (rec_context_batch ubs) m' = Some (Inr m'')"
      "\<forall>i < b_n_tokens b_two. \<forall>s \<in> set (seqs b_two i). 0 \<le> rec_tail m'' s \<and>
         rec_pos m'' s = al_pos al_two ! Max {j. j < b_n_tokens b_two \<and> s \<in> set (seqs b_two j)}"
    using rec_batch_positions[OF b_two_facts(1) al_two_ok(1) _ _ wf, of 4, unfolded if_not_P[OF al_two_ok(2)]] by auto
  then show ?thesis using s by blast
qed

end
