(* ===== verification/Hybrid.thy ===== *)
theory Hybrid
  imports RecurrentBatch
begin

text \<open>
  The memory of models with attention and recurrent layers (\<open>engine/src/llama-memory-hybrid.cpp\<close>): a KV cache and a recurrent memory
  that are driven by the same operations and the same ubatches, and the contexts over both.
\<close>

section \<open>The two memories\<close>

record llama_memory_hybrid =
  hy_attn :: llama_kv_cache
  hy_recr :: llama_memory_recurrent

definition hybrid_init :: "kv_hparams \<Rightarrow> bool \<Rightarrow> nat \<Rightarrow> nat \<Rightarrow> nat \<Rightarrow> nat \<Rightarrow> llama_swa_type \<Rightarrow> float32 \<Rightarrow> int \<Rightarrow> nat \<Rightarrow> nat \<Rightarrow> err + llama_memory_hybrid" where
  "hybrid_init hparams unified kv_size n_seq_max n_pad n_swa swa_type floor_sc protect rs_size n_rs_seq =
     (case kv_init hparams None unified kv_size n_seq_max n_pad n_swa swa_type floor_sc protect of
        Inl e \<Rightarrow> Inl e
      | Inr attn \<Rightarrow> Inr \<lparr>hy_attn = attn, hy_recr = rec_init rs_size n_seq_max n_rs_seq\<rparr>)"

definition hybrid_clear :: "llama_memory_hybrid \<Rightarrow> llama_memory_hybrid" where
  "hybrid_clear m = m\<lparr>hy_attn := kv_clear (hy_attn m), hy_recr := rec_clear (hy_recr m)\<rparr>"

text \<open>Removal asks the recurrent memory first, and the KV cache only if it agrees.\<close>

definition hybrid_seq_rm :: "llama_seq_id \<Rightarrow> llama_pos \<Rightarrow> llama_pos \<Rightarrow> llama_memory_hybrid \<Rightarrow> err + bool \<times> llama_memory_hybrid" where
  "hybrid_seq_rm seq_id p0 p1 m =
     (case rec_seq_rm seq_id p0 p1 (hy_recr m) of
        Inl e \<Rightarrow> Inl e
      | Inr (False, recr) \<Rightarrow> Inr (False, m\<lparr>hy_recr := recr\<rparr>)
      | Inr (True, recr) \<Rightarrow>
          (case kv_seq_rm seq_id p0 p1 (hy_attn m) of
             Inl e \<Rightarrow> Inl e
           | Inr (res, attn) \<Rightarrow> Inr (res, m\<lparr>hy_recr := recr, hy_attn := attn\<rparr>)))"

text \<open>An operation on the KV cache, then one on the recurrent memory.\<close>

definition hybrid_both :: "(llama_kv_cache \<Rightarrow> err + llama_kv_cache) \<Rightarrow> (llama_memory_recurrent \<Rightarrow> llama_memory_recurrent) \<Rightarrow>
    llama_memory_hybrid \<Rightarrow> err + llama_memory_hybrid" where
  "hybrid_both f g m = (case f (hy_attn m) of Inl e \<Rightarrow> Inl e | Inr attn \<Rightarrow> Inr (m\<lparr>hy_attn := attn, hy_recr := g (hy_recr m)\<rparr>))"

definition hybrid_seq_cp :: "llama_seq_id \<Rightarrow> llama_seq_id \<Rightarrow> llama_pos \<Rightarrow> llama_pos \<Rightarrow> llama_memory_hybrid \<Rightarrow> err + llama_memory_hybrid" where
  "hybrid_seq_cp src dst p0 p1 = hybrid_both (kv_seq_cp src dst p0 p1) (rec_seq_cp src dst p0 p1)"

definition hybrid_seq_keep :: "llama_seq_id \<Rightarrow> llama_memory_hybrid \<Rightarrow> err + llama_memory_hybrid" where
  "hybrid_seq_keep seq_id = hybrid_both (kv_seq_keep seq_id) (rec_seq_keep seq_id)"

definition hybrid_seq_add :: "llama_seq_id \<Rightarrow> llama_pos \<Rightarrow> llama_pos \<Rightarrow> llama_pos \<Rightarrow> llama_memory_hybrid \<Rightarrow> err + llama_memory_hybrid" where
  "hybrid_seq_add seq_id p0 p1 shift = hybrid_both (kv_seq_add seq_id p0 p1 shift) (rec_seq_add seq_id p0 p1 shift)"

definition hybrid_seq_div :: "llama_seq_id \<Rightarrow> llama_pos \<Rightarrow> llama_pos \<Rightarrow> int \<Rightarrow> llama_memory_hybrid \<Rightarrow> err + llama_memory_hybrid" where
  "hybrid_seq_div seq_id p0 p1 d = hybrid_both (kv_seq_div seq_id p0 p1 d) (rec_seq_div seq_id p0 p1 d)"

definition hybrid_seq_pos_min :: "llama_seq_id \<Rightarrow> llama_memory_hybrid \<Rightarrow> err + llama_pos" where
  "hybrid_seq_pos_min seq_id m =
     (case kv_seq_pos_min seq_id (hy_attn m) of Inl e \<Rightarrow> Inl e | Inr p \<Rightarrow> Inr (max p (rec_seq_pos_min seq_id (hy_recr m))))"

definition hybrid_seq_pos_max :: "llama_seq_id \<Rightarrow> llama_memory_hybrid \<Rightarrow> err + llama_pos" where
  "hybrid_seq_pos_max seq_id m =
     (case kv_seq_pos_max seq_id (hy_attn m) of Inl e \<Rightarrow> Inl e | Inr p \<Rightarrow> Inr (min p (rec_seq_pos_max seq_id (hy_recr m))))"

section \<open>Contexts and batches\<close>

record hybrid_context =
  hc_status :: llama_memory_status
  hc_ubatches :: "llama_ubatch_full list"
  hc_i_next :: nat
  hc_attn :: kv_context
  hc_recr :: rec_context

definition hybrid_context_of :: "llama_ubatch_full list \<Rightarrow> kv_context \<Rightarrow> rec_context \<Rightarrow> hybrid_context" where
  "hybrid_context_of ubatches attn recr =
     \<lparr>hc_status = llama_memory_status_combine (kc_status attn) (rc_status recr), hc_ubatches = ubatches, hc_i_next = 0,
      hc_attn = attn, hc_recr = recr\<rparr>"

text \<open>A failed context has no contexts of the memories; they are given the failed status.\<close>

definition hybrid_context_failed :: "llama_memory_status \<Rightarrow> hybrid_context" where
  "hybrid_context_failed status =
     \<lparr>hc_status = status, hc_ubatches = [], hc_i_next = 0, hc_attn = context_status status, hc_recr = rec_context_status status\<rparr>"

definition hybrid_init_full :: "llama_memory_hybrid \<Rightarrow> hybrid_context" where
  "hybrid_init_full m = hybrid_context_of [] (context_full (hy_attn m)) rec_context_full"

definition hybrid_init_update :: "llama_memory_hybrid \<Rightarrow> hybrid_context \<times> llama_memory_hybrid" where
  "hybrid_init_update m =
     (let ((shift, ssrc, sdst), attn) = init_update (hy_attn m)
      in (hybrid_context_of [] (context_update shift (ssrc, sdst)) (rec_context_status STATUS_NO_UPDATE), m\<lparr>hy_attn := attn\<rparr>))"

text \<open>The splits follow the recurrent memory, not sequential when the KV cache is unified.\<close>

definition hybrid_init_batch :: "((float32 \<times> nat) list \<Rightarrow> (float32 \<times> nat) list) \<Rightarrow> bool \<Rightarrow> nat \<Rightarrow> bool \<Rightarrow> llama_batch_allocr \<Rightarrow> llama_memory_hybrid \<Rightarrow>
    (err + hybrid_context \<times> llama_batch_allocr \<times> llama_memory_hybrid) option" where
  "hybrid_init_batch srt sparse n_ubatch embd_all al m =
     (let al = split_reset al; unified = (kv_n_stream (hy_attn m) = 1); failed = hybrid_context_failed STATUS_FAILED_PREPARE in
      case split_loop (Suc (al_n_tokens al)) (rec_split n_ubatch embd_all (\<not> unified) (rm_n_rs_seq (hy_recr m))) al of
        None \<Rightarrow> None
      | Some (Inl e) \<Rightarrow> Some (Inl Assert_failed)
      | Some (Inr (ubatches, al)) \<Rightarrow>
          if al_n_used al < al_n_tokens al then Some (Inr (failed, al, m))
          else case rec_prepare ubatches (hy_recr m) of
            Inl e \<Rightarrow> Some (Inl e)
          | Inr (False, recr) \<Rightarrow> Some (Inr (failed, al, m\<lparr>hy_recr := recr\<rparr>))
          | Inr (True, recr) \<Rightarrow>
              let m = m\<lparr>hy_recr := recr\<rparr> in
              (case prepare srt sparse (map llama_ubatch.truncate ubatches) (hy_attn m) of
                 None \<Rightarrow> None
               | Some (Inl e) \<Rightarrow> Some (Inl e)
               | Some (Inr (heads_attn, attn)) \<Rightarrow>
                   let m = m\<lparr>hy_attn := attn\<rparr> in
                   if heads_attn = [] then Some (Inr (failed, al, m))
                   else Some (Inr (hybrid_context_of ubatches (context_batch heads_attn ubatches) (rec_context_batch ubatches), al, m))))"

definition hybrid_context_next :: "hybrid_context \<Rightarrow> err + bool \<times> hybrid_context" where
  "hybrid_context_next ctx =
     (if hc_status ctx \<noteq> STATUS_SUCCESS then Inl Assert_failed
      else case context_next (hc_attn ctx) of
        Inl e \<Rightarrow> Inl e
      | Inr (_, ca) \<Rightarrow>
          (case rec_context_next (hc_recr ctx) of
             Inl e \<Rightarrow> Inl e
           | Inr (_, cr) \<Rightarrow>
               let ctx = ctx\<lparr>hc_attn := ca, hc_recr := cr, hc_i_next := hc_i_next ctx + 1\<rparr>
               in Inr (hc_i_next ctx < length (hc_ubatches ctx), ctx)))"

definition hybrid_context_apply :: "update_env \<Rightarrow> hybrid_context \<Rightarrow> llama_memory_hybrid \<Rightarrow> err + hybrid_context \<times> llama_memory_hybrid" where
  "hybrid_context_apply up ctx m =
     (if llama_memory_status_is_fail (hc_status ctx) then Inl Assert_failed
      else case context_apply up (hc_attn ctx) (hy_attn m) of
        Inl e \<Rightarrow> Inl e
      | Inr (ca, attn) \<Rightarrow>
          (case rec_context_apply (hc_recr ctx) (hy_recr m) of
             Inl e \<Rightarrow> Inl e
           | Inr recr \<Rightarrow> Inr (ctx\<lparr>hc_attn := ca\<rparr>, m\<lparr>hy_attn := attn, hy_recr := recr\<rparr>)))"

section \<open>Removal\<close>

text \<open>Nothing of sequence \<open>s\<close> is held from position \<open>p\<close> on.\<close>

definition none_from :: "nat \<Rightarrow> llama_pos \<Rightarrow> llama_memory_hybrid \<Rightarrow> bool" where
  "none_from s p m \<longleftrightarrow> (\<forall>q i. (s, q, i) \<in> kv_view (hy_attn m) (kv_seq_to_stream (hy_attn m) ! s) \<longrightarrow> q < p) \<and>
     (rec_tail (hy_recr m) s < 0 \<or> rec_pos (hy_recr m) s < p)"

lemma rm_outcome_none:
  assumes "rec_wf m" "s < rm_size m" "rm_outcome s p0 INT32_MAX m True m'" "0 \<le> rec_tail m s \<Longrightarrow> rec_pos m s < INT32_MAX"
  shows "rec_tail m' s < 0 \<or> rec_pos m' s < p0"
proof -
  note w = rec_wfD[OF assms(1)]
  have s: "s < length (rm_cells m)" using assms(2) w(1) by simp
  let ?rolled = "m\<lparr>rm_rs_idx := (rm_rs_idx m)[s := nat (rec_pos m s - (p0 - 1))], rm_cells := upd_cell (nat (rec_tail m s)) (\<lambda>c. c\<lparr>mc_pos := p0 - 1\<rparr>) (rm_cells m)\<rparr>"
  consider (nothing) "rec_tail m s < 0 \<or> \<not> (p0 \<le> rec_pos m s \<and> rec_pos m s < INT32_MAX)" "rm_cells m' = rm_cells m"
    | (gone) "leaves {s} m m'" | (rolled) "0 \<le> rec_tail m s" "m' = ?rolled"
    using rm_outcome_cells[OF assms(1-3)] by (fastforce split: if_splits)
  then show ?thesis
  proof cases
    case nothing
    then show ?thesis using assms(4) by force
  next
    case gone
    have f: "fewer {s} (rm_cells m) (rm_cells m')" using gone by (simp add: leaves_def)
    show ?thesis using fewerD(2)[OF f s] by simp
  next
    case rolled
    note ti = tail_index[OF w(5) s rolled(1)]
    have "rec_tail m' s = rec_tail m s" using s by (simp add: rolled(2))
    then have "rec_pos m' s = p0 - 1" using ti(1) by (simp add: rolled(2))
    then show ?thesis by simp
  qed
qed

text \<open>C21: cutting a sequence of the hybrid memory off at a position is all or nothing: no assertion fails; when it is refused (the
  recurrent state cannot be taken back that far) both memories are as before; when it is accepted both are well-formed and neither
  holds the sequence at that position or beyond.\<close>

theorem hybrid_truncate:
  assumes "kv_wf (hy_attn m)" "kv_other (hy_attn m) = None" "rec_wf (hy_recr m)"
    and "s < rm_n_seq_max (hy_recr m)" "rm_n_seq_max (hy_recr m) \<le> rm_size (hy_recr m)" "rm_n_seq_max (hy_recr m) \<le> length (kv_seq_to_stream (hy_attn m))"
    and "0 \<le> rec_tail (hy_recr m) s \<Longrightarrow> rec_pos (hy_recr m) s < INT32_MAX"
    and "\<forall>(t, q, i) \<in> kv_view (hy_attn m) (kv_seq_to_stream (hy_attn m) ! s). q < INT32_MAX"
  shows "\<exists>ok m'. hybrid_seq_rm (int s) p0 (-1) m = Inr (ok, m') \<and> kv_wf (hy_attn m') \<and> rec_wf (hy_recr m') \<and>
    (if ok then none_from s (clamp_p0 p0) m' else m' = m)"
proof -
  have c: "clamp_p1 (-1) = INT32_MAX" by (simp add: clamp_p1_def)
  obtain ok r where r: "rec_seq_rm (int s) p0 (-1) (hy_recr m) = Inr (ok, r)" "rm_outcome s (clamp_p0 p0) INT32_MAX (hy_recr m) ok r"
    using seq_rm_cases[OF assms(3-5), of p0 "-1"] unfolding c by blast
  have wf: "rec_wf r" using rm_outcome_wf[OF assms(3) _ r(2)] assms(4,5) by simp
  have ok: "seq_id_ok (int s) (hy_attn m)" using assms(4,6) by (simp add: seq_id_ok_def)
  obtain kv where kv: "kv_seq_rm (int s) p0 (-1) (hy_attn m) = Inr (True, kv)" "only_stream (kv_seq_to_stream (hy_attn m) ! s) (hy_attn m) kv"
      "kv_view kv (kv_seq_to_stream (hy_attn m) ! s) = kv_view (hy_attn m) (kv_seq_to_stream (hy_attn m) ! s) -
        {(s, p, i) |p i. clamp_p0 p0 \<le> p \<and> p < INT32_MAX}"
    using seq_rm_one_sequence[OF assms(1,2) ok, of p0 "-1"] unfolding c nat_int by blast
  show ?thesis
  proof (cases ok)
    case True
    have s: "s < rm_size (hy_recr m)" using assms(4,5) by simp
    have run: "hybrid_seq_rm (int s) p0 (-1) m = Inr (True, m\<lparr>hy_recr := r, hy_attn := kv\<rparr>)" using r(1) kv(1) True by (simp add: hybrid_seq_rm_def)
    have wf2: "kv_wf kv" "kv_seq_to_stream kv = kv_seq_to_stream (hy_attn m)" using kv(2) kv_same_config_simps by (auto simp: only_stream_def)
    have "none_from s (clamp_p0 p0) (m\<lparr>hy_recr := r, hy_attn := kv\<rparr>)"
      unfolding none_from_def
    proof (intro conjI allI impI)
      fix q i assume "(s, q, i) \<in> kv_view (hy_attn (m\<lparr>hy_recr := r, hy_attn := kv\<rparr>)) (kv_seq_to_stream (hy_attn (m\<lparr>hy_recr := r, hy_attn := kv\<rparr>)) ! s)"
      then have "(s, q, i) \<in> kv_view kv (kv_seq_to_stream (hy_attn m) ! s)" by (simp add: wf2(2))
      then show "q < clamp_p0 p0" using kv(3) assms(8) by fastforce
    next
      show "rec_tail (hy_recr (m\<lparr>hy_recr := r, hy_attn := kv\<rparr>)) s < 0 \<or> rec_pos (hy_recr (m\<lparr>hy_recr := r, hy_attn := kv\<rparr>)) s < clamp_p0 p0"
        using rm_outcome_none[OF assms(3) s _ assms(7)] r(2) True by simp
    qed
    then show ?thesis using run wf wf2(1) True by auto
  next
    case False
    then have "r = hy_recr m" using r(2) by (auto simp: rm_outcome_def Let_def split: if_splits)
    then have "hybrid_seq_rm (int s) p0 (-1) m = Inr (False, m)" using r(1) False by (simp add: hybrid_seq_rm_def)
    then show ?thesis using assms(1,3) by auto
  qed
qed

text \<open>The hybrid memory refuses every request to remove positions of all sequences (a negative sequence), although the interface
  says that it matches any sequence and the KV cache alone does so.\<close>

theorem hybrid_seq_rm_any:
  assumes "rm_n_seq_max (hy_recr m) \<le> 2 ^ 31" "- (2 ^ 31) \<le> s" "s < 0"
  shows "hybrid_seq_rm s p0 p1 m = Inr (False, m)"
  using rec_seq_rm_any[OF assms] by (simp add: hybrid_seq_rm_def)

section \<open>Batches\<close>

lemma find_slots_ok:
  assumes "rec_wf m" "\<forall>ub \<in> set ubs. rec_ubatch_ok (rm_size m) ub"
  shows "\<exists>m'. find_slots ubs m = Inr (True, m') \<and> rec_wf m' \<and> rm_size m' = rm_size m"
  using assms
proof (induction ubs arbitrary: m)
  case (Cons ub ubs)
  have "rec_ubatch_ok (rm_size m) ub" using Cons.prems(2) by simp
  then show ?case
  proof (rule find_slot_spec[OF Cons.prems(1)])
    fix m1 assume m1: "rec_find_slot ub m = Inr (True, m1)" "rec_wf m1" "rm_size m1 = rm_size m"
    then show ?thesis using Cons.IH[of m1] Cons.prems(2) by auto
  qed
qed simp

text \<open>A ubatch of an equal split suits both memories, whether the KV cache has one stream or several.\<close>

lemma hybrid_ubatch_ok:
  fixes b npe memory n_embd n_seq_max oa
  defines "base \<equiv> split_reset (filled npe b memory n_embd n_seq_max oa)"
  assumes wf: "batch_wf b" "ids_ok b n_seq_max" "0 < n_seq_max" "0 < npe" "n_seq_max \<le> n" and d: "\<forall>i < b_n_tokens b. distinct (seqs b i)"
    and kv: "kv_fits kv n_seq_max" and pos: "\<forall>i < b_n_tokens b. 0 \<le> in_pos b memory ! i"
    and cpl: "kv_n_stream kv = 1 \<or> (\<forall>i < b_n_tokens b. length (seqs b i) = 1)"
    and A: "A = split_state base idxs" "equal_ok n_ubatch (kv_n_stream kv \<noteq> 1) keep A" "equal_selection n_ubatch (kv_n_stream kv \<noteq> 1) keep A Ss r"
  defines "U \<equiv> fst (ubatch_add (concat (prefixes A Ss (\<lambda>_. r)), length Ss, True) base)"
  shows "rec_ubatch_ok n U" "\<exists>j k. ubatch_ok kv (llama_ubatch.truncate U) j k"
proof -
  have f: "al_ok A" "al_n_tokens A = b_n_tokens b" "al_seq_set A = map (\<lambda>i. set (seqs b i)) [0..<b_n_tokens b]" "al_seq_id A = in_seq_id b"
    using A(2) unfolding A(1) base_def by (simp_all add: equal_ok_def in_order_def)
  have u: "unused A \<subseteq> {..<b_n_tokens b}" using f(2) by (auto simp: unused_def)
  have s: "\<forall>i < b_n_tokens b. al_seq_set A ! i = set (seqs b i)" using f(3) by simp
  have t: "takes A Ss r" using A(3) unfolding equal_selection_def by blast
  note e = equal_rec_ubatch(1)[OF wf d t u s, where memory = memory and n_embd = n_embd and oa = oa, folded base_def, folded U_def]
    equal_rec_ubatch(5)[OF wf d t u s]
  show "rec_ubatch_ok n U" by (rule e(1))
  show "\<exists>j k. ubatch_ok kv (llama_ubatch.truncate U) j k"
  proof (cases "kv_n_stream kv = 1")
    case True
    have ss: "set (concat (prefixes A Ss (\<lambda>_. r))) \<subseteq> {..<b_n_tokens b}"
    proof
      fix x assume "x \<in> set (concat (prefixes A Ss (\<lambda>_. r)))"
      then obtain j where "j < length Ss" "x \<in> set (take r (left A (Ss ! j)))" unfolding prefixes_mem by blast
      then show "x \<in> {..<b_n_tokens b}" using e(2) by blast
    qed
    have "0 < length Ss" "0 < r" "\<forall>s < length Ss. r \<le> length (left A (Ss ! s))" using t by (auto simp: takes_def)
    then have "take r (left A (Ss ! 0)) \<noteq> []" by fastforce
    then have "hd (take r (left A (Ss ! 0))) \<in> set (concat (prefixes A Ss (\<lambda>_. r)))"
      unfolding prefixes_mem using \<open>0 < length Ss\<close> hd_in_set by blast
    then have ne: "concat (prefixes A Ss (\<lambda>_. r)) \<noteq> []" by fastforce
    show ?thesis unfolding U_def base_def using simple_ubatch_ok[OF wf(1-3) ss wf(4) kv True pos ne] by blast
  next
    case False
    define q where "q i = hd (seqs b i)" for i
    have q: "\<forall>i < b_n_tokens b. seqs b i = [q i]" using cpl False by (auto simp: q_def length_Suc_conv)
    have st: "1 < kv_n_stream kv" using kv False by (auto simp: kv_fits_def)
    obtain a m where c: "Ss = map (\<lambda>j. {a + j}) [0..<m]"
    proof -
      have "\<exists>k. Ss = take k (chosen n_ubatch True A)" using A(3) False unfolding equal_selection_def by simp
      then obtain k where k: "Ss = take k (chosen n_ubatch True A)" by blast
      obtain a m where "take k (chosen n_ubatch True A) = map (\<lambda>j. {a + j}) [0..<m]" using chosen_consecutive[OF wf(1,2) q f(2-4)] by blast
      then show ?thesis using that k by simp
    qed
    have sq: "\<forall>i < b_n_tokens b. seqs b i = [q i] \<and> al_seq_set A ! i = {q i}" using q s by simp
    have "ubatch_ok kv (llama_ubatch.truncate (fst (ubatch_add (concat (prefixes A Ss (\<lambda>_. r)), m, True) base))) m r"
      unfolding base_def by (rule equal_ubatch_ok[OF wf(1-4) kv st pos t f(1) u sq c])
    then show ?thesis unfolding U_def using c by auto
  qed
qed

text \<open>The equal splits of an accepted batch, for both memories.\<close>

lemma hybrid_splits:
  assumes wf: "batch_wf b" "batch_init npe b n_vocab memory n_embd n_seq_max oa = Inr al" "0 < n_seq_max" "0 < npe" "n_seq_max \<le> n"
    and d: "\<forall>i < b_n_tokens b. distinct (seqs b i)" and kv: "kv_fits kv n_seq_max" and pos: "\<forall>i < b_n_tokens b. 0 \<le> al_pos al ! i"
    and cpl: "\<not> (kv_n_stream kv \<noteq> 1 \<and> al_has_cpl al)" and keep: "keep = 0 \<or> keep < n_ubatch"
  shows "\<exists>ubs al'. split_loop (Suc (b_n_tokens b)) (split_equal n_ubatch (kv_n_stream kv \<noteq> 1) keep) al = Some (Inr (ubs, al')) \<and>
    al_n_used al' = b_n_tokens b \<and> al_n_tokens al' = b_n_tokens b \<and> sum_list (map ub_n_tokens ubs) = b_n_tokens b \<and>
    (\<forall>ub \<in> set ubs. rec_ubatch_ok n ub) \<and> (\<forall>ub \<in> set (map llama_ubatch.truncate ubs). \<exists>j k. ubatch_ok kv ub j k)"
proof -
  note r = accepted_ready[OF wf(1,2)]
  let ?sq = "kv_n_stream kv \<noteq> 1"
  obtain sels where sels: "split_loop (Suc (b_n_tokens b)) (split_equal n_ubatch ?sq keep) al =
      Some (Inr (map (\<lambda>sel. fst (ubatch_add sel al)) sels, split_state al (concat (map fst sels))))"
      "distinct (concat (map fst sels))" "set (concat (map fst sels)) = {..<b_n_tokens b}"
      "\<forall>k < length sels. \<exists>Ss r. equal_ok n_ubatch ?sq keep (split_state al (concat (map fst (take k sels)))) \<and>
         equal_selection n_ubatch ?sq keep (split_state al (concat (map fst (take k sels)))) Ss r \<and>
         sels ! k = (concat (prefixes (split_state al (concat (map fst (take k sels)))) Ss (\<lambda>_. r)), length Ss, True)"
    using equal_loop_sels[OF wf(1,2) cpl keep] by (elim exE conjE)
  have pos': "\<forall>i < b_n_tokens b. 0 \<le> in_pos b memory ! i" using pos unfolding r(1) by simp
  have single: "kv_n_stream kv = 1 \<or> (\<forall>i < b_n_tokens b. length (seqs b i) = 1)"
  proof (cases "kv_n_stream kv = 1")
    case False
    have "length (seqs b i) = 1" if i: "i < b_n_tokens b" for i
    proof -
      have "seqs b i \<noteq> []" "\<not> 1 < length (seqs b i)" using seqs_ok(1)[OF wf(1) i] False cpl i unfolding r(11) by blast+
      then show ?thesis by (cases "seqs b i") auto
    qed
    then show ?thesis by blast
  qed blast
  have ok: "rec_ubatch_ok n (fst (ubatch_add sel al)) \<and> (\<exists>j k. ubatch_ok kv (llama_ubatch.truncate (fst (ubatch_add sel al))) j k)" if sel: "sel \<in> set sels" for sel
  proof -
    obtain k where k: "k < length sels" "sels ! k = sel" using sel unfolding in_set_conv_nth by blast
    obtain Ss rr where e: "equal_ok n_ubatch ?sq keep (split_state al (concat (map fst (take k sels))))"
        "equal_selection n_ubatch ?sq keep (split_state al (concat (map fst (take k sels)))) Ss rr"
        "sel = (concat (prefixes (split_state al (concat (map fst (take k sels)))) Ss (\<lambda>_. rr)), length Ss, True)"
      using sels(4) k by blast
    show ?thesis using hybrid_ubatch_ok[OF wf(1) r(9) wf(3,4,5) d kv pos' single refl e(1,2)[unfolded r(1)]] unfolding e(3) r(1) by blast
  qed
  have n: "length (concat (map fst sels)) = b_n_tokens b" using distinct_card[OF sels(2)] unfolding sels(3) by simp
  have "sum_list (map ub_n_tokens (map (\<lambda>sel. fst (ubatch_add sel al)) sels)) = b_n_tokens b" using n by (simp add: o_def ubatch_add_state length_concat)
  then show ?thesis unfolding sels(1) using n r(3,10) ok by (intro exI conjI) (rule refl | auto)+
qed

text \<open>C20: \<open>init_batch\<close> of the hybrid memory on an accepted batch with no negative positions whose sequences both memories know and
  which names no sequence twice for a token, when the KV cache has cells of its own, no sliding window and no sparse eviction, not all
  tokens are outputs (\<open>embd_all\<close> is false) and the rollback tail is shorter than a ubatch (\<open>n_rs_seq = 0\<close> or \<open>n_rs_seq + 1 < n_ubatch\<close>): with
  several streams and coupled sequences it fails at once. Otherwise it returns without a failed assertion and leaves the cells of
  both memories as they were, with every token of the batch used; it gives a failed context, or one whose ubatches deal every token to
  exactly one of them, in which writing the ubatches to the slots of the KV cache in turn succeeds and the recurrent memory
  places them all.\<close>

theorem hybrid_batch_places:
  assumes "batch_wf b" "batch_init npe b n_vocab memory n_embd n_seq_max output_all = Inr al" "0 < n_seq_max" "0 < npe"
    and "kv_fits (hy_attn m) n_seq_max" "kv_other (hy_attn m) = None" "kv_swa_type (hy_attn m) = SWA_NONE"
    and "rec_wf (hy_recr m)" "n_seq_max \<le> rm_size (hy_recr m)" "rm_n_rs_seq (hy_recr m) = 0 \<or> rm_n_rs_seq (hy_recr m) + 1 < n_ubatch"
    and "\<forall>i < b_n_tokens b. 0 \<le> al_pos al ! i" "\<forall>i < b_n_tokens b. distinct (seqs b i)"
  shows "if 1 < kv_n_stream (hy_attn m) \<and> al_has_cpl al
    then hybrid_init_batch srt False n_ubatch False al m = Some (Inr (hybrid_context_failed STATUS_FAILED_PREPARE, al, m))
    else \<exists>ctx al' m'. hybrid_init_batch srt False n_ubatch False al m = Some (Inr (ctx, al', m')) \<and> al_n_used al' = b_n_tokens b \<and>
      kv_v_cells (hy_attn m') = kv_v_cells (hy_attn m) \<and> rm_cells (hy_recr m') = rm_cells (hy_recr m) \<and>
      (ctx = hybrid_context_failed STATUS_FAILED_PREPARE \<or>
       (\<exists>sis ubs kv'' recr''. ctx = hybrid_context_of ubs (context_batch sis ubs) (rec_context_batch ubs) \<and> hc_status ctx = STATUS_SUCCESS \<and>
          length sis = length ubs \<and> sum_list (map ub_n_tokens ubs) = b_n_tokens b \<and> deals b al ubs \<and>
          apply_slots sis (map llama_ubatch.truncate ubs) (hy_attn m) = Inr kv'' \<and>
          rec_decode (length ubs) (rec_context_batch ubs) (hy_recr m') = Some (Inr recr'') \<and> rec_wf recr''))"
proof -
  note r = accepted_ready[OF assms(1,2)]
  let ?kv = "hy_attn m" and ?re = "hy_recr m"
  let ?keep = "if 0 < rm_n_rs_seq ?re then rm_n_rs_seq ?re + 1 else 0"
  have st: "0 < kv_n_stream ?kv" using assms(5) by (simp add: kv_fits_def)
  have sp: "rec_split n_ubatch False (\<not> kv_n_stream ?kv = 1) (rm_n_rs_seq ?re) = split_equal n_ubatch (kv_n_stream ?kv \<noteq> 1) ?keep"
    by (rule ext) (simp add: rec_split_def)
  have keep: "?keep = 0 \<or> ?keep < n_ubatch" using assms(10) by auto
  show ?thesis
  proof (cases "1 < kv_n_stream ?kv \<and> al_has_cpl al")
    case True
    have "split_loop (Suc (b_n_tokens b)) (split_equal n_ubatch (kv_n_stream ?kv \<noteq> 1) ?keep) al = Some (Inr ([], al))"
      using True coupled_refused[of al] by simp
    then have "hybrid_init_batch srt False n_ubatch False al m = Some (Inr (hybrid_context_failed STATUS_FAILED_PREPARE, al, m))"
      unfolding hybrid_init_batch_def Let_def r(2,3) sp using r(3,4,10) by simp
    then show ?thesis using True by simp
  next
    case False
    have cpl: "\<not> (kv_n_stream ?kv \<noteq> 1 \<and> al_has_cpl al)" using False st by auto
    obtain ubs al' where l: "split_loop (Suc (b_n_tokens b)) (split_equal n_ubatch (kv_n_stream ?kv \<noteq> 1) ?keep) al = Some (Inr (ubs, al'))"
        "al_n_used al' = b_n_tokens b" "al_n_tokens al' = b_n_tokens b" "sum_list (map ub_n_tokens ubs) = b_n_tokens b"
        "\<forall>ub \<in> set ubs. rec_ubatch_ok (rm_size ?re) ub" "\<forall>ub \<in> set (map llama_ubatch.truncate ubs). \<exists>j k. ubatch_ok ?kv ub j k"
      using hybrid_splits[OF assms(1-4,9,12,5,11) cpl keep] by (elim exE conjE) blast
    have part: "deals b al ubs"
    proof -
      obtain sels where sels: "split_loop (Suc (b_n_tokens b)) (split_equal n_ubatch (kv_n_stream ?kv \<noteq> 1) ?keep) al =
          Some (Inr (map (\<lambda>sel. fst (ubatch_add sel al)) sels, split_state al (concat (map fst sels))))"
          "distinct (concat (map fst sels))" "set (concat (map fst sels)) = {..<b_n_tokens b}"
        using equal_loop_sels[OF assms(1,2) cpl keep] by blast
      have "ubs = map (\<lambda>sel. fst (ubatch_add sel al)) sels" using sels(1) l(1) by simp
      then show ?thesis using sels(2,3) unfolding deals_def by blast
    qed
    have ne: "ubs \<noteq> []" "map llama_ubatch.truncate ubs \<noteq> []" using l(4) r(4) by auto
    have "\<forall>m1. rec_wf m1 \<and> rm_size m1 = rm_size ?re \<longrightarrow> (\<exists>m2. find_slots ubs m1 = Inr (True, m2) \<and> rec_wf m2)"
      using find_slots_ok[of _ ubs] l(5) by metis
    from prepare_decodes[OF assms(8) ne(1) this] obtain re r2 where re: "rec_prepare ubs ?re = Inr (True, re)" "rm_cells re = rm_cells ?re"
        "rec_decode (length ubs) (rec_context_batch ubs) re = Some (Inr r2)" "rec_wf r2" .
    from prepare_result[OF _ assms(6,7) ne(2) l(6), of srt] assms(5) obtain sis kv' where
      q: "prepare srt False (map llama_ubatch.truncate ubs) ?kv = Some (Inr (sis, kv'))" "kv_v_cells kv' = kv_v_cells ?kv"
        "sis \<noteq> [] \<longrightarrow> length sis = length ubs \<and> (\<exists>kv''. apply_slots sis (map llama_ubatch.truncate ubs) ?kv = Inr kv'')"
      by (auto simp: kv_fits_def)
    define m' where "m' = m\<lparr>hy_recr := re, hy_attn := kv'\<rparr>"
    define ctx where "ctx = (if sis = [] then hybrid_context_failed STATUS_FAILED_PREPARE
      else hybrid_context_of ubs (context_batch sis ubs) (rec_context_batch ubs))"
    have run: "hybrid_init_batch srt False n_ubatch False al m = Some (Inr (ctx, al', m'))"
      unfolding hybrid_init_batch_def Let_def r(2,3) sp l(1) using l(2,3) re(1) q(1) by (simp add: ctx_def m'_def)
    have m': "hy_attn m' = kv'" "hy_recr m' = re" by (simp_all add: m'_def)
    show ?thesis unfolding if_not_P[OF False]
    proof (intro exI conjI)
      show "hybrid_init_batch srt False n_ubatch False al m = Some (Inr (ctx, al', m'))" by (rule run)
      show "al_n_used al' = b_n_tokens b" by (rule l(2))
      show "kv_v_cells (hy_attn m') = kv_v_cells ?kv" "rm_cells (hy_recr m') = rm_cells ?re" using q(2) re(2) m' by simp_all
      show "ctx = hybrid_context_failed STATUS_FAILED_PREPARE \<or>
       (\<exists>sis ubs kv'' recr''. ctx = hybrid_context_of ubs (context_batch sis ubs) (rec_context_batch ubs) \<and> hc_status ctx = STATUS_SUCCESS \<and>
          length sis = length ubs \<and> sum_list (map ub_n_tokens ubs) = b_n_tokens b \<and> deals b al ubs \<and>
          apply_slots sis (map llama_ubatch.truncate ubs) (hy_attn m) = Inr kv'' \<and>
          rec_decode (length ubs) (rec_context_batch ubs) (hy_recr m') = Some (Inr recr'') \<and> rec_wf recr'')"
      proof (cases "sis = []")
        case False
        have s: "hc_status (hybrid_context_of ubs (context_batch sis ubs) (rec_context_batch ubs)) = STATUS_SUCCESS"
          by (simp add: hybrid_context_of_def context_batch_def context_status_def rec_context_batch_def rec_context_status_def llama_memory_status_combine_def)
        obtain kv'' where "apply_slots sis (map llama_ubatch.truncate ubs) ?kv = Inr kv''" "length sis = length ubs" using q(3) False by blast
        then show ?thesis using False s l(4) part re(3,4) unfolding ctx_def m' by auto
      qed (simp add: ctx_def)
    qed
  qed
qed

section \<open>Concrete runs\<close>

theorem hybrid_truncate_witness:
  "\<exists>ok m'. hybrid_seq_rm 0 3 (-1) \<lparr>hy_attn = kv_one_stream, hy_recr = rec_one\<rparr> = Inr (ok, m') \<and>
     (ok \<longrightarrow> rec_tail (hy_recr m') 0 < 0 \<or> rec_pos (hy_recr m') 0 < 3)"
proof -
  let ?m = "\<lparr>hy_attn = kv_one_stream, hy_recr = rec_one\<rparr>"
  have a: "kv_wf (hy_attn ?m)" "kv_other (hy_attn ?m) = None" "rec_wf (hy_recr ?m)" "0 < rm_n_seq_max (hy_recr ?m)"
    "rm_n_seq_max (hy_recr ?m) \<le> rm_size (hy_recr ?m)" "rm_n_seq_max (hy_recr ?m) \<le> length (kv_seq_to_stream (hy_attn ?m))"
    using rec_one_wf by simp_all
  have b: "rec_pos (hy_recr ?m) 0 < INT32_MAX" by simp
  have c: "\<forall>(t, q, i) \<in> kv_view (hy_attn ?m) (kv_seq_to_stream (hy_attn ?m) ! 0). q < INT32_MAX"
    by (auto simp: kv_one_stream_view)
  from hybrid_truncate[OF a b c, of 3] obtain ok m' where
      r: "hybrid_seq_rm (int 0) 3 (-1) ?m = Inr (ok, m')" "if ok then none_from 0 (clamp_p0 3) m' else m' = ?m" by blast
  have "clamp_p0 3 = 3" by (simp add: clamp_p0_def)
  then have "ok \<longrightarrow> rec_tail (hy_recr m') 0 < 0 \<or> rec_pos (hy_recr m') 0 < 3" using r(2) unfolding none_from_def by presburger
  then show ?thesis using r(1) by simp
qed

theorem hybrid_seq_rm_any_witness:
  "hybrid_seq_rm (-1) 0 (-1) \<lparr>hy_attn = kv_one_stream, hy_recr = rec_one\<rparr> = Inr (False, \<lparr>hy_attn = kv_one_stream, hy_recr = rec_one\<rparr>)"
  by (rule hybrid_seq_rm_any) simp_all

theorem hybrid_batch_places_witness:
  "\<exists>ctx al' m'. hybrid_init_batch (sort_key fst) False 4 False al_two \<lparr>hy_attn = kv_two_streams, hy_recr = rec_init 2 2 0\<rparr> = Some (Inr (ctx, al', m')) \<and>
     al_n_used al' = 2"
proof -
  let ?m = "\<lparr>hy_attn = kv_two_streams, hy_recr = rec_init 2 2 0\<rparr>"
  have k: "kv_fits (hy_attn ?m) 2" "kv_other (hy_attn ?m) = None" "kv_swa_type (hy_attn ?m) = SWA_NONE" by (simp_all add: kv_fits_def upt_rec)
  have w: "rec_wf (hy_recr ?m)" "2 \<le> rm_size (hy_recr ?m)" "rm_n_rs_seq (hy_recr ?m) = 0 \<or> rm_n_rs_seq (hy_recr ?m) + 1 < 4"
    using rec_init_wf by (simp_all add: rec_init_def)
  have d: "\<forall>i < b_n_tokens b_two. distinct (seqs b_two i)" using b_two_facts(2,5) by simp
  have n: "\<not> (1 < kv_n_stream (hy_attn ?m) \<and> al_has_cpl al_two)" using al_two_ok(2) by simp
  note p = hybrid_batch_places[OF b_two_facts(1) al_two_ok(1) _ _ k]
  note p1 = p[OF _ _ w al_two_ok(3) d]
  note p2 = p1[where srt = "sort_key fst", unfolded if_not_P[OF n] b_two_facts(2)]
  show ?thesis using p2 by force
qed

end
