(* ===== verification/Store.thy ===== *)
theory Store
  imports Prelude
begin

text \<open>
  The raw expert store, \<open>engine/ggml/src/ggml-cuda/vitriol-store.cpp\<close>: the on-disk layout (two
  copies of a superblock, an index of tensor descriptors, one padded slot per expert, the embed
  zone), formatting (\<open>store_mkfs\<close>), opening (\<open>store_open\<close>), writing and reading experts and
  embeddings, and the io_uring path. The device is a sequence of bytes; which transfers it
  accepts is a predicate of the offset and the length, because \<open>O_DIRECT\<close> refuses those that are
  not multiples of 512. The lemmas show the round trips from formatting to opening and from
  writing to reading, under the sole assumption that aligned transfers succeed. Memory exhaustion
  (a failing \<open>aligned_alloc\<close>) is not modelled; offsets are computed
  modulo \<open>2 ^ 64\<close> as in the code and the theorems assume that the store is smaller than
  \<open>2 ^ 63\<close> bytes.
\<close>

section \<open>The device\<close>

text \<open>\<open>dev_block\<close>: a block device of fixed size; \<open>dev_ok off n\<close>: a transfer of \<open>n\<close> bytes at \<open>off\<close> is accepted.\<close>

record store_dev =
  dev_bytes :: "byte list"
  dev_block :: bool
  dev_ok :: "nat \<Rightarrow> nat \<Rightarrow> bool"

definition overlay :: "nat \<Rightarrow> byte list \<Rightarrow> byte list \<Rightarrow> byte list" where
  "overlay off bs xs = take off (xs @ replicate (off - length xs) 0) @ bs @ drop (off + length bs) xs"

definition pread :: "store_dev \<Rightarrow> nat \<Rightarrow> nat \<Rightarrow> byte list" where
  "pread d n off = (if dev_ok d off n then take n (drop off (dev_bytes d)) else [])"

definition pwrite :: "store_dev \<Rightarrow> byte list \<Rightarrow> nat \<Rightarrow> store_dev option" where
  "pwrite d bs off =
     (if dev_ok d off (length bs) \<and> (dev_block d \<longrightarrow> off + length bs \<le> length (dev_bytes d))
      then Some (d\<lparr>dev_bytes := overlay off bs (dev_bytes d)\<rparr>) else None)"

text \<open>A length of \<open>2 ^ 63\<close> or more is a negative \<open>off_t\<close>, which is refused.\<close>

definition ftruncate :: "store_dev \<Rightarrow> nat \<Rightarrow> store_dev option" where
  "ftruncate d n =
     (if n < 2 ^ 63 then Some (d\<lparr>dev_bytes := take n (dev_bytes d @ replicate (n - length (dev_bytes d)) 0)\<rparr>)
      else None)"

section \<open>Little-endian fields\<close>

fun le_bytes :: "nat \<Rightarrow> nat \<Rightarrow> byte list" where
  "le_bytes 0 v = []"
| "le_bytes (Suc k) v = of_nat (v mod 256) # le_bytes k (v div 256)"

fun le_nat :: "byte list \<Rightarrow> nat" where
  "le_nat [] = 0"
| "le_nat (b # bs) = unat b + 256 * le_nat bs"

definition field :: "nat \<Rightarrow> nat \<Rightarrow> byte list \<Rightarrow> nat" where
  "field off n bs = le_nat (take n (drop off bs))"

section \<open>Data\<close>

datatype store_error = Open_failed | Not_a_store | Corrupt | Index_corrupt | Io_error
  | Out_of_bounds | Not_implemented

definition VITRIOL_STORE_MAGIC :: nat where "VITRIOL_STORE_MAGIC = 0x56495453"
definition VITRIOL_STORE_VERSION :: nat where "VITRIOL_STORE_VERSION = 1"
definition VITRIOL_STORE_BLK :: nat where [simp]: "VITRIOL_STORE_BLK = 4096"
definition VITRIOL_STORE_SLOT :: nat where "VITRIOL_STORE_SLOT = 2 * 1024 * 1024"
definition VITRIOL_STORE_KVCELL :: nat where "VITRIOL_STORE_KVCELL = 2 * 1024 * 1024"
definition STORE_INDEX_BASE :: nat where [simp]: "STORE_INDEX_BASE = 2 * VITRIOL_STORE_BLK"

record store_super =
  s_magic :: nat
  s_version :: nat
  s_expert_count :: nat
  s_expert_base :: nat
  s_expert_stride :: nat
  s_embed_base :: nat
  s_embed_bytes :: nat
  s_kv_base :: nat
  s_kv_ring_bytes :: nat
  s_kv_cell_size :: nat

record store_tensor_desc =
  t_layer :: nat
  t_kind :: nat
  t_n_experts :: nat
  t_slice_bytes :: nat
  t_data_bytes :: nat
  t_pad0 :: nat
  t_store_offset :: nat

text \<open>The bytes \<open>0 .. 4091\<close> of a superblock; the padding is zero.\<close>

definition super_body :: "store_super \<Rightarrow> byte list" where
  "super_body s =
     le_bytes 4 (s_magic s) @ le_bytes 4 (s_version s) @ le_bytes 4 (s_expert_count s) @ le_bytes 4 0 @
     le_bytes 8 (s_expert_base s) @ le_bytes 8 (s_expert_stride s) @ le_bytes 8 (s_embed_base s) @
     le_bytes 8 (s_embed_bytes s) @ le_bytes 8 (s_kv_base s) @ le_bytes 8 (s_kv_ring_bytes s) @
     le_bytes 8 (s_kv_cell_size s) @ replicate 4020 0"

definition super_of :: "byte list \<Rightarrow> store_super" where
  "super_of b = \<lparr>s_magic = field 0 4 b, s_version = field 4 4 b, s_expert_count = field 8 4 b,
     s_expert_base = field 16 8 b, s_expert_stride = field 24 8 b, s_embed_base = field 32 8 b,
     s_embed_bytes = field 40 8 b, s_kv_base = field 48 8 b, s_kv_ring_bytes = field 56 8 b,
     s_kv_cell_size = field 64 8 b\<rparr>"

abbreviation DESC_BYTES :: nat where
  "DESC_BYTES \<equiv> 32"

definition desc_bytes :: "store_tensor_desc \<Rightarrow> byte list" where
  "desc_bytes t =
     le_bytes 4 (t_layer t) @ le_bytes 4 (t_kind t) @ le_bytes 4 (t_n_experts t) @
     le_bytes 4 (t_slice_bytes t) @ le_bytes 4 (t_data_bytes t) @ le_bytes 4 (t_pad0 t) @ le_bytes 8 (t_store_offset t)"

definition desc_of :: "byte list \<Rightarrow> store_tensor_desc" where
  "desc_of b = \<lparr>t_layer = field 0 4 b, t_kind = field 4 4 b, t_n_experts = field 8 4 b,
     t_slice_bytes = field 12 4 b, t_data_bytes = field 16 4 b, t_pad0 = field 20 4 b, t_store_offset = field 24 8 b\<rparr>"

definition index_of :: "nat \<Rightarrow> byte list \<Rightarrow> store_tensor_desc list" where
  "index_of n b = map (\<lambda>i. desc_of (take DESC_BYTES (drop (i * DESC_BYTES) b))) [0..<n]"

text \<open>
  An open store. \<open>st_inflight\<close> counts the io_uring completions that were submitted and not yet
  consumed.
\<close>

record store =
  st_dev :: store_dev
  st_super :: store_super
  st_index :: "store_tensor_desc list"
  st_n_tensors :: nat
  st_uring_ok :: bool
  st_async_tid :: nat
  st_async_expert :: nat
  st_async_data_bytes :: nat
  st_async_slice_bytes :: nat
  st_inflight :: nat

section \<open>Checksums and alignment\<close>

definition crc_step :: "32 word \<Rightarrow> 32 word" where
  "crc_step crc = (drop_bit 1 crc) XOR (0xEDB88320 AND - (crc AND 1))"

definition crc_byte :: "byte \<Rightarrow> 32 word \<Rightarrow> 32 word" where
  "crc_byte b crc = (crc_step ^^ 8) (crc XOR ucast b)"

definition store_crc32 :: "byte list \<Rightarrow> 32 word" where
  "store_crc32 data = NOT (fold crc_byte data 0xFFFFFFFF)"

definition align_up_512 :: "nat \<Rightarrow> nat" where
  "align_up_512 n = unat ((of_nat n + 511 :: 64 word) AND NOT 511)"

definition align_up_mib :: "nat \<Rightarrow> nat" where
  "align_up_mib n = unat ((of_nat n + (1024 * 1024 - 1) :: 64 word) AND NOT (1024 * 1024 - 1))"

section \<open>Superblocks\<close>

definition super_valid :: "byte list \<Rightarrow> bool" where
  "super_valid b \<longleftrightarrow>
     s_magic (super_of b) = VITRIOL_STORE_MAGIC \<and> s_version (super_of b) = VITRIOL_STORE_VERSION \<and>
     unat (store_crc32 (take (VITRIOL_STORE_BLK - 4) b)) = field (VITRIOL_STORE_BLK - 4) 4 b"

definition write_super_at :: "store_dev \<Rightarrow> nat \<Rightarrow> byte list \<Rightarrow> store_error + store_dev" where
  "write_super_at d off b = (case pwrite d b off of None \<Rightarrow> Inl Io_error | Some d' \<Rightarrow> Inr d')"

definition super_block :: "store_super \<Rightarrow> byte list" where
  "super_block s = super_body s @ le_bytes 4 (unat (store_crc32 (super_body s)))"

definition write_super :: "store_dev \<Rightarrow> store_super \<Rightarrow> store_error + store_dev" where
  "write_super d s =
     (case write_super_at d 0 (super_block s) of
        Inl e \<Rightarrow> Inl e
      | Inr d' \<Rightarrow> write_super_at d' VITRIOL_STORE_BLK (super_block s))"

section \<open>Opening\<close>

text \<open>\<open>None\<close> is a device that cannot be opened; \<open>uring\<close> is the result of \<open>io_uring_queue_init\<close>.\<close>

definition store_open :: "bool \<Rightarrow> store_dev option \<Rightarrow> store_error + store" where
  "store_open uring path =
     (case path of None \<Rightarrow> Inl Open_failed
      | Some d \<Rightarrow>
        let s0 = pread d VITRIOL_STORE_BLK 0; s1 = pread d VITRIOL_STORE_BLK VITRIOL_STORE_BLK in
        if length s0 \<noteq> VITRIOL_STORE_BLK \<or> length s1 \<noteq> VITRIOL_STORE_BLK then Inl Io_error
        else if \<not> super_valid s0 \<and> \<not> super_valid s1 then Inl Not_a_store
        else
          let super = super_of (if super_valid s0 then s0 else s1);
              n_tensors = s_expert_count super;
              st = \<lparr>st_dev = d, st_super = super, st_index = [], st_n_tensors = n_tensors,
                    st_uring_ok = uring, st_async_tid = 0, st_async_expert = 0,
                    st_async_data_bytes = 0, st_async_slice_bytes = 0, st_inflight = 0\<rparr>
          in if n_tensors > 0 then
               let index_bytes = n_tensors * DESC_BYTES;
                   zone_bytes = align_up_512 (index_bytes + 8);
                   zone = pread d zone_bytes STORE_INDEX_BASE
               in if length zone \<noteq> zone_bytes then Inl Io_error
                  else if unat (store_crc32 (take index_bytes zone)) \<noteq> field index_bytes 8 zone
                  then Inl Index_corrupt
                  else Inr (st\<lparr>st_index := index_of n_tensors zone\<rparr>)
             else Inr st)"

definition store_expert_count :: "store \<Rightarrow> nat" where
  "store_expert_count st = s_expert_count (st_super st)"

definition store_slot_size :: "store \<Rightarrow> nat" where
  "store_slot_size st = u32 (s_expert_stride (st_super st))"

definition store_embed_bytes :: "store \<Rightarrow> nat" where
  "store_embed_bytes st = s_embed_bytes (st_super st)"

definition store_expert_offset :: "store \<Rightarrow> nat \<Rightarrow> nat \<Rightarrow> nat" where
  "store_expert_offset st tid expert_idx =
     u64 (t_store_offset (st_index st ! tid) + expert_idx * t_slice_bytes (st_index st ! tid))"

section \<open>Reading\<close>

text \<open>The bytes copied to the destination, or \<open>None\<close> for \<open>-1\<close>; \<open>aligned\<close>: the destination is 512-aligned.\<close>

definition store_read_expert :: "store \<Rightarrow> nat \<Rightarrow> nat \<Rightarrow> bool \<Rightarrow> nat \<Rightarrow> byte list option" where
  "store_read_expert st tid expert_idx aligned dst_size =
     (if tid \<ge> st_n_tensors st then None
      else
        let t = st_index st ! tid in
        if expert_idx \<ge> t_n_experts t \<or> t_data_bytes t = 0 \<or> t_slice_bytes t < t_data_bytes t \<or>
           dst_size \<noteq> t_data_bytes t then None
        else
          let r = pread (st_dev st) (t_slice_bytes t) (store_expert_offset st tid expert_idx) in
          if length r \<noteq> t_slice_bytes t then None
          else if aligned \<and> dst_size \<ge> t_slice_bytes t then Some r
          else Some (take (t_data_bytes t) r))"

text \<open>The bytes read, fewer than asked for at the end of the device, or \<open>None\<close> for \<open>-1\<close>: no zone, no destination, or a read that fails.\<close>

definition store_read_embed :: "store \<Rightarrow> nat \<Rightarrow> nat \<Rightarrow> byte list option" where
  "store_read_embed st offset n =
     (if s_embed_base (st_super st) = 0 \<or> n = 0 then None
      else
        let off = u64 (s_embed_base (st_super st) + offset)
        in if dev_ok (st_dev st) off n then Some (pread (st_dev st) n off) else None)"

text \<open>
  The asynchronous read. \<open>got_sqe\<close>: \<open>io_uring_get_sqe\<close> found an entry; \<open>submit\<close>: the result of
  \<open>io_uring_submit\<close>, documented as the number of submitted entries, or a negative error. The result
  is the return value, what was copied into the destination before returning, and the new state.
\<close>

definition async_fallback :: "store \<Rightarrow> nat \<Rightarrow> nat \<Rightarrow> int \<times> byte list option \<times> store" where
  "async_fallback st tid expert_idx =
     (case store_read_expert st tid expert_idx True (t_data_bytes (st_index st ! tid)) of
        None \<Rightarrow> (-1, None, st)
      | Some bs \<Rightarrow> (0, Some bs, st\<lparr>st_async_data_bytes := t_data_bytes (st_index st ! tid), st_async_slice_bytes := 0\<rparr>))"

definition store_read_expert_async :: "store \<Rightarrow> nat \<Rightarrow> nat \<Rightarrow> bool \<Rightarrow> nat \<Rightarrow> bool \<Rightarrow> int \<Rightarrow>
    int \<times> byte list option \<times> store" where
  "store_read_expert_async st tid expert_idx aligned dst_size got_sqe submit =
     (if tid \<ge> st_n_tensors st then (-1, None, st)
      else
        let t = st_index st ! tid in
        if expert_idx \<ge> t_n_experts t \<or> dst_size < t_data_bytes t then (-1, None, st)
        else if \<not> st_uring_ok st \<or> \<not> aligned \<or> dst_size < t_slice_bytes t then async_fallback st tid expert_idx
        else if \<not> got_sqe then async_fallback st tid expert_idx
        else
          let st = st\<lparr>st_async_tid := tid, st_async_expert := expert_idx,
                      st_async_data_bytes := t_data_bytes t, st_async_slice_bytes := t_slice_bytes t,
                      st_inflight := st_inflight st + nat submit\<rparr>
          in if submit = 0 then (0, None, st) else async_fallback st tid expert_idx)"

text \<open>\<open>res\<close> is the result of the completion entry, \<open>None\<close> when \<open>io_uring_wait_cqe\<close> fails.\<close>

definition store_read_expert_wait :: "store \<Rightarrow> int option \<Rightarrow> int \<times> store" where
  "store_read_expert_wait st res =
     (if st_async_slice_bytes st = 0 then (int (st_async_data_bytes st), st)
      else if \<not> st_uring_ok st then (-1, st)
      else case res of
        None \<Rightarrow> (-1, st)
      | Some r \<Rightarrow> (if r = int (st_async_slice_bytes st) then int (st_async_data_bytes st) else -1,
                   st\<lparr>st_inflight := st_inflight st - 1\<rparr>))"

section \<open>Formatting\<close>

definition zone_size :: "store_tensor_desc \<Rightarrow> nat" where
  "zone_size t = t_n_experts t * t_slice_bytes t"

definition mkfs_super :: "store_tensor_desc list \<Rightarrow> nat \<Rightarrow> nat \<Rightarrow> store_super" where
  "mkfs_super tensors embed_bytes kv_bytes =
     (let expert_base = align_up_mib (STORE_INDEX_BASE + length tensors * DESC_BYTES + 8);
          expert_bytes = fold (\<lambda>t a. u64 (a + zone_size t)) tensors 0;
          embed_base = u64 (expert_base + expert_bytes)
      in \<lparr>s_magic = VITRIOL_STORE_MAGIC, s_version = VITRIOL_STORE_VERSION,
          s_expert_count = u32 (length tensors), s_expert_base = expert_base,
          s_expert_stride = VITRIOL_STORE_SLOT, s_embed_base = embed_base, s_embed_bytes = embed_bytes,
          s_kv_base = (if kv_bytes > 0 then u64 (embed_base + embed_bytes) else 0),
          s_kv_ring_bytes = (if kv_bytes > 0 then kv_bytes else 0),
          s_kv_cell_size = (if kv_bytes > 0 then VITRIOL_STORE_KVCELL else 0)\<rparr>)"

fun assign_offsets :: "nat \<Rightarrow> store_tensor_desc list \<Rightarrow> store_tensor_desc list" where
  "assign_offsets off [] = []"
| "assign_offsets off (t # ts) = t\<lparr>t_store_offset := off\<rparr> # assign_offsets (u64 (off + zone_size t)) ts"

definition store_total :: "store_super \<Rightarrow> nat" where
  "store_total s = (if s_kv_ring_bytes s > 0 then u64 (s_kv_base s + s_kv_ring_bytes s)
                    else u64 (s_embed_base s + s_embed_bytes s))"

definition index_zone :: "store_tensor_desc list \<Rightarrow> byte list" where
  "index_zone idx =
     (let b = concat (map desc_bytes idx);
          z = b @ le_bytes 8 (unat (store_crc32 b))
      in z @ replicate (align_up_512 (length b + 8) - length z) 0)"

definition store_mkfs :: "store_dev option \<Rightarrow> store_tensor_desc list \<Rightarrow> nat \<Rightarrow> nat \<Rightarrow> store_error + store_dev" where
  "store_mkfs path tensors embed_bytes kv_bytes =
     (case path of None \<Rightarrow> Inl Open_failed
      | Some d \<Rightarrow>
        let s = mkfs_super tensors embed_bytes kv_bytes in
        case write_super d s of
          Inl e \<Rightarrow> Inl e
        | Inr d \<Rightarrow>
            case (if dev_block d then Some d else ftruncate d (store_total s)) of
              None \<Rightarrow> Inl Io_error
            | Some d \<Rightarrow>
                case pwrite d (index_zone (assign_offsets (s_expert_base s) tensors)) STORE_INDEX_BASE of
                  None \<Rightarrow> Inl Io_error
                | Some d \<Rightarrow> Inr d)"

section \<open>Writing\<close>

fun write_experts :: "store_tensor_desc \<Rightarrow> byte list \<Rightarrow> nat list \<Rightarrow> store_dev \<Rightarrow> store_dev option" where
  "write_experts t src [] d = Some d"
| "write_experts t src (e # es) d =
     (let slot = take (t_data_bytes t) (drop (e * t_data_bytes t) src) @
                 replicate (t_slice_bytes t - t_data_bytes t) 0
      in case pwrite d slot (u64 (t_store_offset t + e * t_slice_bytes t)) of
           None \<Rightarrow> None
         | Some d \<Rightarrow> write_experts t src es d)"

definition store_write_expert_tensor :: "store \<Rightarrow> nat \<Rightarrow> byte list \<Rightarrow> (nat \<times> store) option" where
  "store_write_expert_tensor st tid src =
     (let t = st_index st ! tid in
      case write_experts t src [0..<t_n_experts t] (st_dev st) of
        None \<Rightarrow> None
      | Some d \<Rightarrow> Some (t_n_experts t * t_data_bytes t, st\<lparr>st_dev := d\<rparr>))"

definition store_write_embed :: "store \<Rightarrow> nat \<Rightarrow> byte list \<Rightarrow> (nat \<times> store) option" where
  "store_write_embed st offset src =
     (if s_embed_base (st_super st) = 0 \<or> src = [] then None
      else case pwrite (st_dev st) src (u64 (s_embed_base (st_super st) + offset)) of
        None \<Rightarrow> None
      | Some d \<Rightarrow> Some (length src, st\<lparr>st_dev := d\<rparr>))"

section \<open>Lemmas: fields\<close>

lemma length_le_bytes [simp]: "length (le_bytes k v) = k"
  by (induction k v rule: le_bytes.induct) auto

lemma le_nat_le_bytes: "le_nat (le_bytes k v) = v mod 256 ^ k"
proof (induction k v rule: le_bytes.induct)
  case (2 k v)
  then show ?case
    by (simp add: mod_mult2_eq unat_of_nat)
qed simp

lemma le_nat_le_bytes_exact [simp]: "v < 256 ^ k \<Longrightarrow> le_nat (le_bytes k v) = v"
  by (simp add: le_nat_le_bytes)

lemma le_nat_inj: "length xs = length ys \<Longrightarrow> le_nat xs = le_nat ys \<Longrightarrow> xs = ys"
proof (induction xs ys rule: list_induct2)
  case (Cons x xs y ys)
  have lt: "unat z < 256" for z :: byte
    using unsigned_less[of z, where ?'a = nat] by simp
  have e: "unat x + 256 * le_nat xs = unat y + 256 * le_nat ys" using Cons.prems by simp
  have "unat x = unat y" using arg_cong[OF e, of "\<lambda>n. n mod 256"] lt by simp
  moreover from this e have "le_nat xs = le_nat ys" by simp
  ultimately show ?case using Cons.IH by (simp add: unsigned_word_eqI)
qed simp

lemma field_append1: "off + n \<le> length xs \<Longrightarrow> field off n (xs @ ys) = field off n xs"
  by (simp add: field_def)

lemma field_append2: "length xs \<le> off \<Longrightarrow> field off n (xs @ ys) = field (off - length xs) n ys"
  by (simp add: field_def)

lemma field_le_bytes [simp]: "n = k \<Longrightarrow> v < 256 ^ k \<Longrightarrow> field 0 n (le_bytes k v) = v"
  by (simp add: field_def)

definition super_ok :: "store_super \<Rightarrow> bool" where
  "super_ok s \<longleftrightarrow> s_magic s < 2 ^ 32 \<and> s_version s < 2 ^ 32 \<and> s_expert_count s < 2 ^ 32 \<and>
     s_expert_base s < 2 ^ 64 \<and> s_expert_stride s < 2 ^ 64 \<and> s_embed_base s < 2 ^ 64 \<and>
     s_embed_bytes s < 2 ^ 64 \<and> s_kv_base s < 2 ^ 64 \<and> s_kv_ring_bytes s < 2 ^ 64 \<and>
     s_kv_cell_size s < 2 ^ 64"

definition desc_ok :: "store_tensor_desc \<Rightarrow> bool" where
  "desc_ok t \<longleftrightarrow> t_layer t < 2 ^ 32 \<and> t_kind t < 2 ^ 32 \<and> t_n_experts t < 2 ^ 32 \<and>
     t_slice_bytes t < 2 ^ 32 \<and> t_data_bytes t < 2 ^ 32 \<and> t_pad0 t < 2 ^ 32 \<and> t_store_offset t < 2 ^ 64"

lemma length_super_body [simp]: "length (super_body s) = 4092"
  by (simp add: super_body_def)

lemma length_super_block [simp]: "length (super_block s) = 4096"
  by (simp add: super_block_def)

lemma length_desc_bytes [simp]: "length (desc_bytes t) = 32"
  by (simp add: desc_bytes_def)

lemma super_of_body: "super_ok s \<Longrightarrow> super_of (super_body s @ xs) = s"
  unfolding super_of_def super_body_def super_ok_def
  by (rule store_super.equality) (simp_all add: field_append1 field_append2)

lemma desc_of_bytes: "desc_ok t \<Longrightarrow> desc_of (desc_bytes t) = t"
  unfolding desc_of_def desc_bytes_def desc_ok_def
  by (rule store_tensor_desc.equality) (simp_all add: field_append1 field_append2)

lemma super_of_block [simp]: "super_ok s \<Longrightarrow> super_of (super_block s) = s"
  by (simp add: super_block_def super_of_body)

lemma super_valid_block:
  assumes "super_ok s" "s_magic s = VITRIOL_STORE_MAGIC" "s_version s = VITRIOL_STORE_VERSION"
  shows "super_valid (super_block s)"
proof -
  have "unat (store_crc32 (super_body s)) < 256 ^ 4"
    using unsigned_less[of "store_crc32 (super_body s)", where ?'a = nat] by simp
  then have "field 4092 4 (super_block s) = unat (store_crc32 (super_body s))"
    by (simp add: super_block_def field_append2)
  moreover have "take 4092 (super_block s) = super_body s" by (simp add: super_block_def)
  ultimately show ?thesis using assms by (simp add: super_valid_def)
qed

lemma concat_nth_block:
  "\<lbrakk>i < length ts; \<And>t. length (f t) = k\<rbrakk> \<Longrightarrow> take k (drop (i * k) (concat (map f ts) @ xs)) = f (ts ! i)"
proof (induction ts arbitrary: i)
  case (Cons t ts)
  then show ?case by (cases i) (simp_all add: drop_append)
qed simp

lemma length_concat_blocks: "(\<And>t. length (f t) = k) \<Longrightarrow> length (concat (map f ts)) = length ts * k"
  by (induction ts) auto

lemma index_of_zone:
  assumes "\<forall>t \<in> set ts. desc_ok t"
  shows "index_of (length ts) (concat (map desc_bytes ts) @ xs) = ts"
proof (rule nth_equalityI)
  fix i assume "i < length (index_of (length ts) (concat (map desc_bytes ts) @ xs))"
  then have i: "i < length ts" by (simp add: index_of_def)
  then have "take 32 (drop (i * 32) (concat (map desc_bytes ts) @ xs)) = desc_bytes (ts ! i)"
    by (rule concat_nth_block) simp
  then show "index_of (length ts) (concat (map desc_bytes ts) @ xs) ! i = ts ! i"
    using i assms by (simp add: index_of_def desc_of_bytes)
qed (simp add: index_of_def)

section \<open>Lemmas: the checksum detects every change of one byte\<close>

lemma crc_step_alt: "crc_step c = drop_bit 1 c XOR (if bit c 0 then 0xEDB88320 else 0)"
proof -
  have "c AND 1 = of_bool (bit c 0)" by (simp add: and_one_eq bit_0 odd_iff_mod_2_eq_one)
  then show ?thesis by (simp add: crc_step_def)
qed

lemma xor_cancel [simp]: "(a :: 'a::len word) XOR c = b XOR c \<longleftrightarrow> a = b" "c XOR a = c XOR b \<longleftrightarrow> a = b"
  by (metis xor_self_eq xor.right_neutral xor.assoc xor.commute)+

lemma crc_step_inj: "crc_step a = crc_step b \<Longrightarrow> a = b"
proof -
  assume e: "crc_step a = crc_step b"
  have "bit (crc_step c) 31 = bit c 0" for c
    using bit_imp_le_length[of c 32] by (auto simp: crc_step_alt bit_simps)
  then have b0: "bit a 0 = bit b 0" using e by metis
  then have d: "drop_bit 1 a = drop_bit 1 b"
    using e by (auto simp: crc_step_alt split: if_splits)
  show "a = b"
  proof (rule bit_word_eqI)
    fix n assume "n < LENGTH(32)"
    then show "bit a n = bit b n"
      using b0 arg_cong[OF d, of "\<lambda>w. bit w (n - 1)"] by (cases n) (auto simp: bit_simps)
  qed
qed

lemma crc_steps_inj: "(crc_step ^^ n) a = (crc_step ^^ n) b \<Longrightarrow> a = b"
  by (induction n) (auto dest: crc_step_inj)

lemma crc_byte_inj: "crc_byte x a = crc_byte x b \<Longrightarrow> a = b"
  by (auto simp: crc_byte_def dest!: crc_steps_inj)

lemma crc_byte_inj_byte: "crc_byte x a = crc_byte y a \<Longrightarrow> x = y"
proof -
  assume "crc_byte x a = crc_byte y a"
  then have "(ucast x :: 32 word) = ucast y" by (auto simp: crc_byte_def dest!: crc_steps_inj)
  then have "(ucast (ucast x :: 32 word) :: byte) = ucast (ucast y :: 32 word)" by simp
  then show "x = y" by (simp add: ucast_up_ucast_id is_up)
qed

lemma crc_fold_inj: "fold crc_byte xs a = fold crc_byte xs b \<Longrightarrow> a = b"
  by (induction xs arbitrary: a b) (auto dest: crc_byte_inj)

lemma store_crc32_update:
  assumes i: "i < length xs" and b: "b \<noteq> xs ! i"
  shows "store_crc32 (xs[i := b]) \<noteq> store_crc32 xs"
proof
  assume "store_crc32 (xs[i := b]) = store_crc32 xs"
  then have "fold crc_byte (xs[i := b]) 0xFFFFFFFF = fold crc_byte xs 0xFFFFFFFF"
    by (metis (no_types, lifting) store_crc32_def bit.double_compl)
  moreover have "xs[i := b] = take i xs @ b # drop (Suc i) xs" "xs = take i xs @ xs ! i # drop (Suc i) xs"
    using i by (simp_all add: upd_conv_take_nth_drop id_take_nth_drop)
  ultimately have "fold crc_byte (take i xs @ b # drop (Suc i) xs) 0xFFFFFFFF
      = fold crc_byte (take i xs @ xs ! i # drop (Suc i) xs) 0xFFFFFFFF" by metis
  then show False using b by (auto dest!: crc_fold_inj crc_byte_inj_byte)
qed

section \<open>Lemmas: the device\<close>

lemma length_overlay [simp]: "length (overlay off bs xs) = max (length xs) (off + length bs)"
  by (auto simp: overlay_def)

lemma nth_overlay:
  "i < max (length xs) (off + length bs) \<Longrightarrow> overlay off bs xs ! i =
     (if i < off then if i < length xs then xs ! i else 0
      else if i < off + length bs then bs ! (i - off) else xs ! i)"
  by (auto simp: overlay_def nth_append min_def)

lemma overlay_read_same: "take (length bs) (drop off (overlay off bs xs)) = bs"
  by (rule nth_equalityI) (auto simp: nth_overlay)

lemma overlay_read_other:
  assumes "off' + n \<le> length xs" "off' + n \<le> off \<or> off + length bs \<le> off'"
  shows "take n (drop off' (overlay off bs xs)) = take n (drop off' xs)"
  using assms by (intro nth_equalityI) (auto simp: nth_overlay)

text \<open>
  What the store relies on in the device: \<open>rd d n off\<close> reads \<open>n\<close> bytes at \<open>off\<close>, \<open>wr\<close> writes or
  fails, \<open>acc d off n\<close> says that the transfer is accepted and \<open>sz\<close> is the size.
\<close>

primrec write_seq :: "('d \<Rightarrow> byte list \<Rightarrow> nat \<Rightarrow> 'd option) \<Rightarrow> (nat \<times> byte list) list \<Rightarrow> 'd \<Rightarrow> 'd option" where
  "write_seq wr [] d = Some d"
| "write_seq wr (w # ws) d = (case wr d (snd w) (fst w) of None \<Rightarrow> None | Some d' \<Rightarrow> write_seq wr ws d')"

definition before :: "nat \<times> byte list \<Rightarrow> nat \<times> byte list \<Rightarrow> bool" where
  "before v w \<longleftrightarrow> fst v + length (snd v) \<le> fst w"

locale block_dev =
  fixes rd :: "'d \<Rightarrow> nat \<Rightarrow> nat \<Rightarrow> byte list"
    and wr :: "'d \<Rightarrow> byte list \<Rightarrow> nat \<Rightarrow> 'd option"
    and acc :: "'d \<Rightarrow> nat \<Rightarrow> nat \<Rightarrow> bool"
    and sz :: "'d \<Rightarrow> nat"
  assumes wr_inside: "acc d off (length bs) \<Longrightarrow> off + length bs \<le> sz d \<Longrightarrow> \<exists>d'. wr d bs off = Some d'"
    and acc_wr: "wr d bs off = Some d' \<Longrightarrow> acc d' = acc d"
    and sz_wr: "wr d bs off = Some d' \<Longrightarrow> sz d' = max (sz d) (off + length bs)"
    and rd_same: "wr d bs off = Some d' \<Longrightarrow> rd d' (length bs) off = bs"
    and rd_other: "wr d bs off = Some d' \<Longrightarrow> off' + n \<le> sz d \<Longrightarrow>
      off' + n \<le> off \<or> off + length bs \<le> off' \<Longrightarrow> rd d' n off' = rd d n off'"
begin

lemma write_seq_ok:
  assumes "\<forall>w \<in> set ws. acc d (fst w) (length (snd w)) \<and> fst w + length (snd w) \<le> sz d"
  shows "\<exists>d'. write_seq wr ws d = Some d' \<and> sz d' = sz d \<and> acc d' = acc d"
  using assms
proof (induction ws arbitrary: d)
  case (Cons w ws)
  then obtain d1 where d1: "wr d (snd w) (fst w) = Some d1" using wr_inside[of d "fst w" "snd w"] by auto
  have "sz d1 = sz d" "acc d1 = acc d" using sz_wr[OF d1] acc_wr[OF d1] Cons.prems by auto
  then show ?case using Cons.IH[of d1] Cons.prems d1 by simp
qed simp

lemma write_seq_other:
  assumes "write_seq wr ws d = Some d'" "off + n \<le> sz d"
    "\<forall>w \<in> set ws. off + n \<le> fst w \<or> fst w + length (snd w) \<le> off"
  shows "rd d' n off = rd d n off"
  using assms
proof (induction ws arbitrary: d)
  case (Cons w ws)
  then obtain d1 where d1: "wr d (snd w) (fst w) = Some d1" "write_seq wr ws d1 = Some d'"
    by (auto split: option.splits)
  have "rd d' n off = rd d1 n off" using Cons d1(2) sz_wr[OF d1(1)] by auto
  also have "\<dots> = rd d n off" using Cons.prems by (intro rd_other[OF d1(1)]) auto
  finally show ?case .
qed simp

lemma write_seq_read:
  assumes "write_seq wr ws d = Some d'" "sorted_wrt before ws" "w \<in> set ws"
  shows "rd d' (length (snd w)) (fst w) = snd w"
  using assms
proof (induction ws arbitrary: d)
  case (Cons v ws)
  then obtain d1 where d1: "wr d (snd v) (fst v) = Some d1" "write_seq wr ws d1 = Some d'"
    by (auto split: option.splits)
  show ?case
  proof (cases "w \<in> set ws")
    case True
    then show ?thesis using Cons d1(2) by simp
  next
    case False
    then have [simp]: "w = v" using Cons.prems by simp
    have "rd d' (length (snd v)) (fst v) = rd d1 (length (snd v)) (fst v)"
      using d1(2) Cons.prems sz_wr[OF d1(1)] by (intro write_seq_other) (auto simp: before_def)
    then show ?thesis using rd_same[OF d1(1)] by simp
  qed
qed simp

end

lemma pwrite_Some:
  "pwrite d bs off = Some d' \<longleftrightarrow> dev_ok d off (length bs) \<and>
     (dev_block d \<longrightarrow> off + length bs \<le> length (dev_bytes d)) \<and>
     d' = d\<lparr>dev_bytes := overlay off bs (dev_bytes d)\<rparr>"
  by (auto simp: pwrite_def)

lemma pwrite_ex:
  "dev_ok d off (length bs) \<Longrightarrow> (dev_block d \<longrightarrow> off + length bs \<le> length (dev_bytes d)) \<Longrightarrow>
     \<exists>d'. pwrite d bs off = Some d'"
  by (simp add: pwrite_def)

interpretation dev: block_dev pread pwrite dev_ok "\<lambda>d. length (dev_bytes d)"
  by unfold_locales
    (auto simp: pwrite_Some pread_def overlay_read_same overlay_read_other)

lemma pwrite_block [simp]: "pwrite d bs off = Some d' \<Longrightarrow> dev_block d' = dev_block d"
  by (auto simp: pwrite_Some)

lemma length_pread [simp]:
  "dev_ok d off n \<Longrightarrow> off + n \<le> length (dev_bytes d) \<Longrightarrow> length (pread d n off) = n"
  by (simp add: pread_def)

section \<open>Lemmas: the layout\<close>

lemma align_up_512_eq:
  assumes "n < 2 ^ 63"
  shows "align_up_512 n = (n + 511) div 512 * 512"
proof -
  have "(511 :: 64 word) = mask 9" by (simp add: mask_eq_exp_minus_1)
  then have "align_up_512 n = unat (of_nat n + 511 :: 64 word) div 512 * 512"
    using unat_clear_low[of "of_nat n + 511 :: 64 word" 9] by (simp add: align_up_512_def)
  also have "(of_nat n + 511 :: 64 word) = of_nat (n + 511)" by simp
  also have "unat (of_nat (n + 511) :: 64 word) = n + 511"
    unfolding unat_of_nat using assms by simp
  finally show ?thesis .
qed

lemma align_up_mib_eq:
  assumes "n < 2 ^ 63"
  shows "align_up_mib n = (n + 1048575) div 1048576 * 1048576"
proof -
  have "(1024 * 1024 - 1 :: 64 word) = mask 20" by (simp add: mask_eq_exp_minus_1)
  then have "align_up_mib n = unat (of_nat n + 1048575 :: 64 word) div 1048576 * 1048576"
    using unat_clear_low[of "of_nat n + 1048575 :: 64 word" 20]
    by (simp add: align_up_mib_def mask_eq_exp_minus_1)
  also have "(of_nat n + 1048575 :: 64 word) = of_nat (n + 1048575)" by simp
  also have "unat (of_nat (n + 1048575) :: 64 word) = n + 1048575"
    unfolding unat_of_nat using assms by simp
  finally show ?thesis .
qed

lemma align_up_512_bounds:
  assumes "n < 2 ^ 63"
  shows "n \<le> align_up_512 n" "align_up_512 n < n + 512" "512 dvd align_up_512 n"
  using round_up_ge[of 512 n] div_times_less_eq_dividend[of "n + 511" 512]
  by (simp_all add: align_up_512_eq[OF assms])

lemma align_up_mib_bounds:
  assumes "n < 2 ^ 63"
  shows "n \<le> align_up_mib n" "align_up_mib n < n + 1048576" "1048576 dvd align_up_mib n"
  using round_up_ge[of 1048576 n] div_times_less_eq_dividend[of "n + 1048575" 1048576]
  by (simp_all add: align_up_mib_eq[OF assms])

text \<open>The zones of a store without wrap-around.\<close>

definition expert_start :: "nat \<Rightarrow> nat" where
  "expert_start n = align_up_mib (STORE_INDEX_BASE + n * DESC_BYTES + 8)"

definition zones :: "store_tensor_desc list \<Rightarrow> nat" where
  "zones ts = sum_list (map zone_size ts)"

definition store_bytes :: "store_tensor_desc list \<Rightarrow> nat \<Rightarrow> nat \<Rightarrow> nat" where
  "store_bytes ts embed_bytes kv_bytes = expert_start (length ts) + zones ts + embed_bytes + kv_bytes"

definition layout_ok :: "store_tensor_desc list \<Rightarrow> nat \<Rightarrow> nat \<Rightarrow> bool" where
  "layout_ok ts embed_bytes kv_bytes \<longleftrightarrow> length ts < 2 ^ 32 \<and> (\<forall>t \<in> set ts. desc_ok t) \<and>
     store_bytes ts embed_bytes kv_bytes < 2 ^ 63"

lemma zones_simps [simp]: "zones [] = 0" "zones (t # ts) = zone_size t + zones ts"
  by (simp_all add: zones_def)

lemma fold_zone_size: "a + zones ts < 2 ^ 64 \<Longrightarrow> fold (\<lambda>t a. u64 (a + zone_size t)) ts a = a + zones ts"
  by (induction ts arbitrary: a) (auto simp: algebra_simps)

lemma expert_start_bounds:
  assumes "n < 2 ^ 32"
  shows "STORE_INDEX_BASE + align_up_512 (n * DESC_BYTES + 8) \<le> expert_start n" "1048576 dvd expert_start n"
    "expert_start n < 2 ^ 38" "0 < expert_start n"
proof -
  let ?i = "n * DESC_BYTES + 8" and ?m = "STORE_INDEX_BASE + n * DESC_BYTES + 8"
  have i: "?i < 2 ^ 63" "?m < 2 ^ 63" using assms by simp_all
  note a = align_up_512_bounds[OF i(1)] and b = align_up_mib_bounds[OF i(2)]
  show "1048576 dvd expert_start n" "0 < expert_start n" "expert_start n < 2 ^ 38"
    using a b assms by (simp_all add: expert_start_def)
  have d: "512 dvd expert_start n - STORE_INDEX_BASE"
    using b(3) by (auto simp: expert_start_def intro!: dvd_diff_nat intro: dvd_trans[of 512 1048576])
  have le: "?i \<le> expert_start n - STORE_INDEX_BASE" using b(1) by (simp add: expert_start_def)
  obtain k l where kl: "align_up_512 ?i = 512 * k" "expert_start n - STORE_INDEX_BASE = 512 * l"
    using a(3) d by (auto simp: dvd_def)
  have "512 * k < 512 * (l + 1)" using le kl a(2) by simp
  then have "k \<le> l" by simp
  then show "STORE_INDEX_BASE + align_up_512 ?i \<le> expert_start n"
    using kl b(1) by (simp add: expert_start_def)
qed

lemma mkfs_super_eq:
  assumes "layout_ok ts e k"
  shows "mkfs_super ts e k = \<lparr>s_magic = VITRIOL_STORE_MAGIC, s_version = VITRIOL_STORE_VERSION,
     s_expert_count = length ts, s_expert_base = expert_start (length ts),
     s_expert_stride = VITRIOL_STORE_SLOT, s_embed_base = expert_start (length ts) + zones ts,
     s_embed_bytes = e, s_kv_base = (if k > 0 then expert_start (length ts) + zones ts + e else 0),
     s_kv_ring_bytes = k, s_kv_cell_size = (if k > 0 then VITRIOL_STORE_KVCELL else 0)\<rparr>"
proof -
  have "zones ts < 2 ^ 64" "expert_start (length ts) + zones ts < 2 ^ 64"
    "expert_start (length ts) + zones ts + e < 2 ^ 64"
    using assms by (auto simp: layout_ok_def store_bytes_def)
  moreover have "length ts < 2 ^ 32" using assms by (simp add: layout_ok_def)
  ultimately show ?thesis
    using fold_zone_size[of 0 ts]
    by (simp add: mkfs_super_def Let_def expert_start_def)
qed

lemma mkfs_super_fields:
  assumes "layout_ok ts e k"
  shows "s_magic (mkfs_super ts e k) = VITRIOL_STORE_MAGIC"
    "s_version (mkfs_super ts e k) = VITRIOL_STORE_VERSION" "s_expert_count (mkfs_super ts e k) = length ts"
    "s_expert_base (mkfs_super ts e k) = expert_start (length ts)"
    "s_embed_base (mkfs_super ts e k) = expert_start (length ts) + zones ts"
    "s_embed_bytes (mkfs_super ts e k) = e"
  by (simp_all add: mkfs_super_eq[OF assms])

lemma super_ok_mkfs: "layout_ok ts e k \<Longrightarrow> super_ok (mkfs_super ts e k)"
  by (auto simp: mkfs_super_eq super_ok_def layout_ok_def store_bytes_def VITRIOL_STORE_MAGIC_def
      VITRIOL_STORE_VERSION_def VITRIOL_STORE_SLOT_def VITRIOL_STORE_KVCELL_def)

lemma store_total_mkfs: "layout_ok ts e k \<Longrightarrow> store_total (mkfs_super ts e k) = store_bytes ts e k"
  by (auto simp: store_total_def mkfs_super_eq store_bytes_def layout_ok_def)

lemma length_assign_offsets [simp]: "length (assign_offsets off ts) = length ts"
  by (induction off ts rule: assign_offsets.induct) auto

lemma nth_assign_offsets:
  "off + zones ts < 2 ^ 64 \<Longrightarrow> i < length ts \<Longrightarrow>
     assign_offsets off ts ! i = (ts ! i)\<lparr>t_store_offset := off + zones (take i ts)\<rparr>"
proof (induction off ts arbitrary: i rule: assign_offsets.induct)
  case (2 off t ts)
  then show ?case by (cases i) (simp_all add: add.assoc)
qed simp

lemma zones_take_le: "zones (take i ts) \<le> zones ts"
  by (metis append_take_drop_id le_add1 map_append sum_list.append zones_def)

lemma zones_take_Suc: "i < length ts \<Longrightarrow> zones (take (Suc i) ts) = zones (take i ts) + zone_size (ts ! i)"
  by (simp add: take_Suc_conv_app_nth zones_def)

lemma zones_take_mono: "i \<le> j \<Longrightarrow> zones (take i ts) \<le> zones (take j ts)"
  using zones_take_le[of i "take j ts"] by (simp add: min_def)

lemma desc_ok_assign_offsets:
  assumes "layout_ok ts e k" "t \<in> set (assign_offsets (expert_start (length ts)) ts)"
  shows "desc_ok t"
proof -
  obtain i where i: "i < length ts" "t = assign_offsets (expert_start (length ts)) ts ! i"
    using assms(2) by (auto simp: in_set_conv_nth)
  have s: "expert_start (length ts) + zones ts < 2 ^ 64"
    using assms(1) by (simp add: layout_ok_def store_bytes_def)
  have "desc_ok (ts ! i)" using assms(1) i by (simp add: layout_ok_def)
  then show ?thesis
    using i s zones_take_le[of i ts] by (simp add: nth_assign_offsets desc_ok_def)
qed

lemma length_index_zone:
  assumes "length ts < 2 ^ 32"
  shows "length (index_zone ts) = align_up_512 (length ts * DESC_BYTES + 8)"
    and "512 dvd length (index_zone ts)"
proof -
  have "length ts * DESC_BYTES + 8 < 2 ^ 63" using assms by simp
  note b = align_up_512_bounds[OF this]
  show "length (index_zone ts) = align_up_512 (length ts * DESC_BYTES + 8)"
    using b(1) by (simp add: index_zone_def Let_def length_concat_blocks[of desc_bytes 32])
  then show "512 dvd length (index_zone ts)" using b(3) by simp
qed

section \<open>Lemmas: a formatted device\<close>

text \<open>\<open>O_DIRECT\<close>: transfers of whole sectors at sector boundaries are accepted.\<close>

definition dev_aligned :: "store_dev \<Rightarrow> bool" where
  "dev_aligned d \<longleftrightarrow> (\<forall>off n. 512 dvd off \<and> 512 dvd n \<longrightarrow> dev_ok d off n)"

text \<open>The device holds the superblock twice and the index of \<open>idx\<close>.\<close>

definition formatted :: "store_super \<Rightarrow> store_tensor_desc list \<Rightarrow> store_dev \<Rightarrow> bool" where
  "formatted s idx d \<longleftrightarrow> pread d VITRIOL_STORE_BLK 0 = super_block s \<and>
     pread d VITRIOL_STORE_BLK VITRIOL_STORE_BLK = super_block s \<and>
     pread d (length (index_zone idx)) STORE_INDEX_BASE = index_zone idx"

definition opened :: "bool \<Rightarrow> store_dev \<Rightarrow> store_super \<Rightarrow> store_tensor_desc list \<Rightarrow> store" where
  "opened uring d s idx = \<lparr>st_dev = d, st_super = s, st_index = idx, st_n_tensors = length idx,
     st_uring_ok = uring, st_async_tid = 0, st_async_expert = 0, st_async_data_bytes = 0,
     st_async_slice_bytes = 0, st_inflight = 0\<rparr>"

lemma pread_ftruncate:
  "ftruncate d m = Some d' \<Longrightarrow> off + n \<le> m \<Longrightarrow> off + n \<le> length (dev_bytes d) \<Longrightarrow> pread d' n off = pread d n off"
  by (auto simp: ftruncate_def pread_def drop_take min_def split: if_splits)

lemma dev_alignedD: "dev_aligned d \<Longrightarrow> 512 dvd off \<Longrightarrow> 512 dvd n \<Longrightarrow> dev_ok d off n"
  by (simp add: dev_aligned_def)

lemma mkfs_formats:
  assumes lay: "layout_ok ts e k" and al: "dev_aligned d"
    and blk: "dev_block d \<longrightarrow> store_bytes ts e k \<le> length (dev_bytes d)"
  defines "s \<equiv> mkfs_super ts e k" and "idx \<equiv> assign_offsets (expert_start (length ts)) ts"
  obtains d' where "store_mkfs (Some d) ts e k = Inr d'" "formatted s idx d'" "dev_ok d' = dev_ok d"
    "dev_block d' = dev_block d" "store_bytes ts e k \<le> length (dev_bytes d')"
proof -
  let ?sb = "super_block s" and ?z = "index_zone idx" and ?n = "store_bytes ts e k"
  have n: "length ts < 2 ^ 32" "?n < 2 ^ 63" using lay by (simp_all add: layout_ok_def)
  have zl: "length ?z = align_up_512 (length ts * DESC_BYTES + 8)" "512 dvd length ?z"
    using length_index_zone[of idx] n by (simp_all add: idx_def)
  have zn: "STORE_INDEX_BASE + length ?z \<le> ?n"
    using expert_start_bounds(1)[OF n(1)] zl by (simp add: store_bytes_def)
  obtain d1 where d1: "pwrite d ?sb 0 = Some d1"
    using blk zn dev_alignedD[OF al, of 0 4096] pwrite_ex[of d 0 ?sb] by auto
  note p1 = pwrite_Some[THEN iffD1, OF d1]
  obtain d2 where d2: "pwrite d1 ?sb VITRIOL_STORE_BLK = Some d2"
    using p1 blk zn dev_alignedD[OF al, of 4096 4096] pwrite_ex[of d1 4096 ?sb] by auto
  note p2 = pwrite_Some[THEN iffD1, OF d2]
  have l2: "length (dev_bytes d2) \<ge> 8192" "dev_block d2 = dev_block d" "dev_ok d2 = dev_ok d"
    "length (dev_bytes d) \<le> length (dev_bytes d2)"
    using p1 p2 by simp_all
  have r2: "pread d2 4096 0 = ?sb" "pread d2 4096 4096 = ?sb"
    using dev.rd_same[OF d2] dev.rd_same[OF d1] dev.rd_other[OF d2, of 0 4096] dev.sz_wr[OF d1] by simp_all
  obtain d3 where d3: "(if dev_block d2 then Some d2 else ftruncate d2 ?n) = Some d3"
    using n by (cases "dev_block d2") (auto simp: ftruncate_def)
  have l3: "?n \<le> length (dev_bytes d3)" "dev_block d3 = dev_block d" "dev_ok d3 = dev_ok d"
    using d3 blk l2 n by (auto simp: ftruncate_def split: if_splits)
  have r3: "pread d3 4096 0 = ?sb" "pread d3 4096 4096 = ?sb"
    using d3 r2 l2 zn pread_ftruncate[of d2 ?n d3 0 4096] pread_ftruncate[of d2 ?n d3 4096 4096]
    by (simp_all split: if_splits)
  obtain d4 where d4: "pwrite d3 ?z STORE_INDEX_BASE = Some d4"
    using l3 zn dev_alignedD[OF al _ zl(2), of 8192] pwrite_ex[of d3 8192 ?z] by auto
  have "formatted s idx d4"
    using dev.rd_same[OF d4] r3 dev.rd_other[OF d4, of 0 4096] dev.rd_other[OF d4, of 4096 4096] l3 zn
    by (simp add: formatted_def)
  moreover have "store_mkfs (Some d) ts e k = Inr d4"
  proof -
    have "write_super d s = Inr d2" using d1 d2 by (simp add: write_super_def write_super_at_def)
    moreover have "store_total s = ?n" "assign_offsets (s_expert_base s) ts = idx"
      using lay by (simp_all add: s_def store_total_mkfs mkfs_super_fields idx_def)
    ultimately show ?thesis
      unfolding store_mkfs_def Let_def s_def[symmetric] option.case by (simp only: d3 d4 sum.case option.case)
  qed
  moreover have "dev_ok d4 = dev_ok d" "dev_block d4 = dev_block d" "?n \<le> length (dev_bytes d4)"
    using l3 pwrite_Some[THEN iffD1, OF d4] by simp_all
  ultimately show thesis using that by blast
qed

lemma index_zone_read:
  assumes "length idx < 2 ^ 32" "\<forall>t \<in> set idx. desc_ok t"
  defines "z \<equiv> index_zone idx" and "n \<equiv> length idx * DESC_BYTES"
  shows "unat (store_crc32 (take n z)) = field n 8 z" "index_of (length idx) z = idx"
    "take n z = concat (map desc_bytes idx)"
proof -
  let ?b = "concat (map desc_bytes idx)"
  have lb: "length ?b = n" by (simp add: n_def length_concat_blocks[of desc_bytes 32])
  obtain pad where z: "z = ?b @ le_bytes 8 (unat (store_crc32 ?b)) @ pad"
    by (simp add: z_def index_zone_def Let_def)
  show t: "take n z = ?b" using lb by (simp add: z)
  have "unat (store_crc32 ?b) < 2 ^ 32"
    using unsigned_less[of "store_crc32 ?b", where ?'a = nat] by simp
  then have "unat (store_crc32 ?b) < 256 ^ 8" by simp
  then have "field n 8 z = unat (store_crc32 ?b)"
    by (simp add: z field_append1 field_append2 lb)
  then show "unat (store_crc32 (take n z)) = field n 8 z" using t by simp
  show "index_of (length idx) z = idx" using assms(2) by (simp add: z index_of_zone)
qed

text \<open>Opening needs only one of the two superblocks.\<close>

lemma open_reads_index:
  assumes s: "super_ok s" "s_magic s = VITRIOL_STORE_MAGIC" "s_version s = VITRIOL_STORE_VERSION"
    and idx: "s_expert_count s = length idx" "\<forall>t \<in> set idx. desc_ok t"
    and b: "length (pread d VITRIOL_STORE_BLK 0) = VITRIOL_STORE_BLK"
      "length (pread d VITRIOL_STORE_BLK VITRIOL_STORE_BLK) = VITRIOL_STORE_BLK"
    and one: "pread d VITRIOL_STORE_BLK 0 = super_block s \<or>
      \<not> super_valid (pread d VITRIOL_STORE_BLK 0) \<and> pread d VITRIOL_STORE_BLK VITRIOL_STORE_BLK = super_block s"
    and z: "pread d (length (index_zone idx)) STORE_INDEX_BASE = index_zone idx"
  shows "store_open uring (Some d) = Inr (opened uring d s idx)"
proof -
  have n: "length idx < 2 ^ 32" using s idx by (simp add: super_ok_def)
  have v: "super_valid (super_block s)" using s by (rule super_valid_block)
  have sel: "super_of (if super_valid (pread d 4096 0) then pread d 4096 0 else pread d 4096 4096) = s"
    "super_valid (pread d 4096 0) \<or> super_valid (pread d 4096 4096)"
    using one v s(1) by auto
  note ir = index_zone_read[OF n idx(2)]
  show ?thesis
  proof (cases "idx = []")
    case True
    then show ?thesis using b sel idx(1) by (simp add: store_open_def Let_def opened_def)
  next
    case False
    then show ?thesis
      using b sel idx(1) z ir length_index_zone(1)[OF n]
      by (simp add: store_open_def Let_def opened_def)
  qed
qed

section \<open>Lemmas: damaged bytes\<close>

lemma crc_field_broken:
  assumes ok: "unat (store_crc32 (take n z)) = field n k z" and len: "n + k \<le> length z"
    and i: "i < n + k" and b: "b \<noteq> z ! i"
  shows "unat (store_crc32 (take n (z[i := b]))) \<noteq> field n k (z[i := b])"
proof (cases "i < n")
  case True
  then have "field n k (z[i := b]) = field n k z" by (simp add: field_def)
  moreover have "store_crc32 (take n (z[i := b])) \<noteq> store_crc32 (take n z)"
    using True len b by (simp add: take_update_swap store_crc32_update)
  ultimately show ?thesis using ok by (metis unsigned_word_eqI)
next
  case False
  let ?f = "take k (drop n z)"
  have "take k (drop n (z[i := b])) = ?f[i - n := b]"
    using False by (simp add: drop_update_swap take_update_swap)
  moreover have "?f[i - n := b] \<noteq> ?f"
  proof -
    have "?f ! (i - n) = z ! i" "i - n < length ?f" using False i len by simp_all
    then show ?thesis using b by (metis nth_list_update_eq)
  qed
  ultimately have "field n k (z[i := b]) \<noteq> field n k z"
    unfolding field_def using le_nat_inj[of "?f[i - n := b]" ?f] by auto
  moreover have "take n (z[i := b]) = take n z" using False by simp
  ultimately show ?thesis using ok by simp
qed

definition damage :: "nat \<Rightarrow> byte \<Rightarrow> store_dev \<Rightarrow> store_dev" where
  "damage i b d = d\<lparr>dev_bytes := (dev_bytes d)[i := b]\<rparr>"

lemma pread_damage:
  "pread (damage i b d) n off =
     (if off \<le> i then (pread d n off)[i - off := b] else pread d n off)"
  by (auto simp: damage_def pread_def drop_update_swap take_update_swap)

lemma damage_same: "dev_bytes d ! i = b \<Longrightarrow> damage i b d = d"
  by (auto simp: damage_def list_update_id)

lemma formatted_parts:
  assumes "formatted s idx d"
  shows "pread d 4096 0 = super_block s" "pread d 4096 4096 = super_block s"
    "pread d (length (index_zone idx)) 8192 = index_zone idx"
  using assms by (simp_all add: formatted_def)

lemma pread_nth: "pread d n off = bs \<Longrightarrow> i < length bs \<Longrightarrow> bs ! i = dev_bytes d ! (off + i)"
  by (auto simp: pread_def split: if_splits)

lemma super_block_damaged:
  assumes "super_ok s" "s_magic s = VITRIOL_STORE_MAGIC" "s_version s = VITRIOL_STORE_VERSION"
    and "i < 4096" "b \<noteq> super_block s ! i"
  shows "\<not> super_valid ((super_block s)[i := b])"
  using crc_field_broken[of 4092 "super_block s" 4 i b] super_valid_block[OF assms(1-3)] assms(4,5)
  by (simp add: super_valid_def)

section \<open>Properties: formatting and opening\<close>

text \<open>C28: Formatting and then opening a store returns it: on a device that accepts aligned transfers
  and is large enough, \<open>store_mkfs\<close> succeeds, the device then has room for the whole layout, and
  \<open>store_open\<close> succeeds with the superblock that was written and the given descriptors, each with
  the offset behind its predecessor's slots.\<close>

theorem mkfs_open_roundtrip:
  assumes "layout_ok ts e k" "dev_aligned d" "dev_block d \<longrightarrow> store_bytes ts e k \<le> length (dev_bytes d)"
  shows "\<exists>d'. store_mkfs (Some d) ts e k = Inr d' \<and> store_bytes ts e k \<le> length (dev_bytes d') \<and>
     store_open uring (Some d') =
       Inr (opened uring d' (mkfs_super ts e k) (assign_offsets (expert_start (length ts)) ts))"
proof -
  let ?s = "mkfs_super ts e k" and ?idx = "assign_offsets (expert_start (length ts)) ts"
  obtain d' where d': "store_mkfs (Some d) ts e k = Inr d'" "formatted ?s ?idx d'"
    "store_bytes ts e k \<le> length (dev_bytes d')"
    using mkfs_formats[OF assms] by blast
  have "store_open uring (Some d') = Inr (opened uring d' ?s ?idx)"
    using formatted_parts[OF d'(2)] desc_ok_assign_offsets[OF assms(1)] mkfs_super_fields[OF assms(1)]
    by (intro open_reads_index[OF super_ok_mkfs[OF assms(1)]]) simp_all
  with d' show ?thesis by blast
qed

text \<open>C30: Any single damaged byte in the two superblock copies is harmless: the store still opens with
  the superblock and index that were written.\<close>

theorem super_damage_repaired:
  assumes lay: "layout_ok ts e k" and al: "dev_aligned d"
    and blk: "dev_block d \<longrightarrow> store_bytes ts e k \<le> length (dev_bytes d)"
    and mk: "store_mkfs (Some d) ts e k = Inr d'" and i: "i < 2 * VITRIOL_STORE_BLK"
  shows "store_open uring (Some (damage i b d')) =
     Inr (opened uring (damage i b d') (mkfs_super ts e k) (assign_offsets (expert_start (length ts)) ts))"
proof -
  let ?s = "mkfs_super ts e k" and ?idx = "assign_offsets (expert_start (length ts)) ts"
  have f: "formatted ?s ?idx d'"
    using mkfs_formats[OF lay al blk] mk by (metis sum.inject(2))
  note p = formatted_parts[OF f] and sf = mkfs_super_fields[OF lay]
  have "pread (damage i b d') 4096 0 = super_block ?s \<or>
      \<not> super_valid (pread (damage i b d') 4096 0) \<and> pread (damage i b d') 4096 4096 = super_block ?s"
  proof (cases "i < 4096 \<and> b \<noteq> super_block ?s ! i")
    case True
    then show ?thesis
      using super_block_damaged[OF super_ok_mkfs[OF lay] sf(1,2)] p by (simp add: pread_damage)
  next
    case False
    then show ?thesis using p by (cases "i < 4096") (auto simp: pread_damage list_update_beyond)
  qed
  moreover have "pread (damage i b d') (length (index_zone ?idx)) STORE_INDEX_BASE = index_zone ?idx"
    using p(3) i by (simp add: pread_damage)
  ultimately show ?thesis
    using p desc_ok_assign_offsets[OF lay] sf
    by (intro open_reads_index[OF super_ok_mkfs[OF lay]]) (simp_all add: pread_damage)
qed

text \<open>C31: Any single damaged byte of the descriptors or of their checksum is detected: the store is
  refused with \<open>index_corrupt\<close>.\<close>

theorem index_damage_detected:
  assumes lay: "layout_ok ts e k" and al: "dev_aligned d"
    and blk: "dev_block d \<longrightarrow> store_bytes ts e k \<le> length (dev_bytes d)"
    and mk: "store_mkfs (Some d) ts e k = Inr d'" and ts: "ts \<noteq> []"
    and i: "i < length ts * DESC_BYTES + 8" and b: "b \<noteq> dev_bytes d' ! (STORE_INDEX_BASE + i)"
  shows "store_open uring (Some (damage (STORE_INDEX_BASE + i) b d')) = Inl Index_corrupt"
proof -
  let ?s = "mkfs_super ts e k" and ?idx = "assign_offsets (expert_start (length ts)) ts"
  let ?z = "index_zone ?idx" and ?n = "length ts * DESC_BYTES"
  have f: "formatted ?s ?idx d'"
    using mkfs_formats[OF lay al blk] mk by (metis sum.inject(2))
  note p = formatted_parts[OF f] and sf = mkfs_super_fields[OF lay]
  have n: "length ?idx < 2 ^ 32" using lay by (simp add: layout_ok_def)
  have zl: "length ?z = align_up_512 (?n + 8)" "?n + 8 \<le> length ?z"
    using length_index_zone(1)[OF n] align_up_512_bounds(1)[of "?n + 8"] n by simp_all
  have "\<forall>t \<in> set ?idx. desc_ok t" using desc_ok_assign_offsets[OF lay] by blast
  note crc = index_zone_read(1)[OF n this, simplified]
  have "b \<noteq> ?z ! i" using b pread_nth[OF p(3), of i] i zl by simp
  then have bad: "unat (store_crc32 (take ?n (?z[i := b]))) \<noteq> field ?n 8 (?z[i := b])"
    using crc_field_broken[OF crc zl(2) i] by simp
  have "super_valid (super_block ?s)" by (rule super_valid_block[OF super_ok_mkfs[OF lay] sf(1,2)])
  then show ?thesis
    using p bad zl ts sf super_ok_mkfs[OF lay] by (simp add: store_open_def Let_def pread_damage list_update_beyond)
qed

section \<open>Lemmas: slots\<close>

text \<open>
  A mounted store: opened on a device that was formatted for the descriptors \<open>ts\<close>. Padded
  descriptors: slots of whole sectors, large enough for the data.
\<close>

definition mounted :: "store_tensor_desc list \<Rightarrow> nat \<Rightarrow> nat \<Rightarrow> store \<Rightarrow> bool" where
  "mounted ts e k st \<longleftrightarrow> layout_ok ts e k \<and> st_super st = mkfs_super ts e k \<and>
     st_index st = assign_offsets (expert_start (length ts)) ts \<and> st_n_tensors st = length ts \<and>
     dev_aligned (st_dev st) \<and> store_bytes ts e k \<le> length (dev_bytes (st_dev st))"

definition padded :: "store_tensor_desc list \<Rightarrow> bool" where
  "padded ts \<longleftrightarrow> (\<forall>t \<in> set ts. 512 dvd t_slice_bytes t \<and> t_data_bytes t \<le> t_slice_bytes t)"

lemma paddedD:
  "padded ts \<Longrightarrow> i < length ts \<Longrightarrow> 512 dvd t_slice_bytes (ts ! i) \<and> t_data_bytes (ts ! i) \<le> t_slice_bytes (ts ! i)"
  by (simp add: padded_def)

lemma padded_zones_dvd: "padded ts \<Longrightarrow> 512 dvd zones ts"
  by (induction ts) (auto simp: padded_def zone_size_def)

lemma mountedD:
  assumes "mounted ts e k st"
  shows "layout_ok ts e k" "st_super st = mkfs_super ts e k" "st_n_tensors st = length ts"
    "dev_aligned (st_dev st)" "store_bytes ts e k \<le> length (dev_bytes (st_dev st))"
    "tid < length ts \<Longrightarrow> st_index st ! tid = (ts ! tid)\<lparr>t_store_offset := expert_start (length ts) + zones (take tid ts)\<rparr>"
proof -
  show "layout_ok ts e k" "st_super st = mkfs_super ts e k" "st_n_tensors st = length ts"
    "dev_aligned (st_dev st)" "store_bytes ts e k \<le> length (dev_bytes (st_dev st))"
    using assms by (simp_all add: mounted_def)
  have "expert_start (length ts) + zones ts < 2 ^ 64"
    using assms by (simp add: mounted_def layout_ok_def store_bytes_def)
  then show "tid < length ts \<Longrightarrow> st_index st ! tid = (ts ! tid)\<lparr>t_store_offset := expert_start (length ts) + zones (take tid ts)\<rparr>"
    using assms by (simp add: mounted_def nth_assign_offsets)
qed

definition slot_start :: "store_tensor_desc list \<Rightarrow> nat \<Rightarrow> nat \<Rightarrow> nat" where
  "slot_start ts tid ei = expert_start (length ts) + zones (take tid ts) + ei * t_slice_bytes (ts ! tid)"

lemma slot_end_in_tensor:
  assumes "tid < length ts" "ei < t_n_experts (ts ! tid)"
  shows "slot_start ts tid ei + t_slice_bytes (ts ! tid) \<le> expert_start (length ts) + zones (take (Suc tid) ts)"
proof -
  have "Suc ei * t_slice_bytes (ts ! tid) \<le> t_n_experts (ts ! tid) * t_slice_bytes (ts ! tid)"
    using assms(2) by (intro mult_le_mono1) simp
  then show ?thesis using assms(1) by (simp add: slot_start_def zones_take_Suc zone_size_def)
qed

lemma slot_end:
  "tid < length ts \<Longrightarrow> ei < t_n_experts (ts ! tid) \<Longrightarrow>
     slot_start ts tid ei + t_slice_bytes (ts ! tid) \<le> expert_start (length ts) + zones ts"
  using slot_end_in_tensor[of tid ts ei] zones_take_le[of "Suc tid" ts] by linarith

lemma slot_before:
  assumes "tid < length ts" "tid' < length ts" "ei < t_n_experts (ts ! tid)"
    and "tid < tid' \<or> tid = tid' \<and> ei < ei'"
  shows "slot_start ts tid ei + t_slice_bytes (ts ! tid) \<le> slot_start ts tid' ei'"
  using assms(4)
proof
  assume "tid < tid'"
  then have "zones (take (Suc tid) ts) \<le> zones (take tid' ts)" by (intro zones_take_mono) simp
  then show ?thesis using slot_end_in_tensor[OF assms(1,3)] by (simp add: slot_start_def)
next
  assume "tid = tid' \<and> ei < ei'"
  then have "Suc ei * t_slice_bytes (ts ! tid) \<le> ei' * t_slice_bytes (ts ! tid)" by (intro mult_le_mono1) simp
  then show ?thesis using \<open>tid = tid' \<and> ei < ei'\<close> by (simp add: slot_start_def)
qed

lemma slot_aligned:
  assumes "padded ts" "length ts < 2 ^ 32" "tid < length ts"
  shows "512 dvd slot_start ts tid ei"
proof -
  have "512 dvd expert_start (length ts)"
    using expert_start_bounds(2)[OF assms(2)] by (rule dvd_trans[rotated]) simp
  moreover have "512 dvd zones (take tid ts)"
    using assms(1) by (intro padded_zones_dvd) (auto simp: padded_def dest: in_set_takeD)
  ultimately show ?thesis using paddedD[OF assms(1,3)] by (simp add: slot_start_def)
qed

lemma expert_offset_slot:
  assumes "mounted ts e k st" "tid < length ts" "ei < t_n_experts (ts ! tid)"
  shows "u64 (t_store_offset (st_index st ! tid) + ei * t_slice_bytes (st_index st ! tid)) = slot_start ts tid ei"
    and "store_expert_offset st tid ei = slot_start ts tid ei"
proof -
  have "slot_start ts tid ei < 2 ^ 64"
    using slot_end[OF assms(2,3)] mountedD(1)[OF assms(1)] by (simp add: layout_ok_def store_bytes_def)
  then show "u64 (t_store_offset (st_index st ! tid) + ei * t_slice_bytes (st_index st ! tid)) = slot_start ts tid ei"
    using mountedD(6)[OF assms(1,2)] by (simp add: slot_start_def)
  then show "store_expert_offset st tid ei = slot_start ts tid ei" by (simp add: store_expert_offset_def)
qed

text \<open>C32: The slots of a store lie where they should: every slot starts at a sector boundary inside the
  expert zone and ends before the embed zone, and the slots of two different experts do not overlap.\<close>

theorem expert_slots_disjoint:
  assumes m: "mounted ts e k st" and p: "padded ts"
    and i: "tid < length ts" "ei < t_n_experts (ts ! tid)"
    and j: "tid' < length ts" "ei' < t_n_experts (ts ! tid')" and ne: "(tid, ei) \<noteq> (tid', ei')"
  shows "512 dvd store_expert_offset st tid ei \<and>
    s_expert_base (st_super st) \<le> store_expert_offset st tid ei \<and>
    store_expert_offset st tid ei + t_slice_bytes (ts ! tid) \<le> s_embed_base (st_super st) \<and>
    (store_expert_offset st tid ei + t_slice_bytes (ts ! tid) \<le> store_expert_offset st tid' ei' \<or>
     store_expert_offset st tid' ei' + t_slice_bytes (ts ! tid') \<le> store_expert_offset st tid ei)"
proof -
  have lay: "layout_ok ts e k" using m by (rule mountedD(1))
  then have n: "length ts < 2 ^ 32" by (simp add: layout_ok_def)
  have "slot_start ts tid ei + t_slice_bytes (ts ! tid) \<le> slot_start ts tid' ei' \<or>
     slot_start ts tid' ei' + t_slice_bytes (ts ! tid') \<le> slot_start ts tid ei"
    using slot_before[OF i(1) j(1) i(2)] slot_before[OF j(1) i(1) j(2)] ne by (metis linorder_neqE_nat)
  moreover have "expert_start (length ts) \<le> slot_start ts tid ei" by (simp add: slot_start_def)
  ultimately show ?thesis
    using slot_aligned[OF p n i(1)] slot_end[OF i] mkfs_super_fields[OF lay] mountedD(2)[OF m]
    by (simp add: expert_offset_slot(2)[OF m i] expert_offset_slot(2)[OF m j])
qed

section \<open>Lemmas: writing experts\<close>

definition slot_bytes :: "store_tensor_desc \<Rightarrow> byte list \<Rightarrow> nat \<Rightarrow> byte list" where
  "slot_bytes t src ei = take (t_data_bytes t) (drop (ei * t_data_bytes t) src) @
     replicate (t_slice_bytes t - t_data_bytes t) 0"

lemma write_experts_seq:
  "write_experts t src es d =
     write_seq pwrite (map (\<lambda>ei. (u64 (t_store_offset t + ei * t_slice_bytes t), slot_bytes t src ei)) es) d"
  by (induction es arbitrary: d) (auto simp: slot_bytes_def Let_def split: option.splits)

lemma expert_data_inside:
  assumes "length src = n * k" "ei < n"
  shows "length (take k (drop (ei * k) src)) = (k :: nat)"
proof -
  have "Suc ei * k \<le> n * k" using assms(2) by (intro mult_le_mono1) simp
  then show ?thesis using assms(1) by simp
qed

text \<open>Reading is determined by the bytes of the slot.\<close>

lemma store_read_expert_slot:
  assumes m: "mounted ts e k st" and p: "padded ts" and i: "tid < length ts"
  shows "store_read_expert st tid ei al n =
     (if ei < t_n_experts (ts ! tid) \<and> t_data_bytes (ts ! tid) \<noteq> 0 \<and> n = t_data_bytes (ts ! tid)
      then Some (take n (pread (st_dev st) (t_slice_bytes (ts ! tid)) (slot_start ts tid ei))) else None)"
proof (cases "ei < t_n_experts (ts ! tid)")
  case True
  let ?r = "pread (st_dev st) (t_slice_bytes (ts ! tid)) (slot_start ts tid ei)"
  have lay: "layout_ok ts e k" using m by (rule mountedD(1))
  then have "length ts < 2 ^ 32" by (simp add: layout_ok_def)
  then have "dev_ok (st_dev st) (slot_start ts tid ei) (t_slice_bytes (ts ! tid))"
    using dev_alignedD[OF mountedD(4)[OF m]] slot_aligned[OF p _ i] paddedD[OF p i] by simp
  then have "length ?r = t_slice_bytes (ts ! tid)"
    using slot_end[OF i True] mountedD(5)[OF m] by (intro length_pread) (simp_all add: store_bytes_def)
  then show ?thesis
    using True i paddedD[OF p i] mountedD(3)[OF m]
    by (auto simp: store_read_expert_def Let_def mountedD(6)[OF m i] expert_offset_slot(2)[OF m i True])
next
  case False
  then show ?thesis
    using i by (simp add: store_read_expert_def Let_def mountedD(3,6)[OF m])
qed

lemma store_read_expert_range: "mounted ts e k st \<Longrightarrow> length ts \<le> tid \<Longrightarrow> store_read_expert st tid ei al n = None"
  by (simp add: store_read_expert_def mountedD(3))

text \<open>The device after all slots of one tensor are written.\<close>

lemma write_experts_slots:
  assumes m: "mounted ts e k st" and p: "padded ts" and i: "tid < length ts"
    and src: "length src = t_n_experts (ts ! tid) * t_data_bytes (ts ! tid)"
  obtains d' where "write_experts (st_index st ! tid) src [0..<t_n_experts (ts ! tid)] (st_dev st) = Some d'"
    "mounted ts e k (st\<lparr>st_dev := d'\<rparr>)"
    "\<forall>ei < t_n_experts (ts ! tid).
       pread d' (t_slice_bytes (ts ! tid)) (slot_start ts tid ei) = slot_bytes (ts ! tid) src ei"
    "\<forall>off n. off + n \<le> store_bytes ts e k \<and>
       (off + n \<le> slot_start ts tid 0 \<or> expert_start (length ts) + zones (take (Suc tid) ts) \<le> off) \<longrightarrow>
       pread d' n off = pread (st_dev st) n off"
proof -
  let ?t = "st_index st ! tid"
  let ?ws = "map (\<lambda>ei. (slot_start ts tid ei, slot_bytes (ts ! tid) src ei)) [0..<t_n_experts (ts ! tid)]"
  note t = mountedD(6)[OF m i] and pd = paddedD[OF p i]
  have n: "length ts < 2 ^ 32" using mountedD(1)[OF m] by (simp add: layout_ok_def)
  have sl: "length (slot_bytes (ts ! tid) src ei) = t_slice_bytes (ts ! tid)" if "ei < t_n_experts (ts ! tid)" for ei
    using expert_data_inside[OF src that] pd by (simp add: slot_bytes_def)
  have we: "write_experts ?t src [0..<t_n_experts (ts ! tid)] d = write_seq pwrite ?ws d" for d
    unfolding write_experts_seq using expert_offset_slot(1)[OF m i]
    by (intro arg_cong[where f = "\<lambda>ws. write_seq pwrite ws d"] map_cong) (auto simp: slot_bytes_def t)
  have acc: "\<forall>w \<in> set ?ws. dev_ok (st_dev st) (fst w) (length (snd w)) \<and>
      fst w + length (snd w) \<le> length (dev_bytes (st_dev st))"
  proof
    fix w assume "w \<in> set ?ws"
    then obtain ei where ei: "ei < t_n_experts (ts ! tid)" "w = (slot_start ts tid ei, slot_bytes (ts ! tid) src ei)"
      by auto
    then show "dev_ok (st_dev st) (fst w) (length (snd w)) \<and> fst w + length (snd w) \<le> length (dev_bytes (st_dev st))"
      using slot_end[OF i ei(1)] mountedD(5)[OF m] dev_alignedD[OF mountedD(4)[OF m]] slot_aligned[OF p n i] pd
      by (simp add: sl store_bytes_def)
  qed
  obtain d' where d': "write_seq pwrite ?ws (st_dev st) = Some d'" "dev_ok d' = dev_ok (st_dev st)"
    "length (dev_bytes d') = length (dev_bytes (st_dev st))"
    using dev.write_seq_ok[OF acc] by blast
  have "mounted ts e k (st\<lparr>st_dev := d'\<rparr>)" using m d'(2,3) by (simp add: mounted_def dev_aligned_def)
  moreover have "sorted_wrt before ?ws"
    using slot_before[OF i i] by (auto simp: sorted_wrt_map sorted_wrt_iff_nth_less before_def sl)
  then have "\<forall>ei < t_n_experts (ts ! tid).
      pread d' (t_slice_bytes (ts ! tid)) (slot_start ts tid ei) = slot_bytes (ts ! tid) src ei"
    using dev.write_seq_read[OF d'(1)] sl by fastforce
  moreover have "pread d' n off = pread (st_dev st) n off"
    if "off + n \<le> store_bytes ts e k"
      "off + n \<le> slot_start ts tid 0 \<or> expert_start (length ts) + zones (take (Suc tid) ts) \<le> off" for off n
  proof (rule dev.write_seq_other[OF d'(1)])
    show "off + n \<le> length (dev_bytes (st_dev st))" using that(1) mountedD(5)[OF m] by simp
    have "off + n \<le> slot_start ts tid ei \<or> slot_start ts tid ei + t_slice_bytes (ts ! tid) \<le> off"
      if "ei < t_n_experts (ts ! tid)" for ei
      using \<open>off + n \<le> slot_start ts tid 0 \<or> _\<close> slot_end_in_tensor[OF i that] by (auto simp: slot_start_def)
    then show "\<forall>w \<in> set ?ws. off + n \<le> fst w \<or> fst w + length (snd w) \<le> off" by (simp add: sl)
  qed
  moreover have "write_experts ?t src [0..<t_n_experts (ts ! tid)] (st_dev st) = Some d'"
    using we d'(1) by simp
  ultimately show thesis by (intro that[of d']) auto
qed

lemma write_experts_ok: "write_experts t src es d = Some d' \<Longrightarrow> dev_ok d' = dev_ok d"
proof (induction es arbitrary: d)
  case (Cons e es)
  then obtain d1 bs off where d1: "pwrite d bs off = Some d1" "write_experts t src es d1 = Some d'"
    unfolding write_experts.simps Let_def by (auto split: option.splits)
  show ?case using Cons.IH[OF d1(2)] d1(1)[unfolded pwrite_Some] by simp
qed simp

text \<open>C29: What is written is what is read: writing the experts of a tensor succeeds and returns the
  number of bytes, afterwards each expert of the tensor reads back as its part of the source, and the
  experts of all other tensors and the embed zone read as before.\<close>

theorem write_read_experts:
  assumes m: "mounted ts e k st" and p: "padded ts" and i: "tid < length ts"
    and pos: "t_data_bytes (ts ! tid) > 0"
    and src: "length src = t_n_experts (ts ! tid) * t_data_bytes (ts ! tid)"
  shows "\<exists>st'. store_write_expert_tensor st tid src = Some (length src, st') \<and> mounted ts e k st' \<and>
    (\<forall>ei < t_n_experts (ts ! tid). \<forall>al. store_read_expert st' tid ei al (t_data_bytes (ts ! tid)) =
       Some (take (t_data_bytes (ts ! tid)) (drop (ei * t_data_bytes (ts ! tid)) src))) \<and>
    (\<forall>tid' ei al n. tid' \<noteq> tid \<longrightarrow> store_read_expert st' tid' ei al n = store_read_expert st tid' ei al n) \<and>
    (\<forall>off n. off + n \<le> e \<longrightarrow> store_read_embed st' off n = store_read_embed st off n)"
proof -
  obtain d' where w: "write_experts (st_index st ! tid) src [0..<t_n_experts (ts ! tid)] (st_dev st) = Some d'"
    and m': "mounted ts e k (st\<lparr>st_dev := d'\<rparr>)"
    and same: "\<forall>ei < t_n_experts (ts ! tid).
       pread d' (t_slice_bytes (ts ! tid)) (slot_start ts tid ei) = slot_bytes (ts ! tid) src ei"
    and other: "\<forall>off n. off + n \<le> store_bytes ts e k \<and>
       (off + n \<le> slot_start ts tid 0 \<or> expert_start (length ts) + zones (take (Suc tid) ts) \<le> off) \<longrightarrow>
       pread d' n off = pread (st_dev st) n off"
    using write_experts_slots[OF m p i src] by blast
  let ?st = "st\<lparr>st_dev := d'\<rparr>"
  show ?thesis
  proof (intro exI[of _ ?st] conjI allI impI)
    show "store_write_expert_tensor st tid src = Some (length src, ?st)"
      using w src by (simp add: store_write_expert_tensor_def Let_def mountedD(6)[OF m i])
    show "mounted ts e k ?st" by (rule m')
    show "store_read_expert ?st tid ei al (t_data_bytes (ts ! tid)) =
       Some (take (t_data_bytes (ts ! tid)) (drop (ei * t_data_bytes (ts ! tid)) src))"
      if "ei < t_n_experts (ts ! tid)" for ei al
      using that pos same expert_data_inside[OF src that]
      by (simp add: store_read_expert_slot[OF m' p i] slot_bytes_def)
    show "store_read_expert ?st tid' ei al n = store_read_expert st tid' ei al n" if ne: "tid' \<noteq> tid" for tid' ei al n
    proof (cases "tid' < length ts")
      case True
      have "pread d' (t_slice_bytes (ts ! tid')) (slot_start ts tid' ei) =
          pread (st_dev st) (t_slice_bytes (ts ! tid')) (slot_start ts tid' ei)" if "ei < t_n_experts (ts ! tid')"
      proof (rule other[rule_format])
        have "zones (take (Suc tid) ts) \<le> zones (take tid' ts)" if "tid < tid'"
          using that by (intro zones_take_mono) simp
        then show "slot_start ts tid' ei + t_slice_bytes (ts ! tid') \<le> store_bytes ts e k \<and>
           (slot_start ts tid' ei + t_slice_bytes (ts ! tid') \<le> slot_start ts tid 0 \<or>
            expert_start (length ts) + zones (take (Suc tid) ts) \<le> slot_start ts tid' ei)"
          using ne slot_end[OF True that] slot_before[OF True i that, of 0]
          by (cases "tid < tid'") (auto simp: store_bytes_def slot_start_def)
      qed
      then show ?thesis by (simp add: store_read_expert_slot[OF m' p True] store_read_expert_slot[OF m p True])
    qed (simp add: store_read_expert_range[OF m'] store_read_expert_range[OF m])
    show "store_read_embed ?st off n = store_read_embed st off n" if "off + n \<le> e" for off n
    proof -
      let ?at = "expert_start (length ts) + zones ts + off"
      have "pread d' n ?at = pread (st_dev st) n ?at"
        using that other[rule_format, of ?at n] zones_take_le[of "Suc tid" ts] by (simp add: store_bytes_def)
      moreover have "?at < 2 ^ 64"
        using that mountedD(1)[OF m] by (simp add: layout_ok_def store_bytes_def)
      ultimately show ?thesis
        using mountedD(2)[OF m] mkfs_super_fields[OF mountedD(1)[OF m]]
        by (simp add: store_read_embed_def Let_def write_experts_ok[OF w])
    qed
  qed
qed

section \<open>The asynchronous read\<close>

text \<open>C33: With a ring that accepts the entry (\<open>io_uring_submit\<close> returns the number of entries, 1) the
  asynchronous read takes the synchronous path as well: the destination receives the expert and the wait
  returns its size, but the wait consumes no completion, so every such read leaves one more completion
  in the ring.\<close>

theorem async_read_leaves_completion:
  assumes m: "mounted ts e k st" and p: "padded ts" and i: "tid < length ts" "ei < t_n_experts (ts ! tid)"
    and pos: "t_data_bytes (ts ! tid) > 0" and ring: "st_uring_ok st" and dst: "t_slice_bytes (ts ! tid) \<le> dst_size"
  shows "\<exists>st'. store_read_expert_async st tid ei True dst_size True 1 =
      (0, store_read_expert st tid ei al (t_data_bytes (ts ! tid)), st') \<and>
    store_read_expert_wait st' res = (int (t_data_bytes (ts ! tid)), st') \<and>
    st_inflight st' = st_inflight st + 1"
proof -
  define st1 where "st1 = st\<lparr>st_async_tid := tid, st_async_expert := ei,
    st_async_data_bytes := t_data_bytes (ts ! tid), st_async_slice_bytes := t_slice_bytes (ts ! tid),
    st_inflight := st_inflight st + 1\<rparr>"
  have m1: "mounted ts e k st1" using m by (simp add: mounted_def st1_def)
  have "store_read_expert_async st tid ei True dst_size True 1 = async_fallback st1 tid ei"
    using i ring dst paddedD[OF p i(1)] mountedD(3)[OF m]
    by (simp add: store_read_expert_async_def Let_def mountedD(6)[OF m i(1)] st1_def)
  also have "\<dots> = (0, store_read_expert st tid ei al (t_data_bytes (ts ! tid)),
      st1\<lparr>st_async_data_bytes := t_data_bytes (ts ! tid), st_async_slice_bytes := 0\<rparr>)"
    using i pos
    by (simp add: async_fallback_def mountedD(6)[OF m1 i(1)] store_read_expert_slot[OF m1 p i(1)]
        store_read_expert_slot[OF m p i(1)]) (simp add: st1_def)
  finally show ?thesis by (simp add: store_read_expert_wait_def st1_def)
qed

section \<open>Witnesses\<close>

definition demo_desc :: store_tensor_desc where
  "demo_desc = \<lparr>t_layer = 0, t_kind = 1, t_n_experts = 2, t_slice_bytes = 512, t_data_bytes = 300, t_pad0 = 0, t_store_offset = 0\<rparr>"

definition demo_dev :: store_dev where
  "demo_dev = \<lparr>dev_bytes = replicate (1048576 + 4096) 0, dev_block = True, dev_ok = (\<lambda>off n. 512 dvd off \<and> 512 dvd n)\<rparr>"

definition demo_store :: store where
  "demo_store = opened True demo_dev (mkfs_super [demo_desc] 1024 0) (assign_offsets (expert_start 1) [demo_desc])"

lemma demo_expert_start [simp]: "expert_start (Suc 0) = 1048576"
  by (simp add: expert_start_def align_up_mib_eq)

lemma demo_layout: "layout_ok [demo_desc] 1024 0"
  by (simp add: layout_ok_def desc_ok_def demo_desc_def store_bytes_def zone_size_def)

lemma demo_padded: "padded [demo_desc]"
  by (simp add: padded_def demo_desc_def)

lemma demo_dev_ok:
  "dev_aligned demo_dev" "dev_block demo_dev \<longrightarrow> store_bytes [demo_desc] 1024 0 \<le> length (dev_bytes demo_dev)"
  by (simp_all only: demo_dev_def dev_aligned_def store_dev.simps length_replicate)
     (simp_all add: store_bytes_def zone_size_def demo_desc_def)

lemma demo_mounted: "mounted [demo_desc] 1024 0 demo_store"
  using demo_layout demo_dev_ok(1) demo_dev_ok(2)[rule_format]
  by (simp add: mounted_def demo_store_def opened_def) (simp add: demo_dev_def)

theorem mkfs_open_roundtrip_witness:
  "\<exists>d'. store_mkfs (Some demo_dev) [demo_desc] 1024 0 = Inr d' \<and>
     store_open True (Some d') =
       Inr (opened True d' (mkfs_super [demo_desc] 1024 0) [demo_desc\<lparr>t_store_offset := 1048576\<rparr>])"
  using mkfs_open_roundtrip[OF demo_layout demo_dev_ok, of True] by auto

theorem super_damage_repaired_witness:
  "\<exists>d'. store_mkfs (Some demo_dev) [demo_desc] 1024 0 = Inr d' \<and>
     store_open True (Some (damage 5 7 d')) =
       Inr (opened True (damage 5 7 d') (mkfs_super [demo_desc] 1024 0) [demo_desc\<lparr>t_store_offset := 1048576\<rparr>])"
proof -
  obtain d' where d': "store_mkfs (Some demo_dev) [demo_desc] 1024 0 = Inr d'"
    using mkfs_formats[OF demo_layout demo_dev_ok] by blast
  then show ?thesis
    using super_damage_repaired[OF demo_layout demo_dev_ok d', of 5 True 7] by auto
qed

theorem index_damage_detected_witness:
  "\<exists>d' b. store_mkfs (Some demo_dev) [demo_desc] 1024 0 = Inr d' \<and>
     store_open True (Some (damage (STORE_INDEX_BASE + 12) b d')) = Inl Index_corrupt"
proof -
  obtain d' where d': "store_mkfs (Some demo_dev) [demo_desc] 1024 0 = Inr d'"
    using mkfs_formats[OF demo_layout demo_dev_ok] by blast
  have "dev_bytes d' ! (STORE_INDEX_BASE + 12) + 1 \<noteq> dev_bytes d' ! (STORE_INDEX_BASE + 12)" by simp
  from index_damage_detected[OF demo_layout demo_dev_ok d' _ _ this, of True] d' show ?thesis by auto
qed

theorem expert_slots_disjoint_witness:
  "512 dvd store_expert_offset demo_store 0 0 \<and>
   store_expert_offset demo_store 0 0 + 512 \<le> s_embed_base (st_super demo_store) \<and>
   (store_expert_offset demo_store 0 0 + 512 \<le> store_expert_offset demo_store 0 1 \<or>
    store_expert_offset demo_store 0 1 + 512 \<le> store_expert_offset demo_store 0 0)"
  using expert_slots_disjoint[OF demo_mounted demo_padded, of 0 0 0 1] by (simp add: demo_desc_def)

theorem write_read_experts_witness:
  "\<exists>st'. store_write_expert_tensor demo_store 0 (replicate 300 1 @ replicate 300 2) = Some (600, st') \<and>
     store_read_expert st' 0 1 False 300 = Some (replicate 300 2)"
proof -
  let ?src = "replicate 300 1 @ replicate 300 2 :: byte list"
  have t: "t_data_bytes ([demo_desc] ! 0) = 300" "t_n_experts ([demo_desc] ! 0) = 2" by (simp_all add: demo_desc_def)
  have l: "length ?src = 600" by (simp only: length_append length_replicate)
  have d: "take 300 (drop 300 ?src) = replicate 300 2" by simp
  have "\<exists>st'. store_write_expert_tensor demo_store 0 ?src = Some (600, st') \<and>
      (\<forall>ei < 2. \<forall>al. store_read_expert st' 0 ei al 300 = Some (take 300 (drop (ei * 300) ?src)))"
    using write_read_experts[OF demo_mounted demo_padded, of 0 ?src] unfolding t l by auto
  then obtain st' where st': "store_write_expert_tensor demo_store 0 ?src = Some (600, st')"
    "store_read_expert st' 0 1 False 300 = Some (take 300 (drop (1 * 300) ?src))" by (metis one_less_numeral_iff semiring_norm(76))
  show ?thesis using st' d by (simp only: mult_1) blast
qed

theorem async_read_leaves_completion_witness:
  "\<exists>st'. store_read_expert_async demo_store 0 1 True 512 True 1 = (0, store_read_expert demo_store 0 1 True 300, st') \<and>
     store_read_expert_wait st' None = (300, st') \<and> st_inflight st' = 1"
proof -
  have "st_uring_ok demo_store" "st_inflight demo_store = 0" by (simp_all add: demo_store_def opened_def)
  then show ?thesis
    using async_read_leaves_completion[OF demo_mounted demo_padded, of 0 1 512 True None]
    by (simp add: demo_desc_def)
qed

end
