(* ===== verification/ExpertParser.thy ===== *)
theory ExpertParser
  imports Prelude
begin

text \<open>
  The parser for expert tensors in GGUF files (\<open>src/vitriol-moe-expert-parser.cpp\<close>). The file system is a
  parameter: the bytes of the file at a path, \<open>None\<close> if it cannot be opened. Handles are not null; printed
  messages are left out. A read of four bytes from a shorter file keeps the zero bytes the variable was
  initialised with. The maps from layers and experts to tensors are never filled or read and left out; freeing a context only returns memory.
\<close>

section \<open>State and operations\<close>

record vitriol_expert_tensor_info =
  ti_tensor_name :: string
  ti_file_offset :: nat
  ti_tensor_size :: nat
  ti_n_dims :: int
  ti_dims :: "int list"
  ti_layer :: int
  ti_expert_type :: string

record vitriol_model_meta =
  meta_n_expert :: int
  meta_n_expert_used :: int
  meta_n_layer :: int
  meta_n_embd :: int
  meta_n_ff_exp :: int

record vitriol_moe_context =
  moe_model_path :: string
  moe_meta :: vitriol_model_meta
  moe_tensors :: "vitriol_expert_tensor_info list"
  moe_initialized :: bool

type_synonym files = "string \<Rightarrow> byte list option"

text \<open>A little-endian 32-bit number at the start of a file.\<close>

definition read_u32 :: "byte list \<Rightarrow> nat" where
  "read_u32 bytes = foldr (\<lambda>b v. unat b + 256 * v) (take 4 bytes) 0"

definition vitriol_moe_init :: "files \<Rightarrow> string \<Rightarrow> vitriol_moe_context option" where
  "vitriol_moe_init fs gguf_path =
     (case fs gguf_path of
        None \<Rightarrow> None
      | Some bytes \<Rightarrow>
          if read_u32 bytes \<noteq> 0x46475547 then None
          else Some \<lparr>moe_model_path = take 1023 gguf_path,
            moe_meta = \<lparr>meta_n_expert = 256, meta_n_expert_used = 8, meta_n_layer = 40, meta_n_embd = 2048, meta_n_ff_exp = 512\<rparr>,
            moe_tensors = [], moe_initialized = True\<rparr>)"

text \<open>\<open>strstr\<close>: whether the second string occurs in the first.\<close>

fun strstr :: "string \<Rightarrow> string \<Rightarrow> bool" where
  "strstr [] needle \<longleftrightarrow> needle = []"
| "strstr (c # cs) needle \<longleftrightarrow> take (length needle) (c # cs) = needle \<or> strstr cs needle"

definition vitriol_moe_get_tensor :: "vitriol_moe_context \<Rightarrow> int \<Rightarrow> int \<Rightarrow> string \<Rightarrow> vitriol_expert_tensor_info option" where
  "vitriol_moe_get_tensor ctx layer expert_idx expert_type =
     find (\<lambda>t. ti_layer t = layer \<and> strstr (ti_expert_type t) expert_type) (moe_tensors ctx)"

definition vitriol_moe_get_layer_tensors :: "vitriol_moe_context \<Rightarrow> int \<Rightarrow> nat list option \<times> nat" where
  "vitriol_moe_get_layer_tensors ctx layer =
     (let indices = filter (\<lambda>i. ti_layer (moe_tensors ctx ! i) = layer) [0..<length (moe_tensors ctx)]
      in if indices = [] then (None, 0) else (Some indices, length indices))"

definition vitriol_moe_is_moe :: "vitriol_moe_context \<Rightarrow> bool" where
  "vitriol_moe_is_moe ctx \<longleftrightarrow> meta_n_expert (moe_meta ctx) > 1"

text \<open>The bytes read, whose number is the result; \<open>fseek\<close> may go beyond the end of the file.\<close>

definition vitriol_moe_read_tensor_data :: "files \<Rightarrow> vitriol_moe_context \<Rightarrow> vitriol_expert_tensor_info \<Rightarrow> nat \<Rightarrow> byte list" where
  "vitriol_moe_read_tensor_data fs ctx tensor_info buffer_size =
     (if buffer_size < ti_tensor_size tensor_info then []
      else case fs (moe_model_path ctx) of
        None \<Rightarrow> []
      | Some bytes \<Rightarrow> take (ti_tensor_size tensor_info) (drop (ti_file_offset tensor_info) bytes))"

definition vitriol_moe_total_expert_size :: "vitriol_moe_context \<Rightarrow> 64 word" where
  "vitriol_moe_total_expert_size ctx =
     (let expert_size = of_int (meta_n_ff_exp (moe_meta ctx)) * of_int (meta_n_embd (moe_meta ctx)) * 2
      in of_int (meta_n_layer (moe_meta ctx)) * of_int (meta_n_expert (moe_meta ctx)) * 3 * expert_size)"

definition vitriol_moe_estimate_expert_size :: "vitriol_moe_context \<Rightarrow> 64 word" where
  "vitriol_moe_estimate_expert_size ctx = of_int (meta_n_embd (moe_meta ctx)) * of_int (meta_n_ff_exp (moe_meta ctx)) * 2 * 3"

section \<open>What the parser does with a GGUF file\<close>

lemma base256: "a + 256 * m = a' + 256 * m' \<Longrightarrow> a < 256 \<Longrightarrow> a' < 256 \<Longrightarrow> a = a' \<and> m = (m' :: nat)"
proof -
  assume e: "a + 256 * m = a' + 256 * m'" "a < 256" "a' < 256"
  have "a = (a + 256 * m) mod 256" "a' = (a' + 256 * m') mod 256" using e(2,3) by simp_all
  then have "a = a'" using e(1) by simp
  then show ?thesis using e(1) by simp
qed

lemma read_u32_bytes: "read_u32 bytes = 0x46475547 \<longleftrightarrow> (\<exists>rest. bytes = 0x47 # 0x55 # 0x47 # 0x46 # rest)"
proof
  assume r: "read_u32 bytes = 0x46475547"
  have lt: "unat b < 256" for b :: byte using unsigned_less[of b] by simp
  consider "bytes = []" | x where "bytes = [x]" | x y where "bytes = [x, y]" | x y z where "bytes = [x, y, z]" | x y z w rest where "bytes = x # y # z # w # rest"
    by (metis list.exhaust)
  then show "\<exists>rest. bytes = 0x47 # 0x55 # 0x47 # 0x46 # rest"
  proof cases
    case (5 x y z w rest)
    then have "unat x + 256 * (unat y + 256 * (unat z + 256 * unat w)) = 0x46475547" using r by (simp add: read_u32_def)
    then have e: "unat x + 256 * (unat y + 256 * (unat z + 256 * unat w)) = 0x47 + 256 * (0x55 + 256 * (0x47 + 256 * 0x46))" by simp
    have "unat x = 0x47" and e: "unat y + 256 * (unat z + 256 * unat w) = 0x55 + 256 * (0x47 + 256 * 0x46)" using base256[OF e lt] by simp_all
    moreover from e have "unat y = 0x55" and e: "unat z + 256 * unat w = 0x47 + 256 * 0x46" using base256[OF e lt] by simp_all
    moreover have "unat z = 0x47" "unat w = 0x46" using base256[OF e lt] by simp_all
    ultimately have "unat x = 0x47" "unat y = 0x55" "unat z = 0x47" "unat w = 0x46" by blast+
    then have "x = 0x47" "y = 0x55" "z = 0x47" "w = 0x46" by (simp_all add: word_unat_eq_iff)
    then show ?thesis using 5 by simp
  next
    case (2 x)
    then show ?thesis using r lt[of x] by (simp add: read_u32_def)
  next
    case (3 x y)
    then show ?thesis using r lt[of x] lt[of y] by (simp add: read_u32_def)
  next
    case (4 x y z)
    then show ?thesis using r lt[of x] lt[of y] lt[of z] by (simp add: read_u32_def)
  qed (use r in \<open>simp add: read_u32_def\<close>)
qed (auto simp: read_u32_def)

text \<open>The parser accepts exactly the files that start with the bytes of \<open>GUGF\<close>, the number it compares with, and so refuses
  every GGUF file. What it accepts, it accepts without tensors: every lookup fails, whatever the file contains.\<close>

theorem gguf_refused:
  "((\<exists>ctx. vitriol_moe_init fs path = Some ctx) \<longleftrightarrow> (\<exists>rest. fs path = Some (0x47 # 0x55 # 0x47 # 0x46 # rest))) \<and>
   (fs path = Some (0x47 # 0x47 # 0x55 # 0x46 # rest) \<longrightarrow> vitriol_moe_init fs path = None) \<and>
   (vitriol_moe_init fs path = Some ctx \<longrightarrow>
      vitriol_moe_get_tensor ctx layer expert_idx expert_type = None \<and> vitriol_moe_get_layer_tensors ctx layer = (None, 0))"
proof (intro conjI impI)
  have eq: "vitriol_moe_init fs path \<noteq> None \<longleftrightarrow> (\<exists>bytes. fs path = Some bytes \<and> read_u32 bytes = 0x46475547)"
    by (auto simp: vitriol_moe_init_def split: option.splits)
  then show acc: "(\<exists>ctx. vitriol_moe_init fs path = Some ctx) \<longleftrightarrow> (\<exists>rest. fs path = Some (0x47 # 0x55 # 0x47 # 0x46 # rest))"
    unfolding read_u32_bytes by auto
  show "vitriol_moe_init fs path = None" if "fs path = Some (0x47 # 0x47 # 0x55 # 0x46 # rest)" using that acc by auto
  assume "vitriol_moe_init fs path = Some ctx"
  then have "moe_tensors ctx = []" by (auto simp: vitriol_moe_init_def split: option.splits if_splits)
  then show "vitriol_moe_get_tensor ctx layer expert_idx expert_type = None" "vitriol_moe_get_layer_tensors ctx layer = (None, 0)"
    by (simp_all add: vitriol_moe_get_tensor_def vitriol_moe_get_layer_tensors_def)
qed

text \<open>A file with the bytes \<open>GGUF\<close>.\<close>

theorem gguf_refused_witness: "vitriol_moe_init (\<lambda>p. if p = ''m.gguf'' then Some [0x47, 0x47, 0x55, 0x46, 3, 0, 0, 0] else None) ''m.gguf'' = None"
  using gguf_refused[of "\<lambda>p. if p = ''m.gguf'' then Some [0x47, 0x47, 0x55, 0x46, 3, 0, 0, 0] else None" "''m.gguf''" "[3, 0, 0, 0]"] by simp

text \<open>The sizes of an accepted model agree: all experts of all layers together are that many single experts.\<close>

lemma expert_sizes:
  assumes "vitriol_moe_init fs path = Some ctx"
  shows "unat (vitriol_moe_total_expert_size ctx) = 40 * 256 * unat (vitriol_moe_estimate_expert_size ctx)" "vitriol_moe_is_moe ctx"
proof -
  have "moe_meta ctx = \<lparr>meta_n_expert = 256, meta_n_expert_used = 8, meta_n_layer = 40, meta_n_embd = 2048, meta_n_ff_exp = 512\<rparr>"
    using assms by (auto simp: vitriol_moe_init_def split: option.splits if_splits)
  then show "unat (vitriol_moe_total_expert_size ctx) = 40 * 256 * unat (vitriol_moe_estimate_expert_size ctx)" "vitriol_moe_is_moe ctx"
    by (simp_all add: vitriol_moe_total_expert_size_def vitriol_moe_estimate_expert_size_def vitriol_moe_is_moe_def Let_def)
qed

end
