(* ===== verification/Decimal.thy ===== *)
theory Decimal
  imports Prelude
begin

text \<open>Decimal numbers as the C++ library prints and reads them, shared by the grammar and the expert cache.\<close>

definition chr_code :: "char \<Rightarrow> nat" where
  "chr_code c = of_char c"

definition digits_value :: "string \<Rightarrow> nat" where
  "digits_value = foldl (\<lambda>v c. 10 * v + (chr_code c - chr_code CHR ''0'')) 0"

definition digit_chr :: "nat \<Rightarrow> char" where
  "digit_chr d = char_of (chr_code CHR ''0'' + d)"

fun to_string :: "nat \<Rightarrow> string" where
  "to_string n = (if n < 10 then [digit_chr n] else to_string (n div 10) @ [digit_chr (n mod 10)])"

declare to_string.simps [simp del]

lemma digits_value_to_string: "digits_value (to_string n) = n"
proof (induction n rule: to_string.induct)
  case (1 n)
  have d: "chr_code (digit_chr k) - chr_code CHR ''0'' = k" if "k < 10" for k
    using that by (simp add: digit_chr_def chr_code_def)
  have snoc: "digits_value (s @ [c]) = 10 * digits_value s + (chr_code c - chr_code CHR ''0'')" for s c
    by (simp add: digits_value_def)
  show ?case
  proof (cases "n < 10")
    case True
    then show ?thesis using snoc[of "[]"] d by (simp add: to_string.simps[of n]) (simp add: digits_value_def)
  next
    case False
    then have "digits_value (to_string n) = 10 * (n div 10) + n mod 10"
      by (simp add: to_string.simps[of n] snoc 1 d)
    then show ?thesis by simp
  qed
qed

lemma to_string_inj: "to_string m = to_string n \<Longrightarrow> m = n"
  by (metis digits_value_to_string)

lemma digit_chr_code: "d < 10 \<Longrightarrow> chr_code (digit_chr d) = 48 + d"
  by (simp add: digit_chr_def chr_code_def)

lemma to_string_digits: "c \<in> set (to_string n) \<Longrightarrow> 48 \<le> chr_code c \<and> chr_code c < 58"
proof (induction n rule: to_string.induct)
  case (1 n)
  then show ?case using digit_chr_code[of n] digit_chr_code[of "n mod 10"] by (auto simp: to_string.simps[of n] split: if_splits)
qed

lemma to_string_length: "n < 10 ^ k \<Longrightarrow> 0 < k \<Longrightarrow> length (to_string n) \<le> k"
proof (induction k arbitrary: n)
  case (Suc k)
  show ?case
  proof (cases "n < 10")
    case True
    then show ?thesis by (simp add: to_string.simps[of n])
  next
    case False
    then have "0 < k" "n div 10 < 10 ^ k" using Suc.prems(1) by (cases k; auto)+
    then show ?thesis using Suc.IH[of "n div 10"] False by (simp add: to_string.simps[of n])
  qed
qed simp

lemma sep_split: "sep \<notin> set a \<Longrightarrow> sep \<notin> set b \<Longrightarrow> a @ sep # s = b @ sep # t \<Longrightarrow> a = b \<and> s = t"
proof (induction a arbitrary: b)
  case Nil
  then show ?case by (cases b) auto
next
  case (Cons x a)
  then show ?case by (cases b) auto
qed

text \<open>The conversion \<open>%d\<close>.\<close>

definition int_string :: "int \<Rightarrow> string" where
  "int_string i = (if i < 0 then CHR ''-'' # to_string (nat (- i)) else to_string (nat i))"

lemma int_string_chars: "CHR '':'' \<notin> set (int_string i)"
  using to_string_digits[of "CHR '':''"] by (auto simp: int_string_def chr_code_def)

lemma int_string_inj: "int_string i = int_string j \<Longrightarrow> i = j"
proof -
  assume e: "int_string i = int_string j"
  have m: "to_string n \<noteq> CHR ''-'' # s" for n s using to_string_digits[of "CHR ''-''" n] by (auto simp: chr_code_def)
  show "i = j"
  proof (cases "i < 0 \<longleftrightarrow> j < 0")
    case True
    then show ?thesis using e to_string_inj[of "nat (- i)" "nat (- j)"] to_string_inj[of "nat i" "nat j"] by (auto simp: int_string_def split: if_splits)
  next
    case False
    then show ?thesis using e m by (auto simp: int_string_def split: if_splits) metis+
  qed
qed

lemma int_string_length:
  assumes "INT32_MIN \<le> i" "i \<le> INT32_MAX"
  shows "length (int_string i) \<le> 11"
proof -
  have "nat (- i) < 10 ^ 10" "nat i < 10 ^ 10" using assms by (simp_all add: nat_less_iff)
  from this[THEN to_string_length] have "length (to_string (nat (- i))) \<le> 10" "length (to_string (nat i)) \<le> 10" by simp_all
  then show ?thesis by (simp add: int_string_def)
qed

end
