(* ===== verification/ExpertCache.thy ===== *)
theory ExpertCache
  imports ExpertParser Decimal "HOL-Library.Char_ord" "HOL-Library.List_Lexorder"
begin

text \<open>
  The cache of experts (\<open>src/vitriol-expert-cache.cpp\<close>). Entries are objects: the map and the queue hold pointers,
  the live objects are a heap, and following a pointer to a deleted object is the error \<open>Use_after_free\<close>. The
  map, a \<open>std::map\<close>, is a list sorted by key. What comes from outside is a parameter: the pointers that
  \<open>new\<close> and \<open>malloc\<close> return, the clock, and what happens when the code reads the size of a victim after it has deleted it:
  the read faults, which is the error \<open>Use_after_free\<close> too, or gives some number. The containers of a new cache are taken to be empty ones. Handles and output pointers are not null; printed messages are left out.
\<close>

section \<open>State\<close>

record expert_entry =
  e_expert_idx :: int
  e_layer :: int
  e_expert_type :: string
  e_gpu_buffer :: nat
  e_size :: nat
  e_loaded :: bool
  e_last_access :: nat
  e_in_queue :: bool

record expert_cache_config =
  cfg_max_cached_experts :: int
  cfg_max_vram_mb :: nat
  cfg_use_lru :: bool
  cfg_async_load :: bool

record expert_cache =
  ec_config :: expert_cache_config
  ec_parser :: "vitriol_moe_context option"
  ec_model_path :: string
  ec_heap :: "nat \<rightharpoonup> expert_entry"
  ec_entries :: "(string \<times> nat) list"
  ec_lru_queue :: "nat list"
  ec_total_vram_used_mb :: nat
  ec_n_cache_hits :: int
  ec_n_cache_misses :: int
  ec_n_evictions :: int
  ec_initialized :: bool

datatype cache_error = Use_after_free

text \<open>The environment of a call. \<open>env_freed_size\<close> is what reading the size of a deleted entry gives, \<open>None\<close> when the read faults.\<close>

record cache_env =
  env_new :: "expert_cache \<Rightarrow> nat"
  env_malloc :: "expert_cache \<Rightarrow> nat option"
  env_clock :: "expert_cache \<Rightarrow> nat"
  env_freed_size :: "expert_entry \<Rightarrow> nat option"

section \<open>Operations\<close>

text \<open>\<open>snprintf\<close> into 64 characters.\<close>

definition make_key :: "int \<Rightarrow> int \<Rightarrow> string \<Rightarrow> string" where
  "make_key layer expert_idx type = take 63 (int_string layer @ CHR '':'' # int_string expert_idx @ CHR '':'' # type)"

definition default_config :: expert_cache_config where
  "default_config = \<lparr>cfg_max_cached_experts = 8, cfg_max_vram_mb = 512, cfg_use_lru = True, cfg_async_load = True\<rparr>"

definition expert_cache_init :: "expert_cache_config option \<Rightarrow> expert_cache" where
  "expert_cache_init config =
     \<lparr>ec_config = (case config of Some c \<Rightarrow> c | None \<Rightarrow> default_config), ec_parser = None, ec_model_path = [],
      ec_heap = Map.empty, ec_entries = [], ec_lru_queue = [], ec_total_vram_used_mb = 0,
      ec_n_cache_hits = 0, ec_n_cache_misses = 0, ec_n_evictions = 0, ec_initialized = True\<rparr>"

definition expert_cache_set_model_path :: "files \<Rightarrow> string \<Rightarrow> expert_cache \<Rightarrow> expert_cache" where
  "expert_cache_set_model_path fs gguf_path c =
     c\<lparr>ec_model_path := take 1023 gguf_path, ec_parser := vitriol_moe_init fs gguf_path\<rparr>"

definition entry_key :: "expert_entry \<Rightarrow> string" where
  "entry_key e = make_key (e_layer e) (e_expert_idx e) (e_expert_type e)"

text \<open>The two ways to make room. The size of the victim is read after it was deleted (as are its numbers, for a message).\<close>

definition evict_lru :: "cache_env \<Rightarrow> expert_cache \<Rightarrow> cache_error + expert_cache" where
  "evict_lru env c =
     (case ec_lru_queue c of
        [] \<Rightarrow> Inr c
      | victim # queue \<Rightarrow>
          (case ec_heap c victim of
             None \<Rightarrow> Inl Use_after_free
           | Some e \<Rightarrow>
               let c = c\<lparr>ec_lru_queue := queue\<rparr>; key = entry_key e in
               if map_of (ec_entries c) key \<noteq> None then
                 (case env_freed_size env e of
                    None \<Rightarrow> Inl Use_after_free
                  | Some sz \<Rightarrow>
                      Inr (c\<lparr>ec_heap := (ec_heap c)(victim := None), ec_entries := filter (\<lambda>(k, _). k \<noteq> key) (ec_entries c),
                             ec_n_evictions := ec_n_evictions c + 1,
                             ec_total_vram_used_mb := u64 (ec_total_vram_used_mb c + 2 ^ 64 - sz div (1024 * 1024))\<rparr>))
               else Inr c))"

definition evict_first :: "expert_cache \<Rightarrow> cache_error + expert_cache" where
  "evict_first c =
     (case ec_entries c of
        [] \<Rightarrow> Inr c
      | (_, p) # entries \<Rightarrow>
          (case ec_heap c p of
             None \<Rightarrow> Inl Use_after_free
           | Some e \<Rightarrow> Inr (c\<lparr>ec_heap := (ec_heap c)(p := None), ec_entries := entries, ec_n_evictions := ec_n_evictions c + 1\<rparr>)))"

text \<open>The conversion of \<open>max_cached_experts\<close> to \<open>size_t\<close>.\<close>

definition cache_limit :: "expert_cache \<Rightarrow> nat" where
  "cache_limit c = nat (cfg_max_cached_experts (ec_config c) mod 2 ^ 64)"

definition evict_round :: "cache_env \<Rightarrow> expert_cache \<Rightarrow> cache_error + expert_cache" where
  "evict_round env c = (if cfg_use_lru (ec_config c) then evict_lru env c else evict_first c)"

text \<open>The loop need not end.\<close>

partial_function (option) evict_until :: "cache_env \<Rightarrow> expert_cache \<Rightarrow> (cache_error + expert_cache) option" where
  "evict_until env c =
     (if length (ec_entries c) \<ge> cache_limit c then
        (case evict_round env c of Inl e \<Rightarrow> Some (Inl e) | Inr c \<Rightarrow> evict_until env c)
      else Some (Inr c))"

text \<open>The result of a call: status, buffer and size.\<close>

type_synonym get_result = "int \<times> nat \<times> nat"

abbreviation estimated_size :: nat where
  "estimated_size \<equiv> 2048 * 512 * 2"

definition cache_insert :: "cache_env \<Rightarrow> int \<Rightarrow> int \<Rightarrow> string \<Rightarrow> nat \<Rightarrow> expert_cache \<Rightarrow> expert_cache" where
  "cache_insert env layer expert_idx expert_type buffer c =
     (let p = env_new env c; lru = cfg_use_lru (ec_config c);
          entry = \<lparr>e_expert_idx = expert_idx, e_layer = layer, e_expert_type = take 15 expert_type, e_gpu_buffer = buffer,
                   e_size = estimated_size, e_loaded = True, e_last_access = env_clock env c, e_in_queue = lru\<rparr>
      in c\<lparr>ec_heap := (ec_heap c)(p \<mapsto> entry), ec_entries := insort_key fst (make_key layer expert_idx expert_type, p) (ec_entries c),
           ec_total_vram_used_mb := u64 (ec_total_vram_used_mb c + estimated_size div (1024 * 1024)),
           ec_lru_queue := (if lru then ec_lru_queue c @ [p] else ec_lru_queue c)\<rparr>)"

definition expert_cache_get :: "cache_env \<Rightarrow> int \<Rightarrow> int \<Rightarrow> string \<Rightarrow> expert_cache \<Rightarrow> (cache_error + get_result \<times> expert_cache) option" where
  "expert_cache_get env layer expert_idx expert_type c =
     (case map_of (ec_entries c) (make_key layer expert_idx expert_type) of
        Some p \<Rightarrow>
          (case ec_heap c p of
             None \<Rightarrow> Some (Inl Use_after_free)
           | Some e \<Rightarrow> Some (Inr ((0, e_gpu_buffer e, e_size e),
               c\<lparr>ec_heap := (ec_heap c)(p \<mapsto> e\<lparr>e_last_access := env_clock env c\<rparr>), ec_n_cache_hits := ec_n_cache_hits c + 1\<rparr>)))
      | None \<Rightarrow>
          (case evict_until env (c\<lparr>ec_n_cache_misses := ec_n_cache_misses c + 1\<rparr>) of
             None \<Rightarrow> None
           | Some (Inl e) \<Rightarrow> Some (Inl e)
           | Some (Inr c) \<Rightarrow>
               (case env_malloc env c of
                  None \<Rightarrow> Some (Inr ((-1, 0, 0), c))
                | Some buffer \<Rightarrow> Some (Inr ((0, buffer, estimated_size), cache_insert env layer expert_idx expert_type buffer c)))))"

definition expert_cache_release :: "int \<Rightarrow> int \<Rightarrow> expert_cache \<Rightarrow> expert_cache" where
  "expert_cache_release layer expert_idx c = c"

fun preload_all :: "cache_env \<Rightarrow> int \<Rightarrow> (int \<times> string) list \<Rightarrow> expert_cache \<Rightarrow> (cache_error + int \<times> expert_cache) option" where
  "preload_all env layer [] c = Some (Inr (0, c))"
| "preload_all env layer ((expert_idx, type) # rest) c =
     (case expert_cache_get env layer expert_idx type c of
        None \<Rightarrow> None
      | Some (Inl e) \<Rightarrow> Some (Inl e)
      | Some (Inr ((ret, _), c)) \<Rightarrow> if ret \<noteq> 0 then Some (Inr (-1, c)) else preload_all env layer rest c)"

definition expert_types :: "string list" where
  "expert_types = [''gate'', ''up'', ''down'']"

definition expert_cache_preload_layer :: "cache_env \<Rightarrow> int \<Rightarrow> int list \<Rightarrow> expert_cache \<Rightarrow> (cache_error + int \<times> expert_cache) option" where
  "expert_cache_preload_layer env layer expert_indices c =
     (if expert_indices = [] then Some (Inr (-1, c))
      else preload_all env layer (concat (map (\<lambda>i. map (Pair i) expert_types) expert_indices)) c)"

text \<open>Total size, number of experts, hits, misses and evictions.\<close>

definition expert_cache_get_stats :: "expert_cache \<Rightarrow> nat \<times> nat \<times> int \<times> int \<times> int" where
  "expert_cache_get_stats c = (ec_total_vram_used_mb c, length (ec_entries c), ec_n_cache_hits c, ec_n_cache_misses c, ec_n_evictions c)"

text \<open>Both delete every entry of the map; \<open>free\<close> leaves the objects outside the cache.\<close>

definition expert_cache_free :: "expert_cache \<Rightarrow> cache_error + (nat \<rightharpoonup> expert_entry)" where
  "expert_cache_free c =
     (if list_all (\<lambda>(_, p). ec_heap c p \<noteq> None) (ec_entries c) then Inr (ec_heap c |` (- snd ` set (ec_entries c))) else Inl Use_after_free)"

definition expert_cache_clear :: "expert_cache \<Rightarrow> cache_error + expert_cache" where
  "expert_cache_clear c =
     (if list_all (\<lambda>(_, p). ec_heap c p \<noteq> None) (ec_entries c) then
        Inr (c\<lparr>ec_heap := ec_heap c |` (- snd ` set (ec_entries c)), ec_entries := [], ec_lru_queue := [], ec_total_vram_used_mb := 0\<rparr>)
      else Inl Use_after_free)"

end
