(* ===== verification/ExpertCacheOk.thy ===== *)
theory ExpertCacheOk
  imports ExpertCache
begin

text \<open>
  The expert cache with its queue refines a bounded first-in first-out queue of experts: an expert that is not there takes
  the place of the one loaded first, however recently that one was used. The locale \<open>fifo_store\<close> is the contract of
  such a store; loading many experts is proved in it once and used for \<open>expert_cache_preload_layer\<close>. Outside the
  contract the eviction loop need not end.
\<close>

section \<open>Keys\<close>

type_synonym expert = "int \<times> int \<times> string"

text \<open>Experts the cache can tell apart: the numbers are \<open>int\<close>, the type fits into the entry.\<close>

definition expert_ok :: "expert \<Rightarrow> bool" where
  "expert_ok x \<longleftrightarrow> (case x of (layer, idx, type) \<Rightarrow> INT32_MIN \<le> layer \<and> layer \<le> INT32_MAX \<and> INT32_MIN \<le> idx \<and> idx \<le> INT32_MAX \<and> length type \<le> 15)"

definition expert_key :: "expert \<Rightarrow> string" where
  "expert_key x = (case x of (layer, idx, type) \<Rightarrow> make_key layer idx type)"

lemma expert_key_full:
  assumes "expert_ok (layer, idx, type)"
  shows "expert_key (layer, idx, type) = int_string layer @ CHR '':'' # int_string idx @ CHR '':'' # type"
proof -
  have "length (int_string layer) \<le> 11" "length (int_string idx) \<le> 11" using assms by (simp_all add: expert_ok_def int_string_length)
  moreover have "length type \<le> 15" using assms by (simp add: expert_ok_def)
  ultimately have "length (int_string layer @ CHR '':'' # int_string idx @ CHR '':'' # type) \<le> 63" by simp
  then show ?thesis unfolding expert_key_def make_key_def prod.case by (rule take_all)
qed

lemma expert_key_inj:
  assumes "expert_ok x" "expert_ok y" "expert_key x = expert_key y"
  shows "x = y"
proof -
  obtain l i t where x: "x = (l, i, t)" by (cases x)
  obtain l' i' t' where y: "y = (l', i', t')" by (cases y)
  have "int_string l @ CHR '':'' # int_string i @ CHR '':'' # t = int_string l' @ CHR '':'' # int_string i' @ CHR '':'' # t'"
    using assms x y by (metis expert_key_full)
  from sep_split[OF int_string_chars int_string_chars this] have 1: "int_string l = int_string l'"
      "int_string i @ CHR '':'' # t = int_string i' @ CHR '':'' # t'" by auto
  from sep_split[OF int_string_chars int_string_chars 1(2)] have "int_string i = int_string i'" "t = t'" by auto
  then show ?thesis using 1(1) int_string_inj x y by blast
qed

section \<open>The queue of experts\<close>

definition fifo_get :: "nat \<Rightarrow> 'a list \<Rightarrow> 'a \<Rightarrow> 'a list" where
  "fifo_get m q x = (if x \<in> set q then q else (if length q < m then q else tl q) @ [x])"

locale fifo_store =
  fixes get :: "'x \<Rightarrow> 'c \<Rightarrow> 'c option" and items :: "'c \<Rightarrow> 'x list" and limit :: nat and ok :: "'c \<Rightarrow> bool" and good :: "'x \<Rightarrow> bool"
  assumes limit_pos: "ok c \<Longrightarrow> 0 < limit"
    and bounded: "ok c \<Longrightarrow> length (items c) \<le> limit"
    and get_fifo: "ok c \<Longrightarrow> good x \<Longrightarrow> \<exists>c'. get x c = Some c' \<and> ok c' \<and> items c' = fifo_get limit (items c) x"
begin

fun get_all :: "'x list \<Rightarrow> 'c \<Rightarrow> 'c option" where
  "get_all [] c = Some c"
| "get_all (x # xs) c = (case get x c of None \<Rightarrow> None | Some c \<Rightarrow> get_all xs c)"

text \<open>Loading new items one after the other keeps the last ones.\<close>

lemma get_all_new:
  "ok c \<Longrightarrow> \<forall>x \<in> set xs. good x \<Longrightarrow> distinct (items c @ xs) \<Longrightarrow>
    \<exists>c'. get_all xs c = Some c' \<and> ok c' \<and> items c' = drop (length (items c @ xs) - limit) (items c @ xs)"
proof (induction xs arbitrary: c)
  case Nil
  then show ?case using bounded by simp
next
  case (Cons x xs)
  obtain c1 where c1: "get x c = Some c1" "ok c1" "items c1 = fifo_get limit (items c) x" using get_fifo[OF Cons.prems(1)] Cons.prems(2) by auto
  have q: "items c1 = (if length (items c) < limit then items c else tl (items c)) @ [x]" using c1(3) Cons.prems(3) by (simp add: fifo_get_def)
  have "distinct (items c1 @ xs)" unfolding q using Cons.prems(3) by (cases "items c") auto
  then obtain c' where c': "get_all xs c1 = Some c'" "ok c'" "items c' = drop (length (items c1 @ xs) - limit) (items c1 @ xs)"
    using Cons.IH[OF c1(2)] Cons.prems(2) by auto
  have "drop (length (items c1 @ xs) - limit) (items c1 @ xs) = drop (length (items c @ x # xs) - limit) (items c @ x # xs)"
  proof (cases "length (items c) < limit")
    case False
    then have l: "length (items c) = limit" "items c \<noteq> []" using bounded[OF Cons.prems(1)] limit_pos[OF Cons.prems(1)] by auto
    then obtain y ys where y: "items c = y # ys" by (cases "items c") auto
    then show ?thesis using q False l(1) by (simp add: Suc_diff_le)
  qed (use q in simp)
  then show ?case using c1(1) c' by simp
qed

end

section \<open>The invariant\<close>

definition entry_expert :: "expert_entry \<Rightarrow> expert" where
  "entry_expert e = (e_layer e, e_expert_idx e, e_expert_type e)"

definition expert_at :: "expert_cache \<Rightarrow> nat \<Rightarrow> expert" where
  "expert_at c p = entry_expert (the (ec_heap c p))"

definition experts :: "expert_cache \<Rightarrow> expert list" where
  "experts c = map (expert_at c) (ec_lru_queue c)"

definition ec_wf :: "expert_cache \<Rightarrow> bool" where
  "ec_wf c \<longleftrightarrow> cfg_use_lru (ec_config c) \<and> 0 < cfg_max_cached_experts (ec_config c) \<and> cfg_max_cached_experts (ec_config c) \<le> INT32_MAX \<and>
     distinct (ec_lru_queue c) \<and> dom (ec_heap c) = set (ec_lru_queue c) \<and>
     (\<forall>e \<in> ran (ec_heap c). expert_ok (entry_expert e) \<and> e_size e = estimated_size) \<and>
     distinct (experts c) \<and> distinct (map fst (ec_entries c)) \<and> sorted (map fst (ec_entries c)) \<and>
     set (ec_entries c) = (\<lambda>p. (expert_key (expert_at c p), p)) ` set (ec_lru_queue c) \<and>
     length (ec_lru_queue c) \<le> cache_limit c"

text \<open>\<open>new\<close> returns a pointer to no live object.\<close>

definition env_ok :: "cache_env \<Rightarrow> bool" where
  "env_ok env \<longleftrightarrow> (\<forall>c. ec_wf c \<longrightarrow> env_new env c \<notin> dom (ec_heap c))"

text \<open>The figure for the memory in use: two megabytes for each expert.\<close>

definition vram_ok :: "expert_cache \<Rightarrow> bool" where
  "vram_ok c \<longleftrightarrow> ec_total_vram_used_mb c = 2 * length (ec_lru_queue c)"

definition freed_ok :: "cache_env \<Rightarrow> bool" where
  "freed_ok env \<longleftrightarrow> (\<forall>e. env_freed_size env e = Some (e_size e))"

text \<open>Reading the size of the entry loaded first, once it is deleted, faults.\<close>

definition freed_faults :: "cache_env \<Rightarrow> expert_cache \<Rightarrow> bool" where
  "freed_faults env c \<longleftrightarrow> env_freed_size env (the (ec_heap c (hd (ec_lru_queue c)))) = None"

lemma freed_ok_faults: "freed_ok env \<Longrightarrow> \<not> freed_faults env c"
  by (simp add: freed_ok_def freed_faults_def)

lemma entry_key_expert: "entry_key e = expert_key (entry_expert e)"
  by (simp add: entry_key_def expert_key_def entry_expert_def)

lemma ec_wf_heap: "ec_wf c \<Longrightarrow> p \<in> set (ec_lru_queue c) \<Longrightarrow> \<exists>e. ec_heap c p = Some e \<and> expert_at c p = entry_expert e \<and> expert_ok (entry_expert e) \<and> e_size e = estimated_size"
  unfolding ec_wf_def expert_at_def by (metis domD option.sel ranI)

lemma ec_wf_dom: "ec_wf c \<Longrightarrow> dom (ec_heap c) = set (ec_lru_queue c)" "ec_wf c \<Longrightarrow> length (ec_lru_queue c) \<le> cache_limit c"
  by (simp_all add: ec_wf_def)

lemma ec_wf_length: "ec_wf c \<Longrightarrow> length (ec_entries c) = length (ec_lru_queue c)"
proof -
  assume w: "ec_wf c"
  have "inj_on (\<lambda>p. (expert_key (expert_at c p), p)) (set (ec_lru_queue c))" by (rule inj_onI) simp
  moreover have "distinct (ec_entries c)" using w by (simp add: ec_wf_def distinct_map)
  ultimately show ?thesis using w by (metis (no_types, lifting) card_image distinct_card ec_wf_def)
qed

lemma ec_wf_lookup:
  assumes "ec_wf c" "expert_ok x"
  shows "map_of (ec_entries c) (expert_key x) = Some p \<longleftrightarrow> p \<in> set (ec_lru_queue c) \<and> expert_at c p = x"
proof -
  have "map_of (ec_entries c) (expert_key x) = Some p \<longleftrightarrow> (expert_key x, p) \<in> set (ec_entries c)"
    using assms(1) by (simp add: ec_wf_def)
  also have "\<dots> \<longleftrightarrow> p \<in> set (ec_lru_queue c) \<and> expert_key (expert_at c p) = expert_key x"
    using assms(1) unfolding ec_wf_def by (metis (no_types, lifting) Pair_inject image_iff)
  also have "\<dots> \<longleftrightarrow> p \<in> set (ec_lru_queue c) \<and> expert_at c p = x"
    using ec_wf_heap[OF assms(1)] expert_key_inj[OF _ assms(2)] by metis
  finally show ?thesis .
qed

lemma ec_wf_none:
  assumes "ec_wf c" "expert_ok x"
  shows "map_of (ec_entries c) (expert_key x) = None \<longleftrightarrow> x \<notin> set (experts c)"
proof -
  have "map_of (ec_entries c) (expert_key x) = None \<longleftrightarrow> \<not> (\<exists>p. p \<in> set (ec_lru_queue c) \<and> expert_at c p = x)"
    unfolding ec_wf_lookup[OF assms, symmetric] by auto
  then show ?thesis by (auto simp: experts_def)
qed

section \<open>Hits, evictions, insertions\<close>

lemma cache_limit_eq: "ec_wf c \<Longrightarrow> cache_limit c = nat (cfg_max_cached_experts (ec_config c))" "ec_wf c \<Longrightarrow> 0 < cache_limit c"
  by (simp_all add: ec_wf_def cache_limit_def)

lemma cache_limit_less:
  assumes "ec_wf c"
  shows "cache_limit c < 2 ^ 31"
proof -
  have "cfg_max_cached_experts (ec_config c) < 2 ^ 31" using assms by (simp add: ec_wf_def)
  then show ?thesis unfolding cache_limit_eq(1)[OF assms] by simp
qed

lemma wf_hit:
  assumes w: "ec_wf c" and p: "ec_heap c p = Some e"
    and c': "c' = c\<lparr>ec_heap := (ec_heap c)(p \<mapsto> e\<lparr>e_last_access := t\<rparr>), ec_n_cache_hits := h\<rparr>"
  shows "ec_wf c'" "experts c' = experts c"
proof -
  have at: "expert_at c' q = expert_at c q" for q using p by (simp add: c' expert_at_def entry_expert_def)
  then show ex: "experts c' = experts c" by (simp add: experts_def c')
  have "ran (ec_heap c') \<subseteq> insert (e\<lparr>e_last_access := t\<rparr>) (ran (ec_heap c))" by (auto simp: c' ran_def)
  moreover have "e \<in> ran (ec_heap c)" using p by (rule ranI)
  ultimately have "\<forall>e \<in> ran (ec_heap c'). expert_ok (entry_expert e) \<and> e_size e = estimated_size"
    using w unfolding ec_wf_def by (auto simp: entry_expert_def)
  moreover have "dom (ec_heap c') = dom (ec_heap c)" using p by (auto simp: c')
  moreover have "cache_limit c' = cache_limit c" by (simp add: c' cache_limit_def)
  ultimately show "ec_wf c'" using w unfolding ec_wf_def ex by (simp add: at) (simp add: c')
qed

definition evicted :: "cache_env \<Rightarrow> expert_cache \<Rightarrow> expert_cache" where
  "evicted env c =
     (let v = hd (ec_lru_queue c) in
      c\<lparr>ec_lru_queue := tl (ec_lru_queue c), ec_heap := (ec_heap c)(v := None),
        ec_entries := filter (\<lambda>(k, _). k \<noteq> expert_key (expert_at c v)) (ec_entries c),
        ec_n_evictions := ec_n_evictions c + 1,
        ec_total_vram_used_mb := u64 (ec_total_vram_used_mb c + 2 ^ 64 - the (env_freed_size env (the (ec_heap c v))) div (1024 * 1024))\<rparr>)"

lemma evict_lru_eq:
  assumes w: "ec_wf c" and q: "ec_lru_queue c \<noteq> []"
  shows "evict_lru env c = (if freed_faults env c then Inl Use_after_free else Inr (evicted env c))"
proof -
  obtain v q' where v: "ec_lru_queue c = v # q'" using q by (cases "ec_lru_queue c") auto
  obtain e where e: "ec_heap c v = Some e" "expert_at c v = entry_expert e" "expert_ok (entry_expert e)" "e_size e = estimated_size"
    using ec_wf_heap[OF w, of v] v by auto
  have found: "map_of (ec_entries c) (entry_key e) = Some v" unfolding entry_key_expert using ec_wf_lookup[OF w e(3), of v] v e(2) by simp
  then show ?thesis using e v unfolding evict_lru_def evicted_def freed_faults_def by (auto simp: entry_key_expert split: option.splits)
qed

lemma vram_evicted:
  assumes w: "ec_wf c" and q: "ec_lru_queue c \<noteq> []" and "freed_ok env" "vram_ok c"
  shows "vram_ok (evicted env c)"
proof -
  obtain v q' where v: "ec_lru_queue c = v # q'" using q by (cases "ec_lru_queue c") auto
  obtain e where e: "ec_heap c v = Some e" "e_size e = estimated_size" using ec_wf_heap[OF w, of v] v by auto
  have "length (ec_lru_queue c) < 2 ^ 31" using ec_wf_dom(2)[OF w] cache_limit_less[OF w] by linarith
  then show ?thesis using assms(3,4) e v unfolding vram_ok_def freed_ok_def evicted_def by (simp add: u64_def Let_def)
qed

lemma wf_evicted:
  assumes w: "ec_wf c" and q: "ec_lru_queue c \<noteq> []"
  shows "ec_wf (evicted env c)" "experts (evicted env c) = tl (experts c)" "length (ec_lru_queue (evicted env c)) < length (ec_lru_queue c)"
proof -
  obtain v q' where v: "ec_lru_queue c = v # q'" using q by (cases "ec_lru_queue c") auto
  have d: "v \<notin> set q'" "distinct q'" using w v by (auto simp: ec_wf_def)
  have at: "expert_at (evicted env c) p = expert_at c p" if "p \<in> set q'" for p using that d v by (auto simp: evicted_def expert_at_def Let_def)
  have qe: "ec_lru_queue (evicted env c) = q'" using v by (simp add: evicted_def Let_def)
  show ex: "experts (evicted env c) = tl (experts c)" unfolding experts_def qe v using at by simp
  show "length (ec_lru_queue (evicted env c)) < length (ec_lru_queue c)" unfolding qe v by simp
  have key: "expert_key (expert_at c p) = expert_key (expert_at c v) \<longleftrightarrow> p = v" if "p \<in> set (ec_lru_queue c)" for p
  proof -
    have "inj_on (expert_at c) (set (ec_lru_queue c))" using w by (simp add: ec_wf_def experts_def distinct_map)
    moreover have "expert_key (expert_at c p) = expert_key (expert_at c v) \<longleftrightarrow> expert_at c p = expert_at c v"
      using ec_wf_heap[OF w that] ec_wf_heap[OF w, of v] v expert_key_inj by (metis list.set_intros(1))
    ultimately show ?thesis using that v inj_onD by (metis (no_types, opaque_lifting) list.set_intros(1))
  qed
  have ent: "set (ec_entries (evicted env c)) = (\<lambda>p. (expert_key (expert_at (evicted env c) p), p)) ` set q'"
  proof -
    have "set (ec_entries (evicted env c)) = {x \<in> set (ec_entries c). fst x \<noteq> expert_key (expert_at c v)}"
      using v by (auto simp: evicted_def Let_def)
    also have "\<dots> = (\<lambda>p. (expert_key (expert_at c p), p)) ` {p \<in> set (ec_lru_queue c). p \<noteq> v}"
      using w key unfolding ec_wf_def by auto
    also have "\<dots> = (\<lambda>p. (expert_key (expert_at (evicted env c) p), p)) ` set q'" using v d(1) at by (auto simp: image_def)
    finally show ?thesis .
  qed
  have "map fst (ec_entries (evicted env c)) = filter (\<lambda>k. k \<noteq> expert_key (expert_at c v)) (map fst (ec_entries c))"
    using v by (auto simp: evicted_def Let_def filter_map intro!: arg_cong[where f = "map fst"] filter_cong)
  then have srt: "distinct (map fst (ec_entries (evicted env c)))" "sorted (map fst (ec_entries (evicted env c)))"
    using w by (simp_all add: ec_wf_def sorted_wrt_filter)
  have heap: "dom (ec_heap (evicted env c)) = set q'" "ran (ec_heap (evicted env c)) \<subseteq> ran (ec_heap c)"
    using w v d(1) by (auto simp: evicted_def Let_def ec_wf_def ran_def split: if_splits)
  have "cache_limit (evicted env c) = cache_limit c" "ec_config (evicted env c) = ec_config c"
    using w v by (simp_all add: evicted_def Let_def cache_limit_def ec_wf_def)
  moreover have "distinct (tl (experts c))" using w by (simp add: ec_wf_def distinct_tl)
  ultimately show "ec_wf (evicted env c)" using w v d heap srt ent unfolding ec_wf_def qe ex by auto
qed

lemma wf_insert:
  assumes w: "ec_wf c" and len: "length (ec_lru_queue c) < cache_limit c" and x: "expert_ok (l, i, t)" "(l, i, t) \<notin> set (experts c)"
    and env: "env_ok env"
  shows "ec_wf (cache_insert env l i t buffer c)" "experts (cache_insert env l i t buffer c) = experts c @ [(l, i, t)]"
    "\<exists>e \<in> ran (ec_heap (cache_insert env l i t buffer c)). entry_expert e = (l, i, t) \<and> e_gpu_buffer e = buffer \<and> e_size e = estimated_size"
proof -
  let ?c = "cache_insert env l i t buffer c" and ?p = "env_new env c"
  have lru: "cfg_use_lru (ec_config c)" using w by (simp add: ec_wf_def)
  have fresh: "?p \<notin> set (ec_lru_queue c)" using env w ec_wf_dom[OF w] unfolding env_ok_def by blast
  have type: "take 15 t = t" using x(1) by (simp add: expert_ok_def)
  obtain e where e: "ec_heap ?c = (ec_heap c)(?p \<mapsto> e)" "entry_expert e = (l, i, t)" "e_gpu_buffer e = buffer" "e_size e = estimated_size"
    by (simp add: cache_insert_def Let_def entry_expert_def type)
  show "\<exists>e \<in> ran (ec_heap ?c). entry_expert e = (l, i, t) \<and> e_gpu_buffer e = buffer \<and> e_size e = estimated_size"
    using e by (intro bexI[of _ e]) (auto simp: ran_def)
  have q: "ec_lru_queue ?c = ec_lru_queue c @ [?p]" using lru by (simp add: cache_insert_def Let_def)
  have at: "expert_at ?c p = (if p = ?p then (l, i, t) else expert_at c p)" for p unfolding expert_at_def e(1) using e(2) by simp
  show ex: "experts ?c = experts c @ [(l, i, t)]" unfolding experts_def q using fresh by (auto simp: at)
  have ent: "ec_entries ?c = insort_key fst (expert_key (l, i, t), ?p) (ec_entries c)" by (simp add: cache_insert_def Let_def expert_key_def)
  have set: "set (ec_entries ?c) = (\<lambda>p. (expert_key (expert_at ?c p), p)) ` set (ec_lru_queue ?c)"
  proof -
    have "set (ec_entries c) = (\<lambda>p. (expert_key (expert_at c p), p)) ` set (ec_lru_queue c)" using w by (simp add: ec_wf_def)
    also have "\<dots> = (\<lambda>p. (expert_key (expert_at ?c p), p)) ` set (ec_lru_queue c)" using fresh by (intro image_cong) (auto simp: at)
    finally show ?thesis unfolding ent set_insort_key q by (simp add: at)
  qed
  have new: "expert_key (l, i, t) \<notin> fst ` set (ec_entries c)" using ec_wf_none[OF w x(1)] x(2) by (simp add: map_of_eq_None_iff)
  have "mset (map fst (ec_entries ?c)) = mset (expert_key (l, i, t) # map fst (ec_entries c))" unfolding ent by (simp add: mset_insort)
  then have "distinct (map fst (ec_entries ?c)) = distinct (expert_key (l, i, t) # map fst (ec_entries c))" using mset_eq_imp_distinct_iff by blast
  moreover have "distinct (map fst (ec_entries c))" using w by (simp add: ec_wf_def)
  ultimately have d: "distinct (map fst (ec_entries ?c))" using new by simp
  have s: "sorted (map fst (ec_entries ?c))" unfolding ent using w by (simp add: sorted_insort_key ec_wf_def)
  have heap: "dom (ec_heap ?c) = set (ec_lru_queue ?c)" "ran (ec_heap ?c) = insert e (ran (ec_heap c))"
    unfolding e(1) q using ec_wf_dom(1)[OF w] fresh by (auto simp: domIff intro!: ran_map_upd)
  have "cache_limit ?c = cache_limit c" "ec_config ?c = ec_config c" by (simp_all add: cache_insert_def Let_def cache_limit_def)
  then show "ec_wf ?c" using w heap d s set len x fresh e unfolding ec_wf_def ex by (auto simp: q)
qed

section \<open>Lookup\<close>

definition make_room :: "nat \<Rightarrow> 'a list \<Rightarrow> 'a list" where
  "make_room m q = (if length q < m then q else tl q)"

lemma evict_until_wf:
  assumes w: "ec_wf c"
  shows "evict_until env c = Some (if length (ec_lru_queue c) < cache_limit c then Inr c
    else if freed_faults env c then Inl Use_after_free else Inr (evicted env c))"
proof (cases "length (ec_lru_queue c) < cache_limit c")
  case True
  then show ?thesis unfolding evict_until.simps[of env c] ec_wf_length[OF w] by simp
next
  case False
  have q: "ec_lru_queue c \<noteq> []" using False cache_limit_eq(2)[OF w] by auto
  have "cfg_use_lru (ec_config c)" using w by (simp add: ec_wf_def)
  then have round: "evict_round env c = (if freed_faults env c then Inl Use_after_free else Inr (evicted env c))"
    unfolding evict_round_def using evict_lru_eq[OF w q] by simp
  have "length (ec_lru_queue (evicted env c)) < cache_limit c" using wf_evicted(3)[OF w q, of env] ec_wf_dom(2)[OF w] by linarith
  then have "length (ec_entries (evicted env c)) < cache_limit (evicted env c)"
    unfolding ec_wf_length[OF wf_evicted(1)[OF w q]] by (simp add: cache_limit_def evicted_def Let_def)
  then have "evict_until env (evicted env c) = Some (Inr (evicted env c))" unfolding evict_until.simps[of env "evicted env c"] by simp
  then show ?thesis unfolding evict_until.simps[of env c] ec_wf_length[OF w] using False round by simp
qed

lemma wf_misses:
  assumes "c' = c\<lparr>ec_n_cache_misses := n\<rparr>"
  shows "ec_wf c' = ec_wf c" "experts c' = experts c" "ec_lru_queue c' = ec_lru_queue c" "cache_limit c' = cache_limit c"
    "vram_ok c' = vram_ok c"
proof -
  have at: "expert_at c' = expert_at c" by (rule ext) (simp add: assms expert_at_def)
  then show ex: "experts c' = experts c" by (simp add: assms experts_def)
  show l: "cache_limit c' = cache_limit c" by (simp add: assms cache_limit_def)
  show "ec_wf c' = ec_wf c" unfolding ec_wf_def ex l at by (simp add: assms)
qed (simp_all add: assms vram_ok_def)

text \<open>The cache after room was made for an expert that was not found.\<close>

definition roomy :: "cache_env \<Rightarrow> expert_cache \<Rightarrow> expert_cache" where
  "roomy env c =
     (let c = c\<lparr>ec_n_cache_misses := ec_n_cache_misses c + 1\<rparr>
      in if length (ec_lru_queue c) < cache_limit c then c else evicted env c)"

text \<open>Looking an expert up evicts another one, and the read of the deleted entry faults.\<close>

definition lookup_faults :: "cache_env \<Rightarrow> expert \<Rightarrow> expert_cache \<Rightarrow> bool" where
  "lookup_faults env x c \<longleftrightarrow> x \<notin> set (experts c) \<and> \<not> length (experts c) < cache_limit c \<and> freed_faults env c"

lemma wf_roomy:
  assumes w: "ec_wf c"
  shows "evict_until env (c\<lparr>ec_n_cache_misses := ec_n_cache_misses c + 1\<rparr>) =
      Some (if \<not> length (experts c) < cache_limit c \<and> freed_faults env c then Inl Use_after_free else Inr (roomy env c))" "ec_wf (roomy env c)"
    "experts (roomy env c) = make_room (cache_limit c) (experts c)" "length (ec_lru_queue (roomy env c)) < cache_limit c"
    "ec_config (roomy env c) = ec_config c" "ec_n_cache_hits (roomy env c) = ec_n_cache_hits c"
    "ec_n_cache_misses (roomy env c) = ec_n_cache_misses c + 1"
    "ec_n_evictions (roomy env c) = ec_n_evictions c + (if length (experts c) < cache_limit c then 0 else 1)"
    "freed_ok env \<Longrightarrow> vram_ok c \<Longrightarrow> vram_ok (roomy env c)"
proof -
  define c1 where "c1 = c\<lparr>ec_n_cache_misses := ec_n_cache_misses c + 1\<rparr>"
  note m = wf_misses[OF c1_def]
  have w1: "ec_wf c1" using w m(1) by simp
  have r: "roomy env c = (if length (ec_lru_queue c1) < cache_limit c1 then c1 else evicted env c1)" by (simp add: roomy_def c1_def)
  have len: "length (experts c) = length (ec_lru_queue c)" by (simp add: experts_def)
  have q: "ec_lru_queue c1 \<noteq> []" if "\<not> length (ec_lru_queue c1) < cache_limit c1" using that cache_limit_eq(2)[OF w1] by auto
  have "freed_faults env c1 = freed_faults env c" by (simp add: freed_faults_def c1_def)
  then show "evict_until env (c\<lparr>ec_n_cache_misses := ec_n_cache_misses c + 1\<rparr>) =
      Some (if \<not> length (experts c) < cache_limit c \<and> freed_faults env c then Inl Use_after_free else Inr (roomy env c))"
    using evict_until_wf[OF w1, of env] unfolding r len m(3,4) c1_def[symmetric] by simp
  show "ec_wf (roomy env c)" unfolding r using w1 wf_evicted(1)[OF w1 q] by simp
  show "experts (roomy env c) = make_room (cache_limit c) (experts c)"
    unfolding r make_room_def len using m wf_evicted(2)[OF w1 q] by simp
  show "length (ec_lru_queue (roomy env c)) < cache_limit c"
    unfolding r using m wf_evicted(3)[OF w1 q, of env] ec_wf_dom(2)[OF w1] by auto
  show "freed_ok env \<Longrightarrow> vram_ok c \<Longrightarrow> vram_ok (roomy env c)" unfolding r using m(5) vram_evicted[OF w1 q] by simp
  show "ec_config (roomy env c) = ec_config c" "ec_n_cache_hits (roomy env c) = ec_n_cache_hits c" "ec_n_cache_misses (roomy env c) = ec_n_cache_misses c + 1"
    unfolding r by (simp_all add: c1_def evicted_def Let_def)
  show "ec_n_evictions (roomy env c) = ec_n_evictions c + (if length (experts c) < cache_limit c then 0 else 1)"
    unfolding r len m(4)[symmetric] m(3)[symmetric] by (simp add: c1_def evicted_def Let_def)
qed

lemma make_room_notin: "distinct q \<Longrightarrow> x \<notin> set q \<Longrightarrow> x \<notin> set (make_room m q)"
  by (cases q) (auto simp: make_room_def)

lemma get_hit:
  assumes w: "ec_wf c" and x: "expert_ok (l, i, t)" "(l, i, t) \<in> set (experts c)"
  shows "\<exists>e c'. expert_cache_get env l i t c = Some (Inr ((0, e_gpu_buffer e, e_size e), c')) \<and> ec_wf c' \<and> experts c' = experts c \<and>
    e \<in> ran (ec_heap c) \<and> entry_expert e = (l, i, t) \<and> ec_config c' = ec_config c \<and> ec_lru_queue c' = ec_lru_queue c \<and>
    ec_n_cache_hits c' = ec_n_cache_hits c + 1 \<and> ec_n_cache_misses c' = ec_n_cache_misses c \<and> ec_n_evictions c' = ec_n_evictions c \<and>
    ec_total_vram_used_mb c' = ec_total_vram_used_mb c \<and>
    (\<exists>e' \<in> ran (ec_heap c'). entry_expert e' = (l, i, t) \<and> e_gpu_buffer e' = e_gpu_buffer e \<and> e_size e' = e_size e)"
proof -
  obtain p where p: "p \<in> set (ec_lru_queue c)" "expert_at c p = (l, i, t)" using x(2) by (auto simp: experts_def)
  then have find: "map_of (ec_entries c) (make_key l i t) = Some p" using ec_wf_lookup[OF w x(1), of p] by (simp add: expert_key_def)
  obtain e where e: "ec_heap c p = Some e" "expert_at c p = entry_expert e" using ec_wf_heap[OF w p(1)] by auto
  define c' where "c' = c\<lparr>ec_heap := (ec_heap c)(p \<mapsto> e\<lparr>e_last_access := env_clock env c\<rparr>), ec_n_cache_hits := ec_n_cache_hits c + 1\<rparr>"
  note h = wf_hit[OF w e(1) c'_def]
  have "expert_cache_get env l i t c = Some (Inr ((0, e_gpu_buffer e, e_size e), c'))" unfolding expert_cache_get_def find by (simp add: e(1) c'_def)
  moreover have "e \<in> ran (ec_heap c)" using e(1) by (rule ranI)
  moreover have "entry_expert e = (l, i, t)" using e(2) p(2) by simp
  moreover have "\<exists>e' \<in> ran (ec_heap c'). entry_expert e' = entry_expert e \<and> e_gpu_buffer e' = e_gpu_buffer e \<and> e_size e' = e_size e"
    by (rule bexI[of _ "e\<lparr>e_last_access := env_clock env c\<rparr>"]) (auto simp: c'_def entry_expert_def ran_def)
  ultimately show ?thesis using h by (intro exI[of _ e] exI[of _ c'] conjI) (simp_all add: c'_def)
qed

lemma get_miss:
  assumes w: "ec_wf c" and x: "expert_ok (l, i, t)" "(l, i, t) \<notin> set (experts c)"
  shows "expert_cache_get env l i t c = Some (if lookup_faults env (l, i, t) c then Inl Use_after_free
    else Inr (case env_malloc env (roomy env c) of
      None \<Rightarrow> ((-1, 0, 0), roomy env c)
    | Some buffer \<Rightarrow> ((0, buffer, estimated_size), cache_insert env l i t buffer (roomy env c))))"
proof -
  have "map_of (ec_entries c) (make_key l i t) = None" using ec_wf_none[OF w x(1)] x(2) by (simp add: expert_key_def)
  then show ?thesis unfolding expert_cache_get_def wf_roomy(1)[OF w] using x(2) by (simp add: lookup_faults_def split: option.split)
qed

lemma get_resultI:
  "g = Some (Inr ((s, b, z), c)) \<Longrightarrow> P s b z c \<Longrightarrow> \<exists>status buffer size c'. g = Some (Inr ((status, buffer, size), c')) \<and> P status buffer size c'"
  by blast

lemma get_loads:
  assumes "env_ok env" "ec_wf c" "expert_ok (layer, idx, type)" "(layer, idx, type) \<in> set (experts c) \<or> env_malloc env (roomy env c) \<noteq> None"
    and "\<not> lookup_faults env (layer, idx, type) c"
  shows "\<exists>status buffer size c'. expert_cache_get env layer idx type c = Some (Inr ((status, buffer, size), c')) \<and>
    status = 0 \<and> ec_wf c' \<and> ec_config c' = ec_config c \<and> experts c' = fifo_get (cache_limit c) (experts c) (layer, idx, type) \<and>
    (\<exists>e \<in> ran (ec_heap c'). entry_expert e = (layer, idx, type) \<and> e_gpu_buffer e = buffer \<and> e_size e = size) \<and>
    ec_n_cache_hits c' = ec_n_cache_hits c + (if (layer, idx, type) \<in> set (experts c) then 1 else 0) \<and>
    ec_n_cache_misses c' = ec_n_cache_misses c + (if (layer, idx, type) \<in> set (experts c) then 0 else 1) \<and>
    ec_n_evictions c' = ec_n_evictions c + (if (layer, idx, type) \<in> set (experts c) \<or> length (experts c) < cache_limit c then 0 else 1)"
proof (cases "(layer, idx, type) \<in> set (experts c)")
  case True
  obtain e c' where g: "expert_cache_get env layer idx type c = Some (Inr ((0, e_gpu_buffer e, e_size e), c'))" "ec_wf c'" "experts c' = experts c"
      "e \<in> ran (ec_heap c)" "entry_expert e = (layer, idx, type)" "ec_config c' = ec_config c"
      "ec_n_cache_hits c' = ec_n_cache_hits c + 1" "ec_n_cache_misses c' = ec_n_cache_misses c" "ec_n_evictions c' = ec_n_evictions c"
    and buf: "\<exists>e' \<in> ran (ec_heap c'). entry_expert e' = (layer, idx, type) \<and> e_gpu_buffer e' = e_gpu_buffer e \<and> e_size e' = e_size e"
    using get_hit[OF assms(2,3) True, of env] by (elim exE conjE) metis
  show ?thesis by (rule get_resultI[OF g(1)]) (use True g buf in \<open>simp add: fifo_get_def\<close>)
next
  case False
  note r = wf_roomy[OF assms(2), of env]
  obtain buffer where Some: "env_malloc env (roomy env c) = Some buffer" using assms(4) False by auto
  have new: "(layer, idx, type) \<notin> set (experts (roomy env c))"
    unfolding r(3) using False assms(2) by (intro make_room_notin) (simp_all add: ec_wf_def)
  have len: "length (ec_lru_queue (roomy env c)) < cache_limit (roomy env c)" using r(4,5) by (simp add: cache_limit_def)
  note i = wf_insert[OF r(2) len assms(3) new assms(1), of buffer]
  have same: "ec_config (cache_insert env layer idx type buffer c) = ec_config c"
    "ec_n_cache_hits (cache_insert env layer idx type buffer c) = ec_n_cache_hits c"
    "ec_n_cache_misses (cache_insert env layer idx type buffer c) = ec_n_cache_misses c"
    "ec_n_evictions (cache_insert env layer idx type buffer c) = ec_n_evictions c" for c
    by (simp_all add: cache_insert_def Let_def)
  show ?thesis
    by (rule get_resultI[OF get_miss[OF assms(2,3) False, of env, unfolded if_not_P[OF assms(5)] Some option.case]])
      (use False Some r i in \<open>simp add: same fifo_get_def make_room_def\<close>)
qed


text \<open>A full cache of one expert: the lookup of another evicts it.\<close>

definition env_ex :: cache_env where
  "env_ex = \<lparr>env_new = (\<lambda>c. Suc (sum_list (ec_lru_queue c))), env_malloc = (\<lambda>c. Some 4096), env_clock = (\<lambda>_. 0), env_freed_size = (\<lambda>e. Some (e_size e))\<rparr>"

lemma env_ex_ok: "env_ok env_ex" "freed_ok env_ex"
proof -
  have "Suc (sum_list q) \<notin> set q" for q using member_le_sum_list[of "Suc (sum_list q)" q] by auto
  then show "env_ok env_ex" by (simp add: env_ok_def env_ex_def ec_wf_dom(1))
qed (simp add: freed_ok_def env_ex_def)

definition cache_ex :: expert_cache where
  "cache_ex = (expert_cache_init (Some \<lparr>cfg_max_cached_experts = 1, cfg_max_vram_mb = 512, cfg_use_lru = True, cfg_async_load = True\<rparr>))
     \<lparr>ec_heap := [1 \<mapsto> \<lparr>e_expert_idx = 7, e_layer = 3, e_expert_type = ''up'', e_gpu_buffer = 64, e_size = estimated_size,
        e_loaded = True, e_last_access = 5, e_in_queue = True\<rparr>],
      ec_entries := [(expert_key (3, 7, ''up''), 1)], ec_lru_queue := [1], ec_total_vram_used_mb := 2\<rparr>"

lemma cache_ex_wf: "ec_wf cache_ex" "experts cache_ex = [(3, 7, ''up'')]" "cache_limit cache_ex = 1"
  by (simp_all add: ec_wf_def cache_ex_def expert_cache_init_def experts_def expert_at_def entry_expert_def expert_ok_def cache_limit_def)


section \<open>Loading a layer\<close>

definition malloc_ok :: "cache_env \<Rightarrow> bool" where
  "malloc_ok env \<longleftrightarrow> (\<forall>c. env_malloc env c \<noteq> None)"

definition cache_get :: "cache_env \<Rightarrow> expert \<Rightarrow> expert_cache \<Rightarrow> expert_cache option" where
  "cache_get env x c =
     (case x of (layer, idx, type) \<Rightarrow>
       (case expert_cache_get env layer idx type c of Some (Inr ((status, _), c)) \<Rightarrow> if status = 0 then Some c else None | _ \<Rightarrow> None))"

text \<open>A property that a successful lookup keeps, beside the queue: the figure for the memory in use.\<close>

lemma get_vram:
  assumes w: "ec_wf c" and x: "expert_ok (layer, idx, type)" and v: "freed_ok env" "vram_ok c"
    and g: "expert_cache_get env layer idx type c = Some (Inr (r, c'))"
  shows "vram_ok c'"
proof (cases "(layer, idx, type) \<in> set (experts c)")
  case True
  then show ?thesis using get_hit[OF w x True, of env] g v(2) by (elim exE conjE) (simp add: vram_ok_def)
next
  case False
  have vr: "vram_ok (roomy env c)" using wf_roomy(9)[OF w v] .
  have lru: "cfg_use_lru (ec_config (roomy env c))" using w wf_roomy(5)[OF w] by (simp add: ec_wf_def)
  have "length (ec_lru_queue (roomy env c)) < 2 ^ 31" using wf_roomy(4)[OF w, of env] cache_limit_less[OF w] by linarith
  then have "vram_ok (cache_insert env layer idx type buffer (roomy env c))" for buffer
    using vr lru by (simp add: vram_ok_def cache_insert_def Let_def u64_def)
  then show ?thesis using vr g unfolding get_miss[OF w x False] by (simp split: option.splits if_splits) metis+
qed

interpretation store: fifo_store "cache_get env" experts limit
    "\<lambda>c. ec_wf c \<and> cache_limit c = limit \<and> env_ok env \<and> malloc_ok env \<and> freed_ok env \<and> vram_ok c" expert_ok
  for env :: cache_env and limit :: nat
proof
  fix c assume ok: "ec_wf c \<and> cache_limit c = limit \<and> env_ok env \<and> malloc_ok env \<and> freed_ok env \<and> vram_ok c"
  show "0 < limit" using ok cache_limit_eq(2) by blast
  show "length (experts c) \<le> limit" using ok ec_wf_dom(2)[of c] by (simp add: experts_def)
  fix x assume x: "expert_ok x"
  obtain layer idx type where e: "x = (layer, idx, type)" by (cases x)
  have m: "env_malloc env (roomy env c) \<noteq> None" using ok by (simp add: malloc_ok_def)
  obtain buffer size c' where g: "expert_cache_get env layer idx type c = Some (Inr ((0, buffer, size), c'))" "ec_wf c'" "ec_config c' = ec_config c"
      "experts c' = fifo_get (cache_limit c) (experts c) (layer, idx, type)"
    using get_loads[of env c layer idx type] ok x m unfolding e by (simp add: lookup_faults_def freed_ok_faults) metis
  have "vram_ok c'" using get_vram[OF _ _ _ _ g(1)] ok x unfolding e by blast
  moreover have "cache_limit c' = limit" using ok g(3) by (simp add: cache_limit_def)
  moreover have "cache_get env x c = Some c'" using g(1) by (simp add: cache_get_def e)
  ultimately show "\<exists>c'. cache_get env x c = Some c' \<and> (ec_wf c' \<and> cache_limit c' = limit \<and> env_ok env \<and> malloc_ok env \<and> freed_ok env \<and> vram_ok c') \<and>
      experts c' = fifo_get limit (experts c) x"
    using g(2,4) ok unfolding e by (intro exI[of _ c'] conjI) simp_all
qed

text \<open>What \<open>preload_all\<close> loads, as the store sees it.\<close>

lemma preload_all_get:
  "store.get_all env (map (\<lambda>(i, t). (layer, i, t)) todo) c = Some c' \<Longrightarrow> preload_all env layer todo c = Some (Inr (0, c'))"
proof (induction todo arbitrary: c)
  case (Cons x todo)
  obtain i t where x: "x = (i, t)" by (cases x)
  from Cons.prems obtain c1 where c1: "cache_get env (layer, i, t) c = Some c1" "store.get_all env (map (\<lambda>(i, t). (layer, i, t)) todo) c1 = Some c'"
    by (auto simp: x split: option.splits)
  from c1(1) obtain r where "expert_cache_get env layer i t c = Some (Inr ((0, r), c1))"
    by (auto simp: cache_get_def split: option.splits sum.splits prod.splits if_splits)
  then show ?case using Cons.IH[OF c1(2)] by (simp add: x)
qed simp

definition layer_experts :: "int \<Rightarrow> int list \<Rightarrow> expert list" where
  "layer_experts layer indices = [(layer, i, t). i \<leftarrow> indices, t \<leftarrow> expert_types]"

lemma layer_experts_map: "layer_experts layer indices = map (\<lambda>(i, t). (layer, i, t)) (concat (map (\<lambda>i. map (Pair i) expert_types) indices))"
  by (induction indices) (simp_all add: layer_experts_def expert_types_def)

lemma layer_experts_distinct: "distinct indices \<Longrightarrow> distinct (layer_experts layer indices)"
  by (induction indices) (auto simp: layer_experts_def expert_types_def)

lemma layer_experts_good:
  "INT32_MIN \<le> layer \<Longrightarrow> layer \<le> INT32_MAX \<Longrightarrow> \<forall>i \<in> set indices. INT32_MIN \<le> i \<and> i \<le> INT32_MAX \<Longrightarrow> \<forall>x \<in> set (layer_experts layer indices). expert_ok x"
  by (auto simp: layer_experts_def expert_types_def expert_ok_def)

text \<open>Loading the experts of a layer ahead of time, none of which is in the cache, succeeds and leaves in the cache the most
  recently loaded projections, as many as fit: if there are more than the limit, those of the first experts are gone again
  although loading them was reported as a success. The figure for the memory in use is that of what is left, provided that the
  size that is read from a deleted entry is still the old one.\<close>

theorem preload_keeps_last:
  assumes "env_ok env" "malloc_ok env" "freed_ok env" "ec_wf c" "vram_ok c" "indices \<noteq> []"
    "INT32_MIN \<le> layer" "layer \<le> INT32_MAX" "\<forall>i \<in> set indices. INT32_MIN \<le> i \<and> i \<le> INT32_MAX"
    "distinct indices" "set (experts c) \<inter> set (layer_experts layer indices) = {}"
  shows "\<exists>c'. expert_cache_preload_layer env layer indices c = Some (Inr (0, c')) \<and> ec_wf c' \<and>
    experts c' = drop (length (experts c) + 3 * length indices - cache_limit c) (experts c @ layer_experts layer indices) \<and>
    ec_total_vram_used_mb c' = 2 * length (experts c')"
proof -
  have "distinct (experts c @ layer_experts layer indices)"
    using assms(4,10,11) layer_experts_distinct by (simp add: ec_wf_def)
  with assms(1-5) layer_experts_good[OF assms(7-9)] obtain c' where
    c': "store.get_all env (layer_experts layer indices) c = Some c'" "ec_wf c'" "vram_ok c'"
      "experts c' = drop (length (experts c @ layer_experts layer indices) - cache_limit c) (experts c @ layer_experts layer indices)"
    using store.get_all_new[where env = env and limit = "cache_limit c" and c = c and xs = "layer_experts layer indices"] by blast
  have "length (layer_experts layer indices) = 3 * length indices" by (induction indices) (simp_all add: layer_experts_def expert_types_def)
  moreover have "expert_cache_preload_layer env layer indices c = Some (Inr (0, c'))"
    unfolding expert_cache_preload_layer_def using assms(6) preload_all_get c'(1)[unfolded layer_experts_map] by simp
  moreover have "ec_total_vram_used_mb c' = 2 * length (experts c')" using c'(3) by (simp add: vram_ok_def experts_def)
  ultimately show ?thesis using c'(2,4) by (intro exI[of _ c'] conjI) simp_all
qed

text \<open>Three projections of one expert into a cache of one.\<close>

theorem preload_keeps_last_witness:
  "\<exists>c'. expert_cache_preload_layer env_ex 5 [2] cache_ex = Some (Inr (0, c')) \<and> experts c' = [(5, 2, ''down'')]"
proof -
  have "malloc_ok env_ex" "vram_ok cache_ex" by (simp_all add: malloc_ok_def env_ex_def vram_ok_def cache_ex_def)
  from preload_keeps_last[OF env_ex_ok(1) this(1) env_ex_ok(2) cache_ex_wf(1) this(2), of "[2]" 5] show ?thesis
    by (auto simp: cache_ex_wf layer_experts_def expert_types_def)
qed

section \<open>Lookups that do not return\<close>

text \<open>A full cache in which no round of the loop removes an entry.\<close>

definition stuck :: "expert_cache \<Rightarrow> bool" where
  "stuck c \<longleftrightarrow> cache_limit c \<le> length (ec_entries c) \<and>
     (if cfg_use_lru (ec_config c) then \<forall>p \<in> set (ec_lru_queue c). \<exists>e. ec_heap c p = Some e \<and> map_of (ec_entries c) (entry_key e) = None
      else ec_entries c = [])"

lemma stuck_round: "stuck c \<Longrightarrow> \<exists>c'. evict_round env c = Inr c' \<and> stuck c'"
proof (cases "ec_lru_queue c")
  case (Cons p q)
  assume s: "stuck c"
  show ?thesis
  proof (cases "cfg_use_lru (ec_config c)")
    case True
    then obtain e where e: "ec_heap c p = Some e" "map_of (ec_entries c) (entry_key e) = None" using s Cons by (auto simp: stuck_def)
    have "stuck (c\<lparr>ec_lru_queue := q\<rparr>)" using s Cons by (simp add: stuck_def cache_limit_def)
    then show ?thesis unfolding evict_round_def evict_lru_def using True Cons e by simp
  next
    case False
    then show ?thesis using s by (auto simp: evict_round_def evict_first_def stuck_def)
  qed
next
  case Nil
  assume "stuck c"
  then show ?thesis using Nil by (cases "cfg_use_lru (ec_config c)") (auto simp: evict_round_def evict_lru_def evict_first_def stuck_def)
qed

lemma evict_until_stuck: "evict_until env c = Some r \<Longrightarrow> \<not> stuck c"
proof (induction rule: evict_until.raw_induct[rotated, consumes 1, case_names step])
  case (step f env c r)
  show ?case
  proof
    assume s: "stuck c"
    then obtain c' where "evict_round env c = Inr c'" "stuck c'" using stuck_round by blast
    moreover have "cache_limit c \<le> length (ec_entries c)" using s by (simp add: stuck_def)
    ultimately have "f env c' = Some r" using step(2) by simp
    then show False using step(1) \<open>stuck c'\<close> by blast
  qed
qed

lemma get_stuck:
  assumes "stuck c" "map_of (ec_entries c) (make_key layer idx type) = None"
  shows "expert_cache_get env layer idx type c = None"
proof -
  have "stuck (c\<lparr>ec_n_cache_misses := ec_n_cache_misses c + 1\<rparr>)" using assms(1) by (simp add: stuck_def cache_limit_def)
  then have "evict_until env (c\<lparr>ec_n_cache_misses := ec_n_cache_misses c + 1\<rparr>) = None" using evict_until_stuck by (metis not_Some_eq)
  then show ?thesis using assms(2) by (simp add: expert_cache_get_def)
qed

lemma long_key:
  assumes "INT32_MIN \<le> layer" "layer \<le> INT32_MAX" "INT32_MIN \<le> idx" "idx \<le> INT32_MAX" "15 < length type"
  shows "make_key layer idx (take 15 type) \<noteq> make_key layer idx type"
proof
  assume "make_key layer idx (take 15 type) = make_key layer idx type"
  from arg_cong[OF this, of length] show False
    using int_string_length[OF assms(1,2)] int_string_length[OF assms(3,4)] assms(5) by (simp add: make_key_def)
qed

text \<open>C40: two lookups that never return. In a cache configured for no experts, the first lookup loops forever, with the queue and
  without. In a cache for one expert that evicts by its queue, after an expert was loaded whose type is longer than the fifteen
  characters that an entry keeps, every lookup under another key loops forever: the entry is not found under the key made from its
  shortened type.\<close>

theorem lookup_never_returns:
  "(cfg_max_cached_experts cfg = 0 \<longrightarrow> expert_cache_get env layer idx type (expert_cache_init (Some cfg)) = None) \<and>
   (cfg_max_cached_experts cfg = 1 \<and> cfg_use_lru cfg \<and> 15 < length type \<and>
    INT32_MIN \<le> layer \<and> layer \<le> INT32_MAX \<and> INT32_MIN \<le> idx \<and> idx \<le> INT32_MAX \<and>
    expert_cache_get env layer idx type (expert_cache_init (Some cfg)) = Some (Inr ((0, r), c)) \<and>
    make_key layer' idx' type' \<noteq> make_key layer idx type \<longrightarrow>
      expert_cache_get env layer' idx' type' c = None)"
proof (intro conjI impI)
  show "expert_cache_get env layer idx type (expert_cache_init (Some cfg)) = None" if "cfg_max_cached_experts cfg = 0"
    by (rule get_stuck) (use that in \<open>simp_all add: stuck_def expert_cache_init_def cache_limit_def\<close>)
  assume a: "cfg_max_cached_experts cfg = 1 \<and> cfg_use_lru cfg \<and> 15 < length type \<and>
    INT32_MIN \<le> layer \<and> layer \<le> INT32_MAX \<and> INT32_MIN \<le> idx \<and> idx \<le> INT32_MAX \<and>
    expert_cache_get env layer idx type (expert_cache_init (Some cfg)) = Some (Inr ((0, r), c)) \<and>
    make_key layer' idx' type' \<noteq> make_key layer idx type"
  then have key: "make_key layer idx (take 15 type) \<noteq> make_key layer idx type" by (intro long_key) auto
  define c0 where "c0 = (expert_cache_init (Some cfg))\<lparr>ec_n_cache_misses := 1\<rparr>"
  have c0: "ec_entries c0 = []" "cache_limit c0 = 1" "ec_config c0 = cfg" "ec_lru_queue c0 = []"
    using a by (simp_all add: c0_def expert_cache_init_def cache_limit_def)
  have "evict_until env c0 = Some (Inr c0)" unfolding evict_until.simps[of env c0] using c0 by simp
  then have "evict_until env ((expert_cache_init (Some cfg))\<lparr>ec_n_cache_misses := ec_n_cache_misses (expert_cache_init (Some cfg)) + 1\<rparr>) = Some (Inr c0)"
    by (simp add: c0_def expert_cache_init_def)
  then have "expert_cache_get env layer idx type (expert_cache_init (Some cfg)) = Some (Inr (case env_malloc env c0 of
      None \<Rightarrow> ((-1, 0, 0), c0) | Some buffer \<Rightarrow> ((0, buffer, estimated_size), cache_insert env layer idx type buffer c0)))"
    unfolding expert_cache_get_def by (simp add: expert_cache_init_def split: option.split)
  then obtain buffer where c: "c = cache_insert env layer idx type buffer c0" using a by (auto split: option.splits)
  have "stuck c" using a key unfolding c by (simp add: stuck_def cache_insert_def Let_def c0 cache_limit_def entry_key_def)
  moreover have "map_of (ec_entries c) (make_key layer' idx' type') = None" using a unfolding c by (simp add: cache_insert_def Let_def c0)
  ultimately show "expert_cache_get env layer' idx' type' c = None" by (rule get_stuck)
qed

text \<open>Both kinds: no experts configured; one expert with a type of sixteen characters, then another expert.\<close>

definition config_of :: "int \<Rightarrow> expert_cache_config" where
  "config_of n = \<lparr>cfg_max_cached_experts = n, cfg_max_vram_mb = 512, cfg_use_lru = True, cfg_async_load = True\<rparr>"

lemma long_type_loads:
  "\<exists>r c. expert_cache_get env_ex 0 0 ''sixteen_letters_'' (expert_cache_init (Some (config_of 1))) = Some (Inr ((0, r), c))"
proof -
  define c0 where "c0 = (expert_cache_init (Some (config_of 1)))\<lparr>ec_n_cache_misses := 1\<rparr>"
  have "evict_until env_ex c0 = Some (Inr c0)" unfolding evict_until.simps[of env_ex c0]
    by (simp add: c0_def expert_cache_init_def config_of_def cache_limit_def)
  then show ?thesis by (simp add: expert_cache_get_def c0_def expert_cache_init_def env_ex_def)
qed

theorem lookup_never_returns_witness:
  "expert_cache_get env_ex 0 0 ''gate'' (expert_cache_init (Some (config_of 0))) = None \<and>
   (\<exists>r c. expert_cache_get env_ex 0 0 ''sixteen_letters_'' (expert_cache_init (Some (config_of 1))) = Some (Inr ((0, r), c)) \<and>
      expert_cache_get env_ex 0 1 ''gate'' c = None)"
proof -
  have "make_key 0 1 ''gate'' \<noteq> make_key 0 0 ''sixteen_letters_''" by (simp add: make_key_def) (code_simp)
  moreover obtain r c where "expert_cache_get env_ex 0 0 ''sixteen_letters_'' (expert_cache_init (Some (config_of 1))) = Some (Inr ((0, r), c))"
    using long_type_loads by blast
  ultimately show ?thesis
    using lookup_never_returns[of "config_of 0" env_ex 0 0 "''gate''"]
      lookup_never_returns[of "config_of 1" env_ex 0 0 "''sixteen_letters_''" r c 0 1 "''gate''"]
    by (auto simp: config_of_def)
qed

section \<open>Clearing\<close>

text \<open>Clearing deletes every entry and leaves no pointer behind; the counters stay.\<close>

lemma clear_empty:
  assumes w: "ec_wf c"
  shows "expert_cache_free c = Inr Map.empty" "\<exists>c'. expert_cache_clear c = Inr c' \<and> ec_wf c' \<and> experts c' = [] \<and> ec_heap c' = Map.empty \<and> vram_ok c' \<and>
    expert_cache_get_stats c' = (0, 0, ec_n_cache_hits c, ec_n_cache_misses c, ec_n_evictions c)"
proof -
  have s: "snd ` set (ec_entries c) = dom (ec_heap c)" using w by (simp add: ec_wf_def image_image)
  then have live: "list_all (\<lambda>(_, p). ec_heap c p \<noteq> None) (ec_entries c)" by (force simp: list_all_iff)
  have e: "ec_heap c |` (- dom (ec_heap c)) = Map.empty" by (rule ext) (auto simp: restrict_map_def)
  then show "expert_cache_free c = Inr Map.empty" unfolding expert_cache_free_def using live s by simp
  from e have "expert_cache_clear c = Inr (c\<lparr>ec_heap := Map.empty, ec_entries := [], ec_lru_queue := [], ec_total_vram_used_mb := 0\<rparr>)"
    unfolding expert_cache_clear_def using live s by simp
  then show "\<exists>c'. expert_cache_clear c = Inr c' \<and> ec_wf c' \<and> experts c' = [] \<and> ec_heap c' = Map.empty \<and> vram_ok c' \<and>
      expert_cache_get_stats c' = (0, 0, ec_n_cache_hits c, ec_n_cache_misses c, ec_n_evictions c)"
    using w by (simp add: ec_wf_def experts_def cache_limit_def vram_ok_def expert_cache_get_stats_def)
qed

lemma init_wf:
  assumes "cfg_use_lru cfg" "0 < cfg_max_cached_experts cfg" "cfg_max_cached_experts cfg \<le> INT32_MAX"
  shows "ec_wf (expert_cache_init (Some cfg))" "experts (expert_cache_init (Some cfg)) = []" "ec_wf (expert_cache_init None)"
  using assms by (simp_all add: ec_wf_def expert_cache_init_def experts_def default_config_def cache_limit_def)

end
