(* ===== verification/Utf8.thy ===== *)
theory Utf8
  imports Prelude
begin

text \<open>
  UTF-8 decoding in \<open>engine/src/llama-grammar.cpp\<close>: the decoder of the grammar text
  (\<open>decode_utf8 (const char *)\<close>) and the decoder of sampled pieces, which may end inside a sequence
  and continues with the next piece (\<open>decode_utf8 (const std::string &, llama_partial_utf8)\<close>). The
  main result is that cutting a UTF-8 text into pieces in any way does not change what is decoded.
\<close>

section \<open>Data\<close>

record llama_partial_utf8 =
  pu_value :: "32 word"
  pu_n_remain :: int

section \<open>Decoding\<close>

text \<open>
  C strings end at the first zero byte. \<open>cont_bytes\<close> is the loop that reads at most \<open>n\<close> further bytes
  of a sequence; it returns the value, the number of missing bytes and the rest of the string.
\<close>

definition shift_in :: "32 word \<Rightarrow> byte \<Rightarrow> 32 word" where
  "shift_in v b = push_bit 6 v + (ucast b AND 0x3F)"

fun cont_bytes :: "nat \<Rightarrow> 32 word \<Rightarrow> byte list \<Rightarrow> 32 word \<times> nat \<times> byte list" where
  "cont_bytes 0 v bs = (v, 0, bs)"
| "cont_bytes (Suc n) v [] = (v, Suc n, [])"
| "cont_bytes (Suc n) v (b # bs) = (if b = 0 then (v, Suc n, b # bs) else cont_bytes n (shift_in v b) bs)"

lemma cont_bytes_length: "cont_bytes n v bs = (v', n', bs') \<Longrightarrow> length bs' \<le> length bs"
  by (induction n v bs rule: cont_bytes.induct) (auto split: if_splits intro: le_SucI)

definition seq_len_lookup :: "nat list" where
  "seq_len_lookup = [1, 1, 1, 1, 1, 1, 1, 1, 1, 1, 1, 1, 2, 2, 3, 4]"

definition piece_len_lookup :: "nat list" where
  "piece_len_lookup = [1, 1, 1, 1, 1, 1, 1, 1, 0, 0, 0, 0, 2, 2, 3, 4]"

text \<open>The decoder of grammar text; the source position is the remaining string, which is not empty.\<close>

definition decode_utf8 :: "byte list \<Rightarrow> 32 word \<times> byte list" where
  "decode_utf8 src =
     (case src of [] \<Rightarrow> (0, [])
      | first_byte # rest \<Rightarrow>
          let len = seq_len_lookup ! unat (drop_bit 4 first_byte);
              mask = (push_bit (8 - len) 1 - 1 :: byte);
              (value, _, pos) = cont_bytes (len - 1) (ucast (first_byte AND mask)) rest
          in (value, pos))"

text \<open>The loop that continues the sequence of the previous piece; \<open>None\<close>: not a continuation byte.\<close>

fun continue_seq :: "32 word \<Rightarrow> int \<Rightarrow> byte list \<Rightarrow> (32 word \<times> int \<times> byte list) option" where
  "continue_seq v n [] = Some (v, n, [])"
| "continue_seq v n (b # bs) =
     (if b = 0 \<or> n \<le> 0 then Some (v, n, b # bs)
      else if drop_bit 6 b \<noteq> 2 then None
      else continue_seq (shift_in v b) (n - 1) bs)"

text \<open>The loop over the following sequences; \<open>None\<close>: a byte that starts no sequence.\<close>

function decode_seqs :: "32 word \<Rightarrow> int \<Rightarrow> byte list \<Rightarrow> (32 word list \<times> 32 word \<times> int) option" where
  "decode_seqs v n [] = Some ([], v, n)"
| "decode_seqs v n (first_byte # rest) =
     (if first_byte = 0 then Some ([], v, n)
      else
        let len = piece_len_lookup ! unat (drop_bit 4 first_byte) in
        if len = 0 then None
        else
          let mask = (push_bit (7 - (len - 1)) 1 - 1 :: byte);
              (v', n', pos) = cont_bytes (len - 1) (ucast (first_byte AND mask)) rest
          in case decode_seqs v' (int n') pos of
               None \<Rightarrow> None
             | Some (cps, r) \<Rightarrow> Some (if n' = 0 then v' # cps else cps, r))"
  by pat_completeness auto
termination
  by (relation "measure (\<lambda>(v, n, bs). length bs)") (auto dest!: cont_bytes_length[OF sym] simp: less_Suc_eq_le)

definition decode_utf8_partial :: "byte list \<Rightarrow> llama_partial_utf8 \<Rightarrow> 32 word list \<times> llama_partial_utf8" where
  "decode_utf8_partial src p =
     (case continue_seq (pu_value p) (pu_n_remain p) src of
        None \<Rightarrow> ([0], \<lparr>pu_value = 0, pu_n_remain = -1\<rparr>)
      | Some (v, n, pos) \<Rightarrow>
          (case decode_seqs v n pos of
             None \<Rightarrow> ([0], \<lparr>pu_value = 0, pu_n_remain = -1\<rparr>)
           | Some (cps, v', n') \<Rightarrow>
               ((if pu_n_remain p > 0 \<and> n = 0 then [v] else []) @ cps @ [0],
                \<lparr>pu_value = v', pu_n_remain = n'\<rparr>)))"

text \<open>Decoding one piece after the other, without the terminating zeros.\<close>

primrec decode_pieces :: "llama_partial_utf8 \<Rightarrow> byte list list \<Rightarrow> 32 word list \<times> llama_partial_utf8" where
  "decode_pieces p [] = ([], p)"
| "decode_pieces p (a # as) =
     (let (cps, p') = decode_utf8_partial a p; (cps', p'') = decode_pieces p' as in (butlast cps @ cps', p''))"

section \<open>The encoding of the standard\<close>

definition enc_len :: "nat \<Rightarrow> nat" where
  "enc_len c = (if c < 0x80 then 1 else if c < 0x800 then 2 else if c < 0x10000 then 3 else 4)"

definition enc_head :: "nat \<Rightarrow> nat" where
  "enc_head c = (if c < 0x80 then 0 else if c < 0x800 then 0xC0 else if c < 0x10000 then 0xE0 else 0xF0)"

primrec enc_tail :: "nat \<Rightarrow> nat \<Rightarrow> byte list" where
  "enc_tail c 0 = []"
| "enc_tail c (Suc n) = of_nat (0x80 + c div 64 ^ n mod 64) # enc_tail c n"

definition encode_utf8 :: "nat \<Rightarrow> byte list" where
  "encode_utf8 c = of_nat (enc_head c + c div 64 ^ (enc_len c - 1)) # enc_tail c (enc_len c - 1)"

definition encode_all :: "nat list \<Rightarrow> byte list" where
  "encode_all cs = concat (map encode_utf8 cs)"

definition code_point :: "nat \<Rightarrow> bool" where
  "code_point c \<longleftrightarrow> 0 < c \<and> c < 0x110000"

section \<open>Lemmas: single bytes\<close>

lemma unat_drop_bit: "unat (drop_bit k (w :: 'a::len word)) = unat w div 2 ^ k"
  unfolding unsigned_drop_bit_eq
  by (simp add: drop_bit_eq_div take_bit_eq_mod unsigned_less)

lemma unat_and_mask: "unat ((w :: 'a::len word) AND mask k) = unat w mod 2 ^ k"
  unfolding take_bit_eq_mask[symmetric] unsigned_take_bit_eq by (simp add: take_bit_eq_mod)

lemma unat_cont_byte: "x < 64 \<Longrightarrow> unat (of_nat (128 + x) :: byte) = 128 + x"
  unfolding unat_of_nat by simp

lemma cont_byte_tag: "x < 64 \<Longrightarrow> drop_bit 6 (of_nat (128 + x) :: byte) = 2"
proof (rule unsigned_word_eqI[where ?'a = nat])
  assume "x < 64"
  then have "unat (drop_bit 6 (of_nat (128 + x) :: byte)) = (128 + x) div 64"
    by (simp only: unat_drop_bit unat_cont_byte) simp
  also have "\<dots> = 2" using \<open>x < 64\<close> by simp
  finally show "unat (drop_bit 6 (of_nat (128 + x) :: byte)) = unat (2 :: byte)" by simp
qed

lemma cont_byte_nonzero: "x < 64 \<Longrightarrow> (of_nat (128 + x) :: byte) \<noteq> 0"
  using unat_cont_byte[of x] by (metis add_is_0 unsigned_0 zero_neq_numeral)

lemma ucast_byte: "(ucast (b :: byte) :: 32 word) = of_nat (unat b)"
proof (rule unsigned_word_eqI[where ?'a = nat])
  have "unat b < 256" using unsigned_less[of b, where ?'a = nat] by simp
  then show "unat (ucast b :: 32 word) = unat (of_nat (unat b) :: 32 word)"
    unfolding unat_of_nat by (simp add: unsigned_ucast_eq take_bit_eq_mod)
qed

lemma ucast_low6: "ucast (b :: byte) AND (0x3F :: 32 word) = of_nat (unat b mod 64)"
proof (rule unsigned_word_eqI[where ?'a = nat])
  have m: "(0x3F :: 32 word) = mask 6" by (simp add: mask_eq_exp_minus_1)
  have "unat (ucast b AND (0x3F :: 32 word)) = unat (ucast b :: 32 word) mod 64"
    unfolding m unat_and_mask by simp
  also have "unat (ucast b :: 32 word) = unat b"
    using unsigned_less[of b, where ?'a = nat] by (simp add: unsigned_ucast_eq take_bit_eq_mod)
  finally show "unat (ucast b AND (0x3F :: 32 word)) = unat (of_nat (unat b mod 64) :: 32 word)"
    unfolding unat_of_nat by simp
qed

lemma shift_in_value:
  "shift_in (of_nat (c div 64 ^ Suc n)) (of_nat (128 + c div 64 ^ n mod 64)) = of_nat (c div 64 ^ n)"
proof -
  let ?x = "c div 64 ^ n"
  have "c div 64 ^ Suc n = ?x div 64" by (simp add: mult.commute flip: div_mult2_eq)
  moreover have "unat (of_nat (128 + ?x mod 64) :: byte) mod 64 = ?x mod 64"
    using mod_mult_self1[of "?x mod 64" 2 64]
    by (simp only: unat_cont_byte mod_less_divisor zero_less_numeral) (simp add: add.commute)
  ultimately have "shift_in (of_nat (c div 64 ^ Suc n)) (of_nat (128 + ?x mod 64)) = of_nat (64 * (?x div 64) + ?x mod 64)"
    by (simp only: shift_in_def ucast_low6 push_bit_eq_mult of_nat_add of_nat_mult) simp
  then show ?thesis by simp
qed

lemma piece_len_lookup_nth:
  "i < 8 \<Longrightarrow> piece_len_lookup ! i = 1" "piece_len_lookup ! 12 = 2" "piece_len_lookup ! 13 = 2"
  "piece_len_lookup ! 14 = 3" "piece_len_lookup ! 15 = 4"
proof -
  assume "i < 8"
  then have "i \<in> {0, 1, 2, 3, 4, 5, 6, 7}" by auto
  then show "piece_len_lookup ! i = 1" by (auto simp: piece_len_lookup_def)
qed (simp_all add: piece_len_lookup_def)

lemma head_value:
  assumes "code_point c"
  defines "h \<equiv> enc_head c" and "x \<equiv> c div 64 ^ (enc_len c - 1)" and "k \<equiv> 7 - (enc_len c - 1)"
  shows "x < 2 ^ k \<and> h + x < 256 \<and> h mod 2 ^ k = 0 \<and> 0 < h + x \<and> piece_len_lookup ! ((h + x) div 16) = enc_len c"
proof -
  consider "c < 0x80" | "0x80 \<le> c" "c < 0x800" | "0x800 \<le> c" "c < 0x10000" | "0x10000 \<le> c"
    by linarith
  then show ?thesis
  proof cases
    case 1
    then show ?thesis
      using assms(1) piece_len_lookup_nth(1)[of "c div 16"]
      by (simp add: h_def x_def k_def enc_head_def enc_len_def code_point_def)
  next
    case 2
    then have hx: "h = 192" "x = c div 64" "k = 6" "enc_len c = 2"
      by (simp_all add: h_def x_def k_def enc_head_def enc_len_def)
    have "x < 32" using 2 by (simp add: hx)
    then have "(192 + x) div 16 = 12 \<or> (192 + x) div 16 = 13" by linarith
    then show ?thesis using \<open>x < 32\<close> piece_len_lookup_nth unfolding hx(1,3,4) by auto
  next
    case 3
    then have hx: "h = 224" "x = c div 4096" "k = 5" "enc_len c = 3"
      by (simp_all add: h_def x_def k_def enc_head_def enc_len_def)
    have "x < 16" using 3 by (simp add: hx)
    then have "(224 + x) div 16 = 14" by linarith
    then show ?thesis using \<open>x < 16\<close> piece_len_lookup_nth unfolding hx(1,3,4) by auto
  next
    case 4
    then have hx: "h = 240" "x = c div 262144" "k = 4" "enc_len c = 4"
      by (simp_all add: h_def x_def k_def enc_head_def enc_len_def)
    have "x < 5" using assms(1) unfolding hx(2) code_point_def by (intro less_mult_imp_div_less) simp
    then have "(240 + x) div 16 = 15" by linarith
    then show ?thesis using \<open>x < 5\<close> piece_len_lookup_nth unfolding hx(1,3,4) by auto
  qed
qed

lemma head_byte:
  assumes "code_point c"
  defines "b \<equiv> of_nat (enc_head c + c div 64 ^ (enc_len c - 1)) :: byte"
  shows "b \<noteq> 0" "piece_len_lookup ! unat (drop_bit 4 b) = enc_len c"
    "ucast (b AND (push_bit (7 - (enc_len c - 1)) 1 - 1)) = (of_nat (c div 64 ^ (enc_len c - 1)) :: 32 word)"
proof -
  let ?h = "enc_head c" and ?x = "c div 64 ^ (enc_len c - 1)" and ?k = "7 - (enc_len c - 1)"
  note x = head_value[OF assms(1)]
  have u: "unat b = ?h + ?x" unfolding b_def unat_of_nat using x by simp
  then show "b \<noteq> 0" using x by auto
  show "piece_len_lookup ! unat (drop_bit 4 b) = enc_len c" unfolding unat_drop_bit u using x by simp
  have "unat (b AND mask ?k) = ?x" unfolding unat_and_mask u using x by (metis mod_add_left_eq mod_less add_0)
  moreover have "(push_bit ?k 1 - 1 :: byte) = mask ?k" by (simp add: mask_eq_exp_minus_1 push_bit_eq_mult)
  ultimately show "ucast (b AND (push_bit ?k 1 - 1)) = (of_nat ?x :: 32 word)" by (simp only: ucast_byte)
qed

section \<open>Lemmas: pieces\<close>

text \<open>A piece that ends inside the remaining bytes of a sequence, or behind them.\<close>

lemma cont_bytes_split:
  "a @ b = enc_tail c n @ r \<Longrightarrow>
     (\<exists>a'. r = a' @ b \<and> cont_bytes n (of_nat (c div 64 ^ n)) a = (of_nat c, 0, a')) \<or>
     (\<exists>m < n. b = enc_tail c (Suc m) @ r \<and>
        cont_bytes n (of_nat (c div 64 ^ n)) a = (of_nat (c div 64 ^ Suc m), Suc m, []))"
proof (induction n arbitrary: a)
  case (Suc n)
  show ?case
  proof (cases a)
    case (Cons x as)
    then have x: "x = of_nat (128 + c div 64 ^ n mod 64)" "as @ b = enc_tail c n @ r" using Suc.prems by simp_all
    have "cont_bytes (Suc n) (of_nat (c div 64 ^ Suc n)) a = cont_bytes n (of_nat (c div 64 ^ n)) as"
      using cont_byte_nonzero[of "c div 64 ^ n mod 64"]
      by (simp only: Cons cont_bytes.simps x(1) shift_in_value if_False mod_less_divisor zero_less_numeral)
    then show ?thesis using Suc.IH[OF x(2)] less_SucI[of _ n] by metis
  qed (use Suc.prems in auto)
qed auto

lemma continue_seq_split:
  "a @ b = enc_tail c n @ r \<Longrightarrow>
     (\<exists>a'. r = a' @ b \<and> continue_seq (of_nat (c div 64 ^ n)) (int n) a = Some (of_nat c, 0, a')) \<or>
     (\<exists>m < n. b = enc_tail c (Suc m) @ r \<and>
        continue_seq (of_nat (c div 64 ^ n)) (int n) a = Some (of_nat (c div 64 ^ Suc m), int (Suc m), []))"
proof (induction n arbitrary: a)
  case 0
  then show ?case by (cases a) auto
next
  case (Suc n)
  show ?case
  proof (cases a)
    case (Cons x as)
    then have x: "x = of_nat (128 + c div 64 ^ n mod 64)" "as @ b = enc_tail c n @ r" using Suc.prems by simp_all
    have "continue_seq (of_nat (c div 64 ^ Suc n)) (int (Suc n)) a = continue_seq (of_nat (c div 64 ^ n)) (int n) as"
      using cont_byte_nonzero[of "c div 64 ^ n mod 64"] cont_byte_tag[of "c div 64 ^ n mod 64"]
      by (simp only: Cons continue_seq.simps x(1) shift_in_value if_False mod_less_divisor zero_less_numeral) simp
    then show ?thesis using Suc.IH[OF x(2)] less_SucI[of _ n] by metis
  qed (use Suc.prems in auto)
qed

text \<open>The bytes \<open>bs\<close> are what is left of the encoding of \<open>cs\<close> in the decoder state \<open>p\<close>.\<close>

definition pending :: "llama_partial_utf8 \<Rightarrow> byte list \<Rightarrow> nat list \<Rightarrow> bool" where
  "pending p bs cs \<longleftrightarrow> pu_n_remain p = 0 \<and> bs = encode_all cs \<or>
     (\<exists>c cs' n. cs = c # cs' \<and> pu_n_remain p = int (Suc n) \<and> pu_value p = of_nat (c div 64 ^ Suc n) \<and>
        bs = enc_tail c (Suc n) @ encode_all cs')"

lemma encode_all_simps [simp]: "encode_all [] = []" "encode_all (c # cs) = encode_utf8 c @ encode_all cs"
  by (simp_all add: encode_all_def)

lemma decode_seqs_split:
  "a @ b = encode_all cs \<Longrightarrow> \<forall>c \<in> set cs. code_point c \<Longrightarrow>
     \<exists>cs1 cs2 v' n'. decode_seqs v 0 a = Some (map of_nat cs1, v', n') \<and> cs = cs1 @ cs2 \<and>
       pending \<lparr>pu_value = v', pu_n_remain = n'\<rparr> b cs2"
proof (induction cs arbitrary: a v)
  case (Cons c cs)
  show ?case
  proof (cases a)
    case Nil
    then show ?thesis using Cons.prems by (intro exI[of _ "[]"] exI[of _ "c # cs"]) (auto simp: pending_def)
  next
    case (Cons x as)
    let ?n = "enc_len c - 1"
    have cp: "code_point c" using Cons.prems by simp
    have x: "x = of_nat (enc_head c + c div 64 ^ ?n)" and t: "as @ b = enc_tail c ?n @ encode_all cs"
      using Cons.prems(1) \<open>a = x # as\<close> by (simp_all add: encode_utf8_def)
    have pos: "enc_len c > 0" by (simp add: enc_len_def)
    note h = head_byte[OF cp, folded x]
    from cont_bytes_split[OF t] show ?thesis
    proof (elim disjE exE conjE)
      fix a' assume r: "encode_all cs = a' @ b" "cont_bytes ?n (of_nat (c div 64 ^ ?n)) as = (of_nat c, 0, a')"
      obtain cs1 cs2 v' n' where ih: "decode_seqs (of_nat c) 0 a' = Some (map of_nat cs1, v', n')" "cs = cs1 @ cs2"
        "pending \<lparr>pu_value = v', pu_n_remain = n'\<rparr> b cs2"
        using Cons.IH[OF r(1)[symmetric], of "of_nat c"] Cons.prems by auto
      have "decode_seqs v 0 a = Some (map of_nat (c # cs1), v', n')"
        using h pos r(2) ih(1) by (simp add: \<open>a = x # as\<close> Let_def)
      then show ?thesis using ih by (intro exI[of _ "c # cs1"] exI[of _ cs2]) auto
    next
      fix m assume r: "m < ?n" "b = enc_tail c (Suc m) @ encode_all cs"
        "cont_bytes ?n (of_nat (c div 64 ^ ?n)) as = (of_nat (c div 64 ^ Suc m), Suc m, [])"
      have "decode_seqs v 0 a = Some (map of_nat [], of_nat (c div 64 ^ Suc m), int (Suc m))"
        using h pos r(3) by (simp add: \<open>a = x # as\<close> Let_def)
      moreover have "pending \<lparr>pu_value = of_nat (c div 64 ^ Suc m), pu_n_remain = int (Suc m)\<rparr> b (c # cs)"
        using r(2) by (auto simp: pending_def)
      ultimately show ?thesis by (metis append_Nil)
    qed
  qed
qed (auto simp: pending_def)

lemma decode_piece:
  assumes p: "pending p (a @ b) cs" and cp: "\<forall>c \<in> set cs. code_point c"
  shows "\<exists>cs1 cs2 p'. decode_utf8_partial a p = (map of_nat cs1 @ [0], p') \<and> cs = cs1 @ cs2 \<and> pending p' b cs2"
  using p[unfolded pending_def]
proof (elim disjE exE conjE)
  assume n: "pu_n_remain p = 0" "a @ b = encode_all cs"
  have "continue_seq (pu_value p) 0 a = Some (pu_value p, 0, a)" by (cases a) auto
  then show ?thesis
    using decode_seqs_split[OF n(2) cp, of "pu_value p"] n(1) by (fastforce simp: decode_utf8_partial_def)
next
  fix c cs' n
  assume d: "cs = c # cs'" "pu_n_remain p = int (Suc n)" "pu_value p = of_nat (c div 64 ^ Suc n)"
    "a @ b = enc_tail c (Suc n) @ encode_all cs'"
  from continue_seq_split[OF d(4)] show ?thesis
  proof (elim disjE exE conjE)
    fix a' assume r: "encode_all cs' = a' @ b"
      "continue_seq (of_nat (c div 64 ^ Suc n)) (int (Suc n)) a = Some (of_nat c, 0, a')"
    obtain cs1 cs2 v' n' where ih: "decode_seqs (of_nat c) 0 a' = Some (map of_nat cs1, v', n')" "cs' = cs1 @ cs2"
      "pending \<lparr>pu_value = v', pu_n_remain = n'\<rparr> b cs2"
      using decode_seqs_split[OF r(1)[symmetric], of "of_nat c"] cp d(1) by auto
    have "decode_utf8_partial a p = (map of_nat (c # cs1) @ [0], \<lparr>pu_value = v', pu_n_remain = n'\<rparr>)"
      using r(2) ih(1) d(2,3) by (simp add: decode_utf8_partial_def)
    then show ?thesis using ih d(1) by (intro exI[of _ "c # cs1"] exI[of _ cs2]) auto
  next
    fix m assume r: "m < Suc n" "b = enc_tail c (Suc m) @ encode_all cs'"
      "continue_seq (of_nat (c div 64 ^ Suc n)) (int (Suc n)) a = Some (of_nat (c div 64 ^ Suc m), int (Suc m), [])"
    have "decode_utf8_partial a p = (map of_nat [] @ [0], \<lparr>pu_value = of_nat (c div 64 ^ Suc m), pu_n_remain = int (Suc m)\<rparr>)"
      using r(3) d(2,3) by (simp add: decode_utf8_partial_def)
    moreover have "pending \<lparr>pu_value = of_nat (c div 64 ^ Suc m), pu_n_remain = int (Suc m)\<rparr> b cs"
      using r(2) d(1) by (auto simp: pending_def)
    ultimately show ?thesis by (metis append_Nil)
  qed
qed

lemma decode_pieces_pending:
  "pending p (concat as) cs \<Longrightarrow> \<forall>c \<in> set cs. code_point c \<Longrightarrow>
     fst (decode_pieces p as) = map of_nat cs \<and> pu_n_remain (snd (decode_pieces p as)) = 0"
proof (induction as arbitrary: p cs)
  case Nil
  then show ?case by (cases cs) (auto simp: pending_def encode_utf8_def)
next
  case (Cons a as)
  then obtain cs1 cs2 p' where d: "decode_utf8_partial a p = (map of_nat cs1 @ [0], p')" "cs = cs1 @ cs2"
    "pending p' (concat as) cs2" using decode_piece[of p a "concat as" cs] by auto
  have "fst (decode_pieces p' as) = map of_nat cs2 \<and> pu_n_remain (snd (decode_pieces p' as)) = 0"
    using Cons.IH[OF d(3)] Cons.prems(2) d(2) by simp
  then show ?case using d by (cases "decode_pieces p' as") auto
qed

section \<open>Properties\<close>

text \<open>C34: UTF-8 text that arrives in pieces is decoded correctly however it is cut: if the pieces together
  are the encoding of a sequence of code points, decoding them one after the other yields exactly these
  code points, and the decoder ends outside a sequence.\<close>

theorem decode_pieces_roundtrip:
  assumes "concat pieces = encode_all cs" "\<forall>c \<in> set cs. code_point c"
  shows "fst (decode_pieces \<lparr>pu_value = 0, pu_n_remain = 0\<rparr> pieces) = map of_nat cs \<and>
    pu_n_remain (snd (decode_pieces \<lparr>pu_value = 0, pu_n_remain = 0\<rparr> pieces)) = 0"
  using assms by (intro decode_pieces_pending) (auto simp: pending_def)

theorem decode_pieces_roundtrip_witness:
  "fst (decode_pieces \<lparr>pu_value = 0, pu_n_remain = 0\<rparr> [[0x61, 0xE2], [0x82], [0xAC, 0x21]]) = [0x61, 0x20AC, 0x21]"
  using decode_pieces_roundtrip[of "[[0x61, 0xE2], [0x82], [0xAC, 0x21]]" "[0x61, 0x20AC, 0x21]"]
  by (simp add: encode_utf8_def enc_len_def enc_head_def code_point_def numeral_2_eq_2)

end
