(* ===== verification/Grammar.thy ===== *)
theory Grammar
  imports Utf8
begin

text \<open>
  The grammar matcher of \<open>engine/src/llama-grammar.cpp\<close>: rules as vectors of elements, sets of
  pushdown stacks, advancing a stack to its terminals, accepting characters and tokens and
  rejecting candidates. A pointer to an element is a pair of rule number and index; a stack is a
  list with the top first. \<open>advance_stack\<close> is a worklist loop that need not end on a left-recursive
  grammar, so it is a partial function; an abort or a failed assertion is \<open>Inl\<close>.
\<close>

section \<open>Data\<close>

datatype llama_gretype = GR_END | GR_ALT | GR_RULE_REF | GR_CHAR | GR_CHAR_NOT | GR_CHAR_RNG_UPPER
  | GR_CHAR_ALT | GR_CHAR_ANY | GR_TOKEN | GR_TOKEN_NOT

record llama_grammar_element =
  ge_type :: llama_gretype
  ge_value :: nat

type_synonym grule = "llama_grammar_element list"
type_synonym grules = "grule list"
type_synonym gpos = "nat \<times> nat"
type_synonym gstack = "gpos list"
type_synonym gstacks = "gstack list"

text \<open>\<open>None\<close>: the call does not return; \<open>Inl\<close>: it aborts or throws.\<close>

type_synonym 'a res = "(err + 'a) option"

definition ret :: "'a \<Rightarrow> 'a res" where
  "ret x = Some (Inr x)"

definition rbind :: "'a res \<Rightarrow> ('a \<Rightarrow> 'b res) \<Rightarrow> 'b res" where
  "rbind m f = (case m of None \<Rightarrow> None | Some (Inl e) \<Rightarrow> Some (Inl e) | Some (Inr x) \<Rightarrow> f x)"

primrec rfold :: "('b \<Rightarrow> 'a \<Rightarrow> 'a res) \<Rightarrow> 'b list \<Rightarrow> 'a \<Rightarrow> 'a res" where
  "rfold f [] a = ret a"
| "rfold f (x # xs) a = rbind (f x a) (rfold f xs)"

record llama_grammar =
  g_rules :: grules
  g_stacks :: gstacks
  g_partial_utf8 :: llama_partial_utf8
  g_lazy :: bool
  g_awaiting_trigger :: bool
  g_trigger_buffer :: "byte list"
  g_trigger_buffer_positions :: "(llama_token \<times> nat \<times> nat) list"
  g_trigger_tokens :: "llama_token list"

section \<open>Elements\<close>

definition is_end_of_sequence :: "llama_grammar_element \<Rightarrow> bool" where
  "is_end_of_sequence e \<longleftrightarrow> ge_type e = GR_END \<or> ge_type e = GR_ALT"

text \<open>The elements from a position to the end of its rule.\<close>

definition elems_at :: "grules \<Rightarrow> gpos \<Rightarrow> grule" where
  "elems_at rules p = drop (snd p) (rules ! fst p)"

definition elem_at :: "grules \<Rightarrow> gpos \<Rightarrow> llama_grammar_element" where
  "elem_at rules p = rules ! fst p ! snd p"

definition pos_add :: "gpos \<Rightarrow> nat \<Rightarrow> gpos" where
  "pos_add p n = (fst p, snd p + n)"

definition is_positive_char :: "llama_grammar_element \<Rightarrow> bool" where
  "is_positive_char e \<longleftrightarrow> ge_type e = GR_CHAR \<or> ge_type e = GR_CHAR_ANY"

definition is_token_element :: "llama_grammar_element \<Rightarrow> bool" where
  "is_token_element e \<longleftrightarrow> ge_type e = GR_TOKEN \<or> ge_type e = GR_TOKEN_NOT"

text \<open>The loop of \<open>match_char\<close>: what was found and how many elements were passed.\<close>

fun match_loop :: "grule \<Rightarrow> nat \<Rightarrow> bool \<Rightarrow> bool \<times> nat" where
  "match_loop [] chr found = (found, 0)"
| "match_loop [e] chr found = (ge_type e = GR_CHAR_ANY \<or> found \<or> ge_value e = chr, 1)"
| "match_loop (e # u # es) chr found =
     (if ge_type u = GR_CHAR_RNG_UPPER then
        let found = (found \<or> ge_value e \<le> chr \<and> chr \<le> ge_value u) in
        case es of
          [] \<Rightarrow> (found, 2)
        | a # _ \<Rightarrow> if ge_type a = GR_CHAR_ALT then let (f, n) = match_loop es chr found in (f, n + 2) else (found, 2)
      else
        let found = (ge_type e = GR_CHAR_ANY \<or> found \<or> ge_value e = chr) in
        if ge_type u = GR_CHAR_ALT then let (f, n) = match_loop (u # es) chr found in (f, n + 1) else (found, 1))"

definition match_char :: "grules \<Rightarrow> gpos \<Rightarrow> nat \<Rightarrow> (bool \<times> gpos) res" where
  "match_char rules p chr =
     (let e = elem_at rules p in
      if is_positive_char e \<or> ge_type e = GR_CHAR_NOT then
        let (found, n) = match_loop (elems_at rules p) chr False
        in ret (found = is_positive_char e, pos_add p n)
      else Some (Inl Assert_failed))"

fun partial_loop :: "grule \<Rightarrow> bool \<Rightarrow> nat \<Rightarrow> nat \<Rightarrow> bool" where
  "partial_loop [] positive low high = (\<not> positive)"
| "partial_loop [e] positive low high =
     (if ge_type e = GR_CHAR_ANY then True
      else if low \<le> ge_value e \<and> ge_value e \<le> high then positive else \<not> positive)"
| "partial_loop (e # u # es) positive low high =
     (if ge_type u = GR_CHAR_RNG_UPPER then
        if ge_value e \<le> high \<and> low \<le> ge_value u then positive
        else case es of
          [] \<Rightarrow> \<not> positive
        | a # _ \<Rightarrow> if ge_type a = GR_CHAR_ALT then partial_loop es positive low high else \<not> positive
      else if ge_type e = GR_CHAR_ANY then True
      else if low \<le> ge_value e \<and> ge_value e \<le> high then positive
      else if ge_type u = GR_CHAR_ALT then partial_loop (u # es) positive low high
      else \<not> positive)"

definition match_partial_char :: "grules \<Rightarrow> gpos \<Rightarrow> llama_partial_utf8 \<Rightarrow> bool res" where
  "match_partial_char rules p pu =
     (let e = elem_at rules p in
      if is_positive_char e \<or> ge_type e = GR_CHAR_NOT then
        let n_remain = pu_n_remain pu in
        if n_remain < 0 \<or> n_remain = 1 \<and> pu_value pu < 2 then ret False
        else
          let low = push_bit (nat n_remain * 6) (pu_value pu);
              high = low OR (push_bit (nat n_remain * 6) 1 - 1);
              low = (if low = 0 then if n_remain = 2 then 2 ^ 11 else if n_remain = 3 then 2 ^ 16 else low else low)
          in ret (partial_loop (elems_at rules p) (is_positive_char e) (unat low) (unat high))
      else Some (Inl Assert_failed))"

definition match_token :: "grules \<Rightarrow> gpos \<Rightarrow> llama_token \<Rightarrow> bool res" where
  "match_token rules p token =
     (let e = elem_at rules p in
      if ge_type e = GR_TOKEN then ret (ge_value e = nat (token mod 2 ^ 32))
      else if ge_type e = GR_TOKEN_NOT then ret (ge_value e \<noteq> nat (token mod 2 ^ 32))
      else Some (Inl Assert_failed))"

section \<open>Advancing stacks\<close>

text \<open>The positions where the alternates of a rule start, from a given start on.\<close>

definition scan_end :: "grule \<Rightarrow> nat \<Rightarrow> nat" where
  "scan_end es i = i + length (takeWhile (\<lambda>e. \<not> is_end_of_sequence e) (drop i es))"

function alts_from :: "grule \<Rightarrow> nat \<Rightarrow> nat list" where
  "alts_from es i =
     (let j = scan_end es i in
      if j < length es \<and> ge_type (es ! j) = GR_ALT then i # alts_from es (Suc j) else [i])"
  by pat_completeness auto
termination
  by (relation "measure (\<lambda>(es, i). length es - i)") (auto simp: scan_end_def)

declare alts_from.simps [simp del]

definition push_pos :: "grules \<Rightarrow> gpos \<Rightarrow> gstack \<Rightarrow> gstack" where
  "push_pos rules p st = (if is_end_of_sequence (elem_at rules p) then st else p # st)"

definition expand_ref :: "grules \<Rightarrow> gpos \<Rightarrow> gstack \<Rightarrow> gstacks" where
  "expand_ref rules p rest =
     (let rule_id = ge_value (elem_at rules p)
      in map (\<lambda>i. push_pos rules (rule_id, i) (push_pos rules (pos_add p 1) rest)) (alts_from (rules ! rule_id) 0))"

definition add_stack :: "gstack \<Rightarrow> gstacks \<Rightarrow> gstacks" where
  "add_stack st stacks = (if st \<in> set stacks then stacks else stacks @ [st])"

definition is_terminal_element :: "llama_grammar_element \<Rightarrow> bool" where
  "is_terminal_element e \<longleftrightarrow> ge_type e \<in> {GR_CHAR, GR_CHAR_NOT, GR_CHAR_ANY, GR_TOKEN, GR_TOKEN_NOT}"

partial_function (option) advance_loop :: "grules \<Rightarrow> gstacks \<Rightarrow> gstack set \<Rightarrow> gstacks \<Rightarrow> gstacks res" where
  "advance_loop rules todo seen new_stacks =
     (case todo of
        [] \<Rightarrow> Some (Inr new_stacks)
      | st # todo' \<Rightarrow>
          if st \<in> seen then advance_loop rules todo' seen new_stacks
          else
            (case st of
               [] \<Rightarrow> advance_loop rules todo' (insert st seen) (add_stack st new_stacks)
             | p # rest \<Rightarrow>
                 if ge_type (elem_at rules p) = GR_RULE_REF then
                   advance_loop rules (rev (expand_ref rules p rest) @ todo') (insert st seen) new_stacks
                 else if is_terminal_element (elem_at rules p) then
                   advance_loop rules todo' (insert st seen) (add_stack st new_stacks)
                 else Some (Inl Assert_failed)))"

definition advance_stack :: "grules \<Rightarrow> gstack \<Rightarrow> gstacks \<Rightarrow> gstacks res" where
  "advance_stack rules st new_stacks = advance_loop rules [st] {} new_stacks"

text \<open>The initial stacks: one for every alternate of the start rule, advanced.\<close>

definition init_stacks :: "grules \<Rightarrow> nat \<Rightarrow> gstacks res" where
  "init_stacks rules start_rule_index =
     rfold (\<lambda>i. advance_stack rules (push_pos rules (start_rule_index, i) [])) (alts_from (rules ! start_rule_index) 0) []"

section \<open>Accepting characters\<close>

definition accept_chr :: "grules \<Rightarrow> gstack \<Rightarrow> nat \<Rightarrow> gstacks \<Rightarrow> gstacks res" where
  "accept_chr rules st chr new_stacks =
     (case st of
        [] \<Rightarrow> ret new_stacks
      | p # rest \<Rightarrow>
          if is_token_element (elem_at rules p) then ret new_stacks
          else rbind (match_char rules p chr) (\<lambda>(ok, q).
            if ok then advance_stack rules (push_pos rules q rest) new_stacks else ret new_stacks))"

definition accept_stacks :: "grules \<Rightarrow> gstacks \<Rightarrow> nat \<Rightarrow> gstacks res" where
  "accept_stacks rules stacks chr = rfold (\<lambda>st. accept_chr rules st chr) stacks []"

definition llama_grammar_accept :: "llama_grammar \<Rightarrow> nat \<Rightarrow> llama_grammar res" where
  "llama_grammar_accept g chr =
     rbind (accept_stacks (g_rules g) (g_stacks g) chr) (\<lambda>stacks. ret (g\<lparr>g_stacks := stacks\<rparr>))"

text \<open>Pieces are decoded with a terminating zero, which is not accepted.\<close>

definition llama_grammar_accept_str :: "llama_grammar \<Rightarrow> byte list \<Rightarrow> llama_grammar res" where
  "llama_grammar_accept_str g piece =
     (let (code_points, pu) = decode_utf8_partial piece (g_partial_utf8 g) in
      rbind (rfold (\<lambda>c g. llama_grammar_accept g (unat c)) (butlast code_points) g) (\<lambda>g.
        let g = g\<lparr>g_partial_utf8 := pu\<rparr> in
        if g_stacks g = [] then Some (Inl (Exn ''Unexpected empty grammar stack after accepting piece'')) else ret g))"

text \<open>The characters of a token, from one stack; the loop stops when no stack is left.\<close>

primrec accept_chars :: "grules \<Rightarrow> nat list \<Rightarrow> gstacks \<Rightarrow> gstacks res" where
  "accept_chars rules [] stacks = ret stacks"
| "accept_chars rules (c # cs) stacks =
     rbind (accept_stacks rules stacks c) (\<lambda>next_stacks.
       if next_stacks = [] then ret [] else accept_chars rules cs next_stacks)"

definition accept_token_stack :: "grules \<Rightarrow> llama_token \<Rightarrow> nat list \<Rightarrow> gstack \<Rightarrow> gstacks \<Rightarrow> gstacks res" where
  "accept_token_stack rules token cps st stacks_new =
     (case st of
        [] \<Rightarrow> ret stacks_new
      | p # rest \<Rightarrow>
          if is_token_element (elem_at rules p) then
            rbind (match_token rules p token) (\<lambda>ok.
              if ok then advance_stack rules (push_pos rules (pos_add p 1) rest) stacks_new else ret stacks_new)
          else rbind (accept_chars rules cps [st]) (\<lambda>current. ret (fold add_stack current stacks_new)))"

definition llama_grammar_accept_token :: "llama_grammar \<Rightarrow> llama_token \<Rightarrow> byte list \<Rightarrow> llama_grammar res" where
  "llama_grammar_accept_token g token piece =
     (let (code_points, pu) = decode_utf8_partial piece (g_partial_utf8 g);
          cps = map unat (butlast code_points)
      in rbind (rfold (accept_token_stack (g_rules g) token cps) (g_stacks g) []) (\<lambda>stacks_new.
           if stacks_new = [] then Some (Inl (Exn ''Unexpected empty grammar stack after accepting piece''))
           else ret (g\<lparr>g_stacks := stacks_new, g_partial_utf8 := pu\<rparr>)))"

section \<open>Rejecting candidates\<close>

text \<open>
  \<open>code_points\<close> points into the decoded code points of the token, which end with a zero: the
  decoded list and the offset.
\<close>

record llama_grammar_candidate =
  gc_index :: nat
  gc_decoded :: "nat list"
  gc_offset :: nat
  gc_partial_utf8 :: llama_partial_utf8
  gc_id :: llama_token

definition code_point_at :: "llama_grammar_candidate \<Rightarrow> nat" where
  "code_point_at tok = gc_decoded tok ! gc_offset tok"

definition next_candidate :: "llama_grammar_candidate \<Rightarrow> llama_grammar_candidate" where
  "next_candidate tok = tok\<lparr>gc_offset := gc_offset tok + 1\<rparr>"

definition prev_candidate :: "llama_grammar_candidate \<Rightarrow> llama_grammar_candidate" where
  "prev_candidate tok = tok\<lparr>gc_offset := gc_offset tok - 1\<rparr>"

text \<open>What happens to one candidate: rejected, passed on to the next position, or neither.\<close>

datatype verdict = Rejected | Passed | Settled

definition end_verdict :: "llama_grammar_candidate \<Rightarrow> verdict res" where
  "end_verdict tok =
     ret (if code_point_at tok \<noteq> 0 \<or> pu_n_remain (gc_partial_utf8 tok) \<noteq> 0 then Rejected else Settled)"

definition token_verdict :: "grules \<Rightarrow> gpos \<Rightarrow> llama_grammar_candidate \<Rightarrow> verdict res" where
  "token_verdict rules p tok =
     (if code_point_at tok = 0 then ret (if pu_n_remain (gc_partial_utf8 tok) \<noteq> 0 then Rejected else Settled)
      else rbind (match_token rules p (gc_id tok)) (\<lambda>ok. ret (if ok then Settled else Rejected)))"

definition char_verdict :: "grules \<Rightarrow> gpos \<Rightarrow> llama_grammar_candidate \<Rightarrow> verdict res" where
  "char_verdict rules p tok =
     (if code_point_at tok = 0 then
        if pu_n_remain (gc_partial_utf8 tok) \<noteq> 0 then
          rbind (match_partial_char rules p (gc_partial_utf8 tok)) (\<lambda>ok. ret (if ok then Settled else Rejected))
        else ret Settled
      else rbind (match_char rules p (code_point_at tok)) (\<lambda>(ok, _). ret (if ok then Passed else Rejected)))"

primrec rmap :: "('a \<Rightarrow> 'b res) \<Rightarrow> 'a list \<Rightarrow> 'b list res" where
  "rmap f [] = ret []"
| "rmap f (x # xs) = rbind (f x) (\<lambda>y. rbind (rmap f xs) (\<lambda>ys. ret (y # ys)))"

definition with_verdict :: "verdict \<Rightarrow> verdict list \<Rightarrow> 'a list \<Rightarrow> 'a list" where
  "with_verdict v vs xs = map snd (filter (\<lambda>(v', _). v' = v) (zip vs xs))"

text \<open>
  The two mutually recursive functions. Each level of \<open>reject_for_stack\<close> goes one code point further,
  so fuel above the number of code points suffices.
\<close>

function reject_for_stack :: "nat \<Rightarrow> grules \<Rightarrow> gstack \<Rightarrow> llama_grammar_candidate list \<Rightarrow> llama_grammar_candidate list res"
  and reject_candidates :: "nat \<Rightarrow> grules \<Rightarrow> gstacks \<Rightarrow> llama_grammar_candidate list \<Rightarrow> llama_grammar_candidate list res" where
  "reject_for_stack fuel rules st candidates =
     (case st of
        [] \<Rightarrow> rbind (rmap end_verdict candidates) (\<lambda>vs. ret (with_verdict Rejected vs candidates))
      | p # rest \<Rightarrow>
          if is_token_element (elem_at rules p) then
            rbind (rmap (token_verdict rules p) candidates) (\<lambda>vs. ret (with_verdict Rejected vs candidates))
          else if fuel = 0 then None
          else
            rbind (rmap (char_verdict rules p) candidates) (\<lambda>vs.
            rbind (match_char rules p 0) (\<lambda>(_, q).
            rbind (advance_stack rules (push_pos rules q rest) []) (\<lambda>next_stacks.
            rbind (reject_candidates (fuel - 1) rules next_stacks (map next_candidate (with_verdict Passed vs candidates)))
              (\<lambda>next_rejects. ret (with_verdict Rejected vs candidates @ map prev_candidate next_rejects))))))"
| "reject_candidates fuel rules stacks candidates =
     (if stacks = [] then Some (Inl Assert_failed)
      else if candidates = [] then ret []
      else rbind (reject_for_stack fuel rules (hd stacks) candidates)
             (rfold (reject_for_stack fuel rules) (tl stacks)))"
  by pat_completeness auto
termination
  by (relation "measure (\<lambda>x. case x of Inl (fuel, _) \<Rightarrow> 2 * fuel | Inr (fuel, _) \<Rightarrow> 2 * fuel + 1)") auto

declare reject_for_stack.simps [simp del] reject_candidates.simps [simp del]

section \<open>Left recursion\<close>

text \<open>Whether some alternate of a rule has no elements, from an element on.\<close>

fun has_empty_alt :: "bool \<Rightarrow> grule \<Rightarrow> bool" where
  "has_empty_alt at_rule_start [] = False"
| "has_empty_alt at_rule_start (e # es) =
     (if is_end_of_sequence e then at_rule_start \<or> has_empty_alt True es else has_empty_alt False es)"

record lr_state =
  lr_visited :: "nat set"
  lr_in_progress :: "nat set"
  lr_may_be_empty :: "nat set"

text \<open>
  The result is whether left recursion was found and the new state. The depth of the recursion is at
  most the number of rules not yet in progress, which bounds the fuel.
\<close>

fun detect_left_recursion :: "nat \<Rightarrow> grules \<Rightarrow> nat \<Rightarrow> lr_state \<Rightarrow> (bool \<times> lr_state) option"
  and detect_elems :: "nat \<Rightarrow> grules \<Rightarrow> grule \<Rightarrow> bool \<Rightarrow> lr_state \<Rightarrow> (bool \<times> lr_state) option" where
  "detect_left_recursion fuel rules rule_index st =
     (if rule_index \<in> lr_in_progress st then Some (True, st)
      else case fuel of 0 \<Rightarrow> None
      | Suc fuel' \<Rightarrow>
          let st = st\<lparr>lr_in_progress := insert rule_index (lr_in_progress st)\<rparr>;
              st = (if has_empty_alt True (rules ! rule_index)
                    then st\<lparr>lr_may_be_empty := insert rule_index (lr_may_be_empty st)\<rparr> else st)
          in case detect_elems fuel' rules (rules ! rule_index) True st of
               None \<Rightarrow> None
             | Some (True, st) \<Rightarrow> Some (True, st)
             | Some (False, st) \<Rightarrow>
                 Some (False, st\<lparr>lr_in_progress := lr_in_progress st - {rule_index},
                                lr_visited := insert rule_index (lr_visited st)\<rparr>))"
| "detect_elems fuel rules [] recurse st = Some (False, st)"
| "detect_elems fuel rules (e # es) recurse st =
     (if ge_type e = GR_RULE_REF \<and> recurse then
        case detect_left_recursion fuel rules (ge_value e) st of
          None \<Rightarrow> None
        | Some (True, st) \<Rightarrow> Some (True, st)
        | Some (False, st) \<Rightarrow> detect_elems fuel rules es (ge_value e \<in> lr_may_be_empty st) st
      else detect_elems fuel rules es (is_end_of_sequence e) st)"

declare detect_left_recursion.simps [simp del]

fun detect_all :: "grules \<Rightarrow> nat list \<Rightarrow> lr_state \<Rightarrow> bool option" where
  "detect_all rules [] st = Some False"
| "detect_all rules (i # is) st =
     (if i \<in> lr_visited st then detect_all rules is st
      else case detect_left_recursion (Suc (length rules)) rules i st of
        None \<Rightarrow> None
      | Some (True, _) \<Rightarrow> Some True
      | Some (False, st) \<Rightarrow> detect_all rules is st)"

definition left_recursion_found :: "grules \<Rightarrow> bool option" where
  "left_recursion_found rules =
     detect_all rules [0..<length rules] \<lparr>lr_visited = {}, lr_in_progress = {}, lr_may_be_empty = {}\<rparr>"

section \<open>Sampling\<close>

text \<open>
  The vocabulary is a parameter: \<open>token_to_piece\<close> and \<open>is_eog\<close>. A logit of \<open>None\<close> is minus infinity.
\<close>

record llama_token_data =
  td_id :: llama_token
  td_logit :: "float32 option"

definition mask_logit :: "nat \<Rightarrow> llama_token_data list \<Rightarrow> llama_token_data list" where
  "mask_logit i cur_p = cur_p[i := (cur_p ! i)\<lparr>td_logit := None\<rparr>]"

definition token_candidate :: "llama_partial_utf8 \<Rightarrow> (llama_token \<Rightarrow> byte list) \<Rightarrow> llama_token_data list \<Rightarrow> nat \<Rightarrow>
    llama_grammar_candidate" where
  "token_candidate pu token_to_piece cur_p i =
     (let id = td_id (cur_p ! i); (cps, pu') = decode_utf8_partial (token_to_piece id) pu
      in \<lparr>gc_index = i, gc_decoded = map unat cps, gc_offset = 0, gc_partial_utf8 = pu', gc_id = id\<rparr>)"

definition no_piece :: "byte list \<Rightarrow> bool" where
  "no_piece piece \<longleftrightarrow> piece = [] \<or> hd piece = 0"

definition reject_fuel :: "llama_grammar_candidate list \<Rightarrow> nat" where
  "reject_fuel candidates = Suc (fold (\<lambda>tok n. max n (length (gc_decoded tok))) candidates 0)"

definition llama_grammar_apply_impl :: "(llama_token \<Rightarrow> byte list) \<Rightarrow> (llama_token \<Rightarrow> bool) \<Rightarrow> llama_grammar \<Rightarrow>
    llama_token_data list \<Rightarrow> llama_token_data list res" where
  "llama_grammar_apply_impl token_to_piece is_eog g cur_p =
     (if g_awaiting_trigger g then ret cur_p
      else
        let allow_eog = ([] \<in> set (g_stacks g));
            masked = filter (\<lambda>i. let id = td_id (cur_p ! i) in
              if is_eog id then \<not> allow_eog else no_piece (token_to_piece id)) [0..<length cur_p];
            candidates = map (token_candidate (g_partial_utf8 g) token_to_piece cur_p)
              (filter (\<lambda>i. let id = td_id (cur_p ! i) in \<not> is_eog id \<and> \<not> no_piece (token_to_piece id)) [0..<length cur_p])
        in rbind (reject_candidates (reject_fuel candidates) (g_rules g) (g_stacks g) candidates) (\<lambda>rejects.
             ret (fold mask_logit (map gc_index rejects) (fold mask_logit masked cur_p))))"

text \<open>
  A trigger pattern is its \<open>find\<close> function: where the constrained part of a text starts, if the
  pattern occurs in it.
\<close>

definition replay_token :: "nat \<Rightarrow> byte list \<Rightarrow> llama_token \<times> nat \<times> nat \<Rightarrow> llama_grammar \<Rightarrow> llama_grammar res" where
  "replay_token start buf = (\<lambda>(tok, tok_start, tok_end) g.
     if tok_end \<le> start then ret g
     else
       let piece_start = (if tok_start < start then start else tok_start)
       in llama_grammar_accept_token g tok (take (tok_end - piece_start) (drop piece_start buf)))"

fun first_trigger :: "(byte list \<Rightarrow> nat option) list \<Rightarrow> byte list \<Rightarrow> nat option" where
  "first_trigger [] buf = None"
| "first_trigger (f # fs) buf = (case f buf of Some start \<Rightarrow> Some start | None \<Rightarrow> first_trigger fs buf)"

definition llama_grammar_accept_impl :: "(llama_token \<Rightarrow> byte list) \<Rightarrow> (llama_token \<Rightarrow> bool) \<Rightarrow>
    (byte list \<Rightarrow> nat option) list \<Rightarrow> llama_grammar \<Rightarrow> llama_token \<Rightarrow> llama_grammar res" where
  "llama_grammar_accept_impl token_to_piece is_eog trigger_patterns g token =
     (let piece = token_to_piece token in
      if g_awaiting_trigger g then
        if token \<in> set (g_trigger_tokens g) then
          llama_grammar_accept_token (g\<lparr>g_awaiting_trigger := False, g_trigger_buffer := []\<rparr>) token piece
        else
          let n = length (g_trigger_buffer g);
              g = g\<lparr>g_trigger_buffer_positions := g_trigger_buffer_positions g @ [(token, n, n + length piece)],
                    g_trigger_buffer := g_trigger_buffer g @ piece\<rparr>
          in case first_trigger trigger_patterns (g_trigger_buffer g) of
               None \<Rightarrow> ret g
             | Some start \<Rightarrow>
                 rbind (rfold (replay_token start (g_trigger_buffer g)) (g_trigger_buffer_positions g)
                          (g\<lparr>g_awaiting_trigger := False\<rparr>))
                   (\<lambda>g. ret (g\<lparr>g_trigger_buffer := [], g_trigger_buffer_positions := []\<rparr>))
      else if is_eog token then
        if [] \<in> set (g_stacks g) then ret g else Some (Inl Assert_failed)
      else llama_grammar_accept_token g token piece)"

end
