(* ===== verification/GrammarLang.thy ===== *)
theory GrammarLang
  imports Grammar
begin

text \<open>
  What the grammar matcher is meant to compute: a rule vector is read as a context-free grammar over
  character classes, the language of a stack is defined by derivations, and the stack operations of
  \<open>Grammar\<close> are shown to compute it. The last part is about the check for left recursion.
\<close>

section \<open>Well-formed rules\<close>

text \<open>
  The shape the parser produces: one end marker at the end, references inside the grammar, range ends
  behind a character and alternatives behind a character or a range end.
\<close>

fun elems_ok :: "nat \<Rightarrow> llama_gretype \<Rightarrow> grule \<Rightarrow> bool" where
  "elems_ok n prev [] = False"
| "elems_ok n prev (e # es) =
     (case ge_type e of
        GR_END \<Rightarrow> es = []
      | GR_RULE_REF \<Rightarrow> ge_value e < n \<and> elems_ok n GR_RULE_REF es
      | GR_CHAR_RNG_UPPER \<Rightarrow> prev \<in> {GR_CHAR, GR_CHAR_NOT, GR_CHAR_ALT} \<and> elems_ok n GR_CHAR_RNG_UPPER es
      | GR_CHAR_ALT \<Rightarrow> prev \<in> {GR_CHAR, GR_CHAR_NOT, GR_CHAR_ALT, GR_CHAR_RNG_UPPER} \<and> elems_ok n GR_CHAR_ALT es
      | t \<Rightarrow> elems_ok n t es)"

definition grammar_wf :: "grules \<Rightarrow> bool" where
  "grammar_wf rules \<longleftrightarrow> (\<forall>r < length rules. elems_ok (length rules) GR_ALT (rules ! r))"

definition is_cont :: "llama_grammar_element \<Rightarrow> bool" where
  "is_cont e \<longleftrightarrow> ge_type e = GR_CHAR_RNG_UPPER \<or> ge_type e = GR_CHAR_ALT"

definition pos_ok :: "grules \<Rightarrow> gpos \<Rightarrow> bool" where
  "pos_ok rules p \<longleftrightarrow> fst p < length rules \<and> snd p < length (rules ! fst p) \<and> \<not> is_cont (elem_at rules p)"

definition stack_ok :: "grules \<Rightarrow> gstack \<Rightarrow> bool" where
  "stack_ok rules st \<longleftrightarrow> (\<forall>p \<in> set st. pos_ok rules p \<and> \<not> is_end_of_sequence (elem_at rules p))"

section \<open>The grammar as a context-free grammar\<close>

datatype gsym = NT nat | Cls grule | Tok llama_grammar_element

function syms :: "grule \<Rightarrow> gsym list" where
  "syms [] = []"
| "syms (e # es) =
     (if is_end_of_sequence e then []
      else if ge_type e = GR_RULE_REF then NT (ge_value e) # syms es
      else if is_token_element e then Tok e # syms es
      else Cls (e # takeWhile is_cont es) # syms (dropWhile is_cont es))"
  by pat_completeness auto
termination
  by (relation "measure length") (auto simp: le_imp_less_Suc length_dropWhile_le)

definition rem :: "grules \<Rightarrow> gpos \<Rightarrow> gsym list" where
  "rem rules p = syms (elems_at rules p)"

definition alternatives :: "grules \<Rightarrow> nat \<Rightarrow> gsym list list" where
  "alternatives rules r = map (\<lambda>i. rem rules (r, i)) (alts_from (rules ! r) 0)"

text \<open>A class contains a character if one of its ranges or single characters does.\<close>

definition in_class :: "grule \<Rightarrow> nat \<Rightarrow> bool" where
  "in_class cls c \<longleftrightarrow> (\<exists>i < length cls.
     if Suc i < length cls \<and> ge_type (cls ! Suc i) = GR_CHAR_RNG_UPPER
     then ge_value (cls ! i) \<le> c \<and> c \<le> ge_value (cls ! Suc i)
     else ge_type (cls ! i) = GR_CHAR_ANY \<or> ge_type (cls ! i) \<noteq> GR_CHAR_RNG_UPPER \<and> ge_value (cls ! i) = c)"

definition class_match :: "grule \<Rightarrow> nat \<Rightarrow> bool" where
  "class_match cls c \<longleftrightarrow> in_class cls c = is_positive_char (hd cls)"

inductive gen :: "grules \<Rightarrow> gsym list \<Rightarrow> nat list \<Rightarrow> bool" for rules where
  gen_nil: "gen rules [] []"
| gen_cls: "class_match cls c \<Longrightarrow> gen rules ss w \<Longrightarrow> gen rules (Cls cls # ss) (c # w)"
| gen_nt: "alt \<in> set (alternatives rules r) \<Longrightarrow> gen rules alt u \<Longrightarrow> gen rules ss v \<Longrightarrow> gen rules (NT r # ss) (u @ v)"

inductive_cases gen_nilE [elim!]: "gen rules [] w"
inductive_cases gen_clsE: "gen rules (Cls cls # ss) w"
inductive_cases gen_ntE: "gen rules (NT r # ss) w"
inductive_cases gen_tokE [elim!]: "gen rules (Tok t # ss) w"

definition stack_syms :: "grules \<Rightarrow> gstack \<Rightarrow> gsym list" where
  "stack_syms rules st = concat (map (rem rules) st)"

text \<open>The strings a set of stacks still accepts.\<close>

definition stacks_lang :: "grules \<Rightarrow> gstack set \<Rightarrow> nat list \<Rightarrow> bool" where
  "stacks_lang rules S w \<longleftrightarrow> (\<exists>st \<in> S. gen rules (stack_syms rules st) w)"

section \<open>Lemmas: derivations\<close>

lemma gen_nil_iff [simp]: "gen rules [] w \<longleftrightarrow> w = []"
  by (auto intro: gen_nil)

lemma gen_cls_iff: "gen rules (Cls cls # ss) w \<longleftrightarrow> (\<exists>c v. w = c # v \<and> class_match cls c \<and> gen rules ss v)"
  by (auto elim: gen_clsE intro: gen_cls)

lemma gen_nt_iff:
  "gen rules (NT r # ss) w \<longleftrightarrow>
     (\<exists>alt \<in> set (alternatives rules r). \<exists>u v. w = u @ v \<and> gen rules alt u \<and> gen rules ss v)"
  by (auto elim!: gen_ntE intro: gen_nt)

lemma gen_append: "gen rules (a @ b) w \<longleftrightarrow> (\<exists>u v. w = u @ v \<and> gen rules a u \<and> gen rules b v)"
proof (induction a arbitrary: w)
  case (Cons x a)
  show ?case
  proof (cases x)
    case (NT r)
    then show ?thesis by (simp add: gen_nt_iff Cons.IH) (metis append.assoc)
  next
    case (Cls cls)
    then show ?thesis by (simp add: gen_cls_iff Cons.IH) (metis append_Cons)
  next
    case (Tok t)
    then show ?thesis by auto
  qed
qed simp

lemma gen_nt_expand: "gen rules (NT r # ss) w \<longleftrightarrow> (\<exists>alt \<in> set (alternatives rules r). gen rules (alt @ ss) w)"
  by (auto simp: gen_nt_iff gen_append)

section \<open>Lemmas: elements and positions\<close>

lemma elems_ok_ne: "elems_ok n prev es \<Longrightarrow> es \<noteq> []"
  by (cases es) auto

lemma elems_ok_tl: "elems_ok n prev (e # es) \<Longrightarrow> ge_type e \<noteq> GR_END \<Longrightarrow> elems_ok n (ge_type e) es"
  by (cases "ge_type e") auto

lemma elems_ok_END: "elems_ok n prev (e # es) \<Longrightarrow> ge_type e = GR_END \<Longrightarrow> es = []"
  by simp

lemma elems_ok_drop:
  "elems_ok n prev es \<Longrightarrow> i < length es \<Longrightarrow> \<exists>prev'. elems_ok n prev' (drop i es)"
proof (induction i arbitrary: prev es)
  case (Suc i)
  then obtain e es' where es: "es = e # es'" by (cases es) auto
  show ?case
  proof (cases "ge_type e = GR_END")
    case True
    then show ?thesis using Suc.prems es by simp
  next
    case False
    then show ?thesis using Suc es elems_ok_tl by fastforce
  qed
qed auto

lemma elems_ok_not_cont: "elems_ok n prev (e # es) \<Longrightarrow> \<not> is_cont e \<Longrightarrow> elems_ok n prev' (e # es)"
  by (cases "ge_type e") (auto simp: is_cont_def)

text \<open>At a valid position the rest of the rule is a well-formed element sequence.\<close>

lemma pos_elems:
  assumes "grammar_wf rules" "pos_ok rules p"
  obtains es where "elems_at rules p = elem_at rules p # es" "elems_ok (length rules) GR_ALT (elem_at rules p # es)"
proof -
  let ?r = "rules ! fst p"
  have l: "fst p < length rules" "snd p < length ?r" "\<not> is_cont (elem_at rules p)"
    using assms(2) by (simp_all add: pos_ok_def)
  have e: "elems_at rules p = elem_at rules p # drop (Suc (snd p)) ?r"
    using l by (simp add: elems_at_def elem_at_def Cons_nth_drop_Suc)
  obtain prev where "elems_ok (length rules) prev (elems_at rules p)"
    using elems_ok_drop[of "length rules" GR_ALT ?r "snd p"] assms(1) l by (auto simp: grammar_wf_def elems_at_def)
  then have "elems_ok (length rules) GR_ALT (elem_at rules p # drop (Suc (snd p)) ?r)"
    using e l(3) elems_ok_not_cont by metis
  then show thesis using that e by blast
qed

lemma elem_at_hd: "elems_at rules p = e # es \<Longrightarrow> elem_at rules p = e"
  by (auto simp: elem_at_def elems_at_def) (metis hd_drop_conv_nth linorder_not_less drop_all list.distinct(1) list.sel(1))

lemma elems_at_add: "elems_at rules (pos_add p n) = drop n (elems_at rules p)"
  by (simp add: elems_at_def pos_add_def add.commute)

text \<open>The position \<open>n\<close> elements further, when it is not inside a class.\<close>

lemma pos_ok_add:
  assumes "pos_ok rules p" "n < length (elems_at rules p)" "\<not> is_cont (elems_at rules p ! n)"
  shows "pos_ok rules (pos_add p n)"
  using assms by (simp add: pos_ok_def elems_at_def elem_at_def pos_add_def)

lemma rem_eos: "pos_ok rules p \<Longrightarrow> is_end_of_sequence (elem_at rules p) \<Longrightarrow> rem rules p = []"
  by (simp add: rem_def elems_at_def elem_at_def pos_ok_def flip: Cons_nth_drop_Suc)

lemma stack_syms_simps [simp]:
  "stack_syms rules [] = []" "stack_syms rules (p # st) = rem rules p @ stack_syms rules st"
  by (simp_all add: stack_syms_def)

lemma stack_syms_push: "pos_ok rules p \<Longrightarrow> stack_syms rules (push_pos rules p st) = rem rules p @ stack_syms rules st"
  by (simp add: push_pos_def rem_eos)

lemma stack_ok_simps [simp]:
  "stack_ok rules []"
  "stack_ok rules (p # st) \<longleftrightarrow> pos_ok rules p \<and> \<not> is_end_of_sequence (elem_at rules p) \<and> stack_ok rules st"
  by (auto simp: stack_ok_def)

lemma stack_ok_push: "pos_ok rules p \<Longrightarrow> stack_ok rules st \<Longrightarrow> stack_ok rules (push_pos rules p st)"
  by (simp add: push_pos_def)

section \<open>Lemmas: what follows an element\<close>

lemma elems_ok_next:
  "elems_ok n t es \<Longrightarrow> t \<notin> {GR_CHAR, GR_CHAR_NOT, GR_CHAR_ALT, GR_CHAR_RNG_UPPER} \<Longrightarrow> \<exists>x xs. es = x # xs \<and> \<not> is_cont x"
  by (cases es) (auto simp: is_cont_def)

lemma elems_ok_after_class: "elems_ok n t es \<Longrightarrow> \<exists>x xs. dropWhile is_cont es = x # xs \<and> \<not> is_cont x"
proof (induction es arbitrary: t)
  case (Cons e es)
  show ?case
  proof (cases "is_cont e")
    case True
    then have "ge_type e \<noteq> GR_END" by (auto simp: is_cont_def)
    then show ?thesis using Cons.IH[OF elems_ok_tl[OF Cons.prems]] True by simp
  qed simp
qed simp

lemma single_next:
  assumes wf: "grammar_wf rules" and p: "pos_ok rules p"
    and t: "ge_type (elem_at rules p) = GR_RULE_REF \<or> is_token_element (elem_at rules p)"
  shows "pos_ok rules (pos_add p 1)" "rem rules p = (if ge_type (elem_at rules p) = GR_RULE_REF
      then NT (ge_value (elem_at rules p)) else Tok (elem_at rules p)) # rem rules (pos_add p 1)"
    "ge_type (elem_at rules p) = GR_RULE_REF \<Longrightarrow> ge_value (elem_at rules p) < length rules"
proof -
  obtain es where es: "elems_at rules p = elem_at rules p # es" "elems_ok (length rules) GR_ALT (elem_at rules p # es)"
    using pos_elems[OF wf p] .
  have ne: "ge_type (elem_at rules p) \<noteq> GR_END" "\<not> is_end_of_sequence (elem_at rules p)"
    using t by (auto simp: is_token_element_def is_end_of_sequence_def)
  obtain x xs where x: "es = x # xs" "\<not> is_cont x"
    using elems_ok_next[OF elems_ok_tl[OF es(2) ne(1)]] t by (auto simp: is_token_element_def)
  show "pos_ok rules (pos_add p 1)" using p es x by (intro pos_ok_add) simp_all
  show "rem rules p = (if ge_type (elem_at rules p) = GR_RULE_REF
      then NT (ge_value (elem_at rules p)) else Tok (elem_at rules p)) # rem rules (pos_add p 1)"
    using es(1) ne t by (auto simp: rem_def elems_at_add)
  show "ge_type (elem_at rules p) = GR_RULE_REF \<Longrightarrow> ge_value (elem_at rules p) < length rules"
    using es(2) by simp
qed

section \<open>Lemmas: matching a class\<close>

lemma in_class_single: "in_class [e] c \<longleftrightarrow> ge_type e = GR_CHAR_ANY \<or> ge_type e \<noteq> GR_CHAR_RNG_UPPER \<and> ge_value e = c"
  by (auto simp: in_class_def)

lemma in_class_char:
  "ge_type u \<noteq> GR_CHAR_RNG_UPPER \<Longrightarrow> in_class (e # u # r) c \<longleftrightarrow> in_class [e] c \<or> in_class (u # r) c"
  by (simp add: in_class_def Ex_less_Suc2)

lemma in_class_range:
  assumes "ge_type u = GR_CHAR_RNG_UPPER" "r = [] \<or> ge_type (hd r) \<noteq> GR_CHAR_RNG_UPPER"
  shows "in_class (e # u # r) c \<longleftrightarrow> ge_value e \<le> c \<and> c \<le> ge_value u \<or> in_class r c"
  using assms by (cases r) (auto simp: in_class_def Ex_less_Suc2)

lemma in_class_nil [simp]: "\<not> in_class [] c"
  by (simp add: in_class_def)

lemma match_loop_class:
  "elems_ok n (ge_type e) es \<Longrightarrow> ge_type e \<in> {GR_CHAR, GR_CHAR_NOT, GR_CHAR_ALT, GR_CHAR_ANY} \<Longrightarrow>
     match_loop (e # es) c f = (f \<or> in_class (e # takeWhile is_cont es) c, Suc (length (takeWhile is_cont es)))"
proof (induction "e # es" c f arbitrary: e es rule: match_loop.induct)
  case (3 e u es c f)
  show ?case
  proof (cases "ge_type u = GR_CHAR_RNG_UPPER")
    case True
    then have ok: "elems_ok n GR_CHAR_RNG_UPPER es" using "3.prems" by simp
    then obtain a as where es: "es = a # as" "ge_type a \<noteq> GR_CHAR_RNG_UPPER"
      by (cases es) (auto split: llama_gretype.splits)
    have r: "in_class (e # u # takeWhile is_cont es) c \<longleftrightarrow>
        ge_value e \<le> c \<and> c \<le> ge_value u \<or> in_class (takeWhile is_cont es) c"
      using True es by (intro in_class_range) (auto simp: es)
    show ?thesis
    proof (cases "ge_type a = GR_CHAR_ALT")
      case alt: True
      then have "elems_ok n (ge_type a) as" using elems_ok_tl ok es by fastforce
      then have "match_loop es c (f \<or> ge_value e \<le> c \<and> c \<le> ge_value u) =
          ((f \<or> ge_value e \<le> c \<and> c \<le> ge_value u) \<or> in_class (a # takeWhile is_cont as) c, Suc (length (takeWhile is_cont as)))"
        using "3.hyps"(1)[OF True refl es(1) alt] alt es(1) by simp
      then show ?thesis using True alt r es by (simp add: is_cont_def)
    next
      case False
      then have "takeWhile is_cont es = []" using es by (simp add: is_cont_def)
      then show ?thesis using True False r es by (simp add: is_cont_def)
    qed
  next
    case False
    note rng = this
    show ?thesis
    proof (cases "ge_type u = GR_CHAR_ALT")
      case True
      then have "elems_ok n (ge_type u) es" using "3.prems" elems_ok_tl by fastforce
      then have "match_loop (u # es) c (ge_type e = GR_CHAR_ANY \<or> f \<or> ge_value e = c) =
          ((ge_type e = GR_CHAR_ANY \<or> f \<or> ge_value e = c) \<or> in_class (u # takeWhile is_cont es) c, Suc (length (takeWhile is_cont es)))"
        using "3.hyps"(2)[OF False refl True] True by simp
      then show ?thesis
        using True False "3.prems"(2) in_class_char[OF rng, of e "takeWhile is_cont es" c]
        by (auto simp: is_cont_def in_class_single)
    next
      case False
      then show ?thesis using rng "3.prems"(2) by (auto simp: is_cont_def in_class_single)
    qed
  qed
qed simp

definition class_at :: "grules \<Rightarrow> gpos \<Rightarrow> grule" where
  "class_at rules p = elem_at rules p # takeWhile is_cont (drop 1 (elems_at rules p))"

definition class_end :: "grules \<Rightarrow> gpos \<Rightarrow> gpos" where
  "class_end rules p = pos_add p (length (class_at rules p))"

definition is_class_element :: "llama_grammar_element \<Rightarrow> bool" where
  "is_class_element e \<longleftrightarrow> ge_type e \<in> {GR_CHAR, GR_CHAR_NOT, GR_CHAR_ANY}"

lemma class_next:
  assumes wf: "grammar_wf rules" and p: "pos_ok rules p" and c: "is_class_element (elem_at rules p)"
  shows "match_char rules p chr = ret (class_match (class_at rules p) chr, class_end rules p)"
    "rem rules p = Cls (class_at rules p) # rem rules (class_end rules p)"
    "pos_ok rules (class_end rules p)"
proof -
  obtain es where es: "elems_at rules p = elem_at rules p # es" "elems_ok (length rules) GR_ALT (elem_at rules p # es)"
    using pos_elems[OF wf p] .
  have ne: "ge_type (elem_at rules p) \<noteq> GR_END" "\<not> is_end_of_sequence (elem_at rules p)"
    using c by (auto simp: is_class_element_def is_end_of_sequence_def)
  have ok: "elems_ok (length rules) (ge_type (elem_at rules p)) es" using elems_ok_tl[OF es(2) ne(1)] .
  have cls: "class_at rules p = elem_at rules p # takeWhile is_cont es" using es(1) by (simp add: class_at_def)
  have ml: "match_loop (elems_at rules p) chr False = (in_class (class_at rules p) chr, length (class_at rules p))"
    using match_loop_class[OF ok, of chr False] c es(1) cls by (auto simp: is_class_element_def)
  show "match_char rules p chr = ret (class_match (class_at rules p) chr, class_end rules p)"
    using ml c by (auto simp: match_char_def class_match_def class_end_def cls is_positive_char_def is_class_element_def)
  have d: "drop (length (class_at rules p)) (elems_at rules p) = dropWhile is_cont es"
    by (simp add: cls es(1) dropWhile_eq_drop)
  show "rem rules p = Cls (class_at rules p) # rem rules (class_end rules p)"
    using c ne d by (auto simp: rem_def es(1) class_end_def elems_at_add cls is_class_element_def is_token_element_def)
  obtain x xs where x: "dropWhile is_cont es = x # xs" "\<not> is_cont x" using elems_ok_after_class[OF ok] by blast
  have "elems_at rules p ! length (class_at rules p) = x" "length (class_at rules p) < length (elems_at rules p)"
    using d x(1) by (metis hd_drop_conv_nth list.sel(1) length_drop linorder_not_less list.distinct(1) diff_is_0_eq length_0_conv)
      (metis d x(1) length_drop linorder_not_less list.distinct(1) diff_is_0_eq length_0_conv)
  then show "pos_ok rules (class_end rules p)" using p x(2) by (simp add: class_end_def pos_ok_add)
qed

section \<open>Lemmas: expanding a reference\<close>

lemma elems_ok_after_alt:
  assumes ok: "elems_ok n GR_ALT (drop i es)" and i: "i < length es"
    and j: "scan_end es i < length es" "ge_type (es ! scan_end es i) = GR_ALT"
  shows "elems_ok n GR_ALT (drop (Suc (scan_end es i)) es)"
proof -
  let ?j = "scan_end es i"
  have "i \<le> ?j" by (simp add: scan_end_def)
  then have "drop ?j es = drop (?j - i) (drop i es)" by simp
  moreover have "?j - i < length (drop i es)" using j(1) \<open>i \<le> ?j\<close> by simp
  ultimately obtain prev where "elems_ok n prev (drop ?j es)" using elems_ok_drop[OF ok] by metis
  then have "elems_ok n prev (es ! ?j # drop (Suc ?j) es)" using j(1) by (simp add: Cons_nth_drop_Suc)
  then show ?thesis using elems_ok_tl j(2) by fastforce
qed

lemma alts_from_ok:
  "elems_ok n GR_ALT (drop i es) \<Longrightarrow> i < length es \<Longrightarrow> j \<in> set (alts_from es i) \<Longrightarrow> j < length es \<and> \<not> is_cont (es ! j)"
proof (induction es i rule: alts_from.induct)
  case (1 es i)
  have head: "\<not> is_cont (es ! i)"
    using elems_ok_next[OF "1.prems"(1)] "1.prems"(2) by (auto simp: Cons_nth_drop_Suc[symmetric])
  show ?case
  proof (cases "scan_end es i < length es \<and> ge_type (es ! scan_end es i) = GR_ALT")
    case True
    then have ok: "elems_ok n GR_ALT (drop (Suc (scan_end es i)) es)"
      using elems_ok_after_alt "1.prems" by blast
    then have "Suc (scan_end es i) < length es" using elems_ok_ne by fastforce
    then show ?thesis
      using "1.IH"[OF refl True ok] True "1.prems"(2,3) head by (subst (asm) alts_from.simps) (auto simp: Let_def)
  next
    case False
    then have "alts_from es i = [i]" by (subst alts_from.simps) (auto simp: Let_def)
    then show ?thesis using "1.prems"(2,3) head by simp
  qed
qed

lemma alts_from_ne [simp]: "alts_from es i \<noteq> []"
  by (subst alts_from.simps) (simp add: Let_def)

lemma alt_pos_ok:
  assumes "grammar_wf rules" "r < length rules" "i \<in> set (alts_from (rules ! r) 0)"
  shows "pos_ok rules (r, i)"
proof -
  have ok: "elems_ok (length rules) GR_ALT (rules ! r)" using assms by (simp add: grammar_wf_def)
  then have "0 < length (rules ! r)" using elems_ok_ne by blast
  then have "i < length (rules ! r) \<and> \<not> is_cont (rules ! r ! i)"
    using alts_from_ok[of "length rules" 0 "rules ! r" i] ok assms(3) by simp
  then show ?thesis using assms(2) by (simp add: pos_ok_def elem_at_def)
qed

definition eps_step :: "grules \<Rightarrow> gstack \<Rightarrow> gstack \<Rightarrow> bool" where
  "eps_step rules s t \<longleftrightarrow> (\<exists>p rest. s = p # rest \<and> ge_type (elem_at rules p) = GR_RULE_REF \<and>
     t \<in> set (expand_ref rules p rest))"

definition terminal_stack :: "grules \<Rightarrow> gstack \<Rightarrow> bool" where
  "terminal_stack rules s \<longleftrightarrow> s = [] \<or> is_terminal_element (elem_at rules (hd s))"

lemma stack_ok_cases:
  assumes "stack_ok rules (p # rest)"
  shows "ge_type (elem_at rules p) = GR_RULE_REF \<or> is_class_element (elem_at rules p) \<or> is_token_element (elem_at rules p)"
  using assms by (cases "ge_type (elem_at rules p)")
    (auto simp: pos_ok_def is_cont_def is_end_of_sequence_def is_class_element_def is_token_element_def)

lemma terminal_cases:
  "is_terminal_element e \<longleftrightarrow> is_class_element e \<or> is_token_element e"
  by (auto simp: is_terminal_element_def is_class_element_def is_token_element_def)

lemma terminal_no_step: "terminal_stack rules s \<Longrightarrow> \<not> eps_step rules s t"
  by (auto simp: terminal_stack_def eps_step_def is_terminal_element_def)

lemma eps_stepE:
  assumes wf: "grammar_wf rules" and ok: "stack_ok rules s" and st: "eps_step rules s t"
  obtains p rest i where "s = p # rest" "ge_type (elem_at rules p) = GR_RULE_REF"
    "ge_value (elem_at rules p) < length rules" "i \<in> set (alts_from (rules ! ge_value (elem_at rules p)) 0)"
    "pos_ok rules (ge_value (elem_at rules p), i)" "pos_ok rules (pos_add p 1)"
    "t = push_pos rules (ge_value (elem_at rules p), i) (push_pos rules (pos_add p 1) rest)"
proof -
  obtain p rest where s: "s = p # rest" "ge_type (elem_at rules p) = GR_RULE_REF" "t \<in> set (expand_ref rules p rest)"
    using st by (auto simp: eps_step_def)
  have p: "pos_ok rules p" using ok s by simp
  note n = single_next[OF wf p disjI1[OF s(2)]]
  obtain i where i: "i \<in> set (alts_from (rules ! ge_value (elem_at rules p)) 0)"
    "t = push_pos rules (ge_value (elem_at rules p), i) (push_pos rules (pos_add p 1) rest)"
    using s(3) by (auto simp: expand_ref_def Let_def)
  show thesis using that[OF s(1,2) n(3)[OF s(2)] i(1) alt_pos_ok[OF wf n(3)[OF s(2)] i(1)] n(1) i(2)] .
qed

lemma eps_step_ok: "grammar_wf rules \<Longrightarrow> stack_ok rules s \<Longrightarrow> eps_step rules s t \<Longrightarrow> stack_ok rules t"
  by (erule (2) eps_stepE) (auto intro!: stack_ok_push)

lemma eps_step_gen:
  assumes wf: "grammar_wf rules" and ok: "stack_ok rules (p # rest)" and r: "ge_type (elem_at rules p) = GR_RULE_REF"
  shows "gen rules (stack_syms rules (p # rest)) w \<longleftrightarrow>
    (\<exists>t. eps_step rules (p # rest) t \<and> gen rules (stack_syms rules t) w)"
proof -
  let ?r = "ge_value (elem_at rules p)" and ?q = "pos_add p 1"
  have p: "pos_ok rules p" using ok by simp
  note n = single_next[OF wf p disjI1[OF r]]
  have s: "stack_syms rules (push_pos rules (?r, i) (push_pos rules ?q rest)) =
      rem rules (?r, i) @ rem rules ?q @ stack_syms rules rest" if "i \<in> set (alts_from (rules ! ?r) 0)" for i
    using alt_pos_ok[OF wf n(3)[OF r] that] n(1) by (simp add: stack_syms_push)
  have "gen rules (stack_syms rules (p # rest)) w \<longleftrightarrow>
      (\<exists>i \<in> set (alts_from (rules ! ?r) 0). gen rules (rem rules (?r, i) @ rem rules ?q @ stack_syms rules rest) w)"
    using n(2) r by (simp add: gen_nt_expand alternatives_def)
  also have "\<dots> \<longleftrightarrow> (\<exists>t \<in> set (expand_ref rules p rest). gen rules (stack_syms rules t) w)"
    by (auto simp: expand_ref_def Let_def s simp del: One_nat_def)
  also have "\<dots> \<longleftrightarrow> (\<exists>t. eps_step rules (p # rest) t \<and> gen rules (stack_syms rules t) w)"
    using r by (auto simp: eps_step_def)
  finally show ?thesis .
qed

section \<open>Left recursion\<close>

text \<open>The rules a symbol sequence can start with, when what stands before them derives nothing.\<close>

definition corner :: "grules \<Rightarrow> gsym list \<Rightarrow> nat set" where
  "corner rules ss = {B. \<exists>xs ys. ss = xs @ NT B # ys \<and> gen rules xs []}"

definition left_corner :: "grules \<Rightarrow> (nat \<times> nat) set" where
  "left_corner rules = {(B, A). A < length rules \<and> B < length rules \<and>
     (\<exists>alt \<in> set (alternatives rules A). B \<in> corner rules alt)}"

definition left_recursive :: "grules \<Rightarrow> bool" where
  "left_recursive rules \<longleftrightarrow> \<not> acyclic (left_corner rules)"

lemma left_corner_wf: "\<not> left_recursive rules \<Longrightarrow> wf (left_corner rules)"
proof -
  assume "\<not> left_recursive rules"
  moreover have "left_corner rules \<subseteq> {..<length rules} \<times> {..<length rules}" by (auto simp: left_corner_def)
  then have "finite (left_corner rules)" by (rule finite_subset) simp
  ultimately show ?thesis by (simp add: left_recursive_def finite_acyclic_wf)
qed

definition eps_rel :: "grules \<Rightarrow> (gstack \<times> gstack) set" where
  "eps_rel rules = {(t, s). stack_ok rules s \<and> eps_step rules s t}"

definition safe_pos :: "grules \<Rightarrow> gpos \<Rightarrow> bool" where
  "safe_pos rules p \<longleftrightarrow> (\<forall>st. stack_ok rules st \<longrightarrow> (gen rules (rem rules p) [] \<longrightarrow> st \<in> Wellfounded.acc (eps_rel rules)) \<longrightarrow>
     push_pos rules p st \<in> Wellfounded.acc (eps_rel rules))"

lemma terminal_acc: "terminal_stack rules s \<Longrightarrow> s \<in> Wellfounded.acc (eps_rel rules)"
  by (rule accI) (auto simp: eps_rel_def dest: terminal_no_step)

text \<open>A reference is safe if its alternates are, and what follows it is when the reference may be empty.\<close>

lemma ref_acc:
  fixes rules p
  defines "r \<equiv> ge_value (elem_at rules p)" and "q \<equiv> pos_add p 1"
  assumes wf: "grammar_wf rules" and p: "pos_ok rules p" and ref: "ge_type (elem_at rules p) = GR_RULE_REF"
    and st: "stack_ok rules st" and nul: "gen rules (rem rules p) [] \<longrightarrow> st \<in> Wellfounded.acc (eps_rel rules)"
    and safe: "\<forall>i \<in> set (alts_from (rules ! r) 0). safe_pos rules (r, i)"
    and safe_q: "gen rules [NT r] [] \<Longrightarrow> safe_pos rules q"
  shows "p # st \<in> Wellfounded.acc (eps_rel rules)"
proof (rule accI)
  note n = single_next[OF wf p disjI1[OF ref], folded r_def q_def]
  fix t assume "(t, p # st) \<in> eps_rel rules"
  then have "eps_step rules (p # st) t" by (simp add: eps_rel_def)
  then obtain i where i: "i \<in> set (alts_from (rules ! r) 0)" "t = push_pos rules (r, i) (push_pos rules q st)"
    by (auto simp: eps_step_def expand_ref_def Let_def r_def q_def)
  have "push_pos rules q st \<in> Wellfounded.acc (eps_rel rules)" if e: "gen rules (rem rules (r, i)) []"
  proof -
    have r: "gen rules [NT r] []" using i(1) e by (auto simp: gen_nt_iff alternatives_def)
    moreover have "st \<in> Wellfounded.acc (eps_rel rules)" if "gen rules (rem rules q) []"
      using nul r that gen_append[of rules "[NT r]" "rem rules q" "[]"] n(2) ref by simp
    ultimately show ?thesis using safe_q st by (simp add: safe_pos_def)
  qed
  then show "t \<in> Wellfounded.acc (eps_rel rules)"
    using safe i stack_ok_push[OF n(1) st] by (simp add: safe_pos_def)
qed

lemma corner_Cons: "gen rules [NT r] [] \<Longrightarrow> corner rules ss \<subseteq> corner rules (NT r # ss)"
proof
  fix B assume r: "gen rules [NT r] []" and "B \<in> corner rules ss"
  then obtain xs ys where ss: "ss = xs @ NT B # ys" "gen rules xs []" by (auto simp: corner_def)
  have "gen rules (NT r # xs) []" using gen_append[of rules "[NT r]" xs] r ss(2) by simp
  moreover have "NT r # ss = (NT r # xs) @ NT B # ys" using ss(1) by simp
  ultimately show "B \<in> corner rules (NT r # ss)" unfolding corner_def by blast
qed

lemma safe_posI:
  assumes wf: "grammar_wf rules"
  shows "pos_ok rules p \<Longrightarrow>
    \<forall>B \<in> corner rules (rem rules p). B < length rules \<longrightarrow> (\<forall>i \<in> set (alts_from (rules ! B) 0). safe_pos rules (B, i)) \<Longrightarrow>
    safe_pos rules p"
proof (induction "length (rem rules p)" arbitrary: p rule: less_induct)
  case less
  let ?e = "elem_at rules p"
  have "push_pos rules p st \<in> Wellfounded.acc (eps_rel rules)"
    if st: "stack_ok rules st" and nul: "gen rules (rem rules p) [] \<longrightarrow> st \<in> Wellfounded.acc (eps_rel rules)" for st
  proof (cases "is_end_of_sequence ?e")
    case True
    then show ?thesis using nul rem_eos[OF less.prems(1)] by (simp add: push_pos_def)
  next
    case False
    then have ps: "push_pos rules p st = p # st" "stack_ok rules (p # st)" using less.prems(1) st by (simp_all add: push_pos_def)
    show ?thesis
    proof (cases "ge_type ?e = GR_RULE_REF")
      case True
      note n = single_next[OF wf less.prems(1) disjI1[OF True]]
      have rem: "rem rules p = NT (ge_value ?e) # rem rules (pos_add p 1)" using n(2) True by simp
      have "ge_value ?e \<in> corner rules (rem rules p)" unfolding corner_def rem using gen_nil by blast
      moreover have "safe_pos rules (pos_add p 1)" if "gen rules [NT (ge_value ?e)] []"
        using less.hyps[OF _ n(1)] less.prems(2) corner_Cons[OF that] rem by (metis length_Cons lessI subsetD)
      ultimately show ?thesis
        unfolding ps(1) using less.prems n(3)[OF True] by (intro ref_acc[OF wf _ True st nul]) auto
    next
      case False
      then show ?thesis
        using stack_ok_cases[OF ps(2)] by (intro terminal_acc) (auto simp: ps terminal_stack_def terminal_cases)
    qed
  qed
  then show ?case by (simp add: safe_pos_def)
qed

lemma all_safe:
  assumes wf: "grammar_wf rules" and nlr: "\<not> left_recursive rules"
  shows "pos_ok rules p \<Longrightarrow> safe_pos rules p"
proof -
  have alts: "r < length rules \<longrightarrow> (\<forall>i \<in> set (alts_from (rules ! r) 0). safe_pos rules (r, i))" for r
  proof (induction r rule: wf_induct_rule[OF left_corner_wf[OF nlr]])
    case (1 r)
    show ?case
    proof (intro impI ballI)
      fix i assume r: "r < length rules" and i: "i \<in> set (alts_from (rules ! r) 0)"
      have "(B, r) \<in> left_corner rules" if "B \<in> corner rules (rem rules (r, i))" "B < length rules" for B
        using that r i by (auto simp: left_corner_def alternatives_def)
      then show "safe_pos rules (r, i)" using 1 safe_posI[OF wf alt_pos_ok[OF wf r i]] by blast
    qed
  qed
  show "pos_ok rules p \<Longrightarrow> safe_pos rules p" using alts by (intro safe_posI[OF wf]) auto
qed

lemma stack_acc:
  assumes wf: "grammar_wf rules" and nlr: "\<not> left_recursive rules"
  shows "stack_ok rules s \<Longrightarrow> s \<in> Wellfounded.acc (eps_rel rules)"
proof (induction s)
  case (Cons p s)
  then have "safe_pos rules p" "p # s = push_pos rules p s" "stack_ok rules s"
    using all_safe[OF wf nlr] by (simp_all add: push_pos_def)
  then show ?case using Cons.IH by (metis safe_pos_def)
qed (simp add: terminal_acc terminal_stack_def)

section \<open>Lemmas: the worklist\<close>

abbreviation reaches :: "grules \<Rightarrow> gstack \<Rightarrow> gstack \<Rightarrow> bool" where
  "reaches rules \<equiv> (eps_step rules)\<^sup>*\<^sup>*"

lemma finite_eps_step: "finite {t. eps_step rules s t}"
proof -
  have "{t. eps_step rules s t} \<subseteq> (case s of [] \<Rightarrow> {} | p # rest \<Rightarrow> set (expand_ref rules p rest))"
    by (auto simp: eps_step_def)
  then show ?thesis by (rule finite_subset) (auto split: list.splits)
qed

lemma reaches_ok: "grammar_wf rules \<Longrightarrow> reaches rules s t \<Longrightarrow> stack_ok rules s \<Longrightarrow> stack_ok rules t"
  by (rotate_tac, induction rule: rtranclp_induct) (auto dest: eps_step_ok)

lemma finite_reaches:
  assumes wf: "grammar_wf rules"
  shows "s \<in> Wellfounded.acc (eps_rel rules) \<Longrightarrow> stack_ok rules s \<Longrightarrow> finite {t. reaches rules s t}"
proof (induction s rule: acc_induct_rule)
  case (1 s)
  have "{t. reaches rules s t} = insert s (\<Union>u \<in> {u. eps_step rules s u}. {t. reaches rules u t})"
    by (auto intro: converse_rtranclp_into_rtranclp elim: converse_rtranclpE)
  moreover have "finite {t. reaches rules u t}" if "eps_step rules s u" for u
    using 1 that eps_step_ok[OF wf "1.prems" that] by (auto simp: eps_rel_def)
  ultimately show ?case using finite_eps_step[of rules s] by simp
qed

lemma reaches_terminal:
  assumes wf: "grammar_wf rules"
  shows "s \<in> Wellfounded.acc (eps_rel rules) \<Longrightarrow> stack_ok rules s \<Longrightarrow> \<exists>t. reaches rules s t \<and> terminal_stack rules t"
proof (induction s rule: acc_induct_rule)
  case (1 s)
  show ?case
  proof (cases "terminal_stack rules s")
    case False
    then obtain p rest where s: "s = p # rest" "ge_type (elem_at rules p) = GR_RULE_REF"
      using stack_ok_cases "1.prems" by (cases s) (auto simp: terminal_stack_def terminal_cases)
    have "expand_ref rules p rest \<noteq> []" by (simp add: expand_ref_def Let_def)
    then have "eps_step rules s (hd (expand_ref rules p rest))" using s by (auto simp: eps_step_def)
    then obtain u where u: "eps_step rules s u" by blast
    then obtain t where "reaches rules u t" "terminal_stack rules t"
      using 1 eps_step_ok[OF wf "1.prems" u] by (auto simp: eps_rel_def)
    then show ?thesis using u by (meson converse_rtranclp_into_rtranclp)
  qed auto
qed

lemma set_add_stack [simp]: "set (add_stack s new) = insert s (set new)"
  by (auto simp: add_stack_def)

text \<open>
  The loop invariant: a stack that was seen has been recorded if it is terminal, and its
  successors are seen or waiting.
\<close>

definition seen_inv :: "grules \<Rightarrow> gstacks \<Rightarrow> gstack set \<Rightarrow> gstacks \<Rightarrow> bool" where
  "seen_inv rules todo seen new \<longleftrightarrow> (\<forall>s \<in> seen. (terminal_stack rules s \<longrightarrow> s \<in> set new) \<and>
     (\<forall>t. eps_step rules s t \<longrightarrow> t \<in> seen \<union> set todo))"

definition loop_result :: "grules \<Rightarrow> gstacks \<Rightarrow> gstack set \<Rightarrow> gstacks \<Rightarrow> gstacks \<Rightarrow> bool" where
  "loop_result rules todo seen new new' \<longleftrightarrow> set new \<subseteq> set new' \<and>
     (\<forall>t \<in> set new'. t \<in> set new \<or> terminal_stack rules t \<and> (\<exists>s \<in> set todo. reaches rules s t)) \<and>
     (\<forall>s \<in> seen \<union> set todo. \<forall>t. reaches rules s t \<and> terminal_stack rules t \<longrightarrow> t \<in> set new')"

lemma closed_reaches:
  assumes "reaches rules s t" "s \<in> seen" "\<forall>s \<in> seen. \<forall>t. eps_step rules s t \<longrightarrow> t \<in> seen"
  shows "t \<in> seen"
  using assms by (induction rule: rtranclp_induct) auto

lemma loop_result_done:
  assumes "seen_inv rules [] seen new"
  shows "loop_result rules [] seen new new"
proof -
  have "\<forall>s \<in> seen. \<forall>t. eps_step rules s t \<longrightarrow> t \<in> seen" using assms by (simp add: seen_inv_def)
  then have "t \<in> seen" if "reaches rules s t" "s \<in> seen" for s t using closed_reaches that by blast
  then show ?thesis using assms unfolding loop_result_def seen_inv_def by simp blast
qed

lemma loop_result_step:
  assumes "loop_result rules todo' seen' new' res"
    and "set new \<subseteq> set new'" "seen \<union> set todo \<subseteq> seen' \<union> set todo'"
    and "\<forall>t \<in> set new'. t \<in> set new \<or> terminal_stack rules t \<and> t \<in> set todo"
    and "\<forall>u \<in> set todo'. \<exists>s \<in> set todo. reaches rules s u"
  shows "loop_result rules todo seen new res"
  unfolding loop_result_def
proof (intro conjI ballI allI impI)
  show "set new \<subseteq> set res" using assms(1,2) by (auto simp: loop_result_def)
  fix t assume "t \<in> set res"
  then have "t \<in> set new' \<or> terminal_stack rules t \<and> (\<exists>s \<in> set todo'. reaches rules s t)"
    using assms(1) by (auto simp: loop_result_def)
  then show "t \<in> set new \<or> terminal_stack rules t \<and> (\<exists>s \<in> set todo. reaches rules s t)"
    using assms(4,5) by (meson rtranclp_trans rtranclp.rtrancl_refl)
next
  fix s t assume "s \<in> seen \<union> set todo" "reaches rules s t \<and> terminal_stack rules t"
  then show "t \<in> set res" using assms(1,3) unfolding loop_result_def by blast
qed

lemma advance_loop_correct:
  assumes wf: "grammar_wf rules" and U: "finite U" "\<forall>s \<in> U. stack_ok rules s \<and> (\<forall>t. eps_step rules s t \<longrightarrow> t \<in> U)"
  shows "set todo \<subseteq> U \<Longrightarrow> seen_inv rules todo seen new \<Longrightarrow>
    \<exists>res. advance_loop rules todo seen new = Some (Inr res) \<and> loop_result rules todo seen new res"
proof (induction "(todo, seen, new)" arbitrary: todo seen new
    rule: wf_induct_rule[OF wf_measures[of "[\<lambda>(todo, seen, new). card (U - seen), \<lambda>(todo, seen, new). length todo]"]])
  case 1
  have ih: "\<exists>res. advance_loop rules todo' seen' new' = Some (Inr res) \<and> loop_result rules todo' seen' new' res"
    if "card (U - seen') < card (U - seen) \<or> card (U - seen') = card (U - seen) \<and> length todo' < length todo"
      "set todo' \<subseteq> U" "seen_inv rules todo' seen' new'" for todo' seen' new'
    using that(1) by (intro "1.hyps"[OF _ that(2,3)]) auto
  show ?case
  proof (cases todo)
    case Nil
    then have "loop_result rules todo seen new new" using "1.prems"(2) loop_result_done by simp
    then show ?thesis using Nil by (subst advance_loop.simps) auto
  next
    case (Cons s todo')
    have s: "s \<in> U" "stack_ok rules s" using "1.prems"(1) Cons U by auto
    show ?thesis
    proof (cases "s \<in> seen")
      case True
      have "\<exists>res. advance_loop rules todo' seen new = Some (Inr res) \<and> loop_result rules todo' seen new res"
        using "1.prems" Cons True by (intro ih) (auto simp: seen_inv_def)
      then obtain res where "advance_loop rules todo' seen new = Some (Inr res)" "loop_result rules todo' seen new res" by blast
      moreover from this(2) have "loop_result rules todo seen new res"
        using True Cons by (elim loop_result_step) auto
      ultimately show ?thesis using Cons True by (subst advance_loop.simps) auto
    next
      case False
      have less: "card (U - insert s seen) < card (U - seen)"
        using s(1) False U(1) by (intro psubset_card_mono) auto
      show ?thesis
      proof (cases "terminal_stack rules s")
        case True
        have "\<exists>res. advance_loop rules todo' (insert s seen) (add_stack s new) = Some (Inr res) \<and>
            loop_result rules todo' (insert s seen) (add_stack s new) res"
          using "1.prems" Cons less terminal_no_step[OF True] by (intro ih) (auto simp: seen_inv_def)
        then obtain res where r: "advance_loop rules todo' (insert s seen) (add_stack s new) = Some (Inr res)"
          "loop_result rules todo' (insert s seen) (add_stack s new) res" by blast
        have "loop_result rules todo seen new res" using r(2) True Cons by (elim loop_result_step) auto
        moreover have "advance_loop rules todo seen new = Some (Inr res)"
          using r(1) Cons False True
          by (subst advance_loop.simps) (cases s, auto simp: terminal_stack_def is_terminal_element_def)
        ultimately show ?thesis by blast
      next
        case nt: False
        then obtain p rest where p: "s = p # rest" "ge_type (elem_at rules p) = GR_RULE_REF"
          using stack_ok_cases s(2) by (cases s) (auto simp: terminal_stack_def terminal_cases)
        let ?todo = "rev (expand_ref rules p rest) @ todo'"
        have succ: "eps_step rules s t \<longleftrightarrow> t \<in> set (expand_ref rules p rest)" for t using p by (auto simp: eps_step_def)
        have "\<exists>res. advance_loop rules ?todo (insert s seen) new = Some (Inr res) \<and>
            loop_result rules ?todo (insert s seen) new res"
          using "1.prems" Cons less nt U(2) s(1) succ by (intro ih) (auto simp: seen_inv_def)
        then obtain res where r: "advance_loop rules ?todo (insert s seen) new = Some (Inr res)"
          "loop_result rules ?todo (insert s seen) new res" by blast
        have "loop_result rules todo seen new res"
          using r(2) Cons succ by (elim loop_result_step) (auto intro: r_into_rtranclp)
        moreover have "advance_loop rules todo seen new = Some (Inr res)"
          using r(1) Cons False p by (subst advance_loop.simps) auto
        ultimately show ?thesis by blast
      qed
    qed
  qed
qed

text \<open>What advancing a stack computes.\<close>

definition terminals :: "grules \<Rightarrow> gstack \<Rightarrow> gstack set" where
  "terminals rules s = {t. reaches rules s t \<and> terminal_stack rules t}"

lemma advance_stack_correct:
  assumes wf: "grammar_wf rules" and nlr: "\<not> left_recursive rules" and s: "stack_ok rules s"
  shows "\<exists>res. advance_stack rules s new = Some (Inr res) \<and> set res = set new \<union> terminals rules s"
proof -
  let ?U = "{t. reaches rules s t}"
  have "finite ?U" using finite_reaches[OF wf stack_acc[OF wf nlr s] s] .
  moreover have "\<forall>t \<in> ?U. stack_ok rules t \<and> (\<forall>u. eps_step rules t u \<longrightarrow> u \<in> ?U)"
    using reaches_ok[OF wf _ s] by (auto intro: rtranclp.rtrancl_into_rtrancl)
  ultimately obtain res where r: "advance_loop rules [s] {} new = Some (Inr res)" "loop_result rules [s] {} new res"
    using advance_loop_correct[OF wf, of ?U "[s]" "{}" new] by (auto simp: seen_inv_def)
  then have "set res = set new \<union> terminals rules s" by (auto simp: loop_result_def terminals_def)
  then show ?thesis using r(1) by (auto simp: advance_stack_def)
qed

lemma terminals_ok: "grammar_wf rules \<Longrightarrow> stack_ok rules s \<Longrightarrow> t \<in> terminals rules s \<Longrightarrow> stack_ok rules t \<and> terminal_stack rules t"
  by (auto simp: terminals_def dest: reaches_ok)

lemma terminals_ne:
  assumes "grammar_wf rules" "\<not> left_recursive rules" "stack_ok rules s"
  shows "terminals rules s \<noteq> {}"
  using reaches_terminal[OF assms(1) stack_acc[OF assms]  assms(3)] by (auto simp: terminals_def)

lemma terminals_gen:
  assumes wf: "grammar_wf rules" and nlr: "\<not> left_recursive rules" and s: "stack_ok rules s"
  shows "gen rules (stack_syms rules s) w \<longleftrightarrow> stacks_lang rules (terminals rules s) w"
  using stack_acc[OF assms] s
proof (induction s rule: acc_induct_rule)
  case (1 s)
  show ?case
  proof (cases "terminal_stack rules s")
    case True
    then have "terminals rules s = {s}"
      by (auto simp: terminals_def elim: converse_rtranclpE dest: terminal_no_step)
    then show ?thesis by (simp add: stacks_lang_def)
  next
    case False
    then obtain p rest where p: "s = p # rest" "ge_type (elem_at rules p) = GR_RULE_REF"
      using stack_ok_cases "1.prems" by (cases s) (auto simp: terminal_stack_def terminal_cases)
    have t: "terminals rules s = (\<Union>u \<in> {u. eps_step rules s u}. terminals rules u)"
      using False by (auto simp: terminals_def intro: converse_rtranclp_into_rtranclp elim: converse_rtranclpE)
    have "gen rules (stack_syms rules s) w \<longleftrightarrow> (\<exists>u. eps_step rules s u \<and> gen rules (stack_syms rules u) w)"
      using eps_step_gen[OF wf _ p(2)] "1.prems" p(1) by simp
    also have "\<dots> \<longleftrightarrow> (\<exists>u. eps_step rules s u \<and> stacks_lang rules (terminals rules u) w)"
      using "1.IH" "1.prems" eps_step_ok[OF wf] by (auto simp: eps_rel_def)
    also have "\<dots> \<longleftrightarrow> stacks_lang rules (terminals rules s) w" unfolding t by (auto simp: stacks_lang_def)
    finally show ?thesis .
  qed
qed

section \<open>Lemmas: accepting characters\<close>

lemma ret_eq [simp]: "ret x = ret y \<longleftrightarrow> x = y"
  by (simp add: ret_def)

lemma rbind_ret [simp]: "rbind (ret x) f = f x" "rbind (Some (Inr x)) f = f x"
  by (simp_all add: rbind_def ret_def)

text \<open>The stacks after a character, from one terminal stack and from a set of them.\<close>

definition after_chr :: "grules \<Rightarrow> nat \<Rightarrow> gstack \<Rightarrow> gstack set" where
  "after_chr rules c s = (case s of [] \<Rightarrow> {}
     | p # rest \<Rightarrow> if is_class_element (elem_at rules p) \<and> class_match (class_at rules p) c
         then terminals rules (push_pos rules (class_end rules p) rest) else {})"

definition after_set :: "grules \<Rightarrow> nat \<Rightarrow> gstack set \<Rightarrow> gstack set" where
  "after_set rules c S = (\<Union>s \<in> S. after_chr rules c s)"

definition stacks_ok :: "grules \<Rightarrow> gstack set \<Rightarrow> bool" where
  "stacks_ok rules S \<longleftrightarrow> (\<forall>s \<in> S. stack_ok rules s \<and> terminal_stack rules s)"

lemma class_not_token: "is_class_element e \<Longrightarrow> \<not> is_token_element e"
  by (auto simp: is_class_element_def is_token_element_def)

lemma class_end_ok:
  assumes "grammar_wf rules" "stack_ok rules (p # rest)" "is_class_element (elem_at rules p)"
  shows "stack_ok rules (push_pos rules (class_end rules p) rest)"
  using assms by (intro stack_ok_push class_next(3)) simp_all

lemma accept_chr_correct:
  assumes wf: "grammar_wf rules" and nlr: "\<not> left_recursive rules" and s: "stack_ok rules s" "terminal_stack rules s"
  shows "\<exists>res. accept_chr rules s c new = ret res \<and> set res = set new \<union> after_chr rules c s"
proof (cases s)
  case Nil
  then show ?thesis by (simp add: accept_chr_def after_chr_def)
next
  case (Cons p rest)
  show ?thesis
  proof (cases "is_class_element (elem_at rules p)")
    case True
    have ok: "stack_ok rules (push_pos rules (class_end rules p) rest)"
      using class_end_ok[OF wf _ True] s Cons by simp
    have "accept_chr rules s c new = (if class_match (class_at rules p) c
        then advance_stack rules (push_pos rules (class_end rules p) rest) new else ret new)"
      using class_next(1)[OF wf _ True] class_not_token[OF True] s Cons by (simp add: accept_chr_def)
    then show ?thesis
      using advance_stack_correct[OF wf nlr ok, of new] True Cons by (auto simp: after_chr_def ret_def)
  next
    case False
    then have "is_token_element (elem_at rules p)" using s Cons by (auto simp: terminal_stack_def terminal_cases)
    then show ?thesis using False Cons by (simp add: accept_chr_def after_chr_def)
  qed
qed

lemma rfold_union:
  assumes "\<And>x a. x \<in> set xs \<Longrightarrow> \<exists>b. f x a = ret b \<and> set b = set a \<union> F x"
  shows "\<exists>b. rfold f xs a = ret b \<and> set b = set a \<union> (\<Union>x \<in> set xs. F x)"
  using assms
proof (induction xs arbitrary: a)
  case (Cons x xs)
  obtain b where b: "f x a = ret b" "set b = set a \<union> F x" using Cons.prems[of x a] by auto
  obtain b' where "rfold f xs b = ret b'" "set b' = set b \<union> (\<Union>x \<in> set xs. F x)"
    using Cons.IH[of b] Cons.prems by auto
  then show ?case using b by auto
qed simp

lemma accept_stacks_correct:
  assumes "grammar_wf rules" "\<not> left_recursive rules" "stacks_ok rules (set stacks)"
  shows "\<exists>res. accept_stacks rules stacks c = ret res \<and> set res = after_set rules c (set stacks)"
proof -
  have "\<exists>b. accept_chr rules s c a = ret b \<and> set b = set a \<union> after_chr rules c s" if "s \<in> set stacks" for s a
    using accept_chr_correct[OF assms(1,2)] assms(3) that by (auto simp: stacks_ok_def)
  then show ?thesis
    using rfold_union[of stacks "\<lambda>s. accept_chr rules s c" "after_chr rules c" "[]"]
    by (simp add: accept_stacks_def after_set_def)
qed

lemma after_set_ok:
  assumes "grammar_wf rules" "stacks_ok rules S"
  shows "stacks_ok rules (after_set rules c S)"
  using assms class_end_ok[OF assms(1)] terminals_ok[OF assms(1)]
  by (fastforce simp: stacks_ok_def after_set_def after_chr_def split: list.splits if_splits)

lemma stacks_lang_Nil:
  assumes wf: "grammar_wf rules" and ok: "stacks_ok rules S"
  shows "stacks_lang rules S [] \<longleftrightarrow> [] \<in> S"
proof -
  have "\<not> gen rules (stack_syms rules s) []" if ne: "s \<in> S" "s \<noteq> []" for s
  proof -
    obtain p rest where s: "s = p # rest" using ne(2) by (cases s) auto
    have p: "pos_ok rules p" "is_class_element (elem_at rules p) \<or> is_token_element (elem_at rules p)"
      using ne s ok by (auto simp: stacks_ok_def terminal_stack_def terminal_cases)
    then show ?thesis
      using class_next(2)[OF wf p(1)] single_next(2)[OF wf p(1)] s
      by (auto simp: gen_cls_iff is_token_element_def)
  qed
  then show ?thesis by (auto simp: stacks_lang_def intro: bexI[of _ "[]"])
qed

lemma after_chr_gen:
  assumes wf: "grammar_wf rules" and nlr: "\<not> left_recursive rules" and s: "stack_ok rules s" "terminal_stack rules s"
  shows "gen rules (stack_syms rules s) (c # w) \<longleftrightarrow> stacks_lang rules (after_chr rules c s) w"
proof (cases s)
  case Nil
  then show ?thesis by (simp add: after_chr_def stacks_lang_def)
next
  case (Cons p rest)
  then have p: "pos_ok rules p" using s by simp
  show ?thesis
  proof (cases "is_class_element (elem_at rules p)")
    case True
    note n = class_next[OF wf p True]
    have ok: "stack_ok rules (push_pos rules (class_end rules p) rest)"
      using class_end_ok[OF wf _ True] s Cons by simp
    have "gen rules (stack_syms rules s) (c # w) \<longleftrightarrow> class_match (class_at rules p) c \<and>
        gen rules (stack_syms rules (push_pos rules (class_end rules p) rest)) w"
      using Cons n(2,3) by (simp add: gen_cls_iff stack_syms_push)
    then show ?thesis
      using terminals_gen[OF wf nlr ok] True Cons by (auto simp: after_chr_def stacks_lang_def)
  next
    case False
    then have t: "is_token_element (elem_at rules p)" using s Cons by (auto simp: terminal_stack_def terminal_cases)
    then have "ge_type (elem_at rules p) \<noteq> GR_RULE_REF" by (auto simp: is_token_element_def)
    then show ?thesis
      using single_next(2)[OF wf p] t False Cons by (auto simp: after_chr_def stacks_lang_def)
  qed
qed

lemma stacks_lang_Cons:
  assumes "grammar_wf rules" "\<not> left_recursive rules" "stacks_ok rules S"
  shows "stacks_lang rules S (c # w) \<longleftrightarrow> stacks_lang rules (after_set rules c S) w"
  using after_chr_gen[OF assms(1,2)] assms(3)
  by (auto simp: stacks_lang_def[of rules S] stacks_ok_def stacks_lang_def after_set_def)

lemma accept_word:
  assumes wf: "grammar_wf (g_rules g)" and nlr: "\<not> left_recursive (g_rules g)" and ok: "stacks_ok (g_rules g) (set (g_stacks g))"
  shows "\<exists>stacks. rfold (\<lambda>c g. llama_grammar_accept g c) w g = ret (g\<lparr>g_stacks := stacks\<rparr>) \<and>
     stacks_ok (g_rules g) (set stacks) \<and>
     (\<forall>v. stacks_lang (g_rules g) (set stacks) v \<longleftrightarrow> stacks_lang (g_rules g) (set (g_stacks g)) (w @ v))"
  using ok wf nlr
proof (induction w arbitrary: g)
  case Nil
  then show ?case by (auto intro!: exI[of _ "g_stacks g"] simp: ret_def)
next
  case (Cons c w)
  obtain res where r: "accept_stacks (g_rules g) (g_stacks g) c = ret res" "set res = after_set (g_rules g) c (set (g_stacks g))"
    using accept_stacks_correct[OF Cons.prems(2,3,1)] by blast
  let ?g = "g\<lparr>g_stacks := res\<rparr>"
  have ok: "stacks_ok (g_rules ?g) (set (g_stacks ?g))"
    using r(2) after_set_ok[OF Cons.prems(2,1)] by simp
  obtain stacks where "rfold (\<lambda>c g. llama_grammar_accept g c) w ?g = ret (?g\<lparr>g_stacks := stacks\<rparr>)"
    "stacks_ok (g_rules g) (set stacks)"
    "\<forall>v. stacks_lang (g_rules g) (set stacks) v \<longleftrightarrow> stacks_lang (g_rules g) (set res) (w @ v)"
    using Cons.IH[OF ok] Cons.prems by auto
  then show ?case
    using r stacks_lang_Cons[OF Cons.prems(2,3,1)]
    by (auto simp: llama_grammar_accept_def intro!: exI[of _ stacks])
qed

lemma init_stacks_correct:
  assumes wf: "grammar_wf rules" and nlr: "\<not> left_recursive rules" and st: "start < length rules"
  shows "\<exists>stacks. init_stacks rules start = ret stacks \<and> stacks_ok rules (set stacks) \<and>
    (\<forall>w. stacks_lang rules (set stacks) w \<longleftrightarrow> gen rules [NT start] w)"
proof -
  let ?is = "alts_from (rules ! start) 0" and ?T = "\<lambda>i. terminals rules (push_pos rules (start, i) [])"
  have ok: "stack_ok rules (push_pos rules (start, i) [])" if "i \<in> set ?is" for i
    using stack_ok_push[OF alt_pos_ok[OF wf st that]] by simp
  obtain stacks where s: "init_stacks rules start = ret stacks" "set stacks = (\<Union>i \<in> set ?is. ?T i)"
    using rfold_union[of ?is "\<lambda>i. advance_stack rules (push_pos rules (start, i) [])" ?T "[]"]
      advance_stack_correct[OF wf nlr ok] by (auto simp: init_stacks_def ret_def)
  have "stacks_ok rules (set stacks)" using s(2) terminals_ok[OF wf ok] by (auto simp: stacks_ok_def)
  moreover have "stacks_lang rules (set stacks) w \<longleftrightarrow> gen rules [NT start] w" for w
  proof -
    have "stacks_lang rules (set stacks) w \<longleftrightarrow> (\<exists>i \<in> set ?is. gen rules (stack_syms rules (push_pos rules (start, i) [])) w)"
      using s(2) terminals_gen[OF wf nlr ok] by (auto simp: stacks_lang_def)
    also have "\<dots> \<longleftrightarrow> gen rules [NT start] w"
      using stack_syms_push[OF alt_pos_ok[OF wf st]] by (auto simp: gen_nt_expand alternatives_def)
    finally show ?thesis .
  qed
  ultimately show ?thesis using s(1) by blast
qed

section \<open>Properties\<close>

text \<open>Advancing a stack ends on every well-formed grammar without left recursion, never aborts, and
  adds exactly the stacks that are reached by expanding rule references and stand at a terminal (or are
  empty); there is always one.\<close>

theorem advance_stack_terminals:
  assumes "grammar_wf rules" "\<not> left_recursive rules" "stack_ok rules st"
  shows "\<exists>new_stacks'. advance_stack rules st new_stacks = Some (Inr new_stacks') \<and>
    set new_stacks' = set new_stacks \<union> {t. reaches rules st t \<and> terminal_stack rules t} \<and> new_stacks' \<noteq> []"
  using advance_stack_correct[OF assms, of new_stacks] terminals_ne[OF assms] by (auto simp: terminals_def)

text \<open>C7: The matcher decides the language of the grammar: on a well-formed grammar without left recursion
  the initial stacks can be built, every text can be accepted character by character, and afterwards the
  empty stack is among the stacks exactly if the text can be derived from the start rule.\<close>

theorem accept_language:
  assumes "grammar_wf (g_rules g)" "\<not> left_recursive (g_rules g)" "start < length (g_rules g)"
  shows "\<exists>stacks stacks'. init_stacks (g_rules g) start = ret stacks \<and>
    rfold (\<lambda>c g. llama_grammar_accept g c) w (g\<lparr>g_stacks := stacks\<rparr>) = ret (g\<lparr>g_stacks := stacks'\<rparr>) \<and>
    ([] \<in> set stacks' \<longleftrightarrow> gen (g_rules g) [NT start] w)"
proof -
  obtain stacks where s: "init_stacks (g_rules g) start = ret stacks" "stacks_ok (g_rules g) (set stacks)"
    "\<forall>w. stacks_lang (g_rules g) (set stacks) w \<longleftrightarrow> gen (g_rules g) [NT start] w"
    using init_stacks_correct[OF assms] by blast
  obtain stacks' where t: "rfold (\<lambda>c g. llama_grammar_accept g c) w (g\<lparr>g_stacks := stacks\<rparr>) = ret (g\<lparr>g_stacks := stacks'\<rparr>)"
    "stacks_ok (g_rules g) (set stacks')"
    "\<forall>v. stacks_lang (g_rules g) (set stacks') v \<longleftrightarrow> stacks_lang (g_rules g) (set stacks) (w @ v)"
    using accept_word[of "g\<lparr>g_stacks := stacks\<rparr>" w] assms s(2) by auto
  have "[] \<in> set stacks' \<longleftrightarrow> gen (g_rules g) [NT start] w"
    using stacks_lang_Nil[OF assms(1) t(2)] t(3)[rule_format, of "[]"] s(3) by simp
  then show ?thesis using s(1) t(1) by blast
qed

section \<open>Witnesses\<close>

text \<open>The grammar \<open>root ::= "a" root | "b"\<close>.\<close>

definition gr_elem :: "llama_gretype \<Rightarrow> nat \<Rightarrow> llama_grammar_element" where
  "gr_elem t v = \<lparr>ge_type = t, ge_value = v\<rparr>"

definition demo_rules :: grules where
  "demo_rules = [[gr_elem GR_CHAR 97, gr_elem GR_RULE_REF 0, gr_elem GR_ALT 0, gr_elem GR_CHAR 98, gr_elem GR_END 0]]"

lemma gr_elem_sel [simp]: "ge_type (gr_elem t v) = t" "ge_value (gr_elem t v) = v"
  by (simp_all add: gr_elem_def)

lemma corner_simps:
  "corner rules [] = {}" "corner rules (Cls c # ss) = {}" "corner rules (Tok t # ss) = {}"
  by (auto simp: corner_def Cons_eq_append_conv gen_cls_iff)

lemma demo_wf: "grammar_wf demo_rules"
  by (simp add: grammar_wf_def demo_rules_def)

lemma demo_alts: "alts_from (demo_rules ! 0) 0 = [0, 3]"
proof -
  have "alts_from (demo_rules ! 0) 3 = [3]"
    by (subst alts_from.simps) (simp add: demo_rules_def scan_end_def is_end_of_sequence_def numeral_3_eq_3)
  then show ?thesis
    by (subst alts_from.simps) (simp add: demo_rules_def scan_end_def is_end_of_sequence_def numeral_3_eq_3)
qed

lemma demo_alternatives: "alternatives demo_rules 0 = [[Cls [gr_elem GR_CHAR 97], NT 0], [Cls [gr_elem GR_CHAR 98]]]"
  using demo_alts
  by (simp add: alternatives_def rem_def elems_at_def demo_rules_def is_end_of_sequence_def is_token_element_def is_cont_def)

lemma demo_not_left_recursive: "\<not> left_recursive demo_rules"
proof -
  have "left_corner demo_rules = {}"
    using demo_alternatives by (auto simp: left_corner_def corner_simps demo_rules_def)
  then show ?thesis by (simp add: left_recursive_def acyclic_def)
qed

definition demo_grammar :: llama_grammar where
  "demo_grammar = \<lparr>g_rules = demo_rules, g_stacks = [], g_partial_utf8 = \<lparr>pu_value = 0, pu_n_remain = 0\<rparr>,
     g_lazy = False, g_awaiting_trigger = False, g_trigger_buffer = [], g_trigger_buffer_positions = [], g_trigger_tokens = []\<rparr>"

lemma demo_grammar_rules: "g_rules demo_grammar = demo_rules" "0 < length demo_rules"
  by (simp_all add: demo_grammar_def demo_rules_def)

lemma demo_gen: "gen demo_rules [NT 0] [97, 98]"
proof -
  have m: "class_match [gr_elem GR_CHAR c] c" for c
    by (simp add: class_match_def in_class_single is_positive_char_def)
  have "gen demo_rules [Cls [gr_elem GR_CHAR 98]] [98]" using m by (intro gen_cls gen_nil)
  then have "gen demo_rules [NT 0] ([98] @ [])" using demo_alternatives by (intro gen_nt gen_nil) auto
  then have "gen demo_rules [Cls [gr_elem GR_CHAR 97], NT 0] (97 # [98])" using m by (intro gen_cls) auto
  then have "gen demo_rules [NT 0] ((97 # [98]) @ [])" using demo_alternatives by (intro gen_nt gen_nil) auto
  then show ?thesis by simp
qed

theorem advance_stack_terminals_witness:
  "\<exists>new_stacks'. advance_stack demo_rules [(0, 1)] [] = Some (Inr new_stacks') \<and> new_stacks' \<noteq> []"
proof -
  have "stack_ok demo_rules [(0, 1)]"
    by (simp add: demo_rules_def pos_ok_def elem_at_def is_cont_def is_end_of_sequence_def)
  then show ?thesis using advance_stack_terminals[OF demo_wf demo_not_left_recursive, of "[(0, 1)]" "[]"] by blast
qed

theorem accept_language_witness:
  "\<exists>stacks stacks'. init_stacks demo_rules 0 = ret stacks \<and>
    rfold (\<lambda>c g. llama_grammar_accept g c) [97, 98] (demo_grammar\<lparr>g_stacks := stacks\<rparr>) = ret (demo_grammar\<lparr>g_stacks := stacks'\<rparr>) \<and>
    [] \<in> set stacks'"
  using accept_language[of demo_grammar 0 "[97, 98]"] demo_wf demo_not_left_recursive demo_gen
  unfolding demo_grammar_rules(1) using demo_grammar_rules(2) by blast

end
