(* ===== verification/GrammarReject.thy ===== *)
theory GrammarReject
  imports GrammarLang
begin

text \<open>
  The two uses of the grammar during sampling agree: \<open>llama_grammar_apply_impl\<close> masks exactly the
  candidates that \<open>llama_grammar_accept_token\<close> could not accept. The results are for grammars of
  characters; with token elements they differ, as the last section shows.
\<close>

section \<open>What becomes of a candidate\<close>

definition no_tokens :: "grules \<Rightarrow> bool" where
  "no_tokens rules \<longleftrightarrow> (\<forall>r < length rules. \<forall>e \<in> set (rules ! r). \<not> is_token_element e)"

definition after_word :: "grules \<Rightarrow> nat list \<Rightarrow> gstack set \<Rightarrow> gstack set" where
  "after_word rules w S = fold (after_set rules) w S"

text \<open>The code points a candidate still has to match.\<close>

definition ahead :: "llama_grammar_candidate \<Rightarrow> nat list" where
  "ahead tok = takeWhile (\<lambda>c. c \<noteq> 0) (drop (gc_offset tok) (gc_decoded tok))"

definition cand_ok :: "llama_grammar_candidate \<Rightarrow> bool" where
  "cand_ok tok \<longleftrightarrow> 0 \<in> set (drop (gc_offset tok) (gc_decoded tok))"

text \<open>A partial sequence at the end of a token must be able to continue at the stack.\<close>

definition end_ok :: "grules \<Rightarrow> llama_partial_utf8 \<Rightarrow> gstack \<Rightarrow> bool" where
  "end_ok rules pu s \<longleftrightarrow> pu_n_remain pu = 0 \<or> (\<exists>p rest. s = p # rest \<and> match_partial_char rules p pu = ret True)"

definition survives :: "grules \<Rightarrow> gstack \<Rightarrow> llama_grammar_candidate \<Rightarrow> bool" where
  "survives rules s tok \<longleftrightarrow> (\<exists>t \<in> after_word rules (ahead tok) {s}. end_ok rules (gc_partial_utf8 tok) t)"

section \<open>Lemmas: candidates\<close>

lemma cand_ok_drop:
  assumes "cand_ok tok"
  shows "drop (gc_offset tok) (gc_decoded tok) = code_point_at tok # drop (Suc (gc_offset tok)) (gc_decoded tok)"
proof -
  have "gc_offset tok < length (gc_decoded tok)" using assms by (auto simp: cand_ok_def intro: ccontr)
  then show ?thesis by (simp add: code_point_at_def Cons_nth_drop_Suc)
qed

lemma ahead_Nil: "cand_ok tok \<Longrightarrow> code_point_at tok = 0 \<longleftrightarrow> ahead tok = []"
  by (simp add: ahead_def cand_ok_drop)

lemma ahead_Cons:
  assumes "cand_ok tok" "code_point_at tok \<noteq> 0"
  shows "ahead tok = code_point_at tok # ahead (next_candidate tok)" "cand_ok (next_candidate tok)"
  using cand_ok_drop[OF assms(1)] assms by (simp_all add: ahead_def cand_ok_def next_candidate_def)

lemma next_candidate_simps [simp]:
  "gc_partial_utf8 (next_candidate tok) = gc_partial_utf8 tok" "gc_id (next_candidate tok) = gc_id tok"
  "prev_candidate (next_candidate tok) = tok"
  by (simp_all add: next_candidate_def prev_candidate_def)

lemma after_word_simps [simp]:
  "after_word rules [] S = S" "after_word rules (c # w) S = after_word rules w (after_set rules c S)"
  by (simp_all add: after_word_def)

lemma after_set_UN: "after_set rules c (\<Union>x \<in> A. F x) = (\<Union>x \<in> A. after_set rules c (F x))"
  by (auto simp: after_set_def)

lemma after_word_UN: "after_word rules w (\<Union>x \<in> A. F x) = (\<Union>x \<in> A. after_word rules w (F x))"
  by (induction w arbitrary: F) (simp_all add: after_set_UN)

lemma after_word_split: "after_word rules w S = (\<Union>s \<in> S. after_word rules w {s})"
  using after_word_UN[of rules w "\<lambda>s. {s}" S] by simp

lemma after_word_empty [simp]: "after_word rules w {} = {}"
  by (induction w) (simp_all add: after_set_def)

lemma survives_step:
  assumes "cand_ok tok" "code_point_at tok \<noteq> 0"
  shows "survives rules s tok \<longleftrightarrow> (\<exists>t \<in> after_chr rules (code_point_at tok) s. survives rules t (next_candidate tok))"
proof -
  have "after_word rules (ahead tok) {s} =
      (\<Union>t \<in> after_chr rules (code_point_at tok) s. after_word rules (ahead (next_candidate tok)) {t})"
    using ahead_Cons(1)[OF assms] after_word_split[of rules "ahead (next_candidate tok)" "after_chr rules (code_point_at tok) s"]
    by (simp add: after_set_def)
  then show ?thesis by (auto simp: survives_def)
qed

lemma no_token_stack:
  assumes "no_tokens rules" "stack_ok rules (p # rest)" "terminal_stack rules (p # rest)"
  shows "is_class_element (elem_at rules p)" "\<not> is_token_element (elem_at rules p)"
proof -
  show "\<not> is_token_element (elem_at rules p)"
    using assms(1,2) by (auto simp: no_tokens_def pos_ok_def elem_at_def)
  then show "is_class_element (elem_at rules p)" using assms(3) by (simp add: terminal_stack_def terminal_cases)
qed

section \<open>Lemmas: rejecting\<close>

lemma rmap_ret: "(\<And>x. x \<in> set xs \<Longrightarrow> f x = ret (g x)) \<Longrightarrow> rmap f xs = ret (map g xs)"
  by (induction xs) simp_all

lemma with_verdict_map: "with_verdict v (map g xs) xs = filter (\<lambda>x. g x = v) xs"
  by (induction xs) (auto simp: with_verdict_def)

lemma match_partial_char_returns:
  "is_class_element (elem_at rules p) \<Longrightarrow> \<exists>b. match_partial_char rules p pu = ret b"
  by (auto simp: match_partial_char_def is_class_element_def is_positive_char_def Let_def)

text \<open>The verdict on a candidate at a character class.\<close>

definition class_verdict :: "grules \<Rightarrow> gpos \<Rightarrow> llama_grammar_candidate \<Rightarrow> verdict" where
  "class_verdict rules p tok =
     (if code_point_at tok = 0 then
        if pu_n_remain (gc_partial_utf8 tok) = 0 \<or> match_partial_char rules p (gc_partial_utf8 tok) = ret True then Settled else Rejected
      else if class_match (class_at rules p) (code_point_at tok) then Passed else Rejected)"

lemma char_verdict_eq:
  assumes "grammar_wf rules" "pos_ok rules p" "is_class_element (elem_at rules p)"
  shows "char_verdict rules p tok = ret (class_verdict rules p tok)"
proof (cases "code_point_at tok = 0")
  case True
  obtain b where "match_partial_char rules p (gc_partial_utf8 tok) = ret b" using match_partial_char_returns[OF assms(3)] by blast
  then show ?thesis using True by (auto simp: char_verdict_def class_verdict_def)
next
  case False
  then show ?thesis using class_next(1)[OF assms] by (simp add: char_verdict_def class_verdict_def)
qed

definition live :: "grules \<Rightarrow> gstacks \<Rightarrow> llama_grammar_candidate \<Rightarrow> bool" where
  "live rules stacks tok \<longleftrightarrow> (\<exists>s \<in> set stacks. survives rules s tok)"

definition rejects_right :: "nat \<Rightarrow> grules \<Rightarrow> bool" where
  "rejects_right fuel rules \<longleftrightarrow> (\<forall>s cands. stack_ok rules s \<and> terminal_stack rules s \<and>
     (\<forall>tok \<in> set cands. cand_ok tok \<and> length (ahead tok) < fuel) \<longrightarrow>
     (\<exists>r. reject_for_stack fuel rules s cands = ret r \<and> set r = {tok \<in> set cands. \<not> survives rules s tok}))"

lemma reject_stacks:
  assumes rr: "rejects_right fuel rules" and ok: "stacks_ok rules (set stacks)"
    and c: "\<forall>tok \<in> set cands. cand_ok tok \<and> length (ahead tok) < fuel"
  shows "\<exists>r. rfold (reject_for_stack fuel rules) stacks cands = ret r \<and> set r = {tok \<in> set cands. \<not> live rules stacks tok}"
  using ok c
proof (induction stacks arbitrary: cands)
  case (Cons s stacks)
  obtain r where r: "reject_for_stack fuel rules s cands = ret r" "set r = {tok \<in> set cands. \<not> survives rules s tok}"
    using rr Cons.prems unfolding rejects_right_def stacks_ok_def by (meson list.set_intros(1))
  obtain r' where "rfold (reject_for_stack fuel rules) stacks r = ret r'" "set r' = {tok \<in> set r. \<not> live rules stacks tok}"
    using Cons.IH[of r] Cons.prems r(2) by (auto simp: stacks_ok_def)
  then show ?case using r by (auto simp: live_def)
qed (simp add: live_def)

lemma reject_candidates_ok:
  assumes rr: "0 < fuel \<longrightarrow> rejects_right fuel rules" and ok: "stacks_ok rules (set stacks)" "stacks \<noteq> []"
    and c: "\<forall>tok \<in> set cands. cand_ok tok \<and> length (ahead tok) < fuel"
  shows "\<exists>r. reject_candidates fuel rules stacks cands = ret r \<and> set r = {tok \<in> set cands. \<not> live rules stacks tok}"
proof (cases "cands = []")
  case False
  obtain s stacks' where s: "stacks = s # stacks'" using ok(2) by (cases stacks) auto
  have "0 < fuel" using c False by (cases cands) auto
  then show ?thesis
    using reject_stacks[OF rr[rule_format] ok(1) c] False s by (simp add: reject_candidates.simps)
qed (simp add: reject_candidates.simps ok(2))

lemma survives_class:
  assumes c: "cand_ok tok" and e: "is_class_element (elem_at rules p)"
    and n: "set nxt = terminals rules (push_pos rules (class_end rules p) rest)"
  shows "survives rules (p # rest) tok \<longleftrightarrow> class_verdict rules p tok = Settled \<or>
    class_verdict rules p tok = Passed \<and> live rules nxt (next_candidate tok)"
proof (cases "code_point_at tok = 0")
  case True
  then have "ahead tok = []" using ahead_Nil c by blast
  then show ?thesis using True by (auto simp: survives_def end_ok_def class_verdict_def)
next
  case False
  then show ?thesis
    using survives_step[of tok rules "p # rest"] c e n by (auto simp: after_chr_def class_verdict_def live_def)
qed

lemma reject_class:
  assumes wf: "grammar_wf rules" and nlr: "\<not> left_recursive rules" and nt: "no_tokens rules"
    and rr: "0 < fuel \<longrightarrow> rejects_right fuel rules" and s: "stack_ok rules (p # rest)" "terminal_stack rules (p # rest)"
    and c: "\<forall>tok \<in> set cands. cand_ok tok \<and> length (ahead tok) < Suc fuel"
  shows "\<exists>r. reject_for_stack (Suc fuel) rules (p # rest) cands = ret r \<and>
    set r = {tok \<in> set cands. \<not> survives rules (p # rest) tok}"
proof -
  let ?v = "class_verdict rules p" and ?after = "push_pos rules (class_end rules p) rest"
  note e = no_token_stack[OF nt s]
  have p: "pos_ok rules p" using s(1) by simp
  have after: "stack_ok rules ?after" using class_end_ok[OF wf s(1) e(1)] .
  let ?passed = "filter (\<lambda>tok. ?v tok = Passed) cands"
  obtain nxt where n: "advance_stack rules ?after [] = ret nxt" "set nxt = terminals rules ?after"
    using advance_stack_correct[OF wf nlr after, of "[]"] by (auto simp: ret_def)
  have ne: "nxt \<noteq> []" using terminals_ne[OF wf nlr after] n(2) by auto
  have nok: "stacks_ok rules (set nxt)" using n(2) terminals_ok[OF wf after] by (auto simp: stacks_ok_def)
  have pc: "\<forall>tok \<in> set (map next_candidate ?passed). cand_ok tok \<and> length (ahead tok) < fuel"
  proof
    fix tok' assume "tok' \<in> set (map next_candidate ?passed)"
    then obtain tok where t: "tok \<in> set cands" "?v tok = Passed" "tok' = next_candidate tok" by auto
    then have "code_point_at tok \<noteq> 0" by (auto simp: class_verdict_def split: if_splits)
    then show "cand_ok tok' \<and> length (ahead tok') < fuel" using ahead_Cons[of tok] c t by fastforce
  qed
  obtain r where r: "reject_candidates fuel rules nxt (map next_candidate ?passed) = ret r"
    "set r = {tok \<in> set (map next_candidate ?passed). \<not> live rules nxt tok}"
    using reject_candidates_ok[OF rr nok ne pc] by blast
  have "reject_for_stack (Suc fuel) rules (p # rest) cands =
      ret (filter (\<lambda>tok. ?v tok = Rejected) cands @ map prev_candidate r)"
    using rmap_ret[of cands "char_verdict rules p" ?v] char_verdict_eq[OF wf p e(1)] e n(1) r(1) class_next(1)[OF wf p e(1)]
    by (simp add: reject_for_stack.simps with_verdict_map)
  moreover have surv: "survives rules (p # rest) tok \<longleftrightarrow>
      ?v tok = Settled \<or> ?v tok = Passed \<and> live rules nxt (next_candidate tok)" if "tok \<in> set cands" for tok
    using survives_class[OF _ e(1) n(2)] c that by blast
  moreover have "set (map prev_candidate r) = {tok \<in> set cands. ?v tok = Passed \<and> \<not> live rules nxt (next_candidate tok)}"
    using r(2) by (auto simp: image_iff) (metis next_candidate_simps(3))
  moreover have "?v tok = Rejected \<or> ?v tok = Passed \<and> \<not> live rules nxt (next_candidate tok) \<longleftrightarrow>
      \<not> survives rules (p # rest) tok" if "tok \<in> set cands" for tok
    using surv[OF that] by (cases "?v tok") auto
  ultimately show ?thesis by auto
qed

lemma reject_end:
  assumes "\<forall>tok \<in> set cands. cand_ok tok"
  shows "\<exists>r. reject_for_stack fuel rules [] cands = ret r \<and> set r = {tok \<in> set cands. \<not> survives rules [] tok}"
proof -
  let ?v = "\<lambda>tok. if code_point_at tok \<noteq> 0 \<or> pu_n_remain (gc_partial_utf8 tok) \<noteq> 0 then Rejected else Settled"
  have "survives rules [] tok \<longleftrightarrow> ?v tok = Settled" if "tok \<in> set cands" for tok
  proof (cases "code_point_at tok = 0")
    case True
    then show ?thesis using ahead_Nil assms that by (simp add: survives_def end_ok_def)
  next
    case False
    then show ?thesis using survives_step assms that by (simp add: after_chr_def)
  qed
  moreover have "reject_for_stack fuel rules [] cands = ret (filter (\<lambda>tok. ?v tok = Rejected) cands)"
    using rmap_ret[of cands end_verdict ?v] by (simp add: reject_for_stack.simps with_verdict_map end_verdict_def)
  ultimately show ?thesis by (auto split: if_splits)
qed

lemma rejects_right:
  assumes wf: "grammar_wf rules" and nlr: "\<not> left_recursive rules" and nt: "no_tokens rules"
  shows "0 < fuel \<longrightarrow> rejects_right fuel rules"
proof (induction fuel)
  case (Suc fuel)
  have "\<exists>r. reject_for_stack (Suc fuel) rules s cands = ret r \<and> set r = {tok \<in> set cands. \<not> survives rules s tok}"
    if s: "stack_ok rules s" "terminal_stack rules s"
      and c: "\<forall>tok \<in> set cands. cand_ok tok \<and> length (ahead tok) < Suc fuel" for s cands
  proof (cases s)
    case Nil
    then show ?thesis using reject_end c by simp
  next
    case (Cons p rest)
    then show ?thesis using reject_class[OF wf nlr nt Suc] s c by blast
  qed
  then show ?case by (auto simp: rejects_right_def)
qed simp

section \<open>Lemmas: accepting a token\<close>

lemma after_word_ok: "grammar_wf rules \<Longrightarrow> stacks_ok rules S \<Longrightarrow> stacks_ok rules (after_word rules w S)"
  by (induction w arbitrary: S) (auto simp: after_set_ok)

lemma accept_chars_correct:
  assumes wf: "grammar_wf rules" and nlr: "\<not> left_recursive rules"
  shows "stacks_ok rules (set stacks) \<Longrightarrow> \<exists>r. accept_chars rules w stacks = ret r \<and> set r = after_word rules w (set stacks)"
proof (induction w arbitrary: stacks)
  case (Cons c w)
  obtain r where r: "accept_stacks rules stacks c = ret r" "set r = after_set rules c (set stacks)"
    using accept_stacks_correct[OF wf nlr Cons.prems] by blast
  show ?case
  proof (cases "r = []")
    case True
    then have "after_set rules c (set stacks) = {}" using r(2) by simp
    then show ?thesis using r True by auto
  next
    case False
    have "stacks_ok rules (set r)" using after_set_ok[OF wf Cons.prems] r(2) by simp
    then show ?thesis using Cons.IH[of r] r False by auto
  qed
qed simp

definition after_token :: "grules \<Rightarrow> nat list \<Rightarrow> gstack \<Rightarrow> gstack set" where
  "after_token rules cps s = (if s = [] then {} else after_word rules cps {s})"

lemma set_fold_add_stack: "set (fold add_stack xs ys) = set xs \<union> set ys"
  by (induction xs arbitrary: ys) auto

lemma accept_token_stacks:
  assumes wf: "grammar_wf rules" and nlr: "\<not> left_recursive rules" and nt: "no_tokens rules"
    and ok: "stacks_ok rules (set stacks)"
  shows "\<exists>r. rfold (accept_token_stack rules token cps) stacks [] = ret r \<and>
    set r = (\<Union>s \<in> set stacks. after_token rules cps s)"
proof -
  have "\<exists>b. accept_token_stack rules token cps s a = ret b \<and> set b = set a \<union> after_token rules cps s"
    if s: "s \<in> set stacks" for s a
  proof (cases s)
    case Nil
    then show ?thesis by (simp add: accept_token_stack_def after_token_def)
  next
    case (Cons p rest)
    then have so: "stack_ok rules (p # rest)" "terminal_stack rules (p # rest)" using ok s by (auto simp: stacks_ok_def)
    then obtain r where "accept_chars rules cps [s] = ret r" "set r = after_word rules cps {s}"
      using accept_chars_correct[OF wf nlr, of "[s]"] Cons by (auto simp: stacks_ok_def)
    then show ?thesis
      using no_token_stack(2)[OF nt so] Cons
      by (auto simp: accept_token_stack_def after_token_def set_fold_add_stack)
  qed
  then show ?thesis
    using rfold_union[of stacks "accept_token_stack rules token cps" "after_token rules cps" "[]"] by simp
qed

section \<open>Lemmas: pieces with a code point\<close>

lemma cont_bytes_stop: "cont_bytes n v bs = (v', Suc m, bs') \<Longrightarrow> bs' = [] \<or> hd bs' = 0"
  by (induction n v bs rule: cont_bytes.induct) (auto split: if_splits)

lemma decode_seqs_stop: "bs = [] \<or> hd bs = 0 \<Longrightarrow> decode_seqs v n bs = Some ([], v, n)"
  by (cases bs) auto

lemma decode_seqs_ne:
  assumes "decode_seqs v n (b # bs) = Some (cps, v', 0)" "b \<noteq> 0"
  shows "cps \<noteq> []"
proof -
  let ?len = "piece_len_lookup ! unat (drop_bit 4 b)"
  obtain v1 n1 pos where c: "cont_bytes (?len - 1) (ucast (b AND (push_bit (7 - (?len - 1)) 1 - 1))) bs = (v1, n1, pos)"
    by (metis prod_cases3)
  have "?len \<noteq> 0" using assms by (auto simp: Let_def split: if_splits)
  then have d: "decode_seqs v1 (int n1) pos = Some (if n1 = 0 then tl cps else cps, v', 0)" "n1 = 0 \<longrightarrow> cps \<noteq> []"
    using assms c by (auto simp: Let_def split: option.splits if_splits)
  show ?thesis
  proof (cases n1)
    case (Suc m)
    then have "decode_seqs v1 (int n1) pos = Some ([], v1, int n1)" using cont_bytes_stop[of _ _ _ v1 m pos] c decode_seqs_stop by blast
    then show ?thesis using d(1) Suc by simp
  qed (use d in simp)
qed

lemma continue_seq_stop: "continue_seq v n bs = Some (v', n', bs') \<Longrightarrow> 0 < n' \<Longrightarrow> bs' = [] \<or> hd bs' = 0"
  by (induction v n bs rule: continue_seq.induct) (auto split: if_splits)

lemma continue_seq_idle: "n \<le> 0 \<Longrightarrow> continue_seq v n bs = Some (v, n, bs)"
  by (cases bs) auto

lemma continue_seq_nonneg: "continue_seq v n bs = Some (v', n', bs') \<Longrightarrow> 0 \<le> n \<Longrightarrow> 0 \<le> n'"
  by (induction v n bs rule: continue_seq.induct) (auto split: if_splits)

lemma decode_piece_ne:
  assumes d: "decode_utf8_partial piece p = (cps, p')" and n: "pu_n_remain p' = 0" and ne: "\<not> no_piece piece"
  shows "butlast cps \<noteq> []"
proof -
  obtain b bs where b: "piece = b # bs" "b \<noteq> 0" using ne by (cases piece) (auto simp: no_piece_def)
  obtain v n1 pos cps1 v' where c: "continue_seq (pu_value p) (pu_n_remain p) piece = Some (v, n1, pos)"
    "decode_seqs v n1 pos = Some (cps1, v', 0)"
    "cps = (if pu_n_remain p > 0 \<and> n1 = 0 then [v] else []) @ cps1 @ [0]"
    using d n by (auto simp: decode_utf8_partial_def split: option.splits)
  show ?thesis
  proof (cases "pu_n_remain p > 0")
    case True
    have "n1 = 0"
    proof (rule ccontr)
      assume "n1 \<noteq> 0"
      then have "n1 > 0" using continue_seq_nonneg[OF c(1)] True by simp
      then show False using decode_seqs_stop[OF continue_seq_stop[OF c(1)]] c(2) by simp
    qed
    then show ?thesis using c(3) True by simp
  next
    case False
    then have "pos = b # bs" using continue_seq_idle[of "pu_n_remain p" "pu_value p" piece] c(1) b(1) by simp
    then show ?thesis using decode_seqs_ne[of v n1 b bs cps1 v'] c(2,3) b(2) by simp
  qed
qed

lemma decode_last: "decode_utf8_partial piece p = (cps, p') \<Longrightarrow> \<exists>ws. cps = ws @ [0]"
  by (auto simp: decode_utf8_partial_def split: option.splits)

section \<open>Masking\<close>

lemma mask_logit_simps [simp]:
  "length (mask_logit i cur) = length cur"
  "j < length cur \<Longrightarrow> td_id (mask_logit i cur ! j) = td_id (cur ! j)"
  "j < length cur \<Longrightarrow> td_logit (mask_logit i cur ! j) = (if i = j then None else td_logit (cur ! j))"
  by (cases "i = j"; simp add: mask_logit_def)+

lemma fold_mask_logit:
  "length (fold mask_logit is cur) = length cur"
  "j < length cur \<Longrightarrow> td_logit (fold mask_logit is cur ! j) = (if j \<in> set is then None else td_logit (cur ! j))"
  by (induction "is" arbitrary: cur) auto

lemma reject_fuel_bound: "tok \<in> set cands \<Longrightarrow> length (gc_decoded tok) < reject_fuel cands"
proof -
  have "n \<le> fold (\<lambda>tok n. max n (length (gc_decoded tok))) cands n \<and>
      (\<forall>tok \<in> set cands. length (gc_decoded tok) \<le> fold (\<lambda>tok n. max n (length (gc_decoded tok))) cands n)" for n
    by (induction cands arbitrary: n) (auto intro: order_trans, (meson max.cobounded2 max.boundedE order_trans)+)
  then show "tok \<in> set cands \<Longrightarrow> length (gc_decoded tok) < reject_fuel cands" by (auto simp: reject_fuel_def le_imp_less_Suc)
qed

text \<open>The candidate of a token: it has all code points of its piece ahead of it.\<close>

lemma token_candidate_simps:
  fixes cur i tp pu
  defines "piece \<equiv> tp (td_id (cur ! i))" and "tok \<equiv> token_candidate pu tp cur i"
  shows "gc_index tok = i" "gc_partial_utf8 tok = snd (decode_utf8_partial piece pu)" "cand_ok tok"
    "0 \<notin> set (butlast (fst (decode_utf8_partial piece pu))) \<Longrightarrow>
       ahead tok = map unat (butlast (fst (decode_utf8_partial piece pu)))"
    "length (ahead tok) \<le> length (gc_decoded tok)"
proof -
  obtain cps p' where d: "decode_utf8_partial piece pu = (cps, p')" by fastforce
  obtain ws where ws: "cps = ws @ [0]" using decode_last[OF d] by blast
  have t: "tok = \<lparr>gc_index = i, gc_decoded = map unat cps, gc_offset = 0, gc_partial_utf8 = p', gc_id = td_id (cur ! i)\<rparr>"
    using d by (simp add: tok_def token_candidate_def Let_def piece_def)
  show "gc_index tok = i" "gc_partial_utf8 tok = snd (decode_utf8_partial piece pu)" "cand_ok tok"
    using t ws d by (simp_all add: cand_ok_def)
  show "length (ahead tok) \<le> length (gc_decoded tok)" unfolding ahead_def by (rule length_takeWhile_le[THEN le_trans]) simp
  assume "0 \<notin> set (butlast (fst (decode_utf8_partial piece pu)))"
  then have "\<forall>c \<in> set ws. unat c \<noteq> 0" using d ws by (auto simp: unat_eq_zero)
  then show "ahead tok = map unat (butlast (fst (decode_utf8_partial piece pu)))"
    using d ws by (simp add: ahead_def t takeWhile_append)
qed

text \<open>What the decision on one candidate means for accepting its token.\<close>

lemma live_accepts:
  assumes wf: "grammar_wf (g_rules g)" and nlr: "\<not> left_recursive (g_rules g)" and nt: "no_tokens (g_rules g)"
    and ok: "stacks_ok (g_rules g) (set (g_stacks g))"
    and piece: "\<not> no_piece piece" "decode_utf8_partial piece (g_partial_utf8 g) = (cps, pu)"
    and tok: "ahead tok = map unat (butlast cps)" "gc_partial_utf8 tok = pu"
  shows "live (g_rules g) (g_stacks g) tok \<Longrightarrow> \<exists>g'. llama_grammar_accept_token g token piece = ret g'"
    and "\<not> live (g_rules g) (g_stacks g) tok \<Longrightarrow> pu_n_remain pu = 0 \<Longrightarrow>
      \<exists>e. llama_grammar_accept_token g token piece = Some (Inl e)"
proof -
  let ?S = "\<Union>s \<in> set (g_stacks g). after_token (g_rules g) (ahead tok) s"
  obtain r where r: "rfold (accept_token_stack (g_rules g) token (map unat (butlast cps))) (g_stacks g) [] = ret r" "set r = ?S"
    using accept_token_stacks[OF wf nlr nt ok] tok(1) by metis
  have acc: "llama_grammar_accept_token g token piece =
      (if r = [] then Some (Inl (Exn ''Unexpected empty grammar stack after accepting piece''))
       else ret (g\<lparr>g_stacks := r, g_partial_utf8 := pu\<rparr>))"
    using r(1) piece(2) by (simp add: llama_grammar_accept_token_def)
  have nil: "after_word (g_rules g) (c # w) {[]} = {}" for c w by (simp add: after_set_def after_chr_def)
  show "\<exists>g'. llama_grammar_accept_token g token piece = ret g'" if lv: "live (g_rules g) (g_stacks g) tok"
  proof -
    obtain s t where s: "s \<in> set (g_stacks g)" "t \<in> after_word (g_rules g) (ahead tok) {s}" "end_ok (g_rules g) pu t"
      using lv tok(2) by (auto simp: live_def survives_def)
    have "s \<noteq> []"
    proof
      assume [simp]: "s = []"
      then have a: "ahead tok = []" "t = []" using s(2) nil by (cases "ahead tok"; auto)+
      then show False using s(3) decode_piece_ne[OF piece(2) _ piece(1)] tok(1) by (simp add: end_ok_def)
    qed
    then have "t \<in> set r" using r(2) s by (auto simp: after_token_def)
    then show ?thesis using acc by auto
  qed
  show "\<exists>e. llama_grammar_accept_token g token piece = Some (Inl e)"
    if "\<not> live (g_rules g) (g_stacks g) tok" "pu_n_remain pu = 0"
  proof -
    have "set r = {}" using r(2) that tok(2) by (auto simp: live_def survives_def end_ok_def after_token_def split: if_splits)
    then show ?thesis using acc by simp
  qed
qed

section \<open>Properties\<close>

text \<open>C8: Masking and accepting agree. For a well-formed grammar without left recursion and without token elements that does not wait
  for a trigger, applying it to candidate tokens succeeds. Take a candidate that was not masked before, is no end-of-generation token
  and has a piece that is not empty and contains no code point zero. If its logit is left alone, the token is accepted afterwards without
  an exception; and if it is masked and its piece ends on a whole character, accepting it throws. (A piece that ends within
  a character may be masked although accepting it alone would not throw yet.)\<close>

theorem apply_accept_agree:
  assumes wf: "grammar_wf (g_rules g)" and nlr: "\<not> left_recursive (g_rules g)" and nt: "no_tokens (g_rules g)"
    and ok: "stacks_ok (g_rules g) (set (g_stacks g))" "g_stacks g \<noteq> []" and aw: "\<not> g_awaiting_trigger g"
  shows "\<exists>cur_p'. llama_grammar_apply_impl token_to_piece is_eog g cur_p = ret cur_p' \<and> length cur_p' = length cur_p \<and>
    (\<forall>i < length cur_p. let token = td_id (cur_p ! i); piece = token_to_piece token;
         (cps, pu) = decode_utf8_partial piece (g_partial_utf8 g) in
       td_logit (cur_p ! i) \<noteq> None \<and> \<not> is_eog token \<and> \<not> no_piece piece \<and> 0 \<notin> set (butlast cps) \<longrightarrow>
       (td_logit (cur_p' ! i) \<noteq> None \<longrightarrow> (\<exists>g'. llama_grammar_accept_token g token piece = ret g')) \<and>
       (td_logit (cur_p' ! i) = None \<and> pu_n_remain pu = 0 \<longrightarrow> (\<exists>e. llama_grammar_accept_token g token piece = Some (Inl e))))"
proof -
  let ?tok = "token_candidate (g_partial_utf8 g) token_to_piece cur_p"
  define ids where "ids = filter (\<lambda>i. \<not> is_eog (td_id (cur_p ! i)) \<and> \<not> no_piece (token_to_piece (td_id (cur_p ! i)))) [0..<length cur_p]"
  define masked where "masked = filter (\<lambda>i. if is_eog (td_id (cur_p ! i)) then [] \<notin> set (g_stacks g)
    else no_piece (token_to_piece (td_id (cur_p ! i)))) [0..<length cur_p]"
  let ?cands = "map ?tok ids"
  have c: "\<forall>tok \<in> set ?cands. cand_ok tok \<and> length (ahead tok) < reject_fuel ?cands"
    using token_candidate_simps(3,5) reject_fuel_bound by (metis (no_types, lifting) imageE list.set_map order_le_less_trans)
  obtain r where r: "reject_candidates (reject_fuel ?cands) (g_rules g) (g_stacks g) ?cands = ret r"
    "set r = {tok \<in> set ?cands. \<not> live (g_rules g) (g_stacks g) tok}"
    using reject_candidates_ok[OF rejects_right[OF wf nlr nt] ok c] by blast
  define res where "res = fold mask_logit (map gc_index r) (fold mask_logit masked cur_p)"
  have app: "llama_grammar_apply_impl token_to_piece is_eog g cur_p = ret res"
    using r(1) aw unfolding llama_grammar_apply_impl_def Let_def ids_def masked_def res_def by simp
  have idx: "i \<in> gc_index ` set r \<longleftrightarrow> \<not> live (g_rules g) (g_stacks g) (?tok i)" if "i \<in> set ids" for i
    using r(2) that token_candidate_simps(1) by (auto simp: image_iff)
  have "(td_logit (res ! i) \<noteq> None \<longrightarrow> (\<exists>g'. llama_grammar_accept_token g (td_id (cur_p ! i)) (token_to_piece (td_id (cur_p ! i))) = ret g')) \<and>
      (td_logit (res ! i) = None \<and> pu_n_remain pu = 0 \<longrightarrow>
        (\<exists>e. llama_grammar_accept_token g (td_id (cur_p ! i)) (token_to_piece (td_id (cur_p ! i))) = Some (Inl e)))"
    if i: "i < length cur_p" "td_logit (cur_p ! i) \<noteq> None" "\<not> is_eog (td_id (cur_p ! i))" "\<not> no_piece (token_to_piece (td_id (cur_p ! i)))"
      and d: "decode_utf8_partial (token_to_piece (td_id (cur_p ! i))) (g_partial_utf8 g) = (cps, pu)" "0 \<notin> set (butlast cps)" for i cps pu
  proof -
    have ii: "i \<in> set ids" "i \<notin> set masked" using i by (simp_all add: ids_def masked_def)
    have "td_logit (res ! i) = (if live (g_rules g) (g_stacks g) (?tok i) then td_logit (cur_p ! i) else None)"
      using idx[OF ii(1)] ii(2) i(1) by (simp add: res_def fold_mask_logit)
    moreover have "ahead (?tok i) = map unat (butlast cps)" "gc_partial_utf8 (?tok i) = pu"
      using token_candidate_simps(2,4)[where tp = token_to_piece and cur = cur_p and i = i and pu = "g_partial_utf8 g"] d by simp_all
    ultimately show ?thesis
      using live_accepts[OF wf nlr nt ok(1) i(4) d(1)] i(2) by auto
  qed
  then show ?thesis using app by (auto simp: Let_def res_def fold_mask_logit(1) split: prod.splits)
qed

section \<open>Token elements\<close>

text \<open>
  A grammar with a token element, \<open>root ::= "a" <[5]>\<close>, at its start, and a vocabulary in which the
  piece of token 5 is \<open>ab\<close>.
\<close>

definition tok_grammar :: llama_grammar where
  "tok_grammar = demo_grammar\<lparr>g_rules := [[gr_elem GR_CHAR 97, gr_elem GR_TOKEN 5, gr_elem GR_END 0]], g_stacks := [[(0, 0)]]\<rparr>"

lemma decode_ab:
  "decode_utf8_partial [0x61, 0x62] \<lparr>pu_value = 0, pu_n_remain = 0\<rparr> = ([0x61, 0x62, 0], \<lparr>pu_value = 0x62, pu_n_remain = 0\<rparr>)"
  by (simp add: decode_utf8_partial_def piece_len_lookup_def)

text \<open>C37: With token elements masking and accepting disagree: a token that starts as characters and then
  meets a token element for itself in the middle of its piece is not masked, and accepting it throws.\<close>

theorem token_mid_piece_mismatch:
  "llama_grammar_apply_impl (\<lambda>_. [0x61, 0x62]) (\<lambda>_. False) tok_grammar [\<lparr>td_id = 5, td_logit = Some 0\<rparr>] =
     ret [\<lparr>td_id = 5, td_logit = Some 0\<rparr>] \<and>
   llama_grammar_accept_token tok_grammar 5 [0x61, 0x62] =
     Some (Inl (Exn ''Unexpected empty grammar stack after accepting piece''))"
proof -
  let ?R = "g_rules tok_grammar"
  have e: "elem_at ?R (0, 0) = gr_elem GR_CHAR 97" "elem_at ?R (0, 1) = gr_elem GR_TOKEN 5" "elem_at ?R (0, 2) = gr_elem GR_END 0"
    "elems_at ?R (0, 0) = [gr_elem GR_CHAR 97, gr_elem GR_TOKEN 5, gr_elem GR_END 0]"
    by (simp_all add: tok_grammar_def elem_at_def elems_at_def)
  have adv: "advance_stack ?R [(0, 1)] [] = ret [[(0, 1)]]"
    unfolding advance_stack_def
    by (subst advance_loop.simps, subst advance_loop.simps) (simp add: e is_terminal_element_def add_stack_def ret_def flip: One_nat_def)
  have mc: "match_char ?R (0, 0) c = ret (c = 97, (0, 1))" for c
    using e by (simp add: match_char_def is_positive_char_def pos_add_def)
  define tok where "tok = \<lparr>gc_index = 0, gc_decoded = [97, 98, 0], gc_offset = 0,
    gc_partial_utf8 = \<lparr>pu_value = 0x62, pu_n_remain = 0\<rparr>, gc_id = 5\<rparr>"
  have cp: "code_point_at tok = 97" "code_point_at (next_candidate tok) = 98" "gc_id tok = 5"
    by (simp_all add: tok_def code_point_at_def next_candidate_def)
  have "reject_candidates 3 ?R [[(0, 1)]] [next_candidate tok] = ret []"
    by (simp add: reject_candidates.simps reject_for_stack.simps e[simplified] is_token_element_def token_verdict_def
        cp match_token_def with_verdict_def)
  then have rej: "reject_candidates 4 ?R [[(0, 0)]] [tok] = ret []"
    using adv mc e cp
    by (simp add: reject_candidates.simps reject_for_stack.simps is_token_element_def char_verdict_def
        with_verdict_def push_pos_def is_end_of_sequence_def)
  have fuel: "reject_fuel [tok] = 4" by (simp add: reject_fuel_def tok_def)
  have g: "g_stacks tok_grammar = [[(0, 0)]]" "g_partial_utf8 tok_grammar = \<lparr>pu_value = 0, pu_n_remain = 0\<rparr>"
    "\<not> g_awaiting_trigger tok_grammar" by (simp_all add: tok_grammar_def demo_grammar_def)
  have "accept_chars ?R [97, 98] [[(0, 0)]] = ret []"
    using adv mc e
    by (simp add: accept_stacks_def accept_chr_def is_token_element_def push_pos_def is_end_of_sequence_def)
  then have "llama_grammar_accept_token tok_grammar 5 [0x61, 0x62] =
     Some (Inl (Exn ''Unexpected empty grammar stack after accepting piece''))"
    using e by (simp add: llama_grammar_accept_token_def g decode_ab accept_token_stack_def is_token_element_def)
  moreover have "token_candidate (g_partial_utf8 tok_grammar) (\<lambda>_. [0x61, 0x62]) [\<lparr>td_id = 5, td_logit = Some 0\<rparr>] 0 = tok"
    by (simp add: token_candidate_def g decode_ab tok_def)
  then have "llama_grammar_apply_impl (\<lambda>_. [0x61, 0x62]) (\<lambda>_. False) tok_grammar [\<lparr>td_id = 5, td_logit = Some 0\<rparr>] =
     ret [\<lparr>td_id = 5, td_logit = Some 0\<rparr>]"
    using rej g fuel by (simp add: llama_grammar_apply_impl_def no_piece_def)
  ultimately show ?thesis by blast
qed

section \<open>Witnesses\<close>

definition demo_started :: llama_grammar where
  "demo_started = demo_grammar\<lparr>g_stacks := [[(0, 0)], [(0, 3)]]\<rparr>"

lemma demo_started_simps:
  "g_rules demo_started = demo_rules" "g_stacks demo_started = [[(0, 0)], [(0, 3)]]"
  "g_partial_utf8 demo_started = \<lparr>pu_value = 0, pu_n_remain = 0\<rparr>" "\<not> g_awaiting_trigger demo_started"
  by (simp_all add: demo_started_def demo_grammar_def)

lemma demo_no_tokens: "no_tokens demo_rules"
  by (simp add: no_tokens_def demo_rules_def is_token_element_def)

lemma demo_stacks_ok: "stacks_ok demo_rules (set [[(0, 0)], [(0, 3)]])"
  by (simp add: stacks_ok_def demo_rules_def pos_ok_def elem_at_def is_cont_def is_end_of_sequence_def
      terminal_stack_def is_terminal_element_def numeral_3_eq_3)

theorem apply_accept_agree_witness:
  "\<exists>cur_p'. llama_grammar_apply_impl (\<lambda>_. [0x61, 0x62]) (\<lambda>_. False) demo_started [\<lparr>td_id = 1, td_logit = Some 0\<rparr>] = ret cur_p' \<and>
     (td_logit (cur_p' ! 0) \<noteq> None \<longrightarrow> (\<exists>g'. llama_grammar_accept_token demo_started 1 [0x61, 0x62] = ret g')) \<and>
     (td_logit (cur_p' ! 0) = None \<longrightarrow> (\<exists>e. llama_grammar_accept_token demo_started 1 [0x61, 0x62] = Some (Inl e)))"
  using apply_accept_agree[of demo_started "\<lambda>_. [0x61, 0x62]" "\<lambda>_. False" "[\<lparr>td_id = 1, td_logit = Some 0\<rparr>]"]
    demo_wf demo_not_left_recursive demo_no_tokens demo_stacks_ok
  unfolding demo_started_simps Let_def by (simp add: decode_ab demo_started_simps no_piece_def)
     (elim exE conjE, intro exI conjI, assumption+)

end
