(* ===== verification/GrammarParse.thy ===== *)
theory GrammarParse
  imports GrammarLang Decimal "HOL-Library.AList"
begin

text \<open>
  The parser of grammar texts in \<open>engine/src/llama-grammar.cpp\<close> (\<open>llama_grammar_parser\<close>): lexical
  helpers, symbols, the rewriting of repetitions and the recursive descent over sequences,
  alternates and rules. A position in the text is the rest of the text, a C string without its
  terminating zero, so that \<open>*pos == 0\<close> is the empty list. A C++ exception is \<open>Inl (Exn _)\<close>.
  The vocabulary is a parameter: its \<open>tokenize\<close> returns the number of tokens and the first token.
  The descent takes fuel; the length of the text is enough.
\<close>

section \<open>Lexical helpers\<close>

definition throw :: "string \<Rightarrow> 'a res" where
  "throw msg = Some (Inl (Exn msg))"

definition at_chr :: "string \<Rightarrow> char \<Rightarrow> bool" where
  "at_chr pos c \<longleftrightarrow> pos \<noteq> [] \<and> hd pos = c"

definition chr_between :: "char \<Rightarrow> char \<Rightarrow> char \<Rightarrow> bool" where
  "chr_between a c b \<longleftrightarrow> chr_code a \<le> chr_code c \<and> chr_code c \<le> chr_code b"

definition is_digit_char :: "char \<Rightarrow> bool" where
  "is_digit_char c \<longleftrightarrow> chr_between CHR ''0'' c CHR ''9''"

definition is_word_char :: "char \<Rightarrow> bool" where
  "is_word_char c \<longleftrightarrow> chr_between CHR ''a'' c CHR ''z'' \<or> chr_between CHR ''A'' c CHR ''Z'' \<or> c = CHR ''-'' \<or> is_digit_char c"

definition hex_digit :: "char \<Rightarrow> nat option" where
  "hex_digit c =
     (if chr_between CHR ''a'' c CHR ''f'' then Some (chr_code c - chr_code CHR ''a'' + 10)
      else if chr_between CHR ''A'' c CHR ''F'' then Some (chr_code c - chr_code CHR ''A'' + 10)
      else if chr_between CHR ''0'' c CHR ''9'' then Some (chr_code c - chr_code CHR ''0'')
      else None)"

text \<open>The loop of \<open>parse_hex\<close>: the value, the number of digits missing and the rest.\<close>

fun hex_digits :: "nat \<Rightarrow> nat \<Rightarrow> string \<Rightarrow> nat \<times> nat \<times> string" where
  "hex_digits 0 value pos = (value, 0, pos)"
| "hex_digits (Suc n) value [] = (value, Suc n, [])"
| "hex_digits (Suc n) value (c # cs) =
     (case hex_digit c of
        None \<Rightarrow> (value, Suc n, c # cs)
      | Some d \<Rightarrow> hex_digits n (u32 (16 * value + d)) cs)"

definition parse_hex :: "string \<Rightarrow> nat \<Rightarrow> (nat \<times> string) res" where
  "parse_hex src n =
     (let (value, missing, pos) = hex_digits n 0 src in
      if missing \<noteq> 0 then throw ''expecting hex chars'' else ret (value, pos))"

function parse_space :: "bool \<Rightarrow> string \<Rightarrow> string" where
  "parse_space newline_ok [] = []"
| "parse_space newline_ok (c # cs) =
     (if c = CHR ''#'' then parse_space newline_ok (dropWhile (\<lambda>c. c \<noteq> CHR 0x0D \<and> c \<noteq> CHR 0x0A) cs)
      else if c = CHR '' '' \<or> c = CHR 0x09 \<or> newline_ok \<and> (c = CHR 0x0D \<or> c = CHR 0x0A) then parse_space newline_ok cs
      else c # cs)"
  by pat_completeness auto
termination
  by (relation "measure (\<lambda>(_, pos). length pos)") (auto simp: le_imp_less_Suc length_dropWhile_le)

definition parse_name :: "string \<Rightarrow> string res" where
  "parse_name src = (let pos = dropWhile is_word_char src in
     if length pos = length src then throw ''expecting name'' else ret pos)"

definition parse_int :: "string \<Rightarrow> string res" where
  "parse_int src = (let pos = dropWhile is_digit_char src in
     if length pos = length src then throw ''expecting integer'' else ret pos)"

text \<open>The text between two positions, and the standard library's conversion of digits.\<close>

definition until :: "string \<Rightarrow> string \<Rightarrow> string" where
  "until src pos = take (length src - length pos) src"

definition stoull :: "string \<Rightarrow> nat res" where
  "stoull s = (if digits_value s < 2 ^ 64 then ret (digits_value s) else throw ''stoull'')"

definition parse_char :: "string \<Rightarrow> (nat \<times> string) res" where
  "parse_char src =
     (case src of
        [] \<Rightarrow> throw ''unexpected end of input''
      | c # cs \<Rightarrow>
          if c = CHR 0x5C then
            (case cs of
               [] \<Rightarrow> throw ''unknown escape''
             | e # pos \<Rightarrow>
                 if e = CHR ''x'' then parse_hex pos 2
                 else if e = CHR ''u'' then parse_hex pos 4
                 else if e = CHR ''U'' then parse_hex pos 8
                 else if e = CHR ''t'' then ret (9, pos)
                 else if e = CHR ''r'' then ret (13, pos)
                 else if e = CHR ''n'' then ret (10, pos)
                 else if e \<in> {CHR 0x5C, CHR 0x22, CHR ''['', CHR '']'', CHR ''-''} then ret (chr_code e, pos)
                 else throw ''unknown escape'')
          else
            let (value, pos) = decode_utf8 (map of_char src)
            in ret (unat value, drop (length src - length pos) src))"

type_synonym vocab = "(string \<Rightarrow> int \<times> llama_token) option"

definition parse_token :: "vocab \<Rightarrow> string \<Rightarrow> (nat \<times> string) res" where
  "parse_token vocab src =
     (if \<not> at_chr src CHR ''<'' then throw ''expecting <''
      else if at_chr (tl src) CHR ''['' then
        let digits = tl (tl src) in
        rbind (parse_int digits) (\<lambda>int_end.
        rbind (stoull (until digits int_end)) (\<lambda>token_id.
          if \<not> at_chr int_end CHR '']'' then throw ''expecting ]''
          else if \<not> at_chr (tl int_end) CHR ''>'' then throw ''expecting >''
          else ret (u32 token_id, tl (tl int_end))))
      else
        (case vocab of
           None \<Rightarrow> throw ''no vocab to parse token''
         | Some tokenize \<Rightarrow>
             let pos = dropWhile (\<lambda>c. c \<noteq> CHR ''>'') (tl src) in
             if \<not> at_chr pos CHR ''>'' then throw ''expecting >''
             else
               let (n_tokens, token) = tokenize (until src (tl pos))
               in if n_tokens \<noteq> 1 then throw ''invalid token'' else ret (nat (token mod 2 ^ 32), tl pos)))"

section \<open>Symbols and rules\<close>

record llama_grammar_parser =
  gp_symbol_ids :: "(string \<times> nat) list"
  gp_rules :: grules

definition get_symbol_id :: "llama_grammar_parser \<Rightarrow> string \<Rightarrow> nat \<times> llama_grammar_parser" where
  "get_symbol_id ps name =
     (let next_id = u32 (length (gp_symbol_ids ps)) in
      case map_of (gp_symbol_ids ps) name of
        Some known \<Rightarrow> (known, ps)
      | None \<Rightarrow> (next_id, ps\<lparr>gp_symbol_ids := gp_symbol_ids ps @ [(name, next_id)]\<rparr>))"

definition generate_symbol_id :: "llama_grammar_parser \<Rightarrow> string \<Rightarrow> nat \<times> llama_grammar_parser" where
  "generate_symbol_id ps base_name =
     (let next_id = u32 (length (gp_symbol_ids ps)) in
      (next_id, ps\<lparr>gp_symbol_ids := AList.update (base_name @ CHR ''_'' # to_string next_id) next_id (gp_symbol_ids ps)\<rparr>))"

definition add_rule :: "llama_grammar_parser \<Rightarrow> nat \<Rightarrow> grule \<Rightarrow> llama_grammar_parser" where
  "add_rule ps rule_id rule =
     (let rules = gp_rules ps;
          rules = (if length rules \<le> rule_id then rules @ replicate (rule_id + 1 - length rules) [] else rules)
      in ps\<lparr>gp_rules := rules[rule_id := rule]\<rparr>)"

definition elem :: "llama_gretype \<Rightarrow> nat \<Rightarrow> llama_grammar_element" where
  "elem t v = \<lparr>ge_type = t, ge_value = v\<rparr>"

section \<open>Repetitions\<close>

definition MAX_REPETITION_THRESHOLD :: nat where
  "MAX_REPETITION_THRESHOLD = 2000"

definition UINT64_MAX :: nat where
  "UINT64_MAX = 2 ^ 64 - 1"

definition u64_sub :: "nat \<Rightarrow> nat \<Rightarrow> nat" where
  "u64_sub a b = nat ((int a - int b) mod 2 ^ 64)"

text \<open>The rules for the optional copies, from the \<open>i\<close>-th on; the result is the number of the last one.\<close>

fun opt_rules :: "nat \<Rightarrow> nat \<Rightarrow> bool \<Rightarrow> string \<Rightarrow> grule \<Rightarrow> nat \<Rightarrow> llama_grammar_parser \<Rightarrow> nat \<times> llama_grammar_parser" where
  "opt_rules 0 i no_max rule_name prev_rule last_rec_rule_id ps = (last_rec_rule_id, ps)"
| "opt_rules (Suc n) i no_max rule_name prev_rule last_rec_rule_id ps =
     (let (rec_rule_id, ps) = generate_symbol_id ps rule_name;
          rec_rule = prev_rule @
            (if i > 0 \<or> no_max then [elem GR_RULE_REF (if no_max then rec_rule_id else last_rec_rule_id)] else []) @
            [elem GR_ALT 0, elem GR_END 0]
      in opt_rules n (i + 1) no_max rule_name prev_rule rec_rule_id (add_rule ps rec_rule_id rec_rule))"

text \<open>The state of \<open>parse_sequence\<close>: its local variables and the parser.\<close>

record seq_state =
  sq_pos :: string
  sq_rule :: grule
  sq_last_sym_start :: nat
  sq_n_prev_rules :: nat
  sq_parser :: llama_grammar_parser

definition total_rules :: "nat \<Rightarrow> nat \<Rightarrow> nat" where
  "total_rules min_times max_times =
     (if max_times \<noteq> UINT64_MAX \<and> max_times > 0 then max_times else if min_times > 0 then min_times else 1)"

definition handle_repetitions :: "string \<Rightarrow> nat \<Rightarrow> nat \<Rightarrow> seq_state \<Rightarrow> seq_state res" where
  "handle_repetitions rule_name min_times max_times st =
     (let no_max = (max_times = UINT64_MAX);
          rule = sq_rule st;
          start = sq_last_sym_start st;
          prev_rule = drop start rule;
          n_rules = u64 (sq_n_prev_rules st * total_rules min_times max_times)
      in if start = length rule then throw ''expecting preceding item''
         else if n_rules > MAX_REPETITION_THRESHOLD then throw ''number of rules exceeds sane defaults''
         else
           let rule = (if min_times = 0 then take start rule else rule @ concat (replicate (min_times - 1) prev_rule));
               n_opt = (if no_max then 1 else u64_sub max_times min_times);
               (last_rec_rule_id, ps) = opt_rules n_opt 0 no_max rule_name prev_rule 0 (sq_parser st);
               rule = (if n_opt > 0 then rule @ [elem GR_RULE_REF last_rec_rule_id] else rule)
           in if n_rules \<ge> 1 then ret (st\<lparr>sq_rule := rule, sq_n_prev_rules := n_rules, sq_parser := ps\<rparr>)
              else Some (Inl Assert_failed))"

section \<open>Items\<close>

lemma rbind_cong [fundef_cong]: "m = m' \<Longrightarrow> (\<And>x. m' = ret x \<Longrightarrow> f x = g x) \<Longrightarrow> rbind m f = rbind m' g"
  by (auto simp: rbind_def ret_def split: option.splits sum.splits)

lemma hex_digits_length: "hex_digits n v pos = (v', k, pos') \<Longrightarrow> length pos' \<le> length pos"
  by (induction n v pos rule: hex_digits.induct) (auto split: option.splits)

lemma parse_hex_length: "parse_hex src n = ret (v, pos) \<Longrightarrow> length pos \<le> length src"
  using hex_digits_length by (fastforce simp: parse_hex_def throw_def ret_def split: prod.splits if_splits)

lemma decode_utf8_length: "decode_utf8 (b # bs) = (v, bs') \<Longrightarrow> length bs' < length (b # bs)"
  using cont_bytes_length by (fastforce simp: decode_utf8_def Let_def split: prod.splits)

lemma parse_char_shorter: "parse_char src = ret (v, pos) \<Longrightarrow> length pos < length src"
proof (cases src)
  case (Cons c cs)
  assume p: "parse_char src = ret (v, pos)"
  show ?thesis
  proof (cases "c = CHR 0x5C")
    case True
    then obtain e r where cs: "cs = e # r" using p Cons by (cases cs) (auto simp: parse_char_def throw_def ret_def)
    have "length pos \<le> length r"
      using p Cons True cs parse_hex_length[of r _ v pos]
      by (auto simp: parse_char_def throw_def ret_def split: if_splits)
    then show ?thesis using Cons cs by simp
  next
    case False
    obtain w bs' where d: "decode_utf8 (map of_char src) = (w, bs')" by force
    then have "length bs' < length src" using decode_utf8_length[of "of_char c" "map of_char cs"] Cons by simp
    moreover have "pos = drop (length src - length bs') src"
      using p Cons False d by (simp add: parse_char_def ret_def)
    ultimately show ?thesis using Cons by simp
  qed
qed (simp add: parse_char_def throw_def ret_def)

function parse_literal :: "string \<Rightarrow> grule \<Rightarrow> (string \<times> grule) res" where
  "parse_literal pos rule =
     (if pos = [] then throw ''unexpected end of input''
      else if at_chr pos CHR 0x22 then ret (pos, rule)
      else rbind (parse_char pos) (\<lambda>(c, pos). parse_literal pos (rule @ [elem GR_CHAR c])))"
  by pat_completeness auto
termination
  by (relation "measure (\<lambda>(pos, _). length pos)") (auto intro: parse_char_shorter)

function parse_class :: "llama_gretype \<Rightarrow> nat \<Rightarrow> string \<Rightarrow> grule \<Rightarrow> (string \<times> grule) res" where
  "parse_class start_type last_sym_start pos rule =
     (if pos = [] then throw ''unexpected end of input''
      else if at_chr pos CHR '']'' then ret (pos, rule)
      else rbind (parse_char pos) (\<lambda>(c, pos).
        let rule = rule @ [elem (if last_sym_start < length rule then GR_CHAR_ALT else start_type) c] in
        if at_chr pos CHR ''-'' \<and> \<not> at_chr (tl pos) CHR '']'' then
          if tl pos = [] then throw ''unexpected end of input''
          else rbind (parse_char (tl pos)) (\<lambda>(c, pos).
            parse_class start_type last_sym_start pos (rule @ [elem GR_CHAR_RNG_UPPER c]))
        else parse_class start_type last_sym_start pos rule))"
  by pat_completeness auto
termination
proof (relation "measure (\<lambda>(_, _, pos, _). length pos)", goal_cases)
  case (2 t l pos rule x c p1 rule' y c' p2)
  then have "length p2 < length (tl p1)" "length p1 < length pos" using parse_char_shorter by metis+
  then show ?case by simp
qed (use parse_char_shorter in auto)

declare parse_literal.simps [simp del] parse_class.simps [simp del]

text \<open>The bounds in braces: the position behind them, the minimum and the maximum.\<close>

definition parse_number :: "bool \<Rightarrow> string \<Rightarrow> (nat \<times> string) res" where
  "parse_number is_nested pos =
     rbind (parse_int pos) (\<lambda>int_end.
     rbind (stoull (until pos int_end)) (\<lambda>n. ret (n, parse_space is_nested int_end)))"

definition parse_max :: "bool \<Rightarrow> string \<Rightarrow> nat \<Rightarrow> (nat \<times> string) res" where
  "parse_max is_nested pos min_times =
     (if at_chr pos CHR ''}'' then ret (min_times, parse_space is_nested (tl pos))
      else if at_chr pos CHR '','' then
        let pos = parse_space is_nested (tl pos) in
        rbind (if pos \<noteq> [] \<and> is_digit_char (hd pos) then parse_number is_nested pos else ret (UINT64_MAX, pos)) (\<lambda>(max_times, pos).
          if \<not> at_chr pos CHR ''}'' then throw ''expecting }'' else ret (max_times, parse_space is_nested (tl pos)))
      else throw ''expecting ,'')"

definition parse_braces :: "bool \<Rightarrow> string \<Rightarrow> (string \<times> nat \<times> nat) res" where
  "parse_braces is_nested pos =
     (if \<not> (pos \<noteq> [] \<and> is_digit_char (hd pos)) then throw ''expecting an int''
      else
        rbind (parse_number is_nested pos) (\<lambda>(min_times, pos).
        rbind (parse_max is_nested pos min_times) (\<lambda>(max_times, pos).
          if min_times > MAX_REPETITION_THRESHOLD then throw ''number of repetitions exceeds sane defaults''
          else if max_times \<noteq> UINT64_MAX \<and> max_times > MAX_REPETITION_THRESHOLD then ret (pos, min_times, UINT64_MAX)
          else ret (pos, min_times, max_times))))"

text \<open>A new symbol: the elements are appended and become the item a repetition applies to.\<close>

definition push_sym :: "bool \<Rightarrow> string \<Rightarrow> grule \<Rightarrow> seq_state \<Rightarrow> seq_state" where
  "push_sym is_nested pos es st =
     st\<lparr>sq_pos := parse_space is_nested pos, sq_rule := sq_rule st @ es,
        sq_last_sym_start := length (sq_rule st), sq_n_prev_rules := 1\<rparr>"

definition literal_item :: "bool \<Rightarrow> seq_state \<Rightarrow> seq_state res" where
  "literal_item is_nested st =
     rbind (parse_literal (tl (sq_pos st)) (sq_rule st)) (\<lambda>(pos, rule).
       ret (push_sym is_nested (tl pos) (drop (length (sq_rule st)) rule) st))"

definition class_item :: "bool \<Rightarrow> seq_state \<Rightarrow> seq_state res" where
  "class_item is_nested st =
     (let negated = at_chr (tl (sq_pos st)) CHR ''^'';
          pos = (if negated then tl (tl (sq_pos st)) else tl (sq_pos st))
      in rbind (parse_class (if negated then GR_CHAR_NOT else GR_CHAR) (length (sq_rule st)) pos (sq_rule st)) (\<lambda>(pos, rule).
           ret (push_sym is_nested (tl pos) (drop (length (sq_rule st)) rule) st)))"

definition token_item :: "vocab \<Rightarrow> bool \<Rightarrow> seq_state \<Rightarrow> seq_state res" where
  "token_item vocab is_nested st =
     (let inverse = at_chr (sq_pos st) CHR ''!'';
          pos = (if inverse then tl (sq_pos st) else sq_pos st)
      in rbind (parse_token vocab pos) (\<lambda>(token, token_end).
           ret (push_sym is_nested token_end [elem (if inverse then GR_TOKEN_NOT else GR_TOKEN) token] st)))"

definition ref_item :: "bool \<Rightarrow> seq_state \<Rightarrow> seq_state res" where
  "ref_item is_nested st =
     rbind (parse_name (sq_pos st)) (\<lambda>name_end.
       let (ref_rule_id, ps) = get_symbol_id (sq_parser st) (until (sq_pos st) name_end)
       in ret (push_sym is_nested name_end [elem GR_RULE_REF ref_rule_id] (st\<lparr>sq_parser := ps\<rparr>)))"

definition repeat_item :: "bool \<Rightarrow> string \<Rightarrow> nat \<Rightarrow> nat \<Rightarrow> seq_state \<Rightarrow> seq_state res" where
  "repeat_item is_nested rule_name min_times max_times st =
     handle_repetitions rule_name min_times max_times (st\<lparr>sq_pos := parse_space is_nested (tl (sq_pos st))\<rparr>)"

definition braces_item :: "bool \<Rightarrow> string \<Rightarrow> seq_state \<Rightarrow> seq_state res" where
  "braces_item is_nested rule_name st =
     rbind (parse_braces is_nested (parse_space is_nested (tl (sq_pos st)))) (\<lambda>(pos, min_times, max_times).
       handle_repetitions rule_name min_times max_times (st\<lparr>sq_pos := pos\<rparr>))"

text \<open>One iteration of \<open>parse_sequence\<close>, groups apart; \<open>None\<close>: the sequence ends here.\<close>

definition parse_item :: "vocab \<Rightarrow> string \<Rightarrow> bool \<Rightarrow> seq_state \<Rightarrow> seq_state res option" where
  "parse_item vocab rule_name is_nested st =
     (let pos = sq_pos st in
      if at_chr pos CHR 0x22 then Some (literal_item is_nested st)
      else if at_chr pos CHR ''['' then Some (class_item is_nested st)
      else if at_chr pos CHR ''<'' \<or> at_chr pos CHR ''!'' then Some (token_item vocab is_nested st)
      else if pos \<noteq> [] \<and> is_word_char (hd pos) then Some (ref_item is_nested st)
      else if at_chr pos CHR ''.'' then Some (ret (push_sym is_nested (tl pos) [elem GR_CHAR_ANY 0] st))
      else if at_chr pos CHR ''*'' then Some (repeat_item is_nested rule_name 0 UINT64_MAX st)
      else if at_chr pos CHR ''+'' then Some (repeat_item is_nested rule_name 1 UINT64_MAX st)
      else if at_chr pos CHR ''?'' then Some (repeat_item is_nested rule_name 0 1 st)
      else if at_chr pos CHR ''{'' then Some (braces_item is_nested rule_name st)
      else None)"

section \<open>Sequences, alternates, rules\<close>

text \<open>
  The end of a group: the reference to its rule becomes the last symbol, and counts as many rules as the
  group has generated.
\<close>

definition close_group :: "bool \<Rightarrow> nat \<Rightarrow> nat \<Rightarrow> string \<Rightarrow> llama_grammar_parser \<Rightarrow> seq_state \<Rightarrow> seq_state res" where
  "close_group is_nested n_rules_before sub_rule_id pos ps st =
     (if \<not> at_chr pos CHR '')'' then throw ''expecting )''
      else ret ((push_sym is_nested (tl pos) [elem GR_RULE_REF sub_rule_id] st)
        \<lparr>sq_n_prev_rules := max 1 (u32_sub (u32 (length (gp_symbol_ids ps))) n_rules_before), sq_parser := ps\<rparr>))"

text \<open>\<open>parse_sequence\<close> runs the loop from a fresh state; \<open>alternates_loop\<close> is the loop of \<open>parse_alternates\<close>.\<close>

definition seq_start :: "string \<Rightarrow> grule \<Rightarrow> llama_grammar_parser \<Rightarrow> seq_state" where
  "seq_start src rule ps =
     \<lparr>sq_pos = src, sq_rule = rule, sq_last_sym_start = length rule, sq_n_prev_rules = 1, sq_parser = ps\<rparr>"

function parse_sequence :: "nat \<Rightarrow> vocab \<Rightarrow> string \<Rightarrow> bool \<Rightarrow> seq_state \<Rightarrow> seq_state res"
  and parse_alternates :: "nat \<Rightarrow> vocab \<Rightarrow> string \<Rightarrow> nat \<Rightarrow> bool \<Rightarrow> string \<Rightarrow> llama_grammar_parser \<Rightarrow>
        (string \<times> llama_grammar_parser) res"
  and alternates_loop :: "nat \<Rightarrow> vocab \<Rightarrow> string \<Rightarrow> bool \<Rightarrow> seq_state \<Rightarrow> seq_state res" where
  "parse_sequence fuel vocab rule_name is_nested st =
     (if sq_pos st = [] then ret st
      else case fuel of 0 \<Rightarrow> None
      | Suc fuel' \<Rightarrow>
          if at_chr (sq_pos st) CHR ''('' then
            let n_rules_before = u32 (length (gp_symbol_ids (sq_parser st)));
                (sub_rule_id, ps) = generate_symbol_id (sq_parser st) rule_name
            in rbind (parse_alternates fuel' vocab rule_name sub_rule_id True (parse_space True (tl (sq_pos st))) ps) (\<lambda>(pos, ps).
               rbind (close_group is_nested n_rules_before sub_rule_id pos ps st)
                 (parse_sequence fuel' vocab rule_name is_nested))
          else case parse_item vocab rule_name is_nested st of
            None \<Rightarrow> ret st
          | Some r \<Rightarrow> rbind r (parse_sequence fuel' vocab rule_name is_nested))"
| "parse_alternates fuel vocab rule_name rule_id is_nested src ps =
     rbind (parse_sequence fuel vocab rule_name is_nested (seq_start src [] ps)) (\<lambda>st.
     rbind (alternates_loop fuel vocab rule_name is_nested st) (\<lambda>st.
       ret (sq_pos st, add_rule (sq_parser st) rule_id (sq_rule st @ [elem GR_END 0]))))"
| "alternates_loop fuel vocab rule_name is_nested st =
     (if \<not> at_chr (sq_pos st) CHR ''|'' then ret st
      else case fuel of 0 \<Rightarrow> None
      | Suc fuel' \<Rightarrow>
          rbind (parse_sequence fuel' vocab rule_name is_nested
              (seq_start (parse_space True (tl (sq_pos st))) (sq_rule st @ [elem GR_ALT 0]) (sq_parser st)))
            (alternates_loop fuel' vocab rule_name is_nested))"
  by pat_completeness auto
termination
  by (relation "measure (\<lambda>x. case x of Inl (fuel, _) \<Rightarrow> 2 * fuel | Inr (Inl (fuel, _)) \<Rightarrow> 2 * fuel + 1 | Inr (Inr (fuel, _)) \<Rightarrow> 2 * fuel)")
    auto

declare parse_sequence.simps [simp del] parse_alternates.simps [simp del] alternates_loop.simps [simp del]

definition end_of_rule :: "string \<Rightarrow> string res" where
  "end_of_rule pos =
     (if at_chr pos CHR 0x0D then ret (if at_chr (tl pos) CHR 0x0A then tl (tl pos) else tl pos)
      else if at_chr pos CHR 0x0A then ret (tl pos)
      else if pos \<noteq> [] then throw ''expecting newline or end''
      else ret pos)"

definition parse_rule :: "vocab \<Rightarrow> string \<Rightarrow> llama_grammar_parser \<Rightarrow> (string \<times> llama_grammar_parser) res" where
  "parse_rule vocab src ps =
     rbind (parse_name src) (\<lambda>name_end.
       let pos = parse_space False name_end;
           name = until src name_end;
           (rule_id, ps) = get_symbol_id ps name
       in if take 3 pos \<noteq> ''::='' then throw ''expecting ::=''
          else
            let pos = parse_space True (drop 3 pos) in
            rbind (parse_alternates (length pos) vocab name rule_id False pos ps) (\<lambda>(pos, ps).
            rbind (end_of_rule pos) (\<lambda>pos. ret (parse_space True pos, ps))))"

fun parse_rules :: "nat \<Rightarrow> vocab \<Rightarrow> string \<Rightarrow> llama_grammar_parser \<Rightarrow> llama_grammar_parser res" where
  "parse_rules fuel vocab pos ps =
     (if pos = [] then ret ps
      else case fuel of 0 \<Rightarrow> None
      | Suc fuel' \<Rightarrow> rbind (parse_rule vocab pos ps) (\<lambda>(pos, ps). parse_rules fuel' vocab pos ps))"

declare parse_rules.simps [simp del]

text \<open>The validation: an undefined reference is reported under the name that has its number.\<close>

definition undefined_ref :: "llama_grammar_parser \<Rightarrow> llama_grammar_element \<Rightarrow> bool" where
  "undefined_ref ps e \<longleftrightarrow> ge_type e = GR_RULE_REF \<and>
     (length (gp_rules ps) \<le> ge_value e \<or> gp_rules ps ! ge_value e = []) \<and>
     list_ex (\<lambda>kv. snd kv = ge_value e) (gp_symbol_ids ps)"

definition rules_valid :: "llama_grammar_parser \<Rightarrow> bool" where
  "rules_valid ps \<longleftrightarrow> list_all (\<lambda>rule. rule \<noteq> [] \<and> list_all (\<lambda>e. \<not> undefined_ref ps e) rule) (gp_rules ps)"

text \<open>
  \<open>Some ps\<close>: the parser returns true; \<open>None\<close>: an exception was caught, the rules are cleared and it
  returns false.
\<close>

definition parse_text :: "vocab \<Rightarrow> string \<Rightarrow> llama_grammar_parser res" where
  "parse_text vocab src =
     (let pos = parse_space True (takeWhile (\<lambda>c. c \<noteq> CHR 0x00) src) in
      rbind (parse_rules (length pos) vocab pos \<lparr>gp_symbol_ids = [], gp_rules = []\<rparr>) (\<lambda>ps.
        if rules_valid ps then ret ps else throw ''Undefined rule''))"

definition parse :: "vocab \<Rightarrow> string \<Rightarrow> llama_grammar_parser option res" where
  "parse vocab src =
     (case parse_text vocab src of
        Some (Inl (Exn msg)) \<Rightarrow> ret None
      | Some (Inl e) \<Rightarrow> Some (Inl e)
      | Some (Inr ps) \<Rightarrow> ret (Some ps)
      | None \<Rightarrow> None)"

end
