(* ===== verification/GrammarParseOk.thy ===== *)
theory GrammarParseOk
  imports GrammarParse
begin

text \<open>
  The parser of grammar texts returns on every text, with an exception or with rules, never by a failed
  assertion, and the rules it returns have the shape the matcher relies on (\<open>grammar_wf\<close>). The proofs
  use the rules for \<open>outcome\<close>, a weakest precondition for results that may be exceptions.
\<close>

section \<open>Outcomes\<close>

definition outcome :: "'a res \<Rightarrow> ('a \<Rightarrow> bool) \<Rightarrow> bool" where
  "outcome r Q \<longleftrightarrow> (\<exists>msg. r = Some (Inl (Exn msg))) \<or> (\<exists>x. r = ret x \<and> Q x)"

named_theorems outcome_rules \<open>outcomes of the operations of the parser\<close>

lemma outcome_simps [simp]: "outcome (ret x) Q = Q x" "outcome (throw msg) Q"
  by (auto simp: outcome_def ret_def throw_def)

lemma outcome_rbind: "outcome m Q \<Longrightarrow> (\<And>x. Q x \<Longrightarrow> outcome (f x) R) \<Longrightarrow> outcome (rbind m f) R"
  unfolding outcome_def rbind_def ret_def by fastforce

lemma outcome_mono: "outcome m Q \<Longrightarrow> (\<And>x. Q x \<Longrightarrow> R x) \<Longrightarrow> outcome m R"
  by (auto simp: outcome_def)

section \<open>Positions move forward\<close>

lemma parse_space_length: "length (parse_space nl pos) \<le> length pos"
proof (induction nl pos rule: parse_space.induct)
  case (2 nl c cs)
  have d: "length (dropWhile (\<lambda>c. c \<noteq> CHR 0x0D \<and> c \<noteq> CHR 0x0A) cs) \<le> length cs" by (rule length_dropWhile_le)
  show ?case using order_trans[OF 2(1) d] 2(2) by (simp add: le_SucI)
qed simp

lemma at_chr_length: "at_chr pos c \<Longrightarrow> length (tl pos) < length pos"
  by (auto simp: at_chr_def)

lemma parse_char_outcome: "outcome (parse_char src) (\<lambda>(v, pos). length pos < length src)"
proof -
  have "outcome (parse_char src) (\<lambda>_. True)"
    by (auto simp: parse_char_def parse_hex_def split: list.splits prod.splits)
  then show ?thesis using parse_char_shorter by (auto simp: outcome_def)
qed

lemma dropWhile_outcome:
  "length (dropWhile P src) \<noteq> length src \<Longrightarrow> length (dropWhile P src) < length src"
  using length_dropWhile_le[of P src] by simp

lemma until_dropWhile: "until src (dropWhile P src) = takeWhile P src"
proof -
  have "length (takeWhile P src) + length (dropWhile P src) = length src"
    by (metis length_append takeWhile_dropWhile_id)
  then have "length src - length (dropWhile P src) = length (takeWhile P src)" by simp
  then show ?thesis by (simp add: until_def flip: takeWhile_eq_take)
qed

lemma parse_name_outcome: "outcome (parse_name src) (\<lambda>pos. length pos < length src \<and> until src pos = takeWhile is_word_char src)"
  by (simp add: parse_name_def Let_def dropWhile_outcome until_dropWhile)

lemma parse_int_outcome: "outcome (parse_int src) (\<lambda>pos. length pos < length src)"
  by (simp add: parse_int_def Let_def dropWhile_outcome)

lemma stoull_outcome: "outcome (stoull s) (\<lambda>n. n < 2 ^ 64)"
  by (simp add: stoull_def)

lemma parse_number_outcome: "outcome (parse_number nested pos) (\<lambda>(n, pos'). length pos' < length pos \<and> n < 2 ^ 64)"
  unfolding parse_number_def
  by (rule outcome_rbind[OF parse_int_outcome], rule outcome_rbind[OF stoull_outcome])
     (auto intro: le_less_trans[OF parse_space_length])

lemma parse_space_less: "length pos < n \<Longrightarrow> length (parse_space nl pos) < n"
  using parse_space_length[of nl pos] by simp

lemma at_chr_space_less: "at_chr pos c \<Longrightarrow> length (parse_space nl (tl pos)) < length pos"
  by (intro parse_space_less at_chr_length)

lemma parse_max_outcome:
  assumes "m < 2 ^ 64"
  shows "outcome (parse_max nested pos m) (\<lambda>(n, pos'). length pos' < length pos \<and> n < 2 ^ 64)"
proof (cases "at_chr pos CHR '',''")
  case True
  define p where "p = parse_space nested (tl pos)"
  have p: "length p < length pos" using at_chr_space_less[OF True] by (simp add: p_def)
  have "outcome (if p \<noteq> [] \<and> is_digit_char (hd p) then parse_number nested p else ret (UINT64_MAX, p))
      (\<lambda>(n, q). length q < length pos \<and> n < 2 ^ 64)"
    using outcome_mono[OF parse_number_outcome] p by (auto simp: UINT64_MAX_def elim!: outcome_mono)
  then have "outcome (rbind (if p \<noteq> [] \<and> is_digit_char (hd p) then parse_number nested p else ret (UINT64_MAX, p))
       (\<lambda>(n, q). if \<not> at_chr q CHR ''}'' then throw ''expecting }'' else ret (n, parse_space nested (tl q))))
     (\<lambda>(n, q). length q < length pos \<and> n < 2 ^ 64)"
    by (rule outcome_rbind) (auto intro: less_trans[OF at_chr_space_less])
  moreover have "\<not> at_chr pos CHR ''}''" using True by (simp add: at_chr_def)
  ultimately show ?thesis
    unfolding parse_max_def Let_def p_def[symmetric] by (simp only: True if_True if_False)
qed (use assms in \<open>auto simp: parse_max_def at_chr_space_less\<close>)

lemma parse_braces_outcome:
  "outcome (parse_braces nested pos) (\<lambda>(pos', m, n). length pos' < length pos \<and> m \<le> 2000 \<and> (n = UINT64_MAX \<or> n \<le> 2000))"
proof -
  have "outcome (rbind (parse_number nested pos) (\<lambda>(m, q). rbind (parse_max nested q m) (\<lambda>(n, r).
      if m > MAX_REPETITION_THRESHOLD then throw ''number of repetitions exceeds sane defaults''
      else if n \<noteq> UINT64_MAX \<and> n > MAX_REPETITION_THRESHOLD then ret (r, m, UINT64_MAX) else ret (r, m, n))))
    (\<lambda>(pos', m, n). length pos' < length pos \<and> m \<le> 2000 \<and> (n = UINT64_MAX \<or> n \<le> 2000))"
    by (rule outcome_rbind[OF parse_number_outcome], clarify, rule outcome_rbind[OF parse_max_outcome])
      (auto simp: MAX_REPETITION_THRESHOLD_def)
  then show ?thesis by (simp add: parse_braces_def)
qed

lemma parse_token_outcome: "outcome (parse_token vocab src) (\<lambda>(v, pos). length pos < length src)"
proof -
  have tl_less: "length (tl xs) \<le> length xs" for xs :: string by simp
  have "outcome (rbind (parse_int (tl (tl src))) (\<lambda>int_end. rbind (stoull (until (tl (tl src)) int_end)) (\<lambda>token_id.
      if \<not> at_chr int_end CHR '']'' then throw ''expecting ]''
      else if \<not> at_chr (tl int_end) CHR ''>'' then throw ''expecting >''
      else ret (u32 token_id, tl (tl int_end))))) (\<lambda>(v, pos). length pos < length src)"
    by (rule outcome_rbind[OF parse_int_outcome], rule outcome_rbind[OF stoull_outcome]) (auto simp: at_chr_def)
  moreover have "length (tl (dropWhile P (tl src))) < length src" if "at_chr src c" for P c
    using at_chr_length[OF that] length_dropWhile_le[of P "tl src"] by simp
  ultimately show ?thesis by (auto simp: parse_token_def Let_def split: option.splits prod.splits)
qed

section \<open>The shape of a rule\<close>

text \<open>A rule without its end marker; \<open>prev\<close> is the type of the element before it.\<close>

fun body_ok :: "llama_gretype \<Rightarrow> grule \<Rightarrow> bool" where
  "body_ok prev [] = True"
| "body_ok prev (e # es) =
     (ge_type e \<noteq> GR_END \<and>
      (ge_type e = GR_CHAR_RNG_UPPER \<longrightarrow> prev \<in> {GR_CHAR, GR_CHAR_NOT, GR_CHAR_ALT}) \<and>
      (ge_type e = GR_CHAR_ALT \<longrightarrow> prev \<in> {GR_CHAR, GR_CHAR_NOT, GR_CHAR_ALT, GR_CHAR_RNG_UPPER}) \<and>
      body_ok (ge_type e) es)"

definition refs :: "grule \<Rightarrow> nat set" where
  "refs rule = ge_value ` {e \<in> set rule. ge_type e = GR_RULE_REF}"

lemma elem_sel [simp]: "ge_type (elem t v) = t" "ge_value (elem t v) = v"
  by (simp_all add: elem_def)

lemma refs_simps [simp]: "refs [] = {}" "refs (xs @ ys) = refs xs \<union> refs ys"
    "refs (elem t v # xs) = (if t = GR_RULE_REF then insert v (refs xs) else refs xs)"
proof -
  have "{e \<in> set (elem t v # xs). ge_type e = GR_RULE_REF} =
      (if t = GR_RULE_REF then insert (elem t v) {e \<in> set xs. ge_type e = GR_RULE_REF} else {e \<in> set xs. ge_type e = GR_RULE_REF})"
    by (auto simp: elem_def)
  then show "refs (elem t v # xs) = (if t = GR_RULE_REF then insert v (refs xs) else refs xs)"
    by (simp add: refs_def elem_def)
qed (auto simp: refs_def)

lemma refs_concat_replicate: "refs (concat (replicate n xs)) \<subseteq> refs xs"
  by (induction n) auto

lemma refs_take_drop: "refs (take n xs) \<subseteq> refs xs" "refs (drop n xs) \<subseteq> refs xs"
  using set_take_subset[of n xs] set_drop_subset[of n xs] by (auto simp: refs_def)

lemma body_ok_append: "body_ok prev (xs @ ys) \<longleftrightarrow> body_ok prev xs \<and> body_ok (if xs = [] then prev else ge_type (last xs)) ys"
  by (induction xs arbitrary: prev) auto

lemma body_ok_any: "body_ok GR_ALT es \<Longrightarrow> body_ok prev es"
  by (cases es) auto

lemma body_ok_join: "body_ok GR_ALT xs \<Longrightarrow> body_ok GR_ALT ys \<Longrightarrow> body_ok GR_ALT (xs @ ys)"
  by (auto simp: body_ok_append intro: body_ok_any)

lemma body_ok_replicate: "body_ok GR_ALT xs \<Longrightarrow> body_ok GR_ALT (concat (replicate n xs))"
  by (induction n) (auto intro: body_ok_join)

lemma body_ok_take: "body_ok prev xs \<Longrightarrow> body_ok prev (take n xs)"
  using body_ok_append[of prev "take n xs" "drop n xs"] by simp

lemma body_ok_elem [simp]: "body_ok prev (elem t v # es) \<longleftrightarrow> t \<noteq> GR_END \<and>
    (t = GR_CHAR_RNG_UPPER \<longrightarrow> prev \<in> {GR_CHAR, GR_CHAR_NOT, GR_CHAR_ALT}) \<and>
    (t = GR_CHAR_ALT \<longrightarrow> prev \<in> {GR_CHAR, GR_CHAR_NOT, GR_CHAR_ALT, GR_CHAR_RNG_UPPER}) \<and> body_ok t es"
  by (simp add: elem_def)

lemma elems_ok_body: "body_ok prev es \<Longrightarrow> \<forall>v \<in> refs es. v < n \<Longrightarrow> elems_ok n prev (es @ [elem GR_END 0])"
proof (induction es arbitrary: prev)
  case (Cons e es)
  have "\<forall>v \<in> refs es. v < n" "ge_type e = GR_RULE_REF \<Longrightarrow> ge_value e < n" using Cons.prems(2) by (auto simp: refs_def)
  then show ?case using Cons by (cases "ge_type e") auto
qed (simp add: elem_def)

section \<open>Symbols\<close>

lemma chr_code_char_of: "n < 256 \<Longrightarrow> chr_code (char_of n) = n"
  by (simp add: chr_code_def)

definition ids :: "llama_grammar_parser \<Rightarrow> nat set" where
  "ids ps = snd ` set (gp_symbol_ids ps)"

definition sym_ok :: "llama_grammar_parser \<Rightarrow> bool" where
  "sym_ok ps \<longleftrightarrow> (\<forall>(k, v) \<in> set (gp_symbol_ids ps). CHR ''_'' \<in> set k \<longrightarrow>
     (\<exists>base. CHR ''_'' \<notin> set base \<and> k = base @ CHR ''_'' # to_string v))"

lemma get_symbol_id_props:
  assumes "get_symbol_id ps name = (i, ps')"
  shows "i \<in> ids ps'" "ids ps \<subseteq> ids ps'" "gp_rules ps' = gp_rules ps"
    "sym_ok ps \<Longrightarrow> CHR ''_'' \<notin> set name \<Longrightarrow> sym_ok ps'"
  using assms by (auto simp: get_symbol_id_def Let_def ids_def sym_ok_def split: option.splits dest: map_of_SomeD
      intro: rev_image_eqI)

lemma underscore_split: "CHR ''_'' \<notin> set a \<Longrightarrow> CHR ''_'' \<notin> set b \<Longrightarrow> a @ CHR ''_'' # s = b @ CHR ''_'' # t \<Longrightarrow> a = b \<and> s = t"
proof (induction a arbitrary: b)
  case Nil
  then show ?case by (cases b) auto
next
  case (Cons x a)
  then show ?case by (cases b) auto
qed

lemma update_same: "map_of al k = Some v \<Longrightarrow> AList.update k v al = al"
  by (induction al) (auto split: if_splits)

lemma update_new: "map_of al k = None \<Longrightarrow> AList.update k v al = al @ [(k, v)]"
  by (induction al) (auto split: if_splits)

text \<open>A generated name is new, or was generated before with the same number.\<close>

lemma generate_symbol_id_cases:
  assumes "generate_symbol_id ps name = (i, ps')" "sym_ok ps" "CHR ''_'' \<notin> set name"
  defines "k \<equiv> name @ CHR ''_'' # to_string i"
  shows "ps' = ps\<lparr>gp_symbol_ids := gp_symbol_ids ps'\<rparr>" "i = u32 (length (gp_symbol_ids ps))"
    "gp_symbol_ids ps' = gp_symbol_ids ps \<and> (k, i) \<in> set (gp_symbol_ids ps) \<or> gp_symbol_ids ps' = gp_symbol_ids ps @ [(k, i)]"
proof -
  have i: "ps' = ps\<lparr>gp_symbol_ids := AList.update k i (gp_symbol_ids ps)\<rparr>"
    using assms(1) by (auto simp: generate_symbol_id_def Let_def k_def)
  then show "ps' = ps\<lparr>gp_symbol_ids := gp_symbol_ids ps'\<rparr>" by simp
  show "i = u32 (length (gp_symbol_ids ps))" using assms(1) by (auto simp: generate_symbol_id_def Let_def)
  have same: "v = i" if "map_of (gp_symbol_ids ps) k = Some v" for v
  proof -
    have "(k, v) \<in> set (gp_symbol_ids ps)" using that by (rule map_of_SomeD)
    moreover have "CHR ''_'' \<in> set k" by (simp add: k_def)
    ultimately obtain base where "CHR ''_'' \<notin> set base" "k = base @ CHR ''_'' # to_string v"
      using assms(2) unfolding sym_ok_def by blast
    then have "to_string i = to_string v" using underscore_split assms(3) unfolding k_def by blast
    then show ?thesis by (metis digits_value_to_string)
  qed
  show "gp_symbol_ids ps' = gp_symbol_ids ps \<and> (k, i) \<in> set (gp_symbol_ids ps) \<or> gp_symbol_ids ps' = gp_symbol_ids ps @ [(k, i)]"
  proof (cases "map_of (gp_symbol_ids ps) k")
    case None
    then show ?thesis using i update_new[OF None] by simp
  next
    case (Some v)
    then show ?thesis using same[OF Some] i update_same[OF Some] map_of_SomeD[OF Some] by simp
  qed
qed

lemma generate_symbol_id_props:
  assumes "generate_symbol_id ps name = (i, ps')" "sym_ok ps" "CHR ''_'' \<notin> set name"
  shows "i \<in> ids ps'" "ids ps \<subseteq> ids ps'" "gp_rules ps' = gp_rules ps" "sym_ok ps'"
proof -
  note c = generate_symbol_id_cases[OF assms]
  show "gp_rules ps' = gp_rules ps" using c(1) by (metis llama_grammar_parser.select_convs(2) llama_grammar_parser.surjective llama_grammar_parser.update_convs(1))
  show "i \<in> ids ps'" "ids ps \<subseteq> ids ps'" "sym_ok ps'"
    using assms(2,3) c(3) by (auto simp: ids_def sym_ok_def intro: rev_image_eqI)
qed

section \<open>The invariant of the parser\<close>

definition rule_ok :: "nat set \<Rightarrow> grule \<Rightarrow> bool" where
  "rule_ok known rule \<longleftrightarrow> rule = [] \<or> (\<exists>es. rule = es @ [elem GR_END 0] \<and> body_ok GR_ALT es \<and> refs es \<subseteq> known)"

definition parser_ok :: "llama_grammar_parser \<Rightarrow> bool" where
  "parser_ok ps \<longleftrightarrow> sym_ok ps \<and> (\<forall>rule \<in> set (gp_rules ps). rule_ok (ids ps) rule)"

definition name_ok :: "string \<Rightarrow> bool" where
  "name_ok name \<longleftrightarrow> CHR ''_'' \<notin> set name"

definition seq_ok :: "seq_state \<Rightarrow> bool" where
  "seq_ok st \<longleftrightarrow> parser_ok (sq_parser st) \<and> body_ok GR_ALT (sq_rule st) \<and> body_ok GR_ALT (drop (sq_last_sym_start st) (sq_rule st)) \<and>
     sq_last_sym_start st \<le> length (sq_rule st) \<and> refs (sq_rule st) \<subseteq> ids (sq_parser st) \<and>
     1 \<le> sq_n_prev_rules st \<and> sq_n_prev_rules st \<le> 2 ^ 32"

lemma rule_ok_mono: "rule_ok A rule \<Longrightarrow> A \<subseteq> B \<Longrightarrow> rule_ok B rule"
  by (auto simp: rule_ok_def)

lemma get_symbol_id_ok:
  assumes "get_symbol_id ps name = (i, ps')" "parser_ok ps" "name_ok name"
  shows "parser_ok ps'" "i \<in> ids ps'" "ids ps \<subseteq> ids ps'"
  using get_symbol_id_props[OF assms(1)] assms(2,3) by (auto simp: parser_ok_def name_ok_def intro: rule_ok_mono)

lemma generate_symbol_id_ok:
  assumes "generate_symbol_id ps name = (i, ps')" "parser_ok ps" "name_ok name"
  shows "parser_ok ps'" "i \<in> ids ps'" "ids ps \<subseteq> ids ps'"
proof -
  have "sym_ok ps" "CHR ''_'' \<notin> set name" using assms(2,3) by (simp_all add: parser_ok_def name_ok_def)
  note p = generate_symbol_id_props[OF assms(1) this]
  show "parser_ok ps'" "i \<in> ids ps'" "ids ps \<subseteq> ids ps'"
    using p assms(2) by (auto simp: parser_ok_def intro: rule_ok_mono)
qed

lemma add_rule_ids [simp]: "ids (add_rule ps i rule) = ids ps" "gp_symbol_ids (add_rule ps i rule) = gp_symbol_ids ps"
    "sym_ok (add_rule ps i rule) = sym_ok ps"
  by (simp_all add: add_rule_def ids_def sym_ok_def Let_def)

lemma add_rule_set: "set (gp_rules (add_rule ps i rule)) \<subseteq> insert rule (insert [] (set (gp_rules ps)))"
proof -
  have "set ((gp_rules ps @ replicate k [])[i := rule]) \<subseteq> insert rule (insert [] (set (gp_rules ps)))" for k
    by (rule order_trans[OF set_update_subset_insert]) auto
  from this this[of 0] show ?thesis by (simp add: add_rule_def Let_def)
qed

lemma add_rule_ok:
  assumes "parser_ok ps" "body_ok GR_ALT es" "refs es \<subseteq> ids ps"
  shows "parser_ok (add_rule ps i (es @ [elem GR_END 0]))"
  using add_rule_set[of ps i "es @ [elem GR_END 0]"] assms by (auto simp: parser_ok_def rule_ok_def)

lemma opt_rules_ok:
  "opt_rules n i no_max name prev_rule last_id ps = (last_id', ps') \<Longrightarrow> parser_ok ps \<Longrightarrow> name_ok name \<Longrightarrow>
    body_ok GR_ALT prev_rule \<Longrightarrow> refs prev_rule \<subseteq> ids ps \<Longrightarrow> i = 0 \<or> last_id \<in> ids ps \<Longrightarrow>
    parser_ok ps' \<and> ids ps \<subseteq> ids ps' \<and> (if n = 0 then last_id' = last_id else last_id' \<in> ids ps')"
proof (induction n arbitrary: i last_id ps)
  case (Suc n)
  obtain r ps1 where g: "generate_symbol_id ps name = (r, ps1)" by force
  note gen = generate_symbol_id_ok[OF g Suc.prems(2,3)]
  define body where "body = prev_rule @ (if i > 0 \<or> no_max then [elem GR_RULE_REF (if no_max then r else last_id)] else []) @ [elem GR_ALT 0]"
  have "body_ok GR_ALT body" unfolding body_def using Suc.prems(4) by (intro body_ok_join) auto
  moreover have "refs body \<subseteq> ids ps1" using Suc.prems(5,6) gen by (auto simp: body_def)
  ultimately have "parser_ok (add_rule ps1 r (body @ [elem GR_END 0]))" using gen by (intro add_rule_ok)
  moreover have "opt_rules n (i + 1) no_max name prev_rule r (add_rule ps1 r (body @ [elem GR_END 0])) = (last_id', ps')"
    using Suc.prems(1) g by (simp add: body_def)
  ultimately have "parser_ok ps' \<and> ids ps1 \<subseteq> ids ps' \<and> (if n = 0 then last_id' = r else last_id' \<in> ids ps')"
    using Suc.IH[of "i + 1" r "add_rule ps1 r (body @ [elem GR_END 0])"] Suc.prems(3-5) gen by fastforce
  then show ?case using gen by (auto split: if_splits)
qed simp

lemma total_rules_bounds:
  assumes "m \<le> 2000" "n = UINT64_MAX \<or> n \<le> 2000"
  shows "1 \<le> total_rules m n" "total_rules m n \<le> 2000"
  using assms by (auto simp: total_rules_def)

definition repeat_base :: "nat \<Rightarrow> seq_state \<Rightarrow> grule" where
  "repeat_base m st = (if m = 0 then take (sq_last_sym_start st) (sq_rule st)
     else sq_rule st @ concat (replicate (m - 1) (drop (sq_last_sym_start st) (sq_rule st))))"

definition n_opt :: "nat \<Rightarrow> nat \<Rightarrow> nat" where
  "n_opt m n = (if n = UINT64_MAX then 1 else u64_sub n m)"

lemma handle_repetitions_ret:
  assumes "sq_last_sym_start st \<noteq> length (sq_rule st)"
    "\<not> u64 (sq_n_prev_rules st * total_rules m n) > MAX_REPETITION_THRESHOLD" "u64 (sq_n_prev_rules st * total_rules m n) \<ge> 1"
    "opt_rules (n_opt m n) 0 (n = UINT64_MAX) name (drop (sq_last_sym_start st) (sq_rule st)) 0 (sq_parser st) = (l, ps)"
  shows "handle_repetitions name m n st = ret (st\<lparr>sq_rule := repeat_base m st @ (if n_opt m n > 0 then [elem GR_RULE_REF l] else []),
      sq_n_prev_rules := u64 (sq_n_prev_rules st * total_rules m n), sq_parser := ps\<rparr>)"
  unfolding handle_repetitions_def Let_def n_opt_def[symmetric] repeat_base_def[symmetric] assms(4) case_prod_conv if_not_P[OF assms(1)]
    if_not_P[OF assms(2)] if_P[OF assms(3)]
  by simp

lemma handle_repetitions_ok:
  assumes st: "seq_ok st" and name: "name_ok name" and mn: "m \<le> 2000" "n = UINT64_MAX \<or> n \<le> 2000"
  shows "outcome (handle_repetitions name m n st) (\<lambda>st'. seq_ok st' \<and> ids (sq_parser st) \<subseteq> ids (sq_parser st') \<and> sq_pos st' = sq_pos st)"
proof (cases "sq_last_sym_start st = length (sq_rule st) \<or>
    MAX_REPETITION_THRESHOLD < u64 (sq_n_prev_rules st * total_rules m n)")
  case True
  then show ?thesis by (auto simp: handle_repetitions_def Let_def)
next
  case False
  define prev where "prev = drop (sq_last_sym_start st) (sq_rule st)"
  obtain l ps where o: "opt_rules (n_opt m n) 0 (n = UINT64_MAX) name prev 0 (sq_parser st) = (l, ps)" by force
  have prev: "body_ok GR_ALT prev" "refs prev \<subseteq> ids (sq_parser st)"
    using st refs_take_drop(2) by (fastforce simp: seq_ok_def prev_def)+
  then have ps: "parser_ok ps" "ids (sq_parser st) \<subseteq> ids ps" "n_opt m n > 0 \<Longrightarrow> l \<in> ids ps"
    using opt_rules_ok[OF o _ name] st by (auto simp: seq_ok_def)
  define rule where "rule = repeat_base m st @ (if n_opt m n > 0 then [elem GR_RULE_REF l] else [])"
  define n_rules where "n_rules = u64 (sq_n_prev_rules st * total_rules m n)"
  have n_rules: "1 \<le> n_rules" "n_rules \<le> 2 ^ 32"
  proof -
    have "sq_n_prev_rules st * total_rules m n \<le> 2 ^ 32 * 2000"
      using st total_rules_bounds[OF mn] by (intro mult_le_mono) (auto simp: seq_ok_def)
    then have "n_rules = sq_n_prev_rules st * total_rules m n" by (simp add: n_rules_def)
    then show "1 \<le> n_rules" using st total_rules_bounds[OF mn] by (simp add: seq_ok_def)
    show "n_rules \<le> 2 ^ 32" using False by (simp add: n_rules_def MAX_REPETITION_THRESHOLD_def)
  qed
  have le: "sq_last_sym_start st \<le> length (sq_rule st)" and body: "body_ok GR_ALT (sq_rule st)" "refs (sq_rule st) \<subseteq> ids (sq_parser st)"
    using st by (auto simp: seq_ok_def)
  have base: "body_ok GR_ALT (repeat_base m st)" "body_ok GR_ALT (drop (sq_last_sym_start st) (repeat_base m st))"
      "sq_last_sym_start st \<le> length (repeat_base m st)" "refs (repeat_base m st) \<subseteq> ids ps"
    using body le prev refs_take_drop(1) refs_concat_replicate ps(2)
    by (auto simp: repeat_base_def simp flip: prev_def intro!: body_ok_join body_ok_take body_ok_replicate) blast+
  have "body_ok GR_ALT rule" "body_ok GR_ALT (drop (sq_last_sym_start st) rule)" "sq_last_sym_start st \<le> length rule" "refs rule \<subseteq> ids ps"
    using base ps(3) by (auto simp: rule_def intro!: body_ok_join)
  then have "seq_ok (st\<lparr>sq_rule := rule, sq_n_prev_rules := n_rules, sq_parser := ps\<rparr>)"
    using ps(1) n_rules by (simp add: seq_ok_def)
  moreover have "handle_repetitions name m n st = ret (st\<lparr>sq_rule := rule, sq_n_prev_rules := n_rules, sq_parser := ps\<rparr>)"
    unfolding rule_def n_rules_def using False n_rules o
    by (intro handle_repetitions_ret) (simp_all add: n_rules_def prev_def)
  ultimately show ?thesis using ps(2) by simp
qed

section \<open>Items\<close>

definition seq_next :: "seq_state \<Rightarrow> seq_state \<Rightarrow> bool" where
  "seq_next st st' \<longleftrightarrow> seq_ok st' \<and> ids (sq_parser st) \<subseteq> ids (sq_parser st') \<and> length (sq_pos st') < length (sq_pos st)"

lemma at_chr_Nil [simp]: "\<not> at_chr [] c"
  by (simp add: at_chr_def)

lemma push_sym_next:
  assumes "seq_ok st" "parser_ok ps" "ids (sq_parser st) \<subseteq> ids ps" "body_ok GR_ALT es" "refs es \<subseteq> ids ps" "length pos < length (sq_pos st)"
  shows "seq_next st (push_sym nested pos es (st\<lparr>sq_parser := ps\<rparr>))"
  using assms parse_space_less[OF assms(6)] by (auto simp: seq_next_def seq_ok_def push_sym_def intro: body_ok_join)

lemma push_sym_same:
  assumes "seq_ok st" "body_ok GR_ALT es" "refs es \<subseteq> ids (sq_parser st)" "length pos < length (sq_pos st)"
  shows "seq_next st (push_sym nested pos es st)"
  using push_sym_next[of st "sq_parser st" es pos nested] assms by (simp add: seq_ok_def)

definition class_body :: "grule \<Rightarrow> bool" where
  "class_body es \<longleftrightarrow> body_ok GR_ALT es \<and> refs es = {} \<and>
     (es \<noteq> [] \<longrightarrow> ge_type (last es) \<in> {GR_CHAR, GR_CHAR_NOT, GR_CHAR_ALT, GR_CHAR_RNG_UPPER})"

lemma class_body_push:
  assumes "class_body es" "t \<in> {GR_CHAR, GR_CHAR_NOT}"
  shows "class_body (es @ [elem (if es \<noteq> [] then GR_CHAR_ALT else t) c])"
    "class_body (es @ [elem (if es \<noteq> [] then GR_CHAR_ALT else t) c, elem GR_CHAR_RNG_UPPER d])"
  using assms by (auto simp: class_body_def body_ok_append)

lemma parse_literal_outcome:
  "class_body es \<Longrightarrow> outcome (parse_literal pos (pre @ es))
     (\<lambda>(pos', rule). pos' \<noteq> [] \<and> length pos' \<le> length pos \<and> (\<exists>es'. rule = pre @ es' \<and> class_body es'))"
proof (induction "length pos" arbitrary: pos es rule: less_induct)
  case less
  have lit: "class_body (es @ [elem GR_CHAR c])" for c using less.prems by (auto simp: class_body_def body_ok_append)
  show ?case
  proof (cases "pos = [] \<or> at_chr pos CHR 0x22")
    case True
    then show ?thesis using less.prems by (subst parse_literal.simps) (auto simp: at_chr_def)
  next
    case False
    have "outcome (rbind (parse_char pos) (\<lambda>(c, pos). parse_literal pos ((pre @ es) @ [elem GR_CHAR c])))
     (\<lambda>(pos', rule). pos' \<noteq> [] \<and> length pos' \<le> length pos \<and> (\<exists>es'. rule = pre @ es' \<and> class_body es'))"
      using less.hyps[OF _ lit] by (intro outcome_rbind[OF parse_char_outcome]) (fastforce elim: outcome_mono)
    then show ?thesis using False by (subst parse_literal.simps) simp
  qed
qed

lemma parse_class_outcome:
  assumes t: "t \<in> {GR_CHAR, GR_CHAR_NOT}"
  shows "class_body es \<Longrightarrow> outcome (parse_class t (length pre) pos (pre @ es))
     (\<lambda>(pos', rule). pos' \<noteq> [] \<and> length pos' \<le> length pos \<and> (\<exists>es'. rule = pre @ es' \<and> class_body es'))"
proof (induction "length pos" arbitrary: pos es rule: less_induct)
  case less
  let ?Q = "\<lambda>(pos', rule). pos' \<noteq> [] \<and> length pos' \<le> length pos \<and> (\<exists>es'. rule = pre @ es' \<and> class_body es')"
  have rec: "outcome (parse_class t (length pre) p (pre @ es')) ?Q" if "length p < length pos" "class_body es'" for p es'
    using less.hyps[OF that] that by (auto elim!: outcome_mono)
  show ?case
  proof (cases "pos = [] \<or> at_chr pos CHR '']''")
    case True
    then show ?thesis using less.prems by (subst parse_class.simps) (auto simp: at_chr_def)
  next
    case False
    define rule1 where "rule1 = (\<lambda>c. (pre @ es) @ [elem (if length pre < length (pre @ es) then GR_CHAR_ALT else t) c])"
    have e1: "\<exists>es'. rule1 c = pre @ es' \<and> class_body es'" "\<exists>es'. rule1 c @ [elem GR_CHAR_RNG_UPPER d] = pre @ es' \<and> class_body es'" for c d
      using class_body_push[OF less.prems t, of c] by (auto simp: rule1_def)
    have rec1: "outcome (parse_class t (length pre) p rule) ?Q" if "length p < length pos" "\<exists>es'. rule = pre @ es' \<and> class_body es'" for p rule
      using rec[OF that(1)] that(2) by blast
    have r1: "outcome (rbind (parse_char (tl p)) (\<lambda>(d, q). parse_class t (length pre) q (rule1 c @ [elem GR_CHAR_RNG_UPPER d]))) ?Q"
      if "length p < length pos" for p c
      using that e1(2) by (intro outcome_rbind[OF parse_char_outcome]) (auto intro!: rec1 simp del: append_assoc)
    have "outcome (rbind (parse_char pos) (\<lambda>(c, p).
        if at_chr p CHR ''-'' \<and> \<not> at_chr (tl p) CHR '']'' then
          if tl p = [] then throw ''unexpected end of input''
          else rbind (parse_char (tl p)) (\<lambda>(d, q). parse_class t (length pre) q (rule1 c @ [elem GR_CHAR_RNG_UPPER d]))
        else parse_class t (length pre) p (rule1 c))) ?Q"
      using r1 rec1 e1(1) by (intro outcome_rbind[OF parse_char_outcome]) auto
    then show ?thesis
      using False unfolding rule1_def by (subst parse_class.simps) (simp only: Let_def if_False de_Morgan_disj not_False_eq_True)
  qed
qed

lemma word_not_underscore: "name_ok (takeWhile is_word_char src)"
proof -
  have "\<not> is_word_char CHR ''_''" by (simp add: is_word_char_def is_digit_char_def chr_between_def chr_code_def)
  then show ?thesis by (auto simp: name_ok_def dest: set_takeWhileD)
qed

lemma repeat_item_ok:
  assumes "seq_ok st" "name_ok name" "at_chr (sq_pos st) c" "m \<le> 2000" "n = UINT64_MAX \<or> n \<le> 2000"
  shows "outcome (repeat_item nested name m n st) (seq_next st)"
  unfolding repeat_item_def
  by (rule outcome_mono[OF handle_repetitions_ok]) (use assms at_chr_space_less[OF assms(3)] in \<open>auto simp: seq_ok_def seq_next_def\<close>)

lemma braces_item_ok:
  assumes "seq_ok st" "name_ok name" "at_chr (sq_pos st) c"
  shows "outcome (braces_item nested name st) (seq_next st)"
  unfolding braces_item_def
proof (rule outcome_rbind[OF parse_braces_outcome], clarify)
  fix pos :: string and m n :: nat
  assume p: "length pos < length (parse_space nested (tl (sq_pos st)))" and mn: "m \<le> 2000" "n = UINT64_MAX \<or> n \<le> 2000"
  have "seq_ok (st\<lparr>sq_pos := pos\<rparr>)" using assms(1) by (simp add: seq_ok_def)
  from handle_repetitions_ok[OF this assms(2) mn]
  show "outcome (handle_repetitions name m n (st\<lparr>sq_pos := pos\<rparr>)) (seq_next st)"
    by (rule outcome_mono) (use p at_chr_space_less[OF assms(3), of nested] in \<open>auto simp: seq_next_def\<close>)
qed

lemma literal_item_ok:
  assumes "seq_ok st" "at_chr (sq_pos st) c"
  shows "outcome (literal_item nested st) (seq_next st)"
  unfolding literal_item_def
proof (rule outcome_rbind[where Q = "\<lambda>(pos', rule). pos' \<noteq> [] \<and> length pos' < length (sq_pos st) \<and> (\<exists>es'. rule = sq_rule st @ es' \<and> class_body es')"])
  have "class_body []" by (simp add: class_body_def)
  from parse_literal_outcome[OF this, of "tl (sq_pos st)" "sq_rule st"]
  show "outcome (parse_literal (tl (sq_pos st)) (sq_rule st))
      (\<lambda>(pos', rule). pos' \<noteq> [] \<and> length pos' < length (sq_pos st) \<and> (\<exists>es'. rule = sq_rule st @ es' \<and> class_body es'))"
    using at_chr_length[OF assms(2)] by (auto elim!: outcome_mono)
qed (use assms(1) in \<open>auto simp: class_body_def intro!: push_sym_same\<close>)

lemma class_item_ok:
  assumes "seq_ok st" "at_chr (sq_pos st) c"
  shows "outcome (class_item nested st) (seq_next st)"
proof -
  define p where "p = (if at_chr (tl (sq_pos st)) CHR ''^'' then tl (tl (sq_pos st)) else tl (sq_pos st))"
  define t where "t = (if at_chr (tl (sq_pos st)) CHR ''^'' then GR_CHAR_NOT else GR_CHAR)"
  have p: "length p < length (sq_pos st)" using at_chr_length[OF assms(2)] by (auto simp: p_def)
  have "class_body []" by (simp add: class_body_def)
  moreover have "t \<in> {GR_CHAR, GR_CHAR_NOT}" by (simp add: t_def)
  ultimately have c: "outcome (parse_class t (length (sq_rule st)) p (sq_rule st))
      (\<lambda>(pos', rule). pos' \<noteq> [] \<and> length pos' < length (sq_pos st) \<and> (\<exists>es'. rule = sq_rule st @ es' \<and> class_body es'))"
    using outcome_mono[OF parse_class_outcome[of t "[]" "sq_rule st" p]] p by fastforce
  show ?thesis
    unfolding class_item_def Let_def p_def[symmetric] t_def[symmetric]
    by (rule outcome_rbind[OF c]) (use assms(1) in \<open>auto simp: class_body_def intro!: push_sym_same\<close>)
qed

lemma token_item_ok:
  assumes "seq_ok st"
  shows "outcome (token_item vocab nested st) (seq_next st)"
proof -
  define p where "p = (if at_chr (sq_pos st) CHR ''!'' then tl (sq_pos st) else sq_pos st)"
  have p: "length p \<le> length (sq_pos st)" by (simp add: p_def)
  show ?thesis
    unfolding token_item_def Let_def p_def[symmetric]
    by (rule outcome_rbind[OF parse_token_outcome])
      (use assms p in \<open>auto intro!: push_sym_same\<close>)
qed

lemma ref_item_ok:
  assumes "seq_ok st"
  shows "outcome (ref_item nested st) (seq_next st)"
  unfolding ref_item_def
proof (rule outcome_rbind[OF parse_name_outcome])
  fix p assume p: "length p < length (sq_pos st) \<and> until (sq_pos st) p = takeWhile is_word_char (sq_pos st)"
  obtain i ps where g: "get_symbol_id (sq_parser st) (until (sq_pos st) p) = (i, ps)" by force
  then have "parser_ok ps" "i \<in> ids ps" "ids (sq_parser st) \<subseteq> ids ps"
    using get_symbol_id_ok[OF g] assms p word_not_underscore by (auto simp: seq_ok_def)
  then have "seq_next st (push_sym nested p [elem GR_RULE_REF i] (st\<lparr>sq_parser := ps\<rparr>))"
    using assms p by (intro push_sym_next) auto
  then show "outcome (let (ref_rule_id, ps) = get_symbol_id (sq_parser st) (until (sq_pos st) p)
      in ret (push_sym nested p [elem GR_RULE_REF ref_rule_id] (st\<lparr>sq_parser := ps\<rparr>))) (seq_next st)"
    using g by simp
qed

lemma if_SomeE: "(if c then x else y) = Some r \<Longrightarrow> (c \<Longrightarrow> x = Some r \<Longrightarrow> P) \<Longrightarrow> (\<not> c \<Longrightarrow> y = Some r \<Longrightarrow> P) \<Longrightarrow> P"
  by (cases c) auto

lemma parse_item_ok:
  assumes r: "parse_item vocab name nested st = Some r" and st: "seq_ok st" and name: "name_ok name"
  shows "outcome r (seq_next st)"
proof -
  have any: "seq_next st (push_sym nested (tl (sq_pos st)) [elem GR_CHAR_ANY 0] st)" if "at_chr (sq_pos st) c" for c
    using st at_chr_length[OF that] by (intro push_sym_same) auto
  note rep = repeat_item_ok[OF st name]
  have "outcome (repeat_item nested name 0 UINT64_MAX st) (seq_next st)" "outcome (repeat_item nested name 1 UINT64_MAX st) (seq_next st)"
      "outcome (repeat_item nested name 0 1 st) (seq_next st)" "outcome (braces_item nested name st) (seq_next st)"
    if "at_chr (sq_pos st) c" for c
    using rep[OF that] braces_item_ok[OF st name that] by (simp_all del: One_nat_def)
  note rep = this
  show ?thesis
    using r unfolding parse_item_def Let_def
    by (elim if_SomeE)
      (auto simp del: One_nat_def intro: literal_item_ok[OF st] class_item_ok[OF st] token_item_ok[OF st] ref_item_ok[OF st] any rep)
qed

section \<open>The descent\<close>

lemma close_group_ok:
  assumes "seq_ok st" "parser_ok ps" "ids (sq_parser st) \<subseteq> ids ps" "i \<in> ids ps" "length pos < n"
  shows "outcome (close_group nested k i pos ps st) (\<lambda>st'. seq_ok st' \<and> ids ps \<subseteq> ids (sq_parser st') \<and> length (sq_pos st') < n)"
proof -
  have "max 1 (u32_sub x y) \<le> 2 ^ 32" for x y
    using pos_mod_bound[of "2 ^ 32" "int x - int y"] by (simp add: u32_sub_def nat_le_iff)
  moreover have "length (parse_space nested (tl pos)) < n" using assms(5) by (intro parse_space_less) simp
  ultimately show ?thesis
    using assms(1-4) by (auto simp: close_group_def push_sym_def seq_ok_def intro!: body_ok_join)
qed

lemma seq_start_ok:
  "parser_ok ps \<Longrightarrow> body_ok GR_ALT rule \<Longrightarrow> refs rule \<subseteq> ids ps \<Longrightarrow> seq_ok (seq_start src rule ps)"
  by (simp add: seq_ok_def seq_start_def)

text \<open>With fuel for the length of the text, the three functions return and keep the invariant.\<close>

definition seq_after :: "seq_state \<Rightarrow> seq_state \<Rightarrow> bool" where
  "seq_after st st' \<longleftrightarrow> seq_ok st' \<and> ids (sq_parser st) \<subseteq> ids (sq_parser st') \<and> length (sq_pos st') \<le> length (sq_pos st)"

definition sequences_ok :: "nat \<Rightarrow> bool" where
  "sequences_ok fuel \<longleftrightarrow> (\<forall>vocab name nested st. length (sq_pos st) \<le> fuel \<longrightarrow> seq_ok st \<longrightarrow> name_ok name \<longrightarrow>
     outcome (parse_sequence fuel vocab name nested st) (seq_after st))"

definition loops_ok :: "nat \<Rightarrow> bool" where
  "loops_ok fuel \<longleftrightarrow> (\<forall>vocab name nested st. length (sq_pos st) \<le> fuel \<longrightarrow> seq_ok st \<longrightarrow> name_ok name \<longrightarrow>
     outcome (alternates_loop fuel vocab name nested st) (seq_after st))"

definition parsed :: "nat \<Rightarrow> llama_grammar_parser \<Rightarrow> string \<times> llama_grammar_parser \<Rightarrow> bool" where
  "parsed n ps = (\<lambda>(pos, ps'). length pos \<le> n \<and> parser_ok ps' \<and> ids ps \<subseteq> ids ps')"

definition alternates_ok :: "nat \<Rightarrow> bool" where
  "alternates_ok fuel \<longleftrightarrow> (\<forall>vocab name rule_id nested src ps. length src \<le> fuel \<longrightarrow> parser_ok ps \<longrightarrow> name_ok name \<longrightarrow>
     outcome (parse_alternates fuel vocab name rule_id nested src ps) (parsed (length src) ps))"

lemma sequences_step:
  assumes f: "fuel = 0 \<or> fuel = Suc fuel' \<and> sequences_ok fuel' \<and> alternates_ok fuel'"
  shows "sequences_ok fuel"
  unfolding sequences_ok_def
proof (intro allI impI)
  fix vocab name nested st
  assume len: "length (sq_pos st) \<le> fuel" and st: "seq_ok st" and name: "name_ok name"
  show "outcome (parse_sequence fuel vocab name nested st) (seq_after st)"
  proof (cases "sq_pos st = []")
    case True
    then show ?thesis using st by (simp add: parse_sequence.simps seq_after_def)
  next
    case False
    then have fs: "fuel = Suc fuel'" "sequences_ok fuel'" "alternates_ok fuel'" using f len by auto
    have rec: "outcome (parse_sequence fuel' vocab name nested st') (seq_after st)"
      if "seq_ok st'" "ids (sq_parser st) \<subseteq> ids (sq_parser st')" "length (sq_pos st') < length (sq_pos st)" for st'
    proof -
      have "outcome (parse_sequence fuel' vocab name nested st') (seq_after st')"
        using fs(1,2) len that(1,3) name by (simp add: sequences_ok_def)
      then show ?thesis by (rule outcome_mono) (use that in \<open>auto simp: seq_after_def\<close>)
    qed
    show ?thesis
    proof (cases "at_chr (sq_pos st) CHR ''(''")
      case group: True
      define p where "p = parse_space True (tl (sq_pos st))"
      have p: "length p < length (sq_pos st)" using at_chr_space_less[OF group] by (simp add: p_def)
      obtain i ps where g: "generate_symbol_id (sq_parser st) name = (i, ps)" by force
      have ok: "parser_ok ps" "i \<in> ids ps" "ids (sq_parser st) \<subseteq> ids ps"
        using generate_symbol_id_ok[OF g] st name by (auto simp: seq_ok_def)
      define k where "k = u32 (length (gp_symbol_ids (sq_parser st)))"
      have "outcome (parse_alternates fuel' vocab name i True p ps) (parsed (length p) ps)"
        using fs(1,3) len p ok(1) name by (simp add: alternates_ok_def)
      then have "outcome (rbind (parse_alternates fuel' vocab name i True p ps) (\<lambda>(pos, ps).
          rbind (close_group nested k i pos ps st) (parse_sequence fuel' vocab name nested))) (seq_after st)"
      proof (rule outcome_rbind, clarify)
        fix pos ps' assume post: "parsed (length p) ps (pos, ps')"
        show "outcome (rbind (close_group nested k i pos ps' st) (parse_sequence fuel' vocab name nested)) (seq_after st)"
          by (rule outcome_rbind[OF close_group_ok[where n = "length (sq_pos st)"]])
            (use post ok st p rec in \<open>auto simp: parsed_def\<close>)
      qed
      then show ?thesis using False fs(1) group g by (simp add: parse_sequence.simps[of "Suc fuel'"] k_def p_def)
    next
      case item: False
      show ?thesis
      proof (cases "parse_item vocab name nested st")
        case None
        then show ?thesis using False fs(1) item st by (simp add: parse_sequence.simps[of "Suc fuel'"] seq_after_def)
      next
        case (Some r)
        have "outcome (rbind r (parse_sequence fuel' vocab name nested)) (seq_after st)"
          by (rule outcome_rbind[OF parse_item_ok[OF Some st name]]) (auto simp: seq_next_def intro: rec)
        then show ?thesis using False fs(1) item Some by (simp add: parse_sequence.simps[of "Suc fuel'"])
      qed
    qed
  qed
qed

lemma loops_step:
  assumes f: "fuel = 0 \<or> fuel = Suc fuel' \<and> sequences_ok fuel' \<and> loops_ok fuel'"
  shows "loops_ok fuel"
  unfolding loops_ok_def
proof (intro allI impI)
  fix vocab name nested st
  assume len: "length (sq_pos st) \<le> fuel" and st: "seq_ok st" and name: "name_ok name"
  show "outcome (alternates_loop fuel vocab name nested st) (seq_after st)"
  proof (cases "at_chr (sq_pos st) CHR ''|''")
    case True
    then have fs: "fuel = Suc fuel'" "sequences_ok fuel'" "loops_ok fuel'" using f len by auto
    define p where "p = parse_space True (tl (sq_pos st))"
    have p: "length p < length (sq_pos st)" using at_chr_space_less[OF True] by (simp add: p_def)
    define st1 where "st1 = seq_start p (sq_rule st @ [elem GR_ALT 0]) (sq_parser st)"
    have st1: "seq_ok st1" "sq_parser st1 = sq_parser st" "sq_pos st1 = p"
      using st unfolding st1_def by (auto simp: seq_ok_def seq_start_def intro!: body_ok_join)
    have "outcome (parse_sequence fuel' vocab name nested st1) (seq_after st1)"
      using fs(1,2) len p st1 name by (simp add: sequences_ok_def)
    then have "outcome (rbind (parse_sequence fuel' vocab name nested st1) (alternates_loop fuel' vocab name nested)) (seq_after st)"
    proof (rule outcome_rbind)
      fix st2 assume st2: "seq_after st1 st2"
      then have "outcome (alternates_loop fuel' vocab name nested st2) (seq_after st2)"
        using fs(1,3) len p st1 name by (simp add: loops_ok_def seq_after_def)
      then show "outcome (alternates_loop fuel' vocab name nested st2) (seq_after st)"
        by (rule outcome_mono) (use st2 st1 p in \<open>auto simp: seq_after_def\<close>)
    qed
    then show ?thesis using True fs(1) by (simp add: alternates_loop.simps[of "Suc fuel'"] st1_def p_def)
  qed (use st in \<open>simp add: alternates_loop.simps seq_after_def\<close>)
qed

lemma alternates_step:
  assumes "sequences_ok fuel" "loops_ok fuel"
  shows "alternates_ok fuel"
  unfolding alternates_ok_def
proof (intro allI impI)
  fix vocab name rule_id nested ps and src :: string
  assume len: "length src \<le> fuel" and ps: "parser_ok ps" and name: "name_ok name"
  have s: "seq_ok (seq_start src [] ps)" using ps by (intro seq_start_ok) auto
  have "outcome (parse_sequence fuel vocab name nested (seq_start src [] ps)) (seq_after (seq_start src [] ps))"
    using assms(1) len s name by (simp add: sequences_ok_def seq_start_def)
  then show "outcome (parse_alternates fuel vocab name rule_id nested src ps) (parsed (length src) ps)"
    unfolding parse_alternates.simps[of fuel]
  proof (rule outcome_rbind)
    fix st assume st: "seq_after (seq_start src [] ps) st"
    then have "outcome (alternates_loop fuel vocab name nested st) (seq_after st)"
      using assms(2) len name by (simp add: loops_ok_def seq_after_def seq_start_def)
    then show "outcome (rbind (alternates_loop fuel vocab name nested st) (\<lambda>st.
        ret (sq_pos st, add_rule (sq_parser st) rule_id (sq_rule st @ [elem GR_END 0])))) (parsed (length src) ps)"
      by (rule outcome_rbind) (use st in \<open>auto simp: parsed_def seq_after_def seq_ok_def seq_start_def intro!: add_rule_ok\<close>)
  qed
qed

lemma descent_ok: "sequences_ok fuel \<and> loops_ok fuel \<and> alternates_ok fuel"
  by (induction fuel) (use sequences_step loops_step alternates_step in blast)+

lemmas alternates_outcome = descent_ok[THEN conjunct2, THEN conjunct2, unfolded alternates_ok_def, rule_format]

section \<open>Rules and texts\<close>

lemma end_of_rule_outcome: "outcome (end_of_rule pos) (\<lambda>pos'. length pos' \<le> length pos)"
  by (auto simp: end_of_rule_def)

lemma parse_rule_outcome:
  assumes "parser_ok ps"
  shows "outcome (parse_rule vocab src ps) (\<lambda>(pos, ps'). length pos < length src \<and> parser_ok ps')"
  unfolding parse_rule_def
proof (rule outcome_rbind[OF parse_name_outcome], unfold Let_def)
  fix p assume p: "length p < length src \<and> until src p = takeWhile is_word_char src"
  have name: "name_ok (until src p)" using p word_not_underscore by simp
  obtain i ps1 where g: "get_symbol_id ps (until src p) = (i, ps1)" by force
  have ps1: "parser_ok ps1" using get_symbol_id_ok(1)[OF g assms name] .
  define q where "q = parse_space True (drop 3 (parse_space False p))"
  have q: "length q < length src" unfolding q_def using p parse_space_less[of p "length src" False] by (intro parse_space_less) simp
  have "outcome (rbind (parse_alternates (length q) vocab (until src p) i False q ps1)
      (\<lambda>(pos, ps). rbind (end_of_rule pos) (\<lambda>pos. ret (parse_space True pos, ps)))) (\<lambda>(pos, ps'). length pos < length src \<and> parser_ok ps')"
  proof (rule outcome_rbind[OF alternates_outcome[OF le_refl ps1 name]], clarify)
    fix pos ps2 assume post: "parsed (length q) ps1 (pos, ps2)"
    show "outcome (rbind (end_of_rule pos) (\<lambda>pos. ret (parse_space True pos, ps2))) (\<lambda>(pos, ps'). length pos < length src \<and> parser_ok ps')"
      by (rule outcome_rbind[OF end_of_rule_outcome]) (use post q in \<open>auto simp: parsed_def intro!: parse_space_less\<close>)
  qed
  then show "outcome (case get_symbol_id ps (until src p) of (rule_id, ps) \<Rightarrow>
        if take 3 (parse_space False p) \<noteq> ''::='' then throw ''expecting ::=''
        else rbind (parse_alternates (length (parse_space True (drop 3 (parse_space False p)))) vocab (until src p) rule_id False
               (parse_space True (drop 3 (parse_space False p))) ps)
             (\<lambda>(pos, ps). rbind (end_of_rule pos) (\<lambda>pos. ret (parse_space True pos, ps))))
     (\<lambda>(pos, ps'). length pos < length src \<and> parser_ok ps')"
    unfolding g q_def by simp
qed

lemma parse_rules_outcome: "length pos \<le> fuel \<Longrightarrow> parser_ok ps \<Longrightarrow> outcome (parse_rules fuel vocab pos ps) parser_ok"
proof (induction fuel arbitrary: pos ps)
  case (Suc fuel)
  have "outcome (rbind (parse_rule vocab pos ps) (\<lambda>(pos, ps). parse_rules fuel vocab pos ps)) parser_ok"
    by (rule outcome_rbind[OF parse_rule_outcome]) (use Suc in auto)
  then show ?case using Suc.prems by (simp add: parse_rules.simps[of "Suc fuel"])
qed (simp add: parse_rules.simps)

lemma valid_grammar_wf:
  assumes "parser_ok ps" "rules_valid ps"
  shows "grammar_wf (gp_rules ps)"
  unfolding grammar_wf_def
proof (intro allI impI)
  fix r assume r: "r < length (gp_rules ps)"
  then have "gp_rules ps ! r \<noteq> []" and def: "\<And>e. e \<in> set (gp_rules ps ! r) \<Longrightarrow> \<not> undefined_ref ps e"
    using assms(2) by (auto simp: rules_valid_def list_all_iff)
  then obtain es where es: "gp_rules ps ! r = es @ [elem GR_END 0]" "body_ok GR_ALT es" "refs es \<subseteq> ids ps"
    using assms(1) r by (auto simp: parser_ok_def rule_ok_def)
  have "v < length (gp_rules ps)" if v: "v \<in> refs es" for v
  proof -
    obtain e where e: "e \<in> set es" "ge_type e = GR_RULE_REF" "ge_value e = v" using v by (auto simp: refs_def)
    moreover have "v \<in> ids ps" using v es(3) by blast
    ultimately show ?thesis using def[of e] es(1) by (auto simp: undefined_ref_def ids_def list_ex_iff)
  qed
  then show "elems_ok (length (gp_rules ps)) GR_ALT (gp_rules ps ! r)" using es elems_ok_body by simp
qed

lemma parse_text_outcome: "outcome (parse_text vocab src) (\<lambda>ps. parser_ok ps \<and> rules_valid ps)"
proof -
  have "parser_ok \<lparr>gp_symbol_ids = [], gp_rules = []\<rparr>" by (simp add: parser_ok_def sym_ok_def)
  from parse_rules_outcome[OF le_refl this] show ?thesis
    unfolding parse_text_def Let_def by (rule outcome_rbind) simp
qed

section \<open>Properties\<close>

text \<open>C10: The parser returns on every grammar text, with rules or with failure and never by a failed assertion. The
  rules of a successful parse are well-formed: every rule ends with its only end marker, range ends and alternative
  characters follow a character, and every reference names a rule that exists.\<close>

theorem parse_wf:
  "\<exists>result. parse vocab src = ret result \<and> (\<forall>ps. result = Some ps \<longrightarrow> grammar_wf (gp_rules ps))"
  using parse_text_outcome[of vocab src] valid_grammar_wf by (auto simp: outcome_def parse_def ret_def)

section \<open>Evaluation\<close>

lemmas parse_eval = parse_def parse_text_def parse_rules.simps parse_rule_def parse_sequence.simps parse_alternates.simps
  alternates_loop.simps parse_literal.simps parse_class.simps end_of_rule_def parse_item_def literal_item_def class_item_def ref_item_def
  repeat_item_def braces_item_def parse_braces_def parse_max_def parse_number_def handle_repetitions_def push_sym_def close_group_def
  seq_start_def parse_name_def parse_int_def until_def stoull_def digits_value_def chr_code_def chr_between_def is_digit_char_def
  is_word_char_def at_chr_def get_symbol_id_def generate_symbol_id_def add_rule_def rules_valid_def undefined_ref_def u32_def u64_def
  u64_sub_def UINT64_MAX_def MAX_REPETITION_THRESHOLD_def total_rules_def parse_char_def decode_utf8_def seq_len_lookup_def
  to_string.simps digit_chr_def rbind_def ret_def throw_def u32_sub_def Let_def elem_def

lemma replicate_num: "replicate (numeral k) x = x # replicate (pred_numeral k) x"
  by (simp add: numeral_eq_Suc)

definition demo_text :: string where
  "demo_text = ''root ::= [a-c] (x | root)?'' @ [CHR 0x0A] @ ''x ::= [x]{2}''"

lemma demo_text_parsed: "parse None demo_text = ret (Some \<lparr>gp_symbol_ids = [(''root'', 0), (''root_1'', 1), (''x'', 2), (''root_3'', 3)],
    gp_rules = [[gr_elem GR_CHAR 97, gr_elem GR_CHAR_RNG_UPPER 99, gr_elem GR_RULE_REF 3, gr_elem GR_END 0],
      [gr_elem GR_RULE_REF 2, gr_elem GR_ALT 0, gr_elem GR_RULE_REF 0, gr_elem GR_END 0],
      [gr_elem GR_CHAR 120, gr_elem GR_CHAR 120, gr_elem GR_END 0],
      [gr_elem GR_RULE_REF 1, gr_elem GR_ALT 0, gr_elem GR_END 0]]\<rparr>)"
  by (simp add: demo_text_def parse_eval gr_elem_def replicate_num char_of_def bit_0)

theorem parse_wf_witness: "\<exists>ps. parse None demo_text = ret (Some ps) \<and> grammar_wf (gp_rules ps)"
  using parse_wf[of None demo_text] demo_text_parsed by (auto simp: ret_def)

end
