(* ===== verification/GrammarLeftRec.thy ===== *)
theory GrammarLeftRec
  imports GrammarLang
begin

text \<open>
  The check for left recursion: it always returns; a grammar that passes it is not left-recursive
  provided every rule that derives the empty text has an empty alternate; without that proviso the
  check misses left recursion, and building the stacks then never ends.
\<close>

section \<open>The check returns\<close>

definition lr_inv :: "grules \<Rightarrow> lr_state \<Rightarrow> bool" where
  "lr_inv rules st \<longleftrightarrow> lr_may_be_empty st \<subseteq> {B. has_empty_alt True (rules ! B)}"

text \<open>The rules whose references the scan of a rule follows.\<close>

fun scanned :: "grules \<Rightarrow> bool \<Rightarrow> grule \<Rightarrow> nat set" where
  "scanned rules recurse [] = {}"
| "scanned rules recurse (e # es) =
     (if ge_type e = GR_RULE_REF \<and> recurse
      then insert (ge_value e) (scanned rules (has_empty_alt True (rules ! ge_value e)) es)
      else scanned rules (is_end_of_sequence e) es)"

text \<open>What a successful visit of a rule leaves behind.\<close>

definition visit_ok :: "grules \<Rightarrow> lr_state \<Rightarrow> lr_state \<Rightarrow> bool" where
  "visit_ok rules st st' \<longleftrightarrow> lr_in_progress st' = lr_in_progress st \<and> lr_inv rules st' \<and>
     lr_visited st \<subseteq> lr_visited st' \<and> lr_may_be_empty st \<subseteq> lr_may_be_empty st'"

definition visited_rule :: "nat \<Rightarrow> grules \<Rightarrow> nat set \<Rightarrow> nat \<Rightarrow> bool" where
  "visited_rule fuel rules P r \<longleftrightarrow> (\<exists>st st'. lr_in_progress st = P \<and> lr_inv rules st \<and>
     detect_left_recursion fuel rules r st = Some (False, st'))"

lemma visit_ok_trans: "visit_ok rules a b \<Longrightarrow> visit_ok rules b c \<Longrightarrow> visit_ok rules a c"
  by (auto simp: visit_ok_def)

definition begin_visit :: "grules \<Rightarrow> nat \<Rightarrow> lr_state \<Rightarrow> lr_state" where
  "begin_visit rules r st =
     (let st = st\<lparr>lr_in_progress := insert r (lr_in_progress st)\<rparr>
      in if has_empty_alt True (rules ! r) then st\<lparr>lr_may_be_empty := insert r (lr_may_be_empty st)\<rparr> else st)"

lemma begin_visit_simps:
  "lr_in_progress (begin_visit rules r st) = insert r (lr_in_progress st)"
  "lr_visited (begin_visit rules r st) = lr_visited st"
  "lr_may_be_empty (begin_visit rules r st) = (if has_empty_alt True (rules ! r) then insert r (lr_may_be_empty st) else lr_may_be_empty st)"
  "lr_inv rules st \<Longrightarrow> lr_inv rules (begin_visit rules r st)"
  by (auto simp: begin_visit_def Let_def lr_inv_def)

lemma detect_unfold:
  "detect_left_recursion (Suc fuel) rules r st =
     (if r \<in> lr_in_progress st then Some (True, st)
      else case detect_elems fuel rules (rules ! r) True (begin_visit rules r st) of
        None \<Rightarrow> None | Some (True, st) \<Rightarrow> Some (True, st)
      | Some (False, st) \<Rightarrow> Some (False, st\<lparr>lr_in_progress := lr_in_progress st - {r}, lr_visited := insert r (lr_visited st)\<rparr>))"
  by (simp add: detect_left_recursion.simps begin_visit_def Let_def)

text \<open>Both functions at once, by induction on the fuel and, for the scan, on the elements.\<close>

definition visits_right :: "nat \<Rightarrow> grules \<Rightarrow> bool" where
  "visits_right fuel rules \<longleftrightarrow> (\<forall>r st st'. lr_inv rules st \<and> detect_left_recursion fuel rules r st = Some (False, st') \<longrightarrow>
     visit_ok rules st st' \<and> r \<notin> lr_in_progress st \<and> r \<in> lr_visited st' \<and>
     (r \<in> lr_may_be_empty st' \<longleftrightarrow> has_empty_alt True (rules ! r)) \<and>
     (\<exists>fuel'. \<forall>B \<in> scanned rules True (rules ! r). visited_rule fuel' rules (insert r (lr_in_progress st)) B) \<and>
     (\<forall>v \<in> lr_visited st' - lr_visited st. \<exists>fuel' P. visited_rule fuel' rules P v))"

lemma scan_right:
  assumes "visits_right fuel rules"
  shows "lr_inv rules st \<Longrightarrow> detect_elems fuel rules es recurse st = Some (False, st') \<Longrightarrow>
    visit_ok rules st st' \<and> (\<forall>B \<in> scanned rules recurse es. visited_rule fuel rules (lr_in_progress st) B) \<and>
    (\<forall>v \<in> lr_visited st' - lr_visited st. \<exists>fuel' P. visited_rule fuel' rules P v)"
proof (induction es arbitrary: recurse st)
  case Nil
  then show ?case by (simp add: visit_ok_def)
next
  case (Cons e es)
  show ?case
  proof (cases "ge_type e = GR_RULE_REF \<and> recurse")
    case True
    let ?r = "ge_value e"
    obtain st1 where d: "detect_left_recursion fuel rules ?r st = Some (False, st1)"
      "detect_elems fuel rules es (?r \<in> lr_may_be_empty st1) st1 = Some (False, st')"
      using Cons.prems(2) True by (auto split: option.splits bool.splits)
    have v: "visit_ok rules st st1" "?r \<in> lr_may_be_empty st1 \<longleftrightarrow> has_empty_alt True (rules ! ?r)"
      "\<forall>v \<in> lr_visited st1 - lr_visited st. \<exists>fuel' P. visited_rule fuel' rules P v"
      using assms Cons.prems(1) d(1) by (auto simp: visits_right_def)
    have r: "visited_rule fuel rules (lr_in_progress st) ?r"
      using d(1) Cons.prems(1) by (auto simp: visited_rule_def)
    have inv: "lr_inv rules st1" "lr_in_progress st1 = lr_in_progress st" using v(1) by (simp_all add: visit_ok_def)
    note ih = Cons.IH[OF inv(1) d(2)]
    have "scanned rules recurse (e # es) = insert ?r (scanned rules (?r \<in> lr_may_be_empty st1) es)" using True v(2) by simp
    moreover have "\<forall>v \<in> lr_visited st' - lr_visited st. \<exists>fuel' P. visited_rule fuel' rules P v"
      using ih v(3) by (metis Diff_iff)
    ultimately show ?thesis using ih r inv(2) visit_ok_trans[OF v(1)] by simp
  next
    case False
    then have "scanned rules recurse (e # es) = scanned rules (is_end_of_sequence e) es"
      "detect_elems fuel rules es (is_end_of_sequence e) st = Some (False, st')"
      using Cons.prems(2) by auto
    then show ?thesis using Cons.IH[OF Cons.prems(1)] by simp
  qed
qed

lemma visits_right: "visits_right fuel rules"
proof (induction fuel)
  case 0
  show ?case by (auto simp: visits_right_def detect_left_recursion.simps split: if_splits)
next
  case (Suc fuel)
  show ?case
    unfolding visits_right_def
  proof (intro allI impI, elim conjE)
    fix r st st' assume inv: "lr_inv rules st" and d: "detect_left_recursion (Suc fuel) rules r st = Some (False, st')"
    have np: "r \<notin> lr_in_progress st" using d by (auto simp: detect_unfold split: if_splits)
    then obtain st1 where st1: "detect_elems fuel rules (rules ! r) True (begin_visit rules r st) = Some (False, st1)"
      "st' = st1\<lparr>lr_in_progress := lr_in_progress st1 - {r}, lr_visited := insert r (lr_visited st1)\<rparr>"
      using d by (auto simp: detect_unfold split: option.splits bool.splits)
    note b = begin_visit_simps[where rules = rules and r = r and st = st]
    note s = scan_right[OF Suc b(4)[OF inv] st1(1)]
    have ok: "visit_ok rules (begin_visit rules r st) st1" using s by blast
    have "visited_rule (Suc fuel) rules (lr_in_progress st) r" using inv d by (auto simp: visited_rule_def)
    then show "visit_ok rules st st' \<and> r \<notin> lr_in_progress st \<and> r \<in> lr_visited st' \<and>
       (r \<in> lr_may_be_empty st' \<longleftrightarrow> has_empty_alt True (rules ! r)) \<and>
       (\<exists>fuel'. \<forall>B \<in> scanned rules True (rules ! r). visited_rule fuel' rules (insert r (lr_in_progress st)) B) \<and>
       (\<forall>v \<in> lr_visited st' - lr_visited st. \<exists>fuel' P. visited_rule fuel' rules P v)"
      using s np ok b st1(2) by (auto simp: visit_ok_def lr_inv_def split: if_splits)
  qed
qed

lemma detect_visit_ok:
  "lr_inv rules st \<Longrightarrow> detect_left_recursion fuel rules r st = Some (False, st') \<Longrightarrow> visit_ok rules st st'"
  using visits_right[of fuel rules] unfolding visits_right_def by blast

lemma visited_rule_step:
  assumes "visited_rule fuel rules P r"
  shows "r \<notin> P" "B \<in> scanned rules True (rules ! r) \<Longrightarrow> \<exists>fuel'. visited_rule fuel' rules (insert r P) B"
proof -
  obtain st st' where st: "lr_in_progress st = P" "lr_inv rules st" "detect_left_recursion fuel rules r st = Some (False, st')"
    using assms by (auto simp: visited_rule_def)
  have "r \<notin> lr_in_progress st \<and> (\<exists>fuel'. \<forall>B \<in> scanned rules True (rules ! r). visited_rule fuel' rules (insert r (lr_in_progress st)) B)"
    using visits_right[of fuel rules, unfolded visits_right_def, rule_format, OF conjI[OF st(2,3)]] by blast
  then show "r \<notin> P" "B \<in> scanned rules True (rules ! r) \<Longrightarrow> \<exists>fuel'. visited_rule fuel' rules (insert r P) B"
    using st(1) by auto
qed

definition scan_edges :: "grules \<Rightarrow> (nat \<times> nat) set" where
  "scan_edges rules = {(A, B). B \<in> scanned rules True (rules ! A)}"

lemma visited_no_cycle:
  assumes "visited_rule fuel rules P r"
  shows "(r, s) \<in> (scan_edges rules)\<^sup>+ \<Longrightarrow> \<exists>fuel' P'. insert r P \<subseteq> P' \<and> visited_rule fuel' rules P' s"
proof (induction rule: trancl_induct)
  case (base s)
  then show ?case using visited_rule_step(2)[OF assms] unfolding scan_edges_def by blast
next
  case (step s t)
  then obtain fuel' P' where "insert r P \<subseteq> P'" "visited_rule fuel' rules P' s" by blast
  then show ?case using visited_rule_step(2)[of fuel' rules P' s t] step.hyps(2) unfolding scan_edges_def by blast
qed

lemma detect_all_visits:
  "detect_all rules is st = Some False \<Longrightarrow> lr_inv rules st \<Longrightarrow> \<forall>v \<in> lr_visited st. \<exists>fuel P. visited_rule fuel rules P v \<Longrightarrow>
     \<forall>i \<in> set is. \<exists>fuel P. visited_rule fuel rules P i"
proof (induction rules "is" st rule: detect_all.induct)
  case (2 rules i "is" st)
  show ?case
  proof (cases "i \<in> lr_visited st")
    case True
    then show ?thesis using 2 by simp
  next
    case False
    then obtain st1 where d: "detect_left_recursion (Suc (length rules)) rules i st = Some (False, st1)"
      "detect_all rules is st1 = Some False"
      using "2.prems"(1) by (auto split: option.splits bool.splits)
    have "visit_ok rules st st1 \<and> (\<forall>v \<in> lr_visited st1 - lr_visited st. \<exists>fuel' P. visited_rule fuel' rules P v)"
      using visits_right[unfolded visits_right_def, rule_format, OF conjI[OF "2.prems"(2) d(1)]] by blast
    then have "\<forall>i \<in> set is. \<exists>fuel P. visited_rule fuel rules P i"
      using "2.IH"(2)[OF False d(1) refl refl d(2)] "2.prems"(3) by (metis Diff_iff visit_ok_def)
    moreover have "visited_rule (Suc (length rules)) rules (lr_in_progress st) i"
      using d(1) "2.prems"(2) by (auto simp: visited_rule_def)
    ultimately show ?thesis by auto
  qed
qed simp

section \<open>A grammar that passes\<close>

text \<open>Every rule that derives the empty text says so with an empty alternate.\<close>

definition explicit_empty :: "grules \<Rightarrow> bool" where
  "explicit_empty rules \<longleftrightarrow> (\<forall>r < length rules. gen rules [NT r] [] \<longrightarrow> has_empty_alt True (rules ! r))"

lemma elems_ok_refs: "elems_ok n prev es \<Longrightarrow> e \<in> set es \<Longrightarrow> ge_type e = GR_RULE_REF \<Longrightarrow> ge_value e < n"
proof (induction es arbitrary: prev)
  case (Cons x es)
  show ?case
  proof (cases "e = x")
    case True
    then show ?thesis using Cons.prems by simp
  next
    case False
    then have "ge_type x \<noteq> GR_END" "e \<in> set es" using Cons.prems elems_ok_END[OF Cons.prems(1)] by auto
    then show ?thesis using Cons.IH[OF elems_ok_tl[OF Cons.prems(1)]] Cons.prems(3) by simp
  qed
qed simp

lemma corner_scanned:
  assumes "explicit_empty rules"
  shows "elems_ok (length rules) prev es \<Longrightarrow> B \<in> corner rules (syms es) \<Longrightarrow> B \<in> scanned rules True es"
proof (induction es arbitrary: prev)
  case (Cons e es)
  show ?case
  proof (cases "ge_type e = GR_RULE_REF")
    case True
    let ?r = "ge_value e"
    have r: "?r < length rules" using elems_ok_refs[OF Cons.prems(1)] True by simp
    have syms: "syms (e # es) = NT ?r # syms es" using True by (simp add: is_end_of_sequence_def)
    obtain xs ys where xs: "syms (e # es) = xs @ NT B # ys" "gen rules xs []" using Cons.prems(2) by (auto simp: corner_def)
    show ?thesis
    proof (cases xs)
      case Nil
      then show ?thesis using xs(1) syms True by simp
    next
      case (Cons x xs')
      then have x: "x = NT ?r" "syms es = xs' @ NT B # ys" using xs(1) syms by simp_all
      have n: "gen rules [NT ?r] []" "gen rules xs' []"
        using xs(2) gen_append[of rules "[NT ?r]" xs' "[]"] Cons x(1) by simp_all
      then have "has_empty_alt True (rules ! ?r)" using assms r by (simp add: explicit_empty_def)
      moreover have "B \<in> corner rules (syms es)" using x(2) n(2) by (auto simp: corner_def)
      then have "B \<in> scanned rules True es" using Cons.IH elems_ok_tl[OF Cons.prems(1)] True by auto
      ultimately show ?thesis using True by simp
    qed
  next
    case False
    then show ?thesis using Cons.prems(2) by (auto simp: corner_simps split: if_splits)
  qed
qed (simp add: corner_simps)

lemma scanned_drop:
  "j < length es \<Longrightarrow> is_end_of_sequence (es ! j) \<Longrightarrow> scanned rules True (drop (Suc j) es) \<subseteq> scanned rules f es"
proof (induction j arbitrary: es f)
  case 0
  then show ?case by (cases es) (auto simp: is_end_of_sequence_def)
next
  case (Suc j)
  then obtain e es' where es: "es = e # es'" by (cases es) auto
  then show ?case using Suc.IH[of es'] Suc.prems by auto
qed

lemma scanned_alts:
  "i \<in> set (alts_from es k) \<Longrightarrow> scanned rules True (drop i es) \<subseteq> scanned rules True (drop k es)"
proof (induction es k rule: alts_from.induct)
  case (1 es k)
  show ?case
  proof (cases "scan_end es k < length es \<and> ge_type (es ! scan_end es k) = GR_ALT")
    case True
    let ?j = "scan_end es k"
    have "alts_from es k = k # alts_from es (Suc ?j)" using True by (subst alts_from.simps) (simp add: Let_def)
    then consider "i = k" | "i \<in> set (alts_from es (Suc ?j))" using "1.prems" by auto
    then show ?thesis
    proof cases
      case 2
      have "k \<le> ?j" by (simp add: scan_end_def)
      then have "scanned rules True (drop (Suc (?j - k)) (drop k es)) \<subseteq> scanned rules True (drop k es)"
        using True by (intro scanned_drop) (auto simp: is_end_of_sequence_def)
      then show ?thesis using "1.IH"[OF refl True 2] \<open>k \<le> ?j\<close> by (simp add: Suc_diff_le)
    qed simp
  next
    case False
    then have "alts_from es k = [k]" by (subst alts_from.simps) (auto simp: Let_def)
    then show ?thesis using "1.prems" by simp
  qed
qed

lemma left_corner_scanned:
  assumes wf: "grammar_wf rules" and ee: "explicit_empty rules" and bc: "(B, A) \<in> left_corner rules"
  shows "(A, B) \<in> scan_edges rules"
proof -
  obtain i where i: "A < length rules" "i \<in> set (alts_from (rules ! A) 0)" "B \<in> corner rules (rem rules (A, i))"
    using bc by (auto simp: left_corner_def alternatives_def)
  obtain es where es: "elems_at rules (A, i) = elem_at rules (A, i) # es"
    "elems_ok (length rules) GR_ALT (elem_at rules (A, i) # es)"
    using pos_elems[OF wf alt_pos_ok[OF wf i(1,2)]] .
  have "B \<in> scanned rules True (elems_at rules (A, i))"
    using corner_scanned[OF ee es(2)] i(3) es(1) by (simp add: rem_def)
  then show ?thesis using scanned_alts[OF i(2), of rules] by (auto simp: elems_at_def scan_edges_def)
qed

lemma passed_not_left_recursive:
  assumes wf: "grammar_wf rules" and ee: "explicit_empty rules" and f: "left_recursion_found rules = Some False"
  shows "\<not> left_recursive rules"
proof
  assume "left_recursive rules"
  then obtain r where "(r, r) \<in> (left_corner rules)\<^sup>+" by (auto simp: left_recursive_def acyclic_def)
  then have "(r, r) \<in> ((left_corner rules)\<inverse>)\<^sup>+" by (simp add: trancl_converse)
  moreover have "(left_corner rules)\<inverse> \<subseteq> scan_edges rules" using left_corner_scanned[OF wf ee] by auto
  ultimately have c: "(r, r) \<in> (scan_edges rules)\<^sup>+" using trancl_mono by blast
  have "r < length rules"
    using \<open>(r, r) \<in> (left_corner rules)\<^sup>+\<close> by (cases rule: tranclE) (auto simp: left_corner_def)
  moreover have "\<forall>i \<in> set [0..<length rules]. \<exists>fuel P. visited_rule fuel rules P i"
    using f unfolding left_recursion_found_def by (rule detect_all_visits) (simp_all add: lr_inv_def)
  then have "\<forall>i < length rules. \<exists>fuel P. visited_rule fuel rules P i" by simp
  ultimately obtain fuel P where v: "visited_rule fuel rules P r" by blast
  obtain fuel' P' where "insert r P \<subseteq> P'" "visited_rule fuel' rules P' r" using visited_no_cycle[OF v c] by blast
  then show False using visited_rule_step(1) by blast
qed

section \<open>The check returns\<close>

definition free_rules :: "grules \<Rightarrow> lr_state \<Rightarrow> nat" where
  "free_rules rules st = card ({..<length rules} - lr_in_progress st)"

text \<open>A visit that finds nothing leaves the rules in progress as they were, so the depth stays bounded.\<close>

definition returns_with :: "nat \<Rightarrow> grules \<Rightarrow> bool" where
  "returns_with fuel rules \<longleftrightarrow> (\<forall>r st. free_rules rules st < fuel \<and> r < length rules \<and> lr_inv rules st \<longrightarrow>
     detect_left_recursion fuel rules r st \<noteq> None)"

lemma scan_returns:
  assumes "returns_with fuel rules"
  shows "free_rules rules st < fuel \<Longrightarrow> \<forall>e \<in> set es. ge_type e = GR_RULE_REF \<longrightarrow> ge_value e < length rules \<Longrightarrow>
    lr_inv rules st \<Longrightarrow> detect_elems fuel rules es recurse st \<noteq> None"
proof (induction es arbitrary: recurse st)
  case (Cons e es)
  show ?case
  proof (cases "ge_type e = GR_RULE_REF \<and> recurse")
    case True
    then have "detect_left_recursion fuel rules (ge_value e) st \<noteq> None"
      using assms Cons.prems by (simp add: returns_with_def)
    then obtain b st1 where d: "detect_left_recursion fuel rules (ge_value e) st = Some (b, st1)" by auto
    show ?thesis
    proof (cases b)
      case False
      then have "visit_ok rules st st1" using detect_visit_ok[OF Cons.prems(3)] d by simp
      then have "lr_inv rules st1" "free_rules rules st1 < fuel"
        using Cons.prems(1) by (simp_all add: visit_ok_def free_rules_def)
      then show ?thesis using Cons.IH[of st1] Cons.prems(2) d False True by simp
    qed (use d True in simp)
  next
    case False
    then have "detect_elems fuel rules (e # es) recurse st = detect_elems fuel rules es (is_end_of_sequence e) st" by auto
    then show ?thesis using Cons.IH[of st "is_end_of_sequence e"] Cons.prems by simp
  qed
qed simp

lemma free_begin_visit:
  assumes "r \<notin> lr_in_progress st" "r < length rules"
  shows "free_rules rules (begin_visit rules r st) < free_rules rules st"
proof -
  have "{..<length rules} - lr_in_progress (begin_visit rules r st) = ({..<length rules} - lr_in_progress st) - {r}"
    by (auto simp: begin_visit_simps)
  moreover have "r \<in> {..<length rules} - lr_in_progress st" using assms by simp
  ultimately show ?thesis unfolding free_rules_def by (metis card_Diff1_less finite_Diff finite_lessThan)
qed

lemma detect_returns:
  assumes wf: "grammar_wf rules"
  shows "returns_with fuel rules"
proof (induction fuel)
  case (Suc fuel)
  have "detect_left_recursion (Suc fuel) rules r st \<noteq> None"
    if a: "free_rules rules st < Suc fuel" "r < length rules" "lr_inv rules st" for r st
  proof (cases "r \<in> lr_in_progress st")
    case False
    have "\<forall>e \<in> set (rules ! r). ge_type e = GR_RULE_REF \<longrightarrow> ge_value e < length rules"
      using wf a(2) elems_ok_refs by (auto simp: grammar_wf_def)
    then have "detect_elems fuel rules (rules ! r) True (begin_visit rules r st) \<noteq> None"
      using scan_returns[OF Suc] begin_visit_simps(4)[OF a(3)] free_begin_visit[OF False a(2)] a(1) by simp
    then show ?thesis using False by (auto simp: detect_unfold split: option.splits bool.splits)
  qed (simp add: detect_unfold)
  then show ?case by (simp add: returns_with_def)
qed (simp add: returns_with_def)

lemma detect_all_returns:
  assumes wf: "grammar_wf rules"
  shows "\<forall>i \<in> set is. i < length rules \<Longrightarrow> lr_inv rules st \<Longrightarrow> lr_in_progress st = {} \<Longrightarrow> detect_all rules is st \<noteq> None"
proof (induction "is" arbitrary: st)
  case (Cons i "is")
  show ?case
  proof (cases "i \<in> lr_visited st")
    case False
    have "free_rules rules st < Suc (length rules)" using Cons.prems(3) by (simp add: free_rules_def)
    then have "detect_left_recursion (Suc (length rules)) rules i st \<noteq> None"
      using detect_returns[OF wf, of "Suc (length rules)"] Cons.prems by (simp add: returns_with_def)
    then obtain b st1 where d: "detect_left_recursion (Suc (length rules)) rules i st = Some (b, st1)" by auto
    show ?thesis
    proof (cases b)
      case b: False
      then have "visit_ok rules st st1" using detect_visit_ok[OF Cons.prems(2)] d by simp
      then show ?thesis using Cons.IH[of st1] Cons.prems d b False by (simp add: visit_ok_def)
    qed (use d False in simp)
  qed (use Cons in simp)
qed simp

section \<open>Properties\<close>

text \<open>C35: The check for left recursion returns on every well-formed grammar, and a grammar that passes is not
  left-recursive if each of its rules that derives the empty text has an empty alternate.\<close>

theorem left_recursion_check:
  assumes "grammar_wf rules"
  shows "\<exists>found. left_recursion_found rules = Some found \<and>
    (explicit_empty rules \<and> \<not> found \<longrightarrow> \<not> left_recursive rules)"
proof -
  have "left_recursion_found rules \<noteq> None"
    unfolding left_recursion_found_def using assms by (intro detect_all_returns) (simp_all add: lr_inv_def)
  then obtain found where "left_recursion_found rules = Some found" by auto
  then show ?thesis using passed_not_left_recursive[OF assms] by auto
qed

section \<open>What the check misses\<close>

text \<open>If the worklist loop ends, the stacks it can reach are finitely many.\<close>

definition loop_finite :: "grules \<Rightarrow> gstacks \<Rightarrow> gstack set \<Rightarrow> bool" where
  "loop_finite rules todo seen \<longleftrightarrow> (\<exists>F. finite F \<and> seen \<union> set todo \<subseteq> F \<and> (\<forall>s \<in> F. \<forall>t. eps_step rules s t \<longrightarrow> t \<in> F))"

definition loop_pre :: "grules \<Rightarrow> gstacks \<Rightarrow> gstack set \<Rightarrow> bool" where
  "loop_pre rules todo seen \<longleftrightarrow> grammar_wf rules \<and> (\<forall>s \<in> set todo. stack_ok rules s) \<and> finite seen \<and>
     (\<forall>s \<in> seen. \<forall>t. eps_step rules s t \<longrightarrow> t \<in> seen \<union> set todo)"

lemma loop_finite_mono: "loop_finite rules todo' seen' \<Longrightarrow> seen \<union> set todo \<subseteq> seen' \<union> set todo' \<Longrightarrow> loop_finite rules todo seen"
  unfolding loop_finite_def by blast

lemma loop_pre_ref:
  assumes "loop_pre rules ((p # rest) # todo) seen" "ge_type (elem_at rules p) = GR_RULE_REF"
  shows "loop_pre rules (rev (expand_ref rules p rest) @ todo) (insert (p # rest) seen)"
proof -
  have succ: "eps_step rules (p # rest) t \<longleftrightarrow> t \<in> set (expand_ref rules p rest)" for t
    using assms(2) by (auto simp: eps_step_def)
  have "stack_ok rules t" if "t \<in> set (expand_ref rules p rest)" for t
    using eps_step_ok assms(1) that succ unfolding loop_pre_def by (meson list.set_intros(1))
  then show ?thesis using assms(1) succ by (auto simp: loop_pre_def)
qed

lemma loop_pre_terminal:
  assumes "loop_pre rules (s # todo) seen" "terminal_stack rules s"
  shows "loop_pre rules todo (insert s seen)"
  using assms terminal_no_step[OF assms(2)] by (auto simp: loop_pre_def)

lemma advance_loop_finite:
  "advance_loop rules todo seen new = Some y \<Longrightarrow> loop_pre rules todo seen \<longrightarrow> loop_finite rules todo seen"
proof (induction rules todo seen new y rule: advance_loop.raw_induct[rotated, consumes 1, case_names step])
  case (step loop rules todo seen new y)
  show ?case
  proof
    assume pre: "loop_pre rules todo seen"
    show "loop_finite rules todo seen"
    proof (cases todo)
      case Nil
      then show ?thesis using pre by (auto simp: loop_pre_def loop_finite_def)
    next
      case (Cons s todo')
      note body = step(1)[rule_format] and res = step(2)
      show ?thesis
      proof (cases "s \<in> seen")
        case True
        then have "loop rules todo' seen new = Some y" using res Cons by simp
        moreover have "loop_pre rules todo' seen" using pre True Cons by (auto simp: loop_pre_def)
        ultimately have "loop_finite rules todo' seen" using body by blast
        then show ?thesis using True Cons by (elim loop_finite_mono) auto
      next
        case False
        show ?thesis
        proof (cases "terminal_stack rules s")
          case True
          then have "loop rules todo' (insert s seen) (add_stack s new) = Some y"
            using res Cons False by (cases s) (auto simp: terminal_stack_def is_terminal_element_def)
          then have "loop_finite rules todo' (insert s seen)"
            using body loop_pre_terminal[OF _ True] pre Cons by blast
          then show ?thesis using Cons by (elim loop_finite_mono) auto
        next
          case nt: False
          then obtain p rest where p: "s = p # rest" "ge_type (elem_at rules p) = GR_RULE_REF"
            using stack_ok_cases pre Cons by (cases s) (auto simp: terminal_stack_def terminal_cases loop_pre_def)
          then have "loop rules (rev (expand_ref rules p rest) @ todo') (insert s seen) new = Some y"
            using res Cons False by simp
          then have "loop_finite rules (rev (expand_ref rules p rest) @ todo') (insert s seen)"
            using body loop_pre_ref[OF _ p(2)] pre Cons p(1) by blast
          then show ?thesis using Cons by (elim loop_finite_mono) auto
        qed
      qed
    qed
  qed
qed

text \<open>
  The grammar \<open>root ::= ("a"?) root "b" | "c"\<close> as the parser translates it: rule 1 is the group,
  rule 2 the optional character.
\<close>

definition lr_rules :: grules where
  "lr_rules = [[gr_elem GR_RULE_REF 1, gr_elem GR_RULE_REF 0, gr_elem GR_CHAR 98, gr_elem GR_ALT 0, gr_elem GR_CHAR 99, gr_elem GR_END 0],
     [gr_elem GR_RULE_REF 2, gr_elem GR_END 0],
     [gr_elem GR_CHAR 97, gr_elem GR_ALT 0, gr_elem GR_END 0]]"

lemma lr_rules_nth: "lr_rules ! 0 = [gr_elem GR_RULE_REF 1, gr_elem GR_RULE_REF 0, gr_elem GR_CHAR 98, gr_elem GR_ALT 0,
      gr_elem GR_CHAR 99, gr_elem GR_END 0]"
    "lr_rules ! 1 = [gr_elem GR_RULE_REF 2, gr_elem GR_END 0]"
    "lr_rules ! 2 = [gr_elem GR_CHAR 97, gr_elem GR_ALT 0, gr_elem GR_END 0]" "length lr_rules = 3"
  by (simp_all add: lr_rules_def)

lemma lr_wf: "grammar_wf lr_rules"
  unfolding grammar_wf_def lr_rules_nth(4)
  using lr_rules_nth(1-3) by (auto simp: less_Suc_eq numeral_3_eq_3 numeral_2_eq_2 gr_elem_def)

lemma gr_elem_end [simp]: "ge_type (gr_elem t v) = t" "ge_value (gr_elem t v) = v"
    "is_end_of_sequence (gr_elem t v) \<longleftrightarrow> t \<in> {GR_END, GR_ALT}"
  by (simp_all add: gr_elem_def is_end_of_sequence_def)

lemma alts_from_alt: "scan_end es i = j \<Longrightarrow> j < length es \<Longrightarrow> ge_type (es ! j) = GR_ALT \<Longrightarrow> alts_from es i = i # alts_from es (Suc j)"
  by (subst alts_from.simps) simp

lemma alts_from_last: "scan_end es i = j \<Longrightarrow> ge_type (es ! j) \<noteq> GR_ALT \<Longrightarrow> alts_from es i = [i]"
  by (subst alts_from.simps) simp

lemma lr_alts: "alts_from (lr_rules ! 0) 0 = [0, 4]" "alts_from (lr_rules ! 1) 0 = [0]" "alts_from (lr_rules ! 2) 0 = [0, 2]"
proof -
  have "alts_from (lr_rules ! 0) 4 = [4]"
    by (rule alts_from_last[where j = 5]) (simp_all add: lr_rules_nth scan_end_def)
  moreover have "alts_from (lr_rules ! 0) 0 = 0 # alts_from (lr_rules ! 0) (Suc 3)"
    by (rule alts_from_alt) (simp_all add: lr_rules_nth scan_end_def)
  ultimately show "alts_from (lr_rules ! 0) 0 = [0, 4]" by simp
  show "alts_from (lr_rules ! 1) 0 = [0]"
    by (rule alts_from_last[where j = 1]) (simp_all only: lr_rules_nth, simp_all add: scan_end_def)
  have "alts_from (lr_rules ! 2) 2 = [2]"
    by (rule alts_from_last[where j = 2]) (simp_all add: lr_rules_nth scan_end_def)
  moreover have "alts_from (lr_rules ! 2) 0 = 0 # alts_from (lr_rules ! 2) (Suc 1)"
    by (rule alts_from_alt) (simp_all add: lr_rules_nth scan_end_def)
  ultimately show "alts_from (lr_rules ! 2) 0 = [0, 2]" by (simp add: numeral_2_eq_2)
qed

lemma lr_elem:
  "elem_at lr_rules (0, 0) = gr_elem GR_RULE_REF 1" "elem_at lr_rules (0, 1) = gr_elem GR_RULE_REF 0"
  "elem_at lr_rules (0, 2) = gr_elem GR_CHAR 98" "elem_at lr_rules (0, 4) = gr_elem GR_CHAR 99"
  "elem_at lr_rules (1, 0) = gr_elem GR_RULE_REF 2" "elem_at lr_rules (1, 1) = gr_elem GR_END 0"
  "elem_at lr_rules (2, 0) = gr_elem GR_CHAR 97" "elem_at lr_rules (2, 2) = gr_elem GR_END 0"
  by (simp_all add: elem_at_def lr_rules_def)

lemma lr_expand:
  "expand_ref lr_rules (0, 0) rest = [(1, 0) # (0, 1) # rest]"
  "expand_ref lr_rules (1, 0) rest = [(2, 0) # rest, rest]"
  "expand_ref lr_rules (0, 1) rest = [(0, 0) # (0, 2) # rest, (0, 4) # (0, 2) # rest]"
  by (simp_all add: expand_ref_def push_pos_def pos_add_def Let_def lr_elem lr_alts del: One_nat_def)

lemma lr_steps:
  "eps_step lr_rules ((0, 0) # rest) ((1, 0) # (0, 1) # rest)"
  "eps_step lr_rules ((1, 0) # (0, 1) # rest) ((0, 1) # rest)"
  "eps_step lr_rules ((0, 1) # rest) ((0, 0) # (0, 2) # rest)"
  by (simp_all add: eps_step_def lr_elem lr_expand del: One_nat_def)

lemma lr_round: "\<lbrakk>\<And>s t. s \<in> F \<Longrightarrow> eps_step lr_rules s t \<Longrightarrow> t \<in> F; (0, 0) # rest \<in> F\<rbrakk> \<Longrightarrow> (0, 0) # (0, 2) # rest \<in> F"
  using lr_steps by blast

lemma lr_advance_none: "advance_stack lr_rules [(0, 0)] new = None"
proof (rule ccontr)
  assume "advance_stack lr_rules [(0, 0)] new \<noteq> None"
  then obtain y where "advance_loop lr_rules [[(0, 0)]] {} new = Some y" by (auto simp: advance_stack_def)
  moreover have "loop_pre lr_rules [[(0, 0)]] {}"
    using lr_wf by (simp add: loop_pre_def pos_ok_def lr_elem lr_rules_nth is_cont_def)
  ultimately have "loop_finite lr_rules [[(0, 0)]] {}" using advance_loop_finite by blast
  then obtain F where F: "finite F" "[(0, 0)] \<in> F" "\<And>s t. s \<in> F \<Longrightarrow> eps_step lr_rules s t \<Longrightarrow> t \<in> F"
    unfolding loop_finite_def by auto
  have "(0, 0) # replicate n (0, 2) \<in> F" for n
  proof (induction n)
    case (Suc n)
    then show ?case using lr_round[OF F(3)] by simp
  qed (use F in simp)
  then have "range (\<lambda>n. (0, 0) # replicate n (0, 2)) \<subseteq> F" by blast
  moreover have "inj (\<lambda>n. (0::nat, 0::nat) # replicate n (0, 2))"
    by (rule injI) (simp add: replicate_eq_replicate)
  ultimately show False using F(1) by (meson finite_subset infinite_UNIV_nat finite_imageD)
qed

text \<open>C36: The check for left recursion sees only empty alternates, not rules that become empty through another rule:
  the grammar \<open>root ::= ("a"?) root "b" | "c"\<close> passes it, and building the initial stacks never ends.\<close>

theorem left_recursion_missed:
  "left_recursion_found lr_rules = Some False \<and> init_stacks lr_rules 0 = None"
proof
  have "push_pos lr_rules (0, 0) [] = [(0, 0)]" by (simp add: push_pos_def lr_elem)
  then show "init_stacks lr_rules 0 = None"
    unfolding init_stacks_def using lr_alts(1) by (simp add: lr_advance_none rbind_def)
qed (simp add: left_recursion_found_def lr_rules_def detect_left_recursion.simps upt_rec insert_Diff_if numeral_2_eq_2)

theorem left_recursion_check_witness:
  "\<exists>found. left_recursion_found demo_rules = Some found \<and>
    (explicit_empty demo_rules \<and> \<not> found \<longrightarrow> \<not> left_recursive demo_rules)"
  using left_recursion_check[OF demo_wf] by simp

end
