(* ===== verification/GrammarInit.thy ===== *)
theory GrammarInit
  imports GrammarParseOk GrammarLeftRec
begin

text \<open>
  Construction of a grammar in \<open>engine/src/llama-grammar.cpp\<close>: from rule vectors, from a text through
  the process-wide cache of parsed grammars (\<open>llama_grammar_init_impl\<close>, \<open>llama_grammar_parse_cache\<close>),
  and by cloning; and where a trigger pattern starts (\<open>llama_grammar_trigger_pattern::find\<close>). The cache
  is the state; a vocabulary is its address and what its \<open>tokenize\<close> does. The result \<open>None\<close> of a
  constructor is a null pointer. The main results are that the cache never changes what a construction
  returns, and that it holds at most sixteen entries.
\<close>

section \<open>From rules\<close>

text \<open>A rule is read up to its end marker; without one the read leaves the vector.\<close>

definition copy_rule :: "grule \<Rightarrow> grule res" where
  "copy_rule rule =
     (if list_ex (\<lambda>e. ge_type e = GR_END) rule
      then ret (takeWhile (\<lambda>e. ge_type e \<noteq> GR_END) rule @ [elem GR_END 0])
      else Some (Inl Out_of_range))"

definition refs_valid :: "grules \<Rightarrow> bool" where
  "refs_valid rules \<longleftrightarrow> list_all (list_all (\<lambda>e. ge_type e = GR_RULE_REF \<longrightarrow>
     \<not> (ge_value e \<ge> length rules \<or> rules ! ge_value e = []))) rules"

text \<open>The initial stacks of a start rule; a start rule outside the vector is an access out of range.\<close>

definition start_stacks :: "grules \<Rightarrow> nat \<Rightarrow> gstacks res" where
  "start_stacks rules start_rule_index =
     (if start_rule_index < length rules then init_stacks rules start_rule_index else Some (Inl Out_of_range))"

definition new_grammar :: "grules \<Rightarrow> gstacks \<Rightarrow> bool \<Rightarrow> llama_token list \<Rightarrow> llama_grammar" where
  "new_grammar rules stacks lazy trigger_tokens =
     \<lparr>g_rules = rules, g_stacks = stacks, g_partial_utf8 = \<lparr>pu_value = 0, pu_n_remain = 0\<rparr>, g_lazy = lazy,
      g_awaiting_trigger = lazy, g_trigger_buffer = [], g_trigger_buffer_positions = [], g_trigger_tokens = trigger_tokens\<rparr>"

text \<open>A result of the left recursion check that does not come is a call that does not return.\<close>

definition of_check :: "bool option \<Rightarrow> bool res" where
  "of_check r = (case r of None \<Rightarrow> None | Some found \<Rightarrow> ret found)"

definition llama_grammar_init_rules :: "grules \<Rightarrow> nat \<Rightarrow> llama_grammar option res" where
  "llama_grammar_init_rules rules start_rule_index =
     rbind (rmap copy_rule rules) (\<lambda>vec_rules.
       if \<not> refs_valid vec_rules then ret None
       else
         rbind (of_check (left_recursion_found vec_rules)) (\<lambda>found.
           if found then ret None
           else rbind (start_stacks vec_rules start_rule_index) (\<lambda>stacks. ret (Some (new_grammar vec_rules stacks False [])))))"

section \<open>The cache of parsed grammars\<close>

record cache_entry =
  ce_rules :: grules
  ce_root_index :: nat

record parse_cache =
  pc_entries :: "(string \<times> cache_entry) list"
  pc_lru :: "string list"

definition kMaxEntries :: nat where
  "kMaxEntries = 16"

definition cache_find :: "string \<Rightarrow> parse_cache \<Rightarrow> cache_entry option \<times> parse_cache" where
  "cache_find key cache =
     (case map_of (pc_entries cache) key of
        None \<Rightarrow> (None, cache)
      | Some entry \<Rightarrow> (Some entry, cache\<lparr>pc_lru := key # remove1 key (pc_lru cache)\<rparr>))"

definition cache_evict :: "parse_cache \<Rightarrow> parse_cache" where
  "cache_evict cache = cache\<lparr>pc_entries := filter (\<lambda>(k, _). k \<noteq> last (pc_lru cache)) (pc_entries cache), pc_lru := butlast (pc_lru cache)\<rparr>"

definition cache_put :: "string \<Rightarrow> cache_entry \<Rightarrow> parse_cache \<Rightarrow> parse_cache" where
  "cache_put key entry cache =
     (case map_of (pc_entries cache) key of
        Some _ \<Rightarrow> cache\<lparr>pc_entries := AList.update key entry (pc_entries cache)\<rparr>
      | None \<Rightarrow>
          let cache = (if length (pc_entries cache) \<ge> kMaxEntries then cache_evict cache else cache)
          in cache\<lparr>pc_entries := pc_entries cache @ [(key, entry)], pc_lru := key # pc_lru cache\<rparr>)"

definition c_str :: "string \<Rightarrow> string" where
  "c_str s = takeWhile (\<lambda>c. c \<noteq> CHR 0x00) s"

definition parse_cache_key :: "nat \<Rightarrow> string \<Rightarrow> string \<Rightarrow> string" where
  "parse_cache_key vocab_ptr grammar_root grammar_str =
     to_string vocab_ptr @ CHR 0x1F # c_str grammar_root @ CHR 0x1F # c_str grammar_str"

section \<open>From a text\<close>

text \<open>What is cached: the parsed rules and the start rule, or \<open>None\<close> if the text is refused.\<close>

definition parse_entry :: "vocab \<Rightarrow> string \<Rightarrow> string \<Rightarrow> cache_entry option res" where
  "parse_entry vocab grammar_root grammar_str =
     rbind (parse vocab grammar_str) (\<lambda>parser.
       case parser of
         None \<Rightarrow> ret None
       | Some ps \<Rightarrow>
           if gp_rules ps = [] then ret None
           else
             (case map_of (gp_symbol_ids ps) (c_str grammar_root) of
                None \<Rightarrow> ret None
              | Some start_rule_index \<Rightarrow>
                  rbind (rmap copy_rule (gp_rules ps)) (\<lambda>vec_rules.
                  rbind (of_check (left_recursion_found vec_rules)) (\<lambda>found.
                    ret (if found then None else Some \<lparr>ce_rules = vec_rules, ce_root_index = start_rule_index\<rparr>)))))"

text \<open>\<open>regex_ok\<close> tells whether the standard library accepts a trigger pattern; otherwise it throws.\<close>

definition build_grammar :: "(string \<Rightarrow> bool) \<Rightarrow> bool \<Rightarrow> string list \<Rightarrow> llama_token list \<Rightarrow> cache_entry \<Rightarrow> llama_grammar res" where
  "build_grammar regex_ok lazy trigger_patterns trigger_tokens entry =
     rbind (start_stacks (ce_rules entry) (ce_root_index entry)) (\<lambda>stacks.
       if \<not> list_all regex_ok trigger_patterns then throw ''regex_error''
       else ret (new_grammar (ce_rules entry) stacks lazy trigger_tokens))"

text \<open>\<open>vocabs\<close> is what lies at each address at the time of the call.\<close>

definition llama_grammar_init_impl :: "(nat \<Rightarrow> vocab) \<Rightarrow> (string \<Rightarrow> bool) \<Rightarrow> nat \<Rightarrow> string \<Rightarrow> string \<Rightarrow> bool \<Rightarrow> string list \<Rightarrow>
    llama_token list \<Rightarrow> parse_cache \<Rightarrow> llama_grammar option res \<times> parse_cache" where
  "llama_grammar_init_impl vocabs regex_ok vocab_ptr grammar_str grammar_root lazy trigger_patterns trigger_tokens cache =
     (let cache_key = parse_cache_key vocab_ptr grammar_root grammar_str;
          build = (\<lambda>entry. rbind (build_grammar regex_ok lazy trigger_patterns trigger_tokens entry) (\<lambda>g. ret (Some g)))
      in case cache_find cache_key cache of
           (Some entry, cache) \<Rightarrow> (build entry, cache)
         | (None, cache) \<Rightarrow>
             (case parse_entry (vocabs vocab_ptr) grammar_root grammar_str of
                Some (Inr (Some entry)) \<Rightarrow> (build entry, cache_put cache_key entry cache)
              | Some (Inr None) \<Rightarrow> (ret None, cache)
              | Some (Inl e) \<Rightarrow> (Some (Inl e), cache)
              | None \<Rightarrow> (None, cache)))"

section \<open>Cloning and triggers\<close>

text \<open>
  Cloning redirects every stack entry that points into the old rules to the same place of the new rules.
  Here an address is the base of a rule vector and an index; the entries are compared by address.
\<close>

type_synonym address = "nat \<times> nat"

definition redirect :: "(nat \<Rightarrow> nat) \<Rightarrow> (nat \<Rightarrow> nat) \<Rightarrow> grules \<Rightarrow> address \<Rightarrow> address" where
  "redirect old_base new_base rules a =
     fold (\<lambda>ir0 a'. fold (\<lambda>ir1 a'. if a = (old_base ir0, ir1) then (new_base ir0, ir1) else a') [0..<length (rules ! ir0)] a')
       [0..<length rules] a"

definition llama_grammar_clone_stacks :: "(nat \<Rightarrow> nat) \<Rightarrow> (nat \<Rightarrow> nat) \<Rightarrow> grules \<Rightarrow> address list list \<Rightarrow> address list list" where
  "llama_grammar_clone_stacks old_base new_base rules stacks = map (map (redirect old_base new_base rules)) stacks"

text \<open>
  The match of a pattern: position and length of the whole match and of its groups, first the whole.
  The two search functions of the standard library are parameters.
\<close>

type_synonym smatch = "(nat \<times> nat) list"

definition find_start_pos :: "smatch \<Rightarrow> nat" where
  "find_start_pos match =
     (case find (\<lambda>(_, len). len > 0) (tl match) of Some (start, _) \<Rightarrow> start | None \<Rightarrow> fst (hd match))"

definition trigger_pattern_find :: "(byte list \<Rightarrow> smatch option) \<Rightarrow> (byte list \<Rightarrow> smatch option) \<Rightarrow> string \<Rightarrow> byte list \<Rightarrow> nat option" where
  "trigger_pattern_find regex_match regex_search pattern input =
     (let anchored = pattern \<noteq> [] \<and> hd pattern = CHR ''^'' \<and> last pattern = CHR ''$'' in
      case (if anchored then regex_match input else None) of
        Some match \<Rightarrow> Some (find_start_pos match)
      | None \<Rightarrow> map_option find_start_pos (regex_search input))"

section \<open>Memo tables\<close>

text \<open>
  What the construction relies on of its cache: looking up changes at most the order of use, storing a new
  key adds at most that entry, and both keep the table well-formed. A table whose entries all satisfy a
  specification then only ever returns values that satisfy it.
\<close>

locale memo_table =
  fixes lookup :: "'k \<Rightarrow> 't \<Rightarrow> 'v option \<times> 't"
    and store :: "'k \<Rightarrow> 'v \<Rightarrow> 't \<Rightarrow> 't"
    and contents :: "'t \<Rightarrow> ('k \<times> 'v) set"
    and wf :: "'t \<Rightarrow> bool"
  assumes lookup_keeps: "wf t \<Longrightarrow> lookup k t = (r, t') \<Longrightarrow> contents t' = contents t \<and> wf t'"
    and lookup_found: "wf t \<Longrightarrow> lookup k t = (Some v, t') \<Longrightarrow> (k, v) \<in> contents t"
    and lookup_missing: "wf t \<Longrightarrow> lookup k t = (None, t') \<Longrightarrow> k \<notin> fst ` contents t"
    and store_new: "wf t \<Longrightarrow> k \<notin> fst ` contents t \<Longrightarrow> wf (store k v t) \<and> contents (store k v t) \<subseteq> insert (k, v) (contents t)"
begin

lemma lookup_spec:
  assumes "wf t" "\<forall>(k, v) \<in> contents t. S k v" "lookup k t = (r, t')"
  shows "wf t'" "\<forall>(k, v) \<in> contents t'. S k v" "r = Some v \<Longrightarrow> S k v"
  using assms lookup_keeps[OF assms(1,3)] lookup_found[OF assms(1)] by auto

lemma store_spec:
  assumes "wf t" "\<forall>(k, v) \<in> contents t. S k v" "lookup k t = (None, t')" "S k v"
  shows "wf (store k v t')" "\<forall>(k, v) \<in> contents (store k v t'). S k v"
proof -
  have t': "wf t'" "contents t' = contents t" using lookup_keeps[OF assms(1,3)] by auto
  then have "wf (store k v t') \<and> contents (store k v t') \<subseteq> insert (k, v) (contents t')"
    using lookup_missing[OF assms(1,3)] by (intro store_new) auto
  then show "wf (store k v t')" "\<forall>(k, v) \<in> contents (store k v t'). S k v" using assms(2,4) t'(2) by auto
qed

end

section \<open>The cache is transparent\<close>

definition empty_cache :: parse_cache where
  "empty_cache = \<lparr>pc_entries = [], pc_lru = []\<rparr>"

definition cache_wf :: "parse_cache \<Rightarrow> bool" where
  "cache_wf cache \<longleftrightarrow> distinct (map fst (pc_entries cache)) \<and> distinct (pc_lru cache) \<and>
     set (pc_lru cache) = fst ` set (pc_entries cache) \<and> length (pc_entries cache) \<le> kMaxEntries"

definition root_ok :: "string \<Rightarrow> bool" where
  "root_ok grammar_root \<longleftrightarrow> CHR 0x1F \<notin> set (c_str grammar_root)"

text \<open>Every entry is what the parser gave for a request with its key, with a vocabulary of the history \<open>H\<close>: the pairs of an address and
  the vocabulary that was there at some construction.\<close>

definition entry_ok :: "(nat \<times> vocab) set \<Rightarrow> string \<Rightarrow> cache_entry \<Rightarrow> bool" where
  "entry_ok H key entry \<longleftrightarrow> (\<exists>p vocab start str. (p, vocab) \<in> H \<and> root_ok start \<and> key = parse_cache_key p start str \<and>
     parse_entry vocab start str = ret (Some entry))"

definition cache_sound :: "(nat \<times> vocab) set \<Rightarrow> parse_cache \<Rightarrow> bool" where
  "cache_sound H cache \<longleftrightarrow> (\<forall>(k, e) \<in> set (pc_entries cache). entry_ok H k e)"

text \<open>The states of the cache: constructions one after the other, from the empty cache; what lies at an address may change between
  them.\<close>

inductive cache_reachable :: "(nat \<times> vocab) set \<Rightarrow> parse_cache \<Rightarrow> bool" where
  cache_start: "cache_reachable {} empty_cache"
| cache_init: "cache_reachable H cache \<Longrightarrow> root_ok start \<Longrightarrow>
    cache_reachable (insert (p, vocabs p) H) (snd (llama_grammar_init_impl vocabs regex_ok p str start lazy patterns tokens cache))"

lemma to_string_no_sep: "CHR 0x1F \<notin> set (to_string n)"
  using to_string_digits[of "CHR 0x1F" n] by (auto simp: chr_code_def)

lemma cache_key_inj:
  assumes "parse_cache_key p start str = parse_cache_key p' start' str'" "root_ok start" "root_ok start'"
  shows "p = p'" "c_str start = c_str start'" "c_str str = c_str str'"
proof -
  have 1: "to_string p = to_string p' \<and> c_str start @ CHR 0x1F # c_str str = c_str start' @ CHR 0x1F # c_str str'"
    using sep_split[OF to_string_no_sep to_string_no_sep assms(1)[unfolded parse_cache_key_def]] .
  then show "p = p'" using to_string_inj by blast
  show "c_str start = c_str start'" "c_str str = c_str str'"
    using sep_split[OF assms(2,3)[unfolded root_ok_def] conjunct2[OF 1]] by simp_all
qed

lemma parse_entry_c_str: "c_str start = c_str start' \<Longrightarrow> c_str str = c_str str' \<Longrightarrow> parse_entry vocab start str = parse_entry vocab start' str'"
proof -
  assume eq: "c_str start = c_str start'" "c_str str = c_str str'"
  then have "parse vocab str = parse vocab str'" by (simp add: parse_def parse_text_def c_str_def)
  then show ?thesis unfolding parse_entry_def eq(1) by (rule arg_cong)
qed

lemma cache_find_props:
  assumes "cache_find key cache = (found, cache')" "cache_wf cache"
  shows "found = map_of (pc_entries cache) key" "cache_wf cache'" "pc_entries cache' = pc_entries cache"
proof -
  show f: "found = map_of (pc_entries cache) key" "pc_entries cache' = pc_entries cache"
    using assms(1) by (auto simp: cache_find_def split: option.splits)
  show "cache_wf cache'"
  proof (cases "map_of (pc_entries cache) key")
    case (Some e)
    have "key \<in> set (pc_lru cache)" using map_of_SomeD[OF Some] assms(2) by (force simp: cache_wf_def)
    moreover have "distinct (pc_lru cache)" using assms(2) by (simp add: cache_wf_def)
    ultimately have "set (key # remove1 key (pc_lru cache)) = set (pc_lru cache)" "distinct (key # remove1 key (pc_lru cache))" by auto
    moreover have "cache' = cache\<lparr>pc_lru := key # remove1 key (pc_lru cache)\<rparr>" using Some assms(1) by (simp add: cache_find_def)
    ultimately show ?thesis using assms(2) unfolding cache_wf_def by (metis parse_cache.select_convs parse_cache.surjective parse_cache.update_convs(2))
  qed (use assms in \<open>simp add: cache_find_def\<close>)
qed

lemma cache_evict_wf:
  assumes "cache_wf cache" "length (pc_entries cache) \<ge> kMaxEntries"
  shows "cache_wf (cache_evict cache)" "length (pc_entries (cache_evict cache)) < kMaxEntries"
    "set (pc_entries (cache_evict cache)) \<subseteq> set (pc_entries cache)"
proof -
  let ?P = "\<lambda>(k, _). k \<noteq> last (pc_lru cache)"
  have wf: "distinct (map fst (pc_entries cache))" "distinct (pc_lru cache)" "set (pc_lru cache) = fst ` set (pc_entries cache)"
      "length (pc_entries cache) \<le> kMaxEntries"
    using assms(1) by (auto simp: cache_wf_def)
  have "pc_entries cache \<noteq> []" using assms(2) by (auto simp: kMaxEntries_def)
  then have ne: "pc_lru cache \<noteq> []" using wf(3) by (metis image_is_empty set_empty)
  obtain xs x where lru_eq: "pc_lru cache = xs @ [x]" using ne by (metis append_butlast_last_id)
  have lru: "distinct (butlast (pc_lru cache))" "set (butlast (pc_lru cache)) = set (pc_lru cache) - {last (pc_lru cache)}"
    using wf(2) lru_eq by auto
  obtain e where "(last (pc_lru cache), e) \<in> set (pc_entries cache)" using wf(3) last_in_set[OF ne] by auto
  then have "length (filter ?P (pc_entries cache)) < length (pc_entries cache)" by (intro length_filter_less) auto
  then show less: "length (pc_entries (cache_evict cache)) < kMaxEntries" using wf(4) by (simp add: cache_evict_def)
  have "distinct (map fst (filter ?P (pc_entries cache)))" using wf(1) by (rule distinct_map_filter)
  moreover have "fst ` set (filter ?P (pc_entries cache)) = set (pc_lru cache) - {last (pc_lru cache)}" using wf(3) by force
  ultimately show "cache_wf (cache_evict cache)" using lru less by (simp add: cache_wf_def cache_evict_def)
  show "set (pc_entries (cache_evict cache)) \<subseteq> set (pc_entries cache)" by (auto simp: cache_evict_def)
qed

lemma cache_put_new:
  assumes "cache_wf cache" "map_of (pc_entries cache) key = None"
  shows "cache_wf (cache_put key entry cache)" "set (pc_entries (cache_put key entry cache)) \<subseteq> insert (key, entry) (set (pc_entries cache))"
proof -
  define c where "c = (if length (pc_entries cache) \<ge> kMaxEntries then cache_evict cache else cache)"
  have c: "cache_wf c" "length (pc_entries c) < kMaxEntries" "set (pc_entries c) \<subseteq> set (pc_entries cache)"
    using assms(1) cache_evict_wf by (auto simp: c_def)
  have "key \<notin> fst ` set (pc_entries c)" using c(3) assms(2) by (auto simp: map_of_eq_None_iff)
  moreover have put: "cache_put key entry cache = c\<lparr>pc_entries := pc_entries c @ [(key, entry)], pc_lru := key # pc_lru c\<rparr>"
    using assms(2) by (simp add: cache_put_def c_def Let_def)
  ultimately show "cache_wf (cache_put key entry cache)" using c(1,2) by (auto simp: cache_wf_def)
  show "set (pc_entries (cache_put key entry cache)) \<subseteq> insert (key, entry) (set (pc_entries cache))" using c(3) put by auto
qed

interpretation pc: memo_table cache_find cache_put "\<lambda>cache. set (pc_entries cache)" cache_wf
proof unfold_locales
  fix cache key found cache' entry
  show "set (pc_entries cache') = set (pc_entries cache) \<and> cache_wf cache'" if "cache_wf cache" "cache_find key cache = (found, cache')"
    using cache_find_props[OF that(2,1)] by simp
  show "(key, entry) \<in> set (pc_entries cache)" if "cache_wf cache" "cache_find key cache = (Some entry, cache')"
    using cache_find_props(1)[OF that(2,1)] by (simp add: map_of_SomeD)
  show "key \<notin> fst ` set (pc_entries cache)" if "cache_wf cache" "cache_find key cache = (None, cache')"
    using cache_find_props(1)[OF that(2,1), symmetric] by (simp only: map_of_eq_None_iff not_False_eq_True)
  show "cache_wf (cache_put key entry cache) \<and> set (pc_entries (cache_put key entry cache)) \<subseteq> insert (key, entry) (set (pc_entries cache))"
    if "cache_wf cache" "key \<notin> fst ` set (pc_entries cache)"
    using cache_put_new[OF that(1)] that(2) by (simp add: map_of_eq_None_iff)
qed

lemma entry_ok_mono: "entry_ok H key e \<Longrightarrow> H \<subseteq> H' \<Longrightarrow> entry_ok H' key e"
  unfolding entry_ok_def by blast

lemma cache_sound_mono: "cache_sound H cache \<Longrightarrow> H \<subseteq> H' \<Longrightarrow> cache_sound H' cache"
  unfolding cache_sound_def using entry_ok_mono by blast

lemma entry_of_key:
  assumes "entry_ok H (parse_cache_key p start str) e" "root_ok start" "\<forall>v. (p, v) \<in> H \<longrightarrow> v = vocab"
  shows "parse_entry vocab start str = ret (Some e)"
proof -
  obtain q v start' str' where e: "(q, v) \<in> H" "root_ok start'" "parse_cache_key p start str = parse_cache_key q start' str'"
      "parse_entry v start' str' = ret (Some e)" using assms(1) unfolding entry_ok_def by blast
  note k = cache_key_inj[OF e(3) assms(2) e(2)]
  have "v = vocab" using e(1) assms(3) k(1) by simp
  then show ?thesis using e(4) parse_entry_c_str[OF k(2,3)] by simp
qed

text \<open>One construction: with or without a cached entry it gives what it gives from the empty cache.\<close>

lemma init_step:
  assumes wf: "cache_wf cache" and sound: "cache_sound H cache" and start: "root_ok start"
  shows "\<forall>v. (p, v) \<in> H \<longrightarrow> v = vocabs p \<Longrightarrow> fst (llama_grammar_init_impl vocabs regex_ok p str start lazy patterns tokens cache) =
      fst (llama_grammar_init_impl vocabs regex_ok p str start lazy patterns tokens empty_cache)"
    "cache_wf (snd (llama_grammar_init_impl vocabs regex_ok p str start lazy patterns tokens cache))"
    "cache_sound (insert (p, vocabs p) H) (snd (llama_grammar_init_impl vocabs regex_ok p str start lazy patterns tokens cache))"
proof -
  define key where "key = parse_cache_key p start str"
  define parsed_entry where "parsed_entry = parse_entry (vocabs p) start str"
  let ?H = "insert (p, vocabs p) H"
  have sound': "cache_sound ?H cache" using cache_sound_mono[OF sound] by blast
  obtain found c where f: "cache_find key cache = (found, c)" by force
  note c = pc.lookup_spec[OF wf sound[unfolded cache_sound_def] f, folded cache_sound_def]
  note c' = pc.lookup_spec[OF wf sound'[unfolded cache_sound_def] f, folded cache_sound_def]
  have empty: "cache_find key empty_cache = (None, empty_cache)" by (simp add: cache_find_def empty_cache_def)
  have new: "entry_ok ?H key e" if "parsed_entry = ret (Some e)" for e
    using that start unfolding entry_ok_def key_def parsed_entry_def by blast
  have put: "cache_wf (cache_put key e c)" "cache_sound ?H (cache_put key e c)" if e: "parsed_entry = ret (Some e)" and none: "found = None" for e
    using pc.store_spec[OF wf sound'[unfolded cache_sound_def] f[unfolded none] new[OF e]] by (auto simp: cache_sound_def)
  show "fst (llama_grammar_init_impl vocabs regex_ok p str start lazy patterns tokens cache) =
      fst (llama_grammar_init_impl vocabs regex_ok p str start lazy patterns tokens empty_cache)" if same: "\<forall>v. (p, v) \<in> H \<longrightarrow> v = vocabs p"
  proof -
    have hit: "parsed_entry = ret (Some e)" if "found = Some e" for e
      using entry_of_key[OF c(3)[OF that, unfolded key_def] start same] by (simp add: parsed_entry_def)
    show ?thesis using hit f empty unfolding llama_grammar_init_impl_def Let_def key_def[symmetric] parsed_entry_def[symmetric]
      by (cases found) (auto simp: ret_def split: option.splits sum.splits)
  qed
  show "cache_wf (snd (llama_grammar_init_impl vocabs regex_ok p str start lazy patterns tokens cache))"
    using f c(1) put unfolding llama_grammar_init_impl_def Let_def key_def[symmetric] parsed_entry_def[symmetric]
    by (cases found) (auto simp: ret_def split: option.splits sum.splits)
  show "cache_sound ?H (snd (llama_grammar_init_impl vocabs regex_ok p str start lazy patterns tokens cache))"
    using f c'(2) put unfolding llama_grammar_init_impl_def Let_def key_def[symmetric] parsed_entry_def[symmetric]
    by (cases found) (auto simp: ret_def split: option.splits sum.splits)
qed

lemma cache_reachable_ok: "cache_reachable H cache \<Longrightarrow> cache_wf cache \<and> cache_sound H cache"
proof (induction rule: cache_reachable.induct)
  case cache_start
  show ?case by (simp add: cache_wf_def cache_sound_def empty_cache_def)
next
  case (cache_init H cache start p vocabs regex_ok str lazy patterns tokens)
  then show ?case using init_step(2,3)[of cache H start] by blast
qed

text \<open>C12: after any constructions from texts, with whatever vocabularies and addresses, a further construction returns what it
  returns with an empty cache of parsed grammars, provided that all earlier constructions with a vocabulary at the same address had the same
  vocabulary and that no name of a start rule contains the separator of the key (the byte 0x1F). The cache holds at most sixteen
  entries. Without the first proviso it fails (\<open>stale_vocabulary\<close>).\<close>

theorem cache_transparent:
  assumes "cache_reachable H cache" "root_ok start" "\<forall>vocab. (p, vocab) \<in> H \<longrightarrow> vocab = vocabs p"
  shows "fst (llama_grammar_init_impl vocabs regex_ok p str start lazy patterns tokens cache) =
      fst (llama_grammar_init_impl vocabs regex_ok p str start lazy patterns tokens empty_cache) \<and>
    length (pc_entries (snd (llama_grammar_init_impl vocabs regex_ok p str start lazy patterns tokens cache))) \<le> 16"
proof -
  have "cache_wf cache" "cache_sound H cache" using cache_reachable_ok[OF assms(1)] by simp_all
  note s = init_step[OF this assms(2)]
  have "length (pc_entries (snd (llama_grammar_init_impl vocabs regex_ok p str start lazy patterns tokens cache))) \<le> 16"
    using s(2) unfolding cache_wf_def kMaxEntries_def by blast
  then show ?thesis using s(1)[of p vocabs, OF assms(3)] by blast
qed

text \<open>A vocabulary freed and another at its address: the cached grammar has the token of the old one.\<close>

lemma stale_vocabulary:
  fixes regex_ok :: "string \<Rightarrow> bool"
  defines "old \<equiv> \<lambda>_ :: nat. Some (\<lambda>_ :: string. (1 :: int, 7 :: llama_token))" and "new \<equiv> \<lambda>_ :: nat. Some (\<lambda>_ :: string. (1 :: int, 8 :: llama_token))"
  defines "cache \<equiv> snd (llama_grammar_init_impl old regex_ok 0 ''root ::= <a>'' ''root'' False [] [] empty_cache)"
  shows "fst (llama_grammar_init_impl new regex_ok 0 ''root ::= <a>'' ''root'' False [] [] cache) \<noteq>
    fst (llama_grammar_init_impl new regex_ok 0 ''root ::= <a>'' ''root'' False [] [] empty_cache)"
proof -
  let ?r = "\<lambda>t. [[gr_elem GR_TOKEN t, gr_elem GR_END 0]]"
  have parsed: "parse (Some (\<lambda>_. (1, 7))) ''root ::= <a>'' = ret (Some \<lparr>gp_symbol_ids = [(''root'', 0)], gp_rules = ?r 7\<rparr>)"
    "parse (Some (\<lambda>_. (1, 8))) ''root ::= <a>'' = ret (Some \<lparr>gp_symbol_ids = [(''root'', 0)], gp_rules = ?r 8\<rparr>)"
    by (simp_all add: parse_eval token_item_def parse_token_def gr_elem_def)
  have check: "left_recursion_found (?r t) = Some False" for t
    by (simp add: left_recursion_found_def detect_left_recursion.simps)
  have copy: "copy_rule [gr_elem GR_TOKEN t, gr_elem GR_END 0] = ret [gr_elem GR_TOKEN t, gr_elem GR_END 0]" for t
    by (simp add: copy_rule_def gr_elem_def elem_def)
  have entry: "parse_entry (Some (\<lambda>_. (1, 7))) ''root'' ''root ::= <a>'' = ret (Some \<lparr>ce_rules = ?r 7, ce_root_index = 0\<rparr>)"
    "parse_entry (Some (\<lambda>_. (1, 8))) ''root'' ''root ::= <a>'' = ret (Some \<lparr>ce_rules = ?r 8, ce_root_index = 0\<rparr>)"
    using parsed check copy by (simp_all add: parse_entry_def of_check_def rbind_def ret_def c_str_def)
  have start: "start_stacks (?r t) 0 = ret [[(0, 0)]]" for t
    by (simp add: start_stacks_def init_stacks_def advance_stack_def advance_loop.simps push_pos_def gr_elem_def elem_at_def
        is_end_of_sequence_def is_terminal_element_def add_stack_def scan_end_def alts_from.simps rbind_def ret_def Let_def)
  have init: "fst (llama_grammar_init_impl v regex_ok 0 ''root ::= <a>'' ''root'' False [] [] c) = ret (Some (new_grammar (?r t) [[(0, 0)]] False []))"
    if "cache_find (parse_cache_key 0 ''root'' ''root ::= <a>'') c = (Some \<lparr>ce_rules = ?r t, ce_root_index = 0\<rparr>, c') \<or>
      cache_find (parse_cache_key 0 ''root'' ''root ::= <a>'') c = (None, c') \<and> parse_entry (v 0) ''root'' ''root ::= <a>'' = ret (Some \<lparr>ce_rules = ?r t, ce_root_index = 0\<rparr>)"
    for v c c' t
    using that start[of t] by (auto simp: llama_grammar_init_impl_def build_grammar_def rbind_def ret_def)
  have empty: "cache_find key empty_cache = (None, empty_cache)" for key by (simp add: cache_find_def empty_cache_def)
  have "cache = cache_put (parse_cache_key 0 ''root'' ''root ::= <a>'') \<lparr>ce_rules = ?r 7, ce_root_index = 0\<rparr> empty_cache"
    unfolding cache_def llama_grammar_init_impl_def Let_def empty using entry(1) by (simp add: old_def ret_def)
  then have "fst (cache_find (parse_cache_key 0 ''root'' ''root ::= <a>'') cache) = Some \<lparr>ce_rules = ?r 7, ce_root_index = 0\<rparr>"
    by (simp add: cache_put_def cache_find_def empty_cache_def kMaxEntries_def)
  then obtain c' where "cache_find (parse_cache_key 0 ''root'' ''root ::= <a>'') cache = (Some \<lparr>ce_rules = ?r 7, ce_root_index = 0\<rparr>, c')"
    by (metis prod.collapse)
  then have "fst (llama_grammar_init_impl new regex_ok 0 ''root ::= <a>'' ''root'' False [] [] cache) = ret (Some (new_grammar (?r 7) [[(0, 0)]] False []))"
    using init by blast
  moreover have "fst (llama_grammar_init_impl new regex_ok 0 ''root ::= <a>'' ''root'' False [] [] empty_cache) = ret (Some (new_grammar (?r 8) [[(0, 0)]] False []))"
    using init[of empty_cache 8 empty_cache new] empty entry(2) by (simp add: new_def)
  ultimately show ?thesis by (simp add: ret_def new_grammar_def gr_elem_def)
qed

section \<open>From a text to its language\<close>

lemma copy_rule_same:
  assumes "rule_ok known rule" "rule \<noteq> []"
  shows "copy_rule rule = ret rule"
proof -
  obtain es where es: "rule = es @ [elem GR_END 0]" "body_ok GR_ALT es" using assms by (auto simp: rule_ok_def)
  have "body_ok prev xs \<Longrightarrow> \<forall>e \<in> set xs. ge_type e \<noteq> GR_END" for prev xs by (induction xs arbitrary: prev) auto
  then have "takeWhile (\<lambda>e. ge_type e \<noteq> GR_END) rule = es" using es by (auto simp: takeWhile_append2)
  then show ?thesis using es(1) by (simp add: copy_rule_def)
qed

lemma rmap_same: "\<forall>x \<in> set xs. f x = ret x \<Longrightarrow> rmap f xs = ret xs"
  by (induction xs) (simp_all add: rbind_def ret_def)

lemma parse_ok:
  assumes "parse vocab str = ret (Some ps)"
  shows "parser_ok ps" "rules_valid ps" "grammar_wf (gp_rules ps)" "rmap copy_rule (gp_rules ps) = ret (gp_rules ps)"
proof -
  have "parse_text vocab str = ret ps"
    using assms by (auto simp: parse_def ret_def split: option.splits sum.splits err.splits)
  then show ok: "parser_ok ps" "rules_valid ps" using parse_text_outcome[of vocab str] by (auto simp: outcome_def ret_def)
  show "grammar_wf (gp_rules ps)" by (rule valid_grammar_wf[OF ok])
  have "copy_rule rule = ret rule" if "rule \<in> set (gp_rules ps)" for rule
    using ok that by (intro copy_rule_same) (auto simp: parser_ok_def rules_valid_def list_all_iff)
  then show "rmap copy_rule (gp_rules ps) = ret (gp_rules ps)" by (intro rmap_same) simp
qed

text \<open>C9: A text that parses becomes a grammar, and the grammar accepts exactly the texts that can be derived from the start rule, on
  these conditions: the name of the start symbol is known and has a rule (its number lies within the rules), the left
  recursion check finds nothing, every rule that derives the empty text has an empty alternate of its own
  (\<open>explicit_empty\<close>; it excludes the texts whose left recursion the check misses, but also harmless ones like \<open>ws ::= [ ]*\<close>,
  where \<open>ws\<close> is empty only through the rule of the repetition), and the trigger patterns are valid.\<close>

theorem text_language:
  assumes parse: "parse (vocabs p) str = ret (Some ps)"
    and start: "map_of (gp_symbol_ids ps) (c_str name) = Some r" "r < length (gp_rules ps)"
    and check: "left_recursion_found (gp_rules ps) = Some False" "explicit_empty (gp_rules ps)"
    and regex: "list_all regex_ok patterns"
  shows "\<exists>g. fst (llama_grammar_init_impl vocabs regex_ok p str name lazy patterns tokens empty_cache) = ret (Some g) \<and>
    g_rules g = gp_rules ps \<and>
    (\<forall>w. \<exists>g'. rfold (\<lambda>c g. llama_grammar_accept g c) w g = ret g' \<and> ([] \<in> set (g_stacks g') \<longleftrightarrow> gen (gp_rules ps) [NT r] w))"
proof -
  note ok = parse_ok[OF parse]
  have nlr: "\<not> left_recursive (gp_rules ps)" by (rule passed_not_left_recursive[OF ok(3) check(2,1)])
  obtain stacks where s: "init_stacks (gp_rules ps) r = ret stacks" "stacks_ok (gp_rules ps) (set stacks)"
    "\<forall>w. stacks_lang (gp_rules ps) (set stacks) w \<longleftrightarrow> gen (gp_rules ps) [NT r] w"
    using init_stacks_correct[OF ok(3) nlr start(2)] by blast
  define g where "g = new_grammar (gp_rules ps) stacks lazy tokens"
  have "gp_rules ps \<noteq> []" using start(2) by auto
  then have "parse_entry (vocabs p) name str = ret (Some \<lparr>ce_rules = gp_rules ps, ce_root_index = r\<rparr>)"
    using parse start(1) ok(4) check(1) by (simp add: parse_entry_def of_check_def rbind_def ret_def)
  moreover have "build_grammar regex_ok lazy patterns tokens \<lparr>ce_rules = gp_rules ps, ce_root_index = r\<rparr> = ret g"
    using s(1) start(2) regex by (simp add: build_grammar_def start_stacks_def g_def rbind_def ret_def)
  ultimately have init: "fst (llama_grammar_init_impl vocabs regex_ok p str name lazy patterns tokens empty_cache) = ret (Some g)"
    by (simp add: llama_grammar_init_impl_def Let_def cache_find_def empty_cache_def rbind_def ret_def)
  have g: "g_rules g = gp_rules ps" "g_stacks g = stacks" by (simp_all add: g_def new_grammar_def)
  have "\<exists>g'. rfold (\<lambda>c g. llama_grammar_accept g c) w g = ret g' \<and> ([] \<in> set (g_stacks g') \<longleftrightarrow> gen (gp_rules ps) [NT r] w)" for w
  proof -
    obtain stacks' where t: "rfold (\<lambda>c g. llama_grammar_accept g c) w g = ret (g\<lparr>g_stacks := stacks'\<rparr>)" "stacks_ok (gp_rules ps) (set stacks')"
        "\<forall>v. stacks_lang (gp_rules ps) (set stacks') v \<longleftrightarrow> stacks_lang (gp_rules ps) (set stacks) (w @ v)"
      using accept_word[of g w] ok(3) nlr s(2) g by auto
    then show ?thesis using stacks_lang_Nil[OF ok(3) t(2)] t(3)[rule_format, of "[]"] s(3) by auto
  qed
  then show ?thesis using init g(1) by blast
qed

text \<open>C38: A start symbol that the text only mentions in a repetition of zero times passes every check, and building the
  initial stacks reads outside the rules.\<close>

theorem start_symbol_undefined:
  "fst (llama_grammar_init_impl (\<lambda>_. None) regex_ok p ''a ::= root{0} [b]'' ''root'' lazy patterns tokens empty_cache) =
    Some (Inl Out_of_range)"
proof -
  have parsed: "parse None ''a ::= root{0} [b]'' = ret (Some \<lparr>gp_symbol_ids = [(''a'', 0), (''root'', 1)],
      gp_rules = [[gr_elem GR_CHAR 98, gr_elem GR_END 0]]\<rparr>)"
    by (simp add: parse_eval gr_elem_def)
  have check: "left_recursion_found [[gr_elem GR_CHAR 98, gr_elem GR_END 0]] = Some False"
    by (simp add: left_recursion_found_def detect_left_recursion.simps)
  have copy: "copy_rule [gr_elem GR_CHAR 98, gr_elem GR_END 0] = ret [gr_elem GR_CHAR 98, gr_elem GR_END 0]"
    by (simp add: copy_rule_def gr_elem_def elem_def)
  have "parse_entry None ''root'' ''a ::= root{0} [b]'' = ret (Some \<lparr>ce_rules = [[gr_elem GR_CHAR 98, gr_elem GR_END 0]], ce_root_index = 1\<rparr>)"
    using parsed check copy by (simp add: parse_entry_def of_check_def rbind_def ret_def c_str_def)
  then show ?thesis
    by (simp add: llama_grammar_init_impl_def Let_def cache_find_def empty_cache_def build_grammar_def start_stacks_def rbind_def ret_def)
qed

section \<open>Clones\<close>

text \<open>A stack entry that points into the old rules points to the same element of the new rules afterwards.\<close>

lemma fold_hit:
  assumes "\<And>j b. j \<in> set js \<Longrightarrow> j \<noteq> i \<Longrightarrow> f j b = b" "\<And>b. f i b = v" "i \<in> set js"
  shows "fold f js b = v"
proof -
  have keep: "set xs \<subseteq> set js \<Longrightarrow> fold f xs v = v" for xs
  proof (induction xs)
    case (Cons j xs)
    then show ?case using assms(1,2) by (cases "j = i") auto
  qed simp
  have "i \<in> set xs \<Longrightarrow> set xs \<subseteq> set js \<Longrightarrow> fold f xs b = v" for xs
  proof (induction xs arbitrary: b)
    case (Cons j xs)
    then show ?case using assms(1,2) keep[of xs] by (cases "j = i") auto
  qed simp
  then show ?thesis using assms(3) by blast
qed

lemma fold_miss: "(\<And>j b. j \<in> set js \<Longrightarrow> f j b = b) \<Longrightarrow> fold f js b = b"
  by (induction js) auto

lemma redirect_element:
  assumes "inj old_base" "r < length rules" "i < length (rules ! r)"
  shows "redirect old_base new_base rules (old_base r, i) = (new_base r, i)"
  unfolding redirect_def
proof (rule fold_hit[where i = r])
  show "fold (\<lambda>ir1 a'. if (old_base r, i) = (old_base j, ir1) then (new_base j, ir1) else a') [0..<length (rules ! j)] b = b" if "j \<noteq> r" for j b
    using that assms(1) by (intro fold_miss) (auto dest: injD)
  show "fold (\<lambda>ir1 a'. if (old_base r, i) = (old_base r, ir1) then (new_base r, ir1) else a') [0..<length (rules ! r)] b = (new_base r, i)" for b
    using assms(3) by (intro fold_hit[where i = i]) auto
qed (use assms(2) in simp)

section \<open>Witnesses\<close>

theorem cache_transparent_witness:
  "let c = snd (llama_grammar_init_impl (\<lambda>_. None) (\<lambda>_. True) 0 demo_text ''root'' False [] [] empty_cache) in
   fst (llama_grammar_init_impl (\<lambda>_. None) (\<lambda>_. True) 0 demo_text ''x'' False [] [] c) =
     fst (llama_grammar_init_impl (\<lambda>_. None) (\<lambda>_. True) 0 demo_text ''x'' False [] [] empty_cache) \<and>
   length (pc_entries (snd (llama_grammar_init_impl (\<lambda>_. None) (\<lambda>_. True) 0 demo_text ''x'' False [] [] c))) \<le> 16"
proof -
  have "root_ok ''root''" "root_ok ''x''" by (simp_all add: root_ok_def c_str_def)
  then show ?thesis
    unfolding Let_def by (intro cache_transparent[where H = "insert (0, None) {}"] cache_init[where vocabs = "\<lambda>_. None"] cache_start) simp_all
qed

lemma demo_explicit_empty: "explicit_empty demo_rules"
proof -
  have "\<not> gen demo_rules [NT 0] []"
  proof
    assume "gen demo_rules [NT 0] []"
    then show False using demo_alternatives by (auto elim!: gen_ntE gen_clsE)
  qed
  then show ?thesis using demo_grammar_rules(2) by (auto simp: explicit_empty_def demo_rules_def less_Suc_eq)
qed

theorem text_language_witness:
  "\<exists>g g'. fst (llama_grammar_init_impl (\<lambda>_. None) (\<lambda>_. True) 0 ''root ::= [a] root | [b]'' ''root'' False [] [] empty_cache) = ret (Some g) \<and>
    rfold (\<lambda>c g. llama_grammar_accept g c) [97, 98] g = ret g' \<and> [] \<in> set (g_stacks g')"
proof -
  have parsed: "parse None ''root ::= [a] root | [b]'' = ret (Some \<lparr>gp_symbol_ids = [(''root'', 0)], gp_rules = demo_rules\<rparr>)"
    by (simp add: parse_eval demo_rules_def gr_elem_def)
  have "left_recursion_found demo_rules = Some False"
    by (simp add: left_recursion_found_def demo_rules_def detect_left_recursion.simps)
  then show ?thesis
    using text_language[where vocabs = "\<lambda>_. None" and p = 0 and str = "''root ::= [a] root | [b]''" and name = "''root''" and r = 0
        and regex_ok = "\<lambda>_. True" and patterns = "[]" and lazy = False and tokens = "[]", OF parsed] demo_explicit_empty demo_gen demo_grammar_rules(2)
    by (fastforce simp: c_str_def)
qed

end
