(* ===== verification/GrammarRepeat.thy ===== *)
theory GrammarRepeat
  imports GrammarInit
begin

text \<open>
  The rewriting of repetitions by the grammar parser: the elements and rules that \<open>handle_repetitions\<close>
  produces for \<open>S{m,n}\<close>, \<open>S{m,}\<close>, \<open>S*\<close>, \<open>S+\<close> and \<open>S?\<close> derive exactly the texts that between \<open>m\<close> and \<open>n\<close>
  copies of \<open>S\<close> derive.
\<close>

section \<open>Symbols of concatenated elements\<close>

lemma takeWhile_append_stop: "ys = [] \<or> \<not> P (hd ys) \<Longrightarrow> takeWhile P (xs @ ys) = takeWhile P xs"
  by (induction xs) (cases ys; simp)+

lemma dropWhile_append_stop: "ys = [] \<or> \<not> P (hd ys) \<Longrightarrow> dropWhile P (xs @ ys) = dropWhile P xs @ ys"
  by (induction xs) (cases ys; simp)+

lemma syms_append:
  "\<forall>e \<in> set xs. \<not> is_end_of_sequence e \<Longrightarrow> ys = [] \<or> \<not> is_cont (hd ys) \<Longrightarrow> syms (xs @ ys) = syms xs @ syms ys"
proof (induction xs rule: syms.induct)
  case (2 e es)
  have "\<forall>e \<in> set (dropWhile is_cont es). \<not> is_end_of_sequence e" using 2 by (auto dest: set_dropWhileD)
  then show ?case using 2 takeWhile_append_stop[of ys is_cont es] dropWhile_append_stop[of ys is_cont es] by auto
qed simp

definition item_ok :: "grule \<Rightarrow> bool" where
  "item_ok es \<longleftrightarrow> (\<forall>e \<in> set es. \<not> is_end_of_sequence e) \<and> (es = [] \<or> \<not> is_cont (hd es))"

lemma syms_copies:
  assumes "item_ok es" "ys = [] \<or> \<not> is_cont (hd ys)"
  shows "syms (concat (replicate k es) @ ys) = concat (replicate k (syms es)) @ syms ys"
proof (induction k)
  case (Suc k)
  have "concat (replicate k es) @ ys = [] \<or> \<not> is_cont (hd (concat (replicate k es) @ ys))"
    using assms by (cases k; cases "es = []") (auto simp: item_ok_def)
  then show ?case using assms(1) Suc by (simp add: syms_append item_ok_def)
qed simp

section \<open>The rule of an optional copy\<close>

definition opt_rule :: "grule \<Rightarrow> nat option \<Rightarrow> grule" where
  "opt_rule prev_rule next_rule = prev_rule @ (case next_rule of None \<Rightarrow> [] | Some r \<Rightarrow> [elem GR_RULE_REF r]) @ [elem GR_ALT 0, elem GR_END 0]"

lemma opt_rule_alternatives:
  assumes "r < length rules" "rules ! r = opt_rule es nxt" "item_ok es"
  shows "alternatives rules r = [syms es @ (case nxt of None \<Rightarrow> [] | Some q \<Rightarrow> [NT q]), []]"
proof -
  define body where "body = es @ (case nxt of None \<Rightarrow> [] | Some q \<Rightarrow> [elem GR_RULE_REF q])"
  have end_elem: "is_end_of_sequence (elem t v) \<longleftrightarrow> t \<in> {GR_END, GR_ALT}" for t v by (simp add: is_end_of_sequence_def)
  have rule: "rules ! r = body @ [elem GR_ALT 0, elem GR_END 0]" using assms(2) by (simp add: body_def opt_rule_def)
  have body: "\<forall>e \<in> set body. \<not> is_end_of_sequence e" using assms(3) by (auto simp: body_def item_ok_def end_elem split: option.splits)
  have "takeWhile (\<lambda>e. \<not> is_end_of_sequence e) (rules ! r) = body" using body rule by (simp add: takeWhile_append2 end_elem)
  then have s0: "scan_end (rules ! r) 0 = length body" by (simp add: scan_end_def)
  have s1: "scan_end (rules ! r) (Suc (length body)) = Suc (length body)" by (simp add: scan_end_def rule end_elem)
  have "alts_from (rules ! r) 0 = 0 # alts_from (rules ! r) (Suc (length body))"
    by (rule alts_from_alt[OF s0]) (simp_all add: rule)
  moreover have "alts_from (rules ! r) (Suc (length body)) = [Suc (length body)]"
    by (rule alts_from_last[OF s1]) (simp add: rule nth_append)
  moreover have "rem rules (r, 0) = syms es @ (case nxt of None \<Rightarrow> [] | Some q \<Rightarrow> [NT q])"
  proof -
    have "syms (es @ (case nxt of None \<Rightarrow> [] | Some q \<Rightarrow> [elem GR_RULE_REF q]) @ [elem GR_ALT 0, elem GR_END 0]) =
        syms es @ syms ((case nxt of None \<Rightarrow> [] | Some q \<Rightarrow> [elem GR_RULE_REF q]) @ [elem GR_ALT 0, elem GR_END 0])"
      using assms(3) by (intro syms_append) (auto simp: item_ok_def is_cont_def split: option.splits)
    then show ?thesis by (auto simp: rem_def elems_at_def rule body_def end_elem is_token_element_def split: option.splits)
  qed
  moreover have "rem rules (r, Suc (length body)) = []" by (simp add: rem_def elems_at_def rule end_elem)
  ultimately show ?thesis by (simp add: alternatives_def)
qed

lemma gen_opt_rule:
  assumes "alternatives rules r = [S @ T, []]"
  shows "gen rules [NT r] w \<longleftrightarrow> w = [] \<or> gen rules (S @ T) w"
  by (auto simp: gen_nt_iff assms)

text \<open>A chain of optional copies, as for a maximum, and a single rule that refers to itself, as without one.\<close>

lemma gen_chain:
  assumes "\<And>j. j < n \<Longrightarrow> alternatives rules (base + j) = [S @ (if j = 0 then [] else [NT (base + j - 1)]), []]"
  shows "j < n \<Longrightarrow> gen rules [NT (base + j)] w \<longleftrightarrow> (\<exists>k \<le> Suc j. gen rules (concat (replicate k S)) w)"
proof (induction j arbitrary: w)
  case 0
  have "(\<exists>k \<le> Suc 0. gen rules (concat (replicate k S)) w) \<longleftrightarrow> w = [] \<or> gen rules S w"
    by (auto simp: le_Suc_eq)
  then show ?case using gen_opt_rule[OF assms[OF 0]] by simp
next
  case (Suc j)
  have "gen rules (S @ [NT (base + j)]) w \<longleftrightarrow> (\<exists>k \<le> Suc j. gen rules (S @ concat (replicate k S)) w)"
    using Suc by (auto simp: gen_append)
  also have "\<dots> \<longleftrightarrow> (\<exists>k \<le> Suc j. gen rules (concat (replicate (Suc k) S)) w)" by simp
  finally have s: "gen rules (S @ [NT (base + j)]) w \<longleftrightarrow> (\<exists>k \<le> Suc j. gen rules (concat (replicate (Suc k) S)) w)" .
  have "(\<exists>k \<le> Suc (Suc j). gen rules (concat (replicate k S)) w) \<longleftrightarrow> w = [] \<or> (\<exists>k \<le> Suc j. gen rules (concat (replicate (Suc k) S)) w)"
  proof
    assume "\<exists>k \<le> Suc (Suc j). gen rules (concat (replicate k S)) w"
    then obtain k where k: "k \<le> Suc (Suc j)" "gen rules (concat (replicate k S)) w" by blast
    then show "w = [] \<or> (\<exists>k \<le> Suc j. gen rules (concat (replicate (Suc k) S)) w)" by (cases k) auto
  next
    assume "w = [] \<or> (\<exists>k \<le> Suc j. gen rules (concat (replicate (Suc k) S)) w)"
    then show "\<exists>k \<le> Suc (Suc j). gen rules (concat (replicate k S)) w"
      by (metis Suc_le_mono concat.simps(1) gen_nil_iff le0 replicate_0)
  qed
  then show ?case using gen_opt_rule[OF assms[OF Suc.prems]] s by simp
qed

lemma gen_loop:
  assumes alts: "alternatives rules r = [S @ [NT r], []]"
  shows "gen rules [NT r] w \<longleftrightarrow> (\<exists>k. gen rules (concat (replicate k S)) w)"
proof
  have "gen rules ss w \<Longrightarrow> ss = T @ [NT r] \<Longrightarrow> \<exists>k. gen rules (T @ concat (replicate k S)) w" for ss T
  proof (induction ss w arbitrary: T rule: gen.induct)
    case (gen_cls cls c ss w)
    then obtain T' where T': "T = Cls cls # T'" "ss = T' @ [NT r]" by (cases T) auto
    then show ?case using gen_cls.IH[OF T'(2)] gen_cls.hyps(1) by (auto intro: gen.gen_cls)
  next
    case (gen_nt alt q u ss v)
    show ?case
    proof (cases T)
      case Nil
      then have q: "q = r" "v = []" using gen_nt.prems gen_nt.hyps(3) by auto
      show ?thesis
      proof (cases "alt = []")
        case True
        then have "u = []" using gen_nt.hyps(2) by simp
        then show ?thesis using q Nil by (intro exI[of _ 0]) simp
      next
        case False
        then have "alt = S @ [NT r]" using gen_nt.hyps(1) alts q by auto
        then obtain k where "gen rules (S @ concat (replicate k S)) u" using gen_nt.IH(1) by blast
        then show ?thesis using q Nil by (intro exI[of _ "Suc k"]) simp
      qed
    next
      case (Cons x T')
      then have T': "T = NT q # T'" "ss = T' @ [NT r]" using gen_nt.prems by auto
      then show ?thesis using gen_nt.IH(2)[OF T'(2)] gen_nt.hyps(1,2) by (auto intro: gen.gen_nt)
    qed
  qed simp
  from this[of "[NT r]" "[]"] show "gen rules [NT r] w \<Longrightarrow> \<exists>k. gen rules (concat (replicate k S)) w" by simp
next
  have "gen rules (concat (replicate k S)) w \<Longrightarrow> gen rules [NT r] w" for k
  proof (induction k arbitrary: w)
    case 0
    then show ?case using gen_opt_rule[OF alts] by simp
  next
    case (Suc k)
    then have "gen rules (S @ [NT r]) w" by (auto simp: gen_append)
    then show ?case using gen_opt_rule[OF alts] by simp
  qed
  then show "\<exists>k. gen rules (concat (replicate k S)) w \<Longrightarrow> gen rules [NT r] w" by blast
qed

section \<open>The generated rules\<close>

definition ids_below :: "llama_grammar_parser \<Rightarrow> bool" where
  "ids_below ps \<longleftrightarrow> (\<forall>v \<in> ids ps. v < length (gp_symbol_ids ps))"

lemma generate_fresh:
  assumes "generate_symbol_id ps name = (i, ps')" "sym_ok ps" "name_ok name" "ids_below ps" "length (gp_symbol_ids ps) < 2 ^ 32"
  shows "i = length (gp_symbol_ids ps)" "length (gp_symbol_ids ps') = Suc i" "gp_rules ps' = gp_rules ps" "sym_ok ps'" "ids_below ps'"
proof -
  note c = generate_symbol_id_cases[OF assms(1,2) assms(3)[unfolded name_ok_def]]
    and p = generate_symbol_id_props[OF assms(1,2) assms(3)[unfolded name_ok_def]]
  show i: "i = length (gp_symbol_ids ps)" using c(2) assms(5) by simp
  have "(k, i) \<notin> set (gp_symbol_ids ps)" for k
    using assms(4) i by (auto simp: ids_below_def ids_def)
  then obtain k where k: "gp_symbol_ids ps' = gp_symbol_ids ps @ [(k, i)]" using c(3) by blast
  then show "length (gp_symbol_ids ps') = Suc i" using i by simp
  show "gp_rules ps' = gp_rules ps" "sym_ok ps'" using p by auto
  show "ids_below ps'" using assms(4) k i by (auto simp: ids_below_def ids_def less_SucI)
qed

lemma add_rule_nth:
  "gp_rules (add_rule ps i rule) ! i = rule" "i < length (gp_rules (add_rule ps i rule))"
  "j \<noteq> i \<Longrightarrow> j < length (gp_rules ps) \<Longrightarrow> gp_rules (add_rule ps i rule) ! j = gp_rules ps ! j"
  "length (gp_rules ps) \<le> length (gp_rules (add_rule ps i rule))"
  by (auto simp: add_rule_def Let_def nth_append)

text \<open>What the \<open>j\<close>-th of the generated rules refers to.\<close>

definition next_opt :: "bool \<Rightarrow> nat \<Rightarrow> nat \<Rightarrow> nat \<Rightarrow> nat \<Rightarrow> nat option" where
  "next_opt no_max i last_id base j =
     (if no_max then Some (base + j) else if j > 0 then Some (base + j - 1) else if i > 0 then Some last_id else None)"

lemma opt_rules_generated:
  "opt_rules n i no_max name es last_id ps = (last_id', ps') \<Longrightarrow> sym_ok ps \<Longrightarrow> ids_below ps \<Longrightarrow> name_ok name \<Longrightarrow>
    length (gp_symbol_ids ps) = base \<Longrightarrow> base + n \<le> 2 ^ 32 \<Longrightarrow>
    length (gp_symbol_ids ps') = base + n \<and> length (gp_rules ps) \<le> length (gp_rules ps') \<and>
    (\<forall>r < base. r < length (gp_rules ps) \<longrightarrow> gp_rules ps' ! r = gp_rules ps ! r) \<and>
    (\<forall>j < n. base + j < length (gp_rules ps') \<and> gp_rules ps' ! (base + j) = opt_rule es (next_opt no_max i last_id base j)) \<and>
    (n > 0 \<longrightarrow> last_id' = base + n - 1)"
proof (induction n arbitrary: i last_id ps base)
  case (Suc n)
  obtain r ps1 where g: "generate_symbol_id ps name = (r, ps1)" by force
  have r: "r = base" "length (gp_symbol_ids ps1) = Suc base" "gp_rules ps1 = gp_rules ps" "sym_ok ps1" "ids_below ps1"
    using generate_fresh[OF g Suc.prems(2,4,3)] Suc.prems(5,6) by auto
  define rule where "rule = opt_rule es (next_opt no_max i last_id base 0)"
  define ps2 where "ps2 = add_rule ps1 base rule"
  have ps2: "sym_ok ps2" "ids_below ps2" "length (gp_symbol_ids ps2) = Suc base" "gp_rules ps2 ! base = rule" "base < length (gp_rules ps2)"
      "\<And>j. j < base \<Longrightarrow> j < length (gp_rules ps) \<Longrightarrow> gp_rules ps2 ! j = gp_rules ps ! j" "length (gp_rules ps) \<le> length (gp_rules ps2)"
    using r add_rule_nth[where ps = ps1 and i = base and rule = rule] by (auto simp: ps2_def ids_below_def)
  have "opt_rules n (i + 1) no_max name es base ps2 = (last_id', ps')"
    using Suc.prems(1) g r(1) by (cases "i = 0"; cases no_max) (simp_all add: ps2_def rule_def opt_rule_def next_opt_def)
  from Suc.IH[OF this ps2(1,2) Suc.prems(4) ps2(3)] Suc.prems(6)
  have ih: "length (gp_symbol_ids ps') = Suc base + n" "length (gp_rules ps2) \<le> length (gp_rules ps')"
      "\<And>r. r < Suc base \<Longrightarrow> r < length (gp_rules ps2) \<Longrightarrow> gp_rules ps' ! r = gp_rules ps2 ! r"
      "\<And>j. j < n \<Longrightarrow> Suc base + j < length (gp_rules ps') \<and> gp_rules ps' ! (Suc base + j) = opt_rule es (next_opt no_max (i + 1) base (Suc base) j)"
      "n > 0 \<Longrightarrow> last_id' = Suc base + n - 1" "n = 0 \<Longrightarrow> last_id' = base"
    using \<open>opt_rules n (i + 1) no_max name es base ps2 = (last_id', ps')\<close> by auto
  have shift: "next_opt no_max (i + 1) base (Suc base) j = next_opt no_max i last_id base (Suc j)" for j
    by (simp add: next_opt_def)
  have "base + j < length (gp_rules ps') \<and> gp_rules ps' ! (base + j) = opt_rule es (next_opt no_max i last_id base j)" if "j < Suc n" for j
  proof (cases j)
    case 0
    then show ?thesis using ih(2) ih(3)[of base] ps2(4,5) by (simp add: rule_def)
  next
    case (Suc k)
    then show ?thesis using ih(4)[of k] that shift[of k] by simp
  qed
  then show ?case using ih(1-3,5,6) ps2(5-7) by (cases "n = 0") auto
qed simp

lemma drop_repeat_base:
  assumes "sq_last_sym_start st \<le> length (sq_rule st)"
  shows "drop (sq_last_sym_start st) (repeat_base m st @ xs) = concat (replicate m (drop (sq_last_sym_start st) (sq_rule st))) @ xs"
  using assms by (cases m) (auto simp: repeat_base_def)

lemma handle_repetitions_success:
  assumes "handle_repetitions name m n st = ret st'"
    "opt_rules (n_opt m n) 0 (n = UINT64_MAX) name (drop (sq_last_sym_start st) (sq_rule st)) 0 (sq_parser st) = (l, ps)"
  shows "sq_rule st' = repeat_base m st @ (if n_opt m n > 0 then [elem GR_RULE_REF l] else [])" "sq_parser st' = ps"
proof -
  let ?u = "u64 (sq_n_prev_rules st * total_rules m n)"
  have "sq_last_sym_start st \<noteq> length (sq_rule st)" "\<not> ?u > MAX_REPETITION_THRESHOLD"
    using assms(1) unfolding handle_repetitions_def Let_def by (auto simp: throw_def ret_def split: if_splits)
  moreover from this have "?u \<ge> 1"
    using assms(1) unfolding handle_repetitions_def Let_def by (auto simp: throw_def ret_def split: if_splits prod.splits)
  ultimately have "handle_repetitions name m n st = ret (st\<lparr>sq_rule := repeat_base m st @ (if n_opt m n > 0 then [elem GR_RULE_REF l] else []),
      sq_n_prev_rules := ?u, sq_parser := ps\<rparr>)"
    by (intro handle_repetitions_ret) (use assms(2) in auto)
  then show "sq_rule st' = repeat_base m st @ (if n_opt m n > 0 then [elem GR_RULE_REF l] else [])" "sq_parser st' = ps"
    using assms(1) by (auto simp: ret_def)
qed

text \<open>C11: A repetition of an item at least \<open>m\<close> and at most \<open>n\<close> times is rewritten to elements and rules that derive exactly
  the texts that some number of copies of the item between \<open>m\<close> and \<open>n\<close> derives, in every grammar that contains the
  generated rules; without a maximum every number of copies from \<open>m\<close> on is allowed.\<close>

theorem repetition_language:
  assumes st: "seq_ok st" "ids_below (sq_parser st)" "item_ok (drop (sq_last_sym_start st) (sq_rule st))" and name: "name_ok name"
    and bounds: "n = UINT64_MAX \<or> m \<le> n \<and> n \<le> 2000" "length (gp_symbol_ids (sq_parser st)) + 2000 < 2 ^ 32"
    and returned: "handle_repetitions name m n st = ret st'"
    and rules: "\<forall>r. length (gp_symbol_ids (sq_parser st)) \<le> r \<and> r < length (gp_symbol_ids (sq_parser st')) \<longrightarrow>
      r < length rules \<and> rules ! r = gp_rules (sq_parser st') ! r"
  shows "gen rules (syms (drop (sq_last_sym_start st) (sq_rule st'))) w \<longleftrightarrow>
    (\<exists>k. m \<le> k \<and> (n = UINT64_MAX \<or> k \<le> n) \<and>
      gen rules (concat (replicate k (syms (drop (sq_last_sym_start st) (sq_rule st))))) w)"
proof -
  define es where "es = drop (sq_last_sym_start st) (sq_rule st)"
  define S where "S = syms es"
  define base where "base = length (gp_symbol_ids (sq_parser st))"
  define d where "d = n_opt m n"
  obtain l ps where o: "opt_rules d 0 (n = UINT64_MAX) name es 0 (sq_parser st) = (l, ps)" by force
  have st': "sq_rule st' = repeat_base m st @ (if d > 0 then [elem GR_RULE_REF l] else [])" "sq_parser st' = ps"
    using handle_repetitions_success[OF returned] o by (auto simp: d_def es_def)
  have d: "d = (if n = UINT64_MAX then 1 else n - m)" "d \<le> 2000"
    using bounds(1) by (auto simp: d_def n_opt_def u64_sub_def nat_diff_distrib mod_pos_pos_trivial)
  have le: "sq_last_sym_start st \<le> length (sq_rule st)" and sym: "sym_ok (sq_parser st)" using st(1) by (auto simp: seq_ok_def parser_ok_def)
  have gend: "length (gp_symbol_ids ps) = base + d"
      "\<And>j. j < d \<Longrightarrow> gp_rules ps ! (base + j) = opt_rule es (next_opt (n = UINT64_MAX) 0 0 base j)" "d > 0 \<Longrightarrow> l = base + d - 1"
    using opt_rules_generated[OF o sym st(2) name, of base] bounds(2) d(2) by (auto simp: base_def)
  have alts: "alternatives rules (base + j) = [S @ (case next_opt (n = UINT64_MAX) 0 0 base j of None \<Rightarrow> [] | Some q \<Rightarrow> [NT q]), []]"
    if "j < d" for j
    unfolding S_def using rules gend(1,2) that st(3) st'(2)
    by (intro opt_rule_alternatives) (auto simp: base_def es_def)
  have "syms (drop (sq_last_sym_start st) (sq_rule st')) = concat (replicate m S) @ (if d > 0 then [NT l] else [])"
    unfolding st'(1) drop_repeat_base[OF le] es_def[symmetric] S_def
    using st(3) by (subst syms_copies) (auto simp: es_def is_cont_def is_end_of_sequence_def)
  moreover have "gen rules [NT l] v \<longleftrightarrow> (\<exists>j. (n = UINT64_MAX \<or> j \<le> d) \<and> gen rules (concat (replicate j S)) v)" if "d > 0" for v
  proof (cases "n = UINT64_MAX")
    case True
    then have "l = base" "alternatives rules base = [S @ [NT base], []]"
      using gend(3) d alts[of 0] that by (auto simp: next_opt_def)
    then show ?thesis using gen_loop True by simp
  next
    case False
    have "alternatives rules (base + j) = [S @ (if j = 0 then [] else [NT (base + j - 1)]), []]" if "j < d" for j
      using alts[OF that] False by (simp add: next_opt_def)
    from gen_chain[of d, OF this, of "d - 1" v] show ?thesis using gend(3)[OF that] that False by simp
  qed
  moreover have copies: "gen rules (concat (replicate m S) @ xs) w \<longleftrightarrow> (\<exists>j. P j \<and> gen rules (concat (replicate (m + j) S)) w)"
    if "\<And>v. gen rules xs v \<longleftrightarrow> (\<exists>j. P j \<and> gen rules (concat (replicate j S)) v)" for xs P
    unfolding gen_append replicate_add concat_append that by blast
  ultimately have "gen rules (syms (drop (sq_last_sym_start st) (sq_rule st'))) w \<longleftrightarrow>
      (\<exists>j. (n = UINT64_MAX \<or> j \<le> d) \<and> gen rules (concat (replicate (m + j) S)) w)"
    using d(1) copies by simp
  also have "\<dots> \<longleftrightarrow> (\<exists>k. m \<le> k \<and> (n = UINT64_MAX \<or> k \<le> n) \<and> gen rules (concat (replicate k S)) w)"
  proof
    assume "\<exists>j. (n = UINT64_MAX \<or> j \<le> d) \<and> gen rules (concat (replicate (m + j) S)) w"
    then obtain j where "n = UINT64_MAX \<or> j \<le> d" "gen rules (concat (replicate (m + j) S)) w" by blast
    then show "\<exists>k. m \<le> k \<and> (n = UINT64_MAX \<or> k \<le> n) \<and> gen rules (concat (replicate k S)) w"
      using d(1) bounds(1) by (intro exI[of _ "m + j"]) (auto split: if_splits)
  next
    assume "\<exists>k. m \<le> k \<and> (n = UINT64_MAX \<or> k \<le> n) \<and> gen rules (concat (replicate k S)) w"
    then obtain k where "m \<le> k" "n = UINT64_MAX \<or> k \<le> n" "gen rules (concat (replicate k S)) w" by blast
    then show "\<exists>j. (n = UINT64_MAX \<or> j \<le> d) \<and> gen rules (concat (replicate (m + j) S)) w"
      using d(1) by (intro exI[of _ "k - m"]) auto
  qed
  finally show ?thesis by (simp add: S_def es_def)
qed

text \<open>A maximum below the minimum is not refused: the number of optional copies wraps around.\<close>

lemma max_below_min_wraps: "n_opt 3 2 = 2 ^ 64 - 1"
  by (simp add: n_opt_def u64_sub_def UINT64_MAX_def)

section \<open>Witness\<close>

definition rep_state :: seq_state where
  "rep_state = \<lparr>sq_pos = [], sq_rule = [elem GR_CHAR 97], sq_last_sym_start = 0, sq_n_prev_rules = 1,
     sq_parser = \<lparr>gp_symbol_ids = [(''root'', 0)], gp_rules = []\<rparr>\<rparr>"

theorem repetition_language_witness:
  "\<exists>st'. handle_repetitions ''root'' 1 2 rep_state = ret st' \<and>
    (\<forall>w. gen (gp_rules (sq_parser st')) (syms (sq_rule st')) w \<longleftrightarrow>
      (\<exists>k. 1 \<le> k \<and> k \<le> 2 \<and> gen (gp_rules (sq_parser st')) (concat (replicate k (syms [elem GR_CHAR 97]))) w))"
proof -
  have st: "seq_ok rep_state" "ids_below (sq_parser rep_state)" "item_ok (drop (sq_last_sym_start rep_state) (sq_rule rep_state))"
    by (simp_all add: rep_state_def seq_ok_def parser_ok_def sym_ok_def ids_below_def ids_def item_ok_def is_end_of_sequence_def is_cont_def)
  obtain st' where st': "handle_repetitions ''root'' 1 2 rep_state = ret st'" "length (gp_symbol_ids (sq_parser st')) = 2"
      "length (gp_rules (sq_parser st')) = 2"
    by (simp add: rep_state_def parse_eval)
  have "UINT64_MAX \<noteq> 2" "name_ok ''root''" by (simp_all add: UINT64_MAX_def name_ok_def)
  moreover have "sq_last_sym_start rep_state = 0" "sq_rule rep_state = [elem GR_CHAR 97]" "length (gp_symbol_ids (sq_parser rep_state)) = 1"
    by (simp_all add: rep_state_def)
  ultimately show ?thesis
    using repetition_language[OF st _ _ _ st'(1), of "gp_rules (sq_parser st')"] st' by fastforce
qed

end
