(* ===== verification/Spec2Isabelle.thy ===== *)
theory Spec2Isabelle
  imports KvIswaReach Hybrid Store ExpertCacheOk GrammarReject GrammarRepeat
begin

text \<open>
  VITRIOL is a fork of the llama.cpp inference engine. This development models the parts of its C++ code
  that decide what the engine remembers and what it may say: the batches of input
  tokens (\<open>engine/src/llama-batch.cpp\<close>), the metadata of the KV cache (\<open>engine/src/llama-kv-cells.h\<close>,
  \<open>llama-kv-cache.cpp\<close>) and of the pair of caches for sliding-window models (\<open>llama-kv-cache-iswa.cpp\<close>), the
  memory of recurrent models and of models with both kinds of layers (\<open>llama-memory-recurrent.cpp\<close>, \<open>llama-memory-hybrid.cpp\<close>), the raw store for expert weights
  (\<open>engine/ggml/src/ggml-cuda/vitriol-store.cpp\<close>), the cache of experts in memory with its parser of model files
  (\<open>src/vitriol-expert-cache.cpp\<close>, \<open>src/vitriol-moe-expert-parser.cpp\<close>) and the grammars that constrain sampling
  (\<open>engine/src/llama-grammar.cpp\<close>).

  \<^bold>\<open>How the parts interact.\<close> A batch of tokens is checked, completed (\<open>llama_batch_allocr::init\<close>) and
  cut into ubatches; \<open>llama_kv_cache::init_batch\<close> does this for the cache. The cache searches cells for them
  (\<open>find_slot\<close>), evicts cells with low attention scores if there are none (\<open>evict_sparse\<close>), writes the
  tokens into the cells (\<open>apply_ubatch\<close>) and can do so first as a dry run (\<open>prepare\<close>). The sequence
  operations remove, copy, shift and divide the positions of sequences. A model with sliding-window layers has two
  such caches, which get the same operations and the same ubatches; a context applies a batch to both, ubatch by ubatch; the eager sweep and the
  attention probe act on each alone. A recurrent model keeps one state per
  sequence instead of one cell per token; its memory moves the cells of the sequences of a ubatch next to each other and says from which cell
  each of them loads its state. A model with attention and recurrent layers has a KV cache and a recurrent memory. While the next token is sampled, a
  grammar masks the candidates that cannot continue a text of its language (\<open>llama_grammar_apply_impl\<close>) and
  follows the token that was chosen (\<open>llama_grammar_accept_impl\<close>); its rules come from a text that a
  parser translates, with a process-wide cache of parsed texts. The expert store is formatted once and
  then read block by block, synchronously or through io_uring. The expert cache keeps a bounded number
  of experts in buffers and evicts one when another is asked for.

  \<^bold>\<open>Theories and sources.\<close>
  \<^item> \<open>Prelude\<close>: names for the machine types, unsigned wrap-around, errors, lemmas on lists and folds.
  \<^item> \<open>KvCells\<close>: the class \<open>llama_kv_cells\<close>, every member function. The record \<open>llama_kv_cells\<close> keeps the
    vectors and the derived indices (\<open>used\<close>, \<open>seq_pos\<close>) of the class; \<open>cells_wf\<close> says that they agree.
    The locale \<open>cell_sweep\<close> is the contract of a loop over all cells.
  \<^item> \<open>KvSeq\<close>: state, construction, clearing and the operations \<open>seq_rm\<close>, \<open>seq_cp\<close>, \<open>seq_keep\<close>, \<open>seq_add\<close>,
    \<open>seq_div\<close>, \<open>seq_pos_min\<close>, \<open>seq_pos_max\<close>; each body is an interpretation of \<open>cell_sweep\<close>. A property
    describes an operation by what it does to the view \<open>kv_view\<close> (sequence, position, cell) of a stream.
  \<^item> \<open>KvEvict\<close>: scores, eviction, the retention policy and the attention probe. The locale \<open>score_sort\<close> is
    what the code relies on of \<open>std::sort\<close>.
  \<^item> \<open>KvSlot\<close>, \<open>KvApply\<close>: slots, ubatches, the dry run; what they do to the cells.
  \<^item> \<open>Batch\<close>: \<open>llama_batch_allocr\<close>: validation, missing positions and outputs, consistency checks, the splits
    \<open>split_simple\<close>, \<open>split_equal\<close>, \<open>split_seq\<close> and \<open>ubatch_add\<close>. What a split selects is separated from the
    ubatch made of it.
  \<^item> \<open>BatchSplit\<close>: the locale \<open>splitter\<close> is the contract of a split, with the partition of the tokens proved in it once;
    all three splits interpret it. \<open>equal_selection\<close> describes what an equal split takes.
  \<^item> \<open>BatchInit\<close>: which batches are accepted, and the generated positions.
  \<^item> \<open>KvInitBatch\<close>: \<open>init_batch\<close> of the cache, from the accepted batch to the slots.
  \<^item> \<open>KvCache\<close>: pending shifts and the visible window.
  \<^item> \<open>KvDryRun\<close>: what the dry run can leave of a cache with a window or with eviction: cells only lose entries (\<open>kv_below\<close>).
  \<^item> \<open>KvContext\<close>: \<open>llama_kv_cache_context\<close> and \<open>llama_memory_status_combine\<close>; a slot that a context has saved fits the cache whatever
    happens to it (\<open>context_fits\<close>).
  \<^item> \<open>KvReach\<close>: the step relation \<open>kv_reachable\<close> over all operations of one cache and the contexts it has handed out.
  \<^item> \<open>KvIswa\<close>: \<open>llama_kv_cache_iswa\<close> and its contexts.
  \<^item> \<open>KvIswaOk\<close>, \<open>KvIswaReach\<close>: the locale \<open>pair_op\<close> is the contract of an operation that treats the entries of every cache alike,
    interpreted by the sequence operations; the step relation \<open>iswa_reachable\<close> of the two caches, which are swept and probed one by one.
  \<^item> \<open>Recurrent\<close>: \<open>llama_memory_recurrent\<close> and its contexts. \<open>find_slot\<close> is cut into the loops of the code: check, search for an empty
    cell, a cell for every set, gathering, positions, sources.
  \<^item> \<open>RecurrentOk\<close>, \<open>RecurrentSlot\<close>, \<open>RecurrentReach\<close>: these loops one after the other; \<open>tails_but\<close> is the agreement of cells and tails with
    sequences under way excepted, \<open>rec_wf\<close> the invariant.
  \<^item> \<open>RecurrentLoad\<close>: how the graph loads the states of a ubatch (\<open>set_input\<close> and \<open>build_rs\<close> of \<open>engine/src/llama-graph.cpp\<close>); \<open>state_row\<close> is the
    row of the current state of a sequence, rollback included.
  \<^item> \<open>RecurrentSeq\<close>: the operations on sequences; \<open>RecurrentBatch\<close>: the step relation \<open>rec_reachable\<close> and whole batches.
  \<^item> \<open>Hybrid\<close>: \<open>llama_memory_hybrid\<close>: the KV cache and the recurrent memory under the same operations and ubatches.
  \<^item> \<open>Store\<close>: layout, CRC, formatting, opening, reading and writing over a device given by the locale
    \<open>block_dev\<close>; damage to a block is a change of one of its bytes.
  \<^item> \<open>Decimal\<close>: decimal numbers as the C++ library prints and reads them.
  \<^item> \<open>ExpertParser\<close>: opening a model file, lookups, sizes and reading of expert tensors.
  \<^item> \<open>ExpertCache\<close>, \<open>ExpertCacheOk\<close>: the cache with its entries as objects on a heap; \<open>ec_wf\<close> is its invariant, the
    locale \<open>fifo_store\<close> the contract of a bounded queue of items, interpreted by \<open>expert_cache_get\<close>.
  \<^item> \<open>Utf8\<close>: the two decoders of \<open>llama-grammar.cpp\<close> and an encoder as their specification.
  \<^item> \<open>Grammar\<close>: elements, rules and stacks, the matcher, candidate rejection, the left recursion check,
    sampling with lazy triggers. A pointer to an element is a pair of rule number and index.
  \<^item> \<open>GrammarLang\<close>: rules as a context-free grammar (\<open>gen\<close>) and the language of a set of stacks.
  \<^item> \<open>GrammarReject\<close>: \<open>llama_grammar_apply_impl\<close> against \<open>llama_grammar_accept_token\<close>.
  \<^item> \<open>GrammarLeftRec\<close>: what the left recursion check guarantees, and a grammar it misses.
  \<^item> \<open>GrammarParse\<close>, \<open>GrammarParseOk\<close>: the parser, that it returns, and the shape of its rules; \<open>outcome\<close> is a
    weakest precondition for results that may be exceptions.
  \<^item> \<open>GrammarInit\<close>: both constructors, the parse cache (an interpretation of the locale \<open>memo_table\<close>),
    clones and trigger positions. The history of a cache records which vocabulary was at which address.
  \<^item> \<open>GrammarRepeat\<close>: the language of a rewritten repetition.

  \<^bold>\<open>What is shown.\<close> Every reachable state of the cache is well-formed; each operation does what its name
  says to the cells and leaves the rest; a found slot consists of the first usable cells, and placing a
  ubatch puts every token into its cell; without a window and without eviction the dry run restores the cells; eviction frees cells of lowest
  score, keeps the protected ones and makes room. In the pair of caches the one without a window holds whatever the other holds, unless it ejects cells alone. The recurrent
  memory finds a cell for every sequence of a batch, the graph continues each of them from its own state when cells trade places, and after a batch every sequence
  stands at its last token; removing a range from the hybrid memory is all or nothing. A batch is accepted exactly if its positions continue the
  memory; splitting it deals every token to one ubatch of the promised shape, and the ubatches meet what the
  search for slots asserts. A formatted store opens again with the descriptors it was
  given, written experts read back, damage of one byte is repaired or detected, slots do not overlap. A
  lookup in the expert cache returns the buffer of the expert asked for and evicts the expert loaded first (the order of the queue does not change
  with use, although the code speaks of LRU), unless its read of the deleted entry faults; loading a
  layer keeps what was loaded last. A
  grammar text always parses or fails, its rules are well-formed, repetitions derive what they should,
  and the constructed grammar accepts exactly the texts of its language, whatever the cache of parsed
  grammars holds as long as an address stands for one vocabulary; decoding is independent of how a text is cut into pieces; without token elements a token is masked exactly if
  accepting it would fail. Where the code departs from this, a theorem exhibits the departure: the sign of
  the shift recorded by \<open>pos_div\<close>, the head restored by \<open>prepare\<close>, the completion left behind by the
  asynchronous read, a left-recursive grammar that passes the check, a token element inside a piece, a
  start symbol without a rule, a ubatch with one token too many, lookups in the expert cache that do not return,
  removals for all sequences that the hybrid memory refuses, a sweep that leaves the windowed cache with positions the other has lost, a cached grammar
  with the tokens of a vocabulary that is gone, model files that are refused for their correct magic number.

  \<^bold>\<open>Fuel and partiality.\<close> \<open>advance_loop\<close> is a partial function, as the loop need not end; it is shown to
  return on every well-formed grammar without left recursion. \<open>reject_for_stack\<close> takes fuel above the
  number of code points of a candidate, \<open>detect_left_recursion\<close> above the number of rules, the parser the
  length of the text; each is shown to be enough. The search loops of the recurrent memory visit each cell once, and its
  decoding loop has one round per ubatch. The search loop of \<open>find_slot\<close> has the bound the code
  itself tests; the loop of \<open>init_batch\<close> takes one round more than there are tokens, as each split takes a token. The eviction loop of the expert cache
  (\<open>evict_until\<close>) is a partial function, shown to return after at most one round on a well-formed cache and not to return
  on a cache that is \<open>stuck\<close>. In results of the grammar \<open>None\<close> is a call that does not return and \<open>Inl\<close> an exception, an
  abort or an access out of range.

  \<^bold>\<open>Parameters.\<close> The sorting algorithm and the rounding of floats in the cache, the device and io_uring in
  the store, the rows of state tensors, the memory allocator, the clock and the file system of the expert cache, and the vocabulary, the regular expressions and the addresses of objects in the grammar.

  \<^bold>\<open>Not modelled.\<close> Tensors, graphs and device buffers of the cache and the saving and loading of its state:
  they move data of other components. Allocation failure and locking: the code takes no decision on them
  beyond what the sequential model has. The printing of grammars. Signed overflow of positions, which C++
  leaves undefined (also in \<open>seq_add\<close> of the recurrent memory). The containers of the expert cache, which lie in zeroed
  memory without being constructed, are taken as empty ones. A cache built over another one (\<open>mem_other\<close>) resizes and clears cells that belong to
  both; the properties of reachable states are about caches with cells of their own. Of the rest of the engine: the caches of single model families (dsa, dsv4, msa), model loading,
  numeric kernels, tokenizers, samplers, servers, tools and the programs in other languages are out of scope.
\<close>

end
